(* ===== verification/Bench_Prelude.thy ===== *)
theory Bench_Prelude
  imports Main "HOL-Library.Word"
begin

text \<open>
  Shared vocabulary of the development: the machine integer types of
  \<^verbatim>\<open>libvsync/include/vsync/vtypes.h\<close>, thread identifiers, the fact collections the
  component theories fill, and the generic lemmas on words, lists and updates that
  several components use.
\<close>

unbundle bit_operations_syntax

section \<open>Types and collections\<close>

type_synonym u8 = "8 word"
type_synonym u32 = "32 word"
type_synonym u64 = "64 word"
type_synonym tid = nat

named_theorems vatomic_simps \<open>definitions of the atomic operations\<close>
named_theorems lock_simps \<open>definitions of the operations of the lock under proof\<close>
named_theorems queue_simps \<open>definitions of the queue operations\<close>

section \<open>Words\<close>

lemma word_of_nat_inj_on:
  assumes "i < 2 ^ LENGTH('a)" and "j < 2 ^ LENGTH('a)"
    and "(of_nat i :: 'a::len word) = of_nat j"
  shows "i = j"
  using assms by (simp add: word_of_nat_eq_iff take_bit_nat_eq_self)

lemma word_add_of_nat_eq_iff:
  assumes "i < 2 ^ LENGTH('a)" and "j < 2 ^ LENGTH('a)"
  shows "(w + of_nat i = w + (of_nat j :: 'a::len word)) \<longleftrightarrow> i = j"
  using assms by (auto dest: word_of_nat_inj_on)

lemma word_add_of_nat_eq_self_iff:
  assumes "i < 2 ^ LENGTH('a)"
  shows "(w + (of_nat i :: 'a::len word) = w) \<longleftrightarrow> i = 0"
  using word_add_of_nat_eq_iff [OF assms, of 0 w] by simp

lemma u32_lt: "unat (w :: u32) < 2 ^ 32"
  using unsigned_less [of w] by simp

lemma unat_add_of_nat:
  "unat (w + of_nat n :: 'a::len word) = (unat w + n) mod 2 ^ LENGTH('a)"
proof -
  have "w + of_nat n = of_nat (unat w + n)" by simp
  then show ?thesis by (simp only: unat_of_nat)
qed

lemma unat_add_of_nat_mod_dvd:
  assumes "k dvd 2 ^ LENGTH('a)"
  shows "unat (w + of_nat n :: 'a::len word) mod k = (unat w + n) mod k"
  using assms by (simp add: unat_add_of_nat mod_mod_cancel)

text \<open>Two indices of the same window of \<open>n\<close> numbers have different slots.\<close>

lemma window_mod_inj:
  fixes n :: nat
  assumes "i mod n = j mod n" and "i \<le> j" and "j < i + n"
  shows "i = j"
proof -
  have "n dvd j - i" using mod_eq_dvd_iff_nat [of i j n] assms(1,2) by simp
  with assms(2,3) show ?thesis by (auto dest: dvd_imp_le)
qed

lemma word_zero_iff_even_odd: "(x AND 1 = (0 :: 'a::len word)) \<longleftrightarrow> \<not> (x AND 1 = 1)"
  by (simp add: and_one_eq)

section \<open>Lists and functions\<close>

lemma distinct_nth_eq_hd:
  assumes "distinct xs" and "i < length xs" and "xs ! i = hd xs"
  shows "i = 0"
  using assms nth_eq_iff_index_eq [of xs i 0] by (cases xs) auto

lemma map_upt_Suc_snoc: "map f [0..<Suc n] = map f [0..<n] @ [f n]"
  by simp

lemma tl_map_upt: "tl (map f [0..<n]) = map (\<lambda>i. f (Suc i)) [0..<n - 1]"
proof (cases n)
  case (Suc m)
  have "map f [0..<Suc m] = f 0 # map (\<lambda>i. f (Suc i)) [0..<m]"
    by (simp add: map_upt_Suc del: upt_Suc)
  with Suc show ?thesis by simp
qed simp

end
