(* ===== verification/Transition.thy ===== *)
theory Transition
  imports Bench_Prelude
begin

text \<open>
  Interleaving semantics. A concurrent program is a labelled partial step function
  \<open>'a \<Rightarrow> 's \<Rightarrow> 's option\<close>: the label says which thread moves (and what its client asks
  for), \<open>None\<close> says that this thread cannot move in this state. \<open>exec\<close> runs a schedule
  and is executable; \<open>reach\<close> is the set of states some schedule reaches. The repository's
  \<^verbatim>\<open>libvsync/README.md\<close> states that every atomic access is sequentially consistent, so
  one step is one access to shared memory and every interleaving is a schedule.
\<close>

section \<open>Schedules and reachable states\<close>

fun exec :: "('a \<Rightarrow> 's \<Rightarrow> 's option) \<Rightarrow> 'a list \<Rightarrow> 's \<Rightarrow> 's option" where
  "exec step [] s = Some s"
| "exec step (a # as) s = (case step a s of None \<Rightarrow> None | Some t \<Rightarrow> exec step as t)"

inductive reach :: "('a \<Rightarrow> 's \<Rightarrow> 's option) \<Rightarrow> 's \<Rightarrow> 's \<Rightarrow> bool" for step s0 where
  reach_init: "reach step s0 s0"
| reach_step: "reach step s0 s \<Longrightarrow> step a s = Some t \<Longrightarrow> reach step s0 t"

lemma exec_append:
  "exec step (as @ bs) s = (case exec step as s of None \<Rightarrow> None | Some t \<Rightarrow> exec step bs t)"
  by (induction as arbitrary: s) (auto split: option.splits)

lemma exec_append_Some:
  "exec step as s = Some t \<Longrightarrow> exec step (as @ bs) s = exec step bs t"
  by (simp add: exec_append)

lemma reach_trans: "reach step s t \<Longrightarrow> reach step r s \<Longrightarrow> reach step r t"
  by (induction rule: reach.induct) (auto intro: reach.intros)

lemma reach_one: "step a s = Some t \<Longrightarrow> reach step s t"
  by (blast intro: reach.intros)

lemma exec_reach: "exec step as s = Some t \<Longrightarrow> reach step s t"
proof (induction as arbitrary: s)
  case Nil
  then show ?case by (simp add: reach_init)
next
  case (Cons a as)
  then obtain u where u: "step a s = Some u" "exec step as u = Some t"
    by (auto split: option.splits)
  from u(2) have "reach step u t" by (rule Cons.IH)
  moreover from u(1) have "reach step s u" by (blast intro: reach.intros)
  ultimately show ?case by (rule reach_trans)
qed

lemma reach_exec: "reach step s t \<Longrightarrow> \<exists>as. exec step as s = Some t"
proof (induction rule: reach.induct)
  case reach_init
  have "exec step [] s = Some s" by simp
  then show ?case by blast
next
  case (reach_step u a t)
  then obtain as where "exec step as s = Some u" by blast
  with reach_step have "exec step (as @ [a]) s = Some t"
    by (simp add: exec_append)
  then show ?case by blast
qed

lemma reach_iff_exec: "reach step s t \<longleftrightarrow> (\<exists>as. exec step as s = Some t)"
  using exec_reach reach_exec by metis

text \<open>Repeating a round that shifts a counter.\<close>

lemma exec_replicate_rounds:
  assumes "\<And>k. exec step as (f k) = Some (f (Suc k))"
  shows "exec step (concat (replicate n as)) (f k) = Some (f (k + n))"
  by (induction n arbitrary: k) (auto simp: exec_append assms)

text \<open>
  The same program cut off after \<open>B\<close> steps: the state carries the number of steps taken. Used
  where a counter of the code must not wrap around.
\<close>

fun bounded :: "nat \<Rightarrow> ('a \<Rightarrow> 's \<Rightarrow> 's option) \<Rightarrow> 'a \<Rightarrow> nat \<times> 's \<Rightarrow> (nat \<times> 's) option" where
  "bounded B step a (n, s) = (if n < B then map_option (Pair (Suc n)) (step a s) else None)"

lemma exec_bounded_from:
  "exec step as s = Some t \<Longrightarrow> n + length as \<le> B \<Longrightarrow>
   exec (bounded B step) as (n, s) = Some (n + length as, t)"
  by (induction as arbitrary: n s) (auto split: option.splits)

lemma exec_bounded:
  "exec step as s = Some t \<Longrightarrow> length as \<le> B \<Longrightarrow> reach (bounded B step) (0, s) (length as, t)"
  using exec_bounded_from [of step as s t 0 B] by (auto intro: exec_reach)

section \<open>Invariants\<close>

text \<open>The contract of a safety proof: an inductive invariant of a transition system.\<close>

locale inv_system =
  fixes step :: "'a \<Rightarrow> 's \<Rightarrow> 's option" and s0 :: 's and inv :: "'s \<Rightarrow> bool"
  assumes inv_init: "inv s0"
    and inv_step: "inv s \<Longrightarrow> step a s = Some t \<Longrightarrow> inv t"
begin

lemma reach_inv: "reach step s0 s \<Longrightarrow> inv s"
  by (induction rule: reach.induct) (auto intro: inv_init inv_step)

lemma exec_inv: "exec step as s0 = Some s \<Longrightarrow> inv s"
  by (rule reach_inv) (rule exec_reach)

end

section \<open>Forward simulation\<close>

text \<open>
  A concrete system simulates an abstract one through a relation: every concrete step is
  matched by steps of the abstract system (or by none).
\<close>

locale simulation =
  fixes cstep :: "'a \<Rightarrow> 'c \<Rightarrow> 'c option" and c0 :: 'c
    and astep :: "'b \<Rightarrow> 'd \<Rightarrow> 'd option" and a0 :: 'd
    and rel :: "'c \<Rightarrow> 'd \<Rightarrow> bool"
  assumes rel_init: "rel c0 a0"
    and rel_step: "rel c a \<Longrightarrow> cstep l c = Some c' \<Longrightarrow>
      \<exists>a'. rel c' a' \<and> reach astep a a'"
begin

lemma reach_rel: "reach cstep c0 c \<Longrightarrow> \<exists>a. reach astep a0 a \<and> rel c a"
proof (induction rule: reach.induct)
  case reach_init
  show ?case using rel_init by (blast intro: reach.intros)
next
  case (reach_step c l c')
  then obtain a where a: "reach astep a0 a" "rel c a" by blast
  from rel_step [OF a(2) reach_step.hyps(2)] a(1) show ?case
    by (blast intro: reach_trans)
qed

end

end
