(* ===== verification/Vatomic.thy ===== *)
theory Vatomic
  imports Transition
begin

text \<open>
  The \<open>vatomic32\<close> interface (\<^verbatim>\<open>libvsync/include/vsync/atomic/\<close>). An operation on the
  atomic variable \<open>a\<close> is a function of the value \<open>a\<close> holds; one that writes returns the pair
  of its result and the new value. The single-access operations come from
  \<^verbatim>\<open>internal/builtins.h\<close>, the derived ones from \<^verbatim>\<open>internal/fallback.h\<close>. The retry loops of
  \<^verbatim>\<open>fallback.h\<close> are step functions, one shared access per step, so that other threads can
  change \<open>a\<close> between any two steps; \<open>None\<close> is a spinning read that has to be repeated.
\<close>

section \<open>Single-access operations\<close>

definition vatomic32_read :: "u32 \<Rightarrow> u32" where
  "vatomic32_read a = a"

definition vatomic32_write :: "u32 \<Rightarrow> u32 \<Rightarrow> u32" where
  "vatomic32_write a v = v"

definition vatomic32_xchg :: "u32 \<Rightarrow> u32 \<Rightarrow> u32 \<times> u32" where
  "vatomic32_xchg a v = (a, v)"

definition vatomic32_cmpxchg :: "u32 \<Rightarrow> u32 \<Rightarrow> u32 \<Rightarrow> u32 \<times> u32" where
  "vatomic32_cmpxchg a e v = (if a = e then (e, v) else (a, a))"

definition vatomic32_get_and :: "u32 \<Rightarrow> u32 \<Rightarrow> u32 \<times> u32" where
  "vatomic32_get_and a v = (a, a AND v)"

definition vatomic32_get_or :: "u32 \<Rightarrow> u32 \<Rightarrow> u32 \<times> u32" where
  "vatomic32_get_or a v = (a, a OR v)"

definition vatomic32_get_xor :: "u32 \<Rightarrow> u32 \<Rightarrow> u32 \<times> u32" where
  "vatomic32_get_xor a v = (a, a XOR v)"

definition vatomic32_get_add :: "u32 \<Rightarrow> u32 \<Rightarrow> u32 \<times> u32" where
  "vatomic32_get_add a v = (a, a + v)"

definition vatomic32_get_sub :: "u32 \<Rightarrow> u32 \<Rightarrow> u32 \<times> u32" where
  "vatomic32_get_sub a v = (a, a - v)"

section \<open>Derived operations\<close>

definition vatomic32_init :: "u32 \<Rightarrow> u32 \<Rightarrow> u32" where
  "vatomic32_init a v = vatomic32_write a v"

definition vatomic32_and_get :: "u32 \<Rightarrow> u32 \<Rightarrow> u32 \<times> u32" where
  "vatomic32_and_get a v = (let (o', a') = vatomic32_get_and a v in (o' AND v, a'))"

definition vatomic32_or_get :: "u32 \<Rightarrow> u32 \<Rightarrow> u32 \<times> u32" where
  "vatomic32_or_get a v = (let (o', a') = vatomic32_get_or a v in (o' OR v, a'))"

definition vatomic32_xor_get :: "u32 \<Rightarrow> u32 \<Rightarrow> u32 \<times> u32" where
  "vatomic32_xor_get a v = (let (o', a') = vatomic32_get_xor a v in (o' XOR v, a'))"

definition vatomic32_add_get :: "u32 \<Rightarrow> u32 \<Rightarrow> u32 \<times> u32" where
  "vatomic32_add_get a v = (let (o', a') = vatomic32_get_add a v in (o' + v, a'))"

definition vatomic32_add :: "u32 \<Rightarrow> u32 \<Rightarrow> u32" where
  "vatomic32_add a v = snd (vatomic32_get_add a v)"

definition vatomic32_get_inc :: "u32 \<Rightarrow> u32 \<times> u32" where
  "vatomic32_get_inc a = vatomic32_get_add a 1"

definition vatomic32_inc_get :: "u32 \<Rightarrow> u32 \<times> u32" where
  "vatomic32_inc_get a = vatomic32_add_get a 1"

definition vatomic32_inc :: "u32 \<Rightarrow> u32" where
  "vatomic32_inc a = snd (vatomic32_get_inc a)"

definition vatomic32_sub_get :: "u32 \<Rightarrow> u32 \<Rightarrow> u32 \<times> u32" where
  "vatomic32_sub_get a v = (let (o', a') = vatomic32_get_sub a v in (o' - v, a'))"

definition vatomic32_sub :: "u32 \<Rightarrow> u32 \<Rightarrow> u32" where
  "vatomic32_sub a v = snd (vatomic32_get_sub a v)"

definition vatomic32_get_dec :: "u32 \<Rightarrow> u32 \<times> u32" where
  "vatomic32_get_dec a = vatomic32_get_sub a 1"

definition vatomic32_dec_get :: "u32 \<Rightarrow> u32 \<times> u32" where
  "vatomic32_dec_get a = vatomic32_sub_get a 1"

definition vatomic32_dec :: "u32 \<Rightarrow> u32" where
  "vatomic32_dec a = snd (vatomic32_get_dec a)"

section \<open>Await loops\<close>

text \<open>\<open>await_eq\<close> keeps the last value it saw that differed from \<open>c\<close> and returns that one.\<close>

datatype await_st = Awaiting u32 | Awaited u32

fun vatomic32_await_eq_step :: "u32 \<Rightarrow> await_st \<Rightarrow> u32 \<Rightarrow> await_st" where
  "vatomic32_await_eq_step c (Awaiting ret) a =
     (let seen = vatomic32_read a in if seen \<noteq> c then Awaiting seen else Awaited ret)"
| "vatomic32_await_eq_step c (Awaited ret) a = Awaited ret"

definition vatomic32_await_neq :: "u32 \<Rightarrow> u32 \<Rightarrow> u32 option" where
  "vatomic32_await_neq a c = (let cur = vatomic32_read a in if cur = c then None else Some cur)"

text \<open>\<open>await_eq_set\<close>: spin until the value is \<open>c\<close>, then try to exchange it for \<open>v\<close>.\<close>

datatype eq_set_pc = EqWait | EqCas | EqDone

fun vatomic32_await_eq_set_step :: "u32 \<Rightarrow> u32 \<Rightarrow> eq_set_pc \<Rightarrow> u32 \<Rightarrow> (eq_set_pc \<times> u32) option" where
  "vatomic32_await_eq_set_step c v EqWait a =
     (if vatomic32_read a = c then Some (EqCas, a) else None)"
| "vatomic32_await_eq_set_step c v EqCas a =
     (let (old, a') = vatomic32_cmpxchg a c v
      in Some (if old \<noteq> c then EqWait else EqDone, a'))"
| "vatomic32_await_eq_set_step c v EqDone a = None"

text \<open>
  \<open>await_ge_sub\<close>: read, spin until the value is at least \<open>c\<close>, then try to subtract \<open>v\<close>. The
  test of the loop is on the local copy \<open>cur\<close>.
\<close>

datatype ge_sub_pc = GeRead | GeNeq u32 | GeCas u32 | GeDone u32

definition ge_sub_test :: "u32 \<Rightarrow> u32 \<Rightarrow> ge_sub_pc" where
  "ge_sub_test c cur = (if \<not> (cur \<ge> c) then GeNeq cur else GeCas cur)"

fun vatomic32_await_ge_sub_step :: "u32 \<Rightarrow> u32 \<Rightarrow> ge_sub_pc \<Rightarrow> u32 \<Rightarrow> (ge_sub_pc \<times> u32) option" where
  "vatomic32_await_ge_sub_step c v GeRead a = Some (ge_sub_test c (vatomic32_read a), a)"
| "vatomic32_await_ge_sub_step c v (GeNeq cur) a =
     (case vatomic32_await_neq a cur of None \<Rightarrow> None | Some cur' \<Rightarrow> Some (ge_sub_test c cur', a))"
| "vatomic32_await_ge_sub_step c v (GeCas cur) a =
     (let (old, a') = vatomic32_cmpxchg a cur (cur - v)
      in Some (if old \<noteq> cur then ge_sub_test c old else GeDone old, a'))"
| "vatomic32_await_ge_sub_step c v (GeDone old) a = None"

text \<open>\<open>get_max\<close>: a compare-and-exchange loop that stops when the value is already large enough.\<close>

datatype get_max_pc = MaxRead | MaxLoop u32 | MaxDone u32

fun vatomic32_get_max_step :: "u32 \<Rightarrow> get_max_pc \<Rightarrow> u32 \<Rightarrow> (get_max_pc \<times> u32) option" where
  "vatomic32_get_max_step v MaxRead a =
     (let cur = vatomic32_read a in Some (if cur \<ge> v then MaxDone cur else MaxLoop cur, a))"
| "vatomic32_get_max_step v (MaxLoop old) a =
     (let (cur, a') = vatomic32_cmpxchg a old v
      in Some (if cur \<noteq> old then (if cur \<ge> v then MaxDone cur else MaxLoop cur) else MaxDone old, a'))"
| "vatomic32_get_max_step v (MaxDone old) a = None"

lemmas [vatomic_simps] =
  vatomic32_read_def vatomic32_write_def vatomic32_xchg_def vatomic32_cmpxchg_def
  vatomic32_get_and_def vatomic32_get_or_def vatomic32_get_xor_def
  vatomic32_get_add_def vatomic32_get_sub_def vatomic32_init_def vatomic32_add_get_def
  vatomic32_and_get_def vatomic32_or_get_def vatomic32_xor_get_def
  vatomic32_add_def vatomic32_get_inc_def vatomic32_inc_get_def vatomic32_inc_def
  vatomic32_sub_get_def vatomic32_sub_def vatomic32_get_dec_def vatomic32_dec_get_def
  vatomic32_dec_def vatomic32_await_neq_def

section \<open>Each loop has one atomic effect\<close>

text \<open>
  A step of \<open>await_eq_set\<close> either leaves the variable alone or finds \<open>c\<close> in it, writes \<open>v\<close>
  and ends the loop.
\<close>

lemma await_eq_set_step_cases:
  assumes "vatomic32_await_eq_set_step c v pc a = Some (pc', a')"
  shows "(a' = a \<and> pc' \<noteq> EqDone) \<or> (pc = EqCas \<and> a = c \<and> a' = v \<and> pc' = EqDone)"
  using assms
  by (cases pc) (auto simp: vatomic_simps Let_def split: if_splits)

text \<open>
  The control state of a loop under interference: the label of a step is the value the
  variable holds when the step reads it, which other threads choose.
\<close>

definition await_ge_sub_env :: "u32 \<Rightarrow> u32 \<Rightarrow> u32 \<Rightarrow> ge_sub_pc \<Rightarrow> ge_sub_pc option" where
  "await_ge_sub_env c v m pc = map_option fst (vatomic32_await_ge_sub_step c v pc m)"

definition get_max_env :: "u32 \<Rightarrow> u32 \<Rightarrow> get_max_pc \<Rightarrow> get_max_pc option" where
  "get_max_env v m pc = map_option fst (vatomic32_get_max_step v pc m)"

fun ge_sub_pc_inv :: "u32 \<Rightarrow> ge_sub_pc \<Rightarrow> bool" where
  "ge_sub_pc_inv c (GeNeq cur) = (\<not> c \<le> cur)"
| "ge_sub_pc_inv c (GeCas cur) = (c \<le> cur)"
| "ge_sub_pc_inv c pc = True"

interpretation ge_sub_loop: inv_system "await_ge_sub_env c v" GeRead "ge_sub_pc_inv c"
proof (unfold_locales, goal_cases)
  case (2 s a t)
  then show ?case
    by (cases s) (auto simp: await_ge_sub_env_def vatomic_simps ge_sub_test_def Let_def
        split: if_splits option.splits)
qed simp

fun get_max_pc_inv :: "u32 \<Rightarrow> get_max_pc \<Rightarrow> bool" where
  "get_max_pc_inv v (MaxLoop cur) = (cur < v)"
| "get_max_pc_inv v pc = True"

interpretation get_max_loop: inv_system "get_max_env v" MaxRead "get_max_pc_inv v"
proof (unfold_locales, goal_cases)
  case (2 s a t)
  then show ?case
    by (cases s) (auto simp: get_max_env_def vatomic_simps Let_def not_le
        split: if_splits option.splits)
qed simp

text \<open>
  \<open>vatomic32_await_ge_sub(a, c, v)\<close> behaves as one atomic subtraction: under any
  interference between its steps, a step of the loop either leaves \<open>a\<close> unchanged and does not
  return, or it finds \<open>a \<ge> c\<close>, stores \<open>a - v\<close> and returns the value it replaced; when
  \<open>v \<le> c\<close> that subtraction does not wrap around.
\<close>

theorem await_ge_sub_atomic:
  assumes "reach (await_ge_sub_env c v) GeRead pc"
    and "vatomic32_await_ge_sub_step c v pc a = Some (pc', a')"
  shows "(a' = a \<and> (\<forall>old. pc' \<noteq> GeDone old)) \<or>
         (pc' = GeDone a \<and> c \<le> a \<and> a' = a - v \<and> (v \<le> c \<longrightarrow> unat a' = unat a - unat v))"
proof -
  have "ge_sub_pc_inv c pc" using assms(1) by (rule ge_sub_loop.reach_inv)
  moreover have "unat (a - v) = unat a - unat v" if "v \<le> c" "c \<le> a"
    using that by (simp add: unat_sub)
  ultimately show ?thesis
    using assms(2)
    by (cases pc) (auto simp: vatomic_simps ge_sub_test_def Let_def
        split: if_splits option.splits)
qed

theorem await_ge_sub_atomic_witness:
  "vatomic32_await_ge_sub_step 2 2 (GeCas 5) 5 = Some (GeDone 5, 3) \<and> unat (3 :: u32) = unat (5 :: u32) - unat (2 :: u32)"
proof -
  have r: "reach (await_ge_sub_env 2 2) GeRead (GeCas 5)"
    by (rule exec_reach [of _ "[5]"])
      (simp add: await_ge_sub_env_def ge_sub_test_def vatomic_simps)
  have e: "vatomic32_await_ge_sub_step 2 2 (GeCas 5) 5 = Some (GeDone 5, 3)"
    by (simp add: vatomic_simps)
  from await_ge_sub_atomic [OF r e] e show ?thesis by simp
qed

text \<open>
  \<open>vatomic32_get_max(a, v)\<close> returns only values that \<open>a\<close> held: the step that ends the
  loop returns the value \<open>a\<close> has at that step and leaves \<open>max a v\<close> in it; every other step
  leaves \<open>a\<close> unchanged, whatever other threads store in between.
\<close>

theorem get_max_atomic:
  assumes "reach (get_max_env v) MaxRead pc"
    and "vatomic32_get_max_step v pc a = Some (pc', a')"
  shows "if pc' = MaxDone a then a' = max a v else a' = a \<and> (\<forall>old. pc' \<noteq> MaxDone old)"
proof -
  have "get_max_pc_inv v pc" using assms(1) by (rule get_max_loop.reach_inv)
  then show ?thesis
    using assms(2)
    by (cases pc) (auto simp: vatomic_simps Let_def max_def split: if_splits)
qed

theorem get_max_atomic_witness:
  "vatomic32_get_max_step 9 (MaxLoop 4) 4 = Some (MaxDone 4, max 4 9)"
proof -
  have r: "reach (get_max_env 9) MaxRead (MaxLoop 4)"
    by (rule exec_reach [of _ "[4]"]) (simp add: get_max_env_def vatomic_simps)
  have e: "vatomic32_get_max_step 9 (MaxLoop 4) 4 = Some (MaxDone 4, 9)"
    by (simp add: vatomic_simps)
  from get_max_atomic [OF r e] e show ?thesis by simp
qed

end
