(* ===== verification/Lock_Spec.thy ===== *)
theory Lock_Spec
  imports Vatomic
begin

text \<open>
  The contract of the mutual-exclusion locks of \<^verbatim>\<open>libvsync/include/vsync/spinlock/\<close>. The
  abstract lock is its holder: taking it needs it free, giving it back needs to be the holder.
  A lock implementation is a transition system whose labels are a thread (with the lock it uses,
  where there are several) and what its client asks for; it meets the contract when it simulates the abstract lock and every thread inside
  its critical section is the abstract holder.
\<close>

section \<open>What a client asks for\<close>

datatype lock_cmd = Acquire | TryAcquire | Release | Run

text \<open>
  \<open>Acquire\<close>, \<open>TryAcquire\<close> and \<open>Release\<close> start a call of the lock's function of that name (and
  perform its first shared access); \<open>Run\<close> performs the next shared access of the call in progress.
\<close>

type_synonym lock_label = "tid \<times> lock_cmd"

section \<open>The abstract lock\<close>

datatype lock_event = Take tid | Give tid

fun mutex_step :: "lock_event \<Rightarrow> tid option \<Rightarrow> tid option option" where
  "mutex_step (Take t) None = Some (Some t)"
| "mutex_step (Take t) (Some u) = None"
| "mutex_step (Give t) h = (if h = Some t then Some None else None)"

text \<open>After a concrete step the abstract holder is unchanged, or the lock was taken or given back.\<close>

definition lock_sim :: "('c \<Rightarrow> tid option \<Rightarrow> bool) \<Rightarrow> 'c \<Rightarrow> tid option \<Rightarrow> bool" where
  "lock_sim rel s h \<longleftrightarrow> rel s h \<or> (h = None \<and> (\<exists>t. rel s (Some t))) \<or> (h \<noteq> None \<and> rel s None)"

lemma lock_sim_stay: "rel s h \<Longrightarrow> lock_sim rel s h"
  and lock_sim_take: "h = None \<Longrightarrow> rel s (Some t) \<Longrightarrow> lock_sim rel s h"
  and lock_sim_give: "h = Some t \<Longrightarrow> rel s None \<Longrightarrow> lock_sim rel s h"
  by (auto simp: lock_sim_def)

lemma lock_sim_step:
  assumes "lock_sim rel s h"
  shows "\<exists>h'. rel s h' \<and> reach mutex_step h h'"
proof -
  have "reach mutex_step None (Some t)" and "reach mutex_step (Some t) None" for t
    using reach_one [of mutex_step "Take t"] reach_one [of mutex_step "Give t"] by simp_all
  moreover have "reach mutex_step h h" by (rule reach_init)
  ultimately show ?thesis using assms unfolding lock_sim_def by (metis option.exhaust)
qed

locale lock_impl =
  fixes cstep :: "'k \<times> 'd \<Rightarrow> 'c \<Rightarrow> 'c option" and c0 :: 'c
    and rel :: "'c \<Rightarrow> tid option \<Rightarrow> bool" and crit :: "'c \<Rightarrow> tid \<Rightarrow> bool"
  assumes lock_init: "rel c0 None"
    and lock_step: "rel c h \<Longrightarrow> cstep (t, cmd) c = Some c' \<Longrightarrow> lock_sim rel c' h"
    and rel_crit: "rel s h \<Longrightarrow> crit s u \<Longrightarrow> h = Some u"

sublocale lock_impl \<subseteq> simulation cstep c0 mutex_step "None :: tid option" rel
proof (unfold_locales, goal_cases)
  case 1
  show ?case by (rule lock_init)
next
  case (2 c a l c')
  then show ?case by (cases l) (auto intro: lock_sim_step lock_step)
qed

context lock_impl
begin

lemma mutual_exclusion:
  assumes "reach cstep c0 s" and "crit s t" and "crit s u"
  shows "t = u"
proof -
  from reach_rel [OF assms(1)] obtain h where "rel s h" by blast
  with assms(2,3) have "h = Some t" and "h = Some u" by (auto dest: rel_crit)
  then show ?thesis by simp
qed

lemma holder_exists:
  assumes "reach cstep c0 s"
  shows "\<exists>h. reach mutex_step None h \<and> (\<forall>t. crit s t \<longrightarrow> h = Some t)"
  using reach_rel [OF assms] rel_crit by blast

end

section \<open>Fair locks\<close>

text \<open>
  The abstract FIFO lock is the queue of threads that asked for it and whether the head of the
  queue is inside. Threads join at the end, only the head enters, and it leaves from the front.
\<close>

datatype fifo_event = Arrive tid | Enter tid | Leave tid

fun fifo_step :: "fifo_event \<Rightarrow> tid list \<times> bool \<Rightarrow> (tid list \<times> bool) option" where
  "fifo_step (Arrive t) (q, b) = (if t \<in> set q then None else Some (q @ [t], b))"
| "fifo_step (Enter t) (q, b) = (if \<not> b \<and> q \<noteq> [] \<and> hd q = t then Some (q, True) else None)"
| "fifo_step (Leave t) (q, b) = (if b \<and> q \<noteq> [] \<and> hd q = t then Some (tl q, False) else None)"

definition fifo_sim :: "('c \<Rightarrow> tid list \<Rightarrow> bool \<Rightarrow> bool) \<Rightarrow> 'c \<Rightarrow> tid list \<Rightarrow> bool \<Rightarrow> bool" where
  "fifo_sim rel s q b \<longleftrightarrow>
     rel s q b \<or> (\<exists>t. t \<notin> set q \<and> rel s (q @ [t]) b) \<or>
     (q \<noteq> [] \<and> \<not> b \<and> rel s q True) \<or> (q \<noteq> [] \<and> b \<and> rel s (tl q) False) \<or>
     (q = [] \<and> \<not> b \<and> (\<exists>t. rel s [t] True))"

lemma fifo_sim_stay: "rel s q b \<Longrightarrow> fifo_sim rel s q b"
  and fifo_sim_arrive: "rel s (q @ [t]) b \<Longrightarrow> t \<notin> set q \<Longrightarrow> fifo_sim rel s q b"
  and fifo_sim_enter: "rel s q True \<Longrightarrow> q \<noteq> [] \<Longrightarrow> \<not> b \<Longrightarrow> fifo_sim rel s q b"
  and fifo_sim_grab: "rel s [t] True \<Longrightarrow> q = [] \<Longrightarrow> \<not> b \<Longrightarrow> fifo_sim rel s q b"
  and fifo_sim_leave: "rel s (tl q) False \<Longrightarrow> q \<noteq> [] \<Longrightarrow> b \<Longrightarrow> fifo_sim rel s q b"
  by (auto simp: fifo_sim_def)

lemma fifo_sim_mono:
  "fifo_sim rel s q b \<Longrightarrow> (\<And>q b. rel s q b \<Longrightarrow> rel' s' q b) \<Longrightarrow> fifo_sim rel' s' q b"
  unfolding fifo_sim_def by blast

lemma fifo_sim_step:
  assumes "fifo_sim rel s q b"
  shows "\<exists>q' b'. rel s q' b' \<and> reach fifo_step (q, b) (q', b')"
proof -
  have arrive: "t \<notin> set q \<Longrightarrow> reach fifo_step (q, b) (q @ [t], b)" for q b t
    by (rule reach_one [of _ "Arrive t"]) simp
  have enter: "q \<noteq> [] \<Longrightarrow> \<not> b \<Longrightarrow> reach fifo_step (q, b) (q, True)" for q b
    by (rule reach_one [of _ "Enter (hd q)"]) simp
  have leave: "q \<noteq> [] \<Longrightarrow> b \<Longrightarrow> reach fifo_step (q, b) (tl q, False)"
    by (rule reach_one [of _ "Leave (hd q)"]) simp
  have grab: "reach fifo_step ([], False) ([t], True)" for t
    using arrive [of t "[]" False] enter [of "[t]" False] by (auto intro: reach_trans)
  show ?thesis
    using assms arrive enter leave grab reach_init [of fifo_step "(q, b)"]
    unfolding fifo_sim_def by metis
qed

locale fifo_lock_impl =
  fixes cstep :: "'k \<times> 'd \<Rightarrow> 'c \<Rightarrow> 'c option" and c0 :: 'c
    and frel :: "'c \<Rightarrow> tid list \<Rightarrow> bool \<Rightarrow> bool" and crit :: "'c \<Rightarrow> tid \<Rightarrow> bool"
  assumes frel_init: "frel c0 [] False"
    and frel_step: "frel c q b \<Longrightarrow> cstep (t, cmd) c = Some c' \<Longrightarrow> fifo_sim frel c' q b"
    and frel_inside: "frel c q True \<Longrightarrow> q \<noteq> []"
    and frel_crit: "frel c q b \<Longrightarrow> crit c u \<Longrightarrow> b \<and> hd q = u"
begin

lemma reach_fifo:
  assumes "reach cstep c0 c"
  shows "\<exists>q b. reach fifo_step ([], False) (q, b) \<and> frel c q b \<and>
    (\<forall>t. crit c t \<longrightarrow> b \<and> q \<noteq> [] \<and> hd q = t)"
proof -
  have "\<exists>q b. reach fifo_step ([], False) (q, b) \<and> frel c q b"
    using assms
  proof (induction rule: reach.induct)
    case reach_init
    have "reach fifo_step ([], False) ([], False)" by (rule reach.reach_init)
    with frel_init show ?case by blast
  next
    case (reach_step c l c')
    then obtain q b where qb: "reach fifo_step ([], False) (q, b)" "frel c q b" by blast
    obtain t cmd where "l = (t, cmd)" by (cases l)
    with reach_step.hyps(2) qb(2) have "fifo_sim frel c' q b" by (auto intro: frel_step)
    from fifo_sim_step [OF this] qb(1) show ?case by (blast intro: reach_trans)
  qed
  then show ?thesis using frel_crit frel_inside by metis
qed

end

text \<open>A FIFO lock is a lock: its holder is the head of the queue when it is inside.\<close>

sublocale fifo_lock_impl \<subseteq> lock_impl cstep c0
  "\<lambda>c h. \<exists>q b. frel c q b \<and> h = (if b then Some (hd q) else None)" crit
proof (unfold_locales, goal_cases)
  case 1
  show ?case using frel_init by auto
next
  case (2 c h t cmd c')
  then obtain q b where qb: "frel c q b" "h = (if b then Some (hd q) else None)" by blast
  from qb(1) 2(2) have sim: "fifo_sim frel c' q b" by (rule frel_step)
  then consider "frel c' q b" | u where "frel c' (q @ [u]) b" | "\<not> b" "frel c' q True"
    | "b" "frel c' (tl q) False" | u where "\<not> b" "frel c' [u] True"
    unfolding fifo_sim_def by blast
  then show ?case
  proof cases
    case 1
    with qb(2) show ?thesis by (intro lock_sim_stay) blast
  next
    case (2 u)
    have "h = (if b then Some (hd (q @ [u])) else None)"
      using qb frel_inside [of c q] by (cases b) auto
    with 2 show ?thesis by (intro lock_sim_stay) blast
  next
    case 3
    with qb(2) show ?thesis by (intro lock_sim_take [where t = "hd q"]) auto
  next
    case 4
    with qb(2) show ?thesis by (intro lock_sim_give [where t = "hd q"]) auto
  next
    case (5 u)
    with qb(2) show ?thesis 
      by (intro lock_sim_take [where t = u] exI [of _ "[u]"] exI [of _ True]) auto
  qed
next
  case (3 s h t)
  then obtain q b where "frel s q b" "h = (if b then Some (hd q) else None)" by blast
  with frel_crit [OF this(1) 3(2)] show ?case by simp
qed

end
