(* ===== verification/Caslock.thy ===== *)
theory Caslock
  imports Lock_Spec
begin

text \<open>
  The compare-and-swap lock, \<^verbatim>\<open>spinlock/caslock.h\<close> with the injected bug of
  \<^verbatim>\<open>libvsync/bugs.patch\<close> in \<open>caslock_tryacquire\<close>, and \<^verbatim>\<open>spinlock/caslock.h.orig\<close> without it.
\<close>

section \<open>Operations\<close>

record caslock_t =
  cas_lock :: u32

definition caslock_init :: "caslock_t \<Rightarrow> caslock_t" where
  "caslock_init l = l\<lparr>cas_lock := vatomic32_init (cas_lock l) 0\<rparr>"

definition caslock_acquire :: "eq_set_pc \<Rightarrow> caslock_t \<Rightarrow> (eq_set_pc \<times> caslock_t) option" where
  "caslock_acquire pc l =
     map_option (\<lambda>(pc', a). (pc', l\<lparr>cas_lock := a\<rparr>)) (vatomic32_await_eq_set_step 0 1 pc (cas_lock l))"

definition caslock_tryacquire :: "caslock_t \<Rightarrow> bool \<times> caslock_t" where
  "caslock_tryacquire l =
     (let (r, a) = vatomic32_cmpxchg (cas_lock l) 0 1 in (r \<noteq> 0, l\<lparr>cas_lock := a\<rparr>))"

definition caslock_tryacquire_orig :: "caslock_t \<Rightarrow> bool \<times> caslock_t" where
  "caslock_tryacquire_orig l =
     (let (r, a) = vatomic32_cmpxchg (cas_lock l) 0 1 in (r = 0, l\<lparr>cas_lock := a\<rparr>))"

definition caslock_release :: "caslock_t \<Rightarrow> caslock_t" where
  "caslock_release l = l\<lparr>cas_lock := vatomic32_write (cas_lock l) 0\<rparr>"

section \<open>Threads that use one lock\<close>

datatype cas_pc = CasIdle | CasAcq eq_set_pc | CasCrit

record cas_sys =
  cas_mem :: caslock_t
  cas_pcs :: "tid \<Rightarrow> cas_pc"

definition cas_start :: cas_sys where
  "cas_start = \<lparr>cas_mem = caslock_init \<lparr>cas_lock = 0\<rparr>, cas_pcs = (\<lambda>_. CasIdle)\<rparr>"

definition cas_goto :: "cas_sys \<Rightarrow> tid \<Rightarrow> caslock_t \<Rightarrow> cas_pc \<Rightarrow> cas_sys" where
  "cas_goto s t l pc = s\<lparr>cas_mem := l, cas_pcs := (cas_pcs s)(t := pc)\<rparr>"

definition cas_acquire_step :: "cas_sys \<Rightarrow> tid \<Rightarrow> eq_set_pc \<Rightarrow> cas_sys option" where
  "cas_acquire_step s t pc =
     map_option (\<lambda>(pc', l). cas_goto s t l (if pc' = EqDone then CasCrit else CasAcq pc'))
       (caslock_acquire pc (cas_mem s))"

fun cas_step :: "(caslock_t \<Rightarrow> bool \<times> caslock_t) \<Rightarrow> lock_label \<Rightarrow> cas_sys \<Rightarrow> cas_sys option" where
  "cas_step tryacq (t, cmd) s =
     (case (cas_pcs s t, cmd) of
        (CasIdle, Acquire) \<Rightarrow> cas_acquire_step s t EqWait
      | (CasIdle, TryAcquire) \<Rightarrow>
          (let (r, l) = tryacq (cas_mem s) in Some (cas_goto s t l (if r then CasCrit else CasIdle)))
      | (CasAcq pc, Run) \<Rightarrow> cas_acquire_step s t pc
      | (CasCrit, Release) \<Rightarrow> Some (cas_goto s t (caslock_release (cas_mem s)) CasIdle)
      | _ \<Rightarrow> None)"

definition cas_crit :: "cas_sys \<Rightarrow> tid \<Rightarrow> bool" where
  "cas_crit s t \<longleftrightarrow> cas_pcs s t = CasCrit"

lemmas [lock_simps] =
  caslock_init_def caslock_acquire_def caslock_tryacquire_def caslock_tryacquire_orig_def
  caslock_release_def cas_start_def cas_goto_def cas_acquire_step_def cas_crit_def

section \<open>The original lock meets the contract\<close>

definition cas_rel :: "cas_sys \<Rightarrow> tid option \<Rightarrow> bool" where
  "cas_rel s h \<longleftrightarrow>
     cas_lock (cas_mem s) = (if h = None then 0 else 1) \<and>
     (\<forall>t. cas_pcs s t = CasCrit \<longleftrightarrow> h = Some t) \<and>
     (\<forall>t. cas_pcs s t \<noteq> CasAcq EqDone)"

lemma cas_relD: "cas_rel s h \<Longrightarrow> cas_pcs s t = CasCrit \<longleftrightarrow> h = Some t"
  by (simp add: cas_rel_def)

lemma cas_rel_acquire:
  assumes rel: "cas_rel s h" and step: "cas_acquire_step s t pc = Some s'"
    and pc: "cas_pcs s t \<noteq> CasCrit"
  shows "lock_sim cas_rel s' h"
proof -
  obtain pc' a where st: "vatomic32_await_eq_set_step 0 1 pc (cas_lock (cas_mem s)) = Some (pc', a)"
    and s': "s' = cas_goto s t ((cas_mem s)\<lparr>cas_lock := a\<rparr>) (if pc' = EqDone then CasCrit else CasAcq pc')"
    using step by (auto simp: cas_acquire_step_def caslock_acquire_def)
  from await_eq_set_step_cases [OF st] show ?thesis
  proof
    assume "a = cas_lock (cas_mem s) \<and> pc' \<noteq> EqDone"
    then show ?thesis
      using rel pc s' by (intro lock_sim_stay) (auto simp: cas_rel_def cas_goto_def)
  next
    assume take: "pc = EqCas \<and> cas_lock (cas_mem s) = 0 \<and> a = 1 \<and> pc' = EqDone"
    then have free: "h = None" using rel by (auto simp: cas_rel_def split: if_splits)
    show ?thesis
      using take rel pc s' free
      by (intro lock_sim_take [where t = t]) (auto simp: cas_rel_def cas_goto_def)
  qed
qed

lemma cas_rel_tryacquire:
  assumes rel: "cas_rel s h" and pc: "cas_pcs s t = CasIdle"
    and step: "caslock_tryacquire_orig (cas_mem s) = (r, l)"
  shows "lock_sim cas_rel (cas_goto s t l (if r then CasCrit else CasIdle)) h"
proof (cases h)
  case None
  then show ?thesis
    using assms by (intro lock_sim_take [where t = t])
      (auto simp: cas_rel_def lock_simps vatomic_simps)
next
  case (Some u)
  moreover from this have "u \<noteq> t" using cas_relD [OF rel, of t] pc by auto
  ultimately show ?thesis
    using assms by (intro lock_sim_stay) (auto simp: cas_rel_def lock_simps vatomic_simps)
qed

lemma cas_rel_release:
  assumes rel: "cas_rel s h" and pc: "cas_pcs s t = CasCrit"
  shows "lock_sim cas_rel (cas_goto s t (caslock_release (cas_mem s)) CasIdle) h"
  using assms cas_relD [OF rel, of t]
  by (intro lock_sim_give [where t = t]) (auto simp: cas_rel_def lock_simps vatomic_simps)

interpretation caslock_orig: lock_impl "cas_step caslock_tryacquire_orig" cas_start cas_rel cas_crit
proof (unfold_locales, goal_cases)
  case 1
  show ?case by (simp add: cas_rel_def lock_simps vatomic_simps)
next
  case (2 c h t cmd c')
  then show ?case
    by (auto split: cas_pc.splits lock_cmd.splits prod.splits
        intro: cas_rel_acquire cas_rel_tryacquire cas_rel_release)
next
  case (3 s h t)
  then show ?case by (simp add: cas_rel_def cas_crit_def)
qed

text \<open>
  Mutual exclusion of the original CAS lock: for any number of threads that call
  \<open>caslock_acquire\<close>, \<open>caslock_tryacquire\<close> and \<open>caslock_release\<close> in any interleaving of their
  shared accesses, no two threads are in the critical section at once.
\<close>

theorem caslock_orig_mutual_exclusion:
  assumes "reach (cas_step caslock_tryacquire_orig) cas_start s"
    and "cas_crit s t" and "cas_crit s u"
  shows "t = u"
  using assms by (rule caslock_orig.mutual_exclusion)

theorem caslock_orig_mutual_exclusion_witness:
  "\<exists>s. exec (cas_step caslock_tryacquire_orig) [(0, TryAcquire), (1, TryAcquire)] cas_start = Some s
     \<and> cas_crit s 0 \<and> (\<forall>u. cas_crit s u = (u = 0))"
proof -
  obtain s where e: "exec (cas_step caslock_tryacquire_orig) [(0, TryAcquire), (1, TryAcquire)] cas_start = Some s"
    and c: "cas_crit s 0"
    by (simp add: lock_simps vatomic_simps)
  from caslock_orig_mutual_exclusion [OF exec_reach [OF e] c] e c show ?thesis by blast
qed

section \<open>The injected bug\<close>

text \<open>
  With the injected bug \<open>caslock_tryacquire\<close> reports the old value: on a free lock it takes
  the lock and returns false, on a held lock it returns true. Three calls suffice to bring two
  threads into the critical section together.
\<close>

theorem caslock_bug_breaks_exclusion:
  "\<exists>s. reach (cas_step caslock_tryacquire) cas_start s \<and> cas_crit s 1 \<and> cas_crit s 2"
proof -
  have "\<exists>s. exec (cas_step caslock_tryacquire)
      [(0, TryAcquire), (1, TryAcquire), (2, TryAcquire)] cas_start = Some s \<and> cas_crit s 1 \<and> cas_crit s 2"
    by (simp add: lock_simps vatomic_simps)
  then show ?thesis by (blast intro: exec_reach)
qed

end
