(* ===== verification/Ttaslock.thy ===== *)
theory Ttaslock
  imports Lock_Spec
begin

text \<open>The test-and-test-and-set lock, \<^verbatim>\<open>spinlock/ttaslock.h\<close>.\<close>

section \<open>Operations\<close>

record ttaslock_t =
  ttas_state :: u32

datatype ttas_acq_pc = TtasAwait | TtasXchg | TtasReturn

definition ttaslock_init :: "ttaslock_t \<Rightarrow> ttaslock_t" where
  "ttaslock_init l = l\<lparr>ttas_state := vatomic32_init (ttas_state l) 0\<rparr>"

fun ttaslock_acquire :: "ttas_acq_pc \<Rightarrow> ttaslock_t \<Rightarrow> (ttas_acq_pc \<times> ttaslock_t) option" where
  "ttaslock_acquire TtasAwait l =
     (if vatomic32_read (ttas_state l) = 0 then Some (TtasXchg, l) else None)"
| "ttaslock_acquire TtasXchg l =
     (let (r, a) = vatomic32_xchg (ttas_state l) 1
      in Some (if \<not> r \<noteq> 0 then TtasReturn else TtasAwait, l\<lparr>ttas_state := a\<rparr>))"
| "ttaslock_acquire TtasReturn l = None"

definition ttaslock_tryacquire :: "ttaslock_t \<Rightarrow> bool \<times> ttaslock_t" where
  "ttaslock_tryacquire l =
     (let (r, a) = vatomic32_xchg (ttas_state l) 1 in (r = 0, l\<lparr>ttas_state := a\<rparr>))"

definition ttaslock_release :: "ttaslock_t \<Rightarrow> ttaslock_t" where
  "ttaslock_release l = l\<lparr>ttas_state := vatomic32_write (ttas_state l) 0\<rparr>"

section \<open>Threads that use one lock\<close>

datatype ttas_pc = TtasIdle | TtasAcq ttas_acq_pc | TtasCrit

record ttas_sys =
  ttas_mem :: ttaslock_t
  ttas_pcs :: "tid \<Rightarrow> ttas_pc"

definition ttas_start :: ttas_sys where
  "ttas_start = \<lparr>ttas_mem = ttaslock_init \<lparr>ttas_state = 0\<rparr>, ttas_pcs = (\<lambda>_. TtasIdle)\<rparr>"

definition ttas_goto :: "ttas_sys \<Rightarrow> tid \<Rightarrow> ttaslock_t \<Rightarrow> ttas_pc \<Rightarrow> ttas_sys" where
  "ttas_goto s t l pc = s\<lparr>ttas_mem := l, ttas_pcs := (ttas_pcs s)(t := pc)\<rparr>"

definition ttas_acquire_step :: "ttas_sys \<Rightarrow> tid \<Rightarrow> ttas_acq_pc \<Rightarrow> ttas_sys option" where
  "ttas_acquire_step s t pc =
     map_option (\<lambda>(pc', l). ttas_goto s t l (if pc' = TtasReturn then TtasCrit else TtasAcq pc'))
       (ttaslock_acquire pc (ttas_mem s))"

fun ttas_step :: "lock_label \<Rightarrow> ttas_sys \<Rightarrow> ttas_sys option" where
  "ttas_step (t, cmd) s =
     (case (ttas_pcs s t, cmd) of
        (TtasIdle, Acquire) \<Rightarrow> ttas_acquire_step s t TtasAwait
      | (TtasIdle, TryAcquire) \<Rightarrow>
          (let (r, l) = ttaslock_tryacquire (ttas_mem s)
           in Some (ttas_goto s t l (if r then TtasCrit else TtasIdle)))
      | (TtasAcq pc, Run) \<Rightarrow> ttas_acquire_step s t pc
      | (TtasCrit, Release) \<Rightarrow> Some (ttas_goto s t (ttaslock_release (ttas_mem s)) TtasIdle)
      | _ \<Rightarrow> None)"

definition ttas_crit :: "ttas_sys \<Rightarrow> tid \<Rightarrow> bool" where
  "ttas_crit s t \<longleftrightarrow> ttas_pcs s t = TtasCrit"

lemmas ttas_simps =
  ttaslock_init_def ttaslock_tryacquire_def ttaslock_release_def ttas_start_def ttas_goto_def
  ttas_acquire_step_def ttas_crit_def

section \<open>The lock meets the contract\<close>

definition ttas_rel :: "ttas_sys \<Rightarrow> tid option \<Rightarrow> bool" where
  "ttas_rel s h \<longleftrightarrow>
     ttas_state (ttas_mem s) = (if h = None then 0 else 1) \<and>
     (\<forall>t. ttas_pcs s t = TtasCrit \<longleftrightarrow> h = Some t)"

lemma ttas_relD: "ttas_rel s h \<Longrightarrow> ttas_pcs s t = TtasCrit \<longleftrightarrow> h = Some t"
  by (simp add: ttas_rel_def)

text \<open>An exchange with 1 takes a free lock and leaves a held one as it is.\<close>

lemma ttas_rel_xchg:
  assumes rel: "ttas_rel s h" and pc: "ttas_pcs s t \<noteq> TtasCrit" and pc': "pc' \<noteq> TtasCrit"
  shows "lock_sim ttas_rel (ttas_goto s t ((ttas_mem s)\<lparr>ttas_state := 1\<rparr>)
           (if ttas_state (ttas_mem s) = 0 then TtasCrit else pc')) h"
proof (cases h)
  case None
  then show ?thesis
    using assms by (intro lock_sim_take [where t = t]) (auto simp: ttas_rel_def ttas_simps)
next
  case (Some u)
  moreover from this have "u \<noteq> t" using ttas_relD [OF rel, of t] pc by auto
  ultimately show ?thesis
    using assms by (intro lock_sim_stay) (auto simp: ttas_rel_def ttas_simps)
qed

lemma ttas_rel_local:
  assumes "ttas_rel s h" and "ttas_pcs s t \<noteq> TtasCrit" and "pc' \<noteq> TtasCrit"
  shows "ttas_rel (ttas_goto s t (ttas_mem s) pc') h"
  using assms by (auto simp: ttas_rel_def ttas_goto_def)

lemma ttas_rel_acquire:
  assumes rel: "ttas_rel s h" and step: "ttas_acquire_step s t pc = Some s'"
    and pc: "ttas_pcs s t \<noteq> TtasCrit"
  shows "lock_sim ttas_rel s' h"
proof (cases pc)
  case TtasAwait
  with step have "s' = ttas_goto s t (ttas_mem s) (TtasAcq TtasXchg)"
    by (simp add: ttas_acquire_step_def split: if_splits)
  with ttas_rel_local [OF rel pc] show ?thesis by (intro lock_sim_stay) simp
next
  case TtasXchg
  then show ?thesis
    using step ttas_rel_xchg [OF rel pc, of "TtasAcq TtasAwait"]
    by (auto simp: ttas_acquire_step_def vatomic_simps split: if_splits)
qed (use step in \<open>simp add: ttas_acquire_step_def\<close>)

interpretation ttaslock: lock_impl ttas_step ttas_start ttas_rel ttas_crit
proof (unfold_locales, goal_cases)
  case 1
  show ?case by (simp add: ttas_rel_def ttas_simps vatomic_simps)
next
  case (2 s h t cmd s')
  show ?case
  proof (cases "ttas_pcs s t")
    case TtasIdle
    with 2 ttas_rel_xchg [OF 2(1), of t TtasIdle] show ?thesis
      by (cases cmd) (auto simp: ttaslock_tryacquire_def vatomic_simps intro: ttas_rel_acquire)
  next
    case (TtasAcq pc)
    with 2 show ?thesis by (cases cmd) (auto intro: ttas_rel_acquire)
  next
    case TtasCrit
    with 2 ttas_relD [OF 2(1), of t] show ?thesis
      by (cases cmd; intro lock_sim_give [where t = t])
        (auto simp: ttas_rel_def ttas_simps vatomic_simps split: if_splits)
  qed
next
  case (3 s h t)
  then show ?case by (simp add: ttas_rel_def ttas_crit_def)
qed

text \<open>
  Mutual exclusion of the TTAS lock, for any number of threads that acquire, try and release
  it in any interleaving of their shared accesses.
\<close>

theorem ttaslock_mutual_exclusion:
  assumes "reach ttas_step ttas_start s" and "ttas_crit s t" and "ttas_crit s u"
  shows "t = u"
  using assms by (rule ttaslock.mutual_exclusion)

theorem ttaslock_mutual_exclusion_witness:
  "\<exists>s. exec ttas_step [(0, Acquire), (1, Acquire), (1, Run), (0, Run)] ttas_start = Some s
     \<and> (\<forall>u. ttas_crit s u = (u = 1))"
proof -
  obtain s where e: "exec ttas_step [(0, Acquire), (1, Acquire), (1, Run), (0, Run)] ttas_start = Some s"
    and c: "ttas_crit s 1"
    by (simp add: ttas_simps vatomic_simps)
  from ttaslock_mutual_exclusion [OF exec_reach [OF e] c] e c show ?thesis by blast
qed

end
