(* ===== verification/Ticketlock.thy ===== *)
theory Ticketlock
  imports Lock_Spec
begin

text \<open>
  The ticket lock, \<^verbatim>\<open>spinlock/ticketlock.h\<close>: two 32-bit counters that wrap around. \<open>N\<close> threads,
  numbered below \<open>N\<close> (a 32-bit value, as in the test drivers), use one lock; \<open>allow_try\<close> says whether they call \<open>ticketlock_tryacquire\<close>.
\<close>

section \<open>Operations\<close>

record ticketlock_t =
  tk_next :: u32
  tk_owner :: u32

definition ticketlock_init :: "ticketlock_t \<Rightarrow> ticketlock_t" where
  "ticketlock_init l = l\<lparr>tk_next := vatomic32_init (tk_next l) 0, tk_owner := vatomic32_init (tk_owner l) 0\<rparr>"

text \<open>A call in progress: waiting with a ticket, trying with the owner read, releasing with the owner read.\<close>

datatype tk_pc = TkIdle | TkWait u32 | TkTry u32 | TkCrit | TkRel u32

definition ticketlock_acquire :: "ticketlock_t \<Rightarrow> tk_pc \<times> ticketlock_t" where
  "ticketlock_acquire l = (let (ticket, a) = vatomic32_get_inc (tk_next l) in (TkWait ticket, l\<lparr>tk_next := a\<rparr>))"

definition ticketlock_acquire_await :: "u32 \<Rightarrow> ticketlock_t \<Rightarrow> (tk_pc \<times> ticketlock_t) option" where
  "ticketlock_acquire_await ticket l =
     (if vatomic32_read (tk_owner l) = ticket then Some (TkCrit, l) else None)"

definition ticketlock_tryacquire :: "ticketlock_t \<Rightarrow> tk_pc \<times> ticketlock_t" where
  "ticketlock_tryacquire l = (TkTry (vatomic32_read (tk_owner l)), l)"

definition ticketlock_tryacquire_cas :: "u32 \<Rightarrow> ticketlock_t \<Rightarrow> tk_pc \<times> ticketlock_t" where
  "ticketlock_tryacquire_cas o' l =
     (let (n, a) = vatomic32_cmpxchg (tk_next l) o' (o' + 1)
      in (if n = o' then TkCrit else TkIdle, l\<lparr>tk_next := a\<rparr>))"

definition ticketlock_release :: "ticketlock_t \<Rightarrow> tk_pc \<times> ticketlock_t" where
  "ticketlock_release l = (TkRel (vatomic32_read (tk_owner l)), l)"

definition ticketlock_release_write :: "u32 \<Rightarrow> ticketlock_t \<Rightarrow> tk_pc \<times> ticketlock_t" where
  "ticketlock_release_write owner l = (TkIdle, l\<lparr>tk_owner := vatomic32_write (tk_owner l) (owner + 1)\<rparr>)"

definition ticketlock_has_waiters :: "ticketlock_t \<Rightarrow> bool" where
  "ticketlock_has_waiters l \<longleftrightarrow> vatomic32_read (tk_next l) - vatomic32_read (tk_owner l) > 1"

section \<open>Threads that use one lock\<close>

record tk_sys =
  tk_mem :: ticketlock_t
  tk_pcs :: "tid \<Rightarrow> tk_pc"

definition tk_start :: tk_sys where
  "tk_start = \<lparr>tk_mem = ticketlock_init \<lparr>tk_next = 0, tk_owner = 0\<rparr>, tk_pcs = (\<lambda>_. TkIdle)\<rparr>"

definition tk_goto :: "tk_sys \<Rightarrow> tid \<Rightarrow> tk_pc \<times> ticketlock_t \<Rightarrow> tk_sys" where
  "tk_goto s t r = s\<lparr>tk_mem := snd r, tk_pcs := (tk_pcs s)(t := fst r)\<rparr>"

fun tk_step :: "u32 \<Rightarrow> bool \<Rightarrow> lock_label \<Rightarrow> tk_sys \<Rightarrow> tk_sys option" where
  "tk_step N allow_try (t, cmd) s =
     (if t < unat N then
        (case (tk_pcs s t, cmd) of
           (TkIdle, Acquire) \<Rightarrow> Some (tk_goto s t (ticketlock_acquire (tk_mem s)))
         | (TkIdle, TryAcquire) \<Rightarrow>
             (if allow_try then Some (tk_goto s t (ticketlock_tryacquire (tk_mem s))) else None)
         | (TkWait ticket, Run) \<Rightarrow>
             map_option (tk_goto s t) (ticketlock_acquire_await ticket (tk_mem s))
         | (TkTry o', Run) \<Rightarrow> Some (tk_goto s t (ticketlock_tryacquire_cas o' (tk_mem s)))
         | (TkCrit, Release) \<Rightarrow> Some (tk_goto s t (ticketlock_release (tk_mem s)))
         | (TkRel owner, Run) \<Rightarrow> Some (tk_goto s t (ticketlock_release_write owner (tk_mem s)))
         | _ \<Rightarrow> None)
      else None)"

definition tk_crit :: "tk_sys \<Rightarrow> tid \<Rightarrow> bool" where
  "tk_crit s t \<longleftrightarrow> tk_pcs s t = TkCrit"

lemmas tk_simps =
  ticketlock_init_def ticketlock_acquire_def ticketlock_acquire_await_def ticketlock_tryacquire_def
  ticketlock_tryacquire_cas_def ticketlock_release_def ticketlock_release_write_def
  tk_start_def tk_goto_def tk_crit_def

section \<open>The queue of tickets\<close>

fun tk_inside :: "tk_pc \<Rightarrow> bool" where
  "tk_inside TkCrit = True" | "tk_inside (TkRel _) = True" | "tk_inside _ = False"

fun tk_queued :: "tk_pc \<Rightarrow> bool" where
  "tk_queued TkIdle = False" | "tk_queued (TkTry _) = False" | "tk_queued _ = True"

text \<open>
  \<open>k\<close> is the number of completed releases, \<open>q\<close> the threads that hold a ticket in the order of
  their tickets: the \<open>i\<close>-th one holds ticket \<open>k + i\<close>, and only the first can be inside.
\<close>

definition tk_seen :: "nat \<Rightarrow> u32 \<Rightarrow> bool" where
  "tk_seen k w \<longleftrightarrow> (\<exists>j \<le> k. w = of_nat j)"

definition tk_inv :: "nat \<Rightarrow> nat \<Rightarrow> tk_sys \<Rightarrow> tid list \<Rightarrow> bool" where
  "tk_inv N k s q \<longleftrightarrow>
     tk_owner (tk_mem s) = of_nat k \<and> tk_next (tk_mem s) = of_nat (k + length q) \<and>
     distinct q \<and> set q = {t. tk_queued (tk_pcs s t)} \<and> set q \<subseteq> {..<N} \<and>
     (\<forall>i < length q. \<forall>w. tk_pcs s (q ! i) = TkWait w \<longrightarrow> w = of_nat (k + i)) \<and>
     (\<forall>t. tk_inside (tk_pcs s t) \<longrightarrow> q \<noteq> [] \<and> t = hd q) \<and>
     (\<forall>t w. tk_pcs s t = TkRel w \<longrightarrow> w = of_nat k) \<and>
     (\<forall>t w. tk_pcs s t = TkTry w \<longrightarrow> tk_seen k w)"

text \<open>The queue, with at most \<open>m\<close> tickets taken since the start.\<close>

definition tk_rel :: "nat \<Rightarrow> nat \<Rightarrow> tk_sys \<Rightarrow> tid list \<Rightarrow> bool \<Rightarrow> bool" where
  "tk_rel N m s q b \<longleftrightarrow>
     (\<exists>k. tk_inv N k s q \<and> k + length q \<le> m) \<and> b = (q \<noteq> [] \<and> tk_inside (tk_pcs s (hd q)))"

lemma tk_seen_self [simp]: "tk_seen k (of_nat k)"
  by (auto simp: tk_seen_def)

lemma tk_seen_Suc: "tk_seen k w \<Longrightarrow> tk_seen (Suc k) w"
  by (auto simp: tk_seen_def intro: le_SucI)

lemma tk_inv_queued: "tk_inv N k s q \<Longrightarrow> t \<in> set q \<longleftrightarrow> tk_queued (tk_pcs s t)"
  by (simp add: tk_inv_def)

lemma tk_inv_inside: "tk_inv N k s q \<Longrightarrow> tk_inside (tk_pcs s t) \<Longrightarrow> q \<noteq> [] \<and> t = hd q"
  by (simp add: tk_inv_def)

lemma tk_inv_length:
  assumes "tk_inv N k s q" and "N < 2 ^ 32"
  shows "length q < 2 ^ 32"
proof -
  have q: "distinct q" "set q \<subseteq> {..<N}" using assms(1) unfolding tk_inv_def by blast+
  then have "length q = card (set q)" by (simp add: distinct_card)
  also have "\<dots> \<le> card {..<N}" using q(2) by (intro card_mono) simp_all
  finally show ?thesis using assms(2) by simp
qed

lemma tk_inv_acquire:
  assumes inv: "tk_inv N k s q" and pc: "tk_pcs s t = TkIdle" and "t < N"
  shows "tk_inv N k (tk_goto s t (ticketlock_acquire (tk_mem s))) (q @ [t])"
proof -
  have t: "t \<notin> set q" using tk_inv_queued [OF inv, of t] pc by simp
  then have "i < length q \<Longrightarrow> q ! i \<noteq> t" for i by (auto simp: in_set_conv_nth)
  with t assms show ?thesis
    by (auto simp: tk_inv_def tk_simps vatomic_simps nth_append less_Suc_eq)
qed

lemma tk_inv_enter:
  assumes inv: "tk_inv N k s q" and "N < 2 ^ 32" and pc: "tk_pcs s t = TkWait w"
    and own: "tk_owner (tk_mem s) = w"
  shows "q \<noteq> [] \<and> t = hd q \<and> tk_inv N k (tk_goto s t (TkCrit, tk_mem s)) q"
proof -
  have "t \<in> set q" using tk_inv_queued [OF inv, of t] pc by simp
  then obtain i where i: "i < length q" "q ! i = t" by (auto simp: in_set_conv_nth)
  have "(of_nat k + of_nat i :: u32) = of_nat k"
    using inv i pc own by (auto simp: tk_inv_def)
  moreover have "i < 2 ^ 32" using i tk_inv_length [OF inv assms(2)] by simp
  ultimately have "i = 0"
    using word_add_of_nat_eq_self_iff [of i "of_nat k :: u32"] by simp
  then have hd: "q \<noteq> []" "t = hd q" using i by (auto simp: hd_conv_nth)
  moreover have "tk_inv N k (tk_goto s t (TkCrit, tk_mem s)) q"
    using inv hd pc by (auto simp: tk_inv_def tk_goto_def)
  ultimately show ?thesis by simp
qed

lemma tk_inv_try:
  assumes "tk_inv N k s q" and "tk_pcs s t = TkIdle"
  shows "tk_inv N k (tk_goto s t (ticketlock_tryacquire (tk_mem s))) q"
  using assms by (auto simp: tk_inv_def tk_simps vatomic_simps)

lemma tk_inv_try_fails:
  assumes "tk_inv N k s q" and "tk_pcs s t = TkTry w" and "tk_next (tk_mem s) \<noteq> w"
  shows "tk_inv N k (tk_goto s t (ticketlock_tryacquire_cas w (tk_mem s))) q"
  using assms by (auto simp: tk_inv_def tk_simps vatomic_simps)

text \<open>As long as fewer than \<open>2^32\<close> tickets were ever taken, a successful try finds the lock free.\<close>

lemma tk_inv_try_succeeds:
  assumes inv: "tk_inv N k s q" and pc: "tk_pcs s t = TkTry w" and eq: "tk_next (tk_mem s) = w"
    and "t < N" and bound: "k + length q < 2 ^ 32"
  shows "q = [] \<and> tk_inv N k (tk_goto s t (ticketlock_tryacquire_cas w (tk_mem s))) [t]"
proof -
  obtain j where j: "j \<le> k" "w = of_nat j" using inv pc unfolding tk_inv_def tk_seen_def by blast
  have "(of_nat (k + length q) :: u32) = of_nat j"
    using inv eq j by (simp add: tk_inv_def)
  then have "k + length q = j"
    using bound j by (intro word_of_nat_inj_on [where 'a = 32]) simp_all
  with j have q: "q = []" "j = k" by auto
  then have "tk_inv N k (tk_goto s t (ticketlock_tryacquire_cas w (tk_mem s))) [t]"
    using inv pc eq j \<open>t < N\<close>
    by (auto simp: tk_inv_def tk_simps vatomic_simps)
  with q show ?thesis by simp
qed

lemma tk_inv_release:
  assumes inv: "tk_inv N k s q" and pc: "tk_pcs s t = TkCrit"
  shows "tk_inv N k (tk_goto s t (ticketlock_release (tk_mem s))) q"
  using assms tk_inv_inside [OF inv, of t] by (auto simp: tk_inv_def tk_simps vatomic_simps)

lemma tk_inv_leave:
  assumes inv: "tk_inv N k s q" and pc: "tk_pcs s t = TkRel w"
  shows "q \<noteq> [] \<and> t = hd q \<and> tk_inv N (Suc k) (tk_goto s t (ticketlock_release_write w (tk_mem s))) (tl q)"
proof -
  have "q \<noteq> []" "t = hd q" using tk_inv_inside [OF inv, of t] pc by auto
  then obtain q' where q: "q = t # q'" by (cases q) auto
  have "tk_pcs s (q' ! i) = TkWait w' \<Longrightarrow> i < length q' \<Longrightarrow> w' = of_nat (k + Suc i)" for i w'
    using inv q by (auto simp: tk_inv_def dest: spec [of _ "Suc i"])
  moreover have "t \<notin> set q'" using inv q by (simp add: tk_inv_def)
  ultimately have "tk_inv N (Suc k) (tk_goto s t (ticketlock_release_write w (tk_mem s))) q'"
    using inv pc q by (auto simp: tk_inv_def tk_simps vatomic_simps intro: tk_seen_Suc)
  with q show ?thesis by simp
qed

lemma tk_relI:
  "tk_inv N k s q \<Longrightarrow> k + length q \<le> m \<Longrightarrow> b = (q \<noteq> [] \<and> tk_inside (tk_pcs s (hd q))) \<Longrightarrow> tk_rel N m s q b"
  unfolding tk_rel_def by blast

lemma tk_goto_pcs [simp]: "tk_pcs (tk_goto s t r) u = (if u = t then fst r else tk_pcs s u)"
  by (simp add: tk_goto_def)

lemma tk_rel_acquire:
  assumes rel: "tk_rel N m s q b" and "tk_pcs s t = TkIdle" and "t < N"
  shows "fifo_sim (tk_rel N (Suc m)) (tk_goto s t (ticketlock_acquire (tk_mem s))) q b"
proof -
  obtain k where inv: "tk_inv N k s q" and k: "k + length q \<le> m"
    and b: "b = (q \<noteq> [] \<and> tk_inside (tk_pcs s (hd q)))"
    using rel unfolding tk_rel_def by blast
  have t: "t \<notin> set q" using tk_inv_queued [OF inv, of t] assms(2) by simp
  then have "hd q \<noteq> t" if "q \<noteq> []" using that by (metis list.set_sel(1))
  then have "b = (tk_inside (tk_pcs (tk_goto s t (ticketlock_acquire (tk_mem s))) (hd (q @ [t]))))"
    using b by (auto simp: ticketlock_acquire_def vatomic_simps hd_append)
  with tk_inv_acquire [OF inv assms(2,3)] k t show ?thesis
    by (intro fifo_sim_arrive [where t = t] tk_relI) auto
qed

lemma tk_rel_try_cas:
  assumes rel: "tk_rel N m s q b" and pc: "tk_pcs s t = TkTry w" and "t < N" and m: "m < 2 ^ 32"
  shows "fifo_sim (tk_rel N (Suc m)) (tk_goto s t (ticketlock_tryacquire_cas w (tk_mem s))) q b"
proof -
  obtain k where inv: "tk_inv N k s q" and k: "k + length q \<le> m"
    and b: "b = (q \<noteq> [] \<and> tk_inside (tk_pcs s (hd q)))"
    using rel unfolding tk_rel_def by blast
  show ?thesis
  proof (cases "tk_next (tk_mem s) = w")
    case True
    from tk_inv_try_succeeds [OF inv pc True \<open>t < N\<close>] k m
    have "q = []" "tk_inv N k (tk_goto s t (ticketlock_tryacquire_cas w (tk_mem s))) [t]" by auto
    with k b True show ?thesis
      by (intro fifo_sim_grab [where t = t] tk_relI)
        (auto simp: ticketlock_tryacquire_cas_def vatomic_simps)
  next
    case False
    have "q \<noteq> [] \<Longrightarrow> hd q \<noteq> t" using tk_inv_queued [OF inv, of t] pc by auto
    with tk_inv_try_fails [OF inv pc False] k b False show ?thesis
      by (intro fifo_sim_stay tk_relI)
        (auto simp: ticketlock_tryacquire_cas_def vatomic_simps)
  qed
qed

lemma tk_rel_step:
  assumes rel: "tk_rel (unat N) m s q b"
    and step: "tk_step N allow_try (t, cmd) s = Some s'"
    and m: "\<And>w. tk_pcs s t = TkTry w \<Longrightarrow> m < 2 ^ 32"
  shows "fifo_sim (tk_rel (unat N) (Suc m)) s' q b"
proof -
  have N: "unat N < 2 ^ 32" using u32_lt [of N] by simp
  obtain k where inv: "tk_inv (unat N) k s q" and k: "k + length q \<le> m"
    and b: "b = (q \<noteq> [] \<and> tk_inside (tk_pcs s (hd q)))"
    using rel unfolding tk_rel_def by blast
  have t: "t < unat N" using step by (simp split: if_splits)
  have nt: "q \<noteq> [] \<Longrightarrow> \<not> tk_queued (tk_pcs s t) \<Longrightarrow> hd q \<noteq> t"
    using tk_inv_queued [OF inv, of t] by auto
  show ?thesis
  proof (cases "tk_pcs s t")
    case TkIdle
    then consider "cmd = Acquire" "s' = tk_goto s t (ticketlock_acquire (tk_mem s))"
      | "s' = tk_goto s t (ticketlock_tryacquire (tk_mem s))"
      using step by (cases cmd) (auto split: if_splits)
    then show ?thesis
    proof cases
      case 1
      with tk_rel_acquire [OF rel TkIdle t] show ?thesis by simp
    next
      case 2
      with tk_inv_try [OF inv TkIdle] k b nt TkIdle show ?thesis
        by (intro fifo_sim_stay tk_relI) (auto simp: ticketlock_tryacquire_def)
    qed
  next
    case (TkWait w)
    then have "tk_owner (tk_mem s) = w" and s': "s' = tk_goto s t (TkCrit, tk_mem s)"
      using step by (cases cmd; auto simp: ticketlock_acquire_await_def vatomic_simps split: if_splits)+
    with tk_inv_enter [OF inv N TkWait] k b TkWait show ?thesis
      by (intro fifo_sim_enter tk_relI) auto
  next
    case (TkTry w)
    with step t tk_rel_try_cas [OF rel TkTry t m] show ?thesis by (cases cmd) auto
  next
    case TkCrit
    then have "s' = tk_goto s t (ticketlock_release (tk_mem s))"
      using step by (cases cmd) (auto split: if_splits)
    with tk_inv_release [OF inv TkCrit] tk_inv_inside [OF inv, of t] k b TkCrit show ?thesis
      by (intro fifo_sim_stay tk_relI) (auto simp: ticketlock_release_def)
  next
    case (TkRel w)
    then have s': "s' = tk_goto s t (ticketlock_release_write w (tk_mem s))"
      using step by (cases cmd) (auto split: if_splits)
    from tk_inv_leave [OF inv TkRel] have q: "q \<noteq> []" "t = hd q"
      and inv': "tk_inv (unat N) (Suc k) s' (tl q)" using s' by auto
    have "tl q \<noteq> [] \<Longrightarrow> \<not> tk_inside (tk_pcs s' (hd (tl q)))"
    proof -
      assume ne: "tl q \<noteq> []"
      then have "hd (tl q) \<noteq> hd q"
        using inv q(1) unfolding tk_inv_def by (metis distinct.simps(2) list.collapse list.set_sel(1))
      then show ?thesis using tk_inv_inside [OF inv, of "hd (tl q)"] s' q by auto
    qed
    with inv' q k b TkRel show ?thesis by (intro fifo_sim_leave tk_relI) auto
  qed
qed

section \<open>Blocking acquire: FIFO order and mutual exclusion\<close>

definition tk_frel :: "u32 \<Rightarrow> tk_sys \<Rightarrow> tid list \<Rightarrow> bool \<Rightarrow> bool" where
  "tk_frel N s q b \<longleftrightarrow> (\<exists>m. tk_rel (unat N) m s q b) \<and> (\<forall>t w. tk_pcs s t \<noteq> TkTry w)"

lemma tk_start_rel: "tk_rel n 0 tk_start [] False"
  by (rule tk_relI [of _ 0]) (auto simp: tk_inv_def tk_simps vatomic_simps)

lemma tk_step_no_try:
  assumes "tk_step N False (t, cmd) s = Some s'" and "\<forall>t w. tk_pcs s t \<noteq> TkTry w"
  shows "tk_pcs s' u \<noteq> TkTry w"
  using assms
  by (cases "tk_pcs s t"; cases cmd)
    (auto simp: ticketlock_acquire_def ticketlock_acquire_await_def ticketlock_release_def
      ticketlock_release_write_def vatomic_simps split: if_splits)

lemma tk_rel_crit: "tk_rel n m s q b \<Longrightarrow> tk_crit s t \<Longrightarrow> b \<and> hd q = t"
  unfolding tk_rel_def tk_crit_def using tk_inv_inside [of n _ s q t] by fastforce

interpretation ticketlock: fifo_lock_impl "tk_step N False" tk_start "tk_frel N" tk_crit
proof (unfold_locales, goal_cases)
  case 1
  have "tk_pcs tk_start t \<noteq> TkTry w" for t w by (simp add: tk_start_def)
  then show ?case using tk_start_rel unfolding tk_frel_def by blast
next
  case (2 s q b t cmd s')
  then obtain m where rel: "tk_rel (unat N) m s q b" and nt: "\<forall>t w. tk_pcs s t \<noteq> TkTry w"
    unfolding tk_frel_def by blast
  have "fifo_sim (tk_rel (unat N) (Suc m)) s' q b"
    by (rule tk_rel_step [OF rel 2(2)]) (use nt in blast)
  then show ?case
    by (rule fifo_sim_mono) (use tk_step_no_try [OF 2(2) nt] in \<open>auto simp: tk_frel_def\<close>)
next
  case (3 s q)
  then show ?case by (auto simp: tk_frel_def tk_rel_def)
next
  case (4 s q b t)
  then show ?case unfolding tk_frel_def using tk_rel_crit by blast
qed



text \<open>
  Mutual exclusion of the ticket lock with blocking acquires, in every reachable state.
\<close>

theorem ticketlock_mutual_exclusion:
  assumes "reach (tk_step N False) tk_start s" and "tk_crit s t" and "tk_crit s u"
  shows "t = u"
  using assms by (rule ticketlock.mutual_exclusion)

theorem ticketlock_mutual_exclusion_witness:
  "\<exists>s. exec (tk_step 2 False) [(1, Acquire), (0, Acquire), (1, Run)] tk_start = Some s \<and>
     (\<forall>u. tk_crit s u = (u = 1))"
proof -
  obtain s where e: "exec (tk_step 2 False) [(1, Acquire), (0, Acquire), (1, Run)] tk_start = Some s"
    and c: "tk_crit s 1"
    by (simp add: tk_simps vatomic_simps)
  from ticketlock_mutual_exclusion [OF exec_reach [OF e] c] e c show ?thesis by blast
qed

section \<open>Trying: safe until the counters wrap around, unsafe after\<close>

fun tk_brel :: "u32 \<Rightarrow> nat \<times> tk_sys \<Rightarrow> tid list \<Rightarrow> bool \<Rightarrow> bool" where
  "tk_brel N (m, s) q b = tk_rel (unat N) m s q b"

interpretation ticketlock_try: fifo_lock_impl
  "bounded (2 ^ 32) (tk_step N True)" "(0, tk_start)" "tk_brel N" "\<lambda>(_, s). tk_crit s"
proof (unfold_locales, goal_cases)
  case 1
  show ?case by (simp add: tk_start_rel)
next
  case (2 c q b t cmd c')
  obtain m s where c: "c = (m, s)" by (cases c)
  with 2 obtain s' where s': "tk_step N True (t, cmd) s = Some s'" "c' = (Suc m, s')" "m < 2 ^ 32"
    by (auto split: if_splits)
  have "fifo_sim (tk_rel (unat N) (Suc m)) s' q b"
    by (rule tk_rel_step [OF _ s'(1)]) (use 2 c s' in simp_all)
  then show ?case by (rule fifo_sim_mono) (simp add: s'(2))
next
  case (3 c q)
  then show ?case by (cases c) (auto simp: tk_rel_def)
next
  case (4 c q b t)
  then show ?case by (cases c) (auto dest: tk_rel_crit)
qed

text \<open>
  With \<open>ticketlock_tryacquire\<close> in the mix, mutual exclusion holds in every execution of at
  most \<open>2^32\<close> steps, so in particular as long as the ticket counter has not wrapped around.
\<close>

theorem ticketlock_try_mutual_exclusion:
  assumes "exec (tk_step N True) as tk_start = Some s" and "length as \<le> 2 ^ 32"
    and "tk_crit s t" and "tk_crit s u"
  shows "t = u"
  using ticketlock_try.mutual_exclusion [OF exec_bounded [OF assms(1,2)]] assms(3,4) by simp

theorem ticketlock_try_mutual_exclusion_witness:
  "\<exists>s. exec (tk_step 2 True) [(1, TryAcquire), (0, TryAcquire), (1, Run), (0, Run)] tk_start = Some s \<and>
     (\<forall>u. tk_crit s u = (u = 1))"
proof -
  let ?as = "[(1, TryAcquire), (0, TryAcquire), (1, Run), (0, Run)]"
  obtain s where e: "exec (tk_step 2 True) ?as tk_start = Some s" and c: "tk_crit s 1"
    by (simp add: tk_simps vatomic_simps)
  have "length ?as \<le> 2 ^ 32" by simp
  from ticketlock_try_mutual_exclusion [OF e this c] e c show ?thesis by blast
qed

text \<open>The state in which thread 0 has read owner 0 and everybody else has completed \<open>k\<close> rounds.\<close>

definition tk_rounds :: "nat \<Rightarrow> tk_sys" where
  "tk_rounds k = \<lparr>tk_mem = \<lparr>tk_next = of_nat k, tk_owner = of_nat k\<rparr>,
     tk_pcs = (\<lambda>_. TkIdle)(0 := TkTry 0)\<rparr>"

definition tk_round :: "lock_label list" where
  "tk_round = [(1, Acquire), (1, Run), (1, Release), (1, Run)]"

lemma exec_tk_round: "exec (tk_step 2 True) tk_round (tk_rounds k) = Some (tk_rounds (Suc k))"
  by (simp add: tk_round_def tk_rounds_def tk_simps vatomic_simps fun_eq_iff)

text \<open>
  Once the counters wrap around, \<open>ticketlock_tryacquire\<close> is unsafe: a thread reads \<open>owner\<close>,
  is preempted for \<open>2^32 - 1\<close> complete rounds of another thread, and then its compare-and-exchange
  of \<open>next\<close> succeeds while the other thread is in the critical section.
\<close>

theorem ticketlock_try_wraps:
  "\<exists>s. reach (tk_step 2 True) tk_start s \<and> tk_crit s 0 \<and> tk_crit s 1"
proof -
  let ?step = "tk_step 2 True"
  have a: "exec ?step [(0, TryAcquire)] tk_start = Some (tk_rounds 0)"
    by (simp add: tk_rounds_def tk_simps vatomic_simps)
  have b: "exec ?step (concat (replicate (2 ^ 32 - 1) tk_round)) (tk_rounds 0)
      = Some (tk_rounds (2 ^ 32 - 1))"
    using exec_replicate_rounds [of ?step tk_round tk_rounds "2 ^ 32 - 1" 0] exec_tk_round by simp
  have w: "(of_nat (2 ^ 32 - 1) :: u32) = 2 ^ 32 - 1" by simp
  have c: "\<exists>s. exec ?step [(1, Acquire), (1, Run), (0, Run)] (tk_rounds (2 ^ 32 - 1)) = Some s
      \<and> tk_crit s 0 \<and> tk_crit s 1"
    unfolding tk_rounds_def w by (simp add: tk_simps vatomic_simps)
  then obtain s where s: "exec ?step [(1, Acquire), (1, Run), (0, Run)] (tk_rounds (2 ^ 32 - 1)) = Some s"
    "tk_crit s 0" "tk_crit s 1" by blast
  from a b s(1) have "reach ?step tk_start s"
    by (metis exec_reach reach_trans)
  with s show ?thesis by blast
qed

text \<open>\<open>ticketlock_has_waiters\<close>, called by the holder, tells whether another thread holds a ticket.\<close>

lemma ticketlock_has_waiters_iff:
  assumes "tk_inv (unat (N :: u32)) k s q" and "q \<noteq> []"
  shows "ticketlock_has_waiters (tk_mem s) \<longleftrightarrow> 1 < length q"
proof -
  have "length q < 2 ^ 32"
    using tk_inv_length [OF assms(1)] u32_lt [of N] by simp
  then have "unat (of_nat (length q) :: u32) = length q" by (simp add: unat_of_nat)
  moreover have "tk_next (tk_mem s) - tk_owner (tk_mem s) = of_nat (length q)"
    using assms(1) by (simp add: tk_inv_def)
  ultimately show ?thesis
    by (simp add: ticketlock_has_waiters_def vatomic_simps word_less_nat_alt)
qed

end
