(* ===== verification/Twalock.thy ===== *)
theory Twalock
  imports Ticketlock
begin

text \<open>
  The ticket lock with a waiting array, \<^verbatim>\<open>spinlock/twalock.h\<close>, in the original version and with the
  bug the benchmark injects. The original lock is a ticket lock that spins elsewhere: the
  abstraction that forgets the waiting array maps each of its steps to a step of the ticket
  lock or to none, so it inherits the ticket lock's order and exclusion.
\<close>

section \<open>Operations\<close>

definition TWA_L :: u32 where "TWA_L = 1"

definition TWA_A :: u32 where "TWA_A = 4096"

definition TWA_DIFF :: "u32 \<Rightarrow> u32 \<Rightarrow> u32" where "TWA_DIFF a b = a - b"

definition TWA_HASH :: "u32 \<Rightarrow> u32" where "TWA_HASH t = t mod TWA_A"

record twalock_t =
  twa_ticket :: u32
  twa_grant :: u32

text \<open>The memory a call works on: the lock and the global array, a counter per index below \<open>TWA_A\<close>.\<close>

record twa_mem =
  twa_lock :: twalock_t
  twa_array :: "u32 \<Rightarrow> u32"

definition twalock_init :: "twalock_t \<Rightarrow> twalock_t" where
  "twalock_init l = l\<lparr>twa_ticket := vatomic32_init (twa_ticket l) 0, twa_grant := vatomic32_init (twa_grant l) 0\<rparr>"

text \<open>
  The slow path: read the array, then alternate between reading the grant (\<open>SlowGrant\<close>, before the
  loop and at its end) and waiting for the array entry to change (\<open>SlowNeq\<close>).
\<close>

datatype twa_slow_pc = SlowArray | SlowGrant u32 | SlowNeq u32

fun twalock_acquire_slowpath :: "u32 \<Rightarrow> twa_slow_pc \<Rightarrow> twa_mem \<Rightarrow> (twa_slow_pc + unit) option" where
  "twalock_acquire_slowpath t SlowArray m =
     Some (Inl (SlowGrant (vatomic32_read (twa_array m (TWA_HASH t)))))"
| "twalock_acquire_slowpath t (SlowGrant u) m =
     (let dx = TWA_DIFF t (vatomic32_read (twa_grant (twa_lock m)))
      in Some (if dx > TWA_L then Inl (SlowNeq u) else Inr ()))"
| "twalock_acquire_slowpath t (SlowNeq u) m =
     map_option (\<lambda>u'. Inl (SlowGrant u')) (vatomic32_await_neq (twa_array m (TWA_HASH t)) u)"

datatype twa_acq_pc = AcqTicket | AcqGrant u32 | AcqSlow u32 twa_slow_pc | AcqAwait u32

fun twalock_acquire_orig :: "twa_acq_pc \<Rightarrow> twa_mem \<Rightarrow> ((twa_acq_pc + unit) \<times> twa_mem) option" where
  "twalock_acquire_orig AcqTicket m =
     (let (tx, a) = vatomic32_get_inc (twa_ticket (twa_lock m))
      in Some (Inl (AcqGrant tx), m\<lparr>twa_lock := (twa_lock m)\<lparr>twa_ticket := a\<rparr>\<rparr>))"
| "twalock_acquire_orig (AcqGrant tx) m =
     (let dx = TWA_DIFF tx (vatomic32_read (twa_grant (twa_lock m)))
      in Some (if dx = 0 then Inr () else if dx > TWA_L then Inl (AcqSlow tx SlowArray) else Inl (AcqAwait tx), m))"
| "twalock_acquire_orig (AcqSlow tx pc) m =
     (case twalock_acquire_slowpath tx pc m of
        None \<Rightarrow> None
      | Some (Inl pc') \<Rightarrow> Some (Inl (AcqSlow tx pc'), m)
      | Some (Inr _) \<Rightarrow> Some (Inl (AcqAwait tx), m))"
| "twalock_acquire_orig (AcqAwait tx) m =
     (if vatomic32_read (twa_grant (twa_lock m)) = tx then Some (Inr (), m) else None)"

text \<open>With the bug, the call returns after the slow path without waiting for the grant.\<close>

fun twalock_acquire :: "twa_acq_pc \<Rightarrow> twa_mem \<Rightarrow> ((twa_acq_pc + unit) \<times> twa_mem) option" where
  "twalock_acquire AcqTicket m =
     (let (tx, a) = vatomic32_get_inc (twa_ticket (twa_lock m))
      in Some (Inl (AcqGrant tx), m\<lparr>twa_lock := (twa_lock m)\<lparr>twa_ticket := a\<rparr>\<rparr>))"
| "twalock_acquire (AcqGrant tx) m =
     (let dx = TWA_DIFF tx (vatomic32_read (twa_grant (twa_lock m)))
      in Some (if dx = 0 then Inr () else if dx > TWA_L then Inl (AcqSlow tx SlowArray) else Inl (AcqAwait tx), m))"
| "twalock_acquire (AcqSlow tx pc) m =
     (case twalock_acquire_slowpath tx pc m of
        None \<Rightarrow> None
      | Some (Inl pc') \<Rightarrow> Some (Inl (AcqSlow tx pc'), m)
      | Some (Inr _) \<Rightarrow> Some (Inr (), m))"
| "twalock_acquire (AcqAwait tx) m =
     (if vatomic32_read (twa_grant (twa_lock m)) = tx then Some (Inr (), m) else None)"

datatype twa_rel_pc = RelRead | RelWrite u32 | RelInc u32

fun twalock_release :: "twa_rel_pc \<Rightarrow> twa_mem \<Rightarrow> (twa_rel_pc + unit) \<times> twa_mem" where
  "twalock_release RelRead m = (Inl (RelWrite (vatomic32_read (twa_grant (twa_lock m)) + 1)), m)"
| "twalock_release (RelWrite k) m =
     (Inl (RelInc k), m\<lparr>twa_lock := (twa_lock m)\<lparr>twa_grant := vatomic32_write (twa_grant (twa_lock m)) k\<rparr>\<rparr>)"
| "twalock_release (RelInc k) m =
     (let at = TWA_HASH (k + TWA_L)
      in (Inr (), m\<lparr>twa_array := (twa_array m)(at := vatomic32_inc (twa_array m at))\<rparr>))"

datatype twa_try_pc = TwaTryRead | TwaTryCas u32

fun twalock_tryacquire :: "twa_try_pc \<Rightarrow> twa_mem \<Rightarrow> (twa_try_pc + bool) \<times> twa_mem" where
  "twalock_tryacquire TwaTryRead m = (Inl (TwaTryCas (vatomic32_read (twa_grant (twa_lock m)))), m)"
| "twalock_tryacquire (TwaTryCas k) m =
     (let (r, a) = vatomic32_cmpxchg (twa_ticket (twa_lock m)) k (k + 1)
      in (Inr (r = k), m\<lparr>twa_lock := (twa_lock m)\<lparr>twa_ticket := a\<rparr>\<rparr>))"

section \<open>Threads that use one lock\<close>

datatype twa_pc = TwIdle | TwAcq twa_acq_pc | TwTry twa_try_pc | TwCrit | TwRel twa_rel_pc

record twa_sys =
  tw_mem :: twa_mem
  tw_pcs :: "tid \<Rightarrow> twa_pc"

definition twa_start :: "(u32 \<Rightarrow> u32) \<Rightarrow> twa_sys" where
  "twa_start arr = \<lparr>tw_mem = \<lparr>twa_lock = twalock_init \<lparr>twa_ticket = 0, twa_grant = 0\<rparr>, twa_array = arr\<rparr>,
     tw_pcs = (\<lambda>_. TwIdle)\<rparr>"

definition tw_goto :: "twa_sys \<Rightarrow> tid \<Rightarrow> twa_mem \<Rightarrow> twa_pc \<Rightarrow> twa_sys" where
  "tw_goto s t m pc = s\<lparr>tw_mem := m, tw_pcs := (tw_pcs s)(t := pc)\<rparr>"

definition twa_acq_step ::
  "(twa_acq_pc \<Rightarrow> twa_mem \<Rightarrow> ((twa_acq_pc + unit) \<times> twa_mem) option) \<Rightarrow> twa_sys \<Rightarrow> tid \<Rightarrow> twa_acq_pc \<Rightarrow> twa_sys option" where
  "twa_acq_step acq s t pc =
     map_option (\<lambda>(r, m). tw_goto s t m (case r of Inl pc' \<Rightarrow> TwAcq pc' | Inr _ \<Rightarrow> TwCrit)) (acq pc (tw_mem s))"

definition twa_try_step :: "twa_sys \<Rightarrow> tid \<Rightarrow> twa_try_pc \<Rightarrow> twa_sys option" where
  "twa_try_step s t pc =
     (case twalock_tryacquire pc (tw_mem s) of
        (Inl pc', m) \<Rightarrow> Some (tw_goto s t m (TwTry pc'))
      | (Inr b, m) \<Rightarrow> Some (tw_goto s t m (if b then TwCrit else TwIdle)))"

definition twa_rel_step :: "twa_sys \<Rightarrow> tid \<Rightarrow> twa_rel_pc \<Rightarrow> twa_sys option" where
  "twa_rel_step s t pc =
     (case twalock_release pc (tw_mem s) of (r, m) \<Rightarrow> Some (tw_goto s t m (case r of Inl pc' \<Rightarrow> TwRel pc' | Inr _ \<Rightarrow> TwIdle)))"

fun twa_step ::
  "(twa_acq_pc \<Rightarrow> twa_mem \<Rightarrow> ((twa_acq_pc + unit) \<times> twa_mem) option) \<Rightarrow> u32 \<Rightarrow> bool \<Rightarrow> lock_label \<Rightarrow> twa_sys \<Rightarrow> twa_sys option" where
  "twa_step acq N allow_try (t, cmd) s =
     (if t < unat N then
        (case (tw_pcs s t, cmd) of
           (TwIdle, Acquire) \<Rightarrow> twa_acq_step acq s t AcqTicket
         | (TwIdle, TryAcquire) \<Rightarrow> (if allow_try then twa_try_step s t TwaTryRead else None)
         | (TwAcq pc, Run) \<Rightarrow> twa_acq_step acq s t pc
         | (TwTry pc, Run) \<Rightarrow> twa_try_step s t pc
         | (TwCrit, Release) \<Rightarrow> twa_rel_step s t RelRead
         | (TwRel pc, Run) \<Rightarrow> twa_rel_step s t pc
         | _ \<Rightarrow> None)
      else None)"

lemmas twa_simps =
  TWA_L_def TWA_A_def TWA_DIFF_def TWA_HASH_def twalock_init_def twa_start_def tw_goto_def
  twa_acq_step_def twa_try_step_def twa_rel_step_def

section \<open>The original lock refines the ticket lock\<close>

fun twa_abs_pc :: "twa_pc \<Rightarrow> tk_pc" where
  "twa_abs_pc TwIdle = TkIdle"
| "twa_abs_pc (TwAcq AcqTicket) = TkIdle"
| "twa_abs_pc (TwAcq (AcqGrant tx)) = TkWait tx"
| "twa_abs_pc (TwAcq (AcqSlow tx pc)) = TkWait tx"
| "twa_abs_pc (TwAcq (AcqAwait tx)) = TkWait tx"
| "twa_abs_pc (TwTry TwaTryRead) = TkIdle"
| "twa_abs_pc (TwTry (TwaTryCas k)) = TkTry k"
| "twa_abs_pc TwCrit = TkCrit"
| "twa_abs_pc (TwRel RelRead) = TkCrit"
| "twa_abs_pc (TwRel (RelWrite k)) = TkRel (k - 1)"
| "twa_abs_pc (TwRel (RelInc k)) = TkIdle"

definition twa_abs :: "twa_sys \<Rightarrow> tk_sys" where
  "twa_abs s = \<lparr>tk_mem = \<lparr>tk_next = twa_ticket (twa_lock (tw_mem s)), tk_owner = twa_grant (twa_lock (tw_mem s))\<rparr>,
     tk_pcs = (\<lambda>t. twa_abs_pc (tw_pcs s t))\<rparr>"

lemma twa_abs_goto:
  "twa_abs (tw_goto s t m pc) =
     tk_goto (twa_abs s) t (twa_abs_pc pc, \<lparr>tk_next = twa_ticket (twa_lock m), tk_owner = twa_grant (twa_lock m)\<rparr>)"
  by (auto simp: twa_abs_def tw_goto_def tk_goto_def)

lemma twa_abs_sel [simp]:
  "tk_pcs (twa_abs s) t = twa_abs_pc (tw_pcs s t)"
  "tk_mem (twa_abs s) = \<lparr>tk_next = twa_ticket (twa_lock (tw_mem s)), tk_owner = twa_grant (twa_lock (tw_mem s))\<rparr>"
  by (simp_all add: twa_abs_def)

lemma tk_goto_idle:
  "tk_goto (twa_abs s) t (twa_abs_pc (tw_pcs s t), tk_mem (twa_abs s)) = twa_abs s"
  by (simp add: tk_goto_def twa_abs_def fun_upd_idem)

text \<open>A step that the ticket lock does not see.\<close>

lemma twa_stutter:
  assumes "s' = tw_goto s t m pc" and "twa_abs_pc pc = twa_abs_pc (tw_pcs s t)" and "twa_lock m = twa_lock (tw_mem s)"
  shows "twa_abs s' = twa_abs s"
  using assms tk_goto_idle [of s t] by (simp add: twa_abs_goto)

lemma twa_acq_refines:
  assumes "t < unat N" and "tw_pcs s t = TwAcq pc \<and> pc \<noteq> AcqTicket"
    and step: "twa_acq_step twalock_acquire_orig s t pc = Some s'"
  shows "twa_abs s' = twa_abs s \<or> tk_step N b (t, Run) (twa_abs s) = Some (twa_abs s')"
proof (cases pc)
  case (AcqGrant tx)
  let ?dx = "tx - twa_grant (twa_lock (tw_mem s))"
  have "s' = tw_goto s t (tw_mem s) (if ?dx = 0 then TwCrit
      else TwAcq (if ?dx > 1 then AcqSlow tx SlowArray else AcqAwait tx))"
    using step AcqGrant by (simp add: twa_acq_step_def Let_def vatomic_simps TWA_DIFF_def TWA_L_def split: if_splits)
  then show ?thesis
    using assms(1,2) AcqGrant twa_stutter [of s' s t "tw_mem s"]
    by (cases "?dx = 0") (simp_all add: twa_abs_goto ticketlock_acquire_await_def vatomic_simps)
next
  case (AcqSlow tx q)
  then have "\<exists>pc'. s' = tw_goto s t (tw_mem s) (TwAcq pc') \<and> twa_abs_pc (TwAcq pc') = TkWait tx"
    using step by (auto simp: twa_acq_step_def split: option.splits sum.splits)
  then show ?thesis using assms(2) AcqSlow twa_stutter [of s' s t "tw_mem s"] by auto
next
  case (AcqAwait tx)
  then have "twa_grant (twa_lock (tw_mem s)) = tx \<and> s' = tw_goto s t (tw_mem s) TwCrit"
    using step by (auto simp: twa_acq_step_def vatomic_simps split: if_splits)
  then show ?thesis using assms(1,2) AcqAwait
    by (simp add: twa_abs_goto ticketlock_acquire_await_def vatomic_simps)
qed (use assms in simp)

lemma twa_ticket_refines:
  assumes "t < unat N" and "tw_pcs s t = TwIdle \<or> tw_pcs s t = TwAcq AcqTicket"
    and "twa_acq_step twalock_acquire_orig s t AcqTicket = Some s'"
  shows "tk_step N b (t, Acquire) (twa_abs s) = Some (twa_abs s')"
  using assms by (auto simp: twa_acq_step_def twa_abs_goto ticketlock_acquire_def vatomic_simps)

lemma twa_try_refines:
  assumes "t < unat N" and "tw_pcs s t = TwTry pc \<or> pc = TwaTryRead \<and> tw_pcs s t = TwIdle" and b: "b"
    and step: "twa_try_step s t pc = Some s'"
  shows "\<exists>c. tk_step N b (t, c) (twa_abs s) = Some (twa_abs s')"
proof (cases pc)
  case TwaTryRead
  with assms have "tk_step N b (t, TryAcquire) (twa_abs s) = Some (twa_abs s')"
    by (auto simp: twa_try_step_def twa_abs_goto ticketlock_tryacquire_def vatomic_simps)
  then show ?thesis by blast
next
  case (TwaTryCas k)
  with assms have "tk_step N b (t, Run) (twa_abs s) = Some (twa_abs s')"
    by (auto simp: twa_try_step_def twa_abs_goto ticketlock_tryacquire_cas_def vatomic_simps)
  then show ?thesis by blast
qed

lemma twa_rel_refines:
  assumes "t < unat N" and "tw_pcs s t = TwRel pc \<or> pc = RelRead \<and> tw_pcs s t = TwCrit"
    and step: "twa_rel_step s t pc = Some s'"
  shows "twa_abs s' = twa_abs s \<or> (\<exists>c. tk_step N b (t, c) (twa_abs s) = Some (twa_abs s'))"
proof (cases pc)
  case RelRead
  with assms have "tk_step N b (t, Release) (twa_abs s) = Some (twa_abs s')"
    by (auto simp: twa_rel_step_def twa_abs_goto ticketlock_release_def vatomic_simps)
  then show ?thesis by blast
next
  case (RelWrite k)
  with assms have "tk_step N b (t, Run) (twa_abs s) = Some (twa_abs s')"
    by (auto simp: twa_rel_step_def twa_abs_goto ticketlock_release_write_def vatomic_simps)
  then show ?thesis by blast
next
  case (RelInc k)
  with assms obtain m where "s' = tw_goto s t m TwIdle" "twa_lock m = twa_lock (tw_mem s)"
    by (auto simp: twa_rel_step_def Let_def)
  with assms RelInc twa_stutter [of s' s t m TwIdle] show ?thesis by auto
qed

text \<open>No thread is between steps at the first access of a call.\<close>

fun twa_pc_ok :: "bool \<Rightarrow> twa_pc \<Rightarrow> bool" where
  "twa_pc_ok b (TwAcq pc) = (pc \<noteq> AcqTicket)"
| "twa_pc_ok b (TwTry pc) = b"
| "twa_pc_ok b pc = True"

definition twa_ok :: "bool \<Rightarrow> twa_sys \<Rightarrow> bool" where
  "twa_ok b s \<longleftrightarrow> (\<forall>t. twa_pc_ok b (tw_pcs s t))"

lemma twa_ok_goto: "twa_ok b s \<Longrightarrow> twa_pc_ok b pc \<Longrightarrow> twa_ok b (tw_goto s t m pc)"
  by (simp add: twa_ok_def tw_goto_def)

lemma twa_step_ok:
  assumes "twa_ok b s" and "twa_step twalock_acquire_orig N b (t, cmd) s = Some s'"
  shows "twa_ok b s'"
proof -
  have acq: "twa_acq_step twalock_acquire_orig s t pc = Some s' \<Longrightarrow> twa_ok b s'" for pc
    using assms(1) by (cases pc)
      (auto simp: twa_acq_step_def vatomic_simps Let_def intro!: twa_ok_goto split: if_splits option.splits sum.splits)
  have att: "twa_try_step s t pc = Some s' \<Longrightarrow> b \<Longrightarrow> twa_ok b s'" for pc
    using assms(1) by (cases pc) (auto simp: twa_try_step_def vatomic_simps intro!: twa_ok_goto split: if_splits)
  have rel: "twa_rel_step s t pc = Some s' \<Longrightarrow> twa_ok b s'" for pc
    using assms(1) by (cases pc) (auto simp: twa_rel_step_def Let_def intro!: twa_ok_goto)
  have "twa_pc_ok b (tw_pcs s t)" using assms(1) by (simp add: twa_ok_def)
  then show ?thesis
    using assms(2) acq att rel
    by (cases "tw_pcs s t"; cases cmd) (auto split: if_splits)
qed

lemma twa_step_refines:
  assumes "twa_ok b s" and step: "twa_step twalock_acquire_orig N b (t, cmd) s = Some s'"
  shows "twa_abs s' = twa_abs s \<or> (\<exists>c. tk_step N b (t, c) (twa_abs s) = Some (twa_abs s'))"
proof -
  have t: "t < unat N" using step by (simp split: if_splits)
  have ok: "\<And>pc. tw_pcs s t = TwAcq pc \<Longrightarrow> pc \<noteq> AcqTicket" "\<And>pc. tw_pcs s t = TwTry pc \<Longrightarrow> b"
    using assms(1) unfolding twa_ok_def by (metis twa_pc_ok.simps(1), metis twa_pc_ok.simps(2))
  show ?thesis
  proof (cases "tw_pcs s t")
    case TwIdle
    then consider "twa_acq_step twalock_acquire_orig s t AcqTicket = Some s'" | "b" "twa_try_step s t TwaTryRead = Some s'"
      using step by (cases cmd) (auto split: if_splits)
    then show ?thesis using TwIdle twa_ticket_refines [OF t] twa_try_refines [OF t] by cases blast+
  next
    case (TwAcq pc)
    then have "twa_acq_step twalock_acquire_orig s t pc = Some s'" using step by (cases cmd) (auto split: if_splits)
    then show ?thesis using twa_acq_refines [OF t, of s pc s' b] TwAcq ok by blast
  next
    case (TwTry pc)
    then have "twa_try_step s t pc = Some s'" using step by (cases cmd) (auto split: if_splits)
    then show ?thesis using twa_try_refines [OF t, of s pc b s'] TwTry ok by blast
  next
    case TwCrit
    then have "twa_rel_step s t RelRead = Some s'" using step by (cases cmd) (auto split: if_splits)
    then show ?thesis using twa_rel_refines [OF t] TwCrit by blast
  next
    case (TwRel pc)
    then have "twa_rel_step s t pc = Some s'" using step by (cases cmd) (auto split: if_splits)
    then show ?thesis using twa_rel_refines [OF t] TwRel by blast
  qed
qed

interpretation twa_orig: simulation "twa_step twalock_acquire_orig N b" "twa_start arr" "tk_step N b" tk_start
  "\<lambda>c a. twa_ok b c \<and> a = twa_abs c"
  for N b arr
proof (unfold_locales, goal_cases)
  case 1
  show ?case by (auto simp: twa_ok_def twa_simps twa_abs_def tk_start_def ticketlock_init_def vatomic_simps)
next
  case (2 c a l c')
  obtain t cmd where l: "l = (t, cmd)" by fastforce
  with 2 twa_step_ok have "twa_ok b c'" by blast
  moreover have "reach (tk_step N b) a (twa_abs c')"
    using twa_step_refines [of b c N t cmd c'] 2 l reach_init reach_one by metis
  ultimately show ?case by blast
qed

text \<open>
  C33. The original TWA lock refines the ticket lock: forgetting the waiting array, every reachable
  state is a reachable state of \<^verbatim>\<open>ticketlock.h\<close> in which the same threads are inside, so with blocking
  acquires threads enter in the order of their tickets and exclude each other.
\<close>

theorem twalock_refines_ticketlock:
  assumes "reach (twa_step twalock_acquire_orig N allow_try) (twa_start arr) s"
  shows "reach (tk_step N allow_try) tk_start (twa_abs s) \<and>
    (\<forall>t. tw_pcs s t = TwCrit \<longrightarrow> tk_crit (twa_abs s) t) \<and>
    (\<not> allow_try \<longrightarrow> (\<exists>q b. reach fifo_step ([], False) (q, b) \<and>
      (\<forall>t. tw_pcs s t = TwCrit \<longrightarrow> b \<and> q \<noteq> [] \<and> hd q = t)))"
proof -
  have r: "reach (tk_step N allow_try) tk_start (twa_abs s)"
    using twa_orig.reach_rel [OF assms] by blast
  moreover have c: "tw_pcs s t = TwCrit \<Longrightarrow> tk_crit (twa_abs s) t" for t by (simp add: tk_crit_def)
  ultimately show ?thesis using ticketlock.reach_fifo [of N "twa_abs s"] by metis
qed

theorem twalock_refines_ticketlock_witness:
  "\<exists>s. exec (twa_step twalock_acquire_orig 3 False)
     [(0, Acquire), (0, Run), (1, Acquire), (2, Acquire), (2, Run), (2, Run), (2, Run), (0, Release), (0, Run), (0, Run),
      (2, Run), (2, Run), (1, Run)] (twa_start (\<lambda>_. 0)) = Some s
     \<and> tw_pcs s 1 = TwCrit \<and> tw_pcs s 2 = TwAcq (AcqAwait 2) \<and> tk_crit (twa_abs s) 1"
proof -
  obtain s where e: "exec (twa_step twalock_acquire_orig 3 False)
     [(0, Acquire), (0, Run), (1, Acquire), (2, Acquire), (2, Run), (2, Run), (2, Run), (0, Release), (0, Run), (0, Run),
      (2, Run), (2, Run), (1, Run)] (twa_start (\<lambda>_. 0)) = Some s"
    and c: "tw_pcs s 1 = TwCrit" "tw_pcs s 2 = TwAcq (AcqAwait 2)"
    by (simp add: twa_simps vatomic_simps)
  from twalock_refines_ticketlock [OF exec_reach [OF e]] e c show ?thesis by blast
qed

text \<open>
  The bug the benchmark injects into \<open>twalock_acquire\<close> breaks mutual exclusion: a thread that went
  through the slow path enters as soon as it is next in line, while its predecessor is inside.
\<close>

theorem twalock_bug_breaks_exclusion:
  "\<exists>s. exec (twa_step twalock_acquire 3 False)
     [(0, Acquire), (0, Run), (1, Acquire), (2, Acquire), (2, Run), (2, Run), (2, Run), (0, Release), (0, Run), (0, Run),
      (2, Run), (2, Run), (1, Run)] (twa_start (\<lambda>_. 0)) = Some s
     \<and> tw_pcs s 1 = TwCrit \<and> tw_pcs s 2 = TwCrit"
  by (simp add: twa_simps vatomic_simps)

end
