(* ===== verification/Vatomicptr.thy ===== *)
theory Vatomicptr
  imports Vatomic
begin

text \<open>
  The \<open>vatomicptr\<close> interface (\<^verbatim>\<open>internal/builtins.h\<close> and \<^verbatim>\<open>internal/fallback.h\<close>): operations on an atomic
  variable that holds a pointer. Pointers are values of any type; where they may be \<open>NULL\<close> they are
  options.
\<close>

definition vatomicptr_read :: "'p \<Rightarrow> 'p" where
  "vatomicptr_read a = a"

definition vatomicptr_write :: "'p \<Rightarrow> 'p \<Rightarrow> 'p" where
  "vatomicptr_write a v = v"

definition vatomicptr_xchg :: "'p \<Rightarrow> 'p \<Rightarrow> 'p \<times> 'p" where
  "vatomicptr_xchg a v = (a, v)"

definition vatomicptr_cmpxchg :: "'p \<Rightarrow> 'p \<Rightarrow> 'p \<Rightarrow> 'p \<times> 'p" where
  "vatomicptr_cmpxchg a e v = (if a = e then (e, v) else (a, a))"

definition vatomicptr_init :: "'p \<Rightarrow> 'p \<Rightarrow> 'p" where
  "vatomicptr_init a v = vatomicptr_write a v"

text \<open>One round of the spinning loops: \<open>None\<close> is a round that has to be repeated.\<close>

definition vatomicptr_await_neq :: "'p \<Rightarrow> 'p \<Rightarrow> 'p option" where
  "vatomicptr_await_neq a c = (let cur = vatomicptr_read a in if cur = c then None else Some cur)"

lemmas [vatomic_simps] =
  vatomicptr_read_def vatomicptr_write_def vatomicptr_xchg_def vatomicptr_cmpxchg_def
  vatomicptr_init_def vatomicptr_await_neq_def

end
