(* ===== verification/Lock_Client.thy ===== *)
theory Lock_Client
  imports Lock_Spec Vatomicptr
begin

text \<open>
  Threads that use one lock, for locks whose functions work on a memory of any type. A lock is given
  by its functions as step functions on a program counter: a call goes on (\<open>Inl\<close>) or returns (\<open>Inr\<close>),
  and is \<open>None\<close> while it waits. The second part holds the lemmas on queues that the queue locks share.
\<close>

section \<open>Calls in progress\<close>

datatype ('a, 't, 'r) client_pc = ClIdle | ClAcq 'a | ClTry 't | ClCrit | ClRel 'r

record ('a, 't, 'r, 'm) lock_ops =
  op_acquire :: "'a \<Rightarrow> tid \<Rightarrow> 'm \<Rightarrow> (('a + unit) \<times> 'm) option"
  op_acquire_start :: 'a
  op_tryacquire :: "'t \<Rightarrow> tid \<Rightarrow> 'm \<Rightarrow> (('t + bool) \<times> 'm) option"
  op_tryacquire_start :: 't
  op_release :: "'r \<Rightarrow> tid \<Rightarrow> 'm \<Rightarrow> (('r + unit) \<times> 'm) option"
  op_release_start :: 'r

record ('a, 't, 'r, 'm) lock_sys =
  ls_mem :: 'm
  ls_pcs :: "tid \<Rightarrow> ('a, 't, 'r) client_pc"

definition cl_goto :: "('a, 't, 'r, 'm) lock_sys \<Rightarrow> tid \<Rightarrow> ('a, 't, 'r) client_pc \<Rightarrow> 'm \<Rightarrow> ('a, 't, 'r, 'm) lock_sys" where
  "cl_goto s t pc m = \<lparr>ls_mem = m, ls_pcs = (ls_pcs s)(t := pc)\<rparr>"

lemma cl_goto_sel [simp]:
  "ls_mem (cl_goto s t pc m) = m" "ls_pcs (cl_goto s t pc m) = (ls_pcs s)(t := pc)"
  by (simp_all add: cl_goto_def)

fun cl_acquired :: "'a + unit \<Rightarrow> ('a, 't, 'r) client_pc" where
  "cl_acquired (Inl p) = ClAcq p" | "cl_acquired (Inr _) = ClCrit"

fun cl_tried :: "'t + bool \<Rightarrow> ('a, 't, 'r) client_pc" where
  "cl_tried (Inl p) = ClTry p" | "cl_tried (Inr b) = (if b then ClCrit else ClIdle)"

fun cl_released :: "'r + unit \<Rightarrow> ('a, 't, 'r) client_pc" where
  "cl_released (Inl p) = ClRel p" | "cl_released (Inr _) = ClIdle"

definition cl_start :: "'m \<Rightarrow> ('a, 't, 'r, 'm) lock_sys" where
  "cl_start m = \<lparr>ls_mem = m, ls_pcs = (\<lambda>_. ClIdle)\<rparr>"

fun cl_step :: "('a, 't, 'r, 'm) lock_ops \<Rightarrow> lock_label \<Rightarrow> ('a, 't, 'r, 'm) lock_sys \<Rightarrow> ('a, 't, 'r, 'm) lock_sys option" where
  "cl_step ops (t, cmd) s =
     (let acq = (\<lambda>p. map_option (\<lambda>(r, m). cl_goto s t (cl_acquired r) m) (op_acquire ops p t (ls_mem s)));
          tr = (\<lambda>p. map_option (\<lambda>(r, m). cl_goto s t (cl_tried r) m) (op_tryacquire ops p t (ls_mem s)));
          rel = (\<lambda>p. map_option (\<lambda>(r, m). cl_goto s t (cl_released r) m) (op_release ops p t (ls_mem s)))
      in case (ls_pcs s t, cmd) of
           (ClIdle, Acquire) \<Rightarrow> acq (op_acquire_start ops)
         | (ClAcq p, Run) \<Rightarrow> acq p
         | (ClIdle, TryAcquire) \<Rightarrow> tr (op_tryacquire_start ops)
         | (ClTry p, Run) \<Rightarrow> tr p
         | (ClCrit, Release) \<Rightarrow> rel (op_release_start ops)
         | (ClRel p, Run) \<Rightarrow> rel p
         | _ \<Rightarrow> None)"

definition cl_crit :: "('a, 't, 'r, 'm) lock_sys \<Rightarrow> tid \<Rightarrow> bool" where
  "cl_crit s t \<longleftrightarrow> ls_pcs s t = ClCrit"

text \<open>The call a thread is in when it makes its next step of the given kind.\<close>

definition in_acq :: "('a, 't, 'r, 'm) lock_ops \<Rightarrow> ('a, 't, 'r) client_pc \<Rightarrow> 'a \<Rightarrow> bool" where
  "in_acq ops pc p \<longleftrightarrow> pc = ClIdle \<and> p = op_acquire_start ops \<or> pc = ClAcq p"

definition in_try :: "('a, 't, 'r, 'm) lock_ops \<Rightarrow> ('a, 't, 'r) client_pc \<Rightarrow> 't \<Rightarrow> bool" where
  "in_try ops pc p \<longleftrightarrow> pc = ClIdle \<and> p = op_tryacquire_start ops \<or> pc = ClTry p"

definition in_rel :: "('a, 't, 'r, 'm) lock_ops \<Rightarrow> ('a, 't, 'r) client_pc \<Rightarrow> 'r \<Rightarrow> bool" where
  "in_rel ops pc p \<longleftrightarrow> pc = ClCrit \<and> p = op_release_start ops \<or> pc = ClRel p"

lemma cl_step_cases:
  assumes "cl_step ops (t, cmd) s = Some s'"
  obtains
    (acq) p r m where "in_acq ops (ls_pcs s t) p" "op_acquire ops p t (ls_mem s) = Some (r, m)"
      "s' = cl_goto s t (cl_acquired r) m"
  | (tr) p r m where "in_try ops (ls_pcs s t) p" "op_tryacquire ops p t (ls_mem s) = Some (r, m)"
      "s' = cl_goto s t (cl_tried r) m"
  | (rel) p r m where "in_rel ops (ls_pcs s t) p" "op_release ops p t (ls_mem s) = Some (r, m)"
      "s' = cl_goto s t (cl_released r) m"
  using assms
  by (cases "ls_pcs s t"; cases cmd) (auto simp: in_acq_def in_try_def in_rel_def)

text \<open>A thread whose current call has a step can move.\<close>

lemma cl_step_enabled:
  "ls_pcs s t = ClCrit \<Longrightarrow> op_release ops (op_release_start ops) t (ls_mem s) \<noteq> None \<Longrightarrow> cl_step ops (t, Release) s \<noteq> None"
  "ls_pcs s t = ClAcq p \<Longrightarrow> op_acquire ops p t (ls_mem s) \<noteq> None \<Longrightarrow> cl_step ops (t, Run) s \<noteq> None"
  "ls_pcs s t = ClRel r \<Longrightarrow> op_release ops r t (ls_mem s) \<noteq> None \<Longrightarrow> cl_step ops (t, Run) s \<noteq> None"
  by auto

section \<open>Neighbours in a queue\<close>

fun adjacent :: "'a list \<Rightarrow> 'a \<Rightarrow> 'a \<Rightarrow> bool" where
  "adjacent (a # b # q) x y \<longleftrightarrow> a = x \<and> b = y \<or> adjacent (b # q) x y"
| "adjacent _ x y = False"

lemma adjacent_set: "adjacent q x y \<Longrightarrow> x \<in> set q \<and> y \<in> set (tl q)"
  by (induction q x y rule: adjacent.induct) auto

lemma adjacent_in: "adjacent q x y \<Longrightarrow> x \<in> set q \<and> y \<in> set q"
  using adjacent_set [of q x y] by (cases q) auto

lemma adjacent_snoc: "adjacent (q @ [t]) x y \<longleftrightarrow> adjacent q x y \<or> q \<noteq> [] \<and> x = last q \<and> y = t"
  by (induction q x y rule: adjacent.induct) auto

lemma adjacent_tl: "adjacent (tl q) x y \<Longrightarrow> adjacent q x y"
  by (cases q) (auto elim: adjacent.elims)

lemma adjacent_right_unique: "adjacent q x y \<Longrightarrow> distinct q \<Longrightarrow> adjacent q x z \<Longrightarrow> y = z"
  by (induction q x y rule: adjacent.induct) (auto dest: adjacent_set)

lemma adjacent_left_unique: "adjacent q x y \<Longrightarrow> distinct q \<Longrightarrow> adjacent q z y \<Longrightarrow> x = z"
  by (induction q x y rule: adjacent.induct) (auto dest: adjacent_set)

lemma adjacent_neq_last: "adjacent q x y \<Longrightarrow> distinct q \<Longrightarrow> x \<noteq> last q"
  by (induction q x y rule: adjacent.induct) auto

lemma adjacent_neq_hd: "adjacent q x y \<Longrightarrow> distinct q \<Longrightarrow> y \<noteq> hd q"
  by (cases q) (auto dest: adjacent_set)

lemma adjacent_neq: "adjacent q x y \<Longrightarrow> distinct q \<Longrightarrow> x \<noteq> y"
  by (induction q x y rule: adjacent.induct) auto

lemma adjacent_pred: "y \<in> set (tl q) \<Longrightarrow> \<exists>x. adjacent q x y"
  by (induction q y y rule: adjacent.induct) auto

lemma adjacent_succ: "x \<in> set q \<Longrightarrow> x \<noteq> last q \<Longrightarrow> \<exists>y. adjacent q x y"
proof (induction q rule: induct_list012)
  case (3 a b q)
  show ?case
  proof (cases "x = a")
    case False
    with 3 obtain y where "adjacent (b # q) x y" by auto
    then have "adjacent (a # b # q) x y" by simp
    then show ?thesis by blast
  qed (auto intro: exI [of _ b])
qed simp_all

lemma adjacent_hd_tl: "adjacent q (hd q) y \<Longrightarrow> distinct q \<Longrightarrow> tl q \<noteq> [] \<and> y = hd (tl q)"
  by (cases "(q, hd q, y)" rule: adjacent.cases) (auto dest: adjacent_set)

lemma in_tl_or_hd: "t \<in> set q \<Longrightarrow> t \<notin> set (tl q) \<Longrightarrow> q \<noteq> [] \<and> t = hd q"
  by (cases q) auto

lemma hd_is_last: "distinct q \<Longrightarrow> q \<noteq> [] \<Longrightarrow> last q = hd q \<Longrightarrow> tl q = []"
  by (cases q) (auto split: if_splits dest: last_in_set)

lemma last_eq_hd_iff: "distinct q \<Longrightarrow> q \<noteq> [] \<Longrightarrow> last q = hd q \<longleftrightarrow> tl q = []"
  using hd_is_last [of q] by (cases "tl q = []") (simp_all add: neq_Nil_conv, auto)

lemma hd_tl_set: "distinct q \<Longrightarrow> set (tl q) = set q - {hd q}"
  by (cases q) auto

end
