(* ===== verification/Mcslock.thy ===== *)
theory Mcslock
  imports Lock_Client
begin

text \<open>
  The MCS lock, \<^verbatim>\<open>spinlock/mcslock.h\<close>: a queue of nodes, each thread spinning on its own. A node is
  named by the thread that uses it, so a pointer to a node is a thread or \<open>None\<close>.
\<close>

section \<open>Operations\<close>

record mcs_node_t =
  mcs_next :: "tid option"
  mcs_locked :: u32

record mcslock_t =
  mcs_tail :: "tid option"

record mcs_mem =
  mcs_lock :: mcslock_t
  mcs_nodes :: "tid \<Rightarrow> mcs_node_t"

definition mcslock_init :: "mcslock_t \<Rightarrow> mcslock_t" where
  "mcslock_init l = l\<lparr>mcs_tail := vatomicptr_write (mcs_tail l) None\<rparr>"

definition set_next :: "tid \<Rightarrow> tid option \<Rightarrow> mcs_mem \<Rightarrow> mcs_mem" where
  "set_next n p m = m\<lparr>mcs_nodes := (mcs_nodes m)(n := (mcs_nodes m n)\<lparr>mcs_next := vatomicptr_write (mcs_next (mcs_nodes m n)) p\<rparr>)\<rparr>"

definition set_locked :: "tid \<Rightarrow> u32 \<Rightarrow> mcs_mem \<Rightarrow> mcs_mem" where
  "set_locked n v m = m\<lparr>mcs_nodes := (mcs_nodes m)(n := (mcs_nodes m n)\<lparr>mcs_locked := vatomic32_write (mcs_locked (mcs_nodes m n)) v\<rparr>)\<rparr>"

definition set_tail :: "tid option \<Rightarrow> mcs_mem \<Rightarrow> mcs_mem" where
  "set_tail p m = m\<lparr>mcs_lock := (mcs_lock m)\<lparr>mcs_tail := p\<rparr>\<rparr>"

datatype mcs_try_pc = McsTryNext | McsTryLocked | McsTryCas

fun mcslock_tryacquire :: "mcs_try_pc \<Rightarrow> tid \<Rightarrow> mcs_mem \<Rightarrow> ((mcs_try_pc + bool) \<times> mcs_mem) option" where
  "mcslock_tryacquire McsTryNext node m = Some (Inl McsTryLocked, set_next node None m)"
| "mcslock_tryacquire McsTryLocked node m = Some (Inl McsTryCas, set_locked node 1 m)"
| "mcslock_tryacquire McsTryCas node m =
     (let (pred, a) = vatomicptr_cmpxchg (mcs_tail (mcs_lock m)) None (Some node)
      in Some (Inr (pred = None), set_tail a m))"

datatype mcs_acq_pc = McsNext | McsLocked | McsXchg | McsLink tid | McsAwait

fun mcslock_acquire :: "mcs_acq_pc \<Rightarrow> tid \<Rightarrow> mcs_mem \<Rightarrow> ((mcs_acq_pc + unit) \<times> mcs_mem) option" where
  "mcslock_acquire McsNext node m = Some (Inl McsLocked, set_next node None m)"
| "mcslock_acquire McsLocked node m = Some (Inl McsXchg, set_locked node 1 m)"
| "mcslock_acquire McsXchg node m =
     (let (pred, a) = vatomicptr_xchg (mcs_tail (mcs_lock m)) (Some node)
      in Some (case pred of Some p \<Rightarrow> Inl (McsLink p) | None \<Rightarrow> Inr (), set_tail a m))"
| "mcslock_acquire (McsLink pred) node m = Some (Inl McsAwait, set_next pred (Some node) m)"
| "mcslock_acquire McsAwait node m =
     (if vatomic32_read (mcs_locked (mcs_nodes m node)) = 0 then Some (Inr (), m) else None)"

datatype mcs_rel_pc = McsRelRead | McsRelCas | McsRelAwait | McsRelNext | McsRelGrant tid

text \<open>The successor read last is not \<open>NULL\<close>: a release that found none would access it, and stops here.\<close>

fun mcslock_release :: "mcs_rel_pc \<Rightarrow> tid \<Rightarrow> mcs_mem \<Rightarrow> ((mcs_rel_pc + unit) \<times> mcs_mem) option" where
  "mcslock_release McsRelRead node m =
     Some (Inl (if vatomicptr_read (mcs_next (mcs_nodes m node)) = None then McsRelCas else McsRelNext), m)"
| "mcslock_release McsRelCas node m =
     (let (nxt, a) = vatomicptr_cmpxchg (mcs_tail (mcs_lock m)) (Some node) None
      in Some (if nxt = Some node then Inr () else Inl McsRelAwait, set_tail a m))"
| "mcslock_release McsRelAwait node m =
     (case vatomicptr_await_neq (mcs_next (mcs_nodes m node)) None of
        None \<Rightarrow> None | Some _ \<Rightarrow> Some (Inl McsRelNext, m))"
| "mcslock_release McsRelNext node m =
     (case vatomicptr_read (mcs_next (mcs_nodes m node)) of
        None \<Rightarrow> None | Some nxt \<Rightarrow> Some (Inl (McsRelGrant nxt), m))"
| "mcslock_release (McsRelGrant nxt) node m = Some (Inr (), set_locked nxt 0 m)"

definition mcslock_has_waiters :: "mcs_mem \<Rightarrow> tid \<Rightarrow> bool" where
  "mcslock_has_waiters m node \<longleftrightarrow> vatomicptr_read (mcs_next (mcs_nodes m node)) \<noteq> None"

section \<open>Threads that use one lock\<close>

definition mcs_ops :: "(mcs_acq_pc, mcs_try_pc, mcs_rel_pc, mcs_mem) lock_ops" where
  "mcs_ops = \<lparr>op_acquire = mcslock_acquire, op_acquire_start = McsNext,
     op_tryacquire = mcslock_tryacquire, op_tryacquire_start = McsTryNext,
     op_release = mcslock_release, op_release_start = McsRelRead\<rparr>"

type_synonym mcs_sys = "(mcs_acq_pc, mcs_try_pc, mcs_rel_pc, mcs_mem) lock_sys"

text \<open>The nodes need no initial values: every call that joins the queue writes its node first.\<close>

definition mcs_start :: "(tid \<Rightarrow> mcs_node_t) \<Rightarrow> mcs_sys" where
  "mcs_start nodes = cl_start \<lparr>mcs_lock = mcslock_init \<lparr>mcs_tail = None\<rparr>, mcs_nodes = nodes\<rparr>"

lemmas mcs_simps =
  mcslock_init_def set_next_def set_locked_def set_tail_def mcs_start_def cl_start_def vatomic_simps

section \<open>The queue\<close>

type_synonym mcs_client_pc = "(mcs_acq_pc, mcs_try_pc, mcs_rel_pc) client_pc"

fun mcs_inside :: "mcs_client_pc \<Rightarrow> bool" where
  "mcs_inside ClCrit = True" | "mcs_inside (ClRel _) = True" | "mcs_inside _ = False"

fun mcs_queued :: "mcs_client_pc \<Rightarrow> bool" where
  "mcs_queued (ClAcq (McsLink _)) = True" | "mcs_queued (ClAcq McsAwait) = True"
| "mcs_queued pc = mcs_inside pc"

text \<open>
  A thread behind another in the queue is still to be linked to it, or linked and waiting. The thread
  in front is inside or has been granted the lock.
\<close>

definition mcs_link :: "mcs_sys \<Rightarrow> tid \<Rightarrow> tid \<Rightarrow> bool" where
  "mcs_link s x y \<longleftrightarrow> mcs_locked (mcs_nodes (ls_mem s) y) = 1 \<and>
     (mcs_next (mcs_nodes (ls_mem s) x) = Some y \<and> ls_pcs s y = ClAcq McsAwait \<or>
      mcs_next (mcs_nodes (ls_mem s) x) = None \<and> ls_pcs s y = ClAcq (McsLink x))"

definition mcs_head :: "mcs_sys \<Rightarrow> tid \<Rightarrow> bool" where
  "mcs_head s t \<longleftrightarrow> mcs_inside (ls_pcs s t) \<or>
     ls_pcs s t = ClAcq McsAwait \<and> mcs_locked (mcs_nodes (ls_mem s) t) = 0"

text \<open>What a program counter knows of the thread's own node.\<close>

fun mcs_own :: "mcs_client_pc \<Rightarrow> mcs_node_t \<Rightarrow> bool" where
  "mcs_own (ClAcq McsLocked) n = (mcs_next n = None)"
| "mcs_own (ClAcq McsXchg) n = (mcs_next n = None \<and> mcs_locked n = 1)"
| "mcs_own (ClTry McsTryLocked) n = (mcs_next n = None)"
| "mcs_own (ClTry McsTryCas) n = (mcs_next n = None \<and> mcs_locked n = 1)"
| "mcs_own (ClRel McsRelNext) n = (mcs_next n \<noteq> None)"
| "mcs_own (ClRel (McsRelGrant x)) n = (mcs_next n = Some x)"
| "mcs_own _ n = True"

definition mcs_queue :: "mcs_sys \<Rightarrow> tid list \<Rightarrow> bool" where
  "mcs_queue s q \<longleftrightarrow> distinct q \<and> (\<forall>t. t \<in> set q \<longleftrightarrow> mcs_queued (ls_pcs s t)) \<and>
     (\<forall>x y. adjacent q x y \<longrightarrow> mcs_link s x y) \<and> (q \<noteq> [] \<longrightarrow> mcs_head s (hd q))"

definition mcs_inv :: "mcs_sys \<Rightarrow> tid list \<Rightarrow> bool" where
  "mcs_inv s q \<longleftrightarrow> mcs_queue s q \<and>
     mcs_tail (mcs_lock (ls_mem s)) = (if q = [] then None else Some (last q)) \<and>
     (q \<noteq> [] \<longrightarrow> mcs_next (mcs_nodes (ls_mem s) (last q)) = None) \<and>
     (\<forall>t. mcs_own (ls_pcs s t) (mcs_nodes (ls_mem s) t)) \<and>
     (\<forall>t. ls_pcs s t = ClRel McsRelAwait \<longrightarrow> tl q \<noteq> [])"

lemma mcs_queueD:
  assumes "mcs_queue s q"
  shows "distinct q" "t \<in> set q \<longleftrightarrow> mcs_queued (ls_pcs s t)" "adjacent q x y \<Longrightarrow> mcs_link s x y" "q \<noteq> [] \<Longrightarrow> mcs_head s (hd q)"
  using assms by (auto simp: mcs_queue_def)

lemma mcs_invD:
  assumes "mcs_inv s q"
  shows "mcs_queue s q" "mcs_tail (mcs_lock (ls_mem s)) = (if q = [] then None else Some (last q))"
    "q \<noteq> [] \<Longrightarrow> mcs_next (mcs_nodes (ls_mem s) (last q)) = None" "mcs_own (ls_pcs s t) (mcs_nodes (ls_mem s) t)"
    "ls_pcs s t = ClRel McsRelAwait \<Longrightarrow> tl q \<noteq> []"
  using assms by (auto simp: mcs_inv_def)

lemma mcs_not_behind:
  assumes "mcs_queue s q" and "t \<in> set (tl q)"
  shows "\<exists>x. mcs_link s x t"
  using adjacent_pred [OF assms(2)] mcs_queueD(3) [OF assms(1)] by blast

lemma mcs_inside_head:
  assumes "mcs_queue s q" and "mcs_inside (ls_pcs s t)"
  shows "q \<noteq> [] \<and> t = hd q"
proof (rule in_tl_or_hd)
  show "t \<in> set q" using assms mcs_queueD(2) [OF assms(1), of t] by (cases "ls_pcs s t") auto
  show "t \<notin> set (tl q)" using mcs_not_behind [OF assms(1)] assms(2) by (fastforce simp: mcs_link_def)
qed

lemma mcs_granted_head:
  assumes "mcs_queue s q" and "ls_pcs s t = ClAcq McsAwait" and "mcs_locked (mcs_nodes (ls_mem s) t) = 0"
  shows "q \<noteq> [] \<and> t = hd q"
proof (rule in_tl_or_hd)
  show "t \<in> set q" using assms mcs_queueD(2) [OF assms(1), of t] by simp
  show "t \<notin> set (tl q)" using mcs_not_behind [OF assms(1)] assms(2,3) by (fastforce simp: mcs_link_def)
qed

lemma mcs_link_cong:
  "mcs_next (mcs_nodes m x) = mcs_next (mcs_nodes (ls_mem s) x) \<Longrightarrow>
   mcs_locked (mcs_nodes m y) = mcs_locked (mcs_nodes (ls_mem s) y) \<Longrightarrow> y \<noteq> t \<Longrightarrow>
   mcs_link (cl_goto s t pc m) x y = mcs_link s x y"
  by (simp add: mcs_link_def)

lemma mcs_head_cong:
  "mcs_locked (mcs_nodes m x) = mcs_locked (mcs_nodes (ls_mem s) x) \<Longrightarrow> x \<noteq> t \<Longrightarrow>
   mcs_head (cl_goto s t pc m) x = mcs_head s x"
  by (simp add: mcs_head_def)

text \<open>A thread outside the queue writes its own node.\<close>

lemma mcs_inv_local:
  assumes inv: "mcs_inv s q" and "\<not> mcs_queued (ls_pcs s t)" and pc: "\<not> mcs_queued pc" "mcs_own pc n"
    and m: "mcs_lock m = mcs_lock (ls_mem s)" "mcs_nodes m = (mcs_nodes (ls_mem s))(t := n)"
  shows "mcs_inv (cl_goto s t pc m) q"
proof -
  note Q = mcs_invD(1) [OF inv]
  have t: "t \<notin> set q" using mcs_queueD(2) [OF Q, of t] assms(2) by simp
  have "mcs_link (cl_goto s t pc m) x y" if "adjacent q x y" for x y
    using that mcs_queueD(3) [OF Q that] adjacent_in [OF that] t m by (subst mcs_link_cong) auto
  moreover have "mcs_head (cl_goto s t pc m) (hd q)" if "q \<noteq> []"
    using that mcs_queueD(4) [OF Q that] hd_in_set [OF that] t m by (subst mcs_head_cong) auto
  ultimately have "mcs_queue (cl_goto s t pc m) q"
    using mcs_queueD(1,2) [OF Q] pc t by (auto simp: mcs_queue_def)
  moreover have "last q \<noteq> t" if "q \<noteq> []" using that t by auto
  moreover have "pc \<noteq> ClRel McsRelAwait" using pc by auto
  ultimately show ?thesis
    using mcs_invD(2-5) [OF inv] pc m by (auto simp: mcs_inv_def)
qed

text \<open>The thread in front goes on without changing the memory.\<close>

lemma mcs_inv_inside:
  assumes inv: "mcs_inv s q" and t: "q \<noteq> []" "t = hd q" and pc: "mcs_inside pc" "mcs_own pc (mcs_nodes (ls_mem s) t)"
    and tl: "pc = ClRel McsRelAwait \<Longrightarrow> tl q \<noteq> []"
  shows "mcs_inv (cl_goto s t pc (ls_mem s)) q"
proof -
  note Q = mcs_invD(1) [OF inv]
  have "mcs_link (cl_goto s t pc (ls_mem s)) x y" if "adjacent q x y" for x y
    using mcs_queueD(3) [OF Q that] adjacent_neq_hd [OF that mcs_queueD(1) [OF Q]] t by (subst mcs_link_cong) auto
  moreover have "mcs_queued pc" using pc(1) by (cases pc) auto
  moreover have "mcs_head (cl_goto s t pc (ls_mem s)) (hd q)" using t pc by (simp add: mcs_head_def)
  moreover have "t \<in> set q" using t by simp
  ultimately have "mcs_queue (cl_goto s t pc (ls_mem s)) q"
    using mcs_queueD(1,2) [OF Q] by (auto simp: mcs_queue_def)
  then show ?thesis using mcs_invD(2-5) [OF inv] pc tl by (auto simp: mcs_inv_def)
qed

text \<open>A thread joins the queue: it enters when the queue is empty and is to be linked otherwise.\<close>

lemma mcs_inv_join:
  assumes inv: "mcs_inv s q" and t: "\<not> mcs_queued (ls_pcs s t)"
    and n: "mcs_next (mcs_nodes (ls_mem s) t) = None" "mcs_locked (mcs_nodes (ls_mem s) t) = 1"
    and pc: "pc = (if q = [] then ClCrit else ClAcq (McsLink (last q)))"
  shows "mcs_inv (cl_goto s t pc (set_tail (Some t) (ls_mem s))) (q @ [t])"
proof -
  note Q = mcs_invD(1) [OF inv]
  let ?s = "cl_goto s t pc (set_tail (Some t) (ls_mem s))"
  have nodes: "mcs_nodes (set_tail (Some t) (ls_mem s)) = mcs_nodes (ls_mem s)" by (simp add: set_tail_def)
  have nt: "t \<notin> set q" using mcs_queueD(2) [OF Q, of t] t by simp
  have "mcs_link ?s x y" if "adjacent q x y" for x y
    using mcs_queueD(3) [OF Q that] adjacent_in [OF that] nt nodes by (subst mcs_link_cong) auto
  moreover have "mcs_link ?s (last q) t" if "q \<noteq> []"
    using that mcs_invD(3) [OF inv that] n pc nodes by (simp add: mcs_link_def)
  moreover have "mcs_head ?s (hd q)" if "q \<noteq> []"
    using that mcs_queueD(4) [OF Q that] hd_in_set [OF that] nt nodes by (subst mcs_head_cong) auto
  moreover have "mcs_head ?s t" if "q = []" using that pc by (simp add: mcs_head_def)
  ultimately have "mcs_queue ?s (q @ [t])"
    using mcs_queueD(1,2) [OF Q] pc nt by (auto simp: mcs_queue_def adjacent_snoc hd_append)
  moreover have "mcs_own pc (mcs_nodes (ls_mem s) t)" and "pc \<noteq> ClRel McsRelAwait" using pc by auto
  moreover have "tl (q @ [t]) \<noteq> []" if "tl q \<noteq> []" using that by (cases q) auto
  ultimately show ?thesis
    using mcs_invD(4,5) [OF inv] n nodes by (auto simp: mcs_inv_def set_tail_def)
qed

text \<open>A thread in the queue links itself to the one in front of it.\<close>

lemma mcs_inv_link:
  assumes inv: "mcs_inv s q" and t: "ls_pcs s t = ClAcq (McsLink p)"
  shows "mcs_inv (cl_goto s t (ClAcq McsAwait) (set_next p (Some t) (ls_mem s))) q"
proof -
  note Q = mcs_invD(1) [OF inv]
  let ?m = "set_next p (Some t) (ls_mem s)" and ?s = "cl_goto s t (ClAcq McsAwait) (set_next p (Some t) (ls_mem s))"
  have m: "mcs_locked (mcs_nodes ?m x) = mcs_locked (mcs_nodes (ls_mem s) x)"
      "mcs_next (mcs_nodes ?m x) = (if x = p then Some t else mcs_next (mcs_nodes (ls_mem s) x))"
      "mcs_lock ?m = mcs_lock (ls_mem s)" for x
    by (auto simp: set_next_def vatomic_simps)
  have "t \<in> set q" using mcs_queueD(2) [OF Q, of t] t by simp
  moreover have "q \<noteq> []" using calculation by auto
  then have "t \<noteq> hd q" using mcs_queueD(4) [OF Q] t by (auto simp: mcs_head_def)
  ultimately obtain p' where p': "adjacent q p' t" using adjacent_pred in_tl_or_hd by metis
  with mcs_queueD(3) [OF Q p'] t have pt: "adjacent q p t" by (auto simp: mcs_link_def)
  then have np: "p \<noteq> last q" "mcs_next (mcs_nodes (ls_mem s) p) = None" "mcs_locked (mcs_nodes (ls_mem s) t) = 1"
    using adjacent_neq_last [OF pt mcs_queueD(1) [OF Q]] mcs_queueD(3) [OF Q pt] t by (auto simp: mcs_link_def)
  have "mcs_link ?s x y" if "adjacent q x y" for x y
  proof (cases "y = t")
    case True
    then have "x = p" using adjacent_left_unique [OF that mcs_queueD(1) [OF Q]] pt by simp
    with True np m show ?thesis by (simp add: mcs_link_def)
  next
    case False
    then have "x \<noteq> p" using adjacent_right_unique [OF that mcs_queueD(1) [OF Q]] pt by blast
    with False mcs_queueD(3) [OF Q that] m show ?thesis by (subst mcs_link_cong) auto
  qed
  moreover have "mcs_head ?s (hd q)"
    using mcs_queueD(4) [OF Q \<open>q \<noteq> []\<close>] \<open>t \<noteq> hd q\<close> m by (subst mcs_head_cong) auto
  ultimately have "mcs_queue ?s q" using mcs_queueD(1,2) [OF Q] \<open>t \<in> set q\<close> by (auto simp: mcs_queue_def)
  moreover have "mcs_own (ls_pcs ?s x) (mcs_nodes ?m x)" for x
  proof (cases "x = p")
    case True
    have "p \<noteq> t" using adjacent_neq [OF pt mcs_queueD(1) [OF Q]] .
    moreover have "mcs_queued (ls_pcs s p)" using mcs_queueD(2) [OF Q, of p] adjacent_in [OF pt] by simp
    ultimately show ?thesis using True mcs_invD(4) [OF inv, of p] np(2) m(1)
      by (cases "(ls_pcs s p, mcs_nodes ?m p)" rule: mcs_own.cases) auto
  next
    case False
    then have "mcs_nodes ?m x = mcs_nodes (ls_mem s) x" by (simp add: set_next_def)
    with mcs_invD(4) [OF inv, of x] show ?thesis by simp
  qed
  ultimately show ?thesis using mcs_invD(2,3,5) [OF inv] np m by (auto simp: mcs_inv_def)
qed

text \<open>The thread in front leaves: an empty queue is left behind, or the lock is granted to the next thread.\<close>

lemma mcs_inv_leave_empty:
  assumes inv: "mcs_inv s q" and t: "q \<noteq> []" "t = hd q" and last: "last q = t"
  shows "mcs_inv (cl_goto s t ClIdle (set_tail None (ls_mem s))) (tl q)"
proof -
  note Q = mcs_invD(1) [OF inv]
  have q: "q = [t]" using t last hd_is_last [OF mcs_queueD(1) [OF Q]] by (cases q) auto
  have "x = t" if "mcs_queued (ls_pcs s x)" for x using mcs_queueD(2) [OF Q, of x] that q by simp
  then have "mcs_queue (cl_goto s t ClIdle (set_tail None (ls_mem s))) []" by (auto simp: mcs_queue_def)
  moreover have "ls_pcs s x \<noteq> ClRel McsRelAwait" for x using mcs_invD(5) [OF inv, of x] q by auto
  ultimately show ?thesis using mcs_invD(4) [OF inv] q by (simp add: mcs_inv_def set_tail_def)
qed

lemma mcs_inv_grant:
  assumes inv: "mcs_inv s q" and pc: "ls_pcs s t = ClRel (McsRelGrant n)"
  shows "q \<noteq> [] \<and> t = hd q \<and> mcs_inv (cl_goto s t ClIdle (set_locked n 0 (ls_mem s))) (tl q)"
proof -
  note Q = mcs_invD(1) [OF inv] and d = mcs_queueD(1) [OF mcs_invD(1) [OF inv]]
  let ?m = "set_locked n 0 (ls_mem s)" and ?s = "cl_goto s t ClIdle (set_locked n 0 (ls_mem s))"
  have m: "mcs_next (mcs_nodes ?m x) = mcs_next (mcs_nodes (ls_mem s) x)"
      "mcs_locked (mcs_nodes ?m x) = (if x = n then 0 else mcs_locked (mcs_nodes (ls_mem s) x))"
      "mcs_lock ?m = mcs_lock (ls_mem s)" for x
    by (auto simp: set_locked_def vatomic_simps)
  have t: "q \<noteq> []" "t = hd q" using mcs_inside_head [OF Q, of t] pc by auto
  have nxt: "mcs_next (mcs_nodes (ls_mem s) t) = Some n" using mcs_invD(4) [OF inv, of t] pc by simp
  then have "t \<noteq> last q" using mcs_invD(3) [OF inv] t by auto
  then obtain y where y: "adjacent q t y" using adjacent_succ [of t q] t by auto
  then have n: "y = n" "ls_pcs s n = ClAcq McsAwait" using mcs_queueD(3) [OF Q y] nxt by (auto simp: mcs_link_def)
  have tl: "tl q \<noteq> []" "n = hd (tl q)" using adjacent_hd_tl [of q y] y d t n by auto
  have nt: "n \<noteq> t" using adjacent_neq [OF y d] n by simp
  have "mcs_link ?s x y'" if "adjacent (tl q) x y'" for x y'
  proof -
    have a: "adjacent q x y'" using that by (rule adjacent_tl)
    have "y' \<noteq> n" using adjacent_neq_hd [OF that] d tl by (cases q) auto
    moreover have "y' \<noteq> t" using adjacent_neq_hd [OF a d] t by simp
    ultimately show ?thesis using mcs_queueD(3) [OF Q a] m by (subst mcs_link_cong) auto
  qed
  moreover have "mcs_head ?s n" using n nt m by (simp add: mcs_head_def)
  ultimately have "mcs_queue ?s (tl q)"
    using mcs_queueD(2) [OF Q] d hd_tl_set [OF d] t tl by (auto simp: mcs_queue_def distinct_tl)
  moreover have "mcs_own (ls_pcs ?s x) (mcs_nodes ?m x)" for x
    using mcs_invD(4) [OF inv, of x] n nt by (cases "x = n"; cases "x = t") (auto simp: set_locked_def vatomic_simps)
  moreover have "ls_pcs ?s x \<noteq> ClRel McsRelAwait" for x
    using mcs_inside_head [OF Q, of x] t by auto
  moreover have "last (tl q) = last q" using tl by (cases q) auto
  ultimately show ?thesis using mcs_invD(2,3) [OF inv] t tl m by (simp add: mcs_inv_def)
qed

section \<open>Order of entry\<close>

definition mcs_rel :: "mcs_sys \<Rightarrow> tid list \<Rightarrow> bool \<Rightarrow> bool" where
  "mcs_rel s q b \<longleftrightarrow> mcs_inv s q \<and> b = (q \<noteq> [] \<and> mcs_inside (ls_pcs s (hd q)))"

lemma mcs_rel_stay:
  assumes "mcs_rel s q b" and "mcs_inv (cl_goto s t pc m) q" and "mcs_inside pc = mcs_inside (ls_pcs s t)"
  shows "fifo_sim mcs_rel (cl_goto s t pc m) q b"
  using assms by (intro fifo_sim_stay) (auto simp: mcs_rel_def)

lemma mcs_rel_join:
  assumes rel: "mcs_rel s q b" and t: "\<not> mcs_queued (ls_pcs s t)"
    and n: "mcs_next (mcs_nodes (ls_mem s) t) = None" "mcs_locked (mcs_nodes (ls_mem s) t) = 1"
    and pc: "pc = (if q = [] then ClCrit else ClAcq (McsLink (last q)))"
  shows "fifo_sim mcs_rel (cl_goto s t pc (set_tail (Some t) (ls_mem s))) q b"
proof -
  have inv: "mcs_inv s q" using rel by (simp add: mcs_rel_def)
  note j = mcs_inv_join [OF inv t n pc]
  have nt: "t \<notin> set q" using mcs_queueD(2) [OF mcs_invD(1) [OF inv], of t] t by simp
  show ?thesis
  proof (cases "q = []")
    case True
    with j pc rel show ?thesis by (intro fifo_sim_grab [where t = t]) (auto simp: mcs_rel_def)
  next
    case False
    then have "hd q \<noteq> t" using nt by auto
    with False j pc rel nt show ?thesis by (intro fifo_sim_arrive [where t = t]) (auto simp: mcs_rel_def)
  qed
qed

lemma mcs_rel_acquire:
  assumes rel: "mcs_rel s q b" and pc: "in_acq mcs_ops (ls_pcs s t) p"
    and step: "mcslock_acquire p t (ls_mem s) = Some (r, m)"
  shows "fifo_sim mcs_rel (cl_goto s t (cl_acquired r) m) q b"
proof -
  have inv: "mcs_inv s q" using rel by (simp add: mcs_rel_def)
  have pcs: "ls_pcs s t = ClAcq p \<or> ls_pcs s t = ClIdle \<and> p = McsNext" using pc by (auto simp: in_acq_def mcs_ops_def)
  show ?thesis
  proof (cases p)
    case McsNext
    with pcs step show ?thesis
      by (intro mcs_rel_stay [OF rel] mcs_inv_local [OF inv]) (auto simp: mcs_simps)
  next
    case McsLocked
    with pcs step mcs_invD(4) [OF inv, of t] show ?thesis
      by (intro mcs_rel_stay [OF rel] mcs_inv_local [OF inv]) (auto simp: mcs_simps)
  next
    case McsXchg
    with pcs step mcs_invD(2) [OF inv] have "cl_goto s t (cl_acquired r) m =
        cl_goto s t (if q = [] then ClCrit else ClAcq (McsLink (last q))) (set_tail (Some t) (ls_mem s))"
      by (auto simp: vatomic_simps split: if_splits)
    with McsXchg pcs mcs_invD(4) [OF inv, of t] show ?thesis using mcs_rel_join [OF rel, of t] by simp
  next
    case (McsLink x)
    with pcs step mcs_inv_link [OF inv, of t x] show ?thesis by (intro mcs_rel_stay [OF rel]) auto
  next
    case McsAwait
    with pcs step have r: "r = Inr ()" "m = ls_mem s" "mcs_locked (mcs_nodes (ls_mem s) t) = 0" "ls_pcs s t = ClAcq McsAwait"
      by (auto simp: vatomic_simps split: if_splits)
    with mcs_granted_head [OF mcs_invD(1) [OF inv]] have t: "q \<noteq> []" "t = hd q" by auto
    with mcs_inv_inside [OF inv t, of ClCrit] rel r show ?thesis by (intro fifo_sim_enter) (auto simp: mcs_rel_def)
  qed
qed

lemma mcs_rel_tryacquire:
  assumes rel: "mcs_rel s q b" and pc: "in_try mcs_ops (ls_pcs s t) p"
    and step: "mcslock_tryacquire p t (ls_mem s) = Some (r, m)"
  shows "fifo_sim mcs_rel (cl_goto s t (cl_tried r) m) q b"
proof -
  have inv: "mcs_inv s q" using rel by (simp add: mcs_rel_def)
  have pcs: "ls_pcs s t = ClTry p \<or> ls_pcs s t = ClIdle \<and> p = McsTryNext" using pc by (auto simp: in_try_def mcs_ops_def)
  show ?thesis
  proof (cases p)
    case McsTryNext
    with pcs step show ?thesis
      by (intro mcs_rel_stay [OF rel] mcs_inv_local [OF inv]) (auto simp: mcs_simps)
  next
    case McsTryLocked
    with pcs step mcs_invD(4) [OF inv, of t] show ?thesis
      by (intro mcs_rel_stay [OF rel] mcs_inv_local [OF inv]) (auto simp: mcs_simps)
  next
    case McsTryCas
    show ?thesis
    proof (cases "q = []")
      case True
      with McsTryCas pcs step mcs_invD(2) [OF inv] mcs_invD(4) [OF inv, of t] show ?thesis
        using mcs_rel_join [OF rel, of t ClCrit] by (auto simp: vatomic_simps)
    next
      case False
      with McsTryCas pcs step mcs_invD(2) [OF inv] show ?thesis
        by (intro mcs_rel_stay [OF rel] mcs_inv_local [OF inv]) (auto simp: mcs_simps)
    qed
  qed
qed

lemma mcs_rel_leave:
  assumes rel: "mcs_rel s q b" and t: "q \<noteq> [] \<and> t = hd q \<and> mcs_inv (cl_goto s t ClIdle m) (tl q)" and "mcs_inside (ls_pcs s t)"
  shows "fifo_sim mcs_rel (cl_goto s t ClIdle m) q b"
proof -
  note Q = mcs_invD(1) [OF conjunct1 [OF rel [unfolded mcs_rel_def]]]
  have "\<not> mcs_inside (ls_pcs s x)" if "x \<noteq> t" for x using mcs_inside_head [OF Q, of x] that t by auto
  then have "mcs_rel (cl_goto s t ClIdle m) (tl q) False" using t by (auto simp: mcs_rel_def)
  with rel assms(3) t show ?thesis by (intro fifo_sim_leave) (auto simp: mcs_rel_def)
qed

lemma mcs_rel_release:
  assumes rel: "mcs_rel s q b" and pc: "in_rel mcs_ops (ls_pcs s t) p"
    and step: "mcslock_release p t (ls_mem s) = Some (r, m)"
  shows "fifo_sim mcs_rel (cl_goto s t (cl_released r) m) q b"
proof -
  have inv: "mcs_inv s q" using rel by (simp add: mcs_rel_def)
  have pcs: "ls_pcs s t = ClRel p \<or> ls_pcs s t = ClCrit \<and> p = McsRelRead" using pc by (auto simp: in_rel_def mcs_ops_def)
  then have ins: "mcs_inside (ls_pcs s t)" by auto
  then have t: "q \<noteq> []" "t = hd q" using mcs_inside_head [OF mcs_invD(1) [OF inv]] by auto
  note tail = mcs_invD(2) [OF inv]
  show ?thesis
  proof (cases p)
    case McsRelCas
    show ?thesis
    proof (cases "last q = t")
      case True
      with McsRelCas step t tail have "r = Inr ()" "m = set_tail None (ls_mem s)" by (auto simp: vatomic_simps)
      with mcs_rel_leave [OF rel] mcs_inv_leave_empty [OF inv t True] t ins show ?thesis by simp
    next
      case False
      then have "tl q \<noteq> []" using t by (cases q) auto
      moreover have "r = Inl McsRelAwait" "m = ls_mem s"
        using False McsRelCas step t tail by (auto simp: vatomic_simps set_tail_def)
      ultimately show ?thesis
        using ins mcs_inv_inside [OF inv t, of "ClRel McsRelAwait"] by (auto intro: mcs_rel_stay [OF rel])
    qed
  next
    case (McsRelGrant n)
    with pcs have "ls_pcs s t = ClRel (McsRelGrant n)" by auto
    from mcs_rel_leave [OF rel mcs_inv_grant [OF inv this] ins] McsRelGrant step show ?thesis by auto
  qed (use step ins in \<open>auto simp: vatomic_simps Let_def intro!: mcs_rel_stay [OF rel] mcs_inv_inside [OF inv t] split: option.splits if_splits\<close>)
qed

interpretation mcs: fifo_lock_impl "cl_step mcs_ops" "mcs_start nodes" mcs_rel cl_crit
proof (unfold_locales, goal_cases)
  case 1
  show ?case by (simp add: mcs_rel_def mcs_inv_def mcs_queue_def mcs_simps)
next
  case (2 c q b t cmd c')
  from 2(2) show ?case
    by (cases rule: cl_step_cases)
      (auto simp: mcs_ops_def dest: mcs_rel_acquire [OF 2(1), unfolded mcs_ops_def]
        mcs_rel_tryacquire [OF 2(1), unfolded mcs_ops_def] mcs_rel_release [OF 2(1), unfolded mcs_ops_def])
next
  case (3 c q)
  then show ?case by (simp add: mcs_rel_def)
next
  case (4 c q b t)
  then have inv: "mcs_inv c q" and b: "b = (q \<noteq> [] \<and> mcs_inside (ls_pcs c (hd q)))" and t: "mcs_inside (ls_pcs c t)"
    by (auto simp: mcs_rel_def cl_crit_def)
  with mcs_inside_head [OF mcs_invD(1) [OF inv] t] show ?case by auto
qed


lemmas mcs_sched_simps = mcs_ops_def mcs_simps cl_goto_def cl_crit_def

definition mcs_nodes0 :: "tid \<Rightarrow> mcs_node_t" where
  "mcs_nodes0 = (\<lambda>_. \<lparr>mcs_next = None, mcs_locked = 0\<rparr>)"

text \<open>Thread 1 takes the lock, thread 0 queues behind it and links itself.\<close>

definition mcs_two :: "lock_label list" where
  "mcs_two = [(1, Acquire), (1, Run), (1, Run), (0, Acquire), (0, Run), (0, Run), (0, Run)]"


section \<open>Progress\<close>

text \<open>
  No wake-up of the MCS lock is lost: while a thread is queued, some queued thread can make a step. In
  particular a release that waits for its successor to link itself, or that follows the link, is never
  left with a \<open>NULL\<close> pointer.
\<close>

theorem mcslock_progress:
  assumes "reach (cl_step mcs_ops) (mcs_start nodes) s" and "mcs_queued (ls_pcs s u)"
  shows "\<exists>t cmd. mcs_queued (ls_pcs s t) \<and> cl_step mcs_ops (t, cmd) s \<noteq> None"
proof -
  obtain q b where "mcs_rel s q b" using mcs.reach_fifo [OF assms(1)] by blast
  then have inv: "mcs_inv s q" by (simp add: mcs_rel_def)
  note Q = mcs_invD(1) [OF inv]
  let ?t = "hd q"
  have ne: "q \<noteq> []" using mcs_queueD(2) [OF Q, of u] assms(2) by auto
  then have qt: "mcs_queued (ls_pcs s ?t)" using mcs_queueD(2) [OF Q, of ?t] by simp
  show ?thesis
  proof (cases "ls_pcs s ?t = ClRel McsRelAwait \<and> mcs_next (mcs_nodes (ls_mem s) ?t) = None")
    case True
    then have "?t \<noteq> last q" using mcs_invD(5) [OF inv, of ?t] hd_is_last [OF mcs_queueD(1) [OF Q] ne] by auto
    then obtain y where y: "adjacent q ?t y" using adjacent_succ [of ?t q] ne by auto
    then have "ls_pcs s y = ClAcq (McsLink ?t)" using mcs_queueD(3) [OF Q y] True by (auto simp: mcs_link_def)
    then have "mcs_queued (ls_pcs s y) \<and> cl_step mcs_ops (y, Run) s \<noteq> None" by (simp add: mcs_ops_def)
    then show ?thesis by blast
  next
    case False
    have "\<exists>cmd. cl_step mcs_ops (?t, cmd) s \<noteq> None"
    proof (cases "ls_pcs s ?t")
      case ClCrit
      then have "cl_step mcs_ops (?t, Release) s \<noteq> None" by (intro cl_step_enabled) (simp_all add: mcs_ops_def)
      then show ?thesis by blast
    next
      case (ClRel r)
      then have "cl_step mcs_ops (?t, Run) s \<noteq> None"
        using False mcs_invD(4) [OF inv, of ?t] by (cases r) (auto simp: mcs_ops_def vatomic_simps Let_def split: option.splits)
      then show ?thesis by blast
    next
      case (ClAcq p)
      then have "cl_step mcs_ops (?t, Run) s \<noteq> None"
        using mcs_queueD(4) [OF Q ne] by (auto simp: mcs_head_def mcs_ops_def vatomic_simps)
      then show ?thesis by blast
    qed (use qt in auto)
    with qt show ?thesis by blast
  qed
qed

theorem mcslock_progress_witness:
  "\<exists>s t cmd. exec (cl_step mcs_ops) mcs_two (mcs_start mcs_nodes0) = Some s \<and>
     mcs_queued (ls_pcs s t) \<and> cl_step mcs_ops (t, cmd) s \<noteq> None"
proof -
  have "\<exists>s. exec (cl_step mcs_ops) mcs_two (mcs_start mcs_nodes0) = Some s \<and> mcs_queued (ls_pcs s 0)"
    by (simp add: mcs_two_def mcs_nodes0_def mcs_sched_simps)
  then obtain s where e: "exec (cl_step mcs_ops) mcs_two (mcs_start mcs_nodes0) = Some s"
    and c: "mcs_queued (ls_pcs s 0)" by blast
  from mcslock_progress [OF exec_reach [OF e] c] e show ?thesis by blast
qed

end
