(* ===== verification/Clhlock.thy ===== *)
theory Clhlock
  imports Lock_Client
begin

text \<open>
  The CLH lock, \<^verbatim>\<open>spinlock/clhlock.h\<close>: each thread spins on the queue node of the thread before it and
  takes that node over when it leaves. Queue nodes are named by the structure they were part of at first:
  the lock's \<open>initial\<close> or the \<open>_qnode\<close> of a thread's node. The benchmark's version forgets to initialise the
  nodes; static storage then holds null pointers, and following one is the program counter \<open>ClhFault\<close>.
\<close>

section \<open>Operations\<close>

datatype clh_addr = ClhInitial | ClhOwn tid

record clh_node_t =
  clh_pred :: "clh_addr option"
  clh_qnode :: "clh_addr option"

record clhlock_t =
  clh_tail :: "clh_addr option"

text \<open>The lock, the nodes of the threads and the field \<open>locked\<close> of every queue node.\<close>

record clh_mem =
  clh_lock :: clhlock_t
  clh_nodes :: "tid \<Rightarrow> clh_node_t"
  clh_locked :: "clh_addr \<Rightarrow> u32"

definition clh_set_locked :: "clh_addr \<Rightarrow> u32 \<Rightarrow> clh_mem \<Rightarrow> clh_mem" where
  "clh_set_locked a v m = m\<lparr>clh_locked := (clh_locked m)(a := vatomic32_write (clh_locked m a) v)\<rparr>"

definition clh_set_node :: "tid \<Rightarrow> clh_node_t \<Rightarrow> clh_mem \<Rightarrow> clh_mem" where
  "clh_set_node t n m = m\<lparr>clh_nodes := (clh_nodes m)(t := n)\<rparr>"

definition clhlock_node_init_orig :: "tid \<Rightarrow> clh_mem \<Rightarrow> clh_mem" where
  "clhlock_node_init_orig node m = clh_set_node node \<lparr>clh_pred = None, clh_qnode = Some (ClhOwn node)\<rparr>
     (clh_set_locked (ClhOwn node) 0 m)"

definition clhlock_node_init :: "tid \<Rightarrow> clh_mem \<Rightarrow> clh_mem" where
  "clhlock_node_init node m = m"

definition clhlock_init :: "clh_mem \<Rightarrow> clh_mem" where
  "clhlock_init m = (clh_set_locked ClhInitial 0 m)
     \<lparr>clh_lock := (clh_lock m)\<lparr>clh_tail := vatomicptr_init (clh_tail (clh_lock m)) (Some ClhInitial)\<rparr>\<rparr>"

datatype clh_acq_pc = ClhLocked | ClhXchg | ClhAwait | ClhFault

fun clhlock_acquire :: "clh_acq_pc \<Rightarrow> tid \<Rightarrow> clh_mem \<Rightarrow> ((clh_acq_pc + unit) \<times> clh_mem) option" where
  "clhlock_acquire ClhLocked node m =
     (case clh_qnode (clh_nodes m node) of
        None \<Rightarrow> Some (Inl ClhFault, m) | Some a \<Rightarrow> Some (Inl ClhXchg, clh_set_locked a 1 m))"
| "clhlock_acquire ClhXchg node m =
     (let (pred, a) = vatomicptr_xchg (clh_tail (clh_lock m)) (clh_qnode (clh_nodes m node))
      in Some (Inl ClhAwait, clh_set_node node ((clh_nodes m node)\<lparr>clh_pred := pred\<rparr>) (m\<lparr>clh_lock := (clh_lock m)\<lparr>clh_tail := a\<rparr>\<rparr>)))"
| "clhlock_acquire ClhAwait node m =
     (case clh_pred (clh_nodes m node) of
        None \<Rightarrow> Some (Inl ClhFault, m)
      | Some a \<Rightarrow> if vatomic32_read (clh_locked m a) = 0 then Some (Inr (), m) else None)"
| "clhlock_acquire ClhFault node m = None"

text \<open>The release follows its write with an assignment that only the calling thread sees.\<close>

fun clhlock_release :: "bool \<Rightarrow> tid \<Rightarrow> clh_mem \<Rightarrow> ((bool + unit) \<times> clh_mem) option" where
  "clhlock_release faulty node m =
     (case clh_qnode (clh_nodes m node) of
        None \<Rightarrow> if faulty then None else Some (Inl True, m)
      | Some a \<Rightarrow> Some (Inr (), clh_set_node node ((clh_nodes m node)\<lparr>clh_qnode := clh_pred (clh_nodes m node)\<rparr>) (clh_set_locked a 0 m)))"

definition clhlock_has_waiters :: "clh_mem \<Rightarrow> tid \<Rightarrow> bool" where
  "clhlock_has_waiters m node \<longleftrightarrow> vatomicptr_read (clh_tail (clh_lock m)) \<noteq> clh_qnode (clh_nodes m node)"

section \<open>Threads that use one lock\<close>

text \<open>The lock has no \<open>tryacquire\<close>.\<close>

definition clh_ops :: "(clh_acq_pc, unit, bool, clh_mem) lock_ops" where
  "clh_ops = \<lparr>op_acquire = clhlock_acquire, op_acquire_start = ClhLocked,
     op_tryacquire = (\<lambda>_ _ _. None), op_tryacquire_start = (),
     op_release = clhlock_release, op_release_start = False\<rparr>"

type_synonym clh_sys = "(clh_acq_pc, unit, bool, clh_mem) lock_sys"

fun clh_step :: "nat \<Rightarrow> lock_label \<Rightarrow> clh_sys \<Rightarrow> clh_sys option" where
  "clh_step N (t, cmd) s = (if t < N then cl_step clh_ops (t, cmd) s else None)"

text \<open>Static storage is zero; the lock and the nodes of the \<open>N\<close> threads are initialised before the threads start.\<close>

definition clh_zero :: clh_mem where
  "clh_zero = \<lparr>clh_lock = \<lparr>clh_tail = None\<rparr>, clh_nodes = (\<lambda>_. \<lparr>clh_pred = None, clh_qnode = None\<rparr>), clh_locked = (\<lambda>_. 0)\<rparr>"

definition clh_start :: "(tid \<Rightarrow> clh_mem \<Rightarrow> clh_mem) \<Rightarrow> nat \<Rightarrow> clh_sys" where
  "clh_start node_init N = cl_start (fold node_init [0..<N] (clhlock_init clh_zero))"

lemmas clh_simps = clh_set_locked_def clh_set_node_def clhlock_node_init_orig_def clhlock_node_init_def clhlock_init_def
  clh_zero_def clh_start_def cl_start_def vatomic_simps

lemma clh_start_nodes:
  "clh_nodes (fold clhlock_node_init_orig ts m) t =
     (if t \<in> set ts then \<lparr>clh_pred = None, clh_qnode = Some (ClhOwn t)\<rparr> else clh_nodes m t)"
  "clh_lock (fold clhlock_node_init_orig ts m) = clh_lock m"
  "clh_locked m ClhInitial = 0 \<Longrightarrow> clh_locked (fold clhlock_node_init_orig ts m) ClhInitial = 0"
  by (induction ts arbitrary: m) (auto simp: clh_simps)

section \<open>The queue\<close>

type_synonym clh_client_pc = "(clh_acq_pc, unit, bool) client_pc"

fun clh_inside :: "clh_client_pc \<Rightarrow> bool" where
  "clh_inside ClCrit = True" | "clh_inside _ = False"

fun clh_queued :: "clh_client_pc \<Rightarrow> bool" where
  "clh_queued (ClAcq ClhAwait) = True" | "clh_queued pc = clh_inside pc"

definition qnode_of :: "clh_sys \<Rightarrow> tid \<Rightarrow> clh_addr option" where
  "qnode_of s t = clh_qnode (clh_nodes (ls_mem s) t)"

definition pred_of :: "clh_sys \<Rightarrow> tid \<Rightarrow> clh_addr option" where
  "pred_of s t = clh_pred (clh_nodes (ls_mem s) t)"

text \<open>
  The threads own distinct queue nodes, and one node \<open>a\<close> is left over: it is unlocked, and the first
  thread of the queue waits on it. The others wait on the node of the thread before them, which is locked.
\<close>

definition clh_inv :: "nat \<Rightarrow> clh_sys \<Rightarrow> clh_addr \<Rightarrow> tid list \<Rightarrow> bool" where
  "clh_inv N s a q \<longleftrightarrow> distinct q \<and> (\<forall>t. t \<in> set q \<longleftrightarrow> clh_queued (ls_pcs s t)) \<and> (\<forall>t \<in> set q. t < N) \<and>
     (\<forall>t < N. qnode_of s t \<noteq> None \<and> qnode_of s t \<noteq> Some a) \<and>
     (\<forall>t < N. \<forall>u < N. qnode_of s t = qnode_of s u \<longrightarrow> t = u) \<and>
     clh_locked (ls_mem s) a = 0 \<and> (q \<noteq> [] \<longrightarrow> pred_of s (hd q) = Some a) \<and>
     (\<forall>x y. adjacent q x y \<longrightarrow> pred_of s y = qnode_of s x \<and> \<not> clh_inside (ls_pcs s y)) \<and>
     clh_tail (clh_lock (ls_mem s)) = (if q = [] then Some a else qnode_of s (last q)) \<and>
     (\<forall>t < N. clh_queued (ls_pcs s t) \<or> ls_pcs s t = ClAcq ClhXchg \<longrightarrow> clh_locked (ls_mem s) (the (qnode_of s t)) = 1) \<and>
     (\<forall>t. ls_pcs s t \<noteq> ClAcq ClhFault \<and> (\<forall>f. ls_pcs s t \<noteq> ClRel f))"

lemma clh_invD:
  assumes "clh_inv N s a q"
  shows "distinct q" "t \<in> set q \<longleftrightarrow> clh_queued (ls_pcs s t)" "t \<in> set q \<Longrightarrow> t < N"
    "t < N \<Longrightarrow> qnode_of s t \<noteq> None \<and> qnode_of s t \<noteq> Some a"
    "t < N \<Longrightarrow> u < N \<Longrightarrow> qnode_of s t = qnode_of s u \<Longrightarrow> t = u"
    "clh_locked (ls_mem s) a = 0" "q \<noteq> [] \<Longrightarrow> pred_of s (hd q) = Some a"
    "adjacent q x y \<Longrightarrow> pred_of s y = qnode_of s x \<and> \<not> clh_inside (ls_pcs s y)"
    "clh_tail (clh_lock (ls_mem s)) = (if q = [] then Some a else qnode_of s (last q))"
    "t < N \<Longrightarrow> clh_queued (ls_pcs s t) \<or> ls_pcs s t = ClAcq ClhXchg \<Longrightarrow> clh_locked (ls_mem s) (the (qnode_of s t)) = 1"
    "ls_pcs s t \<noteq> ClAcq ClhFault" "ls_pcs s t \<noteq> ClRel f"
  using assms by (auto simp: clh_inv_def)

lemma clh_invI:
  assumes "distinct q" "\<And>t. t \<in> set q \<longleftrightarrow> clh_queued (ls_pcs s t)" "\<And>t. t \<in> set q \<Longrightarrow> t < N"
    "\<And>t. t < N \<Longrightarrow> qnode_of s t \<noteq> None \<and> qnode_of s t \<noteq> Some a"
    "\<And>t u. t < N \<Longrightarrow> u < N \<Longrightarrow> qnode_of s t = qnode_of s u \<Longrightarrow> t = u"
    "clh_locked (ls_mem s) a = 0" "q \<noteq> [] \<Longrightarrow> pred_of s (hd q) = Some a"
    "\<And>x y. adjacent q x y \<Longrightarrow> pred_of s y = qnode_of s x \<and> \<not> clh_inside (ls_pcs s y)"
    "clh_tail (clh_lock (ls_mem s)) = (if q = [] then Some a else qnode_of s (last q))"
    "\<And>t. t < N \<Longrightarrow> clh_queued (ls_pcs s t) \<or> ls_pcs s t = ClAcq ClhXchg \<Longrightarrow> clh_locked (ls_mem s) (the (qnode_of s t)) = 1"
    "\<And>t f. ls_pcs s t \<noteq> ClAcq ClhFault \<and> ls_pcs s t \<noteq> ClRel f"
  shows "clh_inv N s a q"
  using assms unfolding clh_inv_def by blast

lemma clh_granted_head:
  assumes inv: "clh_inv N s a q" and "ls_pcs s t = ClAcq ClhAwait" and "pred_of s t = Some b" and "clh_locked (ls_mem s) b = 0"
  shows "q \<noteq> [] \<and> t = hd q"
proof (rule in_tl_or_hd)
  show "t \<in> set q" using clh_invD(2) [OF inv, of t] assms(2) by simp
  show "t \<notin> set (tl q)"
  proof
    assume "t \<in> set (tl q)"
    then obtain x where x: "adjacent q x t" using adjacent_pred by metis
    then have "x < N" "clh_queued (ls_pcs s x)" "qnode_of s x = Some b"
      using clh_invD(2,3) [OF inv, of x] clh_invD(8) [OF inv x] adjacent_in [OF x] assms(3) by auto
    with clh_invD(10) [OF inv, of x] assms(4) show False by simp
  qed
qed

lemma clh_inside_head:
  assumes inv: "clh_inv N s a q" and "clh_inside (ls_pcs s t)"
  shows "q \<noteq> [] \<and> t = hd q"
proof (rule in_tl_or_hd)
  show "t \<in> set q" using clh_invD(2) [OF inv, of t] assms(2) by (cases "ls_pcs s t" rule: clh_queued.cases) auto
  show "t \<notin> set (tl q)"
  proof
    assume "t \<in> set (tl q)"
    then obtain x where "adjacent q x t" using adjacent_pred by metis
    with clh_invD(8) [OF inv this] assms(2) show False by simp
  qed
qed

lemma clh_inv_lock:
  assumes inv: "clh_inv N s a q" and t: "t < N" "ls_pcs s t = ClIdle \<or> ls_pcs s t = ClAcq ClhLocked" and b: "qnode_of s t = Some b"
  shows "clh_inv N (cl_goto s t (ClAcq ClhXchg) (clh_set_locked b 1 (ls_mem s))) a q" (is "clh_inv N ?s a q")
proof -
  have sel: "qnode_of ?s = qnode_of s" "pred_of ?s = pred_of s" "clh_lock (ls_mem ?s) = clh_lock (ls_mem s)"
    "clh_locked (ls_mem ?s) = (clh_locked (ls_mem s))(b := 1)"
    by (auto simp: fun_eq_iff qnode_of_def pred_of_def clh_simps)
  show ?thesis
  proof (rule clh_invI, goal_cases)
    case (2 x)
    then show ?case using clh_invD(2) [OF inv, of x] t by auto
  next
    case (8 x y)
    then show ?case using clh_invD(8) [OF inv 8] sel by auto
  next
    case (10 x)
    then show ?case using clh_invD(10) [OF inv, of x] b sel by (auto split: if_splits)
  qed (use clh_invD [OF inv] sel b t in auto)
qed

lemma clh_inv_join:
  assumes inv: "clh_inv N s a q" and t: "t < N" "ls_pcs s t = ClAcq ClhXchg"
    and step: "clhlock_acquire ClhXchg t (ls_mem s) = Some (r, m)"
  shows "r = Inl ClhAwait \<and> clh_inv N (cl_goto s t (ClAcq ClhAwait) m) a (q @ [t])" (is "_ \<and> clh_inv N ?s a _")
proof -
  have sel: "qnode_of ?s = qnode_of s" "pred_of ?s = (pred_of s)(t := clh_tail (clh_lock (ls_mem s)))"
    "clh_tail (clh_lock (ls_mem ?s)) = qnode_of s t" "clh_locked (ls_mem ?s) = clh_locked (ls_mem s)" and r: "r = Inl ClhAwait"
    using step by (auto simp: fun_eq_iff qnode_of_def pred_of_def clh_simps)
  have nt: "t \<notin> set q" using clh_invD(2) [OF inv, of t] t by simp
  have "clh_inv N ?s a (q @ [t])"
  proof (rule clh_invI, goal_cases)
    case (2 x)
    then show ?case using clh_invD(2) [OF inv, of x] by auto
  next
    case (3 x)
    then show ?case using clh_invD(3) [OF inv, of x] t by auto
  next
    case 7
    then show ?case using clh_invD(7,9) [OF inv] sel nt by (cases "q = []") auto
  next
    case (8 x y)
    then show ?case
      using clh_invD(8) [OF inv, of x y] clh_invD(9) [OF inv] adjacent_in [of q x y] nt sel by (auto simp: adjacent_snoc)
  next
    case (10 x)
    then show ?case using clh_invD(10) [OF inv, of x] t sel by (cases "x = t") auto
  qed (use clh_invD(1,4,5,6,11,12) [OF inv] sel nt in auto)
  with r show ?thesis by blast
qed

lemma clh_inv_enter:
  assumes inv: "clh_inv N s a q" and t: "q \<noteq> []" "t = hd q"
  shows "clh_inv N (cl_goto s t ClCrit (ls_mem s)) a q" (is "clh_inv N ?s a q")
proof -
  have sel: "qnode_of ?s = qnode_of s" "pred_of ?s = pred_of s" by (auto simp: fun_eq_iff qnode_of_def pred_of_def)
  have tq: "clh_queued (ls_pcs s t)" using clh_invD(2) [OF inv, of t] t by auto
  show ?thesis
  proof (rule clh_invI, goal_cases)
    case (2 x)
    then show ?case using clh_invD(2) [OF inv, of x] tq by auto
  next
    case (8 x y)
    then show ?case using clh_invD(8) [OF inv 8] sel adjacent_neq_hd [OF 8 clh_invD(1) [OF inv]] t by auto
  next
    case (10 x)
    then show ?case using clh_invD(10) [OF inv, of x] sel tq by (auto split: if_splits)
  qed (use clh_invD [OF inv] sel in auto)
qed

lemma clh_inv_leave:
  assumes inv: "clh_inv N s a q" and pc: "ls_pcs s t = ClCrit" and step: "clhlock_release f t (ls_mem s) = Some (r, m)"
  shows "r = Inr () \<and> q \<noteq> [] \<and> t = hd q \<and> (\<exists>b. clh_inv N (cl_goto s t ClIdle m) b (tl q))"
proof -
  note d = clh_invD(1) [OF inv]
  have t: "q \<noteq> []" "t = hd q" using clh_inside_head [OF inv, of t] pc by auto
  then have tN: "t < N" using clh_invD(3) [OF inv, of t] by simp
  then obtain b where b: "qnode_of s t = Some b" "b \<noteq> a" using clh_invD(4) [OF inv, of t] by auto
  let ?s = "cl_goto s t ClIdle m"
  have sel: "qnode_of ?s = (qnode_of s)(t := Some a)" "pred_of ?s = pred_of s" "clh_lock (ls_mem ?s) = clh_lock (ls_mem s)"
    "clh_locked (ls_mem ?s) = (clh_locked (ls_mem s))(b := 0)" and r: "r = Inr ()"
    using step b clh_invD(7) [OF inv] t by (auto simp: fun_eq_iff qnode_of_def pred_of_def clh_simps)
  have own: "x = t" if "x < N" "qnode_of s x = Some b" for x using clh_invD(5) [OF inv that(1) tN] that b by simp
  have last: "last (tl q) = last q" if "tl q \<noteq> []" using that by (cases q) auto
  have single: "last q = t" if "tl q = []" using that t by (cases q) auto
  have hd: "pred_of s (hd (tl q)) = Some b" if "tl q \<noteq> []"
  proof -
    have "t \<noteq> last q" using hd_is_last [OF d] t that by auto
    then obtain y where y: "adjacent q t y" using adjacent_succ [of t q] t by auto
    with adjacent_hd_tl [of q y] clh_invD(8) [OF inv y] t d b show ?thesis by auto
  qed
  have "clh_inv N ?s b (tl q)"
  proof (rule clh_invI, goal_cases)
    case (2 x)
    then show ?case using clh_invD(2) [OF inv, of x] hd_tl_set [OF d] t by auto
  next
    case (3 x)
    then show ?case using clh_invD(3) [OF inv, of x] hd_tl_set [OF d] by auto
  next
    case (4 x)
    then show ?case using clh_invD(4) [OF inv, of x] sel own [of x] b by auto
  next
    case (5 x y)
    then show ?case using clh_invD(4) [OF inv, of x] clh_invD(4) [OF inv, of y] clh_invD(5) [OF inv, of x y] sel by (auto split: if_splits)
  next
    case (8 x y)
    have a: "adjacent q x y" using 8 by (rule adjacent_tl)
    have "x \<noteq> t" using adjacent_in [OF 8] hd_tl_set [OF d] t by auto
    then show ?case using clh_invD(8) [OF inv a] sel by auto
  next
    case 9
    then show ?case using clh_invD(9) [OF inv] sel b t last single hd_tl_set [OF d] last_in_set [of "tl q"] by auto
  next
    case (10 x)
    then have "x \<noteq> t" by auto
    moreover have "the (qnode_of s x) \<noteq> b" using own [of x] clh_invD(4) [OF inv, of x] 10 \<open>x \<noteq> t\<close> by auto
    ultimately show ?case using clh_invD(10) [OF inv, of x] 10 sel by auto
  qed (use clh_invD(11,12) [OF inv] sel d hd in \<open>auto simp: distinct_tl\<close>)
  with t r show ?thesis by blast
qed

section \<open>Order of entry\<close>

definition clh_rel :: "nat \<Rightarrow> clh_sys \<Rightarrow> tid list \<Rightarrow> bool \<Rightarrow> bool" where
  "clh_rel N s q b \<longleftrightarrow> (\<exists>a. clh_inv N s a q) \<and> b = (q \<noteq> [] \<and> clh_inside (ls_pcs s (hd q)))"

lemma clh_rel_acquire:
  assumes rel: "clh_rel N s q b" and pc: "in_acq clh_ops (ls_pcs s t) p" "t < N"
    and step: "clhlock_acquire p t (ls_mem s) = Some (r, m)"
  shows "fifo_sim (clh_rel N) (cl_goto s t (cl_acquired r) m) q b"
proof -
  obtain a where inv: "clh_inv N s a q" using rel by (auto simp: clh_rel_def)
  have pcs: "ls_pcs s t = ClAcq p \<or> ls_pcs s t = ClIdle \<and> p = ClhLocked" using pc by (auto simp: in_acq_def clh_ops_def)
  show ?thesis
  proof (cases p)
    case ClhLocked
    obtain c where c: "qnode_of s t = Some c" using clh_invD(4) [OF inv pc(2)] by auto
    have idle: "ls_pcs s t = ClIdle \<or> ls_pcs s t = ClAcq ClhLocked" using pcs ClhLocked by auto
    have "cl_goto s t (cl_acquired r) m = cl_goto s t (ClAcq ClhXchg) (clh_set_locked c 1 (ls_mem s))"
      using step ClhLocked c by (auto simp: qnode_of_def)
    moreover have "hd q \<noteq> t" if "q \<noteq> []" using clh_invD(2) [OF inv, of t] that idle hd_in_set [OF that] by auto
    ultimately show ?thesis using clh_inv_lock [OF inv pc(2) idle c] rel
      by (intro fifo_sim_stay) (auto simp: clh_rel_def)
  next
    case ClhXchg
    with pcs have x: "ls_pcs s t = ClAcq ClhXchg" by simp
    have nt: "t \<notin> set q" using clh_invD(2) [OF inv, of t] x by simp
    with clh_inv_join [OF inv pc(2) x] step ClhXchg rel show ?thesis
      by (intro fifo_sim_arrive [where t = t]) (auto simp: clh_rel_def hd_append)
  next
    case ClhAwait
    with pcs have x: "ls_pcs s t = ClAcq ClhAwait" by simp
    then have tq: "t \<in> set q" using clh_invD(2) [OF inv, of t] by simp
    have "pred_of s t \<noteq> None"
    proof (cases "t = hd q")
      case False
      with tq obtain y where y: "adjacent q y t" using adjacent_pred in_tl_or_hd by metis
      then show ?thesis using clh_invD(8) [OF inv y] clh_invD(4) [OF inv clh_invD(3) [OF inv, of y]] adjacent_in [OF y] by auto
    next
      case True
      have "q \<noteq> []" using tq by auto
      with True clh_invD(7) [OF inv] show ?thesis by simp
    qed
    then obtain c where c: "pred_of s t = Some c" by blast
    with step ClhAwait have r: "r = Inr ()" "m = ls_mem s" "clh_locked (ls_mem s) c = 0"
      by (auto simp: pred_of_def vatomic_simps split: if_splits)
    then have t: "q \<noteq> []" "t = hd q" using clh_granted_head [OF inv x c] by auto
    with clh_inv_enter [OF inv t] rel r x show ?thesis by (intro fifo_sim_enter) (auto simp: clh_rel_def)
  qed (use step in simp)
qed

lemma clh_rel_release:
  assumes rel: "clh_rel N s q b" and pc: "in_rel clh_ops (ls_pcs s t) p"
    and step: "clhlock_release p t (ls_mem s) = Some (r, m)"
  shows "fifo_sim (clh_rel N) (cl_goto s t (cl_released r) m) q b"
proof -
  obtain a where inv: "clh_inv N s a q" using rel by (auto simp: clh_rel_def)
  have x: "ls_pcs s t = ClCrit" using pc clh_invD(12) [OF inv, of t p] by (auto simp: in_rel_def clh_ops_def)
  from clh_inv_leave [OF inv x step] obtain c where c: "r = Inr ()" "q \<noteq> []" "t = hd q" "clh_inv N (cl_goto s t ClIdle m) c (tl q)"
    by blast
  have "\<not> clh_inside (ls_pcs s u)" if "u \<noteq> t" for u using clh_inside_head [OF inv, of u] that c by auto
  then have "clh_rel N (cl_goto s t ClIdle m) (tl q) False" using c by (auto simp: clh_rel_def)
  with rel x c show ?thesis by (intro fifo_sim_leave) (auto simp: clh_rel_def)
qed

lemma clh_start_rel: "clh_rel N (clh_start clhlock_node_init_orig N) [] False"
proof -
  have "clh_inv N (clh_start clhlock_node_init_orig N) ClhInitial []"
    by (rule clh_invI)
      (auto simp: clh_start_def cl_start_def qnode_of_def pred_of_def clh_start_nodes clhlock_init_def clh_zero_def clh_set_locked_def vatomic_simps)
  then show ?thesis by (auto simp: clh_rel_def)
qed

interpretation clh: fifo_lock_impl "clh_step N" "clh_start clhlock_node_init_orig N" "clh_rel N" cl_crit for N
proof (unfold_locales, goal_cases)
  case 1
  show ?case by (rule clh_start_rel)
next
  case (2 c q b t cmd c')
  then have "t < N" "cl_step clh_ops (t, cmd) c = Some c'" by (auto split: if_splits)
  from this(2) show ?case
    by (cases rule: cl_step_cases)
      (auto simp: clh_ops_def dest: clh_rel_acquire [OF 2(1) _ \<open>t < N\<close>, unfolded clh_ops_def]
        clh_rel_release [OF 2(1), unfolded clh_ops_def])
next
  case (3 c q)
  then show ?case by (simp add: clh_rel_def)
next
  case (4 c q b t)
  then obtain a where inv: "clh_inv N c a q" and b: "b = (q \<noteq> [] \<and> clh_inside (ls_pcs c (hd q)))" and t: "clh_inside (ls_pcs c t)"
    by (auto simp: clh_rel_def cl_crit_def)
  with clh_inside_head [OF inv t] show ?case by auto
qed


lemmas clh_sched_simps = clh_ops_def clh_simps cl_goto_def cl_crit_def upt_rec numeral_eq_Suc

text \<open>Thread 1 takes the lock, thread 0 queues behind it, and the lock goes from one to the other.\<close>

definition clh_handover :: "lock_label list" where
  "clh_handover = [(1, Acquire), (1, Run), (1, Run), (0, Acquire), (0, Run), (1, Release), (0, Run)]"


section \<open>The injected bug\<close>

definition clh_dead :: "clh_sys \<Rightarrow> bool" where
  "clh_dead s \<longleftrightarrow> (\<forall>t. qnode_of s t = None \<and> (ls_pcs s t = ClIdle \<or> ls_pcs s t = ClAcq ClhFault))"

lemma clh_deadD:
  "clh_dead s \<Longrightarrow> clh_qnode (clh_nodes (ls_mem s) t) = None \<and> (ls_pcs s t = ClIdle \<or> ls_pcs s t = ClAcq ClhFault)"
  by (simp add: clh_dead_def qnode_of_def)

interpretation clh_bug: inv_system "clh_step N" "clh_start clhlock_node_init N" clh_dead for N
proof (unfold_locales, goal_cases)
  case 1
  have "fold clhlock_node_init ts m = m" for ts m by (induction ts) (simp_all add: clhlock_node_init_def)
  then show ?case by (simp add: clh_dead_def clh_start_def cl_start_def qnode_of_def clhlock_init_def clh_zero_def clh_set_locked_def)
next
  case (2 s l s')
  obtain t cmd where l: "l = (t, cmd)" by (cases l)
  have step: "cl_step clh_ops (t, cmd) s = Some s'" using 2(2) l by (auto split: if_splits)
  from clh_deadD [OF 2(1), of t] have "s' = cl_goto s t (ClAcq ClhFault) (ls_mem s)"
    using step by (cases cmd) (auto simp: clh_ops_def)
  with 2(1) show ?case by (auto simp: clh_dead_def qnode_of_def)
qed

text \<open>
  Without the initialisation of the nodes no thread ever enters: the first step of every
  \<open>clhlock_acquire\<close> follows the null pointer \<open>node->qnode\<close>.
\<close>

theorem clhlock_bug_faults:
  assumes "reach (clh_step N) (clh_start clhlock_node_init N) s" and "t < N"
  shows "\<not> cl_crit s t \<and> (ls_pcs s t = ClAcq ClhFault \<or>
     (\<exists>s'. clh_step N (t, Acquire) s = Some s' \<and> ls_pcs s' t = ClAcq ClhFault))"
proof -
  have "clh_dead s" using assms(1) by (rule clh_bug.reach_inv)
  from clh_deadD [OF this, of t] assms(2) show ?thesis by (auto simp: cl_crit_def clh_ops_def)
qed

theorem clhlock_bug_faults_witness:
  "\<not> cl_crit (clh_start clhlock_node_init 2) 1 \<and>
     (\<exists>s'. clh_step 2 (1, Acquire) (clh_start clhlock_node_init 2) = Some s' \<and> ls_pcs s' 1 = ClAcq ClhFault)"
  using clhlock_bug_faults [OF reach_init, of 1 2] by (simp add: clh_start_def cl_start_def)

end
