(* ===== verification/Hemlock.thy ===== *)
theory Hemlock
  imports Lock_Client
begin

text \<open>
  The Hemlock, \<^verbatim>\<open>spinlock/hemlock.h\<close>: a queue lock whose threads use one node for all locks. The node
  holds the lock its owner is handing over; a successor waits for its own lock to appear there. Nodes are
  named by their threads and locks by numbers below \<open>K\<close>. The variant without \<^verbatim>\<open>HEMLOCK_USE_CTR\<close> is
  modelled, in the original version and with the bug the benchmark injects.
\<close>

section \<open>Operations\<close>

record hem_node_t =
  hem_grant :: "nat option"

record hemlock_t =
  hem_tail :: "tid option"

record hem_mem =
  hem_locks :: "nat \<Rightarrow> hemlock_t"
  hem_nodes :: "tid \<Rightarrow> hem_node_t"

definition hemlock_init :: "hemlock_t \<Rightarrow> hemlock_t" where
  "hemlock_init l = l\<lparr>hem_tail := vatomicptr_write (hem_tail l) None\<rparr>"

definition hem_set_grant :: "tid \<Rightarrow> nat option \<Rightarrow> hem_mem \<Rightarrow> hem_mem" where
  "hem_set_grant n v m = m\<lparr>hem_nodes := (hem_nodes m)(n := (hem_nodes m n)\<lparr>hem_grant := vatomicptr_write (hem_grant (hem_nodes m n)) v\<rparr>)\<rparr>"

definition hem_set_tail :: "nat \<Rightarrow> tid option \<Rightarrow> hem_mem \<Rightarrow> hem_mem" where
  "hem_set_tail l p m = m\<lparr>hem_locks := (hem_locks m)(l := (hem_locks m l)\<lparr>hem_tail := p\<rparr>)\<rparr>"

datatype hem_try_pc = HemTryNull | HemTryCas

fun hemlock_tryacquire :: "nat \<Rightarrow> hem_try_pc \<Rightarrow> tid \<Rightarrow> hem_mem \<Rightarrow> ((hem_try_pc + bool) \<times> hem_mem) option" where
  "hemlock_tryacquire l HemTryNull node m = Some (Inl HemTryCas, hem_set_grant node None m)"
| "hemlock_tryacquire l HemTryCas node m =
     (let (pred, a) = vatomicptr_cmpxchg (hem_tail (hem_locks m l)) None (Some node)
      in Some (Inr (pred = None), hem_set_tail l a m))"

datatype hem_acq_pc = HemNull | HemXchg | HemAwait tid | HemClear tid

fun hemlock_acquire_orig :: "nat \<Rightarrow> hem_acq_pc \<Rightarrow> tid \<Rightarrow> hem_mem \<Rightarrow> ((hem_acq_pc + unit) \<times> hem_mem) option" where
  "hemlock_acquire_orig l HemNull node m = Some (Inl HemXchg, hem_set_grant node None m)"
| "hemlock_acquire_orig l HemXchg node m =
     (let (pred, a) = vatomicptr_xchg (hem_tail (hem_locks m l)) (Some node)
      in Some (case pred of None \<Rightarrow> Inr () | Some p \<Rightarrow> Inl (HemAwait p), hem_set_tail l a m))"
| "hemlock_acquire_orig l (HemAwait pred) node m =
     (if vatomicptr_read (hem_grant (hem_nodes m pred)) = Some l then Some (Inl (HemClear pred), m) else None)"
| "hemlock_acquire_orig l (HemClear pred) node m = Some (Inr (), hem_set_grant pred None m)"

text \<open>With the bug, the loop ends as soon as the predecessor hands over any lock.\<close>

fun hemlock_acquire :: "nat \<Rightarrow> hem_acq_pc \<Rightarrow> tid \<Rightarrow> hem_mem \<Rightarrow> ((hem_acq_pc + unit) \<times> hem_mem) option" where
  "hemlock_acquire l HemNull node m = Some (Inl HemXchg, hem_set_grant node None m)"
| "hemlock_acquire l HemXchg node m =
     (let (pred, a) = vatomicptr_xchg (hem_tail (hem_locks m l)) (Some node)
      in Some (case pred of None \<Rightarrow> Inr () | Some p \<Rightarrow> Inl (HemAwait p), hem_set_tail l a m))"
| "hemlock_acquire l (HemAwait pred) node m =
     (case vatomicptr_await_neq (hem_grant (hem_nodes m pred)) None of
        None \<Rightarrow> None | Some _ \<Rightarrow> Some (Inl (HemClear pred), m))"
| "hemlock_acquire l (HemClear pred) node m = Some (Inr (), hem_set_grant pred None m)"

datatype hem_rel_pc = HemRelRead | HemRelCas | HemRelGrant | HemRelAwait

fun hemlock_release :: "nat \<Rightarrow> hem_rel_pc \<Rightarrow> tid \<Rightarrow> hem_mem \<Rightarrow> ((hem_rel_pc + unit) \<times> hem_mem) option" where
  "hemlock_release l HemRelRead node m =
     Some (Inl (if vatomicptr_read (hem_tail (hem_locks m l)) = Some node then HemRelCas else HemRelGrant), m)"
| "hemlock_release l HemRelCas node m =
     (let (t, a) = vatomicptr_cmpxchg (hem_tail (hem_locks m l)) (Some node) None
      in Some (if t = Some node then Inr () else Inl HemRelGrant, hem_set_tail l a m))"
| "hemlock_release l HemRelGrant node m = Some (Inl HemRelAwait, hem_set_grant node (Some l) m)"
| "hemlock_release l HemRelAwait node m =
     (if vatomicptr_read (hem_grant (hem_nodes m node)) = None then Some (Inr (), m) else None)"

definition hemlock_has_waiters :: "nat \<Rightarrow> hem_mem \<Rightarrow> tid \<Rightarrow> bool" where
  "hemlock_has_waiters l m node \<longleftrightarrow> vatomicptr_read (hem_tail (hem_locks m l)) \<noteq> Some node"

section \<open>Threads that use several locks\<close>

type_synonym hem_pc = "(hem_acq_pc, hem_try_pc, hem_rel_pc) client_pc"

type_synonym hem_ops = "nat \<Rightarrow> (hem_acq_pc, hem_try_pc, hem_rel_pc, hem_mem) lock_ops"

definition hem_ops_of :: "(nat \<Rightarrow> hem_acq_pc \<Rightarrow> tid \<Rightarrow> hem_mem \<Rightarrow> ((hem_acq_pc + unit) \<times> hem_mem) option) \<Rightarrow> hem_ops" where
  "hem_ops_of acq l = \<lparr>op_acquire = acq l, op_acquire_start = HemNull,
     op_tryacquire = hemlock_tryacquire l, op_tryacquire_start = HemTryNull,
     op_release = hemlock_release l, op_release_start = HemRelRead\<rparr>"

text \<open>What each thread is doing with each lock; it is in a call on at most one of them.\<close>

record hem_sys =
  hm_mem :: hem_mem
  hm_pcs :: "nat \<Rightarrow> tid \<Rightarrow> hem_pc"

fun hem_rests :: "hem_pc \<Rightarrow> bool" where
  "hem_rests ClIdle = True" | "hem_rests ClCrit = True" | "hem_rests _ = False"

fun hem_step :: "nat \<Rightarrow> hem_ops \<Rightarrow> (tid \<times> nat) \<times> lock_cmd \<Rightarrow> hem_sys \<Rightarrow> hem_sys option" where
  "hem_step K ops ((t, l), cmd) s =
     (if l < K \<and> (\<forall>k<K. k \<noteq> l \<longrightarrow> hem_rests (hm_pcs s k t)) then
        map_option (\<lambda>c. s\<lparr>hm_mem := ls_mem c, hm_pcs := (hm_pcs s)(l := ls_pcs c)\<rparr>)
          (cl_step (ops l) (t, cmd) \<lparr>ls_mem = hm_mem s, ls_pcs = hm_pcs s l\<rparr>)
      else None)"

definition hem_start :: hem_sys where
  "hem_start = \<lparr>hm_mem = \<lparr>hem_locks = (\<lambda>_. hemlock_init \<lparr>hem_tail = None\<rparr>), hem_nodes = (\<lambda>_. \<lparr>hem_grant = None\<rparr>)\<rparr>,
     hm_pcs = (\<lambda>_ _. ClIdle)\<rparr>"

definition hem_crit :: "nat \<Rightarrow> hem_sys \<Rightarrow> tid \<Rightarrow> bool" where
  "hem_crit l s t \<longleftrightarrow> hm_pcs s l t = ClCrit"

lemmas hem_simps = hemlock_init_def hem_set_grant_def hem_set_tail_def hem_start_def hem_ops_of_def vatomic_simps

section \<open>The queues\<close>

fun hem_inside :: "hem_pc \<Rightarrow> bool" where
  "hem_inside ClCrit = True" | "hem_inside (ClRel HemRelAwait) = False" | "hem_inside (ClRel _) = True" | "hem_inside _ = False"

fun hem_queued :: "hem_pc \<Rightarrow> bool" where
  "hem_queued (ClAcq (HemAwait _)) = True" | "hem_queued (ClAcq (HemClear _)) = True"
| "hem_queued pc = hem_inside pc"

text \<open>
  In the queue of lock \<open>l\<close> each thread waits for the one in front of it. The first thread is inside, or
  the thread it waits for has left and is handing over \<open>l\<close>.
\<close>

definition hem_head :: "(tid \<Rightarrow> hem_node_t) \<Rightarrow> nat \<Rightarrow> hem_pc \<Rightarrow> bool" where
  "hem_head nodes l pc \<longleftrightarrow> hem_inside pc \<or>
     (\<exists>x. (pc = ClAcq (HemAwait x) \<or> pc = ClAcq (HemClear x)) \<and> hem_grant (nodes x) = Some l)"

definition hem_queue :: "(tid \<Rightarrow> hem_node_t) \<Rightarrow> nat \<Rightarrow> (tid \<Rightarrow> hem_pc) \<Rightarrow> tid option \<Rightarrow> tid list \<Rightarrow> bool" where
  "hem_queue nodes l pcs tl' q \<longleftrightarrow> distinct q \<and> (\<forall>t. t \<in> set q \<longleftrightarrow> hem_queued (pcs t)) \<and>
     (\<forall>x y. adjacent q x y \<longrightarrow> pcs y = ClAcq (HemAwait x)) \<and> (q \<noteq> [] \<longrightarrow> hem_head nodes l (pcs (hd q))) \<and>
     tl' = (if q = [] then None else Some (last q)) \<and> (\<forall>t. pcs t = ClRel HemRelGrant \<longrightarrow> tl q \<noteq> [])"

text \<open>A node holds a lock only while its owner waits at the end of the release of that lock.\<close>

definition hem_grants :: "(tid \<Rightarrow> hem_node_t) \<Rightarrow> nat \<Rightarrow> (tid \<Rightarrow> hem_pc) \<Rightarrow> bool" where
  "hem_grants nodes l pcs \<longleftrightarrow> (\<forall>x. hem_grant (nodes x) = Some l \<longrightarrow> pcs x = ClRel HemRelAwait)"

type_synonym hem_lsys = "(hem_acq_pc, hem_try_pc, hem_rel_pc, hem_mem) lock_sys"

abbreviation grant_of :: "hem_lsys \<Rightarrow> tid \<Rightarrow> nat option" where
  "grant_of c x \<equiv> hem_grant (hem_nodes (ls_mem c) x)"

abbreviation tail_of :: "nat \<Rightarrow> hem_lsys \<Rightarrow> tid option" where
  "tail_of l c \<equiv> hem_tail (hem_locks (ls_mem c) l)"

definition hem_ok :: "nat \<Rightarrow> hem_lsys \<Rightarrow> tid list \<Rightarrow> bool" where
  "hem_ok l c q \<longleftrightarrow> hem_queue (hem_nodes (ls_mem c)) l (ls_pcs c) (tail_of l c) q \<and> hem_grants (hem_nodes (ls_mem c)) l (ls_pcs c)"

lemma hem_okD:
  assumes "hem_ok l c q"
  shows "distinct q" "t \<in> set q \<longleftrightarrow> hem_queued (ls_pcs c t)" "adjacent q x y \<Longrightarrow> ls_pcs c y = ClAcq (HemAwait x)"
    "q \<noteq> [] \<Longrightarrow> hem_head (hem_nodes (ls_mem c)) l (ls_pcs c (hd q))"
    "tail_of l c = (if q = [] then None else Some (last q))" "ls_pcs c t = ClRel HemRelGrant \<Longrightarrow> tl q \<noteq> []"
    "grant_of c x = Some l \<Longrightarrow> ls_pcs c x = ClRel HemRelAwait"
  using assms by (auto simp: hem_ok_def hem_queue_def hem_grants_def)

lemma hem_okI:
  assumes "distinct q" "\<And>t. t \<in> set q \<longleftrightarrow> hem_queued (ls_pcs c t)" "\<And>x y. adjacent q x y \<Longrightarrow> ls_pcs c y = ClAcq (HemAwait x)"
    "q \<noteq> [] \<Longrightarrow> hem_head (hem_nodes (ls_mem c)) l (ls_pcs c (hd q))"
    "tail_of l c = (if q = [] then None else Some (last q))" "\<And>t. ls_pcs c t = ClRel HemRelGrant \<Longrightarrow> tl q \<noteq> []"
    "\<And>x. grant_of c x = Some l \<Longrightarrow> ls_pcs c x = ClRel HemRelAwait"
  shows "hem_ok l c q"
  using assms unfolding hem_ok_def hem_queue_def hem_grants_def by blast

lemma hem_not_behind:
  assumes "hem_ok l c q" and "hem_queued (ls_pcs c t)" and "\<And>x. ls_pcs c t = ClAcq (HemAwait x) \<Longrightarrow> grant_of c x = Some l"
  shows "q \<noteq> [] \<and> t = hd q"
proof (rule in_tl_or_hd)
  show "t \<in> set q" using hem_okD(2) [OF assms(1)] assms(2) by simp
  show "t \<notin> set (tl q)"
  proof
    assume "t \<in> set (tl q)"
    then obtain x where x: "adjacent q x t" using adjacent_pred by metis
    then have "ls_pcs c t = ClAcq (HemAwait x)" by (rule hem_okD(3) [OF assms(1)])
    then have "ls_pcs c x = ClRel HemRelAwait" using assms(3) hem_okD(7) [OF assms(1)] by blast
    then show False using hem_okD(2) [OF assms(1), of x] adjacent_in [OF x] by simp
  qed
qed

lemma hem_inside_head:
  assumes "hem_ok l c q" and "hem_inside (ls_pcs c t)"
  shows "q \<noteq> [] \<and> t = hd q"
proof (rule hem_not_behind [OF assms(1)])
  show "hem_queued (ls_pcs c t)" using assms(2) by (cases "ls_pcs c t" rule: hem_queued.cases) auto
qed (use assms(2) in auto)

text \<open>Steps that change neither the memory nor the queue.\<close>

lemma hem_ok_local:
  assumes ok: "hem_ok l c q" and "\<not> hem_queued (ls_pcs c t)" and "\<not> hem_queued pc" and "grant_of c t \<noteq> Some l"
  shows "hem_ok l (cl_goto c t pc (ls_mem c)) q"
proof -
  have t: "t \<notin> set q" using hem_okD(2) [OF ok] assms(2) by simp
  show ?thesis
  proof (rule hem_okI, goal_cases)
    case (3 x y)
    then show ?case using hem_okD(3) [OF ok 3] adjacent_in [OF 3] t by auto
  next
    case 4
    then have "hd q \<noteq> t" using t by auto
    with hem_okD(4) [OF ok 4] show ?case by simp
  next
    case (6 x)
    then show ?case using hem_okD(6) [OF ok, of x] assms(3) by (auto split: if_splits)
  next
    case (7 x)
    then show ?case using hem_okD(7) [OF ok, of x] assms(4) by auto
  qed (use hem_okD(1,2,5) [OF ok] assms t in auto)
qed

lemma hem_ok_front:
  assumes ok: "hem_ok l c q" and t: "q \<noteq> []" "t = hd q" and pc: "hem_queued pc" "hem_head (hem_nodes (ls_mem c)) l pc"
    and tl: "pc = ClRel HemRelGrant \<Longrightarrow> tl q \<noteq> []"
  shows "hem_ok l (cl_goto c t pc (ls_mem c)) q"
proof (rule hem_okI, goal_cases)
  case (3 x y)
  then show ?case using hem_okD(3) [OF ok 3] adjacent_neq_hd [OF 3 hem_okD(1) [OF ok]] t by auto
next
  case (7 x)
  then have "ls_pcs c x = ClRel HemRelAwait" using hem_okD(7) [OF ok, of x] by simp
  moreover have "x \<noteq> t" using calculation hem_okD(2) [OF ok, of t] t by auto
  ultimately show ?case by simp
next
  case (2 x)
  show ?case using hem_okD(2) [OF ok, of x] t pc by auto
next
  case (6 x)
  then show ?case using hem_okD(6) [OF ok, of x] tl by (auto split: if_splits)
qed (use hem_okD(1,5) [OF ok] t pc in auto)

lemma hem_ok_join:
  assumes ok: "hem_ok l c q" and nq: "\<not> hem_queued (ls_pcs c t)" and g: "grant_of c t \<noteq> Some l"
    and pc: "pc = (if q = [] then ClCrit else ClAcq (HemAwait (last q)))"
  shows "hem_ok l (cl_goto c t pc (hem_set_tail l (Some t) (ls_mem c))) (q @ [t])"
proof -
  have t: "t \<notin> set q" using hem_okD(2) [OF ok] nq by simp
  have nodes: "hem_nodes (hem_set_tail l (Some t) (ls_mem c)) = hem_nodes (ls_mem c)" by (simp add: hem_set_tail_def)
  show ?thesis
  proof (rule hem_okI, goal_cases)
    case (2 x)
    show ?case using hem_okD(2) [OF ok, of x] t pc by auto
  next
    case (3 x y)
    then show ?case using hem_okD(3) [OF ok, of x y] adjacent_in [of q x y] t pc by (auto simp: adjacent_snoc)
  next
    case 4
    show ?case
    proof (cases "q = []")
      case False
      then have "hd q \<noteq> t" using t by auto
      with hem_okD(4) [OF ok False] False nodes show ?thesis by simp
    qed (use pc in \<open>simp add: hem_head_def\<close>)
  next
    case (6 x)
    then have "tl q \<noteq> []" using hem_okD(6) [OF ok, of x] pc by (auto split: if_splits)
    then show ?case by (cases q) auto
  next
    case (7 x)
    then show ?case using hem_okD(7) [OF ok, of x] nodes g by auto
  qed (use hem_okD(1) [OF ok] t in \<open>auto simp: hem_set_tail_def\<close>)
qed

text \<open>The successor takes the lock out of the node of the thread that hands it over.\<close>

lemma hem_ok_take:
  assumes ok: "hem_ok l c q" and t: "q \<noteq> []" "t = hd q" and pc: "ls_pcs c t = ClAcq (HemClear x)"
  shows "hem_ok l (cl_goto c t ClCrit (hem_set_grant x None (ls_mem c))) q"
proof (rule hem_okI, goal_cases)
  case (2 y)
  show ?case using hem_okD(2) [OF ok, of y] t by auto
next
  case (3 y z)
  then show ?case using hem_okD(3) [OF ok 3] adjacent_neq_hd [OF 3 hem_okD(1) [OF ok]] t by auto
next
  case 4
  then show ?case using t by (simp add: hem_head_def)
next
  case (6 y)
  then show ?case using hem_okD(6) [OF ok, of y] by (auto split: if_splits)
next
  case (7 y)
  then have "ls_pcs c y = ClRel HemRelAwait"
    using hem_okD(7) [OF ok, of y] by (auto simp: hem_set_grant_def vatomic_simps split: if_splits)
  with pc show ?case by auto
qed (use hem_okD(1,5) [OF ok] in \<open>auto simp: hem_set_grant_def\<close>)

lemma hem_ok_leave_empty:
  assumes ok: "hem_ok l c q" and t: "q \<noteq> []" "t = hd q" and last: "last q = t" and g: "grant_of c t \<noteq> Some l"
  shows "hem_ok l (cl_goto c t ClIdle (hem_set_tail l None (ls_mem c))) (tl q)"
proof -
  have tl: "tl q = []" using hd_is_last [OF hem_okD(1) [OF ok]] t last by simp
  then have "set q = {t}" using t by (cases q) auto
  then have only: "hem_queued (ls_pcs c x) \<longleftrightarrow> x = t" for x using hem_okD(2) [OF ok, of x] by auto
  show ?thesis
  proof (rule hem_okI, goal_cases)
    case (6 x)
    then show ?case using only [of x] hem_okD(6) [OF ok, of x] tl by (auto split: if_splits)
  next
    case (7 x)
    then show ?case using hem_okD(7) [OF ok, of x] g by (auto simp: hem_set_tail_def)
  qed (use only tl in \<open>auto simp: hem_set_tail_def\<close>)
qed

lemma hem_ok_grant:
  assumes ok: "hem_ok l c q" and pc: "ls_pcs c t = ClRel HemRelGrant"
  shows "q \<noteq> [] \<and> t = hd q \<and> hem_ok l (cl_goto c t (ClRel HemRelAwait) (hem_set_grant t (Some l) (ls_mem c))) (tl q)"
proof -
  note d = hem_okD(1) [OF ok]
  have t: "q \<noteq> []" "t = hd q" using hem_not_behind [OF ok, of t] pc by auto
  have tl: "tl q \<noteq> []" using hem_okD(6) [OF ok pc] .
  have "t \<noteq> last q" using hd_is_last [OF d] t tl by auto
  then obtain y where y: "adjacent q t y" using adjacent_succ [of t q] t by auto
  have yt: "y = hd (tl q)" "y \<noteq> t" using adjacent_hd_tl [of q y] adjacent_neq [OF y] y d t by auto
  have hd: "ls_pcs c (hd (tl q)) = ClAcq (HemAwait t)" using hem_okD(3) [OF ok y] yt by simp
  have last: "last (tl q) = last q" using tl by (cases q) auto
  have ins: "ls_pcs c x = ClRel HemRelGrant \<Longrightarrow> x = t" for x using hem_not_behind [OF ok, of x] t by auto
  have "hem_ok l (cl_goto c t (ClRel HemRelAwait) (hem_set_grant t (Some l) (ls_mem c))) (tl q)"
  proof (rule hem_okI, goal_cases)
    case (2 x)
    show ?case using hem_okD(2) [OF ok, of x] hd_tl_set [OF d] t by auto
  next
    case (3 x z)
    have a: "adjacent q x z" using 3 by (rule adjacent_tl)
    show ?case using hem_okD(3) [OF ok a] adjacent_neq_hd [OF a d] t by simp
  next
    case 4
    show ?case using hd yt by (auto simp: hem_head_def hem_set_grant_def vatomic_simps)
  next
    case (6 x)
    then show ?case using ins [of x] by (auto split: if_splits)
  next
    case (7 x)
    then show ?case using hem_okD(7) [OF ok, of x] by (auto simp: hem_set_grant_def)
  qed (use hem_okD(5) [OF ok] t tl last d in \<open>auto simp: hem_set_grant_def distinct_tl\<close>)
  with t show ?thesis by blast
qed

section \<open>One lock\<close>

definition hem_lrel :: "nat \<Rightarrow> hem_lsys \<Rightarrow> tid list \<Rightarrow> bool \<Rightarrow> bool" where
  "hem_lrel l c q b \<longleftrightarrow> hem_ok l c q \<and> b = (q \<noteq> [] \<and> hem_inside (ls_pcs c (hd q)))"

lemma hem_lrel_ok: "hem_lrel l c q b \<Longrightarrow> hem_ok l c q"
  by (simp add: hem_lrel_def)

lemma hem_lrel_stay:
  assumes "hem_lrel l c q b" and "hem_ok l (cl_goto c t pc m) q" and "hem_inside pc = hem_inside (ls_pcs c t)"
  shows "fifo_sim (hem_lrel l) (cl_goto c t pc m) q b"
  using assms by (intro fifo_sim_stay) (auto simp: hem_lrel_def)

lemma hem_lrel_join:
  assumes rel: "hem_lrel l c q b" and t: "\<not> hem_queued (ls_pcs c t)" and g: "grant_of c t \<noteq> Some l"
    and pc: "pc = (if q = [] then ClCrit else ClAcq (HemAwait (last q)))"
  shows "fifo_sim (hem_lrel l) (cl_goto c t pc (hem_set_tail l (Some t) (ls_mem c))) q b"
proof -
  note j = hem_ok_join [OF hem_lrel_ok [OF rel] t g pc]
  have nt: "t \<notin> set q" using hem_okD(2) [OF hem_lrel_ok [OF rel], of t] t by simp
  show ?thesis
  proof (cases "q = []")
    case True
    with j pc rel show ?thesis by (intro fifo_sim_grab [where t = t]) (auto simp: hem_lrel_def)
  next
    case False
    then have "hd q \<noteq> t" using nt by auto
    with False j pc rel nt show ?thesis by (intro fifo_sim_arrive [where t = t]) (auto simp: hem_lrel_def)
  qed
qed

lemma hem_lrel_leave:
  assumes rel: "hem_lrel l c q b" and ok: "q \<noteq> [] \<and> t = hd q \<and> hem_ok l (cl_goto c t pc m) (tl q)"
    and "hem_inside (ls_pcs c t)" and "\<not> hem_inside pc"
  shows "fifo_sim (hem_lrel l) (cl_goto c t pc m) q b"
proof -
  have "\<not> hem_inside (ls_pcs c x)" if "x \<noteq> t" for x
    using hem_inside_head [OF hem_lrel_ok [OF rel], of x] ok that by auto
  then have "hem_lrel l (cl_goto c t pc m) (tl q) False" using ok assms(4) by (auto simp: hem_lrel_def)
  with rel assms(3) ok show ?thesis by (intro fifo_sim_leave) (auto simp: hem_lrel_def)
qed

lemma hem_set_grant_same: "hem_grant (hem_nodes m t) = v \<Longrightarrow> hem_set_grant t v m = m"
  by (auto simp: hem_set_grant_def vatomic_simps)

lemma hem_set_tail_same: "hem_tail (hem_locks m l) = p \<Longrightarrow> hem_set_tail l p m = m"
  by (auto simp: hem_set_tail_def)

lemma hem_lrel_acquire:
  assumes rel: "hem_lrel l c q b" and pc: "in_acq (hem_ops_of hemlock_acquire_orig l) (ls_pcs c t) p"
    and g: "grant_of c t = None \<or> grant_of c t = Some l"
    and step: "hemlock_acquire_orig l p t (ls_mem c) = Some (r, m)"
  shows "fifo_sim (hem_lrel l) (cl_goto c t (cl_acquired r) m) q b"
proof -
  note ok = hem_lrel_ok [OF rel]
  have pcs: "ls_pcs c t = ClAcq p \<or> ls_pcs c t = ClIdle \<and> p = HemNull" using pc by (auto simp: in_acq_def hem_ops_of_def)
  then have g0: "grant_of c t = None" using g hem_okD(7) [OF ok, of t] by auto
  show ?thesis
  proof (cases p)
    case HemNull
    with pcs step g0 show ?thesis
      by (auto simp: hem_set_grant_same intro!: hem_lrel_stay [OF rel] hem_ok_local [OF ok])
  next
    case HemXchg
    with step hem_okD(5) [OF ok] have "cl_goto c t (cl_acquired r) m =
        cl_goto c t (if q = [] then ClCrit else ClAcq (HemAwait (last q))) (hem_set_tail l (Some t) (ls_mem c))"
      by (auto simp: vatomic_simps split: if_splits)
    with HemXchg pcs g0 show ?thesis using hem_lrel_join [OF rel, of t] by simp
  next
    case (HemAwait x)
    with pcs step have r: "ls_pcs c t = ClAcq (HemAwait x)" "grant_of c x = Some l" "r = Inl (HemClear x)" "m = ls_mem c"
      by (auto simp: vatomic_simps split: if_splits)
    then have "q \<noteq> []" "t = hd q" using hem_not_behind [OF ok, of t] by auto
    then show ?thesis using r by (auto simp: hem_head_def intro!: hem_lrel_stay [OF rel] hem_ok_front [OF ok])
  next
    case (HemClear x)
    with pcs step have r: "ls_pcs c t = ClAcq (HemClear x)" "r = Inr ()" "m = hem_set_grant x None (ls_mem c)" by auto
    then have t: "q \<noteq> []" "t = hd q" using hem_not_behind [OF ok, of t] by auto
    then show ?thesis using r rel hem_ok_take [OF ok t r(1)] by (intro fifo_sim_enter) (auto simp: hem_lrel_def)
  qed
qed

lemma hem_lrel_tryacquire:
  assumes rel: "hem_lrel l c q b" and pc: "in_try (hem_ops_of hemlock_acquire_orig l) (ls_pcs c t) p"
    and g: "grant_of c t = None \<or> grant_of c t = Some l"
    and step: "hemlock_tryacquire l p t (ls_mem c) = Some (r, m)"
  shows "fifo_sim (hem_lrel l) (cl_goto c t (cl_tried r) m) q b"
proof -
  note ok = hem_lrel_ok [OF rel]
  have pcs: "ls_pcs c t = ClTry p \<or> ls_pcs c t = ClIdle \<and> p = HemTryNull" using pc by (auto simp: in_try_def hem_ops_of_def)
  then have g0: "grant_of c t = None" using g hem_okD(7) [OF ok, of t] by auto
  show ?thesis
  proof (cases p)
    case HemTryNull
    with pcs step g0 show ?thesis
      by (auto simp: hem_set_grant_same intro!: hem_lrel_stay [OF rel] hem_ok_local [OF ok])
  next
    case HemTryCas
    show ?thesis
    proof (cases "q = []")
      case True
      with HemTryCas pcs step hem_okD(5) [OF ok] g0 show ?thesis
        using hem_lrel_join [OF rel, of t ClCrit] by (auto simp: vatomic_simps)
    next
      case False
      with HemTryCas step hem_okD(5) [OF ok] have "r = Inr False" "m = ls_mem c"
        by (auto simp: vatomic_simps hem_set_tail_same)
      with HemTryCas pcs g0 show ?thesis by (auto intro!: hem_lrel_stay [OF rel] hem_ok_local [OF ok])
    qed
  qed
qed

lemma hem_lrel_release:
  assumes rel: "hem_lrel l c q b" and pc: "in_rel (hem_ops_of hemlock_acquire_orig l) (ls_pcs c t) p"
    and g: "grant_of c t = None \<or> grant_of c t = Some l"
    and step: "hemlock_release l p t (ls_mem c) = Some (r, m)"
  shows "fifo_sim (hem_lrel l) (cl_goto c t (cl_released r) m) q b"
proof -
  note ok = hem_lrel_ok [OF rel] and tail = hem_okD(5) [OF hem_lrel_ok [OF rel]]
  have pcs: "ls_pcs c t = ClRel p \<or> ls_pcs c t = ClCrit \<and> p = HemRelRead" using pc by (auto simp: in_rel_def hem_ops_of_def)
  show ?thesis
  proof (cases "p = HemRelAwait")
    case True
    with pcs step show ?thesis
      by (auto simp: vatomic_simps intro!: hem_lrel_stay [OF rel] hem_ok_local [OF ok] split: if_splits)
  next
    case False
    then have ins: "hem_inside (ls_pcs c t)" "hem_queued (ls_pcs c t)" using pcs by (cases p; auto)+
    then have t: "q \<noteq> []" "t = hd q" using hem_inside_head [OF ok ins(1)] by auto
    have g0: "grant_of c t = None" using g hem_okD(7) [OF ok, of t] ins by auto
    have more: "tl q \<noteq> []" if "last q \<noteq> t" using that t by (cases q) auto
    show ?thesis
    proof (cases p)
      case HemRelRead
      with step tail t more ins show ?thesis
        by (auto simp: vatomic_simps hem_head_def intro!: hem_lrel_stay [OF rel] hem_ok_front [OF ok] split: if_splits)
    next
      case HemRelCas
      show ?thesis
      proof (cases "last q = t")
        case True
        with HemRelCas step t tail have "r = Inr ()" "m = hem_set_tail l None (ls_mem c)" by (auto simp: vatomic_simps)
        with hem_ok_leave_empty [OF ok t True] g0 t ins show ?thesis by (auto intro!: hem_lrel_leave [OF rel])
      next
        case False
        then have "r = Inl HemRelGrant" "m = ls_mem c"
          using HemRelCas step t tail by (auto simp: vatomic_simps hem_set_tail_same)
        with more [OF False] t ins show ?thesis
          by (auto simp: hem_head_def intro!: hem_lrel_stay [OF rel] hem_ok_front [OF ok])
      qed
    next
      case HemRelGrant
      with pcs have "ls_pcs c t = ClRel HemRelGrant" by auto
      from hem_ok_grant [OF ok this] HemRelGrant step ins show ?thesis by (auto intro!: hem_lrel_leave [OF rel])
    qed (use False in simp)
  qed
qed

lemma hem_lrel_step:
  assumes rel: "hem_lrel l c q b" and g: "grant_of c t = None \<or> grant_of c t = Some l"
    and step: "cl_step (hem_ops_of hemlock_acquire_orig l) (t, cmd) c = Some c'"
  shows "fifo_sim (hem_lrel l) c' q b"
  using step
  by (cases rule: cl_step_cases)
    (auto simp: hem_ops_of_def dest: hem_lrel_acquire [OF rel _ g, unfolded hem_ops_of_def]
      hem_lrel_tryacquire [OF rel _ g, unfolded hem_ops_of_def] hem_lrel_release [OF rel _ g, unfolded hem_ops_of_def])

section \<open>All locks\<close>

definition hem_view :: "nat \<Rightarrow> hem_sys \<Rightarrow> hem_lsys" where
  "hem_view l s = \<lparr>ls_mem = hm_mem s, ls_pcs = hm_pcs s l\<rparr>"

text \<open>A step on one lock leaves the other locks and their grants alone.\<close>

definition hem_frame :: "nat \<Rightarrow> hem_mem \<Rightarrow> hem_mem \<Rightarrow> bool" where
  "hem_frame l m m' \<longleftrightarrow> (\<forall>k. k \<noteq> l \<longrightarrow> hem_tail (hem_locks m' k) = hem_tail (hem_locks m k) \<and>
     (\<forall>x. hem_grant (hem_nodes m' x) = Some k \<longleftrightarrow> hem_grant (hem_nodes m x) = Some k))"

lemma hem_frame_refl [simp]: "hem_frame l m m"
  and hem_frame_tail [simp]: "hem_frame l m (hem_set_tail l p m)"
  by (simp_all add: hem_frame_def hem_set_tail_def)

lemma hem_frame_grant:
  "hem_grant (hem_nodes m x) = None \<or> hem_grant (hem_nodes m x) = Some l \<Longrightarrow> v = None \<or> v = Some l \<Longrightarrow>
   hem_frame l m (hem_set_grant x v m)"
  by (auto simp: hem_frame_def hem_set_grant_def vatomic_simps)

lemma hem_step_frame:
  assumes ok: "hem_ok l c q" and g: "grant_of c t = None \<or> grant_of c t = Some l"
    and step: "cl_step (hem_ops_of hemlock_acquire_orig l) (t, cmd) c = Some c'"
  shows "hem_frame l (ls_mem c) (ls_mem c')"
  using step
proof (cases rule: cl_step_cases)
  case (acq p r m)
  have "grant_of c x = Some l" if "p = HemClear x" for x
  proof -
    have pc: "ls_pcs c t = ClAcq (HemClear x)" using acq that by (auto simp: in_acq_def hem_ops_of_def)
    then have "q \<noteq> []" "t = hd q" using hem_not_behind [OF ok, of t] by auto
    with hem_okD(4) [OF ok] pc show ?thesis by (auto simp: hem_head_def)
  qed
  with acq g show ?thesis
    by (cases p) (auto simp: hem_ops_of_def vatomic_simps Let_def intro!: hem_frame_grant split: if_splits)
next
  case (tr p r m)
  with g show ?thesis by (cases p) (auto simp: hem_ops_of_def vatomic_simps Let_def intro!: hem_frame_grant split: if_splits)
next
  case (rel p r m)
  with g show ?thesis by (cases p) (auto simp: hem_ops_of_def vatomic_simps Let_def intro!: hem_frame_grant split: if_splits)
qed

lemma hem_lrel_frame:
  assumes "hem_lrel k c q b" and "ls_pcs c' = ls_pcs c" and "hem_frame l (ls_mem c) (ls_mem c')" and "k \<noteq> l"
  shows "hem_lrel k c' q b"
  using assms
  by (auto simp: hem_lrel_def hem_ok_def hem_queue_def hem_head_def hem_grants_def hem_frame_def)

definition hem_rel :: "nat \<Rightarrow> nat \<Rightarrow> hem_sys \<Rightarrow> tid list \<Rightarrow> bool \<Rightarrow> bool" where
  "hem_rel K l s q b \<longleftrightarrow> hem_lrel l (hem_view l s) q b \<and> (\<forall>k. \<exists>q b. hem_lrel k (hem_view k s) q b) \<and>
     (\<forall>k t. K \<le> k \<longrightarrow> hm_pcs s k t = ClIdle)"

lemma hem_rel_step:
  assumes rel: "hem_rel K k s q b" and step: "hem_step K (hem_ops_of hemlock_acquire_orig) ((t, l), cmd) s = Some s'"
  shows "fifo_sim (hem_rel K k) s' q b"
proof -
  have l: "l < K" and rests: "\<And>j. j < K \<Longrightarrow> j \<noteq> l \<Longrightarrow> hem_rests (hm_pcs s j t)"
    using step by (auto split: if_splits)
  obtain c' where c': "cl_step (hem_ops_of hemlock_acquire_orig l) (t, cmd) (hem_view l s) = Some c'"
    and s': "s' = s\<lparr>hm_mem := ls_mem c', hm_pcs := (hm_pcs s)(l := ls_pcs c')\<rparr>"
    using step by (auto simp: hem_view_def split: if_splits)
  obtain ql bl where ql: "hem_lrel l (hem_view l s) ql bl" using rel unfolding hem_rel_def by blast
  have g: "grant_of (hem_view l s) t = None \<or> grant_of (hem_view l s) t = Some l"
  proof (rule ccontr)
    assume "\<not> ?thesis"
    then obtain j where j: "j \<noteq> l" "hem_grant (hem_nodes (hm_mem s) t) = Some j" by (auto simp: hem_view_def)
    obtain qj bj where "hem_lrel j (hem_view j s) qj bj" using rel unfolding hem_rel_def by blast
    then have "hm_pcs s j t = ClRel HemRelAwait" using hem_okD(7) [OF hem_lrel_ok, of j "hem_view j s" qj bj t] j by (simp add: hem_view_def)
    then show False using rests [of j] rel j by (cases "j < K") (auto simp: hem_rel_def)
  qed
  have frame: "hem_frame l (hm_mem s) (hm_mem s')"
    using hem_step_frame [OF hem_lrel_ok [OF ql] g c'] s' by (simp add: hem_view_def)
  have view: "hem_view l s' = c'" "\<And>j. j \<noteq> l \<Longrightarrow> ls_pcs (hem_view j s') = ls_pcs (hem_view j s)"
    using s' by (auto simp: hem_view_def)
  have other: "hem_lrel j (hem_view j s') q b" if "j \<noteq> l" "hem_lrel j (hem_view j s) q b" for j q b
    by (rule hem_lrel_frame [OF that(2) view(2) [OF that(1)] _ that(1)]) (use frame in \<open>simp add: hem_view_def\<close>)
  have sim: "fifo_sim (hem_lrel l) c' q' b'" if "hem_lrel l (hem_view l s) q' b'" for q' b'
    using hem_lrel_step [OF that g c'] .
  have idle: "\<forall>k t. K \<le> k \<longrightarrow> hm_pcs s' k t = ClIdle" using rel l s' by (auto simp: hem_rel_def)
  have some: "\<exists>q b. hem_lrel j (hem_view j s') q b" for j
  proof (cases "j = l")
    case True
    with fifo_sim_step [OF sim [OF ql]] view(1) show ?thesis by blast
  next
    case False
    with rel other show ?thesis unfolding hem_rel_def by blast
  qed
  show ?thesis
  proof (cases "k = l")
    case True
    have "fifo_sim (hem_lrel l) c' q b" using sim rel True by (simp add: hem_rel_def)
    then show ?thesis by (rule fifo_sim_mono) (use True view(1) some idle in \<open>auto simp: hem_rel_def\<close>)
  next
    case False
    with rel other some idle show ?thesis by (intro fifo_sim_stay) (simp add: hem_rel_def)
  qed
qed

interpretation hem: fifo_lock_impl "hem_step K (hem_ops_of hemlock_acquire_orig)" hem_start "hem_rel K l" "hem_crit l" for K l
proof (unfold_locales, goal_cases)
  case 1
  have "hem_lrel k (hem_view k hem_start) [] False" for k
    by (simp add: hem_lrel_def hem_ok_def hem_queue_def hem_grants_def hem_view_def hem_simps)
  then show ?case by (auto simp: hem_rel_def hem_start_def)
next
  case (2 c q b k cmd c')
  obtain t j where "k = (t, j)" by (cases k)
  with 2 show ?case using hem_rel_step by simp
next
  case (3 c q)
  then show ?case by (simp add: hem_rel_def hem_lrel_def)
next
  case (4 c q b t)
  then have rel: "hem_lrel l (hem_view l c) q b" and t: "hem_inside (ls_pcs (hem_view l c) t)"
    by (auto simp: hem_rel_def hem_crit_def hem_view_def)
  with hem_inside_head [OF hem_lrel_ok [OF rel] t] show ?case by (auto simp: hem_lrel_def)
qed


text \<open>
  Thread 1 holds lock 1 with thread 2 behind it, and hands lock 0 over to thread 0, using the same node.
\<close>

definition hem_two_locks :: "((tid \<times> nat) \<times> lock_cmd) list" where
  "hem_two_locks =
    [((1, 1), Acquire), ((1, 1), Run), ((2, 1), Acquire), ((2, 1), Run), ((1, 0), Acquire), ((1, 0), Run),
     ((0, 0), Acquire), ((0, 0), Run), ((1, 0), Release), ((1, 0), Run)]"

lemmas hem_sched_simps = hem_two_locks_def hem_simps cl_goto_def hem_crit_def less_Suc_eq numeral_eq_Suc


text \<open>
  The injected bug breaks exclusion when locks are nested: with \<open>await_neq(pred->grant, NULL)\<close> thread 2
  takes the hand-over of lock 0 for one of lock 1 and enters it while thread 1 is still inside.
\<close>

theorem hemlock_bug_breaks_exclusion:
  "\<exists>s. reach (hem_step 2 (hem_ops_of hemlock_acquire)) hem_start s \<and> hem_crit 1 s 1 \<and> hem_crit 1 s 2"
proof -
  have "\<exists>s. exec (hem_step 2 (hem_ops_of hemlock_acquire)) (hem_two_locks @ [((2, 1), Run), ((2, 1), Run)]) hem_start = Some s \<and>
      hem_crit 1 s 1 \<and> hem_crit 1 s 2"
    by (simp add: hem_sched_simps)
  then show ?thesis by (blast intro: exec_reach)
qed

end
