(* ===== verification/Vmath.thy ===== *)
theory Vmath
  imports Bench_Prelude
begin

text \<open>
  The arithmetic helpers of \<^verbatim>\<open>utils/math.h\<close> and the variants \<^verbatim>\<open>utils/internal/math.h\<close> that the library
  uses when it is compiled for verification.
\<close>

section \<open>Macros\<close>

definition VIS_ODD :: "u32 \<Rightarrow> bool" where
  "VIS_ODD v \<longleftrightarrow> v AND 1 = 1"

definition VIS_EVEN :: "u32 \<Rightarrow> bool" where
  "VIS_EVEN v \<longleftrightarrow> v AND 1 = 0"

definition V_IS_POWER_OF_TWO :: "u32 \<Rightarrow> bool" where
  "V_IS_POWER_OF_TWO num \<longleftrightarrow> num \<noteq> 0 \<and> num AND (num - 1) = 0"

definition V_MOD_POWER_OF_TWO :: "u32 \<Rightarrow> u32 \<Rightarrow> u32" where
  "V_MOD_POWER_OF_TWO num pot = (if V_IS_POWER_OF_TWO pot then num AND (pot - 1) else num mod pot)"

text \<open>\<open>VCEIL_DIV\<close> is used on sizes, where neither the quotient nor its successor can overflow.\<close>

definition VCEIL_DIV :: "nat \<Rightarrow> nat \<Rightarrow> nat" where
  "VCEIL_DIV x y = (if x mod y = 0 then x div y else x div y + 1)"

lemma VIS_ODD_iff: "VIS_ODD v \<longleftrightarrow> odd v"
  by (simp add: VIS_ODD_def and_one_eq odd_iff_mod_2_eq_one)

lemma VIS_EVEN_iff: "VIS_EVEN v \<longleftrightarrow> even v"
  by (simp add: VIS_EVEN_def and_one_eq even_iff_mod_2_eq_zero)

section \<open>Logarithms and powers of two\<close>

text \<open>
  \<open>__builtin_clz\<close> and \<open>__builtin_clzll\<close>: the number of leading zero bits; undefined for 0. In
  \<open>v_log2\<close> the 32-bit argument is first converted to 64 bits. A failed \<open>ASSERT\<close> is \<open>None\<close>, and so is the shift
  by 32 positions, which C leaves undefined.
\<close>

definition clz :: "nat \<Rightarrow> u32 \<Rightarrow> nat" where
  "clz width w = length (takeWhile (\<lambda>n. \<not> bit w n) (rev [0..<width]))"

definition v_log2 :: "u32 \<Rightarrow> u32 option" where
  "v_log2 v = (if v \<noteq> 0 then Some (of_nat ((8 * 8 - clz 64 v) - 1)) else None)"

definition shl1 :: "nat \<Rightarrow> u32 option" where
  "shl1 k = (if k < 32 then Some (push_bit k 1) else None)"

definition v_pow2_round_up :: "u32 \<Rightarrow> u32 option" where
  "v_pow2_round_up v = (if v \<noteq> 0 then if v = 1 then Some 1 else shl1 (32 - clz 32 (v - 1)) else None)"

definition v_pow2_round_down :: "u32 \<Rightarrow> u32 option" where
  "v_pow2_round_down v = (if v \<noteq> 0 then shl1 ((32 - clz 32 v) - 1) else None)"

text \<open>The variants of \<^verbatim>\<open>utils/internal/math.h\<close>, with their loops over constant tables as folds.\<close>

definition v_log2_internal :: "u32 \<Rightarrow> u32" where
  "v_log2_internal v =
     snd (foldl (\<lambda>(v, r) (b, s). if v AND b \<noteq> 0 then (drop_bit (unat s) v, r OR s) else (v, r)) (v, 0)
       [(0xFFFF0000, 16), (0xFF00, 8), (0xF0, 4), (0xC, 2), (0x2, 1 :: u32)])"

definition smear :: "u32 \<Rightarrow> u32" where
  "smear v = foldl (\<lambda>v shift_by. v OR drop_bit shift_by v) v [1, 2, 4, 8, 16]"

definition v_pow2_round_up_internal :: "u32 \<Rightarrow> u32" where
  "v_pow2_round_up_internal v = smear (v - 1) + 1"

definition v_pow2_round_down_internal :: "u32 \<Rightarrow> u32" where
  "v_pow2_round_down_internal v = (let v = smear v in v - drop_bit 1 v)"

subsection \<open>The position of the highest bit\<close>

lemma top_bit_exists:
  assumes "v \<noteq> (0 :: u32)"
  obtains l where "l < 32" "2 ^ l \<le> unat v" "unat v < 2 ^ Suc l"
proof -
  have "1 \<le> unat v" using assms by (simp add: Suc_leI unat_gt_0)
  then obtain l where l: "2 ^ l \<le> unat v" "unat v < 2 ^ (l + 1)" using ex_power_ivl1 [of 2 "unat v"] by auto
  have "(2 :: nat) ^ l < 2 ^ 32" by (rule le_less_trans [OF l(1) u32_lt])
  then have "l < 32" by (rule power_less_imp_less_exp [rotated]) simp
  with l that show ?thesis by simp
qed

lemma bit_unat: "bit (v :: u32) n \<longleftrightarrow> odd (unat v div 2 ^ n)"
proof -
  have "bit (unat v) n = bit v n" by (simp add: bit_unsigned_iff)
  then show ?thesis by (simp only: bit_iff_odd [of "unat v"])
qed

lemma top_bit:
  assumes "2 ^ l \<le> unat v" "unat (v :: u32) < 2 ^ Suc l"
  shows "bit v l" and "bit v n \<Longrightarrow> n \<le> l"
proof -
  have "unat v div 2 ^ l = 1" using assms by (intro div_nat_eqI) simp_all
  then show "bit v l" by (simp add: bit_unat)
  assume "bit v n"
  then have "unat v div 2 ^ n \<noteq> 0" by (metis bit_unat even_zero)
  then have "2 ^ n \<le> unat v" by (meson div_less not_le)
  then have "(2 :: nat) ^ n < 2 ^ Suc l" using assms(2) by (rule le_less_trans)
  then have "n < Suc l" by (rule power_less_imp_less_exp [rotated]) simp
  then show "n \<le> l" by simp
qed

text \<open>Folding the shifts copies the highest bit into every lower position.\<close>

lemma smear_step:
  assumes "\<And>n. bit w n \<longleftrightarrow> (\<exists>j < k. bit (v :: u32) (n + j))"
  shows "bit (w OR drop_bit k w) n \<longleftrightarrow> (\<exists>j < 2 * k. bit v (n + j))"
proof -
  have "bit (w OR drop_bit k w) n \<longleftrightarrow> (\<exists>j < k. bit v (n + j)) \<or> (\<exists>j < k. bit v (k + n + j))"
    by (simp add: bit_or_iff bit_drop_bit_eq assms)
  also have "\<dots> \<longleftrightarrow> (\<exists>j < 2 * k. bit v (n + j))"
  proof
    assume "(\<exists>j < k. bit v (n + j)) \<or> (\<exists>j < k. bit v (k + n + j))"
    then show "\<exists>j < 2 * k. bit v (n + j)"
      by (metis add.commute add.left_commute add_less_mono1 mult_2 trans_less_add2)
  next
    assume "\<exists>j < 2 * k. bit v (n + j)"
    then obtain j where j: "j < 2 * k" "bit v (n + j)" by blast
    show "(\<exists>j < k. bit v (n + j)) \<or> (\<exists>j < k. bit v (k + n + j))"
    proof (cases "j < k")
      case False
      then have "j - k < k" "k + n + (j - k) = n + j" using j(1) by simp_all
      with j(2) show ?thesis by metis
    qed (use j in blast)
  qed
  finally show ?thesis .
qed

lemma bit_smear: "bit (smear v) n \<longleftrightarrow> (\<exists>m \<ge> n. bit v m)"
proof -
  have s0: "bit v n \<longleftrightarrow> (\<exists>j < 1. bit v (n + j))" for n by simp
  note s1 = smear_step [of v 1 v, OF s0]
  note s2 = smear_step [of _ "2 * 1" v, OF s1]
  note s4 = smear_step [of _ "2 * (2 * 1)" v, OF s2]
  note s8 = smear_step [of _ "2 * (2 * (2 * 1))" v, OF s4]
  note s16 = smear_step [of _ "2 * (2 * (2 * (2 * 1)))" v, OF s8]
  have "bit (smear v) n \<longleftrightarrow> (\<exists>j < 32. bit v (n + j))"
    using s16 [of n] by (simp add: smear_def)
  also have "\<dots> \<longleftrightarrow> (\<exists>m \<ge> n. bit v m)"
  proof
    assume "\<exists>m \<ge> n. bit v m"
    then obtain m where m: "n \<le> m" "bit v m" by blast
    then have "m - n < 32" using bit_imp_le_length [OF m(2)] by simp
    with m show "\<exists>j < 32. bit v (n + j)" by (metis le_add_diff_inverse)
  qed (meson le_add1)
  finally show ?thesis .
qed

lemma smear_mask:
  assumes "l < 32" "2 ^ l \<le> unat v" "unat (v :: u32) < 2 ^ Suc l"
  shows "smear v = mask (Suc l)"
proof (rule bit_word_eqI)
  fix n assume "n < LENGTH(32)"
  then show "bit (smear v) n = bit (mask (Suc l) :: u32) n"
    using top_bit [OF assms(2,3)] by (auto simp: bit_smear bit_mask_iff less_Suc_eq_le intro: order_trans)
qed

lemma clz_top:
  assumes "l < width" "2 ^ l \<le> unat v" "unat (v :: u32) < 2 ^ Suc l"
  shows "clz width v = width - Suc l"
proof -
  have "rev [0..<width] = rev [Suc l..<width] @ l # rev [0..<l]"
  proof -
    have "[0..<width] = [0..<l] @ l # [Suc l..<width]" 
      using upt_add_eq_append [of 0 l "width - l"] upt_conv_Cons [OF assms(1)] assms(1) by simp
    then show ?thesis by simp
  qed
  moreover have "\<not> bit v n" if "n \<in> set (rev [Suc l..<width])" for n
    using top_bit(2) [OF assms(2,3), of n] that by auto
  ultimately have "takeWhile (\<lambda>n. \<not> bit v n) (rev [0..<width]) = rev [Suc l..<width]"
    using top_bit(1) [OF assms(2,3)] takeWhile_append2 [of "rev [Suc l..<width]" "\<lambda>n. \<not> bit v n"] by simp
  then show ?thesis by (simp add: clz_def)
qed

subsection \<open>Both variants of the logarithm and of rounding\<close>

lemma log_table_test:
  assumes "unat (v :: u32) < 2 ^ (2 * S)" and "2 * S \<le> 32"
  shows "v AND push_bit S (mask S) \<noteq> 0 \<longleftrightarrow> 2 ^ S \<le> unat v"
proof
  assume "v AND push_bit S (mask S) \<noteq> 0"
  then obtain n where "bit (v AND push_bit S (mask S)) n" by (metis bit_0_eq bit_eq_iff bot_apply bot_bool_def)
  then have n: "bit v n" "S \<le> n" by (auto simp: bit_and_iff bit_push_bit_iff)
  then have "v \<noteq> 0" by auto
  then obtain l where l: "2 ^ l \<le> unat v" "unat v < 2 ^ Suc l" using top_bit_exists by blast
  from n top_bit(2) [OF l n(1)] have "(2 :: nat) ^ S \<le> 2 ^ l" by (intro power_increasing) simp_all
  with l(1) show "2 ^ S \<le> unat v" by (rule order_trans [rotated])
next
  assume S: "2 ^ S \<le> unat v"
  then have "v \<noteq> 0" by auto
  then obtain l where l: "l < 32" "2 ^ l \<le> unat v" "unat v < 2 ^ Suc l" using top_bit_exists by blast
  have "(2 :: nat) ^ S < 2 ^ Suc l" by (rule le_less_trans [OF S l(3)])
  then have 1: "S \<le> l" by (metis less_Suc_eq_le power_less_imp_less_exp one_less_numeral_iff semiring_norm(76))
  have "(2 :: nat) ^ l < 2 ^ (2 * S)" by (rule le_less_trans [OF l(2) assms(1)])
  then have 2: "l < 2 * S" by (metis power_less_imp_less_exp one_less_numeral_iff semiring_norm(76))
  have "bit (v AND push_bit S (mask S)) l"
    using 1 2 l(1) top_bit(1) [OF l(2,3)] by (simp add: bit_and_iff bit_push_bit_iff bit_mask_iff) arith
  then show "v AND push_bit S (mask S) \<noteq> 0" by (metis bit_0_eq bot_apply bot_bool_def)
qed

definition log_state :: "u32 \<Rightarrow> nat \<Rightarrow> u32 list \<Rightarrow> u32 \<times> u32 \<Rightarrow> bool" where
  "log_state x W rs vr \<longleftrightarrow> unat (fst vr) = unat x div 2 ^ unat (snd vr) \<and> fst vr \<noteq> 0 \<and>
     unat (fst vr) < 2 ^ W \<and> snd vr \<in> set rs"

definition log_step :: "u32 \<times> u32 \<Rightarrow> u32 \<times> u32 \<Rightarrow> u32 \<times> u32" where
  "log_step = (\<lambda>(v, r) (b, s). if v AND b \<noteq> 0 then (drop_bit (unat s) v, r OR s) else (v, r))"

lemma log_state_step:
  assumes "log_state x (2 * S) rs vr" and "b = push_bit S (mask S)" and "unat s = S" and "2 * S \<le> 32"
    and "list_all (\<lambda>r. unat (r OR s) = unat r + S) rs"
  shows "log_state x S (rs @ map (\<lambda>r. r OR s) rs) (log_step vr (b, s))"
proof -
  obtain v r where vr: "vr = (v, r)" by fastforce
  have inv: "unat v = unat x div 2 ^ unat r" "v \<noteq> 0" "unat v < 2 ^ (2 * S)" "r \<in> set rs"
    using assms(1) by (simp_all add: log_state_def vr)
  have test: "v AND b \<noteq> 0 \<longleftrightarrow> 2 ^ S \<le> unat v"
    unfolding assms(2) using inv(3) assms(4) by (rule log_table_test)
  show ?thesis
  proof (cases "v AND b \<noteq> 0")
    case True
    have d: "unat (drop_bit (unat s) v) = unat v div 2 ^ S" unfolding assms(3)
      by (subst unat_drop_bit_eq) (rule drop_bit_eq_div)
    have "unat v < 2 ^ S * 2 ^ S" using inv(3) by (simp add: mult_2 power_add)
    then have "unat v div 2 ^ S < 2 ^ S" by (rule less_mult_imp_div_less)
    moreover have "unat v div 2 ^ S > 0" using True test by (simp add: div_greater_zero_iff)
    then have "drop_bit (unat s) v \<noteq> 0" using d by (metis less_irrefl unsigned_0)
    moreover have "unat v div 2 ^ S = unat x div 2 ^ unat (r OR s)"
      using inv(1,4) assms(5) by (simp add: list_all_iff power_add div_mult2_eq)
    ultimately show ?thesis using True inv(4) d by (simp add: log_state_def log_step_def vr)
  next
    case False
    with test inv show ?thesis by (simp add: log_state_def log_step_def vr)
  qed
qed

lemma v_log2_internal_top:
  assumes "v \<noteq> 0"
  shows "2 ^ unat (v_log2_internal v) \<le> unat v \<and> unat v < 2 ^ Suc (unat (v_log2_internal v))"
proof -
  have "log_state v (2 * 16) [0] (v, 0)" using assms u32_lt [of v] by (simp add: log_state_def)
  from log_state_step [OF this, of "0xFFFF0000" "16"]
  have 1: "log_state v (2 * 8) [0, 16] (log_step (v, 0) (0xFFFF0000, 16))" by (simp add: mask_eq_exp_minus_1)
  from log_state_step [OF this, of "0xFF00" "8"]
  have 2: "log_state v (2 * 4) [0, 16, 8, 24] (log_step (log_step (v, 0) (0xFFFF0000, 16)) (0xFF00, 8))"
    by (simp add: mask_eq_exp_minus_1)
  define w where "w = log_step (log_step (v, 0) (0xFFFF0000, 16)) (0xFF00, 8)"
  from log_state_step [OF 2 [folded w_def], of "0xF0" "4"]
  have 3: "log_state v (2 * 2) [0, 16, 8, 24, 4, 20, 12, 28] (log_step w (0xF0, 4))"
    by (simp add: mask_eq_exp_minus_1)
  from log_state_step [OF 3, of "0xC" "2"]
  have 4: "log_state v (2 * 1) [0, 16, 8, 24, 4, 20, 12, 28, 2, 18, 10, 26, 6, 22, 14, 30] (log_step (log_step w (0xF0, 4)) (0xC, 2))"
    by (simp add: mask_eq_exp_minus_1)
  define z where "z = log_step (log_step (log_step w (0xF0, 4)) (0xC, 2)) (0x2, 1)"
  from log_state_step [OF 4, of "0x2" "1", folded z_def]
  have "\<exists>rs. log_state v 1 rs z" by (auto simp: mask_eq_exp_minus_1)
  then have "unat (fst z) = 1" "unat (fst z) = unat v div 2 ^ unat (snd z)"
    by (auto simp: log_state_def less_2_cases_iff unat_eq_0)
  moreover have "v_log2_internal v = snd z"
    by (simp add: v_log2_internal_def z_def w_def log_step_def)
  ultimately have "unat v div 2 ^ unat (v_log2_internal v) = 1" by simp
  moreover have "0 < (2 :: nat) ^ unat (v_log2_internal v)" by simp
  ultimately show ?thesis
    using div_mult_mod_eq [of "unat v" "2 ^ unat (v_log2_internal v)"] mod_less_divisor [of "2 ^ unat (v_log2_internal v)" "unat v"]
    by (metis add_less_cancel_left le_add1 mult_1 mult_2 power_Suc)
qed

lemma top_bit_unique:
  assumes "2 ^ l \<le> n" "n < 2 ^ Suc l" "2 ^ m \<le> n" "n < (2 :: nat) ^ Suc m"
  shows "l = m"
proof -
  have "(2 :: nat) ^ l < 2 ^ Suc m" "(2 :: nat) ^ m < 2 ^ Suc l" using assms by (meson le_less_trans)+
  then have "l < Suc m" "m < Suc l"
    using power_less_imp_less_exp [of "2 :: nat" l "Suc m"] power_less_imp_less_exp [of "2 :: nat" m "Suc l"] by simp_all
  then show ?thesis by simp
qed

lemma unat_pow2: "l < 32 \<Longrightarrow> unat (2 ^ l :: u32) = 2 ^ l"
proof -
  assume "l < 32"
  then have "(2 :: nat) ^ l < 2 ^ 32" by (intro power_strict_increasing) simp_all
  moreover have "(2 ^ l :: u32) = of_nat (2 ^ l)" by simp
  ultimately show ?thesis by (simp only: unat_of_nat) simp
qed

lemma round_down_top:
  assumes "l < 32" "2 ^ l \<le> unat v" "unat (v :: u32) < 2 ^ Suc l"
  shows "v_pow2_round_down_internal v = 2 ^ l" and "v_pow2_round_down v = Some (2 ^ l)"
proof -
  have "drop_bit 1 (mask (Suc l) :: u32) = mask l"
    using assms(1) by (auto simp: bit_eq_iff bit_drop_bit_eq bit_mask_iff)
  then show "v_pow2_round_down_internal v = 2 ^ l"
    by (simp add: v_pow2_round_down_internal_def Let_def smear_mask [OF assms] mask_Suc_double mask_eq_exp_minus_1)
  have "v \<noteq> 0" using assms(2) by auto
  then show "v_pow2_round_down v = Some (2 ^ l)"
    using assms(1) clz_top [OF assms] by (simp add: v_pow2_round_down_def shl1_def push_bit_eq_mult)
qed

lemma round_up_top:
  assumes "l < 32" "2 ^ l \<le> unat (v - 1)" "unat (v - 1 :: u32) < 2 ^ Suc l"
  shows "v_pow2_round_up_internal v = 2 ^ Suc l"
    and "v \<noteq> 0 \<Longrightarrow> v_pow2_round_up v = (if Suc l < 32 then Some (2 ^ Suc l) else None)"
proof -
  show "v_pow2_round_up_internal v = 2 ^ Suc l"
    by (simp add: v_pow2_round_up_internal_def smear_mask [OF assms] mask_eq_exp_minus_1)
  have "v \<noteq> 1" using assms(2) by auto
  then show "v \<noteq> 0 \<Longrightarrow> v_pow2_round_up v = (if Suc l < 32 then Some (2 ^ Suc l) else None)"
    using assms(1) clz_top [OF assms] by (simp add: v_pow2_round_up_def shl1_def push_bit_eq_mult)
qed

text \<open>
  C40. The two implementations of the helpers agree, and compute what they are for: for \<open>v \<noteq> 0\<close> both
  logarithms are the position of the highest set bit and both roundings down the largest power of two up
  to \<open>v\<close>; for \<open>0 < v \<le> 2^31\<close> both roundings up are the smallest power of two from \<open>v\<close> on. Beyond
  \<open>2^31\<close> they differ: the built-in variant shifts out of range, the other one returns 0.
\<close>

theorem vmath_variants_agree:
  assumes "v \<noteq> (0 :: u32)"
  shows "v_log2 v = Some (v_log2_internal v) \<and>
    2 ^ unat (v_log2_internal v) \<le> unat v \<and> unat v < 2 * 2 ^ unat (v_log2_internal v) \<and>
    v_pow2_round_down v = Some (v_pow2_round_down_internal v) \<and>
    unat (v_pow2_round_down_internal v) = 2 ^ unat (v_log2_internal v) \<and>
    (if unat v \<le> 2 ^ 31
     then v_pow2_round_up v = Some (v_pow2_round_up_internal v) \<and> unat v \<le> unat (v_pow2_round_up_internal v) \<and>
       unat (v_pow2_round_up_internal v) < 2 * unat v \<and> (\<exists>k. unat (v_pow2_round_up_internal v) = 2 ^ k)
     else v_pow2_round_up v = None \<and> v_pow2_round_up_internal v = 0)"
proof -
  obtain l where l: "l < 32" "2 ^ l \<le> unat v" "unat v < 2 ^ Suc l" using top_bit_exists [OF assms] by blast
  have log: "unat (v_log2_internal v) = l"
    using v_log2_internal_top [OF assms] l(2,3) by (metis top_bit_unique)
  then have "v_log2_internal v = of_nat l" by (simp flip: log)
  moreover have "clz 64 v = 64 - Suc l" using l by (intro clz_top) simp_all
  ultimately have 1: "v_log2 v = Some (v_log2_internal v)" using assms l(1) by (simp add: v_log2_def)
  have 2: "v_pow2_round_down v = Some (v_pow2_round_down_internal v)" "unat (v_pow2_round_down_internal v) = 2 ^ l"
    using round_down_top [OF l] l(1) by (simp_all add: unat_pow2)
  have 3: "if unat v \<le> 2 ^ 31
     then v_pow2_round_up v = Some (v_pow2_round_up_internal v) \<and> unat v \<le> unat (v_pow2_round_up_internal v) \<and>
       unat (v_pow2_round_up_internal v) < 2 * unat v \<and> (\<exists>k. unat (v_pow2_round_up_internal v) = 2 ^ k)
     else v_pow2_round_up v = None \<and> v_pow2_round_up_internal v = 0"
  proof (cases "v = 1")
    case True
    have "v_pow2_round_up_internal 1 = 1" by (simp add: v_pow2_round_up_internal_def smear_def)
    with True show ?thesis by (auto simp: v_pow2_round_up_def intro: exI [of _ 0])
  next
    case False
    then have "v - 1 \<noteq> 0" by simp
    then obtain k where k: "k < 32" "2 ^ k \<le> unat (v - 1)" "unat (v - 1) < 2 ^ Suc k" using top_bit_exists by blast
    have v: "unat (v - 1) = unat v - 1" using assms by (simp add: unat_minus_one)
    show ?thesis
    proof (cases "Suc k < 32")
      case True
      then have "unat (2 ^ Suc k :: u32) = 2 ^ Suc k" by (rule unat_pow2)
      moreover have "(2 :: nat) ^ Suc k \<le> 2 ^ 31" using True by (intro power_increasing) simp_all
      moreover have "\<exists>i. (2 :: nat) ^ Suc k = 2 ^ i" by blast
      ultimately show ?thesis using round_up_top [OF k] True k v assms by (auto simp: unat_eq_0)
    next
      case False
      then have "k = 31" using k(1) by simp
      with round_up_top [OF k] k v assms show ?thesis by simp
    qed
  qed
  from 1 2 3 log l(2,3) show ?thesis by simp
qed

theorem vmath_variants_agree_witness:
  "v_log2 100 = Some (v_log2_internal 100) \<and> unat (v_pow2_round_down_internal 100) = 2 ^ unat (v_log2_internal 100) \<and>
   v_pow2_round_up 100 = Some (v_pow2_round_up_internal 100)"
proof -
  have "(100 :: u32) \<noteq> 0" by simp
  from vmath_variants_agree [OF this] show ?thesis by simp
qed

subsection \<open>Powers of two\<close>

lemma V_IS_POWER_OF_TWO_iff: "V_IS_POWER_OF_TWO v \<longleftrightarrow> (\<exists>k < 32. v = 2 ^ k)"
proof
  assume p: "V_IS_POWER_OF_TWO v"
  then have "v \<noteq> 0" by (simp add: V_IS_POWER_OF_TWO_def)
  then obtain l where l: "l < 32" "2 ^ l \<le> unat v" "unat v < 2 ^ Suc l" using top_bit_exists by blast
  have "unat v = 2 ^ l"
  proof (rule ccontr)
    assume "unat v \<noteq> 2 ^ l"
    then have "2 ^ l \<le> unat (v - 1)" "unat (v - 1) < 2 ^ Suc l" using l \<open>v \<noteq> 0\<close> by (simp_all add: unat_minus_one)
    from top_bit(1) [OF this] top_bit(1) [OF l(2,3)] have "bit (v AND (v - 1)) l" by (simp add: bit_and_iff)
    with p show False by (simp add: V_IS_POWER_OF_TWO_def)
  qed
  then have "v = 2 ^ l" using unat_pow2 [OF l(1)] by (metis word_unat_eq_iff)
  with l(1) show "\<exists>k < 32. v = 2 ^ k" by blast
next
  assume "\<exists>k < 32. v = 2 ^ k"
  then obtain k where k: "k < 32" "v = 2 ^ k" by blast
  have "v - 1 = mask k" by (simp add: k mask_eq_exp_minus_1)
  have "\<not> bit (v AND mask k) n" for n by (auto simp: k bit_and_iff bit_mask_iff bit_exp_iff)
  then have "v AND (v - 1) = 0" using \<open>v - 1 = mask k\<close> by (metis bit_0_eq bit_eq_iff bot_apply bot_bool_def)
  moreover have "v \<noteq> 0" using unat_pow2 [OF k(1)] k(2) by (metis power_eq_0_iff unsigned_0 zero_neq_numeral)
  ultimately show "V_IS_POWER_OF_TWO v" by (simp add: V_IS_POWER_OF_TWO_def)
qed

lemma V_MOD_POWER_OF_TWO_eq: "V_MOD_POWER_OF_TWO n p = n mod p"
proof (cases "V_IS_POWER_OF_TWO p")
  case True
  then obtain k where "k < 32" "p = 2 ^ k" by (auto simp: V_IS_POWER_OF_TWO_iff)
  moreover have "n AND mask k = n mod 2 ^ k" by (simp flip: take_bit_eq_mask take_bit_eq_mod)
  ultimately show ?thesis using True by (simp add: V_MOD_POWER_OF_TWO_def mask_eq_exp_minus_1)
qed (simp add: V_MOD_POWER_OF_TWO_def)

end
