(* ===== verification/Arraylock.thy ===== *)
theory Arraylock
  imports Lock_Client Vmath
begin

text \<open>
  The array lock, \<^verbatim>\<open>spinlock/arraylock.h\<close>: a circular array of flags, one per waiting thread, and an
  8-bit index that wraps around. The lock is fair as long as the array has at most 256 flags and no more
  threads than flags use it; a larger array is accepted by \<open>arraylock_init\<close>, but the lock then stops working.
\<close>

section \<open>Operations\<close>

definition vatomic8_read :: "u8 \<Rightarrow> u8" where
  "vatomic8_read a = a"

definition vatomic8_write :: "u8 \<Rightarrow> u8 \<Rightarrow> u8" where
  "vatomic8_write a v = v"

definition vatomic8_get_add :: "u8 \<Rightarrow> u8 \<Rightarrow> u8 \<times> u8" where
  "vatomic8_get_add a v = (a, a + v)"

definition vatomic8_get_inc :: "u8 \<Rightarrow> u8 \<times> u8" where
  "vatomic8_get_inc a = vatomic8_get_add a 1"

definition vatomic8_init :: "u8 \<Rightarrow> u8 \<Rightarrow> u8" where
  "vatomic8_init a v = vatomic8_write a v"

lemmas [vatomic_simps] = vatomic8_read_def vatomic8_write_def vatomic8_get_add_def vatomic8_get_inc_def vatomic8_init_def

record arraylock_t =
  al_tail :: u8
  al_flags :: "u8 list"
  al_flags_len :: u32

text \<open>\<open>None\<close> is a failed \<open>ASSERT\<close>. The caller provides an array of \<open>len\<close> flags with any content.\<close>

definition arraylock_init :: "u8 list \<Rightarrow> u32 \<Rightarrow> arraylock_t option" where
  "arraylock_init flags len =
     (if len > 0 \<and> V_IS_POWER_OF_TWO len then
        Some \<lparr>al_tail = vatomic8_init 0 0,
          al_flags = fold (\<lambda>i fs. fs[i := vatomic8_init (fs ! i) 0]) [1..<unat len] (flags[0 := vatomic8_init (flags ! 0) 1]),
          al_flags_len = len\<rparr>
      else None)"

text \<open>The lock and the variable in which each caller keeps its slot.\<close>

record arr_mem =
  arr_lock :: arraylock_t
  arr_slot :: "tid \<Rightarrow> u32"

datatype arr_acq_pc = ArrTail | ArrAwait

fun arraylock_acquire :: "arr_acq_pc \<Rightarrow> tid \<Rightarrow> arr_mem \<Rightarrow> ((arr_acq_pc + unit) \<times> arr_mem) option" where
  "arraylock_acquire ArrTail t m =
     (let (tail, a) = vatomic8_get_inc (al_tail (arr_lock m))
      in Some (Inl ArrAwait, m\<lparr>arr_lock := (arr_lock m)\<lparr>al_tail := a\<rparr>,
           arr_slot := (arr_slot m)(t := ucast tail mod al_flags_len (arr_lock m))\<rparr>))"
| "arraylock_acquire ArrAwait t m =
     (if vatomic8_read (al_flags (arr_lock m) ! unat (arr_slot m t)) = 0 then None else Some (Inr (), m))"

definition arr_set_flag :: "u32 \<Rightarrow> u8 \<Rightarrow> arr_mem \<Rightarrow> arr_mem" where
  "arr_set_flag i v m = m\<lparr>arr_lock := (arr_lock m)
     \<lparr>al_flags := (al_flags (arr_lock m))[unat i := vatomic8_write (al_flags (arr_lock m) ! unat i) v]\<rparr>\<rparr>"

datatype arr_rel_pc = ArrClear | ArrGrant

fun arraylock_release :: "arr_rel_pc \<Rightarrow> tid \<Rightarrow> arr_mem \<Rightarrow> ((arr_rel_pc + unit) \<times> arr_mem) option" where
  "arraylock_release ArrClear t m = Some (Inl ArrGrant, arr_set_flag (arr_slot m t) 0 m)"
| "arraylock_release ArrGrant t m =
     (let nxt = (arr_slot m t + 1) mod al_flags_len (arr_lock m) in Some (Inr (), arr_set_flag nxt 1 m))"

section \<open>Threads that use one lock\<close>

definition arr_ops :: "(arr_acq_pc, unit, arr_rel_pc, arr_mem) lock_ops" where
  "arr_ops = \<lparr>op_acquire = arraylock_acquire, op_acquire_start = ArrTail,
     op_tryacquire = (\<lambda>_ _ _. None), op_tryacquire_start = (),
     op_release = arraylock_release, op_release_start = ArrClear\<rparr>"

type_synonym arr_sys = "(arr_acq_pc, unit, arr_rel_pc, arr_mem) lock_sys"

fun arr_step :: "nat \<Rightarrow> lock_label \<Rightarrow> arr_sys \<Rightarrow> arr_sys option" where
  "arr_step N (t, cmd) s = (if t < N then cl_step arr_ops (t, cmd) s else None)"

definition arr_start :: "arraylock_t \<Rightarrow> arr_sys" where
  "arr_start l = cl_start \<lparr>arr_lock = l, arr_slot = (\<lambda>_. 0)\<rparr>"

lemmas arr_simps = arr_set_flag_def arr_start_def cl_start_def vatomic_simps

lemma fold_clear_flags:
  fixes fs :: "u8 list"
  shows "length (fold (\<lambda>i fs. fs[i := 0]) is fs) = length fs"
    and "j < length fs \<Longrightarrow> fold (\<lambda>i fs. fs[i := 0]) is fs ! j = (if j \<in> set is then 0 else fs ! j)"
  by (induction "is" arbitrary: fs) (auto simp: nth_list_update)

lemma arraylock_init_flags:
  assumes "arraylock_init flags len = Some l" and "length flags = unat len"
  shows "al_tail l = 0" "al_flags_len l = len" "length (al_flags l) = unat len" "len > 0"
    "j < unat len \<Longrightarrow> al_flags l ! j = (if j = 0 then 1 else 0)" "V_IS_POWER_OF_TWO len"
  using assms
  by (auto simp: arraylock_init_def fold_clear_flags nth_list_update vatomic_simps word_less_nat_alt split: if_splits)

section \<open>The queue of slots\<close>

type_synonym arr_client_pc = "(arr_acq_pc, unit, arr_rel_pc) client_pc"

fun arr_inside :: "arr_client_pc \<Rightarrow> bool" where
  "arr_inside ClCrit = True" | "arr_inside (ClRel _) = True" | "arr_inside _ = False"

fun arr_queued :: "arr_client_pc \<Rightarrow> bool" where
  "arr_queued (ClAcq ArrAwait) = True" | "arr_queued pc = arr_inside pc"

text \<open>
  After \<open>k\<close> releases the \<open>i\<close>-th thread of the queue has slot \<open>k + i\<close> modulo the length \<open>n\<close> of the array.
  Only the flag of the first slot is set, and none while the lock is handed over.
\<close>

definition arr_slots :: "nat \<Rightarrow> nat \<Rightarrow> arr_sys \<Rightarrow> tid list \<Rightarrow> bool" where
  "arr_slots n k s q \<longleftrightarrow> al_tail (arr_lock (ls_mem s)) = of_nat (k + length q) \<and>
     (\<forall>i < length q. unat (arr_slot (ls_mem s) (q ! i)) = (k + i) mod n) \<and>
     (\<forall>j < n. al_flags (arr_lock (ls_mem s)) ! j =
        (if j = k mod n \<and> \<not> (q \<noteq> [] \<and> ls_pcs s (hd q) = ClRel ArrGrant) then 1 else 0))"

definition arr_queue :: "nat \<Rightarrow> arr_sys \<Rightarrow> tid list \<Rightarrow> bool" where
  "arr_queue N s q \<longleftrightarrow> distinct q \<and> (\<forall>t. t \<in> set q \<longleftrightarrow> arr_queued (ls_pcs s t)) \<and> set q \<subseteq> {..<N} \<and>
     (\<forall>t. arr_inside (ls_pcs s t) \<longrightarrow> q \<noteq> [] \<and> t = hd q)"

definition arr_inv :: "nat \<Rightarrow> nat \<Rightarrow> nat \<Rightarrow> arr_sys \<Rightarrow> tid list \<Rightarrow> bool" where
  "arr_inv N n k s q \<longleftrightarrow> unat (al_flags_len (arr_lock (ls_mem s))) = n \<and> length (al_flags (arr_lock (ls_mem s))) = n \<and>
     arr_queue N s q \<and> arr_slots n k s q"

lemma arr_queueD:
  assumes "arr_queue N s q"
  shows "distinct q" "t \<in> set q \<longleftrightarrow> arr_queued (ls_pcs s t)" "t \<in> set q \<Longrightarrow> t < N" "length q \<le> N"
    "arr_inside (ls_pcs s t) \<Longrightarrow> q \<noteq> [] \<and> t = hd q"
proof -
  have "card (set q) \<le> card {..<N}" using assms by (intro card_mono) (auto simp: arr_queue_def)
  then show "length q \<le> N" using assms by (simp add: arr_queue_def distinct_card)
qed (use assms in \<open>auto simp: arr_queue_def\<close>)

lemma arr_invD:
  assumes "arr_inv N n k s q"
  shows "arr_queue N s q" "unat (al_flags_len (arr_lock (ls_mem s))) = n" "length (al_flags (arr_lock (ls_mem s))) = n"
    "al_tail (arr_lock (ls_mem s)) = of_nat (k + length q)"
    "i < length q \<Longrightarrow> unat (arr_slot (ls_mem s) (q ! i)) = (k + i) mod n"
    "j < n \<Longrightarrow> al_flags (arr_lock (ls_mem s)) ! j =
        (if j = k mod n \<and> \<not> (q \<noteq> [] \<and> ls_pcs s (hd q) = ClRel ArrGrant) then 1 else 0)"
  using assms by (auto simp: arr_inv_def arr_slots_def)

lemma slot_of_u8:
  assumes "n dvd 256" and "unat len = n"
  shows "unat (ucast (of_nat i :: u8) mod len :: u32) = i mod n"
proof -
  have "unat (ucast (of_nat i :: u8) :: u32) = i mod 256" 
    by (simp add: unsigned_ucast_eq unat_of_nat take_bit_eq_mod)
  then show ?thesis using assms by (simp add: unat_mod_distrib mod_mod_cancel)
qed

lemma next_slot:
  assumes "0 < n" "n dvd 256" and "unat len = n" and "unat slot = i mod n"
  shows "unat ((slot + 1) mod len :: u32) = Suc i mod n"
proof -
  have n: "n \<le> 256" using assms(2) by (simp add: dvd_imp_le)
  have "unat slot < n" using assms(1,4) by simp
  then have "unat (slot + 1) = unat slot + 1" using n unat_add_of_nat [of slot 1] by simp
  then show ?thesis using assms(3,4) by (simp add: unat_mod_distrib mod_Suc_eq)
qed

lemma arr_awaiting_head:
  assumes inv: "arr_inv N n k s q" and n: "N \<le> n" "0 < n" and pc: "ls_pcs s t = ClAcq ArrAwait"
    and flag: "al_flags (arr_lock (ls_mem s)) ! unat (arr_slot (ls_mem s) t) \<noteq> 0"
  shows "q \<noteq> [] \<and> t = hd q"
proof -
  note Q = arr_invD(1) [OF inv]
  have "t \<in> set q" using arr_queueD(2) [OF Q, of t] pc by simp
  then obtain i where i: "i < length q" "q ! i = t" by (auto simp: in_set_conv_nth)
  have "unat (arr_slot (ls_mem s) t) = (k + i) mod n" using arr_invD(5) [OF inv i(1)] i(2) by simp
  moreover have "(k + i) mod n = k mod n"
    using flag calculation arr_invD(6) [OF inv, of "(k + i) mod n"] n by (auto split: if_splits)
  ultimately have "k = k + i" using window_mod_inj [of k n "k + i"] i arr_queueD(4) [OF Q] n by simp
  with i show ?thesis by (cases q) auto
qed

lemma arr_inv_join:
  assumes inv: "arr_inv N n k s q" and n: "n dvd 256" and t: "t < N" "\<not> arr_queued (ls_pcs s t)"
    and step: "arraylock_acquire ArrTail t (ls_mem s) = Some (r, m)"
  shows "r = Inl ArrAwait \<and> arr_inv N n k (cl_goto s t (ClAcq ArrAwait) m) (q @ [t])" (is "_ \<and> arr_inv N n k ?s _")
proof -
  note Q = arr_invD(1) [OF inv]
  have nt: "t \<notin> set q" using arr_queueD(2) [OF Q, of t] t by simp
  have r: "r = Inl ArrAwait" and sel: "al_tail (arr_lock m) = of_nat (k + length q) + 1"
    "al_flags (arr_lock m) = al_flags (arr_lock (ls_mem s))" "al_flags_len (arr_lock m) = al_flags_len (arr_lock (ls_mem s))"
    "arr_slot m = (arr_slot (ls_mem s))(t := ucast (of_nat (k + length q) :: u8) mod al_flags_len (arr_lock (ls_mem s)))"
    using step arr_invD(4) [OF inv] by (auto simp: vatomic_simps)
  have "arr_inside (ls_pcs s t) = False" using t by (cases "ls_pcs s t" rule: arr_queued.cases) auto
  then have "arr_queue N ?s (q @ [t])"
    using arr_queueD(1,2,3,5) [OF Q] nt t by (auto simp: arr_queue_def)
  moreover have "arr_slots n k ?s (q @ [t])"
  proof -
    have "unat (arr_slot (ls_mem ?s) ((q @ [t]) ! i)) = (k + i) mod n" if i: "i < length (q @ [t])" for i
    proof (cases "i < length q")
      case True
      then have "q ! i \<noteq> t" using nt by (auto simp: in_set_conv_nth)
      with True arr_invD(5) [OF inv True] sel show ?thesis by (simp add: nth_append)
    next
      case False
      with i have "i = length q" by simp
      with sel slot_of_u8 [OF n arr_invD(2) [OF inv], of "k + length q"] show ?thesis by (simp add: nth_append del: of_nat_add)
    qed
    moreover have "(q @ [t] \<noteq> [] \<and> ls_pcs ?s (hd (q @ [t])) = ClRel ArrGrant) \<longleftrightarrow> (q \<noteq> [] \<and> ls_pcs s (hd q) = ClRel ArrGrant)"
      using nt by (cases q) auto
    ultimately show ?thesis using arr_invD(6) [OF inv] sel by (simp add: arr_slots_def)
  qed
  ultimately show ?thesis using r arr_invD(2,3) [OF inv] sel by (simp add: arr_inv_def)
qed

lemma arr_inv_front:
  assumes inv: "arr_inv N n k s q" and t: "q \<noteq> []" "t = hd q" and pc: "arr_inside pc" "ls_pcs s t \<noteq> ClRel ArrGrant"
    and m: "al_tail (arr_lock m) = al_tail (arr_lock (ls_mem s))" "al_flags_len (arr_lock m) = al_flags_len (arr_lock (ls_mem s))"
      "length (al_flags (arr_lock m)) = n" "arr_slot m = arr_slot (ls_mem s)"
      "\<And>j. j < n \<Longrightarrow> al_flags (arr_lock m) ! j = (if j = k mod n \<and> pc \<noteq> ClRel ArrGrant then 1 else 0)"
  shows "arr_inv N n k (cl_goto s t pc m) q"
proof -
  note Q = arr_invD(1) [OF inv]
  have "arr_queued pc" using pc(1) by (cases pc) auto
  moreover have "arr_queued (ls_pcs s t)" using arr_queueD(2) [OF Q, of t] t by simp
  ultimately have "arr_queue N (cl_goto s t pc m) q"
    using arr_queueD(1,2,3,5) [OF Q] t by (auto simp: arr_queue_def)
  moreover have "arr_slots n k (cl_goto s t pc m) q"
    using arr_invD(4,5) [OF inv] t m by (auto simp: arr_slots_def)
  ultimately show ?thesis using arr_invD(2) [OF inv] m by (simp add: arr_inv_def)
qed

lemma arr_inv_leave:
  assumes inv: "arr_inv N n k s q" and n: "n dvd 256" "0 < n" and pc: "ls_pcs s t = ClRel ArrGrant"
    and step: "arraylock_release ArrGrant t (ls_mem s) = Some (r, m)"
  shows "r = Inr () \<and> q \<noteq> [] \<and> t = hd q \<and> arr_inv N n (Suc k) (cl_goto s t ClIdle m) (tl q)"
proof -
  note Q = arr_invD(1) [OF inv]
  let ?s = "cl_goto s t ClIdle m" and ?f = "al_flags (arr_lock (ls_mem s))"
  have t: "q \<noteq> []" "t = hd q" using arr_queueD(5) [OF Q, of t] pc by auto
  have "unat (arr_slot (ls_mem s) t) = k mod n" using arr_invD(5) [OF inv, of 0] t by (simp add: hd_conv_nth)
  note nxt = next_slot [OF n(2,1) arr_invD(2) [OF inv] this]
  have r: "r = Inr ()" and sel: "al_tail (arr_lock m) = al_tail (arr_lock (ls_mem s))"
    "al_flags_len (arr_lock m) = al_flags_len (arr_lock (ls_mem s))" "arr_slot m = arr_slot (ls_mem s)"
    "al_flags (arr_lock m) = ?f[Suc k mod n := 1]"
    using step nxt by (auto simp: arr_simps Let_def)
  have one: "\<not> arr_inside (ls_pcs s u)" if "u \<noteq> t" for u using arr_queueD(5) [OF Q, of u] that t by auto
  then have "arr_queue N ?s (tl q)"
    using arr_queueD(1,2,3) [OF Q] hd_tl_set [OF arr_queueD(1) [OF Q]] t by (auto simp: arr_queue_def distinct_tl)
  moreover have "arr_slots n (Suc k) ?s (tl q)"
  proof -
    have "unat (arr_slot m (tl q ! i)) = (Suc k + i) mod n" if "i < length (tl q)" for i
      using arr_invD(5) [OF inv, of "Suc i"] that sel by (simp add: nth_tl)
    moreover have "ls_pcs ?s u \<noteq> ClRel ArrGrant" for u using one [of u] by auto
    moreover have "al_flags (arr_lock m) ! j = (if j = Suc k mod n then 1 else 0)" if "j < n" for j
      using arr_invD(6) [OF inv that] arr_invD(3) [OF inv] sel pc t that by (auto simp: nth_list_update)
    moreover have "al_tail (arr_lock m) = of_nat (Suc k + length (tl q))"
      using arr_invD(4) [OF inv] sel t by (cases q) auto
    ultimately show ?thesis by (simp add: arr_slots_def)
  qed
  ultimately show ?thesis using r t arr_invD(2,3) [OF inv] sel by (simp add: arr_inv_def)
qed

section \<open>Order of entry\<close>

definition arr_rel :: "nat \<Rightarrow> nat \<Rightarrow> arr_sys \<Rightarrow> tid list \<Rightarrow> bool \<Rightarrow> bool" where
  "arr_rel N n s q b \<longleftrightarrow> (\<exists>k. arr_inv N n k s q) \<and> b = (q \<noteq> [] \<and> arr_inside (ls_pcs s (hd q)))"

lemma arr_rel_acquire:
  assumes n: "n dvd 256" "0 < n" "N \<le> n" and rel: "arr_rel N n s q b" and pc: "in_acq arr_ops (ls_pcs s t) p" "t < N"
    and step: "arraylock_acquire p t (ls_mem s) = Some (r, m)"
  shows "fifo_sim (arr_rel N n) (cl_goto s t (cl_acquired r) m) q b"
proof -
  obtain k where inv: "arr_inv N n k s q" using rel by (auto simp: arr_rel_def)
  have pcs: "ls_pcs s t = ClAcq p \<or> ls_pcs s t = ClIdle \<and> p = ArrTail" using pc by (auto simp: in_acq_def arr_ops_def)
  show ?thesis
  proof (cases p)
    case ArrTail
    with pcs have x: "\<not> arr_queued (ls_pcs s t)" by auto
    have nt: "t \<notin> set q" using arr_queueD(2) [OF arr_invD(1) [OF inv], of t] x by simp
    then have "hd q \<noteq> t" if "q \<noteq> []" using that by auto
    with nt arr_inv_join [OF inv n(1) pc(2) x] step ArrTail rel show ?thesis
      by (intro fifo_sim_arrive [where t = t]) (auto simp: arr_rel_def hd_append)
  next
    case ArrAwait
    with pcs step have x: "ls_pcs s t = ClAcq ArrAwait" "r = Inr ()" "m = ls_mem s"
      "al_flags (arr_lock (ls_mem s)) ! unat (arr_slot (ls_mem s) t) \<noteq> 0"
      by (auto simp: vatomic_simps split: if_splits)
    then have t: "q \<noteq> []" "t = hd q" using arr_awaiting_head [OF inv n(3,2)] by auto
    have "arr_inv N n k (cl_goto s t ClCrit (ls_mem s)) q"
      by (rule arr_inv_front [OF inv t]) (use x t arr_invD(3,6) [OF inv] in auto)
    with rel x t show ?thesis by (intro fifo_sim_enter) (auto simp: arr_rel_def)
  qed
qed

lemma arr_rel_release:
  assumes n: "n dvd 256" "0 < n" "N \<le> n" and rel: "arr_rel N n s q b" and pc: "in_rel arr_ops (ls_pcs s t) p"
    and step: "arraylock_release p t (ls_mem s) = Some (r, m)"
  shows "fifo_sim (arr_rel N n) (cl_goto s t (cl_released r) m) q b"
proof -
  obtain k where inv: "arr_inv N n k s q" using rel by (auto simp: arr_rel_def)
  note Q = arr_invD(1) [OF inv]
  have pcs: "ls_pcs s t = ClRel p \<or> ls_pcs s t = ClCrit \<and> p = ArrClear" using pc by (auto simp: in_rel_def arr_ops_def)
  then have t: "q \<noteq> []" "t = hd q" and ins: "arr_inside (ls_pcs s t)" using arr_queueD(5) [OF Q, of t] by auto
  show ?thesis
  proof (cases p)
    case ArrClear
    then have x: "ls_pcs s t \<noteq> ClRel ArrGrant" using pcs by auto
    have slot: "unat (arr_slot (ls_mem s) t) = k mod n" using arr_invD(5) [OF inv, of 0] t by (simp add: hd_conv_nth)
    have r: "r = Inl ArrGrant" "m = arr_set_flag (arr_slot (ls_mem s) t) 0 (ls_mem s)" using step ArrClear by auto
    have "arr_inv N n k (cl_goto s t (ClRel ArrGrant) m) q"
      by (rule arr_inv_front [OF inv t _ x])
        (use r slot x t arr_invD(3,6) [OF inv] in \<open>auto simp: arr_simps nth_list_update\<close>)
    with rel r ins t show ?thesis by (intro fifo_sim_stay) (auto simp: arr_rel_def)
  next
    case ArrGrant
    with pcs have x: "ls_pcs s t = ClRel ArrGrant" by auto
    note l = arr_inv_leave [OF inv n(1,2) x step [unfolded ArrGrant]]
    have "\<not> arr_inside (ls_pcs s u)" if "u \<noteq> t" for u using arr_queueD(5) [OF Q, of u] that t by auto
    then have "arr_rel N n (cl_goto s t ClIdle m) (tl q) False" using l by (auto simp: arr_rel_def)
    with rel ins l t show ?thesis by (intro fifo_sim_leave) (auto simp: arr_rel_def)
  qed
qed

lemma arr_start_rel:
  assumes "arraylock_init flags len = Some l" and "length flags = unat len"
  shows "arr_rel N (unat len) (arr_start l) [] False"
proof -
  note i = arraylock_init_flags [OF assms]
  have "arr_inv N (unat len) 0 (arr_start l) []"
    using i(1-3,5) by (simp add: arr_inv_def arr_queue_def arr_slots_def arr_start_def cl_start_def)
  then show ?thesis by (auto simp: arr_rel_def)
qed

lemma arr_fifo_lock:
  assumes "arraylock_init flags len = Some l" and "length flags = unat len" and "unat len dvd 256" and "N \<le> unat len"
  shows "fifo_lock_impl (arr_step N) (arr_start l) (arr_rel N (unat len)) cl_crit"
proof (unfold_locales, goal_cases)
  case 1
  show ?case by (rule arr_start_rel [OF assms(1,2)])
next
  case (2 c q b t cmd c')
  have n: "unat len dvd 256" "0 < unat len" "N \<le> unat len"
    using assms(3,4) arraylock_init_flags(4) [OF assms(1,2)] by (auto simp: word_less_nat_alt)
  from 2 have "t < N" "cl_step arr_ops (t, cmd) c = Some c'" by (auto split: if_splits)
  from this(2) show ?case
    by (cases rule: cl_step_cases)
      (auto simp: arr_ops_def dest: arr_rel_acquire [OF n 2(1) _ \<open>t < N\<close>, unfolded arr_ops_def]
        arr_rel_release [OF n 2(1), unfolded arr_ops_def])
next
  case (3 c q)
  then show ?case by (simp add: arr_rel_def)
next
  case (4 c q b t)
  then obtain k where inv: "arr_inv N (unat len) k c q" and b: "b = (q \<noteq> [] \<and> arr_inside (ls_pcs c (hd q)))" and t: "arr_inside (ls_pcs c t)"
    by (auto simp: arr_rel_def cl_crit_def)
  with arr_queueD(5) [OF arr_invD(1) [OF inv] t] show ?case by auto
qed


lemmas arr_sched_simps = arr_ops_def arr_simps cl_goto_def cl_crit_def

definition arr_two :: arraylock_t where
  "arr_two = \<lparr>al_tail = 0, al_flags = [1, 0], al_flags_len = 2\<rparr>"


section \<open>Arrays of more than 256 flags\<close>

text \<open>The state between two rounds of a thread that uses the lock alone, and the round.\<close>

definition arr_big :: "nat \<Rightarrow> arr_sys" where
  "arr_big k = \<lparr>ls_mem = \<lparr>arr_lock = \<lparr>al_tail = of_nat k, al_flags = (replicate 512 0)[k := 1], al_flags_len = 512\<rparr>,
     arr_slot = (\<lambda>_. 0)(0 := of_nat (k - 1))\<rparr>, ls_pcs = (\<lambda>_. ClIdle)\<rparr>"

definition arr_round :: "lock_label list" where
  "arr_round = [(0, Acquire), (0, Run), (0, Release), (0, Run)]"

lemma exec_arr_round:
  assumes "k < 256" and "0 < N"
  shows "exec (arr_step N) arr_round (arr_big k) = Some (arr_big (Suc k))"
proof -
  have s: "ucast (of_nat k :: u8) mod (512 :: u32) = of_nat k"
    using slot_of_u8 [of 256 "256 :: u32" k] assms by (simp add: word_unat_eq_iff unat_mod_distrib unsigned_ucast_eq unat_of_nat take_bit_eq_mod)
  moreover have "unat (of_nat k :: u32) = k" using assms by (simp add: unat_of_nat)
  moreover have "(of_nat k + 1 :: u32) mod 512 = of_nat (Suc k)"
  proof -
    have "unat (of_nat k + 1 :: u32) = Suc k"
      using assms unat_add_of_nat [of "of_nat k :: u32" 1] by (simp add: unat_of_nat)
    then have "unat ((of_nat k + 1 :: u32) mod 512) = unat (of_nat (Suc k) :: u32)"
      using assms by (simp add: unat_mod_distrib unat_of_nat del: of_nat_Suc)
    then show ?thesis by (simp only: word_unat_eq_iff)
  qed
  moreover have "unat (of_nat (Suc k) :: u32) = Suc k" using assms by (simp add: unat_of_nat del: of_nat_Suc)
  moreover have "((replicate 512 0)[k := 1, k := 0, Suc k := 1] :: u8 list) = (replicate 512 0)[Suc k := 1]"
    using assms by (intro nth_equalityI) (auto simp: nth_list_update)
  ultimately show ?thesis
    using assms by (simp add: arr_round_def arr_big_def arr_ops_def arr_simps cl_goto_def Let_def fun_upd_def add.commute cong: if_cong)
qed

lemma exec_arr_rounds:
  "k \<le> 256 \<Longrightarrow> 0 < N \<Longrightarrow> exec (arr_step N) (concat (replicate k arr_round)) (arr_big 0) = Some (arr_big k)"
proof (induction k)
  case (Suc k)
  have "concat (replicate (Suc k) arr_round) = concat (replicate k arr_round) @ arr_round"
    by (simp add: replicate_append_same [symmetric])
  with Suc exec_arr_round [of k N] show ?case by (simp add: exec_append)
qed simp

lemma arr_big_start:
  assumes "arraylock_init flags 512 = Some l" and "length flags = 512"
  shows "arr_start l = arr_big 0"
proof -
  note i = arraylock_init_flags [OF assms(1)]
  have "al_flags l = (replicate 512 0)[0 := 1]"
    using i(3,5) assms(2) by (intro nth_equalityI) (simp_all add: nth_list_update)
  moreover have "al_tail l = 0" "al_flags_len l = 512" using i(1,2) assms(2) by simp_all
  ultimately show ?thesis by (simp add: arr_start_def cl_start_def arr_big_def fun_eq_iff)
qed

text \<open>The flag that is set lies behind every slot that the 8-bit index can name.\<close>

definition arr_stuck :: "arr_sys \<Rightarrow> bool" where
  "arr_stuck s \<longleftrightarrow> (\<forall>j < 256. al_flags (arr_lock (ls_mem s)) ! j = 0) \<and> al_flags_len (arr_lock (ls_mem s)) = 512 \<and>
     (\<forall>t. ls_pcs s t = ClIdle \<or> ls_pcs s t = ClAcq ArrAwait \<and> unat (arr_slot (ls_mem s) t) < 256)"

lemma arr_stuck_outside: "arr_stuck s \<Longrightarrow> \<not> cl_crit s t"
  by (auto simp: arr_stuck_def cl_crit_def dest: spec [of _ t])

lemma arr_stuck_step:
  assumes st: "arr_stuck s" and step: "cl_step arr_ops (t, cmd) s = Some s'"
  shows "arr_stuck s'"
proof -
  have pc: "ls_pcs s t = ClIdle \<or> ls_pcs s t = ClAcq ArrAwait \<and> al_flags (arr_lock (ls_mem s)) ! unat (arr_slot (ls_mem s) t) = 0"
    using st by (auto simp: arr_stuck_def)
  have small: "unat (w :: u8) < 256" for w using unsigned_less [of w] by simp
  have "unat (ucast w mod 512 :: u32) < 256" for w :: u8
    using small [of w] by (simp add: unat_mod_distrib unsigned_ucast_eq take_bit_eq_mod)
  moreover have "cmd = Acquire \<and> ls_pcs s t = ClIdle"
    using pc step by (cases cmd) (auto simp: arr_ops_def vatomic_simps)
  ultimately show ?thesis using st step by (auto simp: arr_stuck_def arr_ops_def vatomic_simps) (blast+)
qed

text \<open>
  \<open>arraylock_init\<close> accepts arrays of more than 256 flags, but the 8-bit index never reaches the slots
  behind the first 256: with 512 flags the lock is free after 256 uses, and no thread ever enters again.
\<close>

theorem arraylock_big_stuck:
  assumes "arraylock_init flags 512 = Some l" and "length flags = 512" and "0 < N"
  shows "\<exists>s. reach (arr_step N) (arr_start l) s \<and> (\<forall>t. ls_pcs s t = ClIdle) \<and>
     (\<forall>s' t. reach (arr_step N) s s' \<longrightarrow> \<not> cl_crit s' t)"
proof -
  have "reach (arr_step N) (arr_start l) (arr_big 256)"
    using exec_reach [OF exec_arr_rounds [of 256 N]] arr_big_start [OF assms(1,2)] assms(3) by simp
  moreover have "ls_pcs (arr_big 256) t = ClIdle" for t by (simp add: arr_big_def)
  moreover have "arr_stuck s'" if "reach (arr_step N) (arr_big 256) s'" for s'
  proof (rule inv_system.reach_inv [OF inv_system.intro that])
    show "arr_stuck (arr_big 256)" by (simp add: arr_stuck_def arr_big_def nth_list_update)
    show "arr_stuck t" if "arr_stuck s" "arr_step N a s = Some t" for s a t
      using that arr_stuck_step by (cases a) (auto split: if_splits)
  qed
  then have "\<not> cl_crit s' t" if "reach (arr_step N) (arr_big 256) s'" for s' t
    using that arr_stuck_outside by blast
  ultimately show ?thesis by blast
qed

theorem arraylock_big_stuck_witness:
  "\<exists>l s. arraylock_init (replicate 512 0) 512 = Some l \<and> reach (arr_step 2) (arr_start l) s \<and> (\<forall>t. ls_pcs s t = ClIdle) \<and>
     (\<forall>s' t. reach (arr_step 2) s s' \<longrightarrow> \<not> cl_crit s' t)"
proof -
  have "V_IS_POWER_OF_TWO 512" by (simp add: V_IS_POWER_OF_TWO_def)
  then obtain l where l: "arraylock_init (replicate 512 0) 512 = Some l" by (auto simp: arraylock_init_def)
  from arraylock_big_stuck [OF l, of 2] l show ?thesis by auto
qed

end
