(* ===== verification/Semaphore.thy ===== *)
theory Semaphore
  imports Lock_Spec
begin

text \<open>
  The counting semaphore, \<^verbatim>\<open>spinlock/semaphore.h\<close>: its operations, one shared access per step, the
  contract a client relies on (locale \<open>resource_pool\<close>) and the account of the resources: what the
  counter holds and what the threads hold always add up to the initial number.
\<close>

section \<open>Operations\<close>

record semaphore_t =
  sem_s :: u32

definition semaphore_init :: "semaphore_t \<Rightarrow> u32 \<Rightarrow> semaphore_t" where
  "semaphore_init s n = s\<lparr>sem_s := vatomic32_write (sem_s s) n\<rparr>"

text \<open>
  \<open>semaphore_acquire\<close> is the \<open>await_ge_sub\<close> loop on the counter, with the number of resources both as
  the bound and as the amount to subtract. \<open>Inr ()\<close> is its return.
\<close>

definition semaphore_acquire :: "u32 \<Rightarrow> ge_sub_pc \<Rightarrow> semaphore_t \<Rightarrow> ((ge_sub_pc + unit) \<times> semaphore_t) option" where
  "semaphore_acquire i pc s =
     map_option (\<lambda>(pc', a). (case pc' of GeDone old \<Rightarrow> Inr () | _ \<Rightarrow> Inl pc', s\<lparr>sem_s := a\<rparr>))
       (vatomic32_await_ge_sub_step i i pc (sem_s s))"

datatype sem_try_pc = SemTryRead | SemTryCas u32

fun semaphore_tryacquire :: "u32 \<Rightarrow> sem_try_pc \<Rightarrow> semaphore_t \<Rightarrow> (sem_try_pc + bool) \<times> semaphore_t" where
  "semaphore_tryacquire i SemTryRead s =
     (let old = vatomic32_read (sem_s s) in (if old < i then Inr False else Inl (SemTryCas old), s))"
| "semaphore_tryacquire i (SemTryCas old) s =
     (let (r, a) = vatomic32_cmpxchg (sem_s s) old (old - i) in (Inr (r = old), s\<lparr>sem_s := a\<rparr>))"

definition semaphore_release :: "u32 \<Rightarrow> semaphore_t \<Rightarrow> semaphore_t" where
  "semaphore_release i s = s\<lparr>sem_s := vatomic32_add (sem_s s) i\<rparr>"

section \<open>Accounts of resources\<close>

text \<open>\<open>h t\<close> resources are with thread \<open>t\<close>, \<open>a\<close> are free, and there are \<open>N\<close> in all.\<close>

definition ledger :: "u32 \<Rightarrow> u32 \<Rightarrow> (tid \<Rightarrow> nat) \<Rightarrow> bool" where
  "ledger N a h \<longleftrightarrow> finite {t. h t \<noteq> 0} \<and> unat a + sum h {t. h t \<noteq> 0} = unat N"

lemma ledger_eq:
  assumes "finite A" and "{t. h t \<noteq> 0} \<subseteq> A"
  shows "ledger N a h \<longleftrightarrow> unat a + sum h A = unat N"
proof -
  have "sum h {t. h t \<noteq> 0} = sum h A" using assms by (intro sum.mono_neutral_left) auto
  moreover have "finite {t. h t \<noteq> 0}" using assms finite_subset by blast
  ultimately show ?thesis by (simp add: ledger_def)
qed

lemma ledger_init: "ledger N N (\<lambda>_. 0)"
  by (simp add: ledger_def)

lemma ledger_update:
  assumes "ledger N a h"
  shows "ledger N a' (h(t := v)) \<longleftrightarrow> unat a' + v = unat a + h t"
proof -
  let ?A = "insert t {u. h u \<noteq> 0}"
  have fin: "finite ?A" using assms by (simp add: ledger_def)
  have "unat a + sum h ?A = unat N"
    using assms ledger_eq [OF fin, of h N a] by blast
  moreover have "sum h ?A = h t + sum h (?A - {t})" by (rule sum.remove [OF fin]) simp
  moreover have "sum (h(t := v)) ?A = v + sum h (?A - {t})"
  proof -
    have "sum (h(t := v)) (?A - {t}) = sum h (?A - {t})" by (rule sum.cong) auto
    with sum.remove [OF fin, of t "h(t := v)"] show ?thesis by simp
  qed
  moreover have "ledger N a' (h(t := v)) \<longleftrightarrow> unat a' + sum (h(t := v)) ?A = unat N"
    by (rule ledger_eq [OF fin]) auto
  ultimately show ?thesis by linarith
qed

lemma ledger_take:
  assumes "ledger N a h" and "h t = 0" and "i \<le> a"
  shows "ledger N (a - i) (h(t := unat i))"
  using assms by (simp add: ledger_update unat_sub word_le_nat_alt)

lemma ledger_sum_le:
  assumes "ledger N a h" and "finite A"
  shows "unat a + sum h A \<le> unat N"
proof -
  have "sum h A \<le> sum h (A \<union> {t. h t \<noteq> 0})"
    using assms by (intro sum_mono2) (auto simp: ledger_def)
  then show ?thesis
    using assms ledger_eq [of "A \<union> {t. h t \<noteq> 0}" h N a] by (simp add: ledger_def)
qed

lemma ledger_give:
  assumes "ledger N a h" and "h t = unat i"
  shows "ledger N (a + i) (h(t := 0)) \<and> unat (a + i) = unat a + unat i"
proof -
  have "unat a + unat i \<le> unat N" using ledger_sum_le [OF assms(1), of "{t}"] assms(2) by simp
  then have "unat (a + i) = unat a + unat i"
    using u32_lt [of N] by (simp add: unat_word_ariths)
  then show ?thesis using assms by (simp add: ledger_update)
qed

lemma ledger_two:
  assumes "ledger N a h" and "t \<noteq> u"
  shows "unat a + h t + h u \<le> unat N"
  using ledger_sum_le [OF assms(1), of "{t, u}"] assms(2) by simp

section \<open>The contract\<close>

text \<open>
  What the code relies on: an attempt either leaves the pool as it is or takes the resources, and
  only when there are enough of them; a release adds them back.
\<close>

locale resource_pool =
  fixes avail :: "'s \<Rightarrow> u32"
    and acq :: "u32 \<Rightarrow> 'p \<Rightarrow> 's \<Rightarrow> (('p + unit) \<times> 's) option" and acq_ok :: "u32 \<Rightarrow> 'p \<Rightarrow> bool"
    and attempt :: "u32 \<Rightarrow> 'q \<Rightarrow> 's \<Rightarrow> ('q + bool) \<times> 's" and try_ok :: "u32 \<Rightarrow> 'q \<Rightarrow> bool"
    and rel :: "u32 \<Rightarrow> 's \<Rightarrow> 's"
  assumes acq_continues: "acq_ok i p \<Longrightarrow> acq i p s = Some (Inl p', s') \<Longrightarrow> acq_ok i p' \<and> avail s' = avail s"
    and acq_returns: "acq_ok i p \<Longrightarrow> acq i p s = Some (Inr x, s') \<Longrightarrow> i \<le> avail s \<and> avail s' = avail s - i"
    and try_continues: "try_ok i q \<Longrightarrow> attempt i q s = (Inl q', s') \<Longrightarrow> try_ok i q' \<and> avail s' = avail s"
    and try_fails: "try_ok i q \<Longrightarrow> attempt i q s = (Inr False, s') \<Longrightarrow> avail s' = avail s"
    and try_takes: "try_ok i q \<Longrightarrow> attempt i q s = (Inr True, s') \<Longrightarrow> i \<le> avail s \<and> avail s' = avail s - i"
    and rel_adds: "avail (rel i s) = avail s + i"
begin

lemma acq_ledger:
  assumes "acq_ok i p" and "acq i p s = Some (Inr x, s')" and "ledger N (avail s) h" and "h t = 0"
  shows "ledger N (avail s') (h(t := unat i))"
  using acq_returns [OF assms(1,2)] ledger_take [OF assms(3,4)] by simp

lemma try_ledger:
  assumes "try_ok i q" and "attempt i q s = (Inr b, s')" and "ledger N (avail s) h" and "h t = 0"
  shows "ledger N (avail s') (h(t := if b then unat i else 0))"
proof (cases b)
  case True
  with assms show ?thesis using try_takes [OF assms(1)] ledger_take [OF assms(3,4)] by simp
next
  case False
  have "h(t := 0) = h" using assms(4) by auto
  with False assms show ?thesis using try_fails [OF assms(1)] by simp
qed

lemma rel_ledger:
  assumes "ledger N (avail s) h" and "h t = unat i"
  shows "ledger N (avail (rel i s)) (h(t := 0))"
  using ledger_give [OF assms] by (simp add: rel_adds)

end

fun sem_try_ok :: "u32 \<Rightarrow> sem_try_pc \<Rightarrow> bool" where
  "sem_try_ok i SemTryRead = True"
| "sem_try_ok i (SemTryCas old) = (i \<le> old)"

interpretation sem: resource_pool sem_s semaphore_acquire ge_sub_pc_inv semaphore_tryacquire sem_try_ok semaphore_release
proof (unfold_locales, goal_cases)
  case (1 i p s p' s')
  then show ?case
    by (cases p) (auto simp: semaphore_acquire_def ge_sub_test_def vatomic_simps split: if_splits option.splits)
next
  case (2 i p s x s')
  then show ?case
    by (cases p) (auto simp: semaphore_acquire_def ge_sub_test_def vatomic_simps split: if_splits option.splits)
next
  case (3 i q s q' s')
  then show ?case by (cases q) (auto simp: vatomic_simps Let_def split: if_splits)
next
  case (4 i q s s')
  then show ?case by (cases q) (auto simp: vatomic_simps Let_def split: if_splits)
next
  case (5 i q s s')
  then show ?case by (cases q) (auto simp: vatomic_simps Let_def split: if_splits)
next
  case (6 i s)
  show ?case by (simp add: semaphore_release_def vatomic_simps)
qed

section \<open>Threads that use one semaphore\<close>

datatype sem_pc = SemIdle | SemAcq u32 ge_sub_pc | SemTry u32 sem_try_pc | SemHold u32

datatype sem_cmd = SemAcquire u32 | SemTryAcquire u32 | SemRelease | SemRun

record sem_sys =
  sem_mem :: semaphore_t
  sem_pcs :: "tid \<Rightarrow> sem_pc"

definition sem_start :: "u32 \<Rightarrow> sem_sys" where
  "sem_start n = \<lparr>sem_mem = semaphore_init \<lparr>sem_s = 0\<rparr> n, sem_pcs = (\<lambda>_. SemIdle)\<rparr>"

definition sem_goto :: "sem_sys \<Rightarrow> tid \<Rightarrow> semaphore_t \<Rightarrow> sem_pc \<Rightarrow> sem_sys" where
  "sem_goto s t m pc = s\<lparr>sem_mem := m, sem_pcs := (sem_pcs s)(t := pc)\<rparr>"

definition sem_acquire_step :: "sem_sys \<Rightarrow> tid \<Rightarrow> u32 \<Rightarrow> ge_sub_pc \<Rightarrow> sem_sys option" where
  "sem_acquire_step s t i pc =
     map_option (\<lambda>(r, m). sem_goto s t m (case r of Inl pc' \<Rightarrow> SemAcq i pc' | Inr _ \<Rightarrow> SemHold i))
       (semaphore_acquire i pc (sem_mem s))"

definition sem_try_step :: "sem_sys \<Rightarrow> tid \<Rightarrow> u32 \<Rightarrow> sem_try_pc \<Rightarrow> sem_sys option" where
  "sem_try_step s t i pc =
     (case semaphore_tryacquire i pc (sem_mem s) of
        (Inl pc', m) \<Rightarrow> Some (sem_goto s t m (SemTry i pc'))
      | (Inr b, m) \<Rightarrow> Some (sem_goto s t m (if b then SemHold i else SemIdle)))"

fun sem_step :: "tid \<times> sem_cmd \<Rightarrow> sem_sys \<Rightarrow> sem_sys option" where
  "sem_step (t, cmd) s =
     (case (sem_pcs s t, cmd) of
        (SemIdle, SemAcquire i) \<Rightarrow> sem_acquire_step s t i GeRead
      | (SemIdle, SemTryAcquire i) \<Rightarrow> sem_try_step s t i SemTryRead
      | (SemAcq i pc, SemRun) \<Rightarrow> sem_acquire_step s t i pc
      | (SemTry i pc, SemRun) \<Rightarrow> sem_try_step s t i pc
      | (SemHold i, SemRelease) \<Rightarrow> Some (sem_goto s t (semaphore_release i (sem_mem s)) SemIdle)
      | _ \<Rightarrow> None)"

fun sem_held :: "sem_pc \<Rightarrow> nat" where
  "sem_held (SemHold i) = unat i"
| "sem_held pc = 0"

fun sem_pc_ok :: "sem_pc \<Rightarrow> bool" where
  "sem_pc_ok (SemAcq i pc) = ge_sub_pc_inv i pc"
| "sem_pc_ok (SemTry i pc) = sem_try_ok i pc"
| "sem_pc_ok pc = True"

definition sem_inv :: "u32 \<Rightarrow> sem_sys \<Rightarrow> bool" where
  "sem_inv n s \<longleftrightarrow> ledger n (sem_s (sem_mem s)) (\<lambda>t. sem_held (sem_pcs s t)) \<and> (\<forall>t. sem_pc_ok (sem_pcs s t))"

lemma sem_inv_goto:
  assumes "sem_inv n s" and "sem_pc_ok pc"
    and "ledger n (sem_s m) ((\<lambda>u. sem_held (sem_pcs s u))(t := sem_held pc))"
  shows "sem_inv n (sem_goto s t m pc)"
proof -
  have "(\<lambda>u. sem_held (((sem_pcs s)(t := pc)) u)) = (\<lambda>u. sem_held (sem_pcs s u))(t := sem_held pc)" by auto
  with assms show ?thesis by (simp add: sem_inv_def sem_goto_def)
qed

lemma sem_inv_local:
  assumes "sem_inv n s" and "sem_pc_ok pc" and "sem_held pc = sem_held (sem_pcs s t)" and "sem_s m = sem_s (sem_mem s)"
  shows "sem_inv n (sem_goto s t m pc)"
  using assms by (intro sem_inv_goto) (simp_all add: fun_upd_idem sem_inv_def)

lemma sem_inv_acquire:
  assumes inv: "sem_inv n s" and "ge_sub_pc_inv i pc" and "sem_held (sem_pcs s t) = 0"
    and step: "sem_acquire_step s t i pc = Some s'"
  shows "sem_inv n s'"
proof -
  obtain r m where a: "semaphore_acquire i pc (sem_mem s) = Some (r, m)"
    and s': "s' = sem_goto s t m (case r of Inl pc' \<Rightarrow> SemAcq i pc' | Inr _ \<Rightarrow> SemHold i)"
    using step by (auto simp: sem_acquire_step_def)
  show ?thesis
  proof (cases r)
    case (Inl pc')
    with a assms(2) sem.acq_continues have "ge_sub_pc_inv i pc' \<and> sem_s m = sem_s (sem_mem s)" by blast
    with Inl inv assms(3) show ?thesis unfolding s' by (intro sem_inv_local) simp_all
  next
    case (Inr x)
    with a inv assms(2,3) show ?thesis
      unfolding s' by (intro sem_inv_goto) (simp_all add: sem.acq_ledger sem_inv_def)
  qed
qed

lemma sem_inv_try:
  assumes inv: "sem_inv n s" and "sem_try_ok i pc" and "sem_held (sem_pcs s t) = 0"
    and step: "sem_try_step s t i pc = Some s'"
  shows "sem_inv n s'"
proof -
  obtain r m where a: "semaphore_tryacquire i pc (sem_mem s) = (r, m)" by fastforce
  show ?thesis
  proof (cases r)
    case (Inl pc')
    with a assms(2) sem.try_continues have "sem_try_ok i pc' \<and> sem_s m = sem_s (sem_mem s)" by blast
    moreover have "s' = sem_goto s t m (SemTry i pc')" using step a Inl by (simp add: sem_try_step_def)
    ultimately show ?thesis using inv assms(3) by (simp add: sem_inv_local)
  next
    case (Inr b)
    then have "s' = sem_goto s t m (if b then SemHold i else SemIdle)" using step a by (simp add: sem_try_step_def)
    moreover have "ledger n (sem_s m) ((\<lambda>u. sem_held (sem_pcs s u))(t := if b then unat i else 0))"
      using a Inr inv assms(2,3) by (intro sem.try_ledger) (auto simp: sem_inv_def)
    ultimately show ?thesis using inv by (cases b) (auto intro!: sem_inv_goto)
  qed
qed

interpretation sem_users: inv_system sem_step "sem_start n" "sem_inv n" for n
proof (unfold_locales, goal_cases)
  case 1
  show ?case by (simp add: sem_inv_def sem_start_def semaphore_init_def vatomic_simps ledger_init)
next
  case (2 s a s')
  obtain t cmd where a: "a = (t, cmd)" by fastforce
  have pc: "sem_pc_ok (sem_pcs s t)" using 2(1) by (simp add: sem_inv_def)
  show ?case
  proof (cases "sem_pcs s t")
    case SemIdle
    consider (acq) i where "sem_acquire_step s t i GeRead = Some s'" | (att) i where "sem_try_step s t i SemTryRead = Some s'"
      using 2(2) SemIdle by (cases cmd) (auto simp: a)
    then show ?thesis using 2(1) SemIdle by cases (auto dest: sem_inv_acquire [of n s _ GeRead t] sem_inv_try [of n s _ SemTryRead t])
  next
    case (SemAcq i pc)
    then have "sem_acquire_step s t i pc = Some s'" using 2(2) by (cases cmd) (auto simp: a)
    with 2(1) pc SemAcq sem_inv_acquire [of n s i pc t s'] show ?thesis by simp
  next
    case (SemTry i pc)
    then have "sem_try_step s t i pc = Some s'" using 2(2) by (cases cmd) (auto simp: a)
    with 2(1) pc SemTry sem_inv_try [of n s i pc t s'] show ?thesis by simp
  next
    case (SemHold i)
    have "sem_inv n (sem_goto s t (semaphore_release i (sem_mem s)) SemIdle)"
      using 2(1) SemHold by (intro sem_inv_goto) (auto simp: sem_inv_def intro!: sem.rel_ledger)
    with 2(2) SemHold show ?thesis by (cases cmd) (simp_all add: a)
  qed
qed

text \<open>
  C34. The semaphore keeps account: however threads interleave acquiring, trying and releasing any
  numbers of resources, the resources held by any finite set of threads and those in the counter
  never exceed the initial number, and they add up to it when all holders are counted; a release
  never wraps the counter around.
\<close>

theorem semaphore_account:
  assumes "reach sem_step (sem_start n) s" and "finite A"
  shows "unat (sem_s (sem_mem s)) + (\<Sum>t\<in>A. sem_held (sem_pcs s t)) \<le> unat n \<and>
    ((\<forall>t. sem_held (sem_pcs s t) \<noteq> 0 \<longrightarrow> t \<in> A) \<longrightarrow>
      unat (sem_s (sem_mem s)) + (\<Sum>t\<in>A. sem_held (sem_pcs s t)) = unat n) \<and>
    (sem_pcs s t = SemHold i \<longrightarrow>
      unat (sem_s (semaphore_release i (sem_mem s))) = unat (sem_s (sem_mem s)) + unat i)"
proof -
  have l: "ledger n (sem_s (sem_mem s)) (\<lambda>t. sem_held (sem_pcs s t))"
    using sem_users.reach_inv [OF assms(1)] by (simp add: sem_inv_def)
  show ?thesis
    using ledger_sum_le [OF l assms(2)] ledger_eq [OF assms(2), of "\<lambda>t. sem_held (sem_pcs s t)" n "sem_s (sem_mem s)"] l
      ledger_give [OF l, of t i] by (auto simp: sem.rel_adds)
qed

theorem semaphore_account_witness:
  "\<exists>s. exec sem_step [(0, SemTryAcquire 2), (1, SemAcquire 1), (0, SemRun), (1, SemRun), (1, SemRun)] (sem_start 3) = Some s
     \<and> sem_pcs s 0 = SemHold 2 \<and> sem_pcs s 1 = SemHold 1 \<and>
     unat (sem_s (semaphore_release 2 (sem_mem s))) = unat (sem_s (sem_mem s)) + 2"
proof -
  obtain s where e: "exec sem_step [(0, SemTryAcquire 2), (1, SemAcquire 1), (0, SemRun), (1, SemRun), (1, SemRun)] (sem_start 3) = Some s"
    and p: "sem_pcs s 0 = SemHold 2" "sem_pcs s 1 = SemHold 1"
    by (simp add: sem_start_def semaphore_init_def sem_acquire_step_def sem_try_step_def semaphore_acquire_def
        sem_goto_def ge_sub_test_def vatomic_simps)
  from semaphore_account [OF exec_reach [OF e], of "{}" 0 2] p e show ?thesis by simp
qed

end
