(* ===== verification/Rwlock.thy ===== *)
theory Rwlock
  imports Semaphore
begin

text \<open>
  The reader-writer lock, \<^verbatim>\<open>spinlock/rwlock.h\<close>, a client of the semaphore: readers take one of
  \<open>RWLOCK_N\<close> resources, a writer raises the flag \<open>wb\<close> and takes them all.
\<close>

section \<open>Operations\<close>

record rwlock_t =
  rw_n :: u32
  rw_wb :: u32
  rw_rs :: semaphore_t

definition RWLOCK_N :: u32 where
  "RWLOCK_N = push_bit 30 1"

definition rwlock_init :: "rwlock_t \<Rightarrow> rwlock_t" where
  "rwlock_init l = l\<lparr>rw_n := RWLOCK_N, rw_wb := vatomic32_init (rw_wb l) 0, rw_rs := semaphore_init (rw_rs l) RWLOCK_N\<rparr>"

lemma case_sum_map_sum_id: "case_sum f g (map_sum h id r) = case_sum (\<lambda>p. f (h p)) g r"
  by (cases r) simp_all

text \<open>Each operation is a step function on its own control state; \<open>Inr\<close> is its return value.\<close>

datatype wr_acq_pc = WaAwait eq_set_pc | WaSem ge_sub_pc

fun rwlock_write_acquire :: "wr_acq_pc \<Rightarrow> rwlock_t \<Rightarrow> ((wr_acq_pc + unit) \<times> rwlock_t) option" where
  "rwlock_write_acquire (WaAwait pc) l =
     map_option (\<lambda>(pc', a). (Inl (if pc' = EqDone then WaSem GeRead else WaAwait pc'), l\<lparr>rw_wb := a\<rparr>))
       (vatomic32_await_eq_set_step 0 1 pc (rw_wb l))"
| "rwlock_write_acquire (WaSem pc) l =
     map_option (\<lambda>(r, m). (map_sum WaSem id r, l\<lparr>rw_rs := m\<rparr>)) (semaphore_acquire (rw_n l) pc (rw_rs l))"

datatype wr_try_pc = WtCas | WtSem sem_try_pc | WtUndo

fun rwlock_write_tryacquire :: "wr_try_pc \<Rightarrow> rwlock_t \<Rightarrow> ((wr_try_pc + bool) \<times> rwlock_t) option" where
  "rwlock_write_tryacquire WtCas l =
     (let (r, a) = vatomic32_cmpxchg (rw_wb l) 0 1
      in Some (if r \<noteq> 0 then Inr False else Inl (WtSem SemTryRead), l\<lparr>rw_wb := a\<rparr>))"
| "rwlock_write_tryacquire (WtSem pc) l =
     (case semaphore_tryacquire (rw_n l) pc (rw_rs l) of
        (Inl pc', m) \<Rightarrow> Some (Inl (WtSem pc'), l\<lparr>rw_rs := m\<rparr>)
      | (Inr b, m) \<Rightarrow> Some (if \<not> b then Inl WtUndo else Inr True, l\<lparr>rw_rs := m\<rparr>))"
| "rwlock_write_tryacquire WtUndo l = Some (Inr False, l\<lparr>rw_wb := vatomic32_write (rw_wb l) 0\<rparr>)"

datatype wr_rel_pc = WrClear | WrAdd

fun rwlock_write_release :: "wr_rel_pc \<Rightarrow> rwlock_t \<Rightarrow> ((wr_rel_pc + unit) \<times> rwlock_t) option" where
  "rwlock_write_release WrClear l = Some (Inl WrAdd, l\<lparr>rw_wb := vatomic32_write (rw_wb l) 0\<rparr>)"
| "rwlock_write_release WrAdd l = Some (Inr (), l\<lparr>rw_rs := semaphore_release (rw_n l) (rw_rs l)\<rparr>)"

datatype rd_acq_pc = RaAwait | RaSem ge_sub_pc

fun rwlock_read_acquire :: "rd_acq_pc \<Rightarrow> rwlock_t \<Rightarrow> ((rd_acq_pc + unit) \<times> rwlock_t) option" where
  "rwlock_read_acquire RaAwait l =
     (if vatomic32_read (rw_wb l) = 0 then Some (Inl (RaSem GeRead), l) else None)"
| "rwlock_read_acquire (RaSem pc) l =
     map_option (\<lambda>(r, m). (map_sum RaSem id r, l\<lparr>rw_rs := m\<rparr>)) (semaphore_acquire 1 pc (rw_rs l))"

datatype rd_try_pc = RtRead | RtSem sem_try_pc

fun rwlock_read_tryacquire :: "rd_try_pc \<Rightarrow> rwlock_t \<Rightarrow> ((rd_try_pc + bool) \<times> rwlock_t) option" where
  "rwlock_read_tryacquire RtRead l =
     Some (if vatomic32_read (rw_wb l) \<noteq> 0 then Inr False else Inl (RtSem SemTryRead), l)"
| "rwlock_read_tryacquire (RtSem pc) l =
     (case semaphore_tryacquire 1 pc (rw_rs l) of (r, m) \<Rightarrow> Some (map_sum RtSem id r, l\<lparr>rw_rs := m\<rparr>))"

definition rwlock_read_release :: "rwlock_t \<Rightarrow> rwlock_t" where
  "rwlock_read_release l = l\<lparr>rw_rs := semaphore_release 1 (rw_rs l)\<rparr>"

definition rwlock_acquired_by_writer :: "rwlock_t \<Rightarrow> bool" where
  "rwlock_acquired_by_writer l \<longleftrightarrow> vatomic32_read (rw_wb l) > 0"

definition rwlock_acquired_by_readers :: "rwlock_t \<Rightarrow> bool" where
  "rwlock_acquired_by_readers l = (let s = vatomic32_read (sem_s (rw_rs l)) in s > 0 \<and> s \<noteq> rw_n l)"

section \<open>Threads that use one lock\<close>

datatype rw_pc = RwIdle
  | WrAcq wr_acq_pc | WrTry wr_try_pc | WrCrit | WrRel wr_rel_pc
  | RdAcq rd_acq_pc | RdTry rd_try_pc | RdCrit

datatype rw_cmd = WriteAcquire | WriteTryAcquire | WriteRelease | ReadAcquire | ReadTryAcquire | ReadRelease | RwRun

record rw_sys =
  rw_mem :: rwlock_t
  rw_pcs :: "tid \<Rightarrow> rw_pc"

definition rw_start :: rw_sys where
  "rw_start = \<lparr>rw_mem = rwlock_init \<lparr>rw_n = 0, rw_wb = 0, rw_rs = \<lparr>sem_s = 0\<rparr>\<rparr>, rw_pcs = (\<lambda>_. RwIdle)\<rparr>"

definition rw_goto :: "rw_sys \<Rightarrow> tid \<Rightarrow> rwlock_t \<Rightarrow> rw_pc \<Rightarrow> rw_sys" where
  "rw_goto s t l pc = s\<lparr>rw_mem := l, rw_pcs := (rw_pcs s)(t := pc)\<rparr>"

definition rw_after :: "rw_sys \<Rightarrow> tid \<Rightarrow> ('p \<Rightarrow> rw_pc) \<Rightarrow> ('r \<Rightarrow> rw_pc) \<Rightarrow> (('p + 'r) \<times> rwlock_t) option \<Rightarrow> rw_sys option" where
  "rw_after s t cont ret out = map_option (\<lambda>(r, l). rw_goto s t l (case_sum cont ret r)) out"

abbreviation wr_result :: "bool \<Rightarrow> rw_pc" where
  "wr_result b \<equiv> (if b then WrCrit else RwIdle)"

abbreviation rd_result :: "bool \<Rightarrow> rw_pc" where
  "rd_result b \<equiv> (if b then RdCrit else RwIdle)"

fun rw_step :: "tid \<times> rw_cmd \<Rightarrow> rw_sys \<Rightarrow> rw_sys option" where
  "rw_step (t, cmd) s =
     (case (rw_pcs s t, cmd) of
        (RwIdle, WriteAcquire) \<Rightarrow> rw_after s t WrAcq (\<lambda>_. WrCrit) (rwlock_write_acquire (WaAwait EqWait) (rw_mem s))
      | (RwIdle, WriteTryAcquire) \<Rightarrow> rw_after s t WrTry wr_result (rwlock_write_tryacquire WtCas (rw_mem s))
      | (RwIdle, ReadAcquire) \<Rightarrow> rw_after s t RdAcq (\<lambda>_. RdCrit) (rwlock_read_acquire RaAwait (rw_mem s))
      | (RwIdle, ReadTryAcquire) \<Rightarrow> rw_after s t RdTry rd_result (rwlock_read_tryacquire RtRead (rw_mem s))
      | (WrCrit, WriteRelease) \<Rightarrow> rw_after s t WrRel (\<lambda>_. RwIdle) (rwlock_write_release WrClear (rw_mem s))
      | (RdCrit, ReadRelease) \<Rightarrow> Some (rw_goto s t (rwlock_read_release (rw_mem s)) RwIdle)
      | (WrAcq pc, RwRun) \<Rightarrow> rw_after s t WrAcq (\<lambda>_. WrCrit) (rwlock_write_acquire pc (rw_mem s))
      | (WrTry pc, RwRun) \<Rightarrow> rw_after s t WrTry wr_result (rwlock_write_tryacquire pc (rw_mem s))
      | (WrRel pc, RwRun) \<Rightarrow> rw_after s t WrRel (\<lambda>_. RwIdle) (rwlock_write_release pc (rw_mem s))
      | (RdAcq pc, RwRun) \<Rightarrow> rw_after s t RdAcq (\<lambda>_. RdCrit) (rwlock_read_acquire pc (rw_mem s))
      | (RdTry pc, RwRun) \<Rightarrow> rw_after s t RdTry rd_result (rwlock_read_tryacquire pc (rw_mem s))
      | _ \<Rightarrow> None)"

section \<open>The invariant\<close>

text \<open>What a thread holds of the semaphore, and whether it is the one that raised \<open>wb\<close>.\<close>

fun rw_held :: "rw_pc \<Rightarrow> nat" where
  "rw_held WrCrit = unat RWLOCK_N"
| "rw_held (WrRel _) = unat RWLOCK_N"
| "rw_held RdCrit = 1"
| "rw_held _ = 0"

fun rw_claims :: "rw_pc \<Rightarrow> bool" where
  "rw_claims (WrAcq (WaSem _)) = True"
| "rw_claims (WrTry pc) = (pc \<noteq> WtCas)"
| "rw_claims WrCrit = True"
| "rw_claims (WrRel pc) = (pc = WrClear)"
| "rw_claims _ = False"

fun rw_pc_ok :: "rw_pc \<Rightarrow> bool" where
  "rw_pc_ok (WrAcq (WaAwait pc)) = (pc \<noteq> EqDone)"
| "rw_pc_ok (WrAcq (WaSem pc)) = ge_sub_pc_inv RWLOCK_N pc"
| "rw_pc_ok (WrTry (WtSem pc)) = sem_try_ok RWLOCK_N pc"
| "rw_pc_ok (RdAcq (RaSem pc)) = ge_sub_pc_inv 1 pc"
| "rw_pc_ok (RdTry (RtSem pc)) = sem_try_ok 1 pc"
| "rw_pc_ok _ = True"

definition wb_inv :: "u32 \<Rightarrow> (tid \<Rightarrow> bool) \<Rightarrow> bool" where
  "wb_inv w c \<longleftrightarrow> (w = 0 \<and> (\<forall>t. \<not> c t)) \<or> (w = 1 \<and> (\<exists>!t. c t))"

lemma wb_inv_raise: "wb_inv 0 c \<Longrightarrow> wb_inv 1 (c(t := True))"
  by (auto simp: wb_inv_def)

lemma wb_inv_lower: "wb_inv w c \<Longrightarrow> c t \<Longrightarrow> wb_inv 0 (c(t := False))"
  by (auto simp: wb_inv_def)

abbreviation rw_holds :: "rw_sys \<Rightarrow> tid \<Rightarrow> nat" where
  "rw_holds s \<equiv> (\<lambda>t. rw_held (rw_pcs s t))"

abbreviation rw_claimers :: "rw_sys \<Rightarrow> tid \<Rightarrow> bool" where
  "rw_claimers s \<equiv> (\<lambda>t. rw_claims (rw_pcs s t))"

definition rw_inv :: "rw_sys \<Rightarrow> bool" where
  "rw_inv s \<longleftrightarrow> rw_n (rw_mem s) = RWLOCK_N \<and> ledger RWLOCK_N (sem_s (rw_rs (rw_mem s))) (rw_holds s) \<and>
     wb_inv (rw_wb (rw_mem s)) (rw_claimers s) \<and> (\<forall>t. rw_pc_ok (rw_pcs s t))"

lemma rw_invD:
  assumes "rw_inv s"
  shows "rw_n (rw_mem s) = RWLOCK_N" "ledger RWLOCK_N (sem_s (rw_rs (rw_mem s))) (rw_holds s)"
    "wb_inv (rw_wb (rw_mem s)) (rw_claimers s)" "rw_pc_ok (rw_pcs s t)"
  using assms by (auto simp: rw_inv_def)

lemma rw_inv_goto:
  assumes "rw_inv s" and "rw_n l = RWLOCK_N" and "rw_pc_ok pc"
    and "ledger RWLOCK_N (sem_s (rw_rs l)) ((rw_holds s)(t := rw_held pc))"
    and "wb_inv (rw_wb l) ((rw_claimers s)(t := rw_claims pc))"
  shows "rw_inv (rw_goto s t l pc)"
proof -
  have "(\<lambda>u. rw_held (((rw_pcs s)(t := pc)) u)) = (rw_holds s)(t := rw_held pc)"
    and "(\<lambda>u. rw_claims (((rw_pcs s)(t := pc)) u)) = (rw_claimers s)(t := rw_claims pc)" by auto
  with assms show ?thesis by (simp add: rw_inv_def rw_goto_def)
qed

text \<open>A step that keeps the semaphore, and one that keeps the flag.\<close>

lemma rw_inv_flag:
  assumes "rw_inv s" and "rw_pc_ok pc" and "rw_held pc = rw_held (rw_pcs s t)"
    and "wb_inv w ((rw_claimers s)(t := rw_claims pc))"
  shows "rw_inv (rw_goto s t ((rw_mem s)\<lparr>rw_wb := w\<rparr>) pc)"
  using assms rw_invD [OF assms(1)] by (intro rw_inv_goto) (simp_all add: fun_upd_idem)

lemma rw_inv_sem:
  assumes "rw_inv s" and "rw_pc_ok pc" and "rw_claims pc = rw_claims (rw_pcs s t)"
    and "ledger RWLOCK_N (sem_s m) ((rw_holds s)(t := rw_held pc))"
  shows "rw_inv (rw_goto s t ((rw_mem s)\<lparr>rw_rs := m\<rparr>) pc)"
  using assms rw_invD [OF assms(1)] by (intro rw_inv_goto) (simp_all add: fun_upd_idem)

lemma rw_inv_same:
  assumes "rw_inv s" and "rw_pc_ok pc" and "rw_claims pc = rw_claims (rw_pcs s t)"
    and "rw_held pc = rw_held (rw_pcs s t)"
  shows "rw_inv (rw_goto s t (rw_mem s) pc)"
  using assms rw_invD [OF assms(1)] by (intro rw_inv_goto) (simp_all add: fun_upd_idem)

text \<open>A step of a semaphore call made by the lock, for \<open>i\<close> resources.\<close>

lemma rw_inv_acq:
  assumes inv: "rw_inv s" and step: "semaphore_acquire i pc (rw_rs (rw_mem s)) = Some (r, m)" and "ge_sub_pc_inv i pc"
    and "rw_held (rw_pcs s t) = 0" and "rw_held fin = unat i" and "rw_pc_ok fin"
    and "rw_claims fin = rw_claims (rw_pcs s t)"
    and "\<And>p. ge_sub_pc_inv i p \<Longrightarrow> rw_pc_ok (cont p)"
    and "\<And>p. rw_held (cont p) = 0" and "\<And>p. rw_claims (cont p) = rw_claims (rw_pcs s t)"
  shows "rw_inv (rw_goto s t ((rw_mem s)\<lparr>rw_rs := m\<rparr>) (case r of Inl p \<Rightarrow> cont p | Inr _ \<Rightarrow> fin))"
proof (cases r)
  case (Inl p)
  with step assms(3) sem.acq_continues have "ge_sub_pc_inv i p" "sem_s m = sem_s (rw_rs (rw_mem s))" by blast+
  with Inl inv assms(4,8,9,10) rw_invD(2) [OF inv] show ?thesis
    by (intro rw_inv_sem) (simp_all add: fun_upd_idem)
next
  case (Inr x)
  with step assms(3,4) rw_invD(2) [OF inv] have "ledger RWLOCK_N (sem_s m) ((rw_holds s)(t := unat i))"
    by (intro sem.acq_ledger) simp_all
  with Inr inv assms(5-7) show ?thesis by (intro rw_inv_sem) simp_all
qed

lemma rw_inv_try:
  assumes inv: "rw_inv s" and step: "semaphore_tryacquire i pc (rw_rs (rw_mem s)) = (r, m)" and "sem_try_ok i pc"
    and "rw_held (rw_pcs s t) = 0" and "rw_held (ret True) = unat i" and "rw_held (ret False) = 0"
    and "\<And>b. rw_pc_ok (ret b)" and "\<And>b. rw_claims (ret b) = rw_claims (rw_pcs s t)"
    and "\<And>p. sem_try_ok i p \<Longrightarrow> rw_pc_ok (cont p)"
    and "\<And>p. rw_held (cont p) = 0" and "\<And>p. rw_claims (cont p) = rw_claims (rw_pcs s t)"
  shows "rw_inv (rw_goto s t ((rw_mem s)\<lparr>rw_rs := m\<rparr>) (case r of Inl p \<Rightarrow> cont p | Inr b \<Rightarrow> ret b))"
proof (cases r)
  case (Inl p)
  with step assms(3) sem.try_continues have "sem_try_ok i p" "sem_s m = sem_s (rw_rs (rw_mem s))" by blast+
  with Inl inv assms(4,9,10,11) rw_invD(2) [OF inv] show ?thesis
    by (intro rw_inv_sem) (simp_all add: fun_upd_idem)
next
  case (Inr b)
  with step assms(3,4) rw_invD(2) [OF inv] have "ledger RWLOCK_N (sem_s m) ((rw_holds s)(t := if b then unat i else 0))"
    by (intro sem.try_ledger) simp_all
  with Inr inv assms(5-8) show ?thesis by (cases b) (auto intro!: rw_inv_sem)
qed

section \<open>Every operation keeps the invariant\<close>

text \<open>A call in progress, at whatever control state, goes on or returns.\<close>

lemma rw_write_acquire_inv:
  assumes inv: "rw_inv s" and "rw_pcs s t = WrAcq pc \<or> pc = WaAwait EqWait \<and> rw_pcs s t = RwIdle"
    and step: "rw_after s t WrAcq (\<lambda>_. WrCrit) (rwlock_write_acquire pc (rw_mem s)) = Some s'"
  shows "rw_inv s'"
proof (cases pc)
  case (WaAwait q)
  with step obtain q' a where e: "vatomic32_await_eq_set_step 0 1 q (rw_wb (rw_mem s)) = Some (q', a)"
    and s': "s' = rw_goto s t ((rw_mem s)\<lparr>rw_wb := a\<rparr>) (WrAcq (if q' = EqDone then WaSem GeRead else WaAwait q'))"
    by (auto simp: rw_after_def)
  have h: "rw_held (rw_pcs s t) = 0" "\<not> rw_claims (rw_pcs s t)" using assms(2) WaAwait by auto
  have w: "wb_inv a ((rw_claimers s)(t := q' = EqDone))"
    using await_eq_set_step_cases [OF e] rw_invD(3) [OF inv] h wb_inv_raise
    by (auto simp: fun_upd_idem)
  show ?thesis unfolding s' using inv h w by (intro rw_inv_flag) auto
next
  case (WaSem q)
  with assms(2) have t: "rw_pcs s t = WrAcq (WaSem q)" by simp
  from WaSem step obtain r m where e: "semaphore_acquire RWLOCK_N q (rw_rs (rw_mem s)) = Some (r, m)"
    and s': "s' = rw_goto s t ((rw_mem s)\<lparr>rw_rs := m\<rparr>) (case r of Inl p \<Rightarrow> WrAcq (WaSem p) | Inr _ \<Rightarrow> WrCrit)"
    using rw_invD(1) [OF inv] by (auto simp: rw_after_def case_sum_map_sum_id)
  show ?thesis unfolding s' by (rule rw_inv_acq [OF inv e]) (use rw_invD(4) [OF inv, of t] t in auto)
qed

lemma rw_write_try_inv:
  assumes inv: "rw_inv s" and "rw_pcs s t = WrTry pc \<and> pc \<noteq> WtCas \<or> pc = WtCas \<and> rw_held (rw_pcs s t) = 0 \<and> \<not> rw_claims (rw_pcs s t)"
    and step: "rw_after s t WrTry wr_result (rwlock_write_tryacquire pc (rw_mem s)) = Some s'"
  shows "rw_inv s'"
proof (cases pc)
  case WtCas
  show ?thesis
  proof (cases "rw_wb (rw_mem s) = 0")
    case True
    then have "s' = rw_goto s t ((rw_mem s)\<lparr>rw_wb := 1\<rparr>) (WrTry (WtSem SemTryRead))"
      using step WtCas by (auto simp: rw_after_def vatomic_simps)
    then show ?thesis using inv assms(2) WtCas wb_inv_raise rw_invD(3) [OF inv] True by (auto intro!: rw_inv_flag)
  next
    case False
    then have "s' = rw_goto s t (rw_mem s) RwIdle" using step WtCas by (auto simp: rw_after_def vatomic_simps)
    then show ?thesis using inv assms(2) WtCas by (auto intro!: rw_inv_same)
  qed
next
  case (WtSem q)
  with assms(2) have t: "rw_pcs s t = WrTry (WtSem q)" by simp
  obtain r m where e: "semaphore_tryacquire RWLOCK_N q (rw_rs (rw_mem s)) = (r, m)" by fastforce
  with WtSem step rw_invD(1) [OF inv]
  have s': "s' = rw_goto s t ((rw_mem s)\<lparr>rw_rs := m\<rparr>) (case r of Inl p \<Rightarrow> WrTry (WtSem p) | Inr b \<Rightarrow> if b then WrCrit else WrTry WtUndo)"
    by (auto simp: rw_after_def split: sum.splits)
  show ?thesis unfolding s' by (rule rw_inv_try [OF inv e]) (use rw_invD(4) [OF inv, of t] t in auto)
next
  case WtUndo
  then have "s' = rw_goto s t ((rw_mem s)\<lparr>rw_wb := 0\<rparr>) RwIdle" using step by (auto simp: rw_after_def vatomic_simps)
  then show ?thesis using inv assms(2) WtUndo wb_inv_lower [OF rw_invD(3) [OF inv], of t] by (auto intro!: rw_inv_flag)
qed

lemma rw_write_release_inv:
  assumes inv: "rw_inv s" and "rw_pcs s t = WrRel pc \<or> pc = WrClear \<and> rw_pcs s t = WrCrit"
    and step: "rw_after s t WrRel (\<lambda>_. RwIdle) (rwlock_write_release pc (rw_mem s)) = Some s'"
  shows "rw_inv s'"
proof (cases pc)
  case WrClear
  then have "s' = rw_goto s t ((rw_mem s)\<lparr>rw_wb := 0\<rparr>) (WrRel WrAdd)" using step by (auto simp: rw_after_def vatomic_simps)
  then show ?thesis using inv assms(2) WrClear wb_inv_lower [OF rw_invD(3) [OF inv], of t] by (auto intro!: rw_inv_flag)
next
  case WrAdd
  then have s': "s' = rw_goto s t ((rw_mem s)\<lparr>rw_rs := semaphore_release RWLOCK_N (rw_rs (rw_mem s))\<rparr>) RwIdle"
    using step rw_invD(1) [OF inv] by (auto simp: rw_after_def)
  show ?thesis unfolding s' using inv assms(2) WrAdd rw_invD(2) [OF inv] by (intro rw_inv_sem) (auto intro!: sem.rel_ledger)
qed

lemma rw_read_acquire_inv:
  assumes inv: "rw_inv s" and "rw_pcs s t = RdAcq pc \<or> pc = RaAwait \<and> rw_pcs s t = RwIdle"
    and step: "rw_after s t RdAcq (\<lambda>_. RdCrit) (rwlock_read_acquire pc (rw_mem s)) = Some s'"
  shows "rw_inv s'"
proof (cases pc)
  case RaAwait
  then have "s' = rw_goto s t (rw_mem s) (RdAcq (RaSem GeRead))"
    using step by (auto simp: rw_after_def split: if_splits)
  then show ?thesis using inv assms(2) RaAwait by (auto intro!: rw_inv_same)
next
  case (RaSem q)
  with assms(2) have t: "rw_pcs s t = RdAcq (RaSem q)" by simp
  from RaSem step obtain r m where e: "semaphore_acquire 1 q (rw_rs (rw_mem s)) = Some (r, m)"
    and s': "s' = rw_goto s t ((rw_mem s)\<lparr>rw_rs := m\<rparr>) (case r of Inl p \<Rightarrow> RdAcq (RaSem p) | Inr _ \<Rightarrow> RdCrit)"
    by (auto simp: rw_after_def case_sum_map_sum_id)
  show ?thesis unfolding s' by (rule rw_inv_acq [OF inv e]) (use rw_invD(4) [OF inv, of t] t in auto)
qed

lemma rw_read_try_inv:
  assumes inv: "rw_inv s" and "rw_pcs s t = RdTry pc \<or> pc = RtRead \<and> rw_pcs s t = RwIdle"
    and step: "rw_after s t RdTry rd_result (rwlock_read_tryacquire pc (rw_mem s)) = Some s'"
  shows "rw_inv s'"
proof (cases pc)
  case RtRead
  then have "s' = rw_goto s t (rw_mem s) (if rw_wb (rw_mem s) \<noteq> 0 then RwIdle else RdTry (RtSem SemTryRead))"
    using step by (auto simp: rw_after_def vatomic_simps split: if_splits)
  then show ?thesis using inv assms(2) RtRead by (auto intro!: rw_inv_same)
next
  case (RtSem q)
  with assms(2) have t: "rw_pcs s t = RdTry (RtSem q)" by simp
  obtain r m where e: "semaphore_tryacquire 1 q (rw_rs (rw_mem s)) = (r, m)" by fastforce
  with RtSem step
  have s': "s' = rw_goto s t ((rw_mem s)\<lparr>rw_rs := m\<rparr>) (case r of Inl p \<Rightarrow> RdTry (RtSem p) | Inr b \<Rightarrow> rd_result b)"
    by (auto simp: rw_after_def split: sum.splits)
  show ?thesis unfolding s' by (rule rw_inv_try [OF inv e]) (use rw_invD(4) [OF inv, of t] t in auto)
qed

lemma rw_read_release_inv:
  assumes inv: "rw_inv s" and "rw_pcs s t = RdCrit"
  shows "rw_inv (rw_goto s t (rwlock_read_release (rw_mem s)) RwIdle)"
  unfolding rwlock_read_release_def using inv assms(2) rw_invD(2) [OF inv]
  by (intro rw_inv_sem) (auto intro!: sem.rel_ledger)

lemma rw_inv_step:
  assumes inv: "rw_inv s" and step: "rw_step (t, cmd) s = Some s'"
  shows "rw_inv s'"
proof (cases "rw_pcs s t")
  case RwIdle
  then show ?thesis
    using step rw_write_acquire_inv [OF inv, of t "WaAwait EqWait" s'] rw_write_try_inv [OF inv, of t WtCas s']
      rw_read_acquire_inv [OF inv, of t RaAwait s'] rw_read_try_inv [OF inv, of t RtRead s']
    by (cases cmd) (simp_all del: rwlock_write_acquire.simps rwlock_write_tryacquire.simps
        rwlock_read_acquire.simps rwlock_read_tryacquire.simps)
next
  case (WrTry pc)
  then have e: "rw_after s t WrTry wr_result (rwlock_write_tryacquire pc (rw_mem s)) = Some s'"
    using step by (cases cmd) simp_all
  show ?thesis by (rule rw_write_try_inv [OF inv _ e]) (use WrTry in auto)
next
  case WrCrit
  then show ?thesis using step rw_write_release_inv [OF inv, of t WrClear s']
    by (cases cmd) (simp_all del: rwlock_write_release.simps)
next
  case RdCrit
  then show ?thesis using step rw_read_release_inv [OF inv] by (cases cmd) auto
qed (use step rw_write_acquire_inv [OF inv, of t] rw_write_release_inv [OF inv, of t]
      rw_read_acquire_inv [OF inv, of t] rw_read_try_inv [OF inv, of t] in \<open>cases cmd; simp\<close>)+

interpretation rw_users: inv_system rw_step rw_start rw_inv
proof (unfold_locales, goal_cases)
  case 1
  show ?case
    by (simp add: rw_inv_def rw_start_def rwlock_init_def semaphore_init_def vatomic_simps ledger_init wb_inv_def)
next
  case (2 s a s')
  then show ?case using rw_inv_step by (cases a) blast
qed

section \<open>Properties\<close>

lemma RWLOCK_N_eq: "RWLOCK_N = 2 ^ 30"
  by (simp add: RWLOCK_N_def)

lemma unat_RWLOCK_N: "unat RWLOCK_N = 2 ^ 30"
  by (simp add: RWLOCK_N_eq)

text \<open>
  C20. A writer is alone: in every reachable state, whatever the interleaving of readers and writers
  that acquire, try and release, no thread is in its critical section, as a reader or as a writer,
  beside a writer; and there are never more than \<open>2^30\<close> readers.
\<close>

theorem rwlock_exclusion:
  assumes "reach rw_step rw_start s"
  shows "(rw_pcs s t = WrCrit \<longrightarrow> u \<noteq> t \<longrightarrow> rw_pcs s u \<notin> {WrCrit, RdCrit}) \<and>
    finite {t. rw_pcs s t = RdCrit} \<and> card {t. rw_pcs s t = RdCrit} \<le> 2 ^ 30"
proof -
  let ?R = "{t. rw_pcs s t = RdCrit}"
  have l: "ledger RWLOCK_N (sem_s (rw_rs (rw_mem s))) (rw_holds s)"
    using rw_invD(2) [OF rw_users.reach_inv [OF assms]] .
  have "finite ?R" by (rule finite_subset [of _ "{t. rw_holds s t \<noteq> 0}"]) (use l in \<open>auto simp: ledger_def\<close>)
  moreover from this have "card ?R \<le> 2 ^ 30"
    using ledger_sum_le [OF l, of ?R] by (simp add: unat_RWLOCK_N)
  moreover have "rw_pcs s t = WrCrit \<longrightarrow> u \<noteq> t \<longrightarrow> rw_pcs s u \<notin> {WrCrit, RdCrit}"
    using ledger_two [OF l, of t u] by (auto simp: unat_RWLOCK_N)
  ultimately show ?thesis by blast
qed

theorem rwlock_exclusion_witness:
  "\<exists>s. exec rw_step [(0, ReadAcquire), (1, WriteAcquire), (1, RwRun), (0, RwRun), (0, RwRun), (1, RwRun), (0, ReadRelease),
      (1, RwRun), (1, RwRun), (2, ReadTryAcquire)] rw_start = Some s
     \<and> rw_pcs s 1 = WrCrit \<and> rw_pcs s 0 \<notin> {WrCrit, RdCrit}"
proof -
  let ?as = "[(0, ReadAcquire), (1, WriteAcquire), (1, RwRun), (0, RwRun), (0, RwRun), (1, RwRun), (0, ReadRelease),
      (1, RwRun), (1, RwRun), (2, ReadTryAcquire)] :: (tid \<times> rw_cmd) list"
  obtain s where e: "exec rw_step ?as rw_start = Some s" and p: "rw_pcs s 1 = WrCrit"
    by (simp add: rw_start_def rwlock_init_def semaphore_init_def rw_after_def rw_goto_def semaphore_acquire_def
        rwlock_read_release_def semaphore_release_def RWLOCK_N_eq ge_sub_test_def vatomic_simps)
  from rwlock_exclusion [OF exec_reach [OF e], of 1 0] p e show ?thesis by simp
qed

text \<open>
  The two queries tell the truth about the state they read: \<open>rwlock_acquired_by_writer\<close> holds
  exactly when one thread has raised the flag (it waits for the readers, undoes its attempt or is in
  its critical section) and then only one has; \<open>rwlock_acquired_by_readers\<close> holds exactly when
  there are readers, but fewer than \<open>2^30\<close>.
\<close>

theorem rwlock_queries:
  assumes "reach rw_step rw_start s"
  shows "(rwlock_acquired_by_writer (rw_mem s) \<longleftrightarrow> (\<exists>t. rw_claims (rw_pcs s t))) \<and>
    (rw_claims (rw_pcs s t) \<longrightarrow> rw_claims (rw_pcs s u) \<longrightarrow> t = u) \<and>
    (rwlock_acquired_by_readers (rw_mem s) \<longleftrightarrow>
      card {t. rw_pcs s t = RdCrit} \<in> {1..<2 ^ 30})"
proof -
  let ?R = "{t. rw_pcs s t = RdCrit}" and ?a = "sem_s (rw_rs (rw_mem s))"
  note inv = rw_users.reach_inv [OF assms]
  note l = rw_invD(2) [OF inv]
  have w: "rwlock_acquired_by_writer (rw_mem s) \<longleftrightarrow> (\<exists>t. rw_claims (rw_pcs s t))"
    "rw_claims (rw_pcs s t) \<longrightarrow> rw_claims (rw_pcs s u) \<longrightarrow> t = u"
    using rw_invD(3) [OF inv] unfolding wb_inv_def rwlock_acquired_by_writer_def vatomic32_read_def
    by (metis word_neq_0_conv zero_neq_one, metis)
  have "?a = RWLOCK_N \<longleftrightarrow> unat ?a = 2 ^ 30" by (metis unat_RWLOCK_N word_unat_eq_iff)
  then have q: "rwlock_acquired_by_readers (rw_mem s) \<longleftrightarrow> unat ?a \<noteq> 0 \<and> unat ?a \<noteq> 2 ^ 30"
    using rw_invD(1) [OF inv] by (simp add: rwlock_acquired_by_readers_def Let_def vatomic_simps unat_eq_0 word_neq_0_conv)
  have fin: "finite ?R" by (rule finite_subset [of _ "{t. rw_holds s t \<noteq> 0}"]) (use l in \<open>auto simp: ledger_def\<close>)
  have "rwlock_acquired_by_readers (rw_mem s) \<longleftrightarrow> card ?R \<in> {1..<2 ^ 30}"
  proof (cases "\<exists>t. rw_held (rw_pcs s t) = 2 ^ 30")
    case True
    then obtain t where t: "rw_held (rw_pcs s t) = 2 ^ 30" by blast
    then have "rw_pcs s t \<noteq> RdCrit" by auto
    then have "unat ?a + (2 ^ 30 + card ?R) \<le> 2 ^ 30"
      using ledger_sum_le [OF l, of "insert t ?R"] t fin by (simp add: unat_RWLOCK_N)
    then show ?thesis by (simp add: q)
  next
    case False
    have "rw_held (rw_pcs s t) \<noteq> 0 \<longleftrightarrow> t \<in> ?R" for t
    proof -
      from False have "rw_held (rw_pcs s t) \<noteq> 2 ^ 30" by blast
      then show ?thesis by (cases "rw_pcs s t") (auto simp: unat_RWLOCK_N)
    qed
    then have "unat ?a + card ?R = 2 ^ 30"
      using ledger_eq [OF fin, of "rw_holds s" RWLOCK_N ?a] l by (simp add: unat_RWLOCK_N)
    then show ?thesis by (auto simp: q)
  qed
  with w show ?thesis by blast
qed

theorem rwlock_queries_witness:
  "\<exists>s. exec rw_step [(0, ReadTryAcquire), (0, RwRun), (0, RwRun), (1, WriteTryAcquire)] rw_start = Some s
     \<and> rwlock_acquired_by_writer (rw_mem s) \<and> rwlock_acquired_by_readers (rw_mem s) \<and>
       card {t. rw_pcs s t = RdCrit} \<in> {1..<2 ^ 30}"
proof -
  let ?as = "[(0, ReadTryAcquire), (0, RwRun), (0, RwRun), (1, WriteTryAcquire)] :: (tid \<times> rw_cmd) list"
  obtain s where e: "exec rw_step ?as rw_start = Some s"
    and p: "rwlock_acquired_by_writer (rw_mem s)" "rwlock_acquired_by_readers (rw_mem s)"
    by (simp add: rw_start_def rwlock_init_def semaphore_init_def rw_after_def rw_goto_def
        rwlock_acquired_by_writer_def rwlock_acquired_by_readers_def RWLOCK_N_eq vatomic_simps)
  from rwlock_queries [OF exec_reach [OF e], of 0 0] p e show ?thesis by simp
qed

end
