(* ===== verification/Seqlock.thy ===== *)
theory Seqlock
  imports Lock_Spec Vmath
begin

text \<open>
  The sequence lock, \<^verbatim>\<open>spinlock/seqlock.h\<close>: writers exclude each other, readers run without a lock and
  find out at the end whether what they read is consistent.
\<close>

section \<open>Operations\<close>

record seqlock_t =
  seqcount :: u32

text \<open>A call goes on, returns, or fails an \<open>ASSERT\<close>.\<close>

datatype ('p, 'r) outcome = Cont 'p | Ret 'r | AssertFails

definition seqlock_init :: "seqlock_t \<Rightarrow> seqlock_t" where
  "seqlock_init seq = seq\<lparr>seqcount := vatomic32_write (seqcount seq) 0\<rparr>"

text \<open>The loop of \<open>_seqlock_await_even\<close>: the test on the local copy, then the wait for a change.\<close>

datatype even_pc = EvenRead | EvenNeq u32

definition await_even_test :: "u32 \<Rightarrow> (even_pc, u32) outcome" where
  "await_even_test count =
     (if VIS_ODD count then Cont (EvenNeq count) else if VIS_EVEN count then Ret count else AssertFails)"

fun seqlock_await_even :: "even_pc \<Rightarrow> seqlock_t \<Rightarrow> (even_pc, u32) outcome option" where
  "seqlock_await_even EvenRead seq = Some (await_even_test (vatomic32_read (seqcount seq)))"
| "seqlock_await_even (EvenNeq count) seq = map_option await_even_test (vatomic32_await_neq (seqcount seq) count)"

datatype seq_acq_pc = SeqEven even_pc | SeqCas u32

fun seqlock_acquire :: "seq_acq_pc \<Rightarrow> seqlock_t \<Rightarrow> ((seq_acq_pc, unit) outcome \<times> seqlock_t) option" where
  "seqlock_acquire (SeqEven pc) seq =
     (case seqlock_await_even pc seq of
        None \<Rightarrow> None
      | Some (Cont pc') \<Rightarrow> Some (Cont (SeqEven pc'), seq)
      | Some (Ret count) \<Rightarrow> Some (Cont (SeqCas count), seq)
      | Some AssertFails \<Rightarrow> Some (AssertFails, seq))"
| "seqlock_acquire (SeqCas count) seq =
     (let (o_count, a) = vatomic32_cmpxchg (seqcount seq) count (count + 1)
      in Some (if o_count = count then Ret () else Cont (SeqEven EvenRead), seq\<lparr>seqcount := a\<rparr>))"

datatype seq_rel_pc = SeqRelRead | SeqRelWrite u32

fun seqlock_release :: "seq_rel_pc \<Rightarrow> seqlock_t \<Rightarrow> (seq_rel_pc, unit) outcome \<times> seqlock_t" where
  "seqlock_release SeqRelRead seq =
     (let cur_val = vatomic32_read (seqcount seq)
      in (if cur_val AND 1 = 1 then Cont (SeqRelWrite cur_val) else AssertFails, seq))"
| "seqlock_release (SeqRelWrite cur_val) seq = (Ret (), seq\<lparr>seqcount := vatomic32_write (seqcount seq) (cur_val + 1)\<rparr>)"

definition seqlock_rbegin :: "even_pc \<Rightarrow> seqlock_t \<Rightarrow> (even_pc, u32) outcome option" where
  "seqlock_rbegin pc seq = seqlock_await_even pc seq"

definition seqlock_rend :: "seqlock_t \<Rightarrow> u32 \<Rightarrow> (unit, bool) outcome" where
  "seqlock_rend seq sv = (if VIS_EVEN sv then Ret (vatomic32_read (seqcount seq) = sv) else AssertFails)"

section \<open>Writers and readers of shared data\<close>

text \<open>
  The data the lock protects is a value of any type: a writer inside its critical section stores to it, a
  reader between \<open>rbegin\<close> and \<open>rend\<close> loads from it any number of times (\<open>SqRead sv obs\<close> holds the
  values it saw). Storing or loading a part of the data is a special case.
\<close>

datatype 'd seq_pc = SqIdle | SqAcq seq_acq_pc | SqWrite | SqRel seq_rel_pc
  | SqBegin even_pc | SqRead u32 "'d list" | SqFailed

datatype 'd seq_cmd = SeqAcquire | SeqStore 'd | SeqRelease | SeqRbegin | SeqLoad | SeqRend | SeqRun

record 'd seq_sys =
  sq_lock :: seqlock_t
  sq_data :: 'd
  sq_pcs :: "tid \<Rightarrow> 'd seq_pc"

definition seq_start :: "'d \<Rightarrow> 'd seq_sys" where
  "seq_start d = \<lparr>sq_lock = seqlock_init \<lparr>seqcount = 0\<rparr>, sq_data = d, sq_pcs = (\<lambda>_. SqIdle)\<rparr>"

definition sq_goto :: "'d seq_sys \<Rightarrow> tid \<Rightarrow> seqlock_t \<Rightarrow> 'd seq_pc \<Rightarrow> 'd seq_sys" where
  "sq_goto s t l pc = s\<lparr>sq_lock := l, sq_pcs := (sq_pcs s)(t := pc)\<rparr>"

fun sq_next :: "('p \<Rightarrow> 'd seq_pc) \<Rightarrow> ('r \<Rightarrow> 'd seq_pc) \<Rightarrow> ('p, 'r) outcome \<Rightarrow> 'd seq_pc" where
  "sq_next cont ret (Cont p) = cont p"
| "sq_next cont ret (Ret r) = ret r"
| "sq_next cont ret AssertFails = SqFailed"

definition sq_acq_step :: "'d seq_sys \<Rightarrow> tid \<Rightarrow> seq_acq_pc \<Rightarrow> 'd seq_sys option" where
  "sq_acq_step s t pc = map_option (\<lambda>(r, l). sq_goto s t l (sq_next SqAcq (\<lambda>_. SqWrite) r)) (seqlock_acquire pc (sq_lock s))"

definition sq_rel_step :: "'d seq_sys \<Rightarrow> tid \<Rightarrow> seq_rel_pc \<Rightarrow> 'd seq_sys option" where
  "sq_rel_step s t pc = (case seqlock_release pc (sq_lock s) of (r, l) \<Rightarrow> Some (sq_goto s t l (sq_next SqRel (\<lambda>_. SqIdle) r)))"

definition sq_begin_step :: "'d seq_sys \<Rightarrow> tid \<Rightarrow> even_pc \<Rightarrow> 'd seq_sys option" where
  "sq_begin_step s t pc =
     map_option (\<lambda>r. sq_goto s t (sq_lock s) (sq_next SqBegin (\<lambda>sv. SqRead sv []) r)) (seqlock_rbegin pc (sq_lock s))"

fun seq_step :: "tid \<times> 'd seq_cmd \<Rightarrow> 'd seq_sys \<Rightarrow> 'd seq_sys option" where
  "seq_step (t, cmd) s =
     (case (sq_pcs s t, cmd) of
        (SqIdle, SeqAcquire) \<Rightarrow> sq_acq_step s t (SeqEven EvenRead)
      | (SqAcq pc, SeqRun) \<Rightarrow> sq_acq_step s t pc
      | (SqWrite, SeqStore d) \<Rightarrow> Some (s\<lparr>sq_data := d\<rparr>)
      | (SqWrite, SeqRelease) \<Rightarrow> sq_rel_step s t SeqRelRead
      | (SqRel pc, SeqRun) \<Rightarrow> sq_rel_step s t pc
      | (SqIdle, SeqRbegin) \<Rightarrow> sq_begin_step s t EvenRead
      | (SqBegin pc, SeqRun) \<Rightarrow> sq_begin_step s t pc
      | (SqRead sv obs, SeqLoad) \<Rightarrow> Some (sq_goto s t (sq_lock s) (SqRead sv (obs @ [sq_data s])))
      | (SqRead sv obs, SeqRend) \<Rightarrow>
          Some (sq_goto s t (sq_lock s) (sq_next (\<lambda>_. SqIdle) (\<lambda>_. SqIdle) (seqlock_rend (sq_lock s) sv)))
      | _ \<Rightarrow> None)"

lemmas seq_simps =
  seqlock_init_def seq_start_def sq_goto_def sq_acq_step_def sq_rel_step_def sq_begin_step_def
  seqlock_rbegin_def seqlock_rend_def await_even_test_def

section \<open>Writers\<close>

fun sq_inside :: "'d seq_pc \<Rightarrow> bool" where
  "sq_inside SqWrite = True" | "sq_inside (SqRel _) = True" | "sq_inside _ = False"

fun sq_pc_ok :: "u32 \<Rightarrow> 'd seq_pc \<Rightarrow> bool" where
  "sq_pc_ok c (SqAcq (SeqCas k)) = even k"
| "sq_pc_ok c (SqRel pc) = (pc = SeqRelWrite c)"
| "sq_pc_ok c (SqRead sv obs) = even sv"
| "sq_pc_ok c SqFailed = False"
| "sq_pc_ok c _ = True"

text \<open>The counter is odd exactly while a writer is inside, and then there is one.\<close>

definition seq_winv :: "'d seq_sys \<Rightarrow> bool" where
  "seq_winv s \<longleftrightarrow> (odd (seqcount (sq_lock s)) \<longleftrightarrow> (\<exists>t. sq_inside (sq_pcs s t))) \<and>
     (\<forall>t u. sq_inside (sq_pcs s t) \<longrightarrow> sq_inside (sq_pcs s u) \<longrightarrow> t = u) \<and>
     (\<forall>t. sq_pc_ok (seqcount (sq_lock s)) (sq_pcs s t))"

lemma seq_winvD:
  assumes "seq_winv s"
  shows "sq_inside (sq_pcs s t) \<Longrightarrow> odd (seqcount (sq_lock s))"
    "sq_inside (sq_pcs s t) \<Longrightarrow> sq_inside (sq_pcs s u) \<Longrightarrow> t = u"
    "sq_pc_ok (seqcount (sq_lock s)) (sq_pcs s t)"
    "odd (seqcount (sq_lock s)) \<Longrightarrow> \<exists>t. sq_inside (sq_pcs s t)"
  using assms unfolding seq_winv_def by blast+

text \<open>
  What a step does to the shared state: nothing, taking the lock, giving it back, or storing; a
  reader's control state changes in its own steps only.
\<close>

definition sq_local :: "'d seq_sys \<Rightarrow> 'd seq_pc \<Rightarrow> 'd seq_pc \<Rightarrow> bool" where
  "sq_local s pc pc' \<longleftrightarrow> sq_inside pc' = sq_inside pc \<and> sq_pc_ok (seqcount (sq_lock s)) pc' \<and>
     (\<forall>sv obs. pc' = SqRead sv obs \<longrightarrow>
        obs = [] \<and> sv \<le> seqcount (sq_lock s) \<or> (\<exists>obs'. pc = SqRead sv obs' \<and> obs = obs' @ [sq_data s]))"

definition sq_effect :: "'d seq_sys \<Rightarrow> tid \<Rightarrow> 'd seq_sys \<Rightarrow> bool" where
  "sq_effect s t s' \<longleftrightarrow>
     (\<exists>pc'. s' = sq_goto s t (sq_lock s) pc' \<and> sq_local s (sq_pcs s t) pc') \<or>
     (even (seqcount (sq_lock s)) \<and> \<not> sq_inside (sq_pcs s t) \<and>
        s' = sq_goto s t ((sq_lock s)\<lparr>seqcount := seqcount (sq_lock s) + 1\<rparr>) SqWrite) \<or>
     (sq_inside (sq_pcs s t) \<and> s' = sq_goto s t ((sq_lock s)\<lparr>seqcount := seqcount (sq_lock s) + 1\<rparr>) SqIdle) \<or>
     (sq_pcs s t = SqWrite \<and> (\<exists>d. s' = s\<lparr>sq_data := d\<rparr>))"

lemma sq_effect_local: "s' = sq_goto s t (sq_lock s) pc' \<Longrightarrow> sq_local s (sq_pcs s t) pc' \<Longrightarrow> sq_effect s t s'"
  unfolding sq_effect_def by blast

lemma await_even_cases:
  assumes "seqlock_await_even pc l = Some r"
  shows "(\<exists>c. r = Cont (EvenNeq c)) \<or> r = Ret (seqcount l) \<and> even (seqcount l)"
  using assms by (cases pc)
    (auto simp: await_even_test_def VIS_ODD_iff VIS_EVEN_iff vatomic_simps Let_def split: if_splits)

lemma sq_acq_effect:
  assumes "sq_acq_step s t pc = Some s'" and "\<not> sq_inside (sq_pcs s t)" and "\<And>k. pc = SeqCas k \<Longrightarrow> even k"
  shows "sq_effect s t s'"
proof (cases pc)
  case (SeqEven q)
  then obtain r where r: "seqlock_await_even q (sq_lock s) = Some r"
    using assms(1) by (auto simp: sq_acq_step_def split: option.splits)
  from await_even_cases [OF r] show ?thesis
    using assms(1,2) SeqEven r by (auto simp: sq_acq_step_def sq_local_def intro!: sq_effect_local)
next
  case (SeqCas k)
  have same: "l\<lparr>seqcount := seqcount l\<rparr> = l" for l :: seqlock_t by simp
  show ?thesis
  proof (cases "seqcount (sq_lock s) = k")
    case True
    with assms SeqCas show ?thesis by (auto simp: sq_acq_step_def sq_effect_def vatomic_simps)
  next
    case False
    with assms SeqCas same show ?thesis
      by (auto simp: sq_acq_step_def sq_local_def vatomic_simps intro!: sq_effect_local)
  qed
qed

lemma sq_rel_effect:
  assumes "seq_winv s" and "sq_rel_step s t pc = Some s'"
    and "sq_pcs s t = SqRel pc \<or> pc = SeqRelRead \<and> sq_pcs s t = SqWrite"
  shows "sq_effect s t s'"
proof (cases pc)
  case SeqRelRead
  have "odd (seqcount (sq_lock s))" using seq_winvD(1) [OF assms(1), of t] assms(3) by auto
  then have "seqcount (sq_lock s) AND 1 = 1" using VIS_ODD_iff VIS_ODD_def by blast
  with assms(2,3) SeqRelRead show ?thesis
    by (auto simp: sq_rel_step_def sq_local_def vatomic_simps intro!: sq_effect_local)
next
  case (SeqRelWrite k)
  then have "sq_pcs s t = SqRel (SeqRelWrite k)" using assms(3) by simp
  moreover from this have "k = seqcount (sq_lock s)" using seq_winvD(3) [OF assms(1), of t] by simp
  ultimately show ?thesis using assms(2) SeqRelWrite by (auto simp: sq_rel_step_def sq_effect_def vatomic_simps)
qed

lemma sq_begin_effect:
  assumes "sq_begin_step s t pc = Some s'" and "\<not> sq_inside (sq_pcs s t)"
  shows "sq_effect s t s'"
proof -
  obtain r where r: "seqlock_await_even pc (sq_lock s) = Some r"
    using assms(1) by (auto simp: sq_begin_step_def seqlock_rbegin_def)
  then have s': "s' = sq_goto s t (sq_lock s) (sq_next SqBegin (\<lambda>sv. SqRead sv []) r)"
    using assms(1) by (simp add: sq_begin_step_def seqlock_rbegin_def)
  show ?thesis
    by (rule sq_effect_local [OF s']) (use await_even_cases [OF r] assms(2) in \<open>auto simp: sq_local_def\<close>)
qed

lemma seq_step_effect:
  assumes inv: "seq_winv s" and step: "seq_step (t, cmd) s = Some s'"
  shows "sq_effect s t s'"
proof -
  have ok: "sq_pc_ok (seqcount (sq_lock s)) (sq_pcs s t)" by (rule seq_winvD(3) [OF inv])
  show ?thesis
  proof (cases "sq_pcs s t")
    case SqIdle
    with step sq_acq_effect [of s t "SeqEven EvenRead" s'] sq_begin_effect [of s t EvenRead s'] show ?thesis
      by (cases cmd) auto
  next
    case (SqAcq pc)
    have "\<And>k. pc = SeqCas k \<Longrightarrow> even k" using ok SqAcq by auto
    with SqAcq step sq_acq_effect [of s t pc s'] show ?thesis by (cases cmd) auto
  next
    case SqWrite
    with step sq_rel_effect [OF inv, of t SeqRelRead s'] show ?thesis
      by (cases cmd) (auto simp: sq_effect_def)
  next
    case (SqRel pc)
    with step sq_rel_effect [OF inv, of t pc s'] show ?thesis by (cases cmd) auto
  next
    case (SqBegin pc)
    with step sq_begin_effect [of s t pc s'] show ?thesis by (cases cmd) auto
  next
    case (SqRead sv obs)
    with step ok show ?thesis
      by (cases cmd) (auto simp: sq_local_def seqlock_rend_def VIS_EVEN_iff intro!: sq_effect_local)
  qed (use step in \<open>cases cmd; simp\<close>)
qed

lemma seq_winv_effect:
  assumes inv: "seq_winv s" and "sq_effect s t s'"
  shows "seq_winv s'"
proof -
  let ?c = "seqcount (sq_lock s)"
  note D = seq_winvD [OF inv]
  have idle: "sq_pc_ok (?c + 1) (sq_pcs s u)" if "\<not> sq_inside (sq_pcs s u)" for u
  proof (cases "sq_pcs s u")
    case (SqAcq a)
    then show ?thesis using D(3) [of u] by (cases a) auto
  qed (use that D(3) [of u] in auto)
  consider (local) pc' where "s' = sq_goto s t (sq_lock s) pc'" "sq_local s (sq_pcs s t) pc'"
    | (enter) "even ?c" "s' = sq_goto s t ((sq_lock s)\<lparr>seqcount := ?c + 1\<rparr>) SqWrite"
    | (leave) "sq_inside (sq_pcs s t)" "s' = sq_goto s t ((sq_lock s)\<lparr>seqcount := ?c + 1\<rparr>) SqIdle"
    | (store) d where "s' = s\<lparr>sq_data := d\<rparr>"
    using assms(2) unfolding sq_effect_def by blast
  then show ?thesis
  proof cases
    case local
    then show ?thesis using inv unfolding seq_winv_def sq_local_def sq_goto_def by simp metis
  next
    case enter
    then have "\<not> sq_inside (sq_pcs s u)" for u using D(1) by blast
    then show ?thesis using enter idle by (auto simp: seq_winv_def sq_goto_def)
  next
    case leave
    then have "\<not> sq_inside (sq_pcs s u)" if "u \<noteq> t" for u using D(2) that by blast
    then show ?thesis using leave idle D(1) [of t] by (auto simp: seq_winv_def sq_goto_def)
  next
    case store
    then show ?thesis using inv by (simp add: seq_winv_def)
  qed
qed

interpretation seq_writers: inv_system seq_step "seq_start d" seq_winv for d
proof (unfold_locales, goal_cases)
  case 1
  show ?case by (simp add: seq_winv_def seq_simps vatomic_simps)
next
  case (2 s a s')
  then show ?case using seq_step_effect seq_winv_effect by (cases a) blast
qed

text \<open>
  The writers of the sequence lock exclude each other, no \<open>ASSERT\<close> of \<^verbatim>\<open>seqlock.h\<close> ever fails, and
  the counter is odd exactly while a writer is inside, for any number of threads and however often
  the counter wraps around.
\<close>

theorem seqlock_writers_exclude:
  assumes "reach seq_step (seq_start d) s"
  shows "sq_pcs s t \<noteq> SqFailed \<and> (sq_pcs s t = SqWrite \<longrightarrow> sq_pcs s u = SqWrite \<longrightarrow> t = u) \<and>
    (VIS_ODD (seqcount (sq_lock s)) \<longleftrightarrow> (\<exists>t. sq_inside (sq_pcs s t)))"
proof -
  note inv = seq_writers.reach_inv [OF assms]
  have "sq_pcs s t \<noteq> SqFailed" using seq_winvD(3) [OF inv, of t] by auto
  moreover have "sq_pcs s t = SqWrite \<longrightarrow> sq_pcs s u = SqWrite \<longrightarrow> t = u" using seq_winvD(2) [OF inv, of t u] by auto
  moreover have "VIS_ODD (seqcount (sq_lock s)) \<longleftrightarrow> (\<exists>t. sq_inside (sq_pcs s t))"
    using seq_winvD(1,4) [OF inv] by (auto simp: VIS_ODD_iff)
  ultimately show ?thesis by blast
qed

theorem seqlock_writers_exclude_witness:
  "\<exists>s. exec seq_step [(0, SeqAcquire), (1, SeqAcquire), (0, SeqRun), (1, SeqRun), (0, SeqStore 7)] (seq_start (3 :: int)) = Some s
     \<and> sq_pcs s 0 = SqWrite \<and> sq_pcs s 1 \<noteq> SqWrite \<and> VIS_ODD (seqcount (sq_lock s))"
proof -
  obtain s where e: "exec seq_step [(0, SeqAcquire), (1, SeqAcquire), (0, SeqRun), (1, SeqRun), (0, SeqStore 7)] (seq_start (3 :: int)) = Some s"
    and c: "sq_pcs s 0 = SqWrite"
    by (simp add: seq_simps VIS_ODD_def VIS_EVEN_def vatomic_simps)
  have "sq_inside (sq_pcs s 0)" using c by simp
  with seqlock_writers_exclude [OF exec_reach [OF e], of 0 1] e c show ?thesis by (metis zero_neq_one)
qed

section \<open>Readers\<close>

text \<open>
  After at most \<open>m\<close> steps the counter has not wrapped around, so a reader that finds its own value in the
  counter has seen no writer.
\<close>

definition seq_rinv :: "nat \<Rightarrow> 'd seq_sys \<Rightarrow> bool" where
  "seq_rinv m s \<longleftrightarrow> unat (seqcount (sq_lock s)) \<le> m \<and>
     (\<forall>t sv obs. sq_pcs s t = SqRead sv obs \<longrightarrow> sv \<le> seqcount (sq_lock s) \<and>
        (sv = seqcount (sq_lock s) \<longrightarrow> (\<forall>d \<in> set obs. d = sq_data s)))"

lemma seq_rinvD:
  assumes "seq_rinv m s"
  shows "unat (seqcount (sq_lock s)) \<le> m"
    "sq_pcs s t = SqRead sv obs \<Longrightarrow> sv \<le> seqcount (sq_lock s)"
    "sq_pcs s t = SqRead sv obs \<Longrightarrow> sv = seqcount (sq_lock s) \<Longrightarrow> d \<in> set obs \<Longrightarrow> d = sq_data s"
  using assms unfolding seq_rinv_def by blast+

lemma u32_less_Suc:
  assumes "unat (w :: u32) < 2 ^ 32 - 1"
  shows "unat (w + 1) = Suc (unat w)" and "v \<le> w \<Longrightarrow> v < w + 1"
proof -
  show "unat (w + 1) = Suc (unat w)" using unat_add_of_nat [of w 1] assms by simp
  then show "v \<le> w \<Longrightarrow> v < w + 1" by (simp add: word_le_nat_alt word_less_nat_alt)
qed

lemma seq_rinv_count:
  assumes "seq_rinv m s" and m: "m < 2 ^ 32 - 1" and "\<And>sv obs. pc \<noteq> SqRead sv obs"
  shows "seq_rinv (Suc m) (sq_goto s t ((sq_lock s)\<lparr>seqcount := seqcount (sq_lock s) + 1\<rparr>) pc)"
proof -
  let ?c = "seqcount (sq_lock s)"
  have c: "unat ?c < 2 ^ 32 - 1" using seq_rinvD(1) [OF assms(1)] m by simp
  have "sv < ?c + 1" if "sq_pcs s u = SqRead sv obs" for u sv obs
    using u32_less_Suc(2) [OF c] seq_rinvD(2) [OF assms(1) that] by blast
  then show ?thesis
    using u32_less_Suc(1) [OF c] seq_rinvD(1) [OF assms(1)] assms(3)
    unfolding seq_rinv_def sq_goto_def by (auto simp: order_less_imp_le dest: order_less_irrefl [THEN notE])
qed

lemma seq_rinv_effect:
  assumes inv: "seq_rinv m s" and w: "seq_winv s" and m: "m < 2 ^ 32 - 1" and "sq_effect s t s'"
  shows "seq_rinv (Suc m) s'"
proof -
  let ?c = "seqcount (sq_lock s)"
  consider (local) pc' where "s' = sq_goto s t (sq_lock s) pc'" "sq_local s (sq_pcs s t) pc'"
    | (count) pc where "s' = sq_goto s t ((sq_lock s)\<lparr>seqcount := ?c + 1\<rparr>) pc" "\<And>sv obs. pc \<noteq> SqRead sv obs"
    | (store) d where "s' = s\<lparr>sq_data := d\<rparr>" "sq_pcs s t = SqWrite"
    using assms(4) unfolding sq_effect_def by blast
  then show ?thesis
  proof cases
    case local
    have "sv \<le> ?c \<and> (sv = ?c \<longrightarrow> (\<forall>d \<in> set obs. d = sq_data s))" if "pc' = SqRead sv obs" for sv obs
      using local(2) that seq_rinvD [OF inv] unfolding sq_local_def by (metis Un_iff empty_iff list.set order_refl set_append singletonD)
    then show ?thesis using inv local(1) by (auto simp: seq_rinv_def sq_goto_def)
  next
    case count
    then show ?thesis using seq_rinv_count [OF inv m] by blast
  next
    case store
    then have "odd ?c" using seq_winvD(1) [OF w, of t] by simp
    then have "sv \<noteq> ?c" if "sq_pcs s u = SqRead sv obs" for u sv obs
      using seq_winvD(3) [OF w, of u] that by auto
    then show ?thesis using inv store(1) by (auto simp: seq_rinv_def)
  qed
qed

lemma seq_rinv_reach:
  assumes "reach (bounded (2 ^ 32 - 1) seq_step) (0, seq_start d) c"
  shows "seq_winv (snd c) \<and> seq_rinv (fst c) (snd c)"
proof -
  have "inv_system (bounded (2 ^ 32 - 1) seq_step) (0, seq_start d) (\<lambda>(m, s). seq_winv s \<and> seq_rinv m s)"
  proof (rule inv_system.intro, goal_cases)
    case 1
    show ?case using seq_writers.inv_init [of d] by (simp add: seq_rinv_def seq_simps vatomic_simps)
  next
    case (2 c lab c')
    obtain m s t cmd where "c = (m, s)" "lab = (t, cmd)" by (cases c; cases lab)
    with 2 seq_step_effect [of s t cmd] seq_winv_effect [of s t] seq_rinv_effect [of m s t] show ?case
      by (auto simp del: seq_step.simps split: if_splits)
  qed
  from inv_system.reach_inv [OF this assms] show ?thesis by (cases c) simp
qed

text \<open>
  C35. A sequence-lock read that \<open>seqlock_rend\<close> accepts is consistent: in every execution of fewer than
  \<open>2^32\<close> steps, when \<open>seqlock_rend\<close> returns true, all values the reader loaded since its
  \<open>seqlock_rbegin\<close> are the current value of the data, and no writer is inside.
\<close>

theorem seqlock_read_consistent:
  assumes "exec seq_step as (seq_start d) = Some s" and "length as < 2 ^ 32"
    and "sq_pcs s t = SqRead sv obs" and "seqlock_rend (sq_lock s) sv = Ret True"
  shows "(\<forall>d' \<in> set obs. d' = sq_data s) \<and> (\<forall>u. sq_pcs s u \<noteq> SqWrite)"
proof -
  have inv: "seq_winv s" "seq_rinv (length as) s"
    using seq_rinv_reach [OF exec_bounded [OF assms(1)]] assms(2) by simp_all
  have sv: "sv = seqcount (sq_lock s)" "even sv"
    using assms(4) by (auto simp: seqlock_rend_def vatomic_simps VIS_EVEN_iff split: if_splits)
  have "sq_pcs s u \<noteq> SqWrite" for u using seq_winvD(1) [OF inv(1), of u] sv by auto
  with seq_rinvD(3) [OF inv(2) assms(3) sv(1)] show ?thesis by blast
qed

theorem seqlock_read_consistent_witness:
  "\<exists>s. exec seq_step [(0, SeqAcquire), (0, SeqRun), (0, SeqStore 7), (0, SeqRelease), (0, SeqRun), (1, SeqRbegin), (1, SeqLoad), (1, SeqLoad)]
       (seq_start (3 :: int)) = Some s \<and> sq_pcs s 1 = SqRead 2 [7, 7] \<and> seqlock_rend (sq_lock s) 2 = Ret True \<and> sq_data s = 7"
proof -
  let ?as = "[(0, SeqAcquire), (0, SeqRun), (0, SeqStore 7), (0, SeqRelease), (0, SeqRun), (1, SeqRbegin), (1, SeqLoad), (1, SeqLoad)] :: (tid \<times> int seq_cmd) list"
  obtain s where e: "exec seq_step ?as (seq_start (3 :: int)) = Some s"
    and c: "sq_pcs s 1 = SqRead 2 [7, 7]" "seqlock_rend (sq_lock s) 2 = Ret True"
    by (simp add: seq_simps VIS_ODD_def VIS_EVEN_def vatomic_simps)
  have "length ?as < 2 ^ 32" by simp
  from seqlock_read_consistent [OF e this c] e c show ?thesis by simp
qed

text \<open>Complete writes by thread 0, with a reader that began before them.\<close>

definition seq_rounds :: "nat \<Rightarrow> int seq_sys" where
  "seq_rounds k = \<lparr>sq_lock = \<lparr>seqcount = of_nat (2 * k)\<rparr>, sq_data = 0, sq_pcs = (\<lambda>_. SqIdle)(1 := SqRead 0 [0])\<rparr>"

definition seq_round :: "int \<Rightarrow> (tid \<times> int seq_cmd) list" where
  "seq_round d = [(0, SeqAcquire), (0, SeqRun), (0, SeqStore d), (0, SeqRelease), (0, SeqRun)]"

lemma exec_seq_round:
  "exec seq_step (seq_round d) (seq_rounds k) = Some ((seq_rounds (Suc k))\<lparr>sq_data := d\<rparr>)"
proof -
  have even: "even (of_nat (2 * k) :: u32)" by simp
  then have "odd (1 + of_nat (2 * k) :: u32)" by simp
  then have odd: "(1 + of_nat (2 * k) :: u32) AND 1 = 1" using VIS_ODD_iff VIS_ODD_def by blast
  have test: "await_even_test (of_nat (2 * k)) = Ret (of_nat (2 * k))"
    using even unfolding await_even_test_def VIS_ODD_iff VIS_EVEN_iff by simp
  have "(2 + of_nat (2 * k) :: u32) = of_nat (2 * Suc k)" by simp
  with odd test show ?thesis
    by (simp add: seq_round_def seq_rounds_def sq_acq_step_def sq_rel_step_def sq_goto_def vatomic_simps
        Let_def fun_eq_iff add.commute del: of_nat_mult)
qed

text \<open>A reader that sleeps through \<open>2^31\<close> complete writes accepts what it read before them.\<close>

lemma seqlock_read_wraps:
  "\<exists>s. reach seq_step (seq_start (0 :: int)) s \<and> sq_pcs s 1 = SqRead 0 [0] \<and> seqlock_rend (sq_lock s) 0 = Ret True \<and> sq_data s = 7"
proof -
  have a: "exec seq_step [(1, SeqRbegin), (1, SeqLoad)] (seq_start 0) = Some (seq_rounds 0)"
    by (simp add: seq_rounds_def seq_simps VIS_ODD_def VIS_EVEN_def vatomic_simps)
  have "exec seq_step (seq_round 0) (seq_rounds k) = Some (seq_rounds (Suc k))" for k
    using exec_seq_round [of 0 k] by (simp add: seq_rounds_def)
  then have b: "exec seq_step (concat (replicate (2 ^ 31 - 1) (seq_round 0))) (seq_rounds 0) = Some (seq_rounds (2 ^ 31 - 1))"
    using exec_replicate_rounds [of seq_step "seq_round 0" seq_rounds "2 ^ 31 - 1" 0] by simp
  define s where "s = (seq_rounds (Suc (2 ^ 31 - 1)))\<lparr>sq_data := 7\<rparr>"
  have c: "exec seq_step (seq_round 7) (seq_rounds (2 ^ 31 - 1)) = Some s" unfolding s_def by (rule exec_seq_round)
  from a b c have "reach seq_step (seq_start 0) s" by (metis exec_reach reach_trans)
  moreover have "seqcount (sq_lock s) = 0" "sq_pcs s 1 = SqRead 0 [0]" "sq_data s = 7"
    by (simp_all add: s_def seq_rounds_def)
  moreover from this have "seqlock_rend (sq_lock s) 0 = Ret True"
    by (simp add: seqlock_rend_def VIS_EVEN_def vatomic_simps)
  ultimately show ?thesis by blast
qed

end
