(* ===== verification/Seqcount.thy ===== *)
theory Seqcount
  imports Seqlock
begin

text \<open>
  The sequence counter, \<^verbatim>\<open>spinlock/seqcount.h\<close>, for one writer and any number of readers. Its steps have
  the same effects on the counter, the data and the readers as those of the sequence lock
  with one writer, so its readers are consistent for the same reason.
\<close>

section \<open>Operations\<close>

definition SEQCOUNT_STEP :: u32 where "SEQCOUNT_STEP = 2"

definition seqcount_init :: "u32 \<Rightarrow> u32" where
  "seqcount_init sc = vatomic32_init sc 0"

datatype wbegin_pc = WbRead | WbWrite u32

fun seqcount_wbegin :: "wbegin_pc \<Rightarrow> u32 \<Rightarrow> (wbegin_pc + u32) \<times> u32" where
  "seqcount_wbegin WbRead sc = (Inl (WbWrite (vatomic32_read sc)), sc)"
| "seqcount_wbegin (WbWrite s) sc = (Inr s, vatomic32_write sc (s + 1))"

definition seqcount_wend :: "u32 \<Rightarrow> u32 \<Rightarrow> u32" where
  "seqcount_wend sc s = vatomic32_write sc (s + SEQCOUNT_STEP)"

definition seqcount_rbegin :: "u32 \<Rightarrow> u32" where
  "seqcount_rbegin sc = vatomic32_read sc AND NOT 1"

definition seqcount_rend :: "u32 \<Rightarrow> u32 \<Rightarrow> bool" where
  "seqcount_rend sc s \<longleftrightarrow> vatomic32_read sc = s"

section \<open>One writer and its readers\<close>

text \<open>Thread 0 is the writer, as the interface asks for; every other thread reads.\<close>

datatype 'd sc_pc = ScIdle | ScBegin wbegin_pc | ScWrite u32 | ScRead u32 "'d list"

datatype 'd sc_cmd = ScWbegin | ScStore 'd | ScWend | ScRbegin | ScLoad | ScRend | ScRun

record 'd sc_sys =
  sc_count :: u32
  sc_data :: 'd
  sc_pcs :: "tid \<Rightarrow> 'd sc_pc"

definition sc_start :: "'d \<Rightarrow> 'd sc_sys" where
  "sc_start d = \<lparr>sc_count = seqcount_init 0, sc_data = d, sc_pcs = (\<lambda>_. ScIdle)\<rparr>"

definition sc_goto :: "'d sc_sys \<Rightarrow> tid \<Rightarrow> u32 \<Rightarrow> 'd sc_pc \<Rightarrow> 'd sc_sys" where
  "sc_goto s t c pc = s\<lparr>sc_count := c, sc_pcs := (sc_pcs s)(t := pc)\<rparr>"

definition sc_begin_step :: "'d sc_sys \<Rightarrow> tid \<Rightarrow> wbegin_pc \<Rightarrow> 'd sc_sys option" where
  "sc_begin_step s t pc =
     (case seqcount_wbegin pc (sc_count s) of (r, c) \<Rightarrow> Some (sc_goto s t c (case r of Inl pc' \<Rightarrow> ScBegin pc' | Inr sv \<Rightarrow> ScWrite sv)))"

fun sc_step :: "tid \<times> 'd sc_cmd \<Rightarrow> 'd sc_sys \<Rightarrow> 'd sc_sys option" where
  "sc_step (t, cmd) s =
     (case (sc_pcs s t, cmd) of
        (ScIdle, ScWbegin) \<Rightarrow> if t = 0 then sc_begin_step s t WbRead else None
      | (ScBegin pc, ScRun) \<Rightarrow> sc_begin_step s t pc
      | (ScWrite sv, ScStore d) \<Rightarrow> Some (s\<lparr>sc_data := d\<rparr>)
      | (ScWrite sv, ScWend) \<Rightarrow> Some (sc_goto s t (seqcount_wend (sc_count s) sv) ScIdle)
      | (ScIdle, ScRbegin) \<Rightarrow> if t \<noteq> 0 then Some (sc_goto s t (sc_count s) (ScRead (seqcount_rbegin (sc_count s)) [])) else None
      | (ScRead sv obs, ScLoad) \<Rightarrow> Some (sc_goto s t (sc_count s) (ScRead sv (obs @ [sc_data s])))
      | (ScRead sv obs, ScRend) \<Rightarrow> Some (sc_goto s t (sc_count s) ScIdle)
      | _ \<Rightarrow> None)"

section \<open>As a sequence lock\<close>

fun sc_abs_pc :: "'d sc_pc \<Rightarrow> 'd seq_pc" where
  "sc_abs_pc (ScWrite _) = SqWrite"
| "sc_abs_pc (ScRead sv obs) = SqRead sv obs"
| "sc_abs_pc _ = SqIdle"

definition sc_abs :: "'d sc_sys \<Rightarrow> 'd seq_sys" where
  "sc_abs s = \<lparr>sq_lock = \<lparr>seqcount = sc_count s\<rparr>, sq_data = sc_data s, sq_pcs = (\<lambda>t. sc_abs_pc (sc_pcs s t))\<rparr>"

text \<open>The writer's local copy of the counter, and that only thread 0 writes.\<close>

definition sc_local :: "'d sc_sys \<Rightarrow> bool" where
  "sc_local s \<longleftrightarrow> (\<forall>t sv. sc_pcs s t = ScWrite sv \<longrightarrow> t = 0 \<and> sc_count s = sv + 1) \<and>
     (\<forall>t pc. sc_pcs s t = ScBegin pc \<longrightarrow> t = 0 \<and> pc = WbWrite (sc_count s))"

lemma sc_localD:
  assumes "sc_local s"
  shows "sc_pcs s t = ScWrite sv \<Longrightarrow> t = 0 \<and> sc_count s = sv + 1"
    "sc_pcs s t = ScBegin pc \<Longrightarrow> t = 0 \<and> pc = WbWrite (sc_count s)"
  using assms unfolding sc_local_def by blast+

lemma sc_abs_goto: "sc_abs (sc_goto s t c pc) = sq_goto (sc_abs s) t \<lparr>seqcount = c\<rparr> (sc_abs_pc pc)"
  by (auto simp: sc_abs_def sc_goto_def sq_goto_def)

lemma sc_abs_sel [simp]:
  "sq_lock (sc_abs s) = \<lparr>seqcount = sc_count s\<rparr>" "sq_data (sc_abs s) = sc_data s"
  "sq_pcs (sc_abs s) t = sc_abs_pc (sc_pcs s t)"
  by (simp_all add: sc_abs_def)

lemma seqcount_rbegin_bounds: "even (seqcount_rbegin c)" "seqcount_rbegin c \<le> c"
proof -
  show "even (seqcount_rbegin c)" by (simp add: seqcount_rbegin_def even_and_iff)
  show "seqcount_rbegin c \<le> c" unfolding seqcount_rbegin_def vatomic32_read_def by (rule word_and_le2)
qed

lemma sc_inside: "sq_inside (sc_abs_pc pc) \<longleftrightarrow> (\<exists>sv. pc = ScWrite sv)"
  by (cases pc) auto

lemma sc_local_goto:
  assumes "sc_local s" and "c = sc_count s \<or> t = 0"
    and "\<And>sv. pc = ScWrite sv \<Longrightarrow> t = 0 \<and> c = sv + 1" and "\<And>q. pc = ScBegin q \<Longrightarrow> t = 0 \<and> q = WbWrite c"
  shows "sc_local (sc_goto s t c pc)"
  unfolding sc_local_def sc_goto_def
  using assms(2-4) sc_localD [OF assms(1)] by (auto split: if_splits) blast+

lemma sc_step_effect:
  assumes loc: "sc_local s" and w: "seq_winv (sc_abs s)" and step: "sc_step (t, cmd) s = Some s'"
  shows "sq_effect (sc_abs s) t (sc_abs s') \<and> sc_local s'"
proof (cases "sc_pcs s t")
  case ScIdle
  then consider "t = 0" "s' = sc_goto s t (sc_count s) (ScBegin (WbWrite (sc_count s)))"
    | "s' = sc_goto s t (sc_count s) (ScRead (seqcount_rbegin (sc_count s)) [])"
    using step by (cases cmd) (auto simp: sc_begin_step_def vatomic_simps split: if_splits)
  then show ?thesis
  proof cases
    case 1
    with ScIdle loc show ?thesis
      by (auto simp: sc_abs_goto sq_local_def intro!: sq_effect_local sc_local_goto)
  next
    case 2
    with ScIdle loc show ?thesis
      by (auto simp: sc_abs_goto sq_local_def seqcount_rbegin_bounds
          intro!: sq_effect_local sc_local_goto)
  qed
next
  case (ScBegin pc)
  with sc_localD(2) [OF loc] have pc: "t = 0" "pc = WbWrite (sc_count s)" by auto
  have s': "s' = sc_goto s t (sc_count s + 1) (ScWrite (sc_count s))"
    using step ScBegin pc by (cases cmd) (auto simp: sc_begin_step_def vatomic_simps)
  have "\<not> sq_inside (sc_abs_pc (sc_pcs s u))" for u
    using sc_localD(1) [OF loc, of u] ScBegin pc(1) unfolding sc_inside by (metis sc_pc.distinct(7))
  then have "even (sc_count s)" using seq_winvD(4) [OF w] by auto
  then show ?thesis using s' ScBegin pc loc by (auto simp: sc_abs_goto sq_effect_def intro!: sc_local_goto)
next
  case (ScWrite sv)
  with sc_localD(1) [OF loc] have t: "t = 0" "sc_count s = sv + 1" by auto
  consider d where "s' = s\<lparr>sc_data := d\<rparr>" | "s' = sc_goto s t (sv + 2) ScIdle"
    using step ScWrite by (cases cmd) (auto simp: seqcount_wend_def SEQCOUNT_STEP_def vatomic_simps)
  then show ?thesis
  proof cases
    case (1 d)
    then have "sc_abs s' = (sc_abs s)\<lparr>sq_data := d\<rparr>" "sc_local s'" using loc by (simp_all add: sc_abs_def sc_local_def)
    then show ?thesis using ScWrite by (auto simp: sq_effect_def)
  next
    case 2
    then show ?thesis using ScWrite t loc by (auto simp: sc_abs_goto sq_effect_def add.commute intro!: sc_local_goto)
  qed
next
  case (ScRead sv obs)
  have "even sv" using seq_winvD(3) [OF w, of t] ScRead by simp
  with step ScRead loc show ?thesis
    by (cases cmd) (auto simp: sc_abs_goto sq_local_def intro!: sq_effect_local sc_local_goto)
qed

definition sc_inv :: "nat \<times> 'd sc_sys \<Rightarrow> bool" where
  "sc_inv c \<longleftrightarrow> sc_local (snd c) \<and> seq_winv (sc_abs (snd c)) \<and> seq_rinv (fst c) (sc_abs (snd c))"

interpretation sc_users: inv_system "bounded (2 ^ 32 - 1) sc_step" "(0, sc_start d)" sc_inv for d
proof (unfold_locales, goal_cases)
  case 1
  show ?case
    by (simp add: sc_inv_def sc_start_def seqcount_init_def sc_local_def seq_winv_def seq_rinv_def vatomic_simps)
next
  case (2 c lab c')
  obtain m s t cmd where c: "c = (m, s)" "lab = (t, cmd)" by (cases c; cases lab)
  with 2 obtain s' where s': "m < 2 ^ 32 - 1" "sc_step (t, cmd) s = Some s'" "c' = (Suc m, s')"
    by (auto simp del: sc_step.simps split: if_splits)
  have inv: "sc_local s" "seq_winv (sc_abs s)" "seq_rinv m (sc_abs s)" using 2(1) c by (simp_all add: sc_inv_def)
  with sc_step_effect [OF inv(1,2) s'(2)] seq_winv_effect seq_rinv_effect [OF inv(3,2) s'(1)] s'(3) show ?case
    by (auto simp: sc_inv_def)
qed

text \<open>
  A read that \<open>seqcount_rend\<close> accepts is consistent: with one writer, in every execution of fewer than
  \<open>2^32\<close> steps, all values the reader loaded since \<open>seqcount_rbegin\<close> are the current value of
  the data and the writer is not between \<open>seqcount_wbegin\<close> and \<open>seqcount_wend\<close>.
\<close>

theorem seqcount_read_consistent:
  assumes "exec sc_step as (sc_start d) = Some s" and "length as < 2 ^ 32"
    and "sc_pcs s t = ScRead sv obs" and "seqcount_rend (sc_count s) sv"
  shows "(\<forall>d' \<in> set obs. d' = sc_data s) \<and> (\<forall>u k. sc_pcs s u \<noteq> ScWrite k)"
proof -
  have inv: "seq_winv (sc_abs s)" "seq_rinv (length as) (sc_abs s)"
    using sc_users.reach_inv [OF exec_bounded [OF assms(1)]] assms(2) by (simp_all add: sc_inv_def)
  have sv: "sv = sc_count s" using assms(4) by (simp add: seqcount_rend_def vatomic_simps)
  have "even (sc_count s)" using seq_winvD(3) [OF inv(1), of t] assms(3) sv by simp
  then have "sc_pcs s u \<noteq> ScWrite k" for u k using seq_winvD(1) [OF inv(1), of u] by auto
  moreover have "d' = sc_data s" if "d' \<in> set obs" for d'
    using seq_rinvD(3) [OF inv(2), of t sv obs d'] assms(3) sv that by simp
  ultimately show ?thesis by blast
qed

theorem seqcount_read_consistent_witness:
  "\<exists>s. exec sc_step [(0, ScWbegin), (0, ScRun), (1, ScRbegin), (0, ScStore 7), (0, ScWend), (2, ScRbegin), (1, ScLoad), (2, ScLoad)]
       (sc_start (3 :: int)) = Some s \<and> sc_pcs s 2 = ScRead 2 [7] \<and> seqcount_rend (sc_count s) 2 \<and>
     sc_pcs s 1 = ScRead 0 [7] \<and> \<not> seqcount_rend (sc_count s) 0 \<and> sc_data s = 7"
proof -
  let ?as = "[(0, ScWbegin), (0, ScRun), (1, ScRbegin), (0, ScStore 7), (0, ScWend), (2, ScRbegin), (1, ScLoad), (2, ScLoad)] :: (tid \<times> int sc_cmd) list"
  obtain s where e: "exec sc_step ?as (sc_start (3 :: int)) = Some s"
    and c: "sc_pcs s 2 = ScRead 2 [7]" "seqcount_rend (sc_count s) 2" "sc_pcs s 1 = ScRead 0 [7]" "\<not> seqcount_rend (sc_count s) 0"
    by (simp add: sc_start_def seqcount_init_def sc_begin_step_def sc_goto_def seqcount_wend_def SEQCOUNT_STEP_def
        seqcount_rbegin_def seqcount_rend_def vatomic_simps)
  have "length ?as < 2 ^ 32" by simp
  from seqcount_read_consistent [OF e this c(1,2)] e c show ?thesis by simp
qed

end
