(* ===== verification/Bitmap.thy ===== *)
theory Bitmap
  imports Vmath "HOL-Library.Sublist"
begin

text \<open>
  The bitmap, \<^verbatim>\<open>bitmap/bitmap.h\<close>: an array of 64-bit words. Indices (\<open>vsize_t\<close>) are natural numbers: the
  code computes quotients and remainders by 64 of an index below \<open>bit_cnt\<close>, their inverse and a
  successor bounded by \<open>maps_cnt\<close>, none of which can overflow 64 bits. Each operation is the
  whole call, without interference from other threads; a failed \<open>ASSERT\<close> is \<open>None\<close>.
\<close>

section \<open>The 64-bit atomics the bitmap uses\<close>

definition vatomic64_read :: "u64 \<Rightarrow> u64" where "vatomic64_read a = a"

definition vatomic64_write :: "u64 \<Rightarrow> u64 \<Rightarrow> u64" where "vatomic64_write a v = v"

definition vatomic64_init :: "u64 \<Rightarrow> u64 \<Rightarrow> u64" where "vatomic64_init a v = vatomic64_write a v"

definition vatomic64_get_or :: "u64 \<Rightarrow> u64 \<Rightarrow> u64 \<times> u64" where "vatomic64_get_or a v = (a, a OR v)"

definition vatomic64_get_and :: "u64 \<Rightarrow> u64 \<Rightarrow> u64 \<times> u64" where "vatomic64_get_and a v = (a, a AND v)"

definition vatomic64_or_get :: "u64 \<Rightarrow> u64 \<Rightarrow> u64 \<times> u64" where
  "vatomic64_or_get a v = (let (o', a') = vatomic64_get_or a v in (o' OR v, a'))"

definition vatomic64_and_get :: "u64 \<Rightarrow> u64 \<Rightarrow> u64 \<times> u64" where
  "vatomic64_and_get a v = (let (o', a') = vatomic64_get_and a v in (o' AND v, a'))"

definition vatomic64_or :: "u64 \<Rightarrow> u64 \<Rightarrow> u64" where "vatomic64_or a v = snd (vatomic64_get_or a v)"

definition vatomic64_and :: "u64 \<Rightarrow> u64 \<Rightarrow> u64" where "vatomic64_and a v = snd (vatomic64_get_and a v)"

lemmas vatomic64_simps =
  vatomic64_read_def vatomic64_write_def vatomic64_init_def vatomic64_get_or_def vatomic64_get_and_def
  vatomic64_or_get_def vatomic64_and_get_def vatomic64_or_def vatomic64_and_def

section \<open>Masks\<close>

definition VBITMAP_CALC_SLOT_IDX :: "nat \<Rightarrow> nat" where "VBITMAP_CALC_SLOT_IDX i = i div 64"

definition VBITMAP_CALC_BIT_SLOT_IDX :: "nat \<Rightarrow> nat" where "VBITMAP_CALC_BIT_SLOT_IDX i = i mod 64"

definition VBITMAP_BIT_MASK :: "nat \<Rightarrow> u64" where
  "VBITMAP_BIT_MASK i = push_bit (VBITMAP_CALC_BIT_SLOT_IDX i) 1"

definition vbitmap_lsb_mask :: "nat \<Rightarrow> u64" where
  "vbitmap_lsb_mask idx = NOT (push_bit idx 1 - 1)"

definition vbitmap_msb_mask :: "nat \<Rightarrow> u64" where
  "vbitmap_msb_mask idx = (let m = push_bit idx 1 in m + (m - 1))"

definition vbitmap_range_mask :: "nat \<Rightarrow> nat \<Rightarrow> u64" where
  "vbitmap_range_mask from to = (let lsb = vbitmap_lsb_mask from; msb = vbitmap_msb_mask to in msb AND lsb)"

lemma bit_BIT_MASK: "bit (VBITMAP_BIT_MASK i) n \<longleftrightarrow> n = i mod 64"
  by (auto simp: VBITMAP_BIT_MASK_def VBITMAP_CALC_BIT_SLOT_IDX_def bit_simps)

lemma bit_lsb_mask: "bit (vbitmap_lsb_mask i) n \<longleftrightarrow> n < 64 \<and> i \<le> n"
proof -
  have "push_bit i 1 - 1 = (mask i :: u64)" by (simp add: mask_eq_exp_minus_1 push_bit_eq_mult)
  then show ?thesis by (auto simp: vbitmap_lsb_mask_def bit_simps)
qed

lemma bit_msb_mask: "i < 64 \<Longrightarrow> bit (vbitmap_msb_mask i) n \<longleftrightarrow> n \<le> i"
proof -
  assume i: "i < 64"
  have "vbitmap_msb_mask i = (mask (Suc i) :: u64)"
    by (simp add: vbitmap_msb_mask_def mask_eq_exp_minus_1 push_bit_eq_mult)
  with i show ?thesis by (auto simp: bit_simps)
qed

lemma bit_range_mask: "j < 64 \<Longrightarrow> bit (vbitmap_range_mask i j) n \<longleftrightarrow> i \<le> n \<and> n \<le> j"
  by (auto simp: vbitmap_range_mask_def Let_def bit_and_iff bit_lsb_mask bit_msb_mask)

section \<open>Operations\<close>

record vbitmap_t =
  maps_cnt :: nat
  bit_cnt :: nat
  maps :: "u64 list"

text \<open>The size in bytes: the two counters (16 bytes) and 8 bytes per word.\<close>

definition vbitmap_size :: "nat \<Rightarrow> nat" where
  "vbitmap_size bit_count = 16 + VCEIL_DIV bit_count 64 * 8"

definition vbitmap_init :: "nat \<Rightarrow> bool \<Rightarrow> vbitmap_t" where
  "vbitmap_init bit_count set_all =
     (let n = VCEIL_DIV bit_count 64; init_val = (if set_all then - 1 else 0)
      in \<lparr>maps_cnt = n, bit_cnt = bit_count, maps = map (\<lambda>_. vatomic64_init 0 init_val) [0..<n]\<rparr>)"

text \<open>Writing \<open>v\<close> into the slots from \<open>i\<close> up to but not including \<open>n\<close>.\<close>

function fill_slots :: "nat \<Rightarrow> nat \<Rightarrow> u64 \<Rightarrow> u64 list \<Rightarrow> u64 list" where
  "fill_slots i n v ms = (if i < n then fill_slots (Suc i) n v (ms[i := vatomic64_write (ms ! i) v]) else ms)"
  by pat_completeness auto

termination fill_slots
  by (relation "measure (\<lambda>(i, n, v, ms). n - i)") auto

declare fill_slots.simps [simp del]

definition vbitmap_clear :: "vbitmap_t \<Rightarrow> vbitmap_t" where
  "vbitmap_clear b = b\<lparr>maps := fill_slots 0 (maps_cnt b) 0 (maps b)\<rparr>"

definition vbitmap_get :: "vbitmap_t \<Rightarrow> nat \<Rightarrow> bool option" where
  "vbitmap_get b bit_idx =
     (let idx = VBITMAP_CALC_SLOT_IDX bit_idx; m = VBITMAP_BIT_MASK bit_idx
      in if bit_idx < bit_cnt b \<and> idx < maps_cnt b
         then Some (vatomic64_read (maps b ! idx) AND m = m) else None)"

definition vbitmap_set_bit :: "vbitmap_t \<Rightarrow> nat \<Rightarrow> vbitmap_t option" where
  "vbitmap_set_bit b bit_idx =
     (let idx = VBITMAP_CALC_SLOT_IDX bit_idx; m = VBITMAP_BIT_MASK bit_idx
      in if bit_idx < bit_cnt b \<and> idx < maps_cnt b
         then let (val, a) = vatomic64_or_get (maps b ! idx) m
              in if val AND m = m then Some (b\<lparr>maps := (maps b)[idx := a]\<rparr>) else None
         else None)"

definition vbitmap_clr_bit :: "vbitmap_t \<Rightarrow> nat \<Rightarrow> vbitmap_t option" where
  "vbitmap_clr_bit b bit_idx =
     (let idx = VBITMAP_CALC_SLOT_IDX bit_idx; m = VBITMAP_BIT_MASK bit_idx
      in if bit_idx < bit_cnt b \<and> idx < maps_cnt b
         then let (val, a) = vatomic64_and_get (maps b ! idx) (NOT m)
              in if val AND m = 0 then Some (b\<lparr>maps := (maps b)[idx := a]\<rparr>) else None
         else None)"

definition vbitbmap_set_slot :: "vbitmap_t \<Rightarrow> nat \<Rightarrow> u64 \<Rightarrow> vbitmap_t option" where
  "vbitbmap_set_slot b idx m =
     (if idx < maps_cnt b then Some (b\<lparr>maps := (maps b)[idx := vatomic64_or (maps b ! idx) m]\<rparr>) else None)"

definition vbitbmap_clr_slot :: "vbitmap_t \<Rightarrow> nat \<Rightarrow> u64 \<Rightarrow> vbitmap_t option" where
  "vbitbmap_clr_slot b idx m =
     (if idx < maps_cnt b then Some (b\<lparr>maps := (maps b)[idx := vatomic64_and (maps b ! idx) m]\<rparr>) else None)"

definition vbitmap_set_range :: "vbitmap_t \<Rightarrow> nat \<Rightarrow> nat \<Rightarrow> vbitmap_t option" where
  "vbitmap_set_range b from to =
     (let lsb_slot = VBITMAP_CALC_SLOT_IDX from; msb_slot = VBITMAP_CALC_SLOT_IDX to;
          lsb_idx = VBITMAP_CALC_BIT_SLOT_IDX from; msb_idx = VBITMAP_CALC_BIT_SLOT_IDX to
      in if \<not> (from \<le> to \<and> to < bit_cnt b \<and> lsb_slot \<le> msb_slot \<and> msb_slot < maps_cnt b) then None
         else if lsb_slot = msb_slot then vbitbmap_set_slot b lsb_slot (vbitmap_range_mask lsb_idx msb_idx)
         else case vbitbmap_set_slot b lsb_slot (vbitmap_lsb_mask lsb_idx) of
             None \<Rightarrow> None
           | Some b1 \<Rightarrow> vbitbmap_set_slot (b1\<lparr>maps := fill_slots (lsb_slot + 1) msb_slot (- 1) (maps b1)\<rparr>) msb_slot (vbitmap_msb_mask msb_idx))"

definition vbitmap_clr_range :: "vbitmap_t \<Rightarrow> nat \<Rightarrow> nat \<Rightarrow> vbitmap_t option" where
  "vbitmap_clr_range b from to =
     (let lsb_slot = VBITMAP_CALC_SLOT_IDX from; msb_slot = VBITMAP_CALC_SLOT_IDX to;
          lsb_idx = VBITMAP_CALC_BIT_SLOT_IDX from; msb_idx = VBITMAP_CALC_BIT_SLOT_IDX to
      in if \<not> (from \<le> to \<and> to < bit_cnt b \<and> lsb_slot \<le> msb_slot \<and> msb_slot < maps_cnt b) then None
         else if lsb_slot = msb_slot then vbitbmap_clr_slot b lsb_slot (NOT (vbitmap_range_mask lsb_idx msb_idx))
         else case vbitbmap_clr_slot b lsb_slot (NOT (vbitmap_lsb_mask lsb_idx)) of
             None \<Rightarrow> None
           | Some b1 \<Rightarrow> vbitbmap_clr_slot (b1\<lparr>maps := fill_slots (lsb_slot + 1) msb_slot 0 (maps b1)\<rparr>) msb_slot (NOT (vbitmap_msb_mask msb_idx)))"

section \<open>The bits of a bitmap\<close>

definition vbit :: "vbitmap_t \<Rightarrow> nat \<Rightarrow> bool" where
  "vbit b i \<longleftrightarrow> bit (maps b ! (i div 64)) (i mod 64)"

definition vbitmap_wf :: "vbitmap_t \<Rightarrow> bool" where
  "vbitmap_wf b \<longleftrightarrow> maps_cnt b = VCEIL_DIV (bit_cnt b) 64 \<and> length (maps b) = maps_cnt b"

lemma slot_in_range:
  assumes "vbitmap_wf b" and "i < bit_cnt b"
  shows "i div 64 < maps_cnt b" and "i div 64 < length (maps b)"
proof -
  have "i div 64 < VCEIL_DIV (bit_cnt b) 64"
    using assms(2) by (auto simp: VCEIL_DIV_def div_less_iff_less_mult less_mult_imp_div_less)
  then show "i div 64 < maps_cnt b" and "i div 64 < length (maps b)" using assms(1) by (simp_all add: vbitmap_wf_def)
qed

lemma and_BIT_MASK:
  "w AND VBITMAP_BIT_MASK i = VBITMAP_BIT_MASK i \<longleftrightarrow> bit w (i mod 64)"
  "w AND VBITMAP_BIT_MASK i = 0 \<longleftrightarrow> \<not> bit w (i mod 64)"
proof -
  have b: "bit (w AND VBITMAP_BIT_MASK i) n \<longleftrightarrow> bit w (i mod 64) \<and> n = i mod 64" for n
    by (auto simp: bit_and_iff bit_BIT_MASK)
  show "w AND VBITMAP_BIT_MASK i = VBITMAP_BIT_MASK i \<longleftrightarrow> bit w (i mod 64)"
    using b by (metis bit_BIT_MASK bit_eq_iff)
  show "w AND VBITMAP_BIT_MASK i = 0 \<longleftrightarrow> \<not> bit w (i mod 64)"
    using b by (metis bit_0_eq bit_eq_iff bot_apply bot_bool_def)
qed

lemma vbitmap_get_vbit:
  "vbitmap_wf b \<Longrightarrow> i < bit_cnt b \<Longrightarrow> vbitmap_get b i = Some (vbit b i)"
  by (simp add: vbitmap_get_def vbit_def Let_def VBITMAP_CALC_SLOT_IDX_def slot_in_range vatomic64_simps and_BIT_MASK)

lemma length_fill_slots [simp]: "length (fill_slots i n v ms) = length ms"
  by (induction i n v ms rule: fill_slots.induct) (subst fill_slots.simps, simp)

lemma nth_fill_slots:
  "k < length ms \<Longrightarrow> fill_slots i n v ms ! k = (if i \<le> k \<and> k < n then v else ms ! k)"
proof (induction i n v ms rule: fill_slots.induct)
  case (1 i n v ms)
  then show ?case by (subst fill_slots.simps) (auto simp: vatomic64_simps nth_list_update)
qed

text \<open>The positions a range covers, slot by slot.\<close>

lemma block_le: "a < 64 \<Longrightarrow> j < 64 \<Longrightarrow> 64 * L + a \<le> 64 * k + (j :: nat) \<longleftrightarrow> L < k \<or> L = k \<and> a \<le> j"
  by (cases L k rule: linorder_cases) auto

lemma range_slots:
  fixes lo hi k j :: nat
  assumes "j < 64" and "lo \<le> hi"
  shows "(lo \<le> 64 * k + j \<and> 64 * k + j \<le> hi) \<longleftrightarrow>
    (if lo div 64 = hi div 64 then k = lo div 64 \<and> lo mod 64 \<le> j \<and> j \<le> hi mod 64
     else k = lo div 64 \<and> lo mod 64 \<le> j \<or> lo div 64 < k \<and> k < hi div 64 \<or> k = hi div 64 \<and> j \<le> hi mod 64)"
proof -
  define L a M z where d: "L = lo div 64" "a = lo mod 64" "M = hi div 64" "z = hi mod 64"
  then have f: "lo = 64 * L + a" "a < 64" "hi = 64 * M + z" "z < 64" by simp_all
  have "L \<le> M" unfolding d by (rule div_le_mono [OF assms(2)])
  then have "(64 * L + a \<le> 64 * k + j \<and> 64 * k + j \<le> 64 * M + z) \<longleftrightarrow>
    (if L = M then k = L \<and> a \<le> j \<and> j \<le> z else k = L \<and> a \<le> j \<or> L < k \<and> k < M \<or> k = M \<and> j \<le> z)"
    using assms(1) f(2,4) by (auto simp: block_le)
  then show ?thesis unfolding d by simp
qed

section \<open>Changing bits\<close>

text \<open>\<open>b'\<close> is \<open>b\<close> with the bits of index \<open>i\<close> given by \<open>f i\<close>.\<close>

definition rebit :: "(nat \<Rightarrow> bool) \<Rightarrow> vbitmap_t \<Rightarrow> vbitmap_t \<Rightarrow> bool" where
  "rebit f b b' \<longleftrightarrow> vbitmap_wf b' \<and> bit_cnt b' = bit_cnt b \<and> (\<forall>i. i div 64 < maps_cnt b \<longrightarrow> vbit b' i = f i)"

lemma rebit_get:
  assumes "rebit f b b'" and "vbitmap_wf b" and "i < bit_cnt b"
  shows "vbitmap_get b' i = Some (f i)"
  using assms slot_in_range [OF assms(2,3)] by (simp add: rebit_def vbitmap_get_vbit)

lemma rebitI:
  assumes "vbitmap_wf b" and "length ms = length (maps b)"
    and "\<And>k j. k < maps_cnt b \<Longrightarrow> j < 64 \<Longrightarrow> bit (ms ! k) j = f (64 * k + j)"
  shows "rebit f b (b\<lparr>maps := ms\<rparr>)"
proof -
  have "bit (ms ! (i div 64)) (i mod 64) = f i" if "i div 64 < maps_cnt b" for i
    using assms(3) [OF that, of "i mod 64"] by simp
  with assms(1,2) show ?thesis by (simp add: rebit_def vbitmap_wf_def vbit_def)
qed

lemma vbit_at: "j < 64 \<Longrightarrow> vbit b (64 * k + j) = bit (maps b ! k) j"
  by (simp add: vbit_def)

lemma index_at: "j < 64 \<Longrightarrow> (64 * k + j = i) \<longleftrightarrow> k = i div 64 \<and> j = i mod (64 :: nat)"
  by auto

lemma vbitmap_set_bit_rebit:
  assumes wf: "vbitmap_wf b" and i: "i < bit_cnt b"
  shows "\<exists>b'. vbitmap_set_bit b i = Some b' \<and> rebit (\<lambda>j. j = i \<or> vbit b j) b b'"
proof -
  let ?w = "maps b ! (i div 64) OR VBITMAP_BIT_MASK i"
  have "?w AND VBITMAP_BIT_MASK i = VBITMAP_BIT_MASK i" by (simp add: and_BIT_MASK bit_or_iff bit_BIT_MASK)
  then have "vbitmap_set_bit b i = Some (b\<lparr>maps := (maps b)[i div 64 := ?w]\<rparr>)"
    using slot_in_range [OF wf i] i
    by (simp add: vbitmap_set_bit_def Let_def VBITMAP_CALC_SLOT_IDX_def vatomic64_simps)
  moreover have "rebit (\<lambda>j. j = i \<or> vbit b j) b (b\<lparr>maps := (maps b)[i div 64 := ?w]\<rparr>)"
    using wf slot_in_range(2) [OF wf i] by (intro rebitI)
      (auto simp: vbit_at index_at nth_list_update bit_or_iff bit_BIT_MASK vbitmap_wf_def)
  ultimately show ?thesis by blast
qed

lemma vbitmap_clr_bit_rebit:
  assumes wf: "vbitmap_wf b" and i: "i < bit_cnt b"
  shows "\<exists>b'. vbitmap_clr_bit b i = Some b' \<and> rebit (\<lambda>j. j \<noteq> i \<and> vbit b j) b b'"
proof -
  let ?w = "maps b ! (i div 64) AND NOT (VBITMAP_BIT_MASK i)"
  have "?w AND VBITMAP_BIT_MASK i = 0" by (simp add: and_BIT_MASK bit_and_iff bit_not_iff bit_BIT_MASK)
  then have "vbitmap_clr_bit b i = Some (b\<lparr>maps := (maps b)[i div 64 := ?w]\<rparr>)"
    using slot_in_range [OF wf i] i
    by (simp add: vbitmap_clr_bit_def Let_def VBITMAP_CALC_SLOT_IDX_def vatomic64_simps)
  moreover have "rebit (\<lambda>j. j \<noteq> i \<and> vbit b j) b (b\<lparr>maps := (maps b)[i div 64 := ?w]\<rparr>)"
    using wf slot_in_range(2) [OF wf i] by (intro rebitI)
      (auto simp: vbit_at index_at nth_list_update bit_and_iff bit_not_iff bit_BIT_MASK vbitmap_wf_def dest: bit_imp_le_length)
  ultimately show ?thesis by blast
qed

text \<open>The words a range operation leaves behind.\<close>

lemma vbitmap_set_range_rebit:
  assumes wf: "vbitmap_wf b" and le: "lo \<le> hi" and hi: "hi < bit_cnt b"
  shows "\<exists>b'. vbitmap_set_range b lo hi = Some b' \<and> rebit (\<lambda>i. lo \<le> i \<and> i \<le> hi \<or> vbit b i) b b'"
proof -
  let ?L = "lo div 64" and ?M = "hi div 64" and ?ms = "maps b"
  have M: "?M < maps_cnt b" "?M < length ?ms" by (rule slot_in_range [OF wf hi])+
  have LM: "?L \<le> ?M" by (rule div_le_mono [OF le])
  have len: "length ?ms = maps_cnt b" using wf by (simp add: vbitmap_wf_def)
  have z: "hi mod 64 < 64" by simp
  show ?thesis
  proof (cases "?L = ?M")
    case True
    let ?m = "?ms[?L := ?ms ! ?L OR vbitmap_range_mask (lo mod 64) (hi mod 64)]"
    have "vbitmap_set_range b lo hi = Some (b\<lparr>maps := ?m\<rparr>)"
      using True M le hi by (simp add: vbitmap_set_range_def Let_def VBITMAP_CALC_SLOT_IDX_def
          VBITMAP_CALC_BIT_SLOT_IDX_def vbitbmap_set_slot_def vatomic64_simps)
    moreover have "rebit (\<lambda>i. lo \<le> i \<and> i \<le> hi \<or> vbit b i) b (b\<lparr>maps := ?m\<rparr>)"
    proof (rule rebitI [OF wf], simp)
      fix k j :: nat assume "k < maps_cnt b" "j < 64"
      then show "bit (?m ! k) j = (lo \<le> 64 * k + j \<and> 64 * k + j \<le> hi \<or> vbit b (64 * k + j))"
        unfolding range_slots [OF \<open>j < 64\<close> le]
        using True M len by (auto simp: vbit_at nth_list_update bit_or_iff bit_range_mask)
    qed
    ultimately show ?thesis by blast
  next
    case False
    let ?m1 = "?ms[?L := ?ms ! ?L OR vbitmap_lsb_mask (lo mod 64)]"
    let ?m2 = "fill_slots (Suc ?L) ?M (- 1) ?m1"
    let ?m3 = "?m2[?M := ?m2 ! ?M OR vbitmap_msb_mask (hi mod 64)]"
    have L: "?L < maps_cnt b" using M LM by simp
    have "vbitmap_set_range b lo hi = Some (b\<lparr>maps := ?m3\<rparr>)"
      using False M L LM le hi by (simp add: vbitmap_set_range_def Let_def VBITMAP_CALC_SLOT_IDX_def
          VBITMAP_CALC_BIT_SLOT_IDX_def vbitbmap_set_slot_def vatomic64_simps)
    moreover have "rebit (\<lambda>i. lo \<le> i \<and> i \<le> hi \<or> vbit b i) b (b\<lparr>maps := ?m3\<rparr>)"
    proof (rule rebitI [OF wf], simp)
      fix k j :: nat assume "k < maps_cnt b" "j < 64"
      then show "bit (?m3 ! k) j = (lo \<le> 64 * k + j \<and> 64 * k + j \<le> hi \<or> vbit b (64 * k + j))"
        unfolding range_slots [OF \<open>j < 64\<close> le]
        using False LM M len by (auto simp: vbit_at nth_list_update nth_fill_slots bit_or_iff bit_lsb_mask bit_msb_mask [OF z])
    qed
    ultimately show ?thesis by blast
  qed
qed

lemma vbitmap_clr_range_rebit:
  assumes wf: "vbitmap_wf b" and le: "lo \<le> hi" and hi: "hi < bit_cnt b"
  shows "\<exists>b'. vbitmap_clr_range b lo hi = Some b' \<and> rebit (\<lambda>i. \<not> (lo \<le> i \<and> i \<le> hi) \<and> vbit b i) b b'"
proof -
  let ?L = "lo div 64" and ?M = "hi div 64" and ?ms = "maps b"
  have M: "?M < maps_cnt b" "?M < length ?ms" by (rule slot_in_range [OF wf hi])+
  have LM: "?L \<le> ?M" by (rule div_le_mono [OF le])
  have len: "length ?ms = maps_cnt b" using wf by (simp add: vbitmap_wf_def)
  have z: "hi mod 64 < 64" by simp
  show ?thesis
  proof (cases "?L = ?M")
    case True
    let ?m = "?ms[?L := ?ms ! ?L AND NOT (vbitmap_range_mask (lo mod 64) (hi mod 64))]"
    have "vbitmap_clr_range b lo hi = Some (b\<lparr>maps := ?m\<rparr>)"
      using True M le hi by (simp add: vbitmap_clr_range_def Let_def VBITMAP_CALC_SLOT_IDX_def
          VBITMAP_CALC_BIT_SLOT_IDX_def vbitbmap_clr_slot_def vatomic64_simps)
    moreover have "rebit (\<lambda>i. \<not> (lo \<le> i \<and> i \<le> hi) \<and> vbit b i) b (b\<lparr>maps := ?m\<rparr>)"
    proof (rule rebitI [OF wf], simp)
      fix k j :: nat assume "k < maps_cnt b" "j < 64"
      then show "bit (?m ! k) j = (\<not> (lo \<le> 64 * k + j \<and> 64 * k + j \<le> hi) \<and> vbit b (64 * k + j))"
        unfolding range_slots [OF \<open>j < 64\<close> le]
        using True M len by (auto simp: vbit_at nth_list_update bit_and_iff bit_not_iff bit_range_mask)
    qed
    ultimately show ?thesis by blast
  next
    case False
    let ?m1 = "?ms[?L := ?ms ! ?L AND NOT (vbitmap_lsb_mask (lo mod 64))]"
    let ?m2 = "fill_slots (Suc ?L) ?M 0 ?m1"
    let ?m3 = "?m2[?M := ?m2 ! ?M AND NOT (vbitmap_msb_mask (hi mod 64))]"
    have L: "?L < maps_cnt b" using M LM by simp
    have "vbitmap_clr_range b lo hi = Some (b\<lparr>maps := ?m3\<rparr>)"
      using False M L LM le hi by (simp add: vbitmap_clr_range_def Let_def VBITMAP_CALC_SLOT_IDX_def
          VBITMAP_CALC_BIT_SLOT_IDX_def vbitbmap_clr_slot_def vatomic64_simps)
    moreover have "rebit (\<lambda>i. \<not> (lo \<le> i \<and> i \<le> hi) \<and> vbit b i) b (b\<lparr>maps := ?m3\<rparr>)"
    proof (rule rebitI [OF wf], simp)
      fix k j :: nat assume "k < maps_cnt b" "j < 64"
      then show "bit (?m3 ! k) j = (\<not> (lo \<le> 64 * k + j \<and> 64 * k + j \<le> hi) \<and> vbit b (64 * k + j))"
        unfolding range_slots [OF \<open>j < 64\<close> le]
        using False LM M len by (auto simp: vbit_at nth_list_update nth_fill_slots bit_and_iff bit_not_iff bit_lsb_mask bit_msb_mask [OF z])
    qed
    ultimately show ?thesis by blast
  qed
qed

text \<open>
  Range updates of the bitmap are exact: on a well-formed bitmap, for any range within it, no
  \<open>ASSERT\<close> fails, \<open>vbitmap_set_range\<close> sets and \<open>vbitmap_clr_range\<close> clears every bit whose index
  lies in the range, borders included, and every other bit keeps its value, for ranges inside a
  word, across two words and over many words.
\<close>

theorem vbitmap_range_exact:
  assumes "vbitmap_wf b" and "lo \<le> hi" and "hi < bit_cnt b"
  shows "(\<exists>b'. vbitmap_set_range b lo hi = Some b' \<and> vbitmap_wf b' \<and> bit_cnt b' = bit_cnt b \<and>
      (\<forall>i < bit_cnt b. vbitmap_get b' i = (if lo \<le> i \<and> i \<le> hi then Some True else vbitmap_get b i))) \<and>
    (\<exists>b'. vbitmap_clr_range b lo hi = Some b' \<and> vbitmap_wf b' \<and> bit_cnt b' = bit_cnt b \<and>
      (\<forall>i < bit_cnt b. vbitmap_get b' i = (if lo \<le> i \<and> i \<le> hi then Some False else vbitmap_get b i)))"
proof -
  obtain b1 where b1: "vbitmap_set_range b lo hi = Some b1" "rebit (\<lambda>i. lo \<le> i \<and> i \<le> hi \<or> vbit b i) b b1"
    using vbitmap_set_range_rebit [OF assms] by blast
  obtain b2 where b2: "vbitmap_clr_range b lo hi = Some b2" "rebit (\<lambda>i. \<not> (lo \<le> i \<and> i \<le> hi) \<and> vbit b i) b b2"
    using vbitmap_clr_range_rebit [OF assms] by blast
  have "vbitmap_get b1 i = (if lo \<le> i \<and> i \<le> hi then Some True else vbitmap_get b i)"
    "vbitmap_get b2 i = (if lo \<le> i \<and> i \<le> hi then Some False else vbitmap_get b i)" if "i < bit_cnt b" for i
    using rebit_get [OF b1(2) assms(1) that] rebit_get [OF b2(2) assms(1) that] vbitmap_get_vbit [OF assms(1) that]
    by auto
  with b1 b2 show ?thesis unfolding rebit_def by blast
qed

lemma vbitmap_init_wf: "vbitmap_wf (vbitmap_init n s)" "bit_cnt (vbitmap_init n s) = n"
  by (simp_all add: vbitmap_wf_def vbitmap_init_def Let_def)

theorem vbitmap_range_exact_witness:
  "\<exists>b'. vbitmap_set_range (vbitmap_init 200 False) 60 130 = Some b' \<and> vbitmap_get b' 130 = Some True \<and>
     vbitmap_get b' 131 = vbitmap_get (vbitmap_init 200 False) 131"
proof -
  have "60 \<le> (130 :: nat)" "130 < bit_cnt (vbitmap_init 200 False)" by (simp_all add: vbitmap_init_wf)
  from vbitmap_range_exact [OF vbitmap_init_wf(1) this] obtain b'
    where b': "vbitmap_set_range (vbitmap_init 200 False) 60 130 = Some b'"
    and get: "\<forall>i < 200. vbitmap_get b' i = (if 60 \<le> i \<and> i \<le> 130 then Some True else vbitmap_get (vbitmap_init 200 False) i)"
    unfolding vbitmap_init_wf by blast
  have "vbitmap_get b' 130 = Some True" "vbitmap_get b' 131 = vbitmap_get (vbitmap_init 200 False) 131"
    using get [rule_format, of 130] get [rule_format, of 131] by simp_all
  with b' show ?thesis by blast
qed

section \<open>Iteration\<close>

text \<open>The iterator's pointer to its bitmap is the first argument of its operations.\<close>

record vbitmap_iter_t =
  iter_idx :: nat
  last_val :: u64

text \<open>\<open>__builtin_ctzll\<close>: the index of the lowest set bit; the code calls it on non-zero values only.\<close>

definition ctzll :: "u64 \<Rightarrow> nat" where
  "ctzll w = length (takeWhile (\<lambda>n. \<not> bit w n) [0..<64])"

definition vbitmap_iter_init :: "vbitmap_t \<Rightarrow> vbitmap_iter_t option" where
  "vbitmap_iter_init b =
     (if maps_cnt b > 0 then Some \<lparr>iter_idx = 0, last_val = vatomic64_read (maps b ! 0)\<rparr> else None)"

text \<open>The search for the next slot with a set bit, from slot \<open>idx\<close> on.\<close>

function iter_search :: "vbitmap_t \<Rightarrow> nat \<Rightarrow> vbitmap_iter_t \<Rightarrow> bool \<times> vbitmap_iter_t" where
  "iter_search b idx it =
     (if idx < maps_cnt b then
        let it' = it\<lparr>last_val := vatomic64_read (maps b ! idx)\<rparr>
        in if last_val it' \<noteq> 0 then (True, it'\<lparr>iter_idx := idx\<rparr>) else iter_search b (idx + 1) it'
      else (False, it))"
  by pat_completeness auto

termination iter_search
  by (relation "measure (\<lambda>(b, idx, it). maps_cnt b - idx)") auto

declare iter_search.simps [simp del]

definition iter_take :: "vbitmap_t \<Rightarrow> vbitmap_iter_t \<Rightarrow> nat option \<times> vbitmap_iter_t" where
  "iter_take b it =
     (let bit_idx = ctzll (last_val it); out_idx = 64 * iter_idx it + bit_idx
      in if out_idx \<ge> bit_cnt b then (None, it)
         else (Some out_idx, it\<lparr>last_val := last_val it AND NOT (VBITMAP_BIT_MASK bit_idx)\<rparr>))"

definition vbitmap_iter_next :: "vbitmap_t \<Rightarrow> vbitmap_iter_t \<Rightarrow> nat option \<times> vbitmap_iter_t" where
  "vbitmap_iter_next b it =
     (if last_val it = 0 then
        (case iter_search b (iter_idx it + 1) it of (found, it') \<Rightarrow> if found then iter_take b it' else (None, it'))
      else iter_take b it)"

text \<open>A client's loop: \<open>while (vbitmap_iter_next(&iter, &i))\<close>, with at most \<open>n\<close> calls.\<close>

fun iter_all :: "nat \<Rightarrow> vbitmap_t \<Rightarrow> vbitmap_iter_t \<Rightarrow> nat list option" where
  "iter_all 0 b it = None"
| "iter_all (Suc n) b it =
     (case vbitmap_iter_next b it of (None, it') \<Rightarrow> Some [] | (Some i, it') \<Rightarrow> map_option (Cons i) (iter_all n b it'))"

subsection \<open>What is left to visit\<close>

definition bits_of :: "u64 \<Rightarrow> nat list" where
  "bits_of w = filter (bit w) [0..<64]"

definition slot_bits :: "vbitmap_t \<Rightarrow> nat \<Rightarrow> nat list" where
  "slot_bits b k = map (\<lambda>j. 64 * k + j) (bits_of (maps b ! k))"

definition pending :: "vbitmap_t \<Rightarrow> vbitmap_iter_t \<Rightarrow> nat list" where
  "pending b it = map (\<lambda>j. 64 * iter_idx it + j) (bits_of (last_val it)) @
     concat (map (slot_bits b) [Suc (iter_idx it)..<maps_cnt b])"

lemma bits_of_0 [simp]: "bits_of 0 = []"
  by (simp add: bits_of_def)

lemma bits_of_ne: "w \<noteq> 0 \<Longrightarrow> bits_of w \<noteq> []"
proof -
  assume "w \<noteq> 0"
  then obtain n where "bit w n" by (metis bit_0_eq bit_eq_iff bot_apply bot_bool_def)
  then show ?thesis using bit_imp_le_length [of w n] by (auto simp: bits_of_def filter_empty_conv)
qed

lemma filter_takeWhile_hd:
  assumes "filter P xs \<noteq> []"
  shows "length (takeWhile (\<lambda>x. \<not> P x) xs) < length xs"
    "hd (filter P xs) = xs ! length (takeWhile (\<lambda>x. \<not> P x) xs)"
  using assms by (induction xs) auto

lemma ctzll_hd: "w \<noteq> 0 \<Longrightarrow> ctzll w < 64 \<and> hd (bits_of w) = ctzll w"
  using filter_takeWhile_hd [of "bit w" "[0..<64]"] bits_of_ne [of w] by (simp add: ctzll_def bits_of_def)

lemma distinct_filter_tl:
  "distinct xs \<Longrightarrow> xs \<noteq> [] \<Longrightarrow> filter (\<lambda>x. x \<noteq> hd xs) xs = tl xs" for xs :: "nat list"
  by (cases xs) (auto simp: filter_id_conv)

lemma bits_of_clear:
  assumes "w \<noteq> 0"
  shows "bits_of w = ctzll w # bits_of (w AND NOT (VBITMAP_BIT_MASK (ctzll w)))"
proof -
  have c: "ctzll w < 64" "hd (bits_of w) = ctzll w" using ctzll_hd [OF assms] by auto
  have "bits_of (w AND NOT (VBITMAP_BIT_MASK (ctzll w))) = filter (\<lambda>n. n \<noteq> ctzll w) (bits_of w)"
    using c(1) by (auto simp: bits_of_def bit_and_iff bit_not_iff bit_BIT_MASK intro!: filter_cong dest: bit_imp_le_length)
  also have "\<dots> = tl (bits_of w)"
    using c(2) distinct_filter_tl [of "bits_of w"] bits_of_ne [OF assms] by (simp add: bits_of_def)
  finally show ?thesis using bits_of_ne [OF assms] c(2) by (cases "bits_of w") simp_all
qed

lemma iter_search_pending:
  "iter_search b k it = (found, it') \<Longrightarrow>
   (if found then last_val it' \<noteq> 0 \<and> pending b it' = concat (map (slot_bits b) [k..<maps_cnt b])
    else concat (map (slot_bits b) [k..<maps_cnt b]) = [])"
proof (induction b k it rule: iter_search.induct)
  case (1 b k it)
  show ?case
  proof (cases "k < maps_cnt b")
    case True
    then have split: "concat (map (slot_bits b) [k..<maps_cnt b]) = slot_bits b k @ concat (map (slot_bits b) [Suc k..<maps_cnt b])"
      by (simp add: upt_conv_Cons)
    show ?thesis
    proof (cases "maps b ! k = 0")
      case zero: True
      with True 1(2) have "iter_search b (k + 1) (it\<lparr>last_val := vatomic64_read (maps b ! k)\<rparr>) = (found, it')"
        using iter_search.simps [of b k it] by (simp add: vatomic64_simps)
      from 1(1) [OF True refl _ this] zero have "if found
          then last_val it' \<noteq> 0 \<and> pending b it' = concat (map (slot_bits b) [Suc k..<maps_cnt b])
          else concat (map (slot_bits b) [Suc k..<maps_cnt b]) = []" by (cases found) (simp_all add: vatomic64_simps del: concat_eq_Nil_conv)
      moreover have "slot_bits b k = []" using zero by (simp add: slot_bits_def)
      ultimately show ?thesis unfolding split by (simp only: append_Nil)
    next
      case False
      with True 1(2) have "found" "it' = it\<lparr>last_val := maps b ! k, iter_idx := k\<rparr>"
        using iter_search.simps [of b k it] by (simp_all add: vatomic64_simps)
      with False split show ?thesis by (simp add: pending_def slot_bits_def)
    qed
  next
    case False
    with 1(2) iter_search.simps [of b k it] show ?thesis by simp
  qed
qed

lemma iter_take_pending:
  assumes "last_val it \<noteq> 0"
  shows "\<exists>x xs. pending b it = x # xs \<and>
    (if bit_cnt b \<le> x then fst (iter_take b it) = None
     else \<exists>it'. iter_take b it = (Some x, it') \<and> pending b it' = xs)"
  using bits_of_clear [OF assms] by (auto simp: pending_def iter_take_def Let_def)

lemma iter_next_pending:
  "case pending b it of
     [] \<Rightarrow> fst (vbitmap_iter_next b it) = None
   | x # xs \<Rightarrow> if bit_cnt b \<le> x then fst (vbitmap_iter_next b it) = None
       else \<exists>it'. vbitmap_iter_next b it = (Some x, it') \<and> pending b it' = xs"
proof (cases "last_val it = 0")
  case True
  obtain found it' where s: "iter_search b (iter_idx it + 1) it = (found, it')" by fastforce
  have p: "pending b it = concat (map (slot_bits b) [iter_idx it + 1..<maps_cnt b])" using True by (simp add: pending_def)
  show ?thesis
  proof (cases found)
    case found: True
    with iter_search_pending [OF s] p have "last_val it' \<noteq> 0" "pending b it' = pending b it" by simp_all
    moreover have "vbitmap_iter_next b it = iter_take b it'" using True s found by (simp add: vbitmap_iter_next_def)
    ultimately show ?thesis using iter_take_pending [of it' b] by auto
  next
    case False
    with iter_search_pending [OF s] p have "pending b it = []" by (simp only: if_False)
    with False s True show ?thesis by (simp add: vbitmap_iter_next_def)
  qed
next
  case False
  with iter_take_pending [of it b] show ?thesis by (auto simp: vbitmap_iter_next_def)
qed

lemma iter_all_pending:
  "length (takeWhile (\<lambda>i. i < bit_cnt b) (pending b it)) < n \<Longrightarrow>
   iter_all n b it = Some (takeWhile (\<lambda>i. i < bit_cnt b) (pending b it))"
proof (induction n arbitrary: it)
  case (Suc n)
  show ?case
  proof (cases "pending b it")
    case Nil
    with iter_next_pending [of b it] show ?thesis by (auto split: prod.split)
  next
    case (Cons x xs)
    show ?thesis
    proof (cases "bit_cnt b \<le> x")
      case True
      with Cons iter_next_pending [of b it] show ?thesis by (auto split: prod.split)
    next
      case False
      with Cons iter_next_pending [of b it] obtain it' where
        "vbitmap_iter_next b it = (Some x, it')" "pending b it' = xs" by auto
      with Suc Cons False show ?thesis by simp
    qed
  qed
qed simp

lemma slot_bits_filter: "slot_bits b k = filter (vbit b) [64 * k..<64 * Suc k]"
proof -
  have "[64 * k..<64 * Suc k] = map (\<lambda>j. 64 * k + j) [0..<64]"
    using map_add_upt [of "64 * k" 64] by (simp add: add.commute)
  moreover have "filter (vbit b \<circ> (\<lambda>j. 64 * k + j)) [0..<64] = bits_of (maps b ! k)"
    unfolding bits_of_def by (rule filter_cong) (simp_all add: vbit_at)
  ultimately show ?thesis by (simp add: slot_bits_def filter_map)
qed

lemma concat_slot_bits: "concat (map (slot_bits b) [0..<n]) = filter (vbit b) [0..<64 * n]"
proof (induction n)
  case (Suc n)
  have "[0..<64 * Suc n] = [0..<64 * n] @ [64 * n..<64 * Suc n]"
    using upt_add_eq_append [of 0 "64 * n" 64] by (simp add: add.commute)
  with Suc show ?case by (simp add: slot_bits_filter)
qed simp

lemma takeWhile_filter_upt:
  assumes "c \<le> m"
  shows "takeWhile (\<lambda>i. i < c) (filter P [0..<m]) = filter P [0..<c]"
proof -
  have "[0..<m] = [0..<c] @ [c..<m]" using assms upt_add_eq_append [of 0 c "m - c"] by simp
  moreover have "takeWhile (\<lambda>i. i < c) (filter P [c..<m]) = []"
  proof (cases "filter P [c..<m]")
    case (Cons x xs)
    then have "x \<in> set (filter P [c..<m])" unfolding Cons by simp
    then have "\<not> x < c" by simp
    with Cons show ?thesis by simp
  qed simp
  moreover have "takeWhile (\<lambda>i. i < c) (filter P [0..<c] @ ys) = filter P [0..<c] @ takeWhile (\<lambda>i. i < c) ys" for ys
    by (rule takeWhile_append2) simp
  ultimately show ?thesis by simp
qed

text \<open>
  C36. Iterating over a bitmap visits exactly the set bits: on a well-formed bitmap that is not empty,
  the loop that calls \<open>vbitmap_iter_next\<close> until it returns false ends after at most
  \<open>bit_cnt + 1\<close> calls and yields the indices of the set bits below \<open>bit_cnt\<close>, each once and in ascending
  order; bits of the last word beyond \<open>bit_cnt\<close> are not reported.
\<close>

theorem vbitmap_iter_complete:
  assumes "vbitmap_wf b" and "vbitmap_iter_init b = Some it" and "bit_cnt b < n"
  shows "iter_all n b it = Some (filter (\<lambda>i. vbitmap_get b i = Some True) [0..<bit_cnt b])"
proof -
  have cnt: "maps_cnt b > 0" and it: "it = \<lparr>iter_idx = 0, last_val = maps b ! 0\<rparr>"
    using assms(2) by (auto simp: vbitmap_iter_init_def vatomic64_simps split: if_splits)
  have "pending b it = concat (map (slot_bits b) [0..<maps_cnt b])"
    using cnt by (simp add: it pending_def slot_bits_def upt_conv_Cons)
  then have p: "pending b it = filter (vbit b) [0..<64 * maps_cnt b]" by (simp add: concat_slot_bits)
  have "bit_cnt b \<le> 64 * maps_cnt b"
    using assms(1) div_mod_decomp [of "bit_cnt b" 64] mod_less_divisor [of 64 "bit_cnt b"]
    by (auto simp: vbitmap_wf_def VCEIL_DIV_def)
  then have t: "takeWhile (\<lambda>i. i < bit_cnt b) (pending b it) = filter (vbit b) [0..<bit_cnt b]"
    by (simp add: p takeWhile_filter_upt)
  have "length (filter (vbit b) [0..<bit_cnt b]) < n" using assms(3) length_filter_le [of "vbit b" "[0..<bit_cnt b]"] by simp
  with iter_all_pending [of b it n] t have "iter_all n b it = Some (filter (vbit b) [0..<bit_cnt b])" by simp
  moreover have "filter (vbit b) [0..<bit_cnt b] = filter (\<lambda>i. vbitmap_get b i = Some True) [0..<bit_cnt b]"
    using assms(1) by (intro filter_cong) (auto simp: vbitmap_get_vbit)
  ultimately show ?thesis by simp
qed

theorem vbitmap_iter_complete_witness:
  "\<exists>it. vbitmap_iter_init (vbitmap_init 3 True) = Some it \<and> iter_all 4 (vbitmap_init 3 True) it = Some [0, 1, 2]"
proof -
  obtain it where it: "vbitmap_iter_init (vbitmap_init 3 True) = Some it"
    by (simp add: vbitmap_iter_init_def vbitmap_init_def VCEIL_DIV_def)
  have g: "vbitmap_get (vbitmap_init 3 True) i = Some True" if "i < 3" for i
    using that by (simp add: vbitmap_get_def vbitmap_init_def VCEIL_DIV_def VBITMAP_CALC_SLOT_IDX_def vatomic64_simps)
  have "bit_cnt (vbitmap_init 3 True) < 4" by (simp add: vbitmap_init_wf)
  from vbitmap_iter_complete [OF vbitmap_init_wf(1) it this] it g show ?thesis
    by (simp add: vbitmap_init_wf upt_rec)
qed

text \<open>Clearing a bitmap, and its size in bytes.\<close>

lemma vbitmap_clear_get:
  assumes "vbitmap_wf b" and "i < bit_cnt b"
  shows "vbitmap_get (vbitmap_clear b) i = Some False"
proof -
  have "vbitmap_wf (vbitmap_clear b)" "i < bit_cnt (vbitmap_clear b)"
    using assms by (simp_all add: vbitmap_clear_def vbitmap_wf_def)
  from vbitmap_get_vbit [OF this] slot_in_range [OF assms] show ?thesis
    by (simp add: vbit_def vbitmap_clear_def nth_fill_slots)
qed

end
