(* ===== verification/Pthreads.thy ===== *)
theory Pthreads
  imports Transition
begin

text \<open>
  The machine on which the programs of \<^verbatim>\<open>sctbench/concurrent-software-benchmarks\<close> run: C code
  with POSIX threads, mutexes and condition variables. A thread function is a list of structured
  statements (\<open>cmd\<close>) over the shared variables \<open>'g\<close> and the thread's local variables \<open>'l\<close>;
  \<open>compile\<close> flattens it to instructions with relative jumps and \<open>pt_step\<close> runs one
  instruction of one thread. An instruction performs at most one shared access, so \<open>x++\<close> on an
  unprotected variable is a load and a store. Threads are numbered by the program, \<open>0\<close> is
  \<open>main\<close>; mutexes and condition variables are numbered too.
\<close>

section \<open>Statements and instructions\<close>

datatype failure = AssertFail | OutOfBounds | Undefined

datatype ('g, 'l) instr =
    Do "'g \<Rightarrow> 'l \<Rightarrow> failure + 'g \<times> 'l"
  | Lock "'l \<Rightarrow> nat"
  | Unlock "'l \<Rightarrow> nat"
  | Wait nat nat
  | Signal nat
  | Create "'l \<Rightarrow> tid" "'l \<Rightarrow> 'l"
  | Join "'l \<Rightarrow> tid"
  | Unless "'g \<Rightarrow> 'l \<Rightarrow> bool" nat
  | Skip nat
  | Back nat
  | Return

datatype ('g, 'l) cmd =
    Instr "('g, 'l) instr"
  | IF "'g \<Rightarrow> 'l \<Rightarrow> bool" "('g, 'l) cmd list" "('g, 'l) cmd list"
  | WHILE "'g \<Rightarrow> 'l \<Rightarrow> bool" "('g, 'l) cmd list"

fun compile1 :: "('g, 'l) cmd \<Rightarrow> ('g, 'l) instr list"
  and compile :: "('g, 'l) cmd list \<Rightarrow> ('g, 'l) instr list" where
  "compile1 (Instr i) = [i]"
| "compile1 (IF b c d) =
     (let c' = compile c; d' = compile d
      in Unless b (length c' + 2) # c' @ Skip (length d' + 1) # d')"
| "compile1 (WHILE b c) = (let c' = compile c in Unless b (length c' + 2) # c' @ [Back (length c' + 1)])"
| "compile [] = []"
| "compile (c # cs) = compile1 c @ compile cs"

text \<open>The forms the C sources use: a load into a local, a store, an assertion, the pthread calls.\<close>

abbreviation load :: "('g \<Rightarrow> 'l \<Rightarrow> 'l) \<Rightarrow> ('g, 'l) cmd" where
  "load f \<equiv> Instr (Do (\<lambda>g l. Inr (g, f g l)))"

abbreviation store :: "('g \<Rightarrow> 'l \<Rightarrow> 'g) \<Rightarrow> ('g, 'l) cmd" where
  "store f \<equiv> Instr (Do (\<lambda>g l. Inr (f g l, l)))"

abbreviation access :: "('g \<Rightarrow> 'l \<Rightarrow> failure + 'g \<times> 'l) \<Rightarrow> ('g, 'l) cmd" where
  "access f \<equiv> Instr (Do f)"

abbreviation assertion :: "('g \<Rightarrow> 'l \<Rightarrow> bool) \<Rightarrow> ('g, 'l) cmd" where
  "assertion P \<equiv> Instr (Do (\<lambda>g l. if P g l then Inr (g, l) else Inl AssertFail))"

abbreviation mutex_lock :: "nat \<Rightarrow> ('g, 'l) cmd" where
  "mutex_lock m \<equiv> Instr (Lock (\<lambda>_. m))"

abbreviation mutex_unlock :: "nat \<Rightarrow> ('g, 'l) cmd" where
  "mutex_unlock m \<equiv> Instr (Unlock (\<lambda>_. m))"

abbreviation mutex_lock_at :: "('l \<Rightarrow> nat) \<Rightarrow> ('g, 'l) cmd" where
  "mutex_lock_at f \<equiv> Instr (Lock f)"

abbreviation mutex_unlock_at :: "('l \<Rightarrow> nat) \<Rightarrow> ('g, 'l) cmd" where
  "mutex_unlock_at f \<equiv> Instr (Unlock f)"

abbreviation cond_wait :: "nat \<Rightarrow> nat \<Rightarrow> ('g, 'l) cmd" where
  "cond_wait c m \<equiv> Instr (Wait c m)"

abbreviation cond_signal :: "nat \<Rightarrow> ('g, 'l) cmd" where
  "cond_signal c \<equiv> Instr (Signal c)"

abbreviation thread_create :: "tid \<Rightarrow> 'l \<Rightarrow> ('g, 'l) cmd" where
  "thread_create t l \<equiv> Instr (Create (\<lambda>_. t) (\<lambda>_. l))"

abbreviation thread_join :: "tid \<Rightarrow> ('g, 'l) cmd" where
  "thread_join t \<equiv> Instr (Join (\<lambda>_. t))"

abbreviation thread_return :: "('g, 'l) cmd" where
  "thread_return \<equiv> Instr Return"

section \<open>Configurations\<close>

datatype 'l thread =
    NotCreated
  | Running 'l nat
  | Sleeping nat nat 'l nat
  | Waking nat 'l nat
  | Finished

text \<open>
  \<open>Sleeping c m l pc\<close> waits on condition variable \<open>c\<close>; once woken it is \<open>Waking m l pc\<close> and takes
  mutex \<open>m\<close> again before it goes on at \<open>pc\<close>.
\<close>

record ('g, 'l) conf =
  shared :: 'g
  mutex :: "nat \<Rightarrow> tid option"
  waiters :: "nat \<Rightarrow> tid list"
  thr :: "tid \<Rightarrow> 'l thread"
  failed :: "failure option"

definition pt_start :: "'g \<Rightarrow> 'l \<Rightarrow> ('g, 'l) conf" where
  "pt_start g l = \<lparr>shared = g, mutex = (\<lambda>_. None), waiters = (\<lambda>_. []),
     thr = (\<lambda>_. NotCreated)(0 := Running l 0), failed = None\<rparr>"

definition goto :: "('g, 'l) conf \<Rightarrow> tid \<Rightarrow> 'l thread \<Rightarrow> ('g, 'l) conf" where
  "goto s t th = s\<lparr>thr := (thr s)(t := th)\<rparr>"

definition fail :: "('g, 'l) conf \<Rightarrow> failure \<Rightarrow> ('g, 'l) conf" where
  "fail s e = s\<lparr>failed := Some e\<rparr>"

definition set_mutex :: "('g, 'l) conf \<Rightarrow> nat \<Rightarrow> tid option \<Rightarrow> ('g, 'l) conf" where
  "set_mutex s m h = s\<lparr>mutex := (mutex s)(m := h)\<rparr>"

definition wake :: "('g, 'l) conf \<Rightarrow> nat \<Rightarrow> tid \<Rightarrow> ('g, 'l) conf" where
  "wake s c u = (case thr s u of
      Sleeping c' m l pc \<Rightarrow> (goto s u (Waking m l pc))\<lparr>waiters := (waiters s)(c := remove1 u (waiters s c))\<rparr>
    | _ \<Rightarrow> s)"

section \<open>Steps\<close>

text \<open>
  One instruction of thread \<open>t\<close>, which is at \<open>pc\<close> with locals \<open>l\<close>. Locking a mutex somebody holds
  (the thread itself included: the mutexes are not recursive) blocks. Unlocking a mutex the thread
  does not hold, joining a thread that was never created and creating one twice are undefined.
  \<open>ch\<close> is the waiter a signal wakes.
\<close>

fun instr_step :: "tid \<Rightarrow> nat \<Rightarrow> 'l \<Rightarrow> nat \<Rightarrow> ('g, 'l) instr \<Rightarrow> ('g, 'l) conf \<Rightarrow> ('g, 'l) conf option" where
  "instr_step t ch l pc (Do f) s =
     (case f (shared s) l of
        Inl e \<Rightarrow> Some (fail s e)
      | Inr (g, l') \<Rightarrow> Some (goto (s\<lparr>shared := g\<rparr>) t (Running l' (Suc pc))))"
| "instr_step t ch l pc (Lock f) s =
     (if mutex s (f l) = None then Some (goto (set_mutex s (f l) (Some t)) t (Running l (Suc pc))) else None)"
| "instr_step t ch l pc (Unlock f) s =
     (if mutex s (f l) = Some t then Some (goto (set_mutex s (f l) None) t (Running l (Suc pc)))
      else Some (fail s Undefined))"
| "instr_step t ch l pc (Wait c m) s =
     (if mutex s m = Some t then
        Some (goto ((set_mutex s m None)\<lparr>waiters := (waiters s)(c := waiters s c @ [t])\<rparr>) t
          (Sleeping c m l (Suc pc)))
      else Some (fail s Undefined))"
| "instr_step t ch l pc (Signal c) s =
     (if waiters s c = [] then Some (goto s t (Running l (Suc pc)))
      else if ch \<in> set (waiters s c) then Some (goto (wake s c ch) t (Running l (Suc pc)))
      else None)"
| "instr_step t ch l pc (Create f a) s =
     (case thr s (f l) of
        NotCreated \<Rightarrow> Some (goto (goto s (f l) (Running (a l) 0)) t (Running l (Suc pc)))
      | _ \<Rightarrow> Some (fail s Undefined))"
| "instr_step t ch l pc (Join f) s =
     (case thr s (f l) of
        NotCreated \<Rightarrow> Some (fail s Undefined)
      | Finished \<Rightarrow> Some (goto s t (Running l (Suc pc)))
      | _ \<Rightarrow> None)"
| "instr_step t ch l pc (Unless b n) s =
     Some (goto s t (Running l (if b (shared s) l then Suc pc else pc + n)))"
| "instr_step t ch l pc (Skip n) s = Some (goto s t (Running l (pc + n)))"
| "instr_step t ch l pc (Back n) s = Some (goto s t (Running l (pc - n)))"
| "instr_step t ch l pc Return s = Some (goto s t Finished)"

text \<open>
  A label is a thread and a choice. A thread that runs off the end of its code is finished, and
  the process ends with \<open>main\<close>. With \<open>sp\<close> a sleeping thread may also wake up without a signal,
  as POSIX allows.
\<close>

fun pt_step :: "bool \<Rightarrow> (tid \<Rightarrow> ('g, 'l) instr list) \<Rightarrow> tid \<times> nat \<Rightarrow> ('g, 'l) conf \<Rightarrow> ('g, 'l) conf option" where
  "pt_step sp prog (t, ch) s =
     (if failed s \<noteq> None \<or> thr s 0 = Finished then None
      else (case thr s t of
        NotCreated \<Rightarrow> None
      | Finished \<Rightarrow> None
      | Running l pc \<Rightarrow>
          (if pc < length (prog t) then instr_step t ch l pc (prog t ! pc) s
           else Some (goto s t Finished))
      | Sleeping c m l pc \<Rightarrow> (if sp then Some (wake s c t) else None)
      | Waking m l pc \<Rightarrow>
          (if mutex s m = None then Some (goto (set_mutex s m (Some t)) t (Running l pc)) else None)))"

definition deadlocked :: "bool \<Rightarrow> (tid \<Rightarrow> ('g, 'l) instr list) \<Rightarrow> ('g, 'l) conf \<Rightarrow> bool" where
  "deadlocked sp prog s \<longleftrightarrow>
     failed s = None \<and> thr s 0 \<noteq> Finished \<and> (\<forall>a. pt_step sp prog a s = None)"

lemmas pt_simps = pt_start_def goto_def fail_def set_mutex_def wake_def

section \<open>Programs that never fail\<close>

text \<open>
  The proof rule for a program without failures: an invariant that holds at the start, that every
  instruction keeps, and under which no instruction fails.
\<close>

locale pt_safe = inv_system "pt_step sp prog" s0 inv
  for sp :: bool and prog :: "tid \<Rightarrow> ('g, 'l) instr list" and s0 and inv +
  assumes inv_ok: "inv s \<Longrightarrow> failed s = None"
begin

lemma never_fails: "reach (pt_step sp prog) s0 s \<Longrightarrow> failed s = None"
  by (rule inv_ok) (rule reach_inv)

end

text \<open>A mutex belongs to one thread, so two threads that hold it are the same.\<close>

lemma goto_simps [simp]:
  "shared (goto s t th) = shared s" "mutex (goto s t th) = mutex s" "failed (goto s t th) = failed s"
  "waiters (goto s t th) = waiters s" "thr (goto s t th) = (thr s)(t := th)"
  by (simp_all add: goto_def)

lemma set_mutex_simps [simp]:
  "shared (set_mutex s m h) = shared s" "mutex (set_mutex s m h) = (mutex s)(m := h)"
  "failed (set_mutex s m h) = failed s" "waiters (set_mutex s m h) = waiters s"
  "thr (set_mutex s m h) = thr s"
  by (simp_all add: set_mutex_def)

lemma fail_simps [simp]:
  "shared (fail s e) = shared s" "mutex (fail s e) = mutex s" "failed (fail s e) = Some e"
  "waiters (fail s e) = waiters s" "thr (fail s e) = thr s"
  by (simp_all add: fail_def)

text \<open>A step of a running thread is one of its instructions, or its end.\<close>

lemma pt_step_cases [consumes 1, case_names run finish spurious relock]:
  assumes "pt_step sp prog (t, ch) s = Some s'"
  obtains (run) l pc where "thr s t = Running l pc" "pc < length (prog t)"
      "instr_step t ch l pc (prog t ! pc) s = Some s'"
    | (finish) l pc where "thr s t = Running l pc" "length (prog t) \<le> pc" "s' = goto s t Finished"
    | (spurious) c m l pc where "thr s t = Sleeping c m l pc" "s' = wake s c t"
    | (relock) m l pc where "thr s t = Waking m l pc" "mutex s m = None"
      "s' = goto (set_mutex s m (Some t)) t (Running l pc)"
  using assms by (auto split: if_splits thread.splits)


section \<open>Programs\<close>

text \<open>A program is the list of its thread functions, \<open>main\<close> first. \<open>at\<close> is where a thread is.\<close>

definition program :: "('g, 'l) cmd list list \<Rightarrow> tid \<Rightarrow> ('g, 'l) instr list" where
  "program ps t = (if t < length ps then compile (ps ! t) else [])"

fun at :: "'l thread \<Rightarrow> nat" where
  "at (Running l pc) = pc"
| "at (Sleeping c m l pc) = pc"
| "at (Waking m l pc) = pc"
| "at _ = 0"

section \<open>A main thread that starts workers and joins them\<close>

text \<open>
  Most of the programs have a \<open>main\<close> that starts threads \<open>1\<close> to \<open>k\<close>, joins some of them and
  returns. What such a \<open>main\<close> does before it starts the first thread runs alone and is part of the
  start state.
\<close>

definition fork_join :: "nat \<Rightarrow> (tid \<Rightarrow> 'l) \<Rightarrow> tid list \<Rightarrow> ('g, 'l) cmd list" where
  "fork_join k a js = map (\<lambda>t. thread_create t (a t)) [1..<Suc k] @ map thread_join js @ [thread_return]"

fun worker_instr :: "('g, 'l) instr \<Rightarrow> bool" where
  "worker_instr (Create _ _) = False"
| "worker_instr (Join _) = False"
| "worker_instr _ = True"

lemma compile_append [simp]: "compile (cs @ ds) = compile cs @ compile ds"
  by (induction cs) simp_all

lemma compile_map_Instr [simp]: "compile (map (\<lambda>x. Instr (f x)) xs) = map f xs"
  by (induction xs) simp_all

lemma compile_fork_join:
  "compile (fork_join k a js) =
     map (\<lambda>t. Create (\<lambda>_. t) (\<lambda>_. a t)) [1..<Suc k] @ map (\<lambda>t. Join (\<lambda>_. t)) js @ [Return]"
  by (simp add: fork_join_def del: upt_Suc)

lemma fork_join_nth:
  assumes "pc < length (compile (fork_join k a js))"
  shows "compile (fork_join k a js) ! pc =
    (if pc < k then Create (\<lambda>_. Suc pc) (\<lambda>_. a (Suc pc))
     else if pc < k + length js then Join (\<lambda>_. js ! (pc - k)) else Return)"
  using assms by (auto simp: compile_fork_join nth_append nth_Cons' simp del: upt_Suc)

text \<open>The state after \<open>main\<close> has started its first \<open>n\<close> threads and nobody else has moved.\<close>

definition forked :: "(tid \<Rightarrow> 'l) \<Rightarrow> nat \<Rightarrow> 'g \<Rightarrow> 'l \<Rightarrow> ('g, 'l) conf" where
  "forked a n g l = (pt_start g l)\<lparr>thr := (\<lambda>t. if t = 0 then Running l n
     else if t \<le> n then Running (a t) 0 else NotCreated)\<rparr>"

lemma exec_forked:
  assumes "prog 0 = compile (fork_join k a js)" and "n \<le> k"
  shows "exec (pt_step sp prog) (replicate n (0, 0)) (pt_start g l) = Some (forked a n g l)"
  using assms(2)
proof (induction n)
  case 0
  then show ?case by (auto simp: forked_def pt_start_def)
next
  case (Suc n)
  have "n < length (prog 0)" using Suc.prems by (simp add: assms(1) compile_fork_join del: upt_Suc)
  then have "pt_step sp prog (0, 0) (forked a n g l) = Some (forked a (Suc n) g l)"
    using Suc.prems
    by (auto simp: forked_def pt_start_def goto_def fun_eq_iff assms(1) fork_join_nth le_Suc_eq)
  moreover have "replicate (Suc n) (0 :: nat, 0 :: nat) = replicate n (0, 0) @ [(0, 0)]"
    by (simp add: replicate_append_same)
  ultimately show ?case using Suc by (simp add: exec_append del: replicate.simps pt_step.simps)
qed

lemma reach_forked:
  assumes "prog 0 = compile (fork_join k a js)"
    and "\<exists>s. exec (pt_step sp prog) as (forked a k g l) = Some s \<and> P s"
  shows "\<exists>s. reach (pt_step sp prog) (pt_start g l) s \<and> P s"
proof -
  obtain s where s: "exec (pt_step sp prog) as (forked a k g l) = Some s" "P s" using assms(2) by blast
  with exec_forked [of prog k a js k sp g l] assms(1)
  have "exec (pt_step sp prog) (replicate k (0, 0) @ as) (pt_start g l) = Some s"
    by (simp only: exec_append option.case)
  with s(2) show ?thesis by (blast intro: exec_reach)
qed

lemma wake_thr:
  "(thr (wake s c u) v = NotCreated) = (thr s v = NotCreated)"
  "thr s v = Running l pc \<Longrightarrow> thr (wake s c u) v = Running l pc"
  by (auto simp: wake_def split: thread.splits)

lemma wake_simps [simp]:
  "shared (wake s c u) = shared s" "mutex (wake s c u) = mutex s" "failed (wake s c u) = failed s"
  by (auto simp: wake_def split: thread.splits)

lemma instr_step_worker:
  assumes "instr_step t ch l pc i s = Some s'" and "worker_instr i" and "thr s t = Running l pc"
  shows "(thr s' u = NotCreated) = (thr s u = NotCreated)"
    and "u \<noteq> t \<Longrightarrow> thr s u = Running l' pc' \<Longrightarrow> thr s' u = Running l' pc'"
  using assms by (cases i; auto simp: wake_thr split: if_splits sum.splits)+

lemma pt_step_worker:
  assumes "pt_step sp prog (t, ch) s = Some s'" and "\<forall>i \<in> set (prog t). worker_instr i"
  shows "(thr s' u = NotCreated) = (thr s u = NotCreated)"
    and "u \<noteq> t \<Longrightarrow> thr s u = Running l' pc' \<Longrightarrow> thr s' u = Running l' pc'"
proof -
  show "(thr s' u = NotCreated) = (thr s u = NotCreated)"
    using assms(1)
  proof (cases rule: pt_step_cases)
    case (run l pc)
    with assms(2) show ?thesis by (auto dest: instr_step_worker(1))
  qed (auto simp: wake_thr)
  show "thr s' u = Running l' pc'" if "u \<noteq> t" and "thr s u = Running l' pc'"
    using assms(1)
  proof (cases rule: pt_step_cases)
    case (run l pc)
    with assms(2) that show ?thesis by (auto dest: instr_step_worker(2))
  qed (use that in \<open>auto simp: wake_thr\<close>)
qed

text \<open>A finished thread stays finished.\<close>

lemma wake_finished: "thr s v = Finished \<Longrightarrow> thr (wake s c u) v = Finished"
  by (auto simp: wake_def split: thread.splits)

lemma pt_step_finished:
  assumes "pt_step sp prog (t, ch) s = Some s'" and "thr s u = Finished"
  shows "thr s' u = Finished"
  using assms(1)
proof (cases rule: pt_step_cases)
  case (run l pc)
  have "u \<noteq> t" using run(1) assms(2) by auto
  with run assms(2) show ?thesis
    by (cases "prog t ! pc") (auto simp: wake_finished split: if_splits sum.splits thread.splits)
qed (use assms(2) in \<open>auto simp: wake_finished\<close>)

text \<open>A thread finishes by its own return, or at the end of its code.\<close>

lemma pt_step_finishes:
  assumes "pt_step sp prog (u, ch) s = Some s'" and "thr s' t = Finished" and "thr s t \<noteq> Finished"
  obtains l pc where "u = t" "thr s t = Running l pc" "pc < length (prog t) \<longrightarrow> prog t ! pc = Return"
  using assms(1)
proof (cases rule: pt_step_cases)
  case (run l pc)
  have "u = t \<and> prog t ! pc = Return"
    using run assms(2,3)
    by (cases "prog u ! pc") (auto simp: wake_def split: if_splits sum.splits thread.splits)
  with run that show ?thesis by blast
next
  case (finish l pc)
  with assms(2,3) have "u = t" by (auto split: if_splits)
  with finish that show ?thesis by auto
qed (use assms(2,3) in \<open>auto simp: wake_def split: if_splits thread.splits\<close>)

text \<open>
  Such a program is safe when an invariant \<open>J\<close> that does not look at \<open>main\<close> holds at the start,
  survives the start of a thread, and is kept by every step of a worker, which does not fail.
\<close>

locale fork_join_prog =
  fixes sp :: bool and prog :: "tid \<Rightarrow> ('g, 'l) instr list" and k :: nat and a :: "tid \<Rightarrow> 'l"
    and js :: "tid list" and g0 :: 'g and l0 :: 'l and J :: "('g, 'l) conf \<Rightarrow> bool"
  assumes main_code: "prog 0 = compile (fork_join k a js)" and joined: "set js \<subseteq> {1..k}"
    and worker_code: "t \<in> {1..k} \<Longrightarrow> \<forall>i \<in> set (prog t). worker_instr i"
    and J_start: "J (pt_start g0 l0)"
    and J_main: "J s \<Longrightarrow> J (goto s 0 th)"
    and J_create: "J s \<Longrightarrow> t \<in> {1..k} \<Longrightarrow> thr s t = NotCreated \<Longrightarrow> J (goto s t (Running (a t) 0))"
    and J_worker: "J s \<Longrightarrow> failed s = None \<Longrightarrow> t \<in> {1..k} \<Longrightarrow> pt_step sp prog (t, ch) s = Some s' \<Longrightarrow>
      J s' \<and> failed s' = None"
begin

definition main_inv :: "('g, 'l) conf \<Rightarrow> bool" where
  "main_inv s \<longleftrightarrow> (\<forall>t > k. thr s t = NotCreated) \<and>
     (thr s 0 = Finished \<or> (\<exists>l pc. thr s 0 = Running l pc \<and>
        (\<forall>t \<in> {1..k}. thr s t = NotCreated \<longleftrightarrow> pc < t)))"

lemma main_step:
  assumes "main_inv s" and "J s" and "failed s = None" and step: "pt_step sp prog (0, ch) s = Some s'"
  shows "main_inv s' \<and> J s' \<and> failed s' = None"
proof -
  have run: "thr s 0 \<noteq> Finished" using step by auto
  with assms(1) obtain l pc where pc: "thr s 0 = Running l pc"
    "\<And>t. t \<in> {1..k} \<Longrightarrow> thr s t = NotCreated \<longleftrightarrow> pc < t" unfolding main_inv_def by blast
  have new: "\<And>t. k < t \<Longrightarrow> thr s t = NotCreated" using assms(1) unfolding main_inv_def by blast
  show ?thesis
  proof (cases "pc < length (prog 0)")
    case False
    then have "s' = goto s 0 Finished" using step pc(1) by (simp split: if_splits)
    with assms new show ?thesis by (auto simp: main_inv_def intro: J_main)
  next
    case len: True
    then have st: "instr_step 0 ch l pc (prog 0 ! pc) s = Some s'"
      using step pc(1) run by (simp split: if_splits)
    consider "pc < k" | "k \<le> pc" "pc < k + length js" | "k + length js \<le> pc" by linarith
    then show ?thesis
    proof cases
      case 1
      then have "thr s (Suc pc) = NotCreated" using pc(2) by simp
      with 1 st len have "s' = goto (goto s (Suc pc) (Running (a (Suc pc)) 0)) 0 (Running l (Suc pc))"
        by (simp add: main_code fork_join_nth)
      moreover from 1 \<open>thr s (Suc pc) = NotCreated\<close>
      have "J (goto (goto s (Suc pc) (Running (a (Suc pc)) 0)) 0 (Running l (Suc pc)))"
        using assms(2) by (intro J_main J_create) auto
      ultimately show ?thesis using assms(3) 1 pc(2) new by (auto simp: main_inv_def)
    next
      case 2
      then have "js ! (pc - k) \<in> set js" by simp
      with joined 2 have "thr s (js ! (pc - k)) \<noteq> NotCreated" using pc(2) by fastforce
      with 2 st len have "s' = goto s 0 (Running l (Suc pc))"
        by (simp add: main_code fork_join_nth split: thread.splits)
      with assms 2 pc(2) new show ?thesis by (auto simp: main_inv_def intro: J_main)
    next
      case 3
      with st len have "s' = goto s 0 Finished" by (simp add: main_code fork_join_nth)
      with assms new show ?thesis by (auto simp: main_inv_def intro: J_main)
    qed
  qed
qed

lemma worker_step:
  assumes "main_inv s" and "J s" and "failed s = None" and "t \<noteq> 0" and step: "pt_step sp prog (t, ch) s = Some s'"
  shows "main_inv s' \<and> J s' \<and> failed s' = None"
proof -
  have "thr s 0 \<noteq> Finished" and "thr s t \<noteq> NotCreated" using step by (auto split: if_splits)
  with assms(1,4) have t: "t \<in> {1..k}" unfolding main_inv_def by (auto simp: not_less [symmetric])
  note same = pt_step_worker [OF step worker_code [OF t]]
  from assms(1) \<open>thr s 0 \<noteq> Finished\<close> obtain l pc where pc: "thr s 0 = Running l pc"
    "\<forall>t \<in> {1..k}. thr s t = NotCreated \<longleftrightarrow> pc < t" unfolding main_inv_def by blast
  have "thr s' 0 = Running l pc" using same(2) pc(1) assms(4) by auto
  with same(1) pc(2) assms(1) have "main_inv s'" unfolding main_inv_def by blast
  with J_worker [OF assms(2,3) t step] show ?thesis by blast
qed

end

sublocale fork_join_prog \<subseteq> pt_safe sp prog "pt_start g0 l0" "\<lambda>s. main_inv s \<and> J s \<and> failed s = None"
proof (unfold_locales, goal_cases)
  case 1
  show ?case using J_start by (auto simp: main_inv_def pt_start_def)
next
  case (2 s lab s')
  obtain t ch where lab: "lab = (t, ch)" by (cases lab)
  from 2 have inv: "main_inv s" "J s" "failed s = None" by blast+
  show ?case
  proof (cases "t = 0")
    case True
    with main_step [OF inv] 2(2) lab show ?thesis by blast
  next
    case False
    with worker_step [OF inv] 2(2) lab show ?thesis by blast
  qed
qed blast

text \<open>When \<open>main\<close> has returned, every thread it joins is finished.\<close>

context fork_join_prog
begin

definition joined_inv :: "('g, 'l) conf \<Rightarrow> bool" where
  "joined_inv s \<longleftrightarrow> (case thr s 0 of
      Running l pc \<Rightarrow> (\<forall>i < length js. k + i < pc \<longrightarrow> thr s (js ! i) = Finished)
    | Finished \<Rightarrow> (\<forall>i < length js. thr s (js ! i) = Finished)
    | _ \<Rightarrow> False)"

lemma joined_inv_main:
  assumes "joined_inv s" and step: "pt_step sp prog (0, ch) s = Some s'"
  shows "joined_inv s'"
proof -
  obtain l pc where pc: "thr s 0 = Running l pc"
    and fin: "\<forall>i < length js. k + i < pc \<longrightarrow> thr s (js ! i) = Finished"
    using assms by (auto simp: joined_inv_def split: thread.splits if_splits)
  have old: "thr s u = Finished \<Longrightarrow> thr s' u = Finished" for u
    by (rule pt_step_finished [OF step])
  show ?thesis
  proof (cases "pc < length (prog 0)")
    case False
    then have "thr s' 0 = Finished" using step pc by (auto split: if_splits)
    moreover have "k + length js < pc" using False by (simp add: main_code compile_fork_join del: upt_Suc)
    ultimately show ?thesis using fin old by (auto simp: joined_inv_def)
  next
    case True
    then have st: "instr_step 0 ch l pc (prog 0 ! pc) s = Some s'" using step pc by (auto split: if_splits)
    consider "pc < k" | "k \<le> pc" "pc < k + length js" | "k + length js \<le> pc" by linarith
    then show ?thesis
    proof cases
      case 1
      with st True have "failed s' \<noteq> None \<and> thr s' = thr s \<or> thr s' 0 = Running l (Suc pc)"
        by (auto simp: main_code fork_join_nth split: thread.splits)
      with 1 pc show ?thesis by (auto simp: joined_inv_def)
    next
      case 2
      with st True have "failed s' \<noteq> None \<and> thr s' = thr s \<or>
          thr s' 0 = Running l (Suc pc) \<and> thr s (js ! (pc - k)) = Finished"
        by (auto simp: main_code fork_join_nth split: thread.splits)
      moreover have "k + i < Suc pc \<longleftrightarrow> k + i < pc \<or> i = pc - k" for i using 2 by auto
      ultimately show ?thesis using fin old pc by (auto simp: joined_inv_def)
    next
      case 3
      with st True have "thr s' 0 = Finished" by (auto simp: main_code fork_join_nth)
      with 3 st True fin old show ?thesis
        by (auto simp: joined_inv_def main_code compile_fork_join simp del: upt_Suc)
    qed
  qed
qed

lemma worker_in_range:
  assumes "main_inv s" and "pt_step sp prog (t, ch) s = Some s'" and "t \<noteq> 0"
  shows "t \<in> {1..k}"
proof -
  have "thr s t \<noteq> NotCreated" using assms(2) by (auto split: if_splits)
  with assms(1,3) show ?thesis unfolding main_inv_def by (auto simp: not_less [symmetric])
qed

lemma joined_inv_worker:
  assumes "main_inv s" and "joined_inv s" and step: "pt_step sp prog (t, ch) s = Some s'" and "t \<noteq> 0"
  shows "joined_inv s'"
proof -
  have "thr s 0 \<noteq> Finished" using step by auto
  with assms(2) obtain l pc where pc: "thr s 0 = Running l pc"
    by (auto simp: joined_inv_def split: thread.splits)
  have "thr s' 0 = Running l pc"
    using pt_step_worker(2) [OF step worker_code [OF worker_in_range [OF assms(1) step assms(4)]]] pc assms(4)
    by auto
  with assms(2) pc pt_step_finished [OF step] show ?thesis by (auto simp: joined_inv_def)
qed

lemma joined_inv_reach: "reach (pt_step sp prog) (pt_start g0 l0) s \<Longrightarrow> joined_inv s"
proof (induction rule: reach.induct)
  case reach_init
  show ?case by (simp add: joined_inv_def pt_start_def)
next
  case (reach_step s lab s')
  obtain t ch where lab: "lab = (t, ch)" by (cases lab)
  have "main_inv s" using reach_inv [OF reach_step.hyps(1)] by blast
  then show ?case
    using reach_step lab joined_inv_main [of s ch s'] joined_inv_worker [of s t ch s'] by (cases "t = 0") blast+
qed

lemma joined_finished:
  assumes "reach (pt_step sp prog) (pt_start g0 l0) s" and "thr s 0 = Finished" and "j \<in> set js"
  shows "thr s j = Finished"
  using joined_inv_reach [OF assms(1)] assms(2,3) by (auto simp: joined_inv_def in_set_conv_nth)

text \<open>
  A reachable state with a worker still at work is not a deadlock if, in every such state, some
  worker can move or \<open>main\<close> waits for nobody.
\<close>

lemma not_deadlocked:
  assumes "reach (pt_step sp prog) (pt_start g0 l0) s"
    and progress: "\<And>s t. J s \<Longrightarrow> failed s = None \<Longrightarrow> thr s 0 \<noteq> Finished \<Longrightarrow> t \<in> {1..k} \<Longrightarrow>
      thr s t \<noteq> NotCreated \<Longrightarrow> thr s t \<noteq> Finished \<Longrightarrow> \<exists>u. pt_step sp prog (u, 0) s \<noteq> None"
  shows "\<not> deadlocked sp prog s"
proof
  assume dead: "deadlocked sp prog s"
  then have none: "pt_step sp prog a s = None" and run: "failed s = None" "thr s 0 \<noteq> Finished" for a
    unfolding deadlocked_def by blast+
  have inv: "main_inv s" "J s" using reach_inv [OF assms(1)] by blast+
  then obtain l pc where pc: "thr s 0 = Running l pc" "\<And>t. t \<in> {1..k} \<Longrightarrow> thr s t = NotCreated \<longleftrightarrow> pc < t"
    using run(2) unfolding main_inv_def by blast
  have stuck: "pc < length (prog 0)" "instr_step 0 0 l pc (prog 0 ! pc) s = None"
    using none [of "(0, 0)"] run pc(1) by (auto split: if_splits)
  consider "pc < k" | "k \<le> pc" "pc < k + length js" | "k + length js \<le> pc" by linarith
  then show False
  proof cases
    case 1
    with stuck pc(2) show ?thesis by (simp add: main_code fork_join_nth split: thread.splits)
  next
    case 2
    then have "js ! (pc - k) \<in> set js" by simp
    with joined have "js ! (pc - k) \<in> {1..k}" by blast
    moreover have "thr s (js ! (pc - k)) \<noteq> NotCreated" "thr s (js ! (pc - k)) \<noteq> Finished"
      using stuck 2 by (auto simp: main_code fork_join_nth split: thread.splits)
    ultimately obtain u where "pt_step sp prog (u, 0) s \<noteq> None" using progress [OF inv(2) run] by blast
    then show ?thesis using none by (rule notE)
  next
    case 3
    with stuck show ?thesis by (simp add: main_code fork_join_nth)
  qed
qed

end

text \<open>The numbers of the threads of a program that forks two or three.\<close>

lemma le2_cases: "t \<in> {1..2} \<Longrightarrow> t = 1 \<or> t = (2 :: nat)"
  by auto

lemma le3_cases: "t \<in> {1..3} \<Longrightarrow> t = 1 \<or> t = 2 \<or> t = (3 :: nat)"
  by auto

end
