(* ===== verification/Sct_Micro.thy ===== *)
theory Sct_Micro
  imports Pthreads
begin

text \<open>
  \<^verbatim>\<open>micro_2_ok.c\<close>, \<^verbatim>\<open>micro_3_ok.c\<close> and \<^verbatim>\<open>micro_10_ok.c\<close>: threads that increment a shared counter
  100 times without a lock and then assert that it is positive. An increment is a load into a
  register (the only local) and a store, so increments can be lost.
\<close>

section \<open>The programs\<close>

definition micro_incs :: "(int, int) cmd list" where
  "micro_incs = concat (replicate 100 [load (\<lambda>x r. x), store (\<lambda>x r. r + 1)])"

definition micro_2_t1 :: "(int, int) cmd list" where
  "micro_2_t1 = micro_incs @ [assertion (\<lambda>x r. \<not> x \<le> 0), thread_return]"
definition micro_2_t2 :: "(int, int) cmd list" where
  "micro_2_t2 = micro_incs @ [assertion (\<lambda>x r. \<not> x \<le> 0), thread_return]"

definition micro_2_main :: "(int, int) cmd list" where
  "micro_2_main = [thread_create 1 0, thread_create 2 0, thread_join 1, thread_join 2, thread_return]"

definition micro_3_t1 :: "(int, int) cmd list" where
  "micro_3_t1 = micro_incs @ [assertion (\<lambda>x r. 0 < x), thread_return]"
definition micro_3_t2 :: "(int, int) cmd list" where
  "micro_3_t2 = micro_incs @ [assertion (\<lambda>x r. 0 < x), thread_return]"
definition micro_3_t3 :: "(int, int) cmd list" where
  "micro_3_t3 = micro_incs @ [assertion (\<lambda>x r. 0 < x), thread_return]"

definition micro_3_main :: "(int, int) cmd list" where
  "micro_3_main = [thread_create 1 0, thread_create 2 0, thread_create 3 0,
     thread_join 1, thread_join 2, thread_join 3, thread_return]"

definition micro_10_t1 :: "(int, int) cmd list" where
  "micro_10_t1 = micro_incs @ [assertion (\<lambda>x r. 0 < x), thread_return]"
definition micro_10_t2 :: "(int, int) cmd list" where
  "micro_10_t2 = micro_incs @ [assertion (\<lambda>x r. 0 < x), thread_return]"
definition micro_10_t3 :: "(int, int) cmd list" where
  "micro_10_t3 = micro_incs @ [assertion (\<lambda>x r. 0 < x), thread_return]"
definition micro_10_t4 :: "(int, int) cmd list" where
  "micro_10_t4 = micro_incs @ [assertion (\<lambda>x r. 0 < x)]"
definition micro_10_t5 :: "(int, int) cmd list" where
  "micro_10_t5 = micro_incs @ [assertion (\<lambda>x r. 0 < x)]"
definition micro_10_t6 :: "(int, int) cmd list" where
  "micro_10_t6 = micro_incs @ [assertion (\<lambda>x r. 0 < x)]"
definition micro_10_t7 :: "(int, int) cmd list" where
  "micro_10_t7 = micro_incs @ [assertion (\<lambda>x r. 0 < x)]"
definition micro_10_t8 :: "(int, int) cmd list" where
  "micro_10_t8 = micro_incs @ [assertion (\<lambda>x r. 0 < x)]"
definition micro_10_t9 :: "(int, int) cmd list" where
  "micro_10_t9 = micro_incs @ [assertion (\<lambda>x r. 0 < x)]"
definition micro_10_t10 :: "(int, int) cmd list" where
  "micro_10_t10 = micro_incs @ [assertion (\<lambda>x r. 0 < x)]"

definition micro_10_main :: "(int, int) cmd list" where
  "micro_10_main = [thread_create 1 0, thread_create 2 0, thread_create 3 0, thread_create 4 0,
     thread_create 5 0, thread_create 6 0, thread_create 7 0, thread_create 8 0,
     thread_create 9 0, thread_create 10 0,
     thread_join 1, thread_join 2, thread_join 3, thread_join 4, thread_join 5,
     thread_join 6, thread_join 7, thread_join 8, thread_join 9, thread_join 10, thread_return]"

definition micro_2_prog :: "tid \<Rightarrow> (int, int) instr list" where
  "micro_2_prog = program [micro_2_main, micro_2_t1, micro_2_t2]"

definition micro_3_prog :: "tid \<Rightarrow> (int, int) instr list" where
  "micro_3_prog = program [micro_3_main, micro_3_t1, micro_3_t2, micro_3_t3]"

definition micro_10_prog :: "tid \<Rightarrow> (int, int) instr list" where
  "micro_10_prog = program [micro_10_main, micro_10_t1, micro_10_t2, micro_10_t3, micro_10_t4, micro_10_t5,
     micro_10_t6, micro_10_t7, micro_10_t8, micro_10_t9, micro_10_t10]"

section \<open>One proof for any number of threads\<close>

abbreviation micro_load :: "(int, int) instr" where
  "micro_load \<equiv> Do (\<lambda>x r. Inr (x, x))"
abbreviation micro_store :: "(int, int) instr" where
  "micro_store \<equiv> Do (\<lambda>x r. Inr (r + 1, r))"
abbreviation micro_assert :: "(int, int) instr" where
  "micro_assert \<equiv> Do (\<lambda>x r. if 0 < x then Inr (x, r) else Inl AssertFail)"

lemma length_concat_pairs: "length (concat (replicate n [a, b])) = 2 * n"
  by (induction n) simp_all

lemma concat_pairs_nth:
  "i < 2 * n \<Longrightarrow> concat (replicate n [a, b]) ! i = (if even i then a else b)"
proof (induction n arbitrary: i)
  case (Suc n)
  consider "i = 0" | "i = 1" | j where "i = Suc (Suc j)" "j < 2 * n"
  proof (cases i)
    case (Suc i')
    with that Suc.prems show ?thesis by (cases i') auto
  qed (use that in simp)
  then show ?case by cases (simp_all add: Suc.IH)
qed simp

lemma compile_micro_incs: "compile micro_incs = concat (replicate 100 [micro_load, micro_store])"
proof -
  have "compile (concat (replicate n [load (\<lambda>x r. x), store (\<lambda>x r. r + 1)])) =
    concat (replicate n [micro_load, micro_store])" for n
    by (induction n) simp_all
  then show ?thesis unfolding micro_incs_def .
qed

lemma length_micro_incs: "length (compile micro_incs) = 200"
  unfolding compile_micro_incs length_concat_pairs by simp

lemma micro_incs_nth:
  "i < 200 \<Longrightarrow> compile micro_incs ! i = (if even i then micro_load else micro_store)"
  unfolding compile_micro_incs by (rule concat_pairs_nth) simp

text \<open>The code of one thread: the increments, the assertion, and possibly a return.\<close>

definition micro_code :: "(int, int) instr list \<Rightarrow> bool" where
  "micro_code c \<longleftrightarrow> c = compile micro_incs @ [micro_assert] \<or> c = compile micro_incs @ [micro_assert, Return]"

lemma micro_code_nth:
  assumes "micro_code c" and "i < length c"
  shows "i < 200 \<and> even i \<and> c ! i = micro_load \<or> i < 200 \<and> odd i \<and> c ! i = micro_store \<or>
    i = 200 \<and> c ! i = micro_assert \<or> i = 201 \<and> c ! i = Return"
proof -
  have c: "c ! i = compile micro_incs ! i" if "i < 200"
    using assms that by (auto simp: micro_code_def nth_append length_micro_incs)
  have "i < 202" using assms by (auto simp: micro_code_def length_micro_incs)
  then consider "i < 200" | "i = 200" | "i = 201" by linarith
  then show ?thesis
  proof cases
    case 1
    with c show ?thesis by (simp add: micro_incs_nth)
  qed (use assms in \<open>auto simp: micro_code_def nth_append length_micro_incs\<close>)
qed

lemma micro_code_worker:
  assumes "micro_code c"
  shows "\<forall>i \<in> set c. worker_instr i"
  using assms by (auto simp: micro_code_def compile_micro_incs)

text \<open>How many increments a thread has stored.\<close>

fun micro_done :: "int thread \<Rightarrow> nat" where
  "micro_done (Running r pc) = min 100 (pc div 2)"
| "micro_done Finished = 100"
| "micro_done _ = 0"

definition micro_total :: "nat \<Rightarrow> (tid \<Rightarrow> int thread) \<Rightarrow> int" where
  "micro_total k th = int (\<Sum>t \<in> {1..k}. micro_done (th t))"

fun micro_thread_ok :: "int \<Rightarrow> int \<Rightarrow> int thread \<Rightarrow> bool" where
  "micro_thread_ok x n NotCreated = True"
| "micro_thread_ok x n (Running r pc) = (0 \<le> r \<and> r \<le> n \<and> (2 \<le> pc \<longrightarrow> 0 < x))"
| "micro_thread_ok x n Finished = True"
| "micro_thread_ok x n _ = False"

definition micro_inv :: "nat \<Rightarrow> (int, int) conf \<Rightarrow> bool" where
  "micro_inv k s \<longleftrightarrow> 0 \<le> shared s \<and> shared s \<le> micro_total k (thr s) \<and>
     (\<forall>t \<in> {1..k}. micro_thread_ok (shared s) (micro_total k (thr s)) (thr s t))"

lemma micro_total_upd:
  assumes "t \<in> {1..k}"
  shows "micro_total k (th(t := th')) = micro_total k th - int (micro_done (th t)) + int (micro_done th')"
proof -
  have "(\<Sum>u \<in> {1..k} - {t}. micro_done ((th(t := th')) u)) = (\<Sum>u \<in> {1..k} - {t}. micro_done (th u))"
    by (intro sum.cong) auto
  with sum.remove [OF _ assms, of "\<lambda>u. micro_done (th u)"]
    sum.remove [OF _ assms, of "\<lambda>u. micro_done ((th(t := th')) u)"]
  show ?thesis by (simp add: micro_total_def del: of_nat_sum)
qed

lemma micro_total_main [simp]: "micro_total k (th(0 := th')) = micro_total k th"
  by (auto simp: micro_total_def intro!: sum.cong)

lemma micro_thread_ok_mono:
  "micro_thread_ok x n th \<Longrightarrow> n \<le> n' \<Longrightarrow> (0 < x \<Longrightarrow> 0 < x') \<Longrightarrow> micro_thread_ok x' n' th"
  by (cases th) auto

text \<open>A thread moves on, having stored at least as many increments as before.\<close>

lemma micro_inv_goto:
  assumes "micro_inv k s" and t: "t \<in> {1..k}" and "thr s' = (thr s)(t := th)"
    and "micro_done (thr s t) \<le> micro_done th"
    and "micro_thread_ok (shared s') (micro_total k (thr s')) th"
    and "0 \<le> shared s'" "shared s' \<le> micro_total k (thr s')" "0 < shared s \<Longrightarrow> 0 < shared s'"
  shows "micro_inv k s'"
proof -
  have "micro_total k (thr s) \<le> micro_total k (thr s')"
    using assms(3,4) by (simp add: micro_total_upd [OF t])
  with assms show ?thesis by (auto simp: micro_inv_def intro: micro_thread_ok_mono)
qed

lemma micro_inv_step:
  assumes inv: "micro_inv k s" and t: "t \<in> {1..k}" and code: "micro_code (prog t)" and "failed s = None"
    and step: "pt_step sp prog (t, ch) s = Some s'"
  shows "micro_inv k s' \<and> failed s' = None"
proof -
  have ok: "micro_thread_ok (shared s) (micro_total k (thr s)) (thr s t)"
    and x: "0 \<le> shared s" "shared s \<le> micro_total k (thr s)"
    using inv t by (auto simp: micro_inv_def)
  show ?thesis
    using step
  proof (cases rule: pt_step_cases)
    case (run r pc)
    with ok have r: "0 \<le> r" "r \<le> micro_total k (thr s)" "2 \<le> pc \<longrightarrow> 0 < shared s" by auto
    note goto = micro_inv_goto [OF inv t] micro_total_upd [OF t]
    from micro_code_nth [OF code run(2)] show ?thesis
    proof (elim disjE conjE)
      assume pc: "pc < 200" "even pc" "prog t ! pc = micro_load"
      then have s': "s' = goto s t (Running (shared s) (Suc pc))" using run by simp
      have "micro_done (thr s t) = micro_done (Running (shared s) (Suc pc))" using run pc by simp
      with s' r x run pc assms(4) show ?thesis by (auto intro!: goto(1) simp: goto(2))
    next
      assume pc: "pc < 200" "odd pc" "prog t ! pc = micro_store"
      then have s': "s' = goto (s\<lparr>shared := r + 1\<rparr>) t (Running r (Suc pc))" using run by simp
      have "micro_done (Running r (Suc pc)) = Suc (micro_done (thr s t))" using run pc by (auto elim!: oddE)
      with s' r x run assms(4) show ?thesis by (auto intro!: goto(1) simp: goto(2))
    next
      assume pc: "pc = 200" "prog t ! pc = micro_assert"
      then have "s' = goto s t (Running r (Suc pc))" using run r by simp
      with r x run pc assms(4) show ?thesis by (auto intro!: goto(1) simp: goto(2))
    next
      assume pc: "pc = 201" "prog t ! pc = Return"
      then have "s' = goto s t Finished" using run by simp
      with r x run pc assms(4) show ?thesis by (auto intro!: goto(1) simp: goto(2))
    qed
  next
    case (finish r pc)
    then show ?thesis using ok x assms(4) by (auto intro!: micro_inv_goto [OF inv t] simp: micro_total_upd [OF t])
  qed (use ok in auto)
qed

text \<open>A program of this shape: \<open>k\<close> such threads, started and joined by \<open>main\<close>.\<close>

locale micro_threads =
  fixes prog :: "tid \<Rightarrow> (int, int) instr list" and k :: nat
  assumes micro_main: "prog 0 = compile (fork_join k (\<lambda>_. 0) [1..<Suc k])"
    and micro_worker: "t \<in> {1..k} \<Longrightarrow> micro_code (prog t)"

sublocale micro_threads \<subseteq> fork_join_prog sp prog k "\<lambda>_. 0" "[1..<Suc k]" 0 0 "micro_inv k" for sp
proof (unfold_locales, goal_cases)
  case (3 t)
  then show ?case by (rule micro_code_worker [OF micro_worker])
next
  case 4
  show ?case by (auto simp: micro_inv_def pt_start_def micro_total_def)
next
  case (5 s th)
  then show ?case by (auto simp: micro_inv_def)
next
  case (6 s t)
  then have "micro_total k (thr s) = micro_total k ((thr s)(t := Running 0 0))"
    by (simp add: micro_total_upd del: atLeastAtMost_iff)
  with 6 show ?case by (auto simp: micro_inv_def)
next
  case (7 s t ch s')
  then show ?case using micro_inv_step [of k s t prog sp ch s'] micro_worker [of t] by blast
qed (auto simp: micro_main)

context micro_threads
begin

lemma micro_total_bound: "micro_total k th \<le> 100 * int k"
proof -
  have "micro_done th' \<le> 100" for th' by (cases th') auto
  then have "(\<Sum>t \<in> {1..k}. micro_done (th t)) \<le> (\<Sum>t \<in> {1..k}. 100)" by (intro sum_mono)
  then show ?thesis by (simp add: micro_total_def del: of_nat_sum)
qed

lemma counter_bounds:
  assumes "reach (pt_step sp prog) (pt_start 0 0) s"
  shows "failed s = None \<and> 0 \<le> shared s \<and> shared s \<le> 100 * int k"
proof -
  have "micro_inv k s" and "failed s = None" using reach_inv [OF assms] by blast+
  then show ?thesis using micro_total_bound [of "thr s"] by (auto simp: micro_inv_def)
qed

end

section \<open>The three programs\<close>

lemmas micro_thread_defs =
  micro_2_t1_def micro_2_t2_def micro_3_t1_def micro_3_t2_def micro_3_t3_def
  micro_10_t1_def micro_10_t2_def micro_10_t3_def micro_10_t4_def micro_10_t5_def
  micro_10_t6_def micro_10_t7_def micro_10_t8_def micro_10_t9_def micro_10_t10_def

interpretation micro_2: micro_threads micro_2_prog 2
proof
  show "micro_2_prog 0 = compile (fork_join 2 (\<lambda>_. 0) [1..<Suc 2])"
    by (simp add: micro_2_prog_def program_def micro_2_main_def fork_join_def upt_rec numeral_eq_Suc)
  fix t :: nat
  assume "t \<in> {1..2}"
  then have "t = 1 \<or> t = 2" by auto
  then show "micro_code (micro_2_prog t)" by (auto simp: micro_2_prog_def program_def micro_code_def micro_thread_defs fun_eq_iff split: if_splits)
qed

interpretation micro_3: micro_threads micro_3_prog 3
proof
  show "micro_3_prog 0 = compile (fork_join 3 (\<lambda>_. 0) [1..<Suc 3])"
    by (simp add: micro_3_prog_def program_def micro_3_main_def fork_join_def upt_rec numeral_eq_Suc)
  fix t :: nat
  assume "t \<in> {1..3}"
  then have "t = 1 \<or> t = 2 \<or> t = 3" by auto
  then show "micro_code (micro_3_prog t)" by (auto simp: micro_3_prog_def program_def micro_code_def micro_thread_defs)
qed

interpretation micro_10: micro_threads micro_10_prog 10
proof
  show "micro_10_prog 0 = compile (fork_join 10 (\<lambda>_. 0) [1..<Suc 10])"
    by (simp add: micro_10_prog_def program_def micro_10_main_def fork_join_def upt_rec numeral_eq_Suc)
  fix t :: nat
  assume "t \<in> {1..10}"
  then have "t = 1 \<or> t = 2 \<or> t = 3 \<or> t = 4 \<or> t = 5 \<or> t = 6 \<or> t = 7 \<or> t = 8 \<or> t = 9 \<or> t = 10"
    unfolding atLeastAtMost_iff by presburger
  then show "micro_code (micro_10_prog t)" by (auto simp: micro_10_prog_def program_def micro_code_def micro_thread_defs)
qed

lemma micro_2_safe:
  "reach (pt_step sp micro_2_prog) (pt_start 0 0) s \<Longrightarrow> failed s = None \<and> 0 \<le> shared s \<and> shared s \<le> 200"
  using micro_2.counter_bounds [of sp s] by simp

lemma micro_3_safe:
  "reach (pt_step sp micro_3_prog) (pt_start 0 0) s \<Longrightarrow> failed s = None \<and> 0 \<le> shared s \<and> shared s \<le> 300"
  using micro_3.counter_bounds [of sp s] by simp

text \<open>
  No interleaving of the ten threads of \<^verbatim>\<open>micro_10_ok.c\<close> violates an assertion, although
  their increments race: the counter stays between 0 and 1000, so it never overflows either.
\<close>

theorem micro_10_safe:
  assumes "reach (pt_step sp micro_10_prog) (pt_start 0 0) s"
  shows "failed s = None \<and> 0 \<le> shared s \<and> shared s \<le> 1000"
  using micro_10.counter_bounds [OF assms] by simp

text \<open>Two threads race on their first increment: one of the two increments is lost.\<close>

theorem micro_10_safe_witness:
  "\<exists>s. exec (pt_step False micro_10_prog) [(0, 0), (0, 0), (1, 0), (2, 0), (1, 0), (2, 0)] (pt_start 0 0) = Some s
     \<and> shared s = 1 \<and> failed s = None \<and> shared s \<le> 1000"
proof -
  have code: "micro_10_prog t ! 0 = micro_load" "micro_10_prog t ! 1 = micro_store"
    "0 < length (micro_10_prog t)" "1 < length (micro_10_prog t)" if "t = 1 \<or> t = 2" for t
    using that by (auto simp: micro_10_prog_def program_def micro_thread_defs nth_append length_micro_incs micro_incs_nth)
  have main: "micro_10_prog 0 ! 0 = Create (\<lambda>_. 1) (\<lambda>_. 0)" "micro_10_prog 0 ! 1 = Create (\<lambda>_. 2) (\<lambda>_. 0)"
    "0 < length (micro_10_prog 0)" "1 < length (micro_10_prog 0)"
    by (simp_all add: micro_10_prog_def program_def micro_10_main_def)
  obtain s where e: "exec (pt_step False micro_10_prog) [(0, 0), (0, 0), (1, 0), (2, 0), (1, 0), (2, 0)] (pt_start 0 0) = Some s"
    and x: "shared s = 1"
    using code [of 1] code [of 2] main by (simp add: pt_simps)
  from micro_10_safe [OF exec_reach [OF e]] e x show ?thesis by auto
qed

end
