(* ===== verification/Monitor.thy ===== *)
theory Monitor
  imports Pthreads
begin

text \<open>
  The proof rule for programs whose threads share data under one mutex. \<open>R\<close> is the resource
  invariant: it holds of the shared variables whenever the mutex is free. \<open>A t th\<close> is what thread
  \<open>t\<close> knows of the shared variables in state \<open>th\<close>, and \<open>crit t pc\<close> says that it holds the mutex at
  \<open>pc\<close>. Each instruction of each thread has one verification condition, about that thread alone
  except that what it writes must not disturb what the others know (interference freedom).
\<close>

section \<open>Verification conditions\<close>

definition mon_stable ::
  "(tid \<Rightarrow> 'l thread \<Rightarrow> 'g \<Rightarrow> bool) \<Rightarrow> (tid \<Rightarrow> nat \<Rightarrow> bool) \<Rightarrow> tid \<Rightarrow> bool \<Rightarrow> 'g \<Rightarrow> 'g \<Rightarrow> bool" where
  "mon_stable A crit t c g g' \<longleftrightarrow>
     (\<forall>u th. u \<noteq> t \<and> (c \<longrightarrow> (\<forall>l pc. th = Running l pc \<longrightarrow> \<not> crit u pc)) \<longrightarrow> A u th g \<longrightarrow> A u th g')"

lemma mon_stable_refl [simp]: "mon_stable A crit t c g g"
  by (simp add: mon_stable_def)

text \<open>What is written inside the critical section only has to leave alone what threads outside know.\<close>

lemma mon_stableI:
  assumes "\<And>u th. u \<noteq> t \<Longrightarrow> (\<And>l pc. th = Running l pc \<Longrightarrow> \<not> crit u pc) \<Longrightarrow> A u th g \<Longrightarrow> A u th g'"
  shows "mon_stable A crit t True g g'"
  using assms unfolding mon_stable_def by blast

fun mon_vc ::
  "nat \<Rightarrow> ('g \<Rightarrow> bool) \<Rightarrow> (tid \<Rightarrow> 'l thread \<Rightarrow> 'g \<Rightarrow> bool) \<Rightarrow> (tid \<Rightarrow> nat \<Rightarrow> bool) \<Rightarrow> tid \<Rightarrow> nat \<Rightarrow> 'l \<Rightarrow> 'g \<Rightarrow>
     ('g, 'l) instr \<Rightarrow> bool" where
  "mon_vc m R A crit t pc l g (Do f) =
     (case f g l of
        Inl e \<Rightarrow> False
      | Inr (g', l') \<Rightarrow> A t (Running l' (Suc pc)) g' \<and> crit t (Suc pc) = crit t pc \<and>
          mon_stable A crit t (crit t pc) g g' \<and> (\<not> crit t pc \<longrightarrow> R g \<longrightarrow> R g'))"
| "mon_vc m R A crit t pc l g (Lock f) =
     (f l = m \<and> \<not> crit t pc \<and> crit t (Suc pc) \<and> (R g \<longrightarrow> A t (Running l (Suc pc)) g))"
| "mon_vc m R A crit t pc l g (Unlock f) =
     (f l = m \<and> crit t pc \<and> \<not> crit t (Suc pc) \<and> R g \<and> A t (Running l (Suc pc)) g)"
| "mon_vc m R A crit t pc l g (Wait c m') =
     (m' = m \<and> crit t pc \<and> R g \<and> A t (Sleeping c m l (Suc pc)) g)"
| "mon_vc m R A crit t pc l g (Signal c) =
     (crit t (Suc pc) = crit t pc \<and> A t (Running l (Suc pc)) g)"
| "mon_vc m R A crit t pc l g (Create _ _) = False"
| "mon_vc m R A crit t pc l g (Join _) = False"
| "mon_vc m R A crit t pc l g (Unless b n) =
     (let pc' = (if b g l then Suc pc else pc + n) in crit t pc' = crit t pc \<and> A t (Running l pc') g)"
| "mon_vc m R A crit t pc l g (Skip n) = (crit t (pc + n) = crit t pc \<and> A t (Running l (pc + n)) g)"
| "mon_vc m R A crit t pc l g (Back n) = (crit t (pc - n) = crit t pc \<and> A t (Running l (pc - n)) g)"
| "mon_vc m R A crit t pc l g Return = (\<not> crit t pc \<and> A t Finished g)"

section \<open>The rule\<close>

fun in_crit :: "(tid \<Rightarrow> nat \<Rightarrow> bool) \<Rightarrow> tid \<Rightarrow> 'l thread \<Rightarrow> bool" where
  "in_crit crit t (Running l pc) = crit t pc"
| "in_crit crit t _ = False"

definition mon_inv ::
  "nat \<Rightarrow> nat \<Rightarrow> ('g \<Rightarrow> bool) \<Rightarrow> (tid \<Rightarrow> 'l thread \<Rightarrow> 'g \<Rightarrow> bool) \<Rightarrow> (tid \<Rightarrow> nat \<Rightarrow> bool) \<Rightarrow> ('g, 'l) conf \<Rightarrow> bool" where
  "mon_inv k m R A crit s \<longleftrightarrow>
     (mutex s m = None \<longrightarrow> R (shared s)) \<and>
     (\<forall>t. mutex s m = Some t \<longrightarrow> t \<in> {1..k}) \<and>
     (\<forall>t \<in> {1..k}. A t (thr s t) (shared s) \<and> (mutex s m = Some t \<longleftrightarrow> in_crit crit t (thr s t)))"

lemma mon_invI:
  assumes "mutex s m = None \<Longrightarrow> R (shared s)" and "\<And>t. mutex s m = Some t \<Longrightarrow> t \<in> {1..k}"
    and "\<And>t. t \<in> {1..k} \<Longrightarrow> A t (thr s t) (shared s)"
    and "\<And>t. t \<in> {1..k} \<Longrightarrow> mutex s m = Some t \<longleftrightarrow> in_crit crit t (thr s t)"
  shows "mon_inv k m R A crit s"
  using assms unfolding mon_inv_def by blast

lemma mon_invD:
  assumes "mon_inv k m R A crit s"
  shows "mutex s m = None \<Longrightarrow> R (shared s)" and "mutex s m = Some t \<Longrightarrow> t \<in> {1..k}"
    and "t \<in> {1..k} \<Longrightarrow> A t (thr s t) (shared s)"
    and "t \<in> {1..k} \<Longrightarrow> mutex s m = Some t \<longleftrightarrow> in_crit crit t (thr s t)"
  using assms unfolding mon_inv_def by blast+

text \<open>A thread moves on without touching the mutex or the shared variables.\<close>

lemma mon_inv_goto:
  assumes "mon_inv k m R A crit s" and "t \<in> {1..k}" and "A t th (shared s)"
    and "in_crit crit t th = in_crit crit t (thr s t)"
  shows "mon_inv k m R A crit (goto s t th)"
proof (rule mon_invI, goal_cases)
  case (4 u)
  with assms(4) mon_invD(4) [OF assms(1), of u] show ?case by simp
qed (use assms(3) mon_invD [OF assms(1)] in \<open>auto simp del: atLeastAtMost_iff\<close>)

text \<open>A thread takes the free mutex, and gives it back.\<close>

lemma mon_inv_lock:
  assumes "mon_inv k m R A crit s" and "t \<in> {1..k}" and "mutex s m = None"
    and "R (shared s) \<Longrightarrow> A t th (shared s)" and "in_crit crit t th"
  shows "mon_inv k m R A crit (goto (set_mutex s m (Some t)) t th)"
proof (rule mon_invI, goal_cases)
  case (3 u)
  with assms(3-5) mon_invD(1) [OF assms(1)] mon_invD(3) [OF assms(1), of u] show ?case by simp
next
  case (4 u)
  with assms(3-5) mon_invD(4) [OF assms(1), of u] show ?case by simp
qed (use assms in auto)

lemma mon_inv_unlock:
  assumes "mon_inv k m R A crit s" and "t \<in> {1..k}" and "mutex s m = Some t"
    and "R (shared s)" and "A t th (shared s)" and "\<not> in_crit crit t th"
  shows "mon_inv k m R A crit (goto (set_mutex s m None) t th)"
proof (rule mon_invI, goal_cases)
  case (3 u)
  with assms(5) mon_invD(3) [OF assms(1), of u] show ?case by simp
next
  case (4 u)
  with assms(3,6) mon_invD(4) [OF assms(1), of u] show ?case by auto
qed (use assms in auto)

lemma goto_waiters [simp]: "goto (s\<lparr>waiters := w\<rparr>) t th = (goto s t th)\<lparr>waiters := w\<rparr>"
  by (simp add: goto_def)

lemma mon_inv_waiters [simp]: "mon_inv k m R A crit (s\<lparr>waiters := w\<rparr>) = mon_inv k m R A crit s"
  by (simp add: mon_inv_def)

lemma mon_inv_wake:
  assumes "mon_inv k m R A crit s"
    and "\<And>t c m' l pc. A t (Sleeping c m' l pc) (shared s) \<Longrightarrow> A t (Waking m' l pc) (shared s)"
  shows "mon_inv k m R A crit (wake s c u)"
proof (cases "u \<in> {1..k} \<and> (\<exists>c m l pc. thr s u = Sleeping c m l pc)")
  case True
  then obtain c' m' l pc where "thr s u = Sleeping c' m' l pc" "u \<in> {1..k}" by blast
  moreover from this mon_invD(3) [OF assms(1), of u] have "A u (Waking m' l pc) (shared s)"
    by (auto intro: assms(2) simp del: atLeastAtMost_iff)
  ultimately have "mon_inv k m R A crit (goto s u (Waking m' l pc))"
    by (intro mon_inv_goto assms(1)) (simp_all del: atLeastAtMost_iff)
  with \<open>thr s u = Sleeping c' m' l pc\<close> show ?thesis by (simp add: wake_def)
next
  case False
  show ?thesis
  proof (rule mon_invI, goal_cases)
    case (3 t)
    with False have "thr (wake s c u) t = thr s t" by (auto simp: wake_def split: thread.splits)
    with mon_invD(3) [OF assms(1) 3] show ?case by simp
  next
    case (4 t)
    with False have "thr (wake s c u) t = thr s t" by (auto simp: wake_def split: thread.splits)
    with mon_invD(4) [OF assms(1) 4] show ?case by simp
  qed (use mon_invD(1,2) [OF assms(1)] in \<open>auto simp del: atLeastAtMost_iff\<close>)
qed

lemma mon_inv_do:
  assumes inv: "mon_inv k m R A crit s" and t: "t \<in> {1..k}" and pc: "thr s t = Running l pc"
    and "A t (Running l' (Suc pc)) g'" and "crit t (Suc pc) = crit t pc"
    and "mon_stable A crit t (crit t pc) (shared s) g'" and "\<not> crit t pc \<longrightarrow> R (shared s) \<longrightarrow> R g'"
  shows "mon_inv k m R A crit (goto (s\<lparr>shared := g'\<rparr>) t (Running l' (Suc pc)))"
proof -
  have holds: "mutex s m = Some t \<longleftrightarrow> crit t pc" using mon_invD(4) [OF inv t] pc by simp
  have others: "A u (thr s u) g'" if u: "u \<in> {1..k}" "u \<noteq> t" for u
  proof -
    have "\<not> crit u pc'" if "crit t pc" "thr s u = Running l'' pc'" for l'' pc'
      using mon_invD(4) [OF inv u(1)] holds that u(2) by auto
    with mon_invD(3) [OF inv u(1)] assms(6) u(2) show ?thesis unfolding mon_stable_def by blast
  qed
  show ?thesis
  proof (rule mon_invI, goal_cases)
    case 1
    with holds mon_invD(1) [OF inv] assms(7) show ?case by auto
  next
    case (4 u)
    with assms(5) pc mon_invD(4) [OF inv 4] show ?case by auto
  qed (use assms(4) others mon_invD(2) [OF inv] in \<open>auto simp del: atLeastAtMost_iff\<close>)
qed

lemma mon_inv_instr:
  assumes inv: "mon_inv k m R A crit s" and t: "t \<in> {1..k}" and pc: "thr s t = Running l pc"
    and vc: "mon_vc m R A crit t pc l (shared s) i" and step: "instr_step t ch l pc i s = Some s'"
    and awake: "\<And>t c m' l pc. A t (Sleeping c m' l pc) (shared s) \<Longrightarrow> A t (Waking m' l pc) (shared s)"
  shows "mon_inv k m R A crit s' \<and> failed s' = failed s"
proof -
  have holds: "mutex s m = Some t \<longleftrightarrow> crit t pc" using mon_invD(4) [OF inv t] pc by simp
  show ?thesis
  proof (cases i)
    case (Do f)
    with step vc show ?thesis
      by (auto split: sum.splits intro: mon_inv_do [OF inv t pc])
  next
    case (Signal c)
    then have "mon_inv k m R A crit (goto (if waiters s c = [] then s else wake s c ch) t (Running l (Suc pc)))"
      using vc pc wake_thr(2) [OF pc, of c ch] by (intro mon_inv_goto t) (auto intro: inv mon_inv_wake awake)
    with step Signal show ?thesis by (auto split: if_splits)
  next
    case (Lock f)
    with step vc holds mon_inv_lock [OF inv t, of "Running l (Suc pc)"] show ?thesis
      by (auto split: if_splits)
  next
    case (Unlock f)
    with step vc holds mon_inv_unlock [OF inv t, of "Running l (Suc pc)"] show ?thesis
      by (auto split: if_splits)
  next
    case (Wait c m')
    with step vc holds mon_inv_unlock [OF inv t, of "Sleeping c m l (Suc pc)"] show ?thesis
      by (auto split: if_splits)
  qed (use step vc pc in \<open>auto simp: Let_def split: if_splits intro!: mon_inv_goto [OF inv t]\<close>)
qed

locale monitor_prog =
  fixes prog :: "tid \<Rightarrow> ('g, 'l) instr list" and k :: nat and a :: "tid \<Rightarrow> 'l" and js :: "tid list"
    and g0 :: 'g and l0 :: 'l and m :: nat and R :: "'g \<Rightarrow> bool"
    and A :: "tid \<Rightarrow> 'l thread \<Rightarrow> 'g \<Rightarrow> bool" and crit :: "tid \<Rightarrow> nat \<Rightarrow> bool"
  assumes mon_main: "prog 0 = compile (fork_join k a js)" and mon_joined: "set js \<subseteq> {1..k}"
    and mon_code: "t \<in> {1..k} \<Longrightarrow> \<forall>i \<in> set (prog t). worker_instr i"
    and mon_R: "R g0" and mon_A: "t \<in> {1..k} \<Longrightarrow> A t NotCreated g0"
    and mon_create: "t \<in> {1..k} \<Longrightarrow> A t NotCreated g \<Longrightarrow> A t (Running (a t) 0) g \<and> \<not> crit t 0"
    and mon_instr: "t \<in> {1..k} \<Longrightarrow> A t (Running l pc) g \<Longrightarrow> pc < length (prog t) \<Longrightarrow>
      mon_vc m R A crit t pc l g (prog t ! pc)"
    and mon_finish: "t \<in> {1..k} \<Longrightarrow> A t (Running l pc) g \<Longrightarrow> length (prog t) \<le> pc \<Longrightarrow>
      A t Finished g \<and> \<not> crit t pc"
    and mon_awake: "A t (Sleeping c m' l pc) g \<Longrightarrow> A t (Waking m' l pc) g"
    and mon_relock: "t \<in> {1..k} \<Longrightarrow> A t (Waking m' l pc) g \<Longrightarrow>
      m' = m \<and> crit t pc \<and> (R g \<longrightarrow> A t (Running l pc) g)"

sublocale monitor_prog \<subseteq> fork_join_prog sp prog k a js g0 l0 "mon_inv k m R A crit" for sp
proof (unfold_locales, goal_cases)
  case 4
  show ?case by (rule mon_invI) (use mon_R mon_A in \<open>auto simp: pt_start_def\<close>)
next
  case (5 s th)
  show ?case
  proof (rule mon_invI, goal_cases)
    case (3 t)
    with mon_invD(3) [OF 5 3] show ?case by simp
  next
    case (4 t)
    with mon_invD(4) [OF 5 4] show ?case by simp
  qed (use mon_invD(1,2) [OF 5] in \<open>auto simp del: atLeastAtMost_iff\<close>)
next
  case (6 s t)
  with mon_invD(3) [OF 6(1,2)] mon_create [OF 6(2)] show ?case by (intro mon_inv_goto) simp_all
next
  case (7 s t ch s')
  have A: "A t (thr s t) (shared s)" by (rule mon_invD(3) [OF 7(1,3)])
  from 7(4) show ?case
  proof (cases rule: pt_step_cases)
    case (run l pc)
    with mon_instr [OF 7(3)] A have "mon_vc m R A crit t pc l (shared s) (prog t ! pc)" by simp
    from mon_inv_instr [OF 7(1,3) run(1) this run(3) mon_awake] 7(2) show ?thesis by simp
  next
    case (finish l pc)
    with mon_finish [OF 7(3)] A have "A t Finished (shared s) \<and> \<not> crit t pc" by simp
    with finish mon_inv_goto [OF 7(1,3), of Finished] 7(2) show ?thesis by simp
  next
    case (spurious c m' l pc)
    with mon_inv_wake [OF 7(1) mon_awake] 7(2) show ?thesis by simp
  next
    case (relock m' l pc)
    with mon_relock [OF 7(3)] A have "m' = m \<and> crit t pc \<and> (R (shared s) \<longrightarrow> A t (Running l pc) (shared s))"
      by simp
    with relock mon_inv_lock [OF 7(1,3), of "Running l pc"] 7(2) show ?thesis by simp
  qed
qed (rule mon_main mon_joined mon_code, assumption?)+

end
