(* ===== verification/Sct_Account.thy ===== *)
theory Sct_Account
  imports Monitor
begin

text \<open>
  \<^verbatim>\<open>account_ok.c\<close> and \<^verbatim>\<open>account_bad.c\<close>: a deposit, a withdrawal and a check of the balance, all
  under one mutex. The shared variables read by one expression inside the critical section are read
  in one step, since the mutex keeps the other threads out; an update is a load and a store.
\<close>

section \<open>The programs\<close>

record account =
  acc_x :: int
  acc_y :: int
  acc_z :: int
  balance :: int
  deposit_done :: bool
  withdraw_done :: bool

definition account_deposit :: "(account, int) cmd list" where
  "account_deposit =
    [mutex_lock 0,
     load (\<lambda>g r. balance g + acc_y g),
     store (\<lambda>g r. g\<lparr>balance := r\<rparr>),
     store (\<lambda>g r. g\<lparr>deposit_done := True\<rparr>),
     mutex_unlock 0,
     thread_return]"

definition account_withdraw :: "(account, int) cmd list" where
  "account_withdraw =
    [mutex_lock 0,
     load (\<lambda>g r. balance g - acc_z g),
     store (\<lambda>g r. g\<lparr>balance := r\<rparr>),
     store (\<lambda>g r. g\<lparr>withdraw_done := True\<rparr>),
     mutex_unlock 0,
     thread_return]"

definition account_ok_check_result :: "(account, int) cmd list" where
  "account_ok_check_result =
    [mutex_lock 0,
     IF (\<lambda>g r. deposit_done g \<and> withdraw_done g)
       [assertion (\<lambda>g r. balance g = (acc_x g + acc_y g) - acc_z g)] [],
     mutex_unlock 0,
     thread_return]"

definition account_bad_check_result :: "(account, int) cmd list" where
  "account_bad_check_result =
    [mutex_lock 0,
     IF (\<lambda>g r. deposit_done g \<and> withdraw_done g)
       [assertion (\<lambda>g r. balance g = (acc_x g - acc_y g) - acc_z g)] [],
     mutex_unlock 0,
     thread_return]"

text \<open>The threads in the order in which \<open>main\<close> starts them: check, deposit, withdraw.\<close>

definition account_main :: "(account, int) cmd list" where
  "account_main = fork_join 3 (\<lambda>_. 0) [1, 2, 3]"

definition account_start :: account where
  "account_start = \<lparr>acc_x = 1, acc_y = 2, acc_z = 4, balance = 1,
     deposit_done = False, withdraw_done = False\<rparr>"

definition account_ok_prog :: "tid \<Rightarrow> (account, int) instr list" where
  "account_ok_prog = program [account_main, account_ok_check_result, account_deposit, account_withdraw]"

definition account_bad_prog :: "tid \<Rightarrow> (account, int) instr list" where
  "account_bad_prog = program [account_main, account_bad_check_result, account_deposit, account_withdraw]"

lemma account_ok_code:
  "account_ok_prog (Suc 0) = [Lock (\<lambda>_. 0), Unless (\<lambda>g r. deposit_done g \<and> withdraw_done g) 3,
     Do (\<lambda>g l. if balance g = (acc_x g + acc_y g) - acc_z g then Inr (g, l) else Inl AssertFail),
     Skip 1, Unlock (\<lambda>_. 0), Return]"
  "account_ok_prog 2 = [Lock (\<lambda>_. 0), Do (\<lambda>g l. Inr (g, balance g + acc_y g)),
     Do (\<lambda>g l. Inr (g\<lparr>balance := l\<rparr>, l)), Do (\<lambda>g l. Inr (g\<lparr>deposit_done := True\<rparr>, l)),
     Unlock (\<lambda>_. 0), Return]"
  "account_ok_prog 3 = [Lock (\<lambda>_. 0), Do (\<lambda>g l. Inr (g, balance g - acc_z g)),
     Do (\<lambda>g l. Inr (g\<lparr>balance := l\<rparr>, l)), Do (\<lambda>g l. Inr (g\<lparr>withdraw_done := True\<rparr>, l)),
     Unlock (\<lambda>_. 0), Return]"
  by (simp_all add: account_ok_prog_def program_def account_ok_check_result_def account_deposit_def
      account_withdraw_def numeral_eq_Suc)

section \<open>The assertion of the correct program holds\<close>

definition account_R :: "account \<Rightarrow> bool" where
  "account_R g \<longleftrightarrow> acc_x g = 1 \<and> acc_y g = 2 \<and> acc_z g = 4 \<and>
     balance g = 1 + 2 * of_bool (deposit_done g) - 4 * of_bool (withdraw_done g)"

definition account_crit :: "tid \<Rightarrow> nat \<Rightarrow> bool" where
  "account_crit t pc \<longleftrightarrow> 1 \<le> pc \<and> pc \<le> 4"

text \<open>What a depositing (or withdrawing) thread knows: the flag is its own, and the balance it computed.\<close>

fun update_knows :: "bool \<Rightarrow> int \<Rightarrow> int thread \<Rightarrow> account \<Rightarrow> bool" where
  "update_knows done d (Running r pc) g =
     ((4 \<le> pc) = done \<and> pc \<le> 6 \<and>
      (pc = 1 \<longrightarrow> account_R g) \<and> (pc = 2 \<longrightarrow> account_R g \<and> r = balance g + d) \<and>
      (pc = 3 \<longrightarrow> account_R (g\<lparr>balance := balance g - d\<rparr>)) \<and> (pc = 4 \<longrightarrow> account_R g))"
| "update_knows done d NotCreated g = (\<not> done)"
| "update_knows done d Finished g = done"
| "update_knows done d _ g = False"

fun check_knows :: "int thread \<Rightarrow> account \<Rightarrow> bool" where
  "check_knows (Running r pc) g =
     (pc \<le> 6 \<and> (1 \<le> pc \<and> pc \<le> 4 \<longrightarrow> account_R g) \<and> (pc = 2 \<longrightarrow> deposit_done g \<and> withdraw_done g))"
| "check_knows NotCreated g = True"
| "check_knows Finished g = True"
| "check_knows _ g = False"

definition account_A :: "tid \<Rightarrow> int thread \<Rightarrow> account \<Rightarrow> bool" where
  "account_A t th g =
     (if t = 1 then check_knows th g
      else if t = 2 then update_knows (deposit_done g) 2 th g
      else if t = 3 then update_knows (withdraw_done g) (- 4) th g
      else True)"

lemma account_stable:
  "mon_stable account_A account_crit t True g (g\<lparr>balance := b\<rparr>)"
  "mon_stable account_A account_crit 2 True g (g\<lparr>deposit_done := True\<rparr>)"
  "mon_stable account_A account_crit 3 True g (g\<lparr>withdraw_done := True\<rparr>)"
proof -
  have out: "pc = 0 \<or> 4 < pc" if "\<not> account_crit u pc" for u pc
    using that by (auto simp: account_crit_def)
  show "mon_stable account_A account_crit t True g (g\<lparr>balance := b\<rparr>)"
    "mon_stable account_A account_crit 2 True g (g\<lparr>deposit_done := True\<rparr>)"
    "mon_stable account_A account_crit 3 True g (g\<lparr>withdraw_done := True\<rparr>)"
    by (rule mon_stableI; case_tac th; auto simp: account_A_def split: if_splits dest!: out)+
qed

interpretation account_ok: monitor_prog account_ok_prog 3 "\<lambda>_. 0" "[1, 2, 3]" account_start 0 0
  account_R account_A account_crit
proof (unfold_locales, goal_cases)
  case 1
  show ?case by (simp add: account_ok_prog_def program_def account_main_def)
next
  case (3 t)
  then show ?case using le3_cases [of t] by (auto simp: account_ok_code)
next
  case (7 t l pc g)
  have "t = 1 \<or> t = 2 \<or> t = 3" using 7(1) by (rule le3_cases)
  moreover from this have "length (account_ok_prog t) = 6" by (auto simp: account_ok_code)
  with 7(3) have "pc = 0 \<or> pc = 1 \<or> pc = 2 \<or> pc = 3 \<or> pc = 4 \<or> pc = 5" by presburger
  ultimately show ?case
    using 7(2) 
    by (elim disjE) (auto simp: account_ok_code account_A_def account_crit_def account_R_def account_stable)
next
  case (8 t l pc g)
  with le3_cases [OF 8(1)] show ?case by (auto simp: account_A_def account_crit_def account_ok_code)
qed (auto simp: account_A_def account_R_def account_crit_def account_start_def split: if_splits dest!: le3_cases)

text \<open>
  \<^verbatim>\<open>account_ok.c\<close> never violates its assertion: once both the deposit and the withdrawal are
  done the balance is \<open>x + y - z\<close>, in every interleaving.
\<close>

theorem account_ok_safe:
  assumes "reach (pt_step sp account_ok_prog) (pt_start account_start 0) s"
  shows "failed s = None"
  using assms by (rule account_ok.never_fails)

lemmas account_sched_simps =
  program_def account_main_def fork_join_def account_start_def
  account_ok_check_result_def account_bad_check_result_def account_deposit_def account_withdraw_def
  pt_simps upt_rec numeral_eq_Suc

definition account_sched :: "(tid \<times> nat) list" where
  "account_sched = replicate 3 (0, 0) @ replicate 6 (2, 0) @ replicate 6 (3, 0) @ replicate 3 (1, 0)"

theorem account_ok_safe_witness:
  "\<exists>s. exec (pt_step False account_ok_prog) account_sched (pt_start account_start 0) = Some s \<and>
     balance (shared s) = - 1 \<and> deposit_done (shared s) \<and> withdraw_done (shared s) \<and> failed s = None"
proof -
  obtain s where e: "exec (pt_step False account_ok_prog) account_sched (pt_start account_start 0) = Some s"
    and "balance (shared s) = - 1" "deposit_done (shared s)" "withdraw_done (shared s)"
    by (simp add: account_sched_def account_ok_prog_def account_sched_simps)
  with account_ok_safe [OF exec_reach [OF e]] show ?thesis by blast
qed

section \<open>The assertion of the wrong program fails\<close>

lemma account_bad_fails:
  "\<exists>s. reach (pt_step False account_bad_prog) (pt_start account_start 0) s \<and> failed s = Some AssertFail"
proof -
  have "\<exists>s. exec (pt_step False account_bad_prog) account_sched (pt_start account_start 0) = Some s \<and>
     failed s = Some AssertFail"
    by (simp add: account_sched_def account_bad_prog_def account_sched_simps)
  then show ?thesis by (blast intro: exec_reach)
qed

end
