(* ===== verification/Sct_Stack.thy ===== *)
theory Sct_Stack
  imports Monitor
begin

text \<open>
  \<^verbatim>\<open>stack_ok.c\<close> and \<^verbatim>\<open>stack_bad.c\<close>: a stack of ten elements under one mutex, filled by one thread and
  emptied by another. The functions are inlined where they are called; an access outside the array is
  the failure \<open>OutOfBounds\<close>.
\<close>

section \<open>The programs\<close>

record stack =
  stk_top :: int
  stk_arr :: "int list"
  stk_flag :: bool

text \<open>The loop counter and the value a called function is computing.\<close>

record stack_locals =
  stk_i :: int
  stk_r :: int

definition STACK_SIZE :: int where "STACK_SIZE = 10"

definition OVERFLOW :: int where "OVERFLOW = - 1"

definition UNDERFLOW :: int where "UNDERFLOW = - 2"

definition stack_push :: "(stack_locals \<Rightarrow> int) \<Rightarrow> (stack, stack_locals) cmd list" where
  "stack_push x =
    [IF (\<lambda>g l. stk_top g = STACK_SIZE)
       [load (\<lambda>g l. l\<lparr>stk_r := OVERFLOW\<rparr>)]
       [access (\<lambda>g l. if 0 \<le> stk_top g \<and> stk_top g < STACK_SIZE
          then Inr (g\<lparr>stk_arr := (stk_arr g)[nat (stk_top g) := x l]\<rparr>, l) else Inl OutOfBounds),
        load (\<lambda>g l. l\<lparr>stk_r := stk_top g + 1\<rparr>),
        store (\<lambda>g l. g\<lparr>stk_top := stk_r l\<rparr>),
        load (\<lambda>g l. l\<lparr>stk_r := 0\<rparr>)]]"

definition stack_pop :: "(stack, stack_locals) cmd list" where
  "stack_pop =
    [IF (\<lambda>g l. stk_top g = 0)
       [load (\<lambda>g l. l\<lparr>stk_r := UNDERFLOW\<rparr>)]
       [load (\<lambda>g l. l\<lparr>stk_r := stk_top g - 1\<rparr>),
        store (\<lambda>g l. g\<lparr>stk_top := stk_r l\<rparr>),
        access (\<lambda>g l. if 0 \<le> stk_top g \<and> stk_top g < STACK_SIZE
          then Inr (g, l\<lparr>stk_r := stk_arr g ! nat (stk_top g)\<rparr>) else Inl OutOfBounds)]]"

definition stack_for :: "(stack, stack_locals) cmd list \<Rightarrow> (stack, stack_locals) cmd list" where
  "stack_for body =
    [load (\<lambda>g l. l\<lparr>stk_i := 0\<rparr>),
     WHILE (\<lambda>g l. stk_i l < STACK_SIZE) (body @ [load (\<lambda>g l. l\<lparr>stk_i := stk_i l + 1\<rparr>)]),
     thread_return]"

definition stack_ok_t1 :: "(stack, stack_locals) cmd list" where
  "stack_ok_t1 = stack_for ([mutex_lock 0] @ stack_push stk_i @ [assertion (\<lambda>g l. stk_r l \<noteq> OVERFLOW), mutex_unlock 0])"

definition stack_ok_t2 :: "(stack, stack_locals) cmd list" where
  "stack_ok_t2 = stack_for [mutex_lock 0, IF (\<lambda>g l. stk_top g > 0) stack_pop [], mutex_unlock 0]"

definition stack_bad_t1 :: "(stack, stack_locals) cmd list" where
  "stack_bad_t1 = stack_for ([mutex_lock 0] @ stack_push stk_i @
     [assertion (\<lambda>g l. stk_r l \<noteq> OVERFLOW), store (\<lambda>g l. g\<lparr>stk_flag := True\<rparr>), mutex_unlock 0])"

definition stack_bad_t2 :: "(stack, stack_locals) cmd list" where
  "stack_bad_t2 = stack_for [mutex_lock 0,
     IF (\<lambda>g l. stk_flag g) (stack_pop @ [assertion (\<lambda>g l. stk_r l \<noteq> UNDERFLOW)]) [], mutex_unlock 0]"

definition stack_l0 :: stack_locals where "stack_l0 = \<lparr>stk_i = 0, stk_r = 0\<rparr>"

definition stack_main :: "(stack, stack_locals) cmd list" where
  "stack_main = fork_join 2 (\<lambda>_. stack_l0) [1, 2]"

definition stack_start :: stack where
  "stack_start = \<lparr>stk_top = 0, stk_arr = replicate 10 0, stk_flag = False\<rparr>"

definition stack_ok_prog :: "tid \<Rightarrow> (stack, stack_locals) instr list" where
  "stack_ok_prog = program [stack_main, stack_ok_t1, stack_ok_t2]"

definition stack_bad_prog :: "tid \<Rightarrow> (stack, stack_locals) instr list" where
  "stack_bad_prog = program [stack_main, stack_bad_t1, stack_bad_t2]"

lemmas stack_defs = stack_push_def stack_pop_def stack_for_def STACK_SIZE_def OVERFLOW_def UNDERFLOW_def

lemma stack_ok_code:
  "stack_ok_prog (Suc 0) =
    [Do (\<lambda>g l. Inr (g, l\<lparr>stk_i := 0\<rparr>)), Unless (\<lambda>g l. stk_i l < 10) 13, Lock (\<lambda>_. 0),
     Unless (\<lambda>g l. stk_top g = 10) 3, Do (\<lambda>g l. Inr (g, l\<lparr>stk_r := - 1\<rparr>)), Skip 5,
     Do (\<lambda>g l. if 0 \<le> stk_top g \<and> stk_top g < 10 then Inr (g\<lparr>stk_arr := (stk_arr g)[nat (stk_top g) := stk_i l]\<rparr>, l) else Inl OutOfBounds),
     Do (\<lambda>g l. Inr (g, l\<lparr>stk_r := stk_top g + 1\<rparr>)), Do (\<lambda>g l. Inr (g\<lparr>stk_top := stk_r l\<rparr>, l)),
     Do (\<lambda>g l. Inr (g, l\<lparr>stk_r := 0\<rparr>)), Do (\<lambda>g l. if stk_r l \<noteq> - 1 then Inr (g, l) else Inl AssertFail),
     Unlock (\<lambda>_. 0), Do (\<lambda>g l. Inr (g, l\<lparr>stk_i := stk_i l + 1\<rparr>)), Back 12, Return]"
  "stack_ok_prog 2 =
    [Do (\<lambda>g l. Inr (g, l\<lparr>stk_i := 0\<rparr>)), Unless (\<lambda>g l. stk_i l < 10) 13, Lock (\<lambda>_. 0),
     Unless (\<lambda>g l. stk_top g > 0) 8, Unless (\<lambda>g l. stk_top g = 0) 3, Do (\<lambda>g l. Inr (g, l\<lparr>stk_r := - 2\<rparr>)), Skip 4,
     Do (\<lambda>g l. Inr (g, l\<lparr>stk_r := stk_top g - 1\<rparr>)), Do (\<lambda>g l. Inr (g\<lparr>stk_top := stk_r l\<rparr>, l)),
     Do (\<lambda>g l. if 0 \<le> stk_top g \<and> stk_top g < 10 then Inr (g, l\<lparr>stk_r := stk_arr g ! nat (stk_top g)\<rparr>) else Inl OutOfBounds),
     Skip 1, Unlock (\<lambda>_. 0), Do (\<lambda>g l. Inr (g, l\<lparr>stk_i := stk_i l + 1\<rparr>)), Back 12, Return]"
  by (simp_all add: stack_ok_prog_def program_def stack_ok_t1_def stack_ok_t2_def stack_defs)

section \<open>The correct program\<close>

definition stack_R :: "stack \<Rightarrow> bool" where
  "stack_R g \<longleftrightarrow> 0 \<le> stk_top g \<and> stk_top g \<le> 10 \<and> length (stk_arr g) = 10"

definition stack_crit :: "tid \<Rightarrow> nat \<Rightarrow> bool" where
  "stack_crit t pc \<longleftrightarrow> 3 \<le> pc \<and> pc \<le> 11"

text \<open>
  The pushing thread knows that at most as many elements are on the stack as it has pushed; the popping
  one knows what it has tested.
\<close>

definition push_cap :: "stack_locals \<Rightarrow> nat \<Rightarrow> int" where
  "push_cap l pc = (if pc = 0 then 0 else if 9 \<le> pc \<and> pc \<le> 12 then stk_i l + 1 else stk_i l)"

definition push_in :: "stack_locals \<Rightarrow> nat \<Rightarrow> stack \<Rightarrow> bool" where
  "push_in l pc g \<longleftrightarrow> pc \<noteq> 4 \<and> pc \<noteq> 5 \<and> stack_R g \<and> (pc = 8 \<longrightarrow> stk_r l = stk_top g + 1) \<and> (pc = 10 \<longrightarrow> stk_r l = 0)"

fun push_knows :: "stack_locals thread \<Rightarrow> stack \<Rightarrow> bool" where
  "push_knows (Running l pc) g =
     (pc \<le> 15 \<and> stk_top g \<le> push_cap l pc \<and> (2 \<le> pc \<and> pc \<le> 12 \<longrightarrow> stk_i l < 10) \<and> (stack_crit 1 pc \<longrightarrow> push_in l pc g))"
| "push_knows NotCreated g = (stk_top g \<le> 0)"
| "push_knows Finished g = True"
| "push_knows _ g = False"

definition pop_in :: "stack_locals \<Rightarrow> nat \<Rightarrow> stack \<Rightarrow> bool" where
  "pop_in l pc g \<longleftrightarrow> pc \<noteq> 5 \<and> pc \<noteq> 6 \<and> stack_R g \<and> (pc = 4 \<or> pc = 7 \<or> pc = 8 \<longrightarrow> stk_top g > 0) \<and>
      (pc = 8 \<longrightarrow> stk_r l = stk_top g - 1) \<and> (pc = 9 \<longrightarrow> stk_top g < 10)"

fun pop_knows :: "stack_locals thread \<Rightarrow> stack \<Rightarrow> bool" where
  "pop_knows (Running l pc) g = (pc \<le> 15 \<and> (stack_crit 2 pc \<longrightarrow> pop_in l pc g))"
| "pop_knows NotCreated g = True"
| "pop_knows Finished g = True"
| "pop_knows _ g = False"

definition stack_A :: "tid \<Rightarrow> stack_locals thread \<Rightarrow> stack \<Rightarrow> bool" where
  "stack_A t th g = (if t = 1 then push_knows th g else if t = 2 then pop_knows th g else True)"

lemma pop_knows_outside:
  assumes "pop_knows th g" and "\<And>l pc. th = Running l pc \<Longrightarrow> \<not> stack_crit 2 pc"
  shows "pop_knows th g'"
  using assms by (cases th) simp_all

lemma push_knows_outside:
  assumes "push_knows th g" and "\<And>l pc. th = Running l pc \<Longrightarrow> \<not> stack_crit 1 pc" and "stk_top g' \<le> stk_top g"
  shows "push_knows th g'"
  using assms by (cases th) simp_all

lemma stack_stable:
  "mon_stable stack_A stack_crit (Suc 0) True g g'"
  "stk_top g' \<le> stk_top g \<Longrightarrow> mon_stable stack_A stack_crit 2 True g g'"
proof -
  show "mon_stable stack_A stack_crit (Suc 0) True g g'"
  proof (rule mon_stableI)
    fix u th assume "u \<noteq> Suc 0" "\<And>l pc. th = Running l pc \<Longrightarrow> \<not> stack_crit u pc" "stack_A u th g"
    then show "stack_A u th g'" using pop_knows_outside [of th g g'] by (cases "u = 2") (simp_all add: stack_A_def)
  qed
  assume le: "stk_top g' \<le> stk_top g"
  show "mon_stable stack_A stack_crit 2 True g g'"
  proof (rule mon_stableI)
    fix u th assume "u \<noteq> 2" "\<And>l pc. th = Running l pc \<Longrightarrow> \<not> stack_crit u pc" "stack_A u th g"
    then show "stack_A u th g'" using push_knows_outside [of th g g'] le by (cases "u = 1") (simp_all add: stack_A_def)
  qed
qed

lemma pc15_cases: "pc < 15 \<Longrightarrow> pc = 0 \<or> pc = 1 \<or> pc = 2 \<or> pc = 3 \<or> pc = 4 \<or> pc = 5 \<or> pc = 6 \<or> pc = 7 \<or> pc = 8 \<or>
   pc = 9 \<or> pc = 10 \<or> pc = 11 \<or> pc = 12 \<or> pc = 13 \<or> pc = (14 :: nat)"
  by presburger

lemma stack_push_vc:
  assumes "push_knows (Running l pc) g" and "pc < 15"
  shows "mon_vc 0 stack_R stack_A stack_crit 1 pc l g (stack_ok_prog 1 ! pc)"
  using assms(1) pc15_cases [OF assms(2)]
  by (elim disjE) (auto simp: stack_ok_code stack_A_def stack_crit_def stack_R_def push_in_def push_cap_def stack_stable)

lemma stack_pop_vc:
  assumes "pop_knows (Running l pc) g" and "pc < 15"
  shows "mon_vc 0 stack_R stack_A stack_crit 2 pc l g (stack_ok_prog 2 ! pc)"
  using assms(1) pc15_cases [OF assms(2)]
  by (elim disjE) (auto simp: stack_ok_code stack_A_def stack_crit_def stack_R_def pop_in_def stack_stable)

interpretation stack_ok: monitor_prog stack_ok_prog 2 "\<lambda>_. stack_l0" "[1, 2]" stack_start stack_l0 0
  stack_R stack_A stack_crit
proof (unfold_locales, goal_cases)
  case 1
  show ?case by (simp add: stack_ok_prog_def program_def stack_main_def)
next
  case (3 t)
  then show ?case using le2_cases [of t] by (auto simp: stack_ok_code)
next
  case (7 t l pc g)
  then show ?case using le2_cases [of t] stack_push_vc [of l pc g] stack_pop_vc [of l pc g]
    by (auto simp: stack_A_def stack_ok_code)
next
  case (8 t l pc g)
  with le2_cases [OF 8(1)] show ?case by (auto simp: stack_A_def stack_crit_def stack_ok_code)
qed (auto simp: stack_A_def stack_R_def stack_crit_def push_cap_def stack_start_def stack_l0_def split: if_splits dest!: le2_cases)

text \<open>
  \<^verbatim>\<open>stack_ok.c\<close> is safe: in every interleaving no push overflows, so the assertion holds, and no
  access of \<open>push\<close> or \<open>pop\<close> leaves the array.
\<close>

theorem stack_ok_safe:
  assumes "reach (pt_step sp stack_ok_prog) (pt_start stack_start stack_l0) s"
  shows "failed s = None"
  using assms by (rule stack_ok.never_fails)

lemmas stack_sched_simps =
  program_def stack_main_def fork_join_def stack_start_def stack_l0_def stack_ok_t1_def stack_ok_t2_def
  stack_bad_t1_def stack_bad_t2_def stack_defs pt_simps upt_rec

definition stack_push_once :: "(tid \<times> nat) list" where
  "stack_push_once = replicate 2 (0, 0) @ replicate 12 (1, 0)"

theorem stack_ok_safe_witness:
  "\<exists>s. exec (pt_step False stack_ok_prog) (stack_push_once @ replicate 10 (2, 0)) (pt_start stack_start stack_l0) = Some s
     \<and> stk_top (shared s) = 0 \<and> failed s = None"
proof -
  have "\<exists>s. exec (pt_step False stack_ok_prog) (stack_push_once @ replicate 10 (2, 0)) (pt_start stack_start stack_l0) = Some s
     \<and> stk_top (shared s) = 0"
    by (simp add: stack_push_once_def stack_ok_prog_def stack_sched_simps numeral_eq_Suc)
  then obtain s where e: "exec (pt_step False stack_ok_prog) (stack_push_once @ replicate 10 (2, 0)) (pt_start stack_start stack_l0) = Some s"
    and "stk_top (shared s) = 0" by blast
  with stack_ok_safe [OF exec_reach [OF e]] show ?thesis by blast
qed

section \<open>The wrong program\<close>

text \<open>One push raises the flag for good, so the second pop in a row underflows.\<close>

lemma stack_bad_fails:
  "\<exists>s. reach (pt_step False stack_bad_prog) (pt_start stack_start stack_l0) s \<and> failed s = Some AssertFail"
proof -
  have "\<exists>s. exec (pt_step False stack_bad_prog) (replicate 2 (0, 0) @ replicate 11 (1, 0) @ replicate 20 (2, 0))
      (pt_start stack_start stack_l0) = Some s \<and> failed s = Some AssertFail"
    by (simp add: stack_bad_prog_def stack_sched_simps numeral_eq_Suc)
  then show ?thesis by (blast intro: exec_reach)
qed

end
