(* ===== verification/Sct_Races.thy ===== *)
theory Sct_Races
  imports Pthreads
begin

text \<open>
  Programs whose assertion a race violates: \<^verbatim>\<open>lazy01\<close>, \<^verbatim>\<open>reorder_*\<close>, \<^verbatim>\<open>twostage*\<close>, \<^verbatim>\<open>wronglock*\<close>,
  \<^verbatim>\<open>token_ring_bad.c\<close> and \<^verbatim>\<open>bluetooth_driver_bad.c\<close>. The thread counts of the parametric programs
  are parameters; the command line is not read (\<open>argc == 1\<close>) and thread creation, joining and mutex
  calls succeed, so the error exits of \<open>main\<close>, \<open>lock\<close> and \<open>unlock\<close> are not taken.
\<close>

section \<open>lazy01\<close>

definition lazy01_thread1 :: "(int, int) cmd list" where
  "lazy01_thread1 = [mutex_lock 0, load (\<lambda>data r. data), store (\<lambda>data r. r + 1), mutex_unlock 0, thread_return]"

definition lazy01_thread2 :: "(int, int) cmd list" where
  "lazy01_thread2 = [mutex_lock 0, load (\<lambda>data r. data), store (\<lambda>data r. r + 2), mutex_unlock 0, thread_return]"

definition lazy01_ok_thread3 :: "(int, int) cmd list" where
  "lazy01_ok_thread3 = [mutex_lock 0, IF (\<lambda>data r. data \<ge> 3) [] [], mutex_unlock 0, thread_return]"

definition lazy01_bad_thread3 :: "(int, int) cmd list" where
  "lazy01_bad_thread3 = [mutex_lock 0, IF (\<lambda>data r. data \<ge> 3) [assertion (\<lambda>_ _. False)] [],
     mutex_unlock 0, thread_return]"

definition lazy01_ok_main :: "(int, int) cmd list" where
  "lazy01_ok_main = fork_join 3 (\<lambda>_. 0) [2, 3, 1]"

definition lazy01_bad_main :: "(int, int) cmd list" where
  "lazy01_bad_main = fork_join 3 (\<lambda>_. 0) [1, 2, 3]"

definition lazy01_ok_prog :: "tid \<Rightarrow> (int, int) instr list" where
  "lazy01_ok_prog = program [lazy01_ok_main, lazy01_ok_thread3, lazy01_thread1, lazy01_thread2]"

definition lazy01_bad_prog :: "tid \<Rightarrow> (int, int) instr list" where
  "lazy01_bad_prog = program [lazy01_bad_main, lazy01_thread1, lazy01_thread2, lazy01_bad_thread3]"

lemmas sched_simps = program_def fork_join_def pt_simps upt_rec numeral_eq_Suc

lemma lazy01_bad_fails:
  "\<exists>s. reach (pt_step False lazy01_bad_prog) (pt_start 0 0) s \<and> failed s = Some AssertFail"
proof -
  have "\<exists>s. exec (pt_step False lazy01_bad_prog)
      (replicate 3 (0, 0) @ replicate 4 (1, 0) @ replicate 4 (2, 0) @ replicate 3 (3, 0)) (pt_start 0 0) = Some s
      \<and> failed s = Some AssertFail"
    by (simp add: lazy01_bad_prog_def lazy01_bad_main_def lazy01_thread1_def lazy01_thread2_def
        lazy01_bad_thread3_def sched_simps)
  then show ?thesis by (blast intro: exec_reach)
qed

section \<open>reorder\<close>

text \<open>
  The shared variables are \<open>a\<close> and \<open>b\<close>, the locals of a checking thread the values it read of them.
  The condition is evaluated from left to right: \<open>b\<close> is read only when \<open>a\<close> does not decide, and
  \<open>a\<close> is read again for the second disjunct.
\<close>

definition reorder_set_thread :: "(int \<times> int, int \<times> int) cmd list" where
  "reorder_set_thread = [store (\<lambda>(a, b) l. (1, b)), store (\<lambda>(a, b) l. (a, - 1)), thread_return]"

definition reorder_check_thread :: "(int \<times> int, int \<times> int) cmd list" where
  "reorder_check_thread =
    [load (\<lambda>(a, b) (ra, rb). (a, rb)),
     IF (\<lambda>_ (ra, rb). ra = 0) [load (\<lambda>(a, b) (ra, rb). (ra, b))] [],
     IF (\<lambda>_ (ra, rb). \<not> (ra = 0 \<and> rb = 0))
       [load (\<lambda>(a, b) (ra, rb). (a, rb)),
        IF (\<lambda>_ (ra, rb). ra = 1) [load (\<lambda>(a, b) (ra, rb). (ra, b))] [],
        IF (\<lambda>_ (ra, rb). \<not> (ra = 1 \<and> rb = - 1)) [assertion (\<lambda>_ _. False)] []] [],
     thread_return]"

definition reorder_main :: "nat \<Rightarrow> nat \<Rightarrow> (int \<times> int, int \<times> int) cmd list" where
  "reorder_main iSet iCheck = fork_join (iSet + iCheck) (\<lambda>_. (0, 0)) [1..<Suc (iSet + iCheck)]"

definition reorder_prog :: "nat \<Rightarrow> nat \<Rightarrow> tid \<Rightarrow> (int \<times> int, int \<times> int) instr list" where
  "reorder_prog iSet iCheck = program (reorder_main iSet iCheck #
     replicate iSet reorder_set_thread @ replicate iCheck reorder_check_thread)"

definition reorder_3_prog :: "tid \<Rightarrow> (int \<times> int, int \<times> int) instr list" where
  "reorder_3_prog = reorder_prog 2 1"
definition reorder_4_prog :: "tid \<Rightarrow> (int \<times> int, int \<times> int) instr list" where
  "reorder_4_prog = reorder_prog 3 1"
definition reorder_5_prog :: "tid \<Rightarrow> (int \<times> int, int \<times> int) instr list" where
  "reorder_5_prog = reorder_prog 4 1"
definition reorder_10_prog :: "tid \<Rightarrow> (int \<times> int, int \<times> int) instr list" where
  "reorder_10_prog = reorder_prog 9 1"
definition reorder_20_prog :: "tid \<Rightarrow> (int \<times> int, int \<times> int) instr list" where
  "reorder_20_prog = reorder_prog 19 1"

text \<open>
  However many setting and checking threads \<^verbatim>\<open>reorder_*_bad.c\<close> starts (at least one of each),
  some interleaving violates the assertion: a check between the two stores of one setting thread.
\<close>

theorem reorder_fails:
  assumes "0 < iSet" and "0 < iCheck"
  shows "\<exists>s. reach (pt_step sp (reorder_prog iSet iCheck)) (pt_start (0, 0) (0, 0)) s \<and> failed s = Some AssertFail"
proof -
  let ?prog = "reorder_prog iSet iCheck" and ?n = "iSet + iCheck"
  have main: "?prog 0 = compile (fork_join ?n (\<lambda>_. (0, 0)) [1..<Suc ?n])"
    by (simp add: reorder_prog_def program_def reorder_main_def)
  have set1: "?prog 1 = compile reorder_set_thread"
    using assms by (simp add: reorder_prog_def program_def nth_append)
  have chk: "?prog (Suc iSet) = compile reorder_check_thread"
    using assms by (simp add: reorder_prog_def program_def nth_append)
  have "\<exists>s. exec (pt_step sp ?prog) ((1, 0) # replicate 9 (Suc iSet, 0)) (forked (\<lambda>_. (0, 0)) ?n (0, 0) (0, 0)) = Some s \<and>
      failed s = Some AssertFail"
    using assms set1 chk
    by (simp add: reorder_set_thread_def reorder_check_thread_def forked_def pt_simps numeral_eq_Suc)
  with main show ?thesis by (rule reach_forked [of ?prog])
qed

theorem reorder_fails_witness:
  "\<exists>s. reach (pt_step False reorder_20_prog) (pt_start (0, 0) (0, 0)) s \<and> failed s = Some AssertFail"
  unfolding reorder_20_prog_def by (rule reorder_fails) simp_all

section \<open>twostage\<close>

text \<open>
  Two values under two mutexes: \<open>0\<close> is \<open>data1Lock\<close>, \<open>1\<close> is \<open>data2Lock\<close>. \<open>funcA\<close> reads \<open>data1Value\<close>
  a second time holding only \<open>data2Lock\<close>. The locals are \<open>t1\<close> and \<open>t2\<close> (\<open>funcA\<close> uses the first as
  a register).
\<close>

definition twostage_funcA :: "(int \<times> int, int \<times> int) cmd list" where
  "twostage_funcA =
    [mutex_lock 0, store (\<lambda>(d1, d2) l. (1, d2)), mutex_unlock 0,
     mutex_lock 1, load (\<lambda>(d1, d2) (t1, t2). (d1, t2)), store (\<lambda>(d1, d2) (t1, t2). (d1, t1 + 1)), mutex_unlock 1,
     thread_return]"

definition twostage_funcB :: "(int \<times> int, int \<times> int) cmd list" where
  "twostage_funcB =
    [mutex_lock 0,
     IF (\<lambda>(d1, d2) l. d1 = 0) [mutex_unlock 0, thread_return] [],
     load (\<lambda>(d1, d2) (t1, t2). (d1, t2)),
     mutex_unlock 0,
     mutex_lock 1, load (\<lambda>(d1, d2) (t1, t2). (t1, d2)), mutex_unlock 1,
     IF (\<lambda>_ (t1, t2). t2 \<noteq> t1 + 1) [assertion (\<lambda>_ _. False)] [],
     thread_return]"

definition twostage_main :: "nat \<Rightarrow> nat \<Rightarrow> (int \<times> int, int \<times> int) cmd list" where
  "twostage_main iT iR = fork_join (iT + iR) (\<lambda>_. (- 1, - 1)) [1..<Suc (iT + iR)]"

definition twostage_prog :: "nat \<Rightarrow> nat \<Rightarrow> tid \<Rightarrow> (int \<times> int, int \<times> int) instr list" where
  "twostage_prog iT iR = program (twostage_main iT iR # replicate iT twostage_funcA @ replicate iR twostage_funcB)"

definition twostage_bad_prog :: "tid \<Rightarrow> (int \<times> int, int \<times> int) instr list" where
  "twostage_bad_prog = twostage_prog 1 1"
definition twostage_100_bad_prog :: "tid \<Rightarrow> (int \<times> int, int \<times> int) instr list" where
  "twostage_100_bad_prog = twostage_prog 99 1"

text \<open>
  Whatever the thread counts of \<^verbatim>\<open>twostage*_bad.c\<close>, a reader that runs between the two stages of
  a writer sees the first value without the second and fails its assertion.
\<close>

theorem twostage_fails:
  assumes "0 < iT" and "0 < iR"
  shows "\<exists>s. reach (pt_step sp (twostage_prog iT iR)) (pt_start (0, 0) (0, 0)) s \<and> failed s = Some AssertFail"
proof -
  let ?prog = "twostage_prog iT iR" and ?n = "iT + iR"
  have main: "?prog 0 = compile (fork_join ?n (\<lambda>_. (- 1, - 1)) [1..<Suc ?n])"
    by (simp add: twostage_prog_def program_def twostage_main_def)
  have fA: "?prog 1 = compile twostage_funcA"
    using assms by (simp add: twostage_prog_def program_def nth_append)
  have fB: "?prog (Suc iT) = compile twostage_funcB"
    using assms by (simp add: twostage_prog_def program_def nth_append)
  have "\<exists>s. exec (pt_step sp ?prog) (replicate 3 (1, 0) @ replicate 9 (Suc iT, 0)) (forked (\<lambda>_. (- 1, - 1)) ?n (0, 0) (0, 0)) = Some s \<and>
      failed s = Some AssertFail"
    using assms fA fB
    by (simp add: twostage_funcA_def twostage_funcB_def forked_def pt_simps numeral_eq_Suc)
  with main show ?thesis by (rule reach_forked [of ?prog])
qed

theorem twostage_fails_witness:
  "\<exists>s. reach (pt_step False twostage_100_bad_prog) (pt_start (0, 0) (0, 0)) s \<and> failed s = Some AssertFail"
  unfolding twostage_100_bad_prog_def by (rule twostage_fails) simp_all

section \<open>wronglock\<close>

text \<open>\<open>funcA\<close> protects \<open>dataValue\<close> with \<open>dataLock\<close> (\<open>0\<close>), \<open>funcB\<close> with \<open>thisLock\<close> (\<open>1\<close>). Locals: \<open>x\<close> and a register.\<close>

definition wronglock_funcA :: "(int, int \<times> int) cmd list" where
  "wronglock_funcA =
    [mutex_lock 0,
     load (\<lambda>d (x, r). (d, r)),
     load (\<lambda>d (x, r). (x, d)), store (\<lambda>d (x, r). r + 1),
     IF (\<lambda>d (x, r). d \<noteq> x + 1) [assertion (\<lambda>_ _. False)] [],
     mutex_unlock 0,
     thread_return]"

definition wronglock_funcB :: "(int, int \<times> int) cmd list" where
  "wronglock_funcB =
    [mutex_lock 1, load (\<lambda>d (x, r). (x, d)), store (\<lambda>d (x, r). r + 1), mutex_unlock 1, thread_return]"

definition wronglock_main :: "nat \<Rightarrow> nat \<Rightarrow> (int, int \<times> int) cmd list" where
  "wronglock_main iNum1 iNum2 = fork_join (iNum1 + iNum2) (\<lambda>_. (0, 0)) [1..<Suc (iNum1 + iNum2)]"

definition wronglock_prog :: "nat \<Rightarrow> nat \<Rightarrow> tid \<Rightarrow> (int, int \<times> int) instr list" where
  "wronglock_prog iNum1 iNum2 = program (wronglock_main iNum1 iNum2 #
     replicate iNum1 wronglock_funcA @ replicate iNum2 wronglock_funcB)"

definition wronglock_bad_prog :: "tid \<Rightarrow> (int, int \<times> int) instr list" where
  "wronglock_bad_prog = wronglock_prog 1 7"
definition wronglock_3_bad_prog :: "tid \<Rightarrow> (int, int \<times> int) instr list" where
  "wronglock_3_bad_prog = wronglock_prog 1 3"

lemma wronglock_fails:
  assumes "0 < iNum1" and "0 < iNum2"
  shows "\<exists>s. reach (pt_step sp (wronglock_prog iNum1 iNum2)) (pt_start 0 (0, 0)) s \<and> failed s = Some AssertFail"
proof -
  let ?prog = "wronglock_prog iNum1 iNum2" and ?n = "iNum1 + iNum2"
  have main: "?prog 0 = compile (fork_join ?n (\<lambda>_. (0, 0)) [1..<Suc ?n])"
    by (simp add: wronglock_prog_def program_def wronglock_main_def)
  have fA: "?prog 1 = compile wronglock_funcA"
    using assms by (simp add: wronglock_prog_def program_def nth_append)
  have fB: "?prog (Suc iNum1) = compile wronglock_funcB"
    using assms by (simp add: wronglock_prog_def program_def nth_append)
  have "\<exists>s. exec (pt_step sp ?prog) (replicate 2 (1, 0) @ replicate 3 (Suc iNum1, 0) @ replicate 4 (1, 0)) (forked (\<lambda>_. (0, 0)) ?n 0 (0, 0)) = Some s \<and>
      failed s = Some AssertFail"
    using assms fA fB
    by (simp add: wronglock_funcA_def wronglock_funcB_def forked_def pt_simps numeral_eq_Suc)
  with main show ?thesis by (rule reach_forked [of ?prog])
qed

section \<open>token\_ring\<close>

text \<open>
  \<open>__ESBMC_atomic_begin\<close> and \<open>_end\<close> lock and unlock one mutex (\<^verbatim>\<open>common.inc\<close>). \<open>main\<close> stores the
  identifier of the fourth thread in \<open>id3\<close>, so it joins the fourth thread under that name, and then
  joins the uninitialised \<open>id4\<close>, which is undefined.
\<close>

record token_ring =
  tr_x1 :: int
  tr_x2 :: int
  tr_x3 :: int
  tr_flag1 :: bool
  tr_flag2 :: bool
  tr_flag3 :: bool

definition token_ring_t1 :: "(token_ring, int) cmd list" where
  "token_ring_t1 = [mutex_lock 0, load (\<lambda>g r. (tr_x3 g + 1) mod 4), store (\<lambda>g r. g\<lparr>tr_x1 := r\<rparr>),
     store (\<lambda>g r. g\<lparr>tr_flag1 := True\<rparr>), mutex_unlock 0, thread_return]"

definition token_ring_t2 :: "(token_ring, int) cmd list" where
  "token_ring_t2 = [mutex_lock 0, load (\<lambda>g r. tr_x1 g), store (\<lambda>g r. g\<lparr>tr_x2 := r\<rparr>),
     store (\<lambda>g r. g\<lparr>tr_flag2 := True\<rparr>), mutex_unlock 0, thread_return]"

definition token_ring_t3 :: "(token_ring, int) cmd list" where
  "token_ring_t3 = [mutex_lock 0, load (\<lambda>g r. tr_x2 g), store (\<lambda>g r. g\<lparr>tr_x3 := r\<rparr>),
     store (\<lambda>g r. g\<lparr>tr_flag3 := True\<rparr>), mutex_unlock 0, thread_return]"

definition token_ring_t4 :: "(token_ring, int) cmd list" where
  "token_ring_t4 = [mutex_lock 0,
     IF (\<lambda>g r. tr_flag1 g \<and> tr_flag2 g \<and> tr_flag3 g) [assertion (\<lambda>g r. tr_x1 g = tr_x2 g \<and> tr_x2 g = tr_x3 g)] [],
     mutex_unlock 0, thread_return]"

definition token_ring_main :: "(token_ring, int) cmd list" where
  "token_ring_main = [thread_create 1 0, thread_create 2 0, thread_create 3 0, thread_create 4 0,
     thread_join 1, thread_join 2, thread_join 4, access (\<lambda>g r. Inl Undefined), thread_return]"

definition token_ring_start :: token_ring where
  "token_ring_start = \<lparr>tr_x1 = 1, tr_x2 = 2, tr_x3 = 1, tr_flag1 = False, tr_flag2 = False, tr_flag3 = False\<rparr>"

definition token_ring_prog :: "tid \<Rightarrow> (token_ring, int) instr list" where
  "token_ring_prog = program [token_ring_main, token_ring_t1, token_ring_t2, token_ring_t3, token_ring_t4]"

lemmas token_ring_simps =
  token_ring_prog_def token_ring_main_def token_ring_t1_def token_ring_t2_def token_ring_t3_def
  token_ring_t4_def token_ring_start_def

text \<open>
  \<^verbatim>\<open>token_ring_bad.c\<close> can violate its assertion (the third station runs first), and a run in
  which the assertion holds ends in the undefined join of \<open>id4\<close>.
\<close>

theorem token_ring_fails:
  "(\<exists>s. reach (pt_step False token_ring_prog) (pt_start token_ring_start 0) s \<and> failed s = Some AssertFail) \<and>
   (\<exists>s. reach (pt_step False token_ring_prog) (pt_start token_ring_start 0) s \<and> failed s = Some Undefined)"
proof -
  have "\<exists>s. exec (pt_step False token_ring_prog)
      (replicate 4 (0, 0) @ replicate 5 (3, 0) @ replicate 5 (1, 0) @ replicate 5 (2, 0) @ replicate 3 (4, 0))
      (pt_start token_ring_start 0) = Some s \<and> failed s = Some AssertFail"
    by (simp add: token_ring_simps sched_simps)
  moreover have "\<exists>s. exec (pt_step False token_ring_prog)
      (replicate 4 (0, 0) @ replicate 6 (1, 0) @ replicate 6 (2, 0) @ replicate 6 (3, 0) @ replicate 6 (4, 0) @ replicate 4 (0, 0))
      (pt_start token_ring_start 0) = Some s \<and> failed s = Some Undefined"
    by (simp add: token_ring_simps sched_simps)
  ultimately show ?thesis by (blast intro: exec_reach)
qed

section \<open>bluetooth\_driver\<close>

record device =
  pendingIo :: int
  stoppingFlag :: bool
  stoppingEvent :: bool
  stopped :: bool

text \<open>The local is the return value \<open>status\<close> or the copy of \<open>pendingIo\<close>.\<close>

definition BCSP_IoIncrement :: "(device, int) cmd list" where
  "BCSP_IoIncrement =
    [IF (\<lambda>e r. stoppingFlag e)
       [load (\<lambda>e r. - 1)]
       [mutex_lock 0, load (\<lambda>e r. pendingIo e), store (\<lambda>e r. e\<lparr>pendingIo := r + 1\<rparr>), mutex_unlock 0,
        load (\<lambda>e r. 0)]]"

definition BCSP_IoDecrement :: "(device, int) cmd list" where
  "BCSP_IoDecrement =
    [mutex_lock 0, load (\<lambda>e r. pendingIo e), store (\<lambda>e r. e\<lparr>pendingIo := r - 1\<rparr>),
     load (\<lambda>e r. pendingIo e), mutex_unlock 0,
     IF (\<lambda>e r. r = 0) [store (\<lambda>e r. e\<lparr>stoppingEvent := True\<rparr>)] []]"

definition BCSP_PnpAdd :: "(device, int) cmd list" where
  "BCSP_PnpAdd = BCSP_IoIncrement @ [IF (\<lambda>e r. r = 0) [assertion (\<lambda>e r. \<not> stopped e)] []] @ BCSP_IoDecrement"

definition BCSP_PnpStop :: "(device, int) cmd list" where
  "BCSP_PnpStop = [store (\<lambda>e r. e\<lparr>stoppingFlag := True\<rparr>)] @ BCSP_IoDecrement @
     [IF (\<lambda>e r. stoppingEvent e) [store (\<lambda>e r. e\<lparr>stopped := True\<rparr>)] [], thread_return]"

definition bluetooth_main :: "(device, int) cmd list" where
  "bluetooth_main = [thread_create 1 0] @ BCSP_PnpAdd @ [thread_join 1]"

definition bluetooth_start :: device where
  "bluetooth_start = \<lparr>pendingIo = 1, stoppingFlag = False, stoppingEvent = False, stopped = False\<rparr>"

definition bluetooth_prog :: "tid \<Rightarrow> (device, int) instr list" where
  "bluetooth_prog = program [bluetooth_main, BCSP_PnpStop]"

lemmas bluetooth_simps =
  bluetooth_prog_def bluetooth_main_def BCSP_PnpAdd_def BCSP_PnpStop_def BCSP_IoIncrement_def
  BCSP_IoDecrement_def bluetooth_start_def

text \<open>
  The Bluetooth driver can stop between the test of \<open>stoppingFlag\<close> and the increment of
  \<open>pendingIo\<close>: the driver then works on a stopped device, which its assertion forbids.
\<close>

theorem bluetooth_fails:
  "\<exists>s. reach (pt_step False bluetooth_prog) (pt_start bluetooth_start 0) s \<and>
     failed s = Some AssertFail \<and> stopped (shared s) \<and> pendingIo (shared s) = 1"
proof -
  have "\<exists>s. exec (pt_step False bluetooth_prog)
      (replicate 2 (0, 0) @ replicate 11 (1, 0) @ replicate 7 (0, 0)) (pt_start bluetooth_start 0) = Some s \<and>
      failed s = Some AssertFail \<and> stopped (shared s) \<and> pendingIo (shared s) = 1"
    by (simp add: bluetooth_simps sched_simps)
  then show ?thesis by (blast intro: exec_reach)
qed

end
