(* ===== verification/Held.thy ===== *)
theory Held
  imports Pthreads
begin

text \<open>
  The proof rule for programs that only take and release mutexes: at every point of a thread it is
  known which mutexes it holds. Unlocking is then always legal, and a mutex somebody waits for is
  held by a thread whose position is known.
\<close>

section \<open>The invariant\<close>

definition held_inv :: "nat \<Rightarrow> ('l thread \<Rightarrow> nat set) \<Rightarrow> nat \<Rightarrow> ('g, 'l) conf \<Rightarrow> bool" where
  "held_inv k holds n s \<longleftrightarrow>
     (\<forall>m t. mutex s m = Some t \<longleftrightarrow> t \<in> {1..k} \<and> m \<in> holds (thr s t)) \<and>
     (\<forall>t \<in> {1..k}. case thr s t of Running l pc \<Rightarrow> pc < n | NotCreated \<Rightarrow> True | Finished \<Rightarrow> True | _ \<Rightarrow> False)"

lemma held_invD:
  assumes "held_inv k holds n s"
  shows "mutex s m = Some t \<longleftrightarrow> t \<in> {1..k} \<and> m \<in> holds (thr s t)"
    and "t \<in> {1..k} \<Longrightarrow> thr s t = Running l pc \<Longrightarrow> pc < n"
    and "t \<in> {1..k} \<Longrightarrow> thr s t \<noteq> Sleeping c m l pc" "t \<in> {1..k} \<Longrightarrow> thr s t \<noteq> Waking m l pc"
  using assms unfolding held_inv_def by (blast | fastforce)+

text \<open>A thread moves on; its set of mutexes changes as the state of the mutexes does.\<close>

lemma held_inv_goto:
  assumes inv: "held_inv k holds n s" and t: "t \<in> {1..k}"
    and mx: "\<And>m. mutex s' m = (if m \<in> holds th then Some t else if m \<in> holds (thr s t) then None else mutex s m)"
    and th: "thr s' = (thr s)(t := th)"
    and free: "\<And>m. m \<in> holds th \<Longrightarrow> m \<notin> holds (thr s t) \<Longrightarrow> mutex s m = None"
    and pos: "case th of Running l pc \<Rightarrow> pc < n | Finished \<Rightarrow> True | _ \<Rightarrow> False"
  shows "held_inv k holds n s'"
  unfolding held_inv_def
proof (intro conjI allI ballI)
  fix m u
  show "mutex s' m = Some u \<longleftrightarrow> u \<in> {1..k} \<and> m \<in> holds (thr s' u)"
  proof (cases "u = t")
    case True
    with held_invD(1) [OF inv, of m t] t th mx show ?thesis by (auto simp del: atLeastAtMost_iff)
  next
    case False
    have "m \<notin> holds (thr s u)" if "u \<in> {1..k}" "m \<in> holds th \<or> m \<in> holds (thr s t)"
      using that free held_invD(1) [OF inv, of m t] held_invD(1) [OF inv, of m u] t False by auto
    with False th mx held_invD(1) [OF inv, of m u] show ?thesis by (auto simp del: atLeastAtMost_iff)
  qed
next
  fix u assume u: "u \<in> {1..k}"
  show "case thr s' u of Running l pc \<Rightarrow> pc < n | NotCreated \<Rightarrow> True | Finished \<Rightarrow> True | _ \<Rightarrow> False"
  proof (cases "u = t")
    case True
    with pos th show ?thesis by (cases th) auto
  next
    case False
    with inv u th show ?thesis unfolding held_inv_def by auto
  qed
qed

section \<open>The rule\<close>

text \<open>
  The condition on one instruction: a lock adds its mutex (or waits for one the thread has itself,
  for ever), an unlock needs its mutex, a return keeps what is held.
\<close>

fun held_vc :: "('l thread \<Rightarrow> nat set) \<Rightarrow> nat \<Rightarrow> nat \<Rightarrow> 'l \<Rightarrow> ('g, 'l) instr \<Rightarrow> bool" where
  "held_vc holds n pc l (Lock f) =
     (f l \<in> holds (Running l pc) \<or> holds (Running l (Suc pc)) = insert (f l) (holds (Running l pc)) \<and> Suc pc < n)"
| "held_vc holds n pc l (Unlock f) =
     (f l \<in> holds (Running l pc) \<and> holds (Running l (Suc pc)) = holds (Running l pc) - {f l} \<and> Suc pc < n)"
| "held_vc holds n pc l Return = (holds Finished = holds (Running l pc))"
| "held_vc holds n pc l _ = False"

lemma held_inv_instr:
  assumes inv: "held_inv k holds n s" and t: "t \<in> {1..k}" and pc: "thr s t = Running l pc"
    and vc: "held_vc holds n pc l i" and step: "instr_step t ch l pc i s = Some s'"
  shows "held_inv k holds n s' \<and> failed s' = failed s"
proof (cases i)
  case (Lock f)
  have own: "mutex s (f l) = Some t \<longleftrightarrow> f l \<in> holds (Running l pc)"
    using held_invD(1) [OF inv, of "f l" t] t pc by simp
  with Lock step vc have s': "s' = goto (set_mutex s (f l) (Some t)) t (Running l (Suc pc))"
    and "holds (Running l (Suc pc)) = insert (f l) (holds (Running l pc))" "Suc pc < n" "mutex s (f l) = None"
    by (auto split: if_splits)
  moreover have "m \<in> holds (Running l pc) \<Longrightarrow> mutex s m = Some t" for m
    using held_invD(1) [OF inv, of m t] t pc by simp
  ultimately have "held_inv k holds n s'"
    using pc by (intro held_inv_goto [OF inv t, of s' "Running l (Suc pc)"]) auto
  with s' show ?thesis by simp
next
  case (Unlock f)
  have own: "mutex s (f l) = Some t" using held_invD(1) [OF inv, of "f l" t] t pc Unlock vc by simp
  with Unlock step vc have s': "s' = goto (set_mutex s (f l) None) t (Running l (Suc pc))"
    and "holds (Running l (Suc pc)) = holds (Running l pc) - {f l}" "Suc pc < n" "f l \<in> holds (Running l pc)"
    by auto
  moreover have "m \<in> holds (Running l pc) \<Longrightarrow> mutex s m = Some t" for m
    using held_invD(1) [OF inv, of m t] t pc by simp
  ultimately have "held_inv k holds n s'"
    using pc by (intro held_inv_goto [OF inv t, of s' "Running l (Suc pc)"]) auto
  with s' show ?thesis by simp
next
  case Return
  with step have s': "s' = goto s t Finished" by simp
  moreover have "m \<in> holds (Running l pc) \<Longrightarrow> mutex s m = Some t" for m
    using held_invD(1) [OF inv, of m t] t pc by simp
  ultimately have "held_inv k holds n s'"
    using pc vc Return by (intro held_inv_goto [OF inv t, of s' Finished]) auto
  with s' show ?thesis by simp
qed (use vc in simp_all)

locale held_prog =
  fixes prog :: "tid \<Rightarrow> ('g, 'l) instr list" and k :: nat and a :: "tid \<Rightarrow> 'l" and js :: "tid list"
    and g0 :: 'g and l0 :: 'l and holds :: "'l thread \<Rightarrow> nat set" and n :: nat
  assumes held_main: "prog 0 = compile (fork_join k a js)" and held_joined: "set js \<subseteq> {1..k}"
    and held_code: "t \<in> {1..k} \<Longrightarrow> \<forall>i \<in> set (prog t). worker_instr i"
    and held_start: "holds NotCreated = {}" "t \<in> {1..k} \<Longrightarrow> holds (Running (a t) 0) = {}" "0 < n"
    and held_length: "t \<in> {1..k} \<Longrightarrow> n \<le> length (prog t)"
    and held_instr: "t \<in> {1..k} \<Longrightarrow> pc < n \<Longrightarrow> held_vc holds n pc l (prog t ! pc)"

sublocale held_prog \<subseteq> fork_join_prog sp prog k a js g0 l0 "held_inv k holds n" for sp
proof (unfold_locales, goal_cases)
  case 4
  show ?case by (auto simp: held_inv_def pt_start_def held_start(1))
next
  case (5 s th)
  then show ?case by (auto simp: held_inv_def)
next
  case (6 s t)
  have "mutex s m \<noteq> Some t" for m using held_invD(1) [OF 6(1), of m t] 6(3) held_start(1) by simp
  with 6 held_start show ?case by (intro held_inv_goto [OF 6(1,2)]) auto
next
  case (7 s t ch s')
  from 7(4) show ?case
  proof (cases rule: pt_step_cases)
    case (run l pc)
    have "pc < n" using held_invD(2) [OF 7(1,3) run(1)] .
    from held_inv_instr [OF 7(1,3) run(1) held_instr [OF 7(3) this] run(3)] 7(2) show ?thesis by simp
  next
    case (finish l pc)
    with held_invD(2) [OF 7(1,3) finish(1)] held_length [OF 7(3)] show ?thesis by simp
  qed (use held_invD(3,4) [OF 7(1,3)] in auto)
qed (rule held_main held_joined held_code, assumption?)+

context held_prog
begin

lemma not_finished:
  assumes "reach (pt_step sp prog) (pt_start g0 l0) s" and "t \<in> {1..k}"
    and "\<And>pc. pc < n \<Longrightarrow> prog t ! pc \<noteq> Return"
  shows "thr s t \<noteq> Finished"
  using assms(1)
proof (induction rule: reach.induct)
  case reach_init
  show ?case using assms(2) by (simp add: pt_start_def)
next
  case (reach_step s lab s')
  obtain u ch where lab: "lab = (u, ch)" by (cases lab)
  have inv: "held_inv k holds n s" using reach_inv [OF reach_step.hyps(1)] by blast
  show ?case
  proof
    assume "thr s' t = Finished"
    from pt_step_finishes [OF reach_step.hyps(2) [unfolded lab] this reach_step.IH]
    obtain l pc where "thr s t = Running l pc" "pc < length (prog t) \<longrightarrow> prog t ! pc = Return" by blast
    then show False using held_invD(2) [OF inv assms(2)] held_length [OF assms(2)] assms(3) by fastforce
  qed
qed

end

end
