(* ===== verification/Sct_Deadlocks.thy ===== *)
theory Sct_Deadlocks
  imports Held
begin

text \<open>
  Programs about lock order: \<^verbatim>\<open>phase01\<close>, \<^verbatim>\<open>deadlock01\<close>, \<^verbatim>\<open>carter01\<close> and the dining philosophers
  \<^verbatim>\<open>din_phil*\<close>. A deadlock is a state in which no thread can move and \<open>main\<close> has not returned.
\<close>

section \<open>deadlock01 and carter01\<close>

definition deadlock01_thread1 :: "(int, int) cmd list" where
  "deadlock01_thread1 = [mutex_lock 0, mutex_lock 1, load (\<lambda>c r. c), store (\<lambda>c r. r + 1),
     mutex_unlock 1, mutex_unlock 0, thread_return]"

definition deadlock01_thread2 :: "(int, int) cmd list" where
  "deadlock01_thread2 = [mutex_lock 1, mutex_lock 0, load (\<lambda>c r. c), store (\<lambda>c r. r - 1),
     mutex_unlock 0, mutex_unlock 1, thread_return]"

definition deadlock01_main :: "(int, int) cmd list" where
  "deadlock01_main = fork_join 2 (\<lambda>_. 0) [1, 2]"

definition deadlock01_prog :: "tid \<Rightarrow> (int, int) instr list" where
  "deadlock01_prog = program [deadlock01_main, deadlock01_thread1, deadlock01_thread2]"

text \<open>Mutex \<open>0\<close> is \<open>m\<close>, \<open>1\<close> is \<open>l\<close>; the shared counters are \<open>A\<close> and \<open>B\<close>.\<close>

definition carter01_t1 :: "(int \<times> int, int) cmd list" where
  "carter01_t1 =
    [mutex_lock 0, load (\<lambda>(A, B) r. A), store (\<lambda>(A, B) r. (r + 1, B)),
     IF (\<lambda>(A, B) r. A = 1) [mutex_lock 1] [], mutex_unlock 0,
     mutex_lock 0, load (\<lambda>(A, B) r. A), store (\<lambda>(A, B) r. (r - 1, B)),
     IF (\<lambda>(A, B) r. A = 0) [mutex_unlock 1] [], mutex_unlock 0, thread_return]"

definition carter01_t2 :: "(int \<times> int, int) cmd list" where
  "carter01_t2 =
    [mutex_lock 0, load (\<lambda>(A, B) r. B), store (\<lambda>(A, B) r. (A, r + 1)),
     IF (\<lambda>(A, B) r. B = 1) [mutex_lock 1] [], mutex_unlock 0,
     mutex_lock 0, load (\<lambda>(A, B) r. B), store (\<lambda>(A, B) r. (A, r - 1)),
     IF (\<lambda>(A, B) r. B = 0) [mutex_unlock 1] [], mutex_unlock 0, thread_return]"

definition carter01_t3 :: "(int \<times> int, int) cmd list" where
  "carter01_t3 = [thread_return]"

definition carter01_t4 :: "(int \<times> int, int) cmd list" where
  "carter01_t4 = [thread_return]"

definition carter01_main :: "(int \<times> int, int) cmd list" where
  "carter01_main = fork_join 4 (\<lambda>_. 0) [1, 2, 3, 4]"

definition carter01_prog :: "tid \<Rightarrow> (int \<times> int, int) instr list" where
  "carter01_prog = program [carter01_main, carter01_t1, carter01_t2, carter01_t3, carter01_t4]"

lemmas dead_simps = program_def fork_join_def pt_simps upt_rec numeral_eq_Suc

lemma deadlock01_deadlocks:
  "\<exists>s. reach (pt_step True deadlock01_prog) (pt_start 1 0) s \<and> deadlocked True deadlock01_prog s"
proof -
  have "\<exists>s. exec (pt_step True deadlock01_prog) [(0, 0), (0, 0), (1, 0), (2, 0)] (pt_start 1 0) = Some s \<and>
     deadlocked True deadlock01_prog s"
    by (simp add: deadlock01_prog_def deadlock01_main_def deadlock01_thread1_def deadlock01_thread2_def
        deadlocked_def dead_simps)
  then show ?thesis by (blast intro: exec_reach)
qed

lemma carter01_deadlocks:
  "\<exists>s. reach (pt_step True carter01_prog) (pt_start (0, 0) 0) s \<and> deadlocked True carter01_prog s"
proof -
  have "\<exists>s. exec (pt_step True carter01_prog)
      (replicate 4 (0, 0) @ replicate 7 (1, 0) @ replicate 4 (2, 0) @ [(3, 0), (4, 0)]) (pt_start (0, 0) 0) = Some s \<and>
     deadlocked True carter01_prog s"
    by (simp add: carter01_prog_def carter01_main_def carter01_t1_def carter01_t2_def carter01_t3_def
        carter01_t4_def deadlocked_def dead_simps)
  then show ?thesis by (blast intro: exec_reach)
qed

section \<open>phase01\<close>

text \<open>Mutex \<open>0\<close> is \<open>x\<close>, \<open>1\<close> is \<open>y\<close>. The wrong version does not unlock \<open>x\<close> the second time.\<close>

definition phase01_ok_thread1 :: "(unit, unit) cmd list" where
  "phase01_ok_thread1 =
    [mutex_lock 0, mutex_unlock 0, mutex_lock 0, mutex_unlock 0,
     mutex_lock 1, mutex_unlock 1, mutex_lock 1, mutex_unlock 1, thread_return]"

definition phase01_bad_thread1 :: "(unit, unit) cmd list" where
  "phase01_bad_thread1 =
    [mutex_lock 0, mutex_unlock 0, mutex_lock 0,
     mutex_lock 1, mutex_unlock 1, mutex_lock 1, mutex_unlock 1, thread_return]"

definition phase01_main :: "(unit, unit) cmd list" where
  "phase01_main = fork_join 2 (\<lambda>_. ()) [1, 2]"

definition phase01_ok_prog :: "tid \<Rightarrow> (unit, unit) instr list" where
  "phase01_ok_prog = program [phase01_main, phase01_ok_thread1, phase01_ok_thread1]"

definition phase01_bad_prog :: "tid \<Rightarrow> (unit, unit) instr list" where
  "phase01_bad_prog = program [phase01_main, phase01_bad_thread1, phase01_bad_thread1]"

text \<open>Which mutexes a thread holds at each point.\<close>

fun phase01_ok_holds :: "unit thread \<Rightarrow> nat set" where
  "phase01_ok_holds (Running l pc) = (if pc = 1 \<or> pc = 3 then {0} else if pc = 5 \<or> pc = 7 then {1} else {})"
| "phase01_ok_holds _ = {}"

fun phase01_bad_holds :: "unit thread \<Rightarrow> nat set" where
  "phase01_bad_holds (Running l pc) = (if pc = 1 then {0} else if pc = 4 \<or> pc = 6 then {0, 1} else if 3 \<le> pc then {0} else {})"
| "phase01_bad_holds Finished = {0}"
| "phase01_bad_holds _ = {}"

lemma phase01_code:
  "t = 1 \<or> t = 2 \<Longrightarrow> phase01_ok_prog t =
     [Lock (\<lambda>_. 0), Unlock (\<lambda>_. 0), Lock (\<lambda>_. 0), Unlock (\<lambda>_. 0),
      Lock (\<lambda>_. 1), Unlock (\<lambda>_. 1), Lock (\<lambda>_. 1), Unlock (\<lambda>_. 1), Return]"
  "t = 1 \<or> t = 2 \<Longrightarrow> phase01_bad_prog t =
     [Lock (\<lambda>_. 0), Unlock (\<lambda>_. 0), Lock (\<lambda>_. 0),
      Lock (\<lambda>_. 1), Unlock (\<lambda>_. 1), Lock (\<lambda>_. 1), Unlock (\<lambda>_. 1), Return]"
  by (auto simp: phase01_ok_prog_def phase01_bad_prog_def program_def phase01_ok_thread1_def
      phase01_bad_thread1_def)

interpretation phase01_ok: held_prog phase01_ok_prog 2 "\<lambda>_. ()" "[1, 2]" "()" "()" phase01_ok_holds 9
proof (unfold_locales, goal_cases)
  case (8 t pc l)
  then have "pc = 0 \<or> pc = 1 \<or> pc = 2 \<or> pc = 3 \<or> pc = 4 \<or> pc = 5 \<or> pc = 6 \<or> pc = 7 \<or> pc = 8" by presburger
  with phase01_code(1) [OF le2_cases [OF 8(1)]] show ?case by (elim disjE) auto
next
  case (3 t)
  with phase01_code(1) [OF le2_cases [OF 3]] show ?case by simp
next
  case (7 t)
  with phase01_code(1) [OF le2_cases [OF 7]] show ?case by simp
qed (auto simp: phase01_ok_prog_def program_def phase01_main_def)

interpretation phase01_bad: held_prog phase01_bad_prog 2 "\<lambda>_. ()" "[1, 2]" "()" "()" phase01_bad_holds 8
proof (unfold_locales, goal_cases)
  case (8 t pc l)
  then have "pc = 0 \<or> pc = 1 \<or> pc = 2 \<or> pc = 3 \<or> pc = 4 \<or> pc = 5 \<or> pc = 6 \<or> pc = 7" by presburger
  with phase01_code(2) [OF le2_cases [OF 8(1)]] show ?case by (elim disjE) auto
next
  case (3 t)
  with phase01_code(2) [OF le2_cases [OF 3]] show ?case by simp
next
  case (7 t)
  with phase01_code(2) [OF le2_cases [OF 7]] show ?case by simp
qed (auto simp: phase01_bad_prog_def program_def phase01_main_def)

text \<open>
  \<^verbatim>\<open>phase01_bad.c\<close> never terminates: the thread that takes \<open>x\<close> twice keeps it, so the other thread
  cannot finish and \<open>main\<close> cannot return, in any interleaving.
\<close>

theorem phase01_bad_never_ends:
  assumes "reach (pt_step sp phase01_bad_prog) (pt_start () ()) s"
  shows "thr s 0 \<noteq> Finished \<and> failed s = None"
proof -
  have inv: "held_inv 2 phase01_bad_holds 8 s" and ok: "failed s = None"
    using phase01_bad.reach_inv [OF assms] by blast+
  have "thr s 0 \<noteq> Finished"
  proof
    assume "thr s 0 = Finished"
    from phase01_bad.joined_finished [OF assms this] have "thr s 1 = Finished" "thr s 2 = Finished" by auto
    then have "mutex s 0 = Some 1" "mutex s 0 = Some 2" using held_invD(1) [OF inv] by auto
    then show False by simp
  qed
  with ok show ?thesis by simp
qed

text \<open>One thread has come to its end and holds \<open>x\<close>; the other and \<open>main\<close> are stuck.\<close>

theorem phase01_bad_never_ends_witness:
  "\<exists>s. exec (pt_step True phase01_bad_prog) (replicate 2 (0, 0) @ replicate 8 (1, 0) @ [(0, 0)]) (pt_start () ()) = Some s
     \<and> deadlocked True phase01_bad_prog s \<and> thr s 0 \<noteq> Finished"
proof -
  obtain s where e: "exec (pt_step True phase01_bad_prog) (replicate 2 (0, 0) @ replicate 8 (1, 0) @ [(0, 0)]) (pt_start () ()) = Some s"
    and d: "deadlocked True phase01_bad_prog s"
    by (simp add: phase01_bad_prog_def phase01_main_def phase01_bad_thread1_def deadlocked_def dead_simps)
  with phase01_bad_never_ends [OF exec_reach [OF e]] show ?thesis by blast
qed

lemma phase01_ok_no_deadlock:
  assumes "reach (pt_step sp phase01_ok_prog) (pt_start () ()) s"
  shows "\<not> deadlocked sp phase01_ok_prog s"
  using assms
proof (rule phase01_ok.not_deadlocked)
  fix s :: "(unit, unit) conf" and t :: nat
  assume inv: "held_inv 2 phase01_ok_holds 9 s" and run: "failed s = None" "thr s 0 \<noteq> Finished"
    and t: "t \<in> {1..2}" "thr s t \<noteq> NotCreated" "thr s t \<noteq> Finished"
  obtain l pc where pc: "thr s t = Running l pc" "pc < 9"
    using held_invD(2-4) [OF inv t(1)] t(2,3) by (cases "thr s t") blast+
  have move: "pt_step sp phase01_ok_prog (u, 0) s \<noteq> None"
    if "u \<in> {1..2}" "thr s u = Running l' pc'" "pc' = 1 \<or> pc' = 3 \<or> pc' = 5 \<or> pc' = 7" for u l' pc'
    using that run by (auto simp: phase01_code [OF le2_cases [OF that(1)]])
  show "\<exists>u. pt_step sp phase01_ok_prog (u, 0) s \<noteq> None"
  proof (cases "pt_step sp phase01_ok_prog (t, 0) s = None")
    case True
    have "pc = 0 \<or> pc = 1 \<or> pc = 2 \<or> pc = 3 \<or> pc = 4 \<or> pc = 5 \<or> pc = 6 \<or> pc = 7 \<or> pc = 8" using pc(2) by presburger
    with True run pc(1) obtain m u where m: "mutex s m = Some u"
      by (auto simp: phase01_code [OF le2_cases [OF t(1)]] split: if_splits)
    then have "u \<in> {1..2}" "m \<in> phase01_ok_holds (thr s u)" using held_invD(1) [OF inv] by auto
    moreover from this obtain l' pc' where "thr s u = Running l' pc'" "pc' = 1 \<or> pc' = 3 \<or> pc' = 5 \<or> pc' = 7"
      by (cases "thr s u") (auto split: if_splits)
    ultimately show ?thesis using move by blast
  qed blast
qed

section \<open>Dining philosophers\<close>

text \<open>
  Mutex \<open>0\<close> is the one behind \<open>__ESBMC_atomic_begin\<close> and \<open>_end\<close>, mutex \<open>Suc i\<close> is fork \<open>x[i]\<close>; thread
  \<open>t\<close> is philosopher \<open>t - 1\<close>. The locals are the philosopher's \<open>id\<close> and a register, the shared
  variable is \<open>phil\<close>.
\<close>

definition phil_right :: "nat \<Rightarrow> nat \<times> int \<Rightarrow> nat" where
  "phil_right N l = Suc ((fst l + 1) mod N)"

definition phil_left :: "nat \<times> int \<Rightarrow> nat" where
  "phil_left l = Suc (fst l)"

definition din_phil_eat :: "nat \<Rightarrow> (int, nat \<times> int) cmd list" where
  "din_phil_eat N = [mutex_lock_at (phil_right N), mutex_lock_at phil_left,
     mutex_unlock_at phil_left, mutex_unlock_at (phil_right N)]"

definition din_phil_count :: "nat \<Rightarrow> (int, nat \<times> int) cmd list" where
  "din_phil_count N = [load (\<lambda>phil (i, r). (i, phil)), store (\<lambda>phil (i, r). r + 1),
     IF (\<lambda>phil l. phil = int N) [assertion (\<lambda>_ _. False)] []]"

definition din_phil_unsat_thread1 :: "nat \<Rightarrow> (int, nat \<times> int) cmd list" where
  "din_phil_unsat_thread1 N = [mutex_lock 0] @ din_phil_eat N @ [mutex_unlock 0, thread_return]"

definition din_phil_sat_thread1 :: "nat \<Rightarrow> (int, nat \<times> int) cmd list" where
  "din_phil_sat_thread1 N = [mutex_lock 0] @ din_phil_eat N @ [mutex_unlock 0] @ din_phil_count N @ [thread_return]"

text \<open>The versions for five and six philosophers also count under the mutex.\<close>

definition din_phil_sat_atomic_thread1 :: "nat \<Rightarrow> (int, nat \<times> int) cmd list" where
  "din_phil_sat_atomic_thread1 N = [mutex_lock 0] @ din_phil_eat N @ [mutex_unlock 0] @
     [mutex_lock 0] @ din_phil_count N @ [mutex_unlock 0, thread_return]"

text \<open>The version for seven philosophers calls \<open>__ESBMC_atomic_begin\<close> where the others call \<open>_end\<close>.\<close>

definition din_phil7_sat_thread1 :: "(int, nat \<times> int) cmd list" where
  "din_phil7_sat_thread1 = [mutex_lock 0] @ din_phil_eat 7 @ [mutex_lock 0] @
     [mutex_lock 0] @ din_phil_count 7 @ [mutex_unlock 0, thread_return]"

definition din_phil_main :: "nat \<Rightarrow> (int, nat \<times> int) cmd list" where
  "din_phil_main N = fork_join N (\<lambda>t. (t - 1, 0)) [1..<Suc N]"

definition din_phil_prog :: "nat \<Rightarrow> (int, nat \<times> int) cmd list \<Rightarrow> tid \<Rightarrow> (int, nat \<times> int) instr list" where
  "din_phil_prog N thread1 = program (din_phil_main N # replicate N thread1)"

definition din_phil2_unsat :: "tid \<Rightarrow> (int, nat \<times> int) instr list" where
  "din_phil2_unsat = din_phil_prog 2 (din_phil_unsat_thread1 2)"
definition din_phil3_unsat :: "tid \<Rightarrow> (int, nat \<times> int) instr list" where
  "din_phil3_unsat = din_phil_prog 3 (din_phil_unsat_thread1 3)"
definition din_phil4_unsat :: "tid \<Rightarrow> (int, nat \<times> int) instr list" where
  "din_phil4_unsat = din_phil_prog 4 (din_phil_unsat_thread1 4)"
definition din_phil5_unsat :: "tid \<Rightarrow> (int, nat \<times> int) instr list" where
  "din_phil5_unsat = din_phil_prog 5 (din_phil_unsat_thread1 5)"
definition din_phil6_unsat :: "tid \<Rightarrow> (int, nat \<times> int) instr list" where
  "din_phil6_unsat = din_phil_prog 6 (din_phil_unsat_thread1 6)"
definition din_phil7_unsat :: "tid \<Rightarrow> (int, nat \<times> int) instr list" where
  "din_phil7_unsat = din_phil_prog 7 (din_phil_unsat_thread1 7)"
definition din_phil2_sat :: "tid \<Rightarrow> (int, nat \<times> int) instr list" where
  "din_phil2_sat = din_phil_prog 2 (din_phil_sat_thread1 2)"
definition din_phil3_sat :: "tid \<Rightarrow> (int, nat \<times> int) instr list" where
  "din_phil3_sat = din_phil_prog 3 (din_phil_sat_thread1 3)"
definition din_phil4_sat :: "tid \<Rightarrow> (int, nat \<times> int) instr list" where
  "din_phil4_sat = din_phil_prog 4 (din_phil_sat_thread1 4)"
definition din_phil5_sat :: "tid \<Rightarrow> (int, nat \<times> int) instr list" where
  "din_phil5_sat = din_phil_prog 5 (din_phil_sat_atomic_thread1 5)"
definition din_phil6_sat :: "tid \<Rightarrow> (int, nat \<times> int) instr list" where
  "din_phil6_sat = din_phil_prog 6 (din_phil_sat_atomic_thread1 6)"
definition din_phil7_sat :: "tid \<Rightarrow> (int, nat \<times> int) instr list" where
  "din_phil7_sat = din_phil_prog 7 din_phil7_sat_thread1"

fun phil_holds :: "nat \<Rightarrow> (nat \<times> int) thread \<Rightarrow> nat set" where
  "phil_holds N (Running l pc) =
     (if pc = 1 \<or> pc = 5 then {0} else if pc = 2 \<or> pc = 4 then {0, phil_right N l}
      else if pc = 3 then {0, phil_right N l, phil_left l} else {})"
| "phil_holds N _ = {}"

lemma phil_fork_neq:
  assumes "2 \<le> N"
  shows "phil_left l \<noteq> phil_right N l"
proof
  assume "phil_left l = phil_right N l"
  then have eq: "fst l = (fst l + 1) mod N" by (simp add: phil_left_def phil_right_def)
  then have "fst l < N" using assms mod_less_divisor [of N "fst l + 1"] by simp
  then show False using eq assms by (cases "fst l + 1 = N") auto
qed

lemma phil_fork_pos [simp]: "phil_left l \<noteq> 0" "phil_right N l \<noteq> 0" "0 \<noteq> phil_left l" "0 \<noteq> phil_right N l"
  by (simp_all add: phil_left_def phil_right_def)

lemma din_phil_code: "t \<in> {1..N} \<Longrightarrow> din_phil_prog N thread1 t = compile thread1"
  by (auto simp: din_phil_prog_def program_def nth_Cons' less_Suc_eq_le)

lemma din_phil_prog_main: "din_phil_prog N thread1 0 = compile (fork_join N (\<lambda>t. (t - 1, 0)) [1..<Suc N])"
  by (simp add: din_phil_prog_def program_def din_phil_main_def)

lemma din_phil_unsat_code:
  "compile (din_phil_unsat_thread1 N) = [Lock (\<lambda>_. 0), Lock (phil_right N), Lock phil_left,
     Unlock phil_left, Unlock (phil_right N), Unlock (\<lambda>_. 0), Return]"
  by (simp add: din_phil_unsat_thread1_def din_phil_eat_def)

lemma din_phil7_sat_code:
  "compile din_phil7_sat_thread1 = [Lock (\<lambda>_. 0), Lock (phil_right 7), Lock phil_left,
     Unlock phil_left, Unlock (phil_right 7), Lock (\<lambda>_. 0), Lock (\<lambda>_. 0)] @
     compile (din_phil_count 7) @ [Unlock (\<lambda>_. 0), Return]"
  "\<forall>i \<in> set (compile din_phil7_sat_thread1). worker_instr i"
  by (simp_all add: din_phil7_sat_thread1_def din_phil_eat_def din_phil_count_def)

lemma din_phil7_sat_nth:
  assumes "t \<in> {1..7}" and "pc < 6"
  shows "din_phil7_sat t ! pc = [Lock (\<lambda>_. 0), Lock (phil_right 7), Lock phil_left,
     Unlock phil_left, Unlock (phil_right 7), Lock (\<lambda>_. 0)] ! pc" and "6 \<le> length (din_phil7_sat t)"
proof -
  have "pc = 0 \<or> pc = 1 \<or> pc = 2 \<or> pc = 3 \<or> pc = 4 \<or> pc = 5" using assms(2) by presburger
  then show "din_phil7_sat t ! pc = [Lock (\<lambda>_. 0), Lock (phil_right 7), Lock phil_left,
     Unlock phil_left, Unlock (phil_right 7), Lock (\<lambda>_. 0)] ! pc"
    unfolding din_phil7_sat_def din_phil_code [OF assms(1)] din_phil7_sat_code by (elim disjE) simp_all
  show "6 \<le> length (din_phil7_sat t)"
    unfolding din_phil7_sat_def din_phil_code [OF assms(1)] din_phil7_sat_code by simp
qed

interpretation din_phil_unsat:
  held_prog "din_phil_prog (n + 2) (din_phil_unsat_thread1 (n + 2))" "n + 2" "\<lambda>t. (t - 1, 0)"
    "[1..<Suc (n + 2)]" 0 "(0, 0)" "phil_holds (n + 2)" 7 for n
proof (unfold_locales, goal_cases)
  case 1
  show ?case by (rule din_phil_prog_main)
next
  case (8 t pc l)
  then have "pc = 0 \<or> pc = 1 \<or> pc = 2 \<or> pc = 3 \<or> pc = 4 \<or> pc = 5 \<or> pc = 6" by presburger
  with phil_fork_neq [of "n + 2" l] show ?case
    unfolding din_phil_code [OF 8(1)] din_phil_unsat_code by (elim disjE) (auto simp del: add_2_eq_Suc')
qed (auto simp: din_phil_code din_phil_unsat_code simp del: add_2_eq_Suc')

text \<open>A philosopher inside the outer mutex finds both forks free.\<close>

lemma phil_holder_moves:
  assumes inv: "held_inv N (phil_holds N) 7 s" and run: "failed s = None" "thr s 0 \<noteq> Finished"
    and u: "u \<in> {1..N}" "mutex s 0 = Some u" and "2 \<le> N"
  shows "pt_step sp (din_phil_prog N (din_phil_unsat_thread1 N)) (u, 0) s \<noteq> None"
proof -
  have "0 \<in> phil_holds N (thr s u)" using held_invD(1) [OF inv] u by blast
  then obtain l pc where pc: "thr s u = Running l pc" "pc = 1 \<or> pc = 2 \<or> pc = 3 \<or> pc = 4 \<or> pc = 5"
    by (cases "thr s u") (auto split: if_splits)
  have alone: "v = u" if "mutex s m = Some v" for m v
  proof -
    have "m \<in> phil_holds N (thr s v)" "v \<in> {1..N}" using held_invD(1) [OF inv] that by blast+
    then have "0 \<in> phil_holds N (thr s v)" by (cases "thr s v") (auto split: if_splits)
    then have "mutex s 0 = Some v" using held_invD(1) [OF inv] \<open>v \<in> {1..N}\<close> by blast
    then show ?thesis using u by simp
  qed
  have free: "mutex s m = None" if "m \<notin> phil_holds N (thr s u)" for m
    using that alone [of m] held_invD(1) [OF inv, of m u] by (cases "mutex s m") auto
  show ?thesis
    using pc run free [of "phil_right N l"] free [of "phil_left l"] phil_fork_neq [OF \<open>2 \<le> N\<close>, of l]
    by (auto simp: din_phil_code [OF u(1)] din_phil_unsat_code)
qed

text \<open>
  Any number of dining philosophers that take their forks inside the outer mutex
  (\<^verbatim>\<open>din_phil2_unsat.c\<close> to \<^verbatim>\<open>din_phil7_unsat.c\<close>) never fail and never deadlock.
\<close>

theorem din_phil_unsat_no_deadlock:
  assumes "2 \<le> N"
    and "reach (pt_step sp (din_phil_prog N (din_phil_unsat_thread1 N))) (pt_start 0 (0, 0)) s"
  shows "failed s = None \<and> \<not> deadlocked sp (din_phil_prog N (din_phil_unsat_thread1 N)) s"
proof -
  obtain n where N: "N = n + 2" using assms(1) by (metis add.commute le_Suc_ex)
  note reach = assms(2) [unfolded N]
  have "\<not> deadlocked sp (din_phil_prog N (din_phil_unsat_thread1 N)) s"
    unfolding N using reach
  proof (rule din_phil_unsat.not_deadlocked)
    fix s :: "(int, nat \<times> int) conf" and t
    let ?prog = "din_phil_prog (n + 2) (din_phil_unsat_thread1 (n + 2))"
    assume inv: "held_inv (n + 2) (phil_holds (n + 2)) 7 s" and run: "failed s = None" "thr s 0 \<noteq> Finished"
      and t: "t \<in> {1..n + 2}" "thr s t \<noteq> NotCreated" "thr s t \<noteq> Finished"
    obtain l pc where pc: "thr s t = Running l pc" "pc < 7"
      using held_invD(2-4) [OF inv t(1)] t(2,3) by (cases "thr s t") blast+
    show "\<exists>u. pt_step sp ?prog (u, 0) s \<noteq> None"
    proof (cases "mutex s 0")
      case None
      then have "0 \<notin> phil_holds (n + 2) (thr s t)" using held_invD(1) [OF inv, of 0 t] t(1) by simp
      then have "pc = 0 \<or> pc = 6" using pc by (auto split: if_splits simp del: add_2_eq_Suc')
      then have "pt_step sp ?prog (t, 0) s \<noteq> None"
        using None pc(1) run by (auto simp: din_phil_code [OF t(1)] din_phil_unsat_code simp del: add_2_eq_Suc')
      then show ?thesis by blast
    next
      case (Some u)
      then have "u \<in> {1..n + 2}" using held_invD(1) [OF inv, of 0 u] by blast
      from phil_holder_moves [OF inv run this Some] have "pt_step sp ?prog (u, 0) s \<noteq> None" by (simp del: pt_step.simps)
      then show ?thesis by blast
    qed
  qed
  moreover have "failed s = None" using din_phil_unsat.never_fails [OF reach] .
  ultimately show ?thesis by simp
qed

text \<open>Philosopher 1 of three holds both its forks while the others wait for the outer mutex.\<close>

theorem din_phil_unsat_no_deadlock_witness:
  "\<exists>s. reach (pt_step False din_phil3_unsat) (pt_start 0 (0, 0)) s \<and> mutex s 1 = None \<and> mutex s 2 = Some 2
     \<and> mutex s 3 = Some 2 \<and> failed s = None \<and> \<not> deadlocked False din_phil3_unsat s"
proof -
  have right: "phil_right 3 (Suc 0, r) = 3" "phil_left (Suc 0, r) = 2" for r
    by (simp_all add: phil_right_def phil_left_def)
  have e: "\<exists>s. exec (pt_step False din_phil3_unsat) [(2, 0), (2, 0), (2, 0)]
      (forked (\<lambda>t. (t - 1, 0)) 3 0 (0, 0)) = Some s \<and> mutex s 1 = None \<and> mutex s 2 = Some 2 \<and> mutex s 3 = Some 2"
    by (simp add: din_phil3_unsat_def din_phil_code din_phil_unsat_code right forked_def pt_simps)
  have main: "din_phil3_unsat 0 = compile (fork_join 3 (\<lambda>t. (t - 1, 0)) [1..<Suc 3])"
    unfolding din_phil3_unsat_def by (rule din_phil_prog_main)
  from reach_forked [of din_phil3_unsat, OF main e]
  obtain s where s: "reach (pt_step False din_phil3_unsat) (pt_start 0 (0, 0)) s"
    "mutex s 1 = None" "mutex s 2 = Some 2" "mutex s 3 = Some 2" by blast
  have "failed s = None \<and> \<not> deadlocked False din_phil3_unsat s"
    using din_phil_unsat_no_deadlock [of 3 False s] s(1) unfolding din_phil3_unsat_def by simp
  with s show ?thesis by blast
qed

interpretation din_phil7_sat:
  held_prog din_phil7_sat 7 "\<lambda>t. (t - 1, 0)" "[1..<Suc 7]" 0 "(0, 0)" "phil_holds 7" 6
proof (unfold_locales, goal_cases)
  case 1
  show ?case unfolding din_phil7_sat_def by (rule din_phil_prog_main)
next
  case (3 t)
  show ?case unfolding din_phil7_sat_def din_phil_code [OF 3] by (rule din_phil7_sat_code(2))
next
  case (7 t)
  show ?case by (rule din_phil7_sat_nth(2) [OF 7, of 0]) simp
next
  case (8 t pc l)
  then have pc: "pc = 0 \<or> pc = 1 \<or> pc = 2 \<or> pc = 3 \<or> pc = 4 \<or> pc = 5" by presburger
  with phil_fork_neq [of 7 l] show ?case unfolding din_phil7_sat_nth [OF 8] by (elim disjE) auto
qed auto

text \<open>
  In \<^verbatim>\<open>din_phil7_sat.c\<close> the assertion the other versions violate cannot even be reached: a
  philosopher that has eaten takes the outer mutex again instead of releasing it and waits for
  itself, so nobody is ever counted, no thread finishes and \<open>main\<close> never returns.
\<close>

theorem din_phil7_sat_stuck:
  assumes "reach (pt_step sp din_phil7_sat) (pt_start 0 (0, 0)) s"
  shows "failed s = None \<and> thr s 0 \<noteq> Finished \<and> (\<forall>t l pc. t \<noteq> 0 \<and> thr s t = Running l pc \<longrightarrow> pc \<le> 5)"
proof -
  have inv: "held_inv 7 (phil_holds 7) 6 s" and ok: "failed s = None"
    and out: "\<And>t. 7 < t \<Longrightarrow> thr s t = NotCreated"
    using din_phil7_sat.reach_inv [OF assms] unfolding din_phil7_sat.main_inv_def by blast+
  have "thr s 0 \<noteq> Finished"
  proof
    assume "thr s 0 = Finished"
    then have "thr s 1 = Finished" by (rule din_phil7_sat.joined_finished [OF assms]) simp
    moreover have "din_phil7_sat 1 ! pc \<noteq> Return" if "pc < 6" for pc
      using din_phil7_sat_nth(1) [of 1 pc] that by (auto simp: less_Suc_eq numeral_eq_Suc)
    then have "thr s 1 \<noteq> Finished" by (intro din_phil7_sat.not_finished [OF assms]) simp_all
    ultimately show False by simp
  qed
  moreover have "pc \<le> 5" if "t \<noteq> 0" "thr s t = Running l pc" for t l pc
  proof -
    have "t \<in> {1..7}" using out [of t] that by (cases "7 < t") auto
    from held_invD(2) [OF inv this that(2)] show ?thesis by simp
  qed
  ultimately show ?thesis using ok by blast
qed

theorem din_phil7_sat_stuck_witness:
  "\<exists>s. reach (pt_step True din_phil7_sat) (pt_start 0 (0, 0)) s \<and> (\<exists>l. thr s 1 = Running l 5) \<and>
     mutex s 0 = Some 1 \<and> failed s = None \<and> thr s 0 \<noteq> Finished"
proof -
  have code: "din_phil7_sat 1 = compile din_phil7_sat_thread1"
    unfolding din_phil7_sat_def by (rule din_phil_code) simp
  have right: "phil_right 7 (0, r) = 2" "phil_left (0, r) = 1" for r
    by (simp_all add: phil_right_def phil_left_def)
  have "\<exists>s. exec (pt_step True din_phil7_sat) [(1, 0), (1, 0), (1, 0), (1, 0), (1, 0)] (forked (\<lambda>t. (t - 1, 0)) 7 0 (0, 0)) = Some s
      \<and> (\<exists>l. thr s 1 = Running l 5) \<and> mutex s 0 = Some 1"
    using code by (simp add: din_phil7_sat_code(1) right forked_def pt_simps)
  from reach_forked [of din_phil7_sat, OF din_phil7_sat.main_code this]
  obtain s where s: "reach (pt_step True din_phil7_sat) (pt_start 0 (0, 0)) s"
    "\<exists>l. thr s 1 = Running l 5" "mutex s 0 = Some 1" by blast
  with din_phil7_sat_stuck [OF s(1)] show ?thesis by blast
qed

end
