(* ===== verification/Bounded_Queue.thy ===== *)
theory Bounded_Queue
  imports Vatomic
begin

text \<open>
  The contract of the bounded queues of \<^verbatim>\<open>queue/\<close> for calls that run without interference, and the
  arithmetic of ring buffers they share: slot \<open>i % size\<close> for a 32-bit counter \<open>i\<close>.
\<close>

section \<open>Return codes\<close>

datatype bounded_ret_t = QUEUE_BOUNDED_OK | QUEUE_BOUNDED_FULL | QUEUE_BOUNDED_EMPTY | QUEUE_BOUNDED_AGAIN

section \<open>Ring buffers\<close>

definition slot :: "u32 \<Rightarrow> u32 \<Rightarrow> nat" where
  "slot n i = unat i mod unat n"

lemma slot_of_nat:
  assumes "unat n dvd 2 ^ 32"
  shows "slot n (of_nat i) = i mod unat n"
  using unat_add_of_nat_mod_dvd [of "unat n" "0 :: u32" i] assms by (simp add: slot_def)

text \<open>The \<open>k\<close> values from counter \<open>h\<close> on.\<close>

definition ring :: "u32 \<Rightarrow> 'v list \<Rightarrow> u32 \<Rightarrow> nat \<Rightarrow> 'v list" where
  "ring n b h k = map (\<lambda>i. b ! slot n (h + of_nat i)) [0..<k]"

lemma length_ring [simp]: "length (ring n b h k) = k"
  by (simp add: ring_def)

lemma slot_add:
  assumes "unat n dvd 2 ^ 32"
  shows "slot n (h + of_nat i) = (unat h + i) mod unat n"
  using unat_add_of_nat_mod_dvd [of "unat n" h i] assms by (simp add: slot_def)

lemma slot_less: "n \<noteq> 0 \<Longrightarrow> slot n i < unat n"
  by (simp add: slot_def unat_gt_0)

text \<open>Storing at the tail appends a value, as long as there is room.\<close>

lemma ring_snoc:
  assumes "unat n dvd 2 ^ 32" and "n \<noteq> 0" and "length b = unat n" and "k < unat n"
  shows "ring n (b[slot n (h + of_nat k) := v]) h (Suc k) = ring n b h k @ [v]"
proof -
  have "slot n (h + of_nat k) \<noteq> slot n (h + of_nat i)" if "i < k" for i
    using window_mod_inj [of "unat h + i" "unat n" "unat h + k"] that assms(4)
    by (auto simp: slot_add [OF assms(1)])
  then show ?thesis using slot_less [OF assms(2)] assms(3) by (simp add: ring_def)
qed

text \<open>Moving the head drops the first value.\<close>

lemma ring_Suc: "ring n b h (Suc k) = b ! slot n h # ring n b (h + 1) k"
  by (simp add: ring_def map_upt_Suc ac_simps del: upt_Suc)

text \<open>A call that runs alone to its end, in at most \<open>fuel\<close> steps.\<close>

fun run_call :: "nat \<Rightarrow> ('p \<Rightarrow> 'q \<Rightarrow> ('p + 'r) \<times> 'q) \<Rightarrow> 'p \<Rightarrow> 'q \<Rightarrow> ('r \<times> 'q) option" where
  "run_call 0 f p q = None"
| "run_call (Suc fuel) f p q = (case f p q of (Inl p', q') \<Rightarrow> run_call fuel f p' q' | (Inr r, q') \<Rightarrow> Some (r, q'))"

section \<open>The contract\<close>

datatype 'v qop = Put 'v | Get

text \<open>A list of at most \<open>cap\<close> values, and what a client sees of it.\<close>

fun list_qop :: "nat \<Rightarrow> 'v qop \<Rightarrow> 'v list \<Rightarrow> (bounded_ret_t \<times> 'v option) \<times> 'v list" where
  "list_qop cap (Put v) xs = (if length xs = cap then ((QUEUE_BOUNDED_FULL, None), xs)
     else ((QUEUE_BOUNDED_OK, None), xs @ [v]))"
| "list_qop cap Get [] = ((QUEUE_BOUNDED_EMPTY, None), [])"
| "list_qop cap Get (x # xs) = ((QUEUE_BOUNDED_OK, Some x), xs)"

fun run_qops :: "('v qop \<Rightarrow> 'q \<Rightarrow> 'r \<times> 'q) \<Rightarrow> 'v qop list \<Rightarrow> 'q \<Rightarrow> 'r list \<times> 'q" where
  "run_qops f [] q = ([], q)"
| "run_qops f (c # cs) q = (let (r, q') = f c q; (rs, q'') = run_qops f cs q' in (r # rs, q''))"

text \<open>One operation of a client on a queue with the given calls.\<close>

fun queue_op :: "('v \<Rightarrow> 'q \<Rightarrow> bounded_ret_t \<times> 'q) \<Rightarrow> ('q \<Rightarrow> (bounded_ret_t \<times> 'v option) \<times> 'q) \<Rightarrow>
    'v qop \<Rightarrow> 'q \<Rightarrow> (bounded_ret_t \<times> 'v option) \<times> 'q" where
  "queue_op enq deq (Put v) q = (let (r, q') = enq v q in ((r, None), q'))"
| "queue_op enq deq Get q = deq q"

locale bounded_queue =
  fixes inv :: "'q \<Rightarrow> bool" and contents :: "'q \<Rightarrow> 'v list" and cap :: nat
    and enq :: "'v \<Rightarrow> 'q \<Rightarrow> bounded_ret_t \<times> 'q" and deq :: "'q \<Rightarrow> (bounded_ret_t \<times> 'v option) \<times> 'q"
  assumes enq_full: "inv q \<Longrightarrow> length (contents q) = cap \<Longrightarrow> enq v q = (QUEUE_BOUNDED_FULL, q)"
    and enq_ok: "inv q \<Longrightarrow> length (contents q) \<noteq> cap \<Longrightarrow>
      fst (enq v q) = QUEUE_BOUNDED_OK \<and> inv (snd (enq v q)) \<and> contents (snd (enq v q)) = contents q @ [v]"
    and deq_empty: "inv q \<Longrightarrow> contents q = [] \<Longrightarrow> deq q = ((QUEUE_BOUNDED_EMPTY, None), q)"
    and deq_ok: "inv q \<Longrightarrow> contents q = v # vs \<Longrightarrow>
      fst (deq q) = (QUEUE_BOUNDED_OK, Some v) \<and> inv (snd (deq q)) \<and> contents (snd (deq q)) = vs"
begin

lemma qop_refines:
  assumes "inv q"
  shows "fst (queue_op enq deq c q) = fst (list_qop cap c (contents q)) \<and> inv (snd (queue_op enq deq c q)) \<and>
    contents (snd (queue_op enq deq c q)) = snd (list_qop cap c (contents q))"
proof (cases c)
  case (Put v)
  then show ?thesis
    using enq_full [OF assms] enq_ok [OF assms, of v] assms by (auto simp: Let_def case_prod_beta)
next
  case Get
  then show ?thesis
    using deq_empty [OF assms] deq_ok [OF assms] assms by (cases "contents q") auto
qed

lemma run_refines:
  assumes "inv q"
  shows "fst (run_qops (queue_op enq deq) cs q) = fst (run_qops (list_qop cap) cs (contents q)) \<and>
    contents (snd (run_qops (queue_op enq deq) cs q)) = snd (run_qops (list_qop cap) cs (contents q))"
  using assms
proof (induction cs arbitrary: q)
  case (Cons c cs)
  from qop_refines [OF Cons.prems, of c] Cons.IH [of "snd (queue_op enq deq c q)"] show ?case
    by (simp add: Let_def case_prod_beta)
qed simp

end

end
