(* ===== verification/Bounded_Spsc.thy ===== *)
theory Bounded_Spsc
  imports Bounded_Queue "HOL-Library.Sublist"
begin

text \<open>
  The single-producer single-consumer queue, \<^verbatim>\<open>queue/bounded_spsc.h\<close> with the injected bug in
  \<open>bounded_spsc_deq\<close> and \<^verbatim>\<open>queue/bounded_spsc.h.orig\<close> without it. One thread enqueues, one
  dequeues; a step is one access to \<open>head\<close>, \<open>tail\<close> or a slot of \<open>buf\<close>.
\<close>

section \<open>Operations\<close>

record 'v bounded_spsc_t =
  sp_buf :: "'v list"
  sp_head :: u32
  sp_tail :: u32
  sp_size :: u32

definition bounded_spsc_init :: "'v list \<Rightarrow> u32 \<Rightarrow> 'v bounded_spsc_t" where
  "bounded_spsc_init b s = \<lparr>sp_buf = b, sp_head = vatomic32_init 0 0, sp_tail = vatomic32_init 0 0, sp_size = s\<rparr>"

text \<open>
  A call in progress remembers the counters it has read. \<open>Inr r\<close> is a call that returned \<open>r\<close>; a
  successful dequeue returns the value too.
\<close>

datatype 'v enq_pc = EnqCalled 'v | EnqTail 'v u32 | EnqRoom 'v u32 | EnqStored 'v u32

datatype 'v deq_pc = DeqCalled | DeqHead u32 | DeqSome u32 | DeqRead u32 'v | DeqMoved u32

fun bounded_spsc_enq :: "'v enq_pc \<Rightarrow> 'v bounded_spsc_t \<Rightarrow> ('v enq_pc + bounded_ret_t) \<times> 'v bounded_spsc_t" where
  "bounded_spsc_enq (EnqCalled v) q = (Inl (EnqTail v (vatomic32_read (sp_tail q))), q)"
| "bounded_spsc_enq (EnqTail v tail) q =
     (let head = vatomic32_read (sp_head q)
      in (if tail - head = sp_size q then Inr QUEUE_BOUNDED_FULL else Inl (EnqRoom v tail), q))"
| "bounded_spsc_enq (EnqRoom v tail) q =
     (Inl (EnqStored v tail), q\<lparr>sp_buf := (sp_buf q)[slot (sp_size q) tail := v]\<rparr>)"
| "bounded_spsc_enq (EnqStored v tail) q =
     (Inr QUEUE_BOUNDED_OK, q\<lparr>sp_tail := vatomic32_write (sp_tail q) (tail + 1)\<rparr>)"

text \<open>The version of \<^verbatim>\<open>.orig\<close> reads the slot before it moves \<open>head\<close>.\<close>

fun bounded_spsc_deq_orig ::
  "'v deq_pc \<Rightarrow> 'v bounded_spsc_t \<Rightarrow> ('v deq_pc + bounded_ret_t \<times> 'v option) \<times> 'v bounded_spsc_t" where
  "bounded_spsc_deq_orig DeqCalled q = (Inl (DeqHead (vatomic32_read (sp_head q))), q)"
| "bounded_spsc_deq_orig (DeqHead head) q =
     (let tail = vatomic32_read (sp_tail q)
      in (if tail - head = 0 then Inr (QUEUE_BOUNDED_EMPTY, None) else Inl (DeqSome head), q))"
| "bounded_spsc_deq_orig (DeqSome head) q = (Inl (DeqRead head (sp_buf q ! slot (sp_size q) head)), q)"
| "bounded_spsc_deq_orig (DeqRead head v) q =
     (Inr (QUEUE_BOUNDED_OK, Some v), q\<lparr>sp_head := vatomic32_write (sp_head q) (head + 1)\<rparr>)"
| "bounded_spsc_deq_orig (DeqMoved head) q = (Inl (DeqMoved head), q)"

text \<open>The version with the bug moves \<open>head\<close> first.\<close>

fun bounded_spsc_deq ::
  "'v deq_pc \<Rightarrow> 'v bounded_spsc_t \<Rightarrow> ('v deq_pc + bounded_ret_t \<times> 'v option) \<times> 'v bounded_spsc_t" where
  "bounded_spsc_deq DeqCalled q = (Inl (DeqHead (vatomic32_read (sp_head q))), q)"
| "bounded_spsc_deq (DeqHead head) q =
     (let tail = vatomic32_read (sp_tail q)
      in (if tail - head = 0 then Inr (QUEUE_BOUNDED_EMPTY, None) else Inl (DeqSome head), q))"
| "bounded_spsc_deq (DeqSome head) q =
     (Inl (DeqMoved head), q\<lparr>sp_head := vatomic32_write (sp_head q) (head + 1)\<rparr>)"
| "bounded_spsc_deq (DeqMoved head) q =
     (Inr (QUEUE_BOUNDED_OK, Some (sp_buf q ! slot (sp_size q) head)), q)"
| "bounded_spsc_deq (DeqRead head v) q = (Inl (DeqRead head v), q)"

section \<open>One producer and one consumer\<close>

text \<open>
  The producer calls \<open>bounded_spsc_enq\<close> with values of its choice, the consumer calls the dequeue
  function; the clients note the values enqueued and dequeued successfully, and the other returns.
\<close>

record 'v spsc_sys =
  spsc :: "'v bounded_spsc_t"
  prod :: "'v enq_pc option"
  cons :: "'v deq_pc option"
  enqd :: "'v list"
  deqd :: "'v list"

datatype 'v spsc_cmd = CallEnq 'v | CallDeq | RunEnq | RunDeq

definition spsc_start :: "'v list \<Rightarrow> u32 \<Rightarrow> 'v spsc_sys" where
  "spsc_start b n = \<lparr>spsc = bounded_spsc_init b n, prod = None, cons = None, enqd = [], deqd = []\<rparr>"

definition spsc_run_enq :: "'v enq_pc \<Rightarrow> 'v spsc_sys \<Rightarrow> 'v spsc_sys" where
  "spsc_run_enq pc s = (case bounded_spsc_enq pc (spsc s) of
      (Inl pc', q) \<Rightarrow> s\<lparr>spsc := q, prod := Some pc'\<rparr>
    | (Inr r, q) \<Rightarrow> s\<lparr>spsc := q, prod := None,
        enqd := (case pc of EnqStored v tail \<Rightarrow> enqd s @ [v] | _ \<Rightarrow> enqd s)\<rparr>)"

definition spsc_run_deq ::
  "('v deq_pc \<Rightarrow> 'v bounded_spsc_t \<Rightarrow> ('v deq_pc + bounded_ret_t \<times> 'v option) \<times> 'v bounded_spsc_t) \<Rightarrow>
   'v deq_pc \<Rightarrow> 'v spsc_sys \<Rightarrow> 'v spsc_sys" where
  "spsc_run_deq deq pc s = (case deq pc (spsc s) of
      (Inl pc', q) \<Rightarrow> s\<lparr>spsc := q, cons := Some pc'\<rparr>
    | (Inr (r, out), q) \<Rightarrow> s\<lparr>spsc := q, cons := None,
        deqd := (case out of Some v \<Rightarrow> deqd s @ [v] | None \<Rightarrow> deqd s)\<rparr>)"

fun spsc_step ::
  "('v deq_pc \<Rightarrow> 'v bounded_spsc_t \<Rightarrow> ('v deq_pc + bounded_ret_t \<times> 'v option) \<times> 'v bounded_spsc_t) \<Rightarrow>
   'v spsc_cmd \<Rightarrow> 'v spsc_sys \<Rightarrow> 'v spsc_sys option" where
  "spsc_step deq (CallEnq v) s = (if prod s = None then Some (spsc_run_enq (EnqCalled v) s) else None)"
| "spsc_step deq RunEnq s = map_option (\<lambda>pc. spsc_run_enq pc s) (prod s)"
| "spsc_step deq CallDeq s = (if cons s = None then Some (spsc_run_deq deq DeqCalled s) else None)"
| "spsc_step deq RunDeq s = map_option (\<lambda>pc. spsc_run_deq deq pc s) (cons s)"

lemmas [queue_simps] = spsc_run_enq_def spsc_run_deq_def spsc_start_def bounded_spsc_init_def

section \<open>First in, first out\<close>

text \<open>
  \<open>T\<close> values were enqueued and \<open>H\<close> dequeued: the counters are these numbers modulo \<open>2^32\<close>, and the
  slots between them hold the values in between.
\<close>

fun enq_knows :: "nat \<Rightarrow> nat \<Rightarrow> nat \<Rightarrow> 'v list \<Rightarrow> 'v enq_pc option \<Rightarrow> bool" where
  "enq_knows n H T b None = True"
| "enq_knows n H T b (Some (EnqCalled v)) = True"
| "enq_knows n H T b (Some (EnqTail v t)) = (t = of_nat T)"
| "enq_knows n H T b (Some (EnqRoom v t)) = (t = of_nat T \<and> T < H + n)"
| "enq_knows n H T b (Some (EnqStored v t)) = (t = of_nat T \<and> T < H + n \<and> b ! (T mod n) = v)"

fun deq_knows :: "nat \<Rightarrow> 'v list \<Rightarrow> 'v deq_pc option \<Rightarrow> bool" where
  "deq_knows H vs None = True"
| "deq_knows H vs (Some DeqCalled) = True"
| "deq_knows H vs (Some (DeqHead h)) = (h = of_nat H)"
| "deq_knows H vs (Some (DeqSome h)) = (h = of_nat H \<and> H < length vs)"
| "deq_knows H vs (Some (DeqRead h v)) = (h = of_nat H \<and> H < length vs \<and> v = vs ! H)"
| "deq_knows H vs (Some (DeqMoved h)) = False"

lemma enq_knows_Suc: "enq_knows n H T b pc \<Longrightarrow> enq_knows n (Suc H) T b pc"
  by (induction n H T b pc rule: enq_knows.induct) auto

lemma deq_knows_snoc: "deq_knows H vs pc \<Longrightarrow> deq_knows H (vs @ [v]) pc"
  by (induction H vs pc rule: deq_knows.induct) (auto simp: nth_append)

definition spsc_inv :: "u32 \<Rightarrow> 'v spsc_sys \<Rightarrow> bool" where
  "spsc_inv n s \<longleftrightarrow>
     sp_size (spsc s) = n \<and> length (sp_buf (spsc s)) = unat n \<and>
     sp_head (spsc s) = of_nat (length (deqd s)) \<and> sp_tail (spsc s) = of_nat (length (enqd s)) \<and>
     length (deqd s) \<le> length (enqd s) \<and> length (enqd s) \<le> length (deqd s) + unat n \<and>
     prefix (deqd s) (enqd s) \<and>
     (\<forall>i. length (deqd s) \<le> i \<and> i < length (enqd s) \<longrightarrow> sp_buf (spsc s) ! (i mod unat n) = enqd s ! i) \<and>
     enq_knows (unat n) (length (deqd s)) (length (enqd s)) (sp_buf (spsc s)) (prod s) \<and>
     deq_knows (length (deqd s)) (enqd s) (cons s)"

text \<open>The difference of the counters is the number of elements, as long as it is below \<open>2^32\<close>.\<close>

lemma counters_diff_eq_iff:
  assumes "H \<le> T" and "T \<le> H + unat (n :: u32)"
  shows "(of_nat T - of_nat H = n) \<longleftrightarrow> T = H + unat n" and "((of_nat T :: u32) - of_nat H = 0) \<longleftrightarrow> T = H"
proof -
  have "(of_nat T :: u32) - of_nat H = of_nat (T - H)" using assms(1) by simp
  moreover have "T - H < 2 ^ 32" using assms(2) u32_lt [of n] by linarith
  ultimately have "unat ((of_nat T :: u32) - of_nat H) = T - H" by (simp add: unat_of_nat)
  then show "(of_nat T - of_nat H = n) \<longleftrightarrow> T = H + unat n" and "((of_nat T :: u32) - of_nat H = 0) \<longleftrightarrow> T = H"
    using assms(1) by (auto simp: word_unat_eq_iff)
qed

lemma prefix_extend:
  assumes "prefix xs ys" and "length xs < length ys"
  shows "prefix (xs @ [ys ! length xs]) ys"
proof -
  obtain zs where "ys = xs @ zs" using assms(1) by (auto elim: prefixE)
  with assms(2) show ?thesis by (cases zs) (auto simp: nth_append)
qed

lemma spsc_invD:
  assumes "spsc_inv n s"
  shows "sp_size (spsc s) = n" "length (sp_buf (spsc s)) = unat n"
    "sp_head (spsc s) = of_nat (length (deqd s))" "sp_tail (spsc s) = of_nat (length (enqd s))"
    "length (deqd s) \<le> length (enqd s)" "length (enqd s) \<le> length (deqd s) + unat n"
    "prefix (deqd s) (enqd s)"
    "\<And>i. length (deqd s) \<le> i \<Longrightarrow> i < length (enqd s) \<Longrightarrow> sp_buf (spsc s) ! (i mod unat n) = enqd s ! i"
    "enq_knows (unat n) (length (deqd s)) (length (enqd s)) (sp_buf (spsc s)) (prod s)"
    "deq_knows (length (deqd s)) (enqd s) (cons s)"
  using assms unfolding spsc_inv_def by blast+

lemma spsc_inv_enq:
  assumes inv: "spsc_inv n s" and n: "unat n dvd 2 ^ 32" "n \<noteq> 0"
    and pc: "prod s = Some pc \<or> prod s = None \<and> pc = EnqCalled v"
  shows "spsc_inv n (spsc_run_enq pc s)"
proof (cases pc)
  case (EnqCalled v)
  with inv show ?thesis by (auto simp: spsc_inv_def queue_simps vatomic_simps)
next
  case (EnqTail v t)
  with pc spsc_invD(9) [OF inv] have "t = of_nat (length (enqd s))" by simp
  with EnqTail spsc_invD(1,3,5,6) [OF inv] counters_diff_eq_iff(1) [OF spsc_invD(5,6) [OF inv]] inv show ?thesis
    by (auto simp: spsc_inv_def queue_simps vatomic_simps)
next
  case (EnqRoom v t)
  let ?H = "length (deqd s)" and ?T = "length (enqd s)"
  have t: "t = of_nat ?T" "?T < ?H + unat n" using EnqRoom pc spsc_invD(9) [OF inv] by simp_all
  have "i mod unat n \<noteq> ?T mod unat n" if "?H \<le> i" "i < ?T" for i
    using window_mod_inj [of i "unat n" ?T] that t(2) by auto
  moreover have "?T mod unat n < unat n" using n(2) by (simp add: unat_gt_0)
  ultimately have "(sp_buf (spsc s))[?T mod unat n := v] ! (i mod unat n) = enqd s ! i" if "?H \<le> i" "i < ?T" for i
    using that spsc_invD(8) [OF inv] by (metis nth_list_update_neq)
  then show ?thesis
    using EnqRoom inv spsc_invD(1) [OF inv] t \<open>?T mod unat n < unat n\<close>
    by (auto simp: spsc_inv_def queue_simps slot_of_nat [OF n(1)])
next
  case (EnqStored v t)
  then have t: "t = of_nat (length (enqd s))" "length (enqd s) < length (deqd s) + unat n"
    "sp_buf (spsc s) ! (length (enqd s) mod unat n) = v"
    using pc spsc_invD(9) [OF inv] by simp_all
  moreover have "deq_knows (length (deqd s)) (enqd s @ [v]) (cons s)"
    by (rule deq_knows_snoc [OF spsc_invD(10) [OF inv]])
  ultimately show ?thesis
    using EnqStored inv by (auto simp: spsc_inv_def queue_simps vatomic_simps nth_append less_Suc_eq)
qed

lemma spsc_inv_deq:
  assumes inv: "spsc_inv n s" and n: "unat n dvd 2 ^ 32" "n \<noteq> 0"
    and pc: "cons s = Some pc \<or> cons s = None \<and> pc = DeqCalled"
  shows "spsc_inv n (spsc_run_deq bounded_spsc_deq_orig pc s)"
proof (cases pc)
  case DeqCalled
  with inv show ?thesis by (auto simp: spsc_inv_def queue_simps vatomic_simps)
next
  case (DeqHead h)
  with pc spsc_invD(10) [OF inv] have "h = of_nat (length (deqd s))" by simp
  with DeqHead spsc_invD(4,5) [OF inv] counters_diff_eq_iff(2) [OF spsc_invD(5,6) [OF inv]] inv show ?thesis
    by (auto simp: spsc_inv_def queue_simps vatomic_simps)
next
  case (DeqSome h)
  with pc spsc_invD(10) [OF inv] have "h = of_nat (length (deqd s))" "length (deqd s) < length (enqd s)" by simp_all
  with DeqSome inv spsc_invD(8) [OF inv order_refl] show ?thesis
    by (auto simp: spsc_inv_def queue_simps slot_of_nat [OF n(1)])
next
  case (DeqRead h v)
  then have h: "h = of_nat (length (deqd s))" "length (deqd s) < length (enqd s)" "v = enqd s ! length (deqd s)"
    using pc spsc_invD(10) [OF inv] by simp_all
  moreover have "prefix (deqd s @ [v]) (enqd s)"
    unfolding h(3) by (rule prefix_extend [OF spsc_invD(7) [OF inv] h(2)])
  moreover have "enq_knows (unat n) (Suc (length (deqd s))) (length (enqd s)) (sp_buf (spsc s)) (prod s)"
    by (rule enq_knows_Suc [OF spsc_invD(9) [OF inv]])
  ultimately show ?thesis
    using DeqRead inv by (auto simp: spsc_inv_def queue_simps vatomic_simps)
next
  case (DeqMoved h)
  with pc spsc_invD(10) [OF inv] show ?thesis by simp
qed

lemma spsc_inv_reach:
  assumes "n \<noteq> 0" and "unat n dvd 2 ^ 32" and "length b = unat n"
    and "reach (spsc_step bounded_spsc_deq_orig) (spsc_start b n) s"
  shows "spsc_inv n s"
proof -
  have "inv_system (spsc_step bounded_spsc_deq_orig) (spsc_start b n) (spsc_inv n)"
  proof (rule inv_system.intro, goal_cases)
    case 1
    show ?case using assms(3) by (simp add: spsc_inv_def queue_simps vatomic_simps)
  next
    case (2 s cmd t)
    then show ?case using spsc_inv_enq [OF 2(1) assms(2,1)] spsc_inv_deq [OF 2(1) assms(2,1)]
      by (cases cmd) (auto split: if_splits)
  qed
  then show ?thesis using assms(4) by (rule inv_system.reach_inv)
qed



text \<open>
  The returns of the original queue are exact: when the producer has read \<open>head\<close>, it returns
  \<open>QUEUE_BOUNDED_FULL\<close> if and only if the queue then holds \<open>size\<close> values, and the consumer that
  reads \<open>tail\<close> returns \<open>QUEUE_BOUNDED_EMPTY\<close> if and only if everything enqueued was dequeued.
\<close>

theorem spsc_full_empty:
  assumes "n \<noteq> 0" and "unat n dvd 2 ^ 32" and "length b = unat n"
    and "reach (spsc_step bounded_spsc_deq_orig) (spsc_start b n) s"
  shows "(prod s = Some (EnqTail v t) \<longrightarrow>
      (fst (bounded_spsc_enq (EnqTail v t) (spsc s)) = Inr QUEUE_BOUNDED_FULL) = (length (enqd s) = length (deqd s) + unat n)) \<and>
    (cons s = Some (DeqHead h) \<longrightarrow>
      (fst (bounded_spsc_deq_orig (DeqHead h) (spsc s)) = Inr (QUEUE_BOUNDED_EMPTY, None)) = (deqd s = enqd s))"
proof -
  have inv: "spsc_inv n s" by (rule spsc_inv_reach [OF assms])
  note diff = counters_diff_eq_iff [OF spsc_invD(5,6) [OF inv]]
  have "length (enqd s) = length (deqd s) \<longleftrightarrow> deqd s = enqd s"
    using spsc_invD(7) [OF inv] by (auto elim!: prefixE)
  moreover have "t = of_nat (length (enqd s))" if "prod s = Some (EnqTail v t)"
    using spsc_invD(9) [OF inv] that by simp
  moreover have "h = of_nat (length (deqd s))" if "cons s = Some (DeqHead h)"
    using spsc_invD(10) [OF inv] that by simp
  ultimately show ?thesis
    using spsc_invD(1,3,4) [OF inv] diff by (intro conjI impI) (simp_all add: vatomic_simps)
qed

theorem spsc_full_empty_witness:
  "\<exists>s. exec (spsc_step bounded_spsc_deq_orig)
     [CallEnq 5, RunEnq, RunEnq, RunEnq, CallEnq 6, CallDeq] (spsc_start [0] 1) = Some s
     \<and> fst (bounded_spsc_enq (EnqTail (6 :: int) 1) (spsc s)) = Inr QUEUE_BOUNDED_FULL
     \<and> fst (bounded_spsc_deq_orig (DeqHead 0) (spsc s)) \<noteq> Inr (QUEUE_BOUNDED_EMPTY, None)"
proof -
  obtain s :: "int spsc_sys" where e: "exec (spsc_step bounded_spsc_deq_orig)
     [CallEnq 5, RunEnq, RunEnq, RunEnq, CallEnq 6, CallDeq] (spsc_start [0] 1) = Some s"
    and "prod s = Some (EnqTail 6 1)" "cons s = Some (DeqHead 0)" "deqd s = []" "enqd s = [5]"
    by (simp add: queue_simps vatomic_simps slot_def)
  with spsc_full_empty [of 1 "[0]" s 6 1 0] exec_reach [OF e] show ?thesis by simp
qed

section \<open>The injected bug\<close>

text \<open>
  With the injected bug the producer can overwrite a slot between the move of \<open>head\<close> and the read
  of the slot: the consumer gets the second value and the first one is lost.
\<close>

theorem spsc_bug_loses_value:
  "\<exists>s. reach (spsc_step bounded_spsc_deq) (spsc_start [0] 1) s \<and> enqd s = [5, 6 :: int] \<and> deqd s = [6]"
proof -
  have "\<exists>s. exec (spsc_step bounded_spsc_deq)
     [CallEnq 5, RunEnq, RunEnq, RunEnq, CallDeq, RunDeq, RunDeq, CallEnq 6, RunEnq, RunEnq, RunEnq, RunDeq]
     (spsc_start [0] 1) = Some s \<and> enqd s = [5, 6 :: int] \<and> deqd s = [6]"
    by (simp add: queue_simps vatomic_simps slot_def)
  then show ?thesis by (blast intro: exec_reach)
qed

section \<open>Sizes that are not powers of two\<close>

text \<open>
  The comment on \<open>bounded_spsc_init\<close> allows every size. Where the counters wrap around, the slots
  of consecutive values collide unless the size divides \<open>2^32\<close>.
\<close>

definition spsc_round :: "int spsc_cmd list" where
  "spsc_round = [CallEnq 0, RunEnq, RunEnq, RunEnq, CallDeq, RunDeq, RunDeq, RunDeq]"

definition three_zeros :: "int list" where
  "three_zeros = [0, 0, 0]"

definition spsc_rounds :: "nat \<Rightarrow> int spsc_sys" where
  "spsc_rounds k = \<lparr>spsc = \<lparr>sp_buf = three_zeros, sp_head = of_nat k, sp_tail = of_nat k, sp_size = 3\<rparr>,
     prod = None, cons = None, enqd = replicate k 0, deqd = replicate k 0\<rparr>"

lemma three_slots: "three_zeros[i := 0] = three_zeros" "three_zeros ! slot 3 j = 0"
proof -
  have zs: "three_zeros = replicate 3 0" by (simp add: three_zeros_def numeral_eq_Suc)
  show "three_zeros[i := 0] = three_zeros"
    unfolding zs by (metis list_update_beyond list_update_id length_replicate not_less nth_replicate)
  have "slot 3 j < 3" by (simp add: slot_def)
  then show "three_zeros ! slot 3 j = 0" unfolding zs by (rule nth_replicate)
qed

lemma exec_spsc_round: "exec (spsc_step bounded_spsc_deq_orig) spsc_round (spsc_rounds k) = Some (spsc_rounds (Suc k))"
  by (simp add: spsc_round_def spsc_rounds_def queue_simps vatomic_simps three_slots replicate_append_same)

text \<open>
  A queue of size 3 is not first-in first-out after \<open>2^32 - 1\<close> values: the next two values share
  slot 0, and the second one is dequeued in place of the first.
\<close>

theorem spsc_size_three_collides:
  "\<exists>s. reach (spsc_step bounded_spsc_deq_orig) (spsc_start [0, 0, 0 :: int] 3) s \<and> \<not> prefix (deqd s) (enqd s)"
proof -
  let ?step = "spsc_step bounded_spsc_deq_orig :: int spsc_cmd \<Rightarrow> _"
  define K :: nat where "K = 2 ^ 32 - 1"
  have a: "spsc_start [0, 0, 0] 3 = spsc_rounds 0" by (simp add: spsc_rounds_def three_zeros_def queue_simps vatomic_simps)
  have b: "exec ?step (concat (replicate K spsc_round)) (spsc_rounds 0) = Some (spsc_rounds K)"
    using exec_replicate_rounds [of ?step spsc_round spsc_rounds K 0] exec_spsc_round by simp
  have w: "(of_nat K :: u32) = 4294967295" by (simp add: K_def)
  have "\<exists>s. exec ?step [CallEnq 1, RunEnq, RunEnq, RunEnq, CallEnq 2, RunEnq, RunEnq, RunEnq, CallDeq, RunDeq, RunDeq, RunDeq]
      (spsc_rounds K) = Some s \<and> enqd s = replicate K 0 @ [1, 2] \<and> deqd s = replicate K 0 @ [2]"
    unfolding spsc_rounds_def w three_zeros_def by (simp add: queue_simps vatomic_simps slot_def)
  then obtain s where s: "exec ?step [CallEnq 1, RunEnq, RunEnq, RunEnq, CallEnq 2, RunEnq, RunEnq, RunEnq, CallDeq, RunDeq, RunDeq, RunDeq]
      (spsc_rounds K) = Some s" "enqd s = replicate K 0 @ [1, 2]" "deqd s = replicate K 0 @ [2]" by blast
  from b s(1) have "reach ?step (spsc_rounds 0) s" by (metis exec_reach reach_trans)
  moreover have "\<not> prefix (deqd s) (enqd s)" using s(2,3) by simp
  ultimately show ?thesis unfolding a by blast
qed

section \<open>Calls that run alone\<close>

text \<open>
  A call takes at most four steps. Run alone, the enqueue and both versions of the dequeue implement
  a bounded list queue: the order of the two last accesses of the dequeue only matters under
  concurrency, as the comment in \<^verbatim>\<open>bounded_spsc.h\<close> says.
\<close>

definition spsc_enq_call :: "'v \<Rightarrow> 'v bounded_spsc_t \<Rightarrow> bounded_ret_t \<times> 'v bounded_spsc_t" where
  "spsc_enq_call v q = the (run_call 4 bounded_spsc_enq (EnqCalled v) q)"

definition spsc_deq_call :: "'v bounded_spsc_t \<Rightarrow> (bounded_ret_t \<times> 'v option) \<times> 'v bounded_spsc_t" where
  "spsc_deq_call q = the (run_call 4 bounded_spsc_deq DeqCalled q)"

definition spsc_deq_orig_call :: "'v bounded_spsc_t \<Rightarrow> (bounded_ret_t \<times> 'v option) \<times> 'v bounded_spsc_t" where
  "spsc_deq_orig_call q = the (run_call 4 bounded_spsc_deq_orig DeqCalled q)"

lemma spsc_calls_return:
  "run_call 4 bounded_spsc_enq (EnqCalled v) q \<noteq> None"
  "run_call 4 bounded_spsc_deq DeqCalled q \<noteq> None"
  "run_call 4 bounded_spsc_deq_orig DeqCalled q \<noteq> None"
  by (simp_all add: numeral_eq_Suc)

lemma spsc_enq_call_eq:
  "spsc_enq_call v q = (if sp_tail q - sp_head q = sp_size q then (QUEUE_BOUNDED_FULL, q)
     else (QUEUE_BOUNDED_OK, q\<lparr>sp_buf := (sp_buf q)[slot (sp_size q) (sp_tail q) := v], sp_tail := sp_tail q + 1\<rparr>))"
  by (simp add: spsc_enq_call_def numeral_eq_Suc vatomic_simps)

lemma spsc_deq_call_eq:
  "spsc_deq_call q = (if sp_tail q - sp_head q = 0 then ((QUEUE_BOUNDED_EMPTY, None), q)
     else ((QUEUE_BOUNDED_OK, Some (sp_buf q ! slot (sp_size q) (sp_head q))), q\<lparr>sp_head := sp_head q + 1\<rparr>))"
  "spsc_deq_orig_call q = spsc_deq_call q"
  by (simp_all add: spsc_deq_call_def spsc_deq_orig_call_def numeral_eq_Suc vatomic_simps)

definition spsc_contents :: "'v bounded_spsc_t \<Rightarrow> 'v list" where
  "spsc_contents q = ring (sp_size q) (sp_buf q) (sp_head q) (unat (sp_tail q - sp_head q))"

definition spsc_wf :: "u32 \<Rightarrow> 'v bounded_spsc_t \<Rightarrow> bool" where
  "spsc_wf n q \<longleftrightarrow> sp_size q = n \<and> length (sp_buf q) = unat n \<and> sp_tail q - sp_head q \<le> n \<and>
     n \<noteq> 0 \<and> unat n dvd 2 ^ 32"

text \<open>Counting one more, or one less, element.\<close>

lemma count_Suc:
  assumes "t - h \<le> (n :: u32)" and "t - h \<noteq> n"
  shows "unat (t + 1 - h) = Suc (unat (t - h))" and "t + 1 - h \<le> n"
proof -
  have lt: "unat (t - h) < unat n" using assms by (simp add: word_le_nat_alt word_unat_eq_iff)
  have "t + 1 - h = t - h + of_nat 1" by simp
  then have "unat (t + 1 - h) = (unat (t - h) + 1) mod 2 ^ 32" by (simp only: unat_add_of_nat) simp
  also have "\<dots> = Suc (unat (t - h))" using lt u32_lt [of n] by simp
  finally show "unat (t + 1 - h) = Suc (unat (t - h))" .
  with lt show "t + 1 - h \<le> n" by (simp add: word_le_nat_alt)
qed

lemma count_pred:
  assumes "t - h \<noteq> (0 :: u32)"
  shows "unat (t - h) = Suc (unat (t - (h + 1)))"
proof -
  have eq: "t - (h + 1) = t - h - 1" by simp
  have "unat (t - (h + 1)) = unat (t - h) - 1"
    unfolding eq by (rule unat_minus_one [OF assms])
  moreover have "unat (t - h) \<noteq> 0" using assms by (simp add: unat_eq_0)
  ultimately show ?thesis by simp
qed

interpretation spsc_alone: bounded_queue "spsc_wf n" spsc_contents "unat n" spsc_enq_call spsc_deq_call for n
proof (unfold_locales, goal_cases)
  case (1 q v)
  then show ?case by (auto simp: spsc_wf_def spsc_contents_def spsc_enq_call_eq word_unat_eq_iff)
next
  case (2 q v)
  then have ne: "sp_tail q - sp_head q \<le> n" "sp_tail q - sp_head q \<noteq> n" "sp_size q = n"
    by (auto simp: spsc_wf_def spsc_contents_def word_unat_eq_iff)
  then have lt: "unat (sp_tail q - sp_head q) < unat n" by (simp add: word_le_nat_alt word_unat_eq_iff)
  have "sp_tail q = sp_head q + of_nat (unat (sp_tail q - sp_head q))" by simp
  with 2(1) ring_snoc [of n "sp_buf q" "unat (sp_tail q - sp_head q)" "sp_head q" v] lt ne count_Suc [OF ne(1,2)]
  show ?case by (simp add: spsc_enq_call_eq spsc_wf_def spsc_contents_def)
next
  case (3 q)
  then show ?case by (auto simp: spsc_contents_def spsc_deq_call_eq ring_def unat_eq_0)
next
  case (4 q v vs)
  then have ne: "sp_tail q - sp_head q \<noteq> 0" by (auto simp: spsc_contents_def ring_def)
  have "spsc_contents q = sp_buf q ! slot (sp_size q) (sp_head q) #
      ring (sp_size q) (sp_buf q) (sp_head q + 1) (unat (sp_tail q - (sp_head q + 1)))"
    unfolding spsc_contents_def count_pred [OF ne] by (rule ring_Suc)
  moreover have "sp_tail q - (sp_head q + 1) \<le> sp_tail q - sp_head q"
    using count_pred [OF ne] by (simp add: word_le_nat_alt)
  ultimately show ?case using 4 ne by (auto simp: spsc_deq_call_eq spsc_wf_def spsc_contents_def)
qed

text \<open>
  Called without concurrency, \<open>bounded_spsc_enq\<close> with the dequeue of \<^verbatim>\<open>bounded_spsc.h\<close> (its two
  last accesses swapped) or of \<^verbatim>\<open>.orig\<close> refines a list of at most \<open>size\<close> values: every sequence of calls returns
  what the list returns, also where the counters wrap around.
\<close>

theorem spsc_sequential_refines:
  assumes "n \<noteq> 0" and "unat n dvd 2 ^ 32" and "length b = unat n"
  shows "fst (run_qops (queue_op spsc_enq_call spsc_deq_call) cs (bounded_spsc_init b n)) =
      fst (run_qops (list_qop (unat n)) cs []) \<and>
    fst (run_qops (queue_op spsc_enq_call spsc_deq_orig_call) cs (bounded_spsc_init b n)) =
      fst (run_qops (list_qop (unat n)) cs [])"
proof -
  have "spsc_wf n (bounded_spsc_init b n)" and "spsc_contents (bounded_spsc_init b n) = []"
    using assms by (simp_all add: spsc_wf_def spsc_contents_def ring_def bounded_spsc_init_def vatomic_simps)
  moreover have "spsc_deq_orig_call = (spsc_deq_call :: 'a bounded_spsc_t \<Rightarrow> _)"
    by (simp add: fun_eq_iff spsc_deq_call_eq(2))
  ultimately show ?thesis using spsc_alone.run_refines [of n "bounded_spsc_init b n" cs] by simp
qed

theorem spsc_sequential_refines_witness:
  "fst (run_qops (queue_op spsc_enq_call spsc_deq_call) [Put 5, Put 6, Put 7, Get, Get, Get] (bounded_spsc_init [0, 0 :: int] 2)) =
    [(QUEUE_BOUNDED_OK, None), (QUEUE_BOUNDED_OK, None), (QUEUE_BOUNDED_FULL, None),
     (QUEUE_BOUNDED_OK, Some 5), (QUEUE_BOUNDED_OK, Some 6), (QUEUE_BOUNDED_EMPTY, None)]"
  using spsc_sequential_refines [of 2 "[0, 0 :: int]" "[Put 5, Put 6, Put 7, Get, Get, Get]"] by simp

end
