(* ===== verification/Bounded_Mpmc.thy ===== *)
theory Bounded_Mpmc
  imports Bounded_Spsc
begin

text \<open>
  The multi-producer multi-consumer queue, \<^verbatim>\<open>queue/bounded_mpmc.h\<close> with the injected bug in
  \<open>bounded_mpmc_enq\<close> and \<^verbatim>\<open>queue/bounded_mpmc.h.orig\<close> without it. Producers claim a slot by moving
  \<open>phead\<close>, store their value, and publish it in order by moving \<open>ptail\<close>; consumers do the same with
  \<open>chead\<close> and \<open>ctail\<close>. A step is one access to a counter or a slot; \<open>None\<close> is an await loop that has
  to go on waiting.
\<close>

section \<open>Operations\<close>

record 'v bounded_mpmc_t =
  mp_phead :: u32
  mp_ptail :: u32
  mp_chead :: u32
  mp_ctail :: u32
  mp_buf :: "'v list"
  mp_size :: u32

definition bounded_mpmc_init :: "'v list \<Rightarrow> u32 \<Rightarrow> 'v bounded_mpmc_t" where
  "bounded_mpmc_init b s = \<lparr>mp_phead = vatomic32_init 0 0, mp_ptail = vatomic32_init 0 0,
     mp_chead = vatomic32_init 0 0, mp_ctail = vatomic32_init 0 0, mp_buf = b, mp_size = s\<rparr>"

datatype 'v mpmc_pc =
    MpIdle
  | MeCalled 'v | MePhead 'v u32 | MeRoom 'v u32 | MeClaimed 'v u32 | MeStored 'v u32 | MeTurn 'v u32
  | MdCalled | MdChead u32 | MdSome u32 | MdClaimed u32 | MdRead u32 'v | MdTurn u32 'v

datatype 'v mpmc_ret = EnqRet bounded_ret_t 'v | DeqRet bounded_ret_t "'v option"

type_synonym 'v mpmc_out = "(('v mpmc_pc + 'v mpmc_ret) \<times> 'v bounded_mpmc_t) option"

fun bounded_mpmc_enq_orig :: "'v mpmc_pc \<Rightarrow> 'v bounded_mpmc_t \<Rightarrow> 'v mpmc_out" where
  "bounded_mpmc_enq_orig (MeCalled v) q = Some (Inl (MePhead v (vatomic32_read (mp_phead q))), q)"
| "bounded_mpmc_enq_orig (MePhead v cur) q =
     Some (if cur - vatomic32_read (mp_ctail q) = mp_size q then Inr (EnqRet QUEUE_BOUNDED_FULL v)
           else Inl (MeRoom v cur), q)"
| "bounded_mpmc_enq_orig (MeRoom v cur) q =
     (let (old, a) = vatomic32_cmpxchg (mp_phead q) cur (cur + 1)
      in Some (if old \<noteq> cur then Inr (EnqRet QUEUE_BOUNDED_AGAIN v) else Inl (MeClaimed v cur), q\<lparr>mp_phead := a\<rparr>))"
| "bounded_mpmc_enq_orig (MeClaimed v cur) q =
     Some (Inl (MeStored v cur), q\<lparr>mp_buf := (mp_buf q)[slot (mp_size q) cur := v]\<rparr>)"
| "bounded_mpmc_enq_orig (MeStored v cur) q =
     (if vatomic32_read (mp_ptail q) = cur then Some (Inl (MeTurn v cur), q) else None)"
| "bounded_mpmc_enq_orig (MeTurn v cur) q =
     Some (Inr (EnqRet QUEUE_BOUNDED_OK v), q\<lparr>mp_ptail := vatomic32_write (mp_ptail q) (cur + 1)\<rparr>)"
| "bounded_mpmc_enq_orig _ q = None"

text \<open>The version with the bug does not wait for its turn.\<close>

fun bounded_mpmc_enq :: "'v mpmc_pc \<Rightarrow> 'v bounded_mpmc_t \<Rightarrow> 'v mpmc_out" where
  "bounded_mpmc_enq (MeStored v cur) q =
     Some (Inr (EnqRet QUEUE_BOUNDED_OK v), q\<lparr>mp_ptail := vatomic32_write (mp_ptail q) (cur + 1)\<rparr>)"
| "bounded_mpmc_enq (MeCalled v) q = Some (Inl (MePhead v (vatomic32_read (mp_phead q))), q)"
| "bounded_mpmc_enq (MePhead v cur) q =
     Some (if cur - vatomic32_read (mp_ctail q) = mp_size q then Inr (EnqRet QUEUE_BOUNDED_FULL v)
           else Inl (MeRoom v cur), q)"
| "bounded_mpmc_enq (MeRoom v cur) q =
     (let (old, a) = vatomic32_cmpxchg (mp_phead q) cur (cur + 1)
      in Some (if old \<noteq> cur then Inr (EnqRet QUEUE_BOUNDED_AGAIN v) else Inl (MeClaimed v cur), q\<lparr>mp_phead := a\<rparr>))"
| "bounded_mpmc_enq (MeClaimed v cur) q =
     Some (Inl (MeStored v cur), q\<lparr>mp_buf := (mp_buf q)[slot (mp_size q) cur := v]\<rparr>)"
| "bounded_mpmc_enq _ q = None"

fun bounded_mpmc_deq :: "'v mpmc_pc \<Rightarrow> 'v bounded_mpmc_t \<Rightarrow> 'v mpmc_out" where
  "bounded_mpmc_deq MdCalled q = Some (Inl (MdChead (vatomic32_read (mp_chead q))), q)"
| "bounded_mpmc_deq (MdChead cur) q =
     Some (if cur = vatomic32_read (mp_ptail q) then Inr (DeqRet QUEUE_BOUNDED_EMPTY None)
           else Inl (MdSome cur), q)"
| "bounded_mpmc_deq (MdSome cur) q =
     (let (old, a) = vatomic32_cmpxchg (mp_chead q) cur (cur + 1)
      in Some (if old \<noteq> cur then Inr (DeqRet QUEUE_BOUNDED_AGAIN None) else Inl (MdClaimed cur), q\<lparr>mp_chead := a\<rparr>))"
| "bounded_mpmc_deq (MdClaimed cur) q = Some (Inl (MdRead cur (mp_buf q ! slot (mp_size q) cur)), q)"
| "bounded_mpmc_deq (MdRead cur v) q =
     (if vatomic32_read (mp_ctail q) = cur then Some (Inl (MdTurn cur v), q) else None)"
| "bounded_mpmc_deq (MdTurn cur v) q =
     Some (Inr (DeqRet QUEUE_BOUNDED_OK (Some v)), q\<lparr>mp_ctail := vatomic32_write (mp_ctail q) (cur + 1)\<rparr>)"
| "bounded_mpmc_deq _ q = None"

section \<open>Threads that use one queue\<close>

record 'v mpmc_sys =
  mpmc :: "'v bounded_mpmc_t"
  mp_pcs :: "tid \<Rightarrow> 'v mpmc_pc"
  mp_enqd :: "'v list"
  mp_deqd :: "'v list"

datatype 'v mpmc_cmd = MpEnq 'v | MpDeq | MpRun

definition mpmc_start :: "'v list \<Rightarrow> u32 \<Rightarrow> 'v mpmc_sys" where
  "mpmc_start b n = \<lparr>mpmc = bounded_mpmc_init b n, mp_pcs = (\<lambda>_. MpIdle), mp_enqd = [], mp_deqd = []\<rparr>"

text \<open>The clients note the values of the calls that return \<open>QUEUE_BOUNDED_OK\<close>, in the order of the returns.\<close>

fun mpmc_return :: "'v mpmc_ret \<Rightarrow> 'v mpmc_sys \<Rightarrow> 'v mpmc_sys" where
  "mpmc_return (EnqRet r v) s = (if r = QUEUE_BOUNDED_OK then s\<lparr>mp_enqd := mp_enqd s @ [v]\<rparr> else s)"
| "mpmc_return (DeqRet r (Some v)) s = s\<lparr>mp_deqd := mp_deqd s @ [v]\<rparr>"
| "mpmc_return (DeqRet r None) s = s"

fun mpmc_after :: "tid \<Rightarrow> ('v mpmc_pc + 'v mpmc_ret) \<times> 'v bounded_mpmc_t \<Rightarrow> 'v mpmc_sys \<Rightarrow> 'v mpmc_sys" where
  "mpmc_after t (Inl pc, q) s = s\<lparr>mpmc := q, mp_pcs := (mp_pcs s)(t := pc)\<rparr>"
| "mpmc_after t (Inr r, q) s = mpmc_return r (s\<lparr>mpmc := q, mp_pcs := (mp_pcs s)(t := MpIdle)\<rparr>)"

fun is_deq_pc :: "'v mpmc_pc \<Rightarrow> bool" where
  "is_deq_pc MdCalled = True" | "is_deq_pc (MdChead _) = True" | "is_deq_pc (MdSome _) = True"
| "is_deq_pc (MdClaimed _) = True" | "is_deq_pc (MdRead _ _) = True" | "is_deq_pc (MdTurn _ _) = True"
| "is_deq_pc _ = False"

fun mpmc_step :: "('v mpmc_pc \<Rightarrow> 'v bounded_mpmc_t \<Rightarrow> 'v mpmc_out) \<Rightarrow> tid \<times> 'v mpmc_cmd \<Rightarrow>
    'v mpmc_sys \<Rightarrow> 'v mpmc_sys option" where
  "mpmc_step enq (t, MpEnq v) s =
     (if mp_pcs s t = MpIdle then map_option (\<lambda>r. mpmc_after t r s) (enq (MeCalled v) (mpmc s)) else None)"
| "mpmc_step enq (t, MpDeq) s =
     (if mp_pcs s t = MpIdle then map_option (\<lambda>r. mpmc_after t r s) (bounded_mpmc_deq MdCalled (mpmc s)) else None)"
| "mpmc_step enq (t, MpRun) s =
     map_option (\<lambda>r. mpmc_after t r s)
       ((if is_deq_pc (mp_pcs s t) then bounded_mpmc_deq else enq) (mp_pcs s t) (mpmc s))"

section \<open>The injected bug\<close>

text \<open>
  Without the wait for its turn, a producer that claimed the second slot publishes both slots
  before the first producer has stored its value: a consumer dequeues the initial garbage of the
  first slot, which nobody enqueued.
\<close>

theorem mpmc_bug_reads_garbage:
  "\<exists>s. reach (mpmc_step bounded_mpmc_enq) (mpmc_start [0, 0] 2) s \<and> mp_deqd s = [0] \<and> mp_enqd s = [6 :: int]"
proof -
  have "\<exists>s. exec (mpmc_step bounded_mpmc_enq)
     [(0, MpEnq 5), (0, MpRun), (0, MpRun), (1, MpEnq 6), (1, MpRun), (1, MpRun), (1, MpRun), (1, MpRun),
      (2, MpDeq), (2, MpRun), (2, MpRun), (2, MpRun), (2, MpRun), (2, MpRun)]
     (mpmc_start [0, 0] 2) = Some s \<and> mp_deqd s = [0] \<and> mp_enqd s = [6 :: int]"
    by (simp add: mpmc_start_def bounded_mpmc_init_def vatomic_simps slot_def)
  then show ?thesis by (blast intro: exec_reach)
qed

section \<open>First in, first out\<close>

text \<open>
  What a call in progress knows, as long as no counter has wrapped around: \<open>ph\<close>, \<open>pt\<close>, \<open>ch\<close>, \<open>ct\<close>
  are the counters, \<open>b\<close> is the buffer and \<open>vs\<close> the values published so far.
\<close>

fun mp_knows :: "nat \<Rightarrow> nat \<Rightarrow> nat \<Rightarrow> nat \<Rightarrow> nat \<Rightarrow> 'v list \<Rightarrow> 'v list \<Rightarrow> 'v mpmc_pc \<Rightarrow> bool" where
  "mp_knows n ph pt ch ct b vs (MePhead v c) = (unat c \<le> ph)"
| "mp_knows n ph pt ch ct b vs (MeRoom v c) = (unat c \<le> ph \<and> (unat c = ph \<longrightarrow> ph < ct + n))"
| "mp_knows n ph pt ch ct b vs (MeClaimed v c) = (pt \<le> unat c \<and> unat c < ph)"
| "mp_knows n ph pt ch ct b vs (MeStored v c) = (pt \<le> unat c \<and> unat c < ph \<and> b ! (unat c mod n) = v)"
| "mp_knows n ph pt ch ct b vs (MeTurn v c) = (pt = unat c \<and> unat c < ph \<and> b ! (unat c mod n) = v)"
| "mp_knows n ph pt ch ct b vs (MdChead c) = (unat c \<le> ch)"
| "mp_knows n ph pt ch ct b vs (MdSome c) = (unat c \<le> ch \<and> (unat c = ch \<longrightarrow> ch < pt))"
| "mp_knows n ph pt ch ct b vs (MdClaimed c) = (ct \<le> unat c \<and> unat c < ch)"
| "mp_knows n ph pt ch ct b vs (MdRead c v) = (ct \<le> unat c \<and> unat c < ch \<and> v = vs ! unat c)"
| "mp_knows n ph pt ch ct b vs (MdTurn c v) = (ct = unat c \<and> unat c < ch \<and> v = vs ! unat c)"
| "mp_knows n ph pt ch ct b vs _ = True"

text \<open>The slot a producer (or consumer) has claimed.\<close>

fun pclaim :: "'v mpmc_pc \<Rightarrow> u32 option" where
  "pclaim (MeClaimed v c) = Some c" | "pclaim (MeStored v c) = Some c" | "pclaim (MeTurn v c) = Some c"
| "pclaim _ = None"

fun cclaim :: "'v mpmc_pc \<Rightarrow> u32 option" where
  "cclaim (MdClaimed c) = Some c" | "cclaim (MdRead c v) = Some c" | "cclaim (MdTurn c v) = Some c"
| "cclaim _ = None"

definition apart :: "(tid \<Rightarrow> u32 option) \<Rightarrow> bool" where
  "apart f \<longleftrightarrow> (\<forall>t u c. f t = Some c \<longrightarrow> f u = Some c \<longrightarrow> t = u)"

lemma apart_upd:
  assumes "apart f" and "\<And>u c. x = Some c \<Longrightarrow> u \<noteq> t \<Longrightarrow> f u \<noteq> Some c"
  shows "apart (f(t := x))"
  using assms unfolding apart_def by (metis fun_upd_apply)

definition mp_counters :: "u32 \<Rightarrow> nat \<Rightarrow> 'v mpmc_sys \<Rightarrow> bool" where
  "mp_counters n m s \<longleftrightarrow>
     mp_size (mpmc s) = n \<and> length (mp_buf (mpmc s)) = unat n \<and>
     unat (mp_ptail (mpmc s)) = length (mp_enqd s) \<and> unat (mp_ctail (mpmc s)) = length (mp_deqd s) \<and>
     unat (mp_ctail (mpmc s)) \<le> unat (mp_chead (mpmc s)) \<and>
     unat (mp_chead (mpmc s)) \<le> unat (mp_ptail (mpmc s)) \<and>
     unat (mp_ptail (mpmc s)) \<le> unat (mp_phead (mpmc s)) \<and>
     unat (mp_phead (mpmc s)) \<le> unat (mp_ctail (mpmc s)) + unat n \<and>
     unat (mp_phead (mpmc s)) \<le> m"

definition mp_values :: "u32 \<Rightarrow> 'v mpmc_sys \<Rightarrow> bool" where
  "mp_values n s \<longleftrightarrow> prefix (mp_deqd s) (mp_enqd s) \<and>
     (\<forall>i. length (mp_deqd s) \<le> i \<and> i < length (mp_enqd s) \<longrightarrow> mp_buf (mpmc s) ! (i mod unat n) = mp_enqd s ! i)"

definition mp_pc_ok :: "u32 \<Rightarrow> 'v mpmc_sys \<Rightarrow> 'v mpmc_pc \<Rightarrow> bool" where
  "mp_pc_ok n s pc = mp_knows (unat n) (unat (mp_phead (mpmc s))) (unat (mp_ptail (mpmc s)))
     (unat (mp_chead (mpmc s))) (unat (mp_ctail (mpmc s))) (mp_buf (mpmc s)) (mp_enqd s) pc"

definition mp_inv :: "u32 \<Rightarrow> nat \<Rightarrow> 'v mpmc_sys \<Rightarrow> bool" where
  "mp_inv n m s \<longleftrightarrow> mp_counters n m s \<and> mp_values n s \<and> (\<forall>t. mp_pc_ok n s (mp_pcs s t)) \<and>
     apart (pclaim \<circ> mp_pcs s) \<and> apart (cclaim \<circ> mp_pcs s)"

lemma mp_invD:
  assumes "mp_inv n m s"
  shows "mp_counters n m s" "mp_values n s" "mp_pc_ok n s (mp_pcs s t)"
    "pclaim (mp_pcs s t) = Some c \<Longrightarrow> pclaim (mp_pcs s u) = Some c \<Longrightarrow> t = u"
    "cclaim (mp_pcs s t) = Some c \<Longrightarrow> cclaim (mp_pcs s u) = Some c \<Longrightarrow> t = u"
  using assms unfolding mp_inv_def apart_def by auto

text \<open>
  One thread moves to \<open>pc\<close> while the queue changes: it suffices that the counters and values stay
  right, that every other thread still knows what it knew, and that a new claim is new.
\<close>

lemma mp_inv_move:
  assumes inv: "mp_inv n m s" and pcs: "mp_pcs s' = (mp_pcs s)(t := pc)"
    and "mp_counters n m' s'" and "mp_values n s'" and "mp_pc_ok n s' pc"
    and others: "\<And>u. u \<noteq> t \<Longrightarrow> mp_pc_ok n s' (mp_pcs s u)"
    and "\<And>u c. pclaim pc = Some c \<Longrightarrow> u \<noteq> t \<Longrightarrow> pclaim (mp_pcs s u) \<noteq> Some c"
    and "\<And>u c. cclaim pc = Some c \<Longrightarrow> u \<noteq> t \<Longrightarrow> cclaim (mp_pcs s u) \<noteq> Some c"
  shows "mp_inv n m' s'"
proof -
  have "pclaim \<circ> mp_pcs s' = (pclaim \<circ> mp_pcs s)(t := pclaim pc)"
    and "cclaim \<circ> mp_pcs s' = (cclaim \<circ> mp_pcs s)(t := cclaim pc)"
    using pcs by (auto simp: fun_eq_iff)
  moreover have "apart (pclaim \<circ> mp_pcs s)" "apart (cclaim \<circ> mp_pcs s)"
    using inv unfolding mp_inv_def by blast+
  ultimately have "apart (pclaim \<circ> mp_pcs s')" "apart (cclaim \<circ> mp_pcs s')"
    using assms(7,8) by (simp_all add: apart_upd)
  with assms pcs show ?thesis unfolding mp_inv_def by simp
qed

text \<open>The queue stays as it is and the thread keeps or gives up its claim.\<close>

lemma mp_inv_local:
  assumes inv: "mp_inv n m s" and "mp_pc_ok n s pc" and "m \<le> m'"
    and "pclaim pc \<noteq> None \<Longrightarrow> pclaim pc = pclaim (mp_pcs s t)"
    and "cclaim pc \<noteq> None \<Longrightarrow> cclaim pc = cclaim (mp_pcs s t)"
  shows "mp_inv n m' (s\<lparr>mp_pcs := (mp_pcs s)(t := pc)\<rparr>)"
proof (rule mp_inv_move [OF inv, of _ t pc], goal_cases)
  case 2
  show ?case using mp_invD(1) [OF inv] assms(3) by (simp add: mp_counters_def)
next
  case 3
  show ?case using mp_invD(2) [OF inv] by (simp add: mp_values_def)
next
  case 4
  show ?case using assms(2) by (simp add: mp_pc_ok_def)
next
  case (5 u)
  show ?case using mp_invD(3) [OF inv, of u] by (simp add: mp_pc_ok_def)
next
  case (6 u c)
  then show ?case using assms(4) mp_invD(4) [OF inv, of t c u] by auto
next
  case (7 u c)
  then show ?case using assms(5) mp_invD(5) [OF inv, of t c u] by auto
qed simp

lemma mp_knows_phead: "mp_knows n ph pt ch ct b vs pc \<Longrightarrow> mp_knows n (Suc ph) pt ch ct b vs pc"
  by (cases pc) auto

lemma mp_knows_chead: "mp_knows n ph pt ch ct b vs pc \<Longrightarrow> mp_knows n ph pt (Suc ch) ct b vs pc"
  by (cases pc) auto

lemma mp_knows_ptail:
  assumes "mp_knows n ph pt ch ct b vs pc" and "\<And>c. pclaim pc = Some c \<Longrightarrow> unat c \<noteq> pt" and "ch \<le> length vs"
  shows "mp_knows n ph (Suc pt) ch ct b (vs @ [v]) pc"
  using assms by (cases pc) (auto simp: nth_append)

lemma mp_knows_ctail:
  assumes "mp_knows n ph pt ch ct b vs pc" and "\<And>c. cclaim pc = Some c \<Longrightarrow> unat c \<noteq> ct"
  shows "mp_knows n ph pt ch (Suc ct) b vs pc"
  using assms by (cases pc) auto

lemma mp_knows_buf:
  assumes "mp_knows n ph pt ch ct b vs pc" and "\<And>c. pclaim pc = Some c \<Longrightarrow> unat c mod n \<noteq> i"
  shows "mp_knows n ph pt ch ct (b[i := v]) vs pc"
  using assms by (cases pc) auto

lemma unat_Suc: "Suc (unat (c :: u32)) < 2 ^ 32 \<Longrightarrow> unat (c + 1) = Suc (unat c)"
  using unat_add_of_nat [of c 1] by simp

lemma mp_counterD:
  assumes "mp_inv n m s"
  shows "mp_size (mpmc s) = n" "length (mp_buf (mpmc s)) = unat n"
    "unat (mp_ptail (mpmc s)) = length (mp_enqd s)" "unat (mp_ctail (mpmc s)) = length (mp_deqd s)"
    "unat (mp_ctail (mpmc s)) \<le> unat (mp_chead (mpmc s))" "unat (mp_chead (mpmc s)) \<le> unat (mp_ptail (mpmc s))"
    "unat (mp_ptail (mpmc s)) \<le> unat (mp_phead (mpmc s))"
    "unat (mp_phead (mpmc s)) \<le> unat (mp_ctail (mpmc s)) + unat n" "unat (mp_phead (mpmc s)) \<le> m"
  using mp_invD(1) [OF assms] unfolding mp_counters_def by blast+

text \<open>A claim lies between the tail and the head.\<close>

lemma mp_claim_range:
  assumes "mp_inv n m s"
  shows "pclaim (mp_pcs s u) = Some c \<Longrightarrow> unat (mp_ptail (mpmc s)) \<le> unat c \<and> unat c < unat (mp_phead (mpmc s))"
    and "cclaim (mp_pcs s u) = Some c \<Longrightarrow> unat (mp_ctail (mpmc s)) \<le> unat c \<and> unat c < unat (mp_chead (mpmc s))"
  using mp_invD(3) [OF assms, of u] unfolding mp_pc_ok_def by (cases "mp_pcs s u"; auto)+

text \<open>A producer claims the next slot.\<close>

lemma mp_inv_claim_enq:
  assumes inv: "mp_inv n m s" and pc: "mp_pcs s t = MeRoom v c" and c: "mp_phead (mpmc s) = c" and m: "Suc m < 2 ^ 32"
  shows "mp_inv n (Suc m) (s\<lparr>mpmc := (mpmc s)\<lparr>mp_phead := c + 1\<rparr>, mp_pcs := (mp_pcs s)(t := MeClaimed v c)\<rparr>)"
proof -
  note cs = mp_counterD [OF inv]
  have ph: "unat (c + 1) = Suc (unat c)" using cs(9) m c by (intro unat_Suc) simp
  have room: "unat c < unat (mp_ctail (mpmc s)) + unat n"
    using mp_invD(3) [OF inv, of t] pc c by (simp add: mp_pc_ok_def)
  show ?thesis
  proof (rule mp_inv_move [OF inv, of _ t "MeClaimed v c"], goal_cases)
    case 2
    show ?case using cs c ph room by (simp add: mp_counters_def)
  next
    case 3
    show ?case using mp_invD(2) [OF inv] by (simp add: mp_values_def)
  next
    case 4
    show ?case using cs(7) c ph by (simp add: mp_pc_ok_def)
  next
    case (5 u)
    show ?case using mp_knows_phead [OF mp_invD(3) [OF inv, of u, unfolded mp_pc_ok_def]] c ph by (simp add: mp_pc_ok_def)
  next
    case (6 u c')
    then show ?case using mp_claim_range(1) [OF inv, of u c'] c by auto
  qed simp_all
qed

text \<open>A consumer claims the next published value.\<close>

lemma mp_inv_claim_deq:
  assumes inv: "mp_inv n m s" and pc: "mp_pcs s t = MdSome c" and c: "mp_chead (mpmc s) = c" and m: "Suc m < 2 ^ 32"
  shows "mp_inv n (Suc m) (s\<lparr>mpmc := (mpmc s)\<lparr>mp_chead := c + 1\<rparr>, mp_pcs := (mp_pcs s)(t := MdClaimed c)\<rparr>)"
proof -
  note cs = mp_counterD [OF inv]
  have some: "unat c < unat (mp_ptail (mpmc s))"
    using mp_invD(3) [OF inv, of t] pc c by (simp add: mp_pc_ok_def)
  have ch: "unat (c + 1) = Suc (unat c)" using cs(7,9) m some by (intro unat_Suc) simp
  show ?thesis
  proof (rule mp_inv_move [OF inv, of _ t "MdClaimed c"], goal_cases)
    case 2
    show ?case using cs c ch some by (simp add: mp_counters_def)
  next
    case 3
    show ?case using mp_invD(2) [OF inv] by (simp add: mp_values_def)
  next
    case 4
    show ?case using cs(5) c ch by (simp add: mp_pc_ok_def)
  next
    case (5 u)
    show ?case using mp_knows_chead [OF mp_invD(3) [OF inv, of u, unfolded mp_pc_ok_def]] c ch by (simp add: mp_pc_ok_def)
  next
    case (7 u c')
    then show ?case using mp_claim_range(2) [OF inv, of u c'] c by auto
  qed simp_all
qed

text \<open>A producer stores its value in the slot it claimed; no other slot in use is touched.\<close>

lemma mp_inv_store:
  assumes inv: "mp_inv n m s" and pc: "mp_pcs s t = MeClaimed v c" and "m \<le> m'"
  shows "mp_inv n m' (s\<lparr>mpmc := (mpmc s)\<lparr>mp_buf := (mp_buf (mpmc s))[unat c mod unat n := v]\<rparr>,
    mp_pcs := (mp_pcs s)(t := MeStored v c)\<rparr>)"
proof -
  note cs = mp_counterD [OF inv]
  have c: "unat (mp_ptail (mpmc s)) \<le> unat c" "unat c < unat (mp_phead (mpmc s))"
    using mp_claim_range(1) [OF inv, of t c] pc by simp_all
  have n: "unat c mod unat n < unat n" using c cs(8) cs(5-7) by (intro mod_less_divisor) linarith
  have other: "i mod unat n \<noteq> unat c mod unat n" if "unat (mp_ctail (mpmc s)) \<le> i" "i < unat (mp_phead (mpmc s))" "i \<noteq> unat c" for i
  proof (cases "i \<le> unat c")
    case True
    then show ?thesis using window_mod_inj [of i "unat n" "unat c"] that c cs(8) by auto
  next
    case False
    moreover have "i < unat c + unat n" using that c cs(5-8) by linarith
    ultimately show ?thesis using window_mod_inj [of "unat c" "unat n" i] that(3) by auto
  qed
  show ?thesis
  proof (rule mp_inv_move [OF inv, of _ t "MeStored v c"], goal_cases)
    case 2
    show ?case using cs assms(3) by (simp add: mp_counters_def)
  next
    case 3
    have "(mp_buf (mpmc s))[unat c mod unat n := v] ! (i mod unat n) = mp_enqd s ! i"
      if "length (mp_deqd s) \<le> i" "i < length (mp_enqd s)" for i
      using other [of i] that mp_invD(2) [OF inv] cs(3,4,7) c(1) by (auto simp: mp_values_def)
    then show ?case using mp_invD(2) [OF inv] by (simp add: mp_values_def)
  next
    case 4
    show ?case using c n cs(2) by (simp add: mp_pc_ok_def)
  next
    case (5 u)
    have "unat c' mod unat n \<noteq> unat c mod unat n" if "pclaim (mp_pcs s u) = Some c'" for c'
    proof (rule other)
      show "unat (mp_ctail (mpmc s)) \<le> unat c'" "unat c' < unat (mp_phead (mpmc s))"
        using mp_claim_range(1) [OF inv that] cs(5,6) by auto
      show "unat c' \<noteq> unat c"
        using mp_invD(4) [OF inv, of t c u] that pc 5 by (auto simp: word_unat_eq_iff)
    qed
    then show ?case
      using mp_knows_buf [OF mp_invD(3) [OF inv, of u, unfolded mp_pc_ok_def]] by (simp add: mp_pc_ok_def)
  next
    case (6 u c')
    then show ?case using mp_invD(4) [OF inv, of t c u] pc by auto
  qed simp_all
qed

text \<open>A producer publishes its value when its turn has come.\<close>

lemma mp_inv_publish:
  assumes inv: "mp_inv n m s" and pc: "mp_pcs s t = MeTurn v c" and "m \<le> m'" and m: "m < 2 ^ 32"
  shows "mp_inv n m' (s\<lparr>mpmc := (mpmc s)\<lparr>mp_ptail := c + 1\<rparr>, mp_pcs := (mp_pcs s)(t := MpIdle),
    mp_enqd := mp_enqd s @ [v]\<rparr>)"
proof -
  note cs = mp_counterD [OF inv]
  have c: "unat (mp_ptail (mpmc s)) = unat c" "unat c < unat (mp_phead (mpmc s))"
    "mp_buf (mpmc s) ! (unat c mod unat n) = v"
    using mp_invD(3) [OF inv, of t] pc by (simp_all add: mp_pc_ok_def)
  have pt: "unat (c + 1) = Suc (unat c)" using c(2) cs(9) m by (intro unat_Suc) simp
  show ?thesis
  proof (rule mp_inv_move [OF inv, of _ t MpIdle], goal_cases)
    case 2
    show ?case using cs c pt assms(3) by (simp add: mp_counters_def)
  next
    case 3
    show ?case using mp_invD(2) [OF inv] c cs(3) by (auto simp: mp_values_def nth_append less_Suc_eq)
  next
    case (5 u)
    have "unat c' \<noteq> unat (mp_ptail (mpmc s))" if "pclaim (mp_pcs s u) = Some c'" for c'
      using mp_invD(4) [OF inv, of t c u] that pc 5 c(1) by (auto simp: word_unat_eq_iff)
    with mp_knows_ptail [OF mp_invD(3) [OF inv, of u, unfolded mp_pc_ok_def], of v] cs(3,6) c(1) pt
    show ?case by (simp add: mp_pc_ok_def)
  qed (simp_all add: mp_pc_ok_def)
qed

text \<open>A consumer gives its slot back when its turn has come.\<close>

lemma mp_inv_consume:
  assumes inv: "mp_inv n m s" and pc: "mp_pcs s t = MdTurn c v" and "m \<le> m'" and m: "m < 2 ^ 32"
  shows "mp_inv n m' (s\<lparr>mpmc := (mpmc s)\<lparr>mp_ctail := c + 1\<rparr>, mp_pcs := (mp_pcs s)(t := MpIdle),
    mp_deqd := mp_deqd s @ [v]\<rparr>)"
proof -
  note cs = mp_counterD [OF inv]
  have c: "unat (mp_ctail (mpmc s)) = unat c" "unat c < unat (mp_chead (mpmc s))" "v = mp_enqd s ! unat c"
    using mp_invD(3) [OF inv, of t] pc by (simp_all add: mp_pc_ok_def)
  have ct: "unat (c + 1) = Suc (unat c)" using c(2) cs(6,7,9) m by (intro unat_Suc) simp
  show ?thesis
  proof (rule mp_inv_move [OF inv, of _ t MpIdle], goal_cases)
    case 2
    show ?case using cs c ct assms(3) by (simp add: mp_counters_def)
  next
    case 3
    have "prefix (mp_deqd s @ [v]) (mp_enqd s)"
      using prefix_extend [of "mp_deqd s" "mp_enqd s"] mp_invD(2) [OF inv] c cs(3,4,6) by (auto simp: mp_values_def)
    then show ?case using mp_invD(2) [OF inv] by (simp add: mp_values_def)
  next
    case (5 u)
    have "unat c' \<noteq> unat (mp_ctail (mpmc s))" if "cclaim (mp_pcs s u) = Some c'" for c'
      using mp_invD(5) [OF inv, of t c u] that pc 5 c(1) by (auto simp: word_unat_eq_iff)
    with mp_knows_ctail [OF mp_invD(3) [OF inv, of u, unfolded mp_pc_ok_def]] c(1) ct
    show ?case by (simp add: mp_pc_ok_def)
  qed (simp_all add: mp_pc_ok_def)
qed

lemma mp_room:
  assumes inv: "mp_inv n m s" and "unat c \<le> unat (mp_phead (mpmc s))"
    and "c - mp_ctail (mpmc s) \<noteq> n" and "unat c = unat (mp_phead (mpmc s))"
  shows "unat c < unat (mp_ctail (mpmc s)) + unat n"
proof -
  note cs = mp_counterD [OF inv]
  have "mp_ctail (mpmc s) \<le> c" using cs(5-7) assms(4) by (simp add: word_le_nat_alt)
  then have "unat (c - mp_ctail (mpmc s)) = unat c - unat (mp_ctail (mpmc s))" by (rule unat_sub)
  with assms(3) have "unat c - unat (mp_ctail (mpmc s)) \<noteq> unat n" by (auto simp: word_unat_eq_iff)
  with cs(5-8) assms(4) show ?thesis by linarith
qed

lemma mp_inv_enq:
  assumes inv: "mp_inv n m s" and m: "Suc m < 2 ^ 32"
    and pc: "mp_pcs s t = pc \<or> mp_pcs s t = MpIdle \<and> pc = MeCalled v"
    and step: "bounded_mpmc_enq_orig pc (mpmc s) = Some r"
  shows "mp_inv n (Suc m) (mpmc_after t r s)"
proof (cases pc)
  case (MeCalled v)
  with step have "r = (Inl (MePhead v (mp_phead (mpmc s))), mpmc s)" by (simp add: vatomic_simps)
  with mp_inv_local [OF inv, of "MePhead v (mp_phead (mpmc s))" "Suc m" t] show ?thesis by (simp add: mp_pc_ok_def)
next
  case (MePhead v' c)
  have c: "unat c \<le> unat (mp_phead (mpmc s))" using mp_invD(3) [OF inv, of t] pc MePhead by (simp add: mp_pc_ok_def)
  show ?thesis
  proof (cases "c - mp_ctail (mpmc s) = n")
    case True
    with MePhead step mp_counterD(1) [OF inv] have "r = (Inr (EnqRet QUEUE_BOUNDED_FULL v'), mpmc s)"
      by (simp add: vatomic_simps)
    with mp_inv_local [OF inv, of MpIdle "Suc m" t] show ?thesis by (simp add: mp_pc_ok_def)
  next
    case False
    with MePhead step mp_counterD(1) [OF inv] have "r = (Inl (MeRoom v' c), mpmc s)" by (simp add: vatomic_simps)
    with mp_inv_local [OF inv, of "MeRoom v' c" "Suc m" t] mp_room [OF inv c False] c show ?thesis
      by (simp add: mp_pc_ok_def)
  qed
next
  case (MeRoom v' c)
  then have pc': "mp_pcs s t = MeRoom v' c" using pc by auto
  show ?thesis
  proof (cases "mp_phead (mpmc s) = c")
    case True
    with MeRoom step mp_inv_claim_enq [OF inv pc' True m] show ?thesis by (auto simp: vatomic_simps)
  next
    case False
    with MeRoom step have "r = (Inr (EnqRet QUEUE_BOUNDED_AGAIN v'), mpmc s)" by (simp add: vatomic_simps)
    with mp_inv_local [OF inv, of MpIdle "Suc m" t] show ?thesis by (simp add: mp_pc_ok_def)
  qed
next
  case (MeClaimed v' c)
  then have pc': "mp_pcs s t = MeClaimed v' c" using pc by auto
  with MeClaimed step mp_inv_store [OF inv pc', of "Suc m"] mp_counterD(1) [OF inv] show ?thesis
    by (auto simp: slot_def)
next
  case (MeStored v' c)
  then have "mp_pc_ok n s (MeStored v' c)" "mp_pcs s t = MeStored v' c" using mp_invD(3) [OF inv, of t] pc by auto
  with MeStored step mp_inv_local [OF inv, of "MeTurn v' c" "Suc m" t] show ?thesis
    by (auto simp: mp_pc_ok_def vatomic_simps split: if_splits)
next
  case (MeTurn v' c)
  then have pc': "mp_pcs s t = MeTurn v' c" using pc by auto
  with MeTurn step mp_inv_publish [OF inv pc', of "Suc m"] m show ?thesis by (auto simp: vatomic_simps)
qed (use step in simp_all)

lemma mp_inv_deq:
  assumes inv: "mp_inv n m s" and m: "Suc m < 2 ^ 32"
    and pc: "mp_pcs s t = pc \<or> mp_pcs s t = MpIdle \<and> pc = MdCalled"
    and step: "bounded_mpmc_deq pc (mpmc s) = Some r"
  shows "mp_inv n (Suc m) (mpmc_after t r s)"
proof (cases pc)
  case MdCalled
  with step have "r = (Inl (MdChead (mp_chead (mpmc s))), mpmc s)" by (simp add: vatomic_simps)
  with mp_inv_local [OF inv, of "MdChead (mp_chead (mpmc s))" "Suc m" t] show ?thesis by (simp add: mp_pc_ok_def)
next
  case (MdChead c)
  have c: "unat c \<le> unat (mp_chead (mpmc s))" using mp_invD(3) [OF inv, of t] pc MdChead by (simp add: mp_pc_ok_def)
  show ?thesis
  proof (cases "c = mp_ptail (mpmc s)")
    case True
    with MdChead step have "r = (Inr (DeqRet QUEUE_BOUNDED_EMPTY None), mpmc s)" by (simp add: vatomic_simps)
    with mp_inv_local [OF inv, of MpIdle "Suc m" t] show ?thesis by (simp add: mp_pc_ok_def)
  next
    case False
    then have "unat c \<noteq> unat (mp_ptail (mpmc s))" by (auto simp: word_unat_eq_iff)
    with c mp_counterD(6) [OF inv] have "mp_pc_ok n s (MdSome c)" by (auto simp: mp_pc_ok_def)
    with MdChead False step mp_inv_local [OF inv, of "MdSome c" "Suc m" t] show ?thesis by (auto simp: vatomic_simps)
  qed
next
  case (MdSome c)
  then have pc': "mp_pcs s t = MdSome c" using pc by auto
  show ?thesis
  proof (cases "mp_chead (mpmc s) = c")
    case True
    with MdSome step mp_inv_claim_deq [OF inv pc' True m] show ?thesis by (auto simp: vatomic_simps)
  next
    case False
    with MdSome step have "r = (Inr (DeqRet QUEUE_BOUNDED_AGAIN None), mpmc s)" by (simp add: vatomic_simps)
    with mp_inv_local [OF inv, of MpIdle "Suc m" t] show ?thesis by (simp add: mp_pc_ok_def)
  qed
next
  case (MdClaimed c)
  then have pc': "mp_pcs s t = MdClaimed c" using pc by auto
  then have c: "unat (mp_ctail (mpmc s)) \<le> unat c" "unat c < unat (mp_chead (mpmc s))"
    using mp_claim_range(2) [OF inv, of t c] by simp_all
  have "mp_buf (mpmc s) ! (unat c mod unat n) = mp_enqd s ! unat c"
    using mp_invD(2) [OF inv] mp_counterD(3,4,6) [OF inv] c by (auto simp: mp_values_def)
  with MdClaimed step pc' c mp_counterD(1) [OF inv] mp_inv_local [OF inv, of "MdRead c (mp_enqd s ! unat c)" "Suc m" t]
  show ?thesis by (auto simp: mp_pc_ok_def slot_def)
next
  case (MdRead c v')
  then have "mp_pc_ok n s (MdRead c v')" "mp_pcs s t = MdRead c v'" using mp_invD(3) [OF inv, of t] pc by auto
  with MdRead step mp_inv_local [OF inv, of "MdTurn c v'" "Suc m" t] show ?thesis
    by (auto simp: mp_pc_ok_def vatomic_simps split: if_splits)
next
  case (MdTurn c v')
  then have pc': "mp_pcs s t = MdTurn c v'" using pc by auto
  with MdTurn step mp_inv_consume [OF inv pc', of "Suc m"] m show ?thesis by (auto simp: vatomic_simps)
qed (use step in simp_all)

lemma mp_inv_step:
  assumes "mp_inv n m s" and "Suc m < 2 ^ 32" and "mpmc_step bounded_mpmc_enq_orig (t, cmd) s = Some s'"
  shows "mp_inv n (Suc m) s'"
proof (cases cmd)
  case (MpEnq v)
  with assms(3) mp_inv_enq [OF assms(1,2), of t "MeCalled v" v] show ?thesis
    by (auto simp del: bounded_mpmc_enq_orig.simps split: if_splits)
next
  case MpDeq
  with assms(3) mp_inv_deq [OF assms(1,2), of t MdCalled] show ?thesis
    by (auto simp del: bounded_mpmc_deq.simps split: if_splits)
next
  case MpRun
  with assms(3) mp_inv_enq [OF assms(1,2), of t "mp_pcs s t"] mp_inv_deq [OF assms(1,2), of t "mp_pcs s t"] show ?thesis
    by (auto split: if_splits)
qed

lemma mp_inv_reach:
  assumes "length b = unat n" and "reach (bounded B (mpmc_step bounded_mpmc_enq_orig)) (0, mpmc_start b n) c"
    and "B < 2 ^ 32"
  shows "mp_inv n (fst c) (snd c)"
proof -
  have "inv_system (bounded B (mpmc_step bounded_mpmc_enq_orig)) (0, mpmc_start b n) (\<lambda>(m, s). mp_inv n m s)"
  proof (rule inv_system.intro, goal_cases)
    case 1
    show ?case using assms(1)
      by (simp add: mp_inv_def mpmc_start_def bounded_mpmc_init_def mp_counters_def mp_values_def mp_pc_ok_def apart_def vatomic_simps)
  next
    case (2 c lab c')
    obtain m s t cmd where "c = (m, s)" "lab = (t, cmd)" by (cases c; cases lab)
    with 2 mp_inv_step [of n m s t cmd] assms(3) show ?case by (auto simp del: mpmc_step.simps split: if_splits)
  qed
  from inv_system.reach_inv [OF this assms(2)] show ?thesis by (cases c) simp
qed



end
