(* ===== verification/Bounded_Locked.thy ===== *)
theory Bounded_Locked
  imports Bounded_Spsc Caslock
begin

text \<open>
  The queue protected by a CAS lock, \<^verbatim>\<open>queue/bounded_locked.h\<close>. The lock's \<open>tryacquire\<close> is a
  parameter of the calls, so that they run on the original lock and on the one with the injected bug.
  A failing \<open>ASSERT\<close> is the error value \<open>LockedAssert\<close>.
\<close>

section \<open>Operations\<close>

record 'v bounded_locked_t =
  bl_buf :: "'v list"
  bl_head :: u32
  bl_tail :: u32
  bl_size :: u32
  bl_lock :: caslock_t

datatype locked_error = LockedAssert

definition bounded_locked_init :: "'v list \<Rightarrow> u32 \<Rightarrow> 'v bounded_locked_t" where
  "bounded_locked_init b s = \<lparr>bl_buf = b, bl_head = 0, bl_tail = 0, bl_size = s,
     bl_lock = caslock_init \<lparr>cas_lock = 0\<rparr>\<rparr>"

definition locked_release :: "'v bounded_locked_t \<Rightarrow> 'v bounded_locked_t" where
  "locked_release q = q\<lparr>bl_lock := caslock_release (bl_lock q)\<rparr>"

definition bounded_locked_enq :: "(caslock_t \<Rightarrow> bool \<times> caslock_t) \<Rightarrow> 'v \<Rightarrow> 'v bounded_locked_t \<Rightarrow>
    locked_error + bounded_ret_t \<times> 'v bounded_locked_t" where
  "bounded_locked_enq tryacquire v q =
     (let (ok, l) = tryacquire (bl_lock q); q = q\<lparr>bl_lock := l\<rparr> in
      if \<not> ok then Inr (QUEUE_BOUNDED_AGAIN, q)
      else if \<not> (bl_tail q - bl_head q \<le> bl_size q) then Inl LockedAssert
      else let head = bl_head q in
        if bl_tail q - head = bl_size q then Inr (QUEUE_BOUNDED_FULL, locked_release q)
        else Inr (QUEUE_BOUNDED_OK, locked_release
          (q\<lparr>bl_buf := (bl_buf q)[slot (bl_size q) (bl_tail q) := v], bl_tail := bl_tail q + 1\<rparr>)))"

definition bounded_locked_deq :: "(caslock_t \<Rightarrow> bool \<times> caslock_t) \<Rightarrow> 'v bounded_locked_t \<Rightarrow>
    locked_error + (bounded_ret_t \<times> 'v option) \<times> 'v bounded_locked_t" where
  "bounded_locked_deq tryacquire q =
     (let (ok, l) = tryacquire (bl_lock q); q = q\<lparr>bl_lock := l\<rparr> in
      if \<not> ok then Inr ((QUEUE_BOUNDED_AGAIN, None), q)
      else if \<not> (bl_head q \<le> bl_tail q) then Inl LockedAssert
      else let tail = bl_tail q in
        if tail - bl_head q = 0 then Inr ((QUEUE_BOUNDED_EMPTY, None), locked_release q)
        else Inr ((QUEUE_BOUNDED_OK, Some (bl_buf q ! slot (bl_size q) (bl_head q))), locked_release
          (q\<lparr>bl_head := bl_head q + 1\<rparr>)))"

text \<open>\<open>bounded_locked_empty\<close> waits for the lock; run alone on a free lock it gets it at once.\<close>

definition bounded_locked_empty :: "'v bounded_locked_t \<Rightarrow> (locked_error + bool \<times> 'v bounded_locked_t) option" where
  "bounded_locked_empty q =
     (case caslock_acquire EqWait (bl_lock q) of
        None \<Rightarrow> None
      | Some (pc, l) \<Rightarrow> (case caslock_acquire pc l of
          None \<Rightarrow> None
        | Some (pc', l') \<Rightarrow>
            (let q = q\<lparr>bl_lock := l'\<rparr> in
             if pc' \<noteq> EqDone then None
             else if \<not> (bl_head q \<le> bl_tail q) then Some (Inl LockedAssert)
             else Some (Inr (bl_tail q = bl_head q, locked_release q)))))"

lemmas locked_simps =
  bounded_locked_init_def locked_release_def bounded_locked_enq_def bounded_locked_deq_def
  bounded_locked_empty_def

section \<open>Calls on the original lock\<close>

definition locked_contents :: "'v bounded_locked_t \<Rightarrow> 'v list" where
  "locked_contents q = ring (bl_size q) (bl_buf q) (bl_head q) (unat (bl_tail q - bl_head q))"

definition locked_wf :: "u32 \<Rightarrow> 'v bounded_locked_t \<Rightarrow> bool" where
  "locked_wf n q \<longleftrightarrow> bl_size q = n \<and> length (bl_buf q) = unat n \<and> bl_tail q - bl_head q \<le> n \<and>
     n \<noteq> 0 \<and> unat n dvd 2 ^ 32 \<and> cas_lock (bl_lock q) = 0"

lemma locked_wfD:
  assumes "locked_wf n q"
  shows "bl_size q = n" "length (bl_buf q) = unat n" "bl_tail q - bl_head q \<le> n" "n \<noteq> 0" "unat n dvd 2 ^ 32"
    "bl_lock q = \<lparr>cas_lock = 0\<rparr>" "q\<lparr>bl_lock := \<lparr>cas_lock = 0\<rparr>\<rparr> = q"
  using assms by (auto simp: locked_wf_def)

lemma locked_enq_spec:
  assumes "locked_wf n q"
  shows "if length (locked_contents q) = unat n
    then bounded_locked_enq caslock_tryacquire_orig v q = Inr (QUEUE_BOUNDED_FULL, q)
    else \<exists>q'. bounded_locked_enq caslock_tryacquire_orig v q = Inr (QUEUE_BOUNDED_OK, q') \<and>
      locked_wf n q' \<and> locked_contents q' = locked_contents q @ [v]"
proof -
  let ?t = "bl_tail q" and ?h = "bl_head q"
  note wf = locked_wfD [OF assms]
  have enq: "if ?t - ?h = n then bounded_locked_enq caslock_tryacquire_orig v q = Inr (QUEUE_BOUNDED_FULL, q)
      else bounded_locked_enq caslock_tryacquire_orig v q = Inr (QUEUE_BOUNDED_OK,
        q\<lparr>bl_buf := (bl_buf q)[slot n ?t := v], bl_tail := ?t + 1\<rparr>)"
    using wf by (auto simp: locked_simps lock_simps vatomic_simps)
  show ?thesis
  proof (cases "?t - ?h = n")
    case True
    with enq show ?thesis by (simp add: locked_contents_def)
  next
    case False
    have lt: "unat (?t - ?h) < unat n" using False wf(3) by (simp add: word_le_nat_alt word_unat_eq_iff)
    have "?t = ?h + of_nat (unat (?t - ?h))" by simp
    with ring_snoc [OF wf(5,4,2) lt, of ?h v] count_Suc [OF wf(3) False] enq False wf lt show ?thesis
      by (simp add: locked_wf_def locked_contents_def)
  qed
qed

lemma locked_deq_spec:
  assumes "locked_wf n q" and ht: "bl_head q \<le> bl_tail q"
  shows "case locked_contents q of
      [] \<Rightarrow> bounded_locked_deq caslock_tryacquire_orig q = Inr ((QUEUE_BOUNDED_EMPTY, None), q)
    | x # xs \<Rightarrow> \<exists>q'. bounded_locked_deq caslock_tryacquire_orig q = Inr ((QUEUE_BOUNDED_OK, Some x), q') \<and>
        locked_wf n q' \<and> locked_contents q' = xs"
proof -
  let ?t = "bl_tail q" and ?h = "bl_head q"
  note wf = locked_wfD [OF assms(1)]
  show ?thesis
  proof (cases "?t - ?h = 0")
    case True
    then have "locked_contents q = []" by (simp add: locked_contents_def ring_def)
    with True ht wf show ?thesis by (auto simp: locked_simps lock_simps vatomic_simps)
  next
    case False
    have "locked_contents q = bl_buf q ! slot n ?h # ring n (bl_buf q) (?h + 1) (unat (?t - (?h + 1)))"
      unfolding locked_contents_def count_pred [OF False] wf(1) by (rule ring_Suc)
    moreover have "bounded_locked_deq caslock_tryacquire_orig q =
        Inr ((QUEUE_BOUNDED_OK, Some (bl_buf q ! slot n ?h)), q\<lparr>bl_head := ?h + 1\<rparr>)"
      using False ht wf by (auto simp: locked_simps lock_simps vatomic_simps)
    moreover have "?t - (?h + 1) \<le> n" using count_pred [OF False] wf(3) by (simp add: word_le_nat_alt)
    ultimately show ?thesis using wf by (auto simp: locked_wf_def locked_contents_def)
  qed
qed



section \<open>Wrap-around\<close>

text \<open>
  \<open>bounded_locked_deq\<close> asserts \<open>head <= tail\<close>, which is wrong once \<open>tail\<close> has wrapped around and \<open>head\<close>
  has not.
\<close>

definition locked_rounds :: "nat \<Rightarrow> int bounded_locked_t" where
  "locked_rounds k = \<lparr>bl_buf = [0], bl_head = of_nat k, bl_tail = of_nat k, bl_size = 1, bl_lock = \<lparr>cas_lock = 0\<rparr>\<rparr>"

text \<open>A client that enqueues (\<open>True\<close>) or dequeues; a failed assertion ends it.\<close>

fun locked_client :: "bool \<Rightarrow> int bounded_locked_t \<Rightarrow> int bounded_locked_t option" where
  "locked_client True q = (case bounded_locked_enq caslock_tryacquire_orig 0 q of Inl e \<Rightarrow> None | Inr (r, q') \<Rightarrow> Some q')"
| "locked_client False q = (case bounded_locked_deq caslock_tryacquire_orig q of Inl e \<Rightarrow> None | Inr (r, q') \<Rightarrow> Some q')"

lemma locked_round:
  assumes "Suc k < 2 ^ 32"
  shows "exec locked_client [True, False] (locked_rounds k) = Some (locked_rounds (Suc k))"
proof -
  have "unat (of_nat k + 1 :: u32) = Suc (unat (of_nat k :: u32))"
    using unat_add_of_nat [of "of_nat k :: u32" 1] assms by (simp add: unat_of_nat)
  then have "(of_nat k :: u32) \<le> of_nat k + 1" by (simp add: word_le_nat_alt)
  moreover have "slot 1 w = 0" for w :: u32 by (simp add: slot_def)
  ultimately show ?thesis
    by (simp add: locked_rounds_def locked_simps lock_simps vatomic_simps add.commute)
qed

lemma locked_rounds_reach: "k < 2 ^ 32 \<Longrightarrow> reach locked_client (locked_rounds 0) (locked_rounds k)"
proof (induction k)
  case (Suc k)
  then have "reach locked_client (locked_rounds k) (locked_rounds (Suc k))"
    by (intro exec_reach [OF locked_round]) simp
  with Suc show ?case by (auto intro: reach_trans)
qed (rule reach_init)

text \<open>
  After \<open>2^32 - 1\<close> values have passed through a \<^verbatim>\<open>bounded_locked\<close> queue and one more is enqueued,
  the queue holds one value, but \<open>bounded_locked_deq\<close> fails its assertion \<open>head <= tail\<close>, and so
  does \<open>bounded_locked_empty\<close>.
\<close>

theorem bounded_locked_wraps:
  "\<exists>q. reach locked_client (bounded_locked_init [0] 1) q \<and> locked_wf 1 q \<and> length (locked_contents q) = 1 \<and>
     bounded_locked_deq caslock_tryacquire_orig q = Inl LockedAssert \<and>
     bounded_locked_empty q = Some (Inl LockedAssert)"
proof -
  define K :: nat where "K = 2 ^ 32 - 1"
  have w: "(of_nat K :: u32) = 4294967295" by (simp add: K_def)
  have neg: "(- 4294967295 :: u32) = 1" by (rule minus_unique) simp
  have start: "bounded_locked_init [0] 1 = locked_rounds 0"
    by (simp add: locked_rounds_def locked_simps lock_simps vatomic_simps)
  define q where "q = (locked_rounds K)\<lparr>bl_tail := 0\<rparr>"
  have "reach locked_client (locked_rounds 0) (locked_rounds K)" by (rule locked_rounds_reach) (simp add: K_def)
  moreover have "locked_client True (locked_rounds K) = Some q"
    unfolding q_def locked_rounds_def w by (simp add: locked_simps lock_simps vatomic_simps slot_def)
  ultimately have "reach locked_client (locked_rounds 0) q" by (blast intro: reach_step)
  moreover have "locked_wf 1 q" "length (locked_contents q) = 1"
    "bounded_locked_deq caslock_tryacquire_orig q = Inl LockedAssert"
    "bounded_locked_empty q = Some (Inl LockedAssert)"
    unfolding q_def locked_rounds_def w
    by (simp_all add: locked_wf_def locked_contents_def locked_simps lock_simps vatomic_simps neg)
  ultimately show ?thesis unfolding start by blast
qed

section \<open>On the lock with the injected bug\<close>

lemma bounded_locked_enq_on_bug:
  "cas_lock (bl_lock q) = 0 \<Longrightarrow> bounded_locked_enq caslock_tryacquire v q = Inr (QUEUE_BOUNDED_AGAIN, q\<lparr>bl_lock := \<lparr>cas_lock = 1\<rparr>\<rparr>)"
  by (auto simp: locked_simps lock_simps vatomic_simps)

end
