(* ===== verification/Simpleht.thy ===== *)
theory Simpleht
  imports Rwlock Vatomicptr
begin

text \<open>
  The hash table with open addressing, \<^verbatim>\<open>map/simpleht.h\<close>, with removal enabled. Every operation is the
  complete call of a registered thread that runs without interference. A call can fail an \<open>ASSERT\<close> (\<open>Inl\<close>),
  return (\<open>Inr\<close>) or run forever (\<open>None\<close>): the searches of \<open>vsimpleht_get\<close> and \<open>vsimpleht_remove\<close> are loops
  without a bound. Keys and sizes are 64-bit words, the key 0 marks an empty entry; the caller's functions
  \<open>cmp_key\<close> and \<open>hash_key\<close> are fields of the table, and the calls of \<open>cb_destroy\<close> are recorded.
\<close>

section \<open>Results\<close>

datatype ht_error = HtAssert

type_synonym 'r call = "(ht_error + 'r) option"

definition andthen :: "'a call \<Rightarrow> ('a \<Rightarrow> 'b call) \<Rightarrow> 'b call" where
  "andthen m f = (case m of None \<Rightarrow> None | Some (Inl e) \<Rightarrow> Some (Inl e) | Some (Inr x) \<Rightarrow> f x)"

definition asserting :: "bool \<Rightarrow> 'b call \<Rightarrow> 'b call" where
  "asserting b m = (if b then m else Some (Inl HtAssert))"

lemma andthen_simps [simp]:
  "andthen (Some (Inr x)) f = f x" "andthen (Some (Inl e)) f = Some (Inl e)" "andthen None f = None"
  "asserting True m = m" "asserting False m = Some (Inl HtAssert)"
  by (simp_all add: andthen_def asserting_def)

text \<open>A call of a lock operation by a thread that runs alone; a call that has to wait does not return.\<close>

partial_function (option) alone :: "('p \<Rightarrow> 'm \<Rightarrow> (('p + 'r) \<times> 'm) option) \<Rightarrow> 'p \<Rightarrow> 'm \<Rightarrow> ('r \<times> 'm) option" where
  [code]: "alone f p m = (case f p m of None \<Rightarrow> None | Some (r, m') \<Rightarrow>
     (case r of Inl p' \<Rightarrow> alone f p' m' | Inr x \<Rightarrow> Some (x, m')))"

section \<open>Data\<close>

record 'v vsimpleht_entry_t =
  ht_key :: u64
  ht_value :: "'v option"

record 'v vsimpleht_t =
  ht_capacity :: u64
  ht_entries :: "'v vsimpleht_entry_t list"
  ht_cmp_key :: "u64 \<Rightarrow> u64 \<Rightarrow> int"
  ht_hash_key :: "u64 \<Rightarrow> u64"
  ht_destroyed :: "'v list"
  ht_cleaning_threshold :: u64
  ht_deleted_count :: u64
  ht_lock :: rwlock_t

datatype vsimpleht_ret_t = VSIMPLEHT_RET_OK | VSIMPLEHT_RET_TBL_FULL | VSIMPLEHT_RET_KEY_EXISTS | VSIMPLEHT_RET_KEY_DNE

definition VSIMPLEHT_RELATIVE_THRESHOLD :: u64 where "VSIMPLEHT_RELATIVE_THRESHOLD = 4"

abbreviation key_at :: "'v vsimpleht_t \<Rightarrow> u64 \<Rightarrow> u64" where
  "key_at t i \<equiv> vatomicptr_read (ht_key (ht_entries t ! unat i))"

abbreviation value_at :: "'v vsimpleht_t \<Rightarrow> u64 \<Rightarrow> 'v option" where
  "value_at t i \<equiv> vatomicptr_read (ht_value (ht_entries t ! unat i))"

definition set_key :: "u64 \<Rightarrow> u64 \<Rightarrow> 'v vsimpleht_t \<Rightarrow> 'v vsimpleht_t" where
  "set_key i k t = t\<lparr>ht_entries := (ht_entries t)[unat i := (ht_entries t ! unat i)\<lparr>ht_key := k\<rparr>]\<rparr>"

definition set_value :: "u64 \<Rightarrow> 'v option \<Rightarrow> 'v vsimpleht_t \<Rightarrow> 'v vsimpleht_t" where
  "set_value i v t = t\<lparr>ht_entries := (ht_entries t)[unat i := (ht_entries t ! unat i)\<lparr>ht_value := v\<rparr>]\<rparr>"

definition power_of_two64 :: "u64 \<Rightarrow> bool" where
  "power_of_two64 c \<longleftrightarrow> c > 0 \<and> c AND (c - 1) = 0"

text \<open>The buffer holds \<open>capacity\<close> entries of any content.\<close>

definition init_entry :: "nat \<Rightarrow> 'v vsimpleht_entry_t list \<Rightarrow> 'v vsimpleht_entry_t list" where
  "init_entry i es = es[i := (es ! i)\<lparr>ht_key := vatomicptr_init (ht_key (es ! i)) 0, ht_value := vatomicptr_init (ht_value (es ! i)) None\<rparr>]"

definition vsimpleht_init :: "'v vsimpleht_entry_t list \<Rightarrow> u64 \<Rightarrow> (u64 \<Rightarrow> u64 \<Rightarrow> int) \<Rightarrow> (u64 \<Rightarrow> u64) \<Rightarrow> 'v vsimpleht_t call" where
  "vsimpleht_init buff capacity cmp hash =
     asserting (power_of_two64 capacity)
       (Some (Inr \<lparr>ht_capacity = capacity,
          ht_entries = fold init_entry [0..<unat capacity] buff,
          ht_cmp_key = cmp, ht_hash_key = hash, ht_destroyed = [],
          ht_cleaning_threshold = capacity div VSIMPLEHT_RELATIVE_THRESHOLD, ht_deleted_count = 0,
          ht_lock = rwlock_init \<lparr>rw_n = 0, rw_wb = 0, rw_rs = \<lparr>sem_s = 0\<rparr>\<rparr>\<rparr>))"

definition vsimpleht_destroy :: "'v vsimpleht_t \<Rightarrow> 'v vsimpleht_t" where
  "vsimpleht_destroy t = fold (\<lambda>i t. case value_at t (of_nat i) of
       Some obj \<Rightarrow> t\<lparr>ht_destroyed := ht_destroyed t @ [obj]\<rparr> | None \<Rightarrow> t) [0..<unat (ht_capacity t)] t"

section \<open>Registration and cleaning\<close>

definition lock_call :: "(unit \<times> rwlock_t) option \<Rightarrow> 'v vsimpleht_t \<Rightarrow> 'v vsimpleht_t call" where
  "lock_call r t = map_option (\<lambda>(_, l). Inr (t\<lparr>ht_lock := l\<rparr>)) r"

definition vsimpleht_thread_register :: "'v vsimpleht_t \<Rightarrow> 'v vsimpleht_t call" where
  "vsimpleht_thread_register t = lock_call (alone rwlock_read_acquire RaAwait (ht_lock t)) t"

definition vsimpleht_thread_deregister :: "'v vsimpleht_t \<Rightarrow> 'v vsimpleht_t" where
  "vsimpleht_thread_deregister t = t\<lparr>ht_lock := rwlock_read_release (ht_lock t)\<rparr>"

definition vsimpleht_give_cleanup_a_chance :: "'v vsimpleht_t \<Rightarrow> 'v vsimpleht_t call" where
  "vsimpleht_give_cleanup_a_chance t =
     (if rwlock_acquired_by_writer (ht_lock t) then
        asserting (rwlock_acquired_by_readers (ht_lock t))
          (vsimpleht_thread_register (vsimpleht_thread_deregister t))
      else Some (Inr t))"

section \<open>Adding\<close>

definition add_value :: "'v vsimpleht_t \<Rightarrow> u64 \<Rightarrow> 'v option \<Rightarrow> u64 \<Rightarrow> (vsimpleht_ret_t \<times> 'v vsimpleht_t) call" where
  "add_value t key value index =
     asserting (ht_cmp_key t key (key_at t index) = 0)
       (let (val, a) = vatomicptr_cmpxchg (ht_value (ht_entries t ! unat index)) None value
        in Some (Inr (if val = None then VSIMPLEHT_RET_OK else VSIMPLEHT_RET_KEY_EXISTS, set_value index a t)))"

text \<open>The first argument is the number of iterations that are left, \<open>capacity - cnt\<close>.\<close>

fun add_loop :: "nat \<Rightarrow> 'v vsimpleht_t \<Rightarrow> u64 \<Rightarrow> 'v option \<Rightarrow> u64 \<Rightarrow> (vsimpleht_ret_t \<times> 'v vsimpleht_t) call" where
  "add_loop 0 t key value i = Some (Inr (VSIMPLEHT_RET_TBL_FULL, t))"
| "add_loop (Suc n) t key value i =
     (let index = i AND (ht_capacity t - 1) in
      asserting (index < ht_capacity t)
       (if key_at t index = 0 then
          (let (probed_key, a) = vatomicptr_cmpxchg (ht_key (ht_entries t ! unat index)) 0 key; t' = set_key index a t in
           if probed_key \<noteq> 0 \<and> ht_cmp_key t key probed_key \<noteq> 0 then add_loop n t' key value (index + 1)
           else add_value t' key value index)
        else if ht_cmp_key t key (key_at t index) \<noteq> 0 then add_loop n t key value (index + 1)
        else add_value t key value index))"

definition vsimpleht_add_internal :: "'v vsimpleht_t \<Rightarrow> u64 \<Rightarrow> 'v option \<Rightarrow> (vsimpleht_ret_t \<times> 'v vsimpleht_t) call" where
  "vsimpleht_add_internal t key value =
     asserting (key \<noteq> 0 \<and> value \<noteq> None) (add_loop (unat (ht_capacity t)) t key value (ht_hash_key t key))"

definition vsimpleht_add :: "'v vsimpleht_t \<Rightarrow> u64 \<Rightarrow> 'v option \<Rightarrow> (vsimpleht_ret_t \<times> 'v vsimpleht_t) call" where
  "vsimpleht_add t key value =
     asserting (key \<noteq> 0 \<and> value \<noteq> None)
       (andthen (vsimpleht_give_cleanup_a_chance t) (\<lambda>t. vsimpleht_add_internal t key value))"

section \<open>Looking up\<close>

partial_function (option) get_loop :: "'v vsimpleht_t \<Rightarrow> u64 \<Rightarrow> u64 \<Rightarrow> (ht_error + 'v option) option" where
  [code]: "get_loop t key i =
     (let index = i AND (ht_capacity t - 1) in
      if \<not> index < ht_capacity t then Some (Inl HtAssert)
      else if key_at t index = 0 then Some (Inr None)
      else if ht_cmp_key t key (key_at t index) = 0 then Some (Inr (value_at t index))
      else get_loop t key (index + 1))"

definition vsimpleht_get :: "'v vsimpleht_t \<Rightarrow> u64 \<Rightarrow> ('v option \<times> 'v vsimpleht_t) call" where
  "vsimpleht_get t key =
     andthen (vsimpleht_give_cleanup_a_chance t)
       (\<lambda>t. andthen (get_loop t key (ht_hash_key t key)) (\<lambda>v. Some (Inr (v, t))))"

section \<open>Cleaning up\<close>

text \<open>The index of the first entry without a key; \<open>len - 1\<close> when there is none.\<close>

definition bucket_start :: "'v vsimpleht_t \<Rightarrow> u64" where
  "bucket_start t = (case find (\<lambda>e. key_at t (of_nat e) = 0) [0..<unat (ht_capacity t)] of
     Some e \<Rightarrow> of_nat e | None \<Rightarrow> ht_capacity t - 1)"

definition clean_slot :: "u64 \<Rightarrow> nat \<Rightarrow> 'v vsimpleht_t \<Rightarrow> 'v vsimpleht_t call" where
  "clean_slot start_index e t =
     (let i = (of_nat e + start_index) AND (ht_capacity t - 1); key = key_at t i; value = value_at t i in
      if key \<noteq> 0 \<and> value \<noteq> None then
        andthen (vsimpleht_add_internal t key value)
          (\<lambda>(ret, t'). asserting (ret \<noteq> VSIMPLEHT_RET_TBL_FULL)
             (Some (Inr (if ret = VSIMPLEHT_RET_OK then set_value i None (set_key i 0 t') else t'))))
      else if key \<noteq> 0 \<and> value = None then Some (Inr (set_key i 0 t))
      else Some (Inr t))"

fun clean_slots :: "u64 \<Rightarrow> nat list \<Rightarrow> 'v vsimpleht_t \<Rightarrow> 'v vsimpleht_t call" where
  "clean_slots start_index [] t = Some (Inr t)"
| "clean_slots start_index (e # es) t = andthen (clean_slot start_index e t) (clean_slots start_index es)"

definition vsimpleht_cleanup :: "'v vsimpleht_t \<Rightarrow> 'v \<Rightarrow> 'v vsimpleht_t call" where
  "vsimpleht_cleanup t val =
     andthen (lock_call (alone rwlock_write_acquire (WaAwait EqWait) (ht_lock t)) t)
       (\<lambda>t. andthen
          (if ht_deleted_count t < ht_cleaning_threshold t then Some (Inr t)
           else andthen (clean_slots (bucket_start t) [0..<unat (ht_capacity t)] t) (\<lambda>t. Some (Inr (t\<lparr>ht_deleted_count := 0\<rparr>))))
          (\<lambda>t. let t' = t\<lparr>ht_destroyed := ht_destroyed t @ [val]\<rparr> in
               lock_call (alone rwlock_write_release WrClear (ht_lock t')) t'))"

definition vsimpleht_trigger_cleanup :: "'v vsimpleht_t \<Rightarrow> 'v \<Rightarrow> 'v vsimpleht_t call" where
  "vsimpleht_trigger_cleanup t val =
     asserting (rwlock_acquired_by_readers (ht_lock t))
       (andthen (vsimpleht_cleanup (vsimpleht_thread_deregister t) val) vsimpleht_thread_register)"

section \<open>Removing\<close>

text \<open>The search: the index of the entry with the key, or \<open>None\<close> at the end of the bucket.\<close>

partial_function (option) remove_loop :: "'v vsimpleht_t \<Rightarrow> u64 \<Rightarrow> u64 \<Rightarrow> u64 \<Rightarrow> u64 option option" where
  [code]: "remove_loop t key start_index index =
     (if key_at t index = 0 then Some None
      else if ht_cmp_key t key (key_at t index) = 0 then Some (Some index)
      else let index' = (index + 1) AND (ht_capacity t - 1) in
           if index' \<noteq> start_index then remove_loop t key start_index index' else Some None)"

definition remove_at :: "'v vsimpleht_t \<Rightarrow> u64 \<Rightarrow> (vsimpleht_ret_t \<times> 'v vsimpleht_t) call" where
  "remove_at t index =
     (case value_at t index of
        None \<Rightarrow> Some (Inr (VSIMPLEHT_RET_KEY_DNE, t))
      | Some probed_value \<Rightarrow>
          (let (old, a) = vatomicptr_cmpxchg (ht_value (ht_entries t ! unat index)) (Some probed_value) None; t' = set_value index a t in
           if old = Some probed_value then
             andthen (vsimpleht_trigger_cleanup (t'\<lparr>ht_deleted_count := ht_deleted_count t' + 1\<rparr>) probed_value)
               (\<lambda>t''. Some (Inr (VSIMPLEHT_RET_OK, t'')))
           else Some (Inr (VSIMPLEHT_RET_KEY_DNE, t'))))"

definition vsimpleht_remove :: "'v vsimpleht_t \<Rightarrow> u64 \<Rightarrow> (vsimpleht_ret_t \<times> 'v vsimpleht_t) call" where
  "vsimpleht_remove t key =
     (let start_index = ht_hash_key t key; index = start_index AND (ht_capacity t - 1) in
      andthen (vsimpleht_give_cleanup_a_chance t)
        (\<lambda>t. case remove_loop t key start_index index of
               None \<Rightarrow> None
             | Some None \<Rightarrow> Some (Inr (VSIMPLEHT_RET_KEY_DNE, t))
             | Some (Some i) \<Rightarrow> remove_at t i))"

section \<open>Iterating\<close>

definition vsimpleht_iter_next :: "'v vsimpleht_t \<Rightarrow> nat \<Rightarrow> (nat \<times> u64 \<times> 'v) option" where
  "vsimpleht_iter_next t idx =
     (case find (\<lambda>i. key_at t (of_nat i) \<noteq> 0 \<and> value_at t (of_nat i) \<noteq> None) [idx..<unat (ht_capacity t)] of
        Some i \<Rightarrow> Some (Suc i, key_at t (of_nat i), the (value_at t (of_nat i))) | None \<Rightarrow> None)"

section \<open>Indices\<close>

lemma bit_top:
  assumes "2 ^ l \<le> unat (w :: 'a::len word)" and "unat w < 2 ^ Suc l"
  shows "bit w l"
proof -
  have "unat w div 2 ^ l = 1" using assms by (intro div_nat_eqI) simp_all
  then have "bit (unat w) l" by (simp add: bit_iff_odd)
  then show ?thesis by (simp add: bit_unsigned_iff)
qed

lemma power_of_two64_exp:
  assumes "power_of_two64 c"
  obtains e where "e < 64" "c = 2 ^ e" "unat c = 2 ^ e"
proof -
  have c: "c \<noteq> 0" "c AND (c - 1) = 0" using assms by (auto simp: power_of_two64_def)
  then have "1 \<le> unat c" by (simp add: Suc_leI unat_gt_0)
  then obtain l where l: "2 ^ l \<le> unat c" "unat c < 2 ^ Suc l" using ex_power_ivl1 [of 2 "unat c"] by auto
  have "unat c < 2 ^ 64" using unsigned_less [of c] by simp
  then have l64: "l < 64" using power_less_imp_less_exp [of 2 l 64] le_less_trans [OF l(1)] by auto
  have u: "unat c = 2 ^ l"
  proof (rule ccontr)
    assume "unat c \<noteq> 2 ^ l"
    then have "2 ^ l \<le> unat (c - 1)" "unat (c - 1) < 2 ^ Suc l" using l c by (simp_all add: unat_minus_one)
    from bit_top [OF this] bit_top [OF l] have "bit (c AND (c - 1)) l" by (simp add: bit_and_iff)
    with c show False by simp
  qed
  then have "c = of_nat (2 ^ l)" by (simp flip: \<open>unat c = 2 ^ l\<close>)
  then have "c = 2 ^ l" by simp
  with l64 u that show thesis by blast
qed

definition slots :: "'v vsimpleht_t \<Rightarrow> nat" where
  "slots t = unat (ht_capacity t)"

definition slot_key :: "'v vsimpleht_t \<Rightarrow> nat \<Rightarrow> u64" where
  "slot_key t j = ht_key (ht_entries t ! j)"

definition slot_val :: "'v vsimpleht_t \<Rightarrow> nat \<Rightarrow> 'v option" where
  "slot_val t j = ht_value (ht_entries t ! j)"

text \<open>The shape of a table and the contract of the caller's comparison.\<close>

definition ht_shape :: "'v vsimpleht_t \<Rightarrow> bool" where
  "ht_shape t \<longleftrightarrow> power_of_two64 (ht_capacity t) \<and> length (ht_entries t) = slots t \<and>
     (\<forall>a b. ht_cmp_key t a b = 0 \<longleftrightarrow> a = b)"

lemma and_mask_mod:
  assumes "power_of_two64 c"
  shows "unat (i AND (c - 1)) = unat i mod unat c" "unat c dvd 2 ^ 64" "0 < unat c"
proof -
  obtain e where e: "e < 64" "c = 2 ^ e" "unat c = 2 ^ e" by (rule power_of_two64_exp [OF assms])
  have "i AND (c - 1) = take_bit e i" using e by (simp add: take_bit_eq_mask mask_eq_exp_minus_1)
  then have "unat (i AND (c - 1)) = take_bit e (unat i)" by (simp only: unsigned_take_bit_eq)
  then show "unat (i AND (c - 1)) = unat i mod unat c" using e by (simp only: take_bit_eq_mod)
  show "unat c dvd 2 ^ 64" using e(1,3) le_imp_power_dvd [of e 64 "2 :: nat"] by (simp only: less_imp_le)
  show "0 < unat c" using e by simp
qed

lemma ht_shapeD:
  assumes "ht_shape t"
  shows "ht_cmp_key t a b = 0 \<longleftrightarrow> a = b" "length (ht_entries t) = slots t" "0 < slots t" "slots t < 2 ^ 64"
    "unat (i AND (ht_capacity t - 1)) = unat i mod slots t" "i AND (ht_capacity t - 1) < ht_capacity t"
    "unat (i + 1) mod slots t = Suc (unat i) mod slots t"
proof -
  note m = and_mask_mod [of "ht_capacity t"]
  have p: "power_of_two64 (ht_capacity t)" using assms by (simp add: ht_shape_def)
  show "unat (i AND (ht_capacity t - 1)) = unat i mod slots t" using m(1) [OF p] by (simp add: slots_def)
  show "0 < slots t" using m(3) [OF p] by (simp add: slots_def)
  show "i AND (ht_capacity t - 1) < ht_capacity t" using m(1,3) [OF p] by (simp add: word_less_nat_alt)
  show "unat (i + 1) mod slots t = Suc (unat i) mod slots t"
    using unat_add_of_nat_mod_dvd [of "slots t" i 1] m(2) [OF p] by (simp add: slots_def)
  show "slots t < 2 ^ 64" using unsigned_less [of "ht_capacity t"] by (simp add: slots_def)
qed (use assms in \<open>auto simp: ht_shape_def\<close>)

lemma at_slot:
  "vatomicptr_read (ht_key (ht_entries t ! j)) = slot_key t j" "vatomicptr_read (ht_value (ht_entries t ! j)) = slot_val t j"
  by (simp_all add: slot_key_def slot_val_def vatomic_simps)

text \<open>The slot that is probed after \<open>d\<close> others when the search starts at slot \<open>p\<close>.\<close>

definition probe :: "'v vsimpleht_t \<Rightarrow> nat \<Rightarrow> nat \<Rightarrow> nat" where
  "probe t p d = (p + d) mod slots t"

definition home :: "'v vsimpleht_t \<Rightarrow> u64 \<Rightarrow> nat" where
  "home t k = unat (ht_hash_key t k) mod slots t"

text \<open>A search for \<open>k\<close> ends at the first entry that is empty or holds \<open>k\<close>.\<close>

definition hit :: "'v vsimpleht_t \<Rightarrow> u64 \<Rightarrow> nat \<Rightarrow> bool" where
  "hit t k j \<longleftrightarrow> slot_key t j = 0 \<or> slot_key t j = k"

definition first_hit :: "'v vsimpleht_t \<Rightarrow> u64 \<Rightarrow> nat \<Rightarrow> nat \<Rightarrow> bool" where
  "first_hit t k p d \<longleftrightarrow> hit t k (probe t p d) \<and> (\<forall>d' < d. \<not> hit t k (probe t p d'))"

lemma probe_less: "ht_shape t \<Longrightarrow> probe t p d < slots t"
  using ht_shapeD(3) [of t] by (simp add: probe_def)

lemma probe_0: "ht_shape t \<Longrightarrow> p < slots t \<Longrightarrow> probe t p 0 = p"
  by (simp add: probe_def)

lemma probe_Suc: "probe t (Suc p mod slots t) d = probe t p (Suc d)"
  by (simp add: probe_def mod_add_left_eq)

lemma probe_inj: "probe t p d = probe t p d' \<Longrightarrow> d < slots t \<Longrightarrow> d' < slots t \<Longrightarrow> d = d'"
  unfolding probe_def
  using window_mod_inj [of "p + d" "slots t" "p + d'"] window_mod_inj [of "p + d'" "slots t" "p + d"] by (cases "d \<le> d'") auto

lemma probe_onto: "p < slots t \<Longrightarrow> j < slots t \<Longrightarrow> \<exists>d < slots t. probe t p d = j"
proof -
  assume p: "p < slots t" and j: "j < slots t"
  show ?thesis
  proof (cases "p \<le> j")
    case True
    with p j show ?thesis by (intro exI [of _ "j - p"]) (simp add: probe_def)
  next
    case False
    with p j show ?thesis by (intro exI [of _ "j + slots t - p"]) (simp add: probe_def)
  qed
qed

lemma first_hit_Suc:
  "first_hit t k p (Suc d) \<longleftrightarrow> \<not> hit t k (probe t p 0) \<and> first_hit t k (Suc p mod slots t) d"
  by (auto simp: first_hit_def probe_Suc less_Suc_eq_0_disj)

lemma first_hit_0: "first_hit t k p 0 \<longleftrightarrow> hit t k (probe t p 0)"
  by (simp add: first_hit_def)

lemma first_hit_le:
  assumes "hit t k (probe t p d)"
  shows "\<exists>d' \<le> d. first_hit t k p d'"
proof -
  let ?P = "\<lambda>d. hit t k (probe t p d)"
  have "?P (LEAST d. ?P d)" "(LEAST d. ?P d) \<le> d" using assms by (rule LeastI, rule Least_le)
  moreover have "\<forall>d' < (LEAST d. ?P d). \<not> ?P d'" using not_less_Least by blast
  ultimately show ?thesis unfolding first_hit_def by blast
qed

lemma first_hit_exists:
  assumes "p < slots t" and "j < slots t" and "hit t k j"
  shows "\<exists>d < slots t. first_hit t k p d"
proof -
  obtain d where d: "d < slots t" "probe t p d = j" using probe_onto [OF assms(1,2)] by blast
  then show ?thesis using first_hit_le [of t k p d] assms(3) le_less_trans by blast
qed

section \<open>The loops\<close>

lemma get_loop_step:
  assumes "ht_shape t"
  shows "get_loop t k i = (let p = unat i mod slots t in
     if slot_key t p = 0 then Some (Inr None) else if k = slot_key t p then Some (Inr (slot_val t p))
     else get_loop t k ((i AND (ht_capacity t - 1)) + 1))"
  using ht_shapeD(1,5,6) [OF assms] by (subst get_loop.simps) (simp add: Let_def at_slot)

lemma masked_Suc:
  "ht_shape t \<Longrightarrow> unat ((i AND (ht_capacity t - 1)) + 1) mod slots t = Suc (unat i mod slots t) mod slots t"
  using ht_shapeD(5,7) [of t] by simp

lemma get_loop_hit:
  assumes sh: "ht_shape t" and "first_hit t k (unat i mod slots t) d"
  shows "get_loop t k i = Some (Inr (if slot_key t (probe t (unat i mod slots t) d) = 0 then None else slot_val t (probe t (unat i mod slots t) d)))"
  using assms(2)
proof (induction d arbitrary: i)
  case 0
  then have "hit t k (unat i mod slots t)" by (simp add: first_hit_0 probe_def)
  then show ?case by (subst get_loop_step [OF sh]) (auto simp: hit_def probe_def)
next
  case (Suc d)
  let ?p = "unat i mod slots t" and ?i = "(i AND (ht_capacity t - 1)) + 1"
  have h: "\<not> hit t k ?p" "first_hit t k (unat ?i mod slots t) d"
    using Suc.prems by (auto simp: first_hit_Suc probe_def masked_Suc [OF sh])
  from Suc.IH [OF h(2)] h(1) show ?case
    by (subst get_loop_step [OF sh]) (auto simp: hit_def probe_Suc masked_Suc [OF sh])
qed

lemma get_loop_no_hit:
  assumes sh: "ht_shape t" and no: "\<And>j. j < slots t \<Longrightarrow> \<not> hit t k j"
  shows "get_loop t k i = None"
proof (rule ccontr)
  assume "get_loop t k i \<noteq> None"
  then obtain y where y: "get_loop t k i = Some y" by blast
  have "\<not> (t = t \<and> k = k)"
  proof (rule get_loop.raw_induct [where P = "\<lambda>s a i y. \<not> (s = t \<and> a = k)", OF _ y], rule notI, elim conjE, goal_cases)
    case (1 f s a i y)
    have "\<not> hit t k (unat i mod slots t)" using no ht_shapeD(3) [OF sh] by simp
    with 1 show ?case using ht_shapeD(1,5,6) [OF sh] by (auto simp: Let_def at_slot hit_def split: if_splits)
  qed
  then show False by simp
qed

lemma remove_loop_step:
  assumes "ht_shape t"
  shows "remove_loop t k s i = (if slot_key t (unat i) = 0 then Some None else if k = slot_key t (unat i) then Some (Some i)
     else let i' = (i + 1) AND (ht_capacity t - 1) in if i' \<noteq> s then remove_loop t k s i' else Some None)"
  using ht_shapeD(1) [OF assms] by (subst remove_loop.simps) (simp add: Let_def at_slot)

lemma masked_next:
  "ht_shape t \<Longrightarrow> unat ((i + 1) AND (ht_capacity t - 1)) = Suc (unat i) mod slots t"
  using ht_shapeD(5,7) [of t] by simp

text \<open>Any run of fewer than \<open>slots\<close> steps does not meet the test on the start index.\<close>

lemma remove_loop_hit:
  assumes sh: "ht_shape t" and "first_hit t k (unat i) d" and "unat i < slots t"
    and "\<And>d'. d' < d \<Longrightarrow> probe t (unat i) (Suc d') \<noteq> unat s"
  shows "remove_loop t k s i = Some (if slot_key t (probe t (unat i) d) = 0 then None else Some (of_nat (probe t (unat i) d)))"
  using assms(2-4)
proof (induction d arbitrary: i)
  case 0
  then have "hit t k (unat i)" by (simp add: first_hit_0 probe_def)
  with 0 show ?case by (subst remove_loop_step [OF sh]) (auto simp: hit_def probe_def)
next
  case (Suc d)
  let ?i = "(i + 1) AND (ht_capacity t - 1)"
  have i: "unat ?i = Suc (unat i) mod slots t" by (rule masked_next [OF sh])
  have h: "\<not> hit t k (unat i)" "first_hit t k (unat ?i) d"
    using Suc.prems(1,2) by (auto simp: first_hit_Suc probe_def i)
  have "?i \<noteq> s" using Suc.prems(3) [of 0] i by (auto simp: probe_def)
  moreover have "remove_loop t k s ?i = Some (if slot_key t (probe t (unat i) (Suc d)) = 0 then None else Some (of_nat (probe t (unat i) (Suc d))))"
    using Suc.IH [OF h(2)] Suc.prems(3) ht_shapeD(3) [OF sh] by (simp add: i probe_Suc)
  ultimately show ?case using h(1) by (subst remove_loop_step [OF sh]) (auto simp: hit_def Let_def)
qed

text \<open>Without a hit the loop ends only when the test on the start index can succeed.\<close>

lemma remove_loop_no_hit:
  assumes sh: "ht_shape t" and no: "\<And>j. j < slots t \<Longrightarrow> \<not> hit t k j" and i: "unat i < slots t" and s: "slots t \<le> unat s"
  shows "remove_loop t k s i = None"
proof (rule ccontr)
  assume "remove_loop t k s i \<noteq> None"
  then obtain y where y: "remove_loop t k s i = Some y" by blast
  have "\<not> (t = t \<and> k = k \<and> s = s \<and> unat i < slots t)"
  proof (rule remove_loop.raw_induct [where P = "\<lambda>u a b i y. \<not> (u = t \<and> a = k \<and> b = s \<and> unat i < slots t)", OF _ y], rule notI, elim conjE, goal_cases)
    case (1 f u a b i y)
    have "unat ((i + 1) AND (ht_capacity t - 1)) < slots t" using masked_next [OF sh, of i] ht_shapeD(3) [OF sh] by simp
    moreover have "(i + 1) AND (ht_capacity t - 1) \<noteq> s" using calculation s by auto
    ultimately show ?case using 1 no [of "unat i"] ht_shapeD(1) [OF sh] by (auto simp: Let_def at_slot hit_def split: if_splits)
  qed
  with i show False by simp
qed

text \<open>Writing an entry.\<close>

definition set_entry :: "nat \<Rightarrow> u64 \<Rightarrow> 'v option \<Rightarrow> 'v vsimpleht_t \<Rightarrow> 'v vsimpleht_t" where
  "set_entry j k v t = t\<lparr>ht_entries := (ht_entries t)[j := \<lparr>ht_key = k, ht_value = v\<rparr>]\<rparr>"

lemma set_entry_sel [simp]:
  "slots (set_entry j k v t) = slots t" "home (set_entry j k v t) = home t" "probe (set_entry j k v t) = probe t"
  "ht_shape (set_entry j k v t) = ht_shape t" "ht_lock (set_entry j k v t) = ht_lock t"
  "ht_capacity (set_entry j k v t) = ht_capacity t" "ht_destroyed (set_entry j k v t) = ht_destroyed t" "ht_hash_key (set_entry j k v t) = ht_hash_key t"
  by (auto simp: set_entry_def slots_def home_def probe_def ht_shape_def fun_eq_iff)

lemma set_entry_at:
  assumes "ht_shape t" and "i < slots t"
  shows "slot_key (set_entry j k v t) i = (if i = j then k else slot_key t i)"
    "slot_val (set_entry j k v t) i = (if i = j then v else slot_val t i)"
  using ht_shapeD(2) [OF assms(1)] assms(2) by (auto simp: set_entry_def slot_key_def slot_val_def nth_list_update)

lemma entry_upds:
  "(e :: 'v vsimpleht_entry_t)\<lparr>ht_key := k\<rparr> = \<lparr>ht_key = k, ht_value = ht_value e\<rparr>"
  "e\<lparr>ht_value := v\<rparr> = \<lparr>ht_key = ht_key e, ht_value = v\<rparr>"
  by (cases e; simp)+

lemma set_entry_steps:
  "ht_shape t \<Longrightarrow> unat i < slots t \<Longrightarrow> set_value i v (set_key i k t) = set_entry (unat i) k v t"
  "ht_shape t \<Longrightarrow> unat i < slots t \<Longrightarrow> set_value i v t = set_entry (unat i) (slot_key t (unat i)) v t"
  "ht_shape t \<Longrightarrow> unat i < slots t \<Longrightarrow> set_key i k t = set_entry (unat i) k (slot_val t (unat i)) t"
  using ht_shapeD(2) [of t] by (simp_all add: set_key_def set_value_def set_entry_def slot_key_def slot_val_def entry_upds)

lemma unat_slot: "ht_shape t \<Longrightarrow> j < slots t \<Longrightarrow> unat (of_nat j :: u64) = j"
  using ht_shapeD(4) [of t] by (simp add: unat_of_nat)

definition added :: "'v vsimpleht_t \<Rightarrow> u64 \<Rightarrow> 'v option \<Rightarrow> nat \<Rightarrow> vsimpleht_ret_t \<times> 'v vsimpleht_t" where
  "added t k v j = (if slot_val t j = None then (VSIMPLEHT_RET_OK, set_entry j k v t) else (VSIMPLEHT_RET_KEY_EXISTS, set_entry j k (slot_val t j) t))"

lemma add_value_at:
  assumes sh: "ht_shape t" and "unat i < slots t" and "slot_key t (unat i) = k"
  shows "add_value t k v i = Some (Inr (added t k v (unat i)))"
proof -
  have "ht_cmp_key t k (vatomicptr_read (ht_key (ht_entries t ! unat i))) = 0" using ht_shapeD(1) [OF sh] assms by (simp add: at_slot)
  with assms show ?thesis
    by (auto simp: add_value_def added_def vatomicptr_cmpxchg_def set_entry_steps slot_val_def Let_def)
qed

lemma add_loop_step:
  assumes sh: "ht_shape t" and "k \<noteq> 0"
  shows "add_loop (Suc n) t k v i = (let p = unat i mod slots t in
     if hit t k p then Some (Inr (added t k v p)) else add_loop n t k v ((i AND (ht_capacity t - 1)) + 1))"
proof -
  let ?i = "i AND (ht_capacity t - 1)"
  have p: "unat ?i = unat i mod slots t" "unat ?i < slots t" using ht_shapeD(3,5) [OF sh] by simp_all
  have c: "?i < ht_capacity t" by (rule ht_shapeD(6) [OF sh])
  show ?thesis
  proof (cases "slot_key t (unat ?i) = 0")
    case True
    let ?t = "set_key ?i k t"
    have sh': "ht_shape ?t" "unat ?i < slots ?t" "slot_key ?t (unat ?i) = k" "slot_val ?t (unat ?i) = slot_val t (unat ?i)"
      and e: "set_entry (unat ?i) k w ?t = set_entry (unat ?i) k w t" for w
      using sh p(2) by (auto simp: set_entry_steps(3) [OF sh p(2)] set_entry_at [OF sh p(2)], simp add: set_entry_def)
    have "add_loop (Suc n) t k v i = add_value ?t k v ?i"
      using True c by (simp add: Let_def at_slot vatomicptr_cmpxchg_def slot_key_def)
    also have "\<dots> = Some (Inr (added t k v (unat ?i)))"
      using add_value_at [OF sh'(1-3)] sh'(4) e by (simp add: added_def)
    finally show ?thesis using True p(1) by (simp add: hit_def)
  next
    case False
    with c ht_shapeD(1) [OF sh] add_value_at [OF sh p(2)] p(1) show ?thesis
      by (auto simp: Let_def at_slot hit_def)
  qed
qed

lemma add_loop_hit:
  assumes sh: "ht_shape t" and k: "k \<noteq> 0" and "first_hit t k (unat i mod slots t) d" and "d < n"
  shows "add_loop n t k v i = Some (Inr (added t k v (probe t (unat i mod slots t) d)))"
  using assms(3,4)
proof (induction d arbitrary: i n)
  case 0
  then obtain m where n: "n = Suc m" by (cases n) auto
  with 0 have "hit t k (unat i mod slots t)" by (simp add: first_hit_0 probe_def)
  then show ?case unfolding n by (subst add_loop_step [OF sh k]) (auto simp: probe_def)
next
  case (Suc d)
  then obtain m where n: "n = Suc m" by (cases n) auto
  let ?i = "(i AND (ht_capacity t - 1)) + 1"
  have h: "\<not> hit t k (unat i mod slots t)" "first_hit t k (unat ?i mod slots t) d"
    using Suc.prems by (auto simp: first_hit_Suc probe_def masked_Suc [OF sh])
  from Suc.IH [OF h(2), of m] Suc.prems(2) h(1) show ?case
    unfolding n by (subst add_loop_step [OF sh k]) (simp add: probe_Suc masked_Suc [OF sh])
qed

lemma add_loop_full:
  assumes sh: "ht_shape t" and k: "k \<noteq> 0" and no: "\<And>j. j < slots t \<Longrightarrow> \<not> hit t k j"
  shows "add_loop n t k v i = Some (Inr (VSIMPLEHT_RET_TBL_FULL, t))"
proof (induction n arbitrary: i)
  case (Suc n)
  have "\<not> hit t k (unat i mod slots t)" using no ht_shapeD(3) [OF sh] by simp
  with Suc show ?case by (subst add_loop_step [OF sh k]) simp
qed simp

section \<open>Well-formed tables\<close>

text \<open>No entry that a search for the key of entry \<open>i\<close> meets before \<open>i\<close> is empty.\<close>

definition no_gap :: "'v vsimpleht_t \<Rightarrow> nat \<Rightarrow> bool" where
  "no_gap t i \<longleftrightarrow> (\<forall>d < slots t. (\<forall>d' \<le> d. probe t (home t (slot_key t i)) d' \<noteq> i) \<longrightarrow> slot_key t (probe t (home t (slot_key t i)) d) \<noteq> 0)"

definition keys_ok :: "'v vsimpleht_t \<Rightarrow> bool" where
  "keys_ok t \<longleftrightarrow> (\<forall>i < slots t. \<forall>j < slots t. slot_key t i = slot_key t j \<and> slot_key t i \<noteq> 0 \<longrightarrow> i = j) \<and>
     (\<forall>i < slots t. slot_key t i = 0 \<longrightarrow> slot_val t i = None)"

definition ht_wf :: "'v vsimpleht_t \<Rightarrow> bool" where
  "ht_wf t \<longleftrightarrow> ht_shape t \<and> keys_ok t \<and> (\<forall>i < slots t. slot_key t i \<noteq> 0 \<longrightarrow> no_gap t i)"

text \<open>The map that a table stands for.\<close>

definition ht_map :: "'v vsimpleht_t \<Rightarrow> u64 \<rightharpoonup> 'v" where
  "ht_map t k = (case find (\<lambda>i. slot_key t i = k) [0..<slots t] of Some i \<Rightarrow> slot_val t i | None \<Rightarrow> None)"

definition has_hit :: "'v vsimpleht_t \<Rightarrow> u64 \<Rightarrow> bool" where
  "has_hit t k \<longleftrightarrow> (\<exists>i \<in> set [0..<slots t]. hit t k i)"

lemma keys_okD:
  assumes "keys_ok t"
  shows "i < slots t \<Longrightarrow> j < slots t \<Longrightarrow> slot_key t i = slot_key t j \<Longrightarrow> slot_key t i \<noteq> 0 \<Longrightarrow> i = j"
    "i < slots t \<Longrightarrow> slot_key t i = 0 \<Longrightarrow> slot_val t i = None"
  using assms by (auto simp: keys_ok_def)

lemma ht_wfD:
  assumes "ht_wf t"
  shows "ht_shape t" "keys_ok t" "i < slots t \<Longrightarrow> slot_key t i \<noteq> 0 \<Longrightarrow> no_gap t i"
  using assms by (auto simp: ht_wf_def)

lemma ht_map_slot:
  assumes "keys_ok t" and "i < slots t" and "slot_key t i = k"
  shows "ht_map t k = slot_val t i"
proof -
  have "find (\<lambda>i. slot_key t i = k) [0..<slots t] \<noteq> None" using assms by (auto simp: find_None_iff)
  then obtain j where j: "find (\<lambda>i. slot_key t i = k) [0..<slots t] = Some j" by blast
  then have "j < slots t" "slot_key t j = k" by (auto simp: find_Some_iff)
  with assms keys_okD [OF assms(1)] have "slot_val t j = slot_val t i" by (metis (no_types))
  with j show ?thesis by (simp add: ht_map_def)
qed

lemma ht_map_absent:
  assumes "\<And>i. i < slots t \<Longrightarrow> slot_key t i \<noteq> k"
  shows "ht_map t k = None"
proof -
  have "find (\<lambda>i. slot_key t i = k) [0..<slots t] = None" using assms by (auto simp: find_None_iff)
  then show ?thesis by (simp add: ht_map_def)
qed

lemma home_less: "ht_shape t \<Longrightarrow> home t k < slots t"
  using ht_shapeD(3) [of t] by (simp add: home_def)

lemma first_hit_key:
  assumes wf: "ht_wf t" and i: "i < slots t" "slot_key t i = k" "k \<noteq> 0"
  shows "\<exists>d < slots t. first_hit t k (home t k) d \<and> probe t (home t k) d = i"
proof -
  note sh = ht_wfD(1) [OF wf]
  obtain d where d: "d < slots t" "probe t (home t k) d = i" using probe_onto [OF home_less [OF sh] i(1)] by blast
  have "\<not> hit t k (probe t (home t k) d')" if "d' < d" for d'
  proof -
    have ne: "probe t (home t k) d'' \<noteq> i" if "d'' \<le> d'" for d''
      using probe_inj [of t "home t k" d'' d] that \<open>d' < d\<close> d by auto
    have "no_gap t i" using ht_wfD(3) [OF wf i(1)] i by simp
    moreover have "\<forall>d'' \<le> d'. probe t (home t (slot_key t i)) d'' \<noteq> i" using ne i(2) by simp
    ultimately have "slot_key t (probe t (home t k) d') \<noteq> 0" using i(2) d(1) that unfolding no_gap_def by auto
    moreover have "slot_key t (probe t (home t k) d') \<noteq> k"
      using keys_okD(1) [OF ht_wfD(2) [OF wf] probe_less [OF sh] i(1)] i ne [of d'] by auto
    ultimately show ?thesis by (simp add: hit_def)
  qed
  with d i show ?thesis by (auto simp: first_hit_def hit_def)
qed

text \<open>Every search that ends, ends at the entry with the key or at an empty one if there is none.\<close>

lemma first_hit_cases:
  assumes wf: "ht_wf t" and "k \<noteq> 0" and "has_hit t k"
  obtains d where "d < slots t" "first_hit t k (home t k) d" "slot_key t (probe t (home t k) d) = k"
  | d where "d < slots t" "first_hit t k (home t k) d" "slot_key t (probe t (home t k) d) = 0" "\<And>i. i < slots t \<Longrightarrow> slot_key t i \<noteq> k"
proof (cases "\<exists>i < slots t. slot_key t i = k")
  case True
  then obtain i where i: "i < slots t" "slot_key t i = k" by blast
  from first_hit_key [OF wf this assms(2)] i that(1) show ?thesis by auto
next
  case False
  obtain j where "j < slots t" "hit t k j" using assms(3) by (auto simp: has_hit_def)
  then obtain d where d: "d < slots t" "first_hit t k (home t k) d"
    using first_hit_exists [OF home_less [OF ht_wfD(1) [OF wf]]] by blast
  with False probe_less [OF ht_wfD(1) [OF wf]] have "slot_key t (probe t (home t k) d) = 0"
    by (auto simp: first_hit_def hit_def)
  with d False that(2) show ?thesis by auto
qed

section \<open>The lock\<close>

text \<open>The lock while exactly the calling thread is registered, and while no thread is.\<close>

definition one_reader :: rwlock_t where
  "one_reader = \<lparr>rw_n = RWLOCK_N, rw_wb = 0, rw_rs = \<lparr>sem_s = RWLOCK_N - 1\<rparr>\<rparr>"

definition no_reader :: rwlock_t where
  "no_reader = \<lparr>rw_n = RWLOCK_N, rw_wb = 0, rw_rs = \<lparr>sem_s = RWLOCK_N\<rparr>\<rparr>"

definition one_writer :: rwlock_t where
  "one_writer = \<lparr>rw_n = RWLOCK_N, rw_wb = 1, rw_rs = \<lparr>sem_s = 0\<rparr>\<rparr>"

lemmas lock_run_simps = alone.simps [of rwlock_read_acquire] alone.simps [of rwlock_write_acquire] alone.simps [of rwlock_write_release]
  semaphore_acquire_def semaphore_release_def ge_sub_test_def vatomic_simps RWLOCK_N_eq

lemma lock_runs:
  "alone rwlock_read_acquire RaAwait no_reader = Some ((), one_reader)"
  "alone rwlock_write_acquire (WaAwait EqWait) no_reader = Some ((), one_writer)"
  "alone rwlock_write_release WrClear one_writer = Some ((), no_reader)"
  "rwlock_read_release one_reader = no_reader"
  "rwlock_acquired_by_readers one_reader" "\<not> rwlock_acquired_by_writer one_reader"
  by (simp_all add: lock_run_simps one_reader_def no_reader_def one_writer_def rwlock_read_release_def
      rwlock_acquired_by_readers_def rwlock_acquired_by_writer_def)

definition registered :: "'v vsimpleht_t \<Rightarrow> bool" where
  "registered t \<longleftrightarrow> ht_lock t = one_reader"

lemma give_cleanup_registered: "registered t \<Longrightarrow> vsimpleht_give_cleanup_a_chance t = Some (Inr t)"
  using lock_runs(6) by (simp add: vsimpleht_give_cleanup_a_chance_def registered_def)

section \<open>Looking up\<close>

lemma get_returns:
  assumes wf: "ht_wf t" and reg: "registered t" and k: "k \<noteq> 0" and h: "has_hit t k"
  shows "vsimpleht_get t k = Some (Inr (ht_map t k, t))"
proof -
  note sh = ht_wfD(1) [OF wf]
  from wf k h show ?thesis
  proof (cases rule: first_hit_cases)
    case (1 d)
    then have "get_loop t k (ht_hash_key t k) = Some (Inr (slot_val t (probe t (home t k) d)))"
      using get_loop_hit [OF sh, of k "ht_hash_key t k" d] k by (simp add: home_def)
    with 1 ht_map_slot [OF ht_wfD(2) [OF wf] probe_less [OF sh] 1(3)] show ?thesis
      by (simp add: vsimpleht_get_def give_cleanup_registered [OF reg])
  next
    case (2 d)
    then have "get_loop t k (ht_hash_key t k) = Some (Inr None)"
      using get_loop_hit [OF sh, of k "ht_hash_key t k" d] by (simp add: home_def)
    with ht_map_absent [OF 2(4)] show ?thesis
      by (simp add: vsimpleht_get_def give_cleanup_registered [OF reg])
  qed
qed

lemma get_diverges:
  assumes wf: "ht_wf t" and reg: "registered t" and h: "\<not> has_hit t k"
  shows "vsimpleht_get t k = None"
  using get_loop_no_hit [OF ht_wfD(1) [OF wf], of k] h by (simp add: vsimpleht_get_def give_cleanup_registered [OF reg] has_hit_def)

section \<open>Adding\<close>

lemma ht_map_set_entry:
  assumes sh: "ht_shape t" and ok: "keys_ok t" and j: "j < slots t" "slot_key t j = 0 \<or> slot_key t j = k" "k \<noteq> 0"
    and only: "\<And>i. i < slots t \<Longrightarrow> slot_key t i = k \<Longrightarrow> i = j"
  shows "keys_ok (set_entry j k v t)" "ht_map (set_entry j k v t) = (ht_map t)(k := v)"
proof -
  note at = set_entry_at [OF sh]
  have "i = i'" if "i < slots t" "i' < slots t" "slot_key (set_entry j k v t) i = slot_key (set_entry j k v t) i'"
    "slot_key (set_entry j k v t) i \<noteq> 0" for i i'
  proof -
    have ne: "slot_key t x \<noteq> k" if "x < slots t" "x \<noteq> j" for x using only that by blast
    have "slot_key t i = slot_key t i' \<and> slot_key t i \<noteq> 0" if "i \<noteq> j" "i' \<noteq> j"
      using that \<open>slot_key (set_entry j k v t) i = slot_key (set_entry j k v t) i'\<close> \<open>slot_key (set_entry j k v t) i \<noteq> 0\<close>
        at(1) [OF \<open>i < slots t\<close>] at(1) [OF \<open>i' < slots t\<close>] by simp
    moreover have "i = j \<longleftrightarrow> i' = j"
      using ne [OF that(1)] ne [OF that(2)] that(3) at(1) [OF that(1)] at(1) [OF that(2)] by metis
    ultimately show ?thesis using keys_okD(1) [OF ok that(1,2)] by blast
  qed
  moreover have "slot_val (set_entry j k v t) i = None" if "i < slots t" "slot_key (set_entry j k v t) i = 0" for i
    using that keys_okD(2) [OF ok that(1)] j(3) by (simp add: at split: if_splits)
  ultimately show ok': "keys_ok (set_entry j k v t)" unfolding keys_ok_def set_entry_sel by blast
  show "ht_map (set_entry j k v t) = (ht_map t)(k := v)"
  proof
    fix a
    show "ht_map (set_entry j k v t) a = ((ht_map t)(k := v)) a"
    proof (cases "a = k")
      case True
      with ht_map_slot [OF ok', of j k] j at show ?thesis by simp
    next
      case False
      show ?thesis
      proof (cases "\<exists>i < slots t. i \<noteq> j \<and> slot_key t i = a")
        case True
        then obtain i where i: "i < slots t" "i \<noteq> j" "slot_key t i = a" by blast
        with ht_map_slot [OF ok', of i a] ht_map_slot [OF ok i(1,3)] at False show ?thesis by simp
      next
        case None: False
        have "ht_map (set_entry j k v t) a = None"
          by (rule ht_map_absent) (use None False at in \<open>auto split: if_splits\<close>)
        moreover have "ht_map t a = None"
        proof (cases "slot_key t j = a")
          case True
          with False j ht_map_slot [OF ok j(1) True] keys_okD(2) [OF ok j(1)] show ?thesis by auto
        next
          case F: False
          show ?thesis by (rule ht_map_absent) (use None F in auto)
        qed
        ultimately show ?thesis using False by simp
      qed
    qed
  qed
qed

lemma no_gap_grow:
  assumes "ht_shape t" and "no_gap t i" and "i < slots t" and "slot_key t i \<noteq> 0 \<longrightarrow> i \<noteq> j \<or> slot_key t i = k" and "k \<noteq> 0" "slot_key t i \<noteq> 0"
  shows "no_gap (set_entry j k v t) i"
  using assms probe_less [OF assms(1)] by (auto simp: no_gap_def set_entry_at)

lemma wf_set_entry:
  assumes wf: "ht_wf t" and k: "k \<noteq> 0" and d: "d < slots t" "first_hit t k (home t k) d"
  shows "ht_wf (set_entry (probe t (home t k) d) k v t)" "ht_map (set_entry (probe t (home t k) d) k v t) = (ht_map t)(k := v)"
proof -
  let ?j = "probe t (home t k) d" and ?t = "set_entry (probe t (home t k) d) k v t"
  note sh = ht_wfD(1) [OF wf] and ok = ht_wfD(2) [OF wf]
  have j: "?j < slots t" by (rule probe_less [OF sh])
  have hit: "slot_key t ?j = 0 \<or> slot_key t ?j = k" using d by (simp add: first_hit_def hit_def)
  have only: "i = ?j" if i: "i < slots t" "slot_key t i = k" for i
  proof -
    obtain d' where d': "d' < slots t" "first_hit t k (home t k) d'" "probe t (home t k) d' = i"
      using first_hit_key [OF wf i k] by blast
    then have "d' = d" using d unfolding first_hit_def by (metis linorder_neqE_nat)
    with d' show ?thesis by simp
  qed
  note m = ht_map_set_entry [OF sh ok j hit k only, where v = v]
  have "no_gap ?t i" if i: "i < slots t" "slot_key ?t i \<noteq> 0" for i
  proof (cases "i = ?j")
    case True
    have "slot_key t (probe t (home t k) d') \<noteq> 0" if "\<forall>d'' \<le> d'. probe t (home t k) d'' \<noteq> ?j" for d'
    proof -
      have "d' < d" using that by (metis not_le_imp_less)
      with d show ?thesis by (auto simp: first_hit_def hit_def)
    qed
    with True k show ?thesis using set_entry_at [OF sh probe_less [OF sh]] set_entry_at [OF sh j]
      by (auto simp: no_gap_def)
  next
    case False
    then have "slot_key t i \<noteq> 0" using i set_entry_at [OF sh i(1)] by simp
    with ht_wfD(3) [OF wf i(1)] False i(1) k show ?thesis by (intro no_gap_grow [OF sh]) auto
  qed
  with m(1) sh show "ht_wf ?t" by (simp add: ht_wf_def)
  show "ht_map ?t = (ht_map t)(k := v)" by (rule m(2))
qed

lemma set_entry_same:
  fixes t :: "'v vsimpleht_t"
  shows "ht_shape t \<Longrightarrow> j < slots t \<Longrightarrow> slot_key t j = k \<Longrightarrow> set_entry j k (slot_val t j) t = t"
proof -
  assume t: "ht_shape t" "j < slots t" "slot_key t j = k"
  have "\<lparr>ht_key = k, ht_value = slot_val t j\<rparr> = ht_entries t ! j"
    using t by (auto simp: slot_key_def slot_val_def)
  then have "(ht_entries t)[j := \<lparr>ht_key = k, ht_value = slot_val t j\<rparr>] = ht_entries t"
    by (simp only: list_update_id)
  then show ?thesis by (simp add: set_entry_def)
qed

lemma add_internal_hit:
  assumes wf: "ht_wf t" and k: "k \<noteq> 0" and d: "d < slots t" "first_hit t k (home t k) d"
  shows "vsimpleht_add_internal t k (Some v) = Some (Inr (if ht_map t k = None then (VSIMPLEHT_RET_OK, set_entry (probe t (home t k) d) k (Some v) t) else (VSIMPLEHT_RET_KEY_EXISTS, t)))"
proof -
  let ?j = "probe t (home t k) d"
  note sh = ht_wfD(1) [OF wf] and ok = ht_wfD(2) [OF wf]
  have j: "?j < slots t" by (rule probe_less [OF sh])
  have r: "vsimpleht_add_internal t k (Some v) = Some (Inr (added t k (Some v) ?j))"
    using add_loop_hit [OF sh k, of "ht_hash_key t k" d "unat (ht_capacity t)"] d k
    by (simp add: vsimpleht_add_internal_def home_def slots_def)
  have "slot_key t ?j = k \<or> slot_key t ?j = 0" using d by (auto simp: first_hit_def hit_def)
  then show ?thesis
  proof
    assume e: "slot_key t ?j = k"
    then show ?thesis using r ht_map_slot [OF ok j e] set_entry_same [OF sh j e] by (auto simp: added_def)
  next
    assume e: "slot_key t ?j = 0"
    have "slot_key t i \<noteq> k" if i: "i < slots t" for i
    proof
      assume ik: "slot_key t i = k"
      obtain d' where "d' < slots t" "first_hit t k (home t k) d'" "probe t (home t k) d' = i"
        using first_hit_key [OF wf i ik k] by blast
      moreover have "d' = d" using calculation d unfolding first_hit_def by (metis linorder_neqE_nat)
      ultimately show False using e ik k by simp
    qed
    then have "ht_map t k = None" by (rule ht_map_absent)
    then show ?thesis using r keys_okD(2) [OF ok j e] by (simp add: added_def)
  qed
qed

lemma has_hit_first:
  assumes "ht_wf t" and "has_hit t k"
  obtains d where "d < slots t" "first_hit t k (home t k) d"
proof -
  obtain i where "i < slots t" "hit t k i" using assms(2) by (auto simp: has_hit_def)
  from first_hit_exists [OF home_less [OF ht_wfD(1) [OF assms(1)]] this] that show thesis by blast
qed

lemma add_hit:
  assumes wf: "ht_wf t" and reg: "registered t" and k: "k \<noteq> 0" and h: "has_hit t k"
  shows "\<exists>t'. vsimpleht_add t k (Some v) = Some (Inr (if ht_map t k = None then VSIMPLEHT_RET_OK else VSIMPLEHT_RET_KEY_EXISTS, t')) \<and>
     ht_wf t' \<and> registered t' \<and> ht_map t' = (if ht_map t k = None then (ht_map t)(k \<mapsto> v) else ht_map t) \<and>
     ht_destroyed t' = ht_destroyed t \<and> slots t' = slots t"
proof -
  obtain d where d: "d < slots t" "first_hit t k (home t k) d" using has_hit_first [OF wf h] .
  show ?thesis
    using add_internal_hit [OF wf k d, of v] wf_set_entry [OF wf k d, of "Some v"] wf reg k
    by (auto simp: vsimpleht_add_def give_cleanup_registered [OF reg] registered_def)
qed

lemma add_full:
  assumes wf: "ht_wf t" and reg: "registered t" and k: "k \<noteq> 0" and h: "\<not> has_hit t k"
  shows "vsimpleht_add t k (Some v) = Some (Inr (VSIMPLEHT_RET_TBL_FULL, t))"
  using add_loop_full [OF ht_wfD(1) [OF wf] k, where v = "Some v"] h k
  by (simp add: vsimpleht_add_def give_cleanup_registered [OF reg] vsimpleht_add_internal_def has_hit_def)

section \<open>Cleaning up\<close>

text \<open>
  Positions are counted from an empty slot \<open>s\<close>. No bucket reaches over \<open>s\<close>, so the entry at position
  \<open>p\<close> has its home at a position \<open>r\<close> not behind it. While the positions below \<open>e\<close> are cleaned up, the
  entries there are reachable and hold values; behind \<open>e\<close> only gaps below \<open>e\<close> can separate an entry from
  its home.
\<close>

definition placed :: "'v vsimpleht_t \<Rightarrow> nat \<Rightarrow> nat \<Rightarrow> nat \<Rightarrow> bool" where
  "placed t s e p \<longleftrightarrow> (\<exists>r \<le> p. 0 < r \<and> probe t s r = home t (slot_key t (probe t s p)) \<and>
     (\<forall>q. r \<le> q \<and> q < p \<and> (p < e \<or> e \<le> q) \<longrightarrow> slot_key t (probe t s q) \<noteq> 0)) \<and>
     (p < e \<longrightarrow> slot_val t (probe t s p) \<noteq> None)"

definition clean_inv :: "'v vsimpleht_t \<Rightarrow> nat \<Rightarrow> nat \<Rightarrow> 'v vsimpleht_t \<Rightarrow> bool" where
  "clean_inv t0 s e t \<longleftrightarrow> ht_shape t \<and> keys_ok t \<and> t = t0\<lparr>ht_entries := ht_entries t\<rparr> \<and> s < slots t \<and> slot_key t s = 0 \<and>
     ht_map t = ht_map t0 \<and> (\<forall>p < slots t. slot_key t (probe t s p) \<noteq> 0 \<longrightarrow> placed t s e p)"

lemma probe_add: "probe t (probe t s r) d = probe t s (r + d)"
  by (simp add: probe_def mod_add_left_eq add.assoc)

lemma probe_wrap: "s < slots t \<Longrightarrow> probe t s (slots t) = s" "s < slots t \<Longrightarrow> probe t s 0 = s"
  by (simp_all add: probe_def)

lemma clean_start:
  assumes wf: "ht_wf t" and s: "s < slots t" "slot_key t s = 0"
  shows "clean_inv t s 0 t"
proof -
  note sh = ht_wfD(1) [OF wf]
  have "placed t s 0 p" if p: "p < slots t" "slot_key t (probe t s p) \<noteq> 0" for p
  proof -
    let ?i = "probe t s p"
    obtain r where r: "r < slots t" "probe t s r = home t (slot_key t ?i)"
      using probe_onto [OF s(1) home_less [OF sh]] by metis
    have gap: "slot_key t (probe t s (r + d)) \<noteq> 0" if "d < slots t" "\<And>d'. d' \<le> d \<Longrightarrow> probe t s (r + d') \<noteq> ?i" for d
      using ht_wfD(3) [OF wf probe_less [OF sh] p(2)] that r(2) unfolding no_gap_def by (metis probe_add)
    have p0: "p \<noteq> 0" using p(2) s probe_wrap(2) [OF s(1)] by metis
    have "0 < r"
    proof (rule ccontr)
      assume "\<not> 0 < r"
      then have "slot_key t (probe t s 0) \<noteq> 0" using gap [of 0] probe_inj [of t s 0 p] p(1) p0 by auto
      then show False using s probe_wrap(2) [OF s(1)] by simp
    qed
    have "r \<le> p"
    proof (rule ccontr)
      assume "\<not> r \<le> p"
      then have ne: "probe t s (r + d') \<noteq> ?i" if "d' \<le> slots t - r" for d'
      proof (cases "d' = slots t - r")
        case True
        then have "probe t s (r + d') = probe t s 0" using r(1) probe_wrap [OF s(1)] by simp
        then show ?thesis using probe_inj [of t s 0 p] p(1) p0 by auto
      next
        case False
        then have "r + d' < slots t" using that r(1) by simp
        then show ?thesis using probe_inj [of t s "r + d'" p] p(1) \<open>\<not> r \<le> p\<close> by auto
      qed
      then have "slot_key t (probe t s (r + (slots t - r))) \<noteq> 0" using gap [of "slots t - r"] \<open>\<not> r \<le> p\<close> r(1) by auto
      then show False using r(1) s probe_wrap(1) [OF s(1)] by simp
    qed
    moreover have "slot_key t (probe t s q) \<noteq> 0" if "r \<le> q" "q < p" for q
    proof -
      have "probe t s (r + d') \<noteq> ?i" if "d' \<le> q - r" for d'
      proof -
        have "r + d' < p" using that \<open>q < p\<close> \<open>r \<le> q\<close> by simp
        then show ?thesis using probe_inj [of t s "r + d'" p] p(1) by auto
      qed
      then show ?thesis using gap [of "q - r"] that p(1) by simp
    qed
    ultimately show ?thesis using r(2) \<open>0 < r\<close> by (auto simp: placed_def)
  qed
  with wf s show ?thesis by (simp add: clean_inv_def ht_wf_def)
qed

lemma clean_end:
  assumes "clean_inv t0 s (slots t) t"
  shows "ht_wf t"
proof -
  have sh: "ht_shape t" and s: "s < slots t" using assms by (auto simp: clean_inv_def)
  have "no_gap t i" if i: "i < slots t" "slot_key t i \<noteq> 0" for i
  proof -
    obtain p where p: "p < slots t" "probe t s p = i" using probe_onto [OF s i(1)] by blast
    then obtain r where r: "r \<le> p" "probe t s r = home t (slot_key t i)" "\<And>q. r \<le> q \<Longrightarrow> q < p \<Longrightarrow> slot_key t (probe t s q) \<noteq> 0"
      using assms i(2) by (auto simp: clean_inv_def placed_def)
    show ?thesis unfolding no_gap_def
    proof (intro allI impI)
      fix d assume "d < slots t" and ne: "\<forall>d' \<le> d. probe t (home t (slot_key t i)) d' \<noteq> i"
      have "d < p - r"
      proof (rule ccontr)
        assume "\<not> d < p - r"
        with ne have "probe t s (r + (p - r)) \<noteq> i" using r(2) by (metis not_less probe_add)
        with r(1) p(2) show False by simp
      qed
      with r(3) [of "r + d"] have "slot_key t (probe t s (r + d)) \<noteq> 0" by simp
      then show "slot_key t (probe t (home t (slot_key t i)) d) \<noteq> 0" using r(2) by (metis probe_add)
    qed
  qed
  with assms show ?thesis by (simp add: clean_inv_def ht_wf_def)
qed

lemma clean_index: "ht_shape t \<Longrightarrow> unat ((of_nat e + of_nat s) AND (ht_capacity t - 1)) = probe t s e"
proof -
  assume sh: "ht_shape t"
  have "unat (of_nat s + of_nat e :: u64) mod slots t = (s + e) mod slots t"
  proof -
    have "slots t dvd 2 ^ 64" using sh and_mask_mod(2) [of "ht_capacity t"] by (simp add: ht_shape_def slots_def)
    then show ?thesis
      using unat_add_of_nat_mod_dvd [of "slots t" "0 :: u64" "s + e"] by simp
  qed
  then show ?thesis using ht_shapeD(5) [OF sh] by (simp add: probe_def add.commute)
qed

lemma ht_map_clear:
  assumes sh: "ht_shape t" and ok: "keys_ok t" and i: "i < slots t" "slot_key t i = k" "k \<noteq> 0"
  shows "keys_ok (set_entry i 0 None t)" "ht_map (set_entry i 0 None t) = (ht_map t)(k := None)"
proof -
  note at = set_entry_at [OF sh]
  have "x = y" if "x < slots t" "y < slots t" "slot_key (set_entry i 0 None t) x = slot_key (set_entry i 0 None t) y"
    "slot_key (set_entry i 0 None t) x \<noteq> 0" for x y
    using that keys_okD(1) [OF ok that(1,2)] at(1) [OF that(1)] at(1) [OF that(2)] by (auto split: if_splits)
  moreover have "slot_val (set_entry i 0 None t) x = None" if "x < slots t" "slot_key (set_entry i 0 None t) x = 0" for x
    using that keys_okD(2) [OF ok that(1)] by (simp add: at split: if_splits)
  ultimately show ok': "keys_ok (set_entry i 0 None t)" unfolding keys_ok_def set_entry_sel by blast
  show "ht_map (set_entry i 0 None t) = (ht_map t)(k := None)"
  proof
    fix a
    show "ht_map (set_entry i 0 None t) a = ((ht_map t)(k := None)) a"
    proof (cases "\<exists>x < slots t. x \<noteq> i \<and> slot_key t x = a")
      case True
      then obtain x where x: "x < slots t" "x \<noteq> i" "slot_key t x = a" by blast
      have "a \<noteq> k" using keys_okD(1) [OF ok x(1) i(1)] x i by auto
      with x ht_map_slot [OF ok', of x a] ht_map_slot [OF ok x(1,3)] at show ?thesis by simp
    next
      case False
      have "ht_map (set_entry i 0 None t) a = None"
      proof (cases "a = 0")
        case True
        with ht_map_slot [OF ok', of i 0] i at show ?thesis by simp
      next
        case nz: False
        show ?thesis by (rule ht_map_absent) (use False nz at in \<open>auto split: if_splits\<close>)
      qed
      moreover have "ht_map t a = None" if "a \<noteq> k" using that False i by (intro ht_map_absent) auto
      ultimately show ?thesis by auto
    qed
  qed
qed

lemma placed_next: "placed t s e p \<Longrightarrow> p \<noteq> e \<Longrightarrow> placed t s (Suc e) p"
  by (auto simp: placed_def less_Suc_eq)

text \<open>Emptying position \<open>e\<close>, and filling an empty position before it.\<close>

lemma placed_clear:
  assumes sh: "ht_shape t" and s: "s < slots t" and e: "e < slots t" and p: "p < slots t" "p \<noteq> e" and pl: "placed t s e p"
  shows "placed (set_entry (probe t s e) 0 None t) s (Suc e) p"
proof -
  have at: "slot_key (set_entry (probe t s e) 0 None t) (probe t s q) = (if q = e then 0 else slot_key t (probe t s q))"
    "slot_val (set_entry (probe t s e) 0 None t) (probe t s q) = (if q = e then None else slot_val t (probe t s q))" if "q < slots t" for q
    using set_entry_at [OF sh probe_less [OF sh]] probe_inj [OF _ that e, of s] by auto
  obtain r where r: "r \<le> p" "0 < r" "probe t s r = home t (slot_key t (probe t s p))"
      "\<And>q. r \<le> q \<Longrightarrow> q < p \<Longrightarrow> p < e \<or> e \<le> q \<Longrightarrow> slot_key t (probe t s q) \<noteq> 0" and v: "p < e \<Longrightarrow> slot_val t (probe t s p) \<noteq> None"
    using pl unfolding placed_def by blast
  have "slot_key (set_entry (probe t s e) 0 None t) (probe t s q) \<noteq> 0" if "r \<le> q" "q < p" "p < Suc e \<or> Suc e \<le> q" for q
    using r(4) [of q] that at(1) [of q] p by auto
  then show ?thesis using r(1-3) v p at(1,2) [OF p(1)] unfolding placed_def set_entry_sel by (auto simp: less_Suc_eq)
qed

lemma placed_fill:
  assumes sh: "ht_shape t" and s: "s < slots t" and j: "j < slots t" "slot_key t (probe t s j) = 0" "k \<noteq> 0"
    and p: "p < slots t" "p \<noteq> j" and pl: "placed t s e p"
  shows "placed (set_entry (probe t s j) k v t) s e p"
proof -
  have at: "slot_key (set_entry (probe t s j) k v t) (probe t s q) = (if q = j then k else slot_key t (probe t s q))"
    "slot_val (set_entry (probe t s j) k v t) (probe t s q) = (if q = j then v else slot_val t (probe t s q))" if "q < slots t" for q
    using set_entry_at [OF sh probe_less [OF sh]] probe_inj [OF _ that j(1), of s] by auto
  obtain r where r: "r \<le> p" "0 < r" "probe t s r = home t (slot_key t (probe t s p))"
      "\<And>q. r \<le> q \<Longrightarrow> q < p \<Longrightarrow> p < e \<or> e \<le> q \<Longrightarrow> slot_key t (probe t s q) \<noteq> 0" and v: "p < e \<Longrightarrow> slot_val t (probe t s p) \<noteq> None"
    using pl unfolding placed_def by blast
  have "slot_key (set_entry (probe t s j) k v t) (probe t s q) \<noteq> 0" if "r \<le> q" "q < p" "p < e \<or> e \<le> q" for q
    using r(4) [of q] that at(1) [of q] p j(3) by auto
  then show ?thesis using r(1-3) v p at(1,2) [OF p(1)] unfolding placed_def set_entry_sel by auto
qed

lemma set_entry_swap: "i \<noteq> j \<Longrightarrow> set_entry i a u (set_entry j b v t) = set_entry j b v (set_entry i a u t)"
  by (simp add: set_entry_def list_update_swap)

lemma clean_invD:
  assumes "clean_inv t0 s e t"
  shows "ht_shape t" "keys_ok t" "s < slots t" "slot_key t s = 0" "ht_map t = ht_map t0"
    "p < slots t \<Longrightarrow> slot_key t (probe t s p) \<noteq> 0 \<Longrightarrow> placed t s e p" "t = t0\<lparr>ht_entries := ht_entries t\<rparr>"
  using assms unfolding clean_inv_def by blast+

lemma clean_inv_clear:
  assumes inv: "clean_inv t0 s e t" and e: "e < slots t" and k: "slot_key t (probe t s e) \<noteq> 0" and v: "slot_val t (probe t s e) = None"
  shows "clean_inv t0 s (Suc e) (set_entry (probe t s e) 0 None t)"
proof -
  note sh = clean_invD(1) [OF inv] and ok = clean_invD(2) [OF inv] and s = clean_invD(3,4) [OF inv]
  let ?t = "set_entry (probe t s e) 0 None t"
  have at: "slot_key ?t (probe t s p) = (if probe t s p = probe t s e then 0 else slot_key t (probe t s p))" for p
    using set_entry_at(1) [OF sh probe_less [OF sh]] .
  note m = ht_map_clear [OF sh ok probe_less [OF sh] refl k]
  have "ht_map t (slot_key t (probe t s e)) = None" using ht_map_slot [OF ok probe_less [OF sh] refl] v by simp
  then have "ht_map ?t = ht_map t0" using m(2) clean_invD(5) [OF inv] by (simp add: fun_upd_idem)
  moreover have "placed ?t s (Suc e) p" if "p < slots t" "slot_key ?t (probe t s p) \<noteq> 0" for p
  proof -
    have "p \<noteq> e" "slot_key t (probe t s p) \<noteq> 0" using that at [of p] by (auto split: if_splits)
    then show ?thesis using placed_clear [OF sh s(1) e that(1)] clean_invD(6) [OF inv that(1)] by simp
  qed
  moreover have "slot_key ?t s = 0" using set_entry_at(1) [OF sh s(1)] s(2) by simp
  moreover have "?t = t0\<lparr>ht_entries := ht_entries ?t\<rparr>" by (subst clean_invD(7) [OF inv]) (simp add: set_entry_def)
  ultimately show ?thesis using m(1) sh s(1) by (simp add: clean_inv_def)
qed

lemma clean_inv_keep:
  assumes inv: "clean_inv t0 s e t" and e: "slot_key t (probe t s e) = 0 \<or> placed t s (Suc e) e"
  shows "clean_inv t0 s (Suc e) t"
proof -
  have "placed t s (Suc e) p" if "p < slots t" "slot_key t (probe t s p) \<noteq> 0" for p
    using placed_next [OF clean_invD(6) [OF inv that]] e that by (cases "p = e") auto
  with inv show ?thesis unfolding clean_inv_def by blast
qed

text \<open>An entry with a value stays, or moves to an empty position between its home and where it was.\<close>

lemma clean_inv_move:
  assumes inv: "clean_inv t0 s e t" and e: "e < slots t" and k: "slot_key t (probe t s e) = k" "k \<noteq> 0"
    and v: "slot_val t (probe t s e) = Some v" and r: "0 < r" "probe t s r = home t k" "r \<le> q" "q < e"
    and q: "slot_key t (probe t s q) = 0" "\<And>x. r \<le> x \<Longrightarrow> x < q \<Longrightarrow> slot_key t (probe t s x) \<noteq> 0"
  shows "clean_inv t0 s (Suc e) (set_entry (probe t s e) 0 None (set_entry (probe t s q) k (Some v) t))"
proof -
  note sh = clean_invD(1) [OF inv] and ok = clean_invD(2) [OF inv] and s = clean_invD(3,4) [OF inv]
  let ?c = "set_entry (probe t s e) 0 None t" and ?t = "set_entry (probe t s q) k (Some v) (set_entry (probe t s e) 0 None t)"
  have ql: "q < slots t" using r e by simp
  have ne: "probe t s e \<noteq> probe t s q" using probe_inj [OF _ e ql, of s] r by auto
  have sw: "set_entry (probe t s e) 0 None (set_entry (probe t s q) k (Some v) t) = ?t" by (rule set_entry_swap [OF ne])
  have shc: "ht_shape ?c" using sh by simp
  have c: "slot_key ?c (probe t s x) = (if x = e then 0 else slot_key t (probe t s x))" if "x < slots t" for x
    using set_entry_at [OF sh probe_less [OF sh]] probe_inj [OF _ that e, of s] by auto
  have at: "slot_key ?t (probe t s x) = (if x = q then k else if x = e then 0 else slot_key t (probe t s x))"
    "slot_val ?t (probe t s x) = (if x = q then Some v else slot_val ?c (probe t s x))" if "x < slots t" for x
    using set_entry_at [OF shc, of "probe t s x"] probe_less [OF sh] probe_inj [OF _ that ql, of s] c [OF that] by auto
  note m = ht_map_clear [OF sh ok probe_less [OF sh] k]
  have "ht_map t k = Some v" using ht_map_slot [OF ok probe_less [OF sh] k(1)] v by simp
  moreover have only: "slot_key ?c i \<noteq> k" if "i < slots t" for i
    using keys_okD(1) [OF ok that probe_less [OF sh], of s e] k set_entry_at(1) [OF sh that] by auto
  moreover note ht_map_set_entry [OF shc m(1), of "probe t s q" k "Some v"]
  ultimately have map: "keys_ok ?t" "ht_map ?t = ht_map t0"
    using probe_less [OF sh] c [OF ql] q(1) k(2) m(2) clean_invD(5) [OF inv] by auto
  have "placed ?t s (Suc e) p" if p: "p < slots t" "slot_key ?t (probe t s p) \<noteq> 0" for p
  proof (cases "p = q")
    case True
    have "slot_key ?t (probe t s x) \<noteq> 0" if "r \<le> x" "x < q" for x using q(2) [OF that] at(1) [of x] that r e k(2) by auto
    then show ?thesis using True r at [OF ql] unfolding placed_def set_entry_sel by auto
  next
    case False
    then have "p \<noteq> e" "slot_key t (probe t s p) \<noteq> 0" using p at(1) [OF p(1)] by (auto split: if_splits)
    then have "placed ?c s (Suc e) p" using placed_clear [OF sh s(1) e p(1)] clean_invD(6) [OF inv p(1)] by simp
    moreover have "slot_key ?c (probe ?c s q) = 0" using c [OF ql] q(1) by simp
    ultimately show ?thesis using placed_fill [OF shc _ _ _ k(2) _ False, of s "Suc e" "Some v"] s(1) ql p(1) by simp
  qed
  moreover have "slot_key ?t s = 0" using at(1) [of 0] c [of 0] s probe_wrap(2) [OF s(1)] r e by (auto split: if_splits)
  moreover have "?t = t0\<lparr>ht_entries := ht_entries ?t\<rparr>" by (subst clean_invD(7) [OF inv]) (simp add: set_entry_def)
  ultimately show ?thesis using map sh s(1) unfolding sw by (simp add: clean_inv_def)
qed

lemma clean_slot_step:
  assumes inv: "clean_inv t0 s e t" and e: "e < slots t"
  shows "\<exists>t'. clean_slot (of_nat s) e t = Some (Inr t') \<and> clean_inv t0 s (Suc e) t'"
proof -
  note sh = clean_invD(1) [OF inv] and ok = clean_invD(2) [OF inv] and s = clean_invD(3,4) [OF inv]
  let ?i = "(of_nat e + of_nat s) AND (ht_capacity t - 1)" and ?k = "slot_key t (probe t s e)"
  have i: "unat ?i = probe t s e" by (rule clean_index [OF sh])
  have il: "unat ?i < slots t" using i probe_less [OF sh] by simp
  consider "?k = 0" | "?k \<noteq> 0" "slot_val t (probe t s e) = None" | v where "?k \<noteq> 0" "slot_val t (probe t s e) = Some v" by (metis option.exhaust)
  then show ?thesis
  proof cases
    case 1
    then show ?thesis using clean_inv_keep [OF inv] i by (simp add: clean_slot_def at_slot Let_def)
  next
    case 2
    then show ?thesis using clean_inv_clear [OF inv e 2] i set_entry_steps(3) [OF sh il] by (simp add: clean_slot_def at_slot Let_def)
  next
    case (3 v)
    obtain r where r: "r \<le> e" "0 < r" "probe t s r = home t ?k" using clean_invD(6) [OF inv e 3(1)] unfolding placed_def by blast
    have pr: "probe t (home t ?k) d = probe t s (r + d)" for d using r(3) probe_add by metis
    have "hit t ?k (probe t (home t ?k) (e - r))" using pr [of "e - r"] r(1) by (simp add: hit_def)
    then obtain d where d: "first_hit t ?k (home t ?k) d" "d \<le> e - r" using first_hit_le by blast
    then have dl: "d < slots t" "r + d \<le> e" using e r(1) by auto
    have add: "vsimpleht_add_internal t ?k (Some v) = Some (Inr (added t ?k (Some v) (probe t s (r + d))))"
      using add_loop_hit [OF sh 3(1), of "ht_hash_key t ?k" d "unat (ht_capacity t)"] d dl 3(1) pr
      by (simp add: vsimpleht_add_internal_def home_def slots_def)
    have before: "slot_key t (probe t s x) \<noteq> 0" if "r \<le> x" "x < r + d" for x
    proof -
      have "x - r < d" using that by simp
      then have "\<not> hit t ?k (probe t (home t ?k) (x - r))" using d(1) by (simp add: first_hit_def)
      then show ?thesis using pr [of "x - r"] that by (simp add: hit_def)
    qed
    show ?thesis
    proof (cases "r + d = e")
      case True
      have "added t ?k (Some v) (probe t s e) = (VSIMPLEHT_RET_KEY_EXISTS, t)"
        using 3 set_entry_same [OF sh probe_less [OF sh] refl, of s e] by (simp add: added_def)
      then have "clean_slot (of_nat s) e t = Some (Inr t)" using add True 3 i by (simp add: clean_slot_def at_slot Let_def)
      moreover have "placed t s (Suc e) e"
      proof -
        have "\<exists>r' \<le> e. 0 < r' \<and> probe t s r' = home t ?k \<and> (\<forall>q. r' \<le> q \<and> q < e \<and> (e < Suc e \<or> Suc e \<le> q) \<longrightarrow> slot_key t (probe t s q) \<noteq> 0)"
          using r before True by (intro exI [of _ r]) simp
        with 3 show ?thesis by (simp add: placed_def)
      qed
      ultimately show ?thesis using clean_inv_keep [OF inv] by blast
    next
      case False
      then have lt: "r + d < e" using dl by simp
      have "slot_key t (probe t s (r + d)) = 0"
      proof (rule ccontr)
        assume "slot_key t (probe t s (r + d)) \<noteq> 0"
        then have "slot_key t (probe t s (r + d)) = ?k" using d(1) pr by (auto simp: first_hit_def hit_def)
        then have "probe t s (r + d) = probe t s e" using keys_okD(1) [OF ok probe_less [OF sh, of s "r + d"] probe_less [OF sh, of s e]] 3(1) by simp
        then show False using probe_inj [OF _ _ e] lt e by fastforce
      qed
      note z = this and zv = keys_okD(2) [OF ok probe_less [OF sh] this]
      have "clean_slot (of_nat s) e t = Some (Inr (set_entry (probe t s e) 0 None (set_entry (probe t s (r + d)) ?k (Some v) t)))"
        using add zv 3 i il sh set_entry_steps(1) [of "set_entry (probe t s (r + d)) ?k (Some v) t" ?i]
        by (simp add: clean_slot_def at_slot Let_def added_def)
      moreover have "clean_inv t0 s (Suc e) (set_entry (probe t s e) 0 None (set_entry (probe t s (r + d)) ?k (Some v) t))"
        by (rule clean_inv_move [OF inv e refl 3(1,2) r(2,3) _ lt z]) (use before in auto)
      ultimately show ?thesis by blast
    qed
  qed
qed

lemma clean_slots_inv:
  assumes "clean_inv t0 s e t" and "e \<le> slots t"
  shows "\<exists>t'. clean_slots (of_nat s) [e..<slots t] t = Some (Inr t') \<and> clean_inv t0 s (slots t') t' \<and> slots t' = slots t"
  using assms
proof (induction "slots t - e" arbitrary: e t)
  case 0
  then show ?case by simp
next
  case (Suc n)
  then have e: "e < slots t" by simp
  obtain t' where t': "clean_slot (of_nat s) e t = Some (Inr t')" "clean_inv t0 s (Suc e) t'"
    using clean_slot_step [OF Suc.prems(1) e] by blast
  have same: "slots t' = slots t"
    using clean_invD(7) [OF t'(2)] clean_invD(7) [OF Suc.prems(1)] by (metis slots_def vsimpleht_t.select_convs(1) vsimpleht_t.surjective vsimpleht_t.update_convs(2))
  have "[e..<slots t] = e # [Suc e..<slots t']" using e same by (simp add: upt_conv_Cons)
  moreover have n: "n = slots t' - Suc e" using Suc.hyps(2) same by simp
  moreover obtain t'' where "clean_slots (of_nat s) [Suc e..<slots t'] t' = Some (Inr t'')" "clean_inv t0 s (slots t'') t''" "slots t'' = slots t'"
    using Suc.hyps(1) [OF n t'(2)] same e by (metis Suc_leI)
  ultimately show ?case using t'(1) same by auto
qed

text \<open>A cleanup of a table that has an empty entry.\<close>

definition has_empty :: "'v vsimpleht_t \<Rightarrow> bool" where
  "has_empty t \<longleftrightarrow> (\<exists>i \<in> set [0..<slots t]. slot_key t i = 0)"

lemma bucket_start_empty:
  assumes "ht_shape t" and "has_empty t"
  obtains s where "s < slots t" "slot_key t s = 0" "bucket_start t = of_nat s"
proof -
  have "find (\<lambda>e. slot_key t (unat (of_nat e :: u64)) = 0) [0..<slots t] \<noteq> None"
    using assms unat_slot [OF assms(1)] by (auto simp: has_empty_def find_None_iff)
  then obtain s where s: "find (\<lambda>e. slot_key t (unat (of_nat e :: u64)) = 0) [0..<slots t] = Some s" by blast
  then have "s < slots t" "slot_key t s = 0" using unat_slot [OF assms(1)] by (auto simp: find_Some_iff)
  moreover have "bucket_start t = of_nat s" using s by (simp add: bucket_start_def at_slot slots_def)
  ultimately show thesis using that by blast
qed

lemma cleanup_scan:
  assumes wf: "ht_wf t" and "has_empty t"
  shows "\<exists>t'. clean_slots (bucket_start t) [0..<unat (ht_capacity t)] t = Some (Inr t') \<and>
     ht_wf t' \<and> ht_map t' = ht_map t \<and> t' = t\<lparr>ht_entries := ht_entries t'\<rparr> \<and> (\<forall>i < slots t'. slot_key t' i \<noteq> 0 \<longrightarrow> slot_val t' i \<noteq> None)"
proof -
  obtain s where s: "s < slots t" "slot_key t s = 0" "bucket_start t = of_nat s"
    using bucket_start_empty [OF ht_wfD(1) [OF wf] assms(2)] .
  obtain t' where t': "clean_slots (of_nat s) [0..<slots t] t = Some (Inr t')" "clean_inv t s (slots t') t'"
    using clean_slots_inv [OF clean_start [OF wf s(1,2)]] by blast
  have "slot_val t' i \<noteq> None" if "i < slots t'" "slot_key t' i \<noteq> 0" for i
    using probe_onto [OF clean_invD(3) [OF t'(2)] that(1)] clean_invD(6) [OF t'(2)] that(2) unfolding placed_def by blast
  with t' s(3) clean_end [OF t'(2)] clean_invD(5,7) [OF t'(2)] show ?thesis by (metis slots_def)
qed

text \<open>The keys that occupy an entry, with or without a value.\<close>

definition keys_of :: "'v vsimpleht_t \<Rightarrow> u64 set" where
  "keys_of t = slot_key t ` {..<slots t} - {0}"

lemma keys_of_iff: "k \<in> keys_of t \<longleftrightarrow> k \<noteq> 0 \<and> (\<exists>i < slots t. slot_key t i = k)"
  by (auto simp: keys_of_def)

lemma keys_of_full: "keys_ok t \<Longrightarrow> \<not> has_empty t \<Longrightarrow> card (keys_of t) = slots t"
proof -
  assume ok: "keys_ok t" and "\<not> has_empty t"
  then have ne: "slot_key t i \<noteq> 0" if "i < slots t" for i using that by (auto simp: has_empty_def)
  then have "keys_of t = slot_key t ` {..<slots t}" by (auto simp: keys_of_def)
  moreover have "inj_on (slot_key t) {..<slots t}" using keys_okD(1) [OF ok] ne by (auto intro: inj_onI)
  ultimately show ?thesis by (simp add: card_image)
qed

lemma keys_of_set_entry:
  "ht_shape t \<Longrightarrow> keys_of (set_entry j k v t) \<subseteq> insert k (keys_of t)"
  by (fastforce simp: keys_of_iff set_entry_at split: if_splits)

lemma keys_of_live:
  assumes "ht_map t' = ht_map t" and "keys_ok t'" and live: "\<And>i. i < slots t' \<Longrightarrow> slot_key t' i \<noteq> 0 \<Longrightarrow> slot_val t' i \<noteq> None"
  shows "keys_of t' \<subseteq> keys_of t"
proof
  fix k assume "k \<in> keys_of t'"
  then obtain i where i: "i < slots t'" "slot_key t' i = k" "k \<noteq> 0" by (auto simp: keys_of_iff)
  then have "ht_map t k \<noteq> None" using ht_map_slot [OF assms(2) i(1,2)] live [OF i(1)] assms(1) by auto
  then have "\<exists>i < slots t. slot_key t i = k" by (metis ht_map_absent)
  with i(3) show "k \<in> keys_of t" by (simp add: keys_of_iff)
qed

lemma ht_wf_frame:
  "ht_entries t' = ht_entries t \<Longrightarrow> ht_capacity t' = ht_capacity t \<Longrightarrow> ht_cmp_key t' = ht_cmp_key t \<Longrightarrow> ht_hash_key t' = ht_hash_key t \<Longrightarrow>
   ht_wf t' = ht_wf t \<and> ht_map t' = ht_map t \<and> has_empty t' = has_empty t \<and> keys_of t' = keys_of t \<and> slots t' = slots t"
proof -
  assume t: "ht_entries t' = ht_entries t" "ht_capacity t' = ht_capacity t" "ht_cmp_key t' = ht_cmp_key t" "ht_hash_key t' = ht_hash_key t"
  have eqs: "slot_key t' = slot_key t" "slot_val t' = slot_val t" "slots t' = slots t" "probe t' = probe t" "home t' = home t"
    using t by (simp_all add: slots_def slot_key_def slot_val_def probe_def home_def fun_eq_iff)
  have "ht_map t' = ht_map t" unfolding ht_map_def [abs_def] eqs ..
  with t eqs show ?thesis by (simp add: ht_wf_def ht_shape_def keys_ok_def no_gap_def has_empty_def keys_of_def)
qed

lemma trigger_cleanup_registered:
  assumes wf: "ht_wf t" and reg: "registered t" and e: "has_empty t"
  shows "\<exists>t'. vsimpleht_trigger_cleanup t v = Some (Inr t') \<and> ht_wf t' \<and> registered t' \<and> ht_map t' = ht_map t \<and>
     ht_destroyed t' = ht_destroyed t @ [v] \<and> keys_of t' \<subseteq> keys_of t \<and> slots t' = slots t"
proof -
  let ?w = "t\<lparr>ht_lock := one_writer\<rparr>"
  have w: "ht_wf ?w" "ht_map ?w = ht_map t" "has_empty ?w" "keys_of ?w = keys_of t" "slots ?w = slots t" using ht_wf_frame [of ?w t] wf e by auto
  obtain u where u: "(if ht_deleted_count ?w < ht_cleaning_threshold ?w then Some (Inr ?w)
       else andthen (clean_slots (bucket_start ?w) [0..<unat (ht_capacity ?w)] ?w) (\<lambda>t. Some (Inr (t\<lparr>ht_deleted_count := 0\<rparr>)))) = Some (Inr u)"
    "ht_wf u" "ht_map u = ht_map t" "ht_destroyed u = ht_destroyed t" "ht_lock u = one_writer" "keys_of u \<subseteq> keys_of t" "slots u = slots t"
  proof (cases "ht_deleted_count ?w < ht_cleaning_threshold ?w")
    case True
    with w that [of ?w] show thesis by simp
  next
    case False
    obtain c where c: "clean_slots (bucket_start ?w) [0..<unat (ht_capacity ?w)] ?w = Some (Inr c)"
      "ht_wf c" "ht_map c = ht_map ?w" "c = ?w\<lparr>ht_entries := ht_entries c\<rparr>"
      "\<And>i. i < slots c \<Longrightarrow> slot_key c i \<noteq> 0 \<Longrightarrow> slot_val c i \<noteq> None"
      using cleanup_scan [OF w(1,3)] by blast
    let ?u = "c\<lparr>ht_deleted_count := 0\<rparr>"
    have "ht_destroyed ?u = ht_destroyed t \<and> ht_lock ?u = one_writer" by (subst c(4), simp)+
    moreover have "slots c = slots t" by (subst c(4), simp add: slots_def)
    moreover have "keys_of c \<subseteq> keys_of t" using keys_of_live [OF c(3) ht_wfD(2) [OF c(2)] c(5)] w(4) by simp
    moreover have "ht_wf ?u" "ht_map ?u = ht_map t" "keys_of ?u = keys_of c" "slots ?u = slots c"
      using ht_wf_frame [of ?u c] c(2,3) w(2) by auto
    ultimately show thesis using that [of ?u] c(1) False by simp
  qed
  let ?d = "u\<lparr>ht_destroyed := ht_destroyed t @ [v], ht_lock := one_reader\<rparr>"
  have lock: "ht_lock t = one_reader" using reg by (simp add: registered_def)
  have "vsimpleht_trigger_cleanup t v = Some (Inr ?d)"
    using u(1,4,5) lock
    by (simp add: vsimpleht_trigger_cleanup_def vsimpleht_thread_deregister_def vsimpleht_cleanup_def vsimpleht_thread_register_def
        lock_call_def lock_runs Let_def)
  moreover have "ht_wf ?d" "ht_map ?d = ht_map t" "keys_of ?d \<subseteq> keys_of t" "slots ?d = slots t" using ht_wf_frame [of ?d u] u by auto
  ultimately show ?thesis by (simp add: registered_def)
qed

section \<open>Removing\<close>

lemma remove_search:
  assumes wf: "ht_wf t" and k: "k \<noteq> 0" and h: "has_hit t k"
  shows "(\<exists>i < slots t. slot_key t i = k \<and> remove_loop t k (ht_hash_key t k) (ht_hash_key t k AND (ht_capacity t - 1)) = Some (Some (of_nat i))) \<or>
     (\<forall>i < slots t. slot_key t i \<noteq> k) \<and> remove_loop t k (ht_hash_key t k) (ht_hash_key t k AND (ht_capacity t - 1)) = Some None"
proof -
  note sh = ht_wfD(1) [OF wf]
  let ?h = "ht_hash_key t k" and ?i = "ht_hash_key t k AND (ht_capacity t - 1)"
  have i: "unat ?i = home t k" using ht_shapeD(5) [OF sh] by (simp add: home_def)
  have apart: "probe t (home t k) (Suc d') \<noteq> unat ?h" if "d' < d" "d < slots t" for d d'
  proof
    assume p: "probe t (home t k) (Suc d') = unat ?h"
    then have "unat ?h < slots t" using probe_less [OF sh, of "home t k" "Suc d'"] by simp
    then have "home t k = unat ?h" by (simp add: home_def)
    with p probe_0 [OF sh, of "home t k"] \<open>unat ?h < slots t\<close> have "probe t (home t k) (Suc d') = probe t (home t k) 0" by simp
    from probe_inj [OF this] that show False by simp
  qed
  from wf k h show ?thesis
  proof (cases rule: first_hit_cases)
    case (1 d)
    then have "remove_loop t k ?h ?i = Some (Some (of_nat (probe t (home t k) d)))"
      using remove_loop_hit [OF sh, of k ?i d ?h] i home_less [OF sh, of k] apart [of _ d] k by simp
    with 1 probe_less [OF sh] show ?thesis by blast
  next
    case (2 d)
    then have "remove_loop t k ?h ?i = Some None"
      using remove_loop_hit [OF sh, of k ?i d ?h] i home_less [OF sh, of k] apart [of _ d] by simp
    with 2 show ?thesis by blast
  qed
qed

lemma wf_clear_value:
  assumes wf: "ht_wf t" and i: "i < slots t" "slot_key t i = k" "k \<noteq> 0"
  shows "ht_wf (set_entry i k None t)" "ht_map (set_entry i k None t) = (ht_map t)(k := None)" "has_empty t \<Longrightarrow> has_empty (set_entry i k None t)"
proof -
  obtain d where d: "d < slots t" "first_hit t k (home t k) d" "probe t (home t k) d = i" using first_hit_key [OF wf i] by blast
  show "ht_wf (set_entry i k None t)" "ht_map (set_entry i k None t) = (ht_map t)(k := None)"
    using wf_set_entry [OF wf i(3) d(1,2), of None] d(3) by auto
  show "has_empty (set_entry i k None t)" if e: "has_empty t"
  proof -
    obtain x where x: "x < slots t" "slot_key t x = 0" using e by (auto simp: has_empty_def)
    then have "slot_key (set_entry i k None t) x = 0" using i set_entry_at(1) [OF ht_wfD(1) [OF wf] x(1)] by auto
    with x(1) show ?thesis by (auto simp: has_empty_def)
  qed
qed

lemma remove_returns:
  assumes wf: "ht_wf t" and reg: "registered t" and k: "k \<noteq> 0" and e: "has_empty t"
  shows "\<exists>t'. vsimpleht_remove t k = Some (Inr (if ht_map t k = None then VSIMPLEHT_RET_KEY_DNE else VSIMPLEHT_RET_OK, t')) \<and>
     ht_wf t' \<and> registered t' \<and> ht_map t' = (ht_map t)(k := None) \<and>
     ht_destroyed t' = ht_destroyed t @ (case ht_map t k of None \<Rightarrow> [] | Some v \<Rightarrow> [v]) \<and>
     keys_of t' \<subseteq> keys_of t \<and> slots t' = slots t"
proof -
  note sh = ht_wfD(1) [OF wf]
  have h: "has_hit t k" using e by (auto simp: has_empty_def has_hit_def hit_def)
  from remove_search [OF wf k h] show ?thesis
  proof (elim disjE exE conjE)
    fix i assume i: "i < slots t" "slot_key t i = k"
      and r: "remove_loop t k (ht_hash_key t k) (ht_hash_key t k AND (ht_capacity t - 1)) = Some (Some (of_nat i))"
    have m: "ht_map t k = slot_val t i" by (rule ht_map_slot [OF ht_wfD(2) [OF wf] i])
    have u: "unat (of_nat i :: u64) = i" by (rule unat_slot [OF sh i(1)])
    show ?thesis
    proof (cases "slot_val t i")
      case None
      then show ?thesis using wf reg r u m
        by (auto simp: vsimpleht_remove_def give_cleanup_registered [OF reg] remove_at_def at_slot Let_def fun_upd_idem)
    next
      case (Some v)
      let ?t = "set_entry i k None t" let ?c = "?t\<lparr>ht_deleted_count := ht_deleted_count ?t + 1\<rparr>"
      note c = wf_clear_value [OF wf i k]
      have "k \<in> keys_of t" using i k by (auto simp: keys_of_iff)
      then have "keys_of ?t \<subseteq> keys_of t" using keys_of_set_entry [OF sh, of i k None] by blast
      then have "ht_wf ?c" "ht_map ?c = (ht_map t)(k := None)" "has_empty ?c" "keys_of ?c \<subseteq> keys_of t" "slots ?c = slots t"
        using ht_wf_frame [of ?c ?t] c e by auto
      moreover have "registered ?c" "ht_destroyed ?c = ht_destroyed t" using reg by (simp_all add: registered_def set_entry_def)
      ultimately obtain t' where t': "vsimpleht_trigger_cleanup ?c v = Some (Inr t')" "ht_wf t'" "registered t'"
        "ht_map t' = (ht_map t)(k := None)" "ht_destroyed t' = ht_destroyed t @ [v]" "keys_of t' \<subseteq> keys_of t" "slots t' = slots t"
        using trigger_cleanup_registered [of ?c v] by auto
      have "set_value (of_nat i) None t = ?t" using set_entry_steps(2) [OF sh, of "of_nat i" None] u i by simp
      moreover have "ht_value (ht_entries t ! i) = Some v" using Some by (simp add: slot_val_def)
      ultimately have "vsimpleht_remove t k = Some (Inr (VSIMPLEHT_RET_OK, t'))"
        using t'(1) r u Some
        by (simp add: vsimpleht_remove_def give_cleanup_registered [OF reg] remove_at_def slot_val_def vatomicptr_read_def vatomicptr_cmpxchg_def Let_def)
      with t' m Some show ?thesis by auto
    qed
  next
    assume a: "\<forall>i < slots t. slot_key t i \<noteq> k"
      and r: "remove_loop t k (ht_hash_key t k) (ht_hash_key t k AND (ht_capacity t - 1)) = Some None"
    then have "ht_map t k = None" by (intro ht_map_absent) auto
    then show ?thesis using wf reg r by (auto simp: vsimpleht_remove_def give_cleanup_registered [OF reg] Let_def fun_upd_idem)
  qed
qed

section \<open>Sequences of calls\<close>

text \<open>
  The contract of a table of bounded room: while not all of the room is used, a legal call returns what
  the specification returns, and it uses at most its cost. Then every sequence of legal calls whose cost
  fits into the room returns, and returns what the specification does.
\<close>

fun spec_run :: "('op \<Rightarrow> 'm \<Rightarrow> 'r \<times> 'm) \<Rightarrow> 'op list \<Rightarrow> 'm \<Rightarrow> 'r list \<times> 'm" where
  "spec_run f [] m = ([], m)"
| "spec_run f (op # ops) m = (let (r, m') = f op m; (rs, m'') = spec_run f ops m' in (r # rs, m''))"

fun call_run :: "('op \<Rightarrow> 't \<Rightarrow> ('r \<times> 't) call) \<Rightarrow> 'op list \<Rightarrow> 't \<Rightarrow> ('r list \<times> 't) call" where
  "call_run f [] t = Some (Inr ([], t))"
| "call_run f (op # ops) t = andthen (f op t) (\<lambda>(r, t'). andthen (call_run f ops t') (\<lambda>(rs, t''). Some (Inr (r # rs, t''))))"

locale roomy_table =
  fixes good :: "'t \<Rightarrow> bool" and used :: "'t \<Rightarrow> nat" and room :: "'t \<Rightarrow> nat" and absm :: "'t \<Rightarrow> 'm"
    and exec :: "'op \<Rightarrow> 't \<Rightarrow> ('r \<times> 't) call" and spec :: "'op \<Rightarrow> 'm \<Rightarrow> 'r \<times> 'm"
    and cost :: "'op \<Rightarrow> nat" and legal :: "'op \<Rightarrow> bool"
  assumes exec_spec: "\<lbrakk>good t; legal op; used t < room t\<rbrakk> \<Longrightarrow>
     \<exists>r t'. exec op t = Some (Inr (r, t')) \<and> spec op (absm t) = (r, absm t') \<and> good t' \<and> used t' \<le> used t + cost op \<and> room t' = room t"
begin

lemma run_refines:
  assumes "good t" and "\<forall>op \<in> set ops. legal op" and "used t + sum_list (map cost ops) < room t"
  shows "\<exists>rs t'. call_run exec ops t = Some (Inr (rs, t')) \<and> spec_run spec ops (absm t) = (rs, absm t') \<and> good t'"
  using assms
proof (induction ops arbitrary: t)
  case (Cons op ops)
  then obtain r t1 where 1: "exec op t = Some (Inr (r, t1))" "spec op (absm t) = (r, absm t1)" "good t1"
    "used t1 \<le> used t + cost op" "room t1 = room t"
    using exec_spec [of t op] by auto
  with Cons.IH [of t1] Cons.prems obtain rs t2 where
    "call_run exec ops t1 = Some (Inr (rs, t2))" "spec_run spec ops (absm t1) = (rs, absm t2)" "good t2" by auto
  with 1 show ?case by simp
qed simp

end

text \<open>The calls of a client of the table and what a map answers to them.\<close>

datatype 'v ht_op = HtAdd u64 'v | HtGet u64 | HtRemove u64

datatype 'v ht_res = RetCode vsimpleht_ret_t | RetVal "'v option"

definition ht_ret :: "('a \<Rightarrow> 'v ht_res) \<Rightarrow> ('a \<times> 'v vsimpleht_t) call \<Rightarrow> ('v ht_res \<times> 'v vsimpleht_t) call" where
  "ht_ret f m = andthen m (\<lambda>(r, t). Some (Inr (f r, t)))"

fun ht_call :: "'v ht_op \<Rightarrow> 'v vsimpleht_t \<Rightarrow> ('v ht_res \<times> 'v vsimpleht_t) call" where
  "ht_call (HtAdd k v) t = ht_ret RetCode (vsimpleht_add t k (Some v))"
| "ht_call (HtGet k) t = ht_ret RetVal (vsimpleht_get t k)"
| "ht_call (HtRemove k) t = ht_ret RetCode (vsimpleht_remove t k)"

text \<open>The specification: a map and the list of the values that were destroyed.\<close>

fun map_call :: "'v ht_op \<Rightarrow> (u64 \<rightharpoonup> 'v) \<times> 'v list \<Rightarrow> 'v ht_res \<times> (u64 \<rightharpoonup> 'v) \<times> 'v list" where
  "map_call (HtAdd k v) (m, l) = (if m k = None then (RetCode VSIMPLEHT_RET_OK, m(k \<mapsto> v), l) else (RetCode VSIMPLEHT_RET_KEY_EXISTS, m, l))"
| "map_call (HtGet k) (m, l) = (RetVal (m k), m, l)"
| "map_call (HtRemove k) (m, l) = (case m k of None \<Rightarrow> (RetCode VSIMPLEHT_RET_KEY_DNE, m, l) | Some v \<Rightarrow> (RetCode VSIMPLEHT_RET_OK, m(k := None), l @ [v]))"

fun op_key :: "'v ht_op \<Rightarrow> u64" where
  "op_key (HtAdd k v) = k" | "op_key (HtGet k) = k" | "op_key (HtRemove k) = k"

fun op_cost :: "'v ht_op \<Rightarrow> nat" where
  "op_cost (HtAdd k v) = 1" | "op_cost (HtGet k) = 0" | "op_cost (HtRemove k) = 0"

lemma add_keys:
  assumes wf: "ht_wf t" and reg: "registered t" and k: "k \<noteq> 0" and h: "has_hit t k" and "vsimpleht_add t k (Some v) = Some (Inr (r, t'))"
  shows "keys_of t' \<subseteq> insert k (keys_of t)"
proof -
  obtain d where d: "d < slots t" "first_hit t k (home t k) d" using has_hit_first [OF wf h] .
  show ?thesis
    using add_internal_hit [OF wf k d, of v] assms(5) k keys_of_set_entry [OF ht_wfD(1) [OF wf]]
    by (auto simp: vsimpleht_add_def give_cleanup_registered [OF reg] split: if_splits)
qed

lemma finite_keys_of [simp]: "finite (keys_of t)"
  by (simp add: keys_of_def)

lemma used_room: "ht_wf t \<Longrightarrow> card (keys_of t) < slots t \<Longrightarrow> has_empty t"
  using keys_of_full [OF ht_wfD(2)] by fastforce

lemma has_empty_hit: "has_empty t \<Longrightarrow> has_hit t k"
  by (auto simp: has_empty_def has_hit_def hit_def)

interpretation ht: roomy_table "\<lambda>t :: 'v vsimpleht_t. ht_wf t \<and> registered t" "\<lambda>t. card (keys_of t)" slots
  "\<lambda>t. (ht_map t, ht_destroyed t)" ht_call map_call op_cost "\<lambda>op. op_key op \<noteq> 0"
proof (unfold_locales, elim conjE)
  fix t :: "'v vsimpleht_t" and op :: "'v ht_op"
  assume wf: "ht_wf t" and reg: "registered t" and k: "op_key op \<noteq> 0" and "card (keys_of t) < slots t"
  then have e: "has_empty t" using used_room by blast
  note h = has_empty_hit [OF e, of "op_key op"]
  show "\<exists>r t'. ht_call op t = Some (Inr (r, t')) \<and> map_call op (ht_map t, ht_destroyed t) = (r, ht_map t', ht_destroyed t') \<and>
     (ht_wf t' \<and> registered t') \<and> card (keys_of t') \<le> card (keys_of t) + op_cost op \<and> slots t' = slots t"
  proof (cases op)
    case (HtAdd k v)
    with k h have kk: "k \<noteq> 0" "has_hit t k" by simp_all
    obtain t' where t': "vsimpleht_add t k (Some v) = Some (Inr (if ht_map t k = None then VSIMPLEHT_RET_OK else VSIMPLEHT_RET_KEY_EXISTS, t'))"
      "ht_wf t'" "registered t'" "ht_map t' = (if ht_map t k = None then (ht_map t)(k \<mapsto> v) else ht_map t)"
      "ht_destroyed t' = ht_destroyed t" "slots t' = slots t"
      using add_hit [OF wf reg kk] by blast
    have "card (keys_of t') \<le> card (insert k (keys_of t))" using add_keys [OF wf reg kk t'(1)] by (simp add: card_mono)
    also have "\<dots> \<le> card (keys_of t) + 1" by (simp add: card_insert_if)
    finally show ?thesis using HtAdd t' by (simp add: ht_ret_def)
  next
    case (HtGet k)
    with get_returns [OF wf reg] k h wf reg show ?thesis by (simp add: ht_ret_def)
  next
    case (HtRemove k)
    with k have kk: "k \<noteq> 0" by simp
    obtain t' where t': "vsimpleht_remove t k = Some (Inr (if ht_map t k = None then VSIMPLEHT_RET_KEY_DNE else VSIMPLEHT_RET_OK, t'))"
      "ht_wf t'" "registered t'" "ht_map t' = (ht_map t)(k := None)"
      "ht_destroyed t' = ht_destroyed t @ (case ht_map t k of None \<Rightarrow> [] | Some v \<Rightarrow> [v])" "keys_of t' \<subseteq> keys_of t" "slots t' = slots t"
      using remove_returns [OF wf reg kk e] by blast
    then show ?thesis using HtRemove card_mono [OF finite_keys_of t'(6)]
      by (cases "ht_map t k") (auto simp: ht_ret_def fun_upd_idem)
  qed
qed

section \<open>A new table\<close>

lemma init_entries:
  assumes "n \<le> length buff"
  shows "length (fold init_entry [0..<n] buff) = length buff \<and>
     (\<forall>i < n. ht_key (fold init_entry [0..<n] buff ! i) = 0 \<and>
       ht_value (fold init_entry [0..<n] buff ! i) = None)"
  using assms
proof (induction n)
  case (Suc n)
  then show ?case by (auto simp: init_entry_def nth_list_update vatomic_simps less_Suc_eq)
qed simp

lemma init_ok:
  assumes "power_of_two64 c" and "length buff = unat c" and "\<And>a b. cmp a b = 0 \<longleftrightarrow> a = b"
  shows "\<exists>t. andthen (vsimpleht_init buff c cmp hash) vsimpleht_thread_register = Some (Inr t) \<and> ht_wf t \<and> registered t \<and>
     ht_map t = Map.empty \<and> ht_destroyed t = [] \<and> keys_of t = {} \<and> slots t = unat c"
proof -
  obtain t where t: "vsimpleht_init buff c cmp hash = Some (Inr t)" "ht_lock t = no_reader" "ht_capacity t = c" "ht_cmp_key t = cmp" "ht_destroyed t = []"
    "length (ht_entries t) = unat c" "\<And>i. i < unat c \<Longrightarrow> slot_key t i = 0 \<and> slot_val t i = None"
    using init_entries [of "unat c" buff] assms(1,2)
    by (auto simp: vsimpleht_init_def rwlock_init_def no_reader_def slot_key_def slot_val_def semaphore_init_def vatomic_simps)
  let ?t = "t\<lparr>ht_lock := one_reader\<rparr>"
  have s: "slots t = unat c" using t(3) by (simp add: slots_def)
  have "ht_wf t" using t s assms(1,3) by (auto simp: ht_wf_def ht_shape_def keys_ok_def)
  moreover have "ht_map t k = None" for k using t(7) s by (auto simp: ht_map_def find_Some_iff split: option.splits)
  then have "ht_map t = Map.empty" by blast
  moreover have "keys_of t = {}" using t(7) s by (auto simp: keys_of_def)
  ultimately have "ht_wf ?t" "ht_map ?t = Map.empty" "keys_of ?t = {}" "slots ?t = unat c" using ht_wf_frame [of ?t t] s by auto
  moreover have "vsimpleht_thread_register t = Some (Inr ?t)"
    using t(2) by (simp add: vsimpleht_thread_register_def lock_call_def lock_runs)
  ultimately show ?thesis using t(1,5) by (simp add: registered_def)
qed

section \<open>Iterating\<close>

text \<open>The loop of a client over an iterator.\<close>

lemma iter_next_bounds:
  assumes "vsimpleht_iter_next t idx = Some (idx', kv)"
  shows "idx < idx'" "idx' \<le> unat (ht_capacity t)"
  using assms by (auto simp: vsimpleht_iter_next_def find_Some_iff split: option.splits)

lemma iter_next_measure: "vsimpleht_iter_next t idx = Some (idx', kv) \<Longrightarrow> unat (ht_capacity t) - idx' < unat (ht_capacity t) - idx"
  using iter_next_bounds [of t idx idx' kv] by auto

function iterate :: "'v vsimpleht_t \<Rightarrow> nat \<Rightarrow> (u64 \<times> 'v) list" where
  "iterate t idx = (case vsimpleht_iter_next t idx of None \<Rightarrow> [] | Some (idx', kv) \<Rightarrow> kv # iterate t idx')"
  by pat_completeness auto
termination
  by (relation "measure (\<lambda>(t, idx). unat (ht_capacity t) - idx)") (auto simp: iter_next_measure)

declare iterate.simps [simp del]

definition live :: "'v vsimpleht_t \<Rightarrow> nat \<Rightarrow> bool" where
  "live t i \<longleftrightarrow> slot_key t i \<noteq> 0 \<and> slot_val t i \<noteq> None"

lemma iterate_live:
  assumes sh: "ht_shape t"
  shows "iterate t idx = map (\<lambda>i. (slot_key t i, the (slot_val t i))) (filter (live t) [idx..<slots t])"
proof (induction "slots t - idx" arbitrary: idx rule: less_induct)
  case less
  have f: "find (\<lambda>i. vatomicptr_read (ht_key (ht_entries t ! unat (of_nat i :: u64))) \<noteq> 0 \<and> vatomicptr_read (ht_value (ht_entries t ! unat (of_nat i :: u64))) \<noteq> None) [idx..<unat (ht_capacity t)]
      = find (live t) [idx..<slots t]"
    unfolding at_slot slots_def [symmetric] by (rule find_cong) (auto simp: live_def unat_slot [OF sh])
  show ?case
  proof (cases "find (live t) [idx..<slots t]")
    case None
    then have "vsimpleht_iter_next t idx = None" using f by (simp add: vsimpleht_iter_next_def)
    then show ?thesis using None by (subst iterate.simps) (auto simp: find_None_iff filter_empty_conv)
  next
    case (Some i)
    then obtain j where j: "j < length [idx..<slots t]" "live t ([idx..<slots t] ! j)" "i = [idx..<slots t] ! j" "\<forall>x < j. \<not> live t ([idx..<slots t] ! x)"
      by (auto simp: find_Some_iff)
    then have i: "idx \<le> i" "i < slots t" "live t i" by auto
    have before: "\<not> live t x" if "idx \<le> x" "x < i" for x
    proof -
      have "x - idx < j" "[idx..<slots t] ! (x - idx) = x" using that j(1,3) by auto
      with j(4) show ?thesis by metis
    qed
    have "[idx..<slots t] = [idx..<i] @ i # [Suc i..<slots t]" using i(1,2) by (metis le_add_diff_inverse less_imp_le upt_add_eq_append upt_conv_Cons)
    then have "filter (live t) [idx..<slots t] = i # filter (live t) [Suc i..<slots t]" using i(3) before by (auto simp: filter_empty_conv)
    moreover have "vsimpleht_iter_next t idx = Some (Suc i, slot_key t i, the (slot_val t i))"
      using f Some by (simp add: vsimpleht_iter_next_def at_slot unat_slot [OF sh i(2)])
    moreover have "slots t - Suc i < slots t - idx" using i by auto
    ultimately show ?thesis using less [of "Suc i"] by (subst iterate.simps) simp
  qed
qed

lemma ht_map_zero: "keys_ok t \<Longrightarrow> ht_map t 0 = None"
  using keys_okD(2) [of t] by (auto simp: ht_map_def find_Some_iff split: option.splits)

lemma iterate_map:
  assumes "ht_wf t"
  shows "distinct (map fst (iterate t 0))" "map_of (iterate t 0) = ht_map t"
proof -
  note sh = ht_wfD(1) [OF assms] and ok = ht_wfD(2) [OF assms]
  have "inj_on (slot_key t) {i. i < slots t \<and> live t i}" using keys_okD(1) [OF ok] by (auto simp: live_def intro: inj_onI)
  then show d: "distinct (map fst (iterate t 0))"
    by (auto simp: iterate_live [OF sh] distinct_map comp_def intro: inj_on_subset)
  have set: "(k, v) \<in> set (iterate t 0) \<longleftrightarrow> k \<noteq> 0 \<and> ht_map t k = Some v" for k v
  proof
    assume "(k, v) \<in> set (iterate t 0)"
    then obtain i where i: "i < slots t" "live t i" "slot_key t i = k" "v = the (slot_val t i)" by (auto simp: iterate_live [OF sh])
    with ht_map_slot [OF ok i(1,3)] show "k \<noteq> 0 \<and> ht_map t k = Some v" by (auto simp: live_def)
  next
    assume a: "k \<noteq> 0 \<and> ht_map t k = Some v"
    then obtain i where i: "i < slots t" "slot_key t i = k" using ht_map_absent [of t k] by force
    with a ht_map_slot [OF ok i] have "live t i" "the (slot_val t i) = v" by (auto simp: live_def)
    with i show "(k, v) \<in> set (iterate t 0)" by (force simp: iterate_live [OF sh])
  qed
  have z: "ht_map t 0 = None" by (rule ht_map_zero [OF ok])
  show "map_of (iterate t 0) = ht_map t"
  proof
    fix k
    have "map_of (iterate t 0) k = Some v \<longleftrightarrow> ht_map t k = Some v" for v
      using set [of k v] z by (auto simp: map_of_eq_Some_iff [OF d])
    then show "map_of (iterate t 0) k = ht_map t k" by (metis option.exhaust)
  qed
qed

lemma remove_loop_circle:
  assumes sh: "ht_shape t" and no: "\<And>j. j < slots t \<Longrightarrow> \<not> hit t k j" and "unat i < slots t" and "probe t (unat i) (Suc d) = unat s"
  shows "remove_loop t k s i = Some None"
  using assms(3,4)
proof (induction d arbitrary: i)
  case 0
  let ?i = "(i + 1) AND (ht_capacity t - 1)"
  have "unat ?i = unat s" using 0(2) masked_next [OF sh, of i] by (simp add: probe_def)
  then have "?i = s" by (rule unsigned_word_eqI)
  with no [OF 0(1)] show ?case by (subst remove_loop_step [OF sh]) (auto simp: hit_def)
next
  case (Suc d)
  let ?i = "(i + 1) AND (ht_capacity t - 1)"
  have i: "unat ?i = Suc (unat i) mod slots t" by (rule masked_next [OF sh])
  then have "remove_loop t k s ?i = Some None"
    using Suc.IH [of ?i] Suc.prems(2) ht_shapeD(3) [OF sh] by (simp add: probe_Suc)
  with no [OF Suc.prems(1)] show ?case by (subst remove_loop_step [OF sh]) (auto simp: hit_def Let_def)
qed

lemma remove_full:
  assumes wf: "ht_wf t" and reg: "registered t" and h: "\<not> has_hit t k"
  shows "vsimpleht_remove t k = (if unat (ht_hash_key t k) < slots t then Some (Inr (VSIMPLEHT_RET_KEY_DNE, t)) else None)"
proof -
  note sh = ht_wfD(1) [OF wf]
  let ?s = "ht_hash_key t k" and ?i = "ht_hash_key t k AND (ht_capacity t - 1)"
  have no: "\<And>j. j < slots t \<Longrightarrow> \<not> hit t k j" using h by (auto simp: has_hit_def)
  have i: "unat ?i = unat ?s mod slots t" "unat ?i < slots t" using ht_shapeD(3,5) [OF sh] by auto
  have "remove_loop t k ?s ?i = (if unat ?s < slots t then Some None else None)"
  proof (cases "unat ?s < slots t")
    case True
    then have "probe t (unat ?i) (Suc (slots t - 1)) = unat ?s" using i by (simp add: probe_def)
    from remove_loop_circle [OF sh no i(2) this] True show ?thesis by simp
  next
    case False
    with remove_loop_no_hit [OF sh no i(2), of ?s] show ?thesis by simp
  qed
  then show ?thesis by (simp add: vsimpleht_remove_def give_cleanup_registered [OF reg] Let_def)
qed

section \<open>Properties\<close>

text \<open>
  C21. A new table, used by one thread, behaves like a map: every sequence of additions, lookups and removals
  with non-zero keys and fewer additions than the capacity returns, call by call, what a map returns, removed
  values are destroyed exactly once and in order, and no call loops forever or fails an assertion.
\<close>

theorem simpleht_refines_map:
  assumes "power_of_two64 c" and "length buff = unat c" and "\<And>a b. cmp a b = 0 \<longleftrightarrow> a = b"
    and "\<forall>op \<in> set ops. op_key op \<noteq> 0" and "sum_list (map op_cost ops) < unat c"
  shows "\<exists>t rs t'. andthen (vsimpleht_init buff c cmp hash) vsimpleht_thread_register = Some (Inr t) \<and>
     call_run ht_call ops t = Some (Inr (rs, t')) \<and> spec_run map_call ops (Map.empty, []) = (rs, ht_map t', ht_destroyed t') \<and> ht_wf t'"
  using init_ok [OF assms(1-3), of hash] ht.run_refines [of _ ops] assms(4,5) by fastforce

definition eq_cmp :: "u64 \<Rightarrow> u64 \<Rightarrow> int" where
  "eq_cmp a b = (if a = b then 0 else 1)"

theorem simpleht_refines_map_witness:
  "\<exists>t rs t'. andthen (vsimpleht_init (replicate 2 \<lparr>ht_key = 7, ht_value = None\<rparr>) 2 eq_cmp (\<lambda>k. k)) vsimpleht_thread_register = Some (Inr t) \<and>
     call_run ht_call [HtAdd 5 True, HtGet 5, HtRemove 5, HtGet 5] t = Some (Inr (rs, t')) \<and>
     rs = [RetCode VSIMPLEHT_RET_OK, RetVal (Some True), RetCode VSIMPLEHT_RET_OK, RetVal None] \<and> ht_destroyed t' = [True] \<and> ht_wf t'"
proof -
  let ?ops = "[HtAdd 5 True, HtGet 5, HtRemove 5, HtGet 5]"
  have pre: "power_of_two64 2" "length (replicate 2 \<lparr>ht_key = 7, ht_value = None :: bool option\<rparr>) = unat (2 :: u64)" "\<And>a b. eq_cmp a b = 0 \<longleftrightarrow> a = b"
    "\<forall>op \<in> set ?ops. op_key op \<noteq> 0" "sum_list (map op_cost ?ops) < unat (2 :: u64)"
    by (simp_all add: power_of_two64_def eq_cmp_def)
  have "spec_run map_call ?ops (Map.empty, []) = ([RetCode VSIMPLEHT_RET_OK, RetVal (Some True), RetCode VSIMPLEHT_RET_OK, RetVal None], Map.empty, [True])"
    by simp
  with simpleht_refines_map [OF pre, of "\<lambda>k. k"] show ?thesis by (auto simp del: call_run.simps)
qed

text \<open>
  C24. When the searches end. In a well-formed table that has an empty entry or holds the key, a lookup returns
  the value of the map; in a table with neither, the lookup never returns, the addition reports a full
  table, and the removal returns only if the hash of the key is itself a valid index.
\<close>

theorem simpleht_search_ends:
  assumes "ht_wf t" and "registered t" and "k \<noteq> 0"
  shows "vsimpleht_get t k = (if has_hit t k then Some (Inr (ht_map t k, t)) else None) \<and>
    (\<not> has_hit t k \<longrightarrow> vsimpleht_add t k (Some v) = Some (Inr (VSIMPLEHT_RET_TBL_FULL, t)) \<and>
       vsimpleht_remove t k = (if unat (ht_hash_key t k) < slots t then Some (Inr (VSIMPLEHT_RET_KEY_DNE, t)) else None))"
  using get_returns [OF assms] get_diverges [OF assms(1,2)] add_full [OF assms] remove_full [OF assms(1,2)] by simp

definition ht_one :: "bool vsimpleht_t" where
  "ht_one = \<lparr>ht_capacity = 1, ht_entries = [\<lparr>ht_key = 5, ht_value = Some True\<rparr>], ht_cmp_key = eq_cmp, ht_hash_key = (\<lambda>k. k), ht_destroyed = [],
     ht_cleaning_threshold = 0, ht_deleted_count = 0, ht_lock = one_reader\<rparr>"

lemma ht_one_ok: "ht_wf ht_one" "registered ht_one" "slots ht_one = 1" "\<not> has_hit ht_one 6"
proof -
  show s: "slots ht_one = 1" by (simp add: slots_def ht_one_def)
  show "registered ht_one" by (simp add: registered_def ht_one_def)
  have k: "slot_key ht_one 0 = 5" "slot_val ht_one 0 = Some True" by (simp_all add: slot_key_def slot_val_def ht_one_def)
  then show "\<not> has_hit ht_one 6" using s by (simp add: has_hit_def hit_def)
  have "ht_shape ht_one" using s by (simp add: ht_shape_def) (simp add: ht_one_def power_of_two64_def eq_cmp_def)
  then show "ht_wf ht_one" using s k by (simp add: ht_wf_def keys_ok_def no_gap_def probe_def)
qed

theorem simpleht_search_ends_witness:
  "vsimpleht_get ht_one 6 = None \<and> vsimpleht_add ht_one 6 (Some False) = Some (Inr (VSIMPLEHT_RET_TBL_FULL, ht_one)) \<and> vsimpleht_remove ht_one 6 = None"
proof -
  have "unat (ht_hash_key ht_one 6) = 6" by (simp add: ht_one_def)
  then show ?thesis using simpleht_search_ends [OF ht_one_ok(1,2), of 6] ht_one_ok(3,4) by simp
qed

text \<open>
  Round trips: a value that was added under a new key is what the next lookup of the key returns, and the
  lookups of all other stored keys return what they returned before; if an entry stays empty, the key can
  be removed again, and then the lookup returns no value and the lookups of the other keys are as before.
\<close>

theorem simpleht_round_trip:
  assumes wf: "ht_wf t" and reg: "registered t" and k: "k \<noteq> 0" and h: "has_hit t k" and new: "ht_map t k = None"
  shows "\<exists>t'. vsimpleht_add t k (Some v) = Some (Inr (VSIMPLEHT_RET_OK, t')) \<and> vsimpleht_get t' k = Some (Inr (Some v, t')) \<and>
     (\<forall>k' w. k' \<noteq> k \<and> ht_map t k' = Some w \<longrightarrow> vsimpleht_get t' k' = Some (Inr (Some w, t'))) \<and>
     (has_empty t' \<longrightarrow> (\<exists>t''. vsimpleht_remove t' k = Some (Inr (VSIMPLEHT_RET_OK, t'')) \<and> ht_map t'' = ht_map t \<and> ht_wf t'' \<and> registered t''))"
proof -
  obtain t' where t': "vsimpleht_add t k (Some v) = Some (Inr (VSIMPLEHT_RET_OK, t'))" "ht_wf t'" "registered t'" "ht_map t' = (ht_map t)(k \<mapsto> v)"
    using add_hit [OF wf reg k h, of v] new by auto
  have get: "vsimpleht_get t' k' = Some (Inr (Some w, t'))" if m: "ht_map t' k' = Some w" for k' w
  proof -
    have "k' \<noteq> 0" using ht_map_zero [OF ht_wfD(2) [OF t'(2)]] m by auto
    moreover have "has_hit t' k'" using m ht_map_absent [of t' k'] by (force simp: has_hit_def hit_def)
    ultimately show ?thesis using get_returns [OF t'(2,3)] m by simp
  qed
  have "\<exists>t''. vsimpleht_remove t' k = Some (Inr (VSIMPLEHT_RET_OK, t'')) \<and> ht_map t'' = ht_map t \<and> ht_wf t'' \<and> registered t''" if "has_empty t'"
    using remove_returns [OF t'(2,3) k that] t'(4) new by (auto simp: fun_upd_idem)
  with t' get show ?thesis by auto
qed

definition ht_two :: "bool vsimpleht_t" where
  "ht_two = ht_one\<lparr>ht_capacity := 2, ht_entries := [\<lparr>ht_key = 0, ht_value = None\<rparr>, \<lparr>ht_key = 0, ht_value = None\<rparr>]\<rparr>"

lemma ht_two_ok: "ht_wf ht_two" "registered ht_two" "has_hit ht_two 6" "ht_map ht_two 6 = None"
proof -
  have s: "slots ht_two = 2" by (simp add: slots_def ht_two_def)
  show "registered ht_two" by (simp add: registered_def ht_one_def ht_two_def)
  have k: "slot_key ht_two i = 0" "slot_val ht_two i = None" if "i < 2" for i
    using that by (auto simp: slot_key_def slot_val_def ht_two_def less_Suc_eq numeral_2_eq_2)
  then show "has_hit ht_two 6" using s k(1) [of 0] by (auto simp: has_hit_def hit_def intro: exI [of _ "0 :: nat"])
  show "ht_map ht_two 6 = None" using s k by (intro ht_map_absent) simp
  have "ht_shape ht_two" using s by (simp add: ht_shape_def) (simp add: ht_one_def ht_two_def power_of_two64_def eq_cmp_def)
  then show "ht_wf ht_two" using s k by (simp add: ht_wf_def keys_ok_def)
qed

theorem simpleht_round_trip_witness:
  "\<exists>t'. vsimpleht_add ht_two 6 (Some True) = Some (Inr (VSIMPLEHT_RET_OK, t')) \<and> vsimpleht_get t' 6 = Some (Inr (Some True, t'))"
  using simpleht_round_trip [OF ht_two_ok(1,2) _ ht_two_ok(3,4), of True] by auto

text \<open>
  The client's iteration over a well-formed table ends, yields every key at most once and yields exactly
  the bindings of the map.
\<close>

theorem simpleht_iterate:
  assumes "ht_wf t"
  shows "distinct (map fst (iterate t 0)) \<and> map_of (iterate t 0) = ht_map t"
  using iterate_map [OF assms] by blast

theorem simpleht_iterate_witness: "map_of (iterate ht_one 0) = ht_map ht_one"
  using simpleht_iterate [OF ht_one_ok(1)] by blast

text \<open>
  Cleaning up a table without an empty entry loses entries. Four keys with the hashes 2, 3, 2 and 1 fill a
  table of capacity 4; the removal of the first starts the scan in the middle of a bucket, at the last
  index, and afterwards the lookup of the third key finds nothing although the key and its value are stored.
\<close>

definition full_hash :: "u64 \<Rightarrow> u64" where
  "full_hash k = (if k = 11 then 3 else if k = 13 then 1 else 2)"

theorem simpleht_full_cleanup_loses:
  "case andthen (andthen (vsimpleht_init (replicate 4 \<lparr>ht_key = 0, ht_value = None\<rparr>) 4 eq_cmp full_hash) vsimpleht_thread_register)
      (call_run ht_call [HtAdd 10 0, HtAdd 11 1, HtAdd 12 2, HtAdd 13 3, HtRemove 10, HtGet 12]) of
     Some (Inr (rs, t)) \<Rightarrow> rs = replicate 5 (RetCode VSIMPLEHT_RET_OK) @ [RetVal None] \<and> ht_map t 12 = Some (2 :: nat)
   | _ \<Rightarrow> False"
  by code_simp

end
