(* ===== verification/Vfutex.thy ===== *)
theory Vfutex
  imports Lock_Client
begin

text \<open>
  The user-space futex of \<^verbatim>\<open>thread/internal/futex.h\<close> and what the primitives of \<^verbatim>\<open>thread/\<close> rely on. A
  waiting thread reads the global signal, compares the word with the expected value and spins until the
  signal changes; waking increments the signal and so wakes everybody.
\<close>

section \<open>The futex\<close>

datatype wait_pc = FwSignal | FwCheck u32 | FwAwait u32

text \<open>\<open>a\<close> is the word the thread waits on, \<open>v\<close> the value it expects there and \<open>g\<close> the global signal.\<close>

fun vfutex_wait :: "u32 \<Rightarrow> wait_pc \<Rightarrow> u32 \<Rightarrow> u32 \<Rightarrow> (wait_pc + unit) option" where
  "vfutex_wait v FwSignal a g = Some (Inl (FwCheck (vatomic32_read g)))"
| "vfutex_wait v (FwCheck s) a g = Some (if vatomic32_read a \<noteq> v then Inr () else Inl (FwAwait s))"
| "vfutex_wait v (FwAwait s) a g = map_option (\<lambda>_. Inr ()) (vatomic32_await_neq g s)"

definition vfutex_wake :: "u32 \<Rightarrow> u32" where
  "vfutex_wake g = vatomic32_inc g"

lemma vfutex_wake_eq: "vfutex_wake g = g + 1"
  by (simp add: vfutex_wake_def vatomic_simps)

section \<open>No wake-up is lost\<close>

text \<open>
  The contract of a program that waits and wakes. \<open>waits c t\<close> is the position of a thread in
  \<open>vfutex_wait\<close>, and \<open>due c t\<close> says that somebody will still wake the thread. Falling asleep
  needs a wake-up that is due, and a wake-up stays due until the signal changes.
\<close>

locale futex_waiting =
  fixes cstep :: "'l \<Rightarrow> 'c \<Rightarrow> 'c option" and c0 :: 'c
    and signal :: "'c \<Rightarrow> u32" and waits :: "'c \<Rightarrow> tid \<Rightarrow> wait_pc option" and due :: "'c \<Rightarrow> tid \<Rightarrow> bool"
  assumes signal_init: "signal c0 = 0" and waits_init: "waits c0 t \<noteq> Some (FwCheck v)" "waits c0 t \<noteq> Some (FwAwait v)"
    and signal_step: "cstep l c = Some c' \<Longrightarrow> signal c' = signal c \<or> signal c' = signal c + 1"
    and check_step: "cstep l c = Some c' \<Longrightarrow> waits c' t = Some (FwCheck v) \<Longrightarrow> waits c t = Some (FwCheck v) \<or> v = signal c"
    and await_step: "cstep l c = Some c' \<Longrightarrow> waits c' t = Some (FwAwait v) \<Longrightarrow>
      waits c t = Some (FwAwait v) \<and> (due c t \<longrightarrow> signal c' = signal c \<longrightarrow> due c' t) \<or> waits c t = Some (FwCheck v) \<and> due c' t"
begin

definition signal_inv :: "nat \<Rightarrow> 'c \<Rightarrow> bool" where
  "signal_inv n c \<longleftrightarrow> unat (signal c) \<le> n \<and>
     (\<forall>t v. waits c t = Some (FwCheck v) \<longrightarrow> v \<le> signal c) \<and>
     (\<forall>t v. waits c t = Some (FwAwait v) \<longrightarrow> v \<le> signal c \<and> (v = signal c \<longrightarrow> due c t))"

lemma signal_inv_step:
  assumes inv: "signal_inv n c" and step: "cstep l c = Some c'" and n: "Suc n < 2 ^ 32"
  shows "signal_inv (Suc n) c'"
proof -
  have sig: "unat (signal c) \<le> n" using inv by (simp add: signal_inv_def)
  have up: "unat (signal c + 1) = Suc (unat (signal c))"
    using sig n unat_add_of_nat [of "signal c" 1] by simp
  have le: "signal c \<le> signal c'" and u: "unat (signal c') \<le> Suc n"
    using signal_step [OF step] up sig by (auto simp: word_le_nat_alt)
  have keep: "signal c' = signal c" if "signal c' \<le> signal c" using that le by (rule order.antisym)
  have "v \<le> signal c'" if "waits c' t = Some (FwCheck v)" for t v
    using check_step [OF step that] inv le by (auto simp: signal_inv_def intro: order.trans)
  moreover have "v \<le> signal c' \<and> (v = signal c' \<longrightarrow> due c' t)" if w: "waits c' t = Some (FwAwait v)" for t v
    using await_step [OF step w]
  proof
    assume a: "waits c t = Some (FwAwait v) \<and> (due c t \<longrightarrow> signal c' = signal c \<longrightarrow> due c' t)"
    then have v: "v \<le> signal c" "v = signal c \<longrightarrow> due c t" using inv by (auto simp: signal_inv_def)
    with a keep le show ?thesis by (auto intro: order.trans)
  next
    assume a: "waits c t = Some (FwCheck v) \<and> due c' t"
    then have "v \<le> signal c" using inv by (auto simp: signal_inv_def)
    with a le show ?thesis by (auto intro: order.trans)
  qed
  ultimately show ?thesis using u by (simp add: signal_inv_def)
qed

lemma reach_signal_inv:
  assumes "reach (bounded B cstep) (0, c0) nc" and "B < 2 ^ 32"
  shows "signal_inv (fst nc) (snd nc) \<and> fst nc \<le> B"
  using assms(1)
proof (induction rule: reach.induct)
  case reach_init
  show ?case using signal_init waits_init by (simp add: signal_inv_def)
next
  case (reach_step s a t)
  obtain n c where s: "s = (n, c)" by (cases s)
  with reach_step.hyps(2) obtain c' where c': "n < B" "cstep a c = Some c'" "t = (Suc n, c')" by (auto split: if_splits)
  with signal_inv_step [of n c a c'] reach_step.IH s assms(2) show ?case by simp
qed

lemma no_lost_wakeup:
  assumes "reach (bounded B cstep) (0, c0) (n, c)" and "B < 2 ^ 32" and "waits c t = Some (FwAwait (signal c))"
  shows "due c t"
  using reach_signal_inv [OF assms(1,2)] assms(3) by (auto simp: signal_inv_def)

end

text \<open>A run within the bound is a run.\<close>

lemma reach_bounded_reach: "reach (bounded B step) (0, s0) nc \<Longrightarrow> reach step s0 (snd nc)"
  by (induction rule: reach.induct) (auto split: if_splits intro: reach.intros)

end
