(* ===== verification/Vmutex.thy ===== *)
theory Vmutex
  imports Vfutex
begin

text \<open>
  The mutexes of \<^verbatim>\<open>thread/mutex/\<close> on the user-space futex: \<^verbatim>\<open>slim.h\<close> (the default of \<^verbatim>\<open>thread/mutex.h\<close>),
  \<^verbatim>\<open>tristate.h\<close> and \<^verbatim>\<open>musl.h\<close>. The word is 0 when the mutex is free, 1 when it is held and 2 when it is
  held and threads may be waiting.
\<close>

lemma cl_released_not_try [simp]: "cl_released x \<noteq> ClTry q"
  by (cases x) simp_all

section \<open>What makes a mutex on a futex\<close>

text \<open>
  The contract of the functions of such a mutex. An acquire returns after it changed the word from 0, and
  falls asleep only when it saw the value 2. A release that is \<open>holding\<close> has not yet given the word
  back; when it resets a word of 2 it is \<open>waking\<close> until it has changed the signal.
\<close>

locale futex_mutex =
  fixes ops :: "('a, 't, 'r, 'm) lock_ops" and word :: "'m \<Rightarrow> u32" and signal :: "'m \<Rightarrow> u32" and m0 :: 'm
    and wait :: "'a \<Rightarrow> wait_pc option" and holding :: "'r \<Rightarrow> bool" and waking :: "'r \<Rightarrow> bool"
  assumes start: "word m0 = 0" "signal m0 = 0" "holding (op_release_start ops)" "wait (op_acquire_start ops) = None"
    and no_try: "op_tryacquire ops q t m = None"
    and acquired: "op_acquire ops p t m = Some (Inr u, m') \<Longrightarrow> word m = 0 \<and> word m' \<noteq> 0 \<and> signal m' = signal m"
    and acquiring: "op_acquire ops p t m = Some (Inl p', m') \<Longrightarrow> signal m' = signal m \<and> (word m' = 0 \<longleftrightarrow> word m = 0) \<and> (word m = 2 \<longrightarrow> word m' = 2) \<and>
      (\<forall>v. wait p' = Some (FwCheck v) \<longrightarrow> v = signal m) \<and> (\<forall>v. wait p' = Some (FwAwait v) \<longrightarrow> wait p = Some (FwCheck v) \<and> word m' = 2)"
    and blocked: "op_acquire ops p t m = None \<Longrightarrow> wait p = Some (FwAwait (signal m))"
    and release_total: "op_release ops r t m \<noteq> None"
    and release_holding: "op_release ops r t m = Some (x, m') \<Longrightarrow> holding r \<Longrightarrow> signal m' = signal m \<and>
      (word m' = word m \<and> (\<exists>r'. x = Inl r' \<and> holding r') \<or> word m' = 0 \<and> (word m \<noteq> 2 \<and> x = Inr () \<or> (\<exists>r'. x = Inl r' \<and> \<not> holding r' \<and> (word m = 2 \<longrightarrow> waking r'))))"
    and release_after: "op_release ops r t m = Some (x, m') \<Longrightarrow> \<not> holding r \<Longrightarrow> word m' = word m \<and> (\<forall>r'. x = Inl r' \<longrightarrow> \<not> holding r') \<and>
      (signal m' = signal m + 1 \<or> signal m' = signal m \<and> (waking r \<longrightarrow> (\<exists>r'. x = Inl r' \<and> waking r')))"
begin

definition owns :: "('a, 't, 'r) client_pc \<Rightarrow> bool" where
  "owns pc \<longleftrightarrow> pc = ClCrit \<or> (\<exists>r. pc = ClRel r \<and> holding r)"

definition fm_rel :: "('a, 't, 'r, 'm) lock_sys \<Rightarrow> tid option \<Rightarrow> bool" where
  "fm_rel s h \<longleftrightarrow> (word (ls_mem s) = 0 \<longleftrightarrow> h = None) \<and> (\<forall>t. owns (ls_pcs s t) \<longleftrightarrow> h = Some t) \<and> (\<forall>t q. ls_pcs s t \<noteq> ClTry q)"

lemma owns_simps [simp]: "owns ClCrit" "\<not> owns ClIdle" "\<not> owns (ClAcq p)" "\<not> owns (ClTry q)" "owns (ClRel r) \<longleftrightarrow> holding r"
  by (simp_all add: owns_def)

lemma fm_relD:
  assumes "fm_rel s h"
  shows "word (ls_mem s) = 0 \<longleftrightarrow> h = None" "owns (ls_pcs s t) \<longleftrightarrow> h = Some t" "ls_pcs s t \<noteq> ClTry q"
  using assms by (auto simp: fm_rel_def)

lemma fm_rel_goto:
  assumes "fm_rel s h" and "word m = 0 \<longleftrightarrow> h' = None" and "owns pc \<longleftrightarrow> h' = Some t" and "\<And>u. u \<noteq> t \<Longrightarrow> h' = Some u \<longleftrightarrow> h = Some u" and "\<And>q. pc \<noteq> ClTry q"
  shows "fm_rel (cl_goto s t pc m) h'"
  using assms by (auto simp: fm_rel_def)

lemma fm_lock_step:
  assumes rel: "fm_rel c h" and step: "cl_step ops (t, cmd) c = Some c'"
  shows "lock_sim fm_rel c' h"
  using step
proof (cases rule: cl_step_cases)
  case (acq p r m)
  have nc: "h \<noteq> Some t" using fm_relD(2) [OF rel, of t] acq(1) by (auto simp: in_acq_def)
  show ?thesis
  proof (cases r)
    case (Inl p')
    with acquiring [of p t "ls_mem c" p' m] acq(2) have "word m = 0 \<longleftrightarrow> word (ls_mem c) = 0" by simp
    with Inl nc acq(3) fm_relD(1) [OF rel] show ?thesis by (auto intro!: lock_sim_stay fm_rel_goto [OF rel])
  next
    case (Inr u)
    with acquired [of p t "ls_mem c" u m] acq(2) have w: "word m \<noteq> 0" "word (ls_mem c) = 0" by auto
    then have h: "h = None" using fm_relD(1) [OF rel] by simp
    from w Inr acq(3) h show ?thesis by (intro lock_sim_take [OF h, where t = t]) (auto intro!: fm_rel_goto [OF rel])
  qed
next
  case (tr p r m)
  then show ?thesis by (simp add: no_try)
next
  case R: (rel r x m)
  show ?thesis
  proof (cases "holding r")
    case True
    then have h: "h = Some t" using R(1) fm_relD(2) [OF rel, of t] start(3) by (auto simp: in_rel_def)
    then have nz: "word (ls_mem c) \<noteq> 0" using fm_relD(1) [OF rel] by simp
    from release_holding [OF R(2) True] show ?thesis
    proof (elim conjE disjE exE)
      fix r' assume "word m = word (ls_mem c)" "x = Inl r'" "holding r'"
      with R(3) h nz show ?thesis by (auto intro!: lock_sim_stay fm_rel_goto [OF rel])
    next
      assume "word m = 0" "x = Inr ()"
      with R(3) h show ?thesis by (intro lock_sim_give [OF h]) (auto intro!: fm_rel_goto [OF rel])
    next
      fix r' assume "word m = 0" "x = Inl r'" "\<not> holding r'"
      with R(3) h show ?thesis by (intro lock_sim_give [OF h]) (auto intro!: fm_rel_goto [OF rel])
    qed
  next
    case False
    then have nc: "h \<noteq> Some t" using R(1) fm_relD(2) [OF rel, of t] start(3) by (auto simp: in_rel_def)
    have "\<not> owns (cl_released x)" using release_after [OF R(2) False] by (cases x) auto
    with release_after [OF R(2) False] R(3) nc fm_relD(1) [OF rel] show ?thesis by (auto intro!: lock_sim_stay fm_rel_goto [OF rel])
  qed
qed

end

sublocale futex_mutex \<subseteq> lock_impl "cl_step ops" "cl_start m0" fm_rel cl_crit
proof (unfold_locales, goal_cases)
  case 1
  show ?case using start by (simp add: fm_rel_def cl_start_def)
next
  case (2 c h t cmd c')
  then show ?case by (rule fm_lock_step)
next
  case (3 s h t)
  then show ?case using fm_relD(2) [of s h t] by (simp add: cl_crit_def)
qed

context futex_mutex
begin

definition fm_waits :: "('a, 't, 'r, 'm) lock_sys \<Rightarrow> tid \<Rightarrow> wait_pc option" where
  "fm_waits s t = (case ls_pcs s t of ClAcq p \<Rightarrow> wait p | _ \<Rightarrow> None)"

definition fm_due :: "('a, 't, 'r, 'm) lock_sys \<Rightarrow> bool" where
  "fm_due s \<longleftrightarrow> word (ls_mem s) = 2 \<or> (\<exists>u r. ls_pcs s u = ClRel r \<and> \<not> holding r \<and> waking r)"

lemma fm_waits_goto: "fm_waits (cl_goto s t pc m) u = (if u = t then (case pc of ClAcq p \<Rightarrow> wait p | _ \<Rightarrow> None) else fm_waits s u)"
  by (simp add: fm_waits_def)

lemma fm_dueI: "ls_pcs s u = ClRel r \<Longrightarrow> \<not> holding r \<Longrightarrow> waking r \<Longrightarrow> fm_due s"
  by (auto simp: fm_due_def)

text \<open>What a step does to the signal, to the waiting threads and to a wake-up that is due.\<close>

definition fm_wait_step :: "('a, 't, 'r, 'm) lock_sys \<Rightarrow> ('a, 't, 'r, 'm) lock_sys \<Rightarrow> bool" where
  "fm_wait_step c c' \<longleftrightarrow> (signal (ls_mem c') = signal (ls_mem c) \<or> signal (ls_mem c') = signal (ls_mem c) + 1) \<and>
     (signal (ls_mem c') = signal (ls_mem c) \<longrightarrow> fm_due c \<longrightarrow> fm_due c') \<and>
     (\<forall>u v. fm_waits c' u = Some (FwCheck v) \<longrightarrow> fm_waits c u = Some (FwCheck v) \<or> v = signal (ls_mem c)) \<and>
     (\<forall>u v. fm_waits c' u = Some (FwAwait v) \<longrightarrow> fm_waits c u = Some (FwAwait v) \<or> fm_waits c u = Some (FwCheck v) \<and> fm_due c')"

lemma fm_wait_acquire:
  assumes pc: "in_acq ops (ls_pcs c t) p" and op: "op_acquire ops p t (ls_mem c) = Some (r, m)"
  shows "fm_wait_step c (cl_goto c t (cl_acquired r) m)"
proof -
  let ?c = "cl_goto c t (cl_acquired r) m"
  have w: "fm_waits c t = wait p" using pc start(4) by (auto simp: in_acq_def fm_waits_def)
  have sig: "signal m = signal (ls_mem c)" and two: "word (ls_mem c) = 2 \<longrightarrow> word m = 2"
    using acquired [of p t "ls_mem c" "()" m] acquiring [of p t "ls_mem c" _ m] op by (cases r; auto)+
  have other: "ls_pcs ?c u = ClRel q" if "ls_pcs c u = ClRel q" for u q using pc that by (auto simp: in_acq_def)
  have "fm_due c \<longrightarrow> fm_due ?c" using two other unfolding fm_due_def by (metis cl_goto_sel(1))
  moreover have "fm_waits ?c t = Some (FwCheck v) \<longrightarrow> v = signal (ls_mem c)" for v
    using acquiring [of p t "ls_mem c" _ m] op by (cases r) (auto simp: fm_waits_goto)
  moreover have "fm_waits ?c t = Some (FwAwait v) \<longrightarrow> fm_waits c t = Some (FwCheck v) \<and> fm_due ?c" for v
    using acquiring [of p t "ls_mem c" _ m] op w by (cases r) (auto simp: fm_waits_goto fm_due_def)
  moreover have "fm_waits ?c u = fm_waits c u" if "u \<noteq> t" for u using that by (simp add: fm_waits_goto)
  ultimately show ?thesis using sig unfolding fm_wait_step_def by (metis cl_goto_sel(1))
qed

lemma fm_due_release:
  assumes pc: "in_rel ops (ls_pcs c t) r" and op: "op_release ops r t (ls_mem c) = Some (x, m)" and same: "signal m = signal (ls_mem c)" and due: "fm_due c"
  shows "fm_due (cl_goto c t (cl_released x) m)"
proof (cases "\<exists>u q. u \<noteq> t \<and> ls_pcs c u = ClRel q \<and> \<not> holding q \<and> waking q")
  case True
  then show ?thesis by (auto intro: fm_dueI)
next
  case False
  then have cur: "word (ls_mem c) = 2 \<or> (\<exists>q. ls_pcs c t = ClRel q \<and> \<not> holding q \<and> waking q)" using due unfolding fm_due_def by metis
  show ?thesis
  proof (cases "holding r")
    case True
    then have "word (ls_mem c) = 2" using cur pc start(3) unfolding in_rel_def by auto
    with release_holding [OF op True] show ?thesis by (auto simp: fm_due_def)
  next
    case F: False
    then have "word (ls_mem c) = 2 \<or> waking r" using cur pc start(3) unfolding in_rel_def by auto
    with release_after [OF op F] same show ?thesis by (auto simp: fm_due_def)
  qed
qed

lemma fm_wait_release:
  assumes pc: "in_rel ops (ls_pcs c t) r" and op: "op_release ops r t (ls_mem c) = Some (x, m)"
  shows "fm_wait_step c (cl_goto c t (cl_released x) m)"
proof -
  have "fm_waits (cl_goto c t (cl_released x) m) t = None" by (cases x) (simp_all add: fm_waits_goto)
  moreover have "signal m = signal (ls_mem c) \<or> signal m = signal (ls_mem c) + 1"
    using release_holding [OF op] release_after [OF op] by blast
  ultimately show ?thesis using fm_due_release [OF assms] by (auto simp: fm_wait_step_def fm_waits_goto split: if_splits)
qed

lemma fm_wait_steps: "cl_step ops (t, cmd) c = Some c' \<Longrightarrow> fm_wait_step c c'"
  by (erule cl_step_cases) (auto simp: no_try fm_wait_acquire fm_wait_release)

end

sublocale futex_mutex \<subseteq> futex_waiting "cl_step ops" "cl_start m0" "\<lambda>s. signal (ls_mem s)" fm_waits "\<lambda>s t. fm_due s"
proof (unfold_locales, goal_cases)
  case (4 l c c')
  then show ?case using fm_wait_steps [of "fst l" "snd l" c c'] by (simp add: fm_wait_step_def)
next
  case (5 l c c' t v)
  then show ?case using fm_wait_steps [of "fst l" "snd l" c c'] by (auto simp: fm_wait_step_def)
next
  case (6 l c c' t v)
  then show ?case using fm_wait_steps [of "fst l" "snd l" c c'] by (auto simp: fm_wait_step_def)
qed (use start in \<open>simp_all add: cl_start_def fm_waits_def\<close>)

context futex_mutex
begin

lemma fm_progress:
  assumes r: "reach (bounded B (cl_step ops)) (0, cl_start m0) (n, s)" and B: "B < 2 ^ 32" and busy: "ls_pcs s t \<noteq> ClIdle"
  shows "\<exists>u cmd. (cmd = Run \<or> cmd = Release) \<and> cl_step ops (u, cmd) s \<noteq> None"
proof -
  have can: "\<exists>cmd. (cmd = Run \<or> cmd = Release) \<and> cl_step ops (u, cmd) s \<noteq> None" if "ls_pcs s u = ClCrit \<or> ls_pcs s u = ClRel q" for u q
    using that release_total cl_step_enabled(1,3) [of s u] by metis
  obtain h where h: "fm_rel s h" using reach_rel [OF reach_bounded_reach [OF r]] by auto
  show ?thesis
  proof (cases "ls_pcs s t")
    case (ClAcq p)
    show ?thesis
    proof (cases "op_acquire ops p t (ls_mem s)")
      case None
      then have "fm_waits s t = Some (FwAwait (signal (ls_mem s)))" using blocked ClAcq by (simp add: fm_waits_def)
      then have "fm_due s" using no_lost_wakeup [OF r B] by simp
      then consider u q where "ls_pcs s u = ClRel q" | "word (ls_mem s) = 2" unfolding fm_due_def by blast
      then show ?thesis
      proof cases
        case 2
        then obtain u where "h = Some u" using fm_relD(1) [OF h] by auto
        then have "owns (ls_pcs s u)" using fm_relD(2) [OF h] by simp
        then show ?thesis using can [of u] unfolding owns_def by blast
      qed (use can in blast)
    next
      case (Some a)
      then show ?thesis using cl_step_enabled(2) [OF ClAcq, of ops] by blast
    qed
  next
    case (ClTry q)
    then show ?thesis using fm_relD(3) [OF h] by blast
  next
    case ClCrit
    then show ?thesis using can [of t] by blast
  next
    case (ClRel q)
    then show ?thesis using can [of t] by blast
  qed (use busy in simp)
qed

end

section \<open>Slim\<close>

record futex_mem =
  fx_word :: u32
  fx_signal :: u32

datatype slim_pc = SlCas | SlXchg | SlWait wait_pc

datatype wake_pc = RelStore | RelWake

definition vmutex_init_slim :: "futex_mem \<Rightarrow> futex_mem" where
  "vmutex_init_slim m = m\<lparr>fx_word := vatomic32_init (fx_word m) 0\<rparr>"

fun vmutex_acquire_slim :: "slim_pc \<Rightarrow> futex_mem \<Rightarrow> ((slim_pc + unit) \<times> futex_mem) option" where
  "vmutex_acquire_slim SlCas m =
     (let (old, a) = vatomic32_cmpxchg (fx_word m) 0 1
      in Some (if old = 0 then Inr () else Inl SlXchg, m\<lparr>fx_word := a\<rparr>))"
| "vmutex_acquire_slim SlXchg m =
     (let (old, a) = vatomic32_xchg (fx_word m) 2
      in Some (if old \<noteq> 0 then Inl (SlWait FwSignal) else Inr (), m\<lparr>fx_word := a\<rparr>))"
| "vmutex_acquire_slim (SlWait p) m =
     map_option (\<lambda>r. (Inl (case r of Inl p' \<Rightarrow> SlWait p' | Inr _ \<Rightarrow> SlXchg), m)) (vfutex_wait 2 p (fx_word m) (fx_signal m))"

fun vmutex_release_slim :: "wake_pc \<Rightarrow> futex_mem \<Rightarrow> (wake_pc + unit) \<times> futex_mem" where
  "vmutex_release_slim RelStore m =
     (let (old, a) = vatomic32_xchg (fx_word m) 0
      in (if old = 1 then Inr () else Inl RelWake, m\<lparr>fx_word := a\<rparr>))"
| "vmutex_release_slim RelWake m = (Inr (), m\<lparr>fx_signal := vfutex_wake (fx_signal m)\<rparr>)"

definition slim_ops :: "(slim_pc, unit, wake_pc, futex_mem) lock_ops" where
  "slim_ops = \<lparr>op_acquire = (\<lambda>p t. vmutex_acquire_slim p), op_acquire_start = SlCas,
     op_tryacquire = (\<lambda>_ _ _. None), op_tryacquire_start = (),
     op_release = (\<lambda>p t m. Some (vmutex_release_slim p m)), op_release_start = RelStore\<rparr>"

definition slim_start :: "u32 \<Rightarrow> (slim_pc, unit, wake_pc, futex_mem) lock_sys" where
  "slim_start w = cl_start (vmutex_init_slim \<lparr>fx_word = w, fx_signal = 0\<rparr>)"

lemma slim_ops_sel [simp]:
  "op_acquire slim_ops p t = vmutex_acquire_slim p" "op_acquire_start slim_ops = SlCas" "op_tryacquire slim_ops q t m = None"
  "op_release slim_ops r t m = Some (vmutex_release_slim r m)" "op_release_start slim_ops = RelStore"
  by (simp_all add: slim_ops_def)



fun slim_wait :: "slim_pc \<Rightarrow> wait_pc option" where
  "slim_wait (SlWait p) = Some p" | "slim_wait _ = None"

definition store_holding :: "wake_pc \<Rightarrow> bool" where
  "store_holding r \<longleftrightarrow> r = RelStore"

lemma vfutex_wait_Inl:
  "vfutex_wait v p a g = Some (Inl (FwCheck s)) \<longleftrightarrow> p = FwSignal \<and> s = g"
  "vfutex_wait v p a g = Some (Inl (FwAwait s)) \<longleftrightarrow> p = FwCheck s \<and> a = v"
  "vfutex_wait v p a g = None \<longleftrightarrow> p = FwAwait g"
  by (cases p; auto simp: vatomic_simps)+

lemma sum_wait_cases:
  "(case r of Inl p \<Rightarrow> f p | Inr (u :: unit) \<Rightarrow> d) = y \<longleftrightarrow> (\<exists>p. r = Inl p \<and> f p = y) \<or> r = Inr () \<and> d = y"
  by (cases r) auto

interpretation slim: futex_mutex slim_ops fx_word fx_signal "vmutex_init_slim \<lparr>fx_word = w, fx_signal = 0\<rparr>"
  slim_wait store_holding "\<lambda>r. r = RelWake" for w
proof (unfold_locales, goal_cases)
  case (6 p t m u m')
  then show ?case by (cases p) (auto simp: vatomic_simps split: if_splits)
next
  case (7 p t m p' m')
  then show ?case by (cases p) (auto simp: vatomic_simps vfutex_wait_Inl sum_wait_cases split: if_splits)
next
  case (8 p t m)
  then show ?case by (cases p) (auto simp: vatomic_simps vfutex_wait_Inl split: if_splits prod.splits)
next
  case (10 r t m x m')
  then show ?case by (cases r) (auto simp: store_holding_def vatomic_simps split: if_splits)
next
  case (11 r t m x m')
  then show ?case by (cases r) (auto simp: store_holding_def vfutex_wake_eq)
qed (simp_all add: slim_ops_def store_holding_def vmutex_init_slim_def vatomic_simps)

section \<open>Tristate\<close>

datatype tri_pc = TrCas | TrMark | TrWait wait_pc | TrTake

datatype tri_rel_pc = TrRelCas | TrRelStore | TrRelWake

definition vmutex_init_tristate :: "futex_mem \<Rightarrow> futex_mem" where
  "vmutex_init_tristate m = m\<lparr>fx_word := vatomic32_init (fx_word m) 0\<rparr>"

fun vmutex_acquire_tristate :: "tri_pc \<Rightarrow> futex_mem \<Rightarrow> ((tri_pc + unit) \<times> futex_mem) option" where
  "vmutex_acquire_tristate TrCas m =
     (let (old, a) = vatomic32_cmpxchg (fx_word m) 0 1
      in Some (if old = 0 then Inr () else Inl TrMark, m\<lparr>fx_word := a\<rparr>))"
| "vmutex_acquire_tristate TrMark m =
     (let (_, a) = vatomic32_cmpxchg (fx_word m) 1 2 in Some (Inl (TrWait FwSignal), m\<lparr>fx_word := a\<rparr>))"
| "vmutex_acquire_tristate (TrWait p) m =
     map_option (\<lambda>r. (Inl (case r of Inl p' \<Rightarrow> TrWait p' | Inr _ \<Rightarrow> TrTake), m)) (vfutex_wait 2 p (fx_word m) (fx_signal m))"
| "vmutex_acquire_tristate TrTake m =
     (let (old, a) = vatomic32_cmpxchg (fx_word m) 0 2
      in Some (if old \<noteq> 0 then Inl TrMark else Inr (), m\<lparr>fx_word := a\<rparr>))"

fun vmutex_release_tristate :: "tri_rel_pc \<Rightarrow> futex_mem \<Rightarrow> (tri_rel_pc + unit) \<times> futex_mem" where
  "vmutex_release_tristate TrRelCas m =
     (let (old, a) = vatomic32_cmpxchg (fx_word m) 1 0
      in (if old = 1 then Inr () else Inl TrRelStore, m\<lparr>fx_word := a\<rparr>))"
| "vmutex_release_tristate TrRelStore m = (Inl TrRelWake, m\<lparr>fx_word := vatomic32_write (fx_word m) 0\<rparr>)"
| "vmutex_release_tristate TrRelWake m = (Inr (), m\<lparr>fx_signal := vfutex_wake (fx_signal m)\<rparr>)"

definition tristate_ops :: "(tri_pc, unit, tri_rel_pc, futex_mem) lock_ops" where
  "tristate_ops = \<lparr>op_acquire = (\<lambda>p t. vmutex_acquire_tristate p), op_acquire_start = TrCas,
     op_tryacquire = (\<lambda>_ _ _. None), op_tryacquire_start = (),
     op_release = (\<lambda>p t m. Some (vmutex_release_tristate p m)), op_release_start = TrRelCas\<rparr>"

lemma tristate_ops_sel [simp]:
  "op_acquire tristate_ops p t = vmutex_acquire_tristate p" "op_acquire_start tristate_ops = TrCas" "op_tryacquire tristate_ops q t m = None"
  "op_release tristate_ops r t m = Some (vmutex_release_tristate r m)" "op_release_start tristate_ops = TrRelCas"
  by (simp_all add: tristate_ops_def)

fun tri_wait :: "tri_pc \<Rightarrow> wait_pc option" where
  "tri_wait (TrWait p) = Some p" | "tri_wait _ = None"

lemma tristate_release_cases:
  assumes "vmutex_release_tristate r m = (x, m')"
  shows "r = TrRelCas \<and> fx_word m = 1 \<and> x = Inr () \<and> fx_word m' = 0 \<and> fx_signal m' = fx_signal m \<or>
     r = TrRelCas \<and> x = Inl TrRelStore \<and> m' = m \<or>
     r = TrRelStore \<and> x = Inl TrRelWake \<and> fx_word m' = 0 \<and> fx_signal m' = fx_signal m \<or>
     r = TrRelWake \<and> x = Inr () \<and> fx_word m' = fx_word m \<and> fx_signal m' = fx_signal m + 1"
proof (cases r)
  case TrRelCas
  then show ?thesis using assms by (cases "fx_word m = 1") (simp_all add: vatomic_simps, elim conjE, hypsubst, simp)
qed (use assms in \<open>auto simp: vatomic_simps vfutex_wake_eq\<close>)

interpretation tristate: futex_mutex tristate_ops fx_word fx_signal "vmutex_init_tristate \<lparr>fx_word = w, fx_signal = 0\<rparr>"
  tri_wait "\<lambda>r. r \<noteq> TrRelWake" "\<lambda>r. r = TrRelWake" for w
proof (unfold_locales, goal_cases)
  case (6 p t m u m')
  then show ?case by (cases p) (auto simp: vatomic_simps split: if_splits)
next
  case (7 p t m p' m')
  then show ?case by (cases p) (auto simp: vatomic_simps vfutex_wait_Inl sum_wait_cases split: if_splits)
next
  case (8 p t m)
  then show ?case by (cases p) (auto simp: vatomic_simps vfutex_wait_Inl split: if_splits prod.splits)
next
  case (10 r t m x m')
  then have "vmutex_release_tristate r m = (x, m')" by simp
  from tristate_release_cases [OF this] 10(2) show ?case by (elim disjE conjE) simp_all
next
  case (11 r t m x m')
  then show ?case by (cases r) (auto simp: vfutex_wake_eq split: if_splits)
qed (simp_all add: vmutex_init_tristate_def vatomic_simps)

section \<open>Musl\<close>

record musl_mem =
  mu_lock :: u32
  mu_waiters :: u32
  mu_signal :: u32

definition MUSL_MAX_SPIN :: nat where "MUSL_MAX_SPIN = 100"

text \<open>
  \<open>MuSpin n\<close> is the test of the spinning loop with \<open>spin = n\<close>, \<open>MuPeek n\<close> the second read of the same test.
\<close>

datatype musl_pc = MuCas | MuSpin nat | MuPeek nat | MuRetry | MuInc | MuMark | MuWait wait_pc | MuDec

datatype musl_rel_pc = MuRelXchg | MuRelCheck u32 | MuRelWake

definition vmutex_init_musl :: "musl_mem \<Rightarrow> musl_mem" where
  "vmutex_init_musl m = m\<lparr>mu_lock := vatomic32_init (mu_lock m) 0, mu_waiters := vatomic32_init (mu_waiters m) 0\<rparr>"

fun vmutex_acquire_musl :: "musl_pc \<Rightarrow> musl_mem \<Rightarrow> ((musl_pc + unit) \<times> musl_mem) option" where
  "vmutex_acquire_musl MuCas m =
     (let (old, a) = vatomic32_cmpxchg (mu_lock m) 0 1
      in Some (if old = 0 then Inr () else Inl (MuSpin MUSL_MAX_SPIN), m\<lparr>mu_lock := a\<rparr>))"
| "vmutex_acquire_musl (MuSpin n) m =
     (if n = 0 then Some (Inl MuRetry, m)
      else Some (Inl (if vatomic32_read (mu_lock m) \<noteq> 0 then MuPeek (n - 1) else MuRetry), m))"
| "vmutex_acquire_musl (MuPeek n) m =
     Some (Inl (if vatomic32_read (mu_waiters m) = 0 then MuSpin n else MuRetry), m)"
| "vmutex_acquire_musl MuRetry m =
     (let (old, a) = vatomic32_cmpxchg (mu_lock m) 0 1
      in Some (if old \<noteq> 0 then Inl MuInc else Inr (), m\<lparr>mu_lock := a\<rparr>))"
| "vmutex_acquire_musl MuInc m = Some (Inl MuMark, m\<lparr>mu_waiters := vatomic32_inc (mu_waiters m)\<rparr>)"
| "vmutex_acquire_musl MuMark m =
     (let (_, a) = vatomic32_cmpxchg (mu_lock m) 1 2 in Some (Inl (MuWait FwSignal), m\<lparr>mu_lock := a\<rparr>))"
| "vmutex_acquire_musl (MuWait p) m =
     map_option (\<lambda>r. (Inl (case r of Inl p' \<Rightarrow> MuWait p' | Inr _ \<Rightarrow> MuDec), m)) (vfutex_wait 2 p (mu_lock m) (mu_signal m))"
| "vmutex_acquire_musl MuDec m = Some (Inl MuRetry, m\<lparr>mu_waiters := vatomic32_dec (mu_waiters m)\<rparr>)"

fun vmutex_release_musl :: "musl_rel_pc \<Rightarrow> musl_mem \<Rightarrow> (musl_rel_pc + unit) \<times> musl_mem" where
  "vmutex_release_musl MuRelXchg m =
     (let (old, a) = vatomic32_xchg (mu_lock m) 0 in (Inl (MuRelCheck old), m\<lparr>mu_lock := a\<rparr>))"
| "vmutex_release_musl (MuRelCheck old) m =
     (if vatomic32_read (mu_waiters m) > 0 \<or> old \<noteq> 1 then Inl MuRelWake else Inr (), m)"
| "vmutex_release_musl MuRelWake m = (Inr (), m\<lparr>mu_signal := vfutex_wake (mu_signal m)\<rparr>)"

definition musl_ops :: "(musl_pc, unit, musl_rel_pc, musl_mem) lock_ops" where
  "musl_ops = \<lparr>op_acquire = (\<lambda>p t. vmutex_acquire_musl p), op_acquire_start = MuCas,
     op_tryacquire = (\<lambda>_ _ _. None), op_tryacquire_start = (),
     op_release = (\<lambda>p t m. Some (vmutex_release_musl p m)), op_release_start = MuRelXchg\<rparr>"

lemma musl_ops_sel [simp]:
  "op_acquire musl_ops p t = vmutex_acquire_musl p" "op_acquire_start musl_ops = MuCas" "op_tryacquire musl_ops q t m = None"
  "op_release musl_ops r t m = Some (vmutex_release_musl r m)" "op_release_start musl_ops = MuRelXchg"
  by (simp_all add: musl_ops_def)

fun musl_wait :: "musl_pc \<Rightarrow> wait_pc option" where
  "musl_wait (MuWait p) = Some p" | "musl_wait _ = None"

fun musl_waking :: "musl_rel_pc \<Rightarrow> bool" where
  "musl_waking MuRelXchg = False" | "musl_waking (MuRelCheck old) = (old \<noteq> 1)" | "musl_waking MuRelWake = True"

interpretation musl: futex_mutex musl_ops mu_lock mu_signal "vmutex_init_musl \<lparr>mu_lock = w, mu_waiters = k, mu_signal = 0\<rparr>"
  musl_wait "\<lambda>r. r = MuRelXchg" musl_waking for w k
proof (unfold_locales, goal_cases)
  case (6 p t m u m')
  then show ?case by (cases p) (auto simp: vatomic_simps split: if_splits)
next
  case (7 p t m p' m')
  then show ?case by (cases p) (auto simp: vatomic_simps vfutex_wait_Inl sum_wait_cases split: if_splits)
next
  case (8 p t m)
  then show ?case by (cases p) (auto simp: vatomic_simps vfutex_wait_Inl split: if_splits prod.splits)
next
  case (10 r t m x m')
  then show ?case by (cases r) (auto simp: vatomic_simps)
next
  case (11 r t m x m')
  then show ?case by (cases r) (auto simp: vfutex_wake_eq split: if_splits)
qed (simp_all add: vmutex_init_musl_def vatomic_simps)

definition tristate_start :: "u32 \<Rightarrow> (tri_pc, unit, tri_rel_pc, futex_mem) lock_sys" where
  "tristate_start w = cl_start (vmutex_init_tristate \<lparr>fx_word = w, fx_signal = 0\<rparr>)"

definition musl_start :: "u32 \<Rightarrow> u32 \<Rightarrow> (musl_pc, unit, musl_rel_pc, musl_mem) lock_sys" where
  "musl_start w k = cl_start (vmutex_init_musl \<lparr>mu_lock = w, mu_waiters = k, mu_signal = 0\<rparr>)"

section \<open>Properties\<close>

text \<open>
  C30. Mutual exclusion of the three mutexes: for any number of threads that acquire and release, in every
  interleaving of their shared accesses and of their waits and wake-ups, and whatever the memory of the
  mutex held before its initialisation, no two threads are in the critical section.
\<close>

theorem vmutex_mutual_exclusion:
  "(\<forall>s t u. reach (cl_step slim_ops) (slim_start w) s \<and> cl_crit s t \<and> cl_crit s u \<longrightarrow> t = u) \<and>
   (\<forall>s t u. reach (cl_step tristate_ops) (tristate_start w) s \<and> cl_crit s t \<and> cl_crit s u \<longrightarrow> t = u) \<and>
   (\<forall>s t u. reach (cl_step musl_ops) (musl_start w k) s \<and> cl_crit s t \<and> cl_crit s u \<longrightarrow> t = u)"
  unfolding slim_start_def tristate_start_def musl_start_def
proof (intro conjI allI impI, goal_cases)
  case (1 s t u)
  then show ?case by (elim conjE) (rule slim.mutual_exclusion)
next
  case (2 s t u)
  then show ?case by (elim conjE) (rule tristate.mutual_exclusion)
next
  case (3 s t u)
  then show ?case by (elim conjE) (rule musl.mutual_exclusion)
qed

lemmas vmutex_run = cl_start_def cl_goto_def cl_crit_def slim_start_def vmutex_init_slim_def tristate_start_def
  vmutex_init_tristate_def musl_start_def vmutex_init_musl_def vatomic_simps

definition vmutex_two :: "lock_label list" where
  "vmutex_two = [(0, Acquire), (1, Acquire), (1, Run), (1, Run), (1, Run)]"

theorem vmutex_mutual_exclusion_witness:
  "\<exists>s. exec (cl_step slim_ops) vmutex_two (slim_start 7) = Some s \<and> cl_crit s 0 \<and> (\<forall>u. cl_crit s u = (u = 0))"
proof -
  obtain s where e: "exec (cl_step slim_ops) vmutex_two (slim_start 7) = Some s" and c: "cl_crit s 0"
    by (simp add: vmutex_two_def vmutex_run)
  have "t = 0" if "cl_crit s t" for t using conjunct1 [OF vmutex_mutual_exclusion [of 7]] exec_reach [OF e] c that by blast
  with e c show ?thesis by blast
qed

text \<open>
  No wake-up is lost: in every state that the threads reach in fewer than \<open>2 ^ 32\<close> steps (so that the
  global signal does not wrap around), as long as some thread is inside a call or in its critical section,
  some thread can go on with its call or release the mutex. In particular the threads are never all asleep.
\<close>

theorem vmutex_progress:
  "(\<forall>n s t. reach (bounded (2 ^ 32 - 1) (cl_step slim_ops)) (0, slim_start w) (n, s) \<and> ls_pcs s t \<noteq> ClIdle \<longrightarrow>
     (\<exists>u cmd. (cmd = Run \<or> cmd = Release) \<and> cl_step slim_ops (u, cmd) s \<noteq> None)) \<and>
   (\<forall>n s t. reach (bounded (2 ^ 32 - 1) (cl_step tristate_ops)) (0, tristate_start w) (n, s) \<and> ls_pcs s t \<noteq> ClIdle \<longrightarrow>
     (\<exists>u cmd. (cmd = Run \<or> cmd = Release) \<and> cl_step tristate_ops (u, cmd) s \<noteq> None)) \<and>
   (\<forall>n s t. reach (bounded (2 ^ 32 - 1) (cl_step musl_ops)) (0, musl_start w k) (n, s) \<and> ls_pcs s t \<noteq> ClIdle \<longrightarrow>
     (\<exists>u cmd. (cmd = Run \<or> cmd = Release) \<and> cl_step musl_ops (u, cmd) s \<noteq> None))"
proof -
  have B: "2 ^ 32 - 1 < (2 ^ 32 :: nat)" by simp
  show ?thesis unfolding slim_start_def tristate_start_def musl_start_def
  proof (intro conjI allI impI, goal_cases)
    case (1 n s t)
    then show ?case using slim.fm_progress [OF _ B] by (elim conjE)
  next
    case (2 n s t)
    then show ?case using tristate.fm_progress [OF _ B] by (elim conjE)
  next
    case (3 n s t)
    then show ?case using musl.fm_progress [OF _ B] by (elim conjE)
  qed
qed

theorem vmutex_progress_witness:
  "\<exists>n s u cmd. reach (bounded (2 ^ 32 - 1) (cl_step slim_ops)) (0, slim_start 7) (n, s) \<and> cl_step slim_ops (1, Run) s = None \<and>
     (cmd = Run \<or> cmd = Release) \<and> cl_step slim_ops (u, cmd) s \<noteq> None"
proof -
  obtain s where e: "exec (cl_step slim_ops) vmutex_two (slim_start 7) = Some s" "ls_pcs s 1 \<noteq> ClIdle" "cl_step slim_ops (1, Run) s = None"
    by (simp add: vmutex_two_def vmutex_run)
  have "length vmutex_two \<le> 2 ^ 32 - 1" by (simp add: vmutex_two_def)
  from exec_bounded [OF e(1) this] have r: "reach (bounded (2 ^ 32 - 1) (cl_step slim_ops)) (0, slim_start 7) (length vmutex_two, s)" .
  with e(2) conjunct1 [OF vmutex_progress [of 7]] have "\<exists>u cmd. (cmd = Run \<or> cmd = Release) \<and> cl_step slim_ops (u, cmd) s \<noteq> None" by blast
  with r e(3) show ?thesis by blast
qed

end
