(* ===== verification/Vonce.thy ===== *)
theory Vonce
  imports Vmutex
begin

text \<open>
  One-time initialisation, \<^verbatim>\<open>thread/once.h\<close>, on the user-space futex. The callback is a parameter; it runs in
  one step that is recorded together with the thread that ran it, and so is every result of a call.
\<close>

section \<open>The call\<close>

definition VONCE_ZERO :: u32 where "VONCE_ZERO = 0"

definition VONCE_CALL :: u32 where "VONCE_CALL = 1"

definition VONCE_DONE :: u32 where "VONCE_DONE = 2"

lemmas vonce_states = VONCE_ZERO_def VONCE_CALL_def VONCE_DONE_def

text \<open>\<open>OnStore r\<close> and \<open>OnWake r\<close> follow the callback, which returned \<open>r\<close>.\<close>

datatype 'v once_pc = OnRead | OnCas | OnCall | OnStore "'v option" | OnWake "'v option" | OnWait wait_pc | OnReread

text \<open>The result \<open>Inr r\<close> is the returned pointer, \<open>None\<close> stands for \<open>NULL\<close>.\<close>

definition once_loop :: "u32 \<Rightarrow> 'v once_pc + 'v option" where
  "once_loop state = (if state = VONCE_CALL then Inl (OnWait FwSignal) else Inr None)"

fun vonce_call :: "'v option \<Rightarrow> 'v once_pc \<Rightarrow> futex_mem \<Rightarrow> (('v once_pc + 'v option) \<times> futex_mem) option" where
  "vonce_call cb OnRead m = Some (if vatomic32_read (fx_word m) = VONCE_DONE then Inr None else Inl OnCas, m)"
| "vonce_call cb OnCas m =
     (let (state, a) = vatomic32_cmpxchg (fx_word m) VONCE_ZERO VONCE_CALL
      in Some (if state = VONCE_ZERO then Inl OnCall else once_loop state, m\<lparr>fx_word := a\<rparr>))"
| "vonce_call cb OnCall m = Some (Inl (OnStore cb), m)"
| "vonce_call cb (OnStore r) m = Some (Inl (OnWake r), m\<lparr>fx_word := vatomic32_write (fx_word m) VONCE_DONE\<rparr>)"
| "vonce_call cb (OnWake r) m = Some (Inr r, m\<lparr>fx_signal := vfutex_wake (fx_signal m)\<rparr>)"
| "vonce_call cb (OnWait p) m =
     map_option (\<lambda>r. (Inl (case r of Inl p' \<Rightarrow> OnWait p' | Inr _ \<Rightarrow> OnReread), m)) (vfutex_wait 1 p (fx_word m) (fx_signal m))"
| "vonce_call cb OnReread m = Some (once_loop (vatomic32_read (fx_word m)), m)"

section \<open>Threads that call it\<close>

record 'v once_sys =
  on_mem :: futex_mem
  on_pcs :: "tid \<Rightarrow> 'v once_pc option"
  on_called :: "tid list"
  on_results :: "(tid \<times> 'v option) list"

definition once_start :: "'v once_sys" where
  "once_start = \<lparr>on_mem = \<lparr>fx_word = VONCE_ZERO, fx_signal = 0\<rparr>, on_pcs = (\<lambda>_. None), on_called = [], on_results = []\<rparr>"

text \<open>A thread that is not in a call starts one. \<open>cb t\<close> is what the callback returns for thread \<open>t\<close>.\<close>

definition once_step :: "(tid \<Rightarrow> 'v option) \<Rightarrow> tid \<Rightarrow> 'v once_sys \<Rightarrow> 'v once_sys option" where
  "once_step cb t s =
     (let pc = (case on_pcs s t of None \<Rightarrow> OnRead | Some p \<Rightarrow> p) in
      map_option (\<lambda>(r, m). s\<lparr>on_mem := m,
          on_pcs := (on_pcs s)(t := (case r of Inl p \<Rightarrow> Some p | Inr _ \<Rightarrow> None)),
          on_called := on_called s @ (if pc = OnCall then [t] else []),
          on_results := on_results s @ (case r of Inl _ \<Rightarrow> [] | Inr v \<Rightarrow> [(t, v)])\<rparr>)
        (vonce_call (cb t) pc (on_mem s)))"

section \<open>The callback runs once\<close>

definition once_busy :: "'v once_pc option \<Rightarrow> bool" where
  "once_busy p \<longleftrightarrow> p = Some OnCall \<or> (\<exists>r. p = Some (OnStore r))"

definition once_runner :: "tid list \<Rightarrow> (tid \<Rightarrow> 'v once_pc option) \<Rightarrow> tid \<Rightarrow> bool" where
  "once_runner called pcs u \<longleftrightarrow> (\<forall>t. once_busy (pcs t) \<longleftrightarrow> t = u) \<and> called = (if pcs u = Some OnCall then [] else [u])"

text \<open>
  The word says how far the initialisation is: not begun, in progress in exactly one thread, or done. In
  \<open>OnStore\<close> and \<open>OnWake\<close> a thread carries the result of its own callback.
\<close>

definition once_inv :: "(tid \<Rightarrow> 'v option) \<Rightarrow> 'v once_sys \<Rightarrow> bool" where
  "once_inv cb s \<longleftrightarrow>
     (fx_word (on_mem s) = 0 \<longrightarrow> on_called s = [] \<and> on_results s = [] \<and> (\<forall>t p. on_pcs s t = Some p \<longrightarrow> p = OnCas)) \<and>
     (fx_word (on_mem s) = 1 \<longrightarrow> on_results s = [] \<and> (\<exists>u. once_runner (on_called s) (on_pcs s) u) \<and> (\<forall>t r. on_pcs s t \<noteq> Some (OnWake r))) \<and>
     (fx_word (on_mem s) \<noteq> 0 \<longrightarrow> fx_word (on_mem s) \<noteq> 1 \<longrightarrow> (\<forall>t. \<not> once_busy (on_pcs s t)) \<and> (\<exists>u. on_called s = [u])) \<and>
     (\<forall>t r. on_pcs s t = Some (OnStore r) \<or> on_pcs s t = Some (OnWake r) \<longrightarrow> on_called s = [t] \<and> r = cb t) \<and>
     (\<forall>t r. (t, r) \<in> set (on_results s) \<longrightarrow> (\<exists>u. on_called s = [u] \<and> (r = None \<or> t = u \<and> r = cb u)))"

lemma once_busy_simps [simp]:
  "once_busy (Some OnCall)" "once_busy (Some (OnStore r))" "\<not> once_busy None" "\<not> once_busy (Some OnRead)" "\<not> once_busy (Some OnCas)"
  "\<not> once_busy (Some (OnWake r))" "\<not> once_busy (Some (OnWait p))" "\<not> once_busy (Some OnReread)"
  by (auto simp: once_busy_def)

lemma once_runner_other: "once_runner called pcs u \<Longrightarrow> \<not> once_busy (pcs t) \<Longrightarrow> \<not> once_busy p \<Longrightarrow> once_runner called (pcs(t := p)) u"
  by (auto simp: once_runner_def)

lemma once_runner_busy: "once_runner called pcs u \<Longrightarrow> once_busy (pcs t) \<Longrightarrow> t = u"
  by (simp add: once_runner_def)

lemma futex_mem_same: "fx_word m = v \<Longrightarrow> m\<lparr>fx_word := v\<rparr> = m"
  by (cases m) simp

text \<open>The steps of a thread, by what they change.\<close>

lemma once_step_cases:
  assumes "once_step cb t s = Some s'"
  obtains
    (enter) "on_pcs s t \<in> {None, Some OnRead}" "fx_word (on_mem s) \<noteq> 2" "s' = s\<lparr>on_pcs := (on_pcs s)(t := Some OnCas)\<rparr>"
  | (quick) "on_pcs s t \<in> {None, Some OnRead, Some OnCas, Some OnReread}" "on_pcs s t \<in> {None, Some OnRead} \<longrightarrow> fx_word (on_mem s) = 2" "on_pcs s t = Some OnCas \<longrightarrow> fx_word (on_mem s) \<noteq> 0"
      "fx_word (on_mem s) \<noteq> 1" "s' = s\<lparr>on_pcs := (on_pcs s)(t := None), on_results := on_results s @ [(t, None)]\<rparr>"
  | (take) "on_pcs s t = Some OnCas" "fx_word (on_mem s) = 0" "s' = s\<lparr>on_mem := (on_mem s)\<lparr>fx_word := 1\<rparr>, on_pcs := (on_pcs s)(t := Some OnCall)\<rparr>"
  | (call) "on_pcs s t = Some OnCall" "s' = s\<lparr>on_pcs := (on_pcs s)(t := Some (OnStore (cb t))), on_called := on_called s @ [t]\<rparr>"
  | (store) r where "on_pcs s t = Some (OnStore r)" "s' = s\<lparr>on_mem := (on_mem s)\<lparr>fx_word := 2\<rparr>, on_pcs := (on_pcs s)(t := Some (OnWake r))\<rparr>"
  | (wake) r where "on_pcs s t = Some (OnWake r)"
      "s' = s\<lparr>on_mem := (on_mem s)\<lparr>fx_signal := fx_signal (on_mem s) + 1\<rparr>, on_pcs := (on_pcs s)(t := None), on_results := on_results s @ [(t, r)]\<rparr>"
  | (loop) "on_pcs s t \<in> {Some OnCas, Some OnReread}" "fx_word (on_mem s) = 1" "s' = s\<lparr>on_pcs := (on_pcs s)(t := Some (OnWait FwSignal))\<rparr>"
  | (wait) p x where "on_pcs s t = Some (OnWait p)" "vfutex_wait 1 p (fx_word (on_mem s)) (fx_signal (on_mem s)) = Some x"
      "s' = s\<lparr>on_pcs := (on_pcs s)(t := Some (case x of Inl p' \<Rightarrow> OnWait p' | Inr _ \<Rightarrow> OnReread))\<rparr>"
proof (cases "on_pcs s t")
  case None
  then show thesis using assms enter quick by (cases "fx_word (on_mem s) = 2") (auto simp: once_step_def vonce_states vatomic_simps)
next
  case (Some p)
  show thesis
  proof (cases p)
    case OnRead
    then show thesis using assms Some enter quick by (cases "fx_word (on_mem s) = 2") (auto simp: once_step_def vonce_states vatomic_simps)
  next
    case OnCas
    consider "fx_word (on_mem s) = 0" | "fx_word (on_mem s) = 1" | "fx_word (on_mem s) \<noteq> 0" "fx_word (on_mem s) \<noteq> 1" by blast
    then show thesis
    proof cases
      case 1
      then show thesis using assms Some OnCas by (intro take) (simp_all add: once_step_def vonce_states vatomic_simps)
    next
      case 2
      then show thesis using assms Some OnCas by (intro loop) (auto simp: futex_mem_same once_step_def once_loop_def vonce_states vatomic_simps)
    next
      case 3
      then show thesis using assms Some OnCas by (intro quick) (simp_all add: once_step_def once_loop_def vonce_states vatomic_simps)
    qed
  next
    case OnCall
    then show thesis using assms Some call by (auto simp: once_step_def)
  next
    case (OnStore r)
    then show thesis using assms Some store by (auto simp: once_step_def vonce_states vatomic_simps)
  next
    case (OnWake r)
    then show thesis using assms Some wake by (auto simp: once_step_def vfutex_wake_eq)
  next
    case (OnWait w)
    then show thesis using assms Some wait by (auto simp: once_step_def)
  next
    case OnReread
    then show thesis using assms Some quick loop
      by (cases "fx_word (on_mem s) = 1") (auto simp: once_step_def once_loop_def vonce_states vatomic_simps)
  qed
qed

lemma once_invD:
  assumes "once_inv cb s"
  shows "fx_word (on_mem s) = 0 \<Longrightarrow> on_called s = [] \<and> on_results s = [] \<and> (\<forall>t p. on_pcs s t = Some p \<longrightarrow> p = OnCas)"
    "fx_word (on_mem s) = 1 \<Longrightarrow> on_results s = [] \<and> (\<exists>u. once_runner (on_called s) (on_pcs s) u) \<and> (\<forall>t r. on_pcs s t \<noteq> Some (OnWake r))"
    "fx_word (on_mem s) \<noteq> 0 \<Longrightarrow> fx_word (on_mem s) \<noteq> 1 \<Longrightarrow> (\<forall>t. \<not> once_busy (on_pcs s t)) \<and> (\<exists>u. on_called s = [u])"
    "on_pcs s t = Some (OnStore r) \<or> on_pcs s t = Some (OnWake r) \<Longrightarrow> on_called s = [t] \<and> r = cb t"
    "(t, r) \<in> set (on_results s) \<Longrightarrow> \<exists>u. on_called s = [u] \<and> (r = None \<or> t = u \<and> r = cb u)"
    "once_busy (on_pcs s t) \<Longrightarrow> fx_word (on_mem s) = 1"
proof -
  show w: "fx_word (on_mem s) = 0 \<Longrightarrow> on_called s = [] \<and> on_results s = [] \<and> (\<forall>t p. on_pcs s t = Some p \<longrightarrow> p = OnCas)"
    "fx_word (on_mem s) \<noteq> 0 \<Longrightarrow> fx_word (on_mem s) \<noteq> 1 \<Longrightarrow> (\<forall>t. \<not> once_busy (on_pcs s t)) \<and> (\<exists>u. on_called s = [u])"
    using assms unfolding once_inv_def by blast+
  show "fx_word (on_mem s) = 1" if "once_busy (on_pcs s t)"
    using w that by (metis once_busy_def once_busy_simps(5) option.inject once_pc.distinct)
qed (use assms in \<open>unfold once_inv_def, blast+\<close>)

lemma once_inv_runner:
  assumes inv: "once_inv cb s" and busy: "once_busy (on_pcs s t)"
  shows "fx_word (on_mem s) = 1" "once_runner (on_called s) (on_pcs s) t"
proof -
  show w: "fx_word (on_mem s) = 1" by (rule once_invD(6) [OF inv busy])
  obtain u where u: "once_runner (on_called s) (on_pcs s) u" using once_invD(2) [OF inv w] by blast
  with once_runner_busy [OF u busy] show "once_runner (on_called s) (on_pcs s) t" by simp
qed

lemma once_inv_move:
  assumes inv: "once_inv cb s" and old: "\<not> once_busy (on_pcs s t)"
    and new: "\<not> once_busy p" "\<And>r. p \<noteq> Some (OnWake r)" "fx_word (on_mem s) = 0 \<Longrightarrow> p = None \<or> p = Some OnCas"
  shows "once_inv cb (s\<lparr>on_pcs := (on_pcs s)(t := p)\<rparr>)"
proof -
  have "p \<noteq> Some (OnStore r)" for r using new(1) by auto
  moreover have "\<exists>u. once_runner (on_called s) ((on_pcs s)(t := p)) u" if "fx_word (on_mem s) = 1"
    using once_invD(2) [OF inv that] once_runner_other [of _ "on_pcs s" _ t p] old new(1) by blast
  ultimately show ?thesis using inv new unfolding once_inv_def by auto
qed

lemma once_inv_step:
  assumes inv: "once_inv cb s" and step: "once_step cb t s = Some s'"
  shows "once_inv cb s'"
  using step
proof (cases rule: once_step_cases)
  case enter
  then show ?thesis by (auto intro!: once_inv_move [OF inv])
next
  case quick
  have "fx_word (on_mem s) \<noteq> 0" using quick(1-3) once_invD(1) [OF inv] by auto
  moreover have "once_inv cb (s\<lparr>on_pcs := (on_pcs s)(t := None)\<rparr>)" using quick(1) by (intro once_inv_move [OF inv]) auto
  ultimately show ?thesis using quick(4,5) unfolding once_inv_def by auto
next
  case take
  have "\<not> once_busy (on_pcs s u)" for u
    using once_invD(1) [OF inv take(2)] by (metis once_busy_simps(3,5) option.exhaust)
  then have "once_runner [] ((on_pcs s)(t := Some OnCall)) t" by (simp add: once_runner_def)
  then show ?thesis using take inv once_invD(1) [OF inv take(2)] unfolding once_inv_def by auto
next
  case call
  then have w: "fx_word (on_mem s) = 1" "once_runner (on_called s) (on_pcs s) t" using once_inv_runner [OF inv, of t] by simp_all
  then have "on_called s = []" "once_runner [t] ((on_pcs s)(t := Some (OnStore (cb t)))) t" using call(1) by (auto simp: once_runner_def)
  with w call inv show ?thesis unfolding once_inv_def by auto
next
  case (store r)
  then have w: "fx_word (on_mem s) = 1" "once_runner (on_called s) (on_pcs s) t" using once_inv_runner [OF inv, of t] by simp_all
  then have "\<not> once_busy (on_pcs s u)" "on_pcs s u \<noteq> Some (OnStore q)" if "u \<noteq> t" for u q
    using that unfolding once_runner_def by (auto simp: once_busy_def)
  with w store inv show ?thesis unfolding once_inv_def by auto
next
  case (wake r)
  then have w: "fx_word (on_mem s) \<noteq> 0" "fx_word (on_mem s) \<noteq> 1" using once_invD(1,2) [OF inv] by auto
  have c: "on_called s = [t]" "r = cb t" using once_invD(4) [OF inv, of t r] wake(1) by auto
  have o: "on_pcs s u \<noteq> Some (OnStore q)" "on_pcs s u \<noteq> Some (OnWake q)" if "u \<noteq> t" for u q
    using once_invD(4) [OF inv, of u q] c(1) that by auto
  have "once_busy (if u = t then None else on_pcs s u) = False" for u using once_invD(3) [OF inv w] by simp
  with w c o wake(2) once_invD(5) [OF inv] show ?thesis unfolding once_inv_def by auto
next
  case loop
  then show ?thesis by (auto intro!: once_inv_move [OF inv])
next
  case (wait p x)
  then have "fx_word (on_mem s) \<noteq> 0" using once_invD(1) [OF inv] by auto
  with wait show ?thesis by (cases x) (auto intro!: once_inv_move [OF inv])
qed

interpretation once: inv_system "once_step cb" once_start "once_inv cb" for cb :: "tid \<Rightarrow> 'v option"
proof unfold_locales
  show "once_inv cb once_start" by (simp add: once_inv_def once_start_def vonce_states)
qed (rule once_inv_step)

section \<open>Nobody waits in vain\<close>

definition once_waits :: "'v once_sys \<Rightarrow> tid \<Rightarrow> wait_pc option" where
  "once_waits s t = (case on_pcs s t of Some (OnWait p) \<Rightarrow> Some p | _ \<Rightarrow> None)"

definition once_due :: "'v once_sys \<Rightarrow> bool" where
  "once_due s \<longleftrightarrow> fx_word (on_mem s) = 1 \<or> (\<exists>u r. on_pcs s u = Some (OnWake r))"

lemma once_waits_Some: "once_waits s t = Some p \<longleftrightarrow> on_pcs s t = Some (OnWait p)"
  by (auto simp: once_waits_def split: option.splits once_pc.splits)

lemma once_due_step:
  assumes "once_step cb t s = Some s'" and "once_due s" and "fx_signal (on_mem s') = fx_signal (on_mem s)"
  shows "once_due s'"
proof (cases "\<exists>u r. u \<noteq> t \<and> on_pcs s u = Some (OnWake r)")
  case True
  then obtain u r where u: "u \<noteq> t" "on_pcs s u = Some (OnWake r)" by blast
  have "on_pcs s' u = on_pcs s u" using assms(1) by (cases rule: once_step_cases) (use u(1) in simp_all)
  with u(2) show ?thesis unfolding once_due_def by metis
next
  case False
  then have cur: "fx_word (on_mem s) = 1 \<or> (\<exists>r. on_pcs s t = Some (OnWake r))" using assms(2) unfolding once_due_def by metis
  from assms(1) show ?thesis by (cases rule: once_step_cases) (use cur assms(3) in \<open>auto simp: once_due_def\<close>)
qed

interpretation once: futex_waiting "once_step cb" once_start "\<lambda>s. fx_signal (on_mem s)" once_waits "\<lambda>s t. once_due s" for cb :: "tid \<Rightarrow> 'v option"
proof (unfold_locales, goal_cases)
  case (4 u c c')
  then show ?case by (cases rule: once_step_cases) auto
next
  case (5 u c c' t v)
  from 5(1) show ?case using 5(2)
    by (cases rule: once_step_cases) (auto simp: once_waits_Some vfutex_wait_Inl sum_wait_cases split: if_splits)
next
  case (6 u c c' t v)
  from 6(1) show ?case using 6(2) once_due_step [OF 6(1)]
    by (cases rule: once_step_cases) (auto simp: once_waits_Some vfutex_wait_Inl sum_wait_cases once_due_def split: if_splits)
qed (simp_all add: once_start_def once_waits_def)

section \<open>Properties\<close>

text \<open>
  C32. However many threads call \<open>vonce_call\<close>, and however often, the callback runs at most once; a call returns
  only after it has run, and only the thread that ran it gets its result, all others get \<open>NULL\<close>.
\<close>

theorem vonce_runs_once:
  assumes "reach (once_step cb) once_start s"
  shows "length (on_called s) \<le> 1 \<and>
     (\<forall>t r. (t, r) \<in> set (on_results s) \<longrightarrow> (\<exists>u. on_called s = [u] \<and> (r = None \<or> t = u \<and> r = cb u)))"
proof -
  have inv: "once_inv cb s" by (rule once.reach_inv [OF assms])
  consider "fx_word (on_mem s) = 0" | "fx_word (on_mem s) = 1" | "fx_word (on_mem s) \<noteq> 0" "fx_word (on_mem s) \<noteq> 1" by blast
  then have "length (on_called s) \<le> 1" using once_invD(1-3) [OF inv] by cases (auto simp: once_runner_def)
  with once_invD(5) [OF inv] show ?thesis by blast
qed

definition once_two :: "tid list" where
  "once_two = [0, 1, 0, 1, 1, 1, 0, 0, 0, 1, 1]"

theorem vonce_runs_once_witness:
  "\<exists>s. exec (once_step (\<lambda>t. Some t)) once_two once_start = Some s \<and> on_results s = [(0, Some 0), (1, None)] \<and> on_called s = [0] \<and>
     (\<forall>t r. (t, r) \<in> set (on_results s) \<longrightarrow> (\<exists>u. on_called s = [u] \<and> (r = None \<or> t = u \<and> r = Some u)))"
proof -
  obtain s where e: "exec (once_step (\<lambda>t. Some t)) once_two once_start = Some s" "on_results s = [(0, Some 0), (1, None)]" "on_called s = [0]"
    by (simp add: once_two_def once_step_def once_start_def once_loop_def vonce_states vfutex_wake_eq vatomic_simps)
  from vonce_runs_once [OF exec_reach [OF e(1)]] e show ?thesis by blast
qed

text \<open>
  No caller of \<open>vonce_call\<close> waits for ever: within fewer than \<open>2 ^ 32\<close> steps, as long as some thread is inside
  a call, some thread inside a call can make a step.
\<close>

theorem vonce_progress:
  assumes r: "reach (bounded (2 ^ 32 - 1) (once_step cb)) (0, once_start) (n, s)" and p: "on_pcs s t = Some p"
  shows "\<exists>u. on_pcs s u \<noteq> None \<and> once_step cb u s \<noteq> None"
proof (cases "once_step cb t s")
  case None
  then have "vonce_call (cb t) p (on_mem s) = None" using p by (simp add: once_step_def)
  then have "once_waits s t = Some (FwAwait (fx_signal (on_mem s)))"
    using p by (cases p) (auto simp: once_waits_Some vfutex_wait_Inl split: prod.splits)
  with once.no_lost_wakeup [OF r] have "once_due s" by simp
  moreover have inv: "once_inv cb s" using once.reach_inv [OF reach_bounded_reach [OF r]] by simp
  ultimately obtain u where "once_busy (on_pcs s u) \<or> (\<exists>r. on_pcs s u = Some (OnWake r))"
    using once_invD(2) [OF inv] unfolding once_due_def once_runner_def by blast
  then have "on_pcs s u \<noteq> None \<and> once_step cb u s \<noteq> None" by (auto simp: once_busy_def once_step_def)
  then show ?thesis by blast
qed (use p in auto)

theorem vonce_progress_witness:
  "\<exists>s u. exec (once_step (\<lambda>t. Some t)) [0, 1, 0, 1, 1, 1] once_start = Some s \<and> once_step (\<lambda>t. Some t) 1 s = None \<and>
     on_pcs s u \<noteq> None \<and> once_step (\<lambda>t. Some t) u s \<noteq> None"
proof -
  obtain s where e: "exec (once_step (\<lambda>t. Some t)) [0, 1, 0, 1, 1, 1] once_start = Some s" "once_step (\<lambda>t. Some t) 1 s = None"
    "on_pcs s 1 = Some (OnWait (FwAwait 0))"
    by (simp add: once_step_def once_start_def once_loop_def vonce_states vatomic_simps)
  have "length [0 :: tid, 1, 0, 1, 1, 1] \<le> 2 ^ 32 - 1" by simp
  from vonce_progress [OF exec_bounded [OF e(1) this] e(3)] e(1,2) show ?thesis by blast
qed

end
