(* ===== verification/Vcond.thy ===== *)
theory Vcond
  imports Vmutex
begin

text \<open>
  The condition variable of \<^verbatim>\<open>thread/cond.h\<close> together with the mutex and the futex it works on. The mutex is
  the slim one, which \<^verbatim>\<open>thread/mutex.h\<close> selects, and both wait on the one global signal.
\<close>

section \<open>Operations\<close>

record vcond_t =
  co_value :: u32
  co_mutex :: futex_mem

definition vcond_init :: "vcond_t \<Rightarrow> vcond_t" where
  "vcond_init c = c\<lparr>co_value := vatomic32_init (co_value c) 0\<rparr>"

datatype cond_wait_pc = CwRead | CwRelease u32 wake_pc | CwFutex u32 wait_pc | CwAcquire slim_pc

fun vcond_wait :: "cond_wait_pc \<Rightarrow> vcond_t \<Rightarrow> ((cond_wait_pc + unit) \<times> vcond_t) option" where
  "vcond_wait CwRead c = Some (Inl (CwRelease (vatomic32_read (co_value c)) RelStore), c)"
| "vcond_wait (CwRelease val r) c =
     (let (x, m) = vmutex_release_slim r (co_mutex c)
      in Some (Inl (case x of Inl r' \<Rightarrow> CwRelease val r' | Inr _ \<Rightarrow> CwFutex val FwSignal), c\<lparr>co_mutex := m\<rparr>))"
| "vcond_wait (CwFutex val p) c =
     map_option (\<lambda>x. (Inl (case x of Inl p' \<Rightarrow> CwFutex val p' | Inr _ \<Rightarrow> CwAcquire SlCas), c))
       (vfutex_wait val p (co_value c) (fx_signal (co_mutex c)))"
| "vcond_wait (CwAcquire p) c =
     map_option (\<lambda>(x, m). (map_sum CwAcquire id x, c\<lparr>co_mutex := m\<rparr>)) (vmutex_acquire_slim p (co_mutex c))"

datatype cond_signal_pc = CsInc | CsWake

fun vcond_signal :: "cond_signal_pc \<Rightarrow> vcond_t \<Rightarrow> (cond_signal_pc + unit) \<times> vcond_t" where
  "vcond_signal CsInc c = (Inl CsWake, c\<lparr>co_value := vatomic32_inc (co_value c)\<rparr>)"
| "vcond_signal CsWake c = (Inr (), c\<lparr>co_mutex := (co_mutex c)\<lparr>fx_signal := vfutex_wake (fx_signal (co_mutex c))\<rparr>\<rparr>)"

section \<open>Threads\<close>

text \<open>
  A thread locks and unlocks the mutex, waits while it holds the mutex, and signals with or without it
  (the flag of \<open>CoSignal\<close>).
\<close>

datatype cond_cmd = CLock | CUnlock | CWait | CSignal | CRun

datatype cond_pc = CoIdle | CoAcq slim_pc | CoCrit | CoRel wake_pc | CoWaiting cond_wait_pc | CoSignal bool cond_signal_pc

record cond_sys =
  cs_mem :: vcond_t
  cs_pcs :: "tid \<Rightarrow> cond_pc"

definition cond_goto :: "cond_sys \<Rightarrow> tid \<Rightarrow> cond_pc \<Rightarrow> vcond_t \<Rightarrow> cond_sys" where
  "cond_goto s t pc c = \<lparr>cs_mem = c, cs_pcs = (cs_pcs s)(t := pc)\<rparr>"

definition cond_acquire :: "cond_sys \<Rightarrow> tid \<Rightarrow> slim_pc \<Rightarrow> cond_sys option" where
  "cond_acquire s t p = map_option (\<lambda>(x, m). cond_goto s t (case x of Inl p' \<Rightarrow> CoAcq p' | Inr _ \<Rightarrow> CoCrit) ((cs_mem s)\<lparr>co_mutex := m\<rparr>))
     (vmutex_acquire_slim p (co_mutex (cs_mem s)))"

definition cond_release :: "cond_sys \<Rightarrow> tid \<Rightarrow> wake_pc \<Rightarrow> cond_sys option" where
  "cond_release s t r = (let (x, m) = vmutex_release_slim r (co_mutex (cs_mem s))
     in Some (cond_goto s t (case x of Inl r' \<Rightarrow> CoRel r' | Inr _ \<Rightarrow> CoIdle) ((cs_mem s)\<lparr>co_mutex := m\<rparr>)))"

definition cond_wait :: "cond_sys \<Rightarrow> tid \<Rightarrow> cond_wait_pc \<Rightarrow> cond_sys option" where
  "cond_wait s t w = map_option (\<lambda>(x, c). cond_goto s t (case x of Inl w' \<Rightarrow> CoWaiting w' | Inr _ \<Rightarrow> CoCrit) c) (vcond_wait w (cs_mem s))"

definition cond_signal :: "cond_sys \<Rightarrow> tid \<Rightarrow> bool \<Rightarrow> cond_signal_pc \<Rightarrow> cond_sys option" where
  "cond_signal s t b p = (let (x, c) = vcond_signal p (cs_mem s)
     in Some (cond_goto s t (case x of Inl p' \<Rightarrow> CoSignal b p' | Inr _ \<Rightarrow> (if b then CoCrit else CoIdle)) c))"

fun cond_step :: "tid \<times> cond_cmd \<Rightarrow> cond_sys \<Rightarrow> cond_sys option" where
  "cond_step (t, cmd) s =
     (case (cs_pcs s t, cmd) of
        (CoIdle, CLock) \<Rightarrow> cond_acquire s t SlCas
      | (CoAcq p, CRun) \<Rightarrow> cond_acquire s t p
      | (CoCrit, CUnlock) \<Rightarrow> cond_release s t RelStore
      | (CoRel r, CRun) \<Rightarrow> cond_release s t r
      | (CoCrit, CWait) \<Rightarrow> cond_wait s t CwRead
      | (CoWaiting w, CRun) \<Rightarrow> cond_wait s t w
      | (CoCrit, CSignal) \<Rightarrow> cond_signal s t True CsInc
      | (CoIdle, CSignal) \<Rightarrow> cond_signal s t False CsInc
      | (CoSignal b p, CRun) \<Rightarrow> cond_signal s t b p
      | _ \<Rightarrow> None)"

definition cond_start :: "vcond_t \<Rightarrow> cond_sys" where
  "cond_start c = \<lparr>cs_mem = vcond_init c\<lparr>co_mutex := vmutex_init_slim \<lparr>fx_word = fx_word (co_mutex c), fx_signal = 0\<rparr>\<rparr>, cs_pcs = (\<lambda>_. CoIdle)\<rparr>"

definition cond_crit :: "cond_sys \<Rightarrow> tid \<Rightarrow> bool" where
  "cond_crit s t \<longleftrightarrow> cs_pcs s t = CoCrit"

lemma cond_goto_sel [simp]: "cs_mem (cond_goto s t pc c) = c" "cs_pcs (cond_goto s t pc c) = (cs_pcs s)(t := pc)"
  by (simp_all add: cond_goto_def)

text \<open>A step of one of the four kinds, from the position it starts from.\<close>

lemma cond_step_cases:
  assumes "cond_step (t, cmd) s = Some s'"
  obtains
    (acq) p where "cs_pcs s t = CoIdle \<and> p = SlCas \<or> cs_pcs s t = CoAcq p" "cond_acquire s t p = Some s'"
  | (rel) r where "cs_pcs s t = CoCrit \<and> r = RelStore \<or> cs_pcs s t = CoRel r" "cond_release s t r = Some s'"
  | (wait) w where "cs_pcs s t = CoCrit \<and> w = CwRead \<or> cs_pcs s t = CoWaiting w" "cond_wait s t w = Some s'"
  | (signal) b p where "cs_pcs s t = (if b then CoCrit else CoIdle) \<and> p = CsInc \<or> cs_pcs s t = CoSignal b p" "cond_signal s t b p = Some s'"
  using assms by (cases "cs_pcs s t"; cases cmd) (auto, metis+)

section \<open>Exclusion\<close>

fun cond_owns :: "cond_pc \<Rightarrow> bool" where
  "cond_owns CoCrit = True"
| "cond_owns (CoRel r) = store_holding r"
| "cond_owns (CoWaiting CwRead) = True"
| "cond_owns (CoWaiting (CwRelease v r)) = store_holding r"
| "cond_owns (CoSignal b p) = b"
| "cond_owns _ = False"

definition cond_rel :: "cond_sys \<Rightarrow> tid option \<Rightarrow> bool" where
  "cond_rel s h \<longleftrightarrow> (fx_word (co_mutex (cs_mem s)) = 0 \<longleftrightarrow> h = None) \<and> (\<forall>t. cond_owns (cs_pcs s t) \<longleftrightarrow> h = Some t)"

lemma cond_relD:
  assumes "cond_rel s h"
  shows "fx_word (co_mutex (cs_mem s)) = 0 \<longleftrightarrow> h = None" "cond_owns (cs_pcs s t) \<longleftrightarrow> h = Some t"
  using assms by (auto simp: cond_rel_def)

text \<open>The effect of a step on the holder depends only on the word and on who owns before and after.\<close>

lemma cond_rel_take:
  assumes rel: "cond_rel s h" and "fx_word (co_mutex (cs_mem s)) = 0" "fx_word (co_mutex c) \<noteq> 0" "cond_owns pc"
  shows "lock_sim cond_rel (cond_goto s t pc c) h"
proof -
  have h: "h = None" using cond_relD(1) [OF rel] assms(2) by simp
  then show ?thesis using assms by (intro lock_sim_take [OF h, where t = t]) (auto simp: cond_rel_def)
qed

lemma cond_rel_give:
  assumes rel: "cond_rel s h" and "cond_owns (cs_pcs s t)" "fx_word (co_mutex c) = 0" "\<not> cond_owns pc"
  shows "lock_sim cond_rel (cond_goto s t pc c) h"
proof -
  have h: "h = Some t" using cond_relD(2) [OF rel] assms(2) by simp
  then show ?thesis using assms by (intro lock_sim_give [OF h]) (auto simp: cond_rel_def)
qed

lemma cond_rel_keep:
  assumes rel: "cond_rel s h" and "cond_owns pc \<longleftrightarrow> cond_owns (cs_pcs s t)" "fx_word (co_mutex c) = 0 \<longleftrightarrow> fx_word (co_mutex (cs_mem s)) = 0"
  shows "lock_sim cond_rel (cond_goto s t pc c) h"
  using assms by (intro lock_sim_stay) (auto simp: cond_rel_def)

lemma cond_rel_acquire:
  assumes rel: "cond_rel s h" and op: "vmutex_acquire_slim p (co_mutex (cs_mem s)) = Some (x, m)"
    and pcs: "\<not> cond_owns (cs_pcs s t)" "\<And>p'. \<not> cond_owns (f p')"
  shows "lock_sim cond_rel (cond_goto s t (case x of Inl p' \<Rightarrow> f p' | Inr _ \<Rightarrow> CoCrit) ((cs_mem s)\<lparr>co_mutex := m\<rparr>)) h"
proof (cases x)
  case (Inl p')
  with slim.acquiring [of p t "co_mutex (cs_mem s)" p' m] op pcs show ?thesis by (auto intro!: cond_rel_keep [OF rel])
next
  case (Inr u)
  with slim.acquired [of p t "co_mutex (cs_mem s)" u m] op show ?thesis by (auto intro!: cond_rel_take [OF rel])
qed

lemma cond_rel_release:
  assumes rel: "cond_rel s h" and op: "vmutex_release_slim r (co_mutex (cs_mem s)) = (x, m)"
    and pcs: "cond_owns (cs_pcs s t) \<longleftrightarrow> store_holding r" "\<And>r'. cond_owns (f r') \<longleftrightarrow> store_holding r'" "\<not> cond_owns g"
  shows "lock_sim cond_rel (cond_goto s t (case x of Inl r' \<Rightarrow> f r' | Inr _ \<Rightarrow> g) ((cs_mem s)\<lparr>co_mutex := m\<rparr>)) h"
proof (cases "store_holding r")
  case True
  with op have "fx_word m = 0" "\<And>r'. x = Inl r' \<Longrightarrow> \<not> store_holding r'" by (auto simp: store_holding_def vatomic_simps split: if_splits)
  with True pcs show ?thesis by (cases x) (auto intro!: cond_rel_give [OF rel])
next
  case False
  then have "r = RelWake" by (cases r) (simp_all add: store_holding_def)
  then have "x = Inr ()" "fx_word m = fx_word (co_mutex (cs_mem s))" using op by auto
  with False pcs show ?thesis by (auto intro!: cond_rel_keep [OF rel])
qed

lemma cond_rel_wait:
  assumes rel: "cond_rel s h" and pc: "cs_pcs s t = CoCrit \<and> w = CwRead \<or> cs_pcs s t = CoWaiting w" and step: "cond_wait s t w = Some s'"
  shows "lock_sim cond_rel s' h"
proof (cases w)
  case CwRead
  with step have s': "s' = cond_goto s t (CoWaiting (CwRelease (co_value (cs_mem s)) RelStore)) (cs_mem s)" by (auto simp: cond_wait_def vatomic_simps)
  show ?thesis unfolding s' using CwRead pc by (intro cond_rel_keep [OF rel]) (auto simp: store_holding_def)
next
  case (CwRelease v r)
  obtain x m where op: "vmutex_release_slim r (co_mutex (cs_mem s)) = (x, m)" by fastforce
  with step CwRelease have s': "s' = cond_goto s t (case x of Inl r' \<Rightarrow> CoWaiting (CwRelease v r') | Inr _ \<Rightarrow> CoWaiting (CwFutex v FwSignal)) ((cs_mem s)\<lparr>co_mutex := m\<rparr>)"
    by (cases x) (auto simp: cond_wait_def)
  show ?thesis unfolding s' using CwRelease pc by (intro cond_rel_release [OF rel op]) auto
next
  case (CwFutex v p)
  with step obtain x :: "wait_pc + unit" where s': "s' = cond_goto s t (CoWaiting (case x of Inl p' \<Rightarrow> CwFutex v p' | Inr _ \<Rightarrow> CwAcquire SlCas)) (cs_mem s)"
    by (auto simp: cond_wait_def)
  show ?thesis unfolding s' using CwFutex pc by (intro cond_rel_keep [OF rel]) (auto split: sum.splits)
next
  case (CwAcquire p)
  with step obtain x m where op: "vmutex_acquire_slim p (co_mutex (cs_mem s)) = Some (x, m)" by (auto simp: cond_wait_def)
  with step CwAcquire have s': "s' = cond_goto s t (case x of Inl p' \<Rightarrow> CoWaiting (CwAcquire p') | Inr _ \<Rightarrow> CoCrit) ((cs_mem s)\<lparr>co_mutex := m\<rparr>)"
    by (cases x) (auto simp: cond_wait_def)
  show ?thesis unfolding s' using CwAcquire pc by (intro cond_rel_acquire [OF rel op]) auto
qed

interpretation cond: lock_impl cond_step "cond_start c" cond_rel cond_crit for c
proof (unfold_locales, goal_cases)
  case 1
  show ?case by (simp add: cond_rel_def cond_start_def vmutex_init_slim_def vatomic_simps)
next
  case (2 s h t cmd s')
  from 2(2) show ?case
  proof (cases rule: cond_step_cases)
    case (acq p)
    then obtain x m where op: "vmutex_acquire_slim p (co_mutex (cs_mem s)) = Some (x, m)"
      and s': "s' = cond_goto s t (case x of Inl p' \<Rightarrow> CoAcq p' | Inr _ \<Rightarrow> CoCrit) ((cs_mem s)\<lparr>co_mutex := m\<rparr>)"
      by (auto simp: cond_acquire_def)
    show ?thesis unfolding s' using acq(1) by (intro cond_rel_acquire [OF 2(1) op]) auto
  next
    case (rel r)
    obtain x m where op: "vmutex_release_slim r (co_mutex (cs_mem s)) = (x, m)" by fastforce
    with rel have s': "s' = cond_goto s t (case x of Inl r' \<Rightarrow> CoRel r' | Inr _ \<Rightarrow> CoIdle) ((cs_mem s)\<lparr>co_mutex := m\<rparr>)"
      by (simp add: cond_release_def)
    show ?thesis unfolding s' using rel(1) by (intro cond_rel_release [OF 2(1) op]) (auto simp: store_holding_def)
  next
    case (wait w)
    then show ?thesis by (rule cond_rel_wait [OF 2(1)])
  next
    case (signal b p)
    then show ?thesis by (cases p) (auto simp: cond_signal_def intro!: cond_rel_keep [OF 2(1)] split: if_splits)
  qed
next
  case (3 s h t)
  then show ?case using cond_relD(2) [of s h t] by (simp add: cond_crit_def)
qed

section \<open>No signal is lost\<close>

definition cond_waits :: "cond_sys \<Rightarrow> tid \<Rightarrow> wait_pc option" where
  "cond_waits s t = (case cs_pcs s t of CoWaiting (CwFutex v p) \<Rightarrow> Some p | _ \<Rightarrow> None)"

definition cond_due :: "cond_sys \<Rightarrow> tid \<Rightarrow> bool" where
  "cond_due s t \<longleftrightarrow> (\<exists>p. cs_pcs s t = CoWaiting (CwFutex (co_value (cs_mem s)) p)) \<or> (\<exists>u b. cs_pcs s u = CoSignal b CsWake)"

lemma cond_waits_Some: "cond_waits s t = Some p \<longleftrightarrow> (\<exists>v. cs_pcs s t = CoWaiting (CwFutex v p))"
  by (auto simp: cond_waits_def split: cond_pc.splits cond_wait_pc.splits)

lemma slim_release_signal: "vmutex_release_slim r m = (x, m') \<Longrightarrow> fx_signal m' = fx_signal m \<or> fx_signal m' = fx_signal m + 1"
  by (cases r) (auto simp: vatomic_simps vfutex_wake_eq)

lemma slim_acquire_signal: "vmutex_acquire_slim p m = Some (x, m') \<Longrightarrow> fx_signal m' = fx_signal m"
  by (cases p) (auto simp: vatomic_simps split: if_splits prod.splits)

lemma cond_acquire_goto:
  assumes "cond_acquire s t p = Some s'"
  shows "\<exists>pc m. s' = cond_goto s t pc ((cs_mem s)\<lparr>co_mutex := m\<rparr>) \<and> fx_signal m = fx_signal (co_mutex (cs_mem s)) \<and> (pc = CoCrit \<or> (\<exists>p'. pc = CoAcq p'))"
proof -
  obtain x m where op: "vmutex_acquire_slim p (co_mutex (cs_mem s)) = Some (x, m)"
    and s': "s' = cond_goto s t (case x of Inl p' \<Rightarrow> CoAcq p' | Inr _ \<Rightarrow> CoCrit) ((cs_mem s)\<lparr>co_mutex := m\<rparr>)"
    using assms by (auto simp: cond_acquire_def)
  have "(case x of Inl p' \<Rightarrow> CoAcq p' | Inr _ \<Rightarrow> CoCrit) = CoCrit \<or> (\<exists>p'. (case x of Inl p' \<Rightarrow> CoAcq p' | Inr _ \<Rightarrow> CoCrit) = CoAcq p')" by (cases x) auto
  with s' slim_acquire_signal [OF op] show ?thesis by blast
qed

lemma cond_release_goto:
  assumes "cond_release s t r = Some s'"
  shows "\<exists>pc m. s' = cond_goto s t pc ((cs_mem s)\<lparr>co_mutex := m\<rparr>) \<and> (fx_signal m = fx_signal (co_mutex (cs_mem s)) \<or> fx_signal m = fx_signal (co_mutex (cs_mem s)) + 1) \<and>
     (pc = CoIdle \<or> (\<exists>r'. pc = CoRel r'))"
proof -
  obtain x m where op: "vmutex_release_slim r (co_mutex (cs_mem s)) = (x, m)" by fastforce
  have "(case x of Inl r' \<Rightarrow> CoRel r' | Inr _ \<Rightarrow> CoIdle) = CoIdle \<or> (\<exists>r'. (case x of Inl r' \<Rightarrow> CoRel r' | Inr _ \<Rightarrow> CoIdle) = CoRel r')" by (cases x) auto
  with assms op slim_release_signal [OF op] show ?thesis by (auto simp: cond_release_def)
qed

lemma vcond_wait_mem:
  assumes "vcond_wait w c = Some (x, c')"
  shows "co_value c' = co_value c" "fx_signal (co_mutex c') = fx_signal (co_mutex c) \<or> fx_signal (co_mutex c') = fx_signal (co_mutex c) + 1"
  using assms slim_acquire_signal slim_release_signal by (cases w; force split: prod.splits)+

lemma cond_step_effect:
  assumes "cond_step (t, cmd) s = Some s'"
  shows "(co_value (cs_mem s') = co_value (cs_mem s) \<or> (\<exists>b. cs_pcs s' t = CoSignal b CsWake)) \<and>
    (fx_signal (co_mutex (cs_mem s')) = fx_signal (co_mutex (cs_mem s)) \<or> fx_signal (co_mutex (cs_mem s')) = fx_signal (co_mutex (cs_mem s)) + 1) \<and>
    (\<forall>u. u \<noteq> t \<longrightarrow> cs_pcs s' u = cs_pcs s u) \<and>
    (\<forall>b. cs_pcs s t = CoSignal b CsWake \<longrightarrow> fx_signal (co_mutex (cs_mem s')) = fx_signal (co_mutex (cs_mem s)) + 1)"
  using assms
proof (cases rule: cond_step_cases)
  case (acq p)
  from cond_acquire_goto [OF acq(2)] acq(1) show ?thesis by auto
next
  case (rel r)
  from cond_release_goto [OF rel(2)] rel(1) show ?thesis by auto
next
  case (wait w)
  then show ?thesis using vcond_wait_mem [of w "cs_mem s"] by (auto simp: cond_wait_def)
next
  case (signal b p)
  then show ?thesis by (cases p) (auto simp: cond_signal_def vfutex_wake_eq split: if_splits)
qed

text \<open>The thread that moves falls asleep only when it saw the value it read under the mutex.\<close>

lemma cond_step_waits:
  assumes "cond_step (t, cmd) s = Some s'" and "cs_pcs s' t = CoWaiting (CwFutex val q)"
  shows "q = FwSignal \<or> q = FwCheck (fx_signal (co_mutex (cs_mem s))) \<or>
     (\<exists>v. q = FwAwait v \<and> cs_pcs s t = CoWaiting (CwFutex val (FwCheck v)) \<and> co_value (cs_mem s') = val)"
  using assms(1)
proof (cases rule: cond_step_cases)
  case (acq p)
  from cond_acquire_goto [OF acq(2)] assms(2) show ?thesis by auto
next
  case (rel r)
  from cond_release_goto [OF rel(2)] assms(2) show ?thesis by auto
next
  case (wait w)
  show ?thesis
  proof (cases w)
    case (CwFutex v p)
    then obtain x where x: "vfutex_wait v p (co_value (cs_mem s)) (fx_signal (co_mutex (cs_mem s))) = Some x"
      and s': "s' = cond_goto s t (CoWaiting (case x of Inl p' \<Rightarrow> CwFutex v p' | Inr _ \<Rightarrow> CwAcquire SlCas)) (cs_mem s)"
      using wait(2) by (auto simp: cond_wait_def)
    then have "x = Inl q" "v = val" using assms(2) by (auto simp: sum_wait_cases)
    with x s' wait(1) CwFutex show ?thesis by (cases q) (auto simp: vfutex_wait_Inl)
  next
    case (CwAcquire p)
    then obtain x m where "s' = cond_goto s t (case map_sum CwAcquire id x of Inl w' \<Rightarrow> CoWaiting w' | Inr (_ :: unit) \<Rightarrow> CoCrit) m"
      using wait(2) by (auto simp: cond_wait_def)
    then show ?thesis using assms(2) by (cases x) auto
  qed (use wait assms(2) in \<open>auto simp: cond_wait_def split: prod.splits sum.splits\<close>)
next
  case (signal b p)
  then show ?thesis using assms(2) by (cases p) (auto simp: cond_signal_def split: if_splits)
qed

lemma cond_due_step:
  assumes step: "cond_step (u, cmd) s = Some s'" and due: "cond_due s t" and "t \<noteq> u"
    and same: "fx_signal (co_mutex (cs_mem s')) = fx_signal (co_mutex (cs_mem s))"
  shows "cond_due s' t"
proof -
  note eff = cond_step_effect [OF step]
  have pt: "cs_pcs s' t = cs_pcs s t" using eff assms(3) by simp
  show ?thesis
  proof (cases "\<exists>w b. w \<noteq> u \<and> cs_pcs s w = CoSignal b CsWake")
    case True
    then show ?thesis using eff unfolding cond_due_def by metis
  next
    case False
    moreover have "cs_pcs s u \<noteq> CoSignal b CsWake" for b using eff same by auto
    ultimately have "\<exists>p. cs_pcs s t = CoWaiting (CwFutex (co_value (cs_mem s)) p)" using due unfolding cond_due_def by metis
    then show ?thesis using eff pt unfolding cond_due_def by metis
  qed
qed

interpretation cond: futex_waiting cond_step "cond_start c" "\<lambda>s. fx_signal (co_mutex (cs_mem s))" cond_waits cond_due for c
proof (unfold_locales, goal_cases)
  case (4 l s s')
  then show ?case using cond_step_effect [of "fst l" "snd l" s s'] by simp
next
  case (5 l s s' t v)
  show ?case
  proof (cases "t = fst l")
    case True
    with 5 cond_step_waits [of "fst l" "snd l" s s'] show ?thesis by (auto simp: cond_waits_Some)
  next
    case False
    with 5 cond_step_effect [of "fst l" "snd l" s s'] show ?thesis by (auto simp: cond_waits_Some)
  qed
next
  case (6 l s s' t v)
  have step: "cond_step (fst l, snd l) s = Some s'" using 6(1) by simp
  show ?case
  proof (cases "t = fst l")
    case True
    from 6(2) obtain val where val: "cs_pcs s' t = CoWaiting (CwFutex val (FwAwait v))" by (auto simp: cond_waits_Some)
    from cond_step_waits [OF step, of val "FwAwait v"] val True
    have "cs_pcs s t = CoWaiting (CwFutex val (FwCheck v))" "co_value (cs_mem s') = val" by auto
    with val show ?thesis by (auto simp: cond_waits_Some cond_due_def)
  next
    case False
    with cond_step_effect [OF step] 6(2) have "cond_waits s t = Some (FwAwait v)" by (auto simp: cond_waits_Some)
    with cond_due_step [OF step _ False] show ?thesis by blast
  qed
qed (simp_all add: cond_start_def cond_waits_def vmutex_init_slim_def)

section \<open>Properties\<close>


definition cond_zero :: vcond_t where
  "cond_zero = \<lparr>co_value = 0, co_mutex = \<lparr>fx_word = 0, fx_signal = 0\<rparr>\<rparr>"

definition cond_run :: "(tid \<times> cond_cmd) list" where
  "cond_run = [(0, CLock), (0, CWait), (0, CRun), (0, CRun), (0, CRun), (1, CLock), (1, CSignal)]"


end
