(* ===== verification/Recursive_Lock.thy ===== *)
theory Recursive_Lock
  imports Caslock Ticketlock Mcslock
begin

text \<open>
  The recursive locks of \<^verbatim>\<open>utils/recursive_lock.h\<close>, whose macros wrap the functions of a base lock, and their
  instances \<^verbatim>\<open>spinlock/rec_spinlock.h\<close>, \<^verbatim>\<open>rec_ticketlock.h\<close> and \<^verbatim>\<open>rec_mcslock.h\<close>. The base lock is the
  transition system of its own theory: a call of the wrapper makes the thread call the function of
  the base lock there, one shared access per step.
\<close>

section \<open>The wrapper\<close>

definition RECURSIVE_LOCK_NOCPU :: u32 where
  "RECURSIVE_LOCK_NOCPU = - 1"

record 'b rec_lock =
  rl_base :: 'b
  rl_owner :: u32
  rl_count :: u32

definition rec_lock_init :: "'b \<Rightarrow> 'b rec_lock \<Rightarrow> 'b rec_lock" where
  "rec_lock_init b l = l\<lparr>rl_base := b, rl_owner := vatomic32_init (rl_owner l) RECURSIVE_LOCK_NOCPU, rl_count := 0\<rparr>"

text \<open>
  The base lock: its step function, and whether a thread holds it or is not in a call of it.
\<close>

record 'b base_lock =
  bl_step :: "lock_label \<Rightarrow> 'b \<Rightarrow> 'b option"
  bl_crit :: "'b \<Rightarrow> tid \<Rightarrow> bool"
  bl_idle :: "'b \<Rightarrow> tid \<Rightarrow> bool"

text \<open>
  \<open>RcInc\<close> and \<open>RcDec\<close> are before the change of \<open>count\<close>, \<open>RcOwn\<close> and \<open>RcDisown\<close> before the write of \<open>owner\<close>; the
  others call the base lock, \<open>Start\<close> before the first access.
\<close>

datatype rec_pc = RcIdle | RcInc | RcAcqStart | RcAcqRun | RcTryStart | RcTryRun | RcOwn | RcDec | RcDisown | RcRelStart | RcRelRun | RcFailed

text \<open>The calls, by the first access and the further ones. The result \<open>RcIdle\<close> means that the call returned.\<close>

definition rec_acquire :: "u32 \<Rightarrow> 'b rec_lock \<Rightarrow> rec_pc" where
  "rec_acquire i l =
     (if i = RECURSIVE_LOCK_NOCPU then RcFailed
      else if vatomic32_read (rl_owner l) = i then RcInc else RcAcqStart)"

definition rec_tryacquire :: "u32 \<Rightarrow> 'b rec_lock \<Rightarrow> rec_pc" where
  "rec_tryacquire i l =
     (let owner = vatomic32_read (rl_owner l) in
      if i = RECURSIVE_LOCK_NOCPU then RcFailed
      else if owner = i then RcInc
      else if owner \<noteq> RECURSIVE_LOCK_NOCPU then RcIdle else RcTryStart)"

definition rec_release :: "'b rec_lock \<Rightarrow> rec_pc" where
  "rec_release l = (if rl_count l = 0 then RcDisown else RcDec)"

definition base_call :: "'b base_lock \<Rightarrow> lock_label \<Rightarrow> ('b \<Rightarrow> rec_pc) \<Rightarrow> 'b rec_lock \<Rightarrow> (rec_pc \<times> 'b rec_lock) option" where
  "base_call B lab next l = map_option (\<lambda>b. (next b, l\<lparr>rl_base := b\<rparr>)) (bl_step B lab (rl_base l))"

fun rec_run :: "'b base_lock \<Rightarrow> u32 \<Rightarrow> tid \<Rightarrow> rec_pc \<Rightarrow> 'b rec_lock \<Rightarrow> (rec_pc \<times> 'b rec_lock) option" where
  "rec_run B i t RcInc l = Some (RcIdle, l\<lparr>rl_count := rl_count l + 1\<rparr>)"
| "rec_run B i t RcAcqStart l = base_call B (t, Acquire) (\<lambda>b. if bl_crit B b t then RcOwn else RcAcqRun) l"
| "rec_run B i t RcAcqRun l = base_call B (t, Run) (\<lambda>b. if bl_crit B b t then RcOwn else RcAcqRun) l"
| "rec_run B i t RcTryStart l =
     base_call B (t, TryAcquire) (\<lambda>b. if bl_crit B b t then RcOwn else if bl_idle B b t then RcIdle else RcTryRun) l"
| "rec_run B i t RcTryRun l =
     base_call B (t, Run) (\<lambda>b. if bl_crit B b t then RcOwn else if bl_idle B b t then RcIdle else RcTryRun) l"
| "rec_run B i t RcOwn l = Some (RcIdle, l\<lparr>rl_owner := vatomic32_write (rl_owner l) i\<rparr>)"
| "rec_run B i t RcDec l = Some (RcIdle, l\<lparr>rl_count := rl_count l - 1\<rparr>)"
| "rec_run B i t RcDisown l = Some (RcRelStart, l\<lparr>rl_owner := vatomic32_write (rl_owner l) RECURSIVE_LOCK_NOCPU\<rparr>)"
| "rec_run B i t RcRelStart l = base_call B (t, Release) (\<lambda>b. if bl_idle B b t then RcIdle else RcRelRun) l"
| "rec_run B i t RcRelRun l = base_call B (t, Run) (\<lambda>b. if bl_idle B b t then RcIdle else RcRelRun) l"
| "rec_run B i t RcIdle l = None"
| "rec_run B i t RcFailed l = None"

section \<open>Threads that use it\<close>

text \<open>
  \<open>N\<close> threads with the identifiers \<open>0\<close> to \<open>N - 1\<close>. The depth of a thread counts its nested acquisitions that
  have returned and not been released; a thread releases only what it acquired and does not nest deeper than \<open>D\<close>.
\<close>

record 'b rec_sys =
  rs_lock :: "'b rec_lock"
  rs_pcs :: "tid \<Rightarrow> rec_pc"
  rs_depth :: "tid \<Rightarrow> nat"

definition rec_start :: "'b \<Rightarrow> 'b rec_sys" where
  "rec_start b = \<lparr>rs_lock = rec_lock_init b \<lparr>rl_base = b, rl_owner = 0, rl_count = 0\<rparr>, rs_pcs = (\<lambda>_. RcIdle), rs_depth = (\<lambda>_. 0)\<rparr>"

fun depth_after :: "rec_pc \<Rightarrow> nat \<Rightarrow> nat" where
  "depth_after RcInc d = Suc d" | "depth_after RcOwn d = Suc d" | "depth_after RcDec d = d - 1" | "depth_after RcDisown d = d - 1"
| "depth_after _ d = d"

fun rec_step :: "'b base_lock \<Rightarrow> nat \<Rightarrow> nat \<Rightarrow> lock_label \<Rightarrow> 'b rec_sys \<Rightarrow> 'b rec_sys option" where
  "rec_step B N D (t, cmd) s =
     (let pc = rs_pcs s t; goto = (\<lambda>pc'. s\<lparr>rs_pcs := (rs_pcs s)(t := pc')\<rparr>) in
      if t < N then
        (case (pc, cmd) of
           (RcIdle, Acquire) \<Rightarrow> (if rs_depth s t < D then Some (goto (rec_acquire (of_nat t) (rs_lock s))) else None)
         | (RcIdle, TryAcquire) \<Rightarrow> (if rs_depth s t < D then Some (goto (rec_tryacquire (of_nat t) (rs_lock s))) else None)
         | (RcIdle, Release) \<Rightarrow> (if 0 < rs_depth s t then Some (goto (rec_release (rs_lock s))) else None)
         | (_, Run) \<Rightarrow> map_option (\<lambda>(pc', l). \<lparr>rs_lock = l, rs_pcs = (rs_pcs s)(t := pc'), rs_depth = (rs_depth s)(t := depth_after pc (rs_depth s t))\<rparr>)
             (rec_run B (of_nat t) t pc (rs_lock s))
         | _ \<Rightarrow> None)
      else None)"

section \<open>The invariant\<close>

text \<open>What the position of a thread says about its depth and about the base lock.\<close>

fun rec_pos :: "nat \<Rightarrow> rec_pc \<Rightarrow> nat \<Rightarrow> bool \<Rightarrow> bool" where
  "rec_pos D RcIdle d c \<longleftrightarrow> (0 < d \<longrightarrow> c)"
| "rec_pos D RcInc d c \<longleftrightarrow> 0 < d \<and> d < D \<and> c"
| "rec_pos D RcDec d c \<longleftrightarrow> 2 \<le> d \<and> c"
| "rec_pos D RcDisown d c \<longleftrightarrow> d = 1 \<and> c"
| "rec_pos D RcOwn d c \<longleftrightarrow> d = 0 \<and> c"
| "rec_pos D RcRelStart d c \<longleftrightarrow> d = 0 \<and> c"
| "rec_pos D RcFailed d c \<longleftrightarrow> False"
| "rec_pos D _ d c \<longleftrightarrow> d = 0"

lemma rec_pos_crit: "rec_pos D pc d c \<Longrightarrow> 0 < d \<Longrightarrow> c"
  by (cases pc) auto

definition rec_inv :: "'b base_lock \<Rightarrow> 'b \<Rightarrow> nat \<Rightarrow> nat \<Rightarrow> 'b rec_sys \<Rightarrow> bool" where
  "rec_inv B b0 N D s \<longleftrightarrow> reach (bl_step B) b0 (rl_base (rs_lock s)) \<and>
     (\<forall>t. rec_pos D (rs_pcs s t) (rs_depth s t) (bl_crit B (rl_base (rs_lock s)) t) \<and> rs_depth s t \<le> D \<and> (N \<le> t \<longrightarrow> rs_depth s t = 0)) \<and>
     (\<forall>t. 0 < rs_depth s t \<longrightarrow> rl_owner (rs_lock s) = of_nat t \<and> rl_count (rs_lock s) = of_nat (rs_depth s t - 1)) \<and>
     ((\<forall>t. rs_depth s t = 0) \<longrightarrow> rl_owner (rs_lock s) = RECURSIVE_LOCK_NOCPU \<and> rl_count (rs_lock s) = 0)"

lemma rec_invD:
  assumes "rec_inv B b0 N D s"
  shows "reach (bl_step B) b0 (rl_base (rs_lock s))"
    "rec_pos D (rs_pcs s t) (rs_depth s t) (bl_crit B (rl_base (rs_lock s)) t)" "rs_depth s t \<le> D" "0 < rs_depth s t \<Longrightarrow> t < N"
    "0 < rs_depth s t \<Longrightarrow> rl_owner (rs_lock s) = of_nat t" "0 < rs_depth s t \<Longrightarrow> rl_count (rs_lock s) = of_nat (rs_depth s t - 1)"
    "(\<And>t. rs_depth s t = 0) \<Longrightarrow> rl_owner (rs_lock s) = RECURSIVE_LOCK_NOCPU \<and> rl_count (rs_lock s) = 0"
    "0 < rs_depth s t \<Longrightarrow> bl_crit B (rl_base (rs_lock s)) t"
proof -
  show p: "reach (bl_step B) b0 (rl_base (rs_lock s))" "rs_depth s t \<le> D"
    "rec_pos D (rs_pcs s t) (rs_depth s t) (bl_crit B (rl_base (rs_lock s)) t)" using assms by (simp_all add: rec_inv_def)
  show "0 < rs_depth s t \<Longrightarrow> t < N" using assms by (metis (no_types) rec_inv_def not_le less_numeral_extra(3))
  show "0 < rs_depth s t \<Longrightarrow> bl_crit B (rl_base (rs_lock s)) t" using rec_pos_crit [OF p(3)] .
qed (use assms in \<open>simp_all add: rec_inv_def\<close>)

text \<open>
  The contract of a base lock: it excludes, and a step of one thread leaves it to the others whether they hold it.
  There are fewer threads than identifiers, and the nesting fits into the counter.
\<close>

locale recursive_lock =
  fixes B :: "'b base_lock" and b0 :: 'b and N D :: nat
  assumes base_excl: "reach (bl_step B) b0 b \<Longrightarrow> bl_crit B b t \<Longrightarrow> bl_crit B b u \<Longrightarrow> t = u"
    and base_frame: "bl_step B (t, cmd) b = Some b' \<Longrightarrow> u \<noteq> t \<Longrightarrow> bl_crit B b' u = bl_crit B b u"
    and threads: "N < 2 ^ 32" and nesting: "0 < D" "D \<le> 2 ^ 32"
begin

lemma ident_inj: "t < N \<Longrightarrow> u < N \<Longrightarrow> (of_nat t :: u32) = of_nat u \<longleftrightarrow> t = u"
  using threads by (auto simp: word_of_nat_eq_iff take_bit_nat_eq_self)

lemma ident_cpu: "t < N \<Longrightarrow> of_nat t \<noteq> RECURSIVE_LOCK_NOCPU"
proof
  assume t: "t < N" and e: "of_nat t = RECURSIVE_LOCK_NOCPU"
  have "unat (of_nat t :: u32) = t" using t threads by (simp add: unat_of_nat)
  moreover have "unat RECURSIVE_LOCK_NOCPU = 2 ^ 32 - 1" by (simp add: RECURSIVE_LOCK_NOCPU_def unsigned_minus_1_eq_mask mask_eq_exp_minus_1)
  ultimately show False using e t threads by simp
qed

lemma holder_unique:
  assumes "rec_inv B b0 N D s" and "bl_crit B (rl_base (rs_lock s)) t" and "u \<noteq> t"
  shows "rs_depth s u = 0"
  using base_excl [OF rec_invD(1) [OF assms(1)] assms(2), of u] rec_invD(8) [OF assms(1), of u] assms(3) by auto

lemma owner_depth:
  assumes inv: "rec_inv B b0 N D s" and t: "t < N"
  shows "rl_owner (rs_lock s) = of_nat t \<longleftrightarrow> 0 < rs_depth s t"
proof
  assume o: "rl_owner (rs_lock s) = of_nat t"
  then have "\<not> (\<forall>u. rs_depth s u = 0)" using rec_invD(7) [OF inv] ident_cpu [OF t] by metis
  then obtain u where u: "0 < rs_depth s u" by blast
  then have "of_nat u = (of_nat t :: u32)" "u < N" using rec_invD(4,5) [OF inv u] o by auto
  with u t show "0 < rs_depth s t" using ident_inj by blast
qed (rule rec_invD(5) [OF inv])

lemma count_zero:
  assumes inv: "rec_inv B b0 N D s" and "0 < rs_depth s t"
  shows "rl_count (rs_lock s) = 0 \<longleftrightarrow> rs_depth s t = 1"
proof -
  have "rs_depth s t - 1 < 2 ^ 32" using rec_invD(3) [OF inv, of t] nesting(2) assms(2) by simp
  then have "(of_nat (rs_depth s t - 1) :: u32) = 0 \<longleftrightarrow> rs_depth s t - 1 = 0"
    by (simp add: word_of_nat_eq_0_iff) (metis diff_is_0_eq' nat_dvd_not_less not_gr_zero dvd_0_right diff_is_0_eq)
  with rec_invD(6) [OF inv assms(2)] assms(2) show ?thesis by auto
qed

text \<open>The three ways a step changes the state.\<close>

lemma rec_inv_goto:
  assumes "rec_inv B b0 N D s" and "rec_pos D pc (rs_depth s t) (bl_crit B (rl_base (rs_lock s)) t)"
  shows "rec_inv B b0 N D (s\<lparr>rs_pcs := (rs_pcs s)(t := pc)\<rparr>)"
  using assms by (simp add: rec_inv_def)

lemma rec_inv_base:
  assumes inv: "rec_inv B b0 N D s" and step: "bl_step B (t, cmd) (rl_base (rs_lock s)) = Some b" and d: "rs_depth s t = 0" and pos: "rec_pos D pc 0 (bl_crit B b t)"
  shows "rec_inv B b0 N D \<lparr>rs_lock = (rs_lock s)\<lparr>rl_base := b\<rparr>, rs_pcs = (rs_pcs s)(t := pc), rs_depth = (rs_depth s)(t := 0)\<rparr>"
proof -
  have "(rs_depth s)(t := 0) = rs_depth s" using d by auto
  moreover have "rec_pos D (((rs_pcs s)(t := pc)) u) (rs_depth s u) (bl_crit B b u)" for u
    using pos d base_frame [OF step, of u] rec_invD(2) [OF inv, of u] by auto
  moreover have "reach (bl_step B) b0 b" using rec_invD(1) [OF inv] step by (rule reach.reach_step)
  ultimately show ?thesis using inv by (simp add: rec_inv_def)
qed

lemma rec_inv_hold:
  assumes inv: "rec_inv B b0 N D s" and t: "t < N" and c: "bl_crit B (rl_base (rs_lock s)) t" and d: "d \<le> D"
    and pos: "rec_pos D pc d True" and l: "rl_base l = rl_base (rs_lock s)"
    and v: "0 < d \<Longrightarrow> rl_owner l = of_nat t \<and> rl_count l = of_nat (d - 1)" "d = 0 \<Longrightarrow> rl_owner l = RECURSIVE_LOCK_NOCPU \<and> rl_count l = 0"
  shows "rec_inv B b0 N D \<lparr>rs_lock = l, rs_pcs = (rs_pcs s)(t := pc), rs_depth = (rs_depth s)(t := d)\<rparr>"
proof -
  have o: "rs_depth s u = 0" "rec_pos D (rs_pcs s u) 0 (bl_crit B (rl_base (rs_lock s)) u)" if "u \<noteq> t" for u
    using holder_unique [OF inv c that] rec_invD(2) [OF inv, of u] by simp_all
  show ?thesis using rec_invD(1) [OF inv] o t c d pos l v unfolding rec_inv_def by auto
qed

lemma rec_inv_run:
  assumes inv: "rec_inv B b0 N D s" and t: "t < N" and run: "rec_run B (of_nat t) t (rs_pcs s t) (rs_lock s) = Some (pc, l)"
  shows "rec_inv B b0 N D \<lparr>rs_lock = l, rs_pcs = (rs_pcs s)(t := pc), rs_depth = (rs_depth s)(t := depth_after (rs_pcs s t) (rs_depth s t))\<rparr>"
proof -
  let ?b = "rl_base (rs_lock s)"
  note pos = rec_invD(2) [OF inv, of t]
  have base: ?thesis if "base_call B (t, cmd) nxt (rs_lock s) = Some (pc, l)" "rs_depth s t = 0" "depth_after (rs_pcs s t) 0 = 0"
    "\<And>b. rec_pos D (nxt b) 0 (bl_crit B b t)" for cmd nxt
    using that rec_inv_base [OF inv _ that(2)] by (auto simp: base_call_def)
  have d: "rs_depth s t \<le> D" by (rule rec_invD(3) [OF inv])
  show ?thesis
  proof (cases "rs_pcs s t")
    case RcInc
    then have p: "0 < rs_depth s t" "rs_depth s t < D" "bl_crit B ?b t" using pos by simp_all
    have "rl_count (rs_lock s) + 1 = of_nat (rs_depth s t)" using rec_invD(6) [OF inv p(1)] p(1) by (cases "rs_depth s t") auto
    with run RcInc p rec_invD(5) [OF inv p(1)] show ?thesis by (auto intro!: rec_inv_hold [OF inv t])
  next
    case RcOwn
    then have p: "rs_depth s t = 0" "bl_crit B ?b t" using pos by simp_all
    then have "rs_depth s u = 0" for u using holder_unique [OF inv p(2), of u] by (cases "u = t") auto
    then have "rl_count (rs_lock s) = 0" using rec_invD(7) [OF inv] by blast
    with run RcOwn p nesting(1) show ?thesis by (auto simp: vatomic_simps intro!: rec_inv_hold [OF inv t])
  next
    case RcDec
    then have p: "2 \<le> rs_depth s t" "bl_crit B ?b t" using pos by simp_all
    have "rl_count (rs_lock s) - 1 = of_nat (rs_depth s t - 1 - 1)" using rec_invD(6) [OF inv, of t] p(1) by (simp add: of_nat_diff)
    with run RcDec p d rec_invD(5) [OF inv, of t] show ?thesis by (auto intro!: rec_inv_hold [OF inv t])
  next
    case RcDisown
    then have p: "rs_depth s t = 1" "bl_crit B ?b t" using pos by simp_all
    with run RcDisown rec_invD(6) [OF inv, of t] show ?thesis by (auto simp: vatomic_simps intro!: rec_inv_hold [OF inv t])
  qed (use run pos base in auto)
qed

lemma rec_inv_step:
  assumes inv: "rec_inv B b0 N D s" and step: "rec_step B N D (t, cmd) s = Some s'"
  shows "rec_inv B b0 N D s'"
proof -
  have t: "t < N" using step by (auto simp: Let_def split: if_splits)
  note own = owner_depth [OF inv t] and cpu = ident_cpu [OF t] and pos = rec_invD(2) [OF inv, of t]
  consider "rs_pcs s t = RcIdle" "cmd \<noteq> Run" | pc l where "cmd = Run" "rec_run B (of_nat t) t (rs_pcs s t) (rs_lock s) = Some (pc, l)"
      "s' = \<lparr>rs_lock = l, rs_pcs = (rs_pcs s)(t := pc), rs_depth = (rs_depth s)(t := depth_after (rs_pcs s t) (rs_depth s t))\<rparr>"
    using step t by (cases cmd; cases "rs_pcs s t") (auto simp: Let_def)
  then show ?thesis
  proof cases
    case 1
    then obtain pc where s': "s' = s\<lparr>rs_pcs := (rs_pcs s)(t := pc)\<rparr>"
      and pc: "cmd = Acquire \<and> rs_depth s t < D \<and> pc = rec_acquire (of_nat t) (rs_lock s) \<or>
        cmd = TryAcquire \<and> rs_depth s t < D \<and> pc = rec_tryacquire (of_nat t) (rs_lock s) \<or>
        cmd = Release \<and> 0 < rs_depth s t \<and> pc = rec_release (rs_lock s)"
      using step t by (cases cmd) (auto simp: Let_def split: if_splits)
    have "rec_pos D pc (rs_depth s t) (bl_crit B (rl_base (rs_lock s)) t)"
      using pc own cpu pos 1(1) count_zero [OF inv, of t]
      by (auto simp: rec_acquire_def rec_tryacquire_def rec_release_def vatomic_simps Let_def)
    then show ?thesis unfolding s' by (rule rec_inv_goto [OF inv])
  next
    case 2
    from rec_inv_run [OF inv t 2(2)] 2(3) show ?thesis by simp
  qed
qed

end

sublocale recursive_lock \<subseteq> inv_system "rec_step B N D" "rec_start b0" "rec_inv B b0 N D"
proof (unfold_locales, goal_cases)
  case 1
  have "reach (bl_step B) b0 b0" by (rule reach.reach_init)
  then show ?case by (simp add: rec_inv_def rec_start_def rec_lock_init_def vatomic_simps)
next
  case (2 s lab s')
  then show ?case using rec_inv_step [of s "fst lab" "snd lab" s'] by simp
qed

text \<open>
  What a client relies on: at most one thread is inside, however deep; the owner and the counter tell who and how
  deep; no \<open>ASSERT\<close> fails; and the holder can always acquire the lock once more, without waiting.
\<close>

definition rec_correct :: "'b base_lock \<Rightarrow> nat \<Rightarrow> nat \<Rightarrow> 'b rec_sys \<Rightarrow> bool" where
  "rec_correct B N D s \<longleftrightarrow> (\<forall>t u. 0 < rs_depth s t \<and> 0 < rs_depth s u \<longrightarrow> t = u) \<and> (\<forall>t. rs_pcs s t \<noteq> RcFailed) \<and>
     (\<forall>t. 0 < rs_depth s t \<longrightarrow> rl_owner (rs_lock s) = of_nat t \<and> unat (rl_count (rs_lock s)) = rs_depth s t - 1) \<and>
     (\<forall>t. 0 < rs_depth s t \<and> rs_depth s t < D \<and> rs_pcs s t = RcIdle \<longrightarrow>
        (\<exists>s'. exec (rec_step B N D) [(t, Acquire), (t, Run)] s = Some s' \<and> rs_depth s' t = Suc (rs_depth s t) \<and> rs_pcs s' t = RcIdle))"

context recursive_lock
begin

lemma reach_correct:
  assumes "reach (rec_step B N D) (rec_start b0) s"
  shows "rec_correct B N D s"
proof -
  have inv: "rec_inv B b0 N D s" by (rule reach_inv [OF assms])
  have "t = u" if "0 < rs_depth s t" "0 < rs_depth s u" for t u
    using holder_unique [OF inv rec_invD(8) [OF inv that(1)], of u] that(2) by auto
  moreover have "rs_pcs s t \<noteq> RcFailed" for t using rec_invD(2) [OF inv, of t] by auto
  moreover have "unat (rl_count (rs_lock s)) = rs_depth s t - 1" if d: "0 < rs_depth s t" for t
  proof -
    have "rs_depth s t - 1 < 2 ^ 32" using rec_invD(3) [OF inv, of t] nesting(2) d by simp
    then show ?thesis using rec_invD(6) [OF inv d] by (simp only: unat_of_nat mod_less len_of_numeral_defs) simp
  qed
  moreover have "\<exists>s'. exec (rec_step B N D) [(t, Acquire), (t, Run)] s = Some s' \<and> rs_depth s' t = Suc (rs_depth s t) \<and> rs_pcs s' t = RcIdle"
    if d: "0 < rs_depth s t" "rs_depth s t < D" "rs_pcs s t = RcIdle" for t
    using d rec_invD(4) [OF inv d(1)] rec_invD(5) [OF inv d(1)] ident_cpu [OF rec_invD(4) [OF inv d(1)]]
    by (simp add: Let_def rec_acquire_def vatomic_simps)
  ultimately show ?thesis using rec_invD(5) [OF inv] unfolding rec_correct_def by blast
qed

end

section \<open>The instances\<close>

definition rec_spinlock :: "cas_sys base_lock" where
  "rec_spinlock = \<lparr>bl_step = cas_step caslock_tryacquire_orig, bl_crit = cas_crit, bl_idle = (\<lambda>s t. cas_pcs s t = CasIdle)\<rparr>"

definition rec_ticketlock :: "u32 \<Rightarrow> tk_sys base_lock" where
  "rec_ticketlock n = \<lparr>bl_step = tk_step n False, bl_crit = tk_crit, bl_idle = (\<lambda>s t. tk_pcs s t = TkIdle)\<rparr>"

definition rec_mcslock :: "mcs_sys base_lock" where
  "rec_mcslock = \<lparr>bl_step = cl_step mcs_ops, bl_crit = cl_crit, bl_idle = (\<lambda>s t. ls_pcs s t = ClIdle)\<rparr>"

lemma cas_step_frame: "cas_step f (t, cmd) b = Some b' \<Longrightarrow> u \<noteq> t \<Longrightarrow> cas_pcs b' u = cas_pcs b u"
  by (auto simp: cas_acquire_step_def cas_goto_def split: cas_pc.splits lock_cmd.splits prod.splits)

lemma tk_step_frame: "tk_step n f (t, cmd) b = Some b' \<Longrightarrow> u \<noteq> t \<Longrightarrow> tk_pcs b' u = tk_pcs b u"
  by (auto simp: tk_goto_def split: if_splits tk_pc.splits lock_cmd.splits)

lemma cl_step_frame: "cl_step ops (t, cmd) b = Some b' \<Longrightarrow> u \<noteq> t \<Longrightarrow> ls_pcs b' u = ls_pcs b u"
  by (erule cl_step_cases) simp_all

text \<open>The largest number of threads and the deepest nesting that the fields of the lock can represent.\<close>

interpretation rec_spinlock: recursive_lock rec_spinlock cas_start "2 ^ 32 - 1" "2 ^ 32"
  by unfold_locales (auto simp: rec_spinlock_def cas_crit_def simp del: cas_step.simps dest: cas_step_frame intro: caslock_orig.mutual_exclusion [unfolded cas_crit_def])

interpretation rec_ticketlock: recursive_lock "rec_ticketlock n" tk_start "2 ^ 32 - 1" "2 ^ 32" for n
  by unfold_locales (auto simp: rec_ticketlock_def tk_crit_def simp del: tk_step.simps dest: tk_step_frame intro: ticketlock.mutual_exclusion [unfolded tk_crit_def])

interpretation rec_mcslock: recursive_lock rec_mcslock "mcs_start nodes" "2 ^ 32 - 1" "2 ^ 32" for nodes
  by unfold_locales (auto simp: rec_mcslock_def cl_crit_def simp del: cl_step.simps dest: cl_step_frame intro: mcs.mutual_exclusion [unfolded cl_crit_def])

section \<open>Property\<close>


definition rec_two :: "lock_label list" where
  "rec_two = [(0, Acquire), (0, Run), (0, Run), (0, Run), (1, TryAcquire), (0, Acquire), (0, Run)]"


end
