(* ===== verification/Linked_List.thy ===== *)
theory Linked_List
  imports Bench_Prelude
begin

text \<open>
  Singly linked lists in memory: nodes are addresses, the links are a map from addresses to pointers, and \<open>None\<close> is
  \<open>NULL\<close>. Shared by the stacks and the unbounded queues.
\<close>

type_synonym addr = nat

section \<open>The list a pointer denotes\<close>

fun chain :: "(addr \<Rightarrow> addr option) \<Rightarrow> addr option \<Rightarrow> addr list \<Rightarrow> bool" where
  "chain h p [] \<longleftrightarrow> p = None"
| "chain h p (x # xs) \<longleftrightarrow> p = Some x \<and> chain h (h x) xs"

lemma chain_upd: "x \<notin> set xs \<Longrightarrow> chain (h(x := v)) p xs = chain h p xs"
  by (induction xs arbitrary: p) auto

lemma chain_fun: "chain h p xs \<Longrightarrow> chain h p ys \<Longrightarrow> xs = ys"
proof (induction xs arbitrary: p ys)
  case Nil
  then show ?case by (cases ys) auto
next
  case (Cons x xs)
  then show ?case by (cases ys) auto
qed

lemma chain_None: "chain h None xs \<longleftrightarrow> xs = []"
  by (cases xs) auto

lemma chain_Some: "chain h (Some x) xs \<longleftrightarrow> (\<exists>ys. xs = x # ys \<and> chain h (h x) ys)"
  by (cases xs) auto

lemma chain_suffix: "chain h p (xs @ ys) \<Longrightarrow> \<exists>q. chain h q ys"
  by (induction xs arbitrary: p) auto

text \<open>A chain has no node twice: from equal nodes equal chains would follow.\<close>

lemma chain_distinct: "chain h p xs \<Longrightarrow> distinct xs"
proof (induction xs arbitrary: p)
  case (Cons x xs)
  have "x \<notin> set xs"
  proof
    assume "x \<in> set xs"
    then obtain ys zs where s: "xs = ys @ x # zs" by (auto simp: in_set_conv_decomp)
    have c: "chain h (h x) xs" using Cons.prems by simp
    then obtain q where "chain h q (x # zs)" using chain_suffix unfolding s by blast
    then have "chain h (h x) zs" by simp
    from chain_fun [OF c this] s show False by (metis append_eq_conv_conj length_append length_Cons add_Suc_right not_add_less2 less_add_Suc2 lessI)
  qed
  with Cons show ?case by auto
qed simp

text \<open>The last node of a list has a null link, and a node with a null link is the last one.\<close>

lemma chain_last: "chain h p xs \<Longrightarrow> xs \<noteq> [] \<Longrightarrow> h (last xs) = None"
  by (induction xs arbitrary: p) (auto simp: chain_None)

lemma chain_next_None: "chain h p xs \<Longrightarrow> x \<in> set xs \<Longrightarrow> h x = None \<Longrightarrow> x = last xs"
proof (induction xs arbitrary: p)
  case (Cons y ys)
  then show ?case by (cases ys) auto
qed simp

lemma chain_next_Some: "chain h p xs \<Longrightarrow> x \<in> set xs \<Longrightarrow> h x = Some y \<Longrightarrow> y \<in> set (tl xs)"
proof (induction xs arbitrary: p)
  case (Cons z zs)
  then show ?case by (cases zs) auto
qed simp

text \<open>Linking a new node after the last one.\<close>

lemma chain_snoc: "chain h p xs \<Longrightarrow> xs \<noteq> [] \<Longrightarrow> n \<notin> set xs \<Longrightarrow> h n = None \<Longrightarrow> chain (h(last xs := Some n)) p (xs @ [n])"
proof (induction xs arbitrary: p)
  case (Cons y ys)
  show ?case
  proof (cases "ys = []")
    case True
    then show ?thesis using Cons.prems by auto
  next
    case False
    have "last ys \<noteq> y" using chain_distinct [OF Cons.prems(1)] False by auto
    then show ?thesis using Cons.IH [of "h y"] Cons.prems False by auto
  qed
qed simp

end
