(* ===== verification/Treiber.thy ===== *)
theory Treiber
  imports Vatomicptr Linked_List
begin

text \<open>
  The lock-free stacks: \<^verbatim>\<open>stack/quack.h\<close> (push and removal of all nodes) and \<^verbatim>\<open>stack/internal/stack_core.h\<close> with
  \<^verbatim>\<open>stack/xbo_stack.h\<close> (push and pop). Nodes are addresses, the links are a map from addresses to pointers, and
  \<open>None\<close> is \<open>NULL\<close>. Back-off between attempts has no effect on the memory and is left to the scheduler.
\<close>

section \<open>Operations\<close>

record stack_mem =
  st_top :: "addr option"
  st_next :: "addr \<Rightarrow> addr option"

definition quack_init :: "stack_mem \<Rightarrow> stack_mem" where
  "quack_init q = q\<lparr>st_top := vatomicptr_init (st_top q) None\<rparr>"

datatype push_pc = PuRead | PuNext "addr option" | PuCas "addr option"

fun quack_push :: "addr \<Rightarrow> push_pc \<Rightarrow> stack_mem \<Rightarrow> (push_pc + unit) \<times> stack_mem" where
  "quack_push n PuRead q = (Inl (PuNext (vatomicptr_read (st_top q))), q)"
| "quack_push n (PuNext nxt) q = (Inl (PuCas nxt), q\<lparr>st_next := (st_next q)(n := nxt)\<rparr>)"
| "quack_push n (PuCas nxt) q =
     (let (old, a) = vatomicptr_cmpxchg (st_top q) nxt (Some n)
      in (if old \<noteq> nxt then Inl PuRead else Inr (), q\<lparr>st_top := a\<rparr>))"

definition quack_is_empty :: "stack_mem \<Rightarrow> bool" where
  "quack_is_empty q \<longleftrightarrow> vatomicptr_read (st_top q) = None"

definition quack_popall :: "stack_mem \<Rightarrow> addr option \<times> stack_mem" where
  "quack_popall q = (let (old, a) = vatomicptr_xchg (st_top q) None in (old, q\<lparr>st_top := a\<rparr>))"

text \<open>The loop of \<open>quack_reverse\<close>: \<open>prev\<close> and \<open>cur\<close> are its variables.\<close>

partial_function (option) reverse_loop :: "addr option \<Rightarrow> addr option \<Rightarrow> (addr \<Rightarrow> addr option) \<Rightarrow> (addr option \<times> (addr \<Rightarrow> addr option)) option" where
  [code]: "reverse_loop prev cur h =
     (case cur of None \<Rightarrow> Some (prev, h) | Some c \<Rightarrow> reverse_loop (Some c) (h c) (h(c := prev)))"

definition quack_reverse :: "addr option \<Rightarrow> (addr \<Rightarrow> addr option) \<Rightarrow> (addr option \<times> (addr \<Rightarrow> addr option)) option" where
  "quack_reverse n h = reverse_loop None n h"

definition vstack_core_init :: "stack_mem \<Rightarrow> stack_mem" where
  "vstack_core_init s = s\<lparr>st_top := vatomicptr_write (st_top s) None\<rparr>"

fun vstack_core_try_push :: "addr \<Rightarrow> push_pc \<Rightarrow> stack_mem \<Rightarrow> (push_pc + bool) \<times> stack_mem" where
  "vstack_core_try_push n PuRead s = (Inl (PuNext (vatomicptr_read (st_top s))), s)"
| "vstack_core_try_push n (PuNext tp) s = (Inl (PuCas tp), s\<lparr>st_next := (st_next s)(n := tp)\<rparr>)"
| "vstack_core_try_push n (PuCas tp) s =
     (let (old, a) = vatomicptr_cmpxchg (st_top s) tp (Some n) in (Inr (old = tp), s\<lparr>st_top := a\<rparr>))"

definition vstack_push :: "addr \<Rightarrow> push_pc \<Rightarrow> stack_mem \<Rightarrow> (push_pc + unit) \<times> stack_mem" where
  "vstack_push n pc s = (case vstack_core_try_push n pc s of
     (Inl pc', s') \<Rightarrow> (Inl pc', s') | (Inr ok, s') \<Rightarrow> (if ok then Inr () else Inl PuRead, s'))"

datatype pop_pc = PoRead | PoNext addr | PoCas addr "addr option"

text \<open>The result is the returned pointer and \<open>*out_success\<close>.\<close>

fun vstack_core_try_pop :: "pop_pc \<Rightarrow> stack_mem \<Rightarrow> (pop_pc + addr option \<times> bool) \<times> stack_mem" where
  "vstack_core_try_pop PoRead s =
     (case vatomicptr_read (st_top s) of None \<Rightarrow> Inr (None, True) | Some tp \<Rightarrow> Inl (PoNext tp), s)"
| "vstack_core_try_pop (PoNext tp) s = (Inl (PoCas tp (st_next s tp)), s)"
| "vstack_core_try_pop (PoCas tp node) s =
     (let (old, a) = vatomicptr_cmpxchg (st_top s) (Some tp) node in (Inr (old, old = Some tp), s\<lparr>st_top := a\<rparr>))"

definition vstack_pop :: "pop_pc \<Rightarrow> stack_mem \<Rightarrow> (pop_pc + addr option) \<times> stack_mem" where
  "vstack_pop pc s = (case vstack_core_try_pop pc s of
     (Inl pc', s') \<Rightarrow> (Inl pc', s') | (Inr (node, success), s') \<Rightarrow> (if success then Inr node else Inl PoRead, s'))"

text \<open>\<open>vstack_core_visit\<close>: the nodes the visitor is called with, in order.\<close>

partial_function (option) visit_loop :: "(addr \<Rightarrow> addr option) \<Rightarrow> addr option \<Rightarrow> addr list option" where
  [code]: "visit_loop h cur = (case cur of None \<Rightarrow> Some [] | Some c \<Rightarrow> Option.bind (visit_loop h (h c)) (\<lambda>l. Some (c # l)))"

definition vstack_core_visit :: "stack_mem \<Rightarrow> addr list option" where
  "vstack_core_visit s = visit_loop (st_next s) (vatomicptr_read (st_top s))"

lemma vstack_push_quack: "vstack_push n pc s = quack_push n pc s"
  by (cases pc) (auto simp: vstack_push_def vatomic_simps split: prod.splits)

section \<open>The loops on a list\<close>

lemma visit_loop_chain: "chain h p xs \<Longrightarrow> visit_loop h p = Some xs"
  by (induction xs arbitrary: p) (subst visit_loop.simps, simp)+

lemma reverse_loop_chain:
  assumes "chain h p xs" and "chain h q ys" and "set xs \<inter> set ys = {}"
  shows "\<exists>h' r. reverse_loop q p h = Some (r, h') \<and> chain h' r (rev xs @ ys) \<and> (\<forall>a. a \<notin> set xs \<longrightarrow> h' a = h a)"
  using assms
proof (induction xs arbitrary: p q ys h)
  case Nil
  then show ?case by (subst reverse_loop.simps) simp
next
  case (Cons x xs)
  let ?h = "h(x := q)"
  have x: "x \<notin> set xs" using chain_distinct [OF Cons.prems(1)] by simp
  have "chain ?h (h x) xs" "chain ?h (Some x) (x # ys)" "set xs \<inter> set (x # ys) = {}"
    using Cons.prems x by (auto simp: chain_upd)
  from Cons.IH [OF this] obtain h' r where r: "reverse_loop (Some x) (h x) ?h = Some (r, h')" "chain h' r (rev xs @ x # ys)"
    "\<forall>a. a \<notin> set xs \<longrightarrow> h' a = ?h a" by blast
  then have "reverse_loop q p h = Some (r, h')" using Cons.prems(1) by (subst reverse_loop.simps) simp
  with r show ?case by auto
qed

section \<open>Threads\<close>

text \<open>
  Every node is in the stack or belongs to a thread. A thread pushes nodes of its own, may write to
  their links (as \<open>quack_reverse\<close> does), and gets the nodes it removes. Under safe memory reclamation (\<open>smr\<close>) a
  node is pushed again only when no thread is in a pop that has read it as the top. The history records
  every call at its effect; for a removal of all nodes, the list that the caller reads from the returned pointer.
\<close>

datatype stack_pc = StIdle | StPush addr push_pc | StPop pop_pc

datatype stack_event = EvPush addr | EvPop "addr option" | EvPopAll "addr list"

datatype stack_cmd = CmdPush addr | CmdPop | CmdPopAll | CmdWrite addr "addr option" | CmdRun

record stack_sys =
  ss_mem :: stack_mem
  ss_pcs :: "tid \<Rightarrow> stack_pc"
  ss_owner :: "addr \<Rightarrow> tid option"
  ss_hist :: "stack_event list"

fun holds_ref :: "stack_pc \<Rightarrow> addr \<Rightarrow> bool" where
  "holds_ref (StPop (PoNext tp)) n \<longleftrightarrow> tp = n"
| "holds_ref (StPop (PoCas tp _)) n \<longleftrightarrow> tp = n"
| "holds_ref _ n \<longleftrightarrow> False"

definition do_push :: "stack_sys \<Rightarrow> tid \<Rightarrow> addr \<Rightarrow> push_pc \<Rightarrow> stack_sys" where
  "do_push s t n pc = (case quack_push n pc (ss_mem s) of
     (Inl pc', m) \<Rightarrow> s\<lparr>ss_mem := m, ss_pcs := (ss_pcs s)(t := StPush n pc')\<rparr>
   | (Inr _, m) \<Rightarrow> s\<lparr>ss_mem := m, ss_pcs := (ss_pcs s)(t := StIdle), ss_owner := (ss_owner s)(n := None), ss_hist := ss_hist s @ [EvPush n]\<rparr>)"

definition do_pop :: "stack_sys \<Rightarrow> tid \<Rightarrow> pop_pc \<Rightarrow> stack_sys" where
  "do_pop s t pc = (case vstack_pop pc (ss_mem s) of
     (Inl pc', m) \<Rightarrow> s\<lparr>ss_mem := m, ss_pcs := (ss_pcs s)(t := StPop pc')\<rparr>
   | (Inr r, m) \<Rightarrow> s\<lparr>ss_mem := m, ss_pcs := (ss_pcs s)(t := StIdle),
        ss_owner := (case r of None \<Rightarrow> ss_owner s | Some n \<Rightarrow> (ss_owner s)(n \<mapsto> t)), ss_hist := ss_hist s @ [EvPop r]\<rparr>)"

definition do_popall :: "stack_sys \<Rightarrow> tid \<Rightarrow> stack_sys" where
  "do_popall s t =
     (let (p, m) = quack_popall (ss_mem s); xs = (case visit_loop (st_next m) p of None \<Rightarrow> [] | Some xs \<Rightarrow> xs)
      in s\<lparr>ss_mem := m, ss_owner := (\<lambda>n. if n \<in> set xs then Some t else ss_owner s n), ss_hist := ss_hist s @ [EvPopAll xs]\<rparr>)"

fun stack_step :: "nat \<Rightarrow> bool \<Rightarrow> bool \<Rightarrow> tid \<times> stack_cmd \<Rightarrow> stack_sys \<Rightarrow> stack_sys option" where
  "stack_step N smr pops (t, cmd) s =
     (if t < N then
        (case (ss_pcs s t, cmd) of
           (StIdle, CmdPush n) \<Rightarrow>
             (if ss_owner s n = Some t \<and> (smr \<longrightarrow> list_all (\<lambda>u. \<not> holds_ref (ss_pcs s u) n) [0..<N]) then Some (do_push s t n PuRead) else None)
         | (StIdle, CmdPop) \<Rightarrow> (if pops then Some (do_pop s t PoRead) else None)
         | (StIdle, CmdPopAll) \<Rightarrow> Some (do_popall s t)
         | (StIdle, CmdWrite n v) \<Rightarrow>
             (if ss_owner s n = Some t then Some (s\<lparr>ss_mem := (ss_mem s)\<lparr>st_next := (st_next (ss_mem s))(n := v)\<rparr>\<rparr>) else None)
         | (StPush n pc, CmdRun) \<Rightarrow> Some (do_push s t n pc)
         | (StPop pc, CmdRun) \<Rightarrow> Some (do_pop s t pc)
         | _ \<Rightarrow> None)
      else None)"

definition stack_start :: "(addr \<Rightarrow> tid) \<Rightarrow> stack_mem \<Rightarrow> stack_sys" where
  "stack_start own m = \<lparr>ss_mem = quack_init m, ss_pcs = (\<lambda>_. StIdle), ss_owner = (\<lambda>n. Some (own n)), ss_hist = []\<rparr>"

section \<open>The sequential stack\<close>

fun stack_apply :: "stack_event \<Rightarrow> addr list \<Rightarrow> addr list option" where
  "stack_apply (EvPush n) L = Some (n # L)"
| "stack_apply (EvPop None) L = (if L = [] then Some [] else None)"
| "stack_apply (EvPop (Some n)) L = (case L of [] \<Rightarrow> None | x # xs \<Rightarrow> if x = n then Some xs else None)"
| "stack_apply (EvPopAll xs) L = (if xs = L then Some [] else None)"

fun replay :: "stack_event list \<Rightarrow> addr list \<Rightarrow> addr list option" where
  "replay [] L = Some L"
| "replay (e # es) L = Option.bind (stack_apply e L) (replay es)"

lemma replay_snoc: "replay es L = Some L' \<Longrightarrow> replay (es @ [e]) L = stack_apply e L'"
  by (induction es arbitrary: L) (auto simp: bind_eq_Some_conv Option.bind_assoc split: Option.bind_splits)

section \<open>The invariant\<close>

definition thread_ok :: "bool \<Rightarrow> stack_sys \<Rightarrow> addr list \<Rightarrow> tid \<Rightarrow> bool" where
  "thread_ok pops s L t \<longleftrightarrow> (case ss_pcs s t of
     StIdle \<Rightarrow> True
   | StPush n pc \<Rightarrow> ss_owner s n = Some t \<and> (\<forall>u. \<not> holds_ref (ss_pcs s u) n) \<and> (\<forall>nxt. pc = PuCas nxt \<longrightarrow> st_next (ss_mem s) n = nxt)
   | StPop pc \<Rightarrow> pops \<and> (\<forall>tp nxt. pc = PoCas tp nxt \<longrightarrow> tp \<in> set L \<longrightarrow> st_next (ss_mem s) tp = nxt))"

definition stack_inv :: "nat \<Rightarrow> bool \<Rightarrow> stack_sys \<Rightarrow> addr list \<Rightarrow> bool" where
  "stack_inv N pops s L \<longleftrightarrow> chain (st_next (ss_mem s)) (st_top (ss_mem s)) L \<and> replay (ss_hist s) [] = Some L \<and>
     (\<forall>n. ss_owner s n = None \<longleftrightarrow> n \<in> set L) \<and> (\<forall>t. thread_ok pops s L t) \<and> (\<forall>t. N \<le> t \<longrightarrow> ss_pcs s t = StIdle)"

lemma stack_invD:
  assumes "stack_inv N pops s L"
  shows "chain (st_next (ss_mem s)) (st_top (ss_mem s)) L" "replay (ss_hist s) [] = Some L" "ss_owner s n = None \<longleftrightarrow> n \<in> set L"
    "thread_ok pops s L t" "N \<le> t \<Longrightarrow> ss_pcs s t = StIdle"
  using assms by (auto simp: stack_inv_def)

lemma stack_push_ok:
  assumes "stack_inv N pops s L" and "ss_pcs s t = StPush n pc"
  shows "ss_owner s n = Some t" "\<not> holds_ref (ss_pcs s u) n" "pc = PuCas nxt \<Longrightarrow> st_next (ss_mem s) n = nxt" "n \<notin> set L"
  using stack_invD(4) [OF assms(1), of t] stack_invD(3) [OF assms(1), of n] assms(2) by (auto simp: thread_ok_def)

lemma stack_invI:
  assumes "chain (st_next (ss_mem s)) (st_top (ss_mem s)) L" and "replay (ss_hist s) [] = Some L"
    and "\<And>n. ss_owner s n = None \<longleftrightarrow> n \<in> set L"
    and "\<And>t n pc. ss_pcs s t = StPush n pc \<Longrightarrow> ss_owner s n = Some t \<and> (\<forall>u. \<not> holds_ref (ss_pcs s u) n)"
    and "\<And>t n nxt. ss_pcs s t = StPush n (PuCas nxt) \<Longrightarrow> st_next (ss_mem s) n = nxt"
    and "\<And>t pc. ss_pcs s t = StPop pc \<Longrightarrow> pops"
    and "\<And>t tp nxt. ss_pcs s t = StPop (PoCas tp nxt) \<Longrightarrow> tp \<in> set L \<Longrightarrow> st_next (ss_mem s) tp = nxt"
    and "\<And>t. N \<le> t \<Longrightarrow> ss_pcs s t = StIdle"
  shows "stack_inv N pops s L"
  using assms by (auto simp: stack_inv_def thread_ok_def split: stack_pc.splits)

lemma stack_pop_ok:
  assumes "stack_inv N pops s L" and "ss_pcs s t = StPop pc"
  shows "pops" "pc = PoCas tp nxt \<Longrightarrow> tp \<in> set L \<Longrightarrow> st_next (ss_mem s) tp = nxt"
  using stack_invD(4) [OF assms(1), of t] assms(2) by (auto simp: thread_ok_def)

lemma stack_top_in: "stack_inv N pops s L \<Longrightarrow> st_top (ss_mem s) = Some tp \<Longrightarrow> tp \<in> set L"
  using stack_invD(1) by (fastforce simp: chain_Some)

text \<open>A thread that is not in a push may move to any state that satisfies its own part of the invariant.\<close>

lemma stack_inv_goto:
  assumes I: "stack_inv N pops s L" and t: "t < N"
    and push: "\<And>n pc. p = StPush n pc \<Longrightarrow> ss_owner s n = Some t \<and> (\<forall>u. u \<noteq> t \<longrightarrow> \<not> holds_ref (ss_pcs s u) n)"
    and cas: "\<And>n nxt. p = StPush n (PuCas nxt) \<Longrightarrow> st_next (ss_mem s) n = nxt"
    and pop: "\<And>pc. p = StPop pc \<Longrightarrow> pops"
    and popc: "\<And>tp nxt. p = StPop (PoCas tp nxt) \<Longrightarrow> tp \<in> set L \<Longrightarrow> st_next (ss_mem s) tp = nxt"
    and refs: "\<And>u n pc. u \<noteq> t \<Longrightarrow> ss_pcs s u = StPush n pc \<Longrightarrow> holds_ref p n \<Longrightarrow> n \<in> set L"
  shows "stack_inv N pops (s\<lparr>ss_pcs := (ss_pcs s)(t := p)\<rparr>) L"
proof (rule stack_invI, goal_cases)
  case (4 u n pc)
  then show ?case using push [of n pc] stack_push_ok(1,2,4) [OF I, of u n pc] refs [of u n pc]
    by (cases "u = t") (auto split: if_splits)
next
  case (5 u n nxt)
  then show ?case using cas [of n nxt] stack_push_ok(3) [OF I, of u n "PuCas nxt"] by (auto split: if_splits)
next
  case (6 u pc)
  then show ?case using pop stack_pop_ok(1) [OF I] by (auto split: if_splits)
next
  case (7 u tp nxt)
  then show ?case using popc [of tp nxt] stack_pop_ok(2) [OF I, of u "PoCas tp nxt" tp nxt] by (auto split: if_splits)
qed (use stack_invD [OF I] t in \<open>auto\<close>)

text \<open>The owner of a node outside the stack may write to its link, as long as no push of it relies on the link.\<close>

lemma stack_inv_write:
  assumes I: "stack_inv N pops s L" and n: "ss_owner s n = Some t" and c: "\<And>nxt. ss_pcs s t \<noteq> StPush n (PuCas nxt)"
  shows "stack_inv N pops (s\<lparr>ss_mem := (ss_mem s)\<lparr>st_next := (st_next (ss_mem s))(n := v)\<rparr>\<rparr>) L"
proof -
  have nL: "n \<notin> set L" using stack_invD(3) [OF I, of n] n by simp
  show ?thesis
  proof (rule stack_invI, goal_cases)
    case 1
    then show ?case using stack_invD(1) [OF I] by (simp add: chain_upd nL)
  next
    case (4 u m pc)
    then show ?case using stack_push_ok [OF I, of u m pc] by auto
  next
    case (5 u m nxt)
    then show ?case using stack_push_ok(1,3) [OF I, of u m "PuCas nxt"] n c [of nxt] by auto
  next
    case (6 u pc)
    then show ?case using stack_pop_ok(1) [OF I] by auto
  next
    case (7 u tp nxt)
    then show ?case using stack_pop_ok(2) [OF I, of u "PoCas tp nxt" tp nxt] nL by auto
  qed (use stack_invD [OF I] in \<open>auto\<close>)
qed

lemma stack_inv_pushed:
  assumes I: "stack_inv N pops s L" and t: "t < N" and p: "ss_pcs s t = StPush n (PuCas (st_top (ss_mem s)))"
  shows "stack_inv N pops (s\<lparr>ss_mem := (ss_mem s)\<lparr>st_top := Some n\<rparr>, ss_pcs := (ss_pcs s)(t := StIdle),
    ss_owner := (ss_owner s)(n := None), ss_hist := ss_hist s @ [EvPush n]\<rparr>) (n # L)"
proof -
  note ok = stack_push_ok [OF I p]
  show ?thesis
  proof (rule stack_invI, goal_cases)
    case 1
    then show ?case using stack_invD(1) [OF I] ok(3) by simp
  next
    case 2
    then show ?case using replay_snoc [OF stack_invD(2) [OF I], of "EvPush n"] by simp
  next
    case (4 u m pc)
    then show ?case using stack_push_ok(1,2) [OF I, of u m pc] ok(1) by (auto split: if_splits)
  next
    case (5 u m nxt)
    then show ?case using stack_push_ok(3) [OF I, of u m "PuCas nxt"] by (auto split: if_splits)
  next
    case (6 u pc)
    then show ?case using stack_pop_ok(1) [OF I] by (auto split: if_splits)
  next
    case (7 u tp nxt)
    then show ?case using stack_pop_ok(2) [OF I, of u "PoCas tp nxt" tp nxt] ok(2) [of u] by (auto split: if_splits)
  qed (use stack_invD [OF I] t in \<open>auto\<close>)
qed

lemma stack_inv_popped:
  assumes I: "stack_inv N pops s (tp # L)" and t: "t < N" and p: "ss_pcs s t = StPop (PoCas tp nxt)"
  shows "stack_inv N pops (s\<lparr>ss_mem := (ss_mem s)\<lparr>st_top := nxt\<rparr>, ss_pcs := (ss_pcs s)(t := StIdle),
    ss_owner := (ss_owner s)(tp \<mapsto> t), ss_hist := ss_hist s @ [EvPop (Some tp)]\<rparr>) L"
proof -
  have nxt: "st_next (ss_mem s) tp = nxt" using stack_pop_ok(2) [OF I p] by simp
  have d: "tp \<notin> set L" using chain_distinct [OF stack_invD(1) [OF I]] by simp
  show ?thesis
  proof (rule stack_invI, goal_cases)
    case 1
    then show ?case using stack_invD(1) [OF I] nxt by simp
  next
    case 2
    then show ?case using replay_snoc [OF stack_invD(2) [OF I], of "EvPop (Some tp)"] by simp
  next
    case (3 n)
    then show ?case using stack_invD(3) [OF I, of n] d by auto
  next
    case (4 u m pc)
    then show ?case using stack_push_ok(1,2,4) [OF I, of u m pc] by (auto split: if_splits)
  next
    case (5 u m nxt)
    then show ?case using stack_push_ok(3) [OF I, of u m "PuCas nxt"] by (auto split: if_splits)
  next
    case (6 u pc)
    then show ?case using stack_pop_ok(1) [OF I] by (auto split: if_splits)
  next
    case (7 u tp nxt)
    then show ?case using stack_pop_ok(2) [OF I, of u "PoCas tp nxt" tp nxt] by (auto split: if_splits)
  qed (use stack_invD [OF I] t in \<open>auto\<close>)
qed

lemma stack_inv_emptied:
  assumes I: "stack_inv N pops s L"
  shows "stack_inv N pops (s\<lparr>ss_mem := (ss_mem s)\<lparr>st_top := None\<rparr>, ss_owner := (\<lambda>n. if n \<in> set L then Some t else ss_owner s n),
    ss_hist := ss_hist s @ [EvPopAll L]\<rparr>) []"
proof (rule stack_invI, goal_cases)
  case 2
  then show ?case using replay_snoc [OF stack_invD(2) [OF I], of "EvPopAll L"] by simp
next
  case (3 n)
  then show ?case using stack_invD(3) [OF I, of n] by auto
next
  case (4 u m pc)
  then show ?case using stack_push_ok(1,2,4) [OF I, of u m pc] by auto
next
  case (5 u m nxt)
  then show ?case using stack_push_ok(3) [OF I, of u m "PuCas nxt"] by auto
next
  case (6 u pc)
  then show ?case using stack_pop_ok(1) [OF I] by auto
qed (use stack_invD [OF I] in \<open>auto\<close>)

lemma stack_inv_found_empty:
  assumes I: "stack_inv N pops s []"
  shows "stack_inv N pops (s\<lparr>ss_hist := ss_hist s @ [EvPop None]\<rparr>) []"
  using I replay_snoc [OF stack_invD(2) [OF I], of "EvPop None"] by (auto simp: stack_inv_def thread_ok_def split: stack_pc.splits)

section \<open>Every step keeps the invariant\<close>

lemma stack_inv_do_push:
  assumes I: "stack_inv N pops s L" and p: "ss_pcs s t = StPush n pc" and t: "t < N"
  shows "\<exists>L'. stack_inv N pops (do_push s t n pc) L'"
proof (cases pc)
  case PuRead
  then have "do_push s t n pc = s\<lparr>ss_pcs := (ss_pcs s)(t := StPush n (PuNext (st_top (ss_mem s))))\<rparr>" by (simp add: do_push_def vatomic_simps)
  moreover have "stack_inv N pops \<dots> L" by (rule stack_inv_goto [OF I t]) (use stack_push_ok [OF I p] in \<open>auto\<close>)
  ultimately show ?thesis by auto
next
  case (PuNext nxt)
  let ?s = "s\<lparr>ss_mem := (ss_mem s)\<lparr>st_next := (st_next (ss_mem s))(n := nxt)\<rparr>\<rparr>"
  have w: "stack_inv N pops ?s L" by (rule stack_inv_write [OF I stack_push_ok(1) [OF I p]]) (simp add: p PuNext)
  have "do_push s t n pc = ?s\<lparr>ss_pcs := (ss_pcs ?s)(t := StPush n (PuCas nxt))\<rparr>" using PuNext by (simp add: do_push_def)
  moreover have "stack_inv N pops \<dots> L" by (rule stack_inv_goto [OF w t]) (use stack_push_ok [OF I p] in \<open>auto\<close>)
  ultimately show ?thesis by auto
next
  case (PuCas nxt)
  show ?thesis
  proof (cases "st_top (ss_mem s) = nxt")
    case True
    then have "do_push s t n pc = s\<lparr>ss_mem := (ss_mem s)\<lparr>st_top := Some n\<rparr>, ss_pcs := (ss_pcs s)(t := StIdle),
      ss_owner := (ss_owner s)(n := None), ss_hist := ss_hist s @ [EvPush n]\<rparr>"
      using PuCas by (simp add: do_push_def vatomic_simps)
    with stack_inv_pushed [OF I t, of n] p PuCas True show ?thesis by auto
  next
    case False
    then have "do_push s t n pc = s\<lparr>ss_pcs := (ss_pcs s)(t := StPush n PuRead)\<rparr>" using PuCas by (simp add: do_push_def vatomic_simps)
    moreover have "stack_inv N pops \<dots> L" by (rule stack_inv_goto [OF I t]) (use stack_push_ok [OF I p] in \<open>auto\<close>)
    ultimately show ?thesis by auto
  qed
qed

lemma stack_inv_do_pop:
  assumes I: "stack_inv N pops s L" and p: "ss_pcs s t = StPop pc" and t: "t < N"
  shows "\<exists>L'. stack_inv N pops (do_pop s t pc) L'"
proof (cases pc)
  case PoRead
  show ?thesis
  proof (cases "st_top (ss_mem s)")
    case None
    then have L: "L = []" using stack_invD(1) [OF I] by (simp add: chain_None)
    let ?s = "s\<lparr>ss_hist := ss_hist s @ [EvPop None]\<rparr>"
    have "do_pop s t pc = ?s\<lparr>ss_pcs := (ss_pcs ?s)(t := StIdle)\<rparr>" using PoRead None by (simp add: do_pop_def vstack_pop_def vatomic_simps)
    moreover have "stack_inv N pops \<dots> []" by (rule stack_inv_goto [OF stack_inv_found_empty [OF I [unfolded L]] t]) auto
    ultimately show ?thesis by auto
  next
    case (Some tp)
    then have "do_pop s t pc = s\<lparr>ss_pcs := (ss_pcs s)(t := StPop (PoNext tp))\<rparr>" using PoRead by (simp add: do_pop_def vstack_pop_def vatomic_simps)
    moreover have "stack_inv N pops \<dots> L"
      by (rule stack_inv_goto [OF I t]) (use stack_pop_ok(1) [OF I p] stack_top_in [OF I Some] in \<open>auto\<close>)
    ultimately show ?thesis by auto
  qed
next
  case (PoNext tp)
  then have "do_pop s t pc = s\<lparr>ss_pcs := (ss_pcs s)(t := StPop (PoCas tp (st_next (ss_mem s) tp)))\<rparr>" by (simp add: do_pop_def vstack_pop_def)
  moreover have "stack_inv N pops \<dots> L"
  proof (rule stack_inv_goto [OF I t], goal_cases)
    case (5 u n pc')
    then have "\<not> holds_ref (ss_pcs s t) n" using stack_push_ok(2) [OF I] by blast
    then show ?case using 5 p PoNext by simp
  qed (use stack_pop_ok(1) [OF I p] in \<open>auto\<close>)
  ultimately show ?thesis by auto
next
  case (PoCas tp nxt)
  show ?thesis
  proof (cases "st_top (ss_mem s) = Some tp")
    case True
    then obtain xs where L: "L = tp # xs" using stack_invD(1) [OF I] by (auto simp: chain_Some)
    have "do_pop s t pc = s\<lparr>ss_mem := (ss_mem s)\<lparr>st_top := nxt\<rparr>, ss_pcs := (ss_pcs s)(t := StIdle),
      ss_owner := (ss_owner s)(tp \<mapsto> t), ss_hist := ss_hist s @ [EvPop (Some tp)]\<rparr>"
      using PoCas True by (simp add: do_pop_def vstack_pop_def vatomic_simps)
    with stack_inv_popped [OF I [unfolded L] t] p PoCas show ?thesis by auto
  next
    case False
    then have "do_pop s t pc = s\<lparr>ss_pcs := (ss_pcs s)(t := StPop PoRead)\<rparr>" using PoCas by (auto simp: do_pop_def vstack_pop_def vatomic_simps)
    moreover have "stack_inv N pops \<dots> L" by (rule stack_inv_goto [OF I t]) (use stack_pop_ok [OF I p] in \<open>auto\<close>)
    ultimately show ?thesis by auto
  qed
qed

lemma stack_inv_do_popall:
  assumes I: "stack_inv N pops s L"
  shows "stack_inv N pops (do_popall s t) []"
proof -
  have "do_popall s t = s\<lparr>ss_mem := (ss_mem s)\<lparr>st_top := None\<rparr>, ss_owner := (\<lambda>n. if n \<in> set L then Some t else ss_owner s n),
    ss_hist := ss_hist s @ [EvPopAll L]\<rparr>"
    by (simp add: do_popall_def quack_popall_def vatomic_simps visit_loop_chain [OF stack_invD(1) [OF I]])
  with stack_inv_emptied [OF I] show ?thesis by simp
qed

text \<open>The first read of a call: \<open>PuRead\<close> and \<open>PoRead\<close> of an idle thread are those of a thread already in the call.\<close>

lemma do_push_start: "do_push s t n PuRead = do_push (s\<lparr>ss_pcs := (ss_pcs s)(t := StPush n PuRead)\<rparr>) t n PuRead"
  by (simp add: do_push_def)

lemma do_pop_start: "do_pop s t PoRead = do_pop (s\<lparr>ss_pcs := (ss_pcs s)(t := StPop PoRead)\<rparr>) t PoRead"
  by (simp add: do_pop_def vstack_pop_def split: option.splits)

lemma stack_inv_step:
  assumes I: "stack_inv N pops s L" and ok: "smr \<or> \<not> pops" and st: "stack_step N smr pops (t, cmd) s = Some s'"
  shows "\<exists>L'. stack_inv N pops s' L'"
proof -
  have t: "t < N" using st by (simp split: if_splits)
  have refs: "\<not> holds_ref (ss_pcs s u) n" if "smr \<longrightarrow> list_all (\<lambda>u. \<not> holds_ref (ss_pcs s u) n) [0..<N]" for u n
  proof (cases "ss_pcs s u")
    case (StPop pc)
    then have "pops" "u < N" using stack_pop_ok(1) [OF I StPop] stack_invD(5) [OF I, of u] by (auto simp: not_le [symmetric])
    then show ?thesis using that ok by (auto simp: list_all_iff)
  qed auto
  show ?thesis
  proof (cases "ss_pcs s t")
    case StIdle
    show ?thesis
    proof (cases cmd)
      case (CmdPush n)
      then have s': "s' = do_push s t n PuRead" and o: "ss_owner s n = Some t"
        and r: "smr \<longrightarrow> list_all (\<lambda>u. \<not> holds_ref (ss_pcs s u) n) [0..<N]" using st StIdle by (auto split: if_splits)
      have "stack_inv N pops (s\<lparr>ss_pcs := (ss_pcs s)(t := StPush n PuRead)\<rparr>) L"
        by (rule stack_inv_goto [OF I t]) (use o refs [OF r] in \<open>auto\<close>)
      from stack_inv_do_push [OF this _ t] show ?thesis unfolding s' do_push_start [of s] by simp
    next
      case CmdPop
      then have s': "s' = do_pop s t PoRead" and pops using st StIdle by (auto split: if_splits)
      have "stack_inv N pops (s\<lparr>ss_pcs := (ss_pcs s)(t := StPop PoRead)\<rparr>) L"
        by (rule stack_inv_goto [OF I t]) (use \<open>pops\<close> in \<open>auto\<close>)
      from stack_inv_do_pop [OF this _ t] show ?thesis unfolding s' do_pop_start [of s] by simp
    next
      case CmdPopAll
      then show ?thesis using st StIdle t stack_inv_do_popall [OF I] by auto
    next
      case (CmdWrite n v)
      then show ?thesis using st StIdle t stack_inv_write [OF I, of n t v] by (auto split: if_splits)
    qed (use st StIdle t in \<open>auto\<close>)
  next
    case (StPush n pc)
    then show ?thesis using st t stack_inv_do_push [OF I StPush t] by (auto split: stack_cmd.splits)
  next
    case (StPop pc)
    then show ?thesis using st t stack_inv_do_pop [OF I StPop t] by (auto split: stack_cmd.splits)
  qed
qed

lemma stack_inv_start: "stack_inv N pops (stack_start own m) []"
  by (rule stack_invI) (auto simp: stack_start_def quack_init_def vatomic_simps)

interpretation stack_sc: inv_system "stack_step N True pops" "stack_start own m" "\<lambda>s. \<exists>L. stack_inv N pops s L" for N pops own m
  by unfold_locales (use stack_inv_start stack_inv_step in \<open>fast+\<close>)

interpretation quack_sc: inv_system "stack_step N smr False" "stack_start own m"
  "\<lambda>s. (\<exists>L. stack_inv N False s L)" for N smr own m
  by unfold_locales (use stack_inv_start stack_inv_step in \<open>fast+\<close>)

lemma stack_reach_inv:
  assumes "smr \<or> \<not> pops" and "reach (stack_step N smr pops) (stack_start own m) s"
  shows "\<exists>L. stack_inv N pops s L"
  using assms stack_sc.reach_inv [of N pops own m s] quack_sc.reach_inv [of N smr own m s] by (cases smr; cases pops) auto

section \<open>Results\<close>

text \<open>C16. The Treiber stack of \<open>xbo_stack.h\<close> and the quack are linearizable stacks: whatever the threads do (pushes, pops, removals of all nodes, writes to nodes they own, in any interleaving of the accesses), the history of completed calls, each at the point of its compare-and-swap, exchange or read of an empty top, is one a sequential stack allows, and the memory holds the stack that history leaves. Pops need safe memory reclamation; pushes and \<open>quack_popall\<close> do not.\<close>

theorem stack_linearizable:
  assumes "smr \<or> \<not> pops" and "reach (stack_step N smr pops) (stack_start own m) s"
  shows "\<exists>L. replay (ss_hist s) [] = Some L \<and> vstack_core_visit (ss_mem s) = Some L \<and> distinct L \<and> (quack_is_empty (ss_mem s) \<longleftrightarrow> L = [])"
proof -
  obtain L where I: "stack_inv N pops s L" using stack_reach_inv [OF assms] by blast
  note c = stack_invD(1) [OF I]
  have "quack_is_empty (ss_mem s) \<longleftrightarrow> L = []" using c by (cases L) (auto simp: quack_is_empty_def vatomic_simps)
  then show ?thesis using stack_invD(2) [OF I] visit_loop_chain [OF c] chain_distinct [OF c] by (simp add: vstack_core_visit_def vatomic_simps)
qed

definition stack_example :: "(tid \<times> stack_cmd) list" where
  "stack_example = [(0, CmdPush 4), (1, CmdPush 5), (0, CmdRun), (1, CmdRun), (1, CmdRun), (0, CmdRun), (0, CmdRun), (0, CmdRun), (0, CmdRun),
     (1, CmdPop), (0, CmdPop), (0, CmdRun), (1, CmdRun), (0, CmdRun), (1, CmdRun)]"

definition stack_example_mem :: stack_mem where
  "stack_example_mem = \<lparr>st_top = Some 9, st_next = (\<lambda>_. None)\<rparr>"

lemma stack_example_runs:
  "map_option ss_hist (exec (stack_step 2 True True) stack_example (stack_start (\<lambda>n. n mod 2) stack_example_mem)) =
     Some [EvPush 5, EvPush 4, EvPop (Some 4)]"
  by code_simp

theorem stack_linearizable_witness:
  "\<exists>(s :: stack_sys) L. ss_hist s = [EvPush 5, EvPush 4, EvPop (Some 4)] \<and> replay (ss_hist s) [] = Some L \<and> vstack_core_visit (ss_mem s) = Some L"
proof -
  obtain s where e: "exec (stack_step 2 True True) stack_example (stack_start (\<lambda>n. n mod 2) stack_example_mem) = Some s"
    and h: "ss_hist s = [EvPush 5, EvPush 4, EvPop (Some 4)]"
    using stack_example_runs by (auto simp: map_option_eq_Some)
  have "True \<or> \<not> True" by simp
  from stack_linearizable [OF this exec_reach [OF e]] h show ?thesis by blast
qed

text \<open>The nodes pushed since the last removal of all nodes, oldest first.\<close>

fun pending :: "stack_event list \<Rightarrow> addr list \<Rightarrow> addr list" where
  "pending [] acc = acc"
| "pending (EvPush n # es) acc = pending es (acc @ [n])"
| "pending (EvPopAll _ # es) acc = pending es []"
| "pending (EvPop _ # es) acc = pending es acc"

fun no_pop :: "stack_event \<Rightarrow> bool" where
  "no_pop (EvPop _) \<longleftrightarrow> False"
| "no_pop _ \<longleftrightarrow> True"

lemma replay_pending: "list_all no_pop es \<Longrightarrow> replay es L = Some L' \<Longrightarrow> pending es (rev L) = rev L'"
proof (induction es arbitrary: L)
  case (Cons e es)
  show ?case
  proof (cases e)
    case (EvPush n)
    then show ?thesis using Cons.IH [of "n # L"] Cons.prems by simp
  next
    case (EvPop r)
    then show ?thesis using Cons.prems(1) by simp
  next
    case (EvPopAll xs)
    then show ?thesis using Cons.IH [of "[]"] Cons.prems by (auto split: if_splits)
  qed
qed simp

lemma do_push_no_pop: "list_all no_pop (ss_hist s) \<Longrightarrow> list_all no_pop (ss_hist (do_push s t n pc))"
  by (cases pc) (auto simp: do_push_def vatomic_simps split: if_splits prod.splits)

lemma no_pop_step:
  assumes "stack_inv N False s L" and "list_all no_pop (ss_hist s)" and "stack_step N smr False (t, cmd) s = Some s'"
  shows "list_all no_pop (ss_hist s')"
proof (cases "ss_pcs s t")
  case (StPop pc)
  then show ?thesis using stack_pop_ok(1) [OF assms(1)] by blast
qed (use assms(2,3) do_push_no_pop in \<open>auto simp: do_popall_def quack_popall_def vatomic_simps split: if_splits stack_cmd.splits\<close>)

interpretation quack_hist: inv_system "stack_step N smr False" "stack_start own m"
  "\<lambda>s. (\<exists>L. stack_inv N False s L) \<and> list_all no_pop (ss_hist s)" for N smr own m
proof (unfold_locales, goal_cases)
  case 1
  have "list_all no_pop (ss_hist (stack_start own m))" by (simp add: stack_start_def)
  then show ?case using stack_inv_start by blast
next
  case (2 s a t)
  obtain u cmd where "a = (u, cmd)" by (cases a) auto
  then show ?case using 2 stack_inv_step [of N False s _ smr u cmd t] no_pop_step [of N s _ smr u cmd t] by auto
qed

text \<open>C19. The quack is a queue: at any time while threads push and remove, \<open>quack_reverse\<close> of what \<open>quack_popall\<close> returns terminates and yields the nodes pushed since the previous removal in the order of their pushes; it relinks only these nodes and leaves the quack empty.\<close>

theorem quack_popall_reverse_fifo:
  assumes "reach (stack_step N smr False) (stack_start own mem) s" and "quack_popall (ss_mem s) = (p, m)"
  shows "\<exists>r h. quack_reverse p (st_next m) = Some (r, h) \<and> visit_loop h r = Some (pending (ss_hist s) []) \<and>
     (\<forall>a. a \<notin> set (pending (ss_hist s) []) \<longrightarrow> h a = st_next m a) \<and> quack_is_empty m"
proof -
  obtain L where I: "stack_inv N False s L" and n: "list_all no_pop (ss_hist s)" using quack_hist.reach_inv [OF assms(1)] by blast
  have P: "pending (ss_hist s) [] = rev L" using replay_pending [OF n stack_invD(2) [OF I]] by simp
  have m: "p = st_top (ss_mem s)" "st_next m = st_next (ss_mem s)" "st_top m = None"
    using assms(2) by (auto simp: quack_popall_def vatomic_simps)
  have "chain (st_next m) p L" using stack_invD(1) [OF I] m by simp
  from reverse_loop_chain [OF this, of None "[]"] obtain h r where "reverse_loop None p (st_next m) = Some (r, h)" "chain h r (rev L)"
    "\<forall>a. a \<notin> set L \<longrightarrow> h a = st_next m a" by auto
  then show ?thesis using visit_loop_chain [of h r "rev L"] m by (auto simp: P quack_reverse_def quack_is_empty_def vatomic_simps)
qed

definition quack_example :: "(tid \<times> stack_cmd) list" where
  "quack_example = [(0, CmdPush 8), (0, CmdRun), (0, CmdRun), (1, CmdPopAll), (0, CmdPush 4), (1, CmdPush 5), (0, CmdRun), (1, CmdRun), (1, CmdRun), (0, CmdRun),
     (0, CmdRun), (0, CmdRun), (0, CmdRun)]"

lemma quack_example_runs:
  "map_option ss_hist (exec (stack_step 2 False False) quack_example (stack_start (\<lambda>n. n mod 2) stack_example_mem)) =
     Some [EvPush 8, EvPopAll [8], EvPush 5, EvPush 4]"
  by code_simp

theorem quack_popall_reverse_fifo_witness:
  "\<exists>p m r h. quack_reverse p (st_next m) = Some (r, h) \<and> visit_loop h r = Some [5, 4] \<and> quack_is_empty m"
proof -
  obtain s where e: "exec (stack_step 2 False False) quack_example (stack_start (\<lambda>n. n mod 2) stack_example_mem) = Some s"
    and h: "ss_hist s = [EvPush 8, EvPopAll [8], EvPush 5, EvPush 4]"
    using quack_example_runs by (auto simp: map_option_eq_Some)
  obtain p m where q: "quack_popall (ss_mem s) = (p, m)" by fastforce
  show ?thesis using quack_popall_reverse_fifo [OF exec_reach [OF e] q] h by auto
qed

text \<open>
  Without safe memory reclamation the pop of \<open>stack_core.h\<close> has the ABA problem: thread 1 reads top 4 and its
  successor 6; thread 0 pops 4 and 6 and pushes 4 again; the compare-and-swap of thread 1 succeeds and puts 6, which
  thread 0 owns, back on the stack.
\<close>

definition aba_example :: "(tid \<times> stack_cmd) list" where
  "aba_example = [(0, CmdPush 6), (0, CmdRun), (0, CmdRun), (0, CmdPush 4), (0, CmdRun), (0, CmdRun),
     (1, CmdPop), (1, CmdRun), (0, CmdPop), (0, CmdRun), (0, CmdRun), (0, CmdPop), (0, CmdRun), (0, CmdRun),
     (0, CmdPush 4), (0, CmdRun), (0, CmdRun), (1, CmdRun)]"

text \<open>Safe memory reclamation is needed: without it the pop's compare-and-swap can succeed on a node that was removed and pushed again, and puts on top of the stack a node that another thread has popped and owns; no sequential stack has this history.\<close>

theorem stack_pop_aba:
  "\<exists>s. reach (stack_step 2 False True) (stack_start (\<lambda>n. n mod 2) stack_example_mem) s \<and>
     ss_hist s = [EvPush 6, EvPush 4, EvPop (Some 4), EvPop (Some 6), EvPush 4, EvPop (Some 4)] \<and>
     replay (ss_hist s) [] = Some [] \<and> vstack_core_visit (ss_mem s) = Some [6] \<and> ss_owner s 6 = Some 0"
proof -
  have "(case exec (stack_step 2 False True) aba_example (stack_start (\<lambda>n. n mod 2) stack_example_mem) of None \<Rightarrow> False
     | Some s \<Rightarrow> ss_hist s = [EvPush 6, EvPush 4, EvPop (Some 4), EvPop (Some 6), EvPush 4, EvPop (Some 4)] \<and>
     replay (ss_hist s) [] = Some [] \<and> vstack_core_visit (ss_mem s) = Some [6] \<and> ss_owner s 6 = Some 0)"
    by code_simp
  then show ?thesis by (auto intro: exec_reach split: option.splits)
qed

section \<open>Destruction\<close>

partial_function (option) try_pop_call :: "pop_pc \<Rightarrow> stack_mem \<Rightarrow> ((addr option \<times> bool) \<times> stack_mem) option" where
  [code]: "try_pop_call pc s = (case vstack_core_try_pop pc s of (Inl pc', s') \<Rightarrow> try_pop_call pc' s' | (Inr r, s') \<Rightarrow> Some (r, s'))"

text \<open>
  \<open>vstack_core_destroy\<close>: the handler \<open>d\<close> may free the node or write to it, so it maps the links to links; the result is
  the list of nodes handed to it and whether every assertion held.
\<close>

partial_function (option) vstack_core_destroy ::
  "(addr \<Rightarrow> (addr \<Rightarrow> addr option) \<Rightarrow> (addr \<Rightarrow> addr option)) \<Rightarrow> stack_mem \<Rightarrow> addr list \<Rightarrow> (addr list \<times> bool \<times> stack_mem) option" where
  [code]: "vstack_core_destroy d s done =
     Option.bind (try_pop_call PoRead s) (\<lambda>((node, success), s').
       if \<not> success then Some (done, False, s')
       else (case node of None \<Rightarrow> Some (done, True, s')
             | Some n \<Rightarrow> vstack_core_destroy d (s'\<lparr>st_next := d n (st_next s')\<rparr>) (done @ [n])))"

lemma try_pop_call_seq:
  "try_pop_call PoRead s = Some (case st_top s of None \<Rightarrow> ((None, True), s) | Some n \<Rightarrow> ((Some n, True), s\<lparr>st_top := st_next s n\<rparr>))"
proof (cases "st_top s")
  case None
  then show ?thesis by (subst try_pop_call.simps) (simp add: vatomic_simps)
next
  case (Some n)
  then show ?thesis
    by (subst try_pop_call.simps, simp add: vatomic_simps, subst try_pop_call.simps, simp, subst try_pop_call.simps, simp add: vatomic_simps)
qed

lemma chain_cong: "(\<And>a. a \<in> set xs \<Longrightarrow> g a = h a) \<Longrightarrow> chain g p xs = chain h p xs"
  by (induction xs arbitrary: p) auto

lemma destroy_chain:
  assumes d: "\<forall>n h a. a \<noteq> n \<longrightarrow> d n h a = h a" and "chain (st_next s) (st_top s) L"
  shows "\<exists>s'. vstack_core_destroy d s done = Some (done @ L, True, s') \<and> st_top s' = None"
  using assms(2)
proof (induction L arbitrary: s "done")
  case Nil
  then show ?case by (subst vstack_core_destroy.simps) (simp add: try_pop_call_seq)
next
  case (Cons x L)
  let ?s = "s\<lparr>st_top := st_next s x, st_next := d x (st_next s)\<rparr>"
  have x: "x \<notin> set L" "chain (st_next s) (st_next s x) L" "st_top s = Some x"
    using chain_distinct [OF Cons.prems] Cons.prems by auto
  have "chain (d x (st_next s)) (st_next s x) L" using x(1,2) d chain_cong [of L "d x (st_next s)" "st_next s"] by metis
  then have "\<exists>s'. vstack_core_destroy d ?s (done @ [x]) = Some ((done @ [x]) @ L, True, s') \<and> st_top s' = None" by (intro Cons.IH) simp
  then show ?case using x(3) by (subst vstack_core_destroy.simps) (simp add: try_pop_call_seq)
qed

text \<open>Once every thread is done, \<open>vstack_core_destroy\<close> terminates, its assertion holds, and the handler gets every node of the stack exactly once, from the top down, even when the handler frees or overwrites the node it is given.\<close>

theorem vstack_core_destroy_frees_all:
  assumes "smr \<or> \<not> pops" and "reach (stack_step N smr pops) (stack_start own m) s" and "\<forall>n h a. a \<noteq> n \<longrightarrow> d n h a = h a"
  shows "\<exists>L s'. replay (ss_hist s) [] = Some L \<and> vstack_core_destroy d (ss_mem s) [] = Some (L, True, s') \<and> quack_is_empty s'"
proof -
  obtain L where I: "stack_inv N pops s L" using stack_reach_inv [OF assms(1,2)] by blast
  from destroy_chain [OF assms(3) stack_invD(1) [OF I], of "[]"] stack_invD(2) [OF I] show ?thesis
    by (auto simp: quack_is_empty_def vatomic_simps)
qed

theorem vstack_core_destroy_frees_all_witness:
  "\<exists>(s :: stack_sys) s'. ss_hist s = [EvPush 8, EvPopAll [8], EvPush 5, EvPush 4] \<and>
     vstack_core_destroy (\<lambda>n h. h(n := Some 77)) (ss_mem s) [] = Some ([4, 5], True, s') \<and> quack_is_empty s'"
proof -
  obtain s where e: "exec (stack_step 2 False False) quack_example (stack_start (\<lambda>n. n mod 2) stack_example_mem) = Some s"
    and h: "ss_hist s = [EvPush 8, EvPopAll [8], EvPush 5, EvPush 4]"
    using quack_example_runs by (auto simp: map_option_eq_Some)
  have "False \<or> \<not> False" by simp
  from vstack_core_destroy_frees_all [OF this exec_reach [OF e], of "\<lambda>n h. h(n := Some 77)"] h show ?thesis by auto
qed

end
