(* ===== verification/Tagged_Ptr.thy ===== *)
theory Tagged_Ptr
  imports Vatomicptr
begin

text \<open>
  Pointers with a tag in the low bits: \<^verbatim>\<open>atomic/atomicptr_stamped.h\<close> (a 7-bit stamp) and
  \<^verbatim>\<open>atomic/atomicptr_markable.h\<close> (a mark). A pointer is a 64-bit word; a failing \<open>ASSERT\<close> is \<open>None\<close>. The variants of an
  operation for the weaker memory orders have the same body and are the same definition here.
\<close>

unbundle bit_operations_syntax

section \<open>Tagged references\<close>

text \<open>The contract of a tagged word: address and tag can be combined and taken apart.\<close>

locale tagged_ref =
  fixes address :: "'w \<Rightarrow> 'w" and tag :: "'w \<Rightarrow> 't" and combine :: "'w \<Rightarrow> 't \<Rightarrow> 'w" and aligned :: "'w \<Rightarrow> bool" and ok_tag :: "'t \<Rightarrow> bool"
  assumes address_combine: "aligned a \<Longrightarrow> ok_tag t \<Longrightarrow> address (combine a t) = a"
    and tag_combine: "aligned a \<Longrightarrow> ok_tag t \<Longrightarrow> tag (combine a t) = t"
    and address_aligned: "aligned (address w)"
begin

lemma combine_eq_iff: "aligned a \<Longrightarrow> ok_tag t \<Longrightarrow> aligned b \<Longrightarrow> ok_tag u \<Longrightarrow> combine a t = combine b u \<longleftrightarrow> a = b \<and> t = u"
  using address_combine tag_combine by metis

text \<open>A comparison of words compares both parts.\<close>

lemma cmpxchg_combine:
  assumes "aligned a" "ok_tag t" "aligned e" "ok_tag u"
  shows "vatomicptr_cmpxchg (combine a t) (combine e u) w = (combine a t, if a = e \<and> t = u then w else combine a t)"
  using combine_eq_iff [OF assms] by (auto simp: vatomic_simps)

end

section \<open>Stamped pointers\<close>

type_synonym vuintptr = u64

definition V_ATOMICPTR_STAMPED_STAMP_MASK :: vuintptr where
  "V_ATOMICPTR_STAMPED_STAMP_MASK = 0x7F"

definition V_ATOMICPTR_STAMPED_ADDRESS_MASK :: vuintptr where
  "V_ATOMICPTR_STAMPED_ADDRESS_MASK = NOT V_ATOMICPTR_STAMPED_STAMP_MASK"

definition V_ATOMICPTR_STAMPED_GET_ADDRESS :: "vuintptr \<Rightarrow> vuintptr" where
  "V_ATOMICPTR_STAMPED_GET_ADDRESS a = a AND V_ATOMICPTR_STAMPED_ADDRESS_MASK"

definition V_ATOMICPTR_STAMPED_GET_STAMP :: "vuintptr \<Rightarrow> u8" where
  "V_ATOMICPTR_STAMPED_GET_STAMP a = ucast (a AND V_ATOMICPTR_STAMPED_STAMP_MASK)"

definition V_ATOMICPTR_STAMPED_COMBINE_ADDRESS_STAMP :: "vuintptr \<Rightarrow> u8 \<Rightarrow> vuintptr" where
  "V_ATOMICPTR_STAMPED_COMBINE_ADDRESS_STAMP a stamp = a OR ucast (V_ATOMICPTR_STAMPED_GET_STAMP (ucast stamp))"

definition V_ATOMICPTR_STAMPED_IS_ALIGNED :: "vuintptr \<Rightarrow> bool" where
  "V_ATOMICPTR_STAMPED_IS_ALIGNED p \<longleftrightarrow> p AND V_ATOMICPTR_STAMPED_STAMP_MASK = 0"

definition vatomicptr_stamped_cmpxchg :: "vuintptr \<Rightarrow> vuintptr \<Rightarrow> u8 \<Rightarrow> vuintptr \<Rightarrow> u8 \<Rightarrow> (bool \<times> vuintptr) option" where
  "vatomicptr_stamped_cmpxchg a e_v e_stamp v stamp =
     (if V_ATOMICPTR_STAMPED_IS_ALIGNED e_v \<and> V_ATOMICPTR_STAMPED_IS_ALIGNED v then
        let exp = V_ATOMICPTR_STAMPED_COMBINE_ADDRESS_STAMP e_v e_stamp;
            val = V_ATOMICPTR_STAMPED_COMBINE_ADDRESS_STAMP v stamp;
            (old, a') = vatomicptr_cmpxchg a exp val
        in Some (old = exp, a')
      else None)"

text \<open>The two accesses of \<open>attempt_stamp\<close>: the read and the compare-and-exchange.\<close>

datatype attempt_pc = AtRead | AtCas vuintptr

fun vatomicptr_stamped_attempt_stamp :: "vuintptr \<Rightarrow> u8 \<Rightarrow> attempt_pc \<Rightarrow> vuintptr \<Rightarrow> ((attempt_pc + bool) \<times> vuintptr) option" where
  "vatomicptr_stamped_attempt_stamp e_v stamp AtRead a =
     (let old_val = vatomicptr_read a in
      if \<not> V_ATOMICPTR_STAMPED_IS_ALIGNED e_v then None
      else if V_ATOMICPTR_STAMPED_GET_ADDRESS old_val \<noteq> e_v then Some (Inr False, a)
      else Some (Inl (AtCas old_val), a))"
| "vatomicptr_stamped_attempt_stamp e_v stamp (AtCas old_val) a =
     (let new_val = V_ATOMICPTR_STAMPED_COMBINE_ADDRESS_STAMP e_v stamp;
          (ret, a') = vatomicptr_cmpxchg a old_val new_val
      in Some (Inr (ret = old_val), a'))"

definition vatomicptr_stamped_set :: "vuintptr \<Rightarrow> vuintptr \<Rightarrow> u8 \<Rightarrow> vuintptr option" where
  "vatomicptr_stamped_set a v stamp =
     (if V_ATOMICPTR_STAMPED_IS_ALIGNED v then Some (vatomicptr_write a (V_ATOMICPTR_STAMPED_COMBINE_ADDRESS_STAMP v stamp)) else None)"

definition vatomicptr_stamped_get :: "vuintptr \<Rightarrow> vuintptr \<times> u8" where
  "vatomicptr_stamped_get a = (let val = vatomicptr_read a in (V_ATOMICPTR_STAMPED_GET_ADDRESS val, V_ATOMICPTR_STAMPED_GET_STAMP val))"

definition vatomicptr_stamped_get_pointer :: "vuintptr \<Rightarrow> vuintptr" where
  "vatomicptr_stamped_get_pointer a = fst (vatomicptr_stamped_get a)"

definition vatomicptr_stamped_get_stamp :: "vuintptr \<Rightarrow> u8" where
  "vatomicptr_stamped_get_stamp a = snd (vatomicptr_stamped_get a)"

section \<open>Markable pointers\<close>

definition V_ATOMICPTR_MARKABLE_EXTRACT_ADDRESS :: vuintptr where
  "V_ATOMICPTR_MARKABLE_EXTRACT_ADDRESS = - 1 - 0x3"

definition V_ATOMICPTR_MARKABLE_EXTRACT_MARK :: vuintptr where
  "V_ATOMICPTR_MARKABLE_EXTRACT_MARK = 0x1"

definition V_ATOMICPTR_MARKABLE_GET_ADDRESS :: "vuintptr \<Rightarrow> vuintptr" where
  "V_ATOMICPTR_MARKABLE_GET_ADDRESS a = a AND V_ATOMICPTR_MARKABLE_EXTRACT_ADDRESS"

definition V_ATOMICPTR_MARKABLE_GET_MARK :: "vuintptr \<Rightarrow> bool" where
  "V_ATOMICPTR_MARKABLE_GET_MARK a \<longleftrightarrow> a AND V_ATOMICPTR_MARKABLE_EXTRACT_MARK \<noteq> 0"

definition V_ATOMICPTR_MARKABLE_COMBINE_ADDRESS_MARK :: "vuintptr \<Rightarrow> vuintptr \<Rightarrow> vuintptr" where
  "V_ATOMICPTR_MARKABLE_COMBINE_ADDRESS_MARK a m = a OR m"

definition V_ATOMICPTR_MARKABLE_IS_ALIGNED :: "vuintptr \<Rightarrow> bool" where
  "V_ATOMICPTR_MARKABLE_IS_ALIGNED p \<longleftrightarrow> p AND 0x3 = 0"

definition vatomicptr_markable_cmpxchg :: "vuintptr \<Rightarrow> vuintptr \<Rightarrow> bool \<Rightarrow> vuintptr \<Rightarrow> bool \<Rightarrow> (bool \<times> vuintptr) option" where
  "vatomicptr_markable_cmpxchg a e_v e_m v m =
     (if V_ATOMICPTR_MARKABLE_IS_ALIGNED e_v \<and> V_ATOMICPTR_MARKABLE_IS_ALIGNED v then
        let e = V_ATOMICPTR_MARKABLE_COMBINE_ADDRESS_MARK e_v (of_bool e_m);
            val = V_ATOMICPTR_MARKABLE_COMBINE_ADDRESS_MARK v (of_bool m);
            (ret, a') = vatomicptr_cmpxchg a e val
        in Some (ret = e, a')
      else None)"

fun vatomicptr_markable_attempt_mark :: "vuintptr \<Rightarrow> bool \<Rightarrow> attempt_pc \<Rightarrow> vuintptr \<Rightarrow> ((attempt_pc + bool) \<times> vuintptr) option" where
  "vatomicptr_markable_attempt_mark e_v m AtRead a =
     (let old_val = vatomicptr_read a in
      if \<not> V_ATOMICPTR_MARKABLE_IS_ALIGNED e_v then None
      else if V_ATOMICPTR_MARKABLE_GET_ADDRESS old_val \<noteq> e_v then Some (Inr False, a)
      else Some (Inl (AtCas old_val), a))"
| "vatomicptr_markable_attempt_mark e_v m (AtCas old_val) a =
     (let new_val = V_ATOMICPTR_MARKABLE_COMBINE_ADDRESS_MARK e_v (of_bool m);
          (ret, a') = vatomicptr_cmpxchg a old_val new_val
      in Some (Inr (ret = old_val), a'))"

definition vatomicptr_markable_set :: "vuintptr \<Rightarrow> vuintptr \<Rightarrow> bool \<Rightarrow> vuintptr option" where
  "vatomicptr_markable_set a v m =
     (if V_ATOMICPTR_MARKABLE_IS_ALIGNED v then Some (vatomicptr_write a (V_ATOMICPTR_MARKABLE_COMBINE_ADDRESS_MARK v (of_bool m))) else None)"

definition vatomicptr_markable_get :: "vuintptr \<Rightarrow> vuintptr \<times> bool" where
  "vatomicptr_markable_get a = (let ret = vatomicptr_read a in (V_ATOMICPTR_MARKABLE_GET_ADDRESS ret, V_ATOMICPTR_MARKABLE_GET_MARK ret))"

definition vatomicptr_markable_get_pointer :: "vuintptr \<Rightarrow> vuintptr" where
  "vatomicptr_markable_get_pointer a = fst (vatomicptr_markable_get a)"

definition vatomicptr_markable_get_mark :: "vuintptr \<Rightarrow> bool" where
  "vatomicptr_markable_get_mark a = snd (vatomicptr_markable_get a)"

section \<open>Both are tagged references\<close>

lemma mask_7: "(0x7F :: u64) = mask 7" and mask_2: "(3 :: u64) = mask 2"
  by (simp_all add: mask_eq_exp_minus_1)

lemma extract_address: "V_ATOMICPTR_MARKABLE_EXTRACT_ADDRESS = NOT (mask 2)"
  by (simp add: V_ATOMICPTR_MARKABLE_EXTRACT_ADDRESS_def not_eq_complement mask_eq_exp_minus_1)

lemmas stamped_defs = V_ATOMICPTR_STAMPED_STAMP_MASK_def V_ATOMICPTR_STAMPED_ADDRESS_MASK_def V_ATOMICPTR_STAMPED_GET_ADDRESS_def
  V_ATOMICPTR_STAMPED_GET_STAMP_def V_ATOMICPTR_STAMPED_COMBINE_ADDRESS_STAMP_def V_ATOMICPTR_STAMPED_IS_ALIGNED_def mask_7

lemmas markable_defs = extract_address V_ATOMICPTR_MARKABLE_EXTRACT_MARK_def V_ATOMICPTR_MARKABLE_GET_ADDRESS_def
  V_ATOMICPTR_MARKABLE_GET_MARK_def V_ATOMICPTR_MARKABLE_COMBINE_ADDRESS_MARK_def V_ATOMICPTR_MARKABLE_IS_ALIGNED_def mask_2

lemma aligned_bits: "(p :: u64) AND mask k = 0 \<longleftrightarrow> (\<forall>n < k. \<not> bit p n)"
  using bit_imp_le_length [of p] by (fastforce simp: bit_eq_iff bit_simps)

interpretation stamped: tagged_ref V_ATOMICPTR_STAMPED_GET_ADDRESS V_ATOMICPTR_STAMPED_GET_STAMP V_ATOMICPTR_STAMPED_COMBINE_ADDRESS_STAMP
  V_ATOMICPTR_STAMPED_IS_ALIGNED "\<lambda>s. s < 128"
proof (unfold_locales, goal_cases)
  case (1 a t)
  then show ?case by (intro bit_word_eqI) (auto simp: stamped_defs aligned_bits bit_simps)
next
  case (2 a t)
  then have "t AND mask 7 = t" by (intro less_mask_eq) simp
  then have "bit t n \<longleftrightarrow> bit t n \<and> n < 7" for n using bit_and_iff [of t "mask 7" n] bit_imp_le_length [of t n] by (auto simp: bit_simps)
  with 2 show ?case by (intro bit_word_eqI) (auto simp: stamped_defs aligned_bits bit_simps)
next
  case (3 w)
  then show ?case by (auto simp: stamped_defs aligned_bits bit_simps)
qed

lemma bit_of_bool: "bit (of_bool m :: u64) n \<longleftrightarrow> n = 0 \<and> m"
  by (simp add: bit_of_bool_iff)

lemma mark_bit: "V_ATOMICPTR_MARKABLE_GET_MARK a \<longleftrightarrow> bit a 0"
  by (simp add: V_ATOMICPTR_MARKABLE_GET_MARK_def V_ATOMICPTR_MARKABLE_EXTRACT_MARK_def bit_0 and_one_eq odd_iff_mod_2_eq_one)

interpretation markable: tagged_ref V_ATOMICPTR_MARKABLE_GET_ADDRESS V_ATOMICPTR_MARKABLE_GET_MARK "\<lambda>a m. V_ATOMICPTR_MARKABLE_COMBINE_ADDRESS_MARK a (of_bool m)"
  V_ATOMICPTR_MARKABLE_IS_ALIGNED "\<lambda>_. True"
proof (unfold_locales, goal_cases)
  case (1 a m)
  then show ?case by (intro bit_word_eqI) (auto simp: markable_defs aligned_bits bit_or_iff bit_and_iff bit_not_iff bit_mask_iff bit_of_bool)
next
  case (2 a m)
  then show ?case unfolding mark_bit by (simp add: V_ATOMICPTR_MARKABLE_COMBINE_ADDRESS_MARK_def V_ATOMICPTR_MARKABLE_IS_ALIGNED_def mask_2 aligned_bits bit_or_iff bit_of_bool)
next
  case (3 w)
  then show ?case by (auto simp: markable_defs aligned_bits bit_simps)
qed

section \<open>Operations on pairs\<close>

lemma stamp_small: "V_ATOMICPTR_STAMPED_GET_STAMP w < 128"
proof -
  have "w AND mask 7 < 2 ^ 7" by (rule and_mask_less_size) (simp add: word_size)
  then have "unat (w AND mask 7) < 128" by (simp add: word_less_nat_alt)
  then show ?thesis by (simp add: stamped_defs word_less_nat_alt unsigned_ucast_eq take_bit_nat_eq_self)
qed

lemma stamped_combine_split: "V_ATOMICPTR_STAMPED_COMBINE_ADDRESS_STAMP (V_ATOMICPTR_STAMPED_GET_ADDRESS w) (V_ATOMICPTR_STAMPED_GET_STAMP w) = w"
  by (intro bit_word_eqI) (auto simp: stamped_defs bit_simps)

lemma stamped_combine_mod: "V_ATOMICPTR_STAMPED_COMBINE_ADDRESS_STAMP a s = V_ATOMICPTR_STAMPED_COMBINE_ADDRESS_STAMP a (s mod 128)"
proof -
  have "s mod 128 = take_bit 7 s" by (simp add: take_bit_eq_mod)
  then show ?thesis by (intro bit_word_eqI) (auto simp: stamped_defs bit_simps)
qed

lemma mod_128_small: "(s :: u8) mod 128 < 128"
  by (simp add: word_less_nat_alt unat_mod)

lemma stamped_get_combine:
  "V_ATOMICPTR_STAMPED_IS_ALIGNED v \<Longrightarrow> vatomicptr_stamped_get (V_ATOMICPTR_STAMPED_COMBINE_ADDRESS_STAMP v s) = (v, s mod 128)"
  using stamped.address_combine [OF _ mod_128_small] stamped.tag_combine [OF _ mod_128_small]
  by (subst stamped_combine_mod) (simp add: vatomicptr_stamped_get_def vatomic_simps)

text \<open>C38. A stamped pointer behaves as a pair of an aligned address and a stamp modulo 128: the compare-and-exchange compares and replaces the pair, \<open>get\<close> returns what \<open>set\<close> stored, and a stamp that has gone round 128 times is accepted for the old one. The assertions hold exactly for aligned addresses.\<close>

theorem stamped_pointer_pairs:
  assumes "V_ATOMICPTR_STAMPED_IS_ALIGNED e_v" and "V_ATOMICPTR_STAMPED_IS_ALIGNED v"
  shows "\<exists>a' b. vatomicptr_stamped_cmpxchg a e_v e_stamp v stamp = Some (vatomicptr_stamped_get a = (e_v, e_stamp mod 128), a') \<and>
    vatomicptr_stamped_get a' = (if vatomicptr_stamped_get a = (e_v, e_stamp mod 128) then (v, stamp mod 128) else vatomicptr_stamped_get a) \<and>
    vatomicptr_stamped_set a v stamp = Some b \<and> vatomicptr_stamped_get b = (v, stamp mod 128) \<and>
    vatomicptr_stamped_set a v (stamp + 128) = Some b"
proof -
  let ?e = "V_ATOMICPTR_STAMPED_COMBINE_ADDRESS_STAMP e_v e_stamp"
  have e: "?e = V_ATOMICPTR_STAMPED_COMBINE_ADDRESS_STAMP e_v (e_stamp mod 128)" by (rule stamped_combine_mod)
  have "a = ?e \<longleftrightarrow> V_ATOMICPTR_STAMPED_GET_ADDRESS a = e_v \<and> V_ATOMICPTR_STAMPED_GET_STAMP a = e_stamp mod 128"
    using stamped.combine_eq_iff [OF stamped.address_aligned stamp_small assms(1) mod_128_small, of a a e_stamp]
    unfolding stamped_combine_split e by simp
  then have iff: "a = ?e \<longleftrightarrow> vatomicptr_stamped_get a = (e_v, e_stamp mod 128)" by (simp add: vatomicptr_stamped_get_def vatomic_simps)
  have "(stamp + 128) mod 128 = stamp mod 128" by (simp add: word_unat_eq_iff unat_mod unat_word_ariths mod_mod_cancel)
  then have "V_ATOMICPTR_STAMPED_COMBINE_ADDRESS_STAMP v (stamp + 128) = V_ATOMICPTR_STAMPED_COMBINE_ADDRESS_STAMP v stamp"
    using stamped_combine_mod [of v "stamp + 128"] stamped_combine_mod [of v stamp] by simp
  then show ?thesis using assms stamped_get_combine [OF assms(2)]
    by (auto simp: vatomicptr_stamped_cmpxchg_def vatomicptr_stamped_set_def Let_def vatomicptr_cmpxchg_def vatomicptr_write_def iff split: if_splits)
qed

theorem stamped_pointer_pairs_witness:
  "\<exists>a'. vatomicptr_stamped_cmpxchg 0x1283 0x1280 0x83 0x4000 4 = Some (True, a') \<and> vatomicptr_stamped_get a' = (0x4000, 4)"
proof -
  have "V_ATOMICPTR_STAMPED_IS_ALIGNED 0x1280" "V_ATOMICPTR_STAMPED_IS_ALIGNED 0x4000" by code_simp+
  moreover have "vatomicptr_stamped_get 0x1283 = (0x1280, 0x83 mod 128)" by code_simp
  moreover have "(4 :: u8) mod 128 = 4" by code_simp
  ultimately show ?thesis using stamped_pointer_pairs [of "0x1280" "0x4000" "0x1283" "0x83" 4] by auto
qed

text \<open>A word that a markable pointer may hold: bit 1 is not used.\<close>

definition markable_wf :: "vuintptr \<Rightarrow> bool" where
  "markable_wf a \<longleftrightarrow> \<not> bit a 1"

lemma markable_combine_wf: "V_ATOMICPTR_MARKABLE_IS_ALIGNED v \<Longrightarrow> markable_wf (V_ATOMICPTR_MARKABLE_COMBINE_ADDRESS_MARK v (of_bool m))"
  by (simp add: markable_wf_def V_ATOMICPTR_MARKABLE_COMBINE_ADDRESS_MARK_def V_ATOMICPTR_MARKABLE_IS_ALIGNED_def mask_2 aligned_bits bit_or_iff bit_of_bool)

lemma markable_combine_split:
  assumes "markable_wf w"
  shows "V_ATOMICPTR_MARKABLE_COMBINE_ADDRESS_MARK (V_ATOMICPTR_MARKABLE_GET_ADDRESS w) (of_bool (V_ATOMICPTR_MARKABLE_GET_MARK w)) = w"
proof (intro bit_word_eqI)
  fix n :: nat
  have "n = 0 \<or> n = 1 \<or> 2 \<le> n" by arith
  then show "bit (V_ATOMICPTR_MARKABLE_COMBINE_ADDRESS_MARK (V_ATOMICPTR_MARKABLE_GET_ADDRESS w) (of_bool (V_ATOMICPTR_MARKABLE_GET_MARK w))) n = bit w n" if "n < LENGTH(64)"
    using assms that unfolding mark_bit
    by (auto simp: V_ATOMICPTR_MARKABLE_COMBINE_ADDRESS_MARK_def V_ATOMICPTR_MARKABLE_GET_ADDRESS_def extract_address markable_wf_def bit_or_iff bit_and_iff bit_not_iff bit_mask_iff bit_of_bool)
qed

lemma markable_get_combine:
  "V_ATOMICPTR_MARKABLE_IS_ALIGNED v \<Longrightarrow> vatomicptr_markable_get (V_ATOMICPTR_MARKABLE_COMBINE_ADDRESS_MARK v (of_bool m)) = (v, m)"
  using markable.address_combine [OF _ TrueI] markable.tag_combine [OF _ TrueI] by (simp add: vatomicptr_markable_get_def vatomic_simps)

lemma markable_eq_iff:
  assumes "markable_wf a" and "V_ATOMICPTR_MARKABLE_IS_ALIGNED e"
  shows "a = V_ATOMICPTR_MARKABLE_COMBINE_ADDRESS_MARK e (of_bool m) \<longleftrightarrow> vatomicptr_markable_get a = (e, m)"
  using markable.combine_eq_iff [OF markable.address_aligned TrueI assms(2) TrueI, of a "V_ATOMICPTR_MARKABLE_GET_MARK a" m]
  by (simp add: markable_combine_split [OF assms(1)] vatomicptr_markable_get_def vatomic_simps)

text \<open>C37. Markable pointers are well typed: on a word with bit 1 clear, the operations with aligned addresses pass their assertions, leave a word with bit 1 clear, and act on the pair of address and mark; \<open>attempt_mark\<close> keeps the address and sets the mark, also when the mark changed since its read.\<close>

theorem markable_pointer_typed:
  assumes "markable_wf a" and "V_ATOMICPTR_MARKABLE_IS_ALIGNED e_v" and "V_ATOMICPTR_MARKABLE_IS_ALIGNED v"
  shows "(\<exists>a'. vatomicptr_markable_cmpxchg a e_v e_m v m = Some (vatomicptr_markable_get a = (e_v, e_m), a') \<and> markable_wf a' \<and>
      vatomicptr_markable_get a' = (if vatomicptr_markable_get a = (e_v, e_m) then (v, m) else vatomicptr_markable_get a)) \<and>
    (\<exists>a'. vatomicptr_markable_set a v m = Some a' \<and> markable_wf a' \<and> vatomicptr_markable_get a' = (v, m)) \<and>
    vatomicptr_markable_attempt_mark e_v m AtRead a =
      Some (if vatomicptr_markable_get_pointer a = e_v then Inl (AtCas a) else Inr False, a) \<and>
    (\<exists>b. vatomicptr_markable_attempt_mark e_v m (AtCas old) a = Some (Inr (a = old), b) \<and> markable_wf b \<and>
      vatomicptr_markable_get b = (if a = old then (e_v, m) else vatomicptr_markable_get a))"
  using assms markable_combine_wf [OF assms(2)] markable_combine_wf [OF assms(3)] markable_get_combine [OF assms(2)] markable_get_combine [OF assms(3)]
    markable_eq_iff [OF assms(1,2), of e_m]
  by (auto simp: vatomicptr_markable_cmpxchg_def vatomicptr_markable_set_def Let_def vatomicptr_cmpxchg_def vatomicptr_write_def vatomicptr_read_def
      vatomicptr_markable_get_pointer_def vatomicptr_markable_get_def)

theorem markable_pointer_typed_witness:
  "\<exists>a'. vatomicptr_markable_cmpxchg 0x1281 0x1280 True 0x4004 False = Some (True, a') \<and> markable_wf a' \<and> vatomicptr_markable_get a' = (0x4004, False)"
proof -
  have "V_ATOMICPTR_MARKABLE_IS_ALIGNED 0x1280" "V_ATOMICPTR_MARKABLE_IS_ALIGNED 0x4004" "markable_wf 0x1281" by code_simp+
  moreover have "vatomicptr_markable_get 0x1281 = (0x1280, True)" by code_simp
  ultimately show ?thesis using markable_pointer_typed [of "0x1281" "0x1280" "0x4004" True False] by auto
qed

end
