(* ===== verification/Exchanger.thy ===== *)
theory Exchanger
  imports Tagged_Ptr Transition
begin

text \<open>
  The lock-free exchanger (\<^verbatim>\<open>utils/exchanger.h\<close>). Its slot is one word that holds the address of an object and, in the
  two lowest bits, the state of the slot. A call is a step function: one step is one access to the slot.
\<close>

unbundle bit_operations_syntax

section \<open>Operations\<close>

definition SLOT_STATE_EMPTY :: vuintptr where "SLOT_STATE_EMPTY = 1"

definition SLOT_STATE_WAITING :: vuintptr where "SLOT_STATE_WAITING = 2"

definition SLOT_STATE_BUSY :: vuintptr where "SLOT_STATE_BUSY = 3"

definition exchanger_reset :: "vuintptr \<Rightarrow> vuintptr" where
  "exchanger_reset slot = vatomicptr_write slot SLOT_STATE_EMPTY"

definition exchanger_slot_get :: "vuintptr \<Rightarrow> vuintptr \<times> vuintptr" where
  "exchanger_slot_get slot = (let ptr = vatomicptr_read slot in (V_ATOMICPTR_MARKABLE_GET_ADDRESS ptr, ptr AND 0x3))"

definition exchanger_slot_cmpxchg :: "vuintptr \<Rightarrow> vuintptr \<Rightarrow> vuintptr \<Rightarrow> vuintptr \<Rightarrow> vuintptr \<Rightarrow> (bool \<times> vuintptr) option" where
  "exchanger_slot_cmpxchg slot expected_addr expected_state new_addr new_state =
     (if V_ATOMICPTR_MARKABLE_IS_ALIGNED expected_addr \<and> V_ATOMICPTR_MARKABLE_IS_ALIGNED new_addr then
        let exp_val = V_ATOMICPTR_MARKABLE_COMBINE_ADDRESS_MARK expected_addr expected_state;
            new_val = V_ATOMICPTR_MARKABLE_COMBINE_ADDRESS_MARK new_addr new_state;
            (old_val, slot') = vatomicptr_cmpxchg slot exp_val new_val
        in Some (exp_val = old_val, slot')
      else None)"

text \<open>
  The positions of \<open>exchanger_xchg\<close> before each access, with the value of \<open>trial\<close> where the loop still uses it; the
  result of a step: go on, return the item and \<open>*success\<close>, or a failed \<open>ASSERT\<close>.
\<close>

datatype xchg_pc = XGet u32 | XPlace vuintptr u32 | XSpin u32 | XAbort | XLate | XReset vuintptr | XTake vuintptr u32

datatype xchg_out = XGo xchg_pc | XRet vuintptr bool | XAssert

definition xchg_top :: "u32 \<Rightarrow> u32 \<Rightarrow> xchg_out" where
  "xchg_top max_trials trial = (if trial \<ge> max_trials then XRet 0 False else XGo (XGet (trial + 1)))"

definition xchg_spin :: "u32 \<Rightarrow> u32 \<Rightarrow> xchg_out" where
  "xchg_spin max_trials trial = XGo (if trial < max_trials then XSpin trial else XAbort)"

fun exchanger_xchg :: "vuintptr \<Rightarrow> u32 \<Rightarrow> xchg_pc \<Rightarrow> vuintptr \<Rightarrow> xchg_out \<times> vuintptr" where
  "exchanger_xchg my_item max_trials (XGet trial) slot =
     (let (your_item, slot_state) = exchanger_slot_get slot in
      (if slot_state = SLOT_STATE_EMPTY then XGo (XPlace your_item trial)
       else if slot_state = SLOT_STATE_WAITING then XGo (XTake your_item trial)
       else if slot_state = SLOT_STATE_BUSY then xchg_top max_trials trial
       else XAssert, slot))"
| "exchanger_xchg my_item max_trials (XPlace your_item trial) slot =
     (case exchanger_slot_cmpxchg slot your_item SLOT_STATE_EMPTY my_item SLOT_STATE_WAITING of
        None \<Rightarrow> (XAssert, slot)
      | Some (ok, slot') \<Rightarrow> (if ok then xchg_spin max_trials trial else xchg_top max_trials trial, slot'))"
| "exchanger_xchg my_item max_trials (XSpin trial) slot =
     (let (your_item, slot_state) = exchanger_slot_get slot in
      (if slot_state = SLOT_STATE_BUSY then XGo (XReset your_item) else xchg_spin max_trials (trial + 1), slot))"
| "exchanger_xchg my_item max_trials XAbort slot =
     (case exchanger_slot_cmpxchg slot my_item SLOT_STATE_WAITING 0 SLOT_STATE_EMPTY of
        None \<Rightarrow> (XAssert, slot)
      | Some (ok, slot') \<Rightarrow> (if ok then XRet 0 False else XGo XLate, slot'))"
| "exchanger_xchg my_item max_trials XLate slot =
     (let (your_item, slot_state) = exchanger_slot_get slot in
      (if slot_state = SLOT_STATE_BUSY then XGo (XReset your_item) else XAssert, slot))"
| "exchanger_xchg my_item max_trials (XReset your_item) slot = (XRet your_item True, exchanger_reset slot)"
| "exchanger_xchg my_item max_trials (XTake your_item trial) slot =
     (case exchanger_slot_cmpxchg slot your_item SLOT_STATE_WAITING my_item SLOT_STATE_BUSY of
        None \<Rightarrow> (XAssert, slot)
      | Some (ok, slot') \<Rightarrow> (if ok then XRet your_item True else xchg_top max_trials trial, slot'))"

section \<open>The slot\<close>

definition slot_word :: "vuintptr \<Rightarrow> vuintptr \<Rightarrow> vuintptr" where
  "slot_word a st = V_ATOMICPTR_MARKABLE_COMBINE_ADDRESS_MARK a st"

lemma small_bits: "(st :: u64) < 4 \<Longrightarrow> bit st n \<longleftrightarrow> bit st n \<and> n < 2"
  using less_mask_eq [of st 2] bit_and_iff [of st "mask 2" n] by (auto simp: bit_mask_iff)

interpretation xslot: tagged_ref V_ATOMICPTR_MARKABLE_GET_ADDRESS "\<lambda>w. w AND 0x3" slot_word V_ATOMICPTR_MARKABLE_IS_ALIGNED "\<lambda>st. st < 4"
proof (unfold_locales, goal_cases)
  case (1 a st)
  then show ?case using small_bits [of st]
    by (intro bit_word_eqI) (auto simp: slot_word_def markable_defs aligned_bits bit_or_iff bit_and_iff bit_not_iff bit_mask_iff)
next
  case (2 a st)
  then show ?case using small_bits [of st]
    by (intro bit_word_eqI) (auto simp: slot_word_def markable_defs aligned_bits bit_or_iff bit_and_iff bit_not_iff bit_mask_iff)
next
  case (3 w)
  then show ?case by (rule markable.address_aligned)
qed

lemmas slot_states = SLOT_STATE_EMPTY_def SLOT_STATE_WAITING_def SLOT_STATE_BUSY_def

lemma slot_empty_word: "SLOT_STATE_EMPTY = slot_word 0 SLOT_STATE_EMPTY" and aligned_0 [simp]: "V_ATOMICPTR_MARKABLE_IS_ALIGNED 0"
  by (simp_all add: slot_word_def V_ATOMICPTR_MARKABLE_COMBINE_ADDRESS_MARK_def V_ATOMICPTR_MARKABLE_IS_ALIGNED_def)

lemma slot_get_word [simp]:
  assumes "V_ATOMICPTR_MARKABLE_IS_ALIGNED a" and "st < 4"
  shows "exchanger_slot_get (slot_word a st) = (a, st)"
  using xslot.address_combine [OF assms] xslot.tag_combine [OF assms] by (simp add: exchanger_slot_get_def vatomicptr_read_def)

lemma slot_cmpxchg_word [simp]:
  assumes "V_ATOMICPTR_MARKABLE_IS_ALIGNED a" "st < 4" "V_ATOMICPTR_MARKABLE_IS_ALIGNED e" "st' < 4" "V_ATOMICPTR_MARKABLE_IS_ALIGNED n"
  shows "exchanger_slot_cmpxchg (slot_word a st) e st' n st'' =
    Some (a = e \<and> st = st', if a = e \<and> st = st' then slot_word n st'' else slot_word a st)"
  using xslot.cmpxchg_combine [OF assms(1-4), of "slot_word n st''"] xslot.combine_eq_iff [OF assms(1-4)] assms(3,5)
  by (auto simp: exchanger_slot_cmpxchg_def slot_word_def)

lemma slot_reset_word [simp]: "exchanger_reset w = slot_word 0 SLOT_STATE_EMPTY"
  by (simp add: exchanger_reset_def vatomicptr_write_def flip: slot_empty_word)

lemma states_small [simp]: "SLOT_STATE_EMPTY < 4" "SLOT_STATE_WAITING < 4" "SLOT_STATE_BUSY < 4"
  and states_distinct [simp]: "SLOT_STATE_EMPTY \<noteq> SLOT_STATE_WAITING" "SLOT_STATE_EMPTY \<noteq> SLOT_STATE_BUSY" "SLOT_STATE_WAITING \<noteq> SLOT_STATE_BUSY"
    "SLOT_STATE_WAITING \<noteq> SLOT_STATE_EMPTY" "SLOT_STATE_BUSY \<noteq> SLOT_STATE_EMPTY" "SLOT_STATE_BUSY \<noteq> SLOT_STATE_WAITING"
  by (simp_all add: slot_states)

section \<open>Every call returns\<close>

text \<open>The number of accesses a call may still make.\<close>

fun xchg_left :: "u32 \<Rightarrow> xchg_pc \<Rightarrow> nat" where
  "xchg_left m (XGet trial) = 2 * (unat m - unat trial) + 5"
| "xchg_left m (XPlace _ trial) = 2 * (unat m - unat trial) + 4"
| "xchg_left m (XTake _ trial) = 2 * (unat m - unat trial) + 4"
| "xchg_left m (XSpin trial) = unat m - unat trial + 3"
| "xchg_left m XAbort = 3" | "xchg_left m XLate = 2" | "xchg_left m (XReset _) = 1"

fun out_left :: "u32 \<Rightarrow> xchg_out \<Rightarrow> nat" where
  "out_left m (XGo pc) = xchg_left m pc" | "out_left m _ = 0"

lemma trial_Suc: "trial < m \<Longrightarrow> unat (trial + 1 :: u32) = Suc (unat trial)"
  using unsigned_less [of m, where 'a = nat] by (simp add: word_less_nat_alt unat_word_ariths)

lemma top_left: "out_left m (xchg_top m trial) \<le> 2 * (unat m - unat trial) + 3"
  using trial_Suc [of trial m] by (auto simp: xchg_top_def word_less_nat_alt word_le_nat_alt not_le)

lemma spin_left: "out_left m (xchg_spin m trial) \<le> unat m - unat trial + 3"
  by (auto simp: xchg_spin_def word_less_nat_alt)

fun spin_wf :: "u32 \<Rightarrow> xchg_pc \<Rightarrow> bool" where
  "spin_wf m (XSpin trial) \<longleftrightarrow> trial < m"
| "spin_wf m _ \<longleftrightarrow> True"

lemma xchg_left_step:
  assumes "exchanger_xchg my m pc slot = (out, slot')" and "spin_wf m pc"
  shows "out_left m out < xchg_left m pc"
proof (cases pc)
  case (XGet trial)
  then show ?thesis using assms(1) top_left [of m trial] by (auto split: prod.splits if_splits)
next
  case (XPlace your trial)
  then show ?thesis using assms(1) top_left [of m trial] spin_left [of m trial] by (auto split: prod.splits if_splits option.splits)
next
  case (XSpin trial)
  then have "unat m - unat (trial + 1) < unat m - unat trial" using assms(2) trial_Suc [of trial m] by (auto simp: word_less_nat_alt)
  then show ?thesis using assms(1) XSpin spin_left [of m "trial + 1"] by (auto split: prod.splits if_splits)
next
  case (XTake your trial)
  then show ?thesis using assms(1) top_left [of m trial] by (auto split: prod.splits if_splits option.splits)
qed (use assms(1) in \<open>auto split: prod.splits if_splits option.splits\<close>)

lemma xchg_wf_step:
  assumes "exchanger_xchg my m pc slot = (XGo pc', slot')"
  shows "spin_wf m pc'"
  using assms by (cases pc) (auto simp: xchg_top_def xchg_spin_def split: prod.splits if_splits option.splits)

section \<open>Threads at an exchanger\<close>

text \<open>
  Any number of threads call \<open>exchanger_xchg\<close> on one exchanger, with items of their choice. The history lists the
  successful exchanges with the item given and the item received: \<open>XTaken\<close> for a thread that finds another one
  waiting, \<open>XWaited\<close> for the one that waited.
\<close>

datatype xchg_state = XIdle | XCall vuintptr u32 xchg_pc | XFailed

datatype xchg_event = XTaken tid vuintptr vuintptr | XWaited tid vuintptr vuintptr

datatype xchg_cmd = XStart vuintptr u32 | XRun

record xchg_sys =
  xs_slot :: vuintptr
  xs_pcs :: "tid \<Rightarrow> xchg_state"
  xs_hist :: "xchg_event list"

fun xchg_log :: "tid \<Rightarrow> vuintptr \<Rightarrow> xchg_pc \<Rightarrow> xchg_out \<Rightarrow> xchg_event list" where
  "xchg_log t my (XReset _) (XRet item True) = [XWaited t my item]"
| "xchg_log t my _ (XRet item True) = [XTaken t my item]"
| "xchg_log t my _ _ = []"

fun xchg_next :: "vuintptr \<Rightarrow> u32 \<Rightarrow> xchg_out \<Rightarrow> xchg_state" where
  "xchg_next my m (XGo pc) = XCall my m pc"
| "xchg_next my m (XRet _ _) = XIdle"
| "xchg_next my m XAssert = XFailed"

fun xchg_step :: "tid \<times> xchg_cmd \<Rightarrow> xchg_sys \<Rightarrow> xchg_sys option" where
  "xchg_step (t, cmd) s = (case (xs_pcs s t, cmd) of
     (XIdle, XStart my m) \<Rightarrow> (if V_ATOMICPTR_MARKABLE_IS_ALIGNED my then Some (s\<lparr>xs_pcs := (xs_pcs s)(t := xchg_next my m (xchg_top m 0))\<rparr>) else None)
   | (XCall my m pc, XRun) \<Rightarrow> (let (out, slot) = exchanger_xchg my m pc (xs_slot s) in
       Some (s\<lparr>xs_slot := slot, xs_pcs := (xs_pcs s)(t := xchg_next my m out), xs_hist := xs_hist s @ xchg_log t my pc out\<rparr>))
   | _ \<Rightarrow> None)"

definition xchg_start :: "vuintptr \<Rightarrow> xchg_sys" where
  "xchg_start w = \<lparr>xs_slot = exchanger_reset w, xs_pcs = (\<lambda>_. XIdle), xs_hist = []\<rparr>"

text \<open>The specification: a thread that takes is followed by its partner, with the items swapped; \<open>pend\<close> is the exchange whose second half is missing.\<close>

fun swaps :: "(tid \<times> vuintptr \<times> vuintptr) option \<Rightarrow> xchg_event list \<Rightarrow> (tid \<times> vuintptr \<times> vuintptr) option option" where
  "swaps pend [] = Some pend"
| "swaps None (XTaken t my got # es) = swaps (Some (t, my, got)) es"
| "swaps (Some (t, my, got)) (XWaited u my' got' # es) = (if u \<noteq> t \<and> my' = got \<and> got' = my then swaps None es else None)"
| "swaps _ (_ # es) = None"

lemma swaps_append: "swaps p (es @ fs) = Option.bind (swaps p es) (\<lambda>q. swaps q fs)"
  by (induction p es rule: swaps.induct) auto

section \<open>The invariant\<close>

text \<open>The thread that has placed its item, and what it knows of the slot.\<close>

fun waits_at :: "xchg_state \<Rightarrow> bool" where
  "waits_at (XCall _ _ (XSpin _)) \<longleftrightarrow> True" | "waits_at (XCall _ _ XAbort) \<longleftrightarrow> True"
| "waits_at (XCall _ _ XLate) \<longleftrightarrow> True" | "waits_at (XCall _ _ (XReset _)) \<longleftrightarrow> True"
| "waits_at _ \<longleftrightarrow> False"

fun call_ok :: "xchg_state \<Rightarrow> bool" where
  "call_ok (XCall my m pc) \<longleftrightarrow> V_ATOMICPTR_MARKABLE_IS_ALIGNED my \<and> spin_wf m pc \<and>
     (\<forall>a tr. pc = XPlace a tr \<longrightarrow> V_ATOMICPTR_MARKABLE_IS_ALIGNED a) \<and> (\<forall>a tr. pc = XTake a tr \<longrightarrow> V_ATOMICPTR_MARKABLE_IS_ALIGNED a)"
| "call_ok XFailed \<longleftrightarrow> False" | "call_ok XIdle \<longleftrightarrow> True"

fun slot_ok :: "(tid \<times> vuintptr) option \<Rightarrow> (tid \<times> vuintptr \<times> vuintptr) option \<Rightarrow> vuintptr \<Rightarrow> (tid \<Rightarrow> xchg_state) \<Rightarrow> bool" where
  "slot_ok None p w f \<longleftrightarrow> p = None \<and> w = slot_word 0 SLOT_STATE_EMPTY"
| "slot_ok (Some (t, my)) None w f \<longleftrightarrow> w = slot_word my SLOT_STATE_WAITING \<and> (\<exists>m tr. f t = XCall my m (XSpin tr) \<or> f t = XCall my m XAbort)"
| "slot_ok (Some (t, my)) (Some (u, theirs, got)) w f \<longleftrightarrow> w = slot_word theirs SLOT_STATE_BUSY \<and> V_ATOMICPTR_MARKABLE_IS_ALIGNED theirs \<and> u \<noteq> t \<and> got = my \<and>
     (\<exists>m pc. f t = XCall my m pc \<and> waits_at (f t) \<and> (\<forall>a. pc = XReset a \<longrightarrow> a = theirs))"

text \<open>\<open>z\<close> is the thread that waits at the slot with its item.\<close>

definition xchg_inv :: "(tid \<times> vuintptr) option \<Rightarrow> xchg_sys \<Rightarrow> bool" where
  "xchg_inv z s \<longleftrightarrow> (\<forall>t. call_ok (xs_pcs s t)) \<and> (\<forall>t. waits_at (xs_pcs s t) \<longrightarrow> map_option fst z = Some t) \<and>
     (\<forall>t my. z = Some (t, my) \<longrightarrow> V_ATOMICPTR_MARKABLE_IS_ALIGNED my) \<and>
     (\<exists>p. swaps None (xs_hist s) = Some p \<and> slot_ok z p (xs_slot s) (xs_pcs s))"

lemma xchg_inv_upd:
  assumes "xchg_inv z s" and "call_ok st" and "waits_at st \<Longrightarrow> map_option fst z' = Some t"
    and "\<And>u. u \<noteq> t \<Longrightarrow> waits_at (xs_pcs s u) \<Longrightarrow> map_option fst z' = Some u" and "\<And>u my. z' = Some (u, my) \<Longrightarrow> V_ATOMICPTR_MARKABLE_IS_ALIGNED my"
    and "swaps None (xs_hist s @ es) = Some p'" and "slot_ok z' p' w ((xs_pcs s)(t := st))"
  shows "xchg_inv z' (s\<lparr>xs_slot := w, xs_pcs := (xs_pcs s)(t := st), xs_hist := xs_hist s @ es\<rparr>)"
  using assms by (auto simp: xchg_inv_def)

lemma xchg_invD:
  assumes "xchg_inv z s"
  shows "call_ok (xs_pcs s t)" "waits_at (xs_pcs s t) \<Longrightarrow> map_option fst z = Some t" "z = Some (t, my) \<Longrightarrow> V_ATOMICPTR_MARKABLE_IS_ALIGNED my"
  using assms by (auto simp: xchg_inv_def)

lemma top_next: "V_ATOMICPTR_MARKABLE_IS_ALIGNED my \<Longrightarrow> call_ok (xchg_next my m (xchg_top m tr))" "\<not> waits_at (xchg_next my m (xchg_top m tr))"
  "xchg_log t my pc (xchg_top m tr) = []"
  by (auto simp: xchg_top_def)

lemma spin_next: "V_ATOMICPTR_MARKABLE_IS_ALIGNED my \<Longrightarrow> call_ok (xchg_next my m (xchg_spin m tr))"
  "\<exists>tr'. xchg_next my m (xchg_spin m tr) = XCall my m (XSpin tr') \<or> xchg_next my m (xchg_spin m tr) = XCall my m XAbort"
  "xchg_log t my pc (xchg_spin m tr) = []" "waits_at (xchg_next my m (xchg_spin m tr))"
  by (auto simp: xchg_spin_def)

text \<open>The empty slot.\<close>

lemma xchg_inv_empty:
  assumes I: "xchg_inv None s" and p: "xs_pcs s t = XCall my m pc" and o: "exchanger_xchg my m pc (xs_slot s) = (out, slot)"
  shows "\<exists>z. xchg_inv z (s\<lparr>xs_slot := slot, xs_pcs := (xs_pcs s)(t := xchg_next my m out), xs_hist := xs_hist s @ xchg_log t my pc out\<rparr>)"
proof -
  have w: "xs_slot s = slot_word 0 SLOT_STATE_EMPTY" and h: "swaps None (xs_hist s) = Some None" using I by (auto simp: xchg_inv_def)
  have c: "call_ok (XCall my m pc)" using xchg_invD(1) [OF I, of t] p by simp
  have nw: "\<not> waits_at (xs_pcs s u)" for u using xchg_invD(2) [OF I, of u] by auto
  have same: ?thesis if "out = xchg_top m tr" "slot = xs_slot s" for tr
    by (rule exI [of _ None], rule xchg_inv_upd [OF I, where p' = None]) (use that top_next c h w nw in \<open>auto\<close>)
  show ?thesis
  proof (cases pc)
    case (XGet tr)
    then have "out = XGo (XPlace 0 tr)" "slot = xs_slot s" using o w by auto
    then show ?thesis using c h w nw by (intro exI [of _ None] xchg_inv_upd [OF I, where p' = None]) auto
  next
    case (XPlace a tr)
    show ?thesis
    proof (cases "a = 0")
      case True
      then have "out = xchg_spin m tr" "slot = slot_word my SLOT_STATE_WAITING" using o w c XPlace by auto
      then show ?thesis using c h w nw spin_next(1,2,4) [of my m tr] spin_next(3) [of t my pc m tr] XPlace
        by (intro exI [of _ "Some (t, my)"] xchg_inv_upd [OF I, where p' = None]) auto
    next
      case False
      then show ?thesis using o w c XPlace by (intro same [of tr]) auto
    qed
  next
    case (XTake a tr)
    then show ?thesis using o w c by (intro same [of tr]) auto
  qed (use nw [of t] p in auto)
qed

text \<open>A waiting item.\<close>

lemma xchg_inv_waiting:
  assumes I: "xchg_inv (Some (w, mw)) s" and h: "swaps None (xs_hist s) = Some None" and sl: "slot_ok (Some (w, mw)) None (xs_slot s) (xs_pcs s)"
    and p: "xs_pcs s t = XCall my m pc" and o: "exchanger_xchg my m pc (xs_slot s) = (out, slot)"
  shows "\<exists>z. xchg_inv z (s\<lparr>xs_slot := slot, xs_pcs := (xs_pcs s)(t := xchg_next my m out), xs_hist := xs_hist s @ xchg_log t my pc out\<rparr>)"
proof -
  have ws: "xs_slot s = slot_word mw SLOT_STATE_WAITING" using sl by simp
  have c: "call_ok (XCall my m pc)" using xchg_invD(1) [OF I, of t] p by simp
  have a: "V_ATOMICPTR_MARKABLE_IS_ALIGNED mw" using xchg_invD(3) [OF I, of w mw] by simp
  have nw: "waits_at (xs_pcs s u) \<Longrightarrow> u = w" for u using xchg_invD(2) [OF I, of u] by auto
  show ?thesis
  proof (cases "t = w")
    case True
    then have my: "my = mw" using sl p by auto
    consider (1) tr where "pc = XSpin tr" | (2) "pc = XAbort" using sl p True by auto
    then show ?thesis
    proof cases
      case (1 tr)
      then have "out = xchg_spin m (tr + 1)" "slot = xs_slot s" using o ws a by auto
      then show ?thesis using c h ws nw spin_next(1,2,4) [of my m "tr + 1"] spin_next(3) [of t my pc m "tr + 1"] True my a 1
        by (intro exI [of _ "Some (w, mw)"] xchg_inv_upd [OF I, where p' = None]) auto
    next
      case 2
      then have "out = XRet 0 False" "slot = slot_word 0 SLOT_STATE_EMPTY" using o ws a my by auto
      then show ?thesis using c h nw True 2
        by (intro exI [of _ None] xchg_inv_upd [OF I, where p' = None]) auto
    qed
  next
    case False
    then have ntw: "\<not> waits_at (XCall my m pc)" using nw [of t] p by auto
    have same: ?thesis if "out = xchg_top m tr" "slot = xs_slot s" for tr
      by (rule exI [of _ "Some (w, mw)"], rule xchg_inv_upd [OF I, where p' = None]) (use that top_next c h sl nw a False in \<open>auto\<close>)
    show ?thesis
    proof (cases pc)
      case (XGet tr)
      then have "out = XGo (XTake mw tr)" "slot = xs_slot s" using o ws a by auto
      then show ?thesis using c h sl nw a False by (intro exI [of _ "Some (w, mw)"] xchg_inv_upd [OF I, where p' = None]) auto
    next
      case (XPlace b tr)
      then show ?thesis using o ws c a by (intro same [of tr]) auto
    next
      case (XTake b tr)
      show ?thesis
      proof (cases "b = mw")
        case True
        then have "out = XRet mw True" "slot = slot_word my SLOT_STATE_BUSY" using o ws c a XTake by auto
        then show ?thesis using c h sl nw a False XTake
          by (intro exI [of _ "Some (w, mw)"] xchg_inv_upd [OF I, where p' = "Some (t, my, mw)"]) (auto simp: swaps_append)
      next
        case False
        then show ?thesis using o ws c a XTake by (intro same [of tr]) auto
      qed
    qed (use ntw in auto)
  qed
qed

text \<open>An exchange whose waiting thread has not yet returned.\<close>

lemma xchg_inv_busy:
  assumes I: "xchg_inv (Some (w, mw)) s" and h: "swaps None (xs_hist s) = Some (Some (u, th, mw))"
    and sl: "slot_ok (Some (w, mw)) (Some (u, th, mw)) (xs_slot s) (xs_pcs s)"
    and p: "xs_pcs s t = XCall my m pc" and o: "exchanger_xchg my m pc (xs_slot s) = (out, slot)"
  shows "\<exists>z. xchg_inv z (s\<lparr>xs_slot := slot, xs_pcs := (xs_pcs s)(t := xchg_next my m out), xs_hist := xs_hist s @ xchg_log t my pc out\<rparr>)"
proof -
  have ws: "xs_slot s = slot_word th SLOT_STATE_BUSY" and at: "V_ATOMICPTR_MARKABLE_IS_ALIGNED th" "u \<noteq> w" using sl by auto
  have c: "call_ok (XCall my m pc)" using xchg_invD(1) [OF I, of t] p by simp
  have a: "V_ATOMICPTR_MARKABLE_IS_ALIGNED mw" using xchg_invD(3) [OF I, of w mw] by simp
  have nw: "waits_at (xs_pcs s u) \<Longrightarrow> u = w" for u using xchg_invD(2) [OF I, of u] by auto
  show ?thesis
  proof (cases "t = w")
    case True
    then have my: "my = mw" and wt: "waits_at (XCall my m pc)" using sl p by auto
    have keep: ?thesis if "out = XGo pc'" "slot = xs_slot s" "waits_at (XCall my m pc')" "spin_wf m pc'" "\<And>b. pc' = XReset b \<Longrightarrow> b = th" for pc'
      by (rule exI [of _ "Some (w, mw)"], rule xchg_inv_upd [OF I, where p' = "Some (u, th, mw)"]) (use that c h ws nw a at True my in \<open>auto\<close>)
    show ?thesis
    proof (cases pc)
      case (XSpin tr)
      then show ?thesis using o ws at by (intro keep [of "XReset th"]) auto
    next
      case XAbort
      then show ?thesis using o ws at a my by (intro keep [of XLate]) auto
    next
      case XLate
      then show ?thesis using o ws at by (intro keep [of "XReset th"]) auto
    next
      case (XReset b)
      then have "b = th" using sl p True by auto
      then have "out = XRet th True" "slot = slot_word 0 SLOT_STATE_EMPTY" using o XReset by auto
      then show ?thesis using c h nw True at my XReset
        by (intro exI [of _ None] xchg_inv_upd [OF I, where p' = None]) (auto simp: swaps_append)
    qed (use wt in auto)
  next
    case False
    then have ntw: "\<not> waits_at (XCall my m pc)" using nw [of t] p by auto
    have same: ?thesis if "out = xchg_top m tr" "slot = xs_slot s" for tr
      by (rule exI [of _ "Some (w, mw)"], rule xchg_inv_upd [OF I, where p' = "Some (u, th, mw)"]) (use that top_next c h sl nw a False in \<open>auto\<close>)
    show ?thesis
    proof (cases pc)
      case (XGet tr)
      then show ?thesis using o ws at by (intro same [of tr]) auto
    next
      case (XPlace b tr)
      then show ?thesis using o ws c at by (intro same [of tr]) auto
    next
      case (XTake b tr)
      then show ?thesis using o ws c at by (intro same [of tr]) auto
    qed (use ntw in auto)
  qed
qed

lemma xchg_inv_step:
  assumes I: "xchg_inv z s" and st: "xchg_step (t, cmd) s = Some s'"
  shows "\<exists>z'. xchg_inv z' s'"
proof (cases "xs_pcs s t")
  case XIdle
  then obtain my m where "cmd = XStart my m" using st by (cases cmd) auto
  then have a: "V_ATOMICPTR_MARKABLE_IS_ALIGNED my" and s': "s' = s\<lparr>xs_pcs := (xs_pcs s)(t := xchg_next my m (xchg_top m 0))\<rparr>"
    using st XIdle by (auto split: if_splits)
  obtain p where p: "swaps None (xs_hist s) = Some p" "slot_ok z p (xs_slot s) (xs_pcs s)" using I by (auto simp: xchg_inv_def)
  have "slot_ok z p (xs_slot s) ((xs_pcs s)(t := xchg_next my m (xchg_top m 0)))"
    using p(2) XIdle by (cases "(z, p, xs_slot s, xs_pcs s)" rule: slot_ok.cases) auto
  moreover have "s' = s\<lparr>xs_slot := xs_slot s, xs_pcs := (xs_pcs s)(t := xchg_next my m (xchg_top m 0)), xs_hist := xs_hist s @ []\<rparr>" using s' by simp
  ultimately have "xchg_inv z s'" using xchg_inv_upd [OF I, of "xchg_next my m (xchg_top m 0)" z t "[]" p "xs_slot s"] top_next(1,2) [of my m 0] xchg_invD(2,3) [OF I] p a by simp
  then show ?thesis ..
next
  case (XCall my m pc)
  obtain out slot where o: "exchanger_xchg my m pc (xs_slot s) = (out, slot)" by fastforce
  have cmd: "cmd = XRun" using st XCall by (cases cmd) auto
  have s': "s' = s\<lparr>xs_slot := slot, xs_pcs := (xs_pcs s)(t := xchg_next my m out), xs_hist := xs_hist s @ xchg_log t my pc out\<rparr>"
    using st XCall o cmd by simp
  obtain p where p: "swaps None (xs_hist s) = Some p" "slot_ok z p (xs_slot s) (xs_pcs s)" using I by (auto simp: xchg_inv_def)
  show ?thesis
  proof (cases z)
    case None
    then show ?thesis using xchg_inv_empty [OF _ XCall o] I unfolding s' by simp
  next
    case (Some y)
    obtain w mw where z: "z = Some (w, mw)" using Some by (cases y) auto
    show ?thesis
    proof (cases p)
      case None
      then show ?thesis using xchg_inv_waiting [OF I [unfolded z] _ _ XCall o] p unfolding s' z by simp
    next
      case (Some q)
      then obtain u th where "p = Some (u, th, mw)" using p(2) z by (cases q) auto
      then show ?thesis using xchg_inv_busy [OF I [unfolded z] _ _ XCall o] p unfolding s' z by simp
    qed
  qed
next
  case XFailed
  then show ?thesis using xchg_invD(1) [OF I, of t] by simp
qed

interpretation xchg: inv_system xchg_step "xchg_start w" "\<lambda>s. \<exists>z. xchg_inv z s" for w
proof (unfold_locales, goal_cases)
  case 1
  have "xchg_inv None (xchg_start w)" by (simp add: xchg_inv_def xchg_start_def)
  then show ?case ..
next
  case (2 s a s')
  then show ?case using xchg_inv_step by (cases a) blast
qed

section \<open>Results\<close>

text \<open>C18. The exchanger swaps items between pairs of threads: under every interleaving of any number of calls, each thread that takes a waiting item is followed, before anything else is exchanged, by the return of one other thread with the two items swapped; nobody's item is lost or given to two threads. The slot always holds one of its three states (busy exactly while the second half of an exchange is missing) and no assertion fails.\<close>

theorem exchanger_swaps:
  assumes "reach xchg_step (xchg_start w) s"
  shows "\<exists>p. swaps None (xs_hist s) = Some p \<and> (\<forall>t. xs_pcs s t \<noteq> XFailed) \<and>
     snd (exchanger_slot_get (xs_slot s)) \<in> {SLOT_STATE_EMPTY, SLOT_STATE_WAITING, SLOT_STATE_BUSY} \<and>
     (snd (exchanger_slot_get (xs_slot s)) = SLOT_STATE_BUSY \<longleftrightarrow> p \<noteq> None)"
proof -
  obtain z where I: "xchg_inv z s" using xchg.reach_inv [OF assms] by blast
  obtain p where p: "swaps None (xs_hist s) = Some p" "slot_ok z p (xs_slot s) (xs_pcs s)" using I by (auto simp: xchg_inv_def)
  have "xs_pcs s t \<noteq> XFailed" for t using xchg_invD(1) [OF I, of t] by auto
  moreover have "snd (exchanger_slot_get (xs_slot s)) = (if p \<noteq> None then SLOT_STATE_BUSY else if z = None then SLOT_STATE_EMPTY else SLOT_STATE_WAITING)"
    using p(2) xchg_invD(3) [OF I] by (cases "(z, p, xs_slot s, xs_pcs s)" rule: slot_ok.cases) auto
  ultimately show ?thesis using p(1) by auto
qed

definition xchg_example :: "(tid \<times> xchg_cmd) list" where
  "xchg_example = [(0, XStart 0x40 9), (1, XStart 0 9), (0, XRun), (0, XRun), (0, XRun), (1, XRun), (1, XRun), (0, XRun), (0, XRun)]"

lemma xchg_example_runs:
  "map_option xs_hist (exec xchg_step xchg_example (xchg_start 5)) = Some [XTaken 1 0 0x40, XWaited 0 0x40 0]"
  by code_simp

theorem exchanger_swaps_witness:
  "\<exists>s. exec xchg_step xchg_example (xchg_start 5) = Some s \<and> xs_hist s = [XTaken 1 0 0x40, XWaited 0 0x40 0] \<and>
     (\<exists>p. swaps None (xs_hist s) = Some p \<and> (\<forall>t. xs_pcs s t \<noteq> XFailed))"
proof -
  obtain s where s: "exec xchg_step xchg_example (xchg_start 5) = Some s" "xs_hist s = [XTaken 1 0 0x40, XWaited 0 0x40 0]"
    using xchg_example_runs by (auto simp: map_option_eq_Some)
  with exchanger_swaps [OF exec_reach [OF s(1)]] show ?thesis by blast
qed

text \<open>The accesses a thread may still make in its current call.\<close>

fun state_left :: "xchg_state \<Rightarrow> nat" where
  "state_left (XCall my m pc) = xchg_left m pc" | "state_left _ = 0"

fun state_wf :: "xchg_state \<Rightarrow> bool" where
  "state_wf (XCall my m pc) \<longleftrightarrow> spin_wf m pc" | "state_wf _ \<longleftrightarrow> True"

lemma next_left: "state_left (xchg_next my m out) = out_left m out"
  by (cases out) auto

lemma state_left_run:
  assumes "exec xchg_step as s = Some s'" and "list_all (\<lambda>(u, cmd). u = t \<longrightarrow> cmd = XRun) as" and "state_wf (xs_pcs s t)"
  shows "length (filter (\<lambda>a. fst a = t) as) \<le> state_left (xs_pcs s t)"
  using assms
proof (induction as arbitrary: s)
  case (Cons a as)
  obtain u cmd where a: "a = (u, cmd)" by (cases a) auto
  from Cons.prems(1) obtain r where r: "xchg_step (u, cmd) s = Some r" "exec xchg_step as r = Some s'" using a by (auto split: option.splits)
  show ?case
  proof (cases "u = t")
    case False
    have "xs_pcs r t = xs_pcs s t" using r(1) False by (auto split: xchg_state.splits xchg_cmd.splits prod.splits if_splits)
    then show ?thesis using Cons.IH [OF r(2)] Cons.prems(2,3) a False by simp
  next
    case True
    then obtain my m pc where pc: "xs_pcs s t = XCall my m pc" and cmd: "cmd = XRun"
      using r(1) Cons.prems(2) a by (cases "xs_pcs s t") auto
    obtain out slot where o: "exchanger_xchg my m pc (xs_slot s) = (out, slot)" by fastforce
    then have x: "xs_pcs r t = xchg_next my m out" using r(1) pc cmd True by auto
    have "state_wf (xs_pcs r t)" unfolding x using xchg_wf_step [of my m pc "xs_slot s"] o by (cases out) auto
    then have "length (filter (\<lambda>a. fst a = t) as) \<le> out_left m out" using Cons.IH [OF r(2)] Cons.prems(2) by (simp add: x next_left)
    then show ?thesis using xchg_left_step [OF o] Cons.prems(3) pc a True by simp
  qed
qed simp

text \<open>\<open>exchanger_xchg\<close> is wait-free: whatever the other threads do, a call with \<open>max_trials\<close> trials returns after at most \<open>2 * max_trials + 3\<close> of its own accesses to the slot, and until then its next access is always possible.\<close>

theorem exchanger_wait_free:
  assumes "exec xchg_step ((t, XStart my m) # as) s = Some s'" and "list_all (\<lambda>(u, cmd). u = t \<longrightarrow> cmd = XRun) as"
  shows "length (filter (\<lambda>a. fst a = t) as) \<le> 2 * unat m + 3 \<and>
    (xs_pcs s' t \<noteq> XIdle \<and> xs_pcs s' t \<noteq> XFailed \<longrightarrow> xchg_step (t, XRun) s' \<noteq> None)"
proof -
  from assms(1) obtain r where st: "xchg_step (t, XStart my m) s = Some r" and e: "exec xchg_step as r = Some s'"
    by (auto simp del: xchg_step.simps split: option.splits)
  then have r: "xs_pcs r t = xchg_next my m (xchg_top m 0)" "exec xchg_step as r = Some s'" by (auto split: xchg_state.splits if_splits)
  have "state_wf (xs_pcs r t)" by (simp add: r(1) xchg_top_def)
  from state_left_run [OF r(2) assms(2) this] top_left [of m 0] have "length (filter (\<lambda>a. fst a = t) as) \<le> 2 * unat m + 3"
    by (simp add: r(1) next_left)
  then show ?thesis by (auto split: xchg_state.splits prod.splits)
qed

theorem exchanger_wait_free_witness:
  "length (filter (\<lambda>a. fst a = 0) (tl xchg_example)) \<le> 2 * unat (9 :: u32) + 3"
proof -
  obtain s where s: "exec xchg_step xchg_example (xchg_start 5) = Some s"
    using xchg_example_runs by (auto simp: map_option_eq_Some)
  have "xchg_example = (0, XStart 0x40 9) # tl xchg_example" by (simp add: xchg_example_def)
  then have "exec xchg_step ((0, XStart 0x40 9) # tl xchg_example) (xchg_start 5) = Some s" using s by simp
  from conjunct1 [OF exchanger_wait_free [OF this]] show ?thesis by (simp add: xchg_example_def)
qed

section \<open>What a step at the slot can do\<close>

text \<open>The item of a busy slot.\<close>

definition busy_item :: "vuintptr \<Rightarrow> vuintptr option" where
  "busy_item w = (if snd (exchanger_slot_get w) = SLOT_STATE_BUSY then Some (fst (exchanger_slot_get w)) else None)"

lemma busy_word [simp]: "V_ATOMICPTR_MARKABLE_IS_ALIGNED a \<Longrightarrow> st < 4 \<Longrightarrow> busy_item (slot_word a st) = (if st = SLOT_STATE_BUSY then Some a else None)"
  by (simp add: busy_item_def)

fun waits_pc :: "xchg_pc \<Rightarrow> bool" where
  "waits_pc (XSpin _) \<longleftrightarrow> True" | "waits_pc XAbort \<longleftrightarrow> True" | "waits_pc XLate \<longleftrightarrow> True" | "waits_pc (XReset _) \<longleftrightarrow> True" | "waits_pc _ \<longleftrightarrow> False"

lemma waits_at_pc: "waits_at (XCall my m pc) = waits_pc pc"
  by (cases pc) auto

text \<open>The three situations of the slot.\<close>

lemma xchg_inv_cases:
  assumes "xchg_inv z s"
  obtains (empty) "z = None" "xs_slot s = slot_word 0 SLOT_STATE_EMPTY"
  | (waiting) w mw m tr where "z = Some (w, mw)" "V_ATOMICPTR_MARKABLE_IS_ALIGNED mw" "xs_slot s = slot_word mw SLOT_STATE_WAITING"
      "xs_pcs s w = XCall mw m (XSpin tr) \<or> xs_pcs s w = XCall mw m XAbort"
  | (busy) w mw th m pc where "z = Some (w, mw)" "V_ATOMICPTR_MARKABLE_IS_ALIGNED mw" "V_ATOMICPTR_MARKABLE_IS_ALIGNED th" "xs_slot s = slot_word th SLOT_STATE_BUSY"
      "xs_pcs s w = XCall mw m pc" "waits_pc pc" "\<And>a. pc = XReset a \<Longrightarrow> a = th"
proof -
  obtain p where "slot_ok z p (xs_slot s) (xs_pcs s)" using assms by (auto simp: xchg_inv_def)
  then show thesis using xchg_invD(3) [OF assms] empty waiting busy
    by (cases "(z, p, xs_slot s, xs_pcs s)" rule: slot_ok.cases) (auto simp: waits_at_pc)
qed

lemma xchg_waiter: "xchg_inv z s \<Longrightarrow> xs_pcs s t = XCall my m pc \<Longrightarrow> waits_pc pc \<Longrightarrow> \<exists>mw. z = Some (t, mw)"
  using xchg_invD(2) [of z s t] by (auto simp: waits_at_pc)

lemma xchg_quiet:
  assumes I: "xchg_inv z s" and p: "xs_pcs s t = XCall my m pc" and o: "exchanger_xchg my m pc (xs_slot s) = (out, slot)" and q: "\<And>item. out \<noteq> XRet item True"
  shows "out \<noteq> XAssert" "busy_item slot = busy_item (xs_slot s)" "out = XGo pc' \<Longrightarrow> busy_item slot \<noteq> None \<Longrightarrow> waits_pc pc' = waits_pc pc"
    "out = XRet item ok \<Longrightarrow> \<not> ok \<and> item = 0 \<and> \<not> (waits_pc pc \<and> busy_item slot \<noteq> None)"
proof -
  have c: "call_ok (XCall my m pc)" using xchg_invD(1) [OF I, of t] p by simp
  note w = xchg_waiter [OF I p]
  have "out \<noteq> XAssert \<and> busy_item slot = busy_item (xs_slot s) \<and> (out = XGo pc' \<and> busy_item slot \<noteq> None \<longrightarrow> waits_pc pc' = waits_pc pc) \<and>
    (out = XRet item ok \<longrightarrow> \<not> ok \<and> item = 0 \<and> \<not> (waits_pc pc \<and> busy_item slot \<noteq> None))"
    using I
  proof (cases rule: xchg_inv_cases)
    case empty
    show ?thesis unfolding empty(2) using c o [unfolded empty(2)] q w empty(1)
      by (cases pc) (auto simp: xchg_spin_def xchg_top_def split: if_splits)
  next
    case (waiting w' mw m' tr)
    show ?thesis unfolding waiting(3) using c o [unfolded waiting(3)] q w p waiting(1,2,4)
      by (cases pc) (auto simp: xchg_spin_def xchg_top_def split: if_splits)
  next
    case (busy w' mw th m' pc'')
    show ?thesis unfolding busy(4) using c o [unfolded busy(4)] q w p busy(1,2,3,5,6,7)
      by (cases pc) (auto simp: xchg_spin_def xchg_top_def split: if_splits)
  qed
  then show "out \<noteq> XAssert" "busy_item slot = busy_item (xs_slot s)" "out = XGo pc' \<Longrightarrow> busy_item slot \<noteq> None \<Longrightarrow> waits_pc pc' = waits_pc pc"
    "out = XRet item ok \<Longrightarrow> \<not> ok \<and> item = 0 \<and> \<not> (waits_pc pc \<and> busy_item slot \<noteq> None)"
    by auto
qed

lemma xchg_met:
  assumes I: "xchg_inv z s" and p: "xs_pcs s t = XCall my m pc" and o: "exchanger_xchg my m pc (xs_slot s) = (XRet item True, slot)"
  shows "(\<exists>w m' pc' a tr. pc = XTake a tr \<and> w \<noteq> t \<and> xs_pcs s w = XCall item m' pc' \<and> waits_pc pc' \<and> busy_item (xs_slot s) = None \<and> busy_item slot = Some my \<and>
      (\<forall>u. waits_at (xs_pcs s u) \<longrightarrow> u = w)) \<or>
    (\<exists>a. pc = XReset a \<and> busy_item (xs_slot s) = Some item \<and> busy_item slot = None \<and> (\<forall>u. waits_at (xs_pcs s u) \<longrightarrow> u = t))"
proof -
  have c: "call_ok (XCall my m pc)" using xchg_invD(1) [OF I, of t] p by simp
  note w = xchg_waiter [OF I p] and u = xchg_invD(2) [OF I]
  show ?thesis using I
  proof (cases rule: xchg_inv_cases)
    case empty
    show ?thesis unfolding empty(2) using c o [unfolded empty(2)] w empty(1)
      by (cases pc) (auto simp: xchg_spin_def xchg_top_def split: if_splits)
  next
    case (waiting w' mw m' tr)
    note o' = o [unfolded waiting(3)]
    have "\<exists>a b. pc = XTake a b" using c o' w p waiting(1,2,4) by (cases pc) (auto simp: xchg_spin_def xchg_top_def split: if_splits)
    then obtain a b where pc: "pc = XTake a b" by blast
    then have i: "item = mw" "slot = slot_word my SLOT_STATE_BUSY" using c o' waiting(2) by (auto simp: xchg_top_def split: if_splits)
    obtain pc' where "xs_pcs s w' = XCall mw m' pc'" "waits_pc pc'" using waiting(4) by auto
    moreover have "w' \<noteq> t" using waiting(4) p pc by auto
    moreover have "u = w'" if "waits_at (xs_pcs s u)" for u using u [OF that] waiting(1) by simp
    ultimately show ?thesis unfolding waiting(3) using pc i c waiting(2) by auto
  next
    case (busy w' mw th m' pc'')
    show ?thesis unfolding busy(4) using c o [unfolded busy(4)] w p u busy(1,2,3,5,6,7)
      by (cases pc) (auto simp: xchg_spin_def xchg_top_def split: if_splits)
  qed
qed

end
