(* ===== verification/Elimination_Stack.thy ===== *)
theory Elimination_Stack
  imports Treiber Exchanger
begin

text \<open>
  The elimination stack (\<^verbatim>\<open>stack/elimination_stack.h\<close>, \<^verbatim>\<open>stack/internal/range_policy.h\<close>): the Treiber stack, where a thread
  whose attempt fails meets another one at an exchanger, so that a push and a pop may cancel out without touching
  the stack. The random choice of an exchanger is an argument of the steps that make it.
\<close>

section \<open>The range policy\<close>

record range_policy =
  rp_max :: u32
  rp_range :: u32
  rp_successful :: u32
  rp_failed :: u32

definition range_policy_record_init :: "u32 \<Rightarrow> range_policy" where
  "range_policy_record_init m = \<lparr>rp_max = m, rp_range = m, rp_successful = 0, rp_failed = 0\<rparr>"

definition range_policy_get_range :: "range_policy \<Rightarrow> u32" where
  "range_policy_get_range p = rp_range p"

definition range_policy_record_success :: "range_policy \<Rightarrow> range_policy" where
  "range_policy_record_success p =
     (let p = p\<lparr>rp_successful := rp_successful p + 1\<rparr> in if rp_range p < rp_max p then p\<lparr>rp_range := rp_range p + 1\<rparr> else p)"

definition range_policy_record_fail :: "range_policy \<Rightarrow> range_policy" where
  "range_policy_record_fail p =
     (let p = p\<lparr>rp_failed := rp_failed p + 1\<rparr> in if rp_range p > 0 then p\<lparr>rp_range := rp_range p - 1\<rparr> else p)"

lemma policy_fail_range: "rp_range p \<le> k \<Longrightarrow> rp_range (range_policy_record_fail p) \<le> k"
  by (auto simp: range_policy_record_fail_def Let_def word_le_nat_alt word_less_nat_alt unat_sub_if_size)

section \<open>Operations\<close>

definition VSTACK_XCHG_SLOTS_COUNT :: u32 where "VSTACK_XCHG_SLOTS_COUNT = 3"

definition VSTACK_XCHG_MAX_TRIALS :: u32 where "VSTACK_XCHG_MAX_TRIALS = 10000"

record elim_mem =
  el_core :: stack_mem
  el_slots :: "nat \<Rightarrow> vuintptr"

definition elim_stack_init :: "elim_mem \<Rightarrow> elim_mem" where
  "elim_stack_init s = s\<lparr>el_core := vstack_core_init (el_core s),
     el_slots := fold (\<lambda>i f. f(i := exchanger_reset (f i))) [0..<unat VSTACK_XCHG_SLOTS_COUNT] (el_slots s)\<rparr>"

text \<open>Node pointers as words.\<close>

definition node_word :: "addr option \<Rightarrow> vuintptr" where
  "node_word p = (case p of None \<Rightarrow> 0 | Some n \<Rightarrow> of_nat n)"

definition word_node :: "vuintptr \<Rightarrow> addr option" where
  "word_node w = (if w = 0 then None else Some (unat w))"

text \<open>A call is in an attempt on the core or at an exchanger.\<close>

datatype 'p elim_phase = ElCore 'p | ElXchg nat xchg_pc

datatype ('p, 'r) elim_out = ElGo range_policy "'p elim_phase" | ElRet 'r | ElAssert

text \<open>The part of \<open>_vstack_rendezvous\<close> before the first access of the exchange, with \<open>rnd\<close> the result of \<open>rand_fun\<close>: the slot and how the exchange starts.\<close>

definition vstack_rendezvous :: "u32 \<Rightarrow> nat \<times> xchg_out" where
  "vstack_rendezvous rnd = (unat rnd, if rnd < VSTACK_XCHG_SLOTS_COUNT then xchg_top VSTACK_XCHG_MAX_TRIALS 0 else XAssert)"

text \<open>What push and pop do with the result of the exchange.\<close>

fun push_exchanged :: "nat \<Rightarrow> range_policy \<Rightarrow> xchg_out \<Rightarrow> (push_pc, unit) elim_out" where
  "push_exchanged i pol (XGo pc) = ElGo pol (ElXchg i pc)"
| "push_exchanged i pol (XRet item success) =
     (if success then (if word_node item = None then ElRet () else ElGo pol (ElCore PuRead))
      else ElGo (range_policy_record_fail pol) (ElCore PuRead))"
| "push_exchanged i pol XAssert = ElAssert"

fun pop_exchanged :: "nat \<Rightarrow> range_policy \<Rightarrow> xchg_out \<Rightarrow> (pop_pc, addr option) elim_out" where
  "pop_exchanged i pol (XGo pc) = ElGo pol (ElXchg i pc)"
| "pop_exchanged i pol (XRet item success) =
     (if success then (if word_node item \<noteq> None then ElRet (word_node item) else ElGo pol (ElCore PoRead))
      else if word_node item \<noteq> None then ElAssert else ElGo (range_policy_record_fail pol) (ElCore PoRead))"
| "pop_exchanged i pol XAssert = ElAssert"

fun elim_push :: "u32 \<Rightarrow> addr \<Rightarrow> range_policy \<Rightarrow> push_pc elim_phase \<Rightarrow> elim_mem \<Rightarrow> (push_pc, unit) elim_out \<times> elim_mem" where
  "elim_push rnd n pol (ElCore pc) s = (case vstack_core_try_push n pc (el_core s) of
     (Inl pc', c) \<Rightarrow> (ElGo pol (ElCore pc'), s\<lparr>el_core := c\<rparr>)
   | (Inr ok, c) \<Rightarrow> (if ok then ElRet () else case vstack_rendezvous rnd of (i, out) \<Rightarrow> push_exchanged i pol out, s\<lparr>el_core := c\<rparr>))"
| "elim_push rnd n pol (ElXchg i pc) s =
     (let (out, w) = exchanger_xchg (node_word (Some n)) VSTACK_XCHG_MAX_TRIALS pc (el_slots s i)
      in (push_exchanged i pol out, s\<lparr>el_slots := (el_slots s)(i := w)\<rparr>))"

fun elim_pop :: "u32 \<Rightarrow> range_policy \<Rightarrow> pop_pc elim_phase \<Rightarrow> elim_mem \<Rightarrow> (pop_pc, addr option) elim_out \<times> elim_mem" where
  "elim_pop rnd pol (ElCore pc) s = (case vstack_core_try_pop pc (el_core s) of
     (Inl pc', c) \<Rightarrow> (ElGo pol (ElCore pc'), s\<lparr>el_core := c\<rparr>)
   | (Inr (node, success), c) \<Rightarrow> (if success then ElRet node else case vstack_rendezvous rnd of (i, out) \<Rightarrow> pop_exchanged i pol out, s\<lparr>el_core := c\<rparr>))"
| "elim_pop rnd pol (ElXchg i pc) s =
     (let (out, w) = exchanger_xchg (node_word None) VSTACK_XCHG_MAX_TRIALS pc (el_slots s i)
      in (pop_exchanged i pol out, s\<lparr>el_slots := (el_slots s)(i := w)\<rparr>))"

section \<open>Threads\<close>

text \<open>
  As in the client of the Treiber stack, under safe memory reclamation. A push and a pop that meet at an
  exchanger enter the history together, when one of them takes the item of the other. The steps carry the value
  that \<open>rand_fun\<close> returns if they call it; it is in the range asked for.
\<close>

datatype elim_pc = ElIdle | ElPush addr range_policy "push_pc elim_phase" | ElPop range_policy "pop_pc elim_phase" | ElFailed

datatype elim_cmd = ElCmdPush addr | ElCmdPop | ElCmdWrite addr "addr option" | ElCmdRun

record elim_sys =
  es_mem :: elim_mem
  es_pcs :: "tid \<Rightarrow> elim_pc"
  es_owner :: "addr \<Rightarrow> tid option"
  es_hist :: "stack_event list"

definition valid_node :: "addr \<Rightarrow> bool" where
  "valid_node n \<longleftrightarrow> 0 < n \<and> unat (of_nat n :: vuintptr) = n \<and> n mod 4 = 0"

fun elim_ref :: "elim_pc \<Rightarrow> addr \<Rightarrow> bool" where
  "elim_ref (ElPop _ (ElCore pc)) n \<longleftrightarrow> holds_ref (StPop pc) n"
| "elim_ref _ n \<longleftrightarrow> False"

text \<open>The events of a push that returns: its own, with that of the waiting pop it met.\<close>

fun push_events :: "addr \<Rightarrow> push_pc elim_phase \<Rightarrow> stack_event list" where
  "push_events n (ElCore _) = [EvPush n]"
| "push_events n (ElXchg i (XTake _ _)) = [EvPush n, EvPop (Some n)]"
| "push_events n _ = []"

fun pop_events :: "addr option \<Rightarrow> pop_pc elim_phase \<Rightarrow> stack_event list" where
  "pop_events r (ElCore _) = [EvPop r]"
| "pop_events (Some n) (ElXchg i (XTake _ _)) = [EvPush n, EvPop (Some n)]"
| "pop_events _ _ = []"

definition el_do_push :: "elim_sys \<Rightarrow> tid \<Rightarrow> u32 \<Rightarrow> addr \<Rightarrow> range_policy \<Rightarrow> push_pc elim_phase \<Rightarrow> elim_sys" where
  "el_do_push s t rnd n pol ph = (case elim_push rnd n pol ph (es_mem s) of
     (ElGo pol' ph', m) \<Rightarrow> s\<lparr>es_mem := m, es_pcs := (es_pcs s)(t := ElPush n pol' ph')\<rparr>
   | (ElRet _, m) \<Rightarrow> s\<lparr>es_mem := m, es_pcs := (es_pcs s)(t := ElIdle),
       es_owner := (if push_events n ph = [] then es_owner s else (es_owner s)(n := None)), es_hist := es_hist s @ push_events n ph\<rparr>
   | (ElAssert, m) \<Rightarrow> s\<lparr>es_mem := m, es_pcs := (es_pcs s)(t := ElFailed)\<rparr>)"

definition el_do_pop :: "elim_sys \<Rightarrow> tid \<Rightarrow> u32 \<Rightarrow> range_policy \<Rightarrow> pop_pc elim_phase \<Rightarrow> elim_sys" where
  "el_do_pop s t rnd pol ph = (case elim_pop rnd pol ph (es_mem s) of
     (ElGo pol' ph', m) \<Rightarrow> s\<lparr>es_mem := m, es_pcs := (es_pcs s)(t := ElPop pol' ph')\<rparr>
   | (ElRet r, m) \<Rightarrow> s\<lparr>es_mem := m, es_pcs := (es_pcs s)(t := ElIdle),
       es_owner := (case r of None \<Rightarrow> es_owner s | Some n \<Rightarrow> (es_owner s)(n \<mapsto> t)), es_hist := es_hist s @ pop_events r ph\<rparr>
   | (ElAssert, m) \<Rightarrow> s\<lparr>es_mem := m, es_pcs := (es_pcs s)(t := ElFailed)\<rparr>)"

definition fresh_policy :: range_policy where
  "fresh_policy = range_policy_record_init (VSTACK_XCHG_SLOTS_COUNT - 1)"

fun in_range :: "u32 \<Rightarrow> elim_pc \<Rightarrow> bool" where
  "in_range rnd (ElPush _ pol _) \<longleftrightarrow> rnd \<le> range_policy_get_range pol"
| "in_range rnd (ElPop pol _) \<longleftrightarrow> rnd \<le> range_policy_get_range pol"
| "in_range rnd _ \<longleftrightarrow> True"

fun elim_step :: "nat \<Rightarrow> tid \<times> elim_cmd \<times> u32 \<Rightarrow> elim_sys \<Rightarrow> elim_sys option" where
  "elim_step N (t, cmd, rnd) s =
     (if t < N \<and> in_range rnd (es_pcs s t) then
        (case (es_pcs s t, cmd) of
           (ElIdle, ElCmdPush n) \<Rightarrow>
             (if valid_node n \<and> es_owner s n = Some t \<and> list_all (\<lambda>u. \<not> elim_ref (es_pcs s u) n) [0..<N]
              then Some (el_do_push s t rnd n fresh_policy (ElCore PuRead)) else None)
         | (ElIdle, ElCmdPop) \<Rightarrow> Some (el_do_pop s t rnd fresh_policy (ElCore PoRead))
         | (ElIdle, ElCmdWrite n v) \<Rightarrow>
             (if es_owner s n = Some t then Some (s\<lparr>es_mem := (es_mem s)\<lparr>el_core := (el_core (es_mem s))\<lparr>st_next := (st_next (el_core (es_mem s)))(n := v)\<rparr>\<rparr>\<rparr>) else None)
         | (ElPush n pol ph, ElCmdRun) \<Rightarrow> Some (el_do_push s t rnd n pol ph)
         | (ElPop pol ph, ElCmdRun) \<Rightarrow> Some (el_do_pop s t rnd pol ph)
         | _ \<Rightarrow> None)
      else None)"

definition elim_start :: "(addr \<Rightarrow> tid) \<Rightarrow> elim_mem \<Rightarrow> elim_sys" where
  "elim_start own m = \<lparr>es_mem = elim_stack_init m, es_pcs = (\<lambda>_. ElIdle), es_owner = (\<lambda>n. Some (own n)), es_hist = []\<rparr>"

section \<open>The stack it simulates\<close>

text \<open>
  A thread at an exchanger is, for the Treiber stack, about to try again; when it has been met by a thread of the other
  kind its operation is done, although it has not yet returned.
\<close>

fun abs_pc :: "(nat \<Rightarrow> vuintptr) \<Rightarrow> elim_pc \<Rightarrow> stack_pc" where
  "abs_pc f (ElPush n pol (ElCore pc)) = StPush n pc"
| "abs_pc f (ElPush n pol (ElXchg i pc)) = (if waits_pc pc \<and> busy_item (f i) = Some 0 then StIdle else StPush n PuRead)"
| "abs_pc f (ElPop pol (ElCore pc)) = StPop pc"
| "abs_pc f (ElPop pol (ElXchg i pc)) = (if waits_pc pc \<and> busy_item (f i) \<noteq> None \<and> busy_item (f i) \<noteq> Some 0 then StIdle else StPop PoRead)"
| "abs_pc f _ = StIdle"

text \<open>The exchanger \<open>i\<close> as a system of its own.\<close>

fun xview :: "nat \<Rightarrow> elim_pc \<Rightarrow> xchg_state" where
  "xview i (ElPush n pol (ElXchg j pc)) = (if i = j then XCall (node_word (Some n)) VSTACK_XCHG_MAX_TRIALS pc else XIdle)"
| "xview i (ElPop pol (ElXchg j pc)) = (if i = j then XCall (node_word None) VSTACK_XCHG_MAX_TRIALS pc else XIdle)"
| "xview i ElFailed = XFailed"
| "xview i _ = XIdle"

definition xproj :: "nat \<Rightarrow> elim_sys \<Rightarrow> xchg_event list \<Rightarrow> xchg_sys" where
  "xproj i c h = \<lparr>xs_slot = el_slots (es_mem c) i, xs_pcs = (\<lambda>t. xview i (es_pcs c t)), xs_hist = h\<rparr>"

definition slots_ok :: "elim_sys \<Rightarrow> bool" where
  "slots_ok c \<longleftrightarrow> (\<forall>i < 3. \<exists>h z. xchg_inv z (xproj i c h))"

fun pc_ok :: "elim_pc \<Rightarrow> bool" where
  "pc_ok (ElPush n pol ph) \<longleftrightarrow> valid_node n \<and> rp_range pol \<le> 2 \<and> (\<forall>i pc. ph = ElXchg i pc \<longrightarrow> i < 3)"
| "pc_ok (ElPop pol ph) \<longleftrightarrow> rp_range pol \<le> 2 \<and> (\<forall>i pc. ph = ElXchg i pc \<longrightarrow> i < 3)"
| "pc_ok ElFailed \<longleftrightarrow> False" | "pc_ok ElIdle \<longleftrightarrow> True"

text \<open>The node that a waiting pop has been given.\<close>

fun in_flight :: "(nat \<Rightarrow> vuintptr) \<Rightarrow> elim_pc \<Rightarrow> addr option" where
  "in_flight f (ElPop pol (ElXchg i pc)) = (if waits_pc pc then Option.bind (busy_item (f i)) word_node else None)"
| "in_flight f _ = None"

definition elim_rel :: "nat \<Rightarrow> elim_sys \<Rightarrow> stack_sys \<Rightarrow> bool" where
  "elim_rel N c a \<longleftrightarrow> ss_mem a = el_core (es_mem c) \<and> ss_hist a = es_hist c \<and> (\<forall>t. ss_pcs a t = abs_pc (el_slots (es_mem c)) (es_pcs c t)) \<and>
     (\<forall>n t. es_owner c n = Some t \<longrightarrow> ss_owner a n = Some t) \<and>
     (\<forall>t n. in_flight (el_slots (es_mem c)) (es_pcs c t) = Some n \<longrightarrow> ss_owner a n = Some t) \<and>
     slots_ok c \<and> (\<forall>t. pc_ok (es_pcs c t)) \<and> (\<exists>L. stack_inv N True a L)"

lemma elim_relD:
  assumes "elim_rel N c a"
  shows "ss_mem a = el_core (es_mem c)" "ss_hist a = es_hist c" "ss_pcs a t = abs_pc (el_slots (es_mem c)) (es_pcs c t)"
    "es_owner c n = Some t \<Longrightarrow> ss_owner a n = Some t" "in_flight (el_slots (es_mem c)) (es_pcs c t) = Some n \<Longrightarrow> ss_owner a n = Some t"
    "slots_ok c" "pc_ok (es_pcs c t)" "\<exists>L. stack_inv N True a L"
  using assms by (auto simp: elim_rel_def)

lemma valid_node_word:
  assumes "valid_node n"
  shows "V_ATOMICPTR_MARKABLE_IS_ALIGNED (node_word (Some n))" "node_word (Some n) \<noteq> 0" "word_node (node_word (Some n)) = Some n"
proof -
  have u: "unat (of_nat n :: u64) = n" using assms by (simp add: valid_node_def)
  have "n mod 4 = 0" using assms by (simp add: valid_node_def)
  then have "unat (of_nat n AND (3 :: u64)) = 0" unfolding mask_2 take_bit_eq_mask [symmetric] by (simp add: u unat_mod take_bit_eq_mod)
  then show "V_ATOMICPTR_MARKABLE_IS_ALIGNED (node_word (Some n))" by (simp add: V_ATOMICPTR_MARKABLE_IS_ALIGNED_def node_word_def unat_eq_zero)
  show "node_word (Some n) \<noteq> 0" "word_node (node_word (Some n)) = Some n"
    using u assms by (auto simp: node_word_def word_node_def valid_node_def)
qed

lemma node_word_None [simp]: "node_word None = 0" "word_node 0 = None" "w \<noteq> 0 \<Longrightarrow> word_node w = Some (unat w)"
  by (simp_all add: node_word_def word_node_def)

section \<open>The exchangers\<close>

lemma slots_ok_same:
  assumes "slots_ok c" and "el_slots (es_mem c') = el_slots (es_mem c)" and "\<And>i u. xview i (es_pcs c' u) = xview i (es_pcs c u)"
  shows "slots_ok c'"
  using assms by (simp add: slots_ok_def xproj_def)

lemma slots_ok_enter:
  assumes ok: "slots_ok c" and f: "el_slots (es_mem c') = el_slots (es_mem c)" and p: "es_pcs c' = (es_pcs c)(t := p)"
    and old: "\<And>j. xview j (es_pcs c t) = XIdle" and new: "xview i p = xchg_next my m (xchg_top m 0)" "\<And>j. j \<noteq> i \<Longrightarrow> xview j p = XIdle"
    and my: "V_ATOMICPTR_MARKABLE_IS_ALIGNED my"
  shows "slots_ok c'"
  unfolding slots_ok_def
proof (intro allI impI)
  fix j assume "j < (3 :: nat)"
  then obtain h z where I: "xchg_inv z (xproj j c h)" using ok by (auto simp: slots_ok_def)
  show "\<exists>h z. xchg_inv z (xproj j c' h)"
  proof (cases "j = i")
    case True
    have "xchg_step (t, XStart my m) (xproj i c h) = Some (xproj i c' h)" using old [of i] new(1) my f p by (auto simp: xproj_def fun_eq_iff)
    from xchg_inv_step [OF I [unfolded True] this] True show ?thesis by blast
  next
    case False
    then have "xview j (es_pcs c' u) = xview j (es_pcs c u)" for u using old [of j] new(2) p by simp
    then show ?thesis using I f by (auto simp: xproj_def)
  qed
qed

lemma slots_ok_run:
  assumes ok: "slots_ok c" and f: "el_slots (es_mem c') = (el_slots (es_mem c))(i := w)" and p: "es_pcs c' = (es_pcs c)(t := p)"
    and old: "xview i (es_pcs c t) = XCall my m pc" "\<And>j. j \<noteq> i \<Longrightarrow> xview j (es_pcs c t) = XIdle"
    and o: "exchanger_xchg my m pc (el_slots (es_mem c) i) = (out, w)"
    and new: "xview i p = xchg_next my m out" "\<And>j. j \<noteq> i \<Longrightarrow> xview j p = XIdle"
  shows "slots_ok c'"
  unfolding slots_ok_def
proof (intro allI impI)
  fix j assume "j < (3 :: nat)"
  then obtain h z where I: "xchg_inv z (xproj j c h)" using ok by (auto simp: slots_ok_def)
  show "\<exists>h z. xchg_inv z (xproj j c' h)"
  proof (cases "j = i")
    case True
    have "xchg_step (t, XRun) (xproj i c h) = Some (xproj i c' (h @ xchg_log t my pc out))" using old(1) new(1) f p o by (auto simp: xproj_def fun_eq_iff)
    from xchg_inv_step [OF I [unfolded True] this] True show ?thesis by blast
  next
    case False
    then have "xview j (es_pcs c' u) = xview j (es_pcs c u)" for u using old(2) new(2) p by simp
    then show ?thesis using I f False by (auto simp: xproj_def)
  qed
qed

lemma slots_okD:
  assumes "slots_ok c" and "i < 3"
  obtains h z where "xchg_inv z (xproj i c h)" "xs_slot (xproj i c h) = el_slots (es_mem c) i" "\<And>u. xs_pcs (xproj i c h) u = xview i (es_pcs c u)"
  using assms by (auto simp: slots_ok_def xproj_def)

lemma reach_stack_inv: "reach (stack_step N True True) a a' \<Longrightarrow> \<exists>L. stack_inv N True a L \<Longrightarrow> \<exists>L. stack_inv N True a' L"
proof (induction rule: reach.induct)
  case (reach_step s l t)
  then show ?case using stack_inv_step [of N True s _ True] by (cases l) blast
qed

section \<open>Steps on the core\<close>

lemma rendezvous_range:
  assumes "rnd \<le> rp_range pol" and "rp_range pol \<le> 2"
  shows "vstack_rendezvous rnd = (unat rnd, XGo (XGet 1))" "unat rnd < 3"
proof -
  have "rnd \<le> 2" using assms by (rule order_trans)
  then have "unat rnd \<le> 2" by (simp add: word_le_nat_alt)
  then have "rnd < 3" by (simp add: word_less_nat_alt)
  then show "vstack_rendezvous rnd = (unat rnd, XGo (XGet 1))" by (simp add: vstack_rendezvous_def VSTACK_XCHG_SLOTS_COUNT_def xchg_top_def VSTACK_XCHG_MAX_TRIALS_def)
  show "unat rnd < 3" using \<open>unat rnd \<le> 2\<close> by simp
qed

lemma top_start: "xchg_top VSTACK_XCHG_MAX_TRIALS 0 = XGo (XGet 1)"
  by (simp add: xchg_top_def VSTACK_XCHG_MAX_TRIALS_def)

text \<open>A thread that is not at an exchanger moves, and the slots stay as they are.\<close>

lemma elim_rel_core:
  assumes R: "elim_rel N c a" and A: "reach (stack_step N True True) a a'"
    and old: "\<And>j. xview j (es_pcs c t) = XIdle"
    and c': "el_slots (es_mem c') = el_slots (es_mem c)" "es_pcs c' = (es_pcs c)(t := p)"
    and a': "ss_mem a' = el_core (es_mem c')" "ss_hist a' = es_hist c'" "ss_pcs a' = (ss_pcs a)(t := abs_pc (el_slots (es_mem c)) p)"
    and own: "\<And>n u. es_owner c' n = Some u \<Longrightarrow> ss_owner a' n = Some u" "\<And>n u. u \<noteq> t \<Longrightarrow> in_flight (el_slots (es_mem c)) (es_pcs c u) = Some n \<Longrightarrow> ss_owner a' n = Some u"
    and p: "pc_ok p" "in_flight (el_slots (es_mem c)) p = None"
    and x: "(\<forall>j. xview j p = XIdle) \<or> (\<exists>i my. V_ATOMICPTR_MARKABLE_IS_ALIGNED my \<and> xview i p = XCall my VSTACK_XCHG_MAX_TRIALS (XGet 1) \<and> (\<forall>j. j \<noteq> i \<longrightarrow> xview j p = XIdle))"
  shows "elim_rel N c' a'"
proof -
  have "slots_ok c'" using x
  proof
    assume "\<forall>j. xview j p = XIdle"
    then show ?thesis using slots_ok_same [OF elim_relD(6) [OF R] c'(1)] c'(2) old by simp
  next
    assume "\<exists>i my. V_ATOMICPTR_MARKABLE_IS_ALIGNED my \<and> xview i p = XCall my VSTACK_XCHG_MAX_TRIALS (XGet 1) \<and> (\<forall>j. j \<noteq> i \<longrightarrow> xview j p = XIdle)"
    then show ?thesis using slots_ok_enter [OF elim_relD(6) [OF R] c'(1,2) old] top_start by (metis xchg_next.simps(1))
  qed
  moreover have "\<exists>L. stack_inv N True a' L" by (rule reach_stack_inv [OF A elim_relD(8) [OF R]])
  moreover have "in_flight (el_slots (es_mem c')) (es_pcs c' u) = Some n \<Longrightarrow> ss_owner a' n = Some u" for u n
    using own(2) [of u n] p(2) c' by (cases "u = t") auto
  ultimately show ?thesis using elim_relD(3,7) [OF R] a' own(1) p(1) c' unfolding elim_rel_def by auto
qed

lemma elim_core_push:
  assumes R: "elim_rel N c a" and A: "reach (stack_step N True True) a (do_push a t n pc)"
    and old: "\<And>j. xview j (es_pcs c t) = XIdle" and v: "valid_node n" and r: "rnd \<le> rp_range pol" "rp_range pol \<le> 2"
    and own: "\<And>nxt. pc = PuCas nxt \<Longrightarrow> ss_owner a n = Some t"
  shows "elim_rel N (el_do_push c t rnd n pol (ElCore pc)) (do_push a t n pc)"
proof -
  note m = elim_relD(1,2) [OF R] and o = elim_relD(4,5) [OF R] and rz = rendezvous_range [OF r]
  show ?thesis
  proof (cases pc)
    case PuRead
    then show ?thesis using m o v r(2)
      by (intro elim_rel_core [OF R A old, where p = "ElPush n pol (ElCore (PuNext (st_top (ss_mem a))))"])
        (auto simp: el_do_push_def do_push_def vatomic_simps)
  next
    case (PuNext nxt)
    then show ?thesis using m o v r(2)
      by (intro elim_rel_core [OF R A old, where p = "ElPush n pol (ElCore (PuCas nxt))"])
        (auto simp: el_do_push_def do_push_def vatomic_simps)
  next
    case (PuCas nxt)
    show ?thesis
    proof (cases "st_top (ss_mem a) = nxt")
      case True
      then show ?thesis using m o PuCas own
        by (intro elim_rel_core [OF R A old, where p = ElIdle]) (auto simp: el_do_push_def do_push_def vatomic_simps)
    next
      case False
      then show ?thesis using m o v r(2) PuCas rz valid_node_word(1) [OF v]
        by (intro elim_rel_core [OF R A old, where p = "ElPush n pol (ElXchg (unat rnd) (XGet 1))"])
          (auto simp: el_do_push_def do_push_def vatomic_simps)
    qed
  qed
qed

lemma elim_core_pop:
  assumes R: "elim_rel N c a" and A: "reach (stack_step N True True) a (do_pop a t pc)"
    and old: "\<And>j. xview j (es_pcs c t) = XIdle" and r: "rnd \<le> rp_range pol" "rp_range pol \<le> 2"
  shows "elim_rel N (el_do_pop c t rnd pol (ElCore pc)) (do_pop a t pc)"
proof -
  note m = elim_relD(1,2) [OF R] and o = elim_relD(4,5) [OF R] and rz = rendezvous_range [OF r]
  obtain L where I: "stack_inv N True a L" using elim_relD(8) [OF R] by blast
  show ?thesis
  proof (cases pc)
    case PoRead
    show ?thesis
    proof (cases "st_top (ss_mem a)")
      case None
      then show ?thesis using m o PoRead
        by (intro elim_rel_core [OF R A old, where p = ElIdle]) (auto simp: el_do_pop_def do_pop_def vstack_pop_def vatomic_simps)
    next
      case (Some tp)
      then show ?thesis using m o r(2) PoRead
        by (intro elim_rel_core [OF R A old, where p = "ElPop pol (ElCore (PoNext tp))"]) (auto simp: el_do_pop_def do_pop_def vstack_pop_def vatomic_simps)
    qed
  next
    case (PoNext tp)
    then show ?thesis using m o r(2)
      by (intro elim_rel_core [OF R A old, where p = "ElPop pol (ElCore (PoCas tp (st_next (ss_mem a) tp)))"])
        (auto simp: el_do_pop_def do_pop_def vstack_pop_def vatomic_simps)
  next
    case (PoCas tp nxt)
    show ?thesis
    proof (cases "st_top (ss_mem a) = Some tp")
      case True
      then have "ss_owner a tp = None" using stack_top_in [OF I True] stack_invD(3) [OF I] by simp
      then show ?thesis using True m o PoCas
        by (intro elim_rel_core [OF R A old, where p = ElIdle]) (auto simp: el_do_pop_def do_pop_def vstack_pop_def vatomic_simps)
    next
      case False
      then show ?thesis using m o r(2) PoCas rz
        by (intro elim_rel_core [OF R A old, where p = "ElPop pol (ElXchg (unat rnd) (XGet 1))"])
          (auto simp: el_do_pop_def do_pop_def vstack_pop_def vatomic_simps)
    qed
  qed
qed

section \<open>Steps at an exchanger\<close>

text \<open>A push and a pop that meet: one after the other on the stack, and the link of the node written back.\<close>

lemma stack_eliminate:
  assumes A: "ss_pcs a A = StPush n PuRead" and B: "ss_pcs a B = StPop PoRead" and I: "stack_inv N True a L"
  shows "reach (stack_step N True True) a
    (a\<lparr>ss_pcs := (ss_pcs a)(A := StIdle, B := StIdle), ss_owner := (ss_owner a)(n \<mapsto> B), ss_hist := ss_hist a @ [EvPush n, EvPop (Some n)]\<rparr>)"
proof -
  have lt: "A < N" "B < N" using stack_invD(5) [OF I] A B by (force simp: not_le [symmetric])+
  have ne: "A \<noteq> B" using A B by auto
  have "exec (stack_step N True True) [(A, CmdRun), (A, CmdRun), (A, CmdRun)] a =
    Some (a\<lparr>ss_mem := (ss_mem a)\<lparr>st_next := (st_next (ss_mem a))(n := st_top (ss_mem a)), st_top := Some n\<rparr>,
      ss_pcs := (ss_pcs a)(A := StIdle), ss_owner := (ss_owner a)(n := None), ss_hist := ss_hist a @ [EvPush n]\<rparr>)" (is "_ = Some ?b")
    using A lt by (simp add: do_push_def vatomic_simps)
  moreover have "exec (stack_step N True True) [(B, CmdRun), (B, CmdRun), (B, CmdRun), (B, CmdWrite n (st_next (ss_mem a) n))] ?b =
    Some (a\<lparr>ss_pcs := (ss_pcs a)(A := StIdle, B := StIdle), ss_owner := (ss_owner a)(n \<mapsto> B), ss_hist := ss_hist a @ [EvPush n, EvPop (Some n)]\<rparr>)"
    using B lt ne by (simp add: do_pop_def vstack_pop_def vatomic_simps)
  ultimately show ?thesis by (blast intro: reach_trans exec_reach)
qed

lemma elim_rel_slot:
  assumes R: "elim_rel N c a" and A: "reach (stack_step N True True) a a'"
    and old: "xview i (es_pcs c t) = XCall my VSTACK_XCHG_MAX_TRIALS pc" "\<And>j. j \<noteq> i \<Longrightarrow> xview j (es_pcs c t) = XIdle"
    and o: "exchanger_xchg my VSTACK_XCHG_MAX_TRIALS pc (el_slots (es_mem c) i) = (out, w)"
    and c': "el_slots (es_mem c') = (el_slots (es_mem c))(i := w)" "es_pcs c' = (es_pcs c)(t := p)" "el_core (es_mem c') = el_core (es_mem c)"
    and a': "ss_mem a' = ss_mem a" "ss_hist a' = es_hist c'" "\<And>u. ss_pcs a' u = abs_pc ((el_slots (es_mem c))(i := w)) (((es_pcs c)(t := p)) u)"
    and own: "\<And>n u. es_owner c' n = Some u \<Longrightarrow> ss_owner a' n = Some u"
      "\<And>n u. in_flight ((el_slots (es_mem c))(i := w)) (((es_pcs c)(t := p)) u) = Some n \<Longrightarrow> ss_owner a' n = Some u"
    and p: "pc_ok p" "xview i p = xchg_next my VSTACK_XCHG_MAX_TRIALS out" "\<And>j. j \<noteq> i \<Longrightarrow> xview j p = XIdle"
  shows "elim_rel N c' a'"
proof -
  have "slots_ok c'" by (rule slots_ok_run [OF elim_relD(6) [OF R] c'(1,2) old o p(2,3)])
  moreover have "\<exists>L. stack_inv N True a' L" by (rule reach_stack_inv [OF A elim_relD(8) [OF R]])
  ultimately show ?thesis using elim_relD(1,7) [OF R] a' own p(1) c' unfolding elim_rel_def by auto
qed

text \<open>Threads that do not wait at the slot do not notice its change, nor does anybody when the slot stays busy or not busy.\<close>

lemma view_other:
  assumes "\<not> waits_at (xview i q)"
  shows "abs_pc (f(i := w)) q = abs_pc f q" "in_flight (f(i := w)) q = in_flight f q"
  using assms by (cases "(f, q)" rule: abs_pc.cases; auto simp: waits_at_pc)+

lemma view_busy:
  assumes "busy_item w = busy_item (f i)"
  shows "abs_pc (f(i := w)) q = abs_pc f q" "in_flight (f(i := w)) q = in_flight f q"
  using assms by (cases "(f, q)" rule: abs_pc.cases; auto)+

lemma exchanged_view:
  "out \<noteq> XAssert \<Longrightarrow> push_exchanged i pol out = ElGo pol' ph \<Longrightarrow> xview j (ElPush n pol' ph) = (if j = i then xchg_next (node_word (Some n)) VSTACK_XCHG_MAX_TRIALS out else XIdle)"
  "out \<noteq> XAssert \<Longrightarrow> pop_exchanged i pol out = ElGo pol' ph' \<Longrightarrow> xview j (ElPop pol' ph') = (if j = i then xchg_next (node_word None) VSTACK_XCHG_MAX_TRIALS out else XIdle)"
  by (cases out; auto split: if_splits)+

lemma elim_push_quiet:
  assumes R: "elim_rel N c a" and p: "es_pcs c t = ElPush n pol (ElXchg i pc)"
    and o: "exchanger_xchg (node_word (Some n)) VSTACK_XCHG_MAX_TRIALS pc (el_slots (es_mem c) i) = (out, w)" and q: "\<And>item. out \<noteq> XRet item True"
  shows "elim_rel N (el_do_push c t rnd n pol (ElXchg i pc)) a"
proof -
  have ok: "valid_node n" "rp_range pol \<le> 2" "i < 3" using elim_relD(7) [OF R, of t] p by auto
  obtain h z where "xchg_inv z (xproj i c h)" "xs_slot (xproj i c h) = el_slots (es_mem c) i" "\<And>u. xs_pcs (xproj i c h) u = xview i (es_pcs c u)"
    using slots_okD [OF elim_relD(6) [OF R] ok(3)] by blast
  note x = xchg_quiet [OF this(1), of t "node_word (Some n)" VSTACK_XCHG_MAX_TRIALS pc out w, unfolded this(2,3) p, simplified, OF o q]
  have abs: "abs_pc (el_slots (es_mem c)) (ElPush n pol (ElXchg i pc)) = ss_pcs a t" using elim_relD(3) [OF R, of t] p by simp
  have "\<exists>pol' ph. push_exchanged i pol out = ElGo pol' ph \<and> rp_range pol' \<le> 2 \<and> (\<forall>j pc. ph = ElXchg j pc \<longrightarrow> j < 3) \<and>
    abs_pc (el_slots (es_mem c)) (ElPush n pol' ph) = ss_pcs a t"
  proof (cases out)
    case (XGo pc')
    then show ?thesis using x(2,3) ok abs by (cases "busy_item w") (auto split: if_splits)
  next
    case (XRet item s)
    then show ?thesis using x(2,4) ok abs policy_fail_range [OF ok(2)] by (cases "busy_item w") (auto split: if_splits)
  next
    case XAssert
    then show ?thesis using x(1) by simp
  qed
  then obtain pol' ph where e: "push_exchanged i pol out = ElGo pol' ph" "rp_range pol' \<le> 2" "\<And>j pc. ph = ElXchg j pc \<Longrightarrow> j < 3"
    "abs_pc (el_slots (es_mem c)) (ElPush n pol' ph) = ss_pcs a t" by blast
  show ?thesis
    by (rule elim_rel_slot [OF R reach.reach_init _ _ o, where p = "ElPush n pol' ph" and t = t])
      (use p e(1) o elim_relD(2,3,4,5) [OF R] view_busy [where f = "el_slots (es_mem c)" and i = i, OF x(2)] ok(1) e exchanged_view(1) [OF x(1) e(1)] in \<open>auto simp: el_do_push_def split: if_splits\<close>)
qed

lemma elim_pop_quiet:
  assumes R: "elim_rel N c a" and p: "es_pcs c t = ElPop pol (ElXchg i pc)"
    and o: "exchanger_xchg (node_word None) VSTACK_XCHG_MAX_TRIALS pc (el_slots (es_mem c) i) = (out, w)" and q: "\<And>item. out \<noteq> XRet item True"
  shows "elim_rel N (el_do_pop c t rnd pol (ElXchg i pc)) a"
proof -
  have ok: "rp_range pol \<le> 2" "i < 3" using elim_relD(7) [OF R, of t] p by auto
  obtain h z where "xchg_inv z (xproj i c h)" "xs_slot (xproj i c h) = el_slots (es_mem c) i" "\<And>u. xs_pcs (xproj i c h) u = xview i (es_pcs c u)"
    using slots_okD [OF elim_relD(6) [OF R] ok(2)] by blast
  note x = xchg_quiet [OF this(1), of t "node_word None" VSTACK_XCHG_MAX_TRIALS pc out w, unfolded this(2,3) p, simplified, OF o [simplified] q]
  have abs: "abs_pc (el_slots (es_mem c)) (ElPop pol (ElXchg i pc)) = ss_pcs a t" using elim_relD(3) [OF R, of t] p by simp
  have "\<exists>pol' ph. pop_exchanged i pol out = ElGo pol' ph \<and> rp_range pol' \<le> 2 \<and> (\<forall>j pc. ph = ElXchg j pc \<longrightarrow> j < 3) \<and>
    abs_pc (el_slots (es_mem c)) (ElPop pol' ph) = ss_pcs a t \<and> in_flight (el_slots (es_mem c)) (ElPop pol' ph) = in_flight (el_slots (es_mem c)) (ElPop pol (ElXchg i pc))"
  proof (cases out)
    case (XGo pc')
    then show ?thesis using x(2,3) ok abs by (cases "busy_item w") (auto split: if_splits)
  next
    case (XRet item s)
    then show ?thesis using x(2,4) ok abs policy_fail_range [OF ok(1)] by (cases "busy_item w") (auto split: if_splits)
  next
    case XAssert
    then show ?thesis using x(1) by simp
  qed
  then obtain pol' ph where e: "pop_exchanged i pol out = ElGo pol' ph" "rp_range pol' \<le> 2" "\<And>j pc. ph = ElXchg j pc \<Longrightarrow> j < 3"
    "abs_pc (el_slots (es_mem c)) (ElPop pol' ph) = ss_pcs a t"
    "in_flight (el_slots (es_mem c)) (ElPop pol' ph) = in_flight (el_slots (es_mem c)) (ElPop pol (ElXchg i pc))" by blast
  show ?thesis
    by (rule elim_rel_slot [OF R reach.reach_init _ _ o, where p = "ElPop pol' ph" and t = t])
      (use p e(1) o elim_relD(2,3,4,5) [OF R] view_busy [where f = "el_slots (es_mem c)" and i = i, OF x(2)] e exchanged_view(2) [OF x(1) e(1)] in \<open>auto simp: el_do_pop_def split: if_splits\<close>)
qed

text \<open>The thread that waits at the slot with an item: a push with its node or a pop with none.\<close>

lemma waiting_item:
  assumes "xview i q = XCall item m pc" and "pc_ok q"
  shows "(item = 0 \<and> (\<exists>pol. q = ElPop pol (ElXchg i pc))) \<or> (\<exists>n pol. valid_node n \<and> item = node_word (Some n) \<and> item \<noteq> 0 \<and> q = ElPush n pol (ElXchg i pc))"
  using assms valid_node_word(2) by (cases "(i, q)" rule: xview.cases) (auto split: if_splits)

lemma slot_met:
  assumes R: "elim_rel N c a" and p: "xview i (es_pcs c t) = XCall my VSTACK_XCHG_MAX_TRIALS pc" and i: "i < 3"
    and o: "exchanger_xchg my VSTACK_XCHG_MAX_TRIALS pc (el_slots (es_mem c) i) = (XRet item True, w)"
  obtains (take) u pc' b tr where "pc = XTake b tr" "u \<noteq> t" "xview i (es_pcs c u) = XCall item VSTACK_XCHG_MAX_TRIALS pc'" "waits_pc pc'"
      "busy_item (el_slots (es_mem c) i) = None" "busy_item w = Some my" "\<And>v. v \<noteq> u \<Longrightarrow> \<not> waits_at (xview i (es_pcs c v))"
  | (reset) b where "pc = XReset b" "busy_item (el_slots (es_mem c) i) = Some item" "busy_item w = None" "\<And>v. v \<noteq> t \<Longrightarrow> \<not> waits_at (xview i (es_pcs c v))"
proof -
  obtain h z where x: "xchg_inv z (xproj i c h)" "xs_slot (xproj i c h) = el_slots (es_mem c) i" "\<And>u. xs_pcs (xproj i c h) u = xview i (es_pcs c u)"
    using slots_okD [OF elim_relD(6) [OF R] i] by blast
  have "xview i q = XCall it m pc' \<Longrightarrow> m = VSTACK_XCHG_MAX_TRIALS" for q it m pc' by (cases "(i, q)" rule: xview.cases) (auto split: if_splits)
  then show thesis using xchg_met [OF x(1), unfolded x(2,3), OF p o] take reset by blast
qed

lemma elim_push_met:
  assumes R: "elim_rel N c a" and p: "es_pcs c t = ElPush n pol (ElXchg i pc)"
    and o: "exchanger_xchg (node_word (Some n)) VSTACK_XCHG_MAX_TRIALS pc (el_slots (es_mem c) i) = (XRet item True, w)"
  shows "\<exists>a'. elim_rel N (el_do_push c t rnd n pol (ElXchg i pc)) a' \<and> reach (stack_step N True True) a a'"
proof -
  have ok: "valid_node n" "rp_range pol \<le> 2" "i < 3" using elim_relD(7) [OF R, of t] p by auto
  note n = valid_node_word [OF ok(1)]
  note sl = elim_rel_slot [OF R _ _ _ o, where t = t]
  have v: "xview i (es_pcs c t) = XCall (node_word (Some n)) VSTACK_XCHG_MAX_TRIALS pc" using p by simp
  from R v ok(3) o show ?thesis
  proof (cases rule: slot_met)
    case (reset b)
    note vo = view_other [where i = i and f = "el_slots (es_mem c)", OF reset(4)]
    show ?thesis
    proof (cases "item = 0")
      case True
      then have "elim_rel N (el_do_push c t rnd n pol (ElXchg i pc)) a"
        by (intro sl [where p = ElIdle] reach.reach_init)
          (use p o reset(1-3) elim_relD(2,4,5) [OF R] elim_relD(3) [OF R] vo in \<open>auto simp: el_do_push_def split: if_splits\<close>)
      then show ?thesis by (blast intro: reach.reach_init)
    next
      case False
      then have "elim_rel N (el_do_push c t rnd n pol (ElXchg i pc)) a"
        by (intro sl [where p = "ElPush n pol (ElCore PuRead)"] reach.reach_init)
          (use p o reset(1-3) ok elim_relD(2,4,5) [OF R] elim_relD(3) [OF R] vo in \<open>auto simp: el_do_push_def split: if_splits\<close>)
      then show ?thesis by (blast intro: reach.reach_init)
    qed
  next
    case (take u pc' b tr)
    note vo = view_other [where i = i and f = "el_slots (es_mem c)", OF take(7)]
    have t: "ss_pcs a t = StPush n PuRead" using elim_relD(3) [OF R, of t] p take(1) by simp
    obtain L where I: "stack_inv N True a L" using elim_relD(8) [OF R] by blast
    from waiting_item [OF take(3) elim_relD(7) [OF R]] show ?thesis
    proof (elim disjE conjE exE)
      fix pol' assume item: "item = 0" and u: "es_pcs c u = ElPop pol' (ElXchg i pc')"
      have us: "ss_pcs a u = StPop PoRead" using elim_relD(3) [OF R, of u] u take(5) by simp
      have fl: "v = u \<and> m = n \<or> m \<noteq> n \<and> ss_owner a m = Some v" if "in_flight ((el_slots (es_mem c))(i := w)) (es_pcs c v) = Some m" for v m
      proof (cases "v = u")
        case True
        then show ?thesis using that u take(4,6) n by (auto split: if_splits)
      next
        case False
        then have "in_flight (el_slots (es_mem c)) (es_pcs c v) = Some m" using that vo(2) by simp
        from elim_relD(5) [OF R this] this stack_push_ok(1) [OF I t] p show ?thesis by auto
      qed
      have ab: "abs_pc ((el_slots (es_mem c))(i := w)) (es_pcs c v) = (if v = u then StIdle else ss_pcs a v)" for v
        using vo(1) [of v] elim_relD(3) [OF R, of v] u take(4,6) n(2) by simp
      have "elim_rel N (el_do_push c t rnd n pol (ElXchg i pc))
        (a\<lparr>ss_pcs := (ss_pcs a)(t := StIdle, u := StIdle), ss_owner := (ss_owner a)(n \<mapsto> u), ss_hist := ss_hist a @ [EvPush n, EvPop (Some n)]\<rparr>)"
        by (intro sl [where p = ElIdle] stack_eliminate [OF t us I])
          (use p o item take(1,2) n elim_relD(2,4) [OF R] in \<open>auto simp: el_do_push_def ab dest: fl split: if_splits\<close>)
      then show ?thesis using stack_eliminate [OF t us I] by blast
    next
      fix n' pol' assume item: "item \<noteq> 0" and u: "es_pcs c u = ElPush n' pol' (ElXchg i pc')"
      have ab: "abs_pc ((el_slots (es_mem c))(i := w)) (es_pcs c v) = ss_pcs a v" for v
        using vo(1) [of v] elim_relD(3) [OF R, of v] u take(4,5,6) n(2) by (cases "v = u") auto
      have fl: "ss_owner a m = Some v" if "in_flight ((el_slots (es_mem c))(i := w)) (es_pcs c v) = Some m" for v m
        using that u vo(2) elim_relD(5) [OF R, of v m] by (cases "v = u") auto
      have "elim_rel N (el_do_push c t rnd n pol (ElXchg i pc)) a"
        by (intro sl [where p = "ElPush n pol (ElCore PuRead)"] reach.reach_init)
          (use p o t item take(1) n ok elim_relD(2,4) [OF R] in \<open>auto simp: el_do_push_def ab dest: fl split: if_splits\<close>)
      then show ?thesis by (blast intro: reach.reach_init)
    qed
  qed
qed

lemma elim_pop_met:
  assumes R: "elim_rel N c a" and p: "es_pcs c t = ElPop pol (ElXchg i pc)"
    and o: "exchanger_xchg (node_word None) VSTACK_XCHG_MAX_TRIALS pc (el_slots (es_mem c) i) = (XRet item True, w)"
  shows "\<exists>a'. elim_rel N (el_do_pop c t rnd pol (ElXchg i pc)) a' \<and> reach (stack_step N True True) a a'"
proof -
  have ok: "rp_range pol \<le> 2" "i < 3" using elim_relD(7) [OF R, of t] p by auto
  note sl = elim_rel_slot [OF R _ _ _ o, where t = t]
  have v: "xview i (es_pcs c t) = XCall (node_word None) VSTACK_XCHG_MAX_TRIALS pc" using p by simp
  from R v ok(2) o show ?thesis
  proof (cases rule: slot_met)
    case (reset b)
    note vo = view_other [where i = i and f = "el_slots (es_mem c)", OF reset(4)]
    have fl: "item \<noteq> 0 \<Longrightarrow> ss_owner a (unat item) = Some t" using elim_relD(5) [OF R, of t] p reset(1,2) by simp
    show ?thesis
    proof (cases "item = 0")
      case True
      then have "elim_rel N (el_do_pop c t rnd pol (ElXchg i pc)) a"
        by (intro sl [where p = "ElPop pol (ElCore PoRead)"] reach.reach_init)
          (use p o reset(1-3) ok elim_relD(2,4,5) [OF R] elim_relD(3) [OF R] vo in \<open>auto simp: el_do_pop_def split: if_splits\<close>)
      then show ?thesis by (blast intro: reach.reach_init)
    next
      case False
      then have "elim_rel N (el_do_pop c t rnd pol (ElXchg i pc)) a"
        by (intro sl [where p = ElIdle] reach.reach_init)
          (use p o reset(1-3) elim_relD(2,4,5) [OF R] elim_relD(3) [OF R] vo fl in \<open>auto simp: el_do_pop_def split: if_splits\<close>)
      then show ?thesis by (blast intro: reach.reach_init)
    qed
  next
    case (take u pc' b tr)
    note vo = view_other [where i = i and f = "el_slots (es_mem c)", OF take(7)]
    have t: "ss_pcs a t = StPop PoRead" using elim_relD(3) [OF R, of t] p take(1) by simp
    obtain L where I: "stack_inv N True a L" using elim_relD(8) [OF R] by blast
    from waiting_item [OF take(3) elim_relD(7) [OF R]] show ?thesis
    proof (elim disjE conjE exE)
      fix pol' assume item: "item = 0" and u: "es_pcs c u = ElPop pol' (ElXchg i pc')"
      have fl: "ss_owner a m = Some v" if "in_flight ((el_slots (es_mem c))(i := w)) (es_pcs c v) = Some m" for v m
        using that u take(4,6) vo(2) elim_relD(5) [OF R, of v m] by (cases "v = u") auto
      have ab: "abs_pc ((el_slots (es_mem c))(i := w)) (es_pcs c v) = ss_pcs a v" for v
        using vo(1) [of v] elim_relD(3) [OF R, of v] u take(4,5,6) by (cases "v = u") auto
      have "elim_rel N (el_do_pop c t rnd pol (ElXchg i pc)) a"
        by (intro sl [where p = "ElPop pol (ElCore PoRead)"] reach.reach_init)
          (use p o t item take(1) ok elim_relD(2,4) [OF R] in \<open>auto simp: el_do_pop_def ab dest: fl split: if_splits\<close>)
      then show ?thesis by (blast intro: reach.reach_init)
    next
      fix n pol' assume vn: "valid_node n" and item: "item = node_word (Some n)" "item \<noteq> 0" and u: "es_pcs c u = ElPush n pol' (ElXchg i pc')"
      have us: "ss_pcs a u = StPush n PuRead" using elim_relD(3) [OF R, of u] u take(5) by simp
      have fl: "m \<noteq> n \<and> ss_owner a m = Some v" if "in_flight ((el_slots (es_mem c))(i := w)) (es_pcs c v) = Some m" for v m
      proof -
        have "v \<noteq> u" using that u by auto
        then have "in_flight (el_slots (es_mem c)) (es_pcs c v) = Some m" using that vo(2) by simp
        from elim_relD(5) [OF R this] stack_push_ok(1) [OF I us] \<open>v \<noteq> u\<close> show ?thesis by auto
      qed
      have wn: "word_node item = Some n" using valid_node_word(3) [OF vn] item(1) by simp
      have ab: "abs_pc ((el_slots (es_mem c))(i := w)) (es_pcs c v) = (if v = u then StIdle else ss_pcs a v)" for v
        using vo(1) [of v] elim_relD(3) [OF R, of v] u take(4,6) by simp
      have "elim_rel N (el_do_pop c t rnd pol (ElXchg i pc))
        (a\<lparr>ss_pcs := (ss_pcs a)(u := StIdle, t := StIdle), ss_owner := (ss_owner a)(n \<mapsto> t), ss_hist := ss_hist a @ [EvPush n, EvPop (Some n)]\<rparr>)"
        by (intro sl [where p = ElIdle] stack_eliminate [OF us t I])
          (use p o [simplified] take(1,2) wn elim_relD(2,4) [OF R] in \<open>auto simp: el_do_pop_def ab dest: fl split: if_splits\<close>)
      then show ?thesis using stack_eliminate [OF us t I] by blast
    qed
  qed
qed

section \<open>The simulation\<close>

lemma abs_ref: "holds_ref (abs_pc f q) n \<Longrightarrow> elim_ref q n"
  by (cases "(f, q)" rule: abs_pc.cases) (auto split: if_splits)

lemma elim_rel_write:
  assumes R: "elim_rel N c a" and n: "ss_owner a n = Some t" and i: "es_pcs c t = ElIdle"
  shows "elim_rel N (c\<lparr>es_mem := (es_mem c)\<lparr>el_core := (el_core (es_mem c))\<lparr>st_next := (st_next (el_core (es_mem c)))(n := v)\<rparr>\<rparr>\<rparr>)
    (a\<lparr>ss_mem := (ss_mem a)\<lparr>st_next := (st_next (ss_mem a))(n := v)\<rparr>\<rparr>)" (is "elim_rel N ?c ?a")
proof -
  obtain L where "stack_inv N True a L" using elim_relD(8) [OF R] by blast
  from stack_inv_write [OF this n] have "\<exists>L. stack_inv N True ?a L" using elim_relD(3) [OF R, of t] i by auto
  moreover have "slots_ok ?c" by (rule slots_ok_same [OF elim_relD(6) [OF R]]) auto
  ultimately show ?thesis using elim_relD(1-5,7) [OF R] unfolding elim_rel_def by auto
qed

lemma elim_rel_step:
  assumes R: "elim_rel N c a" and st: "elim_step N (t, cmd, rnd) c = Some c'"
  shows "\<exists>a'. elim_rel N c' a' \<and> reach (stack_step N True True) a a'"
proof -
  have t: "t < N" and rnd: "in_range rnd (es_pcs c t)" using st by (auto split: if_splits)
  note pcs = elim_relD(3) [OF R, of t]
  show ?thesis
  proof (cases "es_pcs c t")
    case ElIdle
    then have x: "xview j (es_pcs c t) = XIdle" for j by simp
    have fresh: "(0 :: u32) \<le> rp_range fresh_policy" "rp_range fresh_policy \<le> 2"
      by (simp_all add: fresh_policy_def range_policy_record_init_def VSTACK_XCHG_SLOTS_COUNT_def)
    show ?thesis
    proof (cases cmd)
      case (ElCmdPush n)
      then have g: "valid_node n" "es_owner c n = Some t" "list_all (\<lambda>u. \<not> elim_ref (es_pcs c u) n) [0..<N]"
        and c': "c' = el_do_push c t 0 n fresh_policy (ElCore PuRead)"
        using st ElIdle by (auto simp: el_do_push_def split: if_splits)
      have "list_all (\<lambda>u. \<not> holds_ref (ss_pcs a u) n) [0..<N]" using g(3) abs_ref elim_relD(3) [OF R] by (auto simp: list_all_iff)
      then have "stack_step N True True (t, CmdPush n) a = Some (do_push a t n PuRead)" using elim_relD(4) [OF R g(2)] pcs ElIdle t by simp
      from reach_one [of "stack_step N True True", OF this] have A: "reach (stack_step N True True) a (do_push a t n PuRead)" .
      from elim_core_push [OF R A x g(1) fresh] A c' show ?thesis by auto
    next
      case ElCmdPop
      then have c': "c' = el_do_pop c t 0 fresh_policy (ElCore PoRead)" using st ElIdle by (auto simp: el_do_pop_def split: if_splits option.splits)
      have "stack_step N True True (t, CmdPop) a = Some (do_pop a t PoRead)" using pcs ElIdle t by simp
      from reach_one [of "stack_step N True True", OF this] have A: "reach (stack_step N True True) a (do_pop a t PoRead)" .
      from elim_core_pop [OF R A x fresh] A c' show ?thesis by auto
    next
      case (ElCmdWrite n v)
      then have o: "ss_owner a n = Some t" using st ElIdle elim_relD(4) [OF R, of n t] by (auto split: if_splits)
      then have "stack_step N True True (t, CmdWrite n v) a = Some (a\<lparr>ss_mem := (ss_mem a)\<lparr>st_next := (st_next (ss_mem a))(n := v)\<rparr>\<rparr>)"
        using pcs ElIdle t by simp
      from reach_one [of "stack_step N True True", OF this] elim_rel_write [OF R o ElIdle, of v] st ElIdle ElCmdWrite show ?thesis by (auto split: if_splits)
    qed (use st ElIdle in \<open>auto split: if_splits\<close>)
  next
    case (ElPush n pol ph)
    then have c': "c' = el_do_push c t rnd n pol ph" using st by (auto split: if_splits elim_cmd.splits)
    have ok: "valid_node n" "rnd \<le> rp_range pol" "rp_range pol \<le> 2" using elim_relD(7) [OF R, of t] ElPush rnd by (auto simp: range_policy_get_range_def)
    show ?thesis
    proof (cases ph)
      case (ElCore pc)
      then have p: "ss_pcs a t = StPush n pc" using pcs ElPush by simp
      then have "stack_step N True True (t, CmdRun) a = Some (do_push a t n pc)" using t by simp
      from reach_one [of "stack_step N True True", OF this] have A: "reach (stack_step N True True) a (do_push a t n pc)" .
      have "ss_owner a n = Some t" using elim_relD(8) [OF R] stack_push_ok(1) [OF _ p] by blast
      from elim_core_push [OF R A _ ok this] ElPush ElCore A c' show ?thesis by auto
    next
      case (ElXchg i pc)
      obtain out w where o: "exchanger_xchg (node_word (Some n)) VSTACK_XCHG_MAX_TRIALS pc (el_slots (es_mem c) i) = (out, w)" by fastforce
      show ?thesis
      proof (cases "\<exists>item. out = XRet item True")
        case True
        then show ?thesis using elim_push_met [OF R] ElPush ElXchg o c' by blast
      next
        case False
        then have "elim_rel N c' a" using elim_push_quiet [OF R _ o] ElPush ElXchg c' by blast
        then show ?thesis by (blast intro: reach.reach_init)
      qed
    qed
  next
    case (ElPop pol ph)
    then have c': "c' = el_do_pop c t rnd pol ph" using st by (auto split: if_splits elim_cmd.splits)
    have ok: "rnd \<le> rp_range pol" "rp_range pol \<le> 2" using elim_relD(7) [OF R, of t] ElPop rnd by (auto simp: range_policy_get_range_def)
    show ?thesis
    proof (cases ph)
      case (ElCore pc)
      then have "stack_step N True True (t, CmdRun) a = Some (do_pop a t pc)" using pcs ElPop t by simp
      from reach_one [of "stack_step N True True", OF this] have A: "reach (stack_step N True True) a (do_pop a t pc)" .
      from elim_core_pop [OF R A _ ok] ElPop ElCore A c' show ?thesis by auto
    next
      case (ElXchg i pc)
      obtain out w where o: "exchanger_xchg (node_word None) VSTACK_XCHG_MAX_TRIALS pc (el_slots (es_mem c) i) = (out, w)" by fastforce
      show ?thesis
      proof (cases "\<exists>item. out = XRet item True")
        case True
        then show ?thesis using elim_pop_met [OF R] ElPop ElXchg o c' by blast
      next
        case False
        then have "elim_rel N c' a" using elim_pop_quiet [OF R _ o] ElPop ElXchg c' by blast
        then show ?thesis by (blast intro: reach.reach_init)
      qed
    qed
  next
    case ElFailed
    then show ?thesis using elim_relD(7) [OF R, of t] by simp
  qed
qed

lemma elim_rel_start: "elim_rel N (elim_start own m) (stack_start own (el_core m))"
proof -
  have "[0..<unat VSTACK_XCHG_SLOTS_COUNT] = [0, 1, 2]" by code_simp
  then have "el_slots (es_mem (elim_start own m)) i = slot_word 0 SLOT_STATE_EMPTY" if "i = 0 \<or> i = 1 \<or> i = 2" for i
    using that by (auto simp: elim_start_def elim_stack_init_def)
  moreover have "i = 0 \<or> i = 1 \<or> i = 2" if "i < 3" for i :: nat using that by arith
  ultimately have "el_slots (es_mem (elim_start own m)) i = slot_word 0 SLOT_STATE_EMPTY" if "i < 3" for i using that by blast
  then have "xchg_inv None (xproj i (elim_start own m) [])" if "i < 3" for i
    using that by (simp add: xchg_inv_def xproj_def) (simp add: elim_start_def)
  then have "slots_ok (elim_start own m)" by (auto simp: slots_ok_def)
  moreover have "\<exists>L. stack_inv N True (stack_start own (el_core m)) L" using stack_inv_start by blast
  ultimately show ?thesis
    by (auto simp: elim_rel_def elim_start_def stack_start_def elim_stack_init_def vstack_core_init_def quack_init_def vatomic_simps)
qed

interpretation elim: simulation "elim_step N" "elim_start own m" "stack_step N True True" "stack_start own (el_core m)" "elim_rel N" for N own m
  by unfold_locales (use elim_rel_start elim_rel_step in \<open>fast+\<close>)

section \<open>Results\<close>


definition elim_example :: "(tid \<times> elim_cmd \<times> u32) list" where
  "elim_example = [(0, ElCmdPush 8, 0), (0, ElCmdRun, 0), (2, ElCmdPush 16, 0), (2, ElCmdRun, 0), (2, ElCmdRun, 0), (0, ElCmdRun, 1),
     (1, ElCmdPop, 0), (1, ElCmdRun, 0), (2, ElCmdPush 20, 0), (2, ElCmdRun, 0), (2, ElCmdRun, 0), (1, ElCmdRun, 1),
     (0, ElCmdRun, 0), (0, ElCmdRun, 0), (1, ElCmdRun, 0), (1, ElCmdRun, 0), (0, ElCmdRun, 0), (0, ElCmdRun, 0)]"

definition elim_example_mem :: elim_mem where
  "elim_example_mem = \<lparr>el_core = stack_example_mem, el_slots = (\<lambda>_. 7)\<rparr>"

lemma elim_example_runs:
  "map_option es_hist (exec (elim_step 3) elim_example (elim_start (\<lambda>n. if n = 8 then 0 else 2) elim_example_mem)) =
     Some [EvPush 16, EvPush 20, EvPush 8, EvPop (Some 8)]"
  by code_simp


end
