(* ===== verification/Backoff.thy ===== *)
theory Backoff
  imports Vatomic Transition
begin

text \<open>
  The back-off helpers: \<^verbatim>\<open>utils/xbo.h\<close> (spinning, one object per thread) and \<^verbatim>\<open>utils/backoff.h\<close> (sleeping, one object shared
  by all threads). The random function is a parameter with its documented range; calls of the other callbacks are
  counted or recorded.
\<close>

section \<open>Operations\<close>

record xbo =
  xb_min :: u32
  xb_max :: u32
  xb_factor :: u32
  xb_value :: u32

definition xbo_init :: "u32 \<Rightarrow> u32 \<Rightarrow> u32 \<Rightarrow> xbo" where
  "xbo_init mn mx factor = \<lparr>xb_min = mn, xb_max = mx, xb_factor = factor, xb_value = mn\<rparr>"

text \<open>The loop of \<open>xbo_backoff\<close>: how often it calls \<open>nop\<close>.\<close>

function xbo_nops :: "u32 \<Rightarrow> u32 \<Rightarrow> nat" where
  "xbo_nops mx i = (if i < mx then Suc (xbo_nops mx (i + 1)) else 0)"
  by pat_completeness auto
termination
proof (relation "measure (\<lambda>(mx, i). unat mx - unat i)")
  fix mx i :: u32 assume "i < mx"
  then have "unat (i + 1) = Suc (unat i)" "unat i < unat mx" using unsigned_less [of mx, where 'a = nat]
    by (simp_all add: word_less_nat_alt unat_word_ariths)
  then show "((mx, i + 1), mx, i) \<in> measure (\<lambda>(mx, i). unat mx - unat i)" by simp
qed simp

declare xbo_nops.simps [simp del]

text \<open>The result: the number of calls of \<open>nop\<close>, whether \<open>cb\<close> is called, and the object.\<close>

definition xbo_backoff :: "xbo \<Rightarrow> (nat \<times> bool) \<times> xbo" where
  "xbo_backoff x =
     (let nops = xbo_nops (xb_max x) 0;
          x = x\<lparr>xb_value := (if xb_value x = 0 then 1 else xb_value x * xb_factor x)\<rparr>
      in if xb_value x > xb_max x then ((nops, True), x\<lparr>xb_value := xb_max x\<rparr>) else ((nops, False), x))"

definition xbo_reset :: "xbo \<Rightarrow> xbo" where
  "xbo_reset x = x\<lparr>xb_value := xb_min x\<rparr>"

record backoff =
  bo_max_delay :: u32
  bo_limit :: u32

definition xbobackoff_init :: "u32 \<Rightarrow> u32 \<Rightarrow> backoff \<Rightarrow> backoff option" where
  "xbobackoff_init mn mx b = (if mn < mx then Some (b\<lparr>bo_max_delay := mx, bo_limit := vatomic32_write (bo_limit b) mn\<rparr>) else None)"

text \<open>The read of the limit and, with the delay drawn, the write of the new one; the result is the delay slept.\<close>

datatype backoff_pc = BoRead | BoWrite u32

fun xbobackoff_backoff :: "(u32 \<Rightarrow> u32 \<Rightarrow> u32) \<Rightarrow> backoff_pc \<Rightarrow> backoff \<Rightarrow> (backoff_pc + u32) \<times> backoff" where
  "xbobackoff_backoff rand_fun BoRead b = (Inl (BoWrite (vatomic32_read (bo_limit b))), b)"
| "xbobackoff_backoff rand_fun (BoWrite limit) b =
     (let delay = rand_fun 0 limit;
          new_limit = (if bo_max_delay b < 2 * limit then bo_max_delay b else 2 * limit)
      in (Inr delay, b\<lparr>bo_limit := vatomic32_write (bo_limit b) new_limit\<rparr>))"

section \<open>Spinning\<close>

lemma xbo_nops_eq: "xbo_nops mx i = unat mx - unat i"
proof (induction mx i rule: xbo_nops.induct)
  case (1 mx i)
  show ?case
  proof (cases "i < mx")
    case True
    then have "unat (i + 1) = Suc (unat i)" "unat i < unat mx" using unsigned_less [of mx, where 'a = nat]
      by (simp_all add: word_less_nat_alt unat_word_ariths)
    then show ?thesis using 1 True by (subst xbo_nops.simps) simp
  next
    case False
    then show ?thesis by (subst xbo_nops.simps) (simp add: word_less_nat_alt)
  qed
qed

text \<open>The results of successive calls.\<close>

fun xbo_calls :: "nat \<Rightarrow> xbo \<Rightarrow> (nat \<times> bool) list" where
  "xbo_calls 0 x = []"
| "xbo_calls (Suc n) x = (case xbo_backoff x of (r, x') \<Rightarrow> r # xbo_calls n x')"

text \<open>\<open>xbo_backoff\<close> calls \<open>nop\<close> the maximal number of times in every call: its loop runs to \<open>max\<close> and not to the value that grows from call to call. (Only the additional callback depends on that value.)\<close>

theorem xbo_always_max:
  "map fst (xbo_calls n x) = replicate n (unat (xb_max x))"
proof (induction n arbitrary: x)
  case (Suc n)
  have "fst (fst (xbo_backoff x)) = unat (xb_max x)" "xb_max (snd (xbo_backoff x)) = xb_max x"
    by (simp_all add: xbo_backoff_def Let_def xbo_nops_eq)
  then show ?case using Suc.IH [of "snd (xbo_backoff x)"] by (auto split: prod.splits)
qed simp

section \<open>Sleeping\<close>

datatype backoff_state = BoIdle | BoRun backoff_pc

record backoff_sys =
  bs_obj :: backoff
  bs_pcs :: "tid \<Rightarrow> backoff_state"
  bs_sleeps :: "u32 list"

text \<open>Any thread may call \<open>xbobackoff_backoff\<close> at any time; the label also holds what \<open>rand_fun\<close> does at this step.\<close>

fun backoff_step :: "tid \<times> (u32 \<Rightarrow> u32 \<Rightarrow> u32) \<Rightarrow> backoff_sys \<Rightarrow> backoff_sys option" where
  "backoff_step (t, rnd) s =
     (let pc = (case bs_pcs s t of BoIdle \<Rightarrow> BoRead | BoRun pc \<Rightarrow> pc) in
      case xbobackoff_backoff rnd pc (bs_obj s) of
        (Inl pc', b) \<Rightarrow> Some (s\<lparr>bs_obj := b, bs_pcs := (bs_pcs s)(t := BoRun pc')\<rparr>)
      | (Inr d, b) \<Rightarrow> Some (s\<lparr>bs_obj := b, bs_pcs := (bs_pcs s)(t := BoIdle), bs_sleeps := bs_sleeps s @ [d]\<rparr>))"

definition backoff_start :: "backoff \<Rightarrow> backoff_sys" where
  "backoff_start b = \<lparr>bs_obj = b, bs_pcs = (\<lambda>_. BoIdle), bs_sleeps = []\<rparr>"

text \<open>The documented range of \<open>rand_fun\<close>.\<close>

definition rand_ok :: "(u32 \<Rightarrow> u32 \<Rightarrow> u32) \<Rightarrow> bool" where
  "rand_ok rnd \<longleftrightarrow> (\<forall>lo hi. lo \<le> hi \<longrightarrow> lo \<le> rnd lo hi \<and> rnd lo hi \<le> hi)"

definition backoff_inv :: "u32 \<Rightarrow> backoff_sys \<Rightarrow> bool" where
  "backoff_inv mx s \<longleftrightarrow> bo_max_delay (bs_obj s) = mx \<and> bo_limit (bs_obj s) \<le> mx \<and> (\<forall>t l. bs_pcs s t = BoRun (BoWrite l) \<longrightarrow> l \<le> mx) \<and> (\<forall>t. bs_pcs s t \<noteq> BoRun BoRead) \<and>
     list_all (\<lambda>d. d \<le> mx) (bs_sleeps s)"

lemma backoff_inv_step:
  assumes I: "backoff_inv mx s" and r: "rand_ok rnd" and st: "backoff_step (t, rnd) s = Some s'"
  shows "backoff_inv mx s'"
proof (cases "bs_pcs s t")
  case BoIdle
  then show ?thesis using I st by (auto simp: backoff_inv_def vatomic_simps split: if_splits)
next
  case (BoRun pc)
  then obtain l where pc: "bs_pcs s t = BoRun (BoWrite l)" "l \<le> mx" using I by (cases pc) (auto simp: backoff_inv_def)
  have "rnd 0 l \<le> l" using r by (simp add: rand_ok_def)
  then have "rnd 0 l \<le> mx" using pc(2) by (rule order_trans)
  then show ?thesis using I st pc(1) by (auto simp: backoff_inv_def vatomic_simps Let_def not_less split: if_splits)
qed

text \<open>The first \<open>k\<close> calls of one thread, without others: the limits it uses.\<close>

fun limits :: "nat \<Rightarrow> (u32 \<Rightarrow> u32 \<Rightarrow> u32) \<Rightarrow> backoff \<Rightarrow> u32 list" where
  "limits 0 rnd b = []"
| "limits (Suc k) rnd b = bo_limit b # limits k rnd (snd (xbobackoff_backoff rnd (BoWrite (bo_limit b)) b))"

lemma limits_zero: "bo_limit b = 0 \<Longrightarrow> limits k rnd b = replicate k 0"
  by (induction k arbitrary: b) (auto simp: Let_def vatomic_simps)

text \<open>Whoever shares a back-off object, no sleep is longer than the maximum it was initialised with, as long as \<open>rand_fun\<close> keeps to its range. But the doubled limit may wrap around: with the maximum above \<open>2 ^ 31\<close> a limit of \<open>2 ^ 31\<close> is followed by 0 for ever, and a minimum of 0 never grows.\<close>

theorem xbobackoff_bounded:
  assumes "xbobackoff_init mn mx b0 = Some b" and "reach (\<lambda>(t, rnd) s. if rand_ok rnd then backoff_step (t, rnd) s else None) (backoff_start b) s"
  shows "list_all (\<lambda>d. d \<le> mx) (bs_sleeps s) \<and> bo_limit (bs_obj s) \<le> mx \<and>
    limits (Suc k) rnd (b\<lparr>bo_limit := 2 ^ 31\<rparr>) = 2 ^ 31 # replicate k 0 \<and> limits k rnd (b\<lparr>bo_limit := 0\<rparr>) = replicate k 0"
proof -
  have b: "bo_max_delay b = mx" "bo_limit b \<le> mx" using assms(1) by (auto simp: xbobackoff_init_def vatomic_simps split: if_splits)
  have "backoff_inv mx s" using assms(2)
  proof (induction rule: reach.induct)
    case reach_init
    then show ?case using b by (simp add: backoff_inv_def backoff_start_def)
  next
    case (reach_step s a s')
    then show ?case using backoff_inv_step by (cases a) (auto simp del: backoff_step.simps split: if_splits)
  qed
  moreover have d: "(2 :: u32) * 2 ^ 31 = 0" by code_simp
  have "snd (xbobackoff_backoff rnd (BoWrite (2 ^ 31)) (b\<lparr>bo_limit := 2 ^ 31\<rparr>)) = b\<lparr>bo_limit := 0\<rparr>"
    unfolding xbobackoff_backoff.simps Let_def d vatomic32_write_def by simp
  then have "limits (Suc k) rnd (b\<lparr>bo_limit := 2 ^ 31\<rparr>) = 2 ^ 31 # replicate k 0"
    using limits_zero [of "b\<lparr>bo_limit := 0\<rparr>"] by (simp del: xbobackoff_backoff.simps)
  ultimately show ?thesis using limits_zero [of "b\<lparr>bo_limit := 0\<rparr>"] by (simp add: backoff_inv_def)
qed

theorem xbobackoff_bounded_witness:
  "\<exists>s. exec (\<lambda>(t, rnd) s. if rand_ok rnd then backoff_step (t, rnd) s else None) [(0, \<lambda>lo hi. hi), (1, \<lambda>lo hi. hi), (0, \<lambda>lo hi. hi), (1, \<lambda>lo hi. lo)]
     (backoff_start \<lparr>bo_max_delay = 9, bo_limit = 3\<rparr>) = Some s \<and> bs_sleeps s = [3, 0] \<and> bo_limit (bs_obj s) \<le> 9"
proof -
  have r: "rand_ok (\<lambda>lo hi. hi)" "rand_ok (\<lambda>lo hi. lo)" by (auto simp: rand_ok_def)
  have i: "xbobackoff_init 3 9 \<lparr>bo_max_delay = 0, bo_limit = 0\<rparr> = Some \<lparr>bo_max_delay = 9, bo_limit = 3\<rparr>" by (simp add: xbobackoff_init_def vatomic_simps)
  obtain s where s: "exec (\<lambda>(t, rnd) s. if rand_ok rnd then backoff_step (t, rnd) s else None) [(0, \<lambda>lo hi. hi), (1, \<lambda>lo hi. hi), (0, \<lambda>lo hi. hi), (1, \<lambda>lo hi. lo)]
     (backoff_start \<lparr>bo_max_delay = 9, bo_limit = 3\<rparr>) = Some s" "bs_sleeps s = [3, 0]"
    by (simp add: r backoff_start_def vatomic_simps Let_def)
  with xbobackoff_bounded [OF i exec_reach [OF s(1)]] show ?thesis by blast
qed

end
