(* ===== verification/Treeset_Heap.thy ===== *)
theory Treeset_Heap
  imports Bench_Prelude "HOL-Library.Monad_Syntax"
begin

text \<open>
  The memory of the tree sets (\<^verbatim>\<open>map/treeset_*.h\<close>, \<^verbatim>\<open>map/internal/treeset\<close>): nodes at addresses, allocation and release of nodes,
  and the locks of the nodes. The fine-grained trees are modelled with the checking lock of \<^verbatim>\<open>treeset_lock_fake.h\<close>, whose
  assertions fail when a lock is taken twice or released by nobody; the coarse-grained trees replace the lock
  operations by nothing (\<open>fine\<close> is false). \<open>None\<close> is a failed assertion, an access to memory that is not allocated, or a
  loop that does not end.
\<close>

section \<open>Nodes, locks and allocation\<close>

type_synonym taddr = nat
type_synonym ptr = "taddr option"
type_synonym tkey = u64

text \<open>\<open>child[i]\<close> is indexed by the truth value of a comparison; external nodes hold the value in \<open>child[0]\<close>.\<close>

record tree_node =
  tn_locked :: bool
  tn_key :: tkey
  tn_external :: bool
  tn_child :: "bool \<Rightarrow> ptr"

type_synonym 'a theap = "taddr \<Rightarrow> 'a tree_node_scheme option"

text \<open>The address of \<open>head_sentinel\<close>.\<close>

definition HEAD :: taddr where "HEAD = 0"

text \<open>The memory library: the address it returns (\<open>None\<close> for \<open>NULL\<close>), and what is found there.\<close>

record 'a mem_lib =
  ml_malloc :: "'a theap \<Rightarrow> ptr"
  ml_junk :: "'a tree_node_scheme"

definition treeset_get_node :: "'a mem_lib \<Rightarrow> 'a theap \<Rightarrow> (taddr \<times> 'a theap) option" where
  "treeset_get_node ml h = do { a \<leftarrow> ml_malloc ml h; Some (a, h(a \<mapsto> ml_junk ml)) }"

definition treeset_put_node :: "taddr \<Rightarrow> 'a theap \<Rightarrow> 'a theap option" where
  "treeset_put_node a h = do { n \<leftarrow> h a; Some (h(a := None)) }"

definition l_init :: "bool \<Rightarrow> taddr \<Rightarrow> 'a theap \<Rightarrow> 'a theap option" where
  "l_init fine a h = (if fine then do { n \<leftarrow> h a; Some (h(a \<mapsto> n\<lparr>tn_locked := False\<rparr>)) } else Some h)"

definition l_destroy :: "bool \<Rightarrow> taddr \<Rightarrow> 'a theap \<Rightarrow> 'a theap option" where
  "l_destroy fine a h = (if fine then do { n \<leftarrow> h a; if tn_locked n then None else Some h } else Some h)"

definition l_acquire :: "bool \<Rightarrow> taddr \<Rightarrow> 'a theap \<Rightarrow> 'a theap option" where
  "l_acquire fine a h = (if fine then do { n \<leftarrow> h a; if tn_locked n then None else Some (h(a \<mapsto> n\<lparr>tn_locked := True\<rparr>)) } else Some h)"

definition l_release :: "bool \<Rightarrow> taddr \<Rightarrow> 'a theap \<Rightarrow> 'a theap option" where
  "l_release fine a h = (if fine then do { n \<leftarrow> h a; if tn_locked n then Some (h(a \<mapsto> n\<lparr>tn_locked := False\<rparr>)) else None } else Some h)"

text \<open>Without reader-writer locks the readers take the lock as writers do.\<close>

definition l_reader_acquire :: "bool \<Rightarrow> taddr \<Rightarrow> 'a theap \<Rightarrow> 'a theap option" where
  "l_reader_acquire fine a h = l_acquire fine a h"

definition l_reader_release :: "bool \<Rightarrow> taddr \<Rightarrow> 'a theap \<Rightarrow> 'a theap option" where
  "l_reader_release fine a h = l_release fine a h"

text \<open>An assignment to a field of a node.\<close>

definition node_upd :: "('a tree_node_scheme \<Rightarrow> 'a tree_node_scheme) \<Rightarrow> taddr \<Rightarrow> 'a theap \<Rightarrow> 'a theap option" where
  "node_upd g a h = do { n \<leftarrow> h a; Some (h(a \<mapsto> g n)) }"

definition set_child :: "bool \<Rightarrow> ptr \<Rightarrow> taddr \<Rightarrow> 'a theap \<Rightarrow> 'a theap option" where
  "set_child i v a h = node_upd (\<lambda>n. n\<lparr>tn_child := (tn_child n)(i := v)\<rparr>) a h"

section \<open>A heap with some locks taken\<close>

text \<open>\<open>lk fine S h\<close> is the heap \<open>h\<close> (where no lock is taken) with the locks of \<open>S\<close> taken.\<close>

definition lk :: "bool \<Rightarrow> taddr set \<Rightarrow> 'a theap \<Rightarrow> 'a theap" where
  "lk fine S h = (if fine then (\<lambda>a. map_option (\<lambda>n. n\<lparr>tn_locked := a \<in> S\<rparr>) (h a)) else h)"

definition unlocked :: "bool \<Rightarrow> 'a theap \<Rightarrow> bool" where
  "unlocked fine h \<longleftrightarrow> (fine \<longrightarrow> (\<forall>a n. h a = Some n \<longrightarrow> \<not> tn_locked n))"

lemma lk_empty: "unlocked fine h \<Longrightarrow> lk fine {} h = h"
  by (rule ext) (auto simp: lk_def unlocked_def map_option_case split: option.splits)

lemma lk_dom [simp]: "dom (lk fine S h) = dom h"
  by (auto simp: lk_def dom_def)

lemma lk_None [simp]: "lk fine S h a = None \<longleftrightarrow> h a = None"
  by (simp add: lk_def)

text \<open>Reading a node: only the lock may differ.\<close>

lemma lk_get: "h a = Some n \<Longrightarrow> lk fine S h a = Some (n\<lparr>tn_locked := (if fine then a \<in> S else tn_locked n)\<rparr>)"
  by (simp add: lk_def)

lemma acquire_lk:
  assumes "a \<notin> S" and "h a \<noteq> None"
  shows "l_acquire fine a (lk fine S h) = Some (lk fine (insert a S) h)"
proof (cases fine)
  case True
  obtain n where "h a = Some n" using assms(2) by blast
  then show ?thesis using True assms(1) by (auto simp: l_acquire_def lk_def fun_eq_iff)
qed (simp add: l_acquire_def lk_def)

lemma release_lk:
  assumes "a \<in> S" and "h a \<noteq> None"
  shows "l_release fine a (lk fine S h) = Some (lk fine (S - {a}) h)"
proof (cases fine)
  case True
  obtain n where "h a = Some n" using assms(2) by blast
  then show ?thesis using True assms(1) by (auto simp: l_release_def lk_def fun_eq_iff)
qed (simp add: l_release_def lk_def)

lemma destroy_lk:
  assumes "a \<notin> S" and "h a \<noteq> None"
  shows "l_destroy fine a (lk fine S h) = Some (lk fine S h)"
  using assms by (cases fine) (auto simp: l_destroy_def lk_def)

lemma put_node_lk:
  assumes "h a \<noteq> None"
  shows "treeset_put_node a (lk fine S h) = Some (lk fine S (h(a := None)))"
  using assms by (auto simp: treeset_put_node_def lk_def fun_eq_iff)

lemma node_upd_lk:
  assumes "h a = Some n" and "\<And>n b. g (n\<lparr>tn_locked := b\<rparr>) = (g n)\<lparr>tn_locked := b\<rparr>"
  shows "node_upd g a (lk fine S h) = Some (lk fine S (h(a \<mapsto> g n)))"
  using assms by (auto simp: node_upd_def lk_def fun_eq_iff)

lemma set_child_lk:
  assumes "h a = Some n"
  shows "set_child i v a (lk fine S h) = Some (lk fine S (h(a \<mapsto> n\<lparr>tn_child := (tn_child n)(i := v)\<rparr>)))"
  unfolding set_child_def by (rule node_upd_lk [where h = h, OF assms]) simp

text \<open>What is relied on of the memory library: it returns an address that is not in use.\<close>

definition malloc_ok :: "'a mem_lib \<Rightarrow> bool" where
  "malloc_ok ml \<longleftrightarrow> (\<forall>h. finite (dom h) \<longrightarrow> (\<exists>a. ml_malloc ml h = Some a \<and> h a = None))"

text \<open>Such a library: the first address not below \<open>n\<close> that is not in use.\<close>

partial_function (option) first_free :: "taddr \<Rightarrow> 'a theap \<Rightarrow> taddr option" where
  [code]: "first_free n h = (if h n = None then Some n else first_free (Suc n) h)"

lemma first_free_least:
  assumes "h b = None" and "n \<le> b"
  shows "\<exists>a. first_free n h = Some a \<and> h a = None"
  using assms(2)
proof (induction "b - n" arbitrary: n)
  case 0
  then show ?case using assms(1) by (subst first_free.simps) simp
next
  case (Suc d)
  then show ?case by (subst first_free.simps) simp
qed

lemma first_free_ok: "malloc_ok \<lparr>ml_malloc = first_free 0, ml_junk = n\<rparr>"
proof -
  have "\<exists>a. first_free 0 h = Some a \<and> h a = None" if f: "finite (dom h)" for h :: "'a theap"
  proof -
    obtain b where "h b = None" using ex_new_if_finite [OF infinite_UNIV_nat f] by blast
    then show ?thesis using first_free_least [of h b 0] by simp
  qed
  then show ?thesis by (simp add: malloc_ok_def)
qed

lemma get_node_lk:
  assumes "malloc_ok ml" and "finite (dom h)" and "S \<subseteq> dom h"
  obtains a where "treeset_get_node ml (lk fine S h) = Some (a, (lk fine S h)(a \<mapsto> ml_junk ml))" "h a = None" "a \<notin> S"
proof -
  obtain a where "ml_malloc ml (lk fine S h) = Some a" "lk fine S h a = None" using assms(1,2) unfolding malloc_ok_def by (metis lk_dom)
  then show thesis using that [of a] assms(3) by (auto simp: treeset_get_node_def)
qed

text \<open>A freshly allocated node, once its lock is initialised, is part of the heap like the others.\<close>

lemma init_new_lk:
  assumes "a \<notin> S"
  shows "\<exists>b. l_init fine a ((lk fine S h)(a \<mapsto> n)) = Some (lk fine S (h(a \<mapsto> n\<lparr>tn_locked := b\<rparr>))) \<and> (fine \<longrightarrow> \<not> b)"
proof (cases fine)
  case True
  then have "l_init fine a ((lk fine S h)(a \<mapsto> n)) = Some (lk fine S (h(a \<mapsto> n\<lparr>tn_locked := False\<rparr>)))"
    using assms by (auto simp: l_init_def lk_def fun_eq_iff)
  then show ?thesis by blast
next
  case False
  then show ?thesis by (auto simp: l_init_def lk_def intro!: exI [of _ "tn_locked n"])
qed

section \<open>Search trees in the heap\<close>

datatype atree = is_ext: TExt taddr tkey ptr | TInt taddr tkey atree atree

primrec adr :: "atree \<Rightarrow> taddr" where
  "adr (TExt a k v) = a" | "adr (TInt a k l r) = a"

primrec addrs :: "atree \<Rightarrow> taddr list" where
  "addrs (TExt a k v) = [a]" | "addrs (TInt a k l r) = a # addrs l @ addrs r"

primrec rep :: "'a theap \<Rightarrow> atree \<Rightarrow> bool" where
  "rep h (TExt a k v) \<longleftrightarrow> (\<exists>n. h a = Some n \<and> tn_external n \<and> tn_key n = k \<and> tn_child n False = v)"
| "rep h (TInt a k l r) \<longleftrightarrow> (\<exists>n. h a = Some n \<and> \<not> tn_external n \<and> tn_key n = k \<and> tn_child n False = Some (adr l) \<and> tn_child n True = Some (adr r)) \<and>
     rep h l \<and> rep h r"

text \<open>The elements in order, and the order of the keys (left below the key of the node, right not below).\<close>

primrec leaves :: "atree \<Rightarrow> (tkey \<times> ptr) list" where
  "leaves (TExt a k v) = [(k, v)]" | "leaves (TInt a k l r) = leaves l @ leaves r"

primrec bst :: "atree \<Rightarrow> bool" where
  "bst (TExt a k v) \<longleftrightarrow> True"
| "bst (TInt a k l r) \<longleftrightarrow> (\<forall>(x, v) \<in> set (leaves l). x < k) \<and> (\<forall>(x, v) \<in> set (leaves r). k \<le> x) \<and> bst l \<and> bst r"

primrec look :: "tkey \<Rightarrow> atree \<Rightarrow> ptr option" where
  "look k (TExt a k' v) = (if k' = k then Some v else None)"
| "look k (TInt a k' l r) = (if k' \<le> k then look k r else look k l)"

lemma adr_in [simp]: "adr t \<in> set (addrs t)"
  by (cases t) auto

lemma rep_cong: "(\<And>a. a \<in> set (addrs t) \<Longrightarrow> h a = h' a) \<Longrightarrow> rep h t = rep h' t"
  by (induction t) auto

lemma rep_alloc: "rep h t \<Longrightarrow> a \<in> set (addrs t) \<Longrightarrow> h a \<noteq> None"
  by (induction t) auto

lemma leaves_nonempty [simp]: "leaves t \<noteq> []"
  by (induction t) auto

lemma look_leaves: "bst t \<Longrightarrow> look k t = Some v \<longleftrightarrow> (k, v) \<in> set (leaves t)"
  by (induction t) (auto simp: not_le not_less split: prod.splits)

lemma bst_sorted: "bst t \<Longrightarrow> sorted_wrt (<) (map fst (leaves t))"
  by (induction t) (fastforce simp: sorted_wrt_append split: prod.splits)+

end
