(* ===== verification/Treeset_Spec.thy ===== *)
theory Treeset_Spec
  imports Treeset_Heap
begin

text \<open>
  What a tree set promises to a client that calls it from one thread at a time: the calls behave as those of a finite
  map, no assertion fails, and every call returns. The interface is the locale \<open>treeset_impl\<close>; the trees of
  \<^verbatim>\<open>map/treeset_*.h\<close> are its instances.
\<close>

section \<open>The abstract set\<close>

datatype tree_op = TAdd tkey ptr | TRemove tkey | TContains tkey

text \<open>The result of a call: its truth value, and what it writes to \<open>*out_value\<close> (\<open>None\<close> if nothing).\<close>

type_synonym tree_ret = "bool \<times> ptr option"

fun map_call :: "tree_op \<Rightarrow> (tkey \<Rightarrow> ptr option) \<Rightarrow> tree_ret \<times> (tkey \<Rightarrow> ptr option)" where
  "map_call (TAdd k v) m = ((m k = None, m k), if m k = None then m(k \<mapsto> v) else m)"
| "map_call (TRemove k) m = ((m k \<noteq> None, m k), m(k := None))"
| "map_call (TContains k) m = ((m k \<noteq> None, m k), m)"

primrec map_calls :: "tree_op list \<Rightarrow> (tkey \<Rightarrow> ptr option) \<Rightarrow> tree_ret list \<times> (tkey \<Rightarrow> ptr option)" where
  "map_calls [] m = ([], m)"
| "map_calls (op # ops) m = (let (r, m) = map_call op m; (rs, m) = map_calls ops m in (r # rs, m))"

section \<open>Clients of an implementation\<close>

primrec run_calls :: "(tree_op \<Rightarrow> 's \<Rightarrow> (tree_ret \<times> 's) option) \<Rightarrow> tree_op list \<Rightarrow> 's \<Rightarrow> (tree_ret list \<times> 's) option" where
  "run_calls call [] s = Some ([], s)"
| "run_calls call (op # ops) s = do { (r, s) \<leftarrow> call op s; (rs, s) \<leftarrow> run_calls call ops s; Some (r # rs, s) }"

text \<open>\<open>fresh\<close>: memory where the set can be initialised, and which it must leave when it is destroyed.\<close>

locale treeset_impl =
  fixes inv :: "'s \<Rightarrow> (tkey \<Rightarrow> ptr option) \<Rightarrow> bool"
    and lib_ok :: "'m \<Rightarrow> bool"
    and fresh :: "'s \<Rightarrow> bool"
    and init :: "'s \<Rightarrow> 's option"
    and call :: "'m \<Rightarrow> tree_op \<Rightarrow> 's \<Rightarrow> (tree_ret \<times> 's) option"
    and visit :: "'s \<Rightarrow> (tkey \<times> ptr) list option"
    and verify :: "'s \<Rightarrow> unit option"
    and destroy :: "'s \<Rightarrow> 's option"
  assumes init_law: "fresh s \<Longrightarrow> \<exists>s'. init s = Some s' \<and> inv s' Map.empty"
    and call_law: "inv s m \<Longrightarrow> lib_ok ml \<Longrightarrow> \<exists>s'. call ml op s = Some (fst (map_call op m), s') \<and> inv s' (snd (map_call op m))"
    and visit_law: "inv s m \<Longrightarrow> \<exists>xs. visit s = Some xs \<and> sorted_wrt (<) (map fst xs) \<and> map_of xs = m"
    and verify_law: "inv s m \<Longrightarrow> verify s = Some ()"
    and destroy_law: "inv s m \<Longrightarrow> \<exists>s'. destroy s = Some s' \<and> fresh s'"
begin

lemma calls_refine: "lib_ok ml \<Longrightarrow> inv s m \<Longrightarrow> \<exists>s'. run_calls (call ml) ops s = Some (fst (map_calls ops m), s') \<and> inv s' (snd (map_calls ops m))"
proof (induction ops arbitrary: s m)
  case (Cons op ops)
  obtain s1 where 1: "call ml op s = Some (fst (map_call op m), s1)" "inv s1 (snd (map_call op m))"
    using call_law [OF Cons.prems(2,1), of op] by blast
  obtain s2 where 2: "run_calls (call ml) ops s1 = Some (fst (map_calls ops (snd (map_call op m))), s2)" "inv s2 (snd (map_calls ops (snd (map_call op m))))"
    using Cons.IH [OF Cons.prems(1) 1(2)] by blast
  show ?case using 1 2 by (auto simp: split_beta)
qed simp

lemma life_inv:
  assumes "lib_ok ml" and "fresh s"
  obtains s0 s1 where "init s = Some s0" "run_calls (call ml) ops s0 = Some (fst (map_calls ops Map.empty), s1)" "inv s1 (snd (map_calls ops Map.empty))"
  using init_law [OF assms(2)] calls_refine [OF assms(1)] by metis

lemma life_refines:
  assumes "lib_ok ml" and "fresh s"
  shows "\<exists>s0 s1. init s = Some s0 \<and> run_calls (call ml) ops s0 = Some (fst (map_calls ops Map.empty), s1)"
  using life_inv [OF assms] by metis

lemma life_end:
  assumes "lib_ok ml" and "fresh s" and "init s = Some s0" and "run_calls (call ml) ops s0 = Some (rs, s1)"
  shows "verify s1 = Some () \<and> (\<exists>xs. visit s1 = Some xs \<and> sorted_wrt (<) (map fst xs) \<and> map_of xs = snd (map_calls ops Map.empty)) \<and>
    (\<exists>s2. destroy s1 = Some s2 \<and> fresh s2)"
proof -
  have i: "inv s1 (snd (map_calls ops Map.empty))"
    by (rule life_inv [OF assms(1,2), of ops]) (use assms(3,4) in simp)
  show ?thesis using verify_law [OF i] visit_law [OF i] destroy_law [OF i] by simp
qed

end

end
