(* ===== verification/Treeset_Bst.thy ===== *)
theory Treeset_Bst
  imports Treeset_Spec
begin

text \<open>
  The unbalanced tree set, \<^verbatim>\<open>map/treeset_bst_fine.h\<close> (hand-over-hand locking) and \<^verbatim>\<open>map/treeset_bst_coarse.h\<close> (the same code
  without the locks of the nodes, under one lock), as whole calls of one thread. The values are in the external nodes;
  internal nodes route.
\<close>

section \<open>Operations\<close>

definition treeset_init :: "bool \<Rightarrow> 'a theap \<Rightarrow> 'a theap option" where
  "treeset_init fine h = do {
     h \<leftarrow> node_upd (\<lambda>n. n\<lparr>tn_key := 0, tn_external := False, tn_child := (\<lambda>_. None)\<rparr>) HEAD h;
     l_init fine HEAD h }"

definition new_external :: "bool \<Rightarrow> 'a mem_lib \<Rightarrow> tkey \<Rightarrow> ptr \<Rightarrow> 'a theap \<Rightarrow> (taddr \<times> 'a theap) option" where
  "new_external fine ml key value h = do {
     (ext, h) \<leftarrow> treeset_get_node ml h;
     h \<leftarrow> node_upd (\<lambda>n. n\<lparr>tn_key := key, tn_external := True, tn_child := (\<lambda>i. if i then None else value)\<rparr>) ext h;
     h \<leftarrow> l_init fine ext h;
     Some (ext, h) }"

text \<open>The loop of \<open>treeset_add\<close>, with the lock of \<open>f\<close> and \<open>x\<close> taken.\<close>

partial_function (option) add_loop :: "bool \<Rightarrow> tkey \<Rightarrow> taddr \<Rightarrow> taddr \<Rightarrow> 'a theap \<Rightarrow> (taddr \<times> taddr \<times> 'a theap) option" where
  [code]: "add_loop fine key f x h = do {
     xn \<leftarrow> h x;
     if tn_external xn then Some (f, x, h)
     else do {
       h \<leftarrow> l_release fine f h;
       x' \<leftarrow> tn_child xn (tn_key xn \<le> key);
       h \<leftarrow> l_acquire fine x' h;
       add_loop fine key x x' h } }"

text \<open>The result of a call is its truth value and what it writes to \<open>*out_value\<close>.\<close>

definition treeset_add :: "bool \<Rightarrow> 'a mem_lib \<Rightarrow> tkey \<Rightarrow> ptr \<Rightarrow> 'a theap \<Rightarrow> ((bool \<times> ptr option) \<times> 'a theap) option" where
  "treeset_add fine ml key value h = do {
     h \<leftarrow> l_acquire fine HEAD h;
     fn \<leftarrow> h HEAD;
     case tn_child fn False of
       None \<Rightarrow> do {
         (ext, h) \<leftarrow> new_external fine ml key value h;
         h \<leftarrow> set_child False (Some ext) HEAD h;
         h \<leftarrow> l_release fine HEAD h;
         Some ((True, None), h) }
     | Some x \<Rightarrow> do {
         h \<leftarrow> l_acquire fine x h;
         (f, x, h) \<leftarrow> add_loop fine key HEAD x h;
         xn \<leftarrow> h x;
         if tn_key xn = key then do {
           h \<leftarrow> l_release fine f h;
           xn \<leftarrow> h x;
           h \<leftarrow> l_release fine x h;
           Some ((False, Some (tn_child xn False)), h) }
         else do {
           (ext, h) \<leftarrow> new_external fine ml key value h;
           (mid, h) \<leftarrow> treeset_get_node ml h;
           h \<leftarrow> node_upd (\<lambda>n. n\<lparr>tn_external := False\<rparr>) mid h;
           h \<leftarrow> l_init fine mid h;
           h \<leftarrow> l_acquire fine mid h;
           h \<leftarrow> (if tn_key xn < key
                then node_upd (\<lambda>n. n\<lparr>tn_key := key, tn_child := (\<lambda>i. if i then Some ext else Some x)\<rparr>) mid h
                else node_upd (\<lambda>n. n\<lparr>tn_key := tn_key xn, tn_child := (\<lambda>i. if i then Some x else Some ext)\<rparr>) mid h);
           fn \<leftarrow> h f;
           h \<leftarrow> set_child (f \<noteq> HEAD \<and> tn_key fn \<le> key) (Some mid) f h;
           h \<leftarrow> l_release fine f h;
           h \<leftarrow> l_release fine mid h;
           h \<leftarrow> l_release fine x h;
           Some ((True, None), h) } } }"

text \<open>The loop of \<open>treeset_remove\<close>; \<open>g\<close> is \<open>NULL\<close> at first.\<close>

partial_function (option) remove_loop :: "bool \<Rightarrow> tkey \<Rightarrow> ptr \<Rightarrow> taddr \<Rightarrow> taddr \<Rightarrow> 'a theap \<Rightarrow> (ptr \<times> taddr \<times> taddr \<times> 'a theap) option" where
  [code]: "remove_loop fine key g f x h = do {
     xn \<leftarrow> h x;
     if tn_external xn then Some (g, f, x, h)
     else do {
       h \<leftarrow> (case g of None \<Rightarrow> Some h | Some g \<Rightarrow> l_release fine g h);
       x' \<leftarrow> tn_child xn (tn_key xn \<le> key);
       h \<leftarrow> l_acquire fine x' h;
       remove_loop fine key (Some f) x x' h } }"

definition treeset_remove :: "bool \<Rightarrow> tkey \<Rightarrow> 'a theap \<Rightarrow> ((bool \<times> ptr option) \<times> 'a theap) option" where
  "treeset_remove fine key h = do {
     h \<leftarrow> l_acquire fine HEAD h;
     fn \<leftarrow> h HEAD;
     case tn_child fn False of
       None \<Rightarrow> do { h \<leftarrow> l_release fine HEAD h; Some ((False, None), h) }
     | Some x \<Rightarrow> do {
         h \<leftarrow> l_acquire fine x h;
         xn \<leftarrow> h x;
         if tn_external xn then
           (if tn_key xn \<noteq> key then do {
              h \<leftarrow> l_release fine HEAD h;
              h \<leftarrow> l_release fine x h;
              Some ((False, None), h) }
            else do {
              h \<leftarrow> set_child False None HEAD h;
              h \<leftarrow> l_release fine HEAD h;
              xn \<leftarrow> h x;
              h \<leftarrow> l_release fine x h;
              h \<leftarrow> l_destroy fine x h;
              h \<leftarrow> treeset_put_node x h;
              Some ((True, Some (tn_child xn False)), h) })
         else do {
           (g, f, x, h) \<leftarrow> remove_loop fine key None HEAD x h;
           g \<leftarrow> g;
           xn \<leftarrow> h x;
           if tn_key xn \<noteq> key then do {
             h \<leftarrow> l_release fine g h;
             h \<leftarrow> l_release fine f h;
             h \<leftarrow> l_release fine x h;
             Some ((False, None), h) }
           else do {
             gn \<leftarrow> h g;
             fn \<leftarrow> h f;
             y \<leftarrow> tn_child fn (\<not> tn_key fn \<le> key);
             h \<leftarrow> l_acquire fine y h;
             h \<leftarrow> set_child (g \<noteq> HEAD \<and> tn_key gn \<le> key) (Some y) g h;
             h \<leftarrow> l_release fine g h;
             h \<leftarrow> l_release fine y h;
             h \<leftarrow> l_release fine f h;
             h \<leftarrow> l_destroy fine f h;
             xn \<leftarrow> h x;
             h \<leftarrow> l_release fine x h;
             h \<leftarrow> l_destroy fine x h;
             h \<leftarrow> treeset_put_node f h;
             h \<leftarrow> treeset_put_node x h;
             Some ((True, Some (tn_child xn False)), h) } } } }"

partial_function (option) contains_loop :: "bool \<Rightarrow> tkey \<Rightarrow> taddr \<Rightarrow> 'a theap \<Rightarrow> (taddr \<times> 'a theap) option" where
  [code]: "contains_loop fine key x h = do {
     xn \<leftarrow> h x;
     if tn_external xn then Some (x, h)
     else do {
       x' \<leftarrow> tn_child xn (tn_key xn \<le> key);
       h \<leftarrow> l_reader_acquire fine x' h;
       h \<leftarrow> l_reader_release fine x h;
       contains_loop fine key x' h } }"

definition treeset_contains :: "bool \<Rightarrow> tkey \<Rightarrow> 'a theap \<Rightarrow> ((bool \<times> ptr option) \<times> 'a theap) option" where
  "treeset_contains fine key h = do {
     h \<leftarrow> l_reader_acquire fine HEAD h;
     fn \<leftarrow> h HEAD;
     case tn_child fn False of
       None \<Rightarrow> do { h \<leftarrow> l_reader_release fine HEAD h; Some ((False, None), h) }
     | Some x \<Rightarrow> do {
         h \<leftarrow> l_reader_acquire fine x h;
         h \<leftarrow> l_reader_release fine HEAD h;
         (x, h) \<leftarrow> contains_loop fine key x h;
         xn \<leftarrow> h x;
         if tn_key xn \<noteq> key then do { h \<leftarrow> l_reader_release fine x h; Some ((False, None), h) }
         else do { h \<leftarrow> l_reader_release fine x h; Some ((True, Some (tn_child xn False)), h) } } }"

text \<open>\<open>treeset_visit\<close>: the calls of the visitor, in order.\<close>

partial_function (option) treeset_visit_recursive :: "'a theap \<Rightarrow> taddr \<Rightarrow> (tkey \<times> ptr) list option" where
  [code]: "treeset_visit_recursive h x = do {
     n \<leftarrow> h x;
     if tn_external n then Some [(tn_key n, tn_child n False)]
     else do {
       l \<leftarrow> tn_child n False;
       xs \<leftarrow> treeset_visit_recursive h l;
       r \<leftarrow> tn_child n True;
       ys \<leftarrow> treeset_visit_recursive h r;
       Some (xs @ ys) } }"

definition treeset_visit :: "'a theap \<Rightarrow> (tkey \<times> ptr) list option" where
  "treeset_visit h = do { n \<leftarrow> h HEAD; case tn_child n False of None \<Rightarrow> Some [] | Some root \<Rightarrow> treeset_visit_recursive h root }"

partial_function (option) treeset_putall_recursive :: "bool \<Rightarrow> taddr \<Rightarrow> 'a theap \<Rightarrow> 'a theap option" where
  [code]: "treeset_putall_recursive fine x h = do {
     n \<leftarrow> h x;
     h \<leftarrow> (if \<not> tn_external n then do {
            l \<leftarrow> tn_child n False;
            h \<leftarrow> treeset_putall_recursive fine l h;
            n \<leftarrow> h x;
            r \<leftarrow> tn_child n True;
            treeset_putall_recursive fine r h } else Some h);
     h \<leftarrow> l_destroy fine x h;
     treeset_put_node x h }"

definition treeset_destroy :: "bool \<Rightarrow> 'a theap \<Rightarrow> 'a theap option" where
  "treeset_destroy fine h = do {
     n \<leftarrow> h HEAD;
     h \<leftarrow> (case tn_child n False of None \<Rightarrow> Some h | Some root \<Rightarrow> treeset_putall_recursive fine root h);
     l_destroy fine HEAD h }"

text \<open>The checks of \<open>_treeset_verify\<close>; \<open>None\<close> for a limit is \<open>unlimited\<close>.\<close>

partial_function (option) treeset_verify_recursive :: "'a theap \<Rightarrow> tkey option \<Rightarrow> tkey option \<Rightarrow> taddr \<Rightarrow> unit option" where
  [code]: "treeset_verify_recursive h limit_b limit_e x = do {
     n \<leftarrow> h x;
     if (case limit_b of None \<Rightarrow> True | Some b \<Rightarrow> b \<le> tn_key n) \<and> (case limit_e of None \<Rightarrow> True | Some e \<Rightarrow> tn_key n < e) then
       (if tn_external n then Some ()
        else do {
          l \<leftarrow> tn_child n False;
          _ \<leftarrow> treeset_verify_recursive h limit_b (Some (tn_key n)) l;
          r \<leftarrow> tn_child n True;
          treeset_verify_recursive h (Some (tn_key n)) limit_e r })
     else None }"

definition treeset_verify :: "'a theap \<Rightarrow> unit option" where
  "treeset_verify h = do { n \<leftarrow> h HEAD; case tn_child n False of None \<Rightarrow> Some () | Some root \<Rightarrow> treeset_verify_recursive h None None root }"

section \<open>The loops follow the path of the key\<close>

text \<open>The last internal node on the path (or \<open>f\<close>) and the external node at its end.\<close>

primrec path_end :: "tkey \<Rightarrow> taddr \<Rightarrow> atree \<Rightarrow> taddr \<times> taddr" where
  "path_end k f (TExt a k' v) = (f, a)"
| "path_end k f (TInt a k' l r) = (if k' \<le> k then path_end k a r else path_end k a l)"

text \<open>The external node at the end of the path of a key.\<close>

primrec end_leaf :: "tkey \<Rightarrow> atree \<Rightarrow> taddr \<times> tkey \<times> ptr" where
  "end_leaf k (TExt a k' v) = (a, k', v)"
| "end_leaf k (TInt a k' l r) = (if k' \<le> k then end_leaf k r else end_leaf k l)"

lemma path_end_leaf: "snd (path_end k f t) = fst (end_leaf k t)"
  by (induction t arbitrary: f) auto

lemma path_end_in: "fst (path_end k f t) \<in> insert f (set (addrs t))" "snd (path_end k f t) \<in> set (addrs t)"
  by (induction t arbitrary: f) (auto split: if_splits)

lemma path_end_neq: "f \<notin> set (addrs t) \<Longrightarrow> distinct (addrs t) \<Longrightarrow> fst (path_end k f t) \<noteq> snd (path_end k f t)"
proof (induction t arbitrary: f)
  case (TInt a k' l r)
  then show ?case by (auto split: if_splits)
qed simp

lemma end_leaf_rep: "rep h t \<Longrightarrow> end_leaf k t = (a, k', v) \<Longrightarrow> \<exists>n. h a = Some n \<and> tn_external n \<and> tn_key n = k' \<and> tn_child n False = v"
  by (induction t) (auto split: if_splits)

lemma end_leaf_look: "end_leaf k t = (a, k', v) \<Longrightarrow> look k t = (if k' = k then Some v else None)"
  by (induction t) (auto split: if_splits)

lemma add_loop_path:
  assumes "rep h t" and "f \<notin> set (addrs t)" and "distinct (addrs t)" and "h f \<noteq> None"
  shows "add_loop fine k f (adr t) (lk fine {f, adr t} h) =
    Some (fst (path_end k f t), snd (path_end k f t), lk fine {fst (path_end k f t), snd (path_end k f t)} h)"
  using assms
proof (induction t arbitrary: f)
  case (TExt a k' v)
  then obtain n where "h a = Some n" "tn_external n" by auto
  then show ?case by (subst add_loop.simps) (simp add: lk_get)
next
  case (TInt a k' l r)
  from TInt.prems(1) obtain n where n: "h a = Some n" "\<not> tn_external n" "tn_key n = k'" "tn_child n False = Some (adr l)" "tn_child n True = Some (adr r)" by auto
  let ?c = "if k' \<le> k then r else l"
  have c: "rep h ?c" "a \<notin> set (addrs ?c)" "distinct (addrs ?c)" "tn_child n (k' \<le> k) = Some (adr ?c)" "h (adr ?c) \<noteq> None"
    using TInt.prems n rep_alloc [of h l "adr l"] rep_alloc [of h r "adr r"] by auto
  then have "adr ?c \<noteq> a" using adr_in by metis
  then have s: "insert (adr ?c) ({f, a} - {f}) = {a, adr ?c}" using TInt.prems(2) by auto
  have ih: "add_loop fine k a (adr ?c) (lk fine {a, adr ?c} h) =
    Some (fst (path_end k a ?c), snd (path_end k a ?c), lk fine {fst (path_end k a ?c), snd (path_end k a ?c)} h)"
    using TInt.IH(1) [of a] TInt.IH(2) [of a] c n(1) by (cases "k' \<le> k") simp_all
  have "add_loop fine k f a (lk fine {f, a} h) = add_loop fine k a (adr ?c) (lk fine (insert (adr ?c) ({f, a} - {f})) h)"
    using n c \<open>adr ?c \<noteq> a\<close> TInt.prems(2,4) by (subst add_loop.simps) (auto simp: lk_get release_lk acquire_lk)
  then show ?case unfolding s ih by simp
qed

lemma contains_loop_path:
  assumes "rep h t" and "distinct (addrs t)"
  shows "contains_loop fine k (adr t) (lk fine {adr t} h) = Some (fst (end_leaf k t), lk fine {fst (end_leaf k t)} h)"
  using assms
proof (induction t)
  case (TExt a k' v)
  then obtain n where "h a = Some n" "tn_external n" by auto
  then show ?case by (subst contains_loop.simps) (simp add: lk_get)
next
  case (TInt a k' l r)
  from TInt.prems(1) obtain n where n: "h a = Some n" "\<not> tn_external n" "tn_key n = k'" "tn_child n False = Some (adr l)" "tn_child n True = Some (adr r)" by auto
  let ?c = "if k' \<le> k then r else l"
  have c: "rep h ?c" "a \<notin> set (addrs ?c)" "distinct (addrs ?c)" "tn_child n (k' \<le> k) = Some (adr ?c)" "h (adr ?c) \<noteq> None"
    using TInt.prems n rep_alloc [of h l "adr l"] rep_alloc [of h r "adr r"] by auto
  then have "adr ?c \<noteq> a" using adr_in by metis
  then have s: "insert (adr ?c) {a} - {a} = {adr ?c}" by auto
  have ih: "contains_loop fine k (adr ?c) (lk fine {adr ?c} h) = Some (fst (end_leaf k ?c), lk fine {fst (end_leaf k ?c)} h)"
    using TInt.IH c by (cases "k' \<le> k") simp_all
  have "contains_loop fine k a (lk fine {a} h) = contains_loop fine k (adr ?c) (lk fine (insert (adr ?c) {a} - {a}) h)"
    using n c \<open>adr ?c \<noteq> a\<close> by (subst contains_loop.simps) (auto simp: lk_get release_lk acquire_lk l_reader_acquire_def l_reader_release_def)
  then show ?case unfolding s ih by simp
qed

text \<open>The same with the last but one internal node, for \<open>treeset_remove\<close>.\<close>

primrec path_end3 :: "tkey \<Rightarrow> ptr \<Rightarrow> taddr \<Rightarrow> atree \<Rightarrow> ptr \<times> taddr \<times> taddr" where
  "path_end3 k g f (TExt a k' v) = (g, f, a)"
| "path_end3 k g f (TInt a k' l r) = (if k' \<le> k then path_end3 k (Some f) a r else path_end3 k (Some f) a l)"

lemma remove_loop_path:
  assumes "rep h t" and "f \<notin> set (addrs t)" and "distinct (addrs t)" and "h f \<noteq> None"
    and "\<And>b. g = Some b \<Longrightarrow> b \<notin> set (addrs t) \<and> b \<noteq> f \<and> h b \<noteq> None" and "path_end3 k g f t = (g', f', x')"
  shows "remove_loop fine k g f (adr t) (lk fine (set_option g \<union> {f, adr t}) h) = Some (g', f', x', lk fine (set_option g' \<union> {f', x'}) h)"
  using assms
proof (induction t arbitrary: g f)
  case (TExt a k' v)
  then obtain n where "h a = Some n" "tn_external n" by auto
  then show ?case using TExt.prems by (subst remove_loop.simps) (auto simp: lk_get)
next
  case (TInt a k' l r)
  from TInt.prems(1) obtain n where n: "h a = Some n" "\<not> tn_external n" "tn_key n = k'" "tn_child n False = Some (adr l)" "tn_child n True = Some (adr r)" by auto
  let ?c = "if k' \<le> k then r else l"
  have c: "rep h ?c" "a \<notin> set (addrs ?c)" "f \<notin> set (addrs ?c)" "distinct (addrs ?c)" "tn_child n (k' \<le> k) = Some (adr ?c)" "h (adr ?c) \<noteq> None"
    using TInt.prems n rep_alloc [of h l "adr l"] rep_alloc [of h r "adr r"] by auto
  have ne: "adr ?c \<noteq> a" "adr ?c \<noteq> f" using c(2,3) adr_in by metis+
  have gc: "b \<noteq> adr ?c" "b \<noteq> f" "b \<noteq> a" "h b \<noteq> None" if "g = Some b" for b using TInt.prems(5) [OF that] by (auto split: if_splits)
  have s: "insert (adr ?c) (set_option g \<union> {f, a} - set_option g) = set_option (Some f) \<union> {a, adr ?c}" using gc by auto
  have ih: "remove_loop fine k (Some f) a (adr ?c) (lk fine (set_option (Some f) \<union> {a, adr ?c}) h) = Some (g', f', x', lk fine (set_option g' \<union> {f', x'}) h)"
    using TInt.IH(1) [of a "Some f"] TInt.IH(2) [of a "Some f"] c n(1) TInt.prems(2,4,6) by (cases "k' \<le> k") auto
  have "remove_loop fine k g f a (lk fine (set_option g \<union> {f, a}) h) =
    remove_loop fine k (Some f) a (adr ?c) (lk fine (insert (adr ?c) (set_option g \<union> {f, a} - set_option g)) h)"
    using n c ne gc TInt.prems(2,4) by (subst remove_loop.simps, cases g) (auto simp: lk_get release_lk acquire_lk)
  then show ?case unfolding s ih by simp
qed

section \<open>Changes of the tree\<close>

text \<open>Insertion replaces the external node at the end of the path.\<close>

primrec put :: "tkey \<Rightarrow> atree \<Rightarrow> atree \<Rightarrow> atree" where
  "put k (TExt a k' v) s = s"
| "put k (TInt a k' l r) s = (if k' \<le> k then TInt a k' l (put k r s) else TInt a k' (put k l s) r)"

lemma rep_put:
  assumes "rep h t" and "distinct (addrs t)" and "f \<notin> set (addrs t)" and "\<not> is_ext t"
    and "path_end k f t = (f', x')" and "h f' = Some n" and "h' f' = Some (n\<lparr>tn_child := (tn_child n)(tn_key n \<le> k := Some (adr s))\<rparr>)"
    and "\<And>b. b \<in> set (addrs t) \<Longrightarrow> b \<noteq> f' \<Longrightarrow> b \<noteq> x' \<Longrightarrow> h' b = h b" and "rep h' s"
  shows "rep h' (put k t s) \<and> adr (put k t s) = adr t"
  using assms
proof (induction t arbitrary: f)
  case (TInt a k' l r)
  from TInt.prems(1) obtain m where m: "h a = Some m" "\<not> tn_external m" "tn_key m = k'" "tn_child m False = Some (adr l)" "tn_child m True = Some (adr r)" by auto
  have pin: "f' \<in> insert a (set (addrs (if k' \<le> k then r else l)))" "x' \<in> set (addrs (if k' \<le> k then r else l))"
    using TInt.prems(5) path_end_in [of k a "if k' \<le> k then r else l"] by (auto split: if_splits)
  have o: "rep h' (if k' \<le> k then l else r)"
  proof -
    have "h b = h' b" if "b \<in> set (addrs (if k' \<le> k then l else r))" for b
    proof -
      have "b \<noteq> f'" "b \<noteq> x'" using TInt.prems(2) that pin by (auto split: if_splits)
      then show ?thesis using TInt.prems(8) [of b] that by (auto split: if_splits)
    qed
    then show ?thesis using rep_cong [of "if k' \<le> k then l else r" h h'] TInt.prems(1) by auto
  qed
  show ?case
  proof (cases "is_ext (if k' \<le> k then r else l)")
    case True
    then have "f' = a" "put k (if k' \<le> k then r else l) s = s" using TInt.prems(5) by (auto simp: is_ext_def split: if_splits)
    then show ?thesis using TInt.prems(6,7,9) m o by (cases "k' \<le> k") auto
  next
    case False
    let ?c = "if k' \<le> k then r else l"
    have pe: "path_end k a ?c = (f', x')" using TInt.prems(5) by auto
    have "f' \<noteq> a" "x' \<noteq> a"
    proof -
      obtain b j l' r' where c: "?c = TInt b j l' r'" using False by (cases ?c) auto
      then have "f' \<in> set (addrs ?c)" using pe path_end_in(1) [of k b l'] path_end_in(1) [of k b r'] by (auto split: if_splits)
      then show "f' \<noteq> a" using TInt.prems(2) by (auto split: if_splits)
      show "x' \<noteq> a" using pin(2) TInt.prems(2) by (auto split: if_splits)
    qed
    then have ha: "h' a = Some m" using TInt.prems(8) [of a] m(1) by simp
    have "rep h' (put k ?c s) \<and> adr (put k ?c s) = adr ?c"
      using TInt.IH(1) [of a] TInt.IH(2) [of a] TInt.prems pe False by (cases "k' \<le> k") auto
    then show ?thesis using ha m o by (cases "k' \<le> k") auto
  qed
qed auto

lemma addrs_put:
  assumes "distinct (addrs t)" and "distinct (addrs s)" and "set (addrs s) \<inter> set (addrs t) \<subseteq> {fst (end_leaf k t)}"
  shows "set (addrs (put k t s)) = set (addrs t) - {fst (end_leaf k t)} \<union> set (addrs s) \<and> distinct (addrs (put k t s))"
  using assms
proof (induction t)
  case (TInt a k' l r)
  have "fst (end_leaf k l) \<in> set (addrs l)" "fst (end_leaf k r) \<in> set (addrs r)" using path_end_in(2) path_end_leaf by metis+
  then show ?case using TInt by (cases "k' \<le> k") auto
qed auto

lemma leaves_put:
  assumes "end_leaf k t = (a, k', v)"
  shows "\<exists>pre post. leaves t = pre @ (k', v) # post \<and> (\<forall>s. leaves (put k t s) = pre @ leaves s @ post)"
  using assms
proof (induction t)
  case (TInt b j l r)
  show ?case
  proof (cases "j \<le> k")
    case True
    then obtain pre post where "leaves r = pre @ (k', v) # post" "\<forall>s. leaves (put k r s) = pre @ leaves s @ post" using TInt by auto
    then have "leaves (TInt b j l r) = (leaves l @ pre) @ (k', v) # post \<and> (\<forall>s. leaves (put k (TInt b j l r) s) = (leaves l @ pre) @ leaves s @ post)" using True by simp
    then show ?thesis by blast
  next
    case False
    then obtain pre post where "leaves l = pre @ (k', v) # post" "\<forall>s. leaves (put k l s) = pre @ leaves s @ post" using TInt by auto
    then have "leaves (TInt b j l r) = pre @ (k', v) # (post @ leaves r) \<and> (\<forall>s. leaves (put k (TInt b j l r) s) = pre @ leaves s @ (post @ leaves r))" using False by simp
    then show ?thesis by blast
  qed
qed (auto intro!: exI [of _ "[]"])

lemma bst_put:
  assumes "bst t" and "bst s" and "end_leaf k t = (a, k', v)" and "\<And>y w. (y, w) \<in> set (leaves s) \<Longrightarrow> y = k \<or> y = k'"
  shows "bst (put k t s)"
  using assms
proof (induction t)
  case (TInt b j l r)
  let ?c = "if j \<le> k then r else l"
  have "end_leaf k ?c = (a, k', v)" using TInt.prems(3) by (auto split: if_splits)
  then obtain pre post where c: "leaves ?c = pre @ (k', v) # post" "\<And>s. leaves (put k ?c s) = pre @ leaves s @ post"
    using leaves_put by blast
  then have "(k', v) \<in> set (leaves ?c)" by simp
  then have r: "j \<le> k' \<longleftrightarrow> j \<le> k" using TInt.prems(1) by (cases "j \<le> k") auto
  have "set (leaves (put k ?c s)) \<subseteq> set (leaves ?c) \<union> set (leaves s)" using c by auto
  then have "\<forall>(y, w) \<in> set (leaves (put k ?c s)). (if j \<le> k then j \<le> y else y < j)"
    using TInt.prems(1,4) r by (cases "j \<le> k") (fastforce simp: not_le)+
  then show ?case using TInt by (cases "j \<le> k") auto
qed auto

text \<open>Removal replaces the last internal node on the path by its other child.\<close>

primrec del :: "tkey \<Rightarrow> atree \<Rightarrow> atree" where
  "del k (TExt a k' v) = TExt a k' v"
| "del k (TInt a k' l r) =
     (if k' \<le> k then (if is_ext r then l else TInt a k' l (del k r))
      else (if is_ext l then r else TInt a k' (del k l) r))"

lemma leaves_del:
  assumes "end_leaf k t = (a, k', v)" and "\<not> is_ext t"
  shows "\<exists>pre post. leaves t = pre @ (k', v) # post \<and> leaves (del k t) = pre @ post"
  using assms
proof (induction t)
  case (TInt b j l r)
  show ?case
  proof (cases "j \<le> k")
    case True
    show ?thesis
    proof (cases r)
      case (TExt x y z)
      then have "leaves (TInt b j l r) = leaves l @ (k', v) # [] \<and> leaves (del k (TInt b j l r)) = leaves l @ []" using True TInt.prems(1) by simp
      then show ?thesis by blast
    next
      case (TInt x y z w)
      then obtain pre post where "leaves r = pre @ (k', v) # post" "leaves (del k r) = pre @ post" using TInt.IH(2) TInt.prems(1) True by auto
      then have "leaves (TInt b j l r) = (leaves l @ pre) @ (k', v) # post \<and> leaves (del k (TInt b j l r)) = (leaves l @ pre) @ post" using True TInt by simp
      then show ?thesis by blast
    qed
  next
    case False
    show ?thesis
    proof (cases l)
      case (TExt x y z)
      then have "leaves (TInt b j l r) = [] @ (k', v) # leaves r \<and> leaves (del k (TInt b j l r)) = [] @ leaves r" using False TInt.prems(1) by simp
      then show ?thesis by blast
    next
      case (TInt x y z w)
      then obtain pre post where "leaves l = pre @ (k', v) # post" "leaves (del k l) = pre @ post" using TInt.IH(1) TInt.prems(1) False by auto
      then have "leaves (TInt b j l r) = pre @ (k', v) # (post @ leaves r) \<and> leaves (del k (TInt b j l r)) = pre @ (post @ leaves r)" using False TInt by simp
      then show ?thesis by blast
    qed
  qed
qed auto

lemma del_leaves_subset: "set (leaves (del k t)) \<subseteq> set (leaves t)"
  by (induction t) auto

lemma bst_del: "bst t \<Longrightarrow> bst (del k t)"
proof (induction t)
  case (TInt b j l r)
  have "\<forall>(x, v) \<in> set (leaves (del k l)). x < j" "\<forall>(x, v) \<in> set (leaves (del k r)). j \<le> x"
    using TInt.prems del_leaves_subset [of k l] del_leaves_subset [of k r] by auto
  then have "bst (TInt b j l (del k r))" "bst (TInt b j (del k l) r)" "bst l" "bst r" using TInt by auto
  then show ?case by (simp del: bst.simps)
qed auto

lemma path_end3_in:
  assumes "path_end3 k g f t = (g', f', x')" and "\<not> is_ext t"
  shows "\<exists>b. g' = Some b \<and> b \<in> insert f (set (addrs t))" "f' \<in> set (addrs t)" "x' \<in> set (addrs t)"
  using assms
proof (induction t arbitrary: g f)
  case (TInt a k' l r)
  {
    case 1
    then show ?case using TInt.IH(1) [of "Some f" a] TInt.IH(4) [of "Some f" a]
      by (cases "k' \<le> k"; cases "is_ext (if k' \<le> k then r else l)") (auto simp: is_ext_def split: if_splits)
  next
    case 2
    then show ?case using TInt.IH(2) [of "Some f" a] TInt.IH(5) [of "Some f" a]
      by (cases "k' \<le> k"; cases "is_ext (if k' \<le> k then r else l)") (auto simp: is_ext_def split: if_splits)
  next
    case 3
    then show ?case using TInt.IH(3) [of "Some f" a] TInt.IH(6) [of "Some f" a]
      by (cases "k' \<le> k"; cases "is_ext (if k' \<le> k then r else l)") (auto simp: is_ext_def split: if_splits)
  }
qed auto

lemma path_end3_leaf: "snd (snd (path_end3 k g f t)) = fst (end_leaf k t)"
  by (induction t arbitrary: g f) auto

lemma addrs_del:
  assumes "path_end3 k g f t = (g', f', x')" and "\<not> is_ext t" and "distinct (addrs t)"
  shows "set (addrs (del k t)) = set (addrs t) - {f', x'} \<and> distinct (addrs (del k t))"
  using assms
proof (induction t arbitrary: g f)
  case (TInt a k' l r)
  let ?c = "if k' \<le> k then r else l"
  have p: "path_end3 k (Some f) a ?c = (g', f', x')" using TInt.prems(1) by auto
  show ?case
  proof (cases "is_ext ?c")
    case True
    then show ?thesis using p TInt.prems(3) by (auto simp: is_ext_def split: if_splits)
  next
    case False
    have "f' \<in> set (addrs ?c)" "x' \<in> set (addrs ?c)" using path_end3_in(2,3) [OF p False] by auto
    then show ?thesis using TInt.IH(1) [of "Some f" a] TInt.IH(2) [of "Some f" a] p False TInt.prems(3)
      by (cases "k' \<le> k") auto
  qed
qed auto

text \<open>The heap after the removal, when the path has two internal nodes or more.\<close>

lemma rep_del:
  assumes "rep h (TInt a k' l r)" and "distinct (addrs (TInt a k' l r))" and "\<not> is_ext (if k' \<le> k then r else l)"
    and "path_end3 k (Some f) a (if k' \<le> k then r else l) = (Some g', f', x')" and "h g' = Some n"
    and "h' g' = Some (n\<lparr>tn_child := (tn_child n)(tn_key n \<le> k := Some y)\<rparr>)" and "h f' = Some m" and "tn_child m (\<not> tn_key m \<le> k) = Some y"
    and "\<And>b. b \<in> set (addrs (TInt a k' l r)) \<Longrightarrow> b \<noteq> g' \<Longrightarrow> b \<noteq> f' \<Longrightarrow> b \<noteq> x' \<Longrightarrow> h' b = h b"
  shows "rep h' (del k (TInt a k' l r))"
  using assms
proof (induction "size (if k' \<le> k then r else l)" arbitrary: a k' l r f rule: less_induct)
  case less
  let ?c = "if k' \<le> k then r else l"
  obtain b j l' r' where c: "?c = TInt b j l' r'" using less.prems(3) by (cases ?c) auto
  from less.prems(1) obtain m' where m': "h a = Some m'" "\<not> tn_external m'" "tn_key m' = k'" "tn_child m' False = Some (adr l)" "tn_child m' True = Some (adr r)" by auto
  have rc: "rep h ?c" "distinct (addrs ?c)" "a \<notin> set (addrs ?c)" using less.prems(1,2) by auto
  have pin: "g' \<in> insert a (set (addrs ?c))" "f' \<in> set (addrs ?c)" "x' \<in> set (addrs ?c)" using path_end3_in [OF less.prems(4,3)] by auto
  have o: "rep h' (if k' \<le> k then l else r)"
  proof -
    have "h d = h' d" if "d \<in> set (addrs (if k' \<le> k then l else r))" for d
    proof -
      have "d \<noteq> g'" "d \<noteq> f'" "d \<noteq> x'" using less.prems(2) that pin by (auto split: if_splits)
      then show ?thesis using less.prems(9) [of d] that by (auto split: if_splits)
    qed
    then show ?thesis using rep_cong [of "if k' \<le> k then l else r" h h'] less.prems(1) by auto
  qed
  let ?d = "if j \<le> k then r' else l'"
  have del: "rep h' (del k (TInt a k' l r))" if "rep h' (del k ?c)" "h' a = Some m''" "\<not> tn_external m''" "tn_key m'' = k'"
    "tn_child m'' (k' \<le> k) = Some (adr (del k ?c))" "tn_child m'' (\<not> k' \<le> k) = Some (adr (if k' \<le> k then l else r))" for m''
    using that o less.prems(3) by (cases "k' \<le> k") auto
  show ?case
  proof (cases "is_ext ?d")
    case True
    then have p: "g' = a" "f' = b" "x' = adr ?d" and dc: "del k ?c = (if j \<le> k then l' else r')" using less.prems(4) c by (auto simp: is_ext_def split: if_splits)
    have "h d = h' d" if "d \<in> set (addrs (if j \<le> k then l' else r'))" for d
    proof -
      have "d \<noteq> a" "d \<noteq> b" "d \<noteq> x'" using rc c p(3) that adr_in [of l'] adr_in [of r'] by (auto simp: c simp del: adr_in split: if_splits)
      moreover have "d \<in> set (addrs ?c)" using that by (auto simp: c split: if_splits)
      then have "d \<in> set (addrs (TInt a k' l r))" by (auto split: if_splits)
      ultimately show ?thesis using less.prems(9) [of d] p by auto
    qed
    moreover have "rep h (if j \<le> k then l' else r')" using rc(1) c by auto
    ultimately have r: "rep h' (del k ?c)" unfolding dc using rep_cong [of "if j \<le> k then l' else r'" h h'] by auto
    have "h b = Some m" using less.prems(7) p by simp
    moreover have "rep h (TInt b j l' r')" using rc(1) c by simp
    ultimately have "y = adr (if j \<le> k then l' else r')" using less.prems(8) by (auto split: if_splits)
    then have "y = adr (del k ?c)" by (simp only: dc)
    then show ?thesis using r m' less.prems(5,6) p(1) by (intro del [of "m'\<lparr>tn_child := (tn_child m')(k' \<le> k := Some y)\<rparr>"]) auto
  next
    case False
    have p: "path_end3 k (Some a) b ?d = (Some g', f', x')" using less.prems(4) c by (auto split: if_splits)
    have "g' \<in> insert b (set (addrs ?d))" using path_end3_in(1) [OF p False] by auto
    then have "g' \<noteq> a" "f' \<noteq> a" "x' \<noteq> a" using rc(3) pin c by (auto split: if_splits)
    then have ha: "h' a = Some m'" using less.prems(9) [of a] m'(1) by simp
    have sub: "d \<in> set (addrs (TInt a k' l r))" if "d \<in> set (addrs ?c)" for d using that by (auto split: if_splits)
    have "rep h' (del k (TInt b j l' r'))"
      by (rule less.hyps [OF _ _ _ False p less.prems(5-8)]) (use rc(1,2) c less.prems(9) sub in \<open>auto simp: c\<close>)
    then have "rep h' (del k ?c)" by (simp only: c)
    moreover have "adr (del k ?c) = adr ?c" using False by (auto simp: c split: if_splits)
    moreover have "tn_child m' (k' \<le> k) = Some (adr ?c)" "tn_child m' (\<not> k' \<le> k) = Some (adr (if k' \<le> k then l else r))" using m' by (cases "k' \<le> k"; simp)+
    ultimately show ?thesis using ha m'(2,3) by (intro del [of m']) simp_all
  qed
qed

section \<open>The operations on a tree\<close>

text \<open>The heap holds the sentinel and the tree, all unlocked, and nothing else.\<close>

definition tree_in :: "bool \<Rightarrow> 'a theap \<Rightarrow> atree option \<Rightarrow> bool" where
  "tree_in fine h T \<longleftrightarrow> unlocked fine h \<and> (\<exists>n. h HEAD = Some n \<and> tn_child n False = map_option adr T) \<and>
     dom h = insert HEAD (case T of None \<Rightarrow> {} | Some t \<Rightarrow> set (addrs t)) \<and>
     (\<forall>t. T = Some t \<longrightarrow> rep h t \<and> distinct (addrs t) \<and> HEAD \<notin> set (addrs t) \<and> bst t)"

definition contents :: "atree option \<Rightarrow> tkey \<Rightarrow> ptr option" where
  "contents T k = Option.bind T (look k)"

lemma tree_inD:
  assumes "tree_in fine h (Some t)"
  obtains n where "h HEAD = Some n" "tn_child n False = Some (adr t)" "rep h t" "distinct (addrs t)" "HEAD \<notin> set (addrs t)" "bst t" "unlocked fine h"
    "dom h = insert HEAD (set (addrs t))"
  using assms by (auto simp: tree_in_def)

lemma tree_in_finite: "tree_in fine h T \<Longrightarrow> finite (dom h)"
  by (auto simp: tree_in_def split: option.splits)

lemma unlocked_upd: "unlocked fine h \<Longrightarrow> (fine \<longrightarrow> \<not> tn_locked n) \<Longrightarrow> unlocked fine (h(a \<mapsto> n))" "unlocked fine h \<Longrightarrow> unlocked fine (h(a := None))"
  by (auto simp: unlocked_def)

lemma unlockedD: "unlocked fine h \<Longrightarrow> h a = Some n \<Longrightarrow> fine \<longrightarrow> \<not> tn_locked n"
  by (auto simp: unlocked_def)

text \<open>The heap is one with no lock taken.\<close>

lemma start_lk: "tree_in fine h T \<Longrightarrow> lk fine {} h = h"
  by (auto simp: tree_in_def intro: lk_empty)

lemma contains_ok:
  assumes T: "tree_in fine h T"
  shows "treeset_contains fine k h = Some ((contents T k \<noteq> None, contents T k), h)"
proof (cases T)
  case None
  then obtain n where n: "h HEAD = Some n" "tn_child n False = None" using T by (auto simp: tree_in_def)
  have "treeset_contains fine k (lk fine {} h) = Some ((False, None), lk fine {} h)"
    using n by (simp add: treeset_contains_def l_reader_acquire_def l_reader_release_def acquire_lk release_lk lk_get)
  then show ?thesis by (simp add: start_lk [OF T] None contents_def)
next
  case (Some t)
  obtain n where n: "h HEAD = Some n" "tn_child n False = Some (adr t)" "rep h t" "distinct (addrs t)" "HEAD \<notin> set (addrs t)"
    using T tree_inD [of fine h t] Some by metis
  obtain a k' v where e: "end_leaf k t = (a, k', v)" by (cases "end_leaf k t") auto
  obtain m where m: "h a = Some m" "tn_key m = k'" "tn_child m False = v" using end_leaf_rep [OF n(3) e] by auto
  have al: "h (adr t) \<noteq> None" "HEAD \<noteq> adr t" using rep_alloc [OF n(3)] n(5) adr_in [of t] by metis+
  then have s: "{adr t, HEAD} - {HEAD} = {adr t}" by auto
  have "treeset_contains fine k (lk fine {} h) = Some ((k' = k, if k' = k then Some v else None), lk fine {} h)"
    using n(1,2) al m contains_loop_path [OF n(3,4), of fine k] e
    by (auto simp: treeset_contains_def l_reader_acquire_def l_reader_release_def acquire_lk release_lk lk_get s)
  then show ?thesis using end_leaf_look [OF e] by (simp add: start_lk [OF T] Some contents_def)
qed

lemma new_external_lk:
  assumes "malloc_ok ml" and "finite (dom h)" and "S \<subseteq> dom h"
  obtains a n where "new_external fine ml key value (lk fine S h) = Some (a, lk fine S (h(a \<mapsto> n)))" "h a = None"
    "tn_external n" "tn_key n = key" "tn_child n False = value" "fine \<longrightarrow> \<not> tn_locked n"
proof -
  obtain a where a: "treeset_get_node ml (lk fine S h) = Some (a, (lk fine S h)(a \<mapsto> ml_junk ml))" "h a = None" "a \<notin> S"
    using get_node_lk [OF assms] by metis
  let ?n = "(ml_junk ml)\<lparr>tn_key := key, tn_external := True, tn_child := (\<lambda>i. if i then None else value)\<rparr>"
  obtain b where b: "l_init fine a ((lk fine S h)(a \<mapsto> ?n)) = Some (lk fine S (h(a \<mapsto> ?n\<lparr>tn_locked := b\<rparr>)))" "fine \<longrightarrow> \<not> b"
    using init_new_lk [OF a(3)] by metis
  have "new_external fine ml key value (lk fine S h) = Some (a, lk fine S (h(a \<mapsto> ?n\<lparr>tn_locked := b\<rparr>)))"
    using a(1) b(1) by (simp add: new_external_def node_upd_def)
  then show thesis using that [of a "?n\<lparr>tn_locked := b\<rparr>"] a(2) b(2) by simp
qed

text \<open>The subtree that \<open>treeset_add\<close> puts in the place of the external node \<open>x\<close>.\<close>

definition add_subtree :: "taddr \<Rightarrow> taddr \<Rightarrow> tkey \<Rightarrow> ptr \<Rightarrow> taddr \<Rightarrow> tkey \<Rightarrow> ptr \<Rightarrow> atree" where
  "add_subtree mid ext k v x k' v' =
     (if k' < k then TInt mid k (TExt x k' v') (TExt ext k v) else TInt mid k' (TExt ext k v) (TExt x k' v'))"

lemma add_tree:
  assumes T: "tree_in fine h (Some t)" and e: "end_leaf k t = (x, k', v')" "k' \<noteq> k" and p: "path_end k HEAD t = (f, x)"
    and a: "h a = None" "tn_external n" "tn_key n = k" "tn_child n False = v" "fine \<longrightarrow> \<not> tn_locked n"
    and b: "(h(a \<mapsto> n)) b = None" "\<not> tn_external m" "tn_key m = (if k' < k then k else k')" "tn_child m = (\<lambda>i. if i = (k' < k) then Some a else Some x)" "fine \<longrightarrow> \<not> tn_locked m"
    and f: "h f = Some fn"
  shows "tree_in fine (h(a \<mapsto> n, b \<mapsto> m, f \<mapsto> fn\<lparr>tn_child := (tn_child fn)((f \<noteq> HEAD \<and> tn_key fn \<le> k) := Some b)\<rparr>)) (Some (put k t (add_subtree b a k v x k' v')))"
    (is "tree_in fine ?h (Some ?t)")
proof -
  let ?s = "add_subtree b a k v x k' v'"
  obtain hn where t: "h HEAD = Some hn" "tn_child hn False = Some (adr t)" "rep h t" "distinct (addrs t)" "HEAD \<notin> set (addrs t)" "bst t" "unlocked fine h"
    "dom h = insert HEAD (set (addrs t))" using T tree_inD by metis
  have x: "x \<in> set (addrs t)" "f \<in> insert HEAD (set (addrs t))" "f \<noteq> x" using path_end_in [of k HEAD t] path_end_neq [OF t(5,4), of k] p by auto
  have fresh: "a \<notin> set (addrs t)" "a \<noteq> HEAD" "b \<notin> set (addrs t)" "b \<noteq> HEAD" "a \<noteq> b" using t(1,8) a(1) b(1) by (auto simp: domIff split: if_splits)
  have s: "adr ?s = b" "set (addrs ?s) = {a, b, x}" "distinct (addrs ?s)" "set (leaves ?s) = {(k, v), (k', v')}" "bst ?s"
    using fresh x e(2) by (auto simp: add_subtree_def not_less)
  obtain xn where xn: "h x = Some xn" "tn_external xn" "tn_key xn = k'" "tn_child xn False = v'" using end_leaf_rep [OF t(3) e(1)] by auto
  have rs: "rep ?h ?s" using xn a b x fresh by (auto simp: add_subtree_def)
  have ad: "set (addrs ?t) = set (addrs t) - {x} \<union> {a, b, x}" "distinct (addrs ?t)"
    using addrs_put [OF t(4) s(3), of k] s(2) fresh e(1) by auto
  have rt: "rep ?h ?t \<and> (\<exists>n. ?h HEAD = Some n \<and> tn_child n False = Some (adr ?t))"
  proof (cases "is_ext t")
    case True
    then have "f = HEAD" "?t = ?s" using p by (auto simp: is_ext_def)
    then show ?thesis using rs s(1) by simp
  next
    case False
    have "f \<noteq> HEAD" using p False t(5) path_end_in(1) [of k "adr t"] by (cases t) (auto split: if_splits dest: subsetD, (metis (no_types, lifting) fst_conv insert_iff path_end_in(1))+)
    moreover have "rep ?h ?t \<and> adr ?t = adr t"
      by (rule rep_put [OF t(3,4,5) False p f]) (use \<open>f \<noteq> HEAD\<close> fresh x rs s(1) in auto)
    ultimately show ?thesis using t(1,2) fresh by auto
  qed
  have "unlocked fine ?h" using a(5) b(5) unlockedD [OF t(7) f] by (intro unlocked_upd t(7)) auto
  moreover have "bst ?t" by (rule bst_put [OF t(6) s(5) e(1)]) (use s(4) in auto)
  ultimately show ?thesis using rt ad t(5,8) fresh x by (auto simp: tree_in_def)
qed

lemma option_eqI: "(\<And>v. x = Some v \<longleftrightarrow> y = Some v) \<Longrightarrow> x = y"
  by (cases x) (auto, metis not_None_eq)

lemma add_contents:
  assumes "bst t" and "end_leaf k t = (x, k', v')" and "k' \<noteq> k"
  shows "contents (Some (put k t (add_subtree b a k v x k' v'))) = (contents (Some t))(k \<mapsto> v)"
proof -
  let ?t = "put k t (add_subtree b a k v x k' v')"
  have "bst ?t" by (rule bst_put [OF assms(1) _ assms(2)]) (use assms(3) in \<open>auto simp: add_subtree_def not_less split: if_splits\<close>)
  note l = look_leaves [OF assms(1)] look_leaves [OF this]
  obtain pre post where "leaves t = pre @ (k', v') # post" "leaves ?t = pre @ leaves (add_subtree b a k v x k' v') @ post" using leaves_put [OF assms(2)] by metis
  then have "set (leaves ?t) = insert (k, v) (set (leaves t))" by (auto simp: add_subtree_def)
  moreover have "look k t = None" using end_leaf_look [OF assms(2)] assms(3) by simp
  ultimately have "look j ?t = ((\<lambda>j. look j t)(k \<mapsto> v)) j" for j
    using l(1) [of j] l(2) [of j] l(2) [of k v] by (cases "j = k") (auto intro: option_eqI)
  then show ?thesis by (auto simp: contents_def)
qed

lemma add_empty:
  assumes T: "tree_in fine h None" and ml: "malloc_ok ml"
  shows "\<exists>h' a. treeset_add fine ml k v h = Some ((True, None), h') \<and> tree_in fine h' (Some (TExt a k v))"
proof -
  obtain hn where t: "h HEAD = Some hn" "tn_child hn False = None" "unlocked fine h" "dom h = {HEAD}" using T by (auto simp: tree_in_def)
  obtain a n where a: "new_external fine ml k v (lk fine {HEAD} h) = Some (a, lk fine {HEAD} (h(a \<mapsto> n)))" "h a = None"
    "tn_external n" "tn_key n = k" "tn_child n False = v" "fine \<longrightarrow> \<not> tn_locked n"
    using new_external_lk [OF ml, of h "{HEAD}" fine k v] t(4) by auto
  let ?h = "h(a \<mapsto> n, HEAD \<mapsto> hn\<lparr>tn_child := (tn_child hn)(False := Some a)\<rparr>)"
  have ne: "a \<noteq> HEAD" using a(2) t(1) by auto
  have u: "unlocked fine ?h" using a(6) unlockedD [OF t(3,1)] by (intro unlocked_upd t(3)) auto
  have "treeset_add fine ml k v (lk fine {} h) = Some ((True, None), lk fine {} ?h)"
    using t(1,2) a(1) ne by (simp add: treeset_add_def acquire_lk lk_get set_child_lk [where n = hn] release_lk)
  moreover have "tree_in fine ?h (Some (TExt a k v))" using u t(4) a ne by (auto simp: tree_in_def)
  ultimately show ?thesis using start_lk [OF T] lk_empty [OF u] by auto
qed

lemma add_present:
  assumes T: "tree_in fine h (Some t)" and e: "end_leaf k t = (x, k, v')"
  shows "treeset_add fine ml k v h = Some ((False, Some v'), h)"
proof -
  obtain hn where t: "h HEAD = Some hn" "tn_child hn False = Some (adr t)" "rep h t" "distinct (addrs t)" "HEAD \<notin> set (addrs t)"
    using T tree_inD by metis
  have al: "h (adr t) \<noteq> None" "HEAD \<noteq> adr t" using rep_alloc [OF t(3)] t(5) adr_in [of t] by metis+
  obtain f where p: "path_end k HEAD t = (f, x)" using path_end_leaf [of k HEAD t] e by (metis fst_conv prod.collapse)
  have x: "f \<noteq> x" "h f \<noteq> None" using path_end_in(1) [of k HEAD t] path_end_neq [OF t(5,4), of k] p t(1) rep_alloc [OF t(3)] by auto
  obtain xn where xn: "h x = Some xn" "tn_key xn = k" "tn_child xn False = v'" using end_leaf_rep [OF t(3) e] by auto
  have s: "{f, x} - {f} = {x}" "{adr t, HEAD} = {HEAD, adr t}" using x by auto
  have "treeset_add fine ml k v (lk fine {} h) = Some ((False, Some v'), lk fine {} h)"
    using t(1,2) al xn x add_loop_path [OF t(3,5,4), of fine k] p
    by (auto simp: treeset_add_def acquire_lk lk_get release_lk s)
  then show ?thesis by (simp add: start_lk [OF T])
qed

lemma add_absent:
  assumes T: "tree_in fine h (Some t)" and ml: "malloc_ok ml" and e: "end_leaf k t = (x, k', v')" "k' \<noteq> k"
  shows "\<exists>h' a b. treeset_add fine ml k v h = Some ((True, None), h') \<and> tree_in fine h' (Some (put k t (add_subtree b a k v x k' v')))"
proof -
  obtain hn where t: "h HEAD = Some hn" "tn_child hn False = Some (adr t)" "rep h t" "distinct (addrs t)" "HEAD \<notin> set (addrs t)" "dom h = insert HEAD (set (addrs t))"
    using T tree_inD by metis
  have al: "h (adr t) \<noteq> None" "HEAD \<noteq> adr t" using rep_alloc [OF t(3)] t(5) adr_in [of t] by metis+
  obtain f where p: "path_end k HEAD t = (f, x)" using path_end_leaf [of k HEAD t] e by (metis fst_conv prod.collapse)
  have x: "f \<noteq> x" "h f \<noteq> None" "{f, x} \<subseteq> dom h" using path_end_in [of k HEAD t] path_end_neq [OF t(5,4), of k] p t(1,6) rep_alloc [OF t(3)] by auto
  then obtain fn where fn: "h f = Some fn" by blast
  obtain xn where xn: "h x = Some xn" "tn_key xn = k'" using end_leaf_rep [OF t(3) e(1)] by auto
  obtain a n where a: "new_external fine ml k v (lk fine {f, x} h) = Some (a, lk fine {f, x} (h(a \<mapsto> n)))" "h a = None"
    "tn_external n" "tn_key n = k" "tn_child n False = v" "fine \<longrightarrow> \<not> tn_locked n"
    using new_external_lk [OF ml tree_in_finite [OF T] x(3), of fine k v] by blast
  let ?h1 = "h(a \<mapsto> n)"
  obtain b where b: "treeset_get_node ml (lk fine {f, x} ?h1) = Some (b, (lk fine {f, x} ?h1)(b \<mapsto> ml_junk ml))" "?h1 b = None" "b \<notin> {f, x}"
    using get_node_lk [OF ml, of ?h1 "{f, x}" fine] tree_in_finite [OF T] x(3) by auto
  let ?m = "(ml_junk ml)\<lparr>tn_external := False\<rparr>"
  obtain i where i: "l_init fine b ((lk fine {f, x} ?h1)(b \<mapsto> ?m)) = Some (lk fine {f, x} (?h1(b \<mapsto> ?m\<lparr>tn_locked := i\<rparr>)))" "fine \<longrightarrow> \<not> i"
    using init_new_lk [OF b(3), of fine ?h1 ?m] by blast
  let ?m' = "?m\<lparr>tn_locked := i, tn_key := (if k' < k then k else k'), tn_child := (\<lambda>j. if j = (k' < k) then Some a else Some x)\<rparr>"
  let ?h2 = "?h1(b \<mapsto> ?m')"
  let ?h3 = "?h2(f \<mapsto> fn\<lparr>tn_child := (tn_child fn)((f \<noteq> HEAD \<and> tn_key fn \<le> k) := Some b)\<rparr>)"
  have ne: "a \<noteq> f" "a \<noteq> x" "b \<noteq> f" "b \<noteq> x" "a \<noteq> b" using a(2) b(2,3) fn xn by (auto split: if_splits)
  have T3: "tree_in fine ?h3 (Some (put k t (add_subtree b a k v x k' v')))"
    by (rule add_tree [OF T e p a(2-6) b(2) _ _ _ _ fn]) (use i(2) in auto)
  have upd: "(if k' < k then node_upd (\<lambda>n. n\<lparr>tn_key := k, tn_child := (\<lambda>i. if i then Some a else Some x)\<rparr>) b (lk fine S (?h1(b \<mapsto> ?m\<lparr>tn_locked := i\<rparr>)))
     else node_upd (\<lambda>n. n\<lparr>tn_key := k', tn_child := (\<lambda>i. if i then Some x else Some a)\<rparr>) b (lk fine S (?h1(b \<mapsto> ?m\<lparr>tn_locked := i\<rparr>)))) = Some (lk fine S ?h2)" for S
  proof -
    have "(\<lambda>j. if j = True then Some a else Some x) = (\<lambda>j. if j then Some a else Some x)" "(\<lambda>j. if j = False then Some a else Some x) = (\<lambda>j. if j then Some x else Some a)" by auto
    then show ?thesis by (cases "k' < k") (simp_all add: node_upd_lk [where n = "?m\<lparr>tn_locked := i\<rparr>"])
  qed
  have s: "insert b {f, x} - {f} = {b, x}" "{b, x} - {b} = {x}" "{adr t, HEAD} = {HEAD, adr t}" using ne x by auto
  have "treeset_add fine ml k v (lk fine {} h) = Some ((True, None), lk fine {} ?h3)"
    using t(1,2) al xn fn x(1) ne a(1) b(1,3) i(1) upd [of "{b, f, x}"] e(2) add_loop_path [OF t(3,5,4), of fine k] p
    by (cases "k' < k") (simp_all add: treeset_add_def acquire_lk lk_get node_upd_def [of _ _ "_ (_ \<mapsto> _)"] set_child_lk [where n = fn] release_lk s)
  moreover have "lk fine {} ?h3 = ?h3" by (rule start_lk [OF T3])
  ultimately have "treeset_add fine ml k v h = Some ((True, None), ?h3)" by (simp only: start_lk [OF T])
  then show ?thesis using T3 by blast
qed

text \<open>The three nodes that \<open>treeset_remove\<close> holds at the end of its loop, and the node it acquires then.\<close>

lemma path_end3_facts:
  assumes "path_end3 k g f t = (g', f', x')" and "\<not> is_ext t" and "rep h t" and "distinct (addrs t)" and "f \<notin> set (addrs t)"
  shows "\<exists>b fn y. g' = Some b \<and> b \<noteq> f' \<and> b \<noteq> x' \<and> f' \<noteq> x' \<and> h f' = Some fn \<and> tn_child fn (\<not> tn_key fn \<le> k) = Some y \<and> y \<in> set (addrs t) \<and>
    y \<noteq> b \<and> y \<noteq> f' \<and> y \<noteq> x'"
  using assms
proof (induction t arbitrary: g f)
  case (TInt a k' l r)
  let ?c = "if k' \<le> k then r else l" and ?o = "if k' \<le> k then l else r"
  have p: "path_end3 k (Some f) a ?c = (g', f', x')" using TInt.prems(1) by auto
  from TInt.prems(3) obtain n where n: "h a = Some n" "tn_key n = k'" "tn_child n False = Some (adr l)" "tn_child n True = Some (adr r)" by auto
  have c: "rep h ?c" "distinct (addrs ?c)" "a \<notin> set (addrs ?c)" "set (addrs ?c) \<subseteq> set (addrs (TInt a k' l r))" using TInt.prems by auto
  show ?case
  proof (cases "is_ext ?c")
    case True
    then have q: "g' = Some f" "f' = a" "x' = adr ?c" using p by (auto simp: is_ext_def split: if_splits)
    have "adr l \<noteq> adr r" using TInt.prems(4) adr_in [of l] adr_in [of r] by (auto simp del: adr_in)
    then have "adr ?o \<noteq> adr ?c" "adr ?o \<noteq> a" "adr ?c \<noteq> a" "adr ?o \<noteq> f" "adr ?c \<noteq> f" "f \<noteq> a" "adr ?o \<in> set (addrs (TInt a k' l r))"
      using TInt.prems(4,5) adr_in [of l] adr_in [of r] by (auto simp del: adr_in split: if_splits)
    moreover have "tn_child n (\<not> k' \<le> k) = Some (adr ?o)" using n by (cases "k' \<le> k") simp_all
    ultimately show ?thesis using q n(1,2) by auto
  next
    case False
    have "\<exists>b fn y. g' = Some b \<and> b \<noteq> f' \<and> b \<noteq> x' \<and> f' \<noteq> x' \<and> h f' = Some fn \<and> tn_child fn (\<not> tn_key fn \<le> k) = Some y \<and> y \<in> set (addrs ?c) \<and>
      y \<noteq> b \<and> y \<noteq> f' \<and> y \<noteq> x'"
      using TInt.IH(1) [of "Some f" a] TInt.IH(2) [of "Some f" a] p False c(1-3) by (cases "k' \<le> k") simp_all
    then show ?thesis using c(4) by blast
  qed
qed auto

lemma remove_tree:
  assumes T: "tree_in fine h (Some t)" and t: "\<not> is_ext t" and p: "path_end3 k None HEAD t = (Some g, f, x)" and g: "h g = Some gn"
    and f: "h f = Some fn" "tn_child fn (\<not> tn_key fn \<le> k) = Some y"
  shows "tree_in fine (h(g \<mapsto> gn\<lparr>tn_child := (tn_child gn)((g \<noteq> HEAD \<and> tn_key gn \<le> k) := Some y)\<rparr>, f := None, x := None)) (Some (del k t))"
    (is "tree_in fine ?h _")
proof -
  obtain hn where n: "h HEAD = Some hn" "tn_child hn False = Some (adr t)" "rep h t" "distinct (addrs t)" "HEAD \<notin> set (addrs t)" "bst t" "unlocked fine h"
    "dom h = insert HEAD (set (addrs t))" using T tree_inD by metis
  obtain a k' l r where tt: "t = TInt a k' l r" using t by (cases t) auto
  have ne: "g \<noteq> f" "g \<noteq> x" "f \<noteq> x" using path_end3_facts [OF p t n(3,4,5)] by auto
  have pin: "f \<in> set (addrs t)" "x \<in> set (addrs t)" "g \<in> insert HEAD (set (addrs t))" using path_end3_in [OF p t] by auto
  have ad: "set (addrs (del k t)) = set (addrs t) - {f, x}" "distinct (addrs (del k t))" using addrs_del [OF p t n(4)] by auto
  let ?c = "if k' \<le> k then r else l" and ?o = "if k' \<le> k then l else r"
  have pc: "path_end3 k (Some HEAD) a ?c = (Some g, f, x)" using p tt by auto
  have "rep ?h (del k t) \<and> (\<exists>n. ?h HEAD = Some n \<and> tn_child n False = Some (adr (del k t)))"
  proof (cases "is_ext ?c")
    case True
    then have q: "g = HEAD" "f = a" and d: "del k t = ?o" using pc tt by (auto simp: is_ext_def split: if_splits)
    have "h b = ?h b" if "b \<in> set (addrs ?o)" for b
    proof -
      have "b \<in> set (addrs (del k t))" using that d by simp
      then show ?thesis using ad(1) n(5) q by auto
    qed
    moreover have "rep h ?o" using n(3) tt by auto
    ultimately have "rep ?h ?o" using rep_cong [of ?o h ?h] by auto
    moreover have "y = adr ?o" using f q(2) n(3) tt by (auto split: if_splits)
    ultimately show ?thesis using q d ne by simp
  next
    case False
    have "g \<in> insert a (set (addrs ?c))" using path_end3_in(1) [OF pc False] by auto
    then have gh: "g \<noteq> HEAD" using n(5) tt by (auto split: if_splits)
    have "rep ?h (del k (TInt a k' l r))"
      by (rule rep_del [OF n(3) [unfolded tt] n(4) [unfolded tt] False pc g _ f]) (use ne gh in auto)
    moreover have "adr (del k t) = adr t" using False tt by (auto split: if_splits)
    moreover have "f \<noteq> HEAD" "x \<noteq> HEAD" using pin n(5) by auto
    ultimately show ?thesis using n(1,2) gh tt by auto
  qed
  moreover have "unlocked fine ?h" using unlockedD [OF n(7) g] by (intro unlocked_upd n(7)) auto
  moreover have "f \<noteq> HEAD" "x \<noteq> HEAD" using pin n(5) by auto
  ultimately show ?thesis using ad n(5,8) pin ne bst_del [OF n(6)] by (auto simp: tree_in_def)
qed

lemma remove_contents:
  assumes "bst t" and "\<not> is_ext t" and "end_leaf k t = (x, k, v)"
  shows "contents (Some (del k t)) = (contents (Some t))(k := None)"
proof -
  note l = look_leaves [OF assms(1)] look_leaves [OF bst_del [OF assms(1)]]
  obtain pre post where s: "leaves t = pre @ (k, v) # post" "leaves (del k t) = pre @ post" using leaves_del [OF assms(3,2)] by metis
  have "(k, w) \<notin> set (pre @ post)" for w using bst_sorted [OF assms(1)] unfolding s(1) by (auto simp: sorted_wrt_append)
  then have n: "look k (del k t) = None" using l(2) [of k] s(2) by (cases "look k (del k t)") auto
  have "look j (del k t) = look j t" if "j \<noteq> k" for j
    using l(1) [of j] l(2) [of j k] that s by (intro option_eqI) auto
  then show ?thesis using n by (auto simp: contents_def)
qed

lemma remove_absent:
  assumes T: "tree_in fine h T" and k: "contents T k = None"
  shows "treeset_remove fine k h = Some ((False, None), h)"
proof (cases T)
  case None
  then obtain n where "h HEAD = Some n" "tn_child n False = None" using T by (auto simp: tree_in_def)
  then have "treeset_remove fine k (lk fine {} h) = Some ((False, None), lk fine {} h)"
    by (simp add: treeset_remove_def acquire_lk release_lk lk_get)
  then show ?thesis by (simp add: start_lk [OF T])
next
  case (Some t)
  obtain hn where n: "h HEAD = Some hn" "tn_child hn False = Some (adr t)" "rep h t" "distinct (addrs t)" "HEAD \<notin> set (addrs t)"
    using T tree_inD [of fine h t] Some by metis
  have al: "h (adr t) \<noteq> None" "HEAD \<noteq> adr t" using rep_alloc [OF n(3)] n(5) adr_in [of t] by metis+
  have s: "{adr t, HEAD} - {HEAD} = {adr t}" "{adr t, HEAD} = {HEAD, adr t}" using al(2) by auto
  show ?thesis
  proof (cases t)
    case (TExt a k' v)
    then obtain m where "h a = Some m" "tn_external m" "tn_key m = k'" using n(3) by auto
    moreover have "k' \<noteq> k" using k Some TExt by (auto simp: contents_def split: if_splits)
    ultimately have "treeset_remove fine k (lk fine {} h) = Some ((False, None), lk fine {} h)"
      using n(1,2) al TExt s by (auto simp: treeset_remove_def acquire_lk release_lk lk_get)
    then show ?thesis by (simp add: start_lk [OF T])
  next
    case (TInt a k' l r)
    then have ni: "\<not> is_ext t" by simp
    then obtain m where m: "h (adr t) = Some m" "\<not> tn_external m" using n(3) TInt by auto
    obtain g f x where p: "path_end3 k None HEAD t = (g, f, x)" by (cases "path_end3 k None HEAD t") auto
    then obtain b where b: "g = Some b" "b \<noteq> f" "b \<noteq> x" "f \<noteq> x" using path_end3_facts [OF p ni n(3,4,5)] by blast
    have alloc: "h b \<noteq> None" "h f \<noteq> None" using path_end3_in [OF p ni] b(1) n(1) rep_alloc [OF n(3)] by auto
    obtain k'' v where e: "end_leaf k t = (x, k'', v)" using path_end3_leaf [of k None HEAD t] p by (cases "end_leaf k t") auto
    then obtain xn where x: "h x = Some xn" "tn_key xn = k''" using end_leaf_rep [OF n(3) e] by auto
    have "k'' \<noteq> k" using k Some end_leaf_look [OF e] by (auto simp: contents_def)
    moreover have "remove_loop fine k None HEAD (adr t) (lk fine {HEAD, adr t} h) = Some (g, f, x, lk fine {b, f, x} h)"
      using remove_loop_path [OF n(3,5,4) _ _ p, of fine] n(1) b(1) by (simp add: insert_commute)
    moreover have "{b, f, x} - {b} = {f, x}" "{f, x} - {f} = {x}" using b by auto
    ultimately have "treeset_remove fine k (lk fine {} h) = Some ((False, None), lk fine {} h)"
      using n(1,2) al m x alloc b by (simp add: treeset_remove_def acquire_lk release_lk lk_get s(2))
    then show ?thesis by (simp add: start_lk [OF T])
  qed
qed

lemma remove_present:
  assumes T: "tree_in fine h (Some t)" and e: "end_leaf k t = (x, k, v)"
  shows "\<exists>h' T'. treeset_remove fine k h = Some ((True, Some v), h') \<and> tree_in fine h' T' \<and> contents T' = (contents (Some t))(k := None)"
proof -
  obtain hn where n: "h HEAD = Some hn" "tn_child hn False = Some (adr t)" "rep h t" "distinct (addrs t)" "HEAD \<notin> set (addrs t)" "bst t" "unlocked fine h"
    "dom h = insert HEAD (set (addrs t))" using T tree_inD by metis
  have al: "h (adr t) \<noteq> None" "HEAD \<noteq> adr t" using rep_alloc [OF n(3)] n(5) adr_in [of t] by metis+
  have s: "{adr t, HEAD} - {HEAD} = {adr t}" "{adr t, HEAD} = {HEAD, adr t}" using al(2) by auto
  obtain xn where x: "h x = Some xn" "tn_key xn = k" "tn_child xn False = v" using end_leaf_rep [OF n(3) e] by auto
  show ?thesis
  proof (cases t)
    case (TExt a k' v')
    then have q: "a = x" "k' = k" "v' = v" using e by auto
    then have xe: "tn_external xn" using n(3) TExt x(1) by auto
    let ?h = "h(HEAD \<mapsto> hn\<lparr>tn_child := (tn_child hn)(False := None)\<rparr>, x := None)"
    have u: "unlocked fine ?h" using unlockedD [OF n(7,1)] by (intro unlocked_upd n(7)) auto
    have "treeset_remove fine k (lk fine {} h) = Some ((True, Some v), lk fine {} ?h)"
      using n(1,2) al x xe TExt q s
      by (simp add: treeset_remove_def acquire_lk release_lk lk_get set_child_lk [where n = hn] destroy_lk put_node_lk)
    then have "treeset_remove fine k h = Some ((True, Some v), ?h)" by (simp only: start_lk [OF T] lk_empty [OF u])
    moreover have "tree_in fine ?h None" using u n(8) TExt q al(2) by (auto simp: tree_in_def)
    moreover have "contents None = (contents (Some t))(k := None)" using TExt q by (auto simp: contents_def)
    ultimately show ?thesis by blast
  next
    case (TInt a k' l r)
    then have ni: "\<not> is_ext t" by simp
    obtain m where m: "h (adr t) = Some m" "\<not> tn_external m" using n(3) TInt by auto
    obtain g f x' where p: "path_end3 k None HEAD t = (g, f, x')" by (cases "path_end3 k None HEAD t") auto
    then have "x' = x" using path_end3_leaf [of k None HEAD t] e by simp
    then obtain b fn y where b: "g = Some b" "b \<noteq> f" "b \<noteq> x" "f \<noteq> x" "h f = Some fn" "tn_child fn (\<not> tn_key fn \<le> k) = Some y" "y \<in> set (addrs t)"
      "y \<noteq> b" "y \<noteq> f" "y \<noteq> x" using path_end3_facts [OF p ni n(3,4,5)] by blast
    have alloc: "h b \<noteq> None" "h y \<noteq> None" using path_end3_in [OF p ni] b(1,7) n(1) rep_alloc [OF n(3)] by auto
    then obtain gn where gn: "h b = Some gn" by blast
    let ?h = "h(b \<mapsto> gn\<lparr>tn_child := (tn_child gn)((b \<noteq> HEAD \<and> tn_key gn \<le> k) := Some y)\<rparr>, f := None, x := None)"
    have T': "tree_in fine ?h (Some (del k t))" by (rule remove_tree [OF T ni _ gn b(5,6)]) (use p b(1) \<open>x' = x\<close> in simp)
    have loop: "remove_loop fine k None HEAD (adr t) (lk fine {HEAD, adr t} h) = Some (g, f, x, lk fine {b, f, x} h)"
      using remove_loop_path [OF n(3,5,4) _ _ p, of fine] n(1) b(1) \<open>x' = x\<close> by (simp add: insert_commute)
    have sets: "{y, b, f, x} - {b} = {y, f, x}" "{y, f, x} - {y} = {f, x}" "{f, x} - {f} = {x}" using b(2-4,8-10) by auto
    have "treeset_remove fine k (lk fine {} h) = Some ((True, Some v), lk fine {} ?h)"
      using n(1,2) al m x alloc b loop gn
      by (simp add: treeset_remove_def acquire_lk release_lk lk_get s(2) set_child_lk [where n = gn] destroy_lk put_node_lk sets)
    then have "treeset_remove fine k h = Some ((True, Some v), ?h)" by (simp only: start_lk [OF T] start_lk [OF T'])
    then show ?thesis using T' remove_contents [OF n(6) ni e] by blast
  qed
qed

lemma add_ok:
  assumes T: "tree_in fine h T" and ml: "malloc_ok ml"
  shows "\<exists>h' T'. treeset_add fine ml k v h = Some ((contents T k = None, contents T k), h') \<and> tree_in fine h' T' \<and>
    contents T' = (if contents T k = None then (contents T)(k \<mapsto> v) else contents T)"
proof (cases T)
  case None
  have "contents (Some (TExt a k v)) = [k \<mapsto> v]" for a by (auto simp: contents_def)
  moreover have "contents None = Map.empty" by (auto simp: contents_def)
  ultimately show ?thesis using add_empty [OF T [unfolded None] ml, of k v] None by auto
next
  case (Some t)
  obtain x k' v' where e: "end_leaf k t = (x, k', v')" by (cases "end_leaf k t") auto
  have c: "contents T k = (if k' = k then Some v' else None)" using end_leaf_look [OF e] Some by (simp add: contents_def)
  show ?thesis
  proof (cases "k' = k")
    case True
    then show ?thesis using add_present [OF T [unfolded Some], of k x v' ml v] e c T by auto
  next
    case False
    have "bst t" using T Some by (auto simp: tree_in_def)
    then show ?thesis using add_absent [OF T [unfolded Some] ml e False, of v] add_contents [OF _ e False] c False Some by fastforce
  qed
qed

lemma remove_ok:
  assumes T: "tree_in fine h T"
  shows "\<exists>h' T'. treeset_remove fine k h = Some ((contents T k \<noteq> None, contents T k), h') \<and> tree_in fine h' T' \<and> contents T' = (contents T)(k := None)"
proof (cases "contents T k")
  case None
  then have "contents T = (contents T)(k := None)" by auto
  then show ?thesis using remove_absent [OF T None] T None by auto
next
  case (Some v)
  then obtain t where t: "T = Some t" "look k t = Some v" by (cases T) (auto simp: contents_def)
  obtain x k' v' where "end_leaf k t = (x, k', v')" by (cases "end_leaf k t") auto
  then have "end_leaf k t = (x, k, v)" using end_leaf_look [of k t x k' v'] t(2) by (auto split: if_splits)
  from remove_present [OF T [unfolded t(1)] this] Some t(1) show ?thesis by auto
qed

section \<open>Traversals\<close>

lemma visit_rep: "rep h t \<Longrightarrow> treeset_visit_recursive h (adr t) = Some (leaves t)"
  by (induction t) (subst treeset_visit_recursive.simps, auto)+

lemma verify_rep:
  assumes "rep h t" and "bst t" and "\<forall>(x, v) \<in> set (leaves t). (\<forall>b. limit_b = Some b \<longrightarrow> b \<le> x) \<and> (\<forall>e. limit_e = Some e \<longrightarrow> x < e)"
  shows "treeset_verify_recursive h limit_b limit_e (adr t) = Some ()"
  using assms
proof (induction t arbitrary: limit_b limit_e)
  case (TExt a k v)
  then show ?case by (subst treeset_verify_recursive.simps) (auto split: option.splits)
next
  case (TInt a k l r)
  obtain x v where x: "(x, v) \<in> set (leaves l)" using leaves_nonempty [of l] by (metis ex_in_conv set_empty surj_pair)
  obtain y w where y: "(y, w) \<in> set (leaves r)" using leaves_nonempty [of r] by (metis ex_in_conv set_empty surj_pair)
  have "x < k" "k \<le> y" using x y TInt.prems(2) by auto
  have b: "b \<le> k" if "limit_b = Some b" for b
  proof -
    have "b \<le> x" using x TInt.prems(3) that by fastforce
    then show ?thesis using \<open>x < k\<close> by simp
  qed
  have e: "k < e" if "limit_e = Some e" for e
  proof -
    have "y < e" using y TInt.prems(3) that by fastforce
    then show ?thesis using \<open>k \<le> y\<close> by simp
  qed
  have l: "treeset_verify_recursive h limit_b (Some k) (adr l) = Some ()" by (rule TInt.IH(1)) (use TInt.prems in fastforce)+
  have r: "treeset_verify_recursive h (Some k) limit_e (adr r) = Some ()" by (rule TInt.IH(2)) (use TInt.prems in fastforce)+
  show ?case using TInt.prems(1) l r b e by (subst treeset_verify_recursive.simps) (auto split: option.splits)
qed

lemma putall_rep:
  assumes "rep h t" and "distinct (addrs t)" and "unlocked fine h"
  shows "treeset_putall_recursive fine (adr t) h = Some (\<lambda>a. if a \<in> set (addrs t) then None else h a)"
  using assms
proof (induction t arbitrary: h)
  case (TExt a k v)
  then obtain n where "h a = Some n" "tn_external n" "fine \<longrightarrow> \<not> tn_locked n" by (auto simp: unlocked_def)
  then show ?case by (subst treeset_putall_recursive.simps) (auto simp: l_destroy_def treeset_put_node_def fun_eq_iff)
next
  case (TInt a k l r)
  let ?h1 = "\<lambda>b. if b \<in> set (addrs l) then None else h b"
  let ?h2 = "\<lambda>b. if b \<in> set (addrs r) then None else ?h1 b"
  from TInt.prems obtain n where n: "h a = Some n" "\<not> tn_external n" "tn_child n False = Some (adr l)" "tn_child n True = Some (adr r)" "fine \<longrightarrow> \<not> tn_locked n"
    by (auto simp: unlocked_def)
  have l: "treeset_putall_recursive fine (adr l) h = Some ?h1" using TInt.IH(1) [of h] TInt.prems by simp
  have "h b = ?h1 b" if "b \<in> set (addrs r)" for b using that TInt.prems(2) by auto
  then have "rep ?h1 r" using TInt.prems(1) rep_cong [of r h ?h1] by auto
  moreover have "unlocked fine ?h1" using TInt.prems(3) by (auto simp: unlocked_def)
  ultimately have r: "treeset_putall_recursive fine (adr r) ?h1 = Some ?h2" using TInt.IH(2) [of ?h1] TInt.prems(2) by simp
  have "?h1 a = Some n" "?h2 a = Some n" using n(1) TInt.prems(2) by auto
  then show ?case using n l r by (subst treeset_putall_recursive.simps) (auto simp: l_destroy_def treeset_put_node_def fun_eq_iff)
qed

section \<open>The fine-grained tree is a tree set\<close>

fun tree_call :: "bool \<Rightarrow> 'a mem_lib \<Rightarrow> tree_op \<Rightarrow> 'a theap \<Rightarrow> (tree_ret \<times> 'a theap) option" where
  "tree_call fine ml (TAdd k v) h = treeset_add fine ml k v h"
| "tree_call fine ml (TRemove k) h = treeset_remove fine k h"
| "tree_call fine ml (TContains k) h = treeset_contains fine k h"

definition bst_inv :: "bool \<Rightarrow> 'a theap \<Rightarrow> (tkey \<Rightarrow> ptr option) \<Rightarrow> bool" where
  "bst_inv fine h m \<longleftrightarrow> (\<exists>T. tree_in fine h T \<and> contents T = m)"

definition only_head :: "'a theap \<Rightarrow> bool" where
  "only_head h \<longleftrightarrow> dom h = {HEAD}"

lemma contents_None [simp]: "contents None = Map.empty"
  by (auto simp: contents_def)

lemma bst_call_ok:
  assumes "bst_inv fine h m" and "malloc_ok ml"
  shows "\<exists>h'. tree_call fine ml op h = Some (fst (map_call op m), h') \<and> bst_inv fine h' (snd (map_call op m))"
proof -
  obtain T where T: "tree_in fine h T" "contents T = m" using assms(1) by (auto simp: bst_inv_def)
  show ?thesis unfolding bst_inv_def T(2) [symmetric]
    using T(1) add_ok [OF T(1) assms(2)] remove_ok [OF T(1)] contains_ok [OF T(1)] by (cases op) fastforce+
qed

lemma bst_init_ok:
  assumes "only_head h"
  shows "\<exists>h'. treeset_init fine h = Some h' \<and> bst_inv fine h' Map.empty"
proof -
  obtain n where n: "h HEAD = Some n" using assms by (auto simp: only_head_def)
  have "\<exists>h'. treeset_init fine h = Some h' \<and> tree_in fine h' None"
    using n assms by (auto simp: only_head_def treeset_init_def node_upd_def l_init_def tree_in_def unlocked_def domIff split: if_splits)
  then show ?thesis using contents_None unfolding bst_inv_def by blast
qed

lemma map_of_leaves: "bst t \<Longrightarrow> map_of (leaves t) = contents (Some t)"
proof
  fix k
  assume b: "bst t"
  then have "distinct (map fst (leaves t))" using bst_sorted strict_sorted_iff by blast
  then show "map_of (leaves t) k = contents (Some t) k"
    using look_leaves [OF b, of k] by (intro option_eqI) (simp add: contents_def)
qed

lemma bst_visit_ok:
  assumes "bst_inv fine h m"
  shows "\<exists>xs. treeset_visit h = Some xs \<and> sorted_wrt (<) (map fst xs) \<and> map_of xs = m"
proof -
  obtain T where T: "tree_in fine h T" "contents T = m" using assms by (auto simp: bst_inv_def)
  show ?thesis
  proof (cases T)
    case None
    then show ?thesis using T by (auto simp: treeset_visit_def tree_in_def)
  next
    case (Some t)
    then obtain n where n: "h HEAD = Some n" "tn_child n False = Some (adr t)" "rep h t" "bst t" using T(1) tree_inD by metis
    then show ?thesis using visit_rep [OF n(3)] bst_sorted [OF n(4)] map_of_leaves [OF n(4)] T(2) Some by (simp add: treeset_visit_def)
  qed
qed

lemma bst_verify_ok:
  assumes "bst_inv fine h m"
  shows "treeset_verify h = Some ()"
proof -
  obtain T where T: "tree_in fine h T" using assms by (auto simp: bst_inv_def)
  show ?thesis
  proof (cases T)
    case None
    then show ?thesis using T by (auto simp: treeset_verify_def tree_in_def)
  next
    case (Some t)
    then obtain n where n: "h HEAD = Some n" "tn_child n False = Some (adr t)" "rep h t" "bst t" using T(1) tree_inD by metis
    then show ?thesis using verify_rep [OF n(3,4), of None None] by (simp add: treeset_verify_def)
  qed
qed

lemma bst_destroy_ok:
  assumes "bst_inv fine h m"
  shows "\<exists>h'. treeset_destroy fine h = Some h' \<and> only_head h'"
proof -
  obtain T where T: "tree_in fine h T" using assms by (auto simp: bst_inv_def)
  show ?thesis
  proof (cases T)
    case None
    then show ?thesis using T by (auto simp: treeset_destroy_def tree_in_def l_destroy_def only_head_def unlocked_def)
  next
    case (Some t)
    then obtain n where n: "h HEAD = Some n" "tn_child n False = Some (adr t)" "rep h t" "distinct (addrs t)" "HEAD \<notin> set (addrs t)" "unlocked fine h"
      "dom h = insert HEAD (set (addrs t))" using T(1) tree_inD by metis
    let ?h = "\<lambda>a. if a \<in> set (addrs t) then None else h a"
    have "dom ?h = {HEAD}" using n(5,7) by (auto simp: dom_def split: if_splits)
    moreover have "l_destroy fine HEAD ?h = Some ?h" using n(1,5) unlockedD [OF n(6,1)] by (simp add: l_destroy_def)
    ultimately show ?thesis using n(1,2) putall_rep [OF n(3,4,6)] by (simp add: treeset_destroy_def only_head_def)
  qed
qed

interpretation bst_fine: treeset_impl "bst_inv fine" malloc_ok only_head "treeset_init fine" "tree_call fine" treeset_visit treeset_verify "treeset_destroy fine"
  for fine :: bool
  by unfold_locales (simp_all add: bst_init_ok bst_call_ok bst_visit_ok bst_verify_ok bst_destroy_ok)

section \<open>The coarse-grained tree\<close>

text \<open>
  \<^verbatim>\<open>treeset_bst_coarse.h\<close> compiles the code above with the lock operations of the nodes defined away (\<open>fine\<close> is false; the
  nodes have no lock, so \<open>tn_locked\<close> is never read) and takes one lock for the whole tree.
\<close>

record 'a coarse_tree =
  coarse_lock :: bool
  ct_heap :: "'a theap"

definition cl_acquire :: "'a coarse_tree \<Rightarrow> 'a coarse_tree option" where
  "cl_acquire t = (if coarse_lock t then None else Some (t\<lparr>coarse_lock := True\<rparr>))"

definition cl_release :: "'a coarse_tree \<Rightarrow> 'a coarse_tree option" where
  "cl_release t = (if coarse_lock t then Some (t\<lparr>coarse_lock := False\<rparr>) else None)"

definition treeset_init_coarse :: "'a coarse_tree \<Rightarrow> 'a coarse_tree option" where
  "treeset_init_coarse t = do { let t = t\<lparr>coarse_lock := False\<rparr>; h \<leftarrow> treeset_init False (ct_heap t); Some (t\<lparr>ct_heap := h\<rparr>) }"

definition treeset_destroy_coarse :: "'a coarse_tree \<Rightarrow> 'a coarse_tree option" where
  "treeset_destroy_coarse t = (if coarse_lock t then None else do { h \<leftarrow> treeset_destroy False (ct_heap t); Some (t\<lparr>ct_heap := h\<rparr>) })"

definition treeset_add_coarse :: "'a mem_lib \<Rightarrow> tkey \<Rightarrow> ptr \<Rightarrow> 'a coarse_tree \<Rightarrow> (tree_ret \<times> 'a coarse_tree) option" where
  "treeset_add_coarse ml key value t = do {
     t \<leftarrow> cl_acquire t;
     (result, h) \<leftarrow> treeset_add False ml key value (ct_heap t);
     t \<leftarrow> cl_release (t\<lparr>ct_heap := h\<rparr>);
     Some (result, t) }"

definition treeset_remove_coarse :: "tkey \<Rightarrow> 'a coarse_tree \<Rightarrow> (tree_ret \<times> 'a coarse_tree) option" where
  "treeset_remove_coarse key t = do {
     t \<leftarrow> cl_acquire t;
     (result, h) \<leftarrow> treeset_remove False key (ct_heap t);
     t \<leftarrow> cl_release (t\<lparr>ct_heap := h\<rparr>);
     Some (result, t) }"

definition treeset_contains_coarse :: "tkey \<Rightarrow> 'a coarse_tree \<Rightarrow> (tree_ret \<times> 'a coarse_tree) option" where
  "treeset_contains_coarse key t = do {
     t \<leftarrow> cl_acquire t;
     (result, h) \<leftarrow> treeset_contains False key (ct_heap t);
     t \<leftarrow> cl_release (t\<lparr>ct_heap := h\<rparr>);
     Some (result, t) }"

definition treeset_visit_coarse :: "'a coarse_tree \<Rightarrow> (tkey \<times> ptr) list option" where
  "treeset_visit_coarse t = treeset_visit (ct_heap t)"

definition treeset_verify_coarse :: "'a coarse_tree \<Rightarrow> unit option" where
  "treeset_verify_coarse t = treeset_verify (ct_heap t)"

fun tree_call_coarse :: "'a mem_lib \<Rightarrow> tree_op \<Rightarrow> 'a coarse_tree \<Rightarrow> (tree_ret \<times> 'a coarse_tree) option" where
  "tree_call_coarse ml (TAdd k v) t = treeset_add_coarse ml k v t"
| "tree_call_coarse ml (TRemove k) t = treeset_remove_coarse k t"
| "tree_call_coarse ml (TContains k) t = treeset_contains_coarse k t"

definition bst_coarse_inv :: "'a coarse_tree \<Rightarrow> (tkey \<Rightarrow> ptr option) \<Rightarrow> bool" where
  "bst_coarse_inv t m \<longleftrightarrow> \<not> coarse_lock t \<and> bst_inv False (ct_heap t) m"

lemma tree_call_coarse:
  assumes "\<not> coarse_lock t" and "tree_call False ml op (ct_heap t) = Some (r, h)"
  shows "tree_call_coarse ml op t = Some (r, t\<lparr>ct_heap := h\<rparr>)"
  using assms
  by (cases op) (simp_all add: treeset_add_coarse_def treeset_remove_coarse_def treeset_contains_coarse_def cl_acquire_def cl_release_def)

interpretation bst_coarse: treeset_impl bst_coarse_inv malloc_ok "\<lambda>t. only_head (ct_heap t)" treeset_init_coarse tree_call_coarse
  treeset_visit_coarse treeset_verify_coarse treeset_destroy_coarse
proof (unfold_locales, goal_cases)
  case (1 t)
  then show ?case using bst_fine.init_law [of "ct_heap t" False] by (auto simp: treeset_init_coarse_def bst_coarse_inv_def)
next
  case (2 t m ml op)
  then obtain h where "tree_call False ml op (ct_heap t) = Some (fst (map_call op m), h)" "bst_inv False h (snd (map_call op m))"
    using bst_fine.call_law [of False "ct_heap t" m ml op] by (auto simp: bst_coarse_inv_def)
  then show ?case using 2 tree_call_coarse by (fastforce simp: bst_coarse_inv_def)
next
  case (3 t m)
  then show ?case using bst_fine.visit_law [of False "ct_heap t" m] by (simp add: treeset_visit_coarse_def bst_coarse_inv_def)
next
  case (4 t m)
  then show ?case using bst_fine.verify_law [of False "ct_heap t" m] by (simp add: treeset_verify_coarse_def bst_coarse_inv_def)
next
  case (5 t m)
  then show ?case using bst_fine.destroy_law [of False "ct_heap t" m] by (auto simp: treeset_destroy_coarse_def bst_coarse_inv_def)
qed

section \<open>The tree sets\<close>

text \<open>C22. A tree set initialised in fresh memory answers every sequence of additions, removals and searches as a map does: an addition
  succeeds when the key was absent and otherwise reports the value present, a removal and a search report whether the key was present and its
  value. Every call returns, and no assertion of the locks fails: each lock is taken at most once and given back once. This holds
  for hand-over-hand locking (\<open>fine\<close>) and for the code without locks.\<close>

theorem treeset_bst_refines_map:
  assumes "malloc_ok ml" and "only_head h"
  shows "\<exists>h0 h1. treeset_init fine h = Some h0 \<and> run_calls (tree_call fine ml) ops h0 = Some (fst (map_calls ops Map.empty), h1)"
  by (rule bst_fine.life_refines [OF assms])

definition wit_ml :: "unit mem_lib" where
  "wit_ml = \<lparr>ml_malloc = first_free 0, ml_junk = \<lparr>tn_locked = True, tn_key = 7, tn_external = True, tn_child = (\<lambda>_. None)\<rparr>\<rparr>"

definition wit_heap :: "unit theap" where
  "wit_heap = [HEAD \<mapsto> ml_junk wit_ml]"

definition wit_ops :: "tree_op list" where
  "wit_ops = [TAdd 5 (Some 1), TAdd 3 None, TAdd 9 (Some 2), TAdd 3 (Some 4), TRemove 5, TContains 5, TContains 9]"

lemma wit_tree: "malloc_ok wit_ml" "only_head wit_heap"
  by (simp_all add: wit_ml_def wit_heap_def first_free_ok only_head_def)

text \<open>Seven calls on a concrete tree, locked hand over hand.\<close>

theorem treeset_bst_refines_map_witness:
  "\<exists>h0 h1. treeset_init True wit_heap = Some h0 \<and> run_calls (tree_call True wit_ml) wit_ops h0 =
     Some ([(True, None), (True, None), (True, None), (False, Some None), (True, Some (Some 1)), (False, None), (True, Some (Some 2))], h1)"
  using treeset_bst_refines_map [OF wit_tree, of True wit_ops] by (simp add: wit_ops_def)

text \<open>After any sequence of calls the checks of \<open>_treeset_verify\<close> pass, \<open>treeset_visit\<close> visits exactly the elements the set holds, in
  increasing order of the keys, and \<open>treeset_destroy\<close> gives back every node (only the head, which is part of the set, remains), with no
  lock held.\<close>

theorem treeset_bst_end:
  assumes "malloc_ok ml" and "only_head h" and "treeset_init fine h = Some h0" and "run_calls (tree_call fine ml) ops h0 = Some (rs, h1)"
  shows "treeset_verify h1 = Some () \<and>
    (\<exists>xs. treeset_visit h1 = Some xs \<and> sorted_wrt (<) (map fst xs) \<and> map_of xs = snd (map_calls ops Map.empty)) \<and>
    (\<exists>h2. treeset_destroy fine h1 = Some h2 \<and> only_head h2)"
  by (rule bst_fine.life_end [OF assms])

definition wit_run :: "(tree_ret list \<times> unit theap) option" where
  "wit_run = do { h \<leftarrow> treeset_init True wit_heap; run_calls (tree_call True wit_ml) wit_ops h }"

lemma wit_run_ok: obtains h0 rs h1 where "treeset_init True wit_heap = Some h0" "run_calls (tree_call True wit_ml) wit_ops h0 = Some (rs, h1)" "wit_run = Some (rs, h1)"
  by (rule bst_fine.life_inv [OF wit_tree, of True wit_ops]) (simp add: wit_run_def)

theorem treeset_bst_end_witness:
  "\<exists>rs h1 h2. wit_run = Some (rs, h1) \<and> treeset_visit h1 \<noteq> None \<and> treeset_destroy True h1 = Some h2 \<and> only_head h2"
proof -
  obtain h0 rs h1 where h: "treeset_init True wit_heap = Some h0" "run_calls (tree_call True wit_ml) wit_ops h0 = Some (rs, h1)" "wit_run = Some (rs, h1)"
    by (rule wit_run_ok)
  show ?thesis using treeset_bst_end [OF wit_tree h(1,2)] h(3) by auto
qed

text \<open>C23. The coarse-grained tree set, which takes one lock around each call, answers every sequence of calls exactly as
  the fine-grained one does.\<close>

theorem treeset_bst_coarse_equiv:
  assumes "malloc_ok ml" and "only_head (ct_heap t)"
  shows "do { t \<leftarrow> treeset_init_coarse t; map_option fst (run_calls (tree_call_coarse ml) ops t) } =
    do { h \<leftarrow> treeset_init True (ct_heap t); map_option fst (run_calls (tree_call True ml) ops h) }"
proof -
  obtain t0 t1 where "treeset_init_coarse t = Some t0" "run_calls (tree_call_coarse ml) ops t0 = Some (fst (map_calls ops Map.empty), t1)"
    using bst_coarse.life_refines [OF assms, of ops] by blast
  moreover obtain h0 h1 where "treeset_init True (ct_heap t) = Some h0" "run_calls (tree_call True ml) ops h0 = Some (fst (map_calls ops Map.empty), h1)"
    using bst_fine.life_refines [OF assms, of True ops] by blast
  ultimately show ?thesis by simp
qed

theorem treeset_bst_coarse_equiv_witness:
  "do { t \<leftarrow> treeset_init_coarse \<lparr>coarse_lock = True, ct_heap = wit_heap\<rparr>; map_option fst (run_calls (tree_call_coarse wit_ml) wit_ops t) } =
    do { h \<leftarrow> treeset_init True wit_heap; map_option fst (run_calls (tree_call True wit_ml) wit_ops h) }"
  using treeset_bst_coarse_equiv [of wit_ml "\<lparr>coarse_lock = True, ct_heap = wit_heap\<rparr>" wit_ops] wit_tree by simp

end
