(* ===== verification/Ub_Queue.thy ===== *)
theory Ub_Queue
  imports Vatomicptr Linked_List Transition
begin

text \<open>
  What the unbounded queues share: the memory, the traversals (the same code in \<^verbatim>\<open>queue/unbounded_queue_lf.h\<close> and
  \<^verbatim>\<open>queue/unbounded_queue_total.h\<close>), and the sequential queue they implement. A queue is a list of nodes from the one
  \<open>head\<close> points to, which is a dummy; \<open>head\<close> and \<open>tail\<close> are never null.
\<close>

section \<open>Memory and traversals\<close>

record ub_mem =
  ub_head :: addr
  ub_tail :: addr
  ub_next :: "addr \<Rightarrow> addr option"
  ub_data :: "addr \<Rightarrow> addr option"

text \<open>The address of the node \<open>sentinel\<close> inside the queue.\<close>

definition SENTINEL :: addr where "SENTINEL = 0"

text \<open>\<open>vqueue_ub_destroy\<close>: the nodes \<open>retire\<close> is called with.\<close>

partial_function (option) ub_destroy_loop :: "(addr \<Rightarrow> addr option) \<Rightarrow> addr option \<Rightarrow> addr list option" where
  [code]: "ub_destroy_loop h c = (case c of None \<Rightarrow> Some [] | Some a \<Rightarrow>
     Option.bind (ub_destroy_loop h (vatomicptr_read (h a))) (\<lambda>l. Some (if a \<noteq> SENTINEL then a # l else l)))"

definition vqueue_ub_destroy :: "'a ub_mem_scheme \<Rightarrow> addr list option" where
  "vqueue_ub_destroy q = ub_destroy_loop (ub_next q) (Some (vatomicptr_read (ub_head q)))"

text \<open>\<open>_vqueue_ub_visit_nodes\<close>: the nodes the visitor is called with; the dummy is skipped.\<close>

partial_function (option) ub_visit_loop :: "(addr \<Rightarrow> addr option) \<Rightarrow> addr option \<Rightarrow> addr list option" where
  [code]: "ub_visit_loop h c = (case c of None \<Rightarrow> Some [] | Some a \<Rightarrow>
     Option.bind (ub_visit_loop h (vatomicptr_read (h a))) (\<lambda>l. Some (a # l)))"

definition vqueue_ub_visit_nodes :: "'a ub_mem_scheme \<Rightarrow> addr list option" where
  "vqueue_ub_visit_nodes q = ub_visit_loop (ub_next q) (vatomicptr_read (ub_next q (vatomicptr_read (ub_head q))))"

lemma ub_visit_chain: "chain h p xs \<Longrightarrow> ub_visit_loop h p = Some xs"
  by (induction xs arbitrary: p) (subst ub_visit_loop.simps, simp add: vatomic_simps)+

lemma ub_destroy_chain: "chain h p xs \<Longrightarrow> ub_destroy_loop h p = Some (filter (\<lambda>a. a \<noteq> SENTINEL) xs)"
  by (induction xs arbitrary: p) (subst ub_destroy_loop.simps, simp add: vatomic_simps)+

section \<open>The sequential queue\<close>

text \<open>Its contents are the data pointers; a dequeue that finds it empty returns a null pointer.\<close>

datatype ub_event = EvEnq "addr option" | EvDeq "addr option" | EvEmpty | EvNonempty | EvLength u64

fun ub_apply :: "ub_event \<Rightarrow> addr option list \<Rightarrow> addr option list option" where
  "ub_apply (EvEnq d) q = Some (q @ [d])"
| "ub_apply (EvDeq d) q = (case q of [] \<Rightarrow> None | x # xs \<Rightarrow> if x = d then Some xs else None)"
| "ub_apply EvEmpty q = (if q = [] then Some [] else None)"
| "ub_apply EvNonempty q = (if q \<noteq> [] then Some q else None)"
| "ub_apply (EvLength n) q = (if n = of_nat (length q) then Some q else None)"

fun ub_replay :: "ub_event list \<Rightarrow> addr option list \<Rightarrow> addr option list option" where
  "ub_replay [] q = Some q"
| "ub_replay (e # es) q = Option.bind (ub_apply e q) (ub_replay es)"

lemma ub_replay_snoc: "ub_replay es q = Some q' \<Longrightarrow> ub_replay (es @ [e]) q = ub_apply e q'"
  by (induction es arbitrary: q) (auto simp: bind_eq_Some_conv split: Option.bind_splits)

text \<open>What a history means for the values: the dequeued ones are a prefix of the enqueued ones, in the same order.\<close>

fun enqueued :: "ub_event list \<Rightarrow> addr option list" where
  "enqueued [] = []"
| "enqueued (EvEnq d # es) = d # enqueued es"
| "enqueued (e # es) = enqueued es"

fun dequeued :: "ub_event list \<Rightarrow> addr option list" where
  "dequeued [] = []"
| "dequeued (EvDeq d # es) = d # dequeued es"
| "dequeued (e # es) = dequeued es"

lemma ub_replay_fifo: "ub_replay es q = Some q' \<Longrightarrow> q @ enqueued es = dequeued es @ q'"
proof (induction es arbitrary: q)
  case (Cons e es)
  then obtain q1 where q: "ub_apply e q = Some q1" "ub_replay es q1 = Some q'" by (auto simp: bind_eq_Some_conv)
  show ?case
  proof (cases e)
    case (EvDeq d)
    then obtain xs where "q = d # xs" "q1 = xs" using q(1) by (cases q) (auto split: if_splits)
    then show ?thesis using Cons.IH [OF q(2)] EvDeq by simp
  qed (use Cons.IH [OF q(2)] q(1) in \<open>auto split: if_splits\<close>)
qed simp

end
