(* ===== verification/Ub_Lf.thy ===== *)
theory Ub_Lf
  imports Ub_Queue
begin

text \<open>
  The lock-free queue of \<^verbatim>\<open>queue/unbounded_queue_lf.h\<close> (Michael and Scott). One step of an enqueue or a dequeue is one
  access to the memory. The queue relies on safe memory reclamation: a node that was retired is used again
  only when no call in progress can still reach it. The \<open>verification_*\<close> macros are empty outside of model checking.
\<close>

section \<open>Operations\<close>

definition vqueue_ub_init :: "ub_mem \<Rightarrow> ub_mem" where
  "vqueue_ub_init q = q\<lparr>ub_data := (ub_data q)(SENTINEL := None),
     ub_next := (ub_next q)(SENTINEL := vatomicptr_write (ub_next q SENTINEL) None),
     ub_head := vatomicptr_write (ub_head q) SENTINEL, ub_tail := vatomicptr_write (ub_tail q) SENTINEL\<rparr>"

datatype enq_pc = EnData | EnNext | EnReadTail | EnReadNext addr | EnCheck addr "addr option" | EnCas addr | EnHelp addr addr | EnSwing addr

text \<open>\<open>vqueue_ub_enq\<close> of the node \<open>n\<close> with the data \<open>d\<close>, which is asserted not to be null.\<close>

fun vqueue_ub_enq :: "addr \<Rightarrow> addr \<Rightarrow> enq_pc \<Rightarrow> ub_mem \<Rightarrow> (enq_pc + unit) \<times> ub_mem" where
  "vqueue_ub_enq n d EnData q = (Inl EnNext, q\<lparr>ub_data := (ub_data q)(n := Some d)\<rparr>)"
| "vqueue_ub_enq n d EnNext q = (Inl EnReadTail, q\<lparr>ub_next := (ub_next q)(n := vatomicptr_write (ub_next q n) None)\<rparr>)"
| "vqueue_ub_enq n d EnReadTail q = (Inl (EnReadNext (vatomicptr_read (ub_tail q))), q)"
| "vqueue_ub_enq n d (EnReadNext lst) q = (Inl (EnCheck lst (vatomicptr_read (ub_next q lst))), q)"
| "vqueue_ub_enq n d (EnCheck lst nxt) q =
     (Inl (if lst = vatomicptr_read (ub_tail q) then (case nxt of None \<Rightarrow> EnCas lst | Some x \<Rightarrow> EnHelp lst x) else EnReadTail), q)"
| "vqueue_ub_enq n d (EnCas lst) q =
     (let (old, a) = vatomicptr_cmpxchg (ub_next q lst) None (Some n)
      in (Inl (if old = None then EnSwing lst else EnReadTail), q\<lparr>ub_next := (ub_next q)(lst := a)\<rparr>))"
| "vqueue_ub_enq n d (EnHelp lst x) q =
     (let (old, a) = vatomicptr_cmpxchg (ub_tail q) lst x in (Inl EnReadTail, q\<lparr>ub_tail := a\<rparr>))"
| "vqueue_ub_enq n d (EnSwing lst) q =
     (let (old, a) = vatomicptr_cmpxchg (ub_tail q) lst n in (Inr (), q\<lparr>ub_tail := a\<rparr>))"

datatype deq_pc = DqReadHead | DqReadTail addr | DqReadNext addr addr | DqCheck addr addr "addr option" | DqHelp addr addr
  | DqData addr addr | DqCas addr addr "addr option"

text \<open>\<open>vqueue_ub_deq\<close>: the result is the returned data and the node \<open>retire\<close> is called with; \<open>None\<close> is a failed assertion.\<close>

fun vqueue_ub_deq :: "deq_pc \<Rightarrow> ub_mem \<Rightarrow> ((deq_pc + addr option \<times> addr option) \<times> ub_mem) option" where
  "vqueue_ub_deq DqReadHead q = Some (Inl (DqReadTail (vatomicptr_read (ub_head q))), q)"
| "vqueue_ub_deq (DqReadTail first) q = Some (Inl (DqReadNext first (vatomicptr_read (ub_tail q))), q)"
| "vqueue_ub_deq (DqReadNext first lst) q = Some (Inl (DqCheck first lst (vatomicptr_read (ub_next q first))), q)"
| "vqueue_ub_deq (DqCheck first lst nxt) q =
     (if first = vatomicptr_read (ub_head q) then
        (if first = lst then (case nxt of None \<Rightarrow> Some (Inr (None, None), q) | Some x \<Rightarrow> Some (Inl (DqHelp lst x), q))
         else (case nxt of None \<Rightarrow> None | Some x \<Rightarrow> Some (Inl (DqData first x), q)))
      else Some (Inl DqReadHead, q))"
| "vqueue_ub_deq (DqHelp lst x) q =
     (let (old, a) = vatomicptr_cmpxchg (ub_tail q) lst x in Some (Inl DqReadHead, q\<lparr>ub_tail := a\<rparr>))"
| "vqueue_ub_deq (DqData first x) q = Some (Inl (DqCas first x (ub_data q x)), q)"
| "vqueue_ub_deq (DqCas first x data) q =
     (let (old, a) = vatomicptr_cmpxchg (ub_head q) first x
      in Some (if old = first then Inr (data, if first \<noteq> SENTINEL then Some first else None) else Inl DqReadHead, q\<lparr>ub_head := a\<rparr>))"

text \<open>\<open>vqueue_ub_get_length\<close>; \<open>behind\<close> is \<open>is_sentinel_behind\<close>, and \<open>None\<close> is a failed assertion or a null pointer.\<close>

partial_function (option) ub_length_loop :: "ub_mem \<Rightarrow> addr \<Rightarrow> bool \<Rightarrow> addr \<Rightarrow> nat \<Rightarrow> nat option" where
  [code]: "ub_length_loop q tail behind c count =
     (if c \<noteq> tail then
        (if \<not> behind \<or> c \<noteq> SENTINEL then Option.bind (vatomicptr_read (ub_next q c)) (\<lambda>c. ub_length_loop q tail True c (Suc count)) else None)
      else Some count)"

definition vqueue_ub_get_length :: "ub_mem \<Rightarrow> nat option" where
  "vqueue_ub_get_length q = ub_length_loop q (vatomicptr_read (ub_tail q)) False (vatomicptr_read (ub_head q)) 0"

definition vqueue_ub_empty :: "ub_mem \<Rightarrow> bool" where
  "vqueue_ub_empty q \<longleftrightarrow> vatomicptr_read (ub_head q) = vatomicptr_read (ub_tail q)"

section \<open>Threads\<close>

text \<open>
  Every node is in the queue or belongs to a thread (the sentinel never does). A retired node belongs to the thread that
  dequeued it. Under safe memory reclamation its owner may use it again, or write anything to it, when no call in progress
  refers to it (\<open>lq_ref\<close>: the nodes a call may still read or compare with). The history records each call at its effect;
  \<open>lq_empty t\<close> says that the queue was empty at some moment of the call \<open>t\<close> is in.
\<close>

datatype lfq_pc = LqIdle | LqEnq addr addr enq_pc | LqDeq deq_pc

datatype lfq_cmd = CmdEnq addr addr | CmdDeq | CmdWrite addr "addr option" "addr option" | CmdRun

record lfq_sys =
  lq_mem :: ub_mem
  lq_pcs :: "tid \<Rightarrow> lfq_pc"
  lq_owner :: "addr \<Rightarrow> tid option"
  lq_hist :: "ub_event list"
  lq_empty :: "tid \<Rightarrow> bool"

fun lq_ref :: "lfq_pc \<Rightarrow> addr \<Rightarrow> bool" where
  "lq_ref (LqEnq _ _ (EnReadNext l)) a \<longleftrightarrow> a = l"
| "lq_ref (LqEnq _ _ (EnCheck l _)) a \<longleftrightarrow> a = l"
| "lq_ref (LqEnq _ _ (EnCas l)) a \<longleftrightarrow> a = l"
| "lq_ref (LqEnq _ _ (EnHelp l _)) a \<longleftrightarrow> a = l"
| "lq_ref (LqEnq _ _ (EnSwing l)) a \<longleftrightarrow> a = l"
| "lq_ref (LqDeq (DqReadTail f)) a \<longleftrightarrow> a = f"
| "lq_ref (LqDeq (DqReadNext f _)) a \<longleftrightarrow> a = f"
| "lq_ref (LqDeq (DqCheck f _ _)) a \<longleftrightarrow> a = f"
| "lq_ref (LqDeq (DqHelp l _)) a \<longleftrightarrow> a = l"
| "lq_ref (LqDeq (DqData f x)) a \<longleftrightarrow> a = f \<or> a = x"
| "lq_ref (LqDeq (DqCas f _ _)) a \<longleftrightarrow> a = f"
| "lq_ref _ a \<longleftrightarrow> False"

definition lq_is_empty :: "ub_mem \<Rightarrow> bool" where
  "lq_is_empty q \<longleftrightarrow> ub_next q (ub_head q) = None"

text \<open>After every step the calls in progress see whether the queue is empty.\<close>

definition lq_note :: "lfq_sys \<Rightarrow> lfq_sys" where
  "lq_note s = (if lq_is_empty (lq_mem s) then s\<lparr>lq_empty := (\<lambda>_. True)\<rparr> else s)"

lemma lq_note_sel [simp]:
  "lq_mem (lq_note s) = lq_mem s" "lq_pcs (lq_note s) = lq_pcs s" "lq_owner (lq_note s) = lq_owner s" "lq_hist (lq_note s) = lq_hist s"
  "lq_empty (lq_note s) = (\<lambda>u. lq_empty s u \<or> lq_is_empty (lq_mem s))"
  by (auto simp: lq_note_def)

definition do_enq :: "lfq_sys \<Rightarrow> tid \<Rightarrow> addr \<Rightarrow> addr \<Rightarrow> enq_pc \<Rightarrow> lfq_sys" where
  "do_enq s t n d pc = (case vqueue_ub_enq n d pc (lq_mem s) of
     (Inl pc', q) \<Rightarrow>
       (if (case pc' of EnSwing _ \<Rightarrow> True | _ \<Rightarrow> False)
        then s\<lparr>lq_mem := q, lq_pcs := (lq_pcs s)(t := LqEnq n d pc'), lq_owner := (lq_owner s)(n := None), lq_hist := lq_hist s @ [EvEnq (Some d)]\<rparr>
        else s\<lparr>lq_mem := q, lq_pcs := (lq_pcs s)(t := LqEnq n d pc')\<rparr>)
   | (Inr _, q) \<Rightarrow> s\<lparr>lq_mem := q, lq_pcs := (lq_pcs s)(t := LqIdle)\<rparr>)"

definition do_deq :: "lfq_sys \<Rightarrow> tid \<Rightarrow> deq_pc \<Rightarrow> lfq_sys option" where
  "do_deq s t pc = (case vqueue_ub_deq pc (lq_mem s) of
     None \<Rightarrow> None
   | Some (Inl pc', q) \<Rightarrow> Some (s\<lparr>lq_mem := q, lq_pcs := (lq_pcs s)(t := LqDeq pc')\<rparr>)
   | Some (Inr (d, r), q) \<Rightarrow>
       Some (if (case pc of DqCas _ _ _ \<Rightarrow> True | _ \<Rightarrow> False)
         then s\<lparr>lq_mem := q, lq_pcs := (lq_pcs s)(t := LqIdle),
           lq_owner := (case r of None \<Rightarrow> lq_owner s | Some n \<Rightarrow> (lq_owner s)(n \<mapsto> t)), lq_hist := lq_hist s @ [EvDeq d]\<rparr>
         else s\<lparr>lq_mem := q, lq_pcs := (lq_pcs s)(t := LqIdle)\<rparr>))"

definition lq_unused :: "nat \<Rightarrow> lfq_sys \<Rightarrow> tid \<Rightarrow> addr \<Rightarrow> bool" where
  "lq_unused N s t n \<longleftrightarrow> lq_owner s n = Some t \<and> list_all (\<lambda>u. \<not> lq_ref (lq_pcs s u) n) [0..<N]"

fun lfq_step :: "nat \<Rightarrow> tid \<times> lfq_cmd \<Rightarrow> lfq_sys \<Rightarrow> lfq_sys option" where
  "lfq_step N (t, cmd) s =
     (if t < N then map_option lq_note
        (case (lq_pcs s t, cmd) of
           (LqIdle, CmdEnq n d) \<Rightarrow>
             (if lq_unused N s t n then Some (do_enq (s\<lparr>lq_empty := (lq_empty s)(t := lq_is_empty (lq_mem s))\<rparr>) t n d EnData) else None)
         | (LqIdle, CmdDeq) \<Rightarrow> do_deq (s\<lparr>lq_empty := (lq_empty s)(t := lq_is_empty (lq_mem s))\<rparr>) t DqReadHead
         | (LqIdle, CmdWrite n v d) \<Rightarrow>
             (if lq_unused N s t n
              then Some (s\<lparr>lq_mem := (lq_mem s)\<lparr>ub_next := (ub_next (lq_mem s))(n := v), ub_data := (ub_data (lq_mem s))(n := d)\<rparr>\<rparr>) else None)
         | (LqEnq n d pc, CmdRun) \<Rightarrow> Some (do_enq s t n d pc)
         | (LqDeq pc, CmdRun) \<Rightarrow> do_deq s t pc
         | _ \<Rightarrow> None)
      else None)"

definition lfq_start :: "(addr \<Rightarrow> tid) \<Rightarrow> ub_mem \<Rightarrow> lfq_sys" where
  "lfq_start own m = \<lparr>lq_mem = vqueue_ub_init m, lq_pcs = (\<lambda>_. LqIdle), lq_owner = (\<lambda>n. if n = SENTINEL then None else Some (own n)),
     lq_hist = [], lq_empty = (\<lambda>_. True)\<rparr>"

section \<open>The invariant\<close>

text \<open>
  \<open>Q\<close> lists the nodes of the queue from the dummy on. A call that remembers a head \<open>f\<close> knows: if \<open>f\<close> is still in the
  queue it is still the head.
\<close>

fun enq_before :: "enq_pc \<Rightarrow> bool" where
  "enq_before (EnSwing _) \<longleftrightarrow> False" | "enq_before _ \<longleftrightarrow> True"

fun enq_ok :: "ub_mem \<Rightarrow> addr \<Rightarrow> addr \<Rightarrow> enq_pc \<Rightarrow> bool" where
  "enq_ok q n d EnData \<longleftrightarrow> True"
| "enq_ok q n d EnNext \<longleftrightarrow> ub_data q n = Some d"
| "enq_ok q n d (EnCheck l nxt) \<longleftrightarrow> ub_data q n = Some d \<and> ub_next q n = None \<and> (\<forall>x. nxt = Some x \<longrightarrow> ub_next q l = Some x)"
| "enq_ok q n d (EnHelp l x) \<longleftrightarrow> ub_data q n = Some d \<and> ub_next q n = None \<and> ub_next q l = Some x"
| "enq_ok q n d (EnSwing l) \<longleftrightarrow> ub_next q l = Some n"
| "enq_ok q n d _ \<longleftrightarrow> ub_data q n = Some d \<and> ub_next q n = None"

definition was_head :: "ub_mem \<Rightarrow> addr list \<Rightarrow> addr \<Rightarrow> bool" where
  "was_head q Q f \<longleftrightarrow> (f \<in> set Q \<longrightarrow> f = ub_head q)"

fun deq_ok :: "ub_mem \<Rightarrow> addr list \<Rightarrow> bool \<Rightarrow> deq_pc \<Rightarrow> bool" where
  "deq_ok q Q e DqReadHead \<longleftrightarrow> True"
| "deq_ok q Q e (DqReadTail f) \<longleftrightarrow> was_head q Q f"
| "deq_ok q Q e (DqReadNext f l) \<longleftrightarrow> was_head q Q f \<and> (f = ub_head q \<longrightarrow> l \<noteq> f \<longrightarrow> ub_tail q \<noteq> f)"
| "deq_ok q Q e (DqCheck f l nxt) \<longleftrightarrow> was_head q Q f \<and> (f = ub_head q \<longrightarrow> l \<noteq> f \<longrightarrow> ub_tail q \<noteq> f) \<and>
     (\<forall>x. nxt = Some x \<longrightarrow> ub_next q f = Some x) \<and> (nxt = None \<longrightarrow> f = ub_head q \<longrightarrow> l = f \<and> e)"
| "deq_ok q Q e (DqHelp l x) \<longleftrightarrow> ub_next q l = Some x"
| "deq_ok q Q e (DqData f x) \<longleftrightarrow> was_head q Q f \<and> (f = ub_head q \<longrightarrow> ub_tail q \<noteq> f) \<and> ub_next q f = Some x"
| "deq_ok q Q e (DqCas f x d) \<longleftrightarrow> was_head q Q f \<and> (f = ub_head q \<longrightarrow> ub_tail q \<noteq> f \<and> ub_data q x = d) \<and> ub_next q f = Some x"

fun thr_ok :: "ub_mem \<Rightarrow> addr list \<Rightarrow> bool \<Rightarrow> lfq_pc \<Rightarrow> bool" where
  "thr_ok q Q e LqIdle \<longleftrightarrow> True"
| "thr_ok q Q e (LqEnq n d pc) \<longleftrightarrow> enq_ok q n d pc"
| "thr_ok q Q e (LqDeq pc) \<longleftrightarrow> deq_ok q Q e pc"

definition lfq_inv :: "nat \<Rightarrow> lfq_sys \<Rightarrow> addr list \<Rightarrow> bool" where
  "lfq_inv N s Q \<longleftrightarrow> chain (ub_next (lq_mem s)) (Some (ub_head (lq_mem s))) Q \<and> ub_tail (lq_mem s) \<in> set Q \<and>
     ub_replay (lq_hist s) [] = Some (map (ub_data (lq_mem s)) (tl Q)) \<and>
     (\<forall>n. lq_owner s n = None \<longleftrightarrow> n \<in> set Q \<or> n = SENTINEL) \<and>
     (\<forall>t. thr_ok (lq_mem s) Q (lq_empty s t) (lq_pcs s t)) \<and>
     (\<forall>t a. lq_ref (lq_pcs s t) a \<longrightarrow> a \<in> set Q \<or> ub_next (lq_mem s) a \<noteq> None) \<and>
     (\<forall>t n d pc. lq_pcs s t = LqEnq n d pc \<longrightarrow> enq_before pc \<longrightarrow> lq_owner s n = Some t \<and> (\<forall>u. \<not> lq_ref (lq_pcs s u) n)) \<and>
     (\<forall>t. N \<le> t \<longrightarrow> lq_pcs s t = LqIdle) \<and> (lq_is_empty (lq_mem s) \<longrightarrow> (\<forall>t. lq_empty s t)) \<and> SENTINEL \<notin> set (tl Q)"

lemma lfq_invD:
  assumes "lfq_inv N s Q"
  shows "chain (ub_next (lq_mem s)) (Some (ub_head (lq_mem s))) Q" "ub_tail (lq_mem s) \<in> set Q"
    "ub_replay (lq_hist s) [] = Some (map (ub_data (lq_mem s)) (tl Q))" "lq_owner s n = None \<longleftrightarrow> n \<in> set Q \<or> n = SENTINEL"
    "thr_ok (lq_mem s) Q (lq_empty s t) (lq_pcs s t)" "lq_ref (lq_pcs s t) a \<Longrightarrow> a \<in> set Q \<or> ub_next (lq_mem s) a \<noteq> None"
    "lq_pcs s t = LqEnq n d pc \<Longrightarrow> enq_before pc \<Longrightarrow> lq_owner s n = Some t" "lq_pcs s t = LqEnq n d pc \<Longrightarrow> enq_before pc \<Longrightarrow> \<not> lq_ref (lq_pcs s u) n"
    "N \<le> t \<Longrightarrow> lq_pcs s t = LqIdle" "lq_is_empty (lq_mem s) \<Longrightarrow> lq_empty s t" "SENTINEL \<notin> set (tl Q)"
  using assms by (auto simp: lfq_inv_def)

lemma lfq_invI:
  assumes "chain (ub_next (lq_mem s)) (Some (ub_head (lq_mem s))) Q" and "ub_tail (lq_mem s) \<in> set Q"
    and "ub_replay (lq_hist s) [] = Some (map (ub_data (lq_mem s)) (tl Q))" and "\<And>n. lq_owner s n = None \<longleftrightarrow> n \<in> set Q \<or> n = SENTINEL"
    and "\<And>t. thr_ok (lq_mem s) Q (lq_empty s t) (lq_pcs s t)"
    and "\<And>t a. lq_ref (lq_pcs s t) a \<Longrightarrow> a \<in> set Q \<or> ub_next (lq_mem s) a \<noteq> None"
    and "\<And>t n d pc. lq_pcs s t = LqEnq n d pc \<Longrightarrow> enq_before pc \<Longrightarrow> lq_owner s n = Some t \<and> (\<forall>u. \<not> lq_ref (lq_pcs s u) n)"
    and "\<And>t. N \<le> t \<Longrightarrow> lq_pcs s t = LqIdle" and "\<And>t. lq_is_empty (lq_mem s) \<Longrightarrow> lq_empty s t"
    and "SENTINEL \<notin> set (tl Q)"
  shows "lfq_inv N s Q"
  using assms unfolding lfq_inv_def by blast

lemma lfq_Q:
  assumes "lfq_inv N s Q"
  obtains L where "Q = ub_head (lq_mem s) # L" "distinct Q" "chain (ub_next (lq_mem s)) (ub_next (lq_mem s) (ub_head (lq_mem s))) L"
    "lq_is_empty (lq_mem s) \<longleftrightarrow> L = []"
proof -
  obtain L where L: "Q = ub_head (lq_mem s) # L" "chain (ub_next (lq_mem s)) (ub_next (lq_mem s) (ub_head (lq_mem s))) L"
    using lfq_invD(1) [OF assms] by (auto simp: chain_Some)
  moreover have "distinct Q" by (rule chain_distinct [OF lfq_invD(1) [OF assms]])
  moreover have "lq_is_empty (lq_mem s) \<longleftrightarrow> L = []" using L(2) by (cases L) (auto simp: lq_is_empty_def)
  ultimately show thesis using that by blast
qed

text \<open>What a call knows survives a change of the memory that keeps what it refers to.\<close>

lemma thr_ok_frame:
  assumes ok: "thr_ok q Q e p"
    and next_: "\<And>a x. ub_next q a = Some x \<Longrightarrow> lq_ref p a \<Longrightarrow> ub_next q' a = Some x"
    and own: "\<And>n d pc. p = LqEnq n d pc \<Longrightarrow> enq_before pc \<Longrightarrow> ub_next q' n = ub_next q n \<and> ub_data q' n = ub_data q n"
    and Q: "\<And>a. lq_ref p a \<Longrightarrow> a \<in> set Q' \<Longrightarrow> a \<in> set Q"
    and head: "\<And>a. lq_ref p a \<Longrightarrow> a \<in> set Q' \<or> a = ub_head q' \<Longrightarrow> a = ub_head q \<Longrightarrow> a = ub_head q'"
    and head': "\<And>a. lq_ref p a \<Longrightarrow> a = ub_head q' \<Longrightarrow> a \<in> set Q"
    and tail: "ub_tail q \<noteq> ub_head q' \<Longrightarrow> ub_tail q' \<noteq> ub_head q'"
    and data: "\<And>a. ub_next q (ub_head q) = Some a \<Longrightarrow> ub_data q' a = ub_data q a"
    and e: "e \<Longrightarrow> e'"
  shows "thr_ok q' Q' e' p"
proof (cases p)
  case (LqEnq n d pc)
  then show ?thesis using ok next_ own [of n d pc] by (cases pc) auto
next
  case (LqDeq pc)
  have h: "was_head q Q f \<Longrightarrow> was_head q' Q' f" "was_head q Q f \<Longrightarrow> f = ub_head q' \<Longrightarrow> f = ub_head q" if "lq_ref p f" for f
    unfolding was_head_def using Q [OF that] head [OF that] head' [OF that] by blast+
  have t: "ub_tail q \<noteq> f \<Longrightarrow> ub_tail q' \<noteq> f" if "f = ub_head q'" for f using tail that by simp
  have d: "ub_data q' x = ub_data q x" if "f = ub_head q" "ub_next q f = Some x" for f x using data that by simp
  show ?thesis
  proof (cases pc)
    case (DqReadTail f)
    then show ?thesis using ok h(1) [of f] LqDeq by simp
  next
    case (DqReadNext f l)
    have "lq_ref p f" using LqDeq DqReadNext by simp
    with ok h [of f] t [of f] show ?thesis unfolding LqDeq DqReadNext thr_ok.simps deq_ok.simps by blast
  next
    case (DqCheck f l nxt)
    have "lq_ref p f" using LqDeq DqCheck by simp
    with ok h [of f] t [of f] next_ [of f] e show ?thesis unfolding LqDeq DqCheck thr_ok.simps deq_ok.simps by blast
  next
    case (DqHelp l x)
    then show ?thesis using ok LqDeq next_ [of l] by auto
  next
    case (DqData f x)
    have "lq_ref p f" using LqDeq DqData by simp
    with ok h [of f] t [of f] next_ [of f] show ?thesis unfolding LqDeq DqData thr_ok.simps deq_ok.simps by blast
  next
    case (DqCas f x v)
    have "lq_ref p f" using LqDeq DqCas by simp
    with ok h [of f] t [of f] next_ [of f] d [of f x] show ?thesis unfolding LqDeq DqCas thr_ok.simps deq_ok.simps by metis
  qed (use LqDeq in simp)
qed simp

section \<open>Steps\<close>

text \<open>A thread moves on: it may refer to nodes of the queue and to what it referred to before.\<close>

lemma lfq_goto:
  assumes I: "lfq_inv N s Q" and t: "t < N" and ok: "thr_ok (lq_mem s) Q (lq_empty s t) p"
    and refs: "\<And>a. lq_ref p a \<Longrightarrow> a \<in> set Q \<or> lq_ref (lq_pcs s t) a"
    and own: "\<And>n d pc. p = LqEnq n d pc \<Longrightarrow> enq_before pc \<Longrightarrow> lq_owner s n = Some t \<and> (\<forall>u. \<not> lq_ref (lq_pcs s u) n)"
  shows "lfq_inv N (s\<lparr>lq_pcs := (lq_pcs s)(t := p)\<rparr>) Q"
proof (rule lfq_invI, goal_cases)
  case (5 u)
  then show ?case using lfq_invD(5) [OF I, of u] ok by simp
next
  case (6 u a)
  then show ?case using lfq_invD(6) [OF I, of u a] lfq_invD(6) [OF I, of t a] refs [of a] by (auto split: if_splits)
next
  case (7 u n d pc)
  have o: "lq_owner s n = Some u" "\<And>v. \<not> lq_ref (lq_pcs s v) n"
    using 7 own [of n d pc] lfq_invD(7,8) [OF I, of u n d pc] by (auto split: if_splits)
  moreover have "\<not> lq_ref p n" using refs [of n] o lfq_invD(4) [OF I, of n] by auto
  ultimately show ?case by simp
next
  case (8 u)
  then show ?case using lfq_invD(9) [OF I] t by auto
qed (use lfq_invD [OF I] in \<open>auto\<close>)

lemma thr_ok_mono: "thr_ok q Q e p \<Longrightarrow> (e \<Longrightarrow> e') \<Longrightarrow> thr_ok q Q e' p"
proof (cases p)
  case (LqDeq pc)
  then show "thr_ok q Q e p \<Longrightarrow> (e \<Longrightarrow> e') \<Longrightarrow> thr_ok q Q e' p" by (cases pc) auto
qed auto

lemma lfq_note:
  assumes I: "lfq_inv N s Q"
  shows "lfq_inv N (lq_note s) Q"
proof (rule lfq_invI, goal_cases)
  case (5 u)
  then show ?case using thr_ok_mono [OF lfq_invD(5) [OF I, of u]] by simp
qed (use lfq_invD [OF I] in \<open>auto\<close>)

lemma lfq_begin:
  assumes I: "lfq_inv N s Q" and "lq_pcs s t = LqIdle"
  shows "lfq_inv N (s\<lparr>lq_empty := (lq_empty s)(t := lq_is_empty (lq_mem s))\<rparr>) Q"
proof (rule lfq_invI, goal_cases)
  case (5 u)
  then show ?case using lfq_invD(5) [OF I, of u] assms(2) by auto
qed (use lfq_invD [OF I] in \<open>auto\<close>)

text \<open>Writes to a node that belongs to a thread and that no call refers to.\<close>

lemma lfq_write:
  assumes I: "lfq_inv N s Q" and n: "lq_owner s n = Some t" and r: "\<And>u. \<not> lq_ref (lq_pcs s u) n"
    and q: "ub_head q = ub_head (lq_mem s)" "ub_tail q = ub_tail (lq_mem s)"
      "\<And>a. a \<noteq> n \<Longrightarrow> ub_next q a = ub_next (lq_mem s) a" "\<And>a. a \<noteq> n \<Longrightarrow> ub_data q a = ub_data (lq_mem s) a"
    and p: "\<And>m d pc. lq_pcs s t = LqEnq m d pc \<Longrightarrow> enq_before pc \<Longrightarrow> m \<noteq> n"
  shows "lfq_inv N (s\<lparr>lq_mem := q\<rparr>) Q"
proof -
  obtain L where L: "Q = ub_head (lq_mem s) # L" "distinct Q" "chain (ub_next (lq_mem s)) (ub_next (lq_mem s) (ub_head (lq_mem s))) L"
    by (rule lfq_Q [OF I])
  have nQ: "n \<notin> set Q" using lfq_invD(4) [OF I, of n] n by auto
  have "ub_next q = (ub_next (lq_mem s))(n := ub_next q n)" using q by auto
  then obtain v where nx: "ub_next q = (ub_next (lq_mem s))(n := v)" by blast
  have "ub_data q a = ub_data (lq_mem s) a" if "a \<in> set (tl Q)" for a using that nQ L(1) q(4) [of a] by auto
  then have m: "map (ub_data q) (tl Q) = map (ub_data (lq_mem s)) (tl Q)" by simp
  show ?thesis
  proof (rule lfq_invI, goal_cases)
    case 1
    then show ?case using lfq_invD(1) [OF I] nQ q(1) nx by (simp add: chain_upd)
  next
    case 3
    then show ?case using lfq_invD(3) [OF I] m by simp
  next
    case (5 u)
    have "thr_ok q Q (lq_empty s u) (lq_pcs s u)"
    proof (rule thr_ok_frame [OF lfq_invD(5) [OF I, of u]], goal_cases)
      case (1 a x)
      then show ?case using r [of u] q(3) [of a] by auto
    next
      case (2 m d pc)
      then have "m \<noteq> n" using lfq_invD(7) [OF I, of u m d pc] n p [of m d pc] by auto
      then show ?case using q by simp
    next
      case (7 a)
      then have "a \<in> set Q" using L(1,3) by (cases L) auto
      then show ?case using nQ q(4) [of a] by auto
    qed (use q(1,2) L(1) in auto)
    then show ?case by simp
  next
    case (6 u a)
    then show ?case using lfq_invD(6) [OF I, of u a] r [of u] q(3) [of a] by (cases "a = n") auto
  next
    case (9 u)
    then show ?case using lfq_invD(10) [OF I] nQ L(1) q(1) q(3) [of "ub_head (lq_mem s)"] by (auto simp: lq_is_empty_def)
  qed (use lfq_invD [OF I] q in \<open>auto\<close>)
qed

text \<open>Advancing the tail to the next node.\<close>

lemma lfq_swing:
  assumes I: "lfq_inv N s Q" and x: "ub_next (lq_mem s) (ub_tail (lq_mem s)) = Some x"
  shows "lfq_inv N (s\<lparr>lq_mem := (lq_mem s)\<lparr>ub_tail := x\<rparr>\<rparr>) Q"
proof -
  obtain L where L: "Q = ub_head (lq_mem s) # L" "distinct Q" by (rule lfq_Q [OF I])
  have xL: "x \<in> set L" using chain_next_Some [OF lfq_invD(1,2) [OF I] x] L(1) by simp
  show ?thesis
  proof (rule lfq_invI, goal_cases)
    case (5 u)
    have "thr_ok ((lq_mem s)\<lparr>ub_tail := x\<rparr>) Q (lq_empty s u) (lq_pcs s u)"
      by (rule thr_ok_frame [OF lfq_invD(5) [OF I, of u]]) (use L xL in auto)
    then show ?case by simp
  qed (use lfq_invD [OF I] L(1) xL in \<open>auto simp: lq_is_empty_def\<close>)
qed

text \<open>Linking a new node.\<close>

lemma lfq_link:
  assumes I: "lfq_inv N s Q" and t: "t < N" and p: "lq_pcs s t = LqEnq n d (EnCas l)" and l: "ub_next (lq_mem s) l = None"
  shows "lfq_inv N (s\<lparr>lq_mem := (lq_mem s)\<lparr>ub_next := (ub_next (lq_mem s))(l \<mapsto> n)\<rparr>, lq_pcs := (lq_pcs s)(t := LqEnq n d (EnSwing l)),
    lq_owner := (lq_owner s)(n := None), lq_hist := lq_hist s @ [EvEnq (Some d)]\<rparr>) (Q @ [n])"
proof -
  obtain L where L: "Q = ub_head (lq_mem s) # L" "distinct Q" by (rule lfq_Q [OF I])
  let ?q = "(lq_mem s)\<lparr>ub_next := (ub_next (lq_mem s))(l \<mapsto> n)\<rparr>"
  have n: "ub_data (lq_mem s) n = Some d" "ub_next (lq_mem s) n = None" using lfq_invD(5) [OF I, of t] p by simp_all
  have lQ: "l \<in> set Q" using lfq_invD(6) [OF I, of t l] p l by simp
  have ll: "l = last Q" by (rule chain_next_None [OF lfq_invD(1) [OF I] lQ l])
  have o: "lq_owner s n = Some t" "\<And>u. \<not> lq_ref (lq_pcs s u) n" using lfq_invD(7,8) [OF I p] by simp_all
  have nQ: "n \<notin> set Q" "n \<noteq> SENTINEL" using o(1) lfq_invD(4) [OF I, of n] by auto
  have nl: "n \<noteq> l" using nQ lQ by auto
  show ?thesis
  proof (rule lfq_invI, goal_cases)
    case 1
    have "chain ((ub_next (lq_mem s))(last Q := Some n)) (Some (ub_head (lq_mem s))) (Q @ [n])"
      by (rule chain_snoc [OF lfq_invD(1) [OF I] _ nQ(1) n(2)]) (use L in simp)
    then show ?case using ll by simp
  next
    case 3
    then show ?case using ub_replay_snoc [OF lfq_invD(3) [OF I], of "EvEnq (Some d)"] n(1) L(1) by simp
  next
    case (4 m)
    then show ?case using lfq_invD(4) [OF I, of m] by auto
  next
    case (5 u)
    have "thr_ok ?q (Q @ [n]) (lq_empty s u) (lq_pcs s u)" if "u \<noteq> t"
    proof (rule thr_ok_frame [OF lfq_invD(5) [OF I, of u]], goal_cases)
      case (1 a x)
      then show ?case using l by auto
    next
      case (2 m e pc)
      then have "lq_owner s m = Some u" by (rule lfq_invD(7) [OF I])
      then have "m \<noteq> l" using lQ lfq_invD(4) [OF I, of l] by auto
      then show ?case by simp
    qed (use o(2) L(1) in auto)
    then show ?case by simp
  next
    case (6 u a)
    then show ?case using lfq_invD(6) [OF I, of u a] lQ by (auto split: if_splits)
  next
    case (7 u m e pc)
    then have "u \<noteq> t" by auto
    then show ?case using 7 lfq_invD(7,8) [OF I, of u m e pc] o(1) lfq_invD(8) [OF I, of u m e pc t] p by (auto split: if_splits)
  next
    case (9 u)
    then have "lq_is_empty (lq_mem s)" by (auto simp: lq_is_empty_def split: if_splits)
    then show ?case using lfq_invD(10) [OF I] by simp
  qed (use lfq_invD [OF I] t L nQ(2) in \<open>auto\<close>)
qed

text \<open>Removing the dummy node.\<close>

lemma lfq_remove:
  assumes I: "lfq_inv N s Q" and t: "t < N" and p: "lq_pcs s t = LqDeq (DqCas f x v)" and f: "ub_head (lq_mem s) = f"
  shows "lfq_inv N (lq_note (s\<lparr>lq_mem := (lq_mem s)\<lparr>ub_head := x\<rparr>, lq_pcs := (lq_pcs s)(t := LqIdle),
    lq_owner := (if f \<noteq> SENTINEL then (lq_owner s)(f \<mapsto> t) else lq_owner s), lq_hist := lq_hist s @ [EvDeq v]\<rparr>)) (tl Q)"
proof -
  obtain L where L: "Q = f # L" "distinct Q" "chain (ub_next (lq_mem s)) (ub_next (lq_mem s) f) L" using lfq_Q [OF I] f by metis
  let ?q = "(lq_mem s)\<lparr>ub_head := x\<rparr>"
  have ok: "ub_tail (lq_mem s) \<noteq> f" "ub_data (lq_mem s) x = v" "ub_next (lq_mem s) f = Some x" using lfq_invD(5) [OF I, of t] p f by simp_all
  obtain L' where L': "L = x # L'" using L(3) ok(3) by (auto simp: chain_Some)
  have fx: "f \<noteq> x" using L(1,2) L' by auto
  show ?thesis
  proof (rule lfq_invI, goal_cases)
    case 1
    then show ?case using L ok(3) by simp
  next
    case 2
    then show ?case using lfq_invD(2) [OF I] L(1) ok(1) by simp
  next
    case 3
    then show ?case using ub_replay_snoc [OF lfq_invD(3) [OF I], of "EvDeq v"] L(1) L' ok(2) by simp
  next
    case (4 m)
    then show ?case using lfq_invD(4) [OF I, of m] L(1,2) by auto
  next
    case (5 u)
    have "thr_ok ?q (tl Q) (lq_empty s u \<or> lq_is_empty ?q) (lq_pcs s u)"
    proof (rule thr_ok_frame [OF lfq_invD(5) [OF I, of u]], goal_cases)
      case (7 a)
      then show ?case by simp
    qed (use L L' f fx ok in auto)
    then show ?case by simp
  next
    case (6 u a)
    then show ?case using lfq_invD(6) [OF I, of u a] L(1) ok(3) by (auto split: if_splits)
  next
    case (7 u m e pc)
    then have "u \<noteq> t" by auto
    moreover have "m \<noteq> f" using 7 lfq_invD(7) [OF I, of u m e pc] lfq_invD(4) [OF I, of m] L(1) \<open>u \<noteq> t\<close> by auto
    ultimately show ?case using 7 lfq_invD(7,8) [OF I, of u m e pc] by (auto split: if_splits)
  next
    case (9 u)
    then show ?case by simp
  qed (use lfq_invD [OF I] t L(1) L' in \<open>auto\<close>)
qed

section \<open>Every step keeps the invariant\<close>

lemma lfq_enq_goto:
  assumes I: "lfq_inv N s Q" and t: "t < N" and p: "lq_pcs s t = LqEnq n d pc" "enq_before pc" and ok: "enq_ok (lq_mem s) n d pc'"
    and refs: "\<And>a. lq_ref (LqEnq n d pc') a \<Longrightarrow> a \<in> set Q \<or> lq_ref (lq_pcs s t) a"
  shows "lfq_inv N (s\<lparr>lq_pcs := (lq_pcs s)(t := LqEnq n d pc')\<rparr>) Q"
  by (rule lfq_goto [OF I t _ refs]) (use ok lfq_invD(7,8) [OF I p] in auto)

lemma lfq_do_enq:
  assumes I: "lfq_inv N s Q" and t: "t < N" and p: "lq_pcs s t = LqEnq n d pc"
  shows "\<exists>Q'. lfq_inv N (do_enq s t n d pc) Q'"
proof -
  have own: "lq_owner s n = Some t" "\<not> lq_ref (lq_pcs s u) n" if "enq_before pc" for u using lfq_invD(7,8) [OF I p that] by auto
  have ok: "enq_ok (lq_mem s) n d pc" using lfq_invD(5) [OF I, of t] p by simp
  note go = lfq_enq_goto [OF I t p]
  show ?thesis
  proof (cases pc)
    case EnData
    let ?s = "s\<lparr>lq_pcs := (lq_pcs s)(t := LqIdle)\<rparr>"
    let ?q = "(lq_mem s)\<lparr>ub_data := (ub_data (lq_mem s))(n \<mapsto> d)\<rparr>"
    have "lfq_inv N ?s Q" by (rule lfq_goto [OF I t]) auto
    then have w: "lfq_inv N (?s\<lparr>lq_mem := ?q\<rparr>) Q" by (rule lfq_write) (use own EnData in \<open>auto\<close>)
    have "do_enq s t n d pc = (?s\<lparr>lq_mem := ?q\<rparr>)\<lparr>lq_pcs := (lq_pcs ?s)(t := LqEnq n d EnNext)\<rparr>" using EnData by (simp add: do_enq_def)
    moreover have "lfq_inv N \<dots> Q" using lfq_goto [OF w t, of "LqEnq n d EnNext"] own EnData by simp
    ultimately show ?thesis by auto
  next
    case EnNext
    let ?s = "s\<lparr>lq_pcs := (lq_pcs s)(t := LqIdle)\<rparr>"
    let ?q = "(lq_mem s)\<lparr>ub_next := (ub_next (lq_mem s))(n := None)\<rparr>"
    have "lfq_inv N ?s Q" by (rule lfq_goto [OF I t]) auto
    then have w: "lfq_inv N (?s\<lparr>lq_mem := ?q\<rparr>) Q" by (rule lfq_write) (use own EnNext in \<open>auto\<close>)
    have "do_enq s t n d pc = (?s\<lparr>lq_mem := ?q\<rparr>)\<lparr>lq_pcs := (lq_pcs ?s)(t := LqEnq n d EnReadTail)\<rparr>" using EnNext by (simp add: do_enq_def vatomic_simps)
    moreover have "lfq_inv N \<dots> Q" using lfq_goto [OF w t, of "LqEnq n d EnReadTail"] own EnNext ok by simp
    ultimately show ?thesis by auto
  next
    case EnReadTail
    then have "do_enq s t n d pc = s\<lparr>lq_pcs := (lq_pcs s)(t := LqEnq n d (EnReadNext (ub_tail (lq_mem s))))\<rparr>" by (simp add: do_enq_def vatomic_simps)
    moreover have "lfq_inv N \<dots> Q" by (rule go) (use EnReadTail ok lfq_invD(2) [OF I] in auto)
    ultimately show ?thesis by auto
  next
    case (EnReadNext l)
    then have "do_enq s t n d pc = s\<lparr>lq_pcs := (lq_pcs s)(t := LqEnq n d (EnCheck l (ub_next (lq_mem s) l)))\<rparr>" by (simp add: do_enq_def vatomic_simps)
    moreover have "lfq_inv N \<dots> Q" by (rule go) (use EnReadNext ok p in auto)
    ultimately show ?thesis by auto
  next
    case (EnCheck l nxt)
    let ?pc = "if l = ub_tail (lq_mem s) then (case nxt of None \<Rightarrow> EnCas l | Some x \<Rightarrow> EnHelp l x) else EnReadTail"
    have "do_enq s t n d pc = s\<lparr>lq_pcs := (lq_pcs s)(t := LqEnq n d ?pc)\<rparr>" using EnCheck by (auto simp: do_enq_def vatomic_simps split: option.splits)
    moreover have "lfq_inv N \<dots> Q" by (rule go) (use EnCheck ok p in \<open>auto split: option.splits if_splits\<close>)
    ultimately show ?thesis by auto
  next
    case (EnCas l)
    show ?thesis
    proof (cases "ub_next (lq_mem s) l")
      case None
      then show ?thesis using lfq_link [OF I t, of n d l] p EnCas by (auto simp: do_enq_def vatomic_simps)
    next
      case (Some y)
      then have "do_enq s t n d pc = s\<lparr>lq_pcs := (lq_pcs s)(t := LqEnq n d EnReadTail)\<rparr>"
        using EnCas by (simp add: do_enq_def vatomic_simps fun_upd_idem)
      moreover have "lfq_inv N \<dots> Q" by (rule go) (use EnCas ok in auto)
      ultimately show ?thesis by auto
    qed
  next
    case (EnHelp l x)
    let ?s = "s\<lparr>lq_mem := (lq_mem s)\<lparr>ub_tail := if ub_tail (lq_mem s) = l then x else ub_tail (lq_mem s)\<rparr>\<rparr>"
    have i: "lfq_inv N ?s Q" using lfq_swing [OF I, of x] I ok EnHelp by (cases "ub_tail (lq_mem s) = l") auto
    have "do_enq s t n d pc = ?s\<lparr>lq_pcs := (lq_pcs ?s)(t := LqEnq n d EnReadTail)\<rparr>" using EnHelp by (simp add: do_enq_def vatomic_simps)
    moreover have "lfq_inv N \<dots> Q" by (rule lfq_enq_goto [OF i t]) (use EnHelp ok p in auto)
    ultimately show ?thesis by auto
  next
    case (EnSwing l)
    let ?s = "s\<lparr>lq_mem := (lq_mem s)\<lparr>ub_tail := if ub_tail (lq_mem s) = l then n else ub_tail (lq_mem s)\<rparr>\<rparr>"
    have i: "lfq_inv N ?s Q" using lfq_swing [OF I, of n] I ok EnSwing by (cases "ub_tail (lq_mem s) = l") auto
    have "do_enq s t n d pc = ?s\<lparr>lq_pcs := (lq_pcs ?s)(t := LqIdle)\<rparr>" using EnSwing by (simp add: do_enq_def vatomic_simps)
    moreover have "lfq_inv N \<dots> Q" by (rule lfq_goto [OF i t]) auto
    ultimately show ?thesis by auto
  qed
qed

lemma lfq_deq_goto:
  assumes I: "lfq_inv N s Q" and t: "t < N" and ok: "deq_ok (lq_mem s) Q (lq_empty s t) pc'"
    and refs: "\<And>a. lq_ref (LqDeq pc') a \<Longrightarrow> a \<in> set Q \<or> lq_ref (lq_pcs s t) a"
  shows "lfq_inv N (s\<lparr>lq_pcs := (lq_pcs s)(t := LqDeq pc')\<rparr>) Q"
  by (rule lfq_goto [OF I t _ refs]) (use ok in auto)

lemma lfq_do_deq:
  assumes I: "lfq_inv N s Q" and t: "t < N" and p: "lq_pcs s t = LqDeq pc"
  shows "\<exists>s' Q'. do_deq s t pc = Some s' \<and> lfq_inv N (lq_note s') Q'"
proof -
  obtain L where L: "Q = ub_head (lq_mem s) # L" "distinct Q" "chain (ub_next (lq_mem s)) (ub_next (lq_mem s) (ub_head (lq_mem s))) L"
    "lq_is_empty (lq_mem s) \<longleftrightarrow> L = []" by (rule lfq_Q [OF I])
  have ok: "deq_ok (lq_mem s) Q (lq_empty s t) pc" using lfq_invD(5) [OF I, of t] p by simp
  note go = lfq_deq_goto [OF I t]
  have tail: "ub_tail (lq_mem s) \<noteq> ub_head (lq_mem s) \<Longrightarrow> L \<noteq> []" using lfq_invD(2) [OF I] L(1) by auto
  have done_: ?thesis if "do_deq s t pc = Some s'" "lfq_inv N s' Q'" for s' Q' using that lfq_note by blast
  show ?thesis
  proof (cases pc)
    case DqReadHead
    show ?thesis
    proof (rule done_)
      show "do_deq s t pc = Some (s\<lparr>lq_pcs := (lq_pcs s)(t := LqDeq (DqReadTail (ub_head (lq_mem s))))\<rparr>)"
        using DqReadHead by (simp add: do_deq_def vatomic_simps)
    qed (rule go, use L(1) in \<open>auto simp: was_head_def\<close>)
  next
    case (DqReadTail f)
    show ?thesis
    proof (rule done_)
      show "do_deq s t pc = Some (s\<lparr>lq_pcs := (lq_pcs s)(t := LqDeq (DqReadNext f (ub_tail (lq_mem s))))\<rparr>)"
        using DqReadTail by (simp add: do_deq_def vatomic_simps)
    qed (rule go, use ok DqReadTail p in auto)
  next
    case (DqReadNext f l)
    have "l = f \<and> lq_empty s t" if "ub_next (lq_mem s) f = None" "f = ub_head (lq_mem s)"
    proof -
      have e: "lq_is_empty (lq_mem s)" using that by (simp add: lq_is_empty_def)
      then have "ub_tail (lq_mem s) = f" using tail L(4) that(2) by auto
      then have "l = f" using ok DqReadNext that(2) by auto
      then show ?thesis using lfq_invD(10) [OF I e] by blast
    qed
    then show ?thesis
    proof (intro done_)
      show "do_deq s t pc = Some (s\<lparr>lq_pcs := (lq_pcs s)(t := LqDeq (DqCheck f l (ub_next (lq_mem s) f)))\<rparr>)"
        using DqReadNext by (simp add: do_deq_def vatomic_simps)
    qed (rule go, use ok DqReadNext p in auto)
  next
    case (DqCheck f l nxt)
    consider "f \<noteq> ub_head (lq_mem s)" | "f = ub_head (lq_mem s)" "nxt = None" | x where "f = ub_head (lq_mem s)" "nxt = Some x" by (cases nxt) auto
    then show ?thesis
    proof cases
      case 1
      show ?thesis
      proof (rule done_)
        show "do_deq s t pc = Some (s\<lparr>lq_pcs := (lq_pcs s)(t := LqDeq DqReadHead)\<rparr>)" using DqCheck 1 by (simp add: do_deq_def vatomic_simps)
      qed (rule go, auto)
    next
      case 2
      then have "l = f" using ok DqCheck by simp
      then show ?thesis
      proof (intro done_)
        show "do_deq s t pc = Some (s\<lparr>lq_pcs := (lq_pcs s)(t := LqIdle)\<rparr>)" using DqCheck 2 \<open>l = f\<close> by (simp add: do_deq_def vatomic_simps)
      qed (rule lfq_goto [OF I t], auto)
    next
      case (3 x)
      then have x: "ub_next (lq_mem s) f = Some x" using ok DqCheck by simp
      then have xQ: "x \<in> set Q" using L(1,3) 3 by (auto simp: chain_Some)
      show ?thesis
      proof (cases "f = l")
        case True
        show ?thesis
        proof (rule done_)
          show "do_deq s t pc = Some (s\<lparr>lq_pcs := (lq_pcs s)(t := LqDeq (DqHelp l x))\<rparr>)" using DqCheck 3 True by (simp add: do_deq_def vatomic_simps)
        qed (rule go, use x True L(1) 3 in auto)
      next
        case False
        show ?thesis
        proof (rule done_)
          show "do_deq s t pc = Some (s\<lparr>lq_pcs := (lq_pcs s)(t := LqDeq (DqData f x))\<rparr>)" using DqCheck 3 False by (simp add: do_deq_def vatomic_simps)
        qed (rule go, use x xQ False L(1) 3 ok DqCheck in auto)
      qed
    qed
  next
    case (DqHelp l x)
    let ?s = "s\<lparr>lq_mem := (lq_mem s)\<lparr>ub_tail := if ub_tail (lq_mem s) = l then x else ub_tail (lq_mem s)\<rparr>\<rparr>"
    have i: "lfq_inv N ?s Q" using lfq_swing [OF I, of x] I ok DqHelp by (cases "ub_tail (lq_mem s) = l") auto
    show ?thesis
    proof (rule done_)
      show "do_deq s t pc = Some (?s\<lparr>lq_pcs := (lq_pcs ?s)(t := LqDeq DqReadHead)\<rparr>)" using DqHelp by (simp add: do_deq_def vatomic_simps)
    qed (rule lfq_deq_goto [OF i t], auto)
  next
    case (DqData f x)
    show ?thesis
    proof (rule done_)
      show "do_deq s t pc = Some (s\<lparr>lq_pcs := (lq_pcs s)(t := LqDeq (DqCas f x (ub_data (lq_mem s) x)))\<rparr>)" using DqData by (simp add: do_deq_def)
    qed (rule go, use ok DqData p in auto)
  next
    case (DqCas f x v)
    show ?thesis
    proof (cases "ub_head (lq_mem s) = f")
      case True
      have "do_deq s t pc = Some (s\<lparr>lq_mem := (lq_mem s)\<lparr>ub_head := x\<rparr>, lq_pcs := (lq_pcs s)(t := LqIdle),
        lq_owner := (if f \<noteq> SENTINEL then (lq_owner s)(f \<mapsto> t) else lq_owner s), lq_hist := lq_hist s @ [EvDeq v]\<rparr>)"
        using DqCas True by (simp add: do_deq_def vatomic_simps)
      then show ?thesis using lfq_remove [OF I t _ True] p DqCas by auto
    next
      case False
      show ?thesis
      proof (rule done_)
        show "do_deq s t pc = Some (s\<lparr>lq_pcs := (lq_pcs s)(t := LqDeq DqReadHead)\<rparr>)" using DqCas False by (simp add: do_deq_def vatomic_simps)
      qed (rule go, auto)
    qed
  qed
qed

lemma lq_unusedD: "lfq_inv N s Q \<Longrightarrow> lq_unused N s t n \<Longrightarrow> lq_owner s n = Some t \<and> (\<forall>u. \<not> lq_ref (lq_pcs s u) n)"
  using lfq_invD(9) [of N s Q] by (fastforce simp: lq_unused_def list_all_iff not_le)

text \<open>The first access of a call is that of a call already begun.\<close>

lemma do_enq_start: "do_enq s t n d EnData = do_enq (s\<lparr>lq_pcs := (lq_pcs s)(t := LqEnq n d EnData)\<rparr>) t n d EnData"
  by (simp add: do_enq_def)

lemma do_deq_start: "do_deq s t DqReadHead = do_deq (s\<lparr>lq_pcs := (lq_pcs s)(t := LqDeq DqReadHead)\<rparr>) t DqReadHead"
  by (simp add: do_deq_def)

lemma lfq_step_inv:
  assumes I: "lfq_inv N s Q" and st: "lfq_step N (t, cmd) s = Some s'"
  shows "\<exists>Q'. lfq_inv N s' Q'"
proof -
  have t: "t < N" using st by (simp split: if_splits)
  show ?thesis
  proof (cases "lq_pcs s t")
    case LqIdle
    let ?s = "s\<lparr>lq_empty := (lq_empty s)(t := lq_is_empty (lq_mem s))\<rparr>"
    have b: "lfq_inv N ?s Q" by (rule lfq_begin [OF I LqIdle])
    show ?thesis
    proof (cases cmd)
      case (CmdEnq n d)
      then have s': "s' = lq_note (do_enq ?s t n d EnData)" and u: "lq_unused N s t n" using st LqIdle t by (auto split: if_splits)
      have "lfq_inv N (?s\<lparr>lq_pcs := (lq_pcs ?s)(t := LqEnq n d EnData)\<rparr>) Q"
        by (rule lfq_goto [OF b t]) (use lq_unusedD [OF I u] in auto)
      from lfq_do_enq [OF this t] show ?thesis unfolding s' do_enq_start [of ?s] using lfq_note by fastforce
    next
      case CmdDeq
      then have s': "map_option lq_note (do_deq ?s t DqReadHead) = Some s'" using st LqIdle t by simp
      have "lfq_inv N (?s\<lparr>lq_pcs := (lq_pcs ?s)(t := LqDeq DqReadHead)\<rparr>) Q" by (rule lfq_goto [OF b t]) auto
      from lfq_do_deq [OF this t] s' show ?thesis unfolding do_deq_start [of ?s] by fastforce
    next
      case (CmdWrite n v d)
      let ?q = "(lq_mem s)\<lparr>ub_next := (ub_next (lq_mem s))(n := v), ub_data := (ub_data (lq_mem s))(n := d)\<rparr>"
      have s': "s' = lq_note (s\<lparr>lq_mem := ?q\<rparr>)" and u: "lq_unused N s t n" using st LqIdle t CmdWrite by (auto split: if_splits)
      have "lfq_inv N (s\<lparr>lq_mem := ?q\<rparr>) Q" by (rule lfq_write [OF I]) (use lq_unusedD [OF I u] LqIdle in auto)
      then show ?thesis unfolding s' using lfq_note by blast
    qed (use st LqIdle t in auto)
  next
    case (LqEnq n d pc)
    then have "s' = lq_note (do_enq s t n d pc)" using st t by (auto split: lfq_cmd.splits)
    then show ?thesis using lfq_do_enq [OF I t LqEnq] lfq_note by blast
  next
    case (LqDeq pc)
    then have "map_option lq_note (do_deq s t pc) = Some s'" using st t by (auto split: lfq_cmd.splits)
    then show ?thesis using lfq_do_deq [OF I t LqDeq] by fastforce
  qed
qed

lemma lfq_inv_start: "lfq_inv N (lfq_start own m) [SENTINEL]"
  by (rule lfq_invI) (auto simp: lfq_start_def vqueue_ub_init_def vatomic_simps)

interpretation lfq: inv_system "lfq_step N" "lfq_start own m" "\<lambda>s. \<exists>Q. lfq_inv N s Q" for N own m
  by unfold_locales (use lfq_inv_start lfq_step_inv in \<open>fast+\<close>)

section \<open>The tail is at most one node behind\<close>

text \<open>
  The tail is behind the last node only between the two steps of an enqueue, and then by one node. A call that is about to link
  a node after \<open>l\<close> and finds no successor there knows that \<open>l\<close> is the tail.
\<close>

definition lag_inv :: "lfq_sys \<Rightarrow> bool" where
  "lag_inv s \<longleftrightarrow> (\<forall>t n d l. lq_pcs s t = LqEnq n d (EnCas l) \<longrightarrow> ub_next (lq_mem s) l = None \<longrightarrow> ub_tail (lq_mem s) = l) \<and>
     (\<forall>x. ub_next (lq_mem s) (ub_tail (lq_mem s)) = Some x \<longrightarrow>
        ub_next (lq_mem s) x = None \<and> (\<exists>t d. lq_pcs s t = LqEnq x d (EnSwing (ub_tail (lq_mem s)))))"

lemma lag_invD:
  assumes "lag_inv s"
  shows "lq_pcs s t = LqEnq n d (EnCas l) \<Longrightarrow> ub_next (lq_mem s) l = None \<Longrightarrow> ub_tail (lq_mem s) = l"
    "ub_next (lq_mem s) (ub_tail (lq_mem s)) = Some x \<Longrightarrow> ub_next (lq_mem s) x = None"
    "ub_next (lq_mem s) (ub_tail (lq_mem s)) = Some x \<Longrightarrow> \<exists>t d. lq_pcs s t = LqEnq x d (EnSwing (ub_tail (lq_mem s)))"
  using assms unfolding lag_inv_def by blast+

lemma lag_invI:
  assumes "\<And>t n d l. lq_pcs s t = LqEnq n d (EnCas l) \<Longrightarrow> ub_next (lq_mem s) l = None \<Longrightarrow> ub_tail (lq_mem s) = l"
    "\<And>x. ub_next (lq_mem s) (ub_tail (lq_mem s)) = Some x \<Longrightarrow> ub_next (lq_mem s) x = None"
    "\<And>x. ub_next (lq_mem s) (ub_tail (lq_mem s)) = Some x \<Longrightarrow> \<exists>t d. lq_pcs s t = LqEnq x d (EnSwing (ub_tail (lq_mem s)))"
  shows "lag_inv s"
  using assms unfolding lag_inv_def by blast

lemma lag_note [simp]: "lag_inv (lq_note s) = lag_inv s"
  by (simp add: lag_inv_def)

text \<open>A step that keeps the memory near the tail, and does not leave an \<open>EnSwing\<close> that is still needed.\<close>

lemma lag_goto:
  assumes G: "lag_inv s" and cas: "\<And>n d l. p = LqEnq n d (EnCas l) \<Longrightarrow> ub_next (lq_mem s) l = None \<Longrightarrow> ub_tail (lq_mem s) = l"
    and sw: "\<And>n d. lq_pcs s t = LqEnq n d (EnSwing (ub_tail (lq_mem s))) \<Longrightarrow> ub_next (lq_mem s) (ub_tail (lq_mem s)) = None"
    and s': "lq_mem s' = lq_mem s" "lq_pcs s' = (lq_pcs s)(t := p)"
  shows "lag_inv s'"
proof -
  have "\<exists>u d. lq_pcs s' u = LqEnq x d (EnSwing (ub_tail (lq_mem s)))" if x: "ub_next (lq_mem s) (ub_tail (lq_mem s)) = Some x" for x
  proof -
    obtain u d where u: "lq_pcs s u = LqEnq x d (EnSwing (ub_tail (lq_mem s)))" using lag_invD(3) [OF G x] by blast
    then have "u \<noteq> t" using sw [of x d] x by auto
    then show ?thesis using u s'(2) by auto
  qed
  note sw' = this
  show ?thesis
  proof (rule lag_invI, goal_cases)
    case (1 u n d l)
    then show ?case using lag_invD(1) [OF G, of u n d l] cas [of n d l] s' by (cases "u = t") simp_all
  next
    case (2 x)
    then show ?case using lag_invD(2) [OF G, of x] s'(1) by simp
  next
    case (3 x)
    then show ?case using sw' [of x] s'(1) by simp
  qed
qed

lemma lag_write:
  assumes I: "lfq_inv N s Q" and G: "lag_inv s" and n: "lq_owner s n = Some t" "\<And>u. \<not> lq_ref (lq_pcs s u) n"
    and q: "ub_tail q = ub_tail (lq_mem s)" "\<And>a. a \<noteq> n \<Longrightarrow> ub_next q a = ub_next (lq_mem s) a"
  shows "lag_inv (s\<lparr>lq_mem := q\<rparr>)"
proof -
  have nQ: "n \<notin> set Q" using n(1) lfq_invD(4) [OF I, of n] by auto
  have t: "ub_next q (ub_tail (lq_mem s)) = ub_next (lq_mem s) (ub_tail (lq_mem s))" using lfq_invD(2) [OF I] nQ q(2) by metis
  have x: "x \<noteq> n" if "ub_next (lq_mem s) (ub_tail (lq_mem s)) = Some x" for x
    using chain_next_Some [OF lfq_invD(1,2) [OF I] that] nQ by (metis list.set_sel(2) tl_Nil)
  have "l \<noteq> n" if "lq_pcs s u = LqEnq m d (EnCas l)" for u m d l using n(2) [of u] that by auto
  note nl = this
  show ?thesis
  proof (rule lag_invI, goal_cases)
    case (1 u m d l)
    then show ?case using lag_invD(1) [OF G, of u m d l] nl [of u m d l] q(1) q(2) [of l] by simp
  next
    case (2 y)
    then show ?case using lag_invD(2) [OF G, of y] t q(1) q(2) [of y] x [of y] by simp
  next
    case (3 y)
    then show ?case using lag_invD(3) [OF G, of y] t q(1) by simp
  qed
qed

lemma lag_swing:
  assumes G: "lag_inv s" and x: "ub_next (lq_mem s) (ub_tail (lq_mem s)) = Some x" and p: "\<And>n d l. p \<noteq> LqEnq n d (EnCas l)"
    and s': "lq_mem s' = (lq_mem s)\<lparr>ub_tail := x\<rparr>" "lq_pcs s' = (lq_pcs s)(t := p)"
  shows "lag_inv s'"
proof (rule lag_invI, goal_cases)
  case (1 u m d l)
  then have "lq_pcs s u = LqEnq m d (EnCas l)" using p s'(2) by (cases "u = t") simp_all
  then show ?case using 1 lag_invD(1) [OF G, of u m d l] x s'(1) by auto
qed (use lag_invD(2) [OF G x] s'(1) in auto)

lemma lag_link:
  assumes I: "lfq_inv N s Q" and G: "lag_inv s" and p: "lq_pcs s t = LqEnq n d (EnCas l)" and l: "ub_next (lq_mem s) l = None"
    and s': "lq_mem s' = (lq_mem s)\<lparr>ub_next := (ub_next (lq_mem s))(l \<mapsto> n)\<rparr>" "lq_pcs s' = (lq_pcs s)(t := LqEnq n d (EnSwing l))"
  shows "lag_inv s'"
proof -
  have tl: "ub_tail (lq_mem s) = l" by (rule lag_invD(1) [OF G p l])
  have "n \<noteq> l" using lfq_invD(8) [OF I p, of t] p by auto
  moreover have "ub_next (lq_mem s) n = None" using lfq_invD(5) [OF I, of t] p by simp
  moreover have "lq_pcs s' t = LqEnq n d (EnSwing l)" using s'(2) by simp
  ultimately show ?thesis
  proof (intro lag_invI, goal_cases)
    case (1 u m d' l')
    then have "lq_pcs s u = LqEnq m d' (EnCas l')" "ub_next (lq_mem s) l' = None" using s' by (auto split: if_splits)
    then show ?case using lag_invD(1) [OF G] tl s'(1) by simp
  qed (use tl s'(1) in \<open>auto\<close>)
qed

lemma lag_do_enq:
  assumes I: "lfq_inv N s Q" and G: "lag_inv s" and p: "lq_pcs s t = LqEnq n d pc"
  shows "lag_inv (do_enq s t n d pc)"
proof -
  have own: "lq_owner s n = Some t" "\<not> lq_ref (lq_pcs s u) n" if "enq_before pc" for u using lfq_invD(7,8) [OF I p that] by auto
  have ok: "enq_ok (lq_mem s) n d pc" using lfq_invD(5) [OF I, of t] p by simp
  have upd: "lq_pcs (s\<lparr>lq_mem := q\<rparr>) = lq_pcs s" for q by simp
  show ?thesis
  proof (cases pc)
    case EnData
    show ?thesis
      by (rule lag_goto [OF lag_write [OF I G own], where p = "LqEnq n d EnNext" and t = t and q1 = "(lq_mem s)\<lparr>ub_data := (ub_data (lq_mem s))(n \<mapsto> d)\<rparr>"])
        (use EnData p in \<open>auto simp: do_enq_def\<close>)
  next
    case EnNext
    show ?thesis
      by (rule lag_goto [OF lag_write [OF I G own], where p = "LqEnq n d EnReadTail" and t = t and q1 = "(lq_mem s)\<lparr>ub_next := (ub_next (lq_mem s))(n := None)\<rparr>"])
        (use EnNext p in \<open>auto simp: do_enq_def vatomic_simps\<close>)
  next
    case (EnCas l)
    show ?thesis
    proof (cases "ub_next (lq_mem s) l")
      case None
      show ?thesis by (rule lag_link [OF I G p [unfolded EnCas] None]) (simp_all add: do_enq_def vatomic_simps EnCas None)
    next
      case (Some y)
      then show ?thesis using EnCas p by (intro lag_goto [OF G, where p = "LqEnq n d EnReadTail" and t = t]) (auto simp: do_enq_def vatomic_simps fun_upd_idem)
    qed
  next
    case (EnCheck l nxt)
    then show ?thesis using p
      by (intro lag_goto [OF G, where p = "lq_pcs (do_enq s t n d pc) t" and t = t]) (auto simp: do_enq_def vatomic_simps split: option.splits if_splits)
  next
    case (EnHelp l x)
    show ?thesis
    proof (cases "ub_tail (lq_mem s) = l")
      case True
      show ?thesis by (rule lag_swing [OF G, where x = x and p = "LqEnq n d EnReadTail" and t = t]) (use True EnHelp ok in \<open>auto simp: do_enq_def vatomic_simps\<close>)
    next
      case False
      show ?thesis by (rule lag_goto [OF G, where p = "LqEnq n d EnReadTail" and t = t]) (use False EnHelp p in \<open>auto simp: do_enq_def vatomic_simps\<close>)
    qed
  next
    case (EnSwing l)
    show ?thesis
    proof (cases "ub_tail (lq_mem s) = l")
      case True
      show ?thesis by (rule lag_swing [OF G, where x = n and p = LqIdle and t = t]) (use True EnSwing ok in \<open>auto simp: do_enq_def vatomic_simps\<close>)
    next
      case False
      show ?thesis by (rule lag_goto [OF G, where p = LqIdle and t = t]) (use False EnSwing p in \<open>auto simp: do_enq_def vatomic_simps\<close>)
    qed
  qed (rule lag_goto [OF G, where p = "lq_pcs (do_enq s t n d pc) t" and t = t], use p in \<open>auto simp: do_enq_def vatomic_simps\<close>)+
qed

lemma lag_cong:
  assumes "lag_inv s" and "lq_pcs s' = lq_pcs s" and "ub_next (lq_mem s') = ub_next (lq_mem s)" and "ub_tail (lq_mem s') = ub_tail (lq_mem s)"
  shows "lag_inv s'"
  using assms(1) unfolding lag_inv_def assms(2-4) .

lemma lag_do_deq:
  assumes I: "lfq_inv N s Q" and G: "lag_inv s" and p: "lq_pcs s t = LqDeq pc" and s': "do_deq s t pc = Some s'"
  shows "lag_inv s'"
proof -
  have ok: "deq_ok (lq_mem s) Q (lq_empty s t) pc" using lfq_invD(5) [OF I, of t] p by simp
  have stay: "lag_inv s'" if "lq_mem s' = lq_mem s" "lq_pcs s' = (lq_pcs s)(t := p')" "\<And>n d l. p' \<noteq> LqEnq n d (EnCas l)" for p'
    by (rule lag_goto [OF G _ _ that(1,2)]) (use that(3) p in auto)
  show ?thesis
  proof (cases pc)
    case (DqHelp l x)
    show ?thesis
    proof (cases "ub_tail (lq_mem s) = l")
      case True
      show ?thesis by (rule lag_swing [OF G, where x = x and p = "LqDeq DqReadHead" and t = t]) (use True DqHelp ok s' in \<open>auto simp: do_deq_def vatomic_simps\<close>)
    next
      case False
      show ?thesis by (rule stay [where p' = "LqDeq DqReadHead"]) (use False DqHelp s' in \<open>auto simp: do_deq_def vatomic_simps\<close>)
    qed
  next
    case (DqCas f x v)
    show ?thesis
    proof (cases "ub_head (lq_mem s) = f")
      case True
      have e: "lq_mem s' = (lq_mem s)\<lparr>ub_head := x\<rparr>" "lq_pcs s' = (lq_pcs s)(t := LqIdle)" using True DqCas s' by (auto simp: do_deq_def vatomic_simps)
      have "lag_inv (s\<lparr>lq_pcs := (lq_pcs s)(t := LqIdle)\<rparr>)" by (rule lag_goto [OF G, where p = LqIdle and t = t]) (use p in auto)
      then show ?thesis by (rule lag_cong) (simp_all add: e)
    next
      case False
      show ?thesis by (rule stay [where p' = "LqDeq DqReadHead"]) (use False DqCas s' in \<open>auto simp: do_deq_def vatomic_simps\<close>)
    qed
  next
    case (DqCheck f l nxt)
    show ?thesis by (rule stay [where p' = "lq_pcs s' t"]) (use DqCheck s' in \<open>auto simp: do_deq_def vatomic_simps split: option.splits if_splits\<close>)
  next
    case DqReadHead
    show ?thesis by (rule stay [where p' = "lq_pcs s' t"]) (use DqReadHead s' in \<open>auto simp: do_deq_def vatomic_simps\<close>)
  next
    case (DqReadTail f)
    show ?thesis by (rule stay [where p' = "lq_pcs s' t"]) (use DqReadTail s' in \<open>auto simp: do_deq_def vatomic_simps\<close>)
  next
    case (DqReadNext f l)
    show ?thesis by (rule stay [where p' = "lq_pcs s' t"]) (use DqReadNext s' in \<open>auto simp: do_deq_def vatomic_simps\<close>)
  next
    case (DqData f x)
    show ?thesis by (rule stay [where p' = "lq_pcs s' t"]) (use DqData s' in \<open>auto simp: do_deq_def vatomic_simps\<close>)
  qed
qed

lemma lag_step:
  assumes I: "lfq_inv N s Q" and G: "lag_inv s" and st: "lfq_step N (t, cmd) s = Some s'"
  shows "lag_inv s'"
proof -
  have t: "t < N" using st by (simp split: if_splits)
  show ?thesis
  proof (cases "lq_pcs s t")
    case LqIdle
    let ?s = "s\<lparr>lq_empty := (lq_empty s)(t := lq_is_empty (lq_mem s))\<rparr>"
    have b: "lfq_inv N ?s Q" by (rule lfq_begin [OF I LqIdle])
    show ?thesis
    proof (cases cmd)
      case (CmdEnq n d)
      let ?s1 = "?s\<lparr>lq_pcs := (lq_pcs ?s)(t := LqEnq n d EnData)\<rparr>"
      have s': "s' = lq_note (do_enq ?s t n d EnData)" and u: "lq_unused N s t n" using st LqIdle t CmdEnq by (auto split: if_splits)
      have "lfq_inv N ?s1 Q" by (rule lfq_goto [OF b t]) (use lq_unusedD [OF I u] in auto)
      moreover have "lag_inv ?s1" by (rule lag_goto [OF G, where t = t and p = "LqEnq n d EnData"]) (use LqIdle in auto)
      ultimately show ?thesis unfolding s' lag_note do_enq_start [of ?s] by (rule lag_do_enq) simp
    next
      case CmdDeq
      let ?s1 = "?s\<lparr>lq_pcs := (lq_pcs ?s)(t := LqDeq DqReadHead)\<rparr>"
      obtain s1 where s': "s' = lq_note s1" "do_deq ?s1 t DqReadHead = Some s1" using st LqIdle t CmdDeq do_deq_start [of ?s t] by auto
      have "lfq_inv N ?s1 Q" by (rule lfq_goto [OF b t]) auto
      moreover have "lag_inv ?s1" by (rule lag_goto [OF G, where t = t and p = "LqDeq DqReadHead"]) (use LqIdle in auto)
      ultimately show ?thesis unfolding s'(1) lag_note by (rule lag_do_deq [OF _ _ _ s'(2)]) simp
    next
      case (CmdWrite n v d)
      let ?q = "(lq_mem s)\<lparr>ub_next := (ub_next (lq_mem s))(n := v), ub_data := (ub_data (lq_mem s))(n := d)\<rparr>"
      have s': "s' = lq_note (s\<lparr>lq_mem := ?q\<rparr>)" and u: "lq_unused N s t n" using st LqIdle t CmdWrite by (auto split: if_splits)
      have "lag_inv (s\<lparr>lq_mem := ?q\<rparr>)" by (rule lag_write [OF I G]) (use lq_unusedD [OF I u] in auto)
      then show ?thesis unfolding s' by simp
    qed (use st LqIdle t in auto)
  next
    case (LqEnq n d pc)
    then have "s' = lq_note (do_enq s t n d pc)" using st t by (auto split: lfq_cmd.splits)
    then show ?thesis using lag_do_enq [OF I G LqEnq] by simp
  next
    case (LqDeq pc)
    then obtain s1 where "s' = lq_note s1" "do_deq s t pc = Some s1" using st t by (auto split: lfq_cmd.splits)
    then show ?thesis using lag_do_deq [OF I G LqDeq] by simp
  qed
qed

lemma lag_start: "lag_inv (lfq_start own m)"
  by (simp add: lag_inv_def lfq_start_def vqueue_ub_init_def vatomic_simps)

interpretation lfq_lag: inv_system "lfq_step N" "lfq_start own m" "\<lambda>s. (\<exists>Q. lfq_inv N s Q) \<and> lag_inv s" for N own m
proof (unfold_locales, goal_cases)
  case 1
  then show ?case using lfq_inv_start lag_start by blast
next
  case (2 s a s')
  then show ?case using lfq_step_inv lag_step by (cases a) blast
qed

section \<open>Results\<close>

text \<open>The number of nodes from the head to the tail.\<close>

lemma ub_length_chain:
  assumes "chain (ub_next q) (Some a) (xs @ [x])" and "behind \<longrightarrow> SENTINEL \<notin> set xs" and "SENTINEL \<notin> set (tl xs)"
  shows "ub_length_loop q x behind a c = Some (c + length xs)"
  using assms
proof (induction xs arbitrary: a behind c)
  case Nil
  then show ?case by (subst ub_length_loop.simps) simp
next
  case (Cons y ys)
  have "y \<noteq> x" using chain_distinct [OF Cons.prems(1)] by auto
  moreover obtain b where b: "ub_next q y = Some b" using Cons.prems(1) by (cases ys) auto
  moreover have "set (tl ys) \<subseteq> set ys" by (cases ys) auto
  moreover have "ub_length_loop q x True b (Suc c) = Some (Suc c + length ys)"
    by (rule Cons.IH) (use Cons.prems b \<open>set (tl ys) \<subseteq> set ys\<close> in auto)
  ultimately show ?case using Cons.prems by (subst ub_length_loop.simps) (auto simp: vatomic_simps)
qed

text \<open>C7. The lock-free queue is a linearizable queue: in every interleaving of the accesses of any number of threads, the enqueues and
  dequeues, each at the point of its compare-and-swap, form a history of a sequential first-in first-out queue, and the memory holds exactly the
  values that history leaves. A dequeue that returns no value found the queue empty at some moment during the call, no
  assertion fails, and the values dequeued are the first values enqueued, in order.\<close>

theorem ub_lf_linearizable:
  assumes "reach (lfq_step N) (lfq_start own m) s"
  shows "\<exists>L. vqueue_ub_visit_nodes (lq_mem s) = Some L \<and> distinct L \<and> ub_replay (lq_hist s) [] = Some (map (ub_data (lq_mem s)) L) \<and>
    enqueued (lq_hist s) = dequeued (lq_hist s) @ map (ub_data (lq_mem s)) L \<and>
    (\<forall>t pc. lq_pcs s t = LqDeq pc \<longrightarrow> vqueue_ub_deq pc (lq_mem s) \<noteq> None) \<and>
    (\<forall>t f l nxt r q. lq_pcs s t = LqDeq (DqCheck f l nxt) \<longrightarrow> vqueue_ub_deq (DqCheck f l nxt) (lq_mem s) = Some (Inr r, q) \<longrightarrow> r = (None, None) \<and> lq_empty s t)"
proof -
  obtain Q where I: "lfq_inv N s Q" using lfq.reach_inv [OF assms] by blast
  obtain L where L: "Q = ub_head (lq_mem s) # L" "distinct Q" "chain (ub_next (lq_mem s)) (ub_next (lq_mem s) (ub_head (lq_mem s))) L" by (rule lfq_Q [OF I])
  have v: "vqueue_ub_visit_nodes (lq_mem s) = Some L" using ub_visit_chain [OF L(3)] by (simp add: vqueue_ub_visit_nodes_def vatomic_simps)
  have r: "ub_replay (lq_hist s) [] = Some (map (ub_data (lq_mem s)) L)" using lfq_invD(3) [OF I] L(1) by simp
  have "vqueue_ub_deq pc (lq_mem s) \<noteq> None" if "lq_pcs s t = LqDeq pc" for t pc
  proof -
    have "t < N" using lfq_invD(9) [OF I, of t] that by (auto simp: not_le [symmetric])
    then have "do_deq s t pc \<noteq> None" using lfq_do_deq [OF I _ that] by auto
    then show ?thesis by (cases "vqueue_ub_deq pc (lq_mem s)") (auto simp: do_deq_def)
  qed
  moreover have "r = (None, None) \<and> lq_empty s t" if "lq_pcs s t = LqDeq (DqCheck f l nxt)" "vqueue_ub_deq (DqCheck f l nxt) (lq_mem s) = Some (Inr r, q)" for t f l nxt r q
    using lfq_invD(5) [OF I, of t] that by (auto simp: vatomic_simps split: if_splits option.splits)
  ultimately show ?thesis using v r L(1,2) ub_replay_fifo [OF r] by auto
qed

text \<open>When no call is in progress, the length is the number of values in the queue, the queue reports to be empty exactly when it is, and
  destroying it hands every node of the queue except the sentinel to the handler, once.\<close>

theorem ub_lf_quiescent:
  assumes "reach (lfq_step N) (lfq_start own m) s" and "\<And>t. lq_pcs s t = LqIdle"
  shows "\<exists>L. vqueue_ub_visit_nodes (lq_mem s) = Some L \<and> vqueue_ub_get_length (lq_mem s) = Some (length L) \<and> (vqueue_ub_empty (lq_mem s) \<longleftrightarrow> L = []) \<and>
    vqueue_ub_destroy (lq_mem s) = Some (filter (\<lambda>a. a \<noteq> SENTINEL) (ub_head (lq_mem s) # L)) \<and> (\<forall>n. n \<in> set L \<longrightarrow> lq_owner s n = None)"
proof -
  obtain Q where I: "lfq_inv N s Q" and G: "lag_inv s" using lfq_lag.reach_inv [OF assms(1)] by blast
  obtain L where L: "Q = ub_head (lq_mem s) # L" "distinct Q" "chain (ub_next (lq_mem s)) (ub_next (lq_mem s) (ub_head (lq_mem s))) L" by (rule lfq_Q [OF I])
  have v: "vqueue_ub_visit_nodes (lq_mem s) = Some L" using ub_visit_chain [OF L(3)] by (simp add: vqueue_ub_visit_nodes_def vatomic_simps)
  have "ub_next (lq_mem s) (ub_tail (lq_mem s)) = None" using lag_invD(3) [OF G] assms(2) by (cases "ub_next (lq_mem s) (ub_tail (lq_mem s))") auto
  then have tail: "ub_tail (lq_mem s) = last Q" by (rule chain_next_None [OF lfq_invD(1,2) [OF I]])
  have "SENTINEL \<notin> set (butlast L)" using lfq_invD(11) [OF I] L(1) by (auto dest: in_set_butlastD)
  then have "vqueue_ub_get_length (lq_mem s) = Some (length L)"
    using ub_length_chain [of "lq_mem s" "ub_head (lq_mem s)" "butlast Q" "last Q" False 0] lfq_invD(1) [OF I] L(1) tail
    by (auto simp: vqueue_ub_get_length_def vatomic_simps)
  moreover have "vqueue_ub_empty (lq_mem s) \<longleftrightarrow> L = []" using tail L(1,2) by (auto simp: vqueue_ub_empty_def vatomic_simps)
  moreover have "vqueue_ub_destroy (lq_mem s) = Some (filter (\<lambda>a. a \<noteq> SENTINEL) Q)"
    using ub_destroy_chain [OF lfq_invD(1) [OF I]] by (simp add: vqueue_ub_destroy_def vatomic_simps)
  ultimately show ?thesis using v L(1) lfq_invD(4) [OF I] by auto
qed

section \<open>A call that runs alone returns\<close>

text \<open>The steps left in a call when no other thread interferes (from the memory and what the call has read so far).\<close>

definition enq_base :: "ub_mem \<Rightarrow> nat" where
  "enq_base q = (if ub_next q (ub_tail q) = None then 5 else 9)"

fun enq_rank :: "ub_mem \<Rightarrow> enq_pc \<Rightarrow> nat" where
  "enq_rank q EnData = enq_base q + 2"
| "enq_rank q EnNext = enq_base q + 1"
| "enq_rank q EnReadTail = enq_base q"
| "enq_rank q (EnReadNext l) = (if l = ub_tail q then enq_base q - 1 else enq_base q + 2)"
| "enq_rank q (EnCheck l nxt) = (if l = ub_tail q then (if nxt = ub_next q l then enq_base q - 2 else enq_base q + 2) else enq_base q + 1)"
| "enq_rank q (EnCas l) = (if ub_next q l = None then 2 else enq_base q + 1)"
| "enq_rank q (EnHelp l x) = (if l = ub_tail q then 6 else enq_base q + 1)"
| "enq_rank q (EnSwing l) = 1"

definition deq_base :: "ub_mem \<Rightarrow> nat" where
  "deq_base q = (if ub_head q = ub_tail q then (if ub_next q (ub_tail q) = None then 4 else 11) else 6)"

fun deq_rank :: "ub_mem \<Rightarrow> deq_pc \<Rightarrow> nat" where
  "deq_rank q DqReadHead = deq_base q"
| "deq_rank q (DqReadTail f) = (if f = ub_head q then deq_base q - 1 else deq_base q + 3)"
| "deq_rank q (DqReadNext f l) = (if f \<noteq> ub_head q then deq_base q + 2 else if l = ub_tail q \<or> l \<noteq> f then deq_base q - 2 else deq_base q + 3)"
| "deq_rank q (DqCheck f l nxt) = (if f \<noteq> ub_head q then deq_base q + 1 else if nxt = None then 1 else if l \<noteq> f then 3
     else if l = ub_tail q then deq_base q - 3 else deq_base q + 2)"
| "deq_rank q (DqHelp l x) = (if l = ub_tail q then 7 else deq_base q + 1)"
| "deq_rank q (DqData f x) = (if f = ub_head q then 2 else deq_base q + 2)"
| "deq_rank q (DqCas f x d) = (if f = ub_head q then 1 else deq_base q + 1)"

fun lq_rank :: "ub_mem \<Rightarrow> lfq_pc \<Rightarrow> nat" where
  "lq_rank q LqIdle = 0" | "lq_rank q (LqEnq n d pc) = enq_rank q pc" | "lq_rank q (LqDeq pc) = deq_rank q pc"

lemma lq_rank_bound: "lq_rank q p \<le> 14"
proof (cases p)
  case (LqEnq n d pc)
  then show ?thesis by (cases pc) (auto simp: enq_base_def)
next
  case (LqDeq pc)
  then show ?thesis by (cases pc) (auto simp: deq_base_def)
qed simp

lemma enq_rank_less:
  assumes I: "lfq_inv N s Q" and G: "lag_inv s" and p: "lq_pcs s t = LqEnq n d pc" and r: "vqueue_ub_enq n d pc (lq_mem s) = (Inl pc', q)"
  shows "enq_rank q pc' < enq_rank (lq_mem s) pc"
proof -
  have ok: "enq_ok (lq_mem s) n d pc" using lfq_invD(5) [OF I, of t] p by simp
  have "n \<noteq> ub_tail (lq_mem s)" if "enq_before pc"
    using lfq_invD(2) [OF I] lfq_invD(4) [OF I, of n] lfq_invD(7) [OF I p that] by auto
  then show ?thesis
    using r ok lag_invD(2) [OF G] by (cases pc) (auto simp: vatomic_simps enq_base_def fun_upd_idem split: if_splits option.splits)
qed

lemma deq_rank_less:
  assumes I: "lfq_inv N s Q" and G: "lag_inv s" and p: "lq_pcs s t = LqDeq pc" and r: "vqueue_ub_deq pc (lq_mem s) = Some (Inl pc', q)"
  shows "deq_rank q pc' < deq_rank (lq_mem s) pc"
proof -
  obtain L where L: "Q = ub_head (lq_mem s) # L" "chain (ub_next (lq_mem s)) (ub_next (lq_mem s) (ub_head (lq_mem s))) L" "distinct Q" by (rule lfq_Q [OF I])
  have ok: "deq_ok (lq_mem s) Q (lq_empty s t) pc" using lfq_invD(5) [OF I, of t] p by simp
  have h: "ub_next (lq_mem s) (ub_head (lq_mem s)) \<noteq> None" if "ub_tail (lq_mem s) \<noteq> ub_head (lq_mem s)"
    using lfq_invD(2) [OF I] L(1,2) that by (cases L) auto
  have hx: "x \<noteq> ub_head (lq_mem s)" if "ub_next (lq_mem s) (ub_head (lq_mem s)) = Some x" for x
  proof -
    have "chain (ub_next (lq_mem s)) (Some x) L" using L(2) that by simp
    then have "x \<in> set L" by (cases L) simp_all
    then show ?thesis using L(1,3) by auto
  qed
  show ?thesis
  proof (cases pc)
    case (DqHelp l x)
    have "x \<noteq> ub_head (lq_mem s)" if "l = ub_tail (lq_mem s)"
      using chain_next_Some [OF lfq_invD(1,2) [OF I], of x] ok DqHelp that L(1,3) by auto
    then show ?thesis using r ok DqHelp by (auto simp: vatomic_simps deq_base_def split: if_splits)
  qed (use r ok h hx in \<open>auto simp: vatomic_simps deq_base_def split: if_splits option.splits\<close>)
qed


lemma lfq_solo_step:
  assumes I: "lfq_inv N s Q" and G: "lag_inv s" and t: "t < N" and p: "lq_pcs s t \<noteq> LqIdle"
  shows "\<exists>s'. lfq_step N (t, CmdRun) s = Some s' \<and> (lq_pcs s' t \<noteq> LqIdle \<longrightarrow> lq_rank (lq_mem s') (lq_pcs s' t) < lq_rank (lq_mem s) (lq_pcs s t))"
proof (cases "lq_pcs s t")
  case (LqEnq n d pc)
  obtain r q where r: "vqueue_ub_enq n d pc (lq_mem s) = (r, q)" by fastforce
  then show ?thesis using LqEnq t enq_rank_less [OF I G LqEnq] by (cases r) (auto simp: do_enq_def)
next
  case (LqDeq pc)
  obtain s' where "do_deq s t pc = Some s'" using lfq_do_deq [OF I t LqDeq] by blast
  moreover obtain r q where "vqueue_ub_deq pc (lq_mem s) = Some (r, q)" using calculation by (cases "vqueue_ub_deq pc (lq_mem s)") (auto simp: do_deq_def)
  ultimately show ?thesis using LqDeq t deq_rank_less [OF I G LqDeq] by (cases r) (auto simp: do_deq_def split: if_splits)
qed (use p in simp)

lemma lfq_solo:
  assumes "lfq_inv N s Q" and "lag_inv s" and t: "t < N"
  shows "\<exists>k s'. k \<le> lq_rank (lq_mem s) (lq_pcs s t) \<and> exec (lfq_step N) (replicate k (t, CmdRun)) s = Some s' \<and> lq_pcs s' t = LqIdle"
  using assms(1,2)
proof (induction "lq_rank (lq_mem s) (lq_pcs s t)" arbitrary: s Q rule: less_induct)
  case less
  show ?case
  proof (cases "lq_pcs s t = LqIdle")
    case True
    then show ?thesis by (intro exI [of _ 0]) simp
  next
    case False
    obtain s1 where s1: "lfq_step N (t, CmdRun) s = Some s1" "lq_pcs s1 t \<noteq> LqIdle \<longrightarrow> lq_rank (lq_mem s1) (lq_pcs s1 t) < lq_rank (lq_mem s) (lq_pcs s t)"
      using lfq_solo_step [OF less.prems t False] by blast
    obtain Q1 where Q1: "lfq_inv N s1 Q1" "lag_inv s1" using lfq_step_inv [OF less.prems(1) s1(1)] lag_step [OF less.prems s1(1)] by blast
    have pos: "0 < lq_rank (lq_mem s) (lq_pcs s t)"
    proof (cases "lq_pcs s t")
      case (LqEnq n d pc)
      then show ?thesis by (cases pc) (auto simp: enq_base_def)
    next
      case (LqDeq pc)
      then show ?thesis by (cases pc) (auto simp: deq_base_def)
    qed (use False in simp)
    show ?thesis
    proof (cases "lq_pcs s1 t = LqIdle")
      case True
      then show ?thesis using s1(1) pos by (intro exI [of _ 1]) simp
    next
      case False
      then obtain k s' where "k \<le> lq_rank (lq_mem s1) (lq_pcs s1 t)" "exec (lfq_step N) (replicate k (t, CmdRun)) s1 = Some s'" "lq_pcs s' t = LqIdle"
        using less.hyps [OF _ Q1] s1(2) by blast
      then show ?thesis using s1 False by (intro exI [of _ "Suc k"]) auto
    qed
  qed
qed

text \<open>C8. The queue is never stuck: from every state the threads can reach, a thread in the middle of an enqueue or a dequeue returns within fourteen
  of its own accesses if the others pause, whatever they were doing. A half-finished enqueue is completed by whoever finds it.\<close>

theorem ub_lf_solo_returns:
  assumes "reach (lfq_step N) (lfq_start own m) s" and "t < N"
  shows "\<exists>k s'. k \<le> 14 \<and> exec (lfq_step N) (replicate k (t, CmdRun)) s = Some s' \<and> lq_pcs s' t = LqIdle"
proof -
  obtain Q where "lfq_inv N s Q" "lag_inv s" using lfq_lag.reach_inv [OF assms(1)] by blast
  from lfq_solo [OF this assms(2)] lq_rank_bound [of "lq_mem s" "lq_pcs s t"] show ?thesis by (meson order_trans)
qed

section \<open>Witnesses\<close>

text \<open>Thread 0 enqueues and stops before it advances the tail; thread 1 helps and dequeues the value.\<close>

definition lfq_example :: "(tid \<times> lfq_cmd) list" where
  "lfq_example = (0, CmdEnq 2 40) # replicate 5 (0, CmdRun) @ (1, CmdDeq) # replicate 10 (1, CmdRun)"

definition lfq_example_mem :: ub_mem where
  "lfq_example_mem = \<lparr>ub_head = 9, ub_tail = 9, ub_next = (\<lambda>_. Some 9), ub_data = (\<lambda>_. None)\<rparr>"

lemma lfq_example_runs:
  "map_option (\<lambda>s. (lq_hist s, lq_pcs s 0, lq_pcs s 1)) (exec (lfq_step 2) lfq_example (lfq_start (\<lambda>n. n mod 2) lfq_example_mem)) =
     Some ([EvEnq (Some 40), EvDeq (Some 40)], LqEnq 2 40 (EnSwing 0), LqIdle)"
  by code_simp

lemma lfq_example_reach:
  obtains s where "reach (lfq_step 2) (lfq_start (\<lambda>n. n mod 2) lfq_example_mem) s"
    "lq_hist s = [EvEnq (Some 40), EvDeq (Some 40)]" "lq_pcs s 0 = LqEnq 2 40 (EnSwing 0)" "lq_pcs s 1 = LqIdle"
  using lfq_example_runs by (auto simp: map_option_eq_Some intro: exec_reach)

theorem ub_lf_linearizable_witness:
  "\<exists>(s :: lfq_sys) L. lq_hist s = [EvEnq (Some 40), EvDeq (Some 40)] \<and> vqueue_ub_visit_nodes (lq_mem s) = Some L \<and> ub_replay (lq_hist s) [] = Some (map (ub_data (lq_mem s)) L)"
proof -
  obtain s where s: "reach (lfq_step 2) (lfq_start (\<lambda>n. n mod 2) lfq_example_mem) s" "lq_hist s = [EvEnq (Some 40), EvDeq (Some 40)]"
    by (rule lfq_example_reach)
  from ub_lf_linearizable [OF s(1)] s(2) show ?thesis by blast
qed

theorem ub_lf_solo_returns_witness:
  "\<exists>s k s'. lq_pcs s 0 = LqEnq 2 40 (EnSwing 0) \<and> exec (lfq_step 2) (replicate k (0, CmdRun)) s = Some s' \<and> lq_pcs s' 0 = LqIdle"
proof -
  obtain s where s: "reach (lfq_step 2) (lfq_start (\<lambda>n. n mod 2) lfq_example_mem) s" "lq_pcs s 0 = LqEnq 2 40 (EnSwing 0)"
    by (rule lfq_example_reach)
  have "(0::nat) < 2" by simp
  from ub_lf_solo_returns [OF s(1) this] s(2) show ?thesis by blast
qed

text \<open>Two values in the queue and no call in progress.\<close>

definition lfq_two :: "(tid \<times> lfq_cmd) list" where
  "lfq_two = (0, CmdEnq 2 40) # replicate 6 (0, CmdRun) @ (1, CmdEnq 3 50) # replicate 6 (1, CmdRun)"

lemma lfq_two_runs:
  "map_option (\<lambda>s. (lq_hist s, lq_pcs s 0, lq_pcs s 1)) (exec (lfq_step 2) lfq_two (lfq_start (\<lambda>n. n mod 2) lfq_example_mem)) =
     Some ([EvEnq (Some 40), EvEnq (Some 50)], LqIdle, LqIdle)"
  by code_simp

theorem ub_lf_quiescent_witness:
  "\<exists>(s :: lfq_sys) L. lq_hist s = [EvEnq (Some 40), EvEnq (Some 50)] \<and> vqueue_ub_visit_nodes (lq_mem s) = Some L \<and> vqueue_ub_get_length (lq_mem s) = Some (length L)"
proof -
  obtain s where s: "reach (lfq_step 2) (lfq_start (\<lambda>n. n mod 2) lfq_example_mem) s" "lq_hist s = [EvEnq (Some 40), EvEnq (Some 50)]" "lq_pcs s 0 = LqIdle" "lq_pcs s 1 = LqIdle"
    using lfq_two_runs by (auto simp: map_option_eq_Some intro: exec_reach)
  obtain Q where I: "lfq_inv 2 s Q" using lfq.reach_inv [OF s(1)] by blast
  have "lq_pcs s t = LqIdle" for t
  proof -
    consider "t = 0" | "t = 1" | "2 \<le> t" by linarith
    then show ?thesis using s(3,4) lfq_invD(9) [OF I, of t] by cases auto
  qed
  from ub_lf_quiescent [OF s(1) this] s(2) show ?thesis by blast
qed

end
