(* ===== verification/Ub_Total.thy ===== *)
theory Ub_Total
  imports Ub_Queue Ttaslock
begin

text \<open>
  The two-lock queue of \<^verbatim>\<open>queue/unbounded_queue_total.h\<close>, on its TTAS locks. One step is one access to the memory or to a
  lock. Nodes are freed (or used for anything else) as soon as the retire handler has been called: this queue needs no
  safe memory reclamation.
\<close>

section \<open>Operations\<close>

record tq_mem = ub_mem +
  tq_enq_l :: ttaslock_t
  tq_deq_l :: ttaslock_t

definition vqueue_ub_init_total :: "tq_mem \<Rightarrow> tq_mem" where
  "vqueue_ub_init_total q = q\<lparr>ub_head := SENTINEL, ub_tail := SENTINEL, ub_data := (ub_data q)(SENTINEL := None),
     ub_next := (ub_next q)(SENTINEL := vatomicptr_write (ub_next q SENTINEL) None),
     tq_enq_l := ttaslock_init (tq_enq_l q), tq_deq_l := ttaslock_init (tq_deq_l q)\<rparr>"

text \<open>A round of \<open>queue_lock_acquire\<close>: \<open>k\<close> is where the call goes on once the lock is taken.\<close>

definition enq_lock :: "ttas_acq_pc \<Rightarrow> (ttas_acq_pc \<Rightarrow> 'p) \<Rightarrow> 'p \<Rightarrow> tq_mem \<Rightarrow> ('p \<times> tq_mem) option" where
  "enq_lock pc wait k q = map_option (\<lambda>(pc', l). (if pc' = TtasReturn then k else wait pc', q\<lparr>tq_enq_l := l\<rparr>)) (ttaslock_acquire pc (tq_enq_l q))"

definition deq_lock :: "ttas_acq_pc \<Rightarrow> (ttas_acq_pc \<Rightarrow> 'p) \<Rightarrow> 'p \<Rightarrow> tq_mem \<Rightarrow> ('p \<times> tq_mem) option" where
  "deq_lock pc wait k q = map_option (\<lambda>(pc', l). (if pc' = TtasReturn then k else wait pc', q\<lparr>tq_deq_l := l\<rparr>)) (ttaslock_acquire pc (tq_deq_l q))"

definition enq_unlock :: "tq_mem \<Rightarrow> tq_mem" where
  "enq_unlock q = q\<lparr>tq_enq_l := ttaslock_release (tq_enq_l q)\<rparr>"

definition deq_unlock :: "tq_mem \<Rightarrow> tq_mem" where
  "deq_unlock q = q\<lparr>tq_deq_l := ttaslock_release (tq_deq_l q)\<rparr>"

datatype tenq_pc = TeLock ttas_acq_pc | TeData | TeNext | TeLink | TeTail | TeUnlock | TeDone

fun vqueue_ub_enq_total :: "addr \<Rightarrow> addr option \<Rightarrow> tenq_pc \<Rightarrow> tq_mem \<Rightarrow> (tenq_pc \<times> tq_mem) option" where
  "vqueue_ub_enq_total n d (TeLock pc) q = enq_lock pc TeLock TeData q"
| "vqueue_ub_enq_total n d TeData q = Some (TeNext, q\<lparr>ub_data := (ub_data q)(n := d)\<rparr>)"
| "vqueue_ub_enq_total n d TeNext q = Some (TeLink, q\<lparr>ub_next := (ub_next q)(n := vatomicptr_write (ub_next q n) None)\<rparr>)"
| "vqueue_ub_enq_total n d TeLink q =
     Some (TeTail, q\<lparr>ub_next := (ub_next q)(ub_tail q := vatomicptr_write (ub_next q (ub_tail q)) (Some n))\<rparr>)"
| "vqueue_ub_enq_total n d TeTail q = Some (TeUnlock, q\<lparr>ub_tail := n\<rparr>)"
| "vqueue_ub_enq_total n d TeUnlock q = Some (TeDone, enq_unlock q)"
| "vqueue_ub_enq_total n d TeDone q = None"

text \<open>\<open>TdRetire\<close> is the call of the retire handler.\<close>

datatype tdeq_pc = TdLock ttas_acq_pc | TdHead | TdNext addr | TdData addr addr | TdSet addr addr "addr option" | TdRetire addr "addr option"
  | TdUnlock "addr option" | TdDone "addr option"

fun vqueue_ub_deq_total :: "tdeq_pc \<Rightarrow> tq_mem \<Rightarrow> (tdeq_pc \<times> tq_mem) option" where
  "vqueue_ub_deq_total (TdLock pc) q = deq_lock pc TdLock TdHead q"
| "vqueue_ub_deq_total TdHead q = Some (TdNext (ub_head q), q)"
| "vqueue_ub_deq_total (TdNext head) q = Some (case vatomicptr_read (ub_next q head) of None \<Rightarrow> TdUnlock None | Some qnode \<Rightarrow> TdData head qnode, q)"
| "vqueue_ub_deq_total (TdData head qnode) q = Some (TdSet head qnode (ub_data q qnode), q)"
| "vqueue_ub_deq_total (TdSet head qnode data) q =
     Some (if head \<noteq> SENTINEL then TdRetire head data else TdUnlock data, q\<lparr>ub_head := qnode\<rparr>)"
| "vqueue_ub_deq_total (TdRetire head data) q = Some (TdUnlock data, q)"
| "vqueue_ub_deq_total (TdUnlock data) q = Some (TdDone data, deq_unlock q)"
| "vqueue_ub_deq_total (TdDone data) q = None"

datatype tempty_pc = TmLock ttas_acq_pc | TmHead | TmNext addr | TmUnlock bool | TmDone bool

fun vqueue_ub_empty_total :: "tempty_pc \<Rightarrow> tq_mem \<Rightarrow> (tempty_pc \<times> tq_mem) option" where
  "vqueue_ub_empty_total (TmLock pc) q = deq_lock pc TmLock TmHead q"
| "vqueue_ub_empty_total TmHead q = Some (TmNext (ub_head q), q)"
| "vqueue_ub_empty_total (TmNext head) q = Some (TmUnlock (vatomicptr_read (ub_next q head) = None), q)"
| "vqueue_ub_empty_total (TmUnlock r) q = Some (TmDone r, deq_unlock q)"
| "vqueue_ub_empty_total (TmDone r) q = None"

text \<open>\<open>TlFailed\<close> is the failed assertion of the loop.\<close>

datatype tlength_pc = TlLockD ttas_acq_pc | TlLockE ttas_acq_pc | TlFirst | TlLoop "addr option" u64 | TlUnlockE u64 | TlUnlockD u64 | TlDone u64 | TlFailed

fun vqueue_ub_get_length_total :: "tlength_pc \<Rightarrow> tq_mem \<Rightarrow> (tlength_pc \<times> tq_mem) option" where
  "vqueue_ub_get_length_total (TlLockD pc) q = deq_lock pc TlLockD (TlLockE TtasAwait) q"
| "vqueue_ub_get_length_total (TlLockE pc) q = enq_lock pc TlLockE TlFirst q"
| "vqueue_ub_get_length_total TlFirst q = Some (TlLoop (vatomicptr_read (ub_next q (ub_head q))) 0, q)"
| "vqueue_ub_get_length_total (TlLoop c count) q =
     Some (case c of None \<Rightarrow> TlUnlockE count
       | Some a \<Rightarrow> let c = vatomicptr_read (ub_next q a) in if c \<noteq> Some SENTINEL then TlLoop c (count + 1) else TlFailed, q)"
| "vqueue_ub_get_length_total (TlUnlockE count) q = Some (TlUnlockD count, enq_unlock q)"
| "vqueue_ub_get_length_total (TlUnlockD count) q = Some (TlDone count, deq_unlock q)"
| "vqueue_ub_get_length_total (TlDone count) q = None"
| "vqueue_ub_get_length_total TlFailed q = None"

section \<open>Threads\<close>

text \<open>
  Every node is in the queue or belongs to a thread, which may write anything to it. The history records each call at its effect.
\<close>

datatype tq_pc = TqIdle | TqEnq addr "addr option" tenq_pc | TqDeq tdeq_pc | TqEmpty tempty_pc | TqLength tlength_pc

datatype tq_cmd = TcEnq addr "addr option" | TcDeq | TcEmpty | TcLength | TcWrite addr "addr option" "addr option" | TcRun

record tq_sys =
  tq_q :: tq_mem
  tq_pcs :: "tid \<Rightarrow> tq_pc"
  tq_owner :: "addr \<Rightarrow> tid option"
  tq_hist :: "ub_event list"

text \<open>What a step means for the history and the owners, given where the call was and where it is now.\<close>

fun tq_log :: "tq_pc \<Rightarrow> tq_pc \<Rightarrow> ub_event list" where
  "tq_log (TqEnq n d TeLink) _ = [EvEnq d]"
| "tq_log (TqDeq (TdNext _)) (TqDeq (TdUnlock _)) = [EvEmpty]"
| "tq_log (TqDeq (TdSet _ _ d)) _ = [EvDeq d]"
| "tq_log (TqEmpty (TmNext _)) (TqEmpty (TmUnlock r)) = [if r then EvEmpty else EvNonempty]"
| "tq_log (TqLength (TlUnlockE k)) _ = [EvLength k]"
| "tq_log _ _ = []"

fun tq_own :: "tid \<Rightarrow> tq_pc \<Rightarrow> (addr \<Rightarrow> tid option) \<Rightarrow> addr \<Rightarrow> tid option" where
  "tq_own t (TqEnq n d TeLink) own = own(n := None)"
| "tq_own t (TqDeq (TdRetire f d)) own = own(f \<mapsto> t)"
| "tq_own t _ own = own"

text \<open>A call that has returned leaves the thread idle.\<close>

fun tq_return :: "tq_pc \<Rightarrow> tq_pc" where
  "tq_return (TqEnq n d TeDone) = TqIdle"
| "tq_return (TqDeq (TdDone d)) = TqIdle"
| "tq_return (TqEmpty (TmDone r)) = TqIdle"
| "tq_return (TqLength (TlDone k)) = TqIdle"
| "tq_return p = p"

fun tq_call :: "tq_pc \<Rightarrow> tq_mem \<Rightarrow> (tq_pc \<times> tq_mem) option" where
  "tq_call (TqEnq n d pc) q = map_option (apfst (TqEnq n d)) (vqueue_ub_enq_total n d pc q)"
| "tq_call (TqDeq pc) q = map_option (apfst TqDeq) (vqueue_ub_deq_total pc q)"
| "tq_call (TqEmpty pc) q = map_option (apfst TqEmpty) (vqueue_ub_empty_total pc q)"
| "tq_call (TqLength pc) q = map_option (apfst TqLength) (vqueue_ub_get_length_total pc q)"
| "tq_call TqIdle q = None"

definition tq_run :: "tq_sys \<Rightarrow> tid \<Rightarrow> tq_pc \<Rightarrow> tq_sys option" where
  "tq_run s t p = map_option (\<lambda>(p', q). \<lparr>tq_q = q, tq_pcs = (tq_pcs s)(t := tq_return p'), tq_owner = tq_own t p (tq_owner s),
     tq_hist = tq_hist s @ tq_log p p'\<rparr>) (tq_call p (tq_q s))"

fun tq_step :: "tid \<times> tq_cmd \<Rightarrow> tq_sys \<Rightarrow> tq_sys option" where
  "tq_step (t, cmd) s =
     (case (tq_pcs s t, cmd) of
        (TqIdle, TcEnq n d) \<Rightarrow> (if tq_owner s n = Some t then Some (s\<lparr>tq_pcs := (tq_pcs s)(t := TqEnq n d (TeLock TtasAwait))\<rparr>) else None)
      | (TqIdle, TcDeq) \<Rightarrow> Some (s\<lparr>tq_pcs := (tq_pcs s)(t := TqDeq (TdLock TtasAwait))\<rparr>)
      | (TqIdle, TcEmpty) \<Rightarrow> Some (s\<lparr>tq_pcs := (tq_pcs s)(t := TqEmpty (TmLock TtasAwait))\<rparr>)
      | (TqIdle, TcLength) \<Rightarrow> Some (s\<lparr>tq_pcs := (tq_pcs s)(t := TqLength (TlLockD TtasAwait))\<rparr>)
      | (TqIdle, TcWrite n v d) \<Rightarrow>
          (if tq_owner s n = Some t
           then Some (s\<lparr>tq_q := (tq_q s)\<lparr>ub_next := (ub_next (tq_q s))(n := v), ub_data := (ub_data (tq_q s))(n := d)\<rparr>\<rparr>) else None)
      | (p, TcRun) \<Rightarrow> tq_run s t p
      | _ \<Rightarrow> None)"

definition tq_start :: "(addr \<Rightarrow> tid) \<Rightarrow> tq_mem \<Rightarrow> tq_sys" where
  "tq_start own m = \<lparr>tq_q = vqueue_ub_init_total m, tq_pcs = (\<lambda>_. TqIdle), tq_owner = (\<lambda>n. if n = SENTINEL then None else Some (own n)), tq_hist = []\<rparr>"

section \<open>The invariant\<close>

text \<open>Which lock a call holds.\<close>

fun enq_in :: "tq_pc \<Rightarrow> bool" where
  "enq_in (TqEnq n d pc) \<longleftrightarrow> pc \<in> {TeData, TeNext, TeLink, TeTail, TeUnlock}"
| "enq_in (TqLength TlFirst) \<longleftrightarrow> True" | "enq_in (TqLength (TlLoop c k)) \<longleftrightarrow> True" | "enq_in (TqLength (TlUnlockE k)) \<longleftrightarrow> True" | "enq_in (TqLength TlFailed) \<longleftrightarrow> True"
| "enq_in _ \<longleftrightarrow> False"

fun deq_in :: "tq_pc \<Rightarrow> bool" where
  "deq_in (TqDeq (TdLock pc)) \<longleftrightarrow> False" | "deq_in (TqDeq (TdDone d)) \<longleftrightarrow> False" | "deq_in (TqDeq _) \<longleftrightarrow> True"
| "deq_in (TqEmpty (TmLock pc)) \<longleftrightarrow> False" | "deq_in (TqEmpty (TmDone r)) \<longleftrightarrow> False" | "deq_in (TqEmpty _) \<longleftrightarrow> True"
| "deq_in (TqLength (TlLockD pc)) \<longleftrightarrow> False" | "deq_in (TqLength (TlDone k)) \<longleftrightarrow> False" | "deq_in (TqLength _) \<longleftrightarrow> True"
| "deq_in _ \<longleftrightarrow> False"

definition lock_held :: "(tq_pc \<Rightarrow> bool) \<Rightarrow> ttaslock_t \<Rightarrow> (tid \<Rightarrow> tq_pc) \<Rightarrow> bool" where
  "lock_held inside l pcs \<longleftrightarrow> (\<exists>h. (\<forall>t. inside (pcs t) \<longleftrightarrow> h = Some t) \<and> ttas_state l = (if h = None then 0 else 1))"

lemma lock_held_unique: "lock_held inside l pcs \<Longrightarrow> inside (pcs t) \<Longrightarrow> inside (pcs u) \<Longrightarrow> t = u"
  by (auto simp: lock_held_def)

lemma lock_held_free: "lock_held inside l pcs \<Longrightarrow> ttas_state l = 0 \<longleftrightarrow> (\<forall>t. \<not> inside (pcs t))"
  by (auto simp: lock_held_def)

lemma lock_held_value: "lock_held inside l pcs \<Longrightarrow> ttas_state l \<noteq> 0 \<Longrightarrow> ttas_state l = 1"
  by (auto simp: lock_held_def split: if_splits)

lemma lock_held_take:
  assumes "lock_held inside l pcs" and "ttas_state l = 0" and "ttas_state l' = 1" and "inside p"
  shows "lock_held inside l' (pcs(t := p))"
  using assms lock_held_free [OF assms(1)] unfolding lock_held_def by (auto intro!: exI [of _ "Some t"])

lemma lock_held_give:
  assumes "lock_held inside l pcs" and "inside (pcs t)" and "\<not> inside p" and "ttas_state l' = 0"
  shows "lock_held inside l' (pcs(t := p))"
  using assms unfolding lock_held_def by (auto intro!: exI [of _ None])

lemma lock_held_stay:
  assumes "lock_held inside l pcs" and "inside p = inside (pcs t)" and "ttas_state l' = ttas_state l"
  shows "lock_held inside l' (pcs(t := p))"
  using assms unfolding lock_held_def by (metis fun_upd_apply)

text \<open>What a call knows of the memory; \<open>Q\<close> lists the nodes of the queue from the dummy on.\<close>

fun tq_ok :: "tq_mem \<Rightarrow> addr list \<Rightarrow> tq_pc \<Rightarrow> bool" where
  "tq_ok q Q (TqEnq n d TeNext) \<longleftrightarrow> ub_data q n = d"
| "tq_ok q Q (TqEnq n d TeLink) \<longleftrightarrow> ub_data q n = d \<and> ub_next q n = None"
| "tq_ok q Q (TqEnq n d TeTail) \<longleftrightarrow> last Q = n"
| "tq_ok q Q (TqDeq (TdNext f)) \<longleftrightarrow> f = ub_head q"
| "tq_ok q Q (TqDeq (TdData f x)) \<longleftrightarrow> f = ub_head q \<and> ub_next q f = Some x"
| "tq_ok q Q (TqDeq (TdSet f x d)) \<longleftrightarrow> f = ub_head q \<and> ub_next q f = Some x \<and> ub_data q x = d"
| "tq_ok q Q (TqDeq (TdRetire f d)) \<longleftrightarrow> f \<notin> set Q \<and> f \<noteq> SENTINEL"
| "tq_ok q Q (TqEmpty (TmNext f)) \<longleftrightarrow> f = ub_head q"
| "tq_ok q Q (TqLength (TlLoop c k)) \<longleftrightarrow> (\<exists>pre R. tl Q = pre @ R \<and> chain (ub_next q) c R \<and> k = of_nat (length pre))"
| "tq_ok q Q (TqLength (TlUnlockE k)) \<longleftrightarrow> k = of_nat (length (tl Q))"
| "tq_ok q Q (TqLength TlFailed) \<longleftrightarrow> False"
| "tq_ok q Q (TqEnq n d (TeLock a)) \<longleftrightarrow> a \<noteq> TtasReturn" | "tq_ok q Q (TqEnq n d TeDone) \<longleftrightarrow> False"
| "tq_ok q Q (TqDeq (TdLock a)) \<longleftrightarrow> a \<noteq> TtasReturn" | "tq_ok q Q (TqDeq (TdDone v)) \<longleftrightarrow> False"
| "tq_ok q Q (TqEmpty (TmLock a)) \<longleftrightarrow> a \<noteq> TtasReturn" | "tq_ok q Q (TqEmpty (TmDone r)) \<longleftrightarrow> False"
| "tq_ok q Q (TqLength (TlLockD a)) \<longleftrightarrow> a \<noteq> TtasReturn" | "tq_ok q Q (TqLength (TlLockE a)) \<longleftrightarrow> a \<noteq> TtasReturn"
| "tq_ok q Q (TqLength (TlDone k)) \<longleftrightarrow> False"
| "tq_ok q Q _ \<longleftrightarrow> True"

fun tq_owns :: "tq_pc \<Rightarrow> addr \<Rightarrow> bool" where
  "tq_owns (TqEnq n d pc) a \<longleftrightarrow> a = n \<and> pc \<notin> {TeTail, TeUnlock, TeDone}"
| "tq_owns _ a \<longleftrightarrow> False"

definition tq_linking :: "tq_pc \<Rightarrow> bool" where
  "tq_linking p \<longleftrightarrow> (\<exists>n d. p = TqEnq n d TeTail)"

definition tq_inv :: "tq_sys \<Rightarrow> addr list \<Rightarrow> bool" where
  "tq_inv s Q \<longleftrightarrow> chain (ub_next (tq_q s)) (Some (ub_head (tq_q s))) Q \<and> ub_replay (tq_hist s) [] = Some (map (ub_data (tq_q s)) (tl Q)) \<and>
     SENTINEL \<notin> set (tl Q) \<and> (\<forall>n t. tq_owner s n = Some t \<longrightarrow> n \<notin> set Q \<and> n \<noteq> SENTINEL) \<and>
     (\<forall>t. tq_ok (tq_q s) Q (tq_pcs s t)) \<and> (\<forall>t n. tq_owns (tq_pcs s t) n \<longrightarrow> tq_owner s n = Some t) \<and>
     (\<forall>t f d. tq_pcs s t = TqDeq (TdRetire f d) \<longrightarrow> tq_owner s f = None) \<and>
     ((\<forall>t. \<not> tq_linking (tq_pcs s t)) \<longrightarrow> ub_tail (tq_q s) = last Q) \<and>
     lock_held enq_in (tq_enq_l (tq_q s)) (tq_pcs s) \<and> lock_held deq_in (tq_deq_l (tq_q s)) (tq_pcs s)"

lemma tq_invD:
  assumes "tq_inv s Q"
  shows "chain (ub_next (tq_q s)) (Some (ub_head (tq_q s))) Q" "ub_replay (tq_hist s) [] = Some (map (ub_data (tq_q s)) (tl Q))"
    "SENTINEL \<notin> set (tl Q)" "tq_owner s n = Some t \<Longrightarrow> n \<notin> set Q \<and> n \<noteq> SENTINEL" "tq_ok (tq_q s) Q (tq_pcs s t)"
    "tq_owns (tq_pcs s t) n \<Longrightarrow> tq_owner s n = Some t" "tq_pcs s t = TqDeq (TdRetire f d) \<Longrightarrow> tq_owner s f = None"
    "(\<And>t. \<not> tq_linking (tq_pcs s t)) \<Longrightarrow> ub_tail (tq_q s) = last Q"
    "lock_held enq_in (tq_enq_l (tq_q s)) (tq_pcs s)" "lock_held deq_in (tq_deq_l (tq_q s)) (tq_pcs s)"
  using assms unfolding tq_inv_def by blast+

lemma tq_invI:
  assumes "chain (ub_next (tq_q s)) (Some (ub_head (tq_q s))) Q" and "ub_replay (tq_hist s) [] = Some (map (ub_data (tq_q s)) (tl Q))"
    and "SENTINEL \<notin> set (tl Q)" and "\<And>n t. tq_owner s n = Some t \<Longrightarrow> n \<notin> set Q \<and> n \<noteq> SENTINEL"
    and "\<And>t. tq_ok (tq_q s) Q (tq_pcs s t)" and "\<And>t n. tq_owns (tq_pcs s t) n \<Longrightarrow> tq_owner s n = Some t"
    and "\<And>t f d. tq_pcs s t = TqDeq (TdRetire f d) \<Longrightarrow> tq_owner s f = None"
    and "(\<And>t. \<not> tq_linking (tq_pcs s t)) \<Longrightarrow> ub_tail (tq_q s) = last Q"
    and "lock_held enq_in (tq_enq_l (tq_q s)) (tq_pcs s)" and "lock_held deq_in (tq_deq_l (tq_q s)) (tq_pcs s)"
  shows "tq_inv s Q"
  using assms unfolding tq_inv_def by blast

lemma tq_Q:
  assumes "tq_inv s Q"
  obtains L where "Q = ub_head (tq_q s) # L" "distinct Q" "chain (ub_next (tq_q s)) (ub_next (tq_q s) (ub_head (tq_q s))) L"
  using tq_invD(1) [OF assms] chain_distinct [OF tq_invD(1) [OF assms]] by (auto simp: chain_Some)

text \<open>What a call knows survives the steps of the others.\<close>

lemma tq_ok_frame:
  assumes ok: "tq_ok q Q p"
    and own: "\<And>n. tq_owns p n \<Longrightarrow> ub_data q' n = ub_data q n \<and> ub_next q' n = ub_next q n"
    and enq: "enq_in p \<Longrightarrow> last Q' = last Q"
    and deq: "deq_in p \<Longrightarrow> ub_head q' = ub_head q" "\<And>x. deq_in p \<Longrightarrow> ub_next q (ub_head q) = Some x \<Longrightarrow> ub_next q' (ub_head q) = Some x \<and> ub_data q' x = ub_data q x"
    and both: "enq_in p \<Longrightarrow> deq_in p \<Longrightarrow> tl Q' = tl Q" "\<And>a. enq_in p \<Longrightarrow> deq_in p \<Longrightarrow> a \<in> set (tl Q) \<Longrightarrow> ub_next q' a = ub_next q a"
    and ret: "\<And>f d. p = TqDeq (TdRetire f d) \<Longrightarrow> f \<notin> set Q' - set Q"
  shows "tq_ok q' Q' p"
proof (cases p)
  case (TqEnq n d pc)
  then show ?thesis using ok own [of n] enq by (cases pc) auto
next
  case (TqDeq pc)
  then show ?thesis using ok deq ret by (cases pc) auto
next
  case (TqEmpty pc)
  then show ?thesis using ok deq by (cases pc) auto
next
  case (TqLength pc)
  have "chain (ub_next q') c R" if "chain (ub_next q) c R" "set R \<subseteq> set (tl Q)" "enq_in p" "deq_in p" for c R
    using that both(2) by (induction R arbitrary: c) auto
  then show ?thesis using TqLength ok both by (cases pc) fastforce+
qed simp

section \<open>Steps\<close>

text \<open>A step that changes at most a lock: the history may get an event that leaves the queue as it is.\<close>

lemma tq_local:
  assumes I: "tq_inv s Q" and q: "ub_head q = ub_head (tq_q s)" "ub_tail q = ub_tail (tq_q s)" "ub_next q = ub_next (tq_q s)" "ub_data q = ub_data (tq_q s)"
    and ev: "ub_replay (tq_hist s @ ev) [] = Some (map (ub_data (tq_q s)) (tl Q))"
    and ok: "tq_ok (tq_q s) Q p" and own: "\<And>n. tq_owns p n \<Longrightarrow> tq_owner s n = Some t"
    and nl: "\<not> tq_linking p" "\<not> tq_linking (tq_pcs s t)" and nr: "\<And>f d. p \<noteq> TqDeq (TdRetire f d)"
    and e: "lock_held enq_in (tq_enq_l q) ((tq_pcs s)(t := p))" and d: "lock_held deq_in (tq_deq_l q) ((tq_pcs s)(t := p))"
  shows "tq_inv \<lparr>tq_q = q, tq_pcs = (tq_pcs s)(t := p), tq_owner = tq_owner s, tq_hist = tq_hist s @ ev\<rparr> Q"
proof (rule tq_invI, goal_cases)
  case (5 u)
  have "tq_ok q Q p'" if "tq_ok (tq_q s) Q p'" for p' by (rule tq_ok_frame [OF that]) (use q in auto)
  then show ?case using tq_invD(5) [OF I, of u] ok by simp
next
  case (6 u n)
  then show ?case using tq_invD(6) [OF I, of u n] own by (auto split: if_splits)
next
  case (7 u f d)
  then show ?case using tq_invD(7) [OF I, of u f d] nr by (auto split: if_splits)
next
  case 8
  have "\<not> tq_linking (tq_pcs s u)" for u using 8 [of u] nl by (auto split: if_splits)
  then show ?case using tq_invD(8) [OF I] q by simp
qed (use tq_invD [OF I] q ev e d in auto)

lemma tq_write:
  assumes I: "tq_inv s Q" and n: "tq_owner s n = Some t"
    and q: "ub_head q = ub_head (tq_q s)" "ub_tail q = ub_tail (tq_q s)" "\<And>a. a \<noteq> n \<Longrightarrow> ub_next q a = ub_next (tq_q s) a" "\<And>a. a \<noteq> n \<Longrightarrow> ub_data q a = ub_data (tq_q s) a"
      "tq_enq_l q = tq_enq_l (tq_q s)" "tq_deq_l q = tq_deq_l (tq_q s)"
    and p: "tq_ok q Q p" "\<And>a. tq_owns p a \<Longrightarrow> tq_owner s a = Some t" "\<And>f d. p \<noteq> TqDeq (TdRetire f d)" "\<not> tq_linking p" "\<not> tq_linking (tq_pcs s t)"
      "enq_in p = enq_in (tq_pcs s t)" "deq_in p = deq_in (tq_pcs s t)"
  shows "tq_inv \<lparr>tq_q = q, tq_pcs = (tq_pcs s)(t := p), tq_owner = tq_owner s, tq_hist = tq_hist s\<rparr> Q"
proof -
  obtain L where L: "Q = ub_head (tq_q s) # L" "distinct Q" "chain (ub_next (tq_q s)) (ub_next (tq_q s) (ub_head (tq_q s))) L" by (rule tq_Q [OF I])
  have nQ: "n \<notin> set Q" using tq_invD(4) [OF I n] by simp
  have "ub_next q = (ub_next (tq_q s))(n := ub_next q n)" using q by auto
  then obtain v where nx: "ub_next q = (ub_next (tq_q s))(n := v)" by blast
  have dt: "map (ub_data q) (tl Q) = map (ub_data (tq_q s)) (tl Q)"
  proof (rule map_cong)
    fix a assume "a \<in> set (tl Q)"
    then show "ub_data q a = ub_data (tq_q s) a" using nQ L(1) q(4) [of a] by auto
  qed simp
  show ?thesis
  proof (rule tq_invI, goal_cases)
    case 1
    then show ?case using tq_invD(1) [OF I] nQ q(1) nx by (simp add: chain_upd)
  next
    case 2
    then show ?case using tq_invD(2) [OF I] dt by simp
  next
    case (5 u)
    have "tq_ok q Q (tq_pcs s u)" if "u \<noteq> t"
    proof (rule tq_ok_frame [OF tq_invD(5) [OF I, of u]], goal_cases)
      case (1 a)
      then have "a \<noteq> n" using tq_invD(6) [OF I, of u a] n that by auto
      then show ?case using q by simp
    next
      case (4 x)
      then have "x \<in> set Q" using L(1,3) by (cases L) auto
      then have "x \<noteq> n" "ub_head (tq_q s) \<noteq> n" using nQ L(1) by auto
      then show ?case using 4 q(3) [of "ub_head (tq_q s)"] q(4) [of x] by simp
    next
      case (6 a)
      then have "a \<in> set Q" using L(1) by simp
      then show ?case using nQ q(3) [of a] by auto
    qed (use q in auto)
    then show ?case using p(1) by simp
  next
    case (6 u a)
    then show ?case using tq_invD(6) [OF I, of u a] p(2) by (auto split: if_splits)
  next
    case (7 u f d)
    then show ?case using tq_invD(7) [OF I, of u f d] p(3) by (auto split: if_splits)
  next
    case 8
    have "\<not> tq_linking (tq_pcs s u)" for u using 8 [of u] p(4,5) by (auto split: if_splits)
    then show ?case using tq_invD(8) [OF I] q by simp
  next
    case 9
    then show ?case using lock_held_stay [OF tq_invD(9) [OF I], of p t "tq_enq_l q"] p(6) q(5) by simp
  next
    case 10
    then show ?case using lock_held_stay [OF tq_invD(10) [OF I], of p t "tq_deq_l q"] p(7) q(6) by simp
  qed (use tq_invD [OF I] in auto)
qed

lemma tq_link:
  assumes I: "tq_inv s Q" and p: "tq_pcs s t = TqEnq n d TeLink"
  shows "tq_inv \<lparr>tq_q = (tq_q s)\<lparr>ub_next := (ub_next (tq_q s))(ub_tail (tq_q s) \<mapsto> n)\<rparr>, tq_pcs = (tq_pcs s)(t := TqEnq n d TeTail),
    tq_owner = (tq_owner s)(n := None), tq_hist = tq_hist s @ [EvEnq d]\<rparr> (Q @ [n])"
proof -
  let ?l = "ub_tail (tq_q s)" and ?q = "(tq_q s)\<lparr>ub_next := (ub_next (tq_q s))(ub_tail (tq_q s) \<mapsto> n)\<rparr>"
  obtain L where L: "Q = ub_head (tq_q s) # L" "distinct Q" "chain (ub_next (tq_q s)) (ub_next (tq_q s) (ub_head (tq_q s))) L" by (rule tq_Q [OF I])
  have own: "tq_owner s n = Some t" using tq_invD(6) [OF I, of t n] p by simp
  have nQ: "n \<notin> set Q" "n \<noteq> SENTINEL" using tq_invD(4) [OF I own] by auto
  have n: "ub_data (tq_q s) n = d" "ub_next (tq_q s) n = None" using tq_invD(5) [OF I, of t] p by simp_all
  have ex: "\<not> enq_in (tq_pcs s u)" if "u \<noteq> t" for u using lock_held_unique [OF tq_invD(9) [OF I], of t u] p that by auto
  have "\<not> tq_linking (tq_pcs s u)" for u using ex [of u] p by (cases "u = t") (auto simp: tq_linking_def)
  then have l: "?l = last Q" by (rule tq_invD(8) [OF I])
  have lQ: "?l \<in> set Q" using l L(1) by simp
  have ln: "ub_next (tq_q s) ?l = None"
    using chain_last [OF tq_invD(1) [OF I]] l L(1) by simp
  show ?thesis
  proof (rule tq_invI, goal_cases)
    case 1
    have "chain ((ub_next (tq_q s))(last Q := Some n)) (Some (ub_head (tq_q s))) (Q @ [n])"
      by (rule chain_snoc [OF tq_invD(1) [OF I] _ nQ(1) n(2)]) (use L in simp)
    then show ?case using l by simp
  next
    case 2
    then show ?case using ub_replay_snoc [OF tq_invD(2) [OF I], of "EvEnq d"] n(1) L(1) by simp
  next
    case (4 m u)
    then show ?case using tq_invD(4) [OF I, of m u] by (auto split: if_splits)
  next
    case (5 u)
    have "tq_ok ?q (Q @ [n]) (tq_pcs s u)" if "u \<noteq> t"
    proof (rule tq_ok_frame [OF tq_invD(5) [OF I, of u]], goal_cases)
      case (1 a)
      then have "a \<notin> set Q" using tq_invD(4,6) [OF I] by blast
      then show ?case using lQ by auto
    next
      case (4 x)
      then show ?case using ln by auto
    next
      case (7 f d')
      then show ?case using tq_invD(7) [OF I, of u f d'] own by auto
    qed (use ex [OF that] in auto)
    then show ?case by simp
  next
    case (6 u a)
    then show ?case using tq_invD(6) [OF I, of u a] own by (auto split: if_splits)
  next
    case (7 u f d')
    then show ?case using tq_invD(7) [OF I, of u f d'] by (auto split: if_splits)
  next
    case 8
    then show ?case using 8 [of t] by (simp add: tq_linking_def)
  next
    case 9
    then show ?case using lock_held_stay [OF tq_invD(9) [OF I]] p by simp
  next
    case 10
    then show ?case using lock_held_stay [OF tq_invD(10) [OF I]] p by simp
  qed (use tq_invD(3) [OF I] nQ L(1) in auto)
qed

lemma tq_advance_tail:
  assumes I: "tq_inv s Q" and p: "tq_pcs s t = TqEnq n d TeTail"
  shows "tq_inv \<lparr>tq_q = (tq_q s)\<lparr>ub_tail := n\<rparr>, tq_pcs = (tq_pcs s)(t := TqEnq n d TeUnlock), tq_owner = tq_owner s, tq_hist = tq_hist s\<rparr> Q"
proof (rule tq_invI, goal_cases)
  case (5 u)
  have "tq_ok ((tq_q s)\<lparr>ub_tail := n\<rparr>) Q (tq_pcs s u)" by (rule tq_ok_frame [OF tq_invD(5) [OF I, of u]]) auto
  then show ?case by simp
next
  case (6 u a)
  then show ?case using tq_invD(6) [OF I, of u a] by (auto split: if_splits)
next
  case (7 u f d')
  then show ?case using tq_invD(7) [OF I, of u f d'] by (auto split: if_splits)
next
  case 8
  then show ?case using tq_invD(5) [OF I, of t] p by simp
next
  case 9
  then show ?case using lock_held_stay [OF tq_invD(9) [OF I]] p by simp
next
  case 10
  then show ?case using lock_held_stay [OF tq_invD(10) [OF I]] p by simp
qed (use tq_invD [OF I] in auto)

lemma tq_advance_head:
  assumes I: "tq_inv s Q" and p: "tq_pcs s t = TqDeq (TdSet f x v)"
  shows "tq_inv \<lparr>tq_q = (tq_q s)\<lparr>ub_head := x\<rparr>, tq_pcs = (tq_pcs s)(t := TqDeq (if f \<noteq> SENTINEL then TdRetire f v else TdUnlock v)),
    tq_owner = tq_owner s, tq_hist = tq_hist s @ [EvDeq v]\<rparr> (tl Q)"
proof -
  let ?q = "(tq_q s)\<lparr>ub_head := x\<rparr>"
  have ok: "f = ub_head (tq_q s)" "ub_next (tq_q s) f = Some x" "ub_data (tq_q s) x = v" using tq_invD(5) [OF I, of t] p by auto
  obtain L where L: "Q = f # L" "distinct Q" "chain (ub_next (tq_q s)) (Some x) L" using tq_Q [OF I] ok(1,2) by metis
  obtain L' where L': "L = x # L'" using L(3) by (auto simp: chain_Some)
  have ex: "\<not> deq_in (tq_pcs s u)" if "u \<noteq> t" for u using lock_held_unique [OF tq_invD(10) [OF I], of t u] p that by auto
  have fo: "tq_owner s f = None" using tq_invD(4) [OF I, of f] L(1) by (cases "tq_owner s f") auto
  show ?thesis
  proof (rule tq_invI, goal_cases)
    case 1
    then show ?case using L by simp
  next
    case 2
    then show ?case using ub_replay_snoc [OF tq_invD(2) [OF I], of "EvDeq v"] L(1) L' ok(3) by simp
  next
    case (4 m u)
    then show ?case using tq_invD(4) [OF I, of m u] L(1) by simp
  next
    case (5 u)
    have "tq_ok ?q (tl Q) (tq_pcs s u)" if "u \<noteq> t"
      by (rule tq_ok_frame [OF tq_invD(5) [OF I, of u]]) (use ex [OF that] L(1) L' in auto)
    then show ?case using L by simp
  next
    case (6 u a)
    then show ?case using tq_invD(6) [OF I, of u a] by (auto split: if_splits)
  next
    case (7 u f' d')
    then show ?case using tq_invD(7) [OF I, of u f' d'] fo by (auto split: if_splits)
  next
    case 8
    have "\<not> tq_linking (tq_pcs s u)" for u using 8 [of u] p by (auto simp: tq_linking_def split: if_splits)
    then show ?case using tq_invD(8) [OF I] L(1) L' by simp
  next
    case 9
    then show ?case using lock_held_stay [OF tq_invD(9) [OF I]] p by simp
  next
    case 10
    then show ?case using lock_held_stay [OF tq_invD(10) [OF I]] p by simp
  qed (use tq_invD(3) [OF I] L(1) L' in auto)
qed

lemma tq_retire:
  assumes I: "tq_inv s Q" and p: "tq_pcs s t = TqDeq (TdRetire f v)"
  shows "tq_inv \<lparr>tq_q = tq_q s, tq_pcs = (tq_pcs s)(t := TqDeq (TdUnlock v)), tq_owner = (tq_owner s)(f \<mapsto> t), tq_hist = tq_hist s\<rparr> Q"
proof -
  have f: "f \<notin> set Q" "f \<noteq> SENTINEL" using tq_invD(5) [OF I, of t] p by simp_all
  have ex: "\<not> deq_in (tq_pcs s u)" if "u \<noteq> t" for u using lock_held_unique [OF tq_invD(10) [OF I], of t u] p that by auto
  show ?thesis
  proof (rule tq_invI, goal_cases)
    case (4 m u)
    then show ?case using tq_invD(4) [OF I, of m u] f by (auto split: if_splits)
  next
    case (5 u)
    then show ?case using tq_invD(5) [OF I, of u] by simp
  next
    case (6 u a)
    then have "tq_owner s a = Some u" using tq_invD(6) [OF I, of u a] by (auto split: if_splits)
    moreover have "a \<noteq> f" using calculation tq_invD(7) [OF I p] by auto
    ultimately show ?case by simp
  next
    case (7 u f' d')
    then have "u \<noteq> t" by auto
    then show ?case using 7 ex [of u] by simp
  next
    case 8
    have "\<not> tq_linking (tq_pcs s u)" for u using 8 [of u] p by (auto simp: tq_linking_def split: if_splits)
    then show ?case using tq_invD(8) [OF I] by simp
  next
    case 9
    then show ?case using lock_held_stay [OF tq_invD(9) [OF I]] p by simp
  next
    case 10
    then show ?case using lock_held_stay [OF tq_invD(10) [OF I]] p by simp
  qed (use tq_invD [OF I] in auto)
qed

text \<open>Where a call may go without changing the memory of the queue.\<close>

definition tq_may :: "tq_sys \<Rightarrow> addr list \<Rightarrow> tid \<Rightarrow> tq_pc \<Rightarrow> bool" where
  "tq_may s Q t p \<longleftrightarrow> tq_ok (tq_q s) Q p \<and> (\<forall>n. tq_owns p n \<longrightarrow> tq_owner s n = Some t) \<and> \<not> tq_linking p \<and> (\<forall>f d. p \<noteq> TqDeq (TdRetire f d))"

lemma tq_goto:
  assumes I: "tq_inv s Q" and "tq_may s Q t p" and "\<not> tq_linking (tq_pcs s t)"
    and "enq_in p = enq_in (tq_pcs s t)" and "deq_in p = deq_in (tq_pcs s t)" and "ub_replay (tq_hist s @ ev) [] = Some (map (ub_data (tq_q s)) (tl Q))"
  shows "tq_inv \<lparr>tq_q = tq_q s, tq_pcs = (tq_pcs s)(t := p), tq_owner = tq_owner s, tq_hist = tq_hist s @ ev\<rparr> Q"
  by (rule tq_local [OF I]) (use assms lock_held_stay [OF tq_invD(9) [OF I]] lock_held_stay [OF tq_invD(10) [OF I]] in \<open>auto simp: tq_may_def\<close>)

lemma ttas_acquire_cases:
  assumes "ttaslock_acquire pc l = Some (pc', l')" and "lock_held inside l pcs"
  shows "(pc' \<noteq> TtasReturn \<and> ttas_state l' = ttas_state l) \<or> (pc' = TtasReturn \<and> ttas_state l = 0 \<and> ttas_state l' = 1)"
  using assms lock_held_value [OF assms(2)] by (cases pc) (auto simp: vatomic_simps split: if_splits)

lemma tq_enq_lock:
  assumes I: "tq_inv s Q" and r: "enq_lock pc wait k (tq_q s) = Some (x, q)" and p: "\<not> enq_in (tq_pcs s t)" "\<not> tq_linking (tq_pcs s t)"
    and w: "\<And>pc'. pc' \<noteq> TtasReturn \<Longrightarrow> tq_may s Q t (c (wait pc')) \<and> \<not> enq_in (c (wait pc')) \<and> deq_in (c (wait pc')) = deq_in (tq_pcs s t)"
    and k: "tq_may s Q t (c k)" "enq_in (c k)" "deq_in (c k) = deq_in (tq_pcs s t)"
  shows "tq_inv \<lparr>tq_q = q, tq_pcs = (tq_pcs s)(t := c x), tq_owner = tq_owner s, tq_hist = tq_hist s @ []\<rparr> Q"
proof -
  obtain pc' l' where a: "ttaslock_acquire pc (tq_enq_l (tq_q s)) = Some (pc', l')" "x = (if pc' = TtasReturn then k else wait pc')" "q = (tq_q s)\<lparr>tq_enq_l := l'\<rparr>"
    using r by (auto simp: enq_lock_def)
  note c = ttas_acquire_cases [OF a(1) tq_invD(9) [OF I]]
  have m: "tq_may s Q t (c x)" "deq_in (c x) = deq_in (tq_pcs s t)" using w [of pc'] k a(2) by auto
  have "lock_held enq_in l' ((tq_pcs s)(t := c x))"
  proof (cases "pc' = TtasReturn")
    case True
    then show ?thesis using lock_held_take [OF tq_invD(9) [OF I]] c k(2) a(2) by auto
  next
    case False
    then show ?thesis using lock_held_stay [OF tq_invD(9) [OF I]] c w [of pc'] a(2) p(1) by auto
  qed
  then show ?thesis using tq_local [OF I, where q = q and p = "c x" and ev = "[]" and t = t] a(3) m p(2) tq_invD(2) [OF I]
    lock_held_stay [OF tq_invD(10) [OF I], of "c x" t] by (auto simp: tq_may_def)
qed

lemma tq_deq_lock:
  assumes I: "tq_inv s Q" and r: "deq_lock pc wait k (tq_q s) = Some (x, q)" and p: "\<not> deq_in (tq_pcs s t)" "\<not> tq_linking (tq_pcs s t)"
    and w: "\<And>pc'. pc' \<noteq> TtasReturn \<Longrightarrow> tq_may s Q t (c (wait pc')) \<and> \<not> deq_in (c (wait pc')) \<and> enq_in (c (wait pc')) = enq_in (tq_pcs s t)"
    and k: "tq_may s Q t (c k)" "deq_in (c k)" "enq_in (c k) = enq_in (tq_pcs s t)"
  shows "tq_inv \<lparr>tq_q = q, tq_pcs = (tq_pcs s)(t := c x), tq_owner = tq_owner s, tq_hist = tq_hist s @ []\<rparr> Q"
proof -
  obtain pc' l' where a: "ttaslock_acquire pc (tq_deq_l (tq_q s)) = Some (pc', l')" "x = (if pc' = TtasReturn then k else wait pc')" "q = (tq_q s)\<lparr>tq_deq_l := l'\<rparr>"
    using r by (auto simp: deq_lock_def)
  note c = ttas_acquire_cases [OF a(1) tq_invD(10) [OF I]]
  have m: "tq_may s Q t (c x)" "enq_in (c x) = enq_in (tq_pcs s t)" using w [of pc'] k a(2) by auto
  have "lock_held deq_in l' ((tq_pcs s)(t := c x))"
  proof (cases "pc' = TtasReturn")
    case True
    then show ?thesis using lock_held_take [OF tq_invD(10) [OF I]] c k(2) a(2) by auto
  next
    case False
    then show ?thesis using lock_held_stay [OF tq_invD(10) [OF I]] c w [of pc'] a(2) p(1) by auto
  qed
  then show ?thesis using tq_local [OF I, where q = q and p = "c x" and ev = "[]" and t = t] a(3) m p(2) tq_invD(2) [OF I]
    lock_held_stay [OF tq_invD(9) [OF I], of "c x" t] by (auto simp: tq_may_def)
qed

lemma tq_unlock_enq:
  assumes I: "tq_inv s Q" and p: "enq_in (tq_pcs s t)" "\<not> tq_linking (tq_pcs s t)" and m: "tq_may s Q t p" "\<not> enq_in p" "deq_in p = deq_in (tq_pcs s t)"
    and ev: "ub_replay (tq_hist s @ ev) [] = Some (map (ub_data (tq_q s)) (tl Q))"
  shows "tq_inv \<lparr>tq_q = enq_unlock (tq_q s), tq_pcs = (tq_pcs s)(t := p), tq_owner = tq_owner s, tq_hist = tq_hist s @ ev\<rparr> Q"
  by (rule tq_local [OF I])
    (use assms lock_held_give [OF tq_invD(9) [OF I] p(1) m(2)] lock_held_stay [OF tq_invD(10) [OF I]] in \<open>auto simp: tq_may_def enq_unlock_def ttaslock_release_def vatomic_simps\<close>)

lemma tq_unlock_deq:
  assumes I: "tq_inv s Q" and p: "deq_in (tq_pcs s t)" "\<not> tq_linking (tq_pcs s t)" and m: "tq_may s Q t p" "\<not> deq_in p" "enq_in p = enq_in (tq_pcs s t)"
    and ev: "ub_replay (tq_hist s @ ev) [] = Some (map (ub_data (tq_q s)) (tl Q))"
  shows "tq_inv \<lparr>tq_q = deq_unlock (tq_q s), tq_pcs = (tq_pcs s)(t := p), tq_owner = tq_owner s, tq_hist = tq_hist s @ ev\<rparr> Q"
  by (rule tq_local [OF I])
    (use assms lock_held_give [OF tq_invD(10) [OF I] p(1) m(2)] lock_held_stay [OF tq_invD(9) [OF I]] in \<open>auto simp: tq_may_def deq_unlock_def ttaslock_release_def vatomic_simps\<close>)

section \<open>Every step keeps the invariant\<close>

lemma tq_run_enq:
  assumes I: "tq_inv s Q" and p: "tq_pcs s t = TqEnq n d pc" and r: "tq_run s t (TqEnq n d pc) = Some s'"
  shows "\<exists>Q'. tq_inv s' Q'"
proof -
  obtain pc' q where v: "vqueue_ub_enq_total n d pc (tq_q s) = Some (pc', q)" and
    s': "s' = \<lparr>tq_q = q, tq_pcs = (tq_pcs s)(t := tq_return (TqEnq n d pc')), tq_owner = tq_own t (TqEnq n d pc) (tq_owner s),
      tq_hist = tq_hist s @ tq_log (TqEnq n d pc) (TqEnq n d pc')\<rparr>" using r by (auto simp: tq_run_def)
  have own: "pc \<notin> {TeTail, TeUnlock, TeDone} \<Longrightarrow> tq_owner s n = Some t" using tq_invD(6) [OF I, of t n] p by simp
  have ok: "tq_ok (tq_q s) Q (TqEnq n d pc)" using tq_invD(5) [OF I, of t] p by simp
  show ?thesis
  proof (cases pc)
    case (TeLock a)
    have "tq_inv \<lparr>tq_q = q, tq_pcs = (tq_pcs s)(t := tq_return (TqEnq n d pc')), tq_owner = tq_owner s, tq_hist = tq_hist s @ []\<rparr> Q"
      by (rule tq_enq_lock [OF I, where c = "\<lambda>x. tq_return (TqEnq n d x)" and pc = a and wait = TeLock and k = TeData])
        (use v TeLock p own in \<open>auto simp: tq_may_def tq_linking_def\<close>)
    then show ?thesis using s' TeLock by auto
  next
    case TeData
    have "tq_inv \<lparr>tq_q = q, tq_pcs = (tq_pcs s)(t := TqEnq n d TeNext), tq_owner = tq_owner s, tq_hist = tq_hist s\<rparr> Q"
      by (rule tq_write [OF I own]) (use v TeData p own in \<open>auto simp: tq_linking_def\<close>)
    then show ?thesis using s' v TeData by auto
  next
    case TeNext
    have "tq_inv \<lparr>tq_q = q, tq_pcs = (tq_pcs s)(t := TqEnq n d TeLink), tq_owner = tq_owner s, tq_hist = tq_hist s\<rparr> Q"
      by (rule tq_write [OF I own]) (use v TeNext p own ok in \<open>auto simp: tq_linking_def vatomic_simps\<close>)
    then show ?thesis using s' v TeNext by auto
  next
    case TeLink
    then show ?thesis using tq_link [OF I, of t n d] p s' v by (auto simp: vatomic_simps)
  next
    case TeTail
    then show ?thesis using tq_advance_tail [OF I, of t n d] p s' v by auto
  next
    case TeUnlock
    then show ?thesis using tq_unlock_enq [OF I, of t TqIdle "[]"] p s' v tq_invD(2) [OF I] by (auto simp: tq_may_def tq_linking_def)
  qed (use v in simp)
qed

lemma tq_run_deq:
  assumes I: "tq_inv s Q" and p: "tq_pcs s t = TqDeq pc" and r: "tq_run s t (TqDeq pc) = Some s'"
  shows "\<exists>Q'. tq_inv s' Q'"
proof -
  obtain pc' q where v: "vqueue_ub_deq_total pc (tq_q s) = Some (pc', q)" and
    s': "s' = \<lparr>tq_q = q, tq_pcs = (tq_pcs s)(t := tq_return (TqDeq pc')), tq_owner = tq_own t (TqDeq pc) (tq_owner s),
      tq_hist = tq_hist s @ tq_log (TqDeq pc) (TqDeq pc')\<rparr>" using r by (auto simp: tq_run_def)
  obtain L where L: "Q = ub_head (tq_q s) # L" "chain (ub_next (tq_q s)) (ub_next (tq_q s) (ub_head (tq_q s))) L" by (rule tq_Q [OF I])
  have ok: "tq_ok (tq_q s) Q (TqDeq pc)" using tq_invD(5) [OF I, of t] p by simp
  show ?thesis
  proof (cases pc)
    case (TdLock a)
    have "tq_inv \<lparr>tq_q = q, tq_pcs = (tq_pcs s)(t := tq_return (TqDeq pc')), tq_owner = tq_owner s, tq_hist = tq_hist s @ []\<rparr> Q"
      by (rule tq_deq_lock [OF I, where c = "\<lambda>x. tq_return (TqDeq x)" and pc = a and wait = TdLock and k = TdHead])
        (use v TdLock p in \<open>auto simp: tq_may_def tq_linking_def\<close>)
    then show ?thesis using s' TdLock by auto
  next
    case TdHead
    then show ?thesis using tq_goto [OF I, of t "TqDeq pc'" "[]"] p s' v tq_invD(2) [OF I] by (auto simp: tq_may_def tq_linking_def)
  next
    case (TdNext f)
    show ?thesis
    proof (cases "ub_next (tq_q s) f")
      case None
      then have "tl Q = []" using L ok TdNext by (simp add: chain_None)
      then show ?thesis using tq_goto [OF I, of t "TqDeq pc'" "[EvEmpty]"] p s' v TdNext None ub_replay_snoc [OF tq_invD(2) [OF I], of EvEmpty]
        by (auto simp: tq_may_def tq_linking_def vatomic_simps)
    next
      case (Some x)
      then show ?thesis using tq_goto [OF I, of t "TqDeq pc'" "[]"] p s' v TdNext ok tq_invD(2) [OF I] by (auto simp: tq_may_def tq_linking_def vatomic_simps)
    qed
  next
    case (TdData f x)
    then show ?thesis using tq_goto [OF I, of t "TqDeq pc'" "[]"] p s' v ok tq_invD(2) [OF I] by (auto simp: tq_may_def tq_linking_def)
  next
    case (TdSet f x d)
    then show ?thesis using tq_advance_head [OF I, of t f x d] p s' v by (auto split: if_splits)
  next
    case (TdRetire f d)
    then show ?thesis using tq_retire [OF I, of t f d] p s' v by auto
  next
    case (TdUnlock d)
    then show ?thesis using tq_unlock_deq [OF I, of t TqIdle "[]"] p s' v tq_invD(2) [OF I] by (auto simp: tq_may_def tq_linking_def)
  qed (use v in simp)
qed

lemma tq_run_empty:
  assumes I: "tq_inv s Q" and p: "tq_pcs s t = TqEmpty pc" and r: "tq_run s t (TqEmpty pc) = Some s'"
  shows "\<exists>Q'. tq_inv s' Q'"
proof -
  obtain pc' q where v: "vqueue_ub_empty_total pc (tq_q s) = Some (pc', q)" and
    s': "s' = \<lparr>tq_q = q, tq_pcs = (tq_pcs s)(t := tq_return (TqEmpty pc')), tq_owner = tq_owner s,
      tq_hist = tq_hist s @ tq_log (TqEmpty pc) (TqEmpty pc')\<rparr>" using r by (auto simp: tq_run_def)
  obtain L where L: "Q = ub_head (tq_q s) # L" "chain (ub_next (tq_q s)) (ub_next (tq_q s) (ub_head (tq_q s))) L" by (rule tq_Q [OF I])
  have ok: "tq_ok (tq_q s) Q (TqEmpty pc)" using tq_invD(5) [OF I, of t] p by simp
  show ?thesis
  proof (cases pc)
    case (TmLock a)
    have "tq_inv \<lparr>tq_q = q, tq_pcs = (tq_pcs s)(t := tq_return (TqEmpty pc')), tq_owner = tq_owner s, tq_hist = tq_hist s @ []\<rparr> Q"
      by (rule tq_deq_lock [OF I, where c = "\<lambda>x. tq_return (TqEmpty x)" and pc = a and wait = TmLock and k = TmHead])
        (use v TmLock p in \<open>auto simp: tq_may_def tq_linking_def\<close>)
    then show ?thesis using s' TmLock by auto
  next
    case TmHead
    then show ?thesis using tq_goto [OF I, of t "TqEmpty pc'" "[]"] p s' v tq_invD(2) [OF I] by (auto simp: tq_may_def tq_linking_def)
  next
    case (TmNext f)
    let ?e = "if ub_next (tq_q s) f = None then EvEmpty else EvNonempty"
    have "ub_next (tq_q s) f = None \<longleftrightarrow> tl Q = []" using L ok TmNext by (cases L) auto
    then have "ub_replay (tq_hist s @ [?e]) [] = Some (map (ub_data (tq_q s)) (tl Q))" using ub_replay_snoc [OF tq_invD(2) [OF I], of ?e] by auto
    then show ?thesis using tq_goto [OF I, of t "TqEmpty pc'" "[?e]"] p s' v TmNext by (auto simp: tq_may_def tq_linking_def vatomic_simps)
  next
    case (TmUnlock b)
    then show ?thesis using tq_unlock_deq [OF I, of t TqIdle "[]"] p s' v tq_invD(2) [OF I] by (auto simp: tq_may_def tq_linking_def)
  qed (use v in simp)
qed

lemma tq_run_length:
  assumes I: "tq_inv s Q" and p: "tq_pcs s t = TqLength pc" and r: "tq_run s t (TqLength pc) = Some s'"
  shows "\<exists>Q'. tq_inv s' Q'"
proof -
  obtain pc' q where v: "vqueue_ub_get_length_total pc (tq_q s) = Some (pc', q)" and
    s': "s' = \<lparr>tq_q = q, tq_pcs = (tq_pcs s)(t := tq_return (TqLength pc')), tq_owner = tq_owner s,
      tq_hist = tq_hist s @ tq_log (TqLength pc) (TqLength pc')\<rparr>" using r by (auto simp: tq_run_def)
  obtain L where L: "Q = ub_head (tq_q s) # L" "chain (ub_next (tq_q s)) (ub_next (tq_q s) (ub_head (tq_q s))) L" by (rule tq_Q [OF I])
  have ok: "tq_ok (tq_q s) Q (TqLength pc)" using tq_invD(5) [OF I, of t] p by simp
  show ?thesis
  proof (cases pc)
    case (TlLockD a)
    have "tq_inv \<lparr>tq_q = q, tq_pcs = (tq_pcs s)(t := tq_return (TqLength pc')), tq_owner = tq_owner s, tq_hist = tq_hist s @ []\<rparr> Q"
      by (rule tq_deq_lock [OF I, where c = "\<lambda>x. tq_return (TqLength x)" and pc = a and wait = TlLockD and k = "TlLockE TtasAwait"])
        (use v TlLockD p in \<open>auto simp: tq_may_def tq_linking_def\<close>)
    then show ?thesis using s' TlLockD by auto
  next
    case (TlLockE a)
    have "tq_inv \<lparr>tq_q = q, tq_pcs = (tq_pcs s)(t := tq_return (TqLength pc')), tq_owner = tq_owner s, tq_hist = tq_hist s @ []\<rparr> Q"
      by (rule tq_enq_lock [OF I, where c = "\<lambda>x. tq_return (TqLength x)" and pc = a and wait = TlLockE and k = TlFirst])
        (use v TlLockE p in \<open>auto simp: tq_may_def tq_linking_def\<close>)
    then show ?thesis using s' TlLockE by auto
  next
    case TlFirst
    have "tq_ok (tq_q s) Q (TqLength (TlLoop (ub_next (tq_q s) (ub_head (tq_q s))) 0))" unfolding tq_ok.simps
      by (rule exI [of _ "[]"], rule exI [of _ L]) (use L in simp)
    then have "tq_may s Q t (TqLength pc')" using TlFirst v by (auto simp del: tq_ok.simps simp: tq_may_def tq_linking_def vatomic_simps)
    then show ?thesis using tq_goto [OF I, of t "TqLength pc'" "[]"] p s' v TlFirst tq_invD(2) [OF I] by (auto simp: tq_linking_def)
  next
    case (TlLoop c k)
    obtain pre R where R: "tl Q = pre @ R" "chain (ub_next (tq_q s)) c R" "k = of_nat (length pre)" using ok TlLoop by auto
    show ?thesis
    proof (cases c)
      case None
      then have "k = of_nat (length (tl Q))" using R by (simp add: chain_None)
      then show ?thesis using tq_goto [OF I, of t "TqLength pc'" "[]"] p s' v TlLoop None tq_invD(2) [OF I] by (auto simp: tq_may_def tq_linking_def)
    next
      case (Some a)
      then obtain R' where R': "R = a # R'" "chain (ub_next (tq_q s)) (ub_next (tq_q s) a) R'" using R(2) by (auto simp: chain_Some)
      have ns: "ub_next (tq_q s) a \<noteq> Some SENTINEL" using R'(2) R(1) R'(1) tq_invD(3) [OF I] by (cases R') auto
      have "tq_ok (tq_q s) Q (TqLength (TlLoop (ub_next (tq_q s) a) (k + 1)))" unfolding tq_ok.simps
        by (rule exI [of _ "pre @ [a]"], rule exI [of _ R']) (use R R' in simp)
      then have "tq_may s Q t (TqLength (TlLoop (ub_next (tq_q s) a) (k + 1)))" by (simp del: tq_ok.simps add: tq_may_def tq_linking_def)
      then show ?thesis using tq_goto [OF I, of t "TqLength pc'" "[]"] p s' v TlLoop Some ns tq_invD(2) [OF I] by (auto simp: tq_linking_def vatomic_simps)
    qed
  next
    case (TlUnlockE k)
    then have "ub_replay (tq_hist s @ [EvLength k]) [] = Some (map (ub_data (tq_q s)) (tl Q))"
      using ub_replay_snoc [OF tq_invD(2) [OF I], of "EvLength k"] ok by simp
    then show ?thesis using tq_unlock_enq [OF I, of t "TqLength pc'" "[EvLength k]"] p s' v TlUnlockE by (auto simp: tq_may_def tq_linking_def)
  next
    case (TlUnlockD k)
    then show ?thesis using tq_unlock_deq [OF I, of t TqIdle "[]"] p s' v tq_invD(2) [OF I] by (auto simp: tq_may_def tq_linking_def)
  qed (use v in simp_all)
qed

lemma tq_begin:
  assumes I: "tq_inv s Q" and i: "tq_pcs s t = TqIdle" and m: "tq_may s Q t p" "\<not> enq_in p" "\<not> deq_in p"
  shows "tq_inv (s\<lparr>tq_pcs := (tq_pcs s)(t := p)\<rparr>) Q"
proof -
  have "tq_inv \<lparr>tq_q = tq_q s, tq_pcs = (tq_pcs s)(t := p), tq_owner = tq_owner s, tq_hist = tq_hist s @ []\<rparr> Q"
    by (rule tq_goto [OF I m(1)]) (use i m tq_invD(2) [OF I] in \<open>auto simp: tq_linking_def\<close>)
  then show ?thesis by (simp add: tq_inv_def)
qed

lemma tq_step_inv:
  assumes I: "tq_inv s Q" and st: "tq_step (t, cmd) s = Some s'"
  shows "\<exists>Q'. tq_inv s' Q'"
proof (cases "tq_pcs s t")
  case TqIdle
  note b = tq_begin [OF I TqIdle]
  show ?thesis
  proof (cases cmd)
    case (TcEnq n d)
    then show ?thesis using st TqIdle b [of "TqEnq n d (TeLock TtasAwait)"] by (auto simp: tq_may_def tq_linking_def split: if_splits)
  next
    case TcDeq
    then show ?thesis using st TqIdle b [of "TqDeq (TdLock TtasAwait)"] by (auto simp: tq_may_def tq_linking_def)
  next
    case TcEmpty
    then show ?thesis using st TqIdle b [of "TqEmpty (TmLock TtasAwait)"] by (auto simp: tq_may_def tq_linking_def)
  next
    case TcLength
    then show ?thesis using st TqIdle b [of "TqLength (TlLockD TtasAwait)"] by (auto simp: tq_may_def tq_linking_def)
  next
    case (TcWrite n v d)
    let ?q = "(tq_q s)\<lparr>ub_next := (ub_next (tq_q s))(n := v), ub_data := (ub_data (tq_q s))(n := d)\<rparr>"
    have s': "s' = s\<lparr>tq_q := ?q\<rparr>" "tq_owner s n = Some t" using st TqIdle TcWrite by (auto split: if_splits)
    have "tq_inv \<lparr>tq_q = ?q, tq_pcs = (tq_pcs s)(t := TqIdle), tq_owner = tq_owner s, tq_hist = tq_hist s\<rparr> Q"
      by (rule tq_write [OF I s'(2)]) (use TqIdle in \<open>auto simp: tq_linking_def\<close>)
    moreover have "(tq_pcs s)(t := TqIdle) = tq_pcs s" using TqIdle by auto
    ultimately have "tq_inv \<lparr>tq_q = ?q, tq_pcs = tq_pcs s, tq_owner = tq_owner s, tq_hist = tq_hist s\<rparr> Q" by simp
    moreover have "s' = \<lparr>tq_q = ?q, tq_pcs = tq_pcs s, tq_owner = tq_owner s, tq_hist = tq_hist s\<rparr>" using s'(1) by simp
    ultimately show ?thesis by auto
  qed (use st TqIdle in \<open>simp add: tq_run_def\<close>)
next
  case (TqEnq n d pc)
  then show ?thesis using st tq_run_enq [OF I TqEnq] by (cases cmd) auto
next
  case (TqDeq pc)
  then show ?thesis using st tq_run_deq [OF I TqDeq] by (cases cmd) auto
next
  case (TqEmpty pc)
  then show ?thesis using st tq_run_empty [OF I TqEmpty] by (cases cmd) auto
next
  case (TqLength pc)
  then show ?thesis using st tq_run_length [OF I TqLength] by (cases cmd) auto
qed

lemma tq_inv_start: "tq_inv (tq_start own m) [SENTINEL]"
  by (rule tq_invI) (auto simp: tq_start_def vqueue_ub_init_total_def vatomic_simps lock_held_def ttaslock_init_def)

interpretation tq: inv_system tq_step "tq_start own m" "\<lambda>s. \<exists>Q. tq_inv s Q" for own m
proof (unfold_locales, goal_cases)
  case 1
  then show ?case using tq_inv_start by blast
next
  case (2 s a s')
  then show ?case using tq_step_inv by (cases a) blast
qed

section \<open>Results\<close>


text \<open>A thread that holds a lock can move, or waits for the other lock.\<close>

lemma tq_runs: "tq_call p (tq_q s) \<noteq> None \<Longrightarrow> tq_pcs s t = p \<Longrightarrow> tq_step (t, TcRun) s \<noteq> None"
  by (cases p) (auto simp: tq_run_def)

lemma tq_enq_in_runs:
  assumes I: "tq_inv s Q" and p: "enq_in (tq_pcs s t)"
  shows "tq_call (tq_pcs s t) (tq_q s) \<noteq> None"
proof (cases "tq_pcs s t")
  case (TqEnq n d pc)
  then show ?thesis using p by auto
next
  case (TqLength pc)
  then show ?thesis using p tq_invD(5) [OF I, of t] by (cases pc) auto
qed (use p in auto)

lemma tq_blocked:
  assumes I: "tq_inv s Q" and b: "tq_call (tq_pcs s t) (tq_q s) = None" "tq_pcs s t \<noteq> TqIdle"
  shows "ttas_state (tq_enq_l (tq_q s)) \<noteq> 0 \<or> (ttas_state (tq_deq_l (tq_q s)) \<noteq> 0 \<and> \<not> deq_in (tq_pcs s t))"
proof -
  note ok = tq_invD(5) [OF I, of t]
  have a: "ttaslock_acquire a l = None \<Longrightarrow> a \<noteq> TtasReturn \<Longrightarrow> ttas_state l \<noteq> 0" for a l
    by (cases a) (auto simp: vatomic_simps)
  show ?thesis
  proof (cases "tq_pcs s t")
    case (TqEnq n d pc)
    then show ?thesis using b ok a by (cases pc) (auto simp: enq_lock_def)
  next
    case (TqDeq pc)
    then show ?thesis using b ok a by (cases pc) (auto simp: deq_lock_def)
  next
    case (TqEmpty pc)
    then show ?thesis using b ok a by (cases pc) (auto simp: deq_lock_def)
  next
    case (TqLength pc)
    then show ?thesis using b ok a by (cases pc) (auto simp: deq_lock_def enq_lock_def)
  qed (use b in simp)
qed

text \<open>The two locks cannot deadlock: in every state the threads can reach, when some call is in progress, the thread of some call in progress can
  move.\<close>

theorem ub_total_no_deadlock:
  assumes "reach tq_step (tq_start own m) s" and "tq_pcs s t \<noteq> TqIdle"
  shows "\<exists>u. tq_pcs s u \<noteq> TqIdle \<and> tq_step (u, TcRun) s \<noteq> None"
proof -
  obtain Q where I: "tq_inv s Q" using tq.reach_inv [OF assms(1)] by blast
  have enq: ?thesis if z: "ttas_state (tq_enq_l (tq_q s)) \<noteq> 0"
  proof -
    obtain u where u: "enq_in (tq_pcs s u)" using z lock_held_free [OF tq_invD(9) [OF I]] by auto
    then have "tq_pcs s u \<noteq> TqIdle" by auto
    then show ?thesis using tq_runs [OF tq_enq_in_runs [OF I u] refl] by blast
  qed
  have move: ?thesis if "tq_call (tq_pcs s u) (tq_q s) \<noteq> None" "tq_pcs s u \<noteq> TqIdle" for u using tq_runs [OF that(1) refl] that(2) by blast
  show ?thesis
  proof (cases "tq_call (tq_pcs s t) (tq_q s) = None")
    case True
    show ?thesis
    proof (cases "ttas_state (tq_enq_l (tq_q s)) = 0")
      case z: True
      then have "ttas_state (tq_deq_l (tq_q s)) \<noteq> 0" using tq_blocked [OF I True assms(2)] by auto
      then obtain u where u: "deq_in (tq_pcs s u)" using lock_held_free [OF tq_invD(10) [OF I]] by auto
      then have "tq_pcs s u \<noteq> TqIdle" by auto
      then show ?thesis using move [of u] tq_blocked [OF I, of u] z u by blast
    qed (rule enq)
  qed (use move assms(2) in blast)
qed

section \<open>Witnesses\<close>

text \<open>Thread 0 enqueues a value and has not released its lock; thread 1 dequeues it, and thread 2 waits for the lock.\<close>

definition tq_example :: "(tid \<times> tq_cmd) list" where
  "tq_example = (0, TcEnq 3 (Some 40)) # replicate 5 (0, TcRun) @ (2, TcEnq 5 (Some 50)) # (1, TcDeq) # replicate 7 (1, TcRun)"

definition tq_example_mem :: tq_mem where
  "tq_example_mem = \<lparr>ub_head = 9, ub_tail = 9, ub_next = (\<lambda>_. Some 9), ub_data = (\<lambda>_. None), tq_enq_l = \<lparr>ttas_state = 7\<rparr>, tq_deq_l = \<lparr>ttas_state = 7\<rparr>\<rparr>"

lemma tq_example_runs:
  "map_option (\<lambda>s. (tq_hist s, tq_pcs s 0, tq_pcs s 1, tq_pcs s 2)) (exec tq_step tq_example (tq_start (\<lambda>n. n mod 3) tq_example_mem)) =
     Some ([EvEnq (Some 40), EvDeq (Some 40)], TqEnq 3 (Some 40) TeTail, TqIdle, TqEnq 5 (Some 50) (TeLock TtasAwait))"
  by code_simp

lemma tq_example_reach:
  obtains s where "reach tq_step (tq_start (\<lambda>n. n mod 3) tq_example_mem) s" "tq_hist s = [EvEnq (Some 40), EvDeq (Some 40)]"
    "tq_pcs s 0 = TqEnq 3 (Some 40) TeTail" "tq_pcs s 2 = TqEnq 5 (Some 50) (TeLock TtasAwait)"
  using tq_example_runs by (auto simp: map_option_eq_Some intro: exec_reach)


theorem ub_total_no_deadlock_witness:
  "\<exists>(s :: tq_sys) u. tq_pcs s 2 = TqEnq 5 (Some 50) (TeLock TtasAwait) \<and> tq_pcs s u \<noteq> TqIdle \<and> tq_step (u, TcRun) s \<noteq> None"
proof -
  obtain s where s: "reach tq_step (tq_start (\<lambda>n. n mod 3) tq_example_mem) s" "tq_pcs s 2 = TqEnq 5 (Some 50) (TeLock TtasAwait)" by (rule tq_example_reach)
  have "tq_pcs s 2 \<noteq> TqIdle" using s(2) by simp
  from ub_total_no_deadlock [OF s(1) this] s(2) show ?thesis by blast
qed

end
