(* ===== verification/Chaselev.thy ===== *)
theory Chaselev
  imports Vatomicptr Transition "HOL-Library.Multiset"
begin

text \<open>
  The work-stealing deque of Chase and Lev, \<^verbatim>\<open>queue/chaselev.h\<close>: its owner pushes and pops at the bottom, any number of
  thieves steal at the top. One step is one access to \<open>top\<close>, \<open>bottom\<close> or a slot; the array and its size do not change after
  the initialisation and are read together with the access before.
\<close>

section \<open>Operations\<close>

definition vatomicsz_read :: "u64 \<Rightarrow> u64" where "vatomicsz_read a = a"

definition vatomicsz_write :: "u64 \<Rightarrow> u64 \<Rightarrow> u64" where "vatomicsz_write a v = v"

definition vatomicsz_cmpxchg :: "u64 \<Rightarrow> u64 \<Rightarrow> u64 \<Rightarrow> u64 \<times> u64" where
  "vatomicsz_cmpxchg a e v = (if a = e then (e, v) else (a, a))"

lemmas [vatomic_simps] = vatomicsz_read_def vatomicsz_write_def vatomicsz_cmpxchg_def

type_synonym ptr = "nat option"

record vdeque =
  dq_top :: u64
  dq_bottom :: u64
  dq_size :: u64
  dq_buffer :: "ptr list"

datatype vdeque_state = VDEQUE_STATE_OK | VDEQUE_STATE_EMPTY | VDEQUE_STATE_FULL | VDEQUE_STATE_ABORT

text \<open>\<open>None\<close> is the failed assertion that the length is not 0.\<close>

definition vdeque_init :: "vdeque \<Rightarrow> u64 \<Rightarrow> vdeque option" where
  "vdeque_init q len = (if len \<noteq> 0 then Some (q\<lparr>dq_size := len, dq_top := 0, dq_bottom := 0, dq_buffer := replicate (unat len) None\<rparr>) else None)"

definition dq_slot :: "vdeque \<Rightarrow> u64 \<Rightarrow> nat" where
  "dq_slot q i = unat (i mod dq_size q)"

datatype owner_pc = OwIdle
  | PuBottom ptr | PuTop ptr u64 | PuSlot ptr u64 | PuWrite ptr u64
  | PoBottom | PoWrite u64 | PoTop u64 | PoSlot u64 u64 | PoCas u64 ptr | PoRestore u64 vdeque_state "ptr option"

text \<open>The result of a call: its state and what it wrote to \<open>*out_obj\<close>, also when it lost the race for the element.\<close>

fun vdeque_push_bottom :: "owner_pc \<Rightarrow> vdeque \<Rightarrow> (owner_pc + vdeque_state) \<times> vdeque" where
  "vdeque_push_bottom (PuBottom v) q = (Inl (PuTop v (vatomicsz_read (dq_bottom q))), q)"
| "vdeque_push_bottom (PuTop v bottom) q =
     (let tp = vatomicsz_read (dq_top q) in (if bottom - tp > dq_size q - 1 then Inr VDEQUE_STATE_FULL else Inl (PuSlot v bottom), q))"
| "vdeque_push_bottom (PuSlot v bottom) q = (Inl (PuWrite v bottom), q\<lparr>dq_buffer := (dq_buffer q)[dq_slot q bottom := v]\<rparr>)"
| "vdeque_push_bottom (PuWrite v bottom) q = (Inr VDEQUE_STATE_OK, q\<lparr>dq_bottom := vatomicsz_write (dq_bottom q) (bottom + 1)\<rparr>)"
| "vdeque_push_bottom pc q = (Inl pc, q)"

fun vdeque_pop_bottom :: "owner_pc \<Rightarrow> vdeque \<Rightarrow> (owner_pc + vdeque_state \<times> ptr option) \<times> vdeque" where
  "vdeque_pop_bottom PoBottom q =
     (let bottom = vatomicsz_read (dq_bottom q) in (if bottom = 0 then Inr (VDEQUE_STATE_EMPTY, None) else Inl (PoWrite (bottom - 1)), q))"
| "vdeque_pop_bottom (PoWrite bottom) q = (Inl (PoTop bottom), q\<lparr>dq_bottom := vatomicsz_write (dq_bottom q) bottom\<rparr>)"
| "vdeque_pop_bottom (PoTop bottom) q =
     (let tp = vatomicsz_read (dq_top q) in (Inl (if tp \<le> bottom then PoSlot bottom tp else PoRestore bottom VDEQUE_STATE_EMPTY None), q))"
| "vdeque_pop_bottom (PoSlot bottom tp) q =
     (let v = vatomicptr_read (dq_buffer q ! dq_slot q bottom) in (if tp = bottom then Inl (PoCas bottom v) else Inr (VDEQUE_STATE_OK, Some v), q))"
| "vdeque_pop_bottom (PoCas bottom v) q =
     (let (old, a) = vatomicsz_cmpxchg (dq_top q) bottom (bottom + 1)
      in (Inl (PoRestore bottom (if old \<noteq> bottom then VDEQUE_STATE_EMPTY else VDEQUE_STATE_OK) (Some v)), q\<lparr>dq_top := a\<rparr>))"
| "vdeque_pop_bottom (PoRestore bottom st v) q =
     (Inr (st, v), q\<lparr>dq_bottom := vatomicsz_write (dq_bottom q) (bottom + 1)\<rparr>)"
| "vdeque_pop_bottom pc q = (Inl pc, q)"

datatype steal_pc = StIdle | StTop | StBottom u64 | StSlot u64 | StCas u64 ptr

fun vdeque_steal :: "steal_pc \<Rightarrow> vdeque \<Rightarrow> (steal_pc + vdeque_state \<times> ptr option) \<times> vdeque" where
  "vdeque_steal StTop q = (Inl (StBottom (vatomicsz_read (dq_top q))), q)"
| "vdeque_steal (StBottom tp) q =
     (let bottom = vatomicsz_read (dq_bottom q) in (if tp < bottom then Inl (StSlot tp) else Inr (VDEQUE_STATE_EMPTY, None), q))"
| "vdeque_steal (StSlot tp) q = (Inl (StCas tp (vatomicptr_read (dq_buffer q ! dq_slot q tp))), q)"
| "vdeque_steal (StCas tp v) q =
     (let (old, a) = vatomicsz_cmpxchg (dq_top q) tp (tp + 1)
      in (Inr (if old \<noteq> tp then VDEQUE_STATE_ABORT else VDEQUE_STATE_OK, Some v), q\<lparr>dq_top := a\<rparr>))"
| "vdeque_steal StIdle q = (Inl StIdle, q)"

section \<open>The owner and the thieves\<close>

text \<open>
  The history records every successful call and the empty and full results of the owner: a push when \<open>bottom\<close> is written, a
  steal and the pop of the last element at the compare-and-swap, another pop when the element is read, an empty pop when it is decided.
\<close>

datatype dq_event = DPush ptr | DPop ptr | DSteal ptr | DFull | DEmpty

record dq_sys =
  ds_dq :: vdeque
  ds_owner :: owner_pc
  ds_thief :: "tid \<Rightarrow> steal_pc"
  ds_hist :: "dq_event list"

definition do_push :: "dq_sys \<Rightarrow> dq_sys" where
  "do_push s = (case vdeque_push_bottom (ds_owner s) (ds_dq s) of
     (Inl pc, q) \<Rightarrow> s\<lparr>ds_dq := q, ds_owner := pc\<rparr>
   | (Inr r, q) \<Rightarrow> s\<lparr>ds_dq := q, ds_owner := OwIdle, ds_hist := ds_hist s @
       [case ds_owner s of PuWrite v _ \<Rightarrow> DPush v | _ \<Rightarrow> DFull]\<rparr>)"

fun pop_event :: "owner_pc \<Rightarrow> owner_pc + vdeque_state \<times> ptr option \<Rightarrow> dq_event list" where
  "pop_event PoBottom (Inr _) = [DEmpty]"
| "pop_event (PoTop _) (Inl (PoRestore _ _ _)) = [DEmpty]"
| "pop_event (PoSlot _ _) (Inr (_, Some v)) = [DPop v]"
| "pop_event (PoCas _ _) (Inl (PoRestore _ st (Some v))) = [if st = VDEQUE_STATE_OK then DPop v else DEmpty]"
| "pop_event _ _ = []"

definition do_pop :: "dq_sys \<Rightarrow> dq_sys" where
  "do_pop s = (case vdeque_pop_bottom (ds_owner s) (ds_dq s) of
     (r, q) \<Rightarrow> s\<lparr>ds_dq := q, ds_owner := (case r of Inl pc \<Rightarrow> pc | Inr _ \<Rightarrow> OwIdle), ds_hist := ds_hist s @ pop_event (ds_owner s) r\<rparr>)"

definition do_steal :: "dq_sys \<Rightarrow> tid \<Rightarrow> dq_sys" where
  "do_steal s t = (case vdeque_steal (ds_thief s t) (ds_dq s) of
     (Inl pc, q) \<Rightarrow> s\<lparr>ds_dq := q, ds_thief := (ds_thief s)(t := pc)\<rparr>
   | (Inr (st, v), q) \<Rightarrow> s\<lparr>ds_dq := q, ds_thief := (ds_thief s)(t := StIdle),
       ds_hist := ds_hist s @ (case v of Some x \<Rightarrow> if st = VDEQUE_STATE_OK then [DSteal x] else [] | None \<Rightarrow> [])\<rparr>)"

datatype dq_cmd = DcPush ptr | DcPop | DcOwner | DcSteal tid | DcThief tid

fun owner_pushing :: "owner_pc \<Rightarrow> bool" where
  "owner_pushing (PuBottom _) \<longleftrightarrow> True" | "owner_pushing (PuTop _ _) \<longleftrightarrow> True"
| "owner_pushing (PuSlot _ _) \<longleftrightarrow> True" | "owner_pushing (PuWrite _ _) \<longleftrightarrow> True" | "owner_pushing _ \<longleftrightarrow> False"

fun dq_step :: "dq_cmd \<Rightarrow> dq_sys \<Rightarrow> dq_sys option" where
  "dq_step (DcPush v) s = (if ds_owner s = OwIdle then Some (s\<lparr>ds_owner := PuBottom v\<rparr>) else None)"
| "dq_step DcPop s = (if ds_owner s = OwIdle then Some (s\<lparr>ds_owner := PoBottom\<rparr>) else None)"
| "dq_step DcOwner s = (if ds_owner s = OwIdle then None else if owner_pushing (ds_owner s) then Some (do_push s) else Some (do_pop s))"
| "dq_step (DcSteal t) s = (if ds_thief s t = StIdle then Some (s\<lparr>ds_thief := (ds_thief s)(t := StTop)\<rparr>) else None)"
| "dq_step (DcThief t) s = (if ds_thief s t = StIdle then None else Some (do_steal s t))"

definition dq_start :: "vdeque \<Rightarrow> u64 \<Rightarrow> dq_sys option" where
  "dq_start q len = map_option (\<lambda>q. \<lparr>ds_dq = q, ds_owner = OwIdle, ds_thief = (\<lambda>_. StIdle), ds_hist = []\<rparr>) (vdeque_init q len)"

section \<open>The sequential deque\<close>

fun dq_apply :: "nat \<Rightarrow> dq_event \<Rightarrow> ptr list \<Rightarrow> ptr list option" where
  "dq_apply n (DPush v) L = (if length L < n then Some (L @ [v]) else None)"
| "dq_apply n (DPop v) L = (if L \<noteq> [] \<and> last L = v then Some (butlast L) else None)"
| "dq_apply n (DSteal v) L = (if L \<noteq> [] \<and> hd L = v then Some (tl L) else None)"
| "dq_apply n DFull L = (if length L = n then Some L else None)"
| "dq_apply n DEmpty L = (if L = [] then Some L else None)"

fun dq_replay :: "nat \<Rightarrow> dq_event list \<Rightarrow> ptr list \<Rightarrow> ptr list option" where
  "dq_replay n [] L = Some L"
| "dq_replay n (e # es) L = Option.bind (dq_apply n e L) (dq_replay n es)"

lemma dq_replay_snoc: "dq_replay n es L = Some L' \<Longrightarrow> dq_replay n (es @ [e]) L = dq_apply n e L'"
  by (induction es arbitrary: L) (auto simp: bind_eq_Some_conv split: Option.bind_splits)

section \<open>The invariant\<close>

text \<open>
  Positions are the counters as natural numbers. While a pop is between its write of \<open>bottom\<close> and its decision, the element it
  is about to take is still in the deque, so that the deque ends one position behind \<open>bottom\<close>.
\<close>

fun pop_pending :: "owner_pc \<Rightarrow> nat" where
  "pop_pending (PoTop _) = 1" | "pop_pending (PoSlot _ _) = 1" | "pop_pending (PoCas _ _) = 1" | "pop_pending (PoRestore _ _ _) = 1"
| "pop_pending _ = 0"

definition dq_beg :: "dq_sys \<Rightarrow> nat" where "dq_beg s = unat (dq_top (ds_dq s))"

definition dq_end :: "dq_sys \<Rightarrow> nat" where "dq_end s = unat (dq_bottom (ds_dq s)) + pop_pending (ds_owner s)"

definition dq_item :: "vdeque \<Rightarrow> nat \<Rightarrow> ptr" where "dq_item q i = dq_buffer q ! (i mod unat (dq_size q))"

definition dq_contents :: "dq_sys \<Rightarrow> ptr list" where
  "dq_contents s = map (dq_item (ds_dq s)) [dq_beg s..<dq_end s]"

text \<open>What the owner knows, given the positions of both ends.\<close>

fun owner_ok :: "vdeque \<Rightarrow> nat \<Rightarrow> nat \<Rightarrow> owner_pc \<Rightarrow> bool" where
  "owner_ok q T E (PuTop v b) \<longleftrightarrow> b = dq_bottom q"
| "owner_ok q T E (PuSlot v b) \<longleftrightarrow> b = dq_bottom q \<and> E < T + unat (dq_size q)"
| "owner_ok q T E (PuWrite v b) \<longleftrightarrow> b = dq_bottom q \<and> E < T + unat (dq_size q) \<and> dq_item q E = v"
| "owner_ok q T E (PoWrite b) \<longleftrightarrow> unat (dq_bottom q) = Suc (unat b)"
| "owner_ok q T E (PoTop b) \<longleftrightarrow> b = dq_bottom q"
| "owner_ok q T E (PoSlot b t) \<longleftrightarrow> b = dq_bottom q \<and> t \<le> b \<and> (t \<noteq> b \<longrightarrow> T \<le> unat b) \<and> (t = b \<longrightarrow> unat b \<le> T)"
| "owner_ok q T E (PoCas b v) \<longleftrightarrow> b = dq_bottom q \<and> unat b \<le> T \<and> (T = unat b \<longrightarrow> dq_item q T = v)"
| "owner_ok q T E (PoRestore b st v) \<longleftrightarrow> b = dq_bottom q \<and> T = Suc (unat b)"
| "owner_ok q T E _ \<longleftrightarrow> True"

text \<open>What a thief knows: while its \<open>top\<close> is the top, the element there is in the deque.\<close>

fun thief_ok :: "vdeque \<Rightarrow> nat \<Rightarrow> nat \<Rightarrow> steal_pc \<Rightarrow> bool" where
  "thief_ok q T E (StBottom t) \<longleftrightarrow> unat t \<le> T"
| "thief_ok q T E (StSlot t) \<longleftrightarrow> unat t \<le> T \<and> (unat t = T \<longrightarrow> T < E)"
| "thief_ok q T E (StCas t v) \<longleftrightarrow> unat t \<le> T \<and> (unat t = T \<longrightarrow> T < E \<and> v = dq_item q T)"
| "thief_ok q T E _ \<longleftrightarrow> True"

text \<open>The element a pop has decided to take without a race is no thief's.\<close>

fun safe_from :: "owner_pc \<Rightarrow> steal_pc \<Rightarrow> bool" where
  "safe_from (PoSlot b t) (StSlot t') \<longleftrightarrow> t = b \<or> t' \<noteq> b"
| "safe_from (PoSlot b t) (StCas t' v) \<longleftrightarrow> t = b \<or> t' \<noteq> b"
| "safe_from _ _ \<longleftrightarrow> True"

definition dq_inv :: "nat \<Rightarrow> nat \<Rightarrow> dq_sys \<Rightarrow> bool" where
  "dq_inv n K s \<longleftrightarrow> unat (dq_size (ds_dq s)) = n \<and> 0 < n \<and> length (dq_buffer (ds_dq s)) = n \<and>
     dq_beg s \<le> dq_end s \<and> dq_end s \<le> dq_beg s + n \<and> dq_end s \<le> K \<and> dq_replay n (ds_hist s) [] = Some (dq_contents s) \<and>
     owner_ok (ds_dq s) (dq_beg s) (dq_end s) (ds_owner s) \<and> (\<forall>t. thief_ok (ds_dq s) (dq_beg s) (dq_end s) (ds_thief s t)) \<and>
     (\<forall>t. safe_from (ds_owner s) (ds_thief s t))"

lemma dq_invD:
  assumes "dq_inv n K s"
  shows "unat (dq_size (ds_dq s)) = n" "0 < n" "length (dq_buffer (ds_dq s)) = n" "dq_beg s \<le> dq_end s" "dq_end s \<le> dq_beg s + n" "dq_end s \<le> K"
    "dq_replay n (ds_hist s) [] = Some (dq_contents s)" "owner_ok (ds_dq s) (dq_beg s) (dq_end s) (ds_owner s)"
    "thief_ok (ds_dq s) (dq_beg s) (dq_end s) (ds_thief s t)" "safe_from (ds_owner s) (ds_thief s t)"
  using assms unfolding dq_inv_def by blast+

lemma dq_invI:
  assumes "unat (dq_size (ds_dq s)) = n" and "0 < n" and "length (dq_buffer (ds_dq s)) = n" and "dq_beg s \<le> dq_end s" and "dq_end s \<le> dq_beg s + n"
    and "dq_end s \<le> K" and "dq_replay n (ds_hist s) [] = Some (dq_contents s)" and "owner_ok (ds_dq s) (dq_beg s) (dq_end s) (ds_owner s)"
    and "\<And>t. thief_ok (ds_dq s) (dq_beg s) (dq_end s) (ds_thief s t)" and "\<And>t. safe_from (ds_owner s) (ds_thief s t)"
  shows "dq_inv n K s"
  using assms unfolding dq_inv_def by blast

section \<open>Positions and slots\<close>

lemma mod_slots_neq: "(i::nat) < j \<Longrightarrow> j < i + n \<Longrightarrow> i mod n \<noteq> j mod n"
proof
  assume a: "i < j" "j < i + n" "i mod n = j mod n"
  then have "n dvd j - i" using mod_eq_dvd_iff_nat [of i j n] by simp
  then show False using a dvd_imp_le [of n "j - i"] by linarith
qed

lemma dq_slot_nat: "dq_slot q i = unat i mod unat (dq_size q)"
  by (simp add: dq_slot_def unat_mod)

lemma slot_item: "dq_buffer q ! dq_slot q i = dq_item q (unat i)"
  by (simp add: dq_slot_nat dq_item_def)

lemma unat_suc: "unat (w :: u64) < 2 ^ 64 - 1 \<Longrightarrow> unat (w + 1) = Suc (unat w)"
  by (simp add: unat_word_ariths)

lemma unat_pred: "w \<noteq> (0 :: u64) \<Longrightarrow> unat w = Suc (unat (w - 1))"
  using unat_gt_0 [of w] by (simp add: unat_minus_one)

text \<open>Writing the slot behind the end leaves the elements alone.\<close>

lemma item_upd_other:
  assumes "i < E" and "E < i + unat (dq_size q)"
  shows "dq_item (q\<lparr>dq_buffer := (dq_buffer q)[E mod unat (dq_size q) := v]\<rparr>) i = dq_item q i"
  using mod_slots_neq [OF assms] by (simp add: dq_item_def)

lemma item_upd_same:
  assumes "length (dq_buffer q) = unat (dq_size q)" and "0 < unat (dq_size q)"
  shows "dq_item (q\<lparr>dq_buffer := (dq_buffer q)[E mod unat (dq_size q) := v]\<rparr>) E = v"
  using assms by (simp add: dq_item_def)

lemma push_full:
  assumes "unat t \<le> unat b" and "s \<noteq> 0"
  shows "(b :: u64) - t > s - 1 \<longleftrightarrow> unat b - unat t \<ge> unat s"
proof -
  have "unat (b - t) = unat b - unat t" using assms(1) by (simp add: unat_sub word_le_nat_alt)
  moreover have "unat s = Suc (unat (s - 1))" by (rule unat_pred [OF assms(2)])
  ultimately show ?thesis by (auto simp: word_less_nat_alt)
qed

section \<open>Steps\<close>

lemma dq_item_upd [simp]: "dq_item (q\<lparr>dq_top := x\<rparr>) = dq_item q" "dq_item (q\<lparr>dq_bottom := x\<rparr>) = dq_item q"
  by (simp_all add: fun_eq_iff dq_item_def)

lemma dq_inv_mono: "dq_inv n K s \<Longrightarrow> K \<le> K' \<Longrightarrow> dq_inv n K' s"
  unfolding dq_inv_def by auto

text \<open>The owner moves on; nothing shared changes.\<close>

lemma dq_owner_goto:
  assumes I: "dq_inv n K s" and p: "pop_pending pc = pop_pending (ds_owner s)" and ok: "owner_ok (ds_dq s) (dq_beg s) (dq_end s) pc"
    and safe: "\<And>t. safe_from pc (ds_thief s t)" and ev: "dq_replay n (ds_hist s @ ev) [] = Some (dq_contents s)"
  shows "dq_inv n K (s\<lparr>ds_owner := pc, ds_hist := ds_hist s @ ev\<rparr>)"
proof -
  let ?s = "s\<lparr>ds_owner := pc, ds_hist := ds_hist s @ ev\<rparr>"
  have e: "dq_beg ?s = dq_beg s" "dq_end ?s = dq_end s" "dq_contents ?s = dq_contents s" using p by (simp_all add: dq_beg_def dq_end_def dq_contents_def)
  show ?thesis by (rule dq_invI) (use dq_invD [OF I] ok safe ev in \<open>simp_all add: e\<close>)
qed

lemma dq_thief_goto:
  assumes I: "dq_inv n K s" and ok: "thief_ok (ds_dq s) (dq_beg s) (dq_end s) pc" and safe: "safe_from (ds_owner s) pc"
  shows "dq_inv n K (s\<lparr>ds_thief := (ds_thief s)(t := pc)\<rparr>)"
proof -
  let ?s = "s\<lparr>ds_thief := (ds_thief s)(t := pc)\<rparr>"
  have e: "dq_beg ?s = dq_beg s" "dq_end ?s = dq_end s" "dq_contents ?s = dq_contents s" by (simp_all add: dq_beg_def dq_end_def dq_contents_def)
  show ?thesis by (rule dq_invI) (use dq_invD [OF I] ok safe in \<open>simp_all add: e\<close>)
qed

lemma dq_push_slot:
  assumes I: "dq_inv n K s" and p: "ds_owner s = PuSlot v b"
  shows "dq_inv n K (s\<lparr>ds_dq := (ds_dq s)\<lparr>dq_buffer := (dq_buffer (ds_dq s))[dq_slot (ds_dq s) b := v]\<rparr>, ds_owner := PuWrite v b\<rparr>)"
proof -
  let ?q = "(ds_dq s)\<lparr>dq_buffer := (dq_buffer (ds_dq s))[dq_slot (ds_dq s) b := v]\<rparr>" and ?E = "dq_end s"
  let ?s = "s\<lparr>ds_dq := ?q, ds_owner := PuWrite v b\<rparr>"
  have b: "dq_bottom (ds_dq s) = b" "?E < dq_beg s + n" using dq_invD(1,8) [OF I] p by auto
  have E: "unat b = ?E" using b(1) p by (simp add: dq_end_def)
  have q: "?q = (ds_dq s)\<lparr>dq_buffer := (dq_buffer (ds_dq s))[?E mod unat (dq_size (ds_dq s)) := v]\<rparr>" by (simp add: dq_slot_nat E)
  have e: "dq_beg ?s = dq_beg s" "dq_end ?s = dq_end s" using p by (simp_all add: dq_beg_def dq_end_def)
  have it: "dq_item ?q i = dq_item (ds_dq s) i" if "dq_beg s \<le> i" "i < ?E" for i
    unfolding q by (rule item_upd_other) (use that b(2) dq_invD(1) [OF I] in auto)
  have new: "dq_item ?q ?E = v" unfolding q by (rule item_upd_same) (use dq_invD(1-3) [OF I] in auto)
  have c: "dq_contents ?s = dq_contents s" by (simp add: dq_contents_def e it)
  show ?thesis
  proof (rule dq_invI, goal_cases)
    case 7
    then show ?case using dq_invD(7) [OF I] c by simp
  next
    case 8
    then show ?case using b new dq_invD(1) [OF I] by (simp add: e)
  next
    case (9 t)
    then show ?case using dq_invD(9) [OF I, of t] it [of "dq_beg s"] by (cases "ds_thief s t") (auto simp: e)
  qed (use dq_invD(1-6,10) [OF I] p in \<open>simp_all add: e\<close>)
qed

lemma dq_push_bottom:
  assumes I: "dq_inv n K s" and K: "K < 2 ^ 64 - 1" and p: "ds_owner s = PuWrite v b"
  shows "dq_inv n (Suc K) (s\<lparr>ds_dq := (ds_dq s)\<lparr>dq_bottom := b + 1\<rparr>, ds_owner := OwIdle, ds_hist := ds_hist s @ [DPush v]\<rparr>)"
proof -
  let ?s = "s\<lparr>ds_dq := (ds_dq s)\<lparr>dq_bottom := b + 1\<rparr>, ds_owner := OwIdle, ds_hist := ds_hist s @ [DPush v]\<rparr>"
  have b: "dq_bottom (ds_dq s) = b" "dq_end s < dq_beg s + n" "dq_item (ds_dq s) (dq_end s) = v" using dq_invD(1,8) [OF I] p by auto
  have E: "unat b = dq_end s" using b(1) p by (simp add: dq_end_def)
  have "unat (b + 1) = Suc (dq_end s)" using unat_suc [of b] E dq_invD(6) [OF I] K by simp
  then have e: "dq_beg ?s = dq_beg s" "dq_end ?s = Suc (dq_end s)" by (simp_all add: dq_beg_def dq_end_def)
  have c: "dq_contents ?s = dq_contents s @ [v]" using dq_invD(4) [OF I] b(3) by (simp add: dq_contents_def e)
  have l: "length (dq_contents s) < n" using b(2) dq_invD(2,4) [OF I] by (auto simp: dq_contents_def)
  show ?thesis
  proof (rule dq_invI, goal_cases)
    case 7
    then show ?case using dq_replay_snoc [OF dq_invD(7) [OF I], of "DPush v"] l by (simp add: c)
  next
    case (9 t)
    then show ?case using dq_invD(9) [OF I, of t] by (cases "ds_thief s t") (auto simp: e)
  qed (use dq_invD [OF I] b in \<open>simp_all add: e\<close>)
qed

lemma dq_pop_write:
  assumes I: "dq_inv n K s" and p: "ds_owner s = PoWrite b"
  shows "dq_inv n K (s\<lparr>ds_dq := (ds_dq s)\<lparr>dq_bottom := b\<rparr>, ds_owner := PoTop b\<rparr>)"
proof -
  let ?s = "s\<lparr>ds_dq := (ds_dq s)\<lparr>dq_bottom := b\<rparr>, ds_owner := PoTop b\<rparr>"
  have e: "dq_beg ?s = dq_beg s" "dq_end ?s = dq_end s" using dq_invD(8) [OF I] p by (simp_all add: dq_beg_def dq_end_def)
  have c: "dq_contents ?s = dq_contents s" by (simp add: dq_contents_def e)
  show ?thesis
  proof (rule dq_invI, goal_cases)
    case (9 t)
    then show ?case using dq_invD(9) [OF I, of t] by (cases "ds_thief s t") (auto simp: e)
  qed (use dq_invD [OF I] c in \<open>simp_all add: e\<close>)
qed

text \<open>A pop takes its element without a race.\<close>

lemma dq_pop_take:
  assumes I: "dq_inv n K s" and p: "ds_owner s = PoSlot b t" "t \<noteq> b"
  shows "dq_inv n K (s\<lparr>ds_owner := OwIdle, ds_hist := ds_hist s @ [DPop (dq_item (ds_dq s) (unat b))]\<rparr>)"
proof -
  let ?s = "s\<lparr>ds_owner := OwIdle, ds_hist := ds_hist s @ [DPop (dq_item (ds_dq s) (unat b))]\<rparr>"
  have b: "dq_bottom (ds_dq s) = b" "dq_beg s \<le> unat b" using dq_invD(8) [OF I] p by auto
  have E: "dq_end s = Suc (unat b)" using b(1) p by (simp add: dq_end_def)
  have e: "dq_beg ?s = dq_beg s" "dq_end ?s = unat b" using b(1) by (simp_all add: dq_beg_def dq_end_def)
  have c: "dq_contents s = dq_contents ?s @ [dq_item (ds_dq s) (unat b)]" using b(2) by (simp add: dq_contents_def e E)
  show ?thesis
  proof (rule dq_invI, goal_cases)
    case 7
    then show ?case using dq_replay_snoc [OF dq_invD(7) [OF I], of "DPop (dq_item (ds_dq s) (unat b))"] by (simp add: c)
  next
    case (9 u)
    have "safe_from (PoSlot b t) (ds_thief s u)" using dq_invD(10) [OF I, of u] p(1) by simp
    then show ?case using dq_invD(9) [OF I, of u] p(2) E b(2) by (cases "ds_thief s u") (auto simp: e less_Suc_eq word_unat_eq_iff)
  qed (use dq_invD [OF I] b E in \<open>simp_all add: e\<close>)
qed

lemma dq_pop_cas:
  assumes I: "dq_inv n K s" and K: "K < 2 ^ 64 - 1" and p: "ds_owner s = PoCas b v" "dq_top (ds_dq s) = b"
  shows "dq_inv n K (s\<lparr>ds_dq := (ds_dq s)\<lparr>dq_top := b + 1\<rparr>, ds_owner := PoRestore b st (Some v), ds_hist := ds_hist s @ [DPop v]\<rparr>)"
proof -
  let ?s = "s\<lparr>ds_dq := (ds_dq s)\<lparr>dq_top := b + 1\<rparr>, ds_owner := PoRestore b st (Some v), ds_hist := ds_hist s @ [DPop v]\<rparr>"
  have T: "dq_beg s = unat b" using p(2) by (simp add: dq_beg_def)
  have b: "dq_bottom (ds_dq s) = b" "dq_item (ds_dq s) (unat b) = v" using dq_invD(8) [OF I] p(1) T by auto
  have E: "dq_end s = Suc (unat b)" using b(1) p by (simp add: dq_end_def)
  have "unat (b + 1) = Suc (unat b)" using unat_suc [of b] E dq_invD(6) [OF I] K by simp
  then have e: "dq_beg ?s = Suc (unat b)" "dq_end ?s = Suc (unat b)" using b(1) by (simp_all add: dq_beg_def dq_end_def)
  have c: "dq_contents s = [v]" "dq_contents ?s = []" using b(2) by (simp_all add: dq_contents_def e E T)
  show ?thesis
  proof (rule dq_invI, goal_cases)
    case 7
    then show ?case using dq_replay_snoc [OF dq_invD(7) [OF I], of "DPop v"] by (simp add: c)
  next
    case (9 u)
    then show ?case using dq_invD(9) [OF I, of u] T by (cases "ds_thief s u") (auto simp: e)
  qed (use dq_invD [OF I] b E in \<open>simp_all add: e\<close>)
qed

lemma dq_pop_restore:
  assumes I: "dq_inv n K s" and K: "K < 2 ^ 64 - 1" and p: "ds_owner s = PoRestore b st v"
  shows "dq_inv n K (s\<lparr>ds_dq := (ds_dq s)\<lparr>dq_bottom := b + 1\<rparr>, ds_owner := OwIdle\<rparr>)"
proof -
  let ?s = "s\<lparr>ds_dq := (ds_dq s)\<lparr>dq_bottom := b + 1\<rparr>, ds_owner := OwIdle\<rparr>"
  have b: "dq_bottom (ds_dq s) = b" using dq_invD(8) [OF I] p by auto
  have E: "dq_end s = Suc (unat b)" using b p by (simp add: dq_end_def)
  have "unat (b + 1) = Suc (unat b)" using unat_suc [of b] E dq_invD(6) [OF I] K by simp
  then have e: "dq_beg ?s = dq_beg s" "dq_end ?s = dq_end s" using E by (simp_all add: dq_beg_def dq_end_def)
  have c: "dq_contents ?s = dq_contents s" by (simp add: dq_contents_def e)
  show ?thesis
  proof (rule dq_invI, goal_cases)
    case (9 t)
    then show ?case using dq_invD(9) [OF I, of t] by (cases "ds_thief s t") (auto simp: e)
  qed (use dq_invD [OF I] c in \<open>simp_all add: e\<close>)
qed

lemma dq_steal_cas:
  assumes I: "dq_inv n K s" and K: "K < 2 ^ 64 - 1" and p: "ds_thief s t = StCas a v" "dq_top (ds_dq s) = a"
  shows "dq_inv n K (s\<lparr>ds_dq := (ds_dq s)\<lparr>dq_top := a + 1\<rparr>, ds_thief := (ds_thief s)(t := StIdle), ds_hist := ds_hist s @ [DSteal v]\<rparr>)"
proof -
  let ?s = "s\<lparr>ds_dq := (ds_dq s)\<lparr>dq_top := a + 1\<rparr>, ds_thief := (ds_thief s)(t := StIdle), ds_hist := ds_hist s @ [DSteal v]\<rparr>"
  have T: "dq_beg s = unat a" using p(2) by (simp add: dq_beg_def)
  have a: "unat a < dq_end s" "dq_item (ds_dq s) (unat a) = v" using dq_invD(9) [OF I, of t] p(1) T by auto
  have "unat (a + 1) = Suc (unat a)" using unat_suc [of a] a dq_invD(6) [OF I] K by simp
  then have e: "dq_beg ?s = Suc (unat a)" "dq_end ?s = dq_end s" by (simp_all add: dq_beg_def dq_end_def)
  have c: "dq_contents s = v # dq_contents ?s" using a by (simp add: dq_contents_def e T upt_conv_Cons)
  have ne: "unat a \<noteq> unat (dq_bottom (ds_dq s))" if "a \<noteq> dq_bottom (ds_dq s)" using that by (simp add: word_unat_eq_iff)
  have safe: "safe_from (ds_owner s) (StCas a v)" using dq_invD(10) [OF I, of t] p(1) by simp
  show ?thesis
  proof (rule dq_invI, goal_cases)
    case 7
    then show ?case using dq_replay_snoc [OF dq_invD(7) [OF I], of "DSteal v"] by (simp add: c)
  next
    case 8
    then show ?case using dq_invD(8) [OF I] T a safe ne by (cases "ds_owner s") (auto simp: e dq_end_def)
  next
    case (9 u)
    then show ?case using dq_invD(9) [OF I, of u] T by (cases "ds_thief s u") (auto simp: e)
  next
    case (10 u)
    then show ?case using dq_invD(10) [OF I, of u] by (cases "ds_owner s") auto
  qed (use dq_invD [OF I] a T in \<open>simp_all add: e\<close>)
qed

lemma dq_do_push:
  assumes I: "dq_inv n K s" and K: "K < 2 ^ 64 - 1" and p: "owner_pushing (ds_owner s)"
  shows "dq_inv n (Suc K) (do_push s)"
proof (cases "ds_owner s")
  case (PuBottom v)
  then show ?thesis using dq_owner_goto [OF I, of "PuTop v (dq_bottom (ds_dq s))" "[]"] dq_invD(7) [OF I] dq_inv_mono [of n K _ "Suc K"]
    by (simp add: do_push_def vatomic_simps)
next
  case (PuTop v b)
  have b: "dq_bottom (ds_dq s) = b" using dq_invD(8) [OF I] PuTop by simp
  have E: "dq_end s = unat b" using b PuTop by (simp add: dq_end_def)
  have T: "unat (dq_top (ds_dq s)) = dq_beg s" by (simp add: dq_beg_def)
  have "dq_size (ds_dq s) \<noteq> 0" using dq_invD(1,2) [OF I] by auto
  then have full: "b - dq_top (ds_dq s) > dq_size (ds_dq s) - 1 \<longleftrightarrow> n \<le> dq_end s - dq_beg s"
    using push_full [of "dq_top (ds_dq s)" b "dq_size (ds_dq s)"] dq_invD(1,4) [OF I] E T by simp
  show ?thesis
  proof (cases "n \<le> dq_end s - dq_beg s")
    case True
    then have "length (dq_contents s) = n" using dq_invD(5) [OF I] by (simp add: dq_contents_def)
    then have "dq_replay n (ds_hist s @ [DFull]) [] = Some (dq_contents s)" using dq_replay_snoc [OF dq_invD(7) [OF I], of DFull] by simp
    then have "dq_inv n K (s\<lparr>ds_owner := OwIdle, ds_hist := ds_hist s @ [DFull]\<rparr>)" by (intro dq_owner_goto [OF I]) (simp_all add: PuTop)
    then show ?thesis using True full PuTop dq_inv_mono [of n K _ "Suc K"] by (simp add: do_push_def vatomic_simps Let_def)
  next
    case False
    then have "dq_inv n K (s\<lparr>ds_owner := PuSlot v b, ds_hist := ds_hist s @ []\<rparr>)"
      using b dq_invD(1,4,7) [OF I] PuTop by (intro dq_owner_goto [OF I]) auto
    then show ?thesis using False full PuTop dq_inv_mono [of n K _ "Suc K"] by (simp add: do_push_def vatomic_simps Let_def)
  qed
next
  case (PuSlot v b)
  then show ?thesis using dq_push_slot [OF I PuSlot] dq_inv_mono [of n K _ "Suc K"] by (simp add: do_push_def)
next
  case (PuWrite v b)
  then show ?thesis using dq_push_bottom [OF I K PuWrite] by (simp add: do_push_def vatomic_simps)
qed (use p in auto)

lemma dq_do_pop:
  assumes I: "dq_inv n K s" and K: "K < 2 ^ 64 - 1" and p: "\<not> owner_pushing (ds_owner s)" "ds_owner s \<noteq> OwIdle"
  shows "dq_inv n K (do_pop s)"
proof -
  have empty: "dq_replay n (ds_hist s @ [DEmpty]) [] = Some (dq_contents s)" if "dq_beg s = dq_end s"
    using dq_replay_snoc [OF dq_invD(7) [OF I], of DEmpty] that by (simp add: dq_contents_def)
  show ?thesis
  proof (cases "ds_owner s")
    case PoBottom
    show ?thesis
    proof (cases "dq_bottom (ds_dq s) = 0")
      case True
      then have "dq_beg s = dq_end s" using dq_invD(4) [OF I] PoBottom by (simp add: dq_end_def)
      from dq_owner_goto [OF I, of OwIdle "[DEmpty]"] empty [OF this] True PoBottom show ?thesis by (simp add: do_pop_def vatomic_simps)
    next
      case False
      then show ?thesis using dq_owner_goto [OF I, of "PoWrite (dq_bottom (ds_dq s) - 1)" "[]"] dq_invD(7) [OF I] PoBottom unat_pred [OF False]
        by (simp add: do_pop_def vatomic_simps)
    qed
  next
    case (PoWrite b)
    then show ?thesis using dq_pop_write [OF I PoWrite] by (simp add: do_pop_def vatomic_simps)
  next
    case (PoTop b)
    have b: "dq_bottom (ds_dq s) = b" using dq_invD(8) [OF I] PoTop by simp
    have E: "dq_end s = Suc (unat b)" using b PoTop by (simp add: dq_end_def)
    have T: "unat (dq_top (ds_dq s)) = dq_beg s" by (simp add: dq_beg_def)
    show ?thesis
    proof (cases "dq_top (ds_dq s) \<le> b")
      case True
      then have le: "dq_beg s \<le> unat b" using T by (simp add: word_le_nat_alt)
      have safe: "safe_from (PoSlot b (dq_top (ds_dq s))) (ds_thief s u)" for u
        using dq_invD(9) [OF I, of u] le T by (cases "ds_thief s u") (auto simp: word_unat_eq_iff)
      have "owner_ok (ds_dq s) (dq_beg s) (dq_end s) (PoSlot b (dq_top (ds_dq s)))" using b le T True by auto
      from dq_owner_goto [OF I _ this safe, of "[]"] PoTop dq_invD(7) [OF I] True show ?thesis by (simp add: do_pop_def vatomic_simps)
    next
      case False
      then have "dq_beg s = dq_end s" using dq_invD(4) [OF I] E T by (simp add: word_le_nat_alt)
      then have "dq_inv n K (s\<lparr>ds_owner := PoRestore b VDEQUE_STATE_EMPTY None, ds_hist := ds_hist s @ [DEmpty]\<rparr>)"
        using b E empty PoTop by (intro dq_owner_goto [OF I]) auto
      then show ?thesis using False PoTop by (simp add: do_pop_def vatomic_simps)
    qed
  next
    case (PoSlot b t)
    have b: "dq_bottom (ds_dq s) = b" "t = b \<Longrightarrow> unat b \<le> dq_beg s" using dq_invD(8) [OF I] PoSlot by auto
    show ?thesis
    proof (cases "t = b")
      case True
      then have "dq_inv n K (s\<lparr>ds_owner := PoCas b (dq_item (ds_dq s) (unat b)), ds_hist := ds_hist s @ []\<rparr>)"
        using b PoSlot dq_invD(7) [OF I] by (intro dq_owner_goto [OF I]) auto
      then show ?thesis using True PoSlot by (simp add: do_pop_def vatomic_simps slot_item)
    next
      case False
      then show ?thesis using dq_pop_take [OF I PoSlot] PoSlot by (simp add: do_pop_def vatomic_simps slot_item)
    qed
  next
    case (PoCas b v)
    have b: "dq_bottom (ds_dq s) = b" "unat b \<le> dq_beg s" using dq_invD(8) [OF I] PoCas by auto
    show ?thesis
    proof (cases "dq_top (ds_dq s) = b")
      case True
      then show ?thesis using dq_pop_cas [OF I K PoCas True] PoCas by (simp add: do_pop_def vatomic_simps)
    next
      case False
      have E: "dq_end s = Suc (unat b)" using b PoCas by (simp add: dq_end_def)
      have "dq_beg s \<noteq> unat b" using False by (simp add: dq_beg_def word_unat_eq_iff)
      then have "dq_beg s = dq_end s" using b(2) E dq_invD(4) [OF I] by simp
      then have "dq_inv n K (s\<lparr>ds_owner := PoRestore b VDEQUE_STATE_EMPTY (Some v), ds_hist := ds_hist s @ [DEmpty]\<rparr>)"
        using b E empty PoCas by (intro dq_owner_goto [OF I]) auto
      then show ?thesis using False PoCas by (simp add: do_pop_def vatomic_simps)
    qed
  next
    case (PoRestore b st v)
    then show ?thesis using dq_pop_restore [OF I K PoRestore] by (simp add: do_pop_def vatomic_simps)
  qed (use p in auto)
qed

lemma dq_do_steal:
  assumes I: "dq_inv n K s" and K: "K < 2 ^ 64 - 1" and p: "ds_thief s t \<noteq> StIdle"
  shows "dq_inv n K (do_steal s t)"
proof (cases "ds_thief s t")
  case StTop
  then show ?thesis using dq_thief_goto [OF I, of "StBottom (dq_top (ds_dq s))" t]
    by (cases "ds_owner s") (simp_all add: do_steal_def vatomic_simps dq_beg_def)
next
  case (StBottom a)
  have a: "unat a \<le> dq_beg s" using dq_invD(9) [OF I, of t] StBottom by simp
  show ?thesis
  proof (cases "a < dq_bottom (ds_dq s)")
    case True
    then have l: "unat a < unat (dq_bottom (ds_dq s))" by (simp add: word_less_nat_alt)
    then have "thief_ok (ds_dq s) (dq_beg s) (dq_end s) (StSlot a)" using a by (auto simp: dq_end_def)
    moreover have "safe_from (ds_owner s) (StSlot a)" using dq_invD(8) [OF I] True by (cases "ds_owner s") auto
    ultimately show ?thesis using dq_thief_goto [OF I, of "StSlot a" t] True StBottom by (simp add: do_steal_def vatomic_simps)
  next
    case False
    then show ?thesis using dq_thief_goto [OF I, of StIdle t] StBottom by (cases "ds_owner s") (simp_all add: do_steal_def vatomic_simps)
  qed
next
  case (StSlot a)
  have "safe_from (ds_owner s) (StCas a v)" for v using dq_invD(10) [OF I, of t] StSlot by (cases "ds_owner s") auto
  then show ?thesis using dq_thief_goto [OF I, of "StCas a (dq_item (ds_dq s) (unat a))" t] dq_invD(9) [OF I, of t] StSlot
    by (simp add: do_steal_def vatomic_simps slot_item)
next
  case (StCas a v)
  show ?thesis
  proof (cases "dq_top (ds_dq s) = a")
    case True
    then show ?thesis using dq_steal_cas [OF I K StCas True] StCas by (simp add: do_steal_def vatomic_simps)
  next
    case False
    then show ?thesis using dq_thief_goto [OF I, of StIdle t] StCas by (cases "ds_owner s") (simp_all add: do_steal_def vatomic_simps)
  qed
qed (use p in simp)

lemma dq_step_inv:
  assumes I: "dq_inv n K s" and K: "K < 2 ^ 64 - 1" and st: "dq_step c s = Some s'"
  shows "dq_inv n (Suc K) s'"
proof -
  have up: "dq_inv n K s' \<Longrightarrow> ?thesis" using dq_inv_mono [of n K s' "Suc K"] by simp
  show ?thesis
  proof (cases c)
    case (DcPush v)
    then show ?thesis using st dq_owner_goto [OF I, of "PuBottom v" "[]"] dq_invD(7) [OF I] by (intro up) (auto split: if_splits)
  next
    case DcPop
    then show ?thesis using st dq_owner_goto [OF I, of PoBottom "[]"] dq_invD(7) [OF I] by (intro up) (auto split: if_splits)
  next
    case DcOwner
    then show ?thesis using st dq_do_push [OF I K] up dq_do_pop [OF I K] by (auto split: if_splits)
  next
    case (DcSteal t)
    moreover have "safe_from (ds_owner s) StTop" by (cases "ds_owner s") auto
    ultimately show ?thesis using st dq_thief_goto [OF I, of StTop t] by (intro up) (auto split: if_splits)
  next
    case (DcThief t)
    then show ?thesis using st dq_do_steal [OF I K] by (intro up) (auto split: if_splits)
  qed
qed

lemma dq_inv_start: "dq_start q len = Some s0 \<Longrightarrow> dq_inv (unat len) 0 s0"
  by (auto simp: dq_start_def vdeque_init_def dq_inv_def dq_beg_def dq_end_def dq_contents_def unat_gt_0 split: if_splits)

lemma dq_reach_inv:
  assumes "dq_start q len = Some s0" and "B < 2 ^ 64" and "reach (bounded B dq_step) (0, s0) (k, s)"
  shows "dq_inv (unat len) k s"
proof -
  have "case ks of (k, s) \<Rightarrow> dq_inv (unat len) k s" if "reach (bounded B dq_step) (0, s0) ks" for ks
    using that
  proof (induction rule: reach.induct)
    case (reach_step ks c ks')
    obtain k s where "ks = (k, s)" by (cases ks)
    then show ?case using reach_step assms(2) dq_step_inv [of "unat len" k s c] by (auto split: if_splits)
  qed (use dq_inv_start [OF assms(1)] in simp)
  from this [OF assms(3)] show ?thesis by simp
qed

section \<open>Results\<close>

text \<open>The values pushed, and the values popped or stolen.\<close>

fun dq_pushed :: "dq_event list \<Rightarrow> ptr list" where
  "dq_pushed [] = []" | "dq_pushed (DPush v # es) = v # dq_pushed es" | "dq_pushed (e # es) = dq_pushed es"

fun dq_taken :: "dq_event list \<Rightarrow> ptr list" where
  "dq_taken [] = []" | "dq_taken (DPop v # es) = v # dq_taken es" | "dq_taken (DSteal v # es) = v # dq_taken es" | "dq_taken (e # es) = dq_taken es"

lemma dq_replay_mset: "dq_replay n es L = Some L' \<Longrightarrow> mset L + mset (dq_pushed es) = mset (dq_taken es) + mset L'"
proof (induction es arbitrary: L)
  case (Cons e es)
  then obtain L1 where L1: "dq_apply n e L = Some L1" "dq_replay n es L1 = Some L'" by (auto simp: bind_eq_Some_conv)
  have b: "mset (butlast L) + {#last L#} = mset L" if "L \<noteq> []" using that mset_append [of "butlast L" "[last L]"] by simp
  have t: "mset (tl L) + {#hd L#} = mset L" if "L \<noteq> []" using that by (cases L) simp_all
  have "mset L + mset (dq_pushed [e]) = mset (dq_taken [e]) + mset L1"
    using L1(1) b [symmetric] t [symmetric] by (cases e) (auto split: if_splits)
  moreover have "mset (dq_pushed (e # es)) = mset (dq_pushed [e]) + mset (dq_pushed es)"
    "mset (dq_taken (e # es)) = mset (dq_taken [e]) + mset (dq_taken es)" by (cases e; simp)+
  ultimately show ?case using Cons.IH [OF L1(2)] by (metis add.assoc add.commute)
qed simp


text \<open>The owner pushes two values; a thief reads the top, the owner pops one value and races for the other, and the thief wins.\<close>

definition dq_example :: "dq_cmd list" where
  "dq_example = DcPush (Some 10) # replicate 4 DcOwner @ DcPush (Some 20) # replicate 4 DcOwner @ [DcSteal 0, DcThief 0, DcThief 0, DcThief 0] @
     DcPop # replicate 4 DcOwner @ DcPop # replicate 4 DcOwner @ [DcThief 0] @ replicate 2 DcOwner"

definition dq_example_init :: vdeque where
  "dq_example_init = \<lparr>dq_top = 5, dq_bottom = 6, dq_size = 0, dq_buffer = []\<rparr>"

lemma dq_example_runs:
  "map_option (\<lambda>s. (ds_hist s, dq_contents s)) (Option.bind (dq_start dq_example_init 2) (exec dq_step dq_example)) =
     Some ([DPush (Some 10), DPush (Some 20), DPop (Some 20), DSteal (Some 10), DEmpty], [])"
  by code_simp


end
