(* ===== verification/Buf_Ring.thy ===== *)
theory Buf_Ring
  imports Bounded_Mpmc Vmath
begin

unbundle bit_operations_syntax

text \<open>
  The ring buffer of FreeBSD 8.0.0, \<^verbatim>\<open>buf_ring/buf_ring.h\<close> and \<^verbatim>\<open>buf_ring.c\<close>, in its three configurations: as released, with
  \<^verbatim>\<open>BUGFIX1\<close>, and with \<^verbatim>\<open>BUGFIX1\<close> and \<^verbatim>\<open>BUGFIX2\<close>. A step is one access to a counter or a slot; \<open>None\<close> is a loop that has
  to go on waiting. The counters \<open>br_drops\<close>, \<open>br_prod_bufs\<close> and \<open>br_prod_bytes\<close> are never used and left out.
\<close>

section \<open>Operations\<close>

record 'v buf_ring =
  br_prod_head :: u32
  br_prod_tail :: u32
  br_prod_size :: u32
  br_prod_mask :: u32
  br_cons_head :: u32
  br_cons_tail :: u32
  br_cons_size :: u32
  br_cons_mask :: u32
  br_ring :: "'v list"

record br_config =
  BUGFIX1 :: bool
  BUGFIX2 :: bool

text \<open>\<open>malloc\<close> returns \<^verbatim>\<open>NULL\<close> or memory with arbitrary contents. The macro \<^verbatim>\<open>powerof2\<close> of \<^verbatim>\<open>utils.h\<close> is always true.\<close>

definition buf_ring_alloc :: "u32 \<Rightarrow> 'v list option \<Rightarrow> 'v buf_ring option" where
  "buf_ring_alloc count mem = (case mem of None \<Rightarrow> None | Some b \<Rightarrow> Some \<lparr>br_prod_head = 0, br_prod_tail = 0, br_prod_size = count,
     br_prod_mask = count - 1, br_cons_head = 0, br_cons_tail = 0, br_cons_size = count, br_cons_mask = count - 1, br_ring = b\<rparr>)"

definition br_succ :: "br_config \<Rightarrow> u32 \<Rightarrow> u32 \<Rightarrow> u32" where
  "br_succ c m h = (if BUGFIX1 c then h + 1 else (h + 1) AND m)"

definition br_full :: "br_config \<Rightarrow> 'v buf_ring \<Rightarrow> u32 \<Rightarrow> u32 \<Rightarrow> u32 \<Rightarrow> bool" where
  "br_full c br prod_head prod_next cons_tail =
     (if BUGFIX1 c \<and> BUGFIX2 c then prod_head - cons_tail = br_prod_size br else prod_next = cons_tail)"

definition br_index :: "br_config \<Rightarrow> u32 \<Rightarrow> u32 \<Rightarrow> nat" where
  "br_index c m h = unat (if BUGFIX1 c then h AND m else h)"

datatype 'v br_pc = BrIdle
  | PeHead 'v | PeTail 'v u32 | PeCas 'v u32 u32 | PeStore 'v u32 u32 | PeWait 'v u32 u32 | PePublish 'v u32 u32
  | CoHead | CoTail u32 | CoCas u32 u32 | CoLoad u32 u32 | CoWait u32 u32 'v | CoPublish u32 u32 'v

datatype 'v br_ret = EnqueueRet int 'v | DequeueRet "'v option"

definition ENOBUFS :: int where "ENOBUFS = -1"

type_synonym 'v br_out = "(('v br_pc + 'v br_ret) \<times> 'v buf_ring) option"

fun buf_ring_enqueue_bytes :: "br_config \<Rightarrow> int \<Rightarrow> 'v br_pc \<Rightarrow> 'v buf_ring \<Rightarrow> 'v br_out" where
  "buf_ring_enqueue_bytes c nbytes (PeHead v) br = Some (Inl (PeTail v (br_prod_head br)), br)"
| "buf_ring_enqueue_bytes c nbytes (PeTail v prod_head) br =
     (let cons_tail = br_cons_tail br; prod_next = br_succ c (br_prod_mask br) prod_head
      in Some (if br_full c br prod_head prod_next cons_tail then Inr (EnqueueRet ENOBUFS v) else Inl (PeCas v prod_head prod_next), br))"
| "buf_ring_enqueue_bytes c nbytes (PeCas v prod_head prod_next) br =
     Some (if br_prod_head br = prod_head then (Inl (PeStore v prod_head prod_next), br\<lparr>br_prod_head := prod_next\<rparr>) else (Inl (PeHead v), br))"
| "buf_ring_enqueue_bytes c nbytes (PeStore v prod_head prod_next) br =
     Some (Inl (PeWait v prod_head prod_next), br\<lparr>br_ring := (br_ring br)[br_index c (br_prod_mask br) prod_head := v]\<rparr>)"
| "buf_ring_enqueue_bytes c nbytes (PeWait v prod_head prod_next) br =
     (if br_prod_tail br = prod_head then Some (Inl (PePublish v prod_head prod_next), br) else None)"
| "buf_ring_enqueue_bytes c nbytes (PePublish v prod_head prod_next) br = Some (Inr (EnqueueRet 0 v), br\<lparr>br_prod_tail := prod_next\<rparr>)"
| "buf_ring_enqueue_bytes c nbytes _ br = None"

definition buf_ring_enqueue :: "br_config \<Rightarrow> 'v br_pc \<Rightarrow> 'v buf_ring \<Rightarrow> 'v br_out" where
  "buf_ring_enqueue c = buf_ring_enqueue_bytes c 0"

fun buf_ring_dequeue_mc :: "br_config \<Rightarrow> 'v br_pc \<Rightarrow> 'v buf_ring \<Rightarrow> 'v br_out" where
  "buf_ring_dequeue_mc c CoHead br = Some (Inl (CoTail (br_cons_head br)), br)"
| "buf_ring_dequeue_mc c (CoTail cons_head) br =
     (let prod_tail = br_prod_tail br; cons_next = br_succ c (br_cons_mask br) cons_head
      in Some (if cons_head = prod_tail then Inr (DequeueRet None) else Inl (CoCas cons_head cons_next), br))"
| "buf_ring_dequeue_mc c (CoCas cons_head cons_next) br =
     Some (if br_cons_head br = cons_head then (Inl (CoLoad cons_head cons_next), br\<lparr>br_cons_head := cons_next\<rparr>) else (Inl CoHead, br))"
| "buf_ring_dequeue_mc c (CoLoad cons_head cons_next) br =
     Some (Inl (CoWait cons_head cons_next (br_ring br ! br_index c (br_cons_mask br) cons_head)), br)"
| "buf_ring_dequeue_mc c (CoWait cons_head cons_next v) br =
     (if br_cons_tail br = cons_head then Some (Inl (CoPublish cons_head cons_next v), br) else None)"
| "buf_ring_dequeue_mc c (CoPublish cons_head cons_next v) br = Some (Inr (DequeueRet (Some v)), br\<lparr>br_cons_tail := cons_next\<rparr>)"
| "buf_ring_dequeue_mc c _ br = None"

section \<open>Threads that share one ring\<close>

record 'v br_sys =
  bring :: "'v buf_ring"
  br_pcs :: "tid \<Rightarrow> 'v br_pc"
  br_enqd :: "'v list"
  br_deqd :: "'v list"

datatype 'v br_cmd = BrEnqueue 'v | BrDequeue | BrRun

text \<open>The values of the successful calls are noted in the order of their returns.\<close>

fun br_return :: "'v br_ret \<Rightarrow> 'v br_sys \<Rightarrow> 'v br_sys" where
  "br_return (EnqueueRet r v) s = (if r = 0 then s\<lparr>br_enqd := br_enqd s @ [v]\<rparr> else s)"
| "br_return (DequeueRet (Some v)) s = s\<lparr>br_deqd := br_deqd s @ [v]\<rparr>"
| "br_return (DequeueRet None) s = s"

fun br_after :: "tid \<Rightarrow> ('v br_pc + 'v br_ret) \<times> 'v buf_ring \<Rightarrow> 'v br_sys \<Rightarrow> 'v br_sys" where
  "br_after t (Inl pc, q) s = s\<lparr>bring := q, br_pcs := (br_pcs s)(t := pc)\<rparr>"
| "br_after t (Inr r, q) s = br_return r (s\<lparr>bring := q, br_pcs := (br_pcs s)(t := BrIdle)\<rparr>)"

fun br_consumes :: "'v br_pc \<Rightarrow> bool" where
  "br_consumes CoHead = True" | "br_consumes (CoTail _) = True" | "br_consumes (CoCas _ _) = True"
| "br_consumes (CoLoad _ _) = True" | "br_consumes (CoWait _ _ _) = True" | "br_consumes (CoPublish _ _ _) = True"
| "br_consumes _ = False"

definition br_access :: "br_config \<Rightarrow> 'v br_pc \<Rightarrow> 'v buf_ring \<Rightarrow> 'v br_out" where
  "br_access c pc = (if br_consumes pc then buf_ring_dequeue_mc c pc else buf_ring_enqueue c pc)"

fun br_step :: "br_config \<Rightarrow> tid \<times> 'v br_cmd \<Rightarrow> 'v br_sys \<Rightarrow> 'v br_sys option" where
  "br_step c (t, BrEnqueue v) s = (if br_pcs s t = BrIdle then Some (s\<lparr>br_pcs := (br_pcs s)(t := PeHead v)\<rparr>) else None)"
| "br_step c (t, BrDequeue) s = (if br_pcs s t = BrIdle then Some (s\<lparr>br_pcs := (br_pcs s)(t := CoHead)\<rparr>) else None)"
| "br_step c (t, BrRun) s = map_option (\<lambda>r. br_after t r s) (br_access c (br_pcs s t) (bring s))"

definition br_start :: "u32 \<Rightarrow> 'v list option \<Rightarrow> 'v br_sys option" where
  "br_start count mem = map_option (\<lambda>br. \<lparr>bring = br, br_pcs = (\<lambda>_. BrIdle), br_enqd = [], br_deqd = []\<rparr>) (buf_ring_alloc count mem)"

section \<open>The two bugs\<close>

definition br_call :: "tid \<Rightarrow> 'v br_cmd \<Rightarrow> nat \<Rightarrow> (tid \<times> 'v br_cmd) list" where
  "br_call t cmd k = (t, cmd) # replicate k (t, BrRun)"

definition br_runs :: "br_config \<Rightarrow> u32 \<Rightarrow> 'v list \<Rightarrow> (tid \<times> 'v br_cmd) list \<Rightarrow> ('v list \<times> 'v list) option" where
  "br_runs c count b as = map_option (\<lambda>s. (br_enqd s, br_deqd s)) (Option.bind (br_start count (Some b)) (exec (br_step c) as))"

lemma br_aba:
  "br_runs \<lparr>BUGFIX1 = False, BUGFIX2 = False\<rparr> 2 [0, 0]
     (br_call 0 (BrEnqueue 5) 2 @ br_call 1 (BrEnqueue 6) 6 @ br_call 1 BrDequeue 6 @ br_call 1 (BrEnqueue 7) 6 @
      replicate 4 (0, BrRun) @ br_call 1 BrDequeue 2) = Some ([6, 7, 5 :: int], [6])"
  by code_simp

lemma br_overrun:
  "br_runs \<lparr>BUGFIX1 = True, BUGFIX2 = False\<rparr> 2 [0, 0]
     (br_call 0 (BrEnqueue 5) 6 @ br_call 0 (BrEnqueue 6) 6 @ br_call 0 (BrEnqueue 7) 6 @
      br_call 0 BrDequeue 6 @ br_call 0 BrDequeue 6 @ br_call 0 BrDequeue 6) = Some ([5, 6, 7 :: int], [7, 6, 7])"
  by code_simp

section \<open>The repaired ring refines the MPMC queue\<close>

text \<open>
  With both fixes the counters run freely and index the ring by their low bits, as in \<^verbatim>\<open>bounded_mpmc.h\<close>. A call of the ring that
  finds that another thread was faster starts again; the MPMC queue returns and leaves the retry to its client.
\<close>

abbreviation fixed_ring :: br_config where
  "fixed_ring \<equiv> \<lparr>BUGFIX1 = True, BUGFIX2 = True\<rparr>"

fun br_abs_pc :: "'v br_pc \<Rightarrow> 'v mpmc_pc" where
  "br_abs_pc (PeTail v h) = MePhead v h" | "br_abs_pc (PeCas v h n) = MeRoom v h" | "br_abs_pc (PeStore v h n) = MeClaimed v h"
| "br_abs_pc (PeWait v h n) = MeStored v h" | "br_abs_pc (PePublish v h n) = MeTurn v h"
| "br_abs_pc (CoTail h) = MdChead h" | "br_abs_pc (CoCas h n) = MdSome h" | "br_abs_pc (CoLoad h n) = MdClaimed h"
| "br_abs_pc (CoWait h n v) = MdRead h v" | "br_abs_pc (CoPublish h n v) = MdTurn h v"
| "br_abs_pc _ = MpIdle"

definition br_abs_ring :: "'v buf_ring \<Rightarrow> 'v bounded_mpmc_t" where
  "br_abs_ring q = \<lparr>mp_phead = br_prod_head q, mp_ptail = br_prod_tail q, mp_chead = br_cons_head q, mp_ctail = br_cons_tail q,
     mp_buf = br_ring q, mp_size = br_prod_size q\<rparr>"

definition br_abs :: "'v br_sys \<Rightarrow> 'v mpmc_sys" where
  "br_abs s = \<lparr>mpmc = br_abs_ring (bring s), mp_pcs = br_abs_pc \<circ> br_pcs s, mp_enqd = br_enqd s, mp_deqd = br_deqd s\<rparr>"

text \<open>What the counters of a call and the sizes of the ring are besides.\<close>

fun br_next_ok :: "'v br_pc \<Rightarrow> bool" where
  "br_next_ok (PeCas v h n) = (n = h + 1)" | "br_next_ok (PeStore v h n) = (n = h + 1)" | "br_next_ok (PeWait v h n) = (n = h + 1)"
| "br_next_ok (PePublish v h n) = (n = h + 1)" | "br_next_ok (CoCas h n) = (n = h + 1)" | "br_next_ok (CoLoad h n) = (n = h + 1)"
| "br_next_ok (CoWait h n v) = (n = h + 1)" | "br_next_ok (CoPublish h n v) = (n = h + 1)"
| "br_next_ok _ = True"

definition br_ok :: "u32 \<Rightarrow> 'v br_sys \<Rightarrow> bool" where
  "br_ok n s \<longleftrightarrow> br_prod_size (bring s) = n \<and> br_prod_mask (bring s) = n - 1 \<and> br_cons_mask (bring s) = n - 1 \<and>
     (\<forall>t. br_next_ok (br_pcs s t))"

lemma br_slot: "V_IS_POWER_OF_TWO n \<Longrightarrow> br_index fixed_ring (n - 1) h = slot n h"
  using V_MOD_POWER_OF_TWO_eq [of h n] by (simp add: br_index_def slot_def V_MOD_POWER_OF_TWO_def unat_mod)

lemma br_abs_goto:
  "br_abs (s\<lparr>bring := q, br_pcs := (br_pcs s)(t := pc)\<rparr>) =
     (br_abs s)\<lparr>mpmc := br_abs_ring q, mp_pcs := (mp_pcs (br_abs s))(t := br_abs_pc pc)\<rparr>"
  "br_abs (s\<lparr>br_pcs := (br_pcs s)(t := pc)\<rparr>) = (br_abs s)\<lparr>mp_pcs := (mp_pcs (br_abs s))(t := br_abs_pc pc)\<rparr>"
  "br_abs (s\<lparr>br_enqd := es\<rparr>) = (br_abs s)\<lparr>mp_enqd := es\<rparr>" "br_abs (s\<lparr>br_deqd := ds\<rparr>) = (br_abs s)\<lparr>mp_deqd := ds\<rparr>"
  by (simp_all add: br_abs_def fun_upd_comp)

lemma br_abs_sel [simp]:
  "mpmc (br_abs s) = br_abs_ring (bring s)" "mp_pcs (br_abs s) t = br_abs_pc (br_pcs s t)"
  "mp_enqd (br_abs s) = br_enqd s" "mp_deqd (br_abs s) = br_deqd s"
  by (simp_all add: br_abs_def)

lemma br_abs_ring_sel [simp]:
  "mp_phead (br_abs_ring q) = br_prod_head q" "mp_ptail (br_abs_ring q) = br_prod_tail q" "mp_chead (br_abs_ring q) = br_cons_head q"
  "mp_ctail (br_abs_ring q) = br_cons_tail q" "mp_buf (br_abs_ring q) = br_ring q" "mp_size (br_abs_ring q) = br_prod_size q"
  by (simp_all add: br_abs_ring_def)

lemma br_abs_ring_upd:
  "br_abs_ring (q\<lparr>br_prod_head := x\<rparr>) = (br_abs_ring q)\<lparr>mp_phead := x\<rparr>" "br_abs_ring (q\<lparr>br_prod_tail := x\<rparr>) = (br_abs_ring q)\<lparr>mp_ptail := x\<rparr>"
  "br_abs_ring (q\<lparr>br_cons_head := x\<rparr>) = (br_abs_ring q)\<lparr>mp_chead := x\<rparr>" "br_abs_ring (q\<lparr>br_cons_tail := x\<rparr>) = (br_abs_ring q)\<lparr>mp_ctail := x\<rparr>"
  "br_abs_ring (q\<lparr>br_ring := b\<rparr>) = (br_abs_ring q)\<lparr>mp_buf := b\<rparr>"
  by (simp_all add: br_abs_ring_def)

lemma mpmc_same:
  "mp_pcs S t = pc \<Longrightarrow> S\<lparr>mpmc := mpmc S, mp_pcs := (mp_pcs S)(t := pc)\<rparr> = S"
  "mp_pcs S t = pc \<Longrightarrow> S\<lparr>mp_pcs := (mp_pcs S)(t := pc)\<rparr> = S"
  by (auto simp: fun_upd_idem)

lemma br_run_refines:
  assumes "V_IS_POWER_OF_TWO n" and ok: "br_ok n s" and step: "br_step fixed_ring (t, BrRun) s = Some s'"
  shows "\<exists>cmd. mpmc_step bounded_mpmc_enq_orig (t, cmd) (br_abs s) = Some (br_abs s')"
proof -
  note simps = br_access_def br_succ_def br_full_def buf_ring_enqueue_def br_abs_goto br_abs_ring_upd vatomic_simps Let_def ENOBUFS_def br_slot [OF assms(1)]
  have [simp]: "br_prod_size (bring s) = n" "br_prod_mask (bring s) = n - 1" "br_cons_mask (bring s) = n - 1"
    and nx: "br_next_ok (br_pcs s t)" using ok by (auto simp: br_ok_def)
  show ?thesis
  proof (cases "br_pcs s t")
    case (PeHead v)
    then show ?thesis using step by (intro exI [of _ "MpEnq v"]) (auto simp: simps)
  next
    case CoHead
    then show ?thesis using step by (intro exI [of _ MpDeq]) (auto simp: simps)
  qed (use step nx in \<open>intro exI [of _ MpRun]; auto simp: simps split: if_splits\<close>)+
qed

lemma br_run_ok:
  assumes "br_ok n s" and "br_step fixed_ring (t, BrRun) s = Some s'"
  shows "br_ok n s'"
proof -
  have "br_next_ok (br_pcs s t)" using assms(1) by (simp add: br_ok_def)
  with assms show ?thesis
    by (cases "br_pcs s t") (auto simp: br_ok_def br_access_def buf_ring_enqueue_def Let_def br_succ_def ENOBUFS_def split: if_splits)
qed

lemma mp_inv_Suc: "mp_inv n m S \<Longrightarrow> mp_inv n (Suc m) S"
  by (auto simp: mp_inv_def mp_counters_def)

definition br_inv :: "u32 \<Rightarrow> nat \<Rightarrow> 'v br_sys \<Rightarrow> bool" where
  "br_inv n m s \<longleftrightarrow> br_ok n s \<and> mp_inv n m (br_abs s)"

lemma br_inv_step:
  assumes "V_IS_POWER_OF_TWO n" and "br_inv n m s" and "Suc m < 2 ^ 32" and "br_step fixed_ring (t, cmd) s = Some s'"
  shows "br_inv n (Suc m) s'"
proof (cases cmd)
  case BrRun
  with assms br_run_refines [OF assms(1), of s t s'] br_run_ok [of n s t s'] mp_inv_step [of n m "br_abs s" t] show ?thesis
    unfolding br_inv_def by blast
qed (use assms(2,4) mp_inv_Suc [of n m "br_abs s"] in
  \<open>auto simp: br_inv_def br_ok_def br_abs_goto mpmc_same split: if_splits\<close>)

lemma br_inv_start:
  assumes "length b = unat n" and "br_start n (Some b) = Some s"
  shows "br_inv n 0 s"
proof -
  have "br_abs s = mpmc_start b n" using assms(2)
    by (auto simp: br_start_def buf_ring_alloc_def br_abs_def br_abs_ring_def mpmc_start_def bounded_mpmc_init_def vatomic_simps comp_def)
  moreover have "br_ok n s" using assms(2) by (auto simp: br_start_def buf_ring_alloc_def br_ok_def)
  ultimately show ?thesis using mp_inv_reach [OF assms(1), of 0 "(0, mpmc_start b n)"] by (simp add: br_inv_def reach_init)
qed

lemma br_reach_inv:
  assumes "V_IS_POWER_OF_TWO n" and "length b = unat n" and "br_start n (Some b) = Some s0" and "B < 2 ^ 32"
    and "reach (bounded B (br_step fixed_ring)) (0, s0) c"
  shows "br_inv n (fst c) (snd c)"
proof -
  have "inv_system (bounded B (br_step fixed_ring)) (0, s0) (\<lambda>(m, s). br_inv n m s)"
  proof (rule inv_system.intro, goal_cases)
    case 1
    show ?case using br_inv_start [OF assms(2,3)] by simp
  next
    case (2 c lab c')
    obtain m s t cmd where "c = (m, s)" "lab = (t, cmd)" by (cases c; cases lab)
    with 2 br_inv_step [OF assms(1), of m s t cmd] assms(4) show ?case by (auto simp del: br_step.simps split: if_splits)
  qed
  from inv_system.reach_inv [OF this assms(5)] show ?thesis by (cases c) simp
qed

lemma reach_bounded_le: "reach (bounded B step) (0, s0) c \<Longrightarrow> fst c \<le> B"
  by (induction rule: reach.induct) (auto split: if_splits)

lemma br_counts:
  assumes "br_inv n m s"
  shows "unat (br_prod_tail (bring s)) = length (br_enqd s)" "unat (br_cons_tail (bring s)) = length (br_deqd s)"
    "prefix (br_deqd s) (br_enqd s)" "unat (br_cons_tail (bring s)) \<le> unat (br_cons_head (bring s))"
    "unat (br_cons_head (bring s)) \<le> unat (br_prod_tail (bring s))" "unat (br_prod_tail (bring s)) \<le> unat (br_prod_head (bring s))"
    "unat (br_prod_head (bring s)) \<le> unat (br_cons_tail (bring s)) + unat n"
    "unat (br_prod_head (bring s)) \<le> m"
  using assms by (auto simp: br_inv_def mp_inv_def mp_counters_def mp_values_def)

lemma br_null:
  assumes "br_inv n m s" and "br_pcs s t = CoTail h" and "br_prod_tail (bring s) = h"
  shows "br_cons_head (bring s) = br_prod_tail (bring s)"
proof -
  have "mp_pc_ok n (br_abs s) (mp_pcs (br_abs s) t)" using assms(1) by (simp add: br_inv_def mp_inv_def)
  then have "unat h \<le> unat (br_cons_head (bring s))" using assms(2) by (simp add: mp_pc_ok_def)
  then show ?thesis using br_counts(5) [OF assms(1)] assms(3) by (auto simp: word_unat_eq_iff)
qed

lemma br_nobufs:
  assumes "br_inv n m s" and "br_pcs s t = PeTail v h" and "h - br_cons_tail (bring s) = n" and "m + unat n < 2 ^ 32"
  shows "unat (br_prod_head (bring s)) = unat (br_cons_tail (bring s)) + unat n"
proof -
  have "mp_pc_ok n (br_abs s) (mp_pcs (br_abs s) t)" using assms(1) by (simp add: br_inv_def mp_inv_def)
  then have h: "unat h \<le> unat (br_prod_head (bring s))" using assms(2) by (simp add: mp_pc_ok_def)
  have "h = n + br_cons_tail (bring s)" using assms(3) by (simp add: diff_eq_eq)
  then have "unat h = (unat n + unat (br_cons_tail (bring s))) mod 2 ^ 32" by (simp add: unat_word_ariths)
  then show ?thesis using h br_counts(4-8) [OF assms(1)] assms(4) by simp
qed

text \<open>
  C5. The ring with both fixes refines the MPMC queue and is first-in first-out: in every interleaving of any number of producers and
  consumers, as long as fewer than \<open>2 ^ 32\<close> steps are taken, the values dequeued are a prefix of the values enqueued and at most
  \<open>count\<close> values are in between. A dequeue returns \<^verbatim>\<open>NULL\<close> only if every value that was enqueued is with a consumer, and
  an enqueue fails only if all slots are taken.
\<close>

theorem buf_ring_fixed_fifo:
  assumes "V_IS_POWER_OF_TWO count" and "length b = unat count" and "br_start count (Some b) = Some s0" 
    and "B + unat count < 2 ^ 32" and "reach (bounded B (br_step fixed_ring)) (0, s0) (k, s)"
  shows "mp_inv count k (br_abs s) \<and> prefix (br_deqd s) (br_enqd s) \<and> length (br_enqd s) \<le> length (br_deqd s) + unat count \<and>
    (\<forall>t h q. br_pcs s t = CoTail h \<longrightarrow> buf_ring_dequeue_mc fixed_ring (CoTail h) (bring s) = Some (Inr (DequeueRet None), q) \<longrightarrow>
      length (br_enqd s) = unat (br_cons_head (bring s))) \<and>
    (\<forall>t v h q. br_pcs s t = PeTail v h \<longrightarrow> buf_ring_enqueue fixed_ring (PeTail v h) (bring s) = Some (Inr (EnqueueRet ENOBUFS v), q) \<longrightarrow>
      unat (br_prod_head (bring s)) = length (br_deqd s) + unat count)"
proof -
  have I: "br_inv count k s" using br_reach_inv [OF assms(1-3) _ assms(5)] assms(4) by simp
  have k: "k \<le> B" using reach_bounded_le [OF assms(5)] by simp
  have "unat (br_prod_head (bring s)) = length (br_deqd s) + unat count" if "br_pcs s t = PeTail v h"
    "buf_ring_enqueue fixed_ring (PeTail v h) (bring s) = Some (Inr (EnqueueRet ENOBUFS v), q)" for t v h q
    using br_nobufs [OF I that(1)] that(2) br_counts(2) [OF I] I k assms(4)
    by (simp add: Let_def buf_ring_enqueue_def br_full_def br_inv_def br_ok_def split: if_splits)
  moreover have "length (br_enqd s) = unat (br_cons_head (bring s))" if "br_pcs s t = CoTail h"
    "buf_ring_dequeue_mc fixed_ring (CoTail h) (bring s) = Some (Inr (DequeueRet None), q)" for t h q
    using br_null [OF I that(1)] that(2) br_counts(1) [OF I] by (simp add: Let_def split: if_splits)
  ultimately show ?thesis using I br_counts [OF I] by (auto simp: br_inv_def)
qed

text \<open>Two producers, one of which has to start again, and a consumer.\<close>

definition br_example :: "(tid \<times> int br_cmd) list" where
  "br_example = br_call 0 (BrEnqueue 5) 2 @ br_call 1 (BrEnqueue 6) 6 @ replicate 7 (0, BrRun) @ br_call 2 BrDequeue 6"

definition br_example_start :: "int br_sys" where
  "br_example_start = \<lparr>bring = \<lparr>br_prod_head = 0, br_prod_tail = 0, br_prod_size = 2, br_prod_mask = 1, br_cons_head = 0, br_cons_tail = 0,
     br_cons_size = 2, br_cons_mask = 1, br_ring = [0, 0]\<rparr>, br_pcs = (\<lambda>_. BrIdle), br_enqd = [], br_deqd = []\<rparr>"

lemma br_example_runs:
  "map_option (\<lambda>s. (br_enqd s, br_deqd s)) (exec (br_step fixed_ring) br_example br_example_start) = Some ([6, 5], [6])"
  by code_simp

theorem buf_ring_fixed_fifo_witness:
  "\<exists>s. exec (br_step fixed_ring) br_example br_example_start = Some s \<and> br_enqd s = [6, 5] \<and> br_deqd s = [6] \<and>
     mp_inv 2 (length br_example) (br_abs s) \<and> prefix (br_deqd s) (br_enqd s)"
proof -
  obtain s where s: "exec (br_step fixed_ring) br_example br_example_start = Some s" "br_enqd s = [6, 5]" "br_deqd s = [6]"
    using br_example_runs by auto
  have "reach (bounded 100 (br_step fixed_ring)) (0, br_example_start) (length br_example, s)"
    by (rule exec_bounded [OF s(1)]) (simp add: br_example_def br_call_def)
  moreover have "br_start 2 (Some [0, 0]) = Some br_example_start" by (simp add: br_start_def buf_ring_alloc_def br_example_start_def)
  moreover have "V_IS_POWER_OF_TWO 2" by code_simp
  ultimately show ?thesis using buf_ring_fixed_fifo [of 2 "[0, 0]" br_example_start 100 "length br_example" s] s by auto
qed

end
