(* ===== verification/Buf_Ring_Test.thy ===== *)
theory Buf_Ring_Test
  imports Buf_Ring
begin

text \<open>
  The program of \<^verbatim>\<open>buf_ring/test.c\<close>: three threads send two messages each through a ring of two slots and drain the ring
  after every message. A message is an integer in a buffer from \<open>malloc\<close>; the schedule chooses the address of a new buffer among the free
  ones. A step is one access to the ring, to a buffer or to a counter; the use of a freed buffer is a fault that stops the program.
\<close>

section \<open>The program\<close>

definition NTHREADS :: nat where "NTHREADS = 3"
definition LOOPS :: nat where "LOOPS = 2"
definition BUF_SIZE :: u32 where "BUF_SIZE = 2"
definition MESSAGES :: nat where "MESSAGES = NTHREADS * LOOPS"

datatype run_pc = RunNext nat | RunEnqueue nat nat | RunFailed nat nat | RunDrain nat | RunDequeue nat | RunGot nat nat
  | RunIndex nat nat nat | RunCount nat nat nat nat | RunFree nat nat | RunDone

record test_sys =
  t_ring :: "nat br_sys"
  t_heap :: "nat \<rightharpoonup> nat"
  t_consumed :: "nat list"
  t_pcs :: "tid \<Rightarrow> run_pc"
  t_fault :: bool

definition t_goto :: "tid \<Rightarrow> run_pc \<Rightarrow> test_sys \<Rightarrow> test_sys" where
  "t_goto t pc s = s\<lparr>t_pcs := (t_pcs s)(t := pc)\<rparr>"

text \<open>A call of the ring from the program: \<open>k\<close> says where the call returns to.\<close>

fun t_returns :: "tid \<Rightarrow> ('v br_pc + 'v br_ret) \<times> 'v buf_ring \<Rightarrow> ('v br_ret \<Rightarrow> run_pc) \<Rightarrow> test_sys \<Rightarrow> test_sys" where
  "t_returns t (Inl _, _) k s = s"
| "t_returns t (Inr r, _) k s = t_goto t (k r) s"

definition t_access :: "br_config \<Rightarrow> tid \<Rightarrow> (nat br_ret \<Rightarrow> run_pc) \<Rightarrow> test_sys \<Rightarrow> test_sys option" where
  "t_access c t k s = map_option (\<lambda>r. t_returns t r k (s\<lparr>t_ring := br_after t r (t_ring s)\<rparr>)) (br_access c (br_pcs (t_ring s) t) (bring (t_ring s)))"

definition t_begin :: "br_config \<Rightarrow> tid \<Rightarrow> nat br_cmd \<Rightarrow> run_pc \<Rightarrow> test_sys \<Rightarrow> test_sys option" where
  "t_begin c t cmd pc s = map_option (\<lambda>b. t_goto t pc (s\<lparr>t_ring := b\<rparr>)) (br_step c (t, cmd) (t_ring s))"

fun after_enqueue :: "nat \<Rightarrow> nat \<Rightarrow> nat br_ret \<Rightarrow> run_pc" where
  "after_enqueue i buf (EnqueueRet r v) = (if r \<noteq> 0 then RunFailed i buf else RunDrain i)"
| "after_enqueue i buf (DequeueRet v) = RunDone"

fun after_dequeue :: "nat \<Rightarrow> nat br_ret \<Rightarrow> run_pc" where
  "after_dequeue i (DequeueRet None) = RunNext (Suc i)"
| "after_dequeue i (DequeueRet (Some buf)) = RunGot i buf"
| "after_dequeue i (EnqueueRet r v) = RunDone"

definition t_free :: "tid \<Rightarrow> nat \<Rightarrow> run_pc \<Rightarrow> test_sys \<Rightarrow> test_sys" where
  "t_free t buf pc s = (if t_heap s buf = None then s\<lparr>t_fault := True\<rparr> else t_goto t pc (s\<lparr>t_heap := (t_heap s)(buf := None)\<rparr>))"

fun run :: "br_config \<Rightarrow> tid \<Rightarrow> nat \<Rightarrow> run_pc \<Rightarrow> test_sys \<Rightarrow> test_sys option" where
  "run c t a (RunNext i) s =
     (if \<not> i < LOOPS then Some (t_goto t RunDone s)
      else if t_heap s a \<noteq> None then None
      else t_begin c t (BrEnqueue a) (RunEnqueue i a) (s\<lparr>t_heap := (t_heap s)(a \<mapsto> i * NTHREADS + t)\<rparr>))"
| "run c t a (RunEnqueue i buf) s = t_access c t (after_enqueue i buf) s"
| "run c t a (RunFailed i buf) s = Some (t_free t buf (RunDrain i) s)"
| "run c t a (RunDrain i) s = t_begin c t BrDequeue (RunDequeue i) s"
| "run c t a (RunDequeue i) s = t_access c t (after_dequeue i) s"
| "run c t a (RunGot i buf) s = Some (case t_heap s buf of None \<Rightarrow> s\<lparr>t_fault := True\<rparr> | Some k \<Rightarrow> t_goto t (RunIndex i buf k) s)"
| "run c t a (RunIndex i buf k) s =
     Some (if k < MESSAGES then t_goto t (RunCount i buf k (t_consumed s ! k)) s else s\<lparr>t_fault := True\<rparr>)"
| "run c t a (RunCount i buf k n) s = Some (t_goto t (RunFree i buf) (s\<lparr>t_consumed := (t_consumed s)[k := n + 1]\<rparr>))"
| "run c t a (RunFree i buf) s = Some (t_free t buf (RunDrain i) s)"
| "run c t a RunDone s = None"

definition test_step :: "br_config \<Rightarrow> tid \<times> nat \<Rightarrow> test_sys \<Rightarrow> test_sys option" where
  "test_step c l s = (case l of (t, a) \<Rightarrow> if t < NTHREADS \<and> \<not> t_fault s then run c t a (t_pcs s t) s else None)"

text \<open>\<open>main\<close> up to the creation of the threads, and its final assertion.\<close>

definition test_start :: "nat list option \<Rightarrow> test_sys option" where
  "test_start mem = map_option (\<lambda>r. \<lparr>t_ring = r, t_heap = Map.empty, t_consumed = replicate MESSAGES 0, t_pcs = (\<lambda>_. RunNext 0), t_fault = False\<rparr>)
     (br_start BUF_SIZE mem)"

definition test_passes :: "test_sys \<Rightarrow> bool" where
  "test_passes s \<longleftrightarrow> (\<forall>i < MESSAGES. t_consumed s ! i = 0 \<or> t_consumed s ! i = 1)"

section \<open>The released ring and the first fix fail\<close>

definition t_outcome :: "br_config \<Rightarrow> (tid \<times> nat) list \<Rightarrow> (bool \<times> nat list) option" where
  "t_outcome c as = map_option (\<lambda>s. (t_fault s, t_consumed s)) (Option.bind (test_start (Some [0, 0])) (exec (test_step c) as))"

definition sends :: "tid \<Rightarrow> nat \<Rightarrow> (tid \<times> nat) list" where
  "sends t a = replicate 7 (t, a)"

lemma t_released: "t_outcome \<lparr>BUGFIX1 = False, BUGFIX2 = False\<rparr>
    (sends 0 10 @ replicate 3 (0, 0) @ replicate 4 (1, 11) @ replicate 14 (1, 0) @ sends 1 12 @ replicate 14 (1, 0) @ replicate 5 (0, 0)) = Some (True, [1, 0, 0, 0, 1, 0])"
  by code_simp

lemma t_first_fix: "t_outcome \<lparr>BUGFIX1 = True, BUGFIX2 = False\<rparr>
    (sends 0 10 @ sends 1 11 @ sends 2 12 @ replicate 30 (0, 0)) = Some (True, [0, 1, 1, 0, 0, 0])"
  by code_simp

section \<open>With both fixes every buffer has one owner\<close>

text \<open>The buffer a thread owns, and the buffer whose message it has not counted yet.\<close>

fun owned :: "run_pc \<Rightarrow> nat option" where
  "owned (RunEnqueue i a) = Some a" | "owned (RunFailed i a) = Some a" | "owned (RunGot i a) = Some a" | "owned (RunIndex i a k) = Some a"
| "owned (RunCount i a k n) = Some a" | "owned (RunFree i a) = Some a" | "owned _ = None"

fun uncounted :: "run_pc \<Rightarrow> nat option" where
  "uncounted (RunEnqueue i a) = Some a" | "uncounted (RunGot i a) = Some a" | "uncounted (RunIndex i a k) = Some a"
| "uncounted (RunCount i a k n) = Some a" | "uncounted _ = None"

text \<open>How many messages a thread has created.\<close>

fun created :: "run_pc \<Rightarrow> nat" where
  "created (RunNext i) = i" | "created (RunEnqueue i a) = Suc i" | "created (RunFailed i a) = Suc i" | "created (RunDrain i) = Suc i"
| "created (RunDequeue i) = Suc i" | "created (RunGot i a) = Suc i" | "created (RunIndex i a k) = Suc i" | "created (RunCount i a k n) = Suc i"
| "created (RunFree i a) = Suc i" | "created RunDone = LOOPS"

definition is_created :: "(tid \<Rightarrow> run_pc) \<Rightarrow> nat \<Rightarrow> bool" where
  "is_created P k \<longleftrightarrow> k < MESSAGES \<and> k div NTHREADS < created (P (k mod NTHREADS))"

definition pending :: "nat list \<Rightarrow> (tid \<Rightarrow> run_pc) \<Rightarrow> nat \<Rightarrow> bool" where
  "pending Q P a \<longleftrightarrow> a \<in> set Q \<or> (\<exists>t. uncounted (P t) = Some a)"

definition owners_ok :: "nat list \<Rightarrow> (nat \<rightharpoonup> nat) \<Rightarrow> (tid \<Rightarrow> run_pc) \<Rightarrow> bool" where
  "owners_ok Q H P \<longleftrightarrow> distinct Q \<and> set Q \<subseteq> dom H \<and> (\<forall>t a. owned (P t) = Some a \<longrightarrow> a \<notin> set Q \<and> a \<in> dom H) \<and>
     (\<forall>t u a. owned (P t) = Some a \<longrightarrow> owned (P u) = Some a \<longrightarrow> t = u)"

definition messages_ok :: "nat list \<Rightarrow> (nat \<rightharpoonup> nat) \<Rightarrow> nat list \<Rightarrow> (tid \<Rightarrow> run_pc) \<Rightarrow> bool" where
  "messages_ok Q H C P \<longleftrightarrow> length C = MESSAGES \<and>
     (\<forall>a k. pending Q P a \<longrightarrow> H a = Some k \<longrightarrow> is_created P k \<and> C ! k = 0) \<and>
     (\<forall>a b k. pending Q P a \<longrightarrow> pending Q P b \<longrightarrow> H a = Some k \<longrightarrow> H b = Some k \<longrightarrow> a = b) \<and>
     (\<forall>k < MESSAGES. C ! k \<le> 1 \<and> (C ! k \<noteq> 0 \<longrightarrow> is_created P k))"

lemma owners_okD:
  assumes "owners_ok Q H P"
  shows "distinct Q" "a \<in> set Q \<Longrightarrow> H a \<noteq> None" "owned (P t) = Some a \<Longrightarrow> a \<notin> set Q" "owned (P t) = Some a \<Longrightarrow> H a \<noteq> None"
    "owned (P t) = Some a \<Longrightarrow> owned (P u) = Some a \<Longrightarrow> t = u"
  using assms unfolding owners_ok_def by auto

lemma messages_okD:
  assumes "messages_ok Q H C P"
  shows "length C = MESSAGES" "pending Q P a \<Longrightarrow> H a = Some k \<Longrightarrow> is_created P k" "pending Q P a \<Longrightarrow> H a = Some k \<Longrightarrow> C ! k = 0"
    "pending Q P a \<Longrightarrow> pending Q P b \<Longrightarrow> H a = Some k \<Longrightarrow> H b = Some k \<Longrightarrow> a = b"
    "k < MESSAGES \<Longrightarrow> C ! k \<le> 1" "k < MESSAGES \<Longrightarrow> C ! k \<noteq> 0 \<Longrightarrow> is_created P k"
  using assms unfolding messages_ok_def by blast+

lemma uncounted_owned: "uncounted pc = Some a \<Longrightarrow> owned pc = Some a"
  by (cases pc) auto

lemma is_created_upd:
  assumes "is_created P k" and "\<And>j. j < LOOPS \<Longrightarrow> j < created (P t) \<Longrightarrow> j < created pc"
  shows "is_created (P(t := pc)) k"
proof -
  have "k div NTHREADS < LOOPS" using assms(1) by (simp add: is_created_def MESSAGES_def NTHREADS_def LOOPS_def div_less_iff_less_mult)
  then show ?thesis using assms by (auto simp: is_created_def)
qed

text \<open>A thread moves on with its buffer, or no longer counts or owns it.\<close>

lemma owners_keep:
  assumes "owners_ok Q H P" and "owned pc = owned (P t) \<or> owned pc = None"
  shows "owners_ok Q H (P(t := pc))"
proof (cases "owned pc = None")
  case True
  then show ?thesis using assms(1) unfolding owners_ok_def by (auto split: if_splits)
next
  case False
  then have "owned ((P(t := pc)) u) = owned (P u)" for u using assms(2) by auto
  then show ?thesis using assms(1) unfolding owners_ok_def by (simp only:) blast
qed

lemma messages_keep:
  assumes M: "messages_ok Q H C P" and "uncounted pc = uncounted (P t) \<or> uncounted pc = None"
    and up: "\<And>j. j < LOOPS \<Longrightarrow> j < created (P t) \<Longrightarrow> j < created pc"
  shows "messages_ok Q H C (P(t := pc))"
proof -
  have "pending Q P a" if "pending Q (P(t := pc)) a" for a
    using that assms(2) by (auto simp: pending_def split: if_splits)
  then show ?thesis using messages_okD [OF M] is_created_upd [OF _ up, of P] unfolding messages_ok_def by metis
qed

text \<open>A new buffer with a new message.\<close>

lemma owners_malloc:
  assumes O: "owners_ok Q H P" and "H a = None"
  shows "owners_ok Q (H(a \<mapsto> k)) (P(t := RunEnqueue i a))"
proof -
  have "a \<notin> set Q" "owned (P u) \<noteq> Some a" for u using owners_okD(2,4) [OF O] assms(2) by blast+
  then show ?thesis using O unfolding owners_ok_def by (auto split: if_splits)
qed

lemma messages_malloc:
  assumes O: "owners_ok Q H P" and M: "messages_ok Q H C P" and "H a = None" and p: "P t = RunNext i" and "i < LOOPS" and "t < NTHREADS"
  shows "messages_ok Q (H(a \<mapsto> i * NTHREADS + t)) C (P(t := RunEnqueue i a))"
proof -
  let ?k = "i * NTHREADS + t" and ?P = "P(t := RunEnqueue i a)" and ?H = "H(a \<mapsto> i * NTHREADS + t)"
  have k: "?k < MESSAGES" "?k div NTHREADS = i" "?k mod NTHREADS = t"
    using assms(5,6) by (auto simp: MESSAGES_def NTHREADS_def LOOPS_def)
  have new: "\<not> is_created P ?k" by (simp only: is_created_def k p created.simps) simp
  have up: "is_created P j \<Longrightarrow> is_created ?P j" for j by (rule is_created_upd) (auto simp: p)
  have old: "pending Q P b \<and> b \<noteq> a" if "pending Q ?P b" "b \<noteq> a" for b
    using that by (auto simp: pending_def p split: if_splits)
  have cr: "is_created ?P ?k" by (simp only: is_created_def k fun_upd_same created.simps) simp
  have "C ! ?k = 0" using messages_okD(6) [OF M k(1)] new by blast
  then have "is_created ?P j \<and> C ! j = 0" if "pending Q ?P b" "?H b = Some j" for b j
    using that old [of b] cr messages_okD(2,3) [OF M, of b j] up by (cases "b = a") auto
  moreover have "b = d" if "pending Q ?P b" "pending Q ?P d" "?H b = Some j" "?H d = Some j" for b d j
  proof -
    have "b = a" if "b \<noteq> a \<Longrightarrow> j \<noteq> ?k" "d = a" using that \<open>?H b = Some j\<close> \<open>?H d = Some j\<close> by (cases "b = a") auto
    moreover have "j \<noteq> ?k" if "pending Q ?P x" "?H x = Some j" "x \<noteq> a" for x
      using messages_okD(2) [OF M, of x j] old [OF that(1,3)] that(2,3) new by auto
    ultimately show ?thesis using that old messages_okD(4) [OF M, of b d j] by (cases "b = a"; cases "d = a") auto
  qed
  ultimately show ?thesis using messages_okD [OF M] up unfolding messages_ok_def by blast
qed

text \<open>A buffer moves into the queue, or out of it.\<close>

lemma owners_publish:
  assumes O: "owners_ok Q H P" and p: "owned (P t) = Some a" and "owned pc = None"
  shows "owners_ok (Q @ [a]) H (P(t := pc))"
  using owners_okD [OF O] p assms(3) unfolding owners_ok_def by (auto split: if_splits)

lemma messages_publish:
  assumes M: "messages_ok Q H C P" and p: "uncounted (P t) = Some a" and "uncounted pc = None" and up: "\<And>j. j < LOOPS \<Longrightarrow> j < created (P t) \<Longrightarrow> j < created pc"
  shows "messages_ok (Q @ [a]) H C (P(t := pc))"
proof -
  have "pending Q P b" if "pending (Q @ [a]) (P(t := pc)) b" for b
    using that p assms(3) by (auto simp: pending_def split: if_splits)
  then show ?thesis using messages_okD [OF M] is_created_upd [OF _ up, of P] unfolding messages_ok_def by metis
qed

lemma owners_take:
  assumes O: "owners_ok (a # Q) H P" and "owned pc = Some a"
  shows "owners_ok Q H (P(t := pc))"
  using owners_okD [OF O] assms(2) unfolding owners_ok_def by (auto split: if_splits)

lemma messages_take:
  assumes M: "messages_ok (a # Q) H C P" and "uncounted pc = Some a" and up: "\<And>j. j < LOOPS \<Longrightarrow> j < created (P t) \<Longrightarrow> j < created pc"
  shows "messages_ok Q H C (P(t := pc))"
proof -
  have "pending (a # Q) P b" if "pending Q (P(t := pc)) b" for b
    using that assms(2) by (auto simp: pending_def split: if_splits)
  then show ?thesis using messages_okD [OF M] is_created_upd [OF _ up, of P] unfolding messages_ok_def by metis
qed

text \<open>A buffer whose message is counted is freed; a message is counted.\<close>

lemma owners_free:
  assumes O: "owners_ok Q H P" and p: "owned (P t) = Some a" and "owned pc = None"
  shows "owners_ok Q (H(a := None)) (P(t := pc))"
  using owners_okD [OF O] p assms(3) unfolding owners_ok_def by (auto split: if_splits)

lemma messages_free:
  assumes O: "owners_ok Q H P" and M: "messages_ok Q H C P" and p: "owned (P t) = Some a" "uncounted (P t) = None" and "uncounted pc = None"
    and up: "\<And>j. j < LOOPS \<Longrightarrow> j < created (P t) \<Longrightarrow> j < created pc"
  shows "messages_ok Q (H(a := None)) C (P(t := pc))"
proof -
  have "pending Q P b" if "pending Q (P(t := pc)) b" for b
    using that assms(5) by (auto simp: pending_def split: if_splits)
  then show ?thesis using messages_okD [OF M] is_created_upd [OF _ up, of P] unfolding messages_ok_def
    by (simp split: if_splits) metis
qed

lemma messages_count:
  assumes O: "owners_ok Q H P" and M: "messages_ok Q H C P" and p: "P t = RunCount i a k 0" "H a = Some k"
  shows "messages_ok Q H (C[k := Suc 0]) (P(t := RunFree i a))"
proof -
  let ?P = "P(t := RunFree i a)"
  have a: "pending Q P a" using p by (auto simp: pending_def intro: exI [of _ t])
  have k: "k < MESSAGES" using messages_okD(2) [OF M a p(2)] by (simp add: is_created_def)
  have up: "is_created P j \<Longrightarrow> is_created ?P j" for j by (rule is_created_upd) (auto simp: p)
  have old: "pending Q P b \<and> b \<noteq> a" if "pending Q ?P b" for b
    using that owners_okD(3) [OF O, of t a] owners_okD(5) [OF O, of t a] uncounted_owned p
    by (auto simp: pending_def split: if_splits)
  have "k \<noteq> j" if "pending Q ?P b" "H b = Some j" for b j
    using old [OF that(1)] messages_okD(4) [OF M a _ p(2), of b] that(2) by blast
  then have "is_created ?P j \<and> C[k := Suc 0] ! j = 0" if "pending Q ?P b" "H b = Some j" for b j
    using old [OF that(1)] messages_okD(2,3) [OF M _ that(2)] up that by (metis nth_list_update_neq)
  moreover have "C[k := Suc 0] ! j \<le> 1 \<and> (C[k := Suc 0] ! j \<noteq> 0 \<longrightarrow> is_created ?P j)" if "j < MESSAGES" for j
    using messages_okD(1,5,6) [OF M] messages_okD(2) [OF M a p(2)] up that by (cases "j = k") auto
  ultimately show ?thesis using messages_okD(1,4) [OF M] old unfolding messages_ok_def by (metis length_list_update)
qed

section \<open>The program with both fixes\<close>

definition t_queue :: "test_sys \<Rightarrow> nat list" where
  "t_queue s = drop (length (br_deqd (t_ring s))) (br_enqd (t_ring s))"

fun br_sends :: "'v br_pc \<Rightarrow> 'v option" where
  "br_sends (PeHead v) = Some v" | "br_sends (PeTail v h) = Some v" | "br_sends (PeCas v h n) = Some v" | "br_sends (PeStore v h n) = Some v"
| "br_sends (PeWait v h n) = Some v" | "br_sends (PePublish v h n) = Some v" | "br_sends _ = None"

fun run_ok :: "(nat \<rightharpoonup> nat) \<Rightarrow> nat br_pc \<Rightarrow> run_pc \<Rightarrow> bool" where
  "run_ok H pc (RunEnqueue i a) = (br_sends pc = Some a)"
| "run_ok H pc (RunDequeue i) = br_consumes pc"
| "run_ok H pc (RunIndex i a k) = (pc = BrIdle \<and> H a = Some k)"
| "run_ok H pc (RunCount i a k n) = (pc = BrIdle \<and> H a = Some k \<and> n = 0)"
| "run_ok H pc _ = (pc = BrIdle)"

definition test_inv :: "nat \<Rightarrow> test_sys \<Rightarrow> bool" where
  "test_inv m s \<longleftrightarrow> br_inv BUF_SIZE m (t_ring s) \<and> \<not> t_fault s \<and> owners_ok (t_queue s) (t_heap s) (t_pcs s) \<and>
     messages_ok (t_queue s) (t_heap s) (t_consumed s) (t_pcs s) \<and> (\<forall>t. run_ok (t_heap s) (br_pcs (t_ring s) t) (t_pcs s t))"

lemma test_invD:
  assumes "test_inv m s"
  shows "br_inv BUF_SIZE m (t_ring s)" "\<not> t_fault s" "owners_ok (t_queue s) (t_heap s) (t_pcs s)"
    "messages_ok (t_queue s) (t_heap s) (t_consumed s) (t_pcs s)" "run_ok (t_heap s) (br_pcs (t_ring s) t) (t_pcs s t)"
  using assms unfolding test_inv_def by auto

lemma run_ok_frame:
  assumes "run_ok H pc p" and "\<And>a. owned p = Some a \<Longrightarrow> H' a = H a"
  shows "run_ok H' pc p"
  using assms by (cases p) auto

text \<open>What an access of a call to the ring can return.\<close>

lemma br_enqueue_result:
  assumes "br_sends pc = Some v" and "br_access c pc q = Some (r, q')"
  shows "(\<exists>pc'. r = Inl pc' \<and> br_sends pc' = Some v) \<or> (\<exists>x. r = Inr (EnqueueRet x v) \<and> (x = 0 \<or> x = ENOBUFS))"
  using assms by (cases pc) (auto simp: br_access_def buf_ring_enqueue_def Let_def split: if_splits)

lemma br_dequeue_result:
  assumes "br_consumes pc" and "br_access c pc q = Some (r, q')"
  shows "(\<exists>pc'. r = Inl pc' \<and> br_consumes pc') \<or> (\<exists>x. r = Inr (DequeueRet x))"
  using assms by (cases pc) (auto simp: br_access_def Let_def split: if_splits)

lemma br_idle_distinct [simp]: "br_sends BrIdle = None" "\<not> br_consumes BrIdle"
  by simp_all

lemma power_of_two_size: "V_IS_POWER_OF_TWO BUF_SIZE"
  by code_simp

lemma br_taken:
  assumes "br_inv n m s" and "br_inv n m' s'" and "br_deqd s' = br_deqd s @ [v]" and "br_enqd s' = br_enqd s"
  shows "drop (length (br_deqd s)) (br_enqd s) = v # drop (length (br_deqd s')) (br_enqd s')"
  using br_counts(3) [OF assms(2)] assms(3,4) by (auto simp: prefix_def)

lemma t_access_inv:
  assumes I: "test_inv m s" and m: "Suc m < 2 ^ 32" and st: "t_access fixed_ring t k s = Some s'" 
    and run: "(\<exists>i a. t_pcs s t = RunEnqueue i a \<and> k = after_enqueue i a) \<or> (\<exists>i. t_pcs s t = RunDequeue i \<and> k = after_dequeue i)"
  shows "test_inv (Suc m) s'"
proof -
  let ?r = "t_ring s"
  obtain r q where a: "br_access fixed_ring (br_pcs ?r t) (bring ?r) = Some (r, q)"
    and s': "s' = t_returns t (r, q) k (s\<lparr>t_ring := br_after t (r, q) ?r\<rparr>)" using st by (auto simp: t_access_def)
  have B: "br_inv BUF_SIZE (Suc m) (br_after t (r, q) ?r)"
    by (rule br_inv_step [OF power_of_two_size test_invD(1) [OF I] m, of t BrRun]) (simp add: a)
  note O = test_invD(3) [OF I] and M = test_invD(4) [OF I] and R = test_invD(5) [OF I] and F = test_invD(2) [OF I]
  show ?thesis using run
  proof (elim disjE exE conjE)
    fix i b assume p: "t_pcs s t = RunEnqueue i b" "k = after_enqueue i b"
    then have "br_sends (br_pcs ?r t) = Some b" using R [of t] by simp
    then consider pc' where "r = Inl pc'" "br_sends pc' = Some b" | "r = Inr (EnqueueRet 0 b)" | "r = Inr (EnqueueRet ENOBUFS b)"
      using br_enqueue_result [OF _ a] by blast
    then show ?thesis
    proof cases
      case 1
      then show ?thesis using B O M R F p by (auto simp: test_inv_def s' t_queue_def)
    next
      case 2
      have "owners_ok (t_queue s @ [b]) (t_heap s) ((t_pcs s)(t := RunDrain i))" "messages_ok (t_queue s @ [b]) (t_heap s) (t_consumed s) ((t_pcs s)(t := RunDrain i))"
        by (rule owners_publish [OF O] messages_publish [OF M]; simp add: p)+
      then show ?thesis using B R F p 2 br_counts(3) [OF test_invD(1) [OF I]]
        by (auto simp: test_inv_def s' t_queue_def t_goto_def dest: prefix_length_le)
    next
      case 3
      have "owners_ok (t_queue s) (t_heap s) ((t_pcs s)(t := RunFailed i b))" "messages_ok (t_queue s) (t_heap s) (t_consumed s) ((t_pcs s)(t := RunFailed i b))"
        by (rule owners_keep [OF O] messages_keep [OF M]; simp add: p)+
      then show ?thesis using B R F p 3 by (auto simp: test_inv_def s' t_queue_def t_goto_def ENOBUFS_def)
    qed
  next
    fix i assume p: "t_pcs s t = RunDequeue i" "k = after_dequeue i"
    then have "br_consumes (br_pcs ?r t)" using R [of t] by simp
    then consider pc' where "r = Inl pc'" "br_consumes pc'" | "r = Inr (DequeueRet None)" | b where "r = Inr (DequeueRet (Some b))"
      using br_dequeue_result [OF _ a] by (metis option.exhaust)
    then show ?thesis
    proof cases
      case 1
      then show ?thesis using B O M R F p by (auto simp: test_inv_def s' t_queue_def)
    next
      case 2
      have "owners_ok (t_queue s) (t_heap s) ((t_pcs s)(t := RunNext (Suc i)))" "messages_ok (t_queue s) (t_heap s) (t_consumed s) ((t_pcs s)(t := RunNext (Suc i)))"
        by (rule owners_keep [OF O] messages_keep [OF M]; simp add: p)+
      then show ?thesis using B R F p 2 by (auto simp: test_inv_def s' t_queue_def t_goto_def)
    next
      case 3
      have q: "t_queue s = b # t_queue s'" using br_taken [OF test_invD(1) [OF I] B] 3 by (simp add: s' t_queue_def t_goto_def)
      have "owners_ok (t_queue s') (t_heap s) ((t_pcs s)(t := RunGot i b))" by (rule owners_take [OF O [unfolded q]]) simp
      moreover have "messages_ok (t_queue s') (t_heap s) (t_consumed s) ((t_pcs s)(t := RunGot i b))"
        by (rule messages_take [OF M [unfolded q]]) (simp_all add: p)
      ultimately show ?thesis using B R F p 3 by (auto simp: test_inv_def s' t_goto_def)
    qed
  qed
qed

lemma t_begin_inv:
  assumes I: "test_inv m s" and m: "Suc m < 2 ^ 32" and "t_pcs s t = RunDrain i"
    and st: "t_begin fixed_ring t BrDequeue (RunDequeue i) s = Some s'"
  shows "test_inv (Suc m) s'"
proof -
  let ?P = "(t_pcs s)(t := RunDequeue i)"
  obtain b where b: "br_step fixed_ring (t, BrDequeue) (t_ring s) = Some b" and s': "s' = t_goto t (RunDequeue i) (s\<lparr>t_ring := b\<rparr>)"
    using st by (auto simp: t_begin_def simp del: br_step.simps)
  have "owners_ok (t_queue s) (t_heap s) ?P" "messages_ok (t_queue s) (t_heap s) (t_consumed s) ?P"
    by (rule owners_keep [OF test_invD(3) [OF I]] messages_keep [OF test_invD(4) [OF I]]; simp add: assms(3))+
  then show ?thesis using br_inv_step [OF power_of_two_size test_invD(1) [OF I] m b] test_invD(2,5) [OF I] b
    by (auto simp: test_inv_def s' t_goto_def t_queue_def split: if_splits)
qed

lemma t_malloc_inv:
  assumes I: "test_inv m s" and m: "Suc m < 2 ^ 32" and p: "t_pcs s t = RunNext i" "i < LOOPS" "t < NTHREADS" "t_heap s a = None"
    and st: "t_begin fixed_ring t (BrEnqueue a) (RunEnqueue i a) (s\<lparr>t_heap := (t_heap s)(a \<mapsto> i * NTHREADS + t)\<rparr>) = Some s'"
  shows "test_inv (Suc m) s'"
proof -
  let ?P = "(t_pcs s)(t := RunEnqueue i a)" and ?H = "(t_heap s)(a \<mapsto> i * NTHREADS + t)"
  note O = test_invD(3) [OF I] and M = test_invD(4) [OF I] and R = test_invD(5) [OF I]
  obtain b where b: "br_step fixed_ring (t, BrEnqueue a) (t_ring s) = Some b"
    and s': "s' = t_goto t (RunEnqueue i a) (s\<lparr>t_heap := ?H, t_ring := b\<rparr>)" using st by (auto simp: t_begin_def simp del: br_step.simps)
  have "run_ok ?H (br_pcs (t_ring s) u) (t_pcs s u)" for u
    by (rule run_ok_frame [OF R]) (use owners_okD(4) [OF O, of u a] p(4) in auto)
  moreover have "owners_ok (t_queue s) ?H ?P" "messages_ok (t_queue s) ?H (t_consumed s) ?P"
    using owners_malloc [OF O p(4)] messages_malloc [OF O M p(4,1-3)] by blast+
  ultimately show ?thesis using br_inv_step [OF power_of_two_size test_invD(1) [OF I] m b] test_invD(2) [OF I] b
    by (auto simp: test_inv_def s' t_goto_def t_queue_def split: if_splits)
qed

lemma t_free_inv:
  assumes I: "test_inv m s" and p: "t_pcs s t = RunFailed i a \<or> t_pcs s t = RunFree i a"
  shows "test_inv m (t_free t a (RunDrain i) s)"
proof -
  let ?P = "(t_pcs s)(t := RunDrain i)" and ?H = "(t_heap s)(a := None)"
  note O = test_invD(3) [OF I] and M = test_invD(4) [OF I] and R = test_invD(5) [OF I]
  have o: "owned (t_pcs s t) = Some a" "uncounted (t_pcs s t) = None" "created (t_pcs s t) = Suc i" "br_pcs (t_ring s) t = BrIdle"
    using p R [of t] by auto
  have "run_ok ?H (br_pcs (t_ring s) u) (t_pcs s u)" if "u \<noteq> t" for u
    by (rule run_ok_frame [OF R]) (use owners_okD(5) [OF O o(1), of u] that in auto)
  moreover have "owners_ok (t_queue s) ?H ?P" "messages_ok (t_queue s) ?H (t_consumed s) ?P"
    using owners_free [OF O o(1)] messages_free [OF O M o(1,2)] o(3) by simp_all
  ultimately show ?thesis using test_invD(1,2) [OF I] o(4) owners_okD(4) [OF O o(1)]
    by (auto simp: test_inv_def t_free_def t_goto_def t_queue_def)
qed

lemma t_local_inv:
  assumes I: "test_inv m s" and "owned pc = owned (t_pcs s t)" "uncounted pc = uncounted (t_pcs s t)"
    and "\<And>j. j < LOOPS \<Longrightarrow> j < created (t_pcs s t) \<Longrightarrow> j < created pc" and "run_ok (t_heap s) (br_pcs (t_ring s) t) pc"
  shows "test_inv m (t_goto t pc s)"
proof -
  let ?P = "(t_pcs s)(t := pc)"
  have "owners_ok (t_queue s) (t_heap s) ?P" using owners_keep [OF test_invD(3) [OF I]] assms(2) by simp
  moreover have "messages_ok (t_queue s) (t_heap s) (t_consumed s) ?P" using messages_keep [OF test_invD(4) [OF I] _ assms(4)] assms(3) by simp
  ultimately show ?thesis using test_invD(1,2,5) [OF I] assms(5) by (auto simp: test_inv_def t_goto_def t_queue_def)
qed

lemma t_count_inv:
  assumes I: "test_inv m s" and p: "t_pcs s t = RunCount i a k n"
  shows "test_inv m (t_goto t (RunFree i a) (s\<lparr>t_consumed := (t_consumed s)[k := n + 1]\<rparr>))"
proof -
  note O = test_invD(3) [OF I] and M = test_invD(4) [OF I] and R = test_invD(5) [OF I]
  have n: "n = 0" "t_heap s a = Some k" "br_pcs (t_ring s) t = BrIdle" using R [of t] p by auto
  have "owners_ok (t_queue s) (t_heap s) ((t_pcs s)(t := RunFree i a))" by (rule owners_keep [OF O]) (simp add: p)
  then show ?thesis using messages_count [OF O M, of t i a k] p n test_invD(1,2) [OF I] R
    by (auto simp: test_inv_def t_goto_def t_queue_def)
qed

lemma test_inv_Suc: "test_inv m s \<Longrightarrow> test_inv (Suc m) s"
  by (auto simp: test_inv_def br_inv_def mp_inv_Suc)

lemma t_uncounted:
  assumes I: "test_inv m s" and "uncounted (t_pcs s t) = Some a"
  shows "\<exists>k. t_heap s a = Some k \<and> k < MESSAGES \<and> t_consumed s ! k = 0"
proof -
  obtain k where k: "t_heap s a = Some k" using owners_okD(4) [OF test_invD(3) [OF I] uncounted_owned [OF assms(2)]] by auto
  have "pending (t_queue s) (t_pcs s) a" using assms(2) by (auto simp: pending_def)
  then show ?thesis using messages_okD(2,3) [OF test_invD(4) [OF I] _ k] k by (auto simp: is_created_def)
qed

lemma test_inv_step:
  assumes I: "test_inv m s" and m: "Suc m < 2 ^ 32" and st: "test_step fixed_ring (t, a) s = Some s'"
  shows "test_inv (Suc m) s'"
proof -
  have t: "t < NTHREADS" and r: "run fixed_ring t a (t_pcs s t) s = Some s'" using st by (auto simp: test_step_def split: if_splits)
  note R = test_invD(5) [OF I, of t] and U = t_uncounted [OF I, of t]
  show ?thesis
  proof (cases "t_pcs s t")
    case (RunNext i)
    then show ?thesis using r t t_malloc_inv [OF I m RunNext] test_inv_Suc [OF t_local_inv [OF I, of RunDone t]] R
      by (auto split: if_splits)
  next
    case (RunEnqueue i b)
    then show ?thesis using r t_access_inv [OF I m, of t] by simp
  next
    case (RunFailed i b)
    then show ?thesis using r test_inv_Suc [OF t_free_inv [OF I, of t i b]] by simp
  next
    case (RunDrain i)
    then show ?thesis using r t_begin_inv [OF I m RunDrain] by simp
  next
    case (RunDequeue i)
    then show ?thesis using r t_access_inv [OF I m, of t] by simp
  next
    case (RunGot i b)
    then obtain k where k: "t_heap s b = Some k" using U by auto
    then show ?thesis using r RunGot R test_inv_Suc [OF t_local_inv [OF I, of "RunIndex i b k" t]] by simp
  next
    case (RunIndex i b k)
    then have k: "t_heap s b = Some k" "k < MESSAGES" "t_consumed s ! k = 0" "br_pcs (t_ring s) t = BrIdle" using U R by auto
    then show ?thesis using r RunIndex test_inv_Suc [OF t_local_inv [OF I, of "RunCount i b k 0" t]] by simp
  next
    case (RunCount i b k n)
    then show ?thesis using r test_inv_Suc [OF t_count_inv [OF I RunCount]] by simp
  next
    case (RunFree i b)
    then show ?thesis using r test_inv_Suc [OF t_free_inv [OF I, of t i b]] by simp
  next
    case RunDone
    then show ?thesis using r by simp
  qed
qed

lemma test_inv_start:
  assumes "length b = unat BUF_SIZE" and "test_start (Some b) = Some s"
  shows "test_inv 0 s"
proof -
  obtain r where r: "br_start BUF_SIZE (Some b) = Some r"
    and s: "s = \<lparr>t_ring = r, t_heap = Map.empty, t_consumed = replicate MESSAGES 0, t_pcs = (\<lambda>_. RunNext 0), t_fault = False\<rparr>"
    using assms(2) by (auto simp: test_start_def)
  then show ?thesis using br_inv_start [OF assms(1) r]
    by (auto simp: test_inv_def owners_ok_def messages_ok_def pending_def t_queue_def br_start_def buf_ring_alloc_def)
qed

text \<open>
  C4. With both fixes the test program of the ring never uses a freed buffer and never frees one twice, and its final assertion that no message is
  counted twice holds at every moment, in every interleaving of fewer than \<open>2 ^ 32\<close> steps and for every choice of addresses by \<open>malloc\<close>.
\<close>

theorem buf_ring_test_passes:
  assumes "length b = unat BUF_SIZE" and "test_start (Some b) = Some s0" and "B < 2 ^ 32"
    and "reach (bounded B (test_step fixed_ring)) (0, s0) (k, s)"
  shows "\<not> t_fault s \<and> test_passes s \<and> prefix (br_deqd (t_ring s)) (br_enqd (t_ring s))"
proof -
  have "inv_system (bounded B (test_step fixed_ring)) (0, s0) (\<lambda>(m, s). test_inv m s)"
  proof (rule inv_system.intro, goal_cases)
    case 1
    show ?case using test_inv_start [OF assms(1,2)] by simp
  next
    case (2 c lab c')
    obtain m s t a where "c = (m, s)" "lab = (t, a)" by (cases c; cases lab)
    with 2 test_inv_step [of m s t a] assms(3) show ?case by (auto split: if_splits)
  qed
  from inv_system.reach_inv [OF this assms(4)] have I: "test_inv k s" by simp
  have "t_consumed s ! i = 0 \<or> t_consumed s ! i = 1" if "i < MESSAGES" for i
    using messages_okD(5) [OF test_invD(4) [OF I] that] by arith
  then show ?thesis using test_invD(2) [OF I] br_counts(3) [OF test_invD(1) [OF I]] by (simp add: test_passes_def)
qed

text \<open>All three threads send before one of them drains the ring; the third message finds the ring full.\<close>

definition t_example :: "(tid \<times> nat) list" where
  "t_example = sends 0 10 @ sends 1 11 @ replicate 4 (2, 12) @ replicate 25 (0, 0)"

lemma t_example_runs: "t_outcome fixed_ring t_example = Some (False, [1, 1, 0, 0, 0, 0])"
  by code_simp

theorem buf_ring_test_passes_witness:
  "\<exists>s0 s. test_start (Some [0, 0]) = Some s0 \<and> exec (test_step fixed_ring) t_example s0 = Some s \<and> t_consumed s = [1, 1, 0, 0, 0, 0] \<and> \<not> t_fault s \<and> test_passes s"
proof -
  obtain s0 s where s: "test_start (Some [0, 0]) = Some s0" "exec (test_step fixed_ring) t_example s0 = Some s" "t_consumed s = [1, 1, 0, 0, 0, 0]"
    using t_example_runs by (auto simp: t_outcome_def bind_eq_Some_conv)
  have "reach (bounded 100 (test_step fixed_ring)) (0, s0) (length t_example, s)"
    by (rule exec_bounded [OF s(2)]) (simp add: t_example_def sends_def)
  from buf_ring_test_passes [OF _ s(1) _ this] s show ?thesis by (auto simp: BUF_SIZE_def)
qed


end
