(* ===== verification/Listset_Spec.thy ===== *)
theory Listset_Spec
  imports Linked_List Vatomic
begin

text \<open>
  What a list set promises: a set of nodes, each found under its key. The list sets of \<^verbatim>\<open>map/listset_*.h\<close> keep the nodes in a
  list that is sorted by key, between a head and a tail sentinel. The comparison \<open>cmp\<close> is a callback of the client: the
  documentation in \<^verbatim>\<open>listset_common.h\<close> asks that it compares the key of a node with a given key.
\<close>

section \<open>The abstract set\<close>

type_synonym key = u64

definition cmp_ok :: "(addr \<Rightarrow> key \<Rightarrow> int) \<Rightarrow> (addr \<Rightarrow> key) \<Rightarrow> bool" where
  "cmp_ok cmp key \<longleftrightarrow> (\<forall>a k. cmp a k = (if key a = k then 0 else if key a < k then -1 else 1))"

datatype set_event = SAdd key addr bool | SRemove key bool | SGet key "addr option"

fun set_apply :: "set_event \<Rightarrow> (key \<rightharpoonup> addr) \<Rightarrow> (key \<rightharpoonup> addr) option" where
  "set_apply (SAdd k n r) m = (if r = (m k = None) then Some (if r then m(k \<mapsto> n) else m) else None)"
| "set_apply (SRemove k r) m = (if r = (m k \<noteq> None) then Some (m(k := None)) else None)"
| "set_apply (SGet k x) m = (if x = m k then Some m else None)"

fun set_replay :: "set_event list \<Rightarrow> (key \<rightharpoonup> addr) \<Rightarrow> (key \<rightharpoonup> addr) option" where
  "set_replay [] m = Some m"
| "set_replay (e # es) m = Option.bind (set_apply e m) (set_replay es)"

lemma set_replay_append: "set_replay (es @ fs) m = Option.bind (set_replay es m) (set_replay fs)"
  by (induction es arbitrary: m) (auto simp: bind_eq_Some_conv split: Option.bind_split)

section \<open>Sorted lists between sentinels\<close>

definition HEAD :: addr where "HEAD = 0"
definition TAIL :: addr where "TAIL = 1"

lemma sentinels [simp]: "HEAD \<noteq> TAIL" "TAIL \<noteq> HEAD"
  by (simp_all add: HEAD_def TAIL_def)

text \<open>Keys with one below and one above all others for the sentinels.\<close>

definition ekey :: "(addr \<Rightarrow> key) \<Rightarrow> addr \<Rightarrow> nat" where
  "ekey key a = (if a = HEAD then 0 else if a = TAIL then 2 ^ 64 + 1 else Suc (unat (key a)))"

definition kpos :: "key \<Rightarrow> nat" where
  "kpos k = Suc (unat k)"

fun linked :: "(addr \<Rightarrow> addr) \<Rightarrow> addr list \<Rightarrow> bool" where
  "linked nx (x # y # zs) \<longleftrightarrow> nx x = y \<and> linked nx (y # zs)"
| "linked nx _ \<longleftrightarrow> True"

definition listed :: "(addr \<Rightarrow> key) \<Rightarrow> (addr \<Rightarrow> addr) \<Rightarrow> addr list \<Rightarrow> bool" where
  "listed key nx N \<longleftrightarrow> N \<noteq> [] \<and> hd N = HEAD \<and> last N = TAIL \<and> linked nx N \<and> sorted_wrt (<) (map (ekey key) N)"

definition node_map :: "(addr \<Rightarrow> key) \<Rightarrow> addr list \<Rightarrow> key \<rightharpoonup> addr" where
  "node_map key N k = List.find (\<lambda>a. a \<noteq> HEAD \<and> a \<noteq> TAIL \<and> key a = k) N"

lemma kpos_bounds: "0 < kpos k" "kpos k \<le> 2 ^ 64"
  using unsigned_less [of k] by (auto simp: kpos_def simp flip: less_eq_Suc_le)

lemma kpos_less: "kpos j < kpos k \<longleftrightarrow> j < k" "kpos j = kpos k \<longleftrightarrow> j = k"
  by (auto simp: kpos_def word_less_nat_alt word_unat_eq_iff)

lemma ekey_node: "a \<noteq> HEAD \<Longrightarrow> a \<noteq> TAIL \<Longrightarrow> ekey key a = kpos (key a)"
  by (simp add: ekey_def kpos_def)

lemma ekey_sentinels [simp]: "ekey key HEAD = 0" "kpos k < ekey key TAIL"
  using kpos_bounds [of k] by (auto simp: ekey_def)

lemma linked_append: "linked nx (A @ p # B) \<longleftrightarrow> linked nx (A @ [p]) \<and> linked nx (p # B)"
proof (induction A)
  case (Cons x A)
  then show ?case by (cases A) auto
qed simp

lemma linked_upd: "linked nx xs \<Longrightarrow> p \<notin> set (butlast xs) \<Longrightarrow> linked (nx(p := v)) xs"
  by (induction nx xs rule: linked.induct) auto

lemma listed_distinct:
  assumes "listed key nx N"
  shows "distinct N" "a \<in> set N \<Longrightarrow> b \<in> set N \<Longrightarrow> ekey key a = ekey key b \<Longrightarrow> a = b"
  using assms by (auto simp: listed_def strict_sorted_iff distinct_map dest: inj_onD)

lemma listed_split:
  assumes "listed key nx N" and "p \<in> set N" and "p \<noteq> TAIL"
  obtains A B where "N = A @ p # nx p # B"
proof -
  obtain A C where N: "N = A @ p # C" using assms(2) by (auto simp: in_set_conv_decomp)
  have "C \<noteq> []" using assms(1,3) N by (auto simp: listed_def)
  then obtain c B where C: "C = c # B" by (cases C) auto
  have "c = nx p" using assms(1) linked_append [of nx A p "c # B"] by (simp add: listed_def N C)
  with N C that show ?thesis by blast
qed

lemma listed_next: "listed key nx N \<Longrightarrow> p \<in> set N \<Longrightarrow> p \<noteq> TAIL \<Longrightarrow> nx p \<in> set N \<and> nx p \<noteq> HEAD"
proof -
  assume a: "listed key nx N" "p \<in> set N" "p \<noteq> TAIL"
  then obtain A B where N: "N = A @ p # nx p # B" by (rule listed_split)
  have "hd N = HEAD" "distinct N" using a(1) listed_distinct(1) [OF a(1)] by (auto simp: listed_def)
  then show ?thesis unfolding N by (cases A) auto
qed

lemma node_map_iff:
  assumes "listed key nx N"
  shows "node_map key N k = Some a \<longleftrightarrow> a \<in> set N \<and> a \<noteq> HEAD \<and> a \<noteq> TAIL \<and> key a = k"
proof -
  show ?thesis
  proof
    assume "node_map key N k = Some a"
    then show "a \<in> set N \<and> a \<noteq> HEAD \<and> a \<noteq> TAIL \<and> key a = k" by (auto simp: node_map_def find_Some_iff)
  next
    assume a: "a \<in> set N \<and> a \<noteq> HEAD \<and> a \<noteq> TAIL \<and> key a = k"
    then obtain b where b: "node_map key N k = Some b" by (cases "node_map key N k") (auto simp: node_map_def find_None_iff)
    then have "b \<in> set N \<and> b \<noteq> HEAD \<and> b \<noteq> TAIL \<and> key b = k" by (auto simp: node_map_def find_Some_iff)
    then show "node_map key N k = Some a" using listed_distinct(2) [OF assms, of a b] a b by (simp add: ekey_node)
  qed
qed

section \<open>Finding, inserting and deleting\<close>

lemma listed_between:
  assumes "listed key nx N" and "p \<in> set N" and "p \<noteq> TAIL" and "a \<in> set N"
  shows "ekey key a \<le> ekey key p \<or> ekey key (nx p) \<le> ekey key a"
proof -
  obtain A B where N: "N = A @ p # nx p # B" by (rule listed_split [OF assms(1-3)])
  have "sorted_wrt (<) (map (ekey key) (A @ p # nx p # B))" using assms(1) by (simp add: listed_def N)
  then show ?thesis using assms(4) by (auto simp: N sorted_wrt_append less_imp_le)
qed

lemma listed_found:
  assumes "listed key nx N" and "p \<in> set N" and "p \<noteq> TAIL" and "nx p \<noteq> TAIL" and "key (nx p) = k"
  shows "node_map key N k = Some (nx p)"
  using listed_next [OF assms(1-3)] assms(4,5) by (simp add: node_map_iff [OF assms(1)])

lemma listed_absent:
  assumes "listed key nx N" and "p \<in> set N" and "p \<noteq> TAIL" and "ekey key p < kpos k" and "kpos k < ekey key (nx p)"
  shows "node_map key N k = None"
proof (rule ccontr)
  assume "\<not> ?thesis"
  then obtain a where "node_map key N k = Some a" by auto
  then have "a \<in> set N" "ekey key a = kpos k" using node_map_iff [OF assms(1)] by (auto simp: ekey_node)
  then show False using listed_between [OF assms(1-3), of a] assms(4,5) by auto
qed

lemma node_map_eqI:
  assumes "listed key nx N" and "listed key nx' N'"
    and "\<And>k a. m k = Some a \<longleftrightarrow> a \<in> set N' \<and> a \<noteq> HEAD \<and> a \<noteq> TAIL \<and> key a = k"
  shows "node_map key N' = m"
proof
  fix k
  show "node_map key N' k = m k" using node_map_iff [OF assms(2), of k] assms(3) [of k] by (metis not_Some_eq)
qed

lemma listed_insert:
  assumes "listed key nx N" and p: "p \<in> set N" "p \<noteq> TAIL" and "ekey key p < kpos (key n)" and "kpos (key n) < ekey key (nx p)"
    and n: "n \<noteq> HEAD" "n \<noteq> TAIL" "nx n = nx p"
  obtains N' where "listed key (nx(p := n)) N'" "set N' = insert n (set N)" "node_map key N' = (node_map key N)(key n \<mapsto> n)"
proof -
  obtain A B where N: "N = A @ p # nx p # B" by (rule listed_split [OF assms(1) p])
  let ?N = "A @ p # n # nx p # B"
  have abs: "node_map key N (key n) = None" by (rule listed_absent [OF assms(1) p assms(4,5)])
  have nN: "n \<notin> set N" using abs node_map_iff [OF assms(1), of "key n" n] n by auto
  have d: "distinct N" using listed_distinct [OF assms(1)] by simp
  have l: "linked nx (A @ [p])" "linked nx (nx p # B)" using assms(1) linked_append [of nx A p "nx p # B"] by (auto simp: listed_def N)
  have "linked (nx(p := n)) (A @ [p])" "linked (nx(p := n)) (nx p # B)"
    using l d by (auto intro!: linked_upd simp: N dest: in_set_butlastD)
  then have "linked (nx(p := n)) ?N" using linked_append [of "nx(p := n)" A p "n # nx p # B"] n(3) nN by (auto simp: N)
  moreover have "sorted_wrt (<) (map (ekey key) ?N)"
    using assms(1,4,5) by (auto simp: listed_def N sorted_wrt_append ekey_node [OF n(1,2)] intro: less_trans)
  moreover have "hd ?N = HEAD" "last ?N = TAIL" using assms(1) by (cases A; auto simp: listed_def N)+
  ultimately have L: "listed key (nx(p := n)) ?N" by (simp add: listed_def)
  show ?thesis
  proof (rule that [OF L])
    show "set ?N = insert n (set N)" by (auto simp: N)
    show "node_map key ?N = (node_map key N)(key n \<mapsto> n)"
    proof (rule node_map_eqI [OF assms(1) L])
      fix k a
      show "((node_map key N)(key n \<mapsto> n)) k = Some a \<longleftrightarrow> a \<in> set ?N \<and> a \<noteq> HEAD \<and> a \<noteq> TAIL \<and> key a = k"
        using node_map_iff [OF assms(1), of k a] abs n(1,2) by (auto simp: N)
    qed
  qed
qed

lemma listed_delete:
  assumes "listed key nx N" and p: "p \<in> set N" "p \<noteq> TAIL" and c: "nx p \<noteq> TAIL"
  obtains N' where "listed key (nx(p := nx (nx p))) N'" "set N' = set N - {nx p}" "node_map key N' = (node_map key N)(key (nx p) := None)"
proof -
  have cN: "nx p \<in> set N" "nx p \<noteq> HEAD" using listed_next [OF assms(1) p] by auto
  obtain A B where N: "N = A @ p # nx p # B" by (rule listed_split [OF assms(1) p])
  have d: "distinct N" using listed_distinct [OF assms(1)] by simp
  have "B \<noteq> []" using assms(1) c by (auto simp: listed_def N)
  then obtain e C where B: "B = e # C" by (cases B) auto
  have l: "linked nx (A @ [p])" "linked nx (e # C)" "nx (nx p) = e"
    using assms(1) linked_append [of nx A p "nx p # B"] by (auto simp: listed_def N B)
  let ?N = "A @ p # e # C"
  have "linked (nx(p := e)) (A @ [p])" "linked (nx(p := e)) (e # C)"
    using l d by (auto intro!: linked_upd simp: N B dest: in_set_butlastD)
  then have "linked (nx(p := e)) ?N" using linked_append [of "nx(p := e)" A p "e # C"] by auto
  moreover have "sorted_wrt (<) (map (ekey key) ?N)" using assms(1) by (auto simp: listed_def N B sorted_wrt_append)
  moreover have "hd ?N = HEAD" "last ?N = TAIL" using assms(1) by (cases A; auto simp: listed_def N B)+
  ultimately have L: "listed key (nx(p := nx (nx p))) ?N" by (simp add: listed_def l(3))
  have S: "set ?N = set N - {nx p}" using d by (auto simp: N B)
  show ?thesis
  proof (rule that [OF L S])
    show "node_map key ?N = (node_map key N)(key (nx p) := None)"
    proof (rule node_map_eqI [OF assms(1) L])
      fix k a
      show "((node_map key N)(key (nx p) := None)) k = Some a \<longleftrightarrow> a \<in> set ?N \<and> a \<noteq> HEAD \<and> a \<noteq> TAIL \<and> key a = k"
        unfolding S using node_map_iff [OF assms(1), of k a] listed_found [OF assms(1) p c refl] by auto
    qed
  qed
qed

end
