(* ===== verification/Listset_Fine.thy ===== *)
theory Listset_Fine
  imports Listset_Spec Ttaslock Transition
begin

text \<open>
  The list set with one TTAS lock per node, \<^verbatim>\<open>map/listset_fine.h\<close>. An operation walks the list hand over hand: it holds the lock of a
  node while it acquires the lock of the next one. One step is one access to a lock or a link, or the local test of the loop. The nodes are
  addresses; the sentinels of the set are \<open>HEAD\<close> and \<open>TAIL\<close>. The key of a node does not change.
\<close>

section \<open>Operations\<close>

record ls_mem =
  ls_lock :: "addr \<Rightarrow> ttaslock_t"
  ls_next :: "addr \<Rightarrow> addr"

definition ls_unlock :: "addr \<Rightarrow> ls_mem \<Rightarrow> ls_mem" where
  "ls_unlock a m = m\<lparr>ls_lock := (ls_lock m)(a := ttaslock_release (ls_lock m a))\<rparr>"

definition ls_link :: "addr \<Rightarrow> addr \<Rightarrow> ls_mem \<Rightarrow> ls_mem" where
  "ls_link a b m = m\<lparr>ls_next := (ls_next m)(a := b)\<rparr>"

definition vlistset_init_fine :: "ls_mem \<Rightarrow> ls_mem" where
  "vlistset_init_fine m = (let m = ls_link HEAD TAIL m in m\<lparr>ls_lock := (ls_lock m)(HEAD := ttaslock_init (ls_lock m HEAD), TAIL := ttaslock_init (ls_lock m TAIL))\<rparr>)"

text \<open>
  The walk that the three operations share: take the lock of the head, then go on while the key of \<open>cur\<close> is too small. The walk ends with
  \<open>pred\<close> and \<open>cur\<close> locked and the result of the comparison for equality.
\<close>

datatype walk_pc = WkHead ttas_acq_pc | WkNext addr | WkLock addr addr ttas_acq_pc | WkTest addr addr

fun ls_walk :: "(addr \<Rightarrow> key \<Rightarrow> int) \<Rightarrow> key \<Rightarrow> walk_pc \<Rightarrow> ls_mem \<Rightarrow> ((walk_pc + addr \<times> addr \<times> bool) \<times> ls_mem) option" where
  "ls_walk cmp k (WkHead pc) m =
     map_option (\<lambda>(pc', l). (Inl (if pc' = TtasReturn then WkNext HEAD else WkHead pc'), m\<lparr>ls_lock := (ls_lock m)(HEAD := l)\<rparr>)) (ttaslock_acquire pc (ls_lock m HEAD))"
| "ls_walk cmp k (WkNext pred) m = Some (Inl (WkLock pred (ls_next m pred) TtasAwait), m)"
| "ls_walk cmp k (WkLock pred cur pc) m =
     map_option (\<lambda>(pc', l). (Inl (if pc' = TtasReturn then WkTest pred cur else WkLock pred cur pc'), m\<lparr>ls_lock := (ls_lock m)(cur := l)\<rparr>)) (ttaslock_acquire pc (ls_lock m cur))"
| "ls_walk cmp k (WkTest pred cur) m =
     Some (if cur \<noteq> TAIL \<and> cmp cur k < 0 then (Inl (WkNext cur), ls_unlock pred m) else (Inr (pred, cur, cur \<noteq> TAIL \<and> cmp cur k = 0), m))"

datatype add_pc = AdWalk walk_pc | AdInit addr addr | AdNext addr addr | AdLink addr addr | AdFree2 addr addr bool | AdFree addr bool | AdDone bool

fun vlistset_add_fine :: "(addr \<Rightarrow> key \<Rightarrow> int) \<Rightarrow> key \<Rightarrow> addr \<Rightarrow> add_pc \<Rightarrow> ls_mem \<Rightarrow> (add_pc \<times> ls_mem) option" where
  "vlistset_add_fine cmp k node (AdWalk w) m =
     map_option (\<lambda>(r, m). (case r of Inl w \<Rightarrow> AdWalk w | Inr (pred, cur, eq) \<Rightarrow> if eq then AdFree2 pred cur False else AdInit pred cur, m)) (ls_walk cmp k w m)"
| "vlistset_add_fine cmp k node (AdInit pred cur) m = Some (AdNext pred cur, m\<lparr>ls_lock := (ls_lock m)(node := ttaslock_init (ls_lock m node))\<rparr>)"
| "vlistset_add_fine cmp k node (AdNext pred cur) m = Some (AdLink pred cur, ls_link node cur m)"
| "vlistset_add_fine cmp k node (AdLink pred cur) m = Some (AdFree2 pred cur True, ls_link pred node m)"
| "vlistset_add_fine cmp k node (AdFree2 pred cur r) m = Some (AdFree pred r, ls_unlock cur m)"
| "vlistset_add_fine cmp k node (AdFree pred r) m = Some (AdDone r, ls_unlock pred m)"
| "vlistset_add_fine cmp k node (AdDone r) m = None"

text \<open>\<open>RmRetire\<close> is the call of the retire handler.\<close>

datatype remove_pc = RmWalk walk_pc | RmNext addr addr | RmLink addr addr addr | RmFree2 addr addr bool | RmFree addr addr bool | RmRetire addr | RmDone bool

fun vlistset_remove_fine :: "(addr \<Rightarrow> key \<Rightarrow> int) \<Rightarrow> key \<Rightarrow> remove_pc \<Rightarrow> ls_mem \<Rightarrow> (remove_pc \<times> ls_mem) option" where
  "vlistset_remove_fine cmp k (RmWalk w) m =
     map_option (\<lambda>(r, m). (case r of Inl w \<Rightarrow> RmWalk w | Inr (pred, cur, eq) \<Rightarrow> if eq then RmNext pred cur else RmFree2 pred cur False, m)) (ls_walk cmp k w m)"
| "vlistset_remove_fine cmp k (RmNext pred cur) m = Some (RmLink pred cur (ls_next m cur), m)"
| "vlistset_remove_fine cmp k (RmLink pred cur nx) m = Some (RmFree2 pred cur True, ls_link pred nx m)"
| "vlistset_remove_fine cmp k (RmFree2 pred cur r) m = Some (RmFree pred cur r, ls_unlock cur m)"
| "vlistset_remove_fine cmp k (RmFree pred cur r) m = Some (if r then RmRetire cur else RmDone r, ls_unlock pred m)"
| "vlistset_remove_fine cmp k (RmRetire cur) m = Some (RmDone True, m)"
| "vlistset_remove_fine cmp k (RmDone r) m = None"

datatype get_pc = GtWalk walk_pc | GtFree2 addr addr bool | GtFree addr addr bool | GtDone "addr option"

fun vlistset_get_fine :: "(addr \<Rightarrow> key \<Rightarrow> int) \<Rightarrow> key \<Rightarrow> get_pc \<Rightarrow> ls_mem \<Rightarrow> (get_pc \<times> ls_mem) option" where
  "vlistset_get_fine cmp k (GtWalk w) m =
     map_option (\<lambda>(r, m). (case r of Inl w \<Rightarrow> GtWalk w | Inr (pred, cur, eq) \<Rightarrow> GtFree2 pred cur eq, m)) (ls_walk cmp k w m)"
| "vlistset_get_fine cmp k (GtFree2 pred cur found) m = Some (GtFree pred cur found, ls_unlock cur m)"
| "vlistset_get_fine cmp k (GtFree pred cur found) m = Some (GtDone (if found then Some cur else None), ls_unlock pred m)"
| "vlistset_get_fine cmp k (GtDone r) m = None"

text \<open>The visit of all nodes; it ends since the list does. \<open>vlistset_destroy\<close> is a visit with the retire handler.\<close>

partial_function (option) visit_loop_fine :: "(addr \<Rightarrow> addr) \<Rightarrow> addr \<Rightarrow> addr list option" where
  [code]: "visit_loop_fine nx cur = (if cur \<noteq> TAIL then Option.bind (visit_loop_fine nx (nx cur)) (\<lambda>r. Some (cur # r)) else Some [])"

definition vlistset_visit_fine :: "ls_mem \<Rightarrow> addr list option" where
  "vlistset_visit_fine m = visit_loop_fine (ls_next m) (ls_next m HEAD)"

definition vlistset_destroy_fine :: "ls_mem \<Rightarrow> addr list option" where
  "vlistset_destroy_fine m = vlistset_visit_fine m"

section \<open>Threads\<close>

text \<open>
  A node that is neither in the set nor passed to a call that is in progress belongs to the clients; only such a node may be passed to
  \<open>vlistset_add\<close>. It is returned to the clients by an \<open>vlistset_add\<close> that fails, and by the retire handler. The history records each call at its effect.
\<close>

datatype fl_pc = FlIdle | FlAdd key addr add_pc | FlRemove key remove_pc | FlGet key get_pc

datatype fl_cmd = FcAdd key addr | FcRemove key | FcGet key | FcRun

record fl_sys =
  fl_mem :: ls_mem
  fl_pcs :: "tid \<Rightarrow> fl_pc"
  fl_used :: "addr set"
  fl_hist :: "set_event list"

fun fl_call :: "(addr \<Rightarrow> key \<Rightarrow> int) \<Rightarrow> fl_pc \<Rightarrow> ls_mem \<Rightarrow> (fl_pc \<times> ls_mem) option" where
  "fl_call cmp (FlAdd k n pc) m = map_option (apfst (FlAdd k n)) (vlistset_add_fine cmp k n pc m)"
| "fl_call cmp (FlRemove k pc) m = map_option (apfst (FlRemove k)) (vlistset_remove_fine cmp k pc m)"
| "fl_call cmp (FlGet k pc) m = map_option (apfst (FlGet k)) (vlistset_get_fine cmp k pc m)"
| "fl_call cmp FlIdle m = None"

fun fl_walking :: "fl_pc \<Rightarrow> bool" where
  "fl_walking (FlAdd k n (AdWalk _)) = True" | "fl_walking (FlRemove k (RmWalk _)) = True" | "fl_walking (FlGet k (GtWalk _)) = True"
| "fl_walking _ = False"

fun fl_decided :: "fl_pc \<Rightarrow> set_event list" where
  "fl_decided (FlAdd k n (AdFree2 _ _ _)) = [SAdd k n False]" | "fl_decided (FlRemove k (RmFree2 _ _ _)) = [SRemove k False]"
| "fl_decided (FlGet k (GtFree2 _ cur r)) = [SGet k (if r then Some cur else None)]" | "fl_decided _ = []"

fun fl_effect :: "fl_pc \<Rightarrow> set_event list" where
  "fl_effect (FlAdd k n (AdLink _ _)) = [SAdd k n True]" | "fl_effect (FlRemove k (RmLink _ _ _)) = [SRemove k True]" | "fl_effect _ = []"

definition fl_log :: "fl_pc \<Rightarrow> fl_pc \<Rightarrow> set_event list" where
  "fl_log p p' = fl_effect p @ (if fl_walking p then fl_decided p' else [])"

fun fl_return :: "fl_pc \<Rightarrow> fl_pc" where
  "fl_return (FlAdd k n (AdDone r)) = FlIdle"
| "fl_return (FlRemove k (RmDone r)) = FlIdle"
| "fl_return (FlGet k (GtDone r)) = FlIdle"
| "fl_return p = p"

fun fl_give :: "fl_pc \<Rightarrow> addr set \<Rightarrow> addr set" where
  "fl_give (FlAdd k n (AdFree p False)) U = U - {n}"
| "fl_give (FlRemove k (RmRetire c)) U = U - {c}"
| "fl_give _ U = U"

definition fl_run :: "(addr \<Rightarrow> key \<Rightarrow> int) \<Rightarrow> fl_sys \<Rightarrow> tid \<Rightarrow> fl_sys option" where
  "fl_run cmp s t = map_option (\<lambda>(p', m). \<lparr>fl_mem = m, fl_pcs = (fl_pcs s)(t := fl_return p'), fl_used = fl_give (fl_pcs s t) (fl_used s),
     fl_hist = fl_hist s @ fl_log (fl_pcs s t) p'\<rparr>) (fl_call cmp (fl_pcs s t) (fl_mem s))"

abbreviation wk_start :: walk_pc where "wk_start \<equiv> WkHead TtasAwait"

fun fl_step :: "(addr \<Rightarrow> key \<Rightarrow> int) \<Rightarrow> tid \<times> fl_cmd \<Rightarrow> fl_sys \<Rightarrow> fl_sys option" where
  "fl_step cmp (t, FcAdd k n) s =
     (if fl_pcs s t = FlIdle \<and> n \<notin> fl_used s \<and> cmp n k = 0
      then Some (s\<lparr>fl_pcs := (fl_pcs s)(t := FlAdd k n (AdWalk wk_start)), fl_used := insert n (fl_used s)\<rparr>) else None)"
| "fl_step cmp (t, FcRemove k) s = (if fl_pcs s t = FlIdle then Some (s\<lparr>fl_pcs := (fl_pcs s)(t := FlRemove k (RmWalk wk_start))\<rparr>) else None)"
| "fl_step cmp (t, FcGet k) s = (if fl_pcs s t = FlIdle then Some (s\<lparr>fl_pcs := (fl_pcs s)(t := FlGet k (GtWalk wk_start))\<rparr>) else None)"
| "fl_step cmp (t, FcRun) s = fl_run cmp s t"

definition fl_start :: "ls_mem \<Rightarrow> fl_sys" where
  "fl_start m = \<lparr>fl_mem = vlistset_init_fine m, fl_pcs = (\<lambda>_. FlIdle), fl_used = {HEAD, TAIL}, fl_hist = []\<rparr>"

section \<open>The invariant\<close>

text \<open>The nodes whose locks a call holds, and the nodes outside of the list that belong to it.\<close>

fun walk_held :: "walk_pc \<Rightarrow> addr set" where
  "walk_held (WkHead _) = {}" | "walk_held (WkNext p) = {p}" | "walk_held (WkLock p c _) = {p}" | "walk_held (WkTest p c) = {p, c}"

fun fl_held :: "fl_pc \<Rightarrow> addr set" where
  "fl_held (FlAdd k n (AdWalk w)) = walk_held w" | "fl_held (FlAdd k n (AdInit p c)) = {p, c}" | "fl_held (FlAdd k n (AdNext p c)) = {p, c}"
| "fl_held (FlAdd k n (AdLink p c)) = {p, c}" | "fl_held (FlAdd k n (AdFree2 p c r)) = {p, c}" | "fl_held (FlAdd k n (AdFree p r)) = {p}"
| "fl_held (FlRemove k (RmWalk w)) = walk_held w" | "fl_held (FlRemove k (RmNext p c)) = {p, c}" | "fl_held (FlRemove k (RmLink p c x)) = {p, c}"
| "fl_held (FlRemove k (RmFree2 p c r)) = {p, c}" | "fl_held (FlRemove k (RmFree p c r)) = {p}"
| "fl_held (FlGet k (GtWalk w)) = walk_held w" | "fl_held (FlGet k (GtFree2 p c r)) = {p, c}" | "fl_held (FlGet k (GtFree p c r)) = {p}"
| "fl_held _ = {}"

fun fl_own :: "fl_pc \<Rightarrow> addr set" where
  "fl_own (FlAdd k n (AdFree2 p c r)) = (if r then {} else {n})" | "fl_own (FlAdd k n (AdFree p r)) = (if r then {} else {n})"
| "fl_own (FlAdd k n (AdDone r)) = {}" | "fl_own (FlAdd k n _) = {n}"
| "fl_own (FlRemove k (RmFree2 p c r)) = (if r then {c} else {})" | "fl_own (FlRemove k (RmFree p c r)) = (if r then {c} else {})"
| "fl_own (FlRemove k (RmRetire c)) = {c}" | "fl_own _ = {}"

definition at_gap :: "(addr \<Rightarrow> key) \<Rightarrow> addr list \<Rightarrow> (addr \<Rightarrow> addr) \<Rightarrow> key \<Rightarrow> addr \<Rightarrow> addr \<Rightarrow> bool" where
  "at_gap key N nx k p c \<longleftrightarrow> p \<in> set N \<and> p \<noteq> TAIL \<and> ekey key p < kpos k \<and> nx p = c"

fun walk_ok :: "(addr \<Rightarrow> key) \<Rightarrow> addr list \<Rightarrow> (addr \<Rightarrow> addr) \<Rightarrow> key \<Rightarrow> walk_pc \<Rightarrow> bool" where
  "walk_ok key N nx k (WkHead _) = True"
| "walk_ok key N nx k (WkNext p) = at_gap key N nx k p (nx p)"
| "walk_ok key N nx k (WkLock p c _) = at_gap key N nx k p c"
| "walk_ok key N nx k (WkTest p c) = at_gap key N nx k p c"

fun fl_ok :: "(addr \<Rightarrow> key) \<Rightarrow> addr list \<Rightarrow> ls_mem \<Rightarrow> fl_pc \<Rightarrow> bool" where
  "fl_ok key N m (FlAdd k n (AdWalk w)) \<longleftrightarrow> key n = k \<and> walk_ok key N (ls_next m) k w"
| "fl_ok key N m (FlAdd k n (AdInit p c)) \<longleftrightarrow> key n = k \<and> at_gap key N (ls_next m) k p c \<and> kpos k < ekey key c"
| "fl_ok key N m (FlAdd k n (AdNext p c)) \<longleftrightarrow> key n = k \<and> at_gap key N (ls_next m) k p c \<and> kpos k < ekey key c \<and> ttas_state (ls_lock m n) = 0"
| "fl_ok key N m (FlAdd k n (AdLink p c)) \<longleftrightarrow> key n = k \<and> at_gap key N (ls_next m) k p c \<and> kpos k < ekey key c \<and> ttas_state (ls_lock m n) = 0 \<and> ls_next m n = c"
| "fl_ok key N m (FlRemove k (RmWalk w)) \<longleftrightarrow> walk_ok key N (ls_next m) k w"
| "fl_ok key N m (FlRemove k (RmNext p c)) \<longleftrightarrow> at_gap key N (ls_next m) k p c \<and> c \<noteq> TAIL \<and> key c = k"
| "fl_ok key N m (FlRemove k (RmLink p c x)) \<longleftrightarrow> at_gap key N (ls_next m) k p c \<and> c \<noteq> TAIL \<and> key c = k \<and> ls_next m c = x"
| "fl_ok key N m (FlGet k (GtWalk w)) \<longleftrightarrow> walk_ok key N (ls_next m) k w"
| "fl_ok key N m (FlAdd k n (AdFree2 p c r)) \<longleftrightarrow> p \<noteq> c" | "fl_ok key N m (FlRemove k (RmFree2 p c r)) \<longleftrightarrow> p \<noteq> c" | "fl_ok key N m (FlGet k (GtFree2 p c r)) \<longleftrightarrow> p \<noteq> c"
| "fl_ok key N m _ \<longleftrightarrow> True"

definition fl_inv :: "(addr \<Rightarrow> key) \<Rightarrow> fl_sys \<Rightarrow> addr list \<Rightarrow> bool" where
  "fl_inv key s N \<longleftrightarrow> listed key (ls_next (fl_mem s)) N \<and> (\<forall>t. fl_ok key N (fl_mem s) (fl_pcs s t)) \<and>
     (\<forall>t. \<forall>a \<in> fl_held (fl_pcs s t). ttas_state (ls_lock (fl_mem s) a) = 1 \<and> (a \<in> set N \<or> a \<in> fl_own (fl_pcs s t))) \<and>
     (\<forall>a \<in> set N. (\<forall>t. a \<notin> fl_held (fl_pcs s t)) \<longrightarrow> ttas_state (ls_lock (fl_mem s) a) = 0) \<and>
     (\<forall>t u a. a \<in> fl_held (fl_pcs s t) \<longrightarrow> a \<in> fl_held (fl_pcs s u) \<longrightarrow> t = u) \<and>
     (\<forall>t. \<forall>a \<in> fl_own (fl_pcs s t). a \<notin> set N \<and> a \<in> fl_used s) \<and>
     (\<forall>t u a. a \<in> fl_own (fl_pcs s t) \<longrightarrow> a \<in> fl_own (fl_pcs s u) \<longrightarrow> t = u) \<and>
     set N \<subseteq> fl_used s \<and> set_replay (fl_hist s) Map.empty = Some (node_map key N)"

lemma fl_invD:
  assumes "fl_inv key s N"
  shows "listed key (ls_next (fl_mem s)) N" "fl_ok key N (fl_mem s) (fl_pcs s t)"
    "a \<in> fl_held (fl_pcs s t) \<Longrightarrow> ttas_state (ls_lock (fl_mem s) a) = 1" "a \<in> fl_held (fl_pcs s t) \<Longrightarrow> a \<in> set N \<or> a \<in> fl_own (fl_pcs s t)"
    "a \<in> set N \<Longrightarrow> (\<And>t. a \<notin> fl_held (fl_pcs s t)) \<Longrightarrow> ttas_state (ls_lock (fl_mem s) a) = 0"
    "a \<in> fl_held (fl_pcs s t) \<Longrightarrow> a \<in> fl_held (fl_pcs s u) \<Longrightarrow> t = u"
    "a \<in> fl_own (fl_pcs s t) \<Longrightarrow> a \<notin> set N" "a \<in> fl_own (fl_pcs s t) \<Longrightarrow> a \<in> fl_used s"
    "a \<in> fl_own (fl_pcs s t) \<Longrightarrow> a \<in> fl_own (fl_pcs s u) \<Longrightarrow> t = u"
    "set N \<subseteq> fl_used s" "set_replay (fl_hist s) Map.empty = Some (node_map key N)"
  using assms unfolding fl_inv_def by blast+

lemma fl_ok_frame:
  assumes "fl_ok key N m p" and "\<And>a. a \<in> fl_held p \<Longrightarrow> ls_next m' a = ls_next m a \<and> (a \<in> set N \<longrightarrow> a \<in> set N')"
    and "\<And>a. a \<in> fl_own p \<Longrightarrow> ls_next m' a = ls_next m a \<and> ls_lock m' a = ls_lock m a"
  shows "fl_ok key N' m' p"
proof -
  have w: "walk_ok key N' (ls_next m') k w" if "walk_ok key N (ls_next m) k w" "\<And>a. a \<in> walk_held w \<Longrightarrow> ls_next m' a = ls_next m a \<and> (a \<in> set N \<longrightarrow> a \<in> set N')" for k w
    using that by (cases w) (auto simp: at_gap_def)
  show ?thesis
  proof (cases p)
    case (FlAdd k n pc)
    show ?thesis
    proof (cases pc)
      case (AdWalk v)
      then show ?thesis using assms(1,2) w [of k v] FlAdd by simp
    qed (use assms FlAdd in \<open>auto simp: at_gap_def\<close>)
  next
    case (FlRemove k pc)
    show ?thesis
    proof (cases pc)
      case (RmWalk v)
      then show ?thesis using assms(1,2) w [of k v] FlRemove by simp
    qed (use assms FlRemove in \<open>auto simp: at_gap_def\<close>)
  next
    case (FlGet k pc)
    show ?thesis
    proof (cases pc)
      case (GtWalk v)
      then show ?thesis using assms(1,2) w [of k v] FlGet by simp
    qed (use assms FlGet in \<open>auto simp: at_gap_def\<close>)
  qed simp
qed

text \<open>Thread \<open>t\<close> moves to \<open>p\<close> and leaves the memory \<open>m\<close>, the list \<open>N'\<close> and the used nodes \<open>U\<close>.\<close>

lemma fl_move:
  assumes I: "fl_inv key s N" and L: "listed key (ls_next m) N'" and ok: "fl_ok key N' m p"
    and held: "\<And>u a. u \<noteq> t \<Longrightarrow> a \<in> fl_held (fl_pcs s u) \<Longrightarrow> ls_next m a = ls_next (fl_mem s) a \<and> ls_lock m a = ls_lock (fl_mem s) a \<and> a \<notin> fl_held p \<and> (a \<in> set N \<longrightarrow> a \<in> set N')"
    and own: "\<And>u a. u \<noteq> t \<Longrightarrow> a \<in> fl_own (fl_pcs s u) \<Longrightarrow> ls_next m a = ls_next (fl_mem s) a \<and> ls_lock m a = ls_lock (fl_mem s) a \<and> a \<notin> set N' \<and> a \<notin> fl_own p \<and> a \<in> U"
    and lk: "\<And>a. a \<in> fl_held p \<Longrightarrow> ttas_state (ls_lock m a) = 1 \<and> (a \<in> set N' \<or> a \<in> fl_own p)"
    and free: "\<And>a. a \<in> set N' \<Longrightarrow> a \<notin> fl_held p \<Longrightarrow> (\<And>u. u \<noteq> t \<Longrightarrow> a \<notin> fl_held (fl_pcs s u)) \<Longrightarrow> ttas_state (ls_lock m a) = 0"
    and mine: "\<And>a. a \<in> fl_own p \<Longrightarrow> a \<notin> set N' \<and> a \<in> U" and U: "set N' \<subseteq> U"
    and h: "Option.bind (Some (node_map key N)) (set_replay es) = Some (node_map key N')"
  shows "fl_inv key \<lparr>fl_mem = m, fl_pcs = (fl_pcs s)(t := p), fl_used = U, fl_hist = fl_hist s @ es\<rparr> N'"
proof -
  let ?P = "(fl_pcs s)(t := p)"
  have "fl_ok key N' m (?P u)" for u
    using ok fl_ok_frame [OF fl_invD(2) [OF I, of u], of m N'] held [of u] own [of u] by auto
  moreover have "ttas_state (ls_lock m a) = 1 \<and> (a \<in> set N' \<or> a \<in> fl_own (?P u))" if "a \<in> fl_held (?P u)" for u a
    using that lk held [of u a] fl_invD(3,4) [OF I, of a u] by (auto split: if_splits)
  moreover have "ttas_state (ls_lock m a) = 0" if a: "a \<in> set N'" "\<forall>u. a \<notin> fl_held (?P u)" for a
  proof (rule free [OF a(1)])
    show "a \<notin> fl_held p" using a(2) by (metis fun_upd_same)
    show "a \<notin> fl_held (fl_pcs s u)" if "u \<noteq> t" for u using a(2) that by (metis fun_upd_other)
  qed
  moreover have "u = v" if "a \<in> fl_held (?P u)" "a \<in> fl_held (?P v)" for u v a
    using that held [of u a] held [of v a] fl_invD(6) [OF I, of a u v] by (auto split: if_splits)
  moreover have "a \<notin> set N' \<and> a \<in> U" if "a \<in> fl_own (?P u)" for u a
    using that mine own [of u a] by (auto split: if_splits)
  moreover have "u = v" if "a \<in> fl_own (?P u)" "a \<in> fl_own (?P v)" for u v a
    using that own [of u a] own [of v a] fl_invD(9) [OF I, of a u v] by (auto split: if_splits)
  moreover have "set_replay (fl_hist s @ es) Map.empty = Some (node_map key N')"
    using h fl_invD(11) [OF I] by (simp add: set_replay_append)
  ultimately show ?thesis using L U unfolding fl_inv_def fl_sys.select_convs by blast
qed

section \<open>Moves\<close>

lemma listed_upd: "listed key nx N \<Longrightarrow> n \<notin> set N \<Longrightarrow> listed key (nx(n := v)) N"
  by (auto simp: listed_def intro!: linked_upd dest: in_set_butlastD)

lemma fl_local:
  assumes I: "fl_inv key s N" and ok: "fl_ok key N (fl_mem s) p" and "fl_held p = fl_held (fl_pcs s t)" and "fl_own p = fl_own (fl_pcs s t)"
    and h: "set_replay es (node_map key N) = Some (node_map key N)"
  shows "fl_inv key \<lparr>fl_mem = fl_mem s, fl_pcs = (fl_pcs s)(t := p), fl_used = fl_used s, fl_hist = fl_hist s @ es\<rparr> N"
proof (rule fl_move [OF I fl_invD(1) [OF I] ok], goal_cases)
  case (1 u a)
  then show ?case using fl_invD(6) [OF I, of a u t] assms(3) by auto
next
  case (2 u a)
  then show ?case using fl_invD(7,8) [OF I, of a u] fl_invD(9) [OF I, of a u t] assms(4) by auto
next
  case (3 a)
  then show ?case using fl_invD(3,4) [OF I, of a t] assms(3,4) by auto
next
  case (4 a)
  then show ?case using fl_invD(5) [OF I, of a] assms(3) by metis
next
  case (5 a)
  then show ?case using fl_invD(7,8) [OF I, of a t] assms(4) by auto
next
  case 6
  then show ?case by (rule fl_invD(10) [OF I])
next
  case 7
  then show ?case using h by simp
qed

lemma fl_acquire:
  assumes I: "fl_inv key s N" and a: "a \<in> set N" "ttas_state (ls_lock (fl_mem s) a) = 0" "ttas_state l = 1"
    and ok: "fl_ok key N (fl_mem s) p" and p: "fl_held p = insert a (fl_held (fl_pcs s t))" "fl_own p = fl_own (fl_pcs s t)"
  shows "fl_inv key \<lparr>fl_mem = (fl_mem s)\<lparr>ls_lock := (ls_lock (fl_mem s))(a := l)\<rparr>, fl_pcs = (fl_pcs s)(t := p), fl_used = fl_used s, fl_hist = fl_hist s @ []\<rparr> N"
proof -
  let ?m = "(fl_mem s)\<lparr>ls_lock := (ls_lock (fl_mem s))(a := l)\<rparr>"
  have free: "a \<notin> fl_held (fl_pcs s u)" for u using fl_invD(3) [OF I, of a u] a(2) by auto
  have no: "a \<notin> fl_own (fl_pcs s u)" for u using fl_invD(7) [OF I, of a u] a(1) by auto
  have ok': "fl_ok key N ?m p" by (rule fl_ok_frame [OF ok]) (use no p(2) in auto)
  have L: "listed key (ls_next ?m) N" using fl_invD(1) [OF I] by simp
  show ?thesis
  proof (rule fl_move [OF I L ok'], goal_cases)
    case (1 u b)
    then show ?case using fl_invD(6) [OF I, of b u t] p(1) free by auto
  next
    case (2 u b)
    then show ?case using fl_invD(7,8) [OF I, of b u] fl_invD(9) [OF I, of b u t] p(2) no by auto
  next
    case (3 b)
    then show ?case using fl_invD(3,4) [OF I, of b t] p a by auto
  next
    case (4 b)
    then show ?case using fl_invD(5) [OF I, of b] p(1) by (metis fun_upd_apply insertCI ls_mem.select_convs(1) ls_mem.surjective ls_mem.update_convs(1))
  next
    case (5 b)
    then show ?case using fl_invD(7,8) [OF I, of b t] p(2) by auto
  next
    case 6
    then show ?case by (rule fl_invD(10) [OF I])
  qed simp
qed

lemma fl_release:
  assumes I: "fl_inv key s N" and a: "a \<in> fl_held (fl_pcs s t)" and ok: "\<And>m. ls_next m = ls_next (fl_mem s) \<Longrightarrow> (\<And>n. n \<in> fl_own p \<Longrightarrow> n \<noteq> a \<Longrightarrow> ls_lock m n = ls_lock (fl_mem s) n) \<Longrightarrow> fl_ok key N m p"
    and p: "fl_held p = fl_held (fl_pcs s t) - {a}" "fl_own p \<subseteq> fl_own (fl_pcs s t)"
    and k: "\<And>b. b \<in> fl_held p \<Longrightarrow> b \<in> set N \<or> b \<in> fl_own p" and U: "U = fl_used s - (fl_own (fl_pcs s t) - fl_own p)"
  shows "fl_inv key \<lparr>fl_mem = ls_unlock a (fl_mem s), fl_pcs = (fl_pcs s)(t := p), fl_used = U, fl_hist = fl_hist s @ []\<rparr> N"
proof -
  let ?m = "ls_unlock a (fl_mem s)"
  have m: "ls_next ?m = ls_next (fl_mem s)" "ls_lock ?m b = (if b = a then ttaslock_release (ls_lock (fl_mem s) a) else ls_lock (fl_mem s) b)" for b
    by (auto simp: ls_unlock_def)
  have z: "ttas_state (ls_lock ?m a) = 0" by (simp add: m ttaslock_release_def vatomic_simps)
  have ok': "fl_ok key N ?m p" by (rule ok) (auto simp: m)
  have L: "listed key (ls_next ?m) N" using fl_invD(1) [OF I] by (simp add: m)
  show ?thesis
  proof (rule fl_move [OF I L ok'], goal_cases)
    case (1 u b)
    then show ?case using fl_invD(6) [OF I, of b u t] p(1) a by (auto simp: m)
  next
    case (2 u b)
    have "b \<noteq> a"
    proof
      assume "b = a"
      then have "a \<in> set N \<or> a \<in> fl_own (fl_pcs s t)" using fl_invD(4) [OF I a] by simp
      then show False using fl_invD(7) [OF I 2(2)] fl_invD(9) [OF I 2(2), of t] 2(1) \<open>b = a\<close> by auto
    qed
    then show ?case using fl_invD(7,8) [OF I, of b u] fl_invD(9) [OF I, of b u t] p(2) 2 U by (auto simp: m)
  next
    case (3 b)
    then show ?case using fl_invD(3) [OF I, of b t] p k by (auto simp: m)
  next
    case (4 b)
    show ?case
    proof (cases "b = a")
      case False
      have "b \<notin> fl_held (fl_pcs s u)" for u using 4(2,3) False p(1) by (cases "u = t") auto
      then show ?thesis using fl_invD(5) [OF I 4(1)] False by (simp add: m)
    qed (simp add: z)
  next
    case (5 b)
    then show ?case using fl_invD(7,8) [OF I, of b t] p(2) U by auto
  next
    case 6
    then show ?case using fl_invD(10) [OF I] fl_invD(7) [OF I, of _ t] U by auto
  qed simp
qed

lemma fl_own_write:
  assumes I: "fl_inv key s N" and n: "n \<in> fl_own (fl_pcs s t)" "n \<notin> fl_held p" and p: "fl_held p = fl_held (fl_pcs s t)" "fl_own p = fl_own (fl_pcs s t)"
    and m: "\<And>b. b \<noteq> n \<Longrightarrow> ls_next m b = ls_next (fl_mem s) b" "\<And>b. b \<noteq> n \<Longrightarrow> ls_lock m b = ls_lock (fl_mem s) b" and ok: "fl_ok key N m p"
  shows "fl_inv key \<lparr>fl_mem = m, fl_pcs = (fl_pcs s)(t := p), fl_used = fl_used s, fl_hist = fl_hist s @ []\<rparr> N"
proof -
  have nN: "n \<notin> set N" using fl_invD(7) [OF I n(1)] .
  have "ls_next m = (ls_next (fl_mem s))(n := ls_next m n)" using m(1) by auto
  then have L: "listed key (ls_next m) N" using listed_upd [OF fl_invD(1) [OF I] nN, of "ls_next m n"] by simp
  have nh: "n \<notin> fl_held (fl_pcs s u)" if "u \<noteq> t" for u
    using fl_invD(4) [OF I, of n u] nN fl_invD(9) [OF I n(1), of u] that by auto
  show ?thesis
  proof (rule fl_move [OF I L ok], goal_cases)
    case (1 u b)
    then show ?case using fl_invD(6) [OF I, of b u t] p(1) m nh by (cases "b = n") auto
  next
    case (2 u b)
    then show ?case using fl_invD(7,8) [OF I, of b u] fl_invD(9) [OF I, of b u t] p(2) m n(1) by (cases "b = n") auto
  next
    case (3 b)
    then show ?case using fl_invD(3,4) [OF I, of b t] p m(2) n(2) by (cases "b = n") auto
  next
    case (4 b)
    have "b \<notin> fl_held (fl_pcs s u)" for u using 4(2,3) p(1) by (cases "u = t") auto
    moreover have "b \<noteq> n" using 4(1) nN by auto
    ultimately show ?case using fl_invD(5) [OF I 4(1)] m(2) [of b] by simp
  next
    case (5 b)
    then show ?case using fl_invD(7,8) [OF I, of b t] p(2) by auto
  next
    case 6
    then show ?case by (rule fl_invD(10) [OF I])
  qed simp
qed

text \<open>The two writes that change the list: the caller holds the locks of both neighbours.\<close>

lemma fl_insert:
  assumes I: "fl_inv key s N" and p: "fl_pcs s t = FlAdd k n (AdLink p c)"
  shows "\<exists>N'. fl_inv key \<lparr>fl_mem = ls_link p n (fl_mem s), fl_pcs = (fl_pcs s)(t := FlAdd k n (AdFree2 p c True)), fl_used = fl_used s,
    fl_hist = fl_hist s @ [SAdd k n True]\<rparr> N'"
proof -
  let ?m = "ls_link p n (fl_mem s)"
  have K: "key n = k" "at_gap key N (ls_next (fl_mem s)) k p c" "kpos k < ekey key c" "ttas_state (ls_lock (fl_mem s) n) = 0" "ls_next (fl_mem s) n = c"
    using fl_invD(2) [OF I, of t] p by auto
  then have g: "p \<in> set N" "p \<noteq> TAIL" "ekey key p < kpos (key n)" "kpos (key n) < ekey key (ls_next (fl_mem s) p)" "ls_next (fl_mem s) n = ls_next (fl_mem s) p"
    by (auto simp: at_gap_def)
  have n: "n \<notin> set N" "n \<in> fl_used s" using fl_invD(7,8) [OF I, of n t] p by auto
  have c: "c \<in> set N" using listed_next [OF fl_invD(1) [OF I] g(1,2)] K(2) by (simp add: at_gap_def)
  have "n \<noteq> HEAD" "n \<noteq> TAIL" using n(1) fl_invD(1) [OF I] by (metis hd_in_set last_in_set listed_def)+
  from listed_insert [OF fl_invD(1) [OF I] g(1-4) this g(5)] obtain N' where N': "listed key ((ls_next (fl_mem s))(p := n)) N'"
    "set N' = insert n (set N)" "node_map key N' = (node_map key N)(key n \<mapsto> n)" by blast
  have nm: "node_map key N k = None" using listed_absent [OF fl_invD(1) [OF I] g(1-4)] K(1) by simp
  have m: "ls_next ?m = (ls_next (fl_mem s))(p := n)" "ls_lock ?m = ls_lock (fl_mem s)" by (auto simp: ls_link_def)
  have L: "listed key (ls_next ?m) N'" using N'(1) by (simp add: m)
  have pc: "p \<noteq> c" using g(3,4) K(2) by (auto simp: at_gap_def)
  have hp: "p \<in> fl_held (fl_pcs s t)" "c \<in> fl_held (fl_pcs s t)" using p by auto
  have nh: "n \<notin> fl_held (fl_pcs s u)" if "u \<noteq> t" for u
    using fl_invD(4) [OF I, of n u] n(1) fl_invD(9) [OF I, of n t u] that p by auto
  have "fl_inv key \<lparr>fl_mem = ?m, fl_pcs = (fl_pcs s)(t := FlAdd k n (AdFree2 p c True)), fl_used = fl_used s, fl_hist = fl_hist s @ [SAdd k n True]\<rparr> N'"
  proof (rule fl_move [OF I L], goal_cases)
    case 1
    then show ?case using pc by simp
  next
    case (2 u a)
    then show ?case using fl_invD(6) [OF I, of a u t] hp by (auto simp: m N'(2))
  next
    case (3 u a)
    then show ?case using fl_invD(7,8) [OF I, of a u] fl_invD(9) [OF I, of a u t] p g(1) by (auto simp: m N'(2))
  next
    case (4 a)
    then show ?case using fl_invD(3) [OF I, of a t] p g(1) c by (auto simp: m N'(2))
  next
    case (5 a)
    have "a \<notin> fl_held (fl_pcs s u)" for u using 5(2,3) p by (cases "u = t") auto
    then show ?case using fl_invD(5) [OF I, of a] 5(1) K(4) by (auto simp: m N'(2))
  next
    case (6 a)
    then show ?case by simp
  next
    case 7
    then show ?case using fl_invD(10) [OF I] n(2) by (simp add: N'(2))
  next
    case 8
    then show ?case using nm K(1) by (simp add: N'(3))
  qed
  then show ?thesis by blast
qed

lemma fl_delete:
  assumes I: "fl_inv key s N" and p: "fl_pcs s t = FlRemove k (RmLink p c x)"
  shows "\<exists>N'. fl_inv key \<lparr>fl_mem = ls_link p x (fl_mem s), fl_pcs = (fl_pcs s)(t := FlRemove k (RmFree2 p c True)), fl_used = fl_used s,
    fl_hist = fl_hist s @ [SRemove k True]\<rparr> N'"
proof -
  let ?m = "ls_link p x (fl_mem s)"
  have K: "at_gap key N (ls_next (fl_mem s)) k p c" "c \<noteq> TAIL" "key c = k" "ls_next (fl_mem s) c = x"
    using fl_invD(2) [OF I, of t] p by auto
  then have g: "p \<in> set N" "p \<noteq> TAIL" "ls_next (fl_mem s) p = c" "ekey key p < kpos k" by (auto simp: at_gap_def)
  have c: "c \<in> set N" "c \<noteq> HEAD" using listed_next [OF fl_invD(1) [OF I] g(1,2)] g(3) by auto
  from listed_delete [OF fl_invD(1) [OF I] g(1,2)] K(2) g(3) obtain N' where N': "listed key ((ls_next (fl_mem s))(p := x)) N'"
    "set N' = set N - {c}" "node_map key N' = (node_map key N)(k := None)" using K(3,4) by metis
  have nm: "node_map key N k = Some c" using listed_found [OF fl_invD(1) [OF I] g(1,2), of k] K g(3) by simp
  have m: "ls_next ?m = (ls_next (fl_mem s))(p := x)" "ls_lock ?m = ls_lock (fl_mem s)" by (auto simp: ls_link_def)
  have L: "listed key (ls_next ?m) N'" using N'(1) by (simp add: m)
  have pc: "p \<noteq> c" using g(4) K(3) c(2) K(2) by (auto simp: ekey_node)
  have hp: "p \<in> fl_held (fl_pcs s t)" "c \<in> fl_held (fl_pcs s t)" using p by auto
  have "fl_inv key \<lparr>fl_mem = ?m, fl_pcs = (fl_pcs s)(t := FlRemove k (RmFree2 p c True)), fl_used = fl_used s, fl_hist = fl_hist s @ [SRemove k True]\<rparr> N'"
  proof (rule fl_move [OF I L], goal_cases)
    case 1
    then show ?case using pc by simp
  next
    case (2 u a)
    then show ?case using fl_invD(6) [OF I, of a u t] hp by (auto simp: m N'(2))
  next
    case (3 u a)
    then show ?case using fl_invD(7,8) [OF I, of a u] g(1) c(1) by (auto simp: m N'(2))
  next
    case (4 a)
    then show ?case using fl_invD(3) [OF I, of a t] p g(1) pc by (auto simp: m N'(2))
  next
    case (5 a)
    have "a \<notin> fl_held (fl_pcs s u)" for u using 5(2,3) p by (cases "u = t") auto
    then show ?case using fl_invD(5) [OF I, of a] 5(1) by (auto simp: m N'(2))
  next
    case (6 a)
    then show ?case using c(1) fl_invD(10) [OF I] by (auto simp: N'(2))
  next
    case 7
    then show ?case using fl_invD(10) [OF I] by (auto simp: N'(2))
  next
    case 8
    then show ?case using nm by (simp add: N'(3))
  qed
  then show ?thesis by blast
qed

section \<open>Steps\<close>

lemma ttas_acquire_effect:
  assumes "ttaslock_acquire pc l = Some (pc', l')" and "ttas_state l = 0 \<or> ttas_state l = 1"
  shows "(pc' \<noteq> TtasReturn \<and> l' = l) \<or> (pc' = TtasReturn \<and> ttas_state l = 0 \<and> ttas_state l' = 1)"
  using assms by (cases pc) (auto simp: vatomic_simps split: if_splits)

lemma fl_lock_value: "fl_inv key s N \<Longrightarrow> a \<in> set N \<Longrightarrow> ttas_state (ls_lock (fl_mem s) a) = 0 \<or> ttas_state (ls_lock (fl_mem s) a) = 1"
  using fl_invD(3,5) by metis

lemma fl_mem_same: "m\<lparr>ls_lock := (ls_lock m)(a := ls_lock m a)\<rparr> = (m :: ls_mem)"
  by simp

lemma fl_walk:
  assumes I: "fl_inv key s N" and cmp: "cmp_ok cmp key" and pc: "fl_pcs s t = C w"
    and C: "\<And>w. fl_held (C w) = walk_held w" "\<And>w. fl_own (C w) = Own" "\<And>w N m. fl_ok key N m (C w) \<longleftrightarrow> Q \<and> walk_ok key N (ls_next m) k w"
    and step: "ls_walk cmp k w (fl_mem s) = Some (r, m)"
  shows "(\<exists>w'. r = Inl w' \<and> fl_inv key \<lparr>fl_mem = m, fl_pcs = (fl_pcs s)(t := C w'), fl_used = fl_used s, fl_hist = fl_hist s @ []\<rparr> N) \<or>
    (\<exists>p c. r = Inr (p, c, c \<noteq> TAIL \<and> key c = k) \<and> w = WkTest p c \<and> m = fl_mem s \<and> at_gap key N (ls_next (fl_mem s)) k p c \<and>
       (\<not> (c \<noteq> TAIL \<and> key c = k) \<longrightarrow> kpos k < ekey key c))"
proof -
  let ?nx = "ls_next (fl_mem s)"
  have L: "listed key ?nx N" by (rule fl_invD(1) [OF I])
  have W: "Q" "walk_ok key N ?nx k w" using fl_invD(2) [OF I, of t] pc C(3) by simp_all
  have head: "HEAD \<in> set N" using L by (metis hd_in_set listed_def)
  show ?thesis
  proof (cases w)
    case (WkHead a)
    then obtain a' l where a: "ttaslock_acquire a (ls_lock (fl_mem s) HEAD) = Some (a', l)"
      "r = Inl (if a' = TtasReturn then WkNext HEAD else WkHead a')" "m = (fl_mem s)\<lparr>ls_lock := (ls_lock (fl_mem s))(HEAD := l)\<rparr>" using step by auto
    from ttas_acquire_effect [OF a(1) fl_lock_value [OF I head]] show ?thesis
    proof (elim disjE conjE)
      assume "a' \<noteq> TtasReturn" "l = ls_lock (fl_mem s) HEAD"
      then show ?thesis using a fl_local [OF I, of "C (WkHead a')" t "[]"] W pc WkHead C by (simp add: fl_mem_same)
    next
      assume l: "a' = TtasReturn" "ttas_state (ls_lock (fl_mem s) HEAD) = 0" "ttas_state l = 1"
      have "fl_ok key N (fl_mem s) (C (WkNext HEAD))" using W head kpos_bounds [of k] by (simp add: C at_gap_def)
      from fl_acquire [OF I head l(2,3) this, of t] show ?thesis using a l(1) pc WkHead C by simp
    qed
  next
    case (WkNext p)
    then show ?thesis using step fl_local [OF I, of "C (WkLock p (?nx p) TtasAwait)" t "[]"] W pc C by auto
  next
    case (WkLock p c a)
    then have g: "at_gap key N ?nx k p c" using W by simp
    then have c: "c \<in> set N" using listed_next [OF L, of p] by (auto simp: at_gap_def)
    obtain a' l where a: "ttaslock_acquire a (ls_lock (fl_mem s) c) = Some (a', l)"
      "r = Inl (if a' = TtasReturn then WkTest p c else WkLock p c a')" "m = (fl_mem s)\<lparr>ls_lock := (ls_lock (fl_mem s))(c := l)\<rparr>" using step WkLock by auto
    from ttas_acquire_effect [OF a(1) fl_lock_value [OF I c]] show ?thesis
    proof (elim disjE conjE)
      assume "a' \<noteq> TtasReturn" "l = ls_lock (fl_mem s) c"
      then show ?thesis using a fl_local [OF I, of "C (WkLock p c a')" t "[]"] W pc WkLock C by (simp add: fl_mem_same)
    next
      assume l: "a' = TtasReturn" "ttas_state (ls_lock (fl_mem s) c) = 0" "ttas_state l = 1"
      have "fl_ok key N (fl_mem s) (C (WkTest p c))" using W g by (simp add: C)
      from fl_acquire [OF I c l(2,3) this, of t] show ?thesis using a l(1) pc WkLock C by (simp add: insert_commute)
    qed
  next
    case (WkTest p c)
    then have g: "at_gap key N ?nx k p c" using W by simp
    then have c: "c \<in> set N" "c \<noteq> HEAD" "p \<noteq> TAIL" "p \<in> set N" "?nx p = c" using listed_next [OF L, of p] by (auto simp: at_gap_def)
    have pc': "p \<noteq> c" using listed_distinct(1) [OF L] listed_split [OF L c(4,3)] c(5) by (metis distinct.simps(2) distinct_append list.set_intros(1))
    show ?thesis
    proof (cases "c \<noteq> TAIL \<and> cmp c k < 0")
      case True
      then have k: "ekey key c < kpos k" using cmp c(2) by (auto simp: cmp_ok_def ekey_node kpos_less split: if_splits)
      have "fl_ok key N m' (C (WkNext c))" if "ls_next m' = ?nx" for m' using W True c k that by (simp add: C at_gap_def)
      then have "fl_inv key \<lparr>fl_mem = ls_unlock p (fl_mem s), fl_pcs = (fl_pcs s)(t := C (WkNext c)), fl_used = fl_used s, fl_hist = fl_hist s @ []\<rparr> N"
        using pc WkTest C c pc' by (intro fl_release [OF I]) auto
      then show ?thesis using step True WkTest by auto
    next
      case False
      have "(c \<noteq> TAIL \<and> cmp c k = 0) = (c \<noteq> TAIL \<and> key c = k)" using cmp by (auto simp: cmp_ok_def)
      moreover have "kpos k < ekey key c" if "\<not> (c \<noteq> TAIL \<and> key c = k)"
        using that False cmp c(2) by (cases "c = TAIL") (auto simp: cmp_ok_def ekey_node kpos_less split: if_splits)
      ultimately show ?thesis using step False WkTest g by auto
    qed
  qed
qed

lemma at_gap_neq:
  assumes I: "fl_inv key s N" and "at_gap key N (ls_next (fl_mem s)) k p c"
  shows "p \<noteq> c" "p \<in> set N" "c \<in> set N" "c \<noteq> HEAD"
proof -
  have L: "listed key (ls_next (fl_mem s)) N" by (rule fl_invD(1) [OF I])
  have p: "p \<in> set N" "p \<noteq> TAIL" "ls_next (fl_mem s) p = c" using assms(2) by (auto simp: at_gap_def)
  obtain A B where "N = A @ p # ls_next (fl_mem s) p # B" by (rule listed_split [OF L p(1,2)])
  then show "p \<noteq> c" using listed_distinct(1) [OF L] p(3) by auto
  show "p \<in> set N" "c \<in> set N" "c \<noteq> HEAD" using listed_next [OF L p(1,2)] p by auto
qed

lemma fl_add_inv:
  assumes I: "fl_inv key s N" and cmp: "cmp_ok cmp key" and p: "fl_pcs s t = FlAdd k n pc" and st: "vlistset_add_fine cmp k n pc (fl_mem s) = Some (pc', m)"
  shows "\<exists>N'. fl_inv key \<lparr>fl_mem = m, fl_pcs = (fl_pcs s)(t := fl_return (FlAdd k n pc')), fl_used = fl_give (FlAdd k n pc) (fl_used s),
    fl_hist = fl_hist s @ fl_log (FlAdd k n pc) (FlAdd k n pc')\<rparr> N'"
proof -
  have K: "fl_ok key N (fl_mem s) (FlAdd k n pc)" using fl_invD(2) [OF I, of t] p by simp
  have n: "n \<notin> set N" if "n \<in> fl_own (FlAdd k n pc)" using fl_invD(7) [OF I, of n t] p that by simp
  show ?thesis
  proof (cases pc)
    case (AdWalk w)
    obtain r where r: "ls_walk cmp k w (fl_mem s) = Some (r, m)"
      "pc' = (case r of Inl w \<Rightarrow> AdWalk w | Inr (p, c, eq) \<Rightarrow> if eq then AdFree2 p c False else AdInit p c)" using st AdWalk by auto
    have "(\<exists>w'. r = Inl w' \<and> fl_inv key \<lparr>fl_mem = m, fl_pcs = (fl_pcs s)(t := FlAdd k n (AdWalk w')), fl_used = fl_used s, fl_hist = fl_hist s @ []\<rparr> N) \<or>
      (\<exists>p c. r = Inr (p, c, c \<noteq> TAIL \<and> key c = k) \<and> w = WkTest p c \<and> m = fl_mem s \<and> at_gap key N (ls_next (fl_mem s)) k p c \<and>
         (\<not> (c \<noteq> TAIL \<and> key c = k) \<longrightarrow> kpos k < ekey key c))"
      by (rule fl_walk [OF I cmp _ _ _ _ r(1), where C = "\<lambda>w. FlAdd k n (AdWalk w)" and Own = "{n}" and Q = "key n = k"]) (simp_all add: p AdWalk)
    then show ?thesis
    proof (elim disjE exE conjE)
      fix w' assume "r = Inl w'" and "fl_inv key \<lparr>fl_mem = m, fl_pcs = (fl_pcs s)(t := FlAdd k n (AdWalk w')), fl_used = fl_used s, fl_hist = fl_hist s @ []\<rparr> N"
      then show ?thesis using r AdWalk by (auto simp: fl_log_def)
    next
      fix a c assume e: "r = Inr (a, c, c \<noteq> TAIL \<and> key c = k)" "w = WkTest a c" "m = fl_mem s" and g: "at_gap key N (ls_next (fl_mem s)) k a c"
        and ne: "\<not> (c \<noteq> TAIL \<and> key c = k) \<longrightarrow> kpos k < ekey key c"
      show ?thesis
      proof (cases "c \<noteq> TAIL \<and> key c = k")
        case True
        then have "node_map key N k = Some c" using listed_found [OF fl_invD(1) [OF I], of a k] g by (auto simp: at_gap_def)
        then show ?thesis using fl_local [OF I, of "FlAdd k n (AdFree2 a c False)" t "[SAdd k n False]"] at_gap_neq [OF I g] p AdWalk e r True
          by (auto simp: fl_log_def)
      next
        case False
        then show ?thesis using fl_local [OF I, of "FlAdd k n (AdInit a c)" t "[]"] g ne K p AdWalk e r by (auto simp: fl_log_def)
      qed
    qed
  next
    case (AdInit a c)
    have "n \<notin> {a, c}" using n at_gap_neq(2,3) [OF I, of k a c] K AdInit by auto
    then show ?thesis using fl_own_write [OF I, of n t "FlAdd k n (AdNext a c)" m] st AdInit K p
      by (auto simp: fl_log_def ttaslock_init_def vatomic_simps)
  next
    case (AdNext a c)
    have "n \<notin> {a, c}" using n at_gap_neq(2,3) [OF I, of k a c] K AdNext by auto
    then show ?thesis using fl_own_write [OF I, of n t "FlAdd k n (AdLink a c)" m] st AdNext K p
      by (auto simp: fl_log_def ls_link_def at_gap_def)
  next
    case (AdLink a c)
    then show ?thesis using fl_insert [OF I, of t k n a c] p st by (auto simp: fl_log_def)
  next
    case (AdFree2 a c r)
    have "a \<in> set N \<or> a \<in> fl_own (fl_pcs s t)" using fl_invD(4) [OF I, of a t] p AdFree2 by simp
    then have "fl_inv key \<lparr>fl_mem = ls_unlock c (fl_mem s), fl_pcs = (fl_pcs s)(t := FlAdd k n (AdFree a r)), fl_used = fl_used s, fl_hist = fl_hist s @ []\<rparr> N"
      using p AdFree2 K by (intro fl_release [OF I]) auto
    then show ?thesis using st AdFree2 by (auto simp: fl_log_def)
  next
    case (AdFree a r)
    have "fl_inv key \<lparr>fl_mem = ls_unlock a (fl_mem s), fl_pcs = (fl_pcs s)(t := FlIdle), fl_used = fl_give (FlAdd k n pc) (fl_used s), fl_hist = fl_hist s @ []\<rparr> N"
      using p AdFree K by (intro fl_release [OF I]) (cases r; auto)+
    then show ?thesis using st AdFree by (auto simp: fl_log_def)
  next
    case (AdDone r)
    then show ?thesis using st by simp
  qed
qed

lemma fl_remove_inv:
  assumes I: "fl_inv key s N" and cmp: "cmp_ok cmp key" and p: "fl_pcs s t = FlRemove k pc" and st: "vlistset_remove_fine cmp k pc (fl_mem s) = Some (pc', m)"
  shows "\<exists>N'. fl_inv key \<lparr>fl_mem = m, fl_pcs = (fl_pcs s)(t := fl_return (FlRemove k pc')), fl_used = fl_give (FlRemove k pc) (fl_used s),
    fl_hist = fl_hist s @ fl_log (FlRemove k pc) (FlRemove k pc')\<rparr> N'"
proof -
  have K: "fl_ok key N (fl_mem s) (FlRemove k pc)" using fl_invD(2) [OF I, of t] p by simp
  show ?thesis
  proof (cases pc)
    case (RmWalk w)
    obtain r where r: "ls_walk cmp k w (fl_mem s) = Some (r, m)"
      "pc' = (case r of Inl w \<Rightarrow> RmWalk w | Inr (p, c, eq) \<Rightarrow> if eq then RmNext p c else RmFree2 p c False)" using st RmWalk by auto
    have "(\<exists>w'. r = Inl w' \<and> fl_inv key \<lparr>fl_mem = m, fl_pcs = (fl_pcs s)(t := FlRemove k (RmWalk w')), fl_used = fl_used s, fl_hist = fl_hist s @ []\<rparr> N) \<or>
      (\<exists>p c. r = Inr (p, c, c \<noteq> TAIL \<and> key c = k) \<and> w = WkTest p c \<and> m = fl_mem s \<and> at_gap key N (ls_next (fl_mem s)) k p c \<and>
         (\<not> (c \<noteq> TAIL \<and> key c = k) \<longrightarrow> kpos k < ekey key c))"
      by (rule fl_walk [OF I cmp _ _ _ _ r(1), where C = "\<lambda>w. FlRemove k (RmWalk w)" and Own = "{}" and Q = True]) (simp_all add: p RmWalk)
    then show ?thesis
    proof (elim disjE exE conjE)
      fix w' assume "r = Inl w'" and "fl_inv key \<lparr>fl_mem = m, fl_pcs = (fl_pcs s)(t := FlRemove k (RmWalk w')), fl_used = fl_used s, fl_hist = fl_hist s @ []\<rparr> N"
      then show ?thesis using r RmWalk by (auto simp: fl_log_def)
    next
      fix a c assume e: "r = Inr (a, c, c \<noteq> TAIL \<and> key c = k)" "w = WkTest a c" "m = fl_mem s" and g: "at_gap key N (ls_next (fl_mem s)) k a c"
        and ne: "\<not> (c \<noteq> TAIL \<and> key c = k) \<longrightarrow> kpos k < ekey key c"
      show ?thesis
      proof (cases "c \<noteq> TAIL \<and> key c = k")
        case True
        then show ?thesis using fl_local [OF I, of "FlRemove k (RmNext a c)" t "[]"] g p RmWalk e r by (auto simp: fl_log_def)
      next
        case False
        then have nm: "node_map key N k = None" using listed_absent [OF fl_invD(1) [OF I], of a k] g ne by (auto simp: at_gap_def)
        then have "set_replay [SRemove k False] (node_map key N) = Some (node_map key N)" by (simp add: fun_upd_idem)
        then show ?thesis using fl_local [OF I, of "FlRemove k (RmFree2 a c False)" t "[SRemove k False]"] at_gap_neq [OF I g] p RmWalk e r False
          by (auto simp: fl_log_def)
      qed
    qed
  next
    case (RmNext a c)
    then show ?thesis using fl_local [OF I, of "FlRemove k (RmLink a c (ls_next (fl_mem s) c))" t "[]"] st K p by (auto simp: fl_log_def)
  next
    case (RmLink a c x)
    then show ?thesis using fl_delete [OF I, of t k a c x] p st by (auto simp: fl_log_def)
  next
    case (RmFree2 a c r)
    have "a \<in> set N \<or> a \<in> fl_own (fl_pcs s t)" using fl_invD(4) [OF I, of a t] p RmFree2 by simp
    then have "fl_inv key \<lparr>fl_mem = ls_unlock c (fl_mem s), fl_pcs = (fl_pcs s)(t := FlRemove k (RmFree a c r)), fl_used = fl_used s, fl_hist = fl_hist s @ []\<rparr> N"
      using p RmFree2 K by (intro fl_release [OF I]) auto
    then show ?thesis using st RmFree2 by (auto simp: fl_log_def)
  next
    case (RmFree a c r)
    have "fl_inv key \<lparr>fl_mem = ls_unlock a (fl_mem s), fl_pcs = (fl_pcs s)(t := fl_return (FlRemove k pc')), fl_used = fl_used s, fl_hist = fl_hist s @ []\<rparr> N"
      using p RmFree K st by (intro fl_release [OF I]) (cases r; auto)+
    then show ?thesis using st RmFree by (auto simp: fl_log_def)
  next
    case (RmRetire c)
    have "fl_inv key \<lparr>fl_mem = fl_mem s, fl_pcs = (fl_pcs s)(t := FlIdle), fl_used = fl_used s - {c}, fl_hist = fl_hist s @ []\<rparr> N"
    proof (rule fl_move [OF I fl_invD(1) [OF I]], goal_cases)
      case (3 u a)
      then show ?case using fl_invD(7,8) [OF I, of a u] fl_invD(9) [OF I, of a u t] p RmRetire by auto
    next
      case (5 a)
      have "a \<notin> fl_held (fl_pcs s u)" for u using 5(3) p RmRetire by (cases "u = t") auto
      then show ?case using fl_invD(5) [OF I 5(1)] by simp
    next
      case 7
      then show ?case using fl_invD(10) [OF I] fl_invD(7) [OF I, of c t] p RmRetire by auto
    qed simp_all
    then show ?thesis using st RmRetire by (auto simp: fl_log_def)
  next
    case (RmDone r)
    then show ?thesis using st by simp
  qed
qed

lemma fl_get_inv:
  assumes I: "fl_inv key s N" and cmp: "cmp_ok cmp key" and p: "fl_pcs s t = FlGet k pc" and st: "vlistset_get_fine cmp k pc (fl_mem s) = Some (pc', m)"
  shows "\<exists>N'. fl_inv key \<lparr>fl_mem = m, fl_pcs = (fl_pcs s)(t := fl_return (FlGet k pc')), fl_used = fl_give (FlGet k pc) (fl_used s),
    fl_hist = fl_hist s @ fl_log (FlGet k pc) (FlGet k pc')\<rparr> N'"
proof -
  have K: "fl_ok key N (fl_mem s) (FlGet k pc)" using fl_invD(2) [OF I, of t] p by simp
  show ?thesis
  proof (cases pc)
    case (GtWalk w)
    obtain r where r: "ls_walk cmp k w (fl_mem s) = Some (r, m)"
      "pc' = (case r of Inl w \<Rightarrow> GtWalk w | Inr (p, c, eq) \<Rightarrow> GtFree2 p c eq)" using st GtWalk by auto
    have "(\<exists>w'. r = Inl w' \<and> fl_inv key \<lparr>fl_mem = m, fl_pcs = (fl_pcs s)(t := FlGet k (GtWalk w')), fl_used = fl_used s, fl_hist = fl_hist s @ []\<rparr> N) \<or>
      (\<exists>p c. r = Inr (p, c, c \<noteq> TAIL \<and> key c = k) \<and> w = WkTest p c \<and> m = fl_mem s \<and> at_gap key N (ls_next (fl_mem s)) k p c \<and>
         (\<not> (c \<noteq> TAIL \<and> key c = k) \<longrightarrow> kpos k < ekey key c))"
      by (rule fl_walk [OF I cmp _ _ _ _ r(1), where C = "\<lambda>w. FlGet k (GtWalk w)" and Own = "{}" and Q = True]) (simp_all add: p GtWalk)
    then show ?thesis
    proof (elim disjE exE conjE)
      fix w' assume "r = Inl w'" and "fl_inv key \<lparr>fl_mem = m, fl_pcs = (fl_pcs s)(t := FlGet k (GtWalk w')), fl_used = fl_used s, fl_hist = fl_hist s @ []\<rparr> N"
      then show ?thesis using r GtWalk by (auto simp: fl_log_def)
    next
      fix a c assume e: "r = Inr (a, c, c \<noteq> TAIL \<and> key c = k)" "w = WkTest a c" "m = fl_mem s" and g: "at_gap key N (ls_next (fl_mem s)) k a c"
        and ne: "\<not> (c \<noteq> TAIL \<and> key c = k) \<longrightarrow> kpos k < ekey key c"
      have "node_map key N k = (if c \<noteq> TAIL \<and> key c = k then Some c else None)"
        using listed_found [OF fl_invD(1) [OF I], of a k] listed_absent [OF fl_invD(1) [OF I], of a k] g ne by (auto simp: at_gap_def)
      then show ?thesis using fl_local [OF I, of "FlGet k (GtFree2 a c (c \<noteq> TAIL \<and> key c = k))" t "[SGet k (if c \<noteq> TAIL \<and> key c = k then Some c else None)]"]
          at_gap_neq [OF I g] p GtWalk e r by (auto simp: fl_log_def)
    qed
  next
    case (GtFree2 a c r)
    have "a \<in> set N \<or> a \<in> fl_own (fl_pcs s t)" using fl_invD(4) [OF I, of a t] p GtFree2 by simp
    then have "fl_inv key \<lparr>fl_mem = ls_unlock c (fl_mem s), fl_pcs = (fl_pcs s)(t := FlGet k (GtFree a c r)), fl_used = fl_used s, fl_hist = fl_hist s @ []\<rparr> N"
      using p GtFree2 K by (intro fl_release [OF I]) auto
    then show ?thesis using st GtFree2 by (auto simp: fl_log_def)
  next
    case (GtFree a c r)
    have "fl_inv key \<lparr>fl_mem = ls_unlock a (fl_mem s), fl_pcs = (fl_pcs s)(t := FlIdle), fl_used = fl_used s, fl_hist = fl_hist s @ []\<rparr> N"
      using p GtFree K by (intro fl_release [OF I]) auto
    then show ?thesis using st GtFree by (auto simp: fl_log_def)
  next
    case (GtDone r)
    then show ?thesis using st by simp
  qed
qed

lemma option_ext: "(\<And>a. x = Some a \<longleftrightarrow> y = Some a) \<Longrightarrow> x = y"
  by (cases x; cases y) auto

section \<open>Linearizability\<close>

lemma fl_begin_inv:
  assumes I: "fl_inv key s N" and i: "fl_pcs s t = FlIdle" and p: "fl_held p = {}" "fl_own p \<subseteq> A" "fl_ok key N (fl_mem s) p" and A: "A \<inter> fl_used s = {}"
  shows "fl_inv key \<lparr>fl_mem = fl_mem s, fl_pcs = (fl_pcs s)(t := p), fl_used = A \<union> fl_used s, fl_hist = fl_hist s @ []\<rparr> N"
proof (rule fl_move [OF I fl_invD(1) [OF I] p(3)], goal_cases)
  case (2 u a)
  then show ?case using fl_invD(7,8) [OF I, of a u] p(2) A by auto
next
  case (4 a)
  have "a \<notin> fl_held (fl_pcs s u)" for u using 4(3) i by (cases "u = t") auto
  then show ?case using fl_invD(5) [OF I 4(1)] by simp
next
  case (5 a)
  then show ?case using p(2) A fl_invD(10) [OF I] by auto
next
  case 6
  then show ?case using fl_invD(10) [OF I] by auto
qed (simp_all add: p)

lemma fl_called:
  "s\<lparr>fl_pcs := P, fl_used := U\<rparr> = \<lparr>fl_mem = fl_mem s, fl_pcs = P, fl_used = U, fl_hist = fl_hist s @ []\<rparr>"
  "s\<lparr>fl_pcs := P\<rparr> = \<lparr>fl_mem = fl_mem s, fl_pcs = P, fl_used = fl_used s, fl_hist = fl_hist s @ []\<rparr>" for s :: fl_sys
  by simp_all

lemma fl_step_inv:
  assumes I: "fl_inv key s N" and cmp: "cmp_ok cmp key" and st: "fl_step cmp (t, cmd) s = Some s'"
  shows "\<exists>N'. fl_inv key s' N'"
proof (cases cmd)
  case (FcAdd k n)
  then have c: "fl_pcs s t = FlIdle" "n \<notin> fl_used s" "cmp n k = 0"
    "s' = s\<lparr>fl_pcs := (fl_pcs s)(t := FlAdd k n (AdWalk wk_start)), fl_used := insert n (fl_used s)\<rparr>" using st by (auto split: if_splits)
  have "key n = k" using c(3) cmp by (auto simp: cmp_ok_def split: if_splits)
  then show ?thesis unfolding c(4) fl_called using fl_begin_inv [OF I c(1), of "FlAdd k n (AdWalk wk_start)" "{n}"] c(2) by auto
next
  case (FcRemove k)
  then show ?thesis using st fl_begin_inv [OF I, of t "FlRemove k (RmWalk wk_start)" "{}"] by (auto simp: fl_called split: if_splits)
next
  case (FcGet k)
  then show ?thesis using st fl_begin_inv [OF I, of t "FlGet k (GtWalk wk_start)" "{}"] by (auto simp: fl_called split: if_splits)
next
  case FcRun
  then have r: "fl_run cmp s t = Some s'" using st by simp
  show ?thesis
  proof (cases "fl_pcs s t")
    case (FlAdd k n pc)
    then show ?thesis using r fl_add_inv [OF I cmp FlAdd] by (auto simp: fl_run_def simp del: fl_give.simps fl_return.simps)
  next
    case (FlRemove k pc)
    then show ?thesis using r fl_remove_inv [OF I cmp FlRemove] by (auto simp: fl_run_def simp del: fl_give.simps fl_return.simps)
  next
    case (FlGet k pc)
    then show ?thesis using r fl_get_inv [OF I cmp FlGet] by (auto simp: fl_run_def simp del: fl_give.simps fl_return.simps)
  qed (use r in \<open>simp add: fl_run_def\<close>)
qed

lemma fl_inv_start: "fl_inv key (fl_start m) [HEAD, TAIL]"
  by (auto simp: fl_inv_def fl_start_def vlistset_init_fine_def ls_link_def listed_def node_map_def ttaslock_init_def vatomic_simps ekey_def Let_def fun_eq_iff)

lemma fl_reach_inv:
  assumes "cmp_ok cmp key" and "reach (fl_step cmp) (fl_start m) s"
  shows "\<exists>N. fl_inv key s N"
  using assms(2)
proof (induction rule: reach.induct)
  case reach_init
  show ?case using fl_inv_start by blast
next
  case (reach_step u a v)
  then show ?case using fl_step_inv [OF _ assms(1)] by (cases a) blast
qed

lemma visit_linked:
  assumes "linked nx (c # xs @ [TAIL])" and "TAIL \<notin> set (c # xs)"
  shows "visit_loop_fine nx c = Some (c # xs)"
  using assms
proof (induction xs arbitrary: c)
  case Nil
  then show ?case by (subst visit_loop_fine.simps, subst visit_loop_fine.simps) simp
next
  case (Cons d xs)
  then show ?case by (subst visit_loop_fine.simps) simp
qed

lemma visit_listed:
  assumes "listed key nx N"
  obtains xs where "visit_loop_fine nx (nx HEAD) = Some xs" "sorted_wrt (<) (map key xs)" "node_map key N = map_of (map (\<lambda>a. (key a, a)) xs)"
proof -
  obtain xs where N: "N = HEAD # xs @ [TAIL]"
  proof -
    obtain ys where ys: "N = HEAD # ys" using assms by (cases N) (auto simp: listed_def)
    moreover have "ys \<noteq> []" "last ys = TAIL" using assms ys by (auto simp: listed_def split: if_splits)
    ultimately show ?thesis using that [of "butlast ys"] by (metis append_butlast_last_id)
  qed
  have d: "distinct N" "sorted_wrt (<) (map (ekey key) N)" using assms listed_distinct(1) [OF assms] by (auto simp: listed_def)
  have l: "linked nx (HEAD # xs @ [TAIL])" using assms by (simp add: listed_def N)
  have "visit_loop_fine nx (nx HEAD) = Some xs"
  proof (cases xs)
    case Nil
    then show ?thesis using l by (subst visit_loop_fine.simps) simp
  next
    case (Cons a ys)
    then show ?thesis using l visit_linked [of nx a ys] d(1) by (auto simp: N)
  qed
  moreover have x: "a \<noteq> HEAD" "a \<noteq> TAIL" if "a \<in> set xs" for a using that d(1) by (auto simp: N)
  have s: "sorted_wrt (\<lambda>a b. ekey key a < ekey key b) xs" using d(2) by (simp add: N sorted_wrt_append sorted_wrt_map)
  then have "sorted_wrt (<) (map key xs)"
    unfolding sorted_wrt_map by (rule sorted_wrt_mono_rel [rotated]) (use x in \<open>auto simp: ekey_node kpos_less\<close>)
  moreover have "node_map key N k = map_of (map (\<lambda>a. (key a, a)) xs) k" for k
  proof -
    have "map_of (map (\<lambda>a. (key a, a)) xs) k = Some a \<longleftrightarrow> a \<in> set xs \<and> key a = k" for a
      using \<open>sorted_wrt (<) (map key xs)\<close> by (subst map_of_eq_Some_iff) (auto simp: comp_def strict_sorted_iff)
    moreover have "node_map key N k = Some a \<longleftrightarrow> a \<in> set xs \<and> key a = k" for a
      using node_map_iff [OF assms, of k a] x by (auto simp: N)
    ultimately show ?thesis by (intro option_ext) simp
  qed
  then have "node_map key N = map_of (map (\<lambda>a. (key a, a)) xs)" by blast
  ultimately show ?thesis using that by blast
qed


text \<open>Three threads on a set with one node: one adds a node after it, one removes the node, one looks for it.\<close>

definition fl_example :: "(tid \<times> fl_cmd) list" where
  "fl_example = (0, FcAdd 5 10) # replicate 11 (0, FcRun) @ (1, FcAdd 7 11) # replicate 8 (1, FcRun) @ (2, FcRemove 5) # (3, FcGet 5) #
     replicate 3 (2, FcRun) @ replicate 7 (1, FcRun) @ replicate 8 (2, FcRun) @ replicate 8 (3, FcRun)"

definition cmp_example :: "addr \<Rightarrow> key \<Rightarrow> int" where
  "cmp_example a k = (let ka = (if a = 10 then 5 else 7) in if ka = k then 0 else if ka < k then -1 else 1)"

definition fl_example_start :: fl_sys where
  "fl_example_start = fl_start \<lparr>ls_lock = (\<lambda>_. \<lparr>ttas_state = 9\<rparr>), ls_next = (\<lambda>_. 0)\<rparr>"

lemma fl_example_runs:
  "map_option (\<lambda>s. (fl_hist s, vlistset_visit_fine (fl_mem s))) (exec (fl_step cmp_example) fl_example fl_example_start) =
     Some ([SAdd 5 10 True, SAdd 7 11 True, SRemove 5 True, SGet 5 None], Some [11])"
  by code_simp

lemma cmp_example_ok: "cmp_ok cmp_example (\<lambda>a. if a = 10 then 5 else 7)"
  by (simp add: cmp_ok_def cmp_example_def)


section \<open>No deadlock\<close>

text \<open>The node whose lock a call waits for; a call that can only wait never has returned from its acquire.\<close>

fun walk_awaits :: "walk_pc \<Rightarrow> addr option" where
  "walk_awaits (WkHead _) = Some HEAD" | "walk_awaits (WkLock p c _) = Some c" | "walk_awaits _ = None"

fun fl_awaits :: "fl_pc \<Rightarrow> addr option" where
  "fl_awaits (FlAdd k n (AdWalk w)) = walk_awaits w" | "fl_awaits (FlRemove k (RmWalk w)) = walk_awaits w" | "fl_awaits (FlGet k (GtWalk w)) = walk_awaits w"
| "fl_awaits _ = None"

fun walk_live :: "walk_pc \<Rightarrow> bool" where
  "walk_live (WkHead a) = (a \<noteq> TtasReturn)" | "walk_live (WkLock p c a) = (a \<noteq> TtasReturn)" | "walk_live _ = True"

fun fl_live :: "fl_pc \<Rightarrow> bool" where
  "fl_live (FlAdd k n (AdWalk w)) = walk_live w" | "fl_live (FlRemove k (RmWalk w)) = walk_live w" | "fl_live (FlGet k (GtWalk w)) = walk_live w"
| "fl_live (FlAdd k n (AdDone r)) = False" | "fl_live (FlRemove k (RmDone r)) = False" | "fl_live (FlGet k (GtDone r)) = False"
| "fl_live _ = True"

lemma walk_live_step: "ls_walk cmp k w m = Some (Inl w', m') \<Longrightarrow> walk_live w'"
  by (cases w) (auto split: if_splits)

lemma fl_live_step:
  assumes "fl_call cmp p m = Some (p', m')"
  shows "fl_live (fl_return p')"
proof (cases p)
  case (FlAdd k n pc)
  show ?thesis
  proof (cases pc)
    case (AdWalk w)
    then obtain r where r: "ls_walk cmp k w m = Some (r, m')"
      "p' = FlAdd k n (case r of Inl w \<Rightarrow> AdWalk w | Inr (p, c, eq) \<Rightarrow> if eq then AdFree2 p c False else AdInit p c)" using assms FlAdd by auto
    then show ?thesis by (cases r) (auto dest: walk_live_step)
  qed (use assms FlAdd in auto)
next
  case (FlRemove k pc)
  show ?thesis
  proof (cases pc)
    case (RmWalk w)
    then obtain r where r: "ls_walk cmp k w m = Some (r, m')"
      "p' = FlRemove k (case r of Inl w \<Rightarrow> RmWalk w | Inr (p, c, eq) \<Rightarrow> if eq then RmNext p c else RmFree2 p c False)" using assms FlRemove by auto
    then show ?thesis by (cases r) (auto dest: walk_live_step)
  qed (use assms FlRemove in auto)
next
  case (FlGet k pc)
  show ?thesis
  proof (cases pc)
    case (GtWalk w)
    then obtain r where r: "ls_walk cmp k w m = Some (r, m')"
      "p' = FlGet k (case r of Inl w \<Rightarrow> GtWalk w | Inr (p, c, eq) \<Rightarrow> GtFree2 p c eq)" using assms FlGet by auto
    then show ?thesis by (cases r) (auto dest: walk_live_step)
  qed (use assms FlGet in auto)
qed (use assms in simp)

lemma fl_live_reach:
  assumes "reach (fl_step cmp) (fl_start m) s"
  shows "fl_live (fl_pcs s t)"
  using assms
proof (induction arbitrary: t rule: reach.induct)
  case (reach_step u a v)
  obtain x cmd where "a = (x, cmd)" by (cases a)
  with reach_step show ?case using fl_live_step [of cmp "fl_pcs u x" "fl_mem u"]
    by (cases cmd) (auto simp: fl_run_def split: if_splits)
qed (simp add: fl_start_def)

lemma walk_blocked:
  assumes "walk_live w" and "ls_walk cmp k w m = None"
  shows "\<exists>a. walk_awaits w = Some a \<and> ttas_state (ls_lock m a) \<noteq> 0"
proof -
  have "ttas_state l \<noteq> 0" if "ttaslock_acquire pc l = None" "pc \<noteq> TtasReturn" for pc l
    using that by (cases pc) (auto simp: vatomic_simps split: if_splits)
  then show ?thesis using assms by (cases w) auto
qed

lemma fl_blocked:
  assumes "fl_live p" and "p \<noteq> FlIdle" and "fl_call cmp p m = None"
  shows "\<exists>a. fl_awaits p = Some a \<and> ttas_state (ls_lock m a) \<noteq> 0"
proof (cases p)
  case (FlAdd k n pc)
  then show ?thesis using assms walk_blocked [of _ cmp k m] by (cases pc) auto
next
  case (FlRemove k pc)
  then show ?thesis using assms walk_blocked [of _ cmp k m] by (cases pc) auto
next
  case (FlGet k pc)
  then show ?thesis using assms walk_blocked [of _ cmp k m] by (cases pc) auto
qed (use assms in simp)

text \<open>A call waits for a node of the list that is behind every node it holds.\<close>

lemma fl_awaits_later:
  assumes I: "fl_inv key s N" and a: "fl_awaits (fl_pcs s t) = Some a"
  shows "a \<in> set N \<and> (\<forall>b \<in> fl_held (fl_pcs s t). ekey key b < ekey key a)"
proof -
  have w: "a \<in> set N \<and> (\<forall>b \<in> walk_held w. ekey key b < ekey key a)" if "walk_awaits w = Some a" "walk_ok key N (ls_next (fl_mem s)) k w" for k w
  proof (cases w)
    case (WkLock p c x)
    then have g: "p \<in> set N" "p \<noteq> TAIL" "ls_next (fl_mem s) p = c" "c = a" using that by (auto simp: at_gap_def)
    obtain A B where N: "N = A @ p # c # B" using listed_split [OF fl_invD(1) [OF I] g(1,2)] g(3) by metis
    then show ?thesis using fl_invD(1) [OF I] WkLock g by (auto simp: listed_def sorted_wrt_append)
  qed (use that fl_invD(1) [OF I] hd_in_set [of N] in \<open>auto simp: listed_def\<close>)
  show ?thesis
  proof (cases "fl_pcs s t")
    case (FlAdd k n pc)
    then show ?thesis using a w [of _ k] fl_invD(2) [OF I, of t] by (cases pc) auto
  next
    case (FlRemove k pc)
    then show ?thesis using a w [of _ k] fl_invD(2) [OF I, of t] by (cases pc) auto
  next
    case (FlGet k pc)
    then show ?thesis using a w [of _ k] fl_invD(2) [OF I, of t] by (cases pc) auto
  qed (use a in simp)
qed

text \<open>
  C12. Hand-over-hand locking does not deadlock: whenever a call is in progress, some call that is in progress can take its next step.
\<close>

theorem listset_fine_no_deadlock:
  assumes "cmp_ok cmp key" and "reach (fl_step cmp) (fl_start m) s" and "fl_pcs s t \<noteq> FlIdle"
  shows "\<exists>u s'. fl_pcs s u \<noteq> FlIdle \<and> fl_step cmp (u, FcRun) s = Some s'"
proof (rule ccontr)
  assume stuck: "\<not> ?thesis"
  obtain N where I: "fl_inv key s N" using fl_reach_inv [OF assms(1,2)] by blast
  have wait: "\<exists>a \<in> set N. fl_awaits (fl_pcs s u) = Some a \<and> ttas_state (ls_lock (fl_mem s) a) \<noteq> 0" if "fl_pcs s u \<noteq> FlIdle" for u
  proof -
    have "fl_call cmp (fl_pcs s u) (fl_mem s) = None" using stuck that by (cases "fl_call cmp (fl_pcs s u) (fl_mem s)") (auto simp: fl_run_def)
    then show ?thesis using fl_blocked [OF fl_live_reach [OF assms(2)] that] fl_awaits_later [OF I] by blast
  qed
  define W where "W = {a \<in> set N. \<exists>u. fl_awaits (fl_pcs s u) = Some a \<and> ttas_state (ls_lock (fl_mem s) a) \<noteq> 0}"
  have "finite W" "W \<noteq> {}" using wait [OF assms(3)] by (auto simp: W_def)
  then have "Max (ekey key ` W) \<in> ekey key ` W" by simp
  then obtain a where "a \<in> W" "ekey key a = Max (ekey key ` W)" by auto
  then have a: "a \<in> W" "\<And>b. b \<in> W \<Longrightarrow> ekey key b \<le> ekey key a" using \<open>finite W\<close> by simp_all
  then obtain v where v: "a \<in> fl_held (fl_pcs s v)" using fl_invD(5) [OF I, of a] by (auto simp: W_def)
  then have "fl_pcs s v \<noteq> FlIdle" by auto
  from wait [OF this] obtain b where b: "b \<in> W" "fl_awaits (fl_pcs s v) = Some b" unfolding W_def by blast
  then show False using fl_awaits_later [OF I b(2)] v a(2) [OF b(1)] by auto
qed

text \<open>The remove holds the head and waits for a node that the add holds; the add can go on.\<close>

definition fl_waiting :: "(tid \<times> fl_cmd) list" where
  "fl_waiting = (0, FcAdd 5 10) # replicate 11 (0, FcRun) @ (1, FcAdd 7 11) # replicate 8 (1, FcRun) @ (2, FcRemove 5) # replicate 3 (2, FcRun)"

lemma fl_waiting_runs:
  "map_option (\<lambda>s. (fl_pcs s 1, fl_pcs s 2, ttas_state (ls_lock (fl_mem s) 10))) (exec (fl_step cmp_example) fl_waiting fl_example_start) =
     Some (FlAdd 7 11 (AdWalk (WkLock 10 TAIL TtasXchg)), FlRemove 5 (RmWalk (WkLock HEAD 10 TtasAwait)), 1)"
  by code_simp

theorem listset_fine_no_deadlock_witness:
  "\<exists>s u s'. exec (fl_step cmp_example) fl_waiting fl_example_start = Some s \<and> fl_step cmp_example (2, FcRun) s = None \<and>
     fl_pcs s u \<noteq> FlIdle \<and> fl_step cmp_example (u, FcRun) s = Some s'"
proof -
  obtain s where s: "exec (fl_step cmp_example) fl_waiting fl_example_start = Some s" "fl_pcs s 2 = FlRemove 5 (RmWalk (WkLock HEAD 10 TtasAwait))"
    "ttas_state (ls_lock (fl_mem s) 10) = 1" using fl_waiting_runs by auto
  then have "fl_step cmp_example (2, FcRun) s = None" "fl_pcs s 2 \<noteq> FlIdle" by (simp_all add: fl_run_def vatomic_simps)
  then show ?thesis using listset_fine_no_deadlock [OF cmp_example_ok exec_reach [OF s(1) [unfolded fl_example_start_def]]] s(1) by blast
qed

end
