(* ===== verification/Listset_Lazy.thy ===== *)
theory Listset_Lazy
  imports Listset_Fine
begin

text \<open>
  The lazy list set, \<^verbatim>\<open>map/listset_lazy.h\<close>. Adds and removes search without locks, lock the two nodes they found and validate them; a removed
  node is marked before it is unlinked. Lookups take no lock at all. One step is one access to a lock, a mark or a link; a read of a link includes the
  local test of the loop that follows.
\<close>

section \<open>Operations\<close>

record lz_mem = ls_mem +
  lz_marked :: "addr \<Rightarrow> u32"

definition NULLP :: addr where "NULLP = 2"

definition lz_init_lock :: "addr \<Rightarrow> lz_mem \<Rightarrow> lz_mem" where
  "lz_init_lock a m = m\<lparr>ls_lock := (ls_lock m)(a := ttaslock_init (ls_lock m a))\<rparr>"

definition lz_unlock :: "addr \<Rightarrow> lz_mem \<Rightarrow> lz_mem" where
  "lz_unlock a m = m\<lparr>ls_lock := (ls_lock m)(a := ttaslock_release (ls_lock m a))\<rparr>"

definition lz_write_next :: "addr \<Rightarrow> addr \<Rightarrow> lz_mem \<Rightarrow> lz_mem" where
  "lz_write_next a b m = m\<lparr>ls_next := (ls_next m)(a := b)\<rparr>"

definition lz_write_mark :: "addr \<Rightarrow> u32 \<Rightarrow> lz_mem \<Rightarrow> lz_mem" where
  "lz_write_mark a v m = m\<lparr>lz_marked := (lz_marked m)(a := vatomic32_write (lz_marked m a) v)\<rparr>"

definition vlistset_init_lazy :: "lz_mem \<Rightarrow> lz_mem" where
  "vlistset_init_lazy m = lz_write_next TAIL NULLP (lz_write_next HEAD TAIL (lz_write_mark TAIL 0 (lz_write_mark HEAD 0 (lz_init_lock TAIL (lz_init_lock HEAD m)))))"

text \<open>\<open>_vlistset_validate\<close> reads the two marks and the link in this order.\<close>

datatype lwalk_pc = WlRead addr | WlLock1 addr addr ttas_acq_pc | WlLock2 addr addr ttas_acq_pc | WlVal1 addr addr | WlVal2 addr addr | WlVal3 addr addr

fun vlistset_validate_lazy :: "lwalk_pc \<Rightarrow> lz_mem \<Rightarrow> lwalk_pc + addr \<times> addr \<times> bool" where
  "vlistset_validate_lazy (WlVal1 p c) m = (if vatomic32_read (lz_marked m p) = 0 then Inl (WlVal2 p c) else Inr (p, c, False))"
| "vlistset_validate_lazy (WlVal2 p c) m = (if vatomic32_read (lz_marked m c) = 0 then Inl (WlVal3 p c) else Inr (p, c, False))"
| "vlistset_validate_lazy (WlVal3 p c) m = Inr (p, c, ls_next m p = c)"
| "vlistset_validate_lazy w m = Inl w"

text \<open>The search, the two locks and the validation, which the add and the remove share; the result says whether the validation succeeded.\<close>

fun lz_walk :: "(addr \<Rightarrow> key \<Rightarrow> int) \<Rightarrow> key \<Rightarrow> lwalk_pc \<Rightarrow> lz_mem \<Rightarrow> ((lwalk_pc + addr \<times> addr \<times> bool) \<times> lz_mem) option" where
  "lz_walk cmp k (WlRead p) m =
     (let c = ls_next m p in Some (Inl (if c \<noteq> TAIL \<and> cmp c k < 0 then WlRead c else WlLock1 p c TtasAwait), m))"
| "lz_walk cmp k (WlLock1 p c pc) m =
     map_option (\<lambda>(pc', l). (Inl (if pc' = TtasReturn then WlLock2 p c TtasAwait else WlLock1 p c pc'), m\<lparr>ls_lock := (ls_lock m)(p := l)\<rparr>)) (ttaslock_acquire pc (ls_lock m p))"
| "lz_walk cmp k (WlLock2 p c pc) m =
     map_option (\<lambda>(pc', l). (Inl (if pc' = TtasReturn then WlVal1 p c else WlLock2 p c pc'), m\<lparr>ls_lock := (ls_lock m)(c := l)\<rparr>)) (ttaslock_acquire pc (ls_lock m c))"
| "lz_walk cmp k w m = Some (vlistset_validate_lazy w m, m)"

text \<open>In the states that release the locks, \<open>None\<close> stands for a failed validation, after which the loop starts again.\<close>

datatype ladd_pc = LaWalk lwalk_pc | LaInit addr addr | LaMark addr addr | LaNext addr addr | LaLink addr addr
  | LaFree addr addr "bool option" | LaFree2 addr "bool option" | LaDone bool

fun vlistset_add_lazy :: "(addr \<Rightarrow> key \<Rightarrow> int) \<Rightarrow> key \<Rightarrow> addr \<Rightarrow> ladd_pc \<Rightarrow> lz_mem \<Rightarrow> (ladd_pc \<times> lz_mem) option" where
  "vlistset_add_lazy cmp k node (LaWalk w) m =
     map_option (\<lambda>(r, m). (case r of Inl w \<Rightarrow> LaWalk w
       | Inr (p, c, ok) \<Rightarrow> if \<not> ok then LaFree p c None else if c \<noteq> TAIL \<and> cmp c k = 0 then LaFree p c (Some False) else LaInit p c, m)) (lz_walk cmp k w m)"
| "vlistset_add_lazy cmp k node (LaInit p c) m = Some (LaMark p c, lz_init_lock node m)"
| "vlistset_add_lazy cmp k node (LaMark p c) m = Some (LaNext p c, lz_write_mark node 0 m)"
| "vlistset_add_lazy cmp k node (LaNext p c) m = Some (LaLink p c, lz_write_next node c m)"
| "vlistset_add_lazy cmp k node (LaLink p c) m = Some (LaFree p c (Some True), lz_write_next p node m)"
| "vlistset_add_lazy cmp k node (LaFree p c r) m = Some (LaFree2 c r, lz_unlock p m)"
| "vlistset_add_lazy cmp k node (LaFree2 c r) m = Some (case r of None \<Rightarrow> LaWalk (WlRead HEAD) | Some b \<Rightarrow> LaDone b, lz_unlock c m)"
| "vlistset_add_lazy cmp k node (LaDone b) m = None"

datatype lremove_pc = LrWalk lwalk_pc | LrMark addr addr | LrRead addr addr | LrLink addr addr addr | LrRetire addr addr
  | LrFree addr addr "bool option" | LrFree2 addr "bool option" | LrDone bool

fun vlistset_remove_lazy :: "(addr \<Rightarrow> key \<Rightarrow> int) \<Rightarrow> key \<Rightarrow> lremove_pc \<Rightarrow> lz_mem \<Rightarrow> (lremove_pc \<times> lz_mem) option" where
  "vlistset_remove_lazy cmp k (LrWalk w) m =
     map_option (\<lambda>(r, m). (case r of Inl w \<Rightarrow> LrWalk w
       | Inr (p, c, ok) \<Rightarrow> if \<not> ok then LrFree p c None else if c \<noteq> TAIL \<and> cmp c k = 0 then LrMark p c else LrFree p c (Some False), m)) (lz_walk cmp k w m)"
| "vlistset_remove_lazy cmp k (LrMark p c) m = Some (LrRead p c, lz_write_mark c 1 m)"
| "vlistset_remove_lazy cmp k (LrRead p c) m = Some (LrLink p c (ls_next m c), m)"
| "vlistset_remove_lazy cmp k (LrLink p c x) m = Some (LrRetire p c, lz_write_next p x m)"
| "vlistset_remove_lazy cmp k (LrRetire p c) m = Some (LrFree p c (Some True), m)"
| "vlistset_remove_lazy cmp k (LrFree p c r) m = Some (LrFree2 c r, lz_unlock p m)"
| "vlistset_remove_lazy cmp k (LrFree2 c r) m = Some (case r of None \<Rightarrow> LrWalk (WlRead HEAD) | Some b \<Rightarrow> LrDone b, lz_unlock c m)"
| "vlistset_remove_lazy cmp k (LrDone b) m = None"

datatype lget_pc = LgRead addr | LgMarked addr | LgDone "addr option"

fun vlistset_get_lazy :: "(addr \<Rightarrow> key \<Rightarrow> int) \<Rightarrow> key \<Rightarrow> lget_pc \<Rightarrow> lz_mem \<Rightarrow> (lget_pc \<times> lz_mem) option" where
  "vlistset_get_lazy cmp k (LgRead p) m =
     (let c = ls_next m p in Some (if c \<noteq> TAIL \<and> cmp c k < 0 then LgRead c else if c \<noteq> TAIL \<and> cmp c k = 0 then LgMarked c else LgDone None, m))"
| "vlistset_get_lazy cmp k (LgMarked c) m = Some (LgDone (if vatomic32_read (lz_marked m c) = 0 then Some c else None), m)"
| "vlistset_get_lazy cmp k (LgDone r) m = None"

text \<open>The visit skips marked nodes unless the visitor is destructive.\<close>

partial_function (option) visit_loop_lazy :: "bool \<Rightarrow> lz_mem \<Rightarrow> addr \<Rightarrow> addr list option" where
  [code]: "visit_loop_lazy d m c = (if c \<noteq> TAIL
     then Option.bind (visit_loop_lazy d m (ls_next m c)) (\<lambda>r. Some (if d \<or> lz_marked m c = 0 then c # r else r)) else Some [])"

definition vlistset_visit_lazy :: "bool \<Rightarrow> lz_mem \<Rightarrow> addr list option" where
  "vlistset_visit_lazy d m = visit_loop_lazy d m (ls_next m HEAD)"

definition vlistset_destroy_lazy :: "lz_mem \<Rightarrow> addr list option" where
  "vlistset_destroy_lazy m = vlistset_visit_lazy True m"

section \<open>Threads\<close>

text \<open>
  Safe memory reclamation is a rule for the clients: a node may be passed to \<open>vlistset_add\<close> if it is not in use; a retired node is in use
  until a moment at which no call is in progress (\<open>LcReclaim\<close>). The history records each add and remove at its effect and each successful lookup
  at its last access. \<open>lz_miss\<close> holds the threads whose lookup is in progress and whose key was absent at some moment since the lookup began.
\<close>

datatype lz_pc = LzIdle | LzAdd key addr ladd_pc | LzRemove key lremove_pc | LzGet key lget_pc

datatype lz_cmd = LcAdd key addr | LcRemove key | LcGet key | LcRun | LcReclaim

record lz_sys =
  lz_m :: lz_mem
  lz_pcs :: "tid \<Rightarrow> lz_pc"
  lz_active :: "tid list"
  lz_used :: "addr set"
  lz_pub :: "addr set"
  lz_retired :: "addr set"
  lz_hist :: "set_event list"
  lz_miss :: "tid set"

fun lz_call :: "(addr \<Rightarrow> key \<Rightarrow> int) \<Rightarrow> lz_pc \<Rightarrow> lz_mem \<Rightarrow> (lz_pc \<times> lz_mem) option" where
  "lz_call cmp (LzAdd k n pc) m = map_option (apfst (LzAdd k n)) (vlistset_add_lazy cmp k n pc m)"
| "lz_call cmp (LzRemove k pc) m = map_option (apfst (LzRemove k)) (vlistset_remove_lazy cmp k pc m)"
| "lz_call cmp (LzGet k pc) m = map_option (apfst (LzGet k)) (vlistset_get_lazy cmp k pc m)"
| "lz_call cmp LzIdle m = None"

fun lz_walking :: "lz_pc \<Rightarrow> bool" where
  "lz_walking (LzAdd k n (LaWalk _)) = True" | "lz_walking (LzRemove k (LrWalk _)) = True" | "lz_walking _ = False"

fun lz_decided :: "lz_pc \<Rightarrow> set_event list" where
  "lz_decided (LzAdd k n (LaFree _ _ (Some _))) = [SAdd k n False]" | "lz_decided (LzRemove k (LrFree _ _ (Some _))) = [SRemove k False]"
| "lz_decided _ = []"

fun lz_found :: "lz_pc \<Rightarrow> set_event list" where
  "lz_found (LzGet k (LgDone (Some c))) = [SGet k (Some c)]" | "lz_found _ = []"

fun lz_effect :: "lz_pc \<Rightarrow> set_event list" where
  "lz_effect (LzAdd k n (LaLink _ _)) = [SAdd k n True]" | "lz_effect (LzRemove k (LrMark _ _)) = [SRemove k True]" | "lz_effect _ = []"

definition lz_log :: "lz_pc \<Rightarrow> lz_pc \<Rightarrow> set_event list" where
  "lz_log p p' = lz_effect p @ (if lz_walking p then lz_decided p' else []) @ lz_found p'"

fun lz_return :: "lz_pc \<Rightarrow> lz_pc" where
  "lz_return (LzAdd k n (LaDone r)) = LzIdle" | "lz_return (LzRemove k (LrDone r)) = LzIdle" | "lz_return (LzGet k (LgDone r)) = LzIdle"
| "lz_return p = p"

fun lz_give :: "lz_pc \<Rightarrow> addr set" where
  "lz_give (LzAdd k n (LaFree2 c (Some False))) = {n}" | "lz_give _ = {}"

fun lz_publishes :: "lz_pc \<Rightarrow> addr set" where
  "lz_publishes (LzAdd k n (LaLink _ _)) = {n}" | "lz_publishes _ = {}"

fun lz_retires :: "lz_pc \<Rightarrow> addr set" where
  "lz_retires (LzRemove k (LrRetire p c)) = {c}" | "lz_retires _ = {}"

definition lz_absent :: "set_event list \<Rightarrow> key \<Rightarrow> bool" where
  "lz_absent h k = (case set_replay h Map.empty of None \<Rightarrow> False | Some m \<Rightarrow> m k = None)"

fun lz_looks :: "lz_pc \<Rightarrow> key option" where
  "lz_looks (LzGet k _) = Some k" | "lz_looks _ = None"

text \<open>After every step the lookups in progress observe whether their key is absent.\<close>

definition lz_missing :: "(tid \<Rightarrow> lz_pc) \<Rightarrow> set_event list \<Rightarrow> tid \<Rightarrow> bool" where
  "lz_missing pcs h t = (case lz_looks (pcs t) of None \<Rightarrow> False | Some k \<Rightarrow> lz_absent h k)"

definition lz_observe :: "lz_sys \<Rightarrow> lz_sys" where
  "lz_observe s = s\<lparr>lz_miss := lz_miss s \<union> set (filter (lz_missing (lz_pcs s) (lz_hist s)) (lz_active s))\<rparr>"

text \<open>Thread \<open>t\<close> moves to \<open>p\<close>; a thread that returns is no longer active.\<close>

definition lz_to :: "lz_sys \<Rightarrow> tid \<Rightarrow> lz_pc \<Rightarrow> lz_mem \<Rightarrow> addr set \<Rightarrow> addr set \<Rightarrow> addr set \<Rightarrow> set_event list \<Rightarrow> lz_sys" where
  "lz_to s t p m U P R es = \<lparr>lz_m = m, lz_pcs = (lz_pcs s)(t := p), lz_active = (if p = LzIdle then removeAll t (lz_active s) else lz_active s),
     lz_used = U, lz_pub = P, lz_retired = R, lz_hist = lz_hist s @ es, lz_miss = (if p = LzIdle then lz_miss s - {t} else lz_miss s)\<rparr>"

definition lz_run :: "(addr \<Rightarrow> key \<Rightarrow> int) \<Rightarrow> lz_sys \<Rightarrow> tid \<Rightarrow> lz_sys option" where
  "lz_run cmp s t = map_option (\<lambda>(p', m). let p = lz_pcs s t in
     lz_to s t (lz_return p') m (lz_used s - lz_give p) (lz_pub s \<union> lz_publishes p) (lz_retired s \<union> lz_retires p) (lz_log p p')) (lz_call cmp (lz_pcs s t) (lz_m s))"

definition lz_begin :: "lz_sys \<Rightarrow> tid \<Rightarrow> lz_pc \<Rightarrow> addr set \<Rightarrow> lz_sys" where
  "lz_begin s t p A = s\<lparr>lz_pcs := (lz_pcs s)(t := p), lz_active := t # lz_active s, lz_used := lz_used s \<union> A\<rparr>"

fun lz_step :: "(addr \<Rightarrow> key \<Rightarrow> int) \<Rightarrow> tid \<times> lz_cmd \<Rightarrow> lz_sys \<Rightarrow> lz_sys option" where
  "lz_step cmp (t, LcAdd k n) s =
     (if lz_pcs s t = LzIdle \<and> n \<notin> lz_used s \<and> cmp n k = 0 then Some (lz_observe (lz_begin s t (LzAdd k n (LaWalk (WlRead HEAD))) {n})) else None)"
| "lz_step cmp (t, LcRemove k) s = (if lz_pcs s t = LzIdle then Some (lz_observe (lz_begin s t (LzRemove k (LrWalk (WlRead HEAD))) {})) else None)"
| "lz_step cmp (t, LcGet k) s = (if lz_pcs s t = LzIdle then Some (lz_observe (lz_begin s t (LzGet k (LgRead HEAD)) {})) else None)"
| "lz_step cmp (t, LcRun) s = map_option lz_observe (lz_run cmp s t)"
| "lz_step cmp (t, LcReclaim) s =
     (if lz_active s = [] then Some (s\<lparr>lz_used := lz_used s - lz_retired s, lz_pub := lz_pub s - lz_retired s, lz_retired := {}\<rparr>) else None)"

definition lz_start :: "lz_mem \<Rightarrow> lz_sys" where
  "lz_start m = \<lparr>lz_m = vlistset_init_lazy m, lz_pcs = (\<lambda>_. LzIdle), lz_active = [], lz_used = {HEAD, TAIL, NULLP}, lz_pub = {HEAD, TAIL},
     lz_retired = {}, lz_hist = [], lz_miss = {}\<rparr>"

section \<open>The invariant\<close>

fun wl_held :: "lwalk_pc \<Rightarrow> addr set" where
  "wl_held (WlRead p) = {}" | "wl_held (WlLock1 p c _) = {}" | "wl_held (WlLock2 p c _) = {p}" | "wl_held (WlVal1 p c) = {p, c}"
| "wl_held (WlVal2 p c) = {p, c}" | "wl_held (WlVal3 p c) = {p, c}"

fun ladd_held :: "ladd_pc \<Rightarrow> addr set" where
  "ladd_held (LaWalk w) = wl_held w" | "ladd_held (LaInit p c) = {p, c}" | "ladd_held (LaMark p c) = {p, c}" | "ladd_held (LaNext p c) = {p, c}"
| "ladd_held (LaLink p c) = {p, c}" | "ladd_held (LaFree p c r) = {p, c}" | "ladd_held (LaFree2 c r) = {c}" | "ladd_held (LaDone r) = {}"

fun lremove_held :: "lremove_pc \<Rightarrow> addr set" where
  "lremove_held (LrWalk w) = wl_held w" | "lremove_held (LrMark p c) = {p, c}" | "lremove_held (LrRead p c) = {p, c}" | "lremove_held (LrLink p c x) = {p, c}"
| "lremove_held (LrRetire p c) = {p, c}" | "lremove_held (LrFree p c r) = {p, c}" | "lremove_held (LrFree2 c r) = {c}" | "lremove_held (LrDone r) = {}"

fun lz_held :: "lz_pc \<Rightarrow> addr set" where
  "lz_held (LzAdd k n pc) = ladd_held pc" | "lz_held (LzRemove k pc) = lremove_held pc" | "lz_held _ = {}"

text \<open>A node before it is added, a node that is marked but still linked, a node that is unlinked but not yet retired.\<close>

fun ladd_own :: "addr \<Rightarrow> ladd_pc \<Rightarrow> addr set" where
  "ladd_own n (LaFree p c r) = (if r = Some True then {} else {n})" | "ladd_own n (LaFree2 c r) = (if r = Some True then {} else {n})"
| "ladd_own n (LaDone r) = {}" | "ladd_own n _ = {n}"

fun lz_own :: "lz_pc \<Rightarrow> addr set" where
  "lz_own (LzAdd k n pc) = ladd_own n pc" | "lz_own _ = {}"

fun lz_marks :: "lz_pc \<Rightarrow> addr set" where
  "lz_marks (LzRemove k (LrRead p c)) = {c}" | "lz_marks (LzRemove k (LrLink p c x)) = {c}" | "lz_marks _ = {}"

fun lz_gone :: "lz_pc \<Rightarrow> addr set" where
  "lz_gone (LzRemove k (LrRetire p c)) = {c}" | "lz_gone _ = {}"

definition lfound :: "(addr \<Rightarrow> key) \<Rightarrow> addr set \<Rightarrow> key \<Rightarrow> addr \<Rightarrow> addr \<Rightarrow> bool" where
  "lfound key P k p c \<longleftrightarrow> p \<in> P \<and> c \<in> P \<and> p \<noteq> TAIL \<and> ekey key p < kpos k \<and> kpos k \<le> ekey key c"

fun wl_ok :: "(addr \<Rightarrow> key) \<Rightarrow> addr set \<Rightarrow> lz_mem \<Rightarrow> key \<Rightarrow> lwalk_pc \<Rightarrow> bool" where
  "wl_ok key P m k (WlRead p) \<longleftrightarrow> p \<in> P \<and> p \<noteq> TAIL \<and> ekey key p < kpos k"
| "wl_ok key P m k (WlLock1 p c _) \<longleftrightarrow> lfound key P k p c"
| "wl_ok key P m k (WlLock2 p c _) \<longleftrightarrow> lfound key P k p c"
| "wl_ok key P m k (WlVal1 p c) \<longleftrightarrow> lfound key P k p c"
| "wl_ok key P m k (WlVal2 p c) \<longleftrightarrow> lfound key P k p c \<and> lz_marked m p = 0"
| "wl_ok key P m k (WlVal3 p c) \<longleftrightarrow> lfound key P k p c \<and> lz_marked m p = 0 \<and> lz_marked m c = 0"

definition lgap :: "(addr \<Rightarrow> key) \<Rightarrow> addr list \<Rightarrow> lz_mem \<Rightarrow> key \<Rightarrow> addr \<Rightarrow> addr \<Rightarrow> bool" where
  "lgap key N m k p c \<longleftrightarrow> at_gap key N (ls_next m) k p c \<and> lz_marked m p = 0"

fun ladd_ok :: "(addr \<Rightarrow> key) \<Rightarrow> addr list \<Rightarrow> addr set \<Rightarrow> lz_mem \<Rightarrow> key \<Rightarrow> addr \<Rightarrow> ladd_pc \<Rightarrow> bool" where
  "ladd_ok key N P m k n (LaWalk w) \<longleftrightarrow> wl_ok key P m k w"
| "ladd_ok key N P m k n (LaInit p c) \<longleftrightarrow> lgap key N m k p c \<and> kpos k < ekey key c"
| "ladd_ok key N P m k n (LaMark p c) \<longleftrightarrow> lgap key N m k p c \<and> kpos k < ekey key c \<and> ttas_state (ls_lock m n) = 0"
| "ladd_ok key N P m k n (LaNext p c) \<longleftrightarrow> lgap key N m k p c \<and> kpos k < ekey key c \<and> ttas_state (ls_lock m n) = 0 \<and> lz_marked m n = 0"
| "ladd_ok key N P m k n (LaLink p c) \<longleftrightarrow> lgap key N m k p c \<and> kpos k < ekey key c \<and> ttas_state (ls_lock m n) = 0 \<and> lz_marked m n = 0 \<and> ls_next m n = c"
| "ladd_ok key N P m k n (LaFree p c r) \<longleftrightarrow> p \<noteq> c"
| "ladd_ok key N P m k n _ \<longleftrightarrow> True"

fun lremove_ok :: "(addr \<Rightarrow> key) \<Rightarrow> addr list \<Rightarrow> addr set \<Rightarrow> lz_mem \<Rightarrow> key \<Rightarrow> lremove_pc \<Rightarrow> bool" where
  "lremove_ok key N P m k (LrWalk w) \<longleftrightarrow> wl_ok key P m k w"
| "lremove_ok key N P m k (LrMark p c) \<longleftrightarrow> lgap key N m k p c \<and> c \<noteq> TAIL \<and> key c = k \<and> lz_marked m c = 0"
| "lremove_ok key N P m k (LrRead p c) \<longleftrightarrow> lgap key N m k p c \<and> c \<noteq> TAIL \<and> key c = k \<and> lz_marked m c \<noteq> 0"
| "lremove_ok key N P m k (LrLink p c x) \<longleftrightarrow> lgap key N m k p c \<and> c \<noteq> TAIL \<and> key c = k \<and> lz_marked m c \<noteq> 0 \<and> ls_next m c = x"
| "lremove_ok key N P m k (LrRetire p c) \<longleftrightarrow> p \<noteq> c \<and> c \<in> P \<and> c \<notin> set N"
| "lremove_ok key N P m k (LrFree p c r) \<longleftrightarrow> p \<noteq> c"
| "lremove_ok key N P m k _ \<longleftrightarrow> True"

fun lz_ok :: "(addr \<Rightarrow> key) \<Rightarrow> addr list \<Rightarrow> addr set \<Rightarrow> lz_mem \<Rightarrow> lz_pc \<Rightarrow> bool" where
  "lz_ok key N P m (LzAdd k n pc) \<longleftrightarrow> key n = k \<and> ladd_ok key N P m k n pc"
| "lz_ok key N P m (LzRemove k pc) \<longleftrightarrow> lremove_ok key N P m k pc"
| "lz_ok key N P m (LzGet k (LgRead p)) \<longleftrightarrow> p \<in> P \<and> p \<noteq> TAIL \<and> ekey key p < kpos k"
| "lz_ok key N P m (LzGet k (LgMarked c)) \<longleftrightarrow> c \<in> P \<and> c \<noteq> TAIL \<and> c \<noteq> HEAD \<and> key c = k"
| "lz_ok key N P m _ \<longleftrightarrow> True"

text \<open>The set: the nodes that are linked and not marked.\<close>

definition lz_map :: "(addr \<Rightarrow> key) \<Rightarrow> lz_mem \<Rightarrow> addr list \<Rightarrow> key \<rightharpoonup> addr" where
  "lz_map key m N k = (case node_map key N k of None \<Rightarrow> None | Some a \<Rightarrow> if lz_marked m a = 0 then Some a else None)"

lemma lz_map_iff:
  assumes "listed key nx N"
  shows "lz_map key m N k = Some a \<longleftrightarrow> a \<in> set N \<and> a \<noteq> HEAD \<and> a \<noteq> TAIL \<and> key a = k \<and> lz_marked m a = 0"
proof (cases "node_map key N k")
  case None
  then show ?thesis using node_map_iff [OF assms, of k a] by (auto simp: lz_map_def)
next
  case (Some b)
  then show ?thesis using node_map_iff [OF assms, of k a] node_map_iff [OF assms, of k b] by (auto simp: lz_map_def)
qed

text \<open>
  A lookup in progress either has been in progress at a moment at which its key was absent, or the links lead from where it is to the node of its key.
\<close>

abbreviation leads :: "(addr \<Rightarrow> addr) \<Rightarrow> addr \<Rightarrow> addr \<Rightarrow> bool" where
  "leads nx \<equiv> (\<lambda>a b. a \<noteq> TAIL \<and> b = nx a)\<^sup>*\<^sup>*"

fun lz_gets :: "(addr \<Rightarrow> key) \<Rightarrow> lz_mem \<Rightarrow> addr list \<Rightarrow> bool \<Rightarrow> lz_pc \<Rightarrow> bool" where
  "lz_gets key m N missed (LzGet k (LgRead p)) \<longleftrightarrow> missed \<or> (\<exists>a. lz_map key m N k = Some a \<and> leads (ls_next m) p a)"
| "lz_gets key m N missed (LzGet k (LgMarked c)) \<longleftrightarrow> missed \<or> lz_map key m N k = Some c"
| "lz_gets key m N missed _ \<longleftrightarrow> True"

definition lz_shape :: "(addr \<Rightarrow> key) \<Rightarrow> lz_mem \<Rightarrow> addr list \<Rightarrow> addr set \<Rightarrow> bool" where
  "lz_shape key m N P \<longleftrightarrow> listed key (ls_next m) N \<and> set N \<subseteq> P \<and> (\<forall>a \<in> P. a \<noteq> TAIL \<longrightarrow> ls_next m a \<in> P \<and> ekey key a < ekey key (ls_next m a))"

definition lz_marking :: "lz_sys \<Rightarrow> addr list \<Rightarrow> bool" where
  "lz_marking s N \<longleftrightarrow> (\<forall>a \<in> lz_pub s. a \<notin> set N \<longrightarrow> lz_marked (lz_m s) a \<noteq> 0 \<and> (a \<in> lz_retired s \<or> (\<exists>t. a \<in> lz_gone (lz_pcs s t)))) \<and>
     (\<forall>a \<in> set N. lz_marked (lz_m s) a \<noteq> 0 \<longrightarrow> (\<exists>t. a \<in> lz_marks (lz_pcs s t))) \<and> lz_retired s \<subseteq> lz_pub s \<and> set N \<inter> lz_retired s = {}"

definition lz_locks :: "lz_sys \<Rightarrow> bool" where
  "lz_locks s \<longleftrightarrow> (\<forall>t. \<forall>a \<in> lz_held (lz_pcs s t). ttas_state (ls_lock (lz_m s) a) = 1 \<and> a \<in> lz_pub s) \<and>
     (\<forall>a \<in> lz_pub s. (\<forall>t. a \<notin> lz_held (lz_pcs s t)) \<longrightarrow> ttas_state (ls_lock (lz_m s) a) = 0) \<and>
     (\<forall>t u a. a \<in> lz_held (lz_pcs s t) \<longrightarrow> a \<in> lz_held (lz_pcs s u) \<longrightarrow> t = u)"

definition lz_owners :: "lz_sys \<Rightarrow> bool" where
  "lz_owners s \<longleftrightarrow> (\<forall>t. \<forall>a \<in> lz_own (lz_pcs s t). a \<notin> lz_pub s \<and> a \<in> lz_used s) \<and>
     (\<forall>t u a. a \<in> lz_own (lz_pcs s t) \<longrightarrow> a \<in> lz_own (lz_pcs s u) \<longrightarrow> t = u) \<and> lz_pub s \<subseteq> lz_used s"

definition lz_inv :: "(addr \<Rightarrow> key) \<Rightarrow> lz_sys \<Rightarrow> addr list \<Rightarrow> bool" where
  "lz_inv key s N \<longleftrightarrow> lz_shape key (lz_m s) N (lz_pub s) \<and> lz_marking s N \<and> lz_locks s \<and> lz_owners s \<and>
     (\<forall>t. lz_ok key N (lz_pub s) (lz_m s) (lz_pcs s t)) \<and> (\<forall>t. lz_gets key (lz_m s) N (t \<in> lz_miss s) (lz_pcs s t)) \<and>
     (\<forall>t. lz_pcs s t \<noteq> LzIdle \<longrightarrow> t \<in> set (lz_active s)) \<and> set_replay (lz_hist s) Map.empty = Some (lz_map key (lz_m s) N)"

lemma lz_invD:
  assumes "lz_inv key s N"
  shows "lz_shape key (lz_m s) N (lz_pub s)" "lz_marking s N" "lz_locks s" "lz_owners s" "lz_ok key N (lz_pub s) (lz_m s) (lz_pcs s t)"
    "lz_gets key (lz_m s) N (t \<in> lz_miss s) (lz_pcs s t)" "lz_pcs s t \<noteq> LzIdle \<Longrightarrow> t \<in> set (lz_active s)"
    "set_replay (lz_hist s) Map.empty = Some (lz_map key (lz_m s) N)"
  using assms unfolding lz_inv_def by blast+

lemma lz_shapeD:
  assumes "lz_shape key m N P"
  shows "listed key (ls_next m) N" "a \<in> set N \<Longrightarrow> a \<in> P" "a \<in> P \<Longrightarrow> a \<noteq> TAIL \<Longrightarrow> ls_next m a \<in> P"
    "a \<in> P \<Longrightarrow> a \<noteq> TAIL \<Longrightarrow> ekey key a < ekey key (ls_next m a)"
  using assms unfolding lz_shape_def by blast+

lemma lz_locksD:
  assumes "lz_locks s"
  shows "a \<in> lz_held (lz_pcs s t) \<Longrightarrow> ttas_state (ls_lock (lz_m s) a) = 1" "a \<in> lz_held (lz_pcs s t) \<Longrightarrow> a \<in> lz_pub s"
    "a \<in> lz_pub s \<Longrightarrow> (\<And>t. a \<notin> lz_held (lz_pcs s t)) \<Longrightarrow> ttas_state (ls_lock (lz_m s) a) = 0"
    "a \<in> lz_held (lz_pcs s t) \<Longrightarrow> a \<in> lz_held (lz_pcs s u) \<Longrightarrow> t = u"
  using assms unfolding lz_locks_def by blast+

lemma lz_ownersD:
  assumes "lz_owners s"
  shows "a \<in> lz_own (lz_pcs s t) \<Longrightarrow> a \<notin> lz_pub s" "a \<in> lz_own (lz_pcs s t) \<Longrightarrow> a \<in> lz_used s"
    "a \<in> lz_own (lz_pcs s t) \<Longrightarrow> a \<in> lz_own (lz_pcs s u) \<Longrightarrow> t = u" "lz_pub s \<subseteq> lz_used s"
  using assms unfolding lz_owners_def by blast+

lemma wl_ok_frame:
  assumes "wl_ok key P m k w" and "P \<subseteq> P'" and "\<And>a. a \<in> wl_held w \<Longrightarrow> lz_marked m' a = lz_marked m a"
  shows "wl_ok key P' m' k w"
  using assms by (cases w) (auto simp: lfound_def)

lemma lz_ok_frame:
  assumes "lz_ok key N P m p" and "P \<subseteq> P'"
    and h: "\<And>a. a \<in> lz_held p \<Longrightarrow> ls_next m' a = ls_next m a \<and> lz_marked m' a = lz_marked m a \<and> (a \<in> set N \<longleftrightarrow> a \<in> set N')"
    and o: "\<And>a. a \<in> lz_own p \<Longrightarrow> ls_next m' a = ls_next m a \<and> ls_lock m' a = ls_lock m a \<and> lz_marked m' a = lz_marked m a"
  shows "lz_ok key N' P' m' p"
proof (cases p)
  case (LzAdd k n pc)
  show ?thesis
  proof (cases pc)
    case (LaWalk w)
    then show ?thesis using assms(1,2) h wl_ok_frame [of key P m k w P' m'] LzAdd by simp
  qed (use assms(1,2) h o LzAdd in \<open>auto simp: lgap_def at_gap_def\<close>)
next
  case (LzRemove k pc)
  show ?thesis
  proof (cases pc)
    case (LrWalk w)
    then show ?thesis using assms(1,2) h wl_ok_frame [of key P m k w P' m'] LzRemove by simp
  qed (use assms(1,2) h LzRemove in \<open>auto simp: lgap_def at_gap_def\<close>)
next
  case (LzGet k pc)
  then show ?thesis using assms(1,2) by (cases pc) auto
qed simp

text \<open>The parts of the invariant after a step of thread \<open>t\<close> to \<open>p\<close>.\<close>

lemma lz_locks_move:
  assumes L: "lz_locks s" and pcs: "lz_pcs s' = (lz_pcs s)(t := p)" and P: "lz_pub s \<subseteq> lz_pub s'"
    and held: "\<And>u a. u \<noteq> t \<Longrightarrow> a \<in> lz_held (lz_pcs s u) \<Longrightarrow> ls_lock (lz_m s') a = ls_lock (lz_m s) a \<and> a \<notin> lz_held p"
    and mine: "\<And>a. a \<in> lz_held p \<Longrightarrow> ttas_state (ls_lock (lz_m s') a) = 1 \<and> a \<in> lz_pub s'"
    and free: "\<And>a. a \<in> lz_pub s' \<Longrightarrow> a \<notin> lz_held p \<Longrightarrow> (\<And>u. u \<noteq> t \<Longrightarrow> a \<notin> lz_held (lz_pcs s u)) \<Longrightarrow> ttas_state (ls_lock (lz_m s') a) = 0"
  shows "lz_locks s'"
proof -
  have "ttas_state (ls_lock (lz_m s') a) = 1 \<and> a \<in> lz_pub s'" if "a \<in> lz_held (lz_pcs s' u)" for u a
    using that mine held [of u a] lz_locksD(1,2) [OF L, of a u] P by (auto simp: pcs split: if_splits)
  moreover have "ttas_state (ls_lock (lz_m s') a) = 0" if a: "a \<in> lz_pub s'" "\<forall>u. a \<notin> lz_held (lz_pcs s' u)" for a
  proof (rule free [OF a(1)])
    show "a \<notin> lz_held p" using a(2) unfolding pcs by (metis fun_upd_same)
    show "a \<notin> lz_held (lz_pcs s u)" if "u \<noteq> t" for u using a(2) that unfolding pcs by (metis fun_upd_other)
  qed
  moreover have "u = v" if "a \<in> lz_held (lz_pcs s' u)" "a \<in> lz_held (lz_pcs s' v)" for u v a
    using that held [of u a] held [of v a] lz_locksD(4) [OF L, of a u v] by (auto simp: pcs split: if_splits)
  ultimately show ?thesis unfolding lz_locks_def by blast
qed

lemma lz_owners_move:
  assumes O: "lz_owners s" and pcs: "lz_pcs s' = (lz_pcs s)(t := p)" and P: "lz_pub s' \<subseteq> lz_used s'"
    and own: "\<And>u a. u \<noteq> t \<Longrightarrow> a \<in> lz_own (lz_pcs s u) \<Longrightarrow> a \<notin> lz_pub s' \<and> a \<notin> lz_own p \<and> a \<in> lz_used s'"
    and mine: "\<And>a. a \<in> lz_own p \<Longrightarrow> a \<notin> lz_pub s' \<and> a \<in> lz_used s'"
  shows "lz_owners s'"
proof -
  have "a \<notin> lz_pub s' \<and> a \<in> lz_used s'" if "a \<in> lz_own (lz_pcs s' u)" for u a
    using that mine own [of u a] by (auto simp: pcs split: if_splits)
  moreover have "u = v" if "a \<in> lz_own (lz_pcs s' u)" "a \<in> lz_own (lz_pcs s' v)" for u v a
    using that own [of u a] own [of v a] lz_ownersD(3) [OF O, of a u v] by (auto simp: pcs split: if_splits)
  ultimately show ?thesis using P unfolding lz_owners_def by blast
qed

lemma lz_marking_move:
  assumes M: "lz_marking s N" and pcs: "lz_pcs s' = (lz_pcs s)(t := p)" and R: "lz_retired s' \<subseteq> lz_pub s'" "set N' \<inter> lz_retired s' = {}" "lz_retired s \<subseteq> lz_retired s'"
    and out: "\<And>a. a \<in> lz_pub s' \<Longrightarrow> a \<notin> set N' \<Longrightarrow> (a \<in> lz_pub s \<and> a \<notin> set N \<and> lz_marked (lz_m s') a = lz_marked (lz_m s) a \<and> (a \<in> lz_gone (lz_pcs s t) \<longrightarrow> a \<in> lz_gone p \<or> a \<in> lz_retired s')) \<or>
      (lz_marked (lz_m s') a \<noteq> 0 \<and> a \<in> lz_gone p)"
    and inn: "\<And>a. a \<in> set N' \<Longrightarrow> lz_marked (lz_m s') a \<noteq> 0 \<Longrightarrow> a \<in> lz_marks p \<or> (a \<in> set N \<and> lz_marked (lz_m s) a \<noteq> 0 \<and> a \<notin> lz_marks (lz_pcs s t))"
  shows "lz_marking s' N'"
proof -
  have "lz_marked (lz_m s') a \<noteq> 0 \<and> (a \<in> lz_retired s' \<or> (\<exists>u. a \<in> lz_gone (lz_pcs s' u)))" if a: "a \<in> lz_pub s'" "a \<notin> set N'" for a
  proof (rule disjE [OF out [OF a]])
    assume o: "a \<in> lz_pub s \<and> a \<notin> set N \<and> lz_marked (lz_m s') a = lz_marked (lz_m s) a \<and> (a \<in> lz_gone (lz_pcs s t) \<longrightarrow> a \<in> lz_gone p \<or> a \<in> lz_retired s')"
    then have m: "lz_marked (lz_m s) a \<noteq> 0" "a \<in> lz_retired s \<or> (\<exists>u. a \<in> lz_gone (lz_pcs s u))" using M unfolding lz_marking_def by blast+
    from m(2) show ?thesis
    proof
      assume "\<exists>u. a \<in> lz_gone (lz_pcs s u)"
      then obtain u where u: "a \<in> lz_gone (lz_pcs s u)" by blast
      show ?thesis
      proof (cases "u = t")
        case True
        then show ?thesis using u o m(1) by (auto simp: pcs)
      next
        case False
        then have "a \<in> lz_gone (lz_pcs s' u)" using u by (simp add: pcs)
        then show ?thesis using o m(1) by auto
      qed
    qed (use o m(1) R(3) in auto)
  qed (auto simp: pcs)
  moreover have "\<exists>u. a \<in> lz_marks (lz_pcs s' u)" if a: "a \<in> set N'" "lz_marked (lz_m s') a \<noteq> 0" for a
  proof (rule disjE [OF inn [OF a]])
    assume o: "a \<in> set N \<and> lz_marked (lz_m s) a \<noteq> 0 \<and> a \<notin> lz_marks (lz_pcs s t)"
    then obtain u where "a \<in> lz_marks (lz_pcs s u)" using M unfolding lz_marking_def by blast
    then have "a \<in> lz_marks (lz_pcs s' u)" using o by (cases "u = t") (auto simp: pcs)
    then show ?thesis by blast
  qed (auto simp: pcs)
  ultimately show ?thesis using R unfolding lz_marking_def by blast
qed

lemma lz_missing_iff:
  assumes "set_replay h Map.empty = Some M"
  shows "lz_missing pcs h t \<longleftrightarrow> (\<exists>k. lz_looks (pcs t) = Some k \<and> M k = None)"
  using assms by (auto simp: lz_missing_def lz_absent_def split: option.splits)

lemma lz_observe_sel [simp]:
  "lz_m (lz_observe s) = lz_m s" "lz_pcs (lz_observe s) = lz_pcs s" "lz_active (lz_observe s) = lz_active s" "lz_used (lz_observe s) = lz_used s"
  "lz_pub (lz_observe s) = lz_pub s" "lz_retired (lz_observe s) = lz_retired s" "lz_hist (lz_observe s) = lz_hist s"
  by (simp_all add: lz_observe_def)

lemma lz_observe_parts:
  "lz_locks (lz_observe s) = lz_locks s" "lz_owners (lz_observe s) = lz_owners s" "lz_marking (lz_observe s) N = lz_marking s N"
  by (simp_all add: lz_locks_def lz_owners_def lz_marking_def)

text \<open>The lookups of the other threads, and the whole step.\<close>

lemma lz_gets_frame:
  assumes "lz_gets key m N missed pc" and "missed \<longrightarrow> missed'" and x: "\<And>k p. pc = LzGet k (LgRead p) \<Longrightarrow> p \<in> P"
    and "\<And>k. lz_looks pc = Some k \<Longrightarrow> lz_map key m' N' k = None \<Longrightarrow> missed'"
    and "\<And>k a. lz_map key m N k = Some a \<Longrightarrow> lz_map key m' N' k = None \<or> lz_map key m' N' k = Some a"
    and "\<And>k a x. x \<in> P \<Longrightarrow> lz_map key m N k = Some a \<Longrightarrow> lz_map key m' N' k = Some a \<Longrightarrow> leads (ls_next m) x a \<Longrightarrow> leads (ls_next m') x a"
  shows "lz_gets key m' N' missed' pc"
proof (cases pc)
  case (LzGet k g)
  show ?thesis
  proof (cases g)
    case (LgRead p)
    show ?thesis
    proof (cases missed')
      case False
      then obtain a where a: "lz_map key m N k = Some a" "leads (ls_next m) p a" using assms(1,2) LzGet LgRead by auto
      moreover have "lz_map key m' N' k = Some a" using assms(4) [of k] assms(5) [OF a(1)] False LzGet by auto
      ultimately show ?thesis using assms(6) [OF x] LzGet LgRead by auto
    qed (simp add: LzGet LgRead)
  next
    case (LgMarked c)
    then show ?thesis using assms(1,2) assms(4) [of k] assms(5) [of k c] LzGet by auto
  qed (simp add: LzGet)
qed simp_all

lemma lz_inv_step:
  assumes I: "lz_inv key s N" and pcs: "lz_pcs s' = (lz_pcs s)(t := p)" and h: "lz_hist s' = lz_hist s @ es"
    and S: "lz_shape key (lz_m s') N' (lz_pub s')" and parts: "lz_marking s' N'" "lz_locks s'" "lz_owners s'"
    and ok: "lz_ok key N' (lz_pub s') (lz_m s') p" and P: "lz_pub s \<subseteq> lz_pub s'"
    and held: "\<And>u a. u \<noteq> t \<Longrightarrow> a \<in> lz_held (lz_pcs s u) \<Longrightarrow>
      ls_next (lz_m s') a = ls_next (lz_m s) a \<and> lz_marked (lz_m s') a = lz_marked (lz_m s) a \<and> (a \<in> set N \<longleftrightarrow> a \<in> set N')"
    and own: "\<And>u a. u \<noteq> t \<Longrightarrow> a \<in> lz_own (lz_pcs s u) \<Longrightarrow>
      ls_next (lz_m s') a = ls_next (lz_m s) a \<and> ls_lock (lz_m s') a = ls_lock (lz_m s) a \<and> lz_marked (lz_m s') a = lz_marked (lz_m s) a"
    and mp: "set_replay es (lz_map key (lz_m s) N) = Some (lz_map key (lz_m s') N')"
    and keep: "\<And>k a. lz_map key (lz_m s) N k = Some a \<Longrightarrow> lz_map key (lz_m s') N' k = None \<or> lz_map key (lz_m s') N' k = Some a"
    and path: "\<And>k a x. x \<in> lz_pub s \<Longrightarrow> lz_map key (lz_m s) N k = Some a \<Longrightarrow> lz_map key (lz_m s') N' k = Some a \<Longrightarrow> leads (ls_next (lz_m s)) x a \<Longrightarrow> leads (ls_next (lz_m s')) x a"
    and get: "lz_gets key (lz_m s') N' (t \<in> lz_miss s' \<or> (\<exists>k. lz_looks p = Some k \<and> lz_map key (lz_m s') N' k = None)) p"
    and act: "\<And>u. u \<noteq> t \<Longrightarrow> u \<in> set (lz_active s) \<Longrightarrow> u \<in> set (lz_active s')" "p \<noteq> LzIdle \<Longrightarrow> t \<in> set (lz_active s')"
    and miss: "\<And>u. u \<noteq> t \<Longrightarrow> u \<in> lz_miss s \<Longrightarrow> u \<in> lz_miss s'"
  shows "lz_inv key (lz_observe s') N'"
proof -
  have R: "set_replay (lz_hist s') Map.empty = Some (lz_map key (lz_m s') N')" using mp lz_invD(8) [OF I] by (simp add: h set_replay_append)
  have A: "u \<in> set (lz_active s')" if "lz_pcs s' u \<noteq> LzIdle" for u
    using that act lz_invD(7) [OF I, of u] by (auto simp: pcs split: if_splits)
  have seen: "u \<in> lz_miss (lz_observe s')" if "lz_looks (lz_pcs s' u) = Some k" "lz_map key (lz_m s') N' k = None" for u k
  proof -
    have "lz_pcs s' u \<noteq> LzIdle" using that(1) by auto
    then show ?thesis using A lz_missing_iff [OF R] that by (auto simp: lz_observe_def)
  qed
  have sub: "u \<in> lz_miss s' \<Longrightarrow> u \<in> lz_miss (lz_observe s')" for u by (simp add: lz_observe_def)
  have "lz_ok key N' (lz_pub s') (lz_m s') (lz_pcs s' u)" for u
    using ok lz_ok_frame [OF lz_invD(5) [OF I, of u] P, of "lz_m s'" N'] held [of u] own [of u] by (cases "u = t") (auto simp: pcs)
  moreover have "lz_gets key (lz_m s') N' (u \<in> lz_miss (lz_observe s')) (lz_pcs s' u)" for u
  proof (cases "u = t")
    case True
    have "t \<in> lz_miss s' \<or> (\<exists>k. lz_looks p = Some k \<and> lz_map key (lz_m s') N' k = None) \<Longrightarrow> t \<in> lz_miss (lz_observe s')"
      using seen [of t] sub by (auto simp: pcs)
    then show ?thesis using lz_gets_frame [OF get, of "t \<in> lz_miss (lz_observe s')" UNIV] seen [of t] True by (auto simp: pcs)
  next
    case False
    then have pu: "lz_pcs s' u = lz_pcs s u" by (simp add: pcs)
    show ?thesis unfolding pu
      by (rule lz_gets_frame [OF lz_invD(6) [OF I, of u], where P = "lz_pub s"]) (use False miss sub seen [of u] keep path lz_invD(5) [OF I, of u] in \<open>auto simp: pu\<close>)
  qed
  ultimately show ?thesis using S parts R A unfolding lz_inv_def lz_observe_parts lz_observe_sel by blast
qed

section \<open>Paths\<close>

lemma leads_refl: "leads nx a a"
  by simp

lemma leads_step: "a \<noteq> TAIL \<Longrightarrow> leads nx (nx a) b \<Longrightarrow> leads nx a b"
  by (rule converse_rtranclp_into_rtranclp) auto

lemma leads_cases: "leads nx a b \<Longrightarrow> a = b \<or> (a \<noteq> TAIL \<and> leads nx (nx a) b)"
  by (erule converse_rtranclpE) auto

lemma leads_cong:
  assumes "leads nx x a" and "x \<in> P" and "\<And>b. b \<in> P \<Longrightarrow> b \<noteq> TAIL \<Longrightarrow> nx b \<in> P \<and> nx' b = nx b"
  shows "leads nx' x a"
  using assms(1,2)
proof (induction rule: converse_rtranclp_induct)
  case (step y z)
  then have "nx' y = z" "z \<in> P" "y \<noteq> TAIL" using assms(3) by auto
  then show ?case using step.IH leads_step [of y nx' a] by simp
qed simp

lemma leads_insert:
  assumes "leads nx x a" and "nx n = nx p" and "n \<noteq> p" and "n \<noteq> TAIL"
  shows "leads (nx(p := n)) x a"
  using assms(1)
proof (induction rule: converse_rtranclp_induct)
  case (step y z)
  show ?case
  proof (cases "y = p")
    case True
    then have "leads (nx(p := n)) n a" using leads_step [of n "nx(p := n)" a] step assms by simp
    then show ?thesis using leads_step [of p "nx(p := n)" a] step True by simp
  next
    case False
    then show ?thesis using leads_step [of y "nx(p := n)" a] step by simp
  qed
qed simp

lemma leads_delete:
  assumes "leads nx x a" and "nx p = c" and "p \<noteq> c" and "a \<noteq> c"
  shows "leads (nx(p := nx c)) x a"
  using assms(1)
proof (induction rule: converse_rtranclp_induct)
  case (step y z)
  show ?case
  proof (cases "y = p")
    case True
    have "leads (nx(p := nx c)) c a" using step True assms(2) by simp
    then have "leads (nx(p := nx c)) (nx c) a" using leads_cases [of "nx(p := nx c)" c a] assms(3,4) by auto
    then show ?thesis using leads_step [of p "nx(p := nx c)" a] step True by simp
  next
    case False
    then show ?thesis using leads_step [of y "nx(p := nx c)" a] step by simp
  qed
qed simp

lemma leads_ekey:
  assumes "leads (ls_next m) x a" and "lz_shape key m N P" and "x \<in> P"
  shows "a \<in> P \<and> ekey key x \<le> ekey key a"
  using assms(1,3)
proof (induction rule: converse_rtranclp_induct)
  case (step y z)
  then show ?case using lz_shapeD(3,4) [OF assms(2), of y] by auto
qed simp

lemma leads_linked: "linked nx (x # xs) \<Longrightarrow> a \<in> set (x # xs) \<Longrightarrow> TAIL \<notin> set (butlast (x # xs)) \<Longrightarrow> leads nx x a"
proof (induction xs arbitrary: x)
  case (Cons y ys)
  show ?case
  proof (cases "a = x")
    case False
    then have "leads nx y a" using Cons by simp
    then show ?thesis using leads_step [of x nx a] Cons.prems by simp
  qed simp
qed simp

lemma leads_listed:
  assumes "listed key nx N" and "a \<in> set N"
  shows "leads nx HEAD a"
proof -
  have N: "N = HEAD # tl N" using assms(1) by (cases N) (auto simp: listed_def)
  have "TAIL \<notin> set (butlast N)"
  proof
    assume t: "TAIL \<in> set (butlast N)"
    have "N = butlast N @ [TAIL]" using assms(1) unfolding listed_def by (metis append_butlast_last_id)
    then show False using listed_distinct(1) [OF assms(1)] t by (metis disjoint_insert(1) distinct_append list.simps(15))
  qed
  then show ?thesis using leads_linked [of nx HEAD "tl N" a] assms N by (metis listed_def)
qed

section \<open>Moves\<close>

lemma lz_to_sel [simp]:
  "lz_m (lz_to s t p m U P R es) = m" "lz_pcs (lz_to s t p m U P R es) = (lz_pcs s)(t := p)" "lz_used (lz_to s t p m U P R es) = U"
  "lz_pub (lz_to s t p m U P R es) = P" "lz_retired (lz_to s t p m U P R es) = R" "lz_hist (lz_to s t p m U P R es) = lz_hist s @ es"
  "p \<noteq> LzIdle \<Longrightarrow> lz_active (lz_to s t p m U P R es) = lz_active s" "p \<noteq> LzIdle \<Longrightarrow> lz_miss (lz_to s t p m U P R es) = lz_miss s"
  by (simp_all add: lz_to_def)

lemma lz_to_act:
  "u \<noteq> t \<Longrightarrow> u \<in> set (lz_active s) \<Longrightarrow> u \<in> set (lz_active (lz_to s t p m U P R es))"
  "u \<noteq> t \<Longrightarrow> u \<in> lz_miss s \<Longrightarrow> u \<in> lz_miss (lz_to s t p m U P R es)"
  by (simp_all add: lz_to_def)

text \<open>Nothing changes but where the thread is; it may have released a private node or no longer be a lookup.\<close>

lemma lz_local:
  assumes I: "lz_inv key s N" and t: "lz_pcs s t \<noteq> LzIdle" and ok: "lz_ok key N (lz_pub s) (lz_m s) p"
    and p: "lz_held p = lz_held (lz_pcs s t)" "lz_own p = lz_own (lz_pcs s t)" "lz_marks p = lz_marks (lz_pcs s t)"
    and R: "lz_gone p \<union> R = lz_gone (lz_pcs s t) \<union> lz_retired s" "lz_retired s \<subseteq> R"
    and h: "set_replay es (lz_map key (lz_m s) N) = Some (lz_map key (lz_m s) N)"
    and get: "lz_gets key (lz_m s) N (p \<noteq> LzIdle \<and> t \<in> lz_miss s \<or> (\<exists>k. lz_looks p = Some k \<and> lz_map key (lz_m s) N k = None)) p"
  shows "lz_inv key (lz_observe (lz_to s t p (lz_m s) (lz_used s) (lz_pub s) R es)) N"
proof -
  let ?s = "lz_to s t p (lz_m s) (lz_used s) (lz_pub s) R es"
  note S = lz_invD(1) [OF I] and M = lz_invD(2) [OF I] and L = lz_invD(3) [OF I] and O = lz_invD(4) [OF I]
  have gone: "a \<in> lz_pub s \<and> a \<notin> set N" if "a \<in> lz_gone (lz_pcs s t)" for a
  proof (cases "lz_pcs s t")
    case (LzRemove k pc)
    then show ?thesis using that lz_invD(5) [OF I, of t] by (cases pc) auto
  qed (use that in auto)
  have "R \<subseteq> lz_gone (lz_pcs s t) \<union> lz_retired s" using R(1) by blast
  then have R': "R \<subseteq> lz_pub s" "set N \<inter> R = {}" using gone M unfolding lz_marking_def by blast+
  have "lz_marking ?s N"
    by (rule lz_marking_move [OF M, where t = t and p = p]) (use R R' p(3) in auto)
  moreover have "lz_locks ?s"
  proof (rule lz_locks_move [OF L, where t = t and p = p], goal_cases)
    case (5 a)
    have "a \<notin> lz_held (lz_pcs s u)" for u using 5(2,3) p(1) by (cases "u = t") auto
    then show ?case using lz_locksD(3) [OF L] 5(1) by simp
  qed (use p(1) lz_locksD [OF L] in auto)
  moreover have "lz_owners ?s"
    by (rule lz_owners_move [OF O, where t = t and p = p]) (use p(2) lz_ownersD [OF O] in auto)
  ultimately show ?thesis
    by (intro lz_inv_step [OF I, where s' = ?s and t = t and p = p and es = es])
      (use S ok h get lz_invD(7) [OF I t] in \<open>auto simp: lz_to_act(1) lz_to_def\<close>)
qed

lemma lz_mem_sel [simp]:
  "lz_marked (m\<lparr>ls_lock := f\<rparr>) = lz_marked m" "lz_marked (m\<lparr>ls_next := g\<rparr>) = lz_marked m"
  "ls_lock (m\<lparr>lz_marked := h\<rparr>) = ls_lock m" "ls_next (m\<lparr>lz_marked := h\<rparr>) = ls_next m" for m :: lz_mem
  by (cases m; simp)+

lemma lz_map_cong:
  assumes "\<And>a. a \<in> set N \<Longrightarrow> lz_marked m' a = lz_marked m a"
  shows "lz_map key m' N = lz_map key m N"
proof
  fix k
  show "lz_map key m' N k = lz_map key m N k"
  proof (cases "node_map key N k")
    case (Some a)
    then have "a \<in> set N" by (auto simp: node_map_def find_Some_iff)
    then show ?thesis using assms Some by (simp add: lz_map_def)
  qed (simp add: lz_map_def)
qed

lemma lz_gets_other: "lz_looks p = None \<Longrightarrow> lz_gets key m N b p"
  by (cases p) auto

text \<open>A lock changes hands.\<close>

lemma lz_lock_step:
  assumes I: "lz_inv key s N" and t: "lz_pcs s t \<noteq> LzIdle" and ok: "lz_ok key N (lz_pub s) (lz_m s) p" and g: "lz_looks p = None"
    and p: "lz_own p \<subseteq> lz_own (lz_pcs s t)" "lz_marks p = lz_marks (lz_pcs s t)" "lz_gone p = lz_gone (lz_pcs s t)"
    and a: "a \<in> lz_pub s" "\<And>u. u \<noteq> t \<Longrightarrow> a \<notin> lz_held (lz_pcs s u)"
    and l: "(lz_held p = insert a (lz_held (lz_pcs s t)) \<and> ttas_state l = 1) \<or> (lz_held p = lz_held (lz_pcs s t) - {a} \<and> ttas_state l = 0)"
    and U: "U = lz_used s - (lz_own (lz_pcs s t) - lz_own p)"
  shows "lz_inv key (lz_observe (lz_to s t p ((lz_m s)\<lparr>ls_lock := (ls_lock (lz_m s))(a := l)\<rparr>) U (lz_pub s) (lz_retired s) [])) N"
proof -
  let ?m = "(lz_m s)\<lparr>ls_lock := (ls_lock (lz_m s))(a := l)\<rparr>"
  let ?s = "lz_to s t p ?m U (lz_pub s) (lz_retired s) []"
  note S = lz_invD(1) [OF I] and M = lz_invD(2) [OF I] and L = lz_invD(3) [OF I] and O = lz_invD(4) [OF I]
  have no: "a \<notin> lz_own (lz_pcs s u)" for u using lz_ownersD(1) [OF O, of a u] a(1) by auto
  have mp: "lz_map key ?m N = lz_map key (lz_m s) N" by (rule lz_map_cong) simp
  have "lz_marking ?s N" by (rule lz_marking_move [OF M, where t = t and p = p]) (use p(2,3) M in \<open>auto simp: lz_marking_def\<close>)
  moreover have "lz_locks ?s"
  proof (rule lz_locks_move [OF L, where t = t and p = p], goal_cases)
    case (3 u b)
    then show ?case using l a(2) lz_locksD(4) [OF L, of b u t] by auto
  next
    case (4 b)
    then show ?case using l lz_locksD(1,2) [OF L, of b t] a(1) by auto
  next
    case (5 b)
    show ?case
    proof (cases "b = a")
      case False
      have "b \<notin> lz_held (lz_pcs s u)" for u using 5(2,3) l False by (cases "u = t") auto
      then show ?thesis using lz_locksD(3) [OF L] 5(1) False by simp
    qed (use l 5(2) in auto)
  qed simp_all
  moreover have "lz_owners ?s"
    by (rule lz_owners_move [OF O, where t = t and p = p]) (use p(1) lz_ownersD [OF O] U in \<open>auto 4 3\<close>)
  moreover have "lz_ok key N (lz_pub s) ?m p"
    by (rule lz_ok_frame [OF ok]) (use no p(1) in auto)
  moreover have "lz_shape key ?m N (lz_pub s)" using S by (simp add: lz_shape_def)
  ultimately show ?thesis
    by (intro lz_inv_step [OF I, where s' = ?s and t = t and p = p and es = "[]"])
      (use g no lz_invD(7) [OF I t] in \<open>auto simp: mp lz_to_act lz_gets_other\<close>)
qed

lemma lz_release:
  assumes I: "lz_inv key s N" and t: "lz_pcs s t \<noteq> LzIdle" and ok: "lz_ok key N (lz_pub s) (lz_m s) p" and g: "lz_looks p = None"
    and p: "lz_own p \<subseteq> lz_own (lz_pcs s t)" "lz_marks p = lz_marks (lz_pcs s t)" "lz_gone p = lz_gone (lz_pcs s t)"
    and a: "a \<in> lz_held (lz_pcs s t)" "lz_held p = lz_held (lz_pcs s t) - {a}" and U: "U = lz_used s - (lz_own (lz_pcs s t) - lz_own p)"
  shows "lz_inv key (lz_observe (lz_to s t p (lz_unlock a (lz_m s)) U (lz_pub s) (lz_retired s) [])) N"
proof -
  note L = lz_invD(3) [OF I]
  have o: "a \<notin> lz_held (lz_pcs s u)" if "u \<noteq> t" for u using lz_locksD(4) [OF L a(1), of u] that by auto
  have z: "ttas_state (ttaslock_release (ls_lock (lz_m s) a)) = 0" by (simp add: ttaslock_release_def vatomic_simps)
  show ?thesis unfolding lz_unlock_def
    by (rule lz_lock_step [OF I t ok g p lz_locksD(2) [OF L a(1)] o _ U]) (use a(2) z in auto)
qed

lemma lz_acquire:
  assumes I: "lz_inv key s N" and t: "lz_pcs s t \<noteq> LzIdle" and a: "a \<in> lz_pub s" and acq: "ttaslock_acquire pc (ls_lock (lz_m s) a) = Some (pc', l)"
    and p: "lz_ok key N (lz_pub s) (lz_m s) p" "lz_looks p = None" "lz_own p = lz_own (lz_pcs s t)" "lz_marks p = {}" "lz_gone p = {}" "lz_marks (lz_pcs s t) = {}" "lz_gone (lz_pcs s t) = {}"
    and h: "lz_held p = (if pc' = TtasReturn then insert a (lz_held (lz_pcs s t)) else lz_held (lz_pcs s t))"
  shows "lz_inv key (lz_observe (lz_to s t p ((lz_m s)\<lparr>ls_lock := (ls_lock (lz_m s))(a := l)\<rparr>) (lz_used s) (lz_pub s) (lz_retired s) [])) N"
proof -
  note L = lz_invD(3) [OF I]
  have v: "ttas_state (ls_lock (lz_m s) a) = 0 \<or> ttas_state (ls_lock (lz_m s) a) = 1" using lz_locksD(1,3) [OF L] a by metis
  from ttas_acquire_effect [OF acq v] show ?thesis
  proof (elim disjE conjE)
    assume "pc' \<noteq> TtasReturn" "l = ls_lock (lz_m s) a"
    then show ?thesis using lz_local [OF I t p(1), of "lz_retired s" "[]"] p h by (simp add: lz_gets_other)
  next
    assume l: "pc' = TtasReturn" "ttas_state (ls_lock (lz_m s) a) = 0" "ttas_state l = 1"
    have o: "a \<notin> lz_held (lz_pcs s u)" for u using lz_locksD(1) [OF L, of a u] l(2) by auto
    show ?thesis by (rule lz_lock_step [OF I t p(1,2) _ _ _ a o]) (use p h l in auto)
  qed
qed

text \<open>A write to a node that is not published yet.\<close>

lemma lz_private:
  assumes I: "lz_inv key s N" and t: "lz_pcs s t \<noteq> LzIdle" and n: "n \<in> lz_own (lz_pcs s t)"
    and p: "lz_held p = lz_held (lz_pcs s t)" "lz_own p = lz_own (lz_pcs s t)" "lz_marks p = {}" "lz_gone p = {}" "lz_marks (lz_pcs s t) = {}" "lz_gone (lz_pcs s t) = {}" "lz_looks p = None"
    and m: "\<And>b. b \<noteq> n \<Longrightarrow> ls_next m b = ls_next (lz_m s) b" "\<And>b. b \<noteq> n \<Longrightarrow> ls_lock m b = ls_lock (lz_m s) b" "\<And>b. b \<noteq> n \<Longrightarrow> lz_marked m b = lz_marked (lz_m s) b"
    and ok: "lz_ok key N (lz_pub s) m p"
  shows "lz_inv key (lz_observe (lz_to s t p m (lz_used s) (lz_pub s) (lz_retired s) [])) N"
proof -
  let ?s = "lz_to s t p m (lz_used s) (lz_pub s) (lz_retired s) []"
  note S = lz_invD(1) [OF I] and M = lz_invD(2) [OF I] and L = lz_invD(3) [OF I] and O = lz_invD(4) [OF I]
  have nP: "n \<notin> lz_pub s" by (rule lz_ownersD(1) [OF O n])
  have pub: "b \<in> lz_pub s \<Longrightarrow> ls_next m b = ls_next (lz_m s) b \<and> ls_lock m b = ls_lock (lz_m s) b \<and> lz_marked m b = lz_marked (lz_m s) b" for b
    using m nP by metis
  have N: "b \<in> set N \<Longrightarrow> b \<in> lz_pub s" for b using lz_shapeD(2) [OF S] .
  have "ls_next m = (ls_next (lz_m s))(n := ls_next m n)" using m(1) by auto
  then have "listed key (ls_next m) N" using listed_upd [OF lz_shapeD(1) [OF S], of n "ls_next m n"] nP N by metis
  then have S': "lz_shape key m N (lz_pub s)" using S pub unfolding lz_shape_def by auto
  have mp: "lz_map key m N = lz_map key (lz_m s) N" by (rule lz_map_cong) (use N pub in blast)
  have "lz_marking ?s N" by (rule lz_marking_move [OF M, where t = t and p = p]) (use p M pub N in \<open>auto simp: lz_marking_def\<close>)
  moreover have "lz_locks ?s"
  proof (rule lz_locks_move [OF L, where t = t and p = p], goal_cases)
    case (3 u b)
    then show ?case using p(1) pub [OF lz_locksD(2) [OF L 3(2)]] lz_locksD(4) [OF L, of b u t] by auto
  next
    case (4 b)
    then show ?case using p(1) lz_locksD(1,2) [OF L, of b t] pub by auto
  next
    case (5 b)
    have "b \<notin> lz_held (lz_pcs s u)" for u using 5(2,3) p(1) by (cases "u = t") auto
    then show ?case using lz_locksD(3) [OF L, of b] 5(1) pub by simp
  qed simp_all
  moreover have "lz_owners ?s"
    by (rule lz_owners_move [OF O, where t = t and p = p]) (use p(2) lz_ownersD [OF O] in \<open>auto 4 3\<close>)
  ultimately show ?thesis
  proof (intro lz_inv_step [OF I, where s' = ?s and t = t and p = p and es = "[]"], goal_cases)
    case (9 u b)
    then show ?case using pub [OF lz_locksD(2) [OF L 9(5)]] by simp
  next
    case (10 u b)
    then have "b \<noteq> n" using lz_ownersD(3) [OF O, of n t u] n by auto
    then show ?case using m by simp
  next
    case (13 k a x)
    show ?case by (rule leads_cong [OF 13(7) 13(4)]) (use pub lz_shapeD(3) [OF S] in auto)
  qed (use S' ok p(7) lz_invD(7) [OF I t] in \<open>auto simp: mp lz_to_act lz_gets_other\<close>)
qed

lemma lz_locks_same:
  assumes L: "lz_locks s" and pcs: "lz_pcs s' = (lz_pcs s)(t := p)" and "lz_pub s' = lz_pub s" and "ls_lock (lz_m s') = ls_lock (lz_m s)"
    and h: "lz_held p = lz_held (lz_pcs s t)"
  shows "lz_locks s'"
proof (rule lz_locks_move [OF L pcs], goal_cases)
  case (2 u a)
  then show ?case using lz_locksD(4) [OF L, of a u t] h assms(4) by auto
next
  case (3 a)
  then show ?case using lz_locksD(1,2) [OF L, of a t] h assms(3,4) by auto
next
  case (4 a)
  have "a \<notin> lz_held (lz_pcs s u)" for u using 4(2,3) h by (cases "u = t") auto
  then show ?case using lz_locksD(3) [OF L] 4(1) assms(3,4) by simp
qed (simp add: assms(3))

text \<open>The three writes that matter: a node is linked, marked, unlinked.\<close>

lemma lgap_facts:
  assumes I: "lz_inv key s N" and g: "lgap key N (lz_m s) k p c"
  shows "p \<in> set N" "p \<noteq> TAIL" "ls_next (lz_m s) p = c" "c \<in> set N" "c \<noteq> HEAD" "p \<noteq> c" "ekey key p < kpos k" "p \<in> lz_pub s" "c \<in> lz_pub s"
proof -
  note S = lz_invD(1) [OF I]
  show p: "p \<in> set N" "p \<noteq> TAIL" "ls_next (lz_m s) p = c" "ekey key p < kpos k" using g by (auto simp: lgap_def at_gap_def)
  show "c \<in> set N" "c \<noteq> HEAD" using listed_next [OF lz_shapeD(1) [OF S] p(1,2)] p(3) by auto
  then show "p \<in> lz_pub s" "c \<in> lz_pub s" using lz_shapeD(2) [OF S] p(1) by blast+
  then show "p \<noteq> c" using lz_shapeD(4) [OF S, of p] p(2,3) by auto
qed

lemma lz_insert:
  assumes I: "lz_inv key s N" and p: "lz_pcs s t = LzAdd k n (LaLink p c)"
  shows "\<exists>N'. lz_inv key (lz_observe (lz_to s t (LzAdd k n (LaFree p c (Some True))) (lz_write_next p n (lz_m s)) (lz_used s) (lz_pub s \<union> {n}) (lz_retired s) [SAdd k n True])) N'"
proof -
  let ?m = "lz_write_next p n (lz_m s)" and ?q = "LzAdd k n (LaFree p c (Some True))"
  let ?s = "lz_to s t ?q ?m (lz_used s) (lz_pub s \<union> {n}) (lz_retired s) [SAdd k n True]"
  note S = lz_invD(1) [OF I] and M = lz_invD(2) [OF I] and L = lz_invD(3) [OF I] and O = lz_invD(4) [OF I]
  have K: "key n = k" "lgap key N (lz_m s) k p c" "kpos k < ekey key c" "ttas_state (ls_lock (lz_m s) n) = 0" "lz_marked (lz_m s) n = 0" "ls_next (lz_m s) n = c"
    using lz_invD(5) [OF I, of t] p by auto
  note G = lgap_facts [OF I K(2)]
  have n: "n \<notin> lz_pub s" "n \<in> lz_used s" using lz_ownersD(1,2) [OF O, of n t] p by auto
  have nN: "n \<notin> set N" using n(1) lz_shapeD(2) [OF S] by blast
  have ht: "n \<noteq> HEAD" "n \<noteq> TAIL" using nN lz_shapeD(1) [OF S] by (metis hd_in_set last_in_set listed_def)+
  have e: "ekey key n = kpos k" using ht K(1) by (simp add: ekey_node)
  obtain N' where N': "listed key ((ls_next (lz_m s))(p := n)) N'" "set N' = insert n (set N)" "node_map key N' = (node_map key N)(k \<mapsto> n)"
    using listed_insert [OF lz_shapeD(1) [OF S] G(1,2), of n] G K ht by metis
  have nm: "node_map key N k = None" using listed_absent [OF lz_shapeD(1) [OF S] G(1,2,7)] G(3) K(3) by simp
  have m: "ls_next ?m = (ls_next (lz_m s))(p := n)" "ls_lock ?m = ls_lock (lz_m s)" "lz_marked ?m = lz_marked (lz_m s)" by (auto simp: lz_write_next_def)
  have mp: "lz_map key ?m N' = (lz_map key (lz_m s) N)(k \<mapsto> n)" "lz_map key (lz_m s) N k = None"
    using nm K(5) by (auto simp: lz_map_def N'(3) m fun_eq_iff split: option.split)
  have S': "lz_shape key ?m N' (lz_pub s \<union> {n})"
    using N'(1,2) S n(1) G K(3,6) e by (auto simp: lz_shape_def m)
  have "lz_marking ?s N'" by (rule lz_marking_move [OF M, where t = t and p = ?q]) (use M n K(5) p in \<open>auto simp: lz_marking_def m N'(2)\<close>)
  moreover have "lz_locks ?s"
  proof (rule lz_locks_move [OF L, where t = t and p = ?q], goal_cases)
    case (3 u b)
    then show ?case using p lz_locksD(4) [OF L, of b u t] by (auto simp: m)
  next
    case (4 b)
    then show ?case using lz_locksD(1,2) [OF L, of b t] p by (auto simp: m)
  next
    case (5 b)
    have "b \<notin> lz_held (lz_pcs s u)" for u using 5(2,3) p by (cases "u = t") auto
    then show ?case using lz_locksD(3) [OF L, of b] 5(1) K(4) by (auto simp: m)
  qed auto
  moreover have "lz_owners ?s"
  proof (rule lz_owners_move [OF O, where t = t and p = ?q], goal_cases)
    case (3 u a)
    then show ?case using lz_ownersD(1,2) [OF O 3(2)] lz_ownersD(3) [OF O 3(2), of t] p by auto
  qed (use lz_ownersD(4) [OF O] n in auto)
  ultimately have "lz_inv key (lz_observe ?s) N'"
  proof (intro lz_inv_step [OF I, where s' = ?s and t = t and p = ?q and es = "[SAdd k n True]"], goal_cases)
    case (9 u b)
    have "b \<noteq> p" using lz_locksD(4) [OF L 9(5), of t] 9(4) p by auto
    moreover have "b \<noteq> n" using lz_locksD(2) [OF L 9(5)] n(1) by auto
    ultimately show ?case by (simp add: m N'(2))
  next
    case (10 u b)
    then have "b \<noteq> p" using lz_ownersD(1) [OF O, of b u] G(8) by auto
    then show ?case by (simp add: m)
  next
    case (13 j a x)
    then show ?case using leads_insert [OF 13(7), of n p] K(6) G(3,8) n(1) ht by (auto simp: m)
  qed (use S' mp G(6) K(1) p lz_invD(7) [OF I, of t] in \<open>auto simp: lz_to_act\<close>)
  then show ?thesis by blast
qed

lemma lz_mark:
  assumes I: "lz_inv key s N" and p: "lz_pcs s t = LzRemove k (LrMark p c)"
  shows "lz_inv key (lz_observe (lz_to s t (LzRemove k (LrRead p c)) (lz_write_mark c 1 (lz_m s)) (lz_used s) (lz_pub s) (lz_retired s) [SRemove k True])) N"
proof -
  let ?m = "lz_write_mark c 1 (lz_m s)" and ?q = "LzRemove k (LrRead p c)"
  let ?s = "lz_to s t ?q ?m (lz_used s) (lz_pub s) (lz_retired s) [SRemove k True]"
  note S = lz_invD(1) [OF I] and M = lz_invD(2) [OF I] and L = lz_invD(3) [OF I] and O = lz_invD(4) [OF I]
  have K: "lgap key N (lz_m s) k p c" "c \<noteq> TAIL" "key c = k" "lz_marked (lz_m s) c = 0" using lz_invD(5) [OF I, of t] p by auto
  note G = lgap_facts [OF I K(1)]
  have m: "ls_next ?m = ls_next (lz_m s)" "ls_lock ?m = ls_lock (lz_m s)" "lz_marked ?m = (lz_marked (lz_m s))(c := 1)"
    by (auto simp: lz_write_mark_def vatomic_simps)
  have l: "listed key (ls_next ?m) N" using lz_shapeD(1) [OF S] by (simp add: m)
  have mk: "lz_map key (lz_m s) N k = Some c" using lz_map_iff [OF lz_shapeD(1) [OF S], of "lz_m s" k c] G(4,5) K by auto
  have mp: "lz_map key ?m N = (lz_map key (lz_m s) N)(k := None)"
  proof
    fix j
    show "lz_map key ?m N j = ((lz_map key (lz_m s) N)(k := None)) j"
    proof (rule option_ext)
      fix a
      show "(lz_map key ?m N j = Some a) = (((lz_map key (lz_m s) N)(k := None)) j = Some a)"
        using lz_map_iff [OF l, of ?m j a] lz_map_iff [OF lz_shapeD(1) [OF S], of "lz_m s" j a] mk K(3) by (cases "j = k") (auto simp: m)
    qed
  qed
  have "lz_marking ?s N" by (rule lz_marking_move [OF M, where t = t and p = ?q]) (use M p G(4) in \<open>auto simp: lz_marking_def m\<close>)
  moreover have "lz_locks ?s" by (rule lz_locks_same [OF L, where t = t and p = ?q]) (simp_all add: m p)
  moreover have "lz_owners ?s" by (rule lz_owners_move [OF O, where t = t and p = ?q]) (use lz_ownersD [OF O] p in auto)
  ultimately show ?thesis
  proof (intro lz_inv_step [OF I, where s' = ?s and t = t and p = ?q and es = "[SRemove k True]"], goal_cases)
    case (9 u b)
    then have "b \<noteq> c" using lz_locksD(4) [OF L, of b u t] p by auto
    then show ?case by (simp add: m)
  next
    case (10 u b)
    then have "b \<noteq> c" using lz_ownersD(1) [OF O, of b u] G(9) by auto
    then show ?case by (simp add: m)
  qed (use S K G(6) mk mp p lz_invD(7) [OF I, of t] in \<open>auto simp: lz_to_act m lz_shape_def lgap_def at_gap_def\<close>)
qed

lemma lz_unlink:
  assumes I: "lz_inv key s N" and p: "lz_pcs s t = LzRemove k (LrLink p c x)"
  shows "\<exists>N'. lz_inv key (lz_observe (lz_to s t (LzRemove k (LrRetire p c)) (lz_write_next p x (lz_m s)) (lz_used s) (lz_pub s) (lz_retired s) [])) N'"
proof -
  let ?m = "lz_write_next p x (lz_m s)" and ?q = "LzRemove k (LrRetire p c)"
  let ?s = "lz_to s t ?q ?m (lz_used s) (lz_pub s) (lz_retired s) []"
  note S = lz_invD(1) [OF I] and M = lz_invD(2) [OF I] and L = lz_invD(3) [OF I] and O = lz_invD(4) [OF I]
  have K: "lgap key N (lz_m s) k p c" "c \<noteq> TAIL" "key c = k" "lz_marked (lz_m s) c \<noteq> 0" "ls_next (lz_m s) c = x" using lz_invD(5) [OF I, of t] p by auto
  note G = lgap_facts [OF I K(1)]
  obtain N' where N': "listed key ((ls_next (lz_m s))(p := x)) N'" "set N' = set N - {c}" "node_map key N' = (node_map key N)(k := None)"
    using listed_delete [OF lz_shapeD(1) [OF S] G(1,2)] K(2,3,5) G(3) by metis
  have m: "ls_next ?m = (ls_next (lz_m s))(p := x)" "ls_lock ?m = ls_lock (lz_m s)" "lz_marked ?m = lz_marked (lz_m s)" by (auto simp: lz_write_next_def)
  have nm: "node_map key N k = Some c" using listed_found [OF lz_shapeD(1) [OF S] G(1,2), of k] G(3) K(2,3) by simp
  have mp: "lz_map key ?m N' = lz_map key (lz_m s) N" using nm K(4) by (auto simp: lz_map_def N'(3) m fun_eq_iff split: option.split)
  have "ekey key p < ekey key x" using lz_shapeD(4) [OF S G(8,2)] lz_shapeD(4) [OF S G(9) K(2)] G(3) K(5) by simp
  then have S': "lz_shape key ?m N' (lz_pub s)"
    using N'(1,2) S lz_shapeD(3) [OF S G(9) K(2)] K(5) by (auto simp: lz_shape_def m)
  have "lz_marking ?s N'"
    by (rule lz_marking_move [OF M, where t = t and p = ?q]) (use M p K(4) in \<open>auto simp: lz_marking_def m N'(2)\<close>)
  moreover have "lz_locks ?s" by (rule lz_locks_same [OF L, where t = t and p = ?q]) (simp_all add: m p)
  moreover have "lz_owners ?s" by (rule lz_owners_move [OF O, where t = t and p = ?q]) (use lz_ownersD [OF O] p in auto)
  ultimately have "lz_inv key (lz_observe ?s) N'"
  proof (intro lz_inv_step [OF I, where s' = ?s and t = t and p = ?q and es = "[]"], goal_cases)
    case (9 u b)
    then have "b \<noteq> p" "b \<noteq> c" using lz_locksD(4) [OF L, of b u t] p by auto
    then show ?case by (simp add: m N'(2))
  next
    case (10 u b)
    then have "b \<noteq> p" using lz_ownersD(1) [OF O, of b u] G(8) by auto
    then show ?case by (simp add: m)
  next
    case (13 j a y)
    then have "a \<noteq> c" using lz_map_iff [OF lz_shapeD(1) [OF S], of "lz_m s" j a] K(4) by auto
    then show ?case using leads_delete [OF 13(7) G(3,6)] K(5) by (simp add: m)
  qed (use S' mp K(2) G(6,9) p lz_invD(7) [OF I, of t] in \<open>auto simp: lz_to_act N'(2)\<close>)
  then show ?thesis by blast
qed

section \<open>Steps\<close>

lemma cmp_ekey:
  assumes "cmp_ok cmp key" and "c \<noteq> HEAD"
  shows "c \<noteq> TAIL \<and> cmp c k < 0 \<longleftrightarrow> ekey key c < kpos k" "c \<noteq> TAIL \<and> cmp c k = 0 \<longleftrightarrow> ekey key c = kpos k" "c \<noteq> TAIL \<and> cmp c k = 0 \<longleftrightarrow> c \<noteq> TAIL \<and> key c = k"
proof -
  have "kpos k < ekey key TAIL" by simp
  then show "c \<noteq> TAIL \<and> cmp c k < 0 \<longleftrightarrow> ekey key c < kpos k" "c \<noteq> TAIL \<and> cmp c k = 0 \<longleftrightarrow> ekey key c = kpos k" "c \<noteq> TAIL \<and> cmp c k = 0 \<longleftrightarrow> c \<noteq> TAIL \<and> key c = k"
    using assms by (cases "c = TAIL"; auto simp: cmp_ok_def ekey_node kpos_less split: if_splits)+
qed

lemma lz_next:
  assumes I: "lz_inv key s N" and "p \<in> lz_pub s" "p \<noteq> TAIL"
  shows "ls_next (lz_m s) p \<in> lz_pub s" "ls_next (lz_m s) p \<noteq> HEAD" "ekey key p < ekey key (ls_next (lz_m s) p)"
  using lz_shapeD(3,4) [OF lz_invD(1) [OF I] assms(2,3)] by (auto simp: ekey_def split: if_splits)

lemma lz_unmarked:
  assumes I: "lz_inv key s N" and "p \<in> lz_pub s" "lz_marked (lz_m s) p = 0"
  shows "p \<in> set N"
  using lz_invD(2) [OF I] assms(2,3) unfolding lz_marking_def by blast

lemma lz_walk_inv:
  assumes I: "lz_inv key s N" and cmp: "cmp_ok cmp key" and pc: "lz_pcs s t = C w"
    and C: "\<And>w. lz_held (C w) = wl_held w" "\<And>w. lz_own (C w) = Own" "\<And>w. lz_marks (C w) = {}" "\<And>w. lz_gone (C w) = {}" "\<And>w. lz_looks (C w) = None" "\<And>w. C w \<noteq> LzIdle"
      "\<And>w N P m. lz_ok key N P m (C w) \<longleftrightarrow> Q \<and> wl_ok key P m k w"
    and step: "lz_walk cmp k w (lz_m s) = Some (r, m)"
  shows "(\<exists>w'. r = Inl w' \<and> lz_inv key (lz_observe (lz_to s t (C w') m (lz_used s) (lz_pub s) (lz_retired s) [])) N) \<or>
    (\<exists>p c ok. r = Inr (p, c, ok) \<and> m = lz_m s \<and> wl_held w = {p, c} \<and> p \<noteq> c \<and> c \<noteq> HEAD \<and> (ok \<longrightarrow> lgap key N (lz_m s) k p c \<and> lz_marked (lz_m s) c = 0 \<and> kpos k \<le> ekey key c))"
proof -
  have W: "Q" "wl_ok key (lz_pub s) (lz_m s) k w" using lz_invD(5) [OF I, of t] pc C(7) by simp_all
  have t: "lz_pcs s t \<noteq> LzIdle" using C(6) pc by simp
  have loc: "lz_inv key (lz_observe (lz_to s t (C w') (lz_m s) (lz_used s) (lz_pub s) (lz_retired s) [])) N"
    if "wl_ok key (lz_pub s) (lz_m s) k w'" "wl_held w' = wl_held w" for w'
    by (rule lz_local [OF I t]) (use that W(1) C pc in \<open>simp_all add: lz_gets_other\<close>)
  have fnd: "p \<noteq> c \<and> c \<noteq> HEAD \<and> kpos k \<le> ekey key c \<and> p \<in> lz_pub s \<and> c \<in> lz_pub s \<and> p \<noteq> TAIL \<and> ekey key p < kpos k" if "lfound key (lz_pub s) k p c" for p c
    using that kpos_bounds [of k] by (auto simp: lfound_def ekey_def split: if_splits)
  show ?thesis
  proof (cases w)
    case (WlRead p)
    then have p: "p \<in> lz_pub s" "p \<noteq> TAIL" "ekey key p < kpos k" using W by auto
    note nx = lz_next [OF I p(1,2)]
    let ?c = "ls_next (lz_m s) p"
    show ?thesis
    proof (cases "?c \<noteq> TAIL \<and> cmp ?c k < 0")
      case True
      then have "wl_ok key (lz_pub s) (lz_m s) k (WlRead ?c)" using nx cmp_ekey(1) [OF cmp nx(2)] by auto
      then show ?thesis using loc [of "WlRead ?c"] step WlRead True by (auto simp: Let_def)
    next
      case False
      then have "lfound key (lz_pub s) k p ?c" using nx p cmp_ekey(1) [OF cmp nx(2), of k] by (auto simp: lfound_def)
      then have "lz_inv key (lz_observe (lz_to s t (C (WlLock1 p ?c TtasAwait)) (lz_m s) (lz_used s) (lz_pub s) (lz_retired s) [])) N"
        using WlRead by (intro loc) auto
      moreover have "r = Inl (WlLock1 p ?c TtasAwait)" "m = lz_m s" using step WlRead False by (auto simp: Let_def)
      ultimately show ?thesis by blast
    qed
  next
    case (WlLock1 p c a)
    then obtain a' l where a: "ttaslock_acquire a (ls_lock (lz_m s) p) = Some (a', l)" "r = Inl (if a' = TtasReturn then WlLock2 p c TtasAwait else WlLock1 p c a')"
      "m = (lz_m s)\<lparr>ls_lock := (ls_lock (lz_m s))(p := l)\<rparr>" using step by auto
    have f: "lfound key (lz_pub s) k p c" using W WlLock1 by simp
    have "lz_inv key (lz_observe (lz_to s t (C (if a' = TtasReturn then WlLock2 p c TtasAwait else WlLock1 p c a')) ((lz_m s)\<lparr>ls_lock := (ls_lock (lz_m s))(p := l)\<rparr>) (lz_used s) (lz_pub s) (lz_retired s) [])) N"
      by (rule lz_acquire [OF I t _ a(1)]) (use fnd [OF f] f W(1) C pc WlLock1 in auto)
    then show ?thesis using a(2,3) by blast
  next
    case (WlLock2 p c a)
    then obtain a' l where a: "ttaslock_acquire a (ls_lock (lz_m s) c) = Some (a', l)" "r = Inl (if a' = TtasReturn then WlVal1 p c else WlLock2 p c a')"
      "m = (lz_m s)\<lparr>ls_lock := (ls_lock (lz_m s))(c := l)\<rparr>" using step by auto
    have f: "lfound key (lz_pub s) k p c" using W WlLock2 by simp
    have "lz_inv key (lz_observe (lz_to s t (C (if a' = TtasReturn then WlVal1 p c else WlLock2 p c a')) ((lz_m s)\<lparr>ls_lock := (ls_lock (lz_m s))(c := l)\<rparr>) (lz_used s) (lz_pub s) (lz_retired s) [])) N"
      by (rule lz_acquire [OF I t _ a(1)]) (use fnd [OF f] f W(1) C pc WlLock2 in auto)
    then show ?thesis using a(2,3) by blast
  next
    case (WlVal1 p c)
    then show ?thesis using step W fnd [of p c] loc [of "WlVal2 p c"] by (auto simp: vatomic_simps split: if_splits)
  next
    case (WlVal2 p c)
    then show ?thesis using step W fnd [of p c] loc [of "WlVal3 p c"] by (auto simp: vatomic_simps split: if_splits)
  next
    case (WlVal3 p c)
    then have f: "lfound key (lz_pub s) k p c" "lz_marked (lz_m s) p = 0" "lz_marked (lz_m s) c = 0" using W by auto
    have "p \<in> set N" using lz_unmarked [OF I _ f(2)] fnd [OF f(1)] by blast
    then show ?thesis using step WlVal3 f fnd [OF f(1)] by (auto simp: lgap_def at_gap_def)
  qed
qed

definition lz_after :: "lz_sys \<Rightarrow> tid \<Rightarrow> lz_pc \<Rightarrow> lz_pc \<Rightarrow> lz_mem \<Rightarrow> lz_sys" where
  "lz_after s t p p' m = lz_to s t (lz_return p') m (lz_used s - lz_give p) (lz_pub s \<union> lz_publishes p) (lz_retired s \<union> lz_retires p) (lz_log p p')"

lemma lz_add_inv:
  assumes I: "lz_inv key s N" and cmp: "cmp_ok cmp key" and p: "lz_pcs s t = LzAdd k n pc" and st: "vlistset_add_lazy cmp k n pc (lz_m s) = Some (pc', m)"
  shows "\<exists>N'. lz_inv key (lz_observe (lz_after s t (LzAdd k n pc) (LzAdd k n pc') m)) N'"
proof -
  have K: "key n = k" "ladd_ok key N (lz_pub s) (lz_m s) k n pc" using lz_invD(5) [OF I, of t] p by simp_all
  have t: "lz_pcs s t \<noteq> LzIdle" using p by simp
  have n: "n \<notin> lz_pub s" if "n \<in> ladd_own n pc" using lz_ownersD(1) [OF lz_invD(4) [OF I], of n t] p that by simp
  show ?thesis
  proof (cases pc)
    case (LaWalk w)
    obtain r where r: "lz_walk cmp k w (lz_m s) = Some (r, m)" "pc' = (case r of Inl w \<Rightarrow> LaWalk w
       | Inr (p, c, ok) \<Rightarrow> if \<not> ok then LaFree p c None else if c \<noteq> TAIL \<and> cmp c k = 0 then LaFree p c (Some False) else LaInit p c)" using st LaWalk by auto
    have "(\<exists>w'. r = Inl w' \<and> lz_inv key (lz_observe (lz_to s t (LzAdd k n (LaWalk w')) m (lz_used s) (lz_pub s) (lz_retired s) [])) N) \<or>
      (\<exists>p c ok. r = Inr (p, c, ok) \<and> m = lz_m s \<and> wl_held w = {p, c} \<and> p \<noteq> c \<and> c \<noteq> HEAD \<and> (ok \<longrightarrow> lgap key N (lz_m s) k p c \<and> lz_marked (lz_m s) c = 0 \<and> kpos k \<le> ekey key c))"
      by (rule lz_walk_inv [OF I cmp _ _ _ _ _ _ _ _ r(1), where C = "\<lambda>w. LzAdd k n (LaWalk w)" and Own = "{n}" and Q = "key n = k"]) (simp_all add: p LaWalk)
    then show ?thesis
    proof (elim disjE exE conjE)
      fix w' assume "r = Inl w'" "lz_inv key (lz_observe (lz_to s t (LzAdd k n (LaWalk w')) m (lz_used s) (lz_pub s) (lz_retired s) [])) N"
      then show ?thesis using r(2) LaWalk by (auto simp: lz_after_def lz_log_def)
    next
      fix a c ok assume e: "r = Inr (a, c, ok)" "m = lz_m s" "wl_held w = {a, c}" "a \<noteq> c" "c \<noteq> HEAD"
        and g: "ok \<longrightarrow> lgap key N (lz_m s) k a c \<and> lz_marked (lz_m s) c = 0 \<and> kpos k \<le> ekey key c"
      consider "\<not> ok" "pc' = LaFree a c None" | "ok" "c \<noteq> TAIL \<and> cmp c k = 0" "pc' = LaFree a c (Some False)" | "ok" "\<not> (c \<noteq> TAIL \<and> cmp c k = 0)" "pc' = LaInit a c"
        using r(2) e(1) by (cases ok; cases "c \<noteq> TAIL \<and> cmp c k = 0") auto
      then show ?thesis
      proof cases
        case 1
        have "lz_inv key (lz_observe (lz_to s t (LzAdd k n (LaFree a c None)) (lz_m s) (lz_used s) (lz_pub s) (lz_retired s) [])) N"
          by (rule lz_local [OF I t]) (use e K p LaWalk in auto)
        then show ?thesis using 1 e(2) LaWalk by (auto simp: lz_after_def lz_log_def)
      next
        case 2
        then have "lz_map key (lz_m s) N k = Some c"
          using lz_map_iff [OF lz_shapeD(1) [OF lz_invD(1) [OF I]], of "lz_m s" k c] lgap_facts(4) [OF I, of k a c] g e(5) cmp_ekey(3) [OF cmp e(5), of k] by auto
        then have "lz_inv key (lz_observe (lz_to s t (LzAdd k n (LaFree a c (Some False))) (lz_m s) (lz_used s) (lz_pub s) (lz_retired s) [SAdd k n False])) N"
          by (intro lz_local [OF I t]) (use e K p LaWalk in auto)
        then show ?thesis using 2 e(2) LaWalk by (auto simp: lz_after_def lz_log_def)
      next
        case 3
        then have "kpos k < ekey key c" using g cmp_ekey(2) [OF cmp e(5), of k] by auto
        then have "lz_inv key (lz_observe (lz_to s t (LzAdd k n (LaInit a c)) (lz_m s) (lz_used s) (lz_pub s) (lz_retired s) [])) N"
          by (intro lz_local [OF I t]) (use e K p LaWalk g 3(1) in auto)
        then show ?thesis using 3 e(2) LaWalk by (auto simp: lz_after_def lz_log_def)
      qed
    qed
  next
    case (LaInit a c)
    then have g: "lgap key N (lz_m s) k a c" "kpos k < ekey key c" "n \<noteq> a" "n \<noteq> c" using K n lgap_facts(8,9) [OF I, of k a c] by auto
    have "lz_inv key (lz_observe (lz_to s t (LzAdd k n (LaMark a c)) m (lz_used s) (lz_pub s) (lz_retired s) [])) N"
      by (rule lz_private [OF I t, of n]) (use st LaInit p K g in \<open>auto simp: lz_init_lock_def ttaslock_init_def vatomic_simps lgap_def\<close>)
    then show ?thesis using st LaInit by (auto simp: lz_after_def lz_log_def)
  next
    case (LaMark a c)
    then have g: "lgap key N (lz_m s) k a c" "kpos k < ekey key c" "n \<noteq> a" "n \<noteq> c" "ttas_state (ls_lock (lz_m s) n) = 0" using K n lgap_facts(8,9) [OF I, of k a c] by auto
    have "lz_inv key (lz_observe (lz_to s t (LzAdd k n (LaNext a c)) m (lz_used s) (lz_pub s) (lz_retired s) [])) N"
      by (rule lz_private [OF I t, of n]) (use st LaMark p K g in \<open>auto simp: lz_write_mark_def vatomic_simps lgap_def\<close>)
    then show ?thesis using st LaMark by (auto simp: lz_after_def lz_log_def)
  next
    case (LaNext a c)
    then have g: "lgap key N (lz_m s) k a c" "kpos k < ekey key c" "n \<noteq> a" "n \<noteq> c" using K n lgap_facts(8,9) [OF I, of k a c] by auto
    have "lz_inv key (lz_observe (lz_to s t (LzAdd k n (LaLink a c)) m (lz_used s) (lz_pub s) (lz_retired s) [])) N"
      by (rule lz_private [OF I t, of n]) (use st LaNext p K g in \<open>auto simp: lz_write_next_def lgap_def at_gap_def\<close>)
    then show ?thesis using st LaNext by (auto simp: lz_after_def lz_log_def)
  next
    case (LaLink a c)
    then show ?thesis using lz_insert [OF I, of t k n a c] p st by (auto simp: lz_after_def lz_log_def)
  next
    case (LaFree a c r)
    have "lz_inv key (lz_observe (lz_to s t (LzAdd k n (LaFree2 c r)) (lz_unlock a (lz_m s)) (lz_used s) (lz_pub s) (lz_retired s) [])) N"
      by (rule lz_release [OF I t]) (use LaFree p K in auto)
    then show ?thesis using st LaFree by (auto simp: lz_after_def lz_log_def)
  next
    case (LaFree2 c r)
    have h: "HEAD \<in> lz_pub s" using lz_shapeD(1,2) [OF lz_invD(1) [OF I]] by (metis hd_in_set listed_def)
    have "lz_inv key (lz_observe (lz_to s t (lz_return (LzAdd k n pc')) (lz_unlock c (lz_m s)) (lz_used s - lz_give (LzAdd k n pc)) (lz_pub s) (lz_retired s) [])) N"
      by (rule lz_release [OF I t]) (use LaFree2 p K st h kpos_bounds [of k] in \<open>auto split: option.splits if_splits\<close>)
    then show ?thesis using st LaFree2 by (auto simp: lz_after_def lz_log_def split: option.splits)
  next
    case (LaDone r)
    then show ?thesis using st by simp
  qed
qed

lemma lz_remove_inv:
  assumes I: "lz_inv key s N" and cmp: "cmp_ok cmp key" and p: "lz_pcs s t = LzRemove k pc" and st: "vlistset_remove_lazy cmp k pc (lz_m s) = Some (pc', m)"
  shows "\<exists>N'. lz_inv key (lz_observe (lz_after s t (LzRemove k pc) (LzRemove k pc') m)) N'"
proof -
  have K: "lremove_ok key N (lz_pub s) (lz_m s) k pc" using lz_invD(5) [OF I, of t] p by simp
  have t: "lz_pcs s t \<noteq> LzIdle" using p by simp
  show ?thesis
  proof (cases pc)
    case (LrWalk w)
    obtain r where r: "lz_walk cmp k w (lz_m s) = Some (r, m)" "pc' = (case r of Inl w \<Rightarrow> LrWalk w
       | Inr (p, c, ok) \<Rightarrow> if \<not> ok then LrFree p c None else if c \<noteq> TAIL \<and> cmp c k = 0 then LrMark p c else LrFree p c (Some False))" using st LrWalk by auto
    have "(\<exists>w'. r = Inl w' \<and> lz_inv key (lz_observe (lz_to s t (LzRemove k (LrWalk w')) m (lz_used s) (lz_pub s) (lz_retired s) [])) N) \<or>
      (\<exists>p c ok. r = Inr (p, c, ok) \<and> m = lz_m s \<and> wl_held w = {p, c} \<and> p \<noteq> c \<and> c \<noteq> HEAD \<and> (ok \<longrightarrow> lgap key N (lz_m s) k p c \<and> lz_marked (lz_m s) c = 0 \<and> kpos k \<le> ekey key c))"
      by (rule lz_walk_inv [OF I cmp _ _ _ _ _ _ _ _ r(1), where C = "\<lambda>w. LzRemove k (LrWalk w)" and Own = "{}" and Q = True]) (simp_all add: p LrWalk)
    then show ?thesis
    proof (elim disjE exE conjE)
      fix w' assume "r = Inl w'" "lz_inv key (lz_observe (lz_to s t (LzRemove k (LrWalk w')) m (lz_used s) (lz_pub s) (lz_retired s) [])) N"
      then show ?thesis using r(2) LrWalk by (auto simp: lz_after_def lz_log_def)
    next
      fix a c ok assume e: "r = Inr (a, c, ok)" "m = lz_m s" "wl_held w = {a, c}" "a \<noteq> c" "c \<noteq> HEAD"
        and g: "ok \<longrightarrow> lgap key N (lz_m s) k a c \<and> lz_marked (lz_m s) c = 0 \<and> kpos k \<le> ekey key c"
      consider "\<not> ok" "pc' = LrFree a c None" | "ok" "c \<noteq> TAIL \<and> cmp c k = 0" "pc' = LrMark a c" | "ok" "\<not> (c \<noteq> TAIL \<and> cmp c k = 0)" "pc' = LrFree a c (Some False)"
        using r(2) e(1) by (cases ok; cases "c \<noteq> TAIL \<and> cmp c k = 0") auto
      then show ?thesis
      proof cases
        case 1
        have "lz_inv key (lz_observe (lz_to s t (LzRemove k (LrFree a c None)) (lz_m s) (lz_used s) (lz_pub s) (lz_retired s) [])) N"
          by (rule lz_local [OF I t]) (use e K p LrWalk in auto)
        then show ?thesis using 1 e(2) LrWalk by (auto simp: lz_after_def lz_log_def)
      next
        case 2
        then have "lz_inv key (lz_observe (lz_to s t (LzRemove k (LrMark a c)) (lz_m s) (lz_used s) (lz_pub s) (lz_retired s) [])) N"
          by (intro lz_local [OF I t]) (use e K p LrWalk g 2 cmp_ekey(3) [OF cmp e(5), of k] in auto)
        then show ?thesis using 2 e(2) LrWalk by (auto simp: lz_after_def lz_log_def)
      next
        case 3
        then have "kpos k < ekey key c" using g cmp_ekey(2) [OF cmp e(5), of k] by auto
        then have "node_map key N k = None"
          using listed_absent [OF lz_shapeD(1) [OF lz_invD(1) [OF I]], of a k] lgap_facts [OF I, of k a c] g 3(1) by auto
        then have "lz_map key (lz_m s) N k = None" by (simp add: lz_map_def)
        then have "lz_inv key (lz_observe (lz_to s t (LzRemove k (LrFree a c (Some False))) (lz_m s) (lz_used s) (lz_pub s) (lz_retired s) [SRemove k False])) N"
          by (intro lz_local [OF I t]) (use e K p LrWalk in \<open>auto simp: fun_upd_idem\<close>)
        then show ?thesis using 3 e(2) LrWalk by (auto simp: lz_after_def lz_log_def)
      qed
    qed
  next
    case (LrMark a c)
    then show ?thesis using lz_mark [OF I, of t k a c] p st by (auto simp: lz_after_def lz_log_def)
  next
    case (LrRead a c)
    have "lz_inv key (lz_observe (lz_to s t (LzRemove k (LrLink a c (ls_next (lz_m s) c))) (lz_m s) (lz_used s) (lz_pub s) (lz_retired s) [])) N"
      by (rule lz_local [OF I t]) (use K p LrRead in auto)
    then show ?thesis using st LrRead by (auto simp: lz_after_def lz_log_def)
  next
    case (LrLink a c x)
    then show ?thesis using lz_unlink [OF I, of t k a c x] p st by (auto simp: lz_after_def lz_log_def)
  next
    case (LrRetire a c)
    have "lz_inv key (lz_observe (lz_to s t (LzRemove k (LrFree a c (Some True))) (lz_m s) (lz_used s) (lz_pub s) (lz_retired s \<union> {c}) [])) N"
      by (rule lz_local [OF I t]) (use K p LrRetire in auto)
    then show ?thesis using st LrRetire by (auto simp: lz_after_def lz_log_def)
  next
    case (LrFree a c r)
    have "lz_inv key (lz_observe (lz_to s t (LzRemove k (LrFree2 c r)) (lz_unlock a (lz_m s)) (lz_used s) (lz_pub s) (lz_retired s) [])) N"
      by (rule lz_release [OF I t]) (use LrFree p K in auto)
    then show ?thesis using st LrFree by (auto simp: lz_after_def lz_log_def)
  next
    case (LrFree2 c r)
    have h: "HEAD \<in> lz_pub s" using lz_shapeD(1,2) [OF lz_invD(1) [OF I]] by (metis hd_in_set listed_def)
    have "lz_inv key (lz_observe (lz_to s t (lz_return (LzRemove k pc')) (lz_unlock c (lz_m s)) (lz_used s) (lz_pub s) (lz_retired s) [])) N"
      by (rule lz_release [OF I t]) (use LrFree2 p K st h kpos_bounds [of k] in \<open>auto split: option.splits if_splits\<close>)
    then show ?thesis using st LrFree2 by (auto simp: lz_after_def lz_log_def split: option.splits)
  next
    case (LrDone r)
    then show ?thesis using st by simp
  qed
qed

lemma leads_same_key:
  assumes I: "lz_inv key s N" and "leads (ls_next (lz_m s)) c a" and "c \<in> lz_pub s" and "ekey key c = ekey key a"
  shows "c = a"
proof (rule ccontr)
  note S = lz_invD(1) [OF I]
  assume "c \<noteq> a"
  then have c: "c \<noteq> TAIL" "leads (ls_next (lz_m s)) (ls_next (lz_m s) c) a" using leads_cases [OF assms(2)] by auto
  then show False using leads_ekey [OF c(2) S] lz_shapeD(3,4) [OF S assms(3) c(1)] assms(4) by auto
qed

lemma lz_lookup:
  assumes I: "lz_inv key s N" and p: "lz_pcs s t = LzGet k (LgRead p)" and "t \<notin> lz_miss s"
  shows "\<exists>a. lz_map key (lz_m s) N k = Some a \<and> ekey key a = kpos k \<and> leads (ls_next (lz_m s)) (ls_next (lz_m s) p) a \<and> ekey key (ls_next (lz_m s) p) \<le> kpos k"
proof -
  note S = lz_invD(1) [OF I]
  have o: "p \<in> lz_pub s" "p \<noteq> TAIL" "ekey key p < kpos k" using lz_invD(5) [OF I, of t] p by auto
  obtain a where a: "lz_map key (lz_m s) N k = Some a" "leads (ls_next (lz_m s)) p a" using lz_invD(6) [OF I, of t] p assms(3) by auto
  have e: "ekey key a = kpos k" using a(1) lz_map_iff [OF lz_shapeD(1) [OF S], of "lz_m s" k a] by (auto simp: ekey_node)
  then have n: "leads (ls_next (lz_m s)) (ls_next (lz_m s) p) a" using leads_cases [OF a(2)] o(3) by auto
  then show ?thesis using a(1) e leads_ekey [OF n S lz_next(1) [OF I o(1,2)]] by auto
qed

lemma lz_get_none:
  assumes I: "lz_inv key s N" and cmp: "cmp_ok cmp key" and p: "lz_pcs s t = LzGet k pc" and st: "vlistset_get_lazy cmp k pc (lz_m s) = Some (LgDone None, m)"
  shows "t \<in> lz_miss s"
proof (rule ccontr)
  assume n: "t \<notin> lz_miss s"
  note S = lz_invD(1) [OF I]
  show False
  proof (cases pc)
    case (LgRead x)
    have o: "x \<in> lz_pub s" "x \<noteq> TAIL" using lz_invD(5) [OF I, of t] p LgRead by auto
    show False using st LgRead lz_lookup [OF I, of t k x] p n cmp_ekey(1,2) [OF cmp lz_next(2) [OF I o], of k] by (auto simp: Let_def split: if_splits)
  next
    case (LgMarked c)
    then have "lz_map key (lz_m s) N k = Some c" using lz_invD(6) [OF I, of t] p n by simp
    then have "lz_marked (lz_m s) c = 0" using lz_map_iff [OF lz_shapeD(1) [OF S], of "lz_m s" k c] by auto
    then show False using st LgMarked by (simp add: vatomic_simps)
  qed (use st in simp)
qed

lemma lz_get_inv:
  assumes I: "lz_inv key s N" and cmp: "cmp_ok cmp key" and p: "lz_pcs s t = LzGet k pc" and st: "vlistset_get_lazy cmp k pc (lz_m s) = Some (pc', m)"
  shows "\<exists>N'. lz_inv key (lz_observe (lz_after s t (LzGet k pc) (LzGet k pc') m)) N'"
proof -
  note S = lz_invD(1) [OF I]
  have t: "lz_pcs s t \<noteq> LzIdle" using p by simp
  have go: "\<exists>N'. lz_inv key (lz_observe (lz_after s t (LzGet k pc) (LzGet k pc') m)) N'"
    if "m = lz_m s" "lz_ok key N (lz_pub s) (lz_m s) (lz_return (LzGet k pc'))" "set_replay (lz_found (LzGet k pc')) (lz_map key (lz_m s) N) = Some (lz_map key (lz_m s) N)"
      "t \<notin> lz_miss s \<Longrightarrow> lz_gets key (lz_m s) N False (lz_return (LzGet k pc'))"
  proof -
    have "lz_gets key (lz_m s) N True (lz_return (LzGet k pc'))" by (cases pc') auto
    then have "lz_inv key (lz_observe (lz_to s t (lz_return (LzGet k pc')) (lz_m s) (lz_used s) (lz_pub s) (lz_retired s) (lz_found (LzGet k pc')))) N"
      using that(2-4) p by (intro lz_local [OF I t]; cases pc'; cases "t \<in> lz_miss s"; auto)
    then show ?thesis using that(1) by (auto simp: lz_after_def lz_log_def)
  qed
  show ?thesis
  proof (cases pc)
    case (LgRead x)
    have o: "x \<in> lz_pub s" "x \<noteq> TAIL" "ekey key x < kpos k" using lz_invD(5) [OF I, of t] p LgRead by auto
    note nx = lz_next [OF I o(1,2)] and look = lz_lookup [OF I, of t k x]
    let ?c = "ls_next (lz_m s) x"
    have m: "m = lz_m s" using st LgRead by (auto simp: Let_def)
    consider "?c \<noteq> TAIL \<and> cmp ?c k < 0" "pc' = LgRead ?c" | "?c \<noteq> TAIL \<and> cmp ?c k = 0" "pc' = LgMarked ?c" | "pc' = LgDone None"
      using st LgRead by (auto simp: Let_def split: if_splits)
    then show ?thesis
    proof cases
      case 1
      show ?thesis by (rule go [OF m]) (use 1 nx cmp_ekey(1) [OF cmp nx(2), of k] look p LgRead in auto)
    next
      case 2
      have e: "ekey key ?c = kpos k" "key ?c = k" using 2(1) cmp_ekey(2,3) [OF cmp nx(2), of k] by auto
      have "lz_map key (lz_m s) N k = Some ?c" if nm: "t \<notin> lz_miss s"
      proof -
        obtain a where a: "lz_map key (lz_m s) N k = Some a" "ekey key a = kpos k" "leads (ls_next (lz_m s)) ?c a" using look nm p LgRead by auto
        then show ?thesis using leads_same_key [OF I a(3) nx(1)] e(1) by simp
      qed
      then show ?thesis by (intro go [OF m]) (use 2 nx e in auto)
    next
      case 3
      show ?thesis by (rule go [OF m]) (use 3 in auto)
    qed
  next
    case (LgMarked c)
    have o: "c \<in> lz_pub s" "c \<noteq> TAIL" "c \<noteq> HEAD" "key c = k" using lz_invD(5) [OF I, of t] p LgMarked by auto
    have m: "m = lz_m s" using st LgMarked by auto
    have "lz_map key (lz_m s) N k = Some c" if "lz_marked (lz_m s) c = 0"
      using lz_map_iff [OF lz_shapeD(1) [OF S], of "lz_m s" k c] o lz_unmarked [OF I o(1) that] that by simp
    then show ?thesis by (intro go [OF m]) (use st LgMarked in \<open>auto simp: vatomic_simps\<close>)
  qed (use st in simp)
qed

lemma lz_begin_inv:
  assumes I: "lz_inv key s N" and i: "lz_pcs s t = LzIdle" and p: "lz_held p = {}" "lz_own p \<subseteq> A" "lz_ok key N (lz_pub s) (lz_m s) p" "lz_marks p = {}" "lz_gone p = {}"
    and A: "A \<inter> lz_used s = {}" and g: "lz_gets key (lz_m s) N (\<exists>k. lz_looks p = Some k \<and> lz_map key (lz_m s) N k = None) p"
  shows "lz_inv key (lz_observe (lz_begin s t p A)) N"
proof -
  let ?s = "lz_begin s t p A"
  note S = lz_invD(1) [OF I] and M = lz_invD(2) [OF I] and L = lz_invD(3) [OF I] and O = lz_invD(4) [OF I]
  have b: "lz_m ?s = lz_m s" "lz_pcs ?s = (lz_pcs s)(t := p)" "lz_active ?s = t # lz_active s" "lz_used ?s = lz_used s \<union> A" "lz_pub ?s = lz_pub s"
    "lz_retired ?s = lz_retired s" "lz_hist ?s = lz_hist s @ []" "lz_miss ?s = lz_miss s" by (simp_all add: lz_begin_def)
  have "lz_marking ?s N" by (rule lz_marking_move [OF M b(2)]) (use M p i in \<open>auto simp: lz_marking_def b\<close>)
  moreover have "lz_locks ?s" by (rule lz_locks_same [OF L b(2)]) (simp_all add: b p i)
  moreover have "lz_owners ?s"
    by (rule lz_owners_move [OF O b(2)]) (use p(2) A lz_ownersD [OF O] in \<open>auto 4 3 simp: b\<close>)
  ultimately show ?thesis
    by (intro lz_inv_step [OF I b(2,7)]) (use S p(3) lz_gets_frame [OF g, where P = UNIV] in \<open>auto simp: b\<close>)
qed

lemma lz_reclaim_inv:
  assumes I: "lz_inv key s N" and a: "lz_active s = []"
  shows "lz_inv key (s\<lparr>lz_used := lz_used s - lz_retired s, lz_pub := lz_pub s - lz_retired s, lz_retired := {}\<rparr>) N"
proof -
  let ?s = "s\<lparr>lz_used := lz_used s - lz_retired s, lz_pub := lz_pub s - lz_retired s, lz_retired := {}\<rparr>"
  note S = lz_invD(1) [OF I] and M = lz_invD(2) [OF I] and L = lz_invD(3) [OF I] and O = lz_invD(4) [OF I]
  have idle: "lz_pcs s t = LzIdle" for t using lz_invD(7) [OF I, of t] a by auto
  have in_N: "b \<in> set N" if "b \<in> lz_pub s" "b \<notin> lz_retired s" for b using M that idle unfolding lz_marking_def by auto
  have N: "b \<in> lz_pub s - lz_retired s" if "b \<in> set N" for b using M that lz_shapeD(2) [OF S that] unfolding lz_marking_def by auto
  have "lz_shape key (lz_m s) N (lz_pub s - lz_retired s)"
  proof -
    have "ls_next (lz_m s) b \<in> lz_pub s - lz_retired s \<and> ekey key b < ekey key (ls_next (lz_m s) b)" if "b \<in> lz_pub s - lz_retired s" "b \<noteq> TAIL" for b
      using N listed_next [OF lz_shapeD(1) [OF S] in_N that(2)] lz_shapeD(4) [OF S, of b] that by auto
    then show ?thesis using lz_shapeD(1) [OF S] N unfolding lz_shape_def by blast
  qed
  moreover have "lz_marking ?s N" using M in_N by (auto simp: lz_marking_def)
  moreover have "lz_locks ?s" using L by (auto simp: lz_locks_def idle)
  moreover have "lz_owners ?s" using lz_ownersD(4) [OF O] by (auto simp: lz_owners_def idle)
  ultimately show ?thesis using lz_invD(8) [OF I] by (simp add: lz_inv_def idle)
qed

lemma lz_step_inv:
  assumes I: "lz_inv key s N" and cmp: "cmp_ok cmp key" and st: "lz_step cmp (t, cmd) s = Some s'"
  shows "\<exists>N'. lz_inv key s' N'"
proof -
  note S = lz_invD(1) [OF I]
  have h: "HEAD \<in> lz_pub s" using lz_shapeD(1,2) [OF S] by (metis hd_in_set listed_def)
  have lead: "leads (ls_next (lz_m s)) HEAD a" if "lz_map key (lz_m s) N k = Some a" for k a
    using leads_listed [OF lz_shapeD(1) [OF S], of a] that lz_map_iff [OF lz_shapeD(1) [OF S], of "lz_m s" k a] by auto
  show ?thesis
  proof (cases cmd)
    case (LcAdd k n)
    then have c: "lz_pcs s t = LzIdle" "n \<notin> lz_used s" "cmp n k = 0" "s' = lz_observe (lz_begin s t (LzAdd k n (LaWalk (WlRead HEAD))) {n})" using st by (auto split: if_splits)
    have "key n = k" using c(3) cmp by (auto simp: cmp_ok_def split: if_splits)
    then have "lz_inv key s' N" unfolding c(4) by (intro lz_begin_inv [OF I c(1)]) (use h c(2) kpos_bounds [of k] in auto)
    then show ?thesis by blast
  next
    case (LcRemove k)
    then have c: "lz_pcs s t = LzIdle" "s' = lz_observe (lz_begin s t (LzRemove k (LrWalk (WlRead HEAD))) {})" using st by (auto split: if_splits)
    have "lz_inv key s' N" unfolding c(2) by (intro lz_begin_inv [OF I c(1)]) (use h kpos_bounds [of k] in auto)
    then show ?thesis by blast
  next
    case (LcGet k)
    then have c: "lz_pcs s t = LzIdle" "s' = lz_observe (lz_begin s t (LzGet k (LgRead HEAD)) {})" using st by (auto split: if_splits)
    have "lz_inv key s' N" unfolding c(2)
      by (intro lz_begin_inv [OF I c(1)]) (use h kpos_bounds [of k] lead in \<open>auto intro: lead\<close>)
    then show ?thesis by blast
  next
    case LcRun
    then obtain p' m where r: "lz_call cmp (lz_pcs s t) (lz_m s) = Some (p', m)" "s' = lz_observe (lz_after s t (lz_pcs s t) p' m)"
      using st by (auto simp: lz_run_def lz_after_def Let_def)
    show ?thesis
    proof (cases "lz_pcs s t")
      case (LzAdd k n pc)
      then show ?thesis using r lz_add_inv [OF I cmp LzAdd] by auto
    next
      case (LzRemove k pc)
      then show ?thesis using r lz_remove_inv [OF I cmp LzRemove] by auto
    next
      case (LzGet k pc)
      then show ?thesis using r lz_get_inv [OF I cmp LzGet] by auto
    qed (use r in simp)
  next
    case LcReclaim
    then show ?thesis using st lz_reclaim_inv [OF I] by (auto split: if_splits)
  qed
qed

section \<open>Linearizability\<close>

lemma lz_inv_start: "lz_inv key (lz_start m) [HEAD, TAIL]"
proof -
  have m: "ls_next (lz_m (lz_start m)) HEAD = TAIL" "lz_marked (lz_m (lz_start m)) HEAD = 0" "lz_marked (lz_m (lz_start m)) TAIL = 0"
    "ttas_state (ls_lock (lz_m (lz_start m)) HEAD) = 0" "ttas_state (ls_lock (lz_m (lz_start m)) TAIL) = 0"
    by (auto simp: lz_start_def vlistset_init_lazy_def lz_init_lock_def lz_write_mark_def lz_write_next_def ttaslock_init_def vatomic_simps)
  have "lz_map key (lz_m (lz_start m)) [HEAD, TAIL] = Map.empty" by (auto simp: lz_map_def node_map_def fun_eq_iff)
  moreover have "lz_shape key (lz_m (lz_start m)) [HEAD, TAIL] {HEAD, TAIL}" using m(1) by (auto simp: lz_shape_def listed_def ekey_def)
  moreover have "lz_pcs (lz_start m) = (\<lambda>_. LzIdle)" "lz_pub (lz_start m) = {HEAD, TAIL}" "lz_used (lz_start m) = {HEAD, TAIL, NULLP}" "lz_retired (lz_start m) = {}" "lz_hist (lz_start m) = []"
    by (simp_all add: lz_start_def)
  ultimately show ?thesis using m by (simp add: lz_inv_def lz_marking_def lz_locks_def lz_owners_def)
qed

lemma lz_reach_inv:
  assumes "cmp_ok cmp key" and "reach (lz_step cmp) (lz_start m) s"
  shows "\<exists>N. lz_inv key s N"
  using assms(2)
proof (induction rule: reach.induct)
  case reach_init
  show ?case using lz_inv_start by blast
next
  case (reach_step u a v)
  then show ?case using lz_step_inv [OF _ assms(1)] by (cases a) blast
qed

lemma visit_lazy_linked:
  assumes "linked (ls_next m) (c # xs @ [TAIL])" and "TAIL \<notin> set (c # xs)"
  shows "visit_loop_lazy d m c = Some (filter (\<lambda>a. d \<or> lz_marked m a = 0) (c # xs))"
  using assms
proof (induction xs arbitrary: c)
  case Nil
  then show ?case by (subst visit_loop_lazy.simps, subst visit_loop_lazy.simps) simp
next
  case (Cons b xs)
  then show ?case by (subst visit_loop_lazy.simps) simp
qed

lemma listed_inner:
  assumes "listed key nx N"
  obtains xs where "N = HEAD # xs @ [TAIL]" "sorted_wrt (<) (map key xs)" "HEAD \<notin> set xs" "TAIL \<notin> set xs"
proof -
  obtain ys where ys: "N = HEAD # ys" using assms by (cases N) (auto simp: listed_def)
  moreover have "ys \<noteq> []" "last ys = TAIL" using assms ys by (auto simp: listed_def split: if_splits)
  ultimately have N: "N = HEAD # butlast ys @ [TAIL]" by (metis append_butlast_last_id)
  have d: "distinct N" "sorted_wrt (<) (map (ekey key) N)" using assms listed_distinct(1) [OF assms] by (auto simp: listed_def)
  have x: "HEAD \<notin> set (butlast ys)" "TAIL \<notin> set (butlast ys)" using d(1) unfolding N by auto
  then have xx: "a \<noteq> HEAD" "a \<noteq> TAIL" if "a \<in> set (butlast ys)" for a using that by auto
  have "sorted_wrt (\<lambda>a b. ekey key a < ekey key b) (butlast ys)" using d(2) unfolding N by (simp add: sorted_wrt_append sorted_wrt_map)
  then have "sorted_wrt (<) (map key (butlast ys))"
    unfolding sorted_wrt_map by (rule sorted_wrt_mono_rel [rotated]) (simp add: ekey_node kpos_less xx)
  then show ?thesis using that N x by blast
qed

lemma visit_lazy_listed:
  assumes "listed key (ls_next m) N"
  obtains xs where "vlistset_visit_lazy False m = Some xs" "sorted_wrt (<) (map key xs)" "lz_map key m N = map_of (map (\<lambda>a. (key a, a)) xs)"
proof -
  obtain ys where N: "N = HEAD # ys @ [TAIL]" "sorted_wrt (<) (map key ys)" "HEAD \<notin> set ys" "TAIL \<notin> set ys" by (rule listed_inner [OF assms])
  let ?xs = "filter (\<lambda>a. lz_marked m a = 0) ys"
  have l: "linked (ls_next m) (HEAD # ys @ [TAIL])" using assms by (simp add: listed_def N)
  have v: "vlistset_visit_lazy False m = Some ?xs"
  proof (cases ys)
    case Nil
    then show ?thesis using l unfolding vlistset_visit_lazy_def by (subst visit_loop_lazy.simps) simp
  next
    case (Cons a zs)
    then show ?thesis using l visit_lazy_linked [of m a zs False] N(4) by (simp add: vlistset_visit_lazy_def)
  qed
  have s: "sorted_wrt (<) (map key ?xs)" using N(2) by (simp add: sorted_wrt_map sorted_wrt_filter)
  have "lz_map key m N k = map_of (map (\<lambda>a. (key a, a)) ?xs) k" for k
  proof (rule option_ext)
    fix a
    have "map_of (map (\<lambda>a. (key a, a)) ?xs) k = Some a \<longleftrightarrow> a \<in> set ?xs \<and> key a = k"
      using s by (subst map_of_eq_Some_iff) (auto simp: comp_def strict_sorted_iff)
    then show "(lz_map key m N k = Some a) = (map_of (map (\<lambda>a. (key a, a)) ?xs) k = Some a)"
      using lz_map_iff [OF assms, of m k a] N by auto
  qed
  then have "lz_map key m N = map_of (map (\<lambda>a. (key a, a)) ?xs)" by blast
  then show ?thesis using that v s by blast
qed


text \<open>
  A lookup of 7 stands at the node of 5 while that node is removed and finds 7 from there; a lookup of 5 that starts at the same time finds nothing.
\<close>

definition lz_example :: "(tid \<times> lz_cmd) list" where
  "lz_example = (0, LcAdd 5 10) # replicate 14 (0, LcRun) @ (0, LcAdd 7 11) # replicate 15 (0, LcRun) @ [(3, LcGet 7), (3, LcRun), (4, LcGet 5), (4, LcRun)] @
     (1, LcRemove 5) # replicate 14 (1, LcRun) @ replicate 2 (3, LcRun) @ [(4, LcRun), (0, LcReclaim)]"

definition lz_example_start :: lz_sys where
  "lz_example_start = lz_start \<lparr>ls_lock = (\<lambda>_. \<lparr>ttas_state = 9\<rparr>), ls_next = (\<lambda>_. 0), lz_marked = (\<lambda>_. 3)\<rparr>"

lemma lz_example_runs:
  "map_option (\<lambda>s. (lz_hist s, vlistset_visit_lazy False (lz_m s))) (exec (lz_step cmp_example) lz_example lz_example_start) =
     Some ([SAdd 5 10 True, SAdd 7 11 True, SRemove 5 True, SGet 7 (Some 11)], Some [11])"
  by code_simp


end
