(* ===== verification/Listset_Lf.thy ===== *)
theory Listset_Lf
  imports Listset_Lazy
begin

text \<open>
  The lock-free list set, \<^verbatim>\<open>map/listset_lf.h\<close>, after Harris and Michael. The link of a node carries a mark; a marked node is
  removed and its link never changes again. Searches unlink the marked nodes that they meet. A link with its mark is a pair here; \<open>Tagged_Ptr\<close>
  shows that the words of \<^verbatim>\<open>atomicptr_markable.h\<close> are such pairs. One step is one access to a link, with the local tests that follow it.
\<close>

section \<open>Operations\<close>

type_synonym lf_mem = "addr \<Rightarrow> addr \<times> bool"

definition markable_cmpxchg :: "addr \<times> bool \<Rightarrow> addr \<Rightarrow> bool \<Rightarrow> addr \<Rightarrow> bool \<Rightarrow> bool \<times> addr \<times> bool" where
  "markable_cmpxchg w a am b bm = (if w = (a, am) then (True, b, bm) else (False, w))"

definition vlistset_init_lf :: "lf_mem \<Rightarrow> lf_mem" where
  "vlistset_init_lf m = m(HEAD := (TAIL, False), TAIL := (NULLP, False))"

text \<open>\<open>FdRetire\<close> is the call of the retire handler after a successful unlinking.\<close>

datatype find_pc = FdHead | FdGet addr addr | FdSnip addr addr addr | FdRetire addr addr addr

text \<open>The test after the inner loop, and the condition of the outer loop.\<close>

definition find_test :: "(addr \<Rightarrow> key \<Rightarrow> int) \<Rightarrow> key \<Rightarrow> addr \<Rightarrow> addr \<Rightarrow> addr \<Rightarrow> find_pc + addr \<times> addr" where
  "find_test cmp k p c succ = (if c = TAIL \<or> cmp c k \<ge> 0 then Inr (p, c) else if succ \<noteq> TAIL then Inl (FdGet c succ) else Inr (c, TAIL))"

fun vlistset_find_loop :: "(addr \<Rightarrow> key \<Rightarrow> int) \<Rightarrow> key \<Rightarrow> find_pc \<Rightarrow> lf_mem \<Rightarrow> (find_pc + addr \<times> addr) \<times> lf_mem" where
  "vlistset_find_loop cmp k FdHead m = (let c = fst (m HEAD) in (if c \<noteq> TAIL then Inl (FdGet HEAD c) else Inr (HEAD, c), m))"
| "vlistset_find_loop cmp k (FdGet p c) m = (let (succ, marked) = m c in (if marked then Inl (FdSnip p c succ) else find_test cmp k p c succ, m))"
| "vlistset_find_loop cmp k (FdSnip p c succ) m =
     (let (snip, w) = markable_cmpxchg (m p) c False succ False in (if \<not> snip then Inl FdHead else Inl (FdRetire p c succ), m(p := w)))"
| "vlistset_find_loop cmp k (FdRetire p c succ) m = (if succ = TAIL then find_test cmp k p c succ else Inl (FdGet p succ), m)"

datatype fadd_pc = FaFind find_pc | FaWrite addr addr | FaCas addr addr | FaDone bool

fun vlistset_add_lf :: "(addr \<Rightarrow> key \<Rightarrow> int) \<Rightarrow> key \<Rightarrow> addr \<Rightarrow> fadd_pc \<Rightarrow> lf_mem \<Rightarrow> (fadd_pc \<times> lf_mem) option" where
  "vlistset_add_lf cmp k node (FaFind f) m =
     (case vlistset_find_loop cmp k f m of (r, m) \<Rightarrow>
        Some (case r of Inl f \<Rightarrow> FaFind f | Inr (p, c) \<Rightarrow> if TAIL \<noteq> c \<and> cmp c k = 0 then FaDone False else FaWrite p c, m))"
| "vlistset_add_lf cmp k node (FaWrite p c) m = Some (FaCas p c, m(node := (c, False)))"
| "vlistset_add_lf cmp k node (FaCas p c) m =
     (let (ok, w) = markable_cmpxchg (m p) c False node False in Some (if ok then FaDone True else FaFind FdHead, m(p := w)))"
| "vlistset_add_lf cmp k node (FaDone b) m = None"

datatype fremove_pc = FrFind find_pc | FrSucc addr addr | FrMark addr addr addr | FrDetach addr addr addr | FrRetire addr | FrDone bool

fun vlistset_remove_lf :: "(addr \<Rightarrow> key \<Rightarrow> int) \<Rightarrow> key \<Rightarrow> fremove_pc \<Rightarrow> lf_mem \<Rightarrow> (fremove_pc \<times> lf_mem) option" where
  "vlistset_remove_lf cmp k (FrFind f) m =
     (case vlistset_find_loop cmp k f m of (r, m) \<Rightarrow>
        Some (case r of Inl f \<Rightarrow> FrFind f | Inr (p, c) \<Rightarrow> if TAIL = c \<or> cmp c k \<noteq> 0 then FrDone False else FrSucc p c, m))"
| "vlistset_remove_lf cmp k (FrSucc p c) m = Some (FrMark p c (fst (m c)), m)"
| "vlistset_remove_lf cmp k (FrMark p c succ) m =
     (let (snip, w) = markable_cmpxchg (m c) succ False succ True in Some (if \<not> snip then FrFind FdHead else FrDetach p c succ, m(c := w)))"
| "vlistset_remove_lf cmp k (FrDetach p c succ) m =
     (let (detached, w) = markable_cmpxchg (m p) c False succ False in Some (if detached then FrRetire c else FrDone True, m(p := w)))"
| "vlistset_remove_lf cmp k (FrRetire c) m = Some (FrDone True, m)"
| "vlistset_remove_lf cmp k (FrDone b) m = None"

datatype fget_pc = FgRead addr | FgMark addr | FgDone "addr option"

fun vlistset_get_lf :: "(addr \<Rightarrow> key \<Rightarrow> int) \<Rightarrow> key \<Rightarrow> fget_pc \<Rightarrow> lf_mem \<Rightarrow> (fget_pc \<times> lf_mem) option" where
  "vlistset_get_lf cmp k (FgRead p) m =
     (let c = fst (m p) in Some (if TAIL \<noteq> c \<and> cmp c k < 0 then FgRead c else if TAIL \<noteq> c \<and> cmp c k = 0 then FgMark c else FgDone None, m))"
| "vlistset_get_lf cmp k (FgMark c) m = Some (FgDone (if \<not> snd (m c) then Some c else None), m)"
| "vlistset_get_lf cmp k (FgDone r) m = None"

partial_function (option) visit_loop_lf :: "bool \<Rightarrow> lf_mem \<Rightarrow> addr \<Rightarrow> addr list option" where
  [code]: "visit_loop_lf d m c = (if c \<noteq> NULLP \<and> c \<noteq> TAIL
     then Option.bind (visit_loop_lf d m (fst (m c))) (\<lambda>r. Some (if \<not> snd (m c) \<or> d then c # r else r)) else Some [])"

definition vlistset_visit_lf :: "bool \<Rightarrow> lf_mem \<Rightarrow> addr list option" where
  "vlistset_visit_lf d m = visit_loop_lf d m (fst (m HEAD))"

definition vlistset_destroy_lf :: "lf_mem \<Rightarrow> addr list option" where
  "vlistset_destroy_lf m = vlistset_visit_lf True m"

section \<open>Threads\<close>

text \<open>
  As for the lazy list, a retired node is in use until no call is in progress. The history records each successful add when it links its node, each
  successful remove when it marks the node and each successful lookup at its last access. \<open>lf_miss\<close> holds the threads that have
  been in a call at a moment at which the key of the call was absent. \<open>lf_rets\<close> lists the results of the adds and removes in the order of their returns.
\<close>

datatype lf_pc = LfIdle | LfAdd key addr fadd_pc | LfRemove key fremove_pc | LfGet key fget_pc

datatype lf_cmd = FlcAdd key addr | FlcRemove key | FlcGet key | FlcRun | FlcReclaim

record lf_sys =
  lf_m :: lf_mem
  lf_pcs :: "tid \<Rightarrow> lf_pc"
  lf_active :: "tid list"
  lf_used :: "addr set"
  lf_pub :: "addr set"
  lf_retired :: "addr set"
  lf_hist :: "set_event list"
  lf_miss :: "tid set"
  lf_rets :: "set_event list"

fun lf_call :: "(addr \<Rightarrow> key \<Rightarrow> int) \<Rightarrow> lf_pc \<Rightarrow> lf_mem \<Rightarrow> (lf_pc \<times> lf_mem) option" where
  "lf_call cmp (LfAdd k n pc) m = map_option (apfst (LfAdd k n)) (vlistset_add_lf cmp k n pc m)"
| "lf_call cmp (LfRemove k pc) m = map_option (apfst (LfRemove k)) (vlistset_remove_lf cmp k pc m)"
| "lf_call cmp (LfGet k pc) m = map_option (apfst (LfGet k)) (vlistset_get_lf cmp k pc m)"
| "lf_call cmp LfIdle m = None"

text \<open>The effect of a step, seen from where the call goes to, and the result of a call that returns.\<close>

fun lf_log :: "lf_pc \<Rightarrow> set_event list" where
  "lf_log (LfAdd k n (FaDone True)) = [SAdd k n True]" | "lf_log (LfRemove k (FrDetach _ _ _)) = [SRemove k True]"
| "lf_log (LfGet k (FgDone (Some c))) = [SGet k (Some c)]" | "lf_log _ = []"

fun lf_result :: "lf_pc \<Rightarrow> set_event list" where
  "lf_result (LfAdd k n (FaDone r)) = [SAdd k n r]" | "lf_result (LfRemove k (FrDone r)) = [SRemove k r]" | "lf_result _ = []"

fun lf_return :: "lf_pc \<Rightarrow> lf_pc" where
  "lf_return (LfAdd k n (FaDone r)) = LfIdle" | "lf_return (LfRemove k (FrDone r)) = LfIdle" | "lf_return (LfGet k (FgDone r)) = LfIdle"
| "lf_return p = p"

fun lf_give :: "lf_pc \<Rightarrow> addr set" where
  "lf_give (LfAdd k n (FaDone False)) = {n}" | "lf_give _ = {}"

fun lf_publishes :: "lf_pc \<Rightarrow> addr set" where
  "lf_publishes (LfAdd k n (FaDone True)) = {n}" | "lf_publishes _ = {}"

fun find_gone :: "find_pc \<Rightarrow> addr set" where
  "find_gone (FdRetire p c succ) = {c}" | "find_gone _ = {}"

text \<open>The node that a call has unlinked and not yet retired.\<close>

fun lf_gone :: "lf_pc \<Rightarrow> addr set" where
  "lf_gone (LfAdd k n (FaFind f)) = find_gone f" | "lf_gone (LfRemove k (FrFind f)) = find_gone f" | "lf_gone (LfRemove k (FrRetire c)) = {c}" | "lf_gone _ = {}"

fun lf_key :: "lf_pc \<Rightarrow> key option" where
  "lf_key (LfAdd k n _) = Some k" | "lf_key (LfRemove k _) = Some k" | "lf_key (LfGet k _) = Some k" | "lf_key LfIdle = None"

definition lf_missing :: "(tid \<Rightarrow> lf_pc) \<Rightarrow> set_event list \<Rightarrow> tid \<Rightarrow> bool" where
  "lf_missing pcs h t = (case lf_key (pcs t) of None \<Rightarrow> False | Some k \<Rightarrow> lz_absent h k)"

definition lf_observe :: "lf_sys \<Rightarrow> lf_sys" where
  "lf_observe s = s\<lparr>lf_miss := lf_miss s \<union> set (filter (lf_missing (lf_pcs s) (lf_hist s)) (lf_active s))\<rparr>"

definition lf_to :: "lf_sys \<Rightarrow> tid \<Rightarrow> lf_pc \<Rightarrow> lf_mem \<Rightarrow> addr set \<Rightarrow> addr set \<Rightarrow> addr set \<Rightarrow> set_event list \<Rightarrow> set_event list \<Rightarrow> lf_sys" where
  "lf_to s t p m U P R es rs = \<lparr>lf_m = m, lf_pcs = (lf_pcs s)(t := p), lf_active = (if p = LfIdle then removeAll t (lf_active s) else lf_active s),
     lf_used = U, lf_pub = P, lf_retired = R, lf_hist = lf_hist s @ es, lf_miss = (if p = LfIdle then lf_miss s - {t} else lf_miss s), lf_rets = lf_rets s @ rs\<rparr>"

text \<open>Thread \<open>t\<close> goes to \<open>p\<close>; a call that returns leaves the list, a failed add gives its node back.\<close>

definition lf_after :: "lf_sys \<Rightarrow> tid \<Rightarrow> lf_pc \<Rightarrow> lf_mem \<Rightarrow> lf_sys" where
  "lf_after s t p m = lf_to s t (lf_return p) m (lf_used s - lf_give p) (lf_pub s \<union> lf_publishes p) (lf_retired s \<union> lf_gone (lf_pcs s t)) (lf_log p) (lf_result p)"

definition lf_run :: "(addr \<Rightarrow> key \<Rightarrow> int) \<Rightarrow> lf_sys \<Rightarrow> tid \<Rightarrow> lf_sys option" where
  "lf_run cmp s t = map_option (\<lambda>(p, m). lf_after s t p m) (lf_call cmp (lf_pcs s t) (lf_m s))"

definition lf_begin :: "lf_sys \<Rightarrow> tid \<Rightarrow> lf_pc \<Rightarrow> addr set \<Rightarrow> lf_sys" where
  "lf_begin s t p A = s\<lparr>lf_pcs := (lf_pcs s)(t := p), lf_active := t # lf_active s, lf_used := lf_used s \<union> A\<rparr>"

fun lf_step :: "(addr \<Rightarrow> key \<Rightarrow> int) \<Rightarrow> tid \<times> lf_cmd \<Rightarrow> lf_sys \<Rightarrow> lf_sys option" where
  "lf_step cmp (t, FlcAdd k n) s =
     (if lf_pcs s t = LfIdle \<and> n \<notin> lf_used s \<and> cmp n k = 0 then Some (lf_observe (lf_begin s t (LfAdd k n (FaFind FdHead)) {n})) else None)"
| "lf_step cmp (t, FlcRemove k) s = (if lf_pcs s t = LfIdle then Some (lf_observe (lf_begin s t (LfRemove k (FrFind FdHead)) {})) else None)"
| "lf_step cmp (t, FlcGet k) s = (if lf_pcs s t = LfIdle then Some (lf_observe (lf_begin s t (LfGet k (FgRead HEAD)) {})) else None)"
| "lf_step cmp (t, FlcRun) s = map_option lf_observe (lf_run cmp s t)"
| "lf_step cmp (t, FlcReclaim) s =
     (if lf_active s = [] then Some (s\<lparr>lf_used := lf_used s - lf_retired s, lf_pub := lf_pub s - lf_retired s, lf_retired := {}\<rparr>) else None)"

definition lf_start :: "lf_mem \<Rightarrow> lf_sys" where
  "lf_start m = \<lparr>lf_m = vlistset_init_lf m, lf_pcs = (\<lambda>_. LfIdle), lf_active = [], lf_used = {HEAD, TAIL, NULLP}, lf_pub = {HEAD, TAIL},
     lf_retired = {}, lf_hist = [], lf_miss = {}, lf_rets = []\<rparr>"

section \<open>The invariant\<close>

definition lnx :: "lf_mem \<Rightarrow> addr \<Rightarrow> addr" where
  "lnx m = (\<lambda>a. fst (m a))"

lemma lnx_simps [simp]: "lnx m a = fst (m a)" "lnx (m(p := w)) = (lnx m)(p := fst w)"
  by (auto simp: lnx_def)

text \<open>The set: the nodes that are linked and not marked.\<close>

definition lf_map :: "(addr \<Rightarrow> key) \<Rightarrow> lf_mem \<Rightarrow> addr list \<Rightarrow> key \<rightharpoonup> addr" where
  "lf_map key m N k = (case node_map key N k of None \<Rightarrow> None | Some a \<Rightarrow> if snd (m a) then None else Some a)"

lemma lf_map_iff:
  assumes "listed key nx N"
  shows "lf_map key m N k = Some a \<longleftrightarrow> a \<in> set N \<and> a \<noteq> HEAD \<and> a \<noteq> TAIL \<and> key a = k \<and> \<not> snd (m a)"
proof (cases "node_map key N k")
  case None
  then show ?thesis using node_map_iff [OF assms, of k a] by (auto simp: lf_map_def)
next
  case (Some b)
  then show ?thesis using node_map_iff [OF assms, of k a] node_map_iff [OF assms, of k b] by (auto simp: lf_map_def)
qed

definition lf_shape :: "(addr \<Rightarrow> key) \<Rightarrow> lf_mem \<Rightarrow> addr list \<Rightarrow> addr set \<Rightarrow> bool" where
  "lf_shape key m N P \<longleftrightarrow> listed key (lnx m) N \<and> set N \<subseteq> P \<and> (\<forall>a \<in> P. a \<noteq> TAIL \<longrightarrow> fst (m a) \<in> P \<and> ekey key a < ekey key (fst (m a))) \<and>
     (\<forall>a \<in> P. a \<notin> set N \<longrightarrow> snd (m a)) \<and> \<not> snd (m HEAD) \<and> \<not> snd (m TAIL)"

text \<open>
  What every access to the list does to it: marked nodes do not change, unlinked nodes stay out, a key keeps its node while it is present, and
  every path to a node of the set remains a path to it.
\<close>

definition lf_change :: "(addr \<Rightarrow> key) \<Rightarrow> lf_mem \<Rightarrow> addr list \<Rightarrow> addr set \<Rightarrow> lf_mem \<Rightarrow> addr list \<Rightarrow> addr set \<Rightarrow> bool" where
  "lf_change key m N P m' N' P' \<longleftrightarrow> lf_shape key m' N' P' \<and> P' = P \<union> set N' \<and> (\<forall>a \<in> P. snd (m a) \<longrightarrow> m' a = m a) \<and> set N' \<inter> P \<subseteq> set N \<and>
     (\<forall>k a. lf_map key m N k = Some a \<longrightarrow> lf_map key m' N' k = None \<or> lf_map key m' N' k = Some a) \<and>
     (\<forall>k a x. x \<in> P \<longrightarrow> lf_map key m N k = Some a \<longrightarrow> lf_map key m' N' k = Some a \<longrightarrow> leads (lnx m) x a \<longrightarrow> leads (lnx m') x a)"

lemma lf_shapeD:
  assumes "lf_shape key m N P"
  shows "listed key (lnx m) N" "a \<in> set N \<Longrightarrow> a \<in> P" "a \<in> P \<Longrightarrow> a \<noteq> TAIL \<Longrightarrow> fst (m a) \<in> P"
    "a \<in> P \<Longrightarrow> a \<noteq> TAIL \<Longrightarrow> ekey key a < ekey key (fst (m a))" "a \<in> P \<Longrightarrow> \<not> snd (m a) \<Longrightarrow> a \<in> set N" "\<not> snd (m HEAD)" "\<not> snd (m TAIL)"
  using assms unfolding lf_shape_def by blast+

lemma lf_shapeI:
  assumes "listed key (lnx m) N" and "set N \<subseteq> P" and "\<And>a. a \<in> P \<Longrightarrow> a \<noteq> TAIL \<Longrightarrow> fst (m a) \<in> P \<and> ekey key a < ekey key (fst (m a))"
    and "\<And>a. a \<in> P \<Longrightarrow> a \<notin> set N \<Longrightarrow> snd (m a)" and "\<not> snd (m HEAD)" and "\<not> snd (m TAIL)"
  shows "lf_shape key m N P"
  using assms unfolding lf_shape_def by blast

lemma lf_changeD:
  assumes "lf_change key m N P m' N' P'"
  shows "lf_shape key m' N' P'" "P' = P \<union> set N'" "a \<in> P \<Longrightarrow> snd (m a) \<Longrightarrow> m' a = m a" "a \<in> P \<Longrightarrow> a \<notin> set N \<Longrightarrow> a \<notin> set N'"
    "lf_map key m N k = Some a \<Longrightarrow> lf_map key m' N' k = None \<or> lf_map key m' N' k = Some a"
    "x \<in> P \<Longrightarrow> lf_map key m N k = Some a \<Longrightarrow> lf_map key m' N' k = Some a \<Longrightarrow> leads (lnx m) x a \<Longrightarrow> leads (lnx m') x a"
  using assms unfolding lf_change_def by blast+

lemma lf_changeI:
  assumes "lf_shape key m' N' P'" and "P' = P \<union> set N'" and "\<And>a. a \<in> P \<Longrightarrow> snd (m a) \<Longrightarrow> m' a = m a" and "\<And>a. a \<in> P \<Longrightarrow> a \<in> set N' \<Longrightarrow> a \<in> set N"
    and "\<And>k a. lf_map key m N k = Some a \<Longrightarrow> lf_map key m' N' k = None \<or> lf_map key m' N' k = Some a"
    and "\<And>k a x. x \<in> P \<Longrightarrow> lf_map key m N k = Some a \<Longrightarrow> lf_map key m' N' k = Some a \<Longrightarrow> leads (lnx m) x a \<Longrightarrow> leads (lnx m') x a"
  shows "lf_change key m N P m' N' P'"
  using assms unfolding lf_change_def by blast

lemma lf_head:
  assumes S: "lf_shape key m N P"
  shows "HEAD \<in> set N" "TAIL \<in> set N" "HEAD \<in> P" "TAIL \<in> P"
proof -
  show "HEAD \<in> set N" "TAIL \<in> set N" using lf_shapeD(1) [OF S] by (metis hd_in_set last_in_set listed_def)+
  then show "HEAD \<in> P" "TAIL \<in> P" using lf_shapeD(2) [OF S] by blast+
qed

lemma lf_next:
  assumes "lf_shape key m N P" and "p \<in> P" and "p \<noteq> TAIL"
  shows "fst (m p) \<in> P" "fst (m p) \<noteq> HEAD" "ekey key p < ekey key (fst (m p))"
  using lf_shapeD(3,4) [OF assms] by (auto simp: ekey_def split: if_splits)

lemma lf_map_cong:
  assumes "\<And>a. a \<in> set N \<Longrightarrow> snd (m' a) = snd (m a)"
  shows "lf_map key m' N = lf_map key m N"
proof
  fix k
  show "lf_map key m' N k = lf_map key m N k"
  proof (cases "node_map key N k")
    case (Some a)
    then have "a \<in> set N" by (auto simp: node_map_def find_Some_iff)
    then show ?thesis using assms Some by (simp add: lf_map_def)
  qed (simp add: lf_map_def)
qed

section \<open>The accesses that change the list\<close>

lemma lf_change_refl: "lf_shape key m N P \<Longrightarrow> lf_change key m N P m N P"
  by (rule lf_changeI) (auto dest: lf_shapeD(2))

lemma lf_change_private:
  assumes S: "lf_shape key m N P" and n: "n \<notin> P"
  shows "lf_change key m N P (m(n := w)) N P" "lf_map key (m(n := w)) N = lf_map key m N"
proof -
  have N: "n \<notin> set N" using n lf_shapeD(2) [OF S] by blast
  show mp: "lf_map key (m(n := w)) N = lf_map key m N" by (rule lf_map_cong) (use N in auto)
  have "listed key (lnx (m(n := w))) N" using listed_upd [OF lf_shapeD(1) [OF S] N] by simp
  then have "lf_shape key (m(n := w)) N P" 
    by (rule lf_shapeI) (use n lf_head [OF S] lf_shapeD [OF S] in auto)
  then show "lf_change key m N P (m(n := w)) N P"
  proof (rule lf_changeI, goal_cases)
    case (5 k a x)
    show ?case by (rule leads_cong [OF 5(4) 5(1)]) (use n lf_shapeD(3) [OF S] in auto)
  qed (use n mp lf_shapeD(2) [OF S] in auto)
qed

text \<open>A node is linked.\<close>

lemma lf_change_insert:
  assumes S: "lf_shape key m N P" and p: "p \<in> P" "p \<noteq> TAIL" "m p = (c, False)" "ekey key p < kpos (key n)" "kpos (key n) < ekey key c"
    and n: "n \<notin> P" "m n = (c, False)"
  shows "\<exists>N'. lf_change key m N P (m(p := (n, False))) N' (P \<union> {n}) \<and> set N' = insert n (set N) \<and>
    lf_map key (m(p := (n, False))) N' = (lf_map key m N)(key n \<mapsto> n) \<and> lf_map key m N (key n) = None"
proof -
  let ?m = "m(p := (n, False))"
  have pN: "p \<in> set N" using lf_shapeD(5) [OF S p(1)] p(3) by simp
  have ht: "n \<noteq> HEAD" "n \<noteq> TAIL" using n(1) lf_head [OF S] by auto
  have e: "ekey key n = kpos (key n)" using ht by (simp add: ekey_node)
  obtain N' where N': "listed key ((lnx m)(p := n)) N'" "set N' = insert n (set N)" "node_map key N' = (node_map key N)(key n \<mapsto> n)"
    by (rule listed_insert [OF lf_shapeD(1) [OF S] pN p(2), of n]) (use p n ht in auto)
  have nm: "node_map key N (key n) = None" using listed_absent [OF lf_shapeD(1) [OF S] pN p(2,4)] p(3,5) by simp
  have np: "n \<noteq> p" using n(1) p(1) by auto
  have mp: "lf_map key ?m N' = (lf_map key m N)(key n \<mapsto> n)" "lf_map key m N (key n) = None"
    using nm n(2) np p(3) by (auto simp: lf_map_def N'(3) fun_eq_iff split: option.split)
  have cP: "c \<in> P" using lf_shapeD(3) [OF S p(1,2)] p(3) by simp
  have "lf_shape key ?m N' (P \<union> {n})"
    by (rule lf_shapeI) (use N'(1,2) lf_shapeD(3-) [OF S] lf_shapeD(2) [OF S] n np p cP e ht in auto)
  then have "lf_change key m N P ?m N' (P \<union> {n})"
  proof (rule lf_changeI, goal_cases)
    case (5 k a x)
    have "lnx ?m = (lnx m)(p := n)" by simp
    then show ?case using leads_insert [OF 5(4), of n p] n(2) p(3) np ht by (metis lnx_simps(1))
  qed (use N'(2) mp p(3) n(1) lf_shapeD(2) [OF S] in auto)
  then show ?thesis using N'(2) mp by blast
qed

text \<open>A node is marked.\<close>

lemma lf_change_mark:
  assumes S: "lf_shape key m N P" and c: "c \<in> P" "c \<noteq> HEAD" "c \<noteq> TAIL" "m c = (x, False)"
  shows "lf_change key m N P (m(c := (x, True))) N P" "lf_map key (m(c := (x, True))) N = (lf_map key m N)(key c := None)" "lf_map key m N (key c) = Some c"
proof -
  let ?m = "m(c := (x, True))"
  have cN: "c \<in> set N" using lf_shapeD(5) [OF S c(1)] c(4) by simp
  have nx: "lnx ?m = lnx m" using c(4) by (auto simp: fun_eq_iff)
  have l: "listed key (lnx ?m) N" using lf_shapeD(1) [OF S] nx by simp
  show mk: "lf_map key m N (key c) = Some c" using lf_map_iff [OF lf_shapeD(1) [OF S], of m "key c" c] cN c by simp
  show mp: "lf_map key ?m N = (lf_map key m N)(key c := None)"
  proof
    fix j
    show "lf_map key ?m N j = ((lf_map key m N)(key c := None)) j"
    proof (rule option_ext)
      fix a
      show "(lf_map key ?m N j = Some a) = (((lf_map key m N)(key c := None)) j = Some a)"
        using lf_map_iff [OF l, of ?m j a] lf_map_iff [OF lf_shapeD(1) [OF S], of m j a] mk by (cases "j = key c") auto
    qed
  qed
  have "lf_shape key ?m N P" by (rule lf_shapeI [OF l]) (use c cN lf_shapeD(2-) [OF S] lf_shapeD(3,4) [OF S c(1,3)] in auto)
  then show "lf_change key m N P ?m N P"
    by (rule lf_changeI) (use mp nx c(4) lf_shapeD(2) [OF S] in auto)
qed

text \<open>A marked node is unlinked.\<close>

lemma lf_change_unlink:
  assumes S: "lf_shape key m N P" and p: "p \<in> P" "p \<noteq> TAIL" "m p = (c, False)" and c: "c \<noteq> TAIL" "m c = (x, True)"
  shows "\<exists>N'. lf_change key m N P (m(p := (x, False))) N' P \<and> set N' = set N - {c} \<and> c \<in> set N \<and> lf_map key (m(p := (x, False))) N' = lf_map key m N"
proof -
  let ?m = "m(p := (x, False))"
  have pN: "p \<in> set N" using lf_shapeD(5) [OF S p(1)] p(3) by simp
  have cN: "c \<in> set N" "c \<noteq> HEAD" using listed_next [OF lf_shapeD(1) [OF S] pN p(2)] p(3) by auto
  have pc: "p \<noteq> c" using p(3) c(2) by auto
  have cP: "c \<in> P" using lf_shapeD(2) [OF S cN(1)] .
  have xP: "x \<in> P" "ekey key p < ekey key x" using lf_shapeD(3,4) [OF S cP c(1)] lf_shapeD(4) [OF S p(1,2)] p(3) c(2) by auto
  obtain N' where N': "listed key ((lnx m)(p := x)) N'" "set N' = set N - {c}" "node_map key N' = (node_map key N)(key c := None)"
    by (rule listed_delete [OF lf_shapeD(1) [OF S] pN p(2)]) (use p(3) c in auto)
  have nm: "node_map key N (key c) = Some c" using listed_found [OF lf_shapeD(1) [OF S] pN p(2), of "key c"] p(3) c(1) by simp
  have mp: "lf_map key ?m N' = lf_map key m N" using nm c(2) p(3) by (auto simp: lf_map_def N'(3) fun_eq_iff split: option.split)
  have "lf_shape key ?m N' P" by (rule lf_shapeI) (use N'(1,2) lf_shapeD(2-) [OF S] p c pc xP in auto)
  then have "lf_change key m N P ?m N' P"
  proof (rule lf_changeI, goal_cases)
    case (5 k a y)
    then have "a \<noteq> c" using lf_map_iff [OF lf_shapeD(1) [OF S], of m k a] c(2) by auto
    moreover have "lnx ?m = (lnx m)(p := lnx m c)" "lnx m p = c" using c(2) p(3) by simp_all
    ultimately show ?case using leads_delete [OF 5(4), of p c] pc by metis
  qed (use N'(2) mp p(3) cP lf_shapeD(2) [OF S] in auto)
  then show ?thesis using N'(2) cN(1) mp by blast
qed

section \<open>What the threads know\<close>

definition lf_pos :: "(addr \<Rightarrow> key) \<Rightarrow> addr set \<Rightarrow> key \<Rightarrow> addr \<Rightarrow> bool" where
  "lf_pos key P k p \<longleftrightarrow> p \<in> P \<and> p \<noteq> TAIL \<and> ekey key p < kpos k"

definition lf_node :: "addr set \<Rightarrow> addr \<Rightarrow> bool" where
  "lf_node P c \<longleftrightarrow> c \<in> P \<and> c \<noteq> HEAD \<and> c \<noteq> TAIL"

fun find_ok :: "(addr \<Rightarrow> key) \<Rightarrow> addr list \<Rightarrow> addr set \<Rightarrow> lf_mem \<Rightarrow> key \<Rightarrow> find_pc \<Rightarrow> bool" where
  "find_ok key N P m k FdHead \<longleftrightarrow> True"
| "find_ok key N P m k (FdGet p c) \<longleftrightarrow> lf_pos key P k p \<and> lf_node P c"
| "find_ok key N P m k (FdSnip p c x) \<longleftrightarrow> lf_pos key P k p \<and> lf_node P c \<and> m c = (x, True)"
| "find_ok key N P m k (FdRetire p c x) \<longleftrightarrow> lf_pos key P k p \<and> lf_node P c \<and> m c = (x, True) \<and> c \<notin> set N"

fun fadd_ok :: "(addr \<Rightarrow> key) \<Rightarrow> addr list \<Rightarrow> addr set \<Rightarrow> lf_mem \<Rightarrow> key \<Rightarrow> addr \<Rightarrow> fadd_pc \<Rightarrow> bool" where
  "fadd_ok key N P m k n (FaFind f) \<longleftrightarrow> find_ok key N P m k f"
| "fadd_ok key N P m k n (FaWrite p c) \<longleftrightarrow> lf_pos key P k p \<and> c \<in> P \<and> kpos k < ekey key c"
| "fadd_ok key N P m k n (FaCas p c) \<longleftrightarrow> lf_pos key P k p \<and> c \<in> P \<and> kpos k < ekey key c \<and> m n = (c, False)"
| "fadd_ok key N P m k n (FaDone b) \<longleftrightarrow> True"

fun fremove_ok :: "(addr \<Rightarrow> key) \<Rightarrow> addr list \<Rightarrow> addr set \<Rightarrow> lf_mem \<Rightarrow> key \<Rightarrow> fremove_pc \<Rightarrow> bool" where
  "fremove_ok key N P m k (FrFind f) \<longleftrightarrow> find_ok key N P m k f"
| "fremove_ok key N P m k (FrSucc p c) \<longleftrightarrow> lf_pos key P k p \<and> lf_node P c \<and> key c = k"
| "fremove_ok key N P m k (FrMark p c x) \<longleftrightarrow> lf_pos key P k p \<and> lf_node P c \<and> key c = k"
| "fremove_ok key N P m k (FrDetach p c x) \<longleftrightarrow> lf_pos key P k p \<and> lf_node P c \<and> m c = (x, True)"
| "fremove_ok key N P m k (FrRetire c) \<longleftrightarrow> c \<in> P \<and> c \<notin> set N"
| "fremove_ok key N P m k (FrDone b) \<longleftrightarrow> True"

fun lf_ok :: "(addr \<Rightarrow> key) \<Rightarrow> addr list \<Rightarrow> addr set \<Rightarrow> lf_mem \<Rightarrow> lf_pc \<Rightarrow> bool" where
  "lf_ok key N P m (LfAdd k n pc) \<longleftrightarrow> key n = k \<and> fadd_ok key N P m k n pc"
| "lf_ok key N P m (LfRemove k pc) \<longleftrightarrow> fremove_ok key N P m k pc"
| "lf_ok key N P m (LfGet k (FgRead p)) \<longleftrightarrow> lf_pos key P k p"
| "lf_ok key N P m (LfGet k (FgMark c)) \<longleftrightarrow> lf_node P c \<and> key c = k"
| "lf_ok key N P m _ \<longleftrightarrow> True"

fun lf_own :: "lf_pc \<Rightarrow> addr set" where
  "lf_own (LfAdd k n (FaDone b)) = {}" | "lf_own (LfAdd k n _) = {n}" | "lf_own _ = {}"

text \<open>The node from which the links lead to the key, unless the key was absent at some moment during the call.\<close>

fun find_at :: "find_pc \<Rightarrow> addr" where
  "find_at FdHead = HEAD" | "find_at (FdGet p c) = c" | "find_at (FdSnip p c x) = c" | "find_at (FdRetire p c x) = x"

fun lf_at :: "lf_pc \<Rightarrow> addr option" where
  "lf_at (LfAdd k n (FaFind f)) = Some (find_at f)" | "lf_at (LfRemove k (FrFind f)) = Some (find_at f)"
| "lf_at (LfGet k (FgRead p)) = Some p" | "lf_at (LfGet k (FgMark c)) = Some c" | "lf_at _ = None"

definition lf_leads :: "(addr \<Rightarrow> key) \<Rightarrow> lf_mem \<Rightarrow> addr list \<Rightarrow> key \<Rightarrow> addr \<Rightarrow> bool" where
  "lf_leads key m N k x \<longleftrightarrow> (\<exists>a. lf_map key m N k = Some a \<and> leads (lnx m) x a)"

definition lf_hind :: "(addr \<Rightarrow> key) \<Rightarrow> lf_mem \<Rightarrow> addr list \<Rightarrow> bool \<Rightarrow> lf_pc \<Rightarrow> bool" where
  "lf_hind key m N missed pc \<longleftrightarrow> (\<forall>k x. lf_key pc = Some k \<longrightarrow> lf_at pc = Some x \<longrightarrow> missed \<or> lf_leads key m N k x)"

text \<open>Every node that is not linked any more is retired, or is about to be retired by one thread.\<close>

definition lf_gones :: "lf_sys \<Rightarrow> addr list \<Rightarrow> bool" where
  "lf_gones s N \<longleftrightarrow> (\<forall>a \<in> lf_pub s. a \<notin> set N \<longrightarrow> a \<in> lf_retired s \<or> (\<exists>t. a \<in> lf_gone (lf_pcs s t))) \<and> lf_retired s \<subseteq> lf_pub s \<and> set N \<inter> lf_retired s = {} \<and>
     (\<forall>t. lf_gone (lf_pcs s t) \<inter> lf_retired s = {}) \<and> (\<forall>t u a. a \<in> lf_gone (lf_pcs s t) \<longrightarrow> a \<in> lf_gone (lf_pcs s u) \<longrightarrow> t = u)"

definition lf_owners :: "lf_sys \<Rightarrow> bool" where
  "lf_owners s \<longleftrightarrow> (\<forall>t. \<forall>a \<in> lf_own (lf_pcs s t). a \<notin> lf_pub s \<and> a \<in> lf_used s \<and> a \<noteq> NULLP) \<and>
     (\<forall>t u a. a \<in> lf_own (lf_pcs s t) \<longrightarrow> a \<in> lf_own (lf_pcs s u) \<longrightarrow> t = u) \<and> lf_pub s \<subseteq> lf_used s \<and> NULLP \<in> lf_used s - lf_pub s"

definition lf_inv :: "(addr \<Rightarrow> key) \<Rightarrow> lf_sys \<Rightarrow> addr list \<Rightarrow> bool" where
  "lf_inv key s N \<longleftrightarrow> lf_shape key (lf_m s) N (lf_pub s) \<and> lf_gones s N \<and> lf_owners s \<and>
     (\<forall>t. lf_ok key N (lf_pub s) (lf_m s) (lf_pcs s t)) \<and> (\<forall>t. lf_hind key (lf_m s) N (t \<in> lf_miss s) (lf_pcs s t)) \<and>
     (\<forall>t. lf_pcs s t \<noteq> LfIdle \<longrightarrow> t \<in> set (lf_active s)) \<and> set_replay (lf_hist s) Map.empty = Some (lf_map key (lf_m s) N)"

lemma lf_invD:
  assumes "lf_inv key s N"
  shows "lf_shape key (lf_m s) N (lf_pub s)" "lf_gones s N" "lf_owners s" "lf_ok key N (lf_pub s) (lf_m s) (lf_pcs s t)"
    "lf_hind key (lf_m s) N (t \<in> lf_miss s) (lf_pcs s t)" "lf_pcs s t \<noteq> LfIdle \<Longrightarrow> t \<in> set (lf_active s)"
    "set_replay (lf_hist s) Map.empty = Some (lf_map key (lf_m s) N)"
  using assms unfolding lf_inv_def by blast+

lemma lf_gonesD:
  assumes "lf_gones s N"
  shows "a \<in> lf_pub s \<Longrightarrow> a \<notin> set N \<Longrightarrow> a \<in> lf_retired s \<or> (\<exists>t. a \<in> lf_gone (lf_pcs s t))" "a \<in> lf_retired s \<Longrightarrow> a \<in> lf_pub s"
    "a \<in> lf_retired s \<Longrightarrow> a \<notin> set N" "a \<in> lf_gone (lf_pcs s t) \<Longrightarrow> a \<notin> lf_retired s" "a \<in> lf_gone (lf_pcs s t) \<Longrightarrow> a \<in> lf_gone (lf_pcs s u) \<Longrightarrow> t = u"
  using assms unfolding lf_gones_def by blast+

lemma lf_gonesI:
  assumes "\<And>a. a \<in> lf_pub s \<Longrightarrow> a \<notin> set N \<Longrightarrow> a \<in> lf_retired s \<or> (\<exists>t. a \<in> lf_gone (lf_pcs s t))" and "\<And>a. a \<in> lf_retired s \<Longrightarrow> a \<in> lf_pub s \<and> a \<notin> set N"
    and "\<And>a t. a \<in> lf_gone (lf_pcs s t) \<Longrightarrow> a \<notin> lf_retired s" and "\<And>a t u. a \<in> lf_gone (lf_pcs s t) \<Longrightarrow> a \<in> lf_gone (lf_pcs s u) \<Longrightarrow> t = u"
  shows "lf_gones s N"
  using assms unfolding lf_gones_def by blast

lemma lf_ownersD:
  assumes "lf_owners s"
  shows "a \<in> lf_own (lf_pcs s t) \<Longrightarrow> a \<notin> lf_pub s" "a \<in> lf_own (lf_pcs s t) \<Longrightarrow> a \<in> lf_used s" "a \<in> lf_own (lf_pcs s t) \<Longrightarrow> a \<noteq> NULLP"
    "a \<in> lf_own (lf_pcs s t) \<Longrightarrow> a \<in> lf_own (lf_pcs s u) \<Longrightarrow> t = u" "a \<in> lf_pub s \<Longrightarrow> a \<in> lf_used s" "NULLP \<in> lf_used s" "NULLP \<notin> lf_pub s"
  using assms unfolding lf_owners_def by blast+

lemma lf_ok_gone: "lf_ok key N P m p \<Longrightarrow> a \<in> lf_gone p \<Longrightarrow> a \<in> P \<and> a \<notin> set N"
proof (induction p rule: lf_gone.induct)
  case (1 k n f)
  then show ?case by (cases f) (auto simp: lf_node_def)
next
  case (2 k f)
  then show ?case by (cases f) (auto simp: lf_node_def)
qed auto

lemma find_ok_frame:
  assumes "find_ok key N P m k f" and C: "lf_change key m N P m' N' P'"
  shows "find_ok key N' P' m' k f"
  using assms(1) lf_changeD(2,3,4) [OF C] by (cases f) (auto simp: lf_pos_def lf_node_def)

lemma lf_ok_frame:
  assumes "lf_ok key N P m p" and C: "lf_change key m N P m' N' P'" and "\<And>a. a \<in> lf_own p \<Longrightarrow> m' a = m a"
  shows "lf_ok key N' P' m' p"
proof (cases p)
  case (LfAdd k n pc)
  then show ?thesis using assms(1,3) find_ok_frame [OF _ C] lf_changeD(2) [OF C] by (cases pc) (auto simp: lf_pos_def)
next
  case (LfRemove k pc)
  then show ?thesis using assms(1) find_ok_frame [OF _ C] lf_changeD(2,3,4) [OF C] by (cases pc) (auto simp: lf_pos_def lf_node_def)
next
  case (LfGet k pc)
  then show ?thesis using assms(1) lf_changeD(2) [OF C] by (cases pc) (auto simp: lf_pos_def lf_node_def)
qed simp

lemma lf_at_pub:
  assumes S: "lf_shape key m N P" and "lf_ok key N P m pc" and "lf_at pc = Some x"
  shows "x \<in> P"
proof -
  have f: "find_at f \<in> P" if "find_ok key N P m k f" for f k
  proof (cases f)
    case (FdRetire p c y)
    then show ?thesis using that lf_shapeD(3) [OF S, of c] by (auto simp: lf_node_def)
  qed (use that lf_head [OF S] in \<open>auto simp: lf_node_def\<close>)
  show ?thesis
  proof (cases pc)
    case (LfAdd k n q)
    then show ?thesis using assms(2,3) f by (cases q) auto
  next
    case (LfRemove k q)
    then show ?thesis using assms(2,3) f by (cases q) auto
  next
    case (LfGet k q)
    then show ?thesis using assms(2,3) by (cases q) (auto simp: lf_pos_def lf_node_def)
  qed (use assms(3) in simp)
qed

lemma lf_leads_change:
  assumes "lf_leads key m N k x" and C: "lf_change key m N P m' N' P'" and "x \<in> P" and "lf_map key m' N' k \<noteq> None"
  shows "lf_leads key m' N' k x"
proof -
  obtain a where a: "lf_map key m N k = Some a" "leads (lnx m) x a" using assms(1) by (auto simp: lf_leads_def)
  then have "lf_map key m' N' k = Some a" using lf_changeD(5) [OF C a(1)] assms(4) by auto
  then show ?thesis using lf_changeD(6) [OF C assms(3) a(1)] a(2) by (auto simp: lf_leads_def)
qed

lemma lf_gones_move:
  assumes G: "lf_gones s N" and N: "set N \<subseteq> lf_pub s" and g: "\<And>u a. a \<in> lf_gone (lf_pcs s u) \<Longrightarrow> a \<in> lf_pub s \<and> a \<notin> set N"
    and pcs: "lf_pcs s' = (lf_pcs s)(t := p)" and p: "lf_gone p = set N - set N'" and P: "lf_pub s' = lf_pub s \<union> set N'" "set N' \<inter> lf_pub s \<subseteq> set N"
    and R: "lf_retired s' = lf_retired s \<union> lf_gone (lf_pcs s t)"
  shows "lf_gones s' N'"
proof (rule lf_gonesI)
  fix a assume a: "a \<in> lf_pub s'" "a \<notin> set N'"
  then have aP: "a \<in> lf_pub s" using P(1) by auto
  show "a \<in> lf_retired s' \<or> (\<exists>u. a \<in> lf_gone (lf_pcs s' u))"
  proof (cases "a \<in> set N")
    case True
    then have "a \<in> lf_gone (lf_pcs s' t)" using a(2) p pcs by simp
    then show ?thesis by blast
  next
    case False
    from lf_gonesD(1) [OF G aP False] show ?thesis
    proof
      assume "\<exists>u. a \<in> lf_gone (lf_pcs s u)"
      then obtain u where "a \<in> lf_gone (lf_pcs s u)" by blast
      then show ?thesis using R pcs by (cases "u = t") (auto intro: exI [of _ u])
    qed (simp add: R)
  qed
next
  fix a assume "a \<in> lf_retired s'"
  then show "a \<in> lf_pub s' \<and> a \<notin> set N'" using R lf_gonesD(2,3) [OF G, of a] g [of a t] P by auto
next
  fix a u assume "a \<in> lf_gone (lf_pcs s' u)"
  then show "a \<notin> lf_retired s'" using R p pcs g [of a] lf_gonesD(3) [OF G, of a] lf_gonesD(4) [OF G, of a u] lf_gonesD(5) [OF G, of a u t] by (auto split: if_splits)
next
  fix a u v assume "a \<in> lf_gone (lf_pcs s' u)" "a \<in> lf_gone (lf_pcs s' v)"
  then show "u = v" using p pcs g [of a u] g [of a v] lf_gonesD(5) [OF G, of a u v] by (auto split: if_splits)
qed

lemma lf_owners_move:
  assumes O: "lf_owners s" and pcs: "lf_pcs s' = (lf_pcs s)(t := p)" and own: "lf_own p \<inter> (A \<union> B) = {}" "lf_own p \<union> A \<union> B \<subseteq> lf_own (lf_pcs s t)"
    and P: "lf_pub s' = lf_pub s \<union> A" and U: "lf_used s' = lf_used s - B" and AB: "A \<inter> B = {}"
  shows "lf_owners s'"
proof -
  have "a \<notin> lf_pub s' \<and> a \<in> lf_used s' \<and> a \<noteq> NULLP" if "a \<in> lf_own (lf_pcs s' u)" for u a
  proof (cases "u = t")
    case True
    then have a: "a \<in> lf_own p" using that pcs by simp
    then have "a \<in> lf_own (lf_pcs s t)" using own(2) by blast
    then show ?thesis using a own(1) lf_ownersD(1,2,3) [OF O, of a t] P U by blast
  next
    case False
    then have a: "a \<in> lf_own (lf_pcs s u)" using that pcs by simp
    then have "a \<notin> lf_own (lf_pcs s t)" using lf_ownersD(4) [OF O, of a u t] False by blast
    then show ?thesis using own(2) lf_ownersD(1,2,3) [OF O a] P U by blast
  qed
  moreover have "u = v" if "a \<in> lf_own (lf_pcs s' u)" "a \<in> lf_own (lf_pcs s' v)" for u v a
    using that own(2) lf_ownersD(4) [OF O, of a u v] by (auto simp: pcs split: if_splits)
  moreover have "lf_pub s' \<subseteq> lf_used s'" using own(2) lf_ownersD(1,2) [OF O, of _ t] lf_ownersD(5) [OF O] P U AB by blast
  moreover have "NULLP \<in> lf_used s' - lf_pub s'" using own(2) lf_ownersD(3) [OF O, of NULLP t] lf_ownersD(6,7) [OF O] P U by blast
  ultimately show ?thesis unfolding lf_owners_def by blast
qed

lemma lf_return_cases:
  "lf_return p = p \<or> (lf_return p = LfIdle \<and> lf_own p = {} \<and> lf_gone p = {} \<and> lf_at p = None)"
  by (cases p rule: lf_return.cases) auto

lemma lf_return_same [simp]: "lf_own (lf_return p) = lf_own p" "lf_gone (lf_return p) = lf_gone p" "lf_ok key N P m p \<Longrightarrow> lf_ok key N P m (lf_return p)"
  using lf_return_cases [of p] by auto

lemma lf_give_publishes: "lf_publishes p \<inter> lf_give p = {}"
  by (cases p rule: lf_give.cases) auto

lemma lf_observe_sel [simp]:
  "lf_m (lf_observe s) = lf_m s" "lf_pcs (lf_observe s) = lf_pcs s" "lf_active (lf_observe s) = lf_active s" "lf_used (lf_observe s) = lf_used s"
  "lf_pub (lf_observe s) = lf_pub s" "lf_retired (lf_observe s) = lf_retired s" "lf_hist (lf_observe s) = lf_hist s"
  by (simp_all add: lf_observe_def)

lemma lf_observe_parts: "lf_owners (lf_observe s) = lf_owners s" "lf_gones (lf_observe s) N = lf_gones s N"
  by (simp_all add: lf_owners_def lf_gones_def)

lemma lf_observe_miss:
  assumes "set_replay (lf_hist s) Map.empty = Some M"
  shows "t \<in> lf_miss (lf_observe s) \<longleftrightarrow> t \<in> lf_miss s \<or> (t \<in> set (lf_active s) \<and> (\<exists>k. lf_key (lf_pcs s t) = Some k \<and> M k = None))"
  using assms by (auto simp: lf_observe_def lf_missing_def lz_absent_def split: option.splits)

lemma lf_hind_observe:
  assumes R: "set_replay (lf_hist s) Map.empty = Some (lf_map key (lf_m s) N)" and A: "lf_pcs s t \<noteq> LfIdle \<Longrightarrow> t \<in> set (lf_active s)"
    and H: "\<And>k x. lf_key (lf_pcs s t) = Some k \<Longrightarrow> lf_at (lf_pcs s t) = Some x \<Longrightarrow> lf_map key (lf_m s) N k \<noteq> None \<Longrightarrow> t \<notin> lf_miss s \<Longrightarrow> lf_leads key (lf_m s) N k x"
  shows "lf_hind key (lf_m s) N (t \<in> lf_miss (lf_observe s)) (lf_pcs s t)"
  unfolding lf_hind_def
proof (intro allI impI)
  fix k x assume k: "lf_key (lf_pcs s t) = Some k" "lf_at (lf_pcs s t) = Some x"
  then have "lf_pcs s t \<noteq> LfIdle" by auto
  then show "t \<in> lf_miss (lf_observe s) \<or> lf_leads key (lf_m s) N k x"
    using lf_observe_miss [OF R, of t] A H [OF k] k(1) by (cases "lf_map key (lf_m s) N k") auto
qed

text \<open>The whole step of a thread.\<close>

lemma lf_after_sel [simp]:
  "lf_m (lf_after s t p m) = m" "lf_pcs (lf_after s t p m) = (lf_pcs s)(t := lf_return p)" "lf_used (lf_after s t p m) = lf_used s - lf_give p"
  "lf_pub (lf_after s t p m) = lf_pub s \<union> lf_publishes p" "lf_retired (lf_after s t p m) = lf_retired s \<union> lf_gone (lf_pcs s t)"
  "lf_hist (lf_after s t p m) = lf_hist s @ lf_log p"
  by (simp_all add: lf_after_def lf_to_def)

lemma lf_after_act:
  "u \<in> set (lf_active s) \<Longrightarrow> u \<noteq> t \<or> lf_return p \<noteq> LfIdle \<Longrightarrow> u \<in> set (lf_active (lf_after s t p m))"
  "u \<noteq> t \<or> lf_return p \<noteq> LfIdle \<Longrightarrow> u \<in> lf_miss (lf_after s t p m) \<longleftrightarrow> u \<in> lf_miss s"
  by (auto simp: lf_after_def lf_to_def)

lemma lf_inv_step:
  assumes I: "lf_inv key s N" and t: "lf_pcs s t \<noteq> LfIdle" and C: "lf_change key (lf_m s) N (lf_pub s) m N' (lf_pub s \<union> lf_publishes p)"
    and ok: "lf_ok key N' (lf_pub s \<union> lf_publishes p) m p" and gone: "lf_gone p = set N - set N'"
    and own: "lf_own p \<inter> (lf_publishes p \<union> lf_give p) = {}" "lf_own p \<union> lf_publishes p \<union> lf_give p \<subseteq> lf_own (lf_pcs s t)"
    and mem: "\<And>a. a \<notin> lf_pub s \<Longrightarrow> a \<notin> lf_own (lf_pcs s t) \<Longrightarrow> m a = lf_m s a"
    and es: "set_replay (lf_log p) (lf_map key (lf_m s) N) = Some (lf_map key m N')"
    and hind: "\<And>k x. lf_key p = Some k \<Longrightarrow> lf_at p = Some x \<Longrightarrow> lf_map key m N' k \<noteq> None \<Longrightarrow> t \<notin> lf_miss s \<Longrightarrow> lf_leads key m N' k x"
  shows "lf_inv key (lf_observe (lf_after s t p m)) N'"
proof -
  let ?s = "lf_after s t p m"
  note S = lf_invD(1) [OF I] and G = lf_invD(2) [OF I] and O = lf_invD(3) [OF I]
  have R: "set_replay (lf_hist ?s) Map.empty = Some (lf_map key (lf_m ?s) N')" using es lf_invD(7) [OF I] by (simp add: set_replay_append)
  have A: "u \<in> set (lf_active ?s)" if "lf_pcs ?s u \<noteq> LfIdle" for u
    using that lf_after_act(1) [of u s t p m] lf_invD(6) [OF I, of u] lf_invD(6) [OF I t] by (auto split: if_splits)
  have "lf_gones ?s N'"
    by (rule lf_gones_move [OF G _ lf_ok_gone [OF lf_invD(4) [OF I]], where t = t and p = "lf_return p"])
      (use gone lf_changeD(2) [OF C] lf_changeD(4) [OF C] lf_shapeD(2) [OF S] in auto)
  moreover have "lf_owners ?s"
    by (rule lf_owners_move [OF O, where t = t and p = "lf_return p" and A = "lf_publishes p" and B = "lf_give p"]) (use own lf_give_publishes [of p] in auto)
  moreover have "lf_ok key N' (lf_pub ?s) (lf_m ?s) (lf_pcs ?s u)" for u
  proof (cases "u = t")
    case False
    have "m a = lf_m s a" if "a \<in> lf_own (lf_pcs s u)" for a
      using mem [of a] that lf_ownersD(1) [OF O that] lf_ownersD(4) [OF O that, of t] False by blast
    then show ?thesis using lf_ok_frame [OF lf_invD(4) [OF I, of u] C] False by simp
  qed (use ok in simp)
  moreover have "lf_hind key (lf_m ?s) N' (u \<in> lf_miss (lf_observe ?s)) (lf_pcs ?s u)" for u
  proof (rule lf_hind_observe [OF R A])
    fix k x assume k: "lf_key (lf_pcs ?s u) = Some k" "lf_at (lf_pcs ?s u) = Some x" "lf_map key (lf_m ?s) N' k \<noteq> None" "u \<notin> lf_miss ?s"
    show "lf_leads key (lf_m ?s) N' k x"
    proof (cases "u = t")
      case True
      then have "lf_return p \<noteq> LfIdle" "lf_return p = p" using k lf_return_cases [of p] by auto
      then show ?thesis using k hind [of k x] lf_after_act(2) [of u t p s m] True by auto
    next
      case False
      then have o: "lf_key (lf_pcs s u) = Some k" "lf_at (lf_pcs s u) = Some x" "u \<notin> lf_miss s" using k lf_after_act(2) [of u t p s m] by auto
      then have "lf_leads key (lf_m s) N k x" using lf_invD(5) [OF I, of u] unfolding lf_hind_def by blast
      then show ?thesis using lf_leads_change [OF _ C lf_at_pub [OF S lf_invD(4) [OF I] o(2)]] k(3) by simp
    qed
  qed
  ultimately show ?thesis using lf_changeD(1) [OF C] R A unfolding lf_inv_def lf_observe_parts lf_observe_sel by simp
qed

text \<open>Steps that change nothing.\<close>

lemma lf_local:
  assumes I: "lf_inv key s N" and t: "lf_pcs s t \<noteq> LfIdle" and ok: "lf_ok key N (lf_pub s) (lf_m s) p" and p: "lf_gone p = {}" "lf_publishes p = {}"
    and own: "lf_own p \<inter> lf_give p = {}" "lf_own p \<union> lf_give p \<subseteq> lf_own (lf_pcs s t)" and es: "set_replay (lf_log p) (lf_map key (lf_m s) N) = Some (lf_map key (lf_m s) N)"
    and hind: "\<And>k x. lf_key p = Some k \<Longrightarrow> lf_at p = Some x \<Longrightarrow> lf_map key (lf_m s) N k \<noteq> None \<Longrightarrow> t \<notin> lf_miss s \<Longrightarrow> lf_leads key (lf_m s) N k x"
  shows "lf_inv key (lf_observe (lf_after s t p (lf_m s))) N"
  by (rule lf_inv_step [OF I t _ _ _ _ _ _ es hind]) (use lf_change_refl [OF lf_invD(1) [OF I]] ok p own in auto)

text \<open>From the head the links lead to every node of the set; they lead past a marked node and past a node of another key.\<close>

lemma lf_leads_head:
  assumes S: "lf_shape key m N P" and "lf_map key m N k \<noteq> None"
  shows "lf_leads key m N k HEAD"
proof -
  obtain a where a: "lf_map key m N k = Some a" using assms(2) by auto
  then have "a \<in> set N" using lf_map_iff [OF lf_shapeD(1) [OF S], of m k a] by simp
  then show ?thesis using leads_listed [OF lf_shapeD(1) [OF S], of a] a by (auto simp: lf_leads_def)
qed

lemma lf_leads_next:
  assumes S: "lf_shape key m N P" and l: "lf_leads key m N k x" and x: "snd (m x) \<or> ekey key x \<noteq> kpos k"
  shows "lf_leads key m N k (fst (m x))"
proof -
  obtain a where a: "lf_map key m N k = Some a" "leads (lnx m) x a" using l by (auto simp: lf_leads_def)
  have "a \<noteq> x" using lf_map_iff [OF lf_shapeD(1) [OF S], of m k a] a(1) x ekey_node [of a key] by auto
  then have "leads (lnx m) (lnx m x) a" using leads_cases [OF a(2)] by blast
  then show ?thesis using a(1) unfolding lf_leads_def by auto
qed

lemma lf_leads_ekey:
  assumes S: "lf_shape key m N P" and "lf_leads key m N k x" and x: "x \<in> P"
  shows "ekey key x \<le> kpos k"
proof -
  obtain a where a: "lf_map key m N k = Some a" "leads (lnx m) x a" using assms(2) by (auto simp: lf_leads_def)
  have "ekey key a = kpos k" using lf_map_iff [OF lf_shapeD(1) [OF S], of m k a] a(1) ekey_node [of a key] by auto
  moreover have "ekey key x \<le> ekey key a" using a(2) x
  proof (induction rule: converse_rtranclp_induct)
    case (step y z)
    then show ?case using lf_shapeD(3,4) [OF S, of y] by auto
  qed simp
  ultimately show ?thesis by simp
qed

lemma lf_leads_tail: "lf_shape key m N P \<Longrightarrow> \<not> lf_leads key m N k TAIL"
  using lf_leads_ekey [of key m N P k TAIL] lf_head(4) [of key m N P] ekey_sentinels(2) [of k key] by auto

section \<open>Steps\<close>

lemma find_test_cases:
  assumes "cmp_ok cmp key" and "lf_node P c"
  shows "find_test cmp k p c x = (if kpos k \<le> ekey key c then Inr (p, c) else if x \<noteq> TAIL then Inl (FdGet c x) else Inr (c, TAIL))"
  using cmp_ekey(1) [OF assms(1), of c k] assms(2) by (auto simp: find_test_def lf_node_def)

lemma lf_unlink:
  assumes I: "lf_inv key s N" and t: "lf_pcs s t \<noteq> LfIdle" and q: "lf_pos key (lf_pub s) k q" "lf_m s q = (c, False)" and c: "lf_node (lf_pub s) c" "lf_m s c = (x, True)"
    and p: "lf_gone p = {c}" "lf_publishes p = {}" "lf_give p = {}" "lf_own p \<subseteq> lf_own (lf_pcs s t)" "lf_log p = []"
    and ok: "\<And>N m. c \<notin> set N \<Longrightarrow> m c = (x, True) \<Longrightarrow> lf_ok key N (lf_pub s) m p"
    and hind: "\<And>k y. lf_key p = Some k \<Longrightarrow> lf_at p = Some y \<Longrightarrow> t \<notin> lf_miss s \<Longrightarrow> lf_leads key (lf_m s) N k y \<and> y \<in> lf_pub s"
  shows "\<exists>N'. lf_inv key (lf_observe (lf_after s t p ((lf_m s)(q := (x, False))))) N'"
proof -
  note S = lf_invD(1) [OF I]
  let ?m = "(lf_m s)(q := (x, False))"
  have P: "q \<in> lf_pub s" "q \<noteq> TAIL" "c \<noteq> TAIL" using q(1) c(1) by (auto simp: lf_pos_def lf_node_def)
  obtain M where M: "lf_change key (lf_m s) N (lf_pub s) ?m M (lf_pub s)" "set M = set N - {c}" "c \<in> set N" "lf_map key ?m M = lf_map key (lf_m s) N"
    using lf_change_unlink [OF S P(1,2) q(2) P(3) c(2)] by blast
  have "q \<noteq> c" using q(2) c(2) by auto
  then have "lf_ok key M (lf_pub s) ?m p" by (intro ok) (simp_all add: M(2) c(2))
  then have "lf_inv key (lf_observe (lf_after s t p ?m)) M"
  proof (intro lf_inv_step [OF I t], goal_cases)
    case (8 j y)
    then show ?case using hind [of j y] lf_leads_change [OF _ M(1)] by simp
  qed (use M p P in auto)
  then show ?thesis by blast
qed

lemma lf_find_inv:
  assumes I: "lf_inv key s N" and cmp: "cmp_ok cmp key" and pc: "lf_pcs s t = D f"
    and D: "\<And>f. lf_own (D f) = Own" "\<And>f. lf_gone (D f) = find_gone f" "\<And>f. lf_at (D f) = Some (find_at f)" "\<And>f. lf_key (D f) = Some k" "\<And>f. lf_log (D f) = []"
      "\<And>f. lf_publishes (D f) = {}" "\<And>f. lf_give (D f) = {}" "\<And>f. D f \<noteq> LfIdle" "\<And>f N P m. lf_ok key N P m (D f) \<longleftrightarrow> Q \<and> find_ok key N P m k f"
    and step: "vlistset_find_loop cmp k f (lf_m s) = (r, m)"
  shows "(\<exists>f'. r = Inl f' \<and> (\<exists>N'. lf_inv key (lf_observe (lf_after s t (D f') m)) N')) \<or>
    (\<exists>p c. r = Inr (p, c) \<and> m = lf_m s \<and> lf_pos key (lf_pub s) k p \<and> c \<in> lf_pub s \<and> c \<noteq> HEAD \<and> kpos k \<le> ekey key c \<and>
       (t \<in> lf_miss s \<or> ekey key c = kpos k) \<and> (\<not> snd (m c) \<or> f = FdRetire p c TAIL))"
proof -
  note S = lf_invD(1) [OF I]
  have Q: "Q" and ok: "find_ok key N (lf_pub s) (lf_m s) k f" using lf_invD(4) [OF I, of t] by (auto simp: pc D)
  have H: "lf_leads key (lf_m s) N k (find_at f)" if "t \<notin> lf_miss s" using lf_invD(5) [OF I, of t] that by (auto simp: pc D lf_hind_def)
  have t: "lf_pcs s t \<noteq> LfIdle" by (simp add: pc D)
  have go: ?thesis if "r = Inl f'" "m = lf_m s" "find_ok key N (lf_pub s) (lf_m s) k f'" "find_gone f' = {}"
    "t \<notin> lf_miss s \<Longrightarrow> lf_map key (lf_m s) N k \<noteq> None \<Longrightarrow> lf_leads key (lf_m s) N k (find_at f')" for f'
  proof -
    have "lf_inv key (lf_observe (lf_after s t (D f') (lf_m s))) N" by (rule lf_local [OF I t]) (use that Q in \<open>auto simp: D pc\<close>)
    then show ?thesis using that by blast
  qed
  have test: ?thesis if t: "r = find_test cmp k p c x" "m = lf_m s" "lf_pos key (lf_pub s) k p" "lf_node (lf_pub s) c" "fst (lf_m s c) = x"
    and l: "t \<notin> lf_miss s \<Longrightarrow> lf_leads key (lf_m s) N k c \<or> (lf_leads key (lf_m s) N k x \<and> x = TAIL)" and f: "\<not> snd (lf_m s c) \<or> f = FdRetire p c TAIL" for p c x
  proof -
    have c: "c \<in> lf_pub s" "c \<noteq> HEAD" "c \<noteq> TAIL" using t(4) by (auto simp: lf_node_def)
    have tl: "TAIL \<in> lf_pub s" using lf_head [OF S] by simp
    have l': "t \<in> lf_miss s \<or> (lf_leads key (lf_m s) N k c \<and> ekey key c \<le> kpos k)"
      using l lf_leads_tail [OF S, of k] lf_leads_ekey [OF S, of k c] c(1) by blast
    consider "kpos k \<le> ekey key c" | "ekey key c < kpos k" "x \<noteq> TAIL" | "ekey key c < kpos k" "x = TAIL" by linarith
    then show ?thesis
    proof cases
      case 1
      then have "r = Inr (p, c)" using t(1) find_test_cases [OF cmp t(4)] by simp
      then show ?thesis using t c 1 l' f by auto
    next
      case 2
      then have r: "r = Inl (FdGet c x)" using t(1) find_test_cases [OF cmp t(4)] by simp
      show ?thesis by (rule go [OF r t(2)])
        (use 2 c lf_next [OF S c(1,3)] t(5) l' lf_leads_next [OF S, of k c] in \<open>auto simp: lf_pos_def lf_node_def\<close>)
    next
      case 3
      then have r: "r = Inr (c, TAIL)" using t(1) find_test_cases [OF cmp t(4)] by simp
      have "t \<in> lf_miss s" using l' lf_leads_next [OF S, of k c] lf_leads_tail [OF S, of k] 3 t(5) by auto
      then show ?thesis using r t(2) c 3 tl lf_shapeD(7) [OF S] less_imp_le [OF ekey_sentinels(2) [of k key]] by (auto simp: lf_pos_def)
    qed
  qed
  show ?thesis
  proof (cases f)
    case FdHead
    have h: "lf_pos key (lf_pub s) k HEAD" using lf_head [OF S] kpos_bounds(1) [of k] by (simp add: lf_pos_def)
    note nx = lf_next [OF S, of HEAD]
    have m: "m = lf_m s" and r: "r = (if fst (lf_m s HEAD) \<noteq> TAIL then Inl (FdGet HEAD (fst (lf_m s HEAD))) else Inr (HEAD, TAIL))" using step FdHead by (auto simp: Let_def)
    have l: "lf_leads key (lf_m s) N k (fst (lf_m s HEAD))" if "t \<notin> lf_miss s"
      using lf_leads_next [OF S, of k HEAD] H [OF that] FdHead kpos_bounds(1) [of k] by auto
    show ?thesis
    proof (cases "fst (lf_m s HEAD) = TAIL")
      case True
      have "t \<in> lf_miss s" using l True lf_leads_tail [OF S, of k] by auto
      then show ?thesis using True m r h lf_head [OF S] lf_shapeD(7) [OF S] less_imp_le [OF ekey_sentinels(2) [of k key]] by auto
    next
      case False
      then show ?thesis using go [of "FdGet HEAD (fst (lf_m s HEAD))"] m r h nx l lf_head [OF S] by (auto simp: lf_node_def)
    qed
  next
    case (FdGet p c)
    have o: "lf_pos key (lf_pub s) k p" "lf_node (lf_pub s) c" using ok FdGet by auto
    obtain x b where x: "lf_m s c = (x, b)" by (cases "lf_m s c")
    have m: "m = lf_m s" and r: "r = (if b then Inl (FdSnip p c x) else find_test cmp k p c x)" using step FdGet x by auto
    show ?thesis
    proof (cases b)
      case True
      then show ?thesis using go [of "FdSnip p c x"] m r o x H FdGet by auto
    next
      case False
      then show ?thesis using test [of p c x] m r o x H FdGet by auto
    qed
  next
    case (FdSnip p c x)
    have o: "lf_pos key (lf_pub s) k p" "lf_node (lf_pub s) c" "lf_m s c = (x, True)" using ok FdSnip by auto
    show ?thesis
    proof (cases "lf_m s p = (c, False)")
      case True
      then have m: "m = (lf_m s)(p := (x, False))" and r: "r = Inl (FdRetire p c x)" using step FdSnip by (auto simp: markable_cmpxchg_def)
      have c: "c \<in> lf_pub s" "c \<noteq> TAIL" using o(2) by (auto simp: lf_node_def)
      have l: "lf_leads key (lf_m s) N k x \<and> x \<in> lf_pub s" if "t \<notin> lf_miss s"
        using lf_leads_next [OF S, of k c] H [OF that] FdSnip o(3) lf_shapeD(3) [OF S c] by auto
      have "\<exists>N'. lf_inv key (lf_observe (lf_after s t (D (FdRetire p c x)) ((lf_m s)(p := (x, False))))) N'"
        by (rule lf_unlink [OF I t o(1) True o(2,3)]) (use D Q o l pc in auto)
      then show ?thesis using m r by auto
    next
      case False
      then have m: "m = lf_m s" and r: "r = Inl FdHead" using step FdSnip by (auto simp: markable_cmpxchg_def)
      show ?thesis by (rule go [OF r m]) (use lf_leads_head [OF S] in auto)
    qed
  next
    case (FdRetire p c x)
    have o: "lf_pos key (lf_pub s) k p" "lf_node (lf_pub s) c" "lf_m s c = (x, True)" using ok FdRetire by auto
    have c: "c \<in> lf_pub s" "c \<noteq> TAIL" using o(2) by (auto simp: lf_node_def)
    show ?thesis
    proof (cases "x = TAIL")
      case True
      then show ?thesis using test [of p c x] step o H FdRetire by auto
    next
      case False
      then have m: "m = lf_m s" and r: "r = Inl (FdGet p x)" using step FdRetire by auto
      show ?thesis by (rule go [OF r m]) (use False o H FdRetire lf_next [OF S c] in \<open>auto simp: lf_node_def\<close>)
    qed
  qed
qed

lemma lf_find_add:
  assumes I: "lf_inv key s N" and cmp: "cmp_ok cmp key" and p: "lf_pcs s t = LfAdd k n (FaFind f)" and step: "vlistset_find_loop cmp k f (lf_m s) = (r, m)"
  shows "(\<exists>f'. r = Inl f' \<and> (\<exists>N'. lf_inv key (lf_observe (lf_after s t (LfAdd k n (FaFind f')) m)) N')) \<or>
    (\<exists>p c. r = Inr (p, c) \<and> m = lf_m s \<and> lf_pos key (lf_pub s) k p \<and> c \<in> lf_pub s \<and> c \<noteq> HEAD \<and> kpos k \<le> ekey key c \<and>
       (t \<in> lf_miss s \<or> ekey key c = kpos k) \<and> (\<not> snd (m c) \<or> f = FdRetire p c TAIL))"
  by (rule lf_find_inv [OF I cmp, of t "\<lambda>f. LfAdd k n (FaFind f)" f "{n}" k "key n = k"]) (use p step in auto)

lemma lf_find_remove:
  assumes I: "lf_inv key s N" and cmp: "cmp_ok cmp key" and p: "lf_pcs s t = LfRemove k (FrFind f)" and step: "vlistset_find_loop cmp k f (lf_m s) = (r, m)"
  shows "(\<exists>f'. r = Inl f' \<and> (\<exists>N'. lf_inv key (lf_observe (lf_after s t (LfRemove k (FrFind f')) m)) N')) \<or>
    (\<exists>p c. r = Inr (p, c) \<and> m = lf_m s \<and> lf_pos key (lf_pub s) k p \<and> c \<in> lf_pub s \<and> c \<noteq> HEAD \<and> kpos k \<le> ekey key c \<and>
       (t \<in> lf_miss s \<or> ekey key c = kpos k) \<and> (\<not> snd (m c) \<or> f = FdRetire p c TAIL))"
  by (rule lf_find_inv [OF I cmp, of t "\<lambda>f. LfRemove k (FrFind f)" f "{}" k True]) (use p step in auto)

lemma lf_add_inv:
  assumes I: "lf_inv key s N" and cmp: "cmp_ok cmp key" and p: "lf_pcs s t = LfAdd k n pc" and st: "vlistset_add_lf cmp k n pc (lf_m s) = Some (pc', m)"
  shows "\<exists>N'. lf_inv key (lf_observe (lf_after s t (LfAdd k n pc') m)) N'"
proof -
  note S = lf_invD(1) [OF I] and O = lf_invD(3) [OF I]
  have t: "lf_pcs s t \<noteq> LfIdle" by (simp add: p)
  have kn: "key n = k" and ok: "fadd_ok key N (lf_pub s) (lf_m s) k n pc" using lf_invD(4) [OF I, of t] p by auto
  have own: "n \<in> lf_own (lf_pcs s t)" if "\<And>b. pc \<noteq> FaDone b" using that p by (cases pc) auto
  show ?thesis
  proof (cases pc)
    case (FaFind f)
    obtain r m1 where w: "vlistset_find_loop cmp k f (lf_m s) = (r, m1)" by (cases "vlistset_find_loop cmp k f (lf_m s)")
    have e: "m = m1" "pc' = (case r of Inl f \<Rightarrow> FaFind f | Inr (p, c) \<Rightarrow> if TAIL \<noteq> c \<and> cmp c k = 0 then FaDone False else FaWrite p c)"
      using st FaFind w by auto
    consider (more) f' where "r = Inl f'" "\<exists>N'. lf_inv key (lf_observe (lf_after s t (LfAdd k n (FaFind f')) m1)) N'"
      | (stop) q c where "r = Inr (q, c)" "m1 = lf_m s" "lf_pos key (lf_pub s) k q" "c \<in> lf_pub s" "c \<noteq> HEAD" "kpos k \<le> ekey key c"
      using lf_find_add [OF I cmp p [unfolded FaFind] w] by blast
    then show ?thesis
    proof cases
      case (stop q c)
      have "ekey key c = kpos k \<longleftrightarrow> c \<noteq> TAIL \<and> cmp c k = 0" using cmp_ekey(2) [OF cmp stop(5), of k] by simp
      then have "pc' = (if ekey key c = kpos k then FaDone False else FaWrite q c)" using e(2) stop(1) by auto
      then have "lf_inv key (lf_observe (lf_after s t (LfAdd k n pc') (lf_m s))) N"
        by (cases "ekey key c = kpos k"; intro lf_local [OF I t]) (use stop kn own FaFind p in auto)
      then show ?thesis using e stop by auto
    qed (use e in auto)
  next
    case (FaWrite q c)
    have e: "m = (lf_m s)(n := (c, False))" "pc' = FaCas q c" using st FaWrite by auto
    have n: "n \<notin> lf_pub s" using lf_ownersD(1) [OF O own] FaWrite by auto
    have "lf_inv key (lf_observe (lf_after s t (LfAdd k n pc') m)) N"
      by (rule lf_inv_step [OF I t]) (use lf_change_private [OF S n] e ok kn FaWrite p in auto)
    then show ?thesis by blast
  next
    case (FaCas q c)
    have o: "lf_pos key (lf_pub s) k q" "kpos k < ekey key c" "lf_m s n = (c, False)" using ok FaCas by auto
    have n: "n \<notin> lf_pub s" using lf_ownersD(1) [OF O own] FaCas by auto
    show ?thesis
    proof (cases "lf_m s q = (c, False)")
      case True
      then have e: "m = (lf_m s)(q := (n, False))" "pc' = FaDone True" using st FaCas by (auto simp: markable_cmpxchg_def)
      have q: "q \<in> lf_pub s" "q \<noteq> TAIL" "ekey key q < kpos (key n)" "kpos (key n) < ekey key c" using o kn by (auto simp: lf_pos_def)
      obtain N' where N': "lf_change key (lf_m s) N (lf_pub s) m N' (lf_pub s \<union> {n})" "set N' = insert n (set N)" "lf_map key m N' = (lf_map key (lf_m s) N)(key n \<mapsto> n)" "lf_map key (lf_m s) N (key n) = None"
        using lf_change_insert [OF S q(1,2) True q(3,4) n o(3)] unfolding e(1) by blast
      have "lf_inv key (lf_observe (lf_after s t (LfAdd k n pc') m)) N'"
        by (rule lf_inv_step [OF I t]) (use N' e(2) kn q(1) FaCas p in \<open>auto simp: e(1)\<close>)
      then show ?thesis by blast
    next
      case False
      then have e: "m = lf_m s" "pc' = FaFind FdHead" using st FaCas by (auto simp: markable_cmpxchg_def)
      have "lf_inv key (lf_observe (lf_after s t (LfAdd k n pc') (lf_m s))) N"
        by (rule lf_local [OF I t]) (use e kn FaCas p lf_leads_head [OF S] in auto)
      then show ?thesis using e by auto
    qed
  qed (use st in simp)
qed

lemma lf_remove_inv:
  assumes I: "lf_inv key s N" and cmp: "cmp_ok cmp key" and p: "lf_pcs s t = LfRemove k pc" and st: "vlistset_remove_lf cmp k pc (lf_m s) = Some (pc', m)"
  shows "\<exists>N'. lf_inv key (lf_observe (lf_after s t (LfRemove k pc') m)) N'"
proof -
  note S = lf_invD(1) [OF I]
  have t: "lf_pcs s t \<noteq> LfIdle" by (simp add: p)
  have ok: "fremove_ok key N (lf_pub s) (lf_m s) k pc" using lf_invD(4) [OF I, of t] p by auto
  have go: ?thesis if "m = lf_m s" "fremove_ok key N (lf_pub s) (lf_m s) k pc'" "pc' = FrFind FdHead \<or> (\<exists>p c. pc' = FrSucc p c) \<or> (\<exists>p c x. pc' = FrMark p c x) \<or> (\<exists>b. pc' = FrDone b)"
  proof -
    have "lf_inv key (lf_observe (lf_after s t (LfRemove k pc') (lf_m s))) N"
      by (rule lf_local [OF I t]) (use that lf_leads_head [OF S] in auto)
    then show ?thesis using that(1) by auto
  qed
  show ?thesis
  proof (cases pc)
    case (FrFind f)
    obtain r m1 where w: "vlistset_find_loop cmp k f (lf_m s) = (r, m1)" by (cases "vlistset_find_loop cmp k f (lf_m s)")
    have e: "m = m1" "pc' = (case r of Inl f \<Rightarrow> FrFind f | Inr (p, c) \<Rightarrow> if TAIL = c \<or> cmp c k \<noteq> 0 then FrDone False else FrSucc p c)"
      using st FrFind w by auto
    consider (more) f' where "r = Inl f'" "\<exists>N'. lf_inv key (lf_observe (lf_after s t (LfRemove k (FrFind f')) m1)) N'"
      | (stop) q c where "r = Inr (q, c)" "m1 = lf_m s" "lf_pos key (lf_pub s) k q" "c \<in> lf_pub s" "c \<noteq> HEAD"
      using lf_find_remove [OF I cmp p [unfolded FrFind] w] by blast
    then show ?thesis
    proof cases
      case (stop q c)
      have "c \<noteq> TAIL \<and> cmp c k = 0 \<longleftrightarrow> c \<noteq> TAIL \<and> key c = k" by (rule cmp_ekey(3) [OF cmp stop(5)])
      then show ?thesis by (intro go) (use e stop in \<open>auto simp: lf_node_def\<close>)
    qed (use e in auto)
  next
    case (FrSucc q c)
    then show ?thesis by (intro go) (use st ok in auto)
  next
    case (FrMark q c x)
    have o: "lf_pos key (lf_pub s) k q" "lf_node (lf_pub s) c" "key c = k" using ok FrMark by auto
    show ?thesis
    proof (cases "lf_m s c = (x, False)")
      case True
      then have e: "m = (lf_m s)(c := (x, True))" "pc' = FrDetach q c x" using st FrMark by (auto simp: markable_cmpxchg_def)
      have c: "c \<in> lf_pub s" "c \<noteq> HEAD" "c \<noteq> TAIL" using o(2) by (auto simp: lf_node_def)
      have "lf_inv key (lf_observe (lf_after s t (LfRemove k pc') m)) N"
        by (rule lf_inv_step [OF I t]) (use lf_change_mark [OF S c True] e o c p FrMark in auto)
      then show ?thesis by blast
    next
      case False
      then show ?thesis by (intro go) (use st FrMark in \<open>auto simp: markable_cmpxchg_def\<close>)
    qed
  next
    case (FrDetach q c x)
    have o: "lf_pos key (lf_pub s) k q" "lf_node (lf_pub s) c" "lf_m s c = (x, True)" using ok FrDetach by auto
    show ?thesis
    proof (cases "lf_m s q = (c, False)")
      case True
      then have e: "m = (lf_m s)(q := (x, False))" "pc' = FrRetire c" using st FrDetach by (auto simp: markable_cmpxchg_def)
      show ?thesis unfolding e by (rule lf_unlink [OF I t o(1) True o(2,3)]) (use o(2) in \<open>auto simp: lf_node_def\<close>)
    next
      case False
      then show ?thesis by (intro go) (use st FrDetach in \<open>auto simp: markable_cmpxchg_def\<close>)
    qed
  next
    case (FrRetire c)
    then show ?thesis by (intro go) (use st in auto)
  qed (use st in simp)
qed

lemma lf_get_inv:
  assumes I: "lf_inv key s N" and cmp: "cmp_ok cmp key" and p: "lf_pcs s t = LfGet k pc" and st: "vlistset_get_lf cmp k pc (lf_m s) = Some (pc', m)"
  shows "(\<exists>N'. lf_inv key (lf_observe (lf_after s t (LfGet k pc') m)) N') \<and> (pc' = FgDone None \<longrightarrow> t \<in> lf_miss s)"
proof -
  note S = lf_invD(1) [OF I]
  have t: "lf_pcs s t \<noteq> LfIdle" by (simp add: p)
  have H: "lf_leads key (lf_m s) N k x" if "t \<notin> lf_miss s" "lf_at (lf_pcs s t) = Some x" for x
    using lf_invD(5) [OF I, of t] that p by (auto simp: lf_hind_def)
  have go: "\<exists>N'. lf_inv key (lf_observe (lf_after s t (LfGet k pc') m)) N'" if "m = lf_m s" "lf_ok key N (lf_pub s) (lf_m s) (LfGet k pc')"
    "\<And>c. pc' = FgDone (Some c) \<Longrightarrow> lf_map key (lf_m s) N k = Some c" "\<And>x. lf_at (LfGet k pc') = Some x \<Longrightarrow> t \<notin> lf_miss s \<Longrightarrow> lf_leads key (lf_m s) N k x"
  proof -
    have log: "lf_log (LfGet k pc') = (case pc' of FgDone (Some c) \<Rightarrow> [SGet k (Some c)] | _ \<Rightarrow> [])" by (auto split: fget_pc.split option.split)
    have "lf_inv key (lf_observe (lf_after s t (LfGet k pc') (lf_m s))) N"
      by (rule lf_local [OF I t]) (use that log in \<open>auto split: fget_pc.split option.split\<close>)
    then show ?thesis using that(1) by auto
  qed
  show ?thesis
  proof (cases pc)
    case (FgRead x)
    have o: "x \<in> lf_pub s" "x \<noteq> TAIL" "ekey key x < kpos k" using lf_invD(4) [OF I, of t] p FgRead by (auto simp: lf_pos_def)
    let ?c = "fst (lf_m s x)"
    note nx = lf_next [OF S o(1,2)]
    have m: "m = lf_m s" using st FgRead by (auto simp: Let_def)
    have l: "lf_leads key (lf_m s) N k ?c" if "t \<notin> lf_miss s" using lf_leads_next [OF S H [OF that]] p FgRead o(3) by auto
    consider "?c \<noteq> TAIL \<and> cmp ?c k < 0" "pc' = FgRead ?c" | "?c \<noteq> TAIL \<and> cmp ?c k = 0" "pc' = FgMark ?c"
      | "\<not> (?c \<noteq> TAIL \<and> cmp ?c k < 0)" "\<not> (?c \<noteq> TAIL \<and> cmp ?c k = 0)" "pc' = FgDone None"
      using st FgRead by (auto simp: Let_def split: if_splits)
    then show ?thesis
    proof cases
      case 1
      show ?thesis by (intro conjI go [OF m]) (use 1 nx cmp_ekey(1) [OF cmp nx(2), of k] l in \<open>auto simp: lf_pos_def\<close>)
    next
      case 2
      show ?thesis by (intro conjI go [OF m]) (use 2 nx cmp_ekey(3) [OF cmp nx(2), of k] l in \<open>auto simp: lf_node_def\<close>)
    next
      case 3
      have "kpos k < ekey key ?c" using 3(1,2) cmp_ekey(1,2) [OF cmp nx(2), of k] by linarith
      then have "t \<in> lf_miss s" using l lf_leads_ekey [OF S _ nx(1), of k] by fastforce
      then show ?thesis by (intro conjI go [OF m]) (use 3(3) in auto)
    qed
  next
    case (FgMark c)
    have o: "c \<in> lf_pub s" "c \<noteq> HEAD" "c \<noteq> TAIL" "key c = k" using lf_invD(4) [OF I, of t] p FgMark by (auto simp: lf_node_def)
    have m: "m = lf_m s" using st FgMark by auto
    have "lf_map key (lf_m s) N k = Some c" if "\<not> snd (lf_m s c)"
      using lf_map_iff [OF lf_shapeD(1) [OF S], of "lf_m s" k c] o lf_shapeD(5) [OF S o(1) that] that by simp
    moreover have "t \<in> lf_miss s" if "snd (lf_m s c)"
    proof (rule ccontr)
      assume "t \<notin> lf_miss s"
      then have "lf_leads key (lf_m s) N k (fst (lf_m s c))" using lf_leads_next [OF S H, of c] that p FgMark by auto
      then show False using lf_leads_ekey [OF S _ lf_shapeD(3) [OF S o(1,3)]] lf_shapeD(4) [OF S o(1,3)] o ekey_node [of c key] by fastforce
    qed
    ultimately show ?thesis
      by (intro conjI go [OF m]) (use st FgMark in \<open>auto split: if_splits\<close>)
  qed (use st in simp)
qed

lemma lf_begin_inv:
  assumes I: "lf_inv key s N" and i: "lf_pcs s t = LfIdle" and p: "lf_own p = A" "lf_ok key N (lf_pub s) (lf_m s) p" "lf_gone p = {}" "lf_at p = Some HEAD"
    and A: "A \<inter> lf_used s = {}"
  shows "lf_inv key (lf_observe (lf_begin s t p A)) N"
proof -
  let ?s = "lf_begin s t p A"
  note S = lf_invD(1) [OF I] and G = lf_invD(2) [OF I] and O = lf_invD(3) [OF I]
  have b: "lf_m ?s = lf_m s" "lf_pcs ?s = (lf_pcs s)(t := p)" "lf_active ?s = t # lf_active s" "lf_used ?s = lf_used s \<union> A" "lf_pub ?s = lf_pub s"
    "lf_retired ?s = lf_retired s" "lf_hist ?s = lf_hist s" "lf_miss ?s = lf_miss s" by (simp_all add: lf_begin_def)
  have R: "set_replay (lf_hist ?s) Map.empty = Some (lf_map key (lf_m ?s) N)" using lf_invD(7) [OF I] by (simp add: b)
  have act: "u \<in> set (lf_active ?s)" if "lf_pcs ?s u \<noteq> LfIdle" for u using that lf_invD(6) [OF I, of u] by (auto simp: b split: if_splits)
  have "lf_gones ?s N"
    by (rule lf_gones_move [OF G _ lf_ok_gone [OF lf_invD(4) [OF I]] b(2)]) (use p(3) i lf_shapeD(2) [OF S] in \<open>auto simp: b\<close>)
  moreover have "lf_owners ?s"
  proof -
    have "a \<notin> lf_pub ?s \<and> a \<in> lf_used ?s \<and> a \<noteq> NULLP" if "a \<in> lf_own (lf_pcs ?s u)" for u a
      using that p(1) A lf_ownersD(1,2,3) [OF O, of a u] lf_ownersD(5) [OF O, of a] lf_ownersD(6) [OF O] by (auto simp: b split: if_splits)
    moreover have "u = v" if "a \<in> lf_own (lf_pcs ?s u)" "a \<in> lf_own (lf_pcs ?s v)" for u v a
      using that p(1) A lf_ownersD(2) [OF O, of a u] lf_ownersD(2) [OF O, of a v] lf_ownersD(4) [OF O, of a u v] by (auto simp: b split: if_splits)
    ultimately show ?thesis using lf_ownersD(5-7) [OF O] unfolding lf_owners_def b by blast
  qed
  moreover have "lf_ok key N (lf_pub ?s) (lf_m ?s) (lf_pcs ?s u)" for u using p(2) lf_invD(4) [OF I, of u] by (simp add: b)
  moreover have "lf_hind key (lf_m ?s) N (u \<in> lf_miss (lf_observe ?s)) (lf_pcs ?s u)" for u
    by (rule lf_hind_observe [OF R act])
      (use lf_invD(5) [OF I, of u] lf_leads_head [OF S] p(4) in \<open>auto simp: b lf_hind_def split: if_splits\<close>)
  ultimately show ?thesis using S R act unfolding lf_inv_def lf_observe_parts lf_observe_sel b(1,5) by blast
qed

lemma lf_reclaim_inv:
  assumes I: "lf_inv key s N" and a: "lf_active s = []"
  shows "lf_inv key (s\<lparr>lf_used := lf_used s - lf_retired s, lf_pub := lf_pub s - lf_retired s, lf_retired := {}\<rparr>) N"
proof -
  let ?s = "s\<lparr>lf_used := lf_used s - lf_retired s, lf_pub := lf_pub s - lf_retired s, lf_retired := {}\<rparr>"
  note S = lf_invD(1) [OF I] and G = lf_invD(2) [OF I] and O = lf_invD(3) [OF I]
  have idle: "lf_pcs s t = LfIdle" for t using lf_invD(6) [OF I, of t] a by auto
  have in_N: "b \<in> set N" if "b \<in> lf_pub s" "b \<notin> lf_retired s" for b using lf_gonesD(1) [OF G that(1)] that(2) idle by auto
  have N: "b \<in> lf_pub s - lf_retired s" if "b \<in> set N" for b using lf_gonesD(3) [OF G, of b] that lf_shapeD(2) [OF S that] by auto
  have "lf_shape key (lf_m s) N (lf_pub s - lf_retired s)"
  proof (rule lf_shapeI [OF lf_shapeD(1) [OF S] _ _ _ lf_shapeD(6,7) [OF S]])
    fix b assume b: "b \<in> lf_pub s - lf_retired s" "b \<noteq> TAIL"
    then have "fst (lf_m s b) \<in> set N" using listed_next [OF lf_shapeD(1) [OF S], of b] in_N by auto
    then show "fst (lf_m s b) \<in> lf_pub s - lf_retired s \<and> ekey key b < ekey key (fst (lf_m s b))" using N lf_shapeD(4) [OF S, of b] b by auto
  qed (use N in_N in auto)
  moreover have "lf_gones ?s N" using in_N by (auto simp: lf_gones_def idle)
  moreover have "lf_owners ?s" using lf_ownersD(5-7) [OF O] lf_gonesD(2) [OF G] by (auto simp: lf_owners_def idle)
  ultimately show ?thesis using lf_invD(7) [OF I] by (simp add: lf_inv_def idle lf_hind_def)
qed

lemma lf_step_inv:
  assumes I: "lf_inv key s N" and cmp: "cmp_ok cmp key" and st: "lf_step cmp (t, cmd) s = Some s'"
  shows "\<exists>N'. lf_inv key s' N'"
proof (cases cmd)
  case (FlcAdd k n)
  then have c: "lf_pcs s t = LfIdle" "n \<notin> lf_used s" "cmp n k = 0" "s' = lf_observe (lf_begin s t (LfAdd k n (FaFind FdHead)) {n})" using st by (auto split: if_splits)
  have "key n = k" using c(3) cmp by (auto simp: cmp_ok_def split: if_splits)
  then have "lf_inv key s' N" unfolding c(4) by (intro lf_begin_inv [OF I c(1)]) (use c(2) in auto)
  then show ?thesis by blast
next
  case (FlcRemove k)
  then have c: "lf_pcs s t = LfIdle" "s' = lf_observe (lf_begin s t (LfRemove k (FrFind FdHead)) {})" using st by (auto split: if_splits)
  have "lf_inv key s' N" unfolding c(2) by (intro lf_begin_inv [OF I c(1)]) auto
  then show ?thesis by blast
next
  case (FlcGet k)
  then have c: "lf_pcs s t = LfIdle" "s' = lf_observe (lf_begin s t (LfGet k (FgRead HEAD)) {})" using st by (auto split: if_splits)
  have "lf_inv key s' N" unfolding c(2)
    by (intro lf_begin_inv [OF I c(1)]) (use lf_head [OF lf_invD(1) [OF I]] kpos_bounds(1) [of k] in \<open>auto simp: lf_pos_def\<close>)
  then show ?thesis by blast
next
  case FlcRun
  then obtain p' m where r: "lf_call cmp (lf_pcs s t) (lf_m s) = Some (p', m)" "s' = lf_observe (lf_after s t p' m)"
    using st by (auto simp: lf_run_def)
  show ?thesis
  proof (cases "lf_pcs s t")
    case (LfAdd k n pc)
    then show ?thesis using r lf_add_inv [OF I cmp LfAdd] by auto
  next
    case (LfRemove k pc)
    then show ?thesis using r lf_remove_inv [OF I cmp LfRemove] by auto
  next
    case (LfGet k pc)
    then show ?thesis using r lf_get_inv [OF I cmp LfGet] by auto
  qed (use r in simp)
next
  case FlcReclaim
  then show ?thesis using st lf_reclaim_inv [OF I] by (auto split: if_splits)
qed

section \<open>Linearizability\<close>

lemma lf_inv_start: "lf_inv key (lf_start m) [HEAD, TAIL]"
proof -
  have m: "lf_m (lf_start m) HEAD = (TAIL, False)" "lf_m (lf_start m) TAIL = (NULLP, False)" by (auto simp: lf_start_def vlistset_init_lf_def)
  have "lf_map key (lf_m (lf_start m)) [HEAD, TAIL] = Map.empty" by (auto simp: lf_map_def node_map_def fun_eq_iff)
  moreover have "lf_shape key (lf_m (lf_start m)) [HEAD, TAIL] {HEAD, TAIL}" using m by (auto simp: lf_shape_def listed_def ekey_def)
  moreover have "lf_pcs (lf_start m) = (\<lambda>_. LfIdle)" "lf_pub (lf_start m) = {HEAD, TAIL}" "lf_used (lf_start m) = {HEAD, TAIL, NULLP}" "lf_retired (lf_start m) = {}" "lf_hist (lf_start m) = []"
    by (simp_all add: lf_start_def)
  ultimately show ?thesis by (simp add: lf_inv_def lf_gones_def lf_owners_def lf_hind_def NULLP_def HEAD_def TAIL_def)
qed

lemma lf_reach_inv:
  assumes "cmp_ok cmp key" and "reach (lf_step cmp) (lf_start m) s"
  shows "\<exists>N. lf_inv key s N"
  using assms(2)
proof (induction rule: reach.induct)
  case reach_init
  show ?case using lf_inv_start by blast
next
  case (reach_step u a v)
  then show ?case using lf_step_inv [OF _ assms(1)] by (cases a) blast
qed

lemma visit_lf_linked:
  assumes "linked (lnx m) (c # xs @ [TAIL])" and "TAIL \<notin> set (c # xs)" and "NULLP \<notin> set (c # xs)"
  shows "visit_loop_lf d m c = Some (filter (\<lambda>a. \<not> snd (m a) \<or> d) (c # xs))"
  using assms
proof (induction xs arbitrary: c)
  case Nil
  then show ?case by (subst visit_loop_lf.simps, subst visit_loop_lf.simps) simp
next
  case (Cons b xs)
  then show ?case by (subst visit_loop_lf.simps) simp
qed

lemma visit_lf_listed:
  assumes "listed key (lnx m) N" and "NULLP \<notin> set N"
  obtains xs where "vlistset_visit_lf False m = Some xs" "sorted_wrt (<) (map key xs)" "lf_map key m N = map_of (map (\<lambda>a. (key a, a)) xs)"
proof -
  obtain ys where N: "N = HEAD # ys @ [TAIL]" "sorted_wrt (<) (map key ys)" "HEAD \<notin> set ys" "TAIL \<notin> set ys" by (rule listed_inner [OF assms(1)])
  let ?xs = "filter (\<lambda>a. \<not> snd (m a)) ys"
  have l: "linked (lnx m) (HEAD # ys @ [TAIL])" using assms by (simp add: listed_def N)
  have v: "vlistset_visit_lf False m = Some ?xs"
  proof (cases ys)
    case Nil
    then show ?thesis using l unfolding vlistset_visit_lf_def by (subst visit_loop_lf.simps) simp
  next
    case (Cons a zs)
    then show ?thesis using l visit_lf_linked [of m a zs False] N(1,4) assms(2) by (simp add: vlistset_visit_lf_def)
  qed
  have s: "sorted_wrt (<) (map key ?xs)" using N(2) by (simp add: sorted_wrt_map sorted_wrt_filter)
  have "lf_map key m N k = map_of (map (\<lambda>a. (key a, a)) ?xs) k" for k
  proof (rule option_ext)
    fix a
    have "map_of (map (\<lambda>a. (key a, a)) ?xs) k = Some a \<longleftrightarrow> a \<in> set ?xs \<and> key a = k"
      using s by (subst map_of_eq_Some_iff) (auto simp: comp_def strict_sorted_iff)
    then show "(lf_map key m N k = Some a) = (map_of (map (\<lambda>a. (key a, a)) ?xs) k = Some a)"
      using lf_map_iff [OF assms(1), of m k a] N by auto
  qed
  then have "lf_map key m N = map_of (map (\<lambda>a. (key a, a)) ?xs)" by blast
  then show ?thesis using that v s by blast
qed

text \<open>The failing returns.\<close>

lemma lf_remove_false:
  assumes I: "lf_inv key s N" and cmp: "cmp_ok cmp key" and p: "lf_pcs s t = LfRemove k pc" and st: "vlistset_remove_lf cmp k pc (lf_m s) = Some (FrDone False, m)"
  shows "t \<in> lf_miss s"
proof (cases pc)
  case (FrFind f)
  obtain r m1 where w: "vlistset_find_loop cmp k f (lf_m s) = (r, m1)" by (cases "vlistset_find_loop cmp k f (lf_m s)")
  then obtain q c where r: "r = Inr (q, c)" "TAIL = c \<or> cmp c k \<noteq> 0" using st FrFind by (auto split: sum.splits if_splits)
  then have "c \<noteq> HEAD \<and> (t \<in> lf_miss s \<or> ekey key c = kpos k)" using lf_find_remove [OF I cmp p [unfolded FrFind] w] by auto
  then show ?thesis using cmp_ekey(2) [OF cmp, of c k] r(2) by auto
qed (use st in \<open>auto simp: markable_cmpxchg_def split: if_splits\<close>)

lemma lf_add_false:
  assumes I: "lf_inv key s N" and cmp: "cmp_ok cmp key" and p: "lf_pcs s t = LfAdd k n pc" and st: "vlistset_add_lf cmp k n pc (lf_m s) = Some (FaDone False, m)"
  shows "lf_map key (lf_m s) N k \<noteq> None \<or> (\<exists>q c. pc = FaFind (FdRetire q c TAIL) \<and> key c = k)"
proof (cases pc)
  case (FaFind f)
  note S = lf_invD(1) [OF I]
  obtain r m1 where w: "vlistset_find_loop cmp k f (lf_m s) = (r, m1)" by (cases "vlistset_find_loop cmp k f (lf_m s)")
  then obtain q c where r: "r = Inr (q, c)" "TAIL \<noteq> c \<and> cmp c k = 0" using st FaFind by (auto split: sum.splits if_splits)
  then have f: "m1 = lf_m s" "c \<in> lf_pub s" "c \<noteq> HEAD" "\<not> snd (lf_m s c) \<or> f = FdRetire q c TAIL" using lf_find_add [OF I cmp p [unfolded FaFind] w] by auto
  then have k: "key c = k" "c \<noteq> TAIL" using cmp_ekey(3) [OF cmp f(3), of k] r(2) by auto
  show ?thesis
  proof (cases "snd (lf_m s c)")
    case False
    then have "lf_map key (lf_m s) N k = Some c" using lf_map_iff [OF lf_shapeD(1) [OF S], of "lf_m s" k c] f(3) k lf_shapeD(5) [OF S f(2)] by simp
    then show ?thesis by simp
  qed (use f(4) FaFind k(1) in auto)
qed (use st in \<open>auto simp: markable_cmpxchg_def split: if_splits\<close>)


text \<open>
  A lookup of 7 stands at the node of 5 while that node is removed and finds 7 from there; a lookup of 5 that starts at the same time finds nothing.
\<close>

definition lf_example :: "(tid \<times> lf_cmd) list" where
  "lf_example = (0, FlcAdd 5 10) # replicate 3 (0, FlcRun) @ (0, FlcAdd 7 11) # replicate 4 (0, FlcRun) @ [(3, FlcGet 7), (3, FlcRun), (4, FlcGet 5), (4, FlcRun)] @
     (1, FlcRemove 5) # replicate 6 (1, FlcRun) @ replicate 2 (3, FlcRun) @ [(4, FlcRun), (0, FlcReclaim)]"

lemma lf_example_runs:
  "map_option (\<lambda>s. (lf_hist s, vlistset_visit_lf False (lf_m s))) (exec (lf_step cmp_example) lf_example (lf_start (\<lambda>_. (0, False)))) =
     Some ([SAdd 5 10 True, SAdd 7 11 True, SRemove 5 True, SGet 7 (Some 11)], Some [11])"
  by code_simp


section \<open>An add that fails although its key is absent\<close>

text \<open>
  Keys: node 10 has key 3, all other nodes have key 7. Node 11 is added; a remove of 7 has found it behind the head when node 10 is linked in between, so it
  marks node 11 but cannot unlink it. All calls have returned and only key 3 is in the set. An add of 7 now unlinks node 11, takes it for its result because
  the next node is the tail, finds the key there and fails.
\<close>

definition cmp_bug :: "addr \<Rightarrow> key \<Rightarrow> int" where
  "cmp_bug a k = (let ka = (if a = 10 then 3 else 7) in if ka = k then 0 else if ka < k then -1 else 1)"

definition lf_bug :: "(tid \<times> lf_cmd) list" where
  "lf_bug = (0, FlcAdd 7 11) # replicate 3 (0, FlcRun) @ (1, FlcRemove 7) # replicate 3 (1, FlcRun) @ (0, FlcAdd 3 10) # replicate 4 (0, FlcRun) @ replicate 2 (1, FlcRun)"

definition lf_bug_start :: lf_sys where
  "lf_bug_start = lf_start (\<lambda>_. (0, False))"

lemma lf_bug_runs:
  "map_option (\<lambda>s. (lf_active s, lf_rets s, vlistset_visit_lf False (lf_m s))) (exec (lf_step cmp_bug) lf_bug lf_bug_start) =
     Some ([], [SAdd 7 11 True, SAdd 3 10 True, SRemove 7 True], Some [10])"
  by code_simp

lemma lf_bug_add:
  "map_option (\<lambda>s. (lf_active s, lf_rets s, vlistset_visit_lf False (lf_m s))) (exec (lf_step cmp_bug) (lf_bug @ (2, FlcAdd 7 12) # replicate 5 (2, FlcRun)) lf_bug_start) =
     Some ([], [SAdd 7 11 True, SAdd 3 10 True, SRemove 7 True, SAdd 7 12 False], Some [10])"
  by code_simp

lemma cmp_bug_ok: "cmp_ok cmp_bug (\<lambda>a. if a = 10 then 3 else 7)"
  by (simp add: cmp_ok_def cmp_bug_def)

text \<open>
  C15. An add to the lock-free list set can fail although its key is absent: a state is reachable in which all calls have returned, the remove of 7 has returned true and the
  set holds only the node 10 of key 3, and from which an add of 7 that runs alone returns false and leaves the set as it was.
\<close>

theorem listset_lf_add_fails:
  "\<exists>s s'. reach (lf_step cmp_bug) lf_bug_start s \<and> lf_active s = [] \<and> lf_rets s = [SAdd 7 11 True, SAdd 3 10 True, SRemove 7 True] \<and> vlistset_visit_lf False (lf_m s) = Some [10] \<and>
     exec (lf_step cmp_bug) ((2, FlcAdd 7 12) # replicate 5 (2, FlcRun)) s = Some s' \<and> lf_active s' = [] \<and> lf_rets s' = lf_rets s @ [SAdd 7 12 False] \<and> vlistset_visit_lf False (lf_m s') = Some [10]"
proof -
  obtain s where s: "exec (lf_step cmp_bug) lf_bug lf_bug_start = Some s" "lf_active s = []" "lf_rets s = [SAdd 7 11 True, SAdd 3 10 True, SRemove 7 True]"
    "vlistset_visit_lf False (lf_m s) = Some [10]" using lf_bug_runs by auto
  obtain s' where "exec (lf_step cmp_bug) (lf_bug @ (2, FlcAdd 7 12) # replicate 5 (2, FlcRun)) lf_bug_start = Some s'" and s': "lf_active s' = []"
    "lf_rets s' = [SAdd 7 11 True, SAdd 3 10 True, SRemove 7 True, SAdd 7 12 False]" "vlistset_visit_lf False (lf_m s') = Some [10]" using lf_bug_add by auto
  then have "exec (lf_step cmp_bug) ((2, FlcAdd 7 12) # replicate 5 (2, FlcRun)) s = Some s'" using exec_append_Some [OF s(1)] by metis
  moreover have "lf_rets s' = lf_rets s @ [SAdd 7 12 False]" using s(3) s'(2) by simp
  ultimately show ?thesis using s(2-4) s'(1,3) exec_reach [OF s(1)] by blast
qed

end
