(* ===== verification/Spec2Isabelle.thy ===== *)
theory Spec2Isabelle
  imports Caslock Ttaslock Ticketlock Twalock Mcslock Clhlock Hemlock Arraylock Rwlock Seqcount Bitmap Sct_Micro Sct_Account Sct_Stack Sct_Races Sct_Deadlocks Bounded_Mpmc Bounded_Locked Simpleht Vonce Vcond Recursive_Lock Elimination_Stack Backoff Treeset_Bst Ub_Lf Ub_Total Chaselev Buf_Ring_Test Listset_Lf
begin

text \<open>
  Verification of \<^emph>\<open>benchamel\<close>, a collection of concurrent C programs with known faults: the
  synchronisation library \<^verbatim>\<open>libvsync\<close>, some of whose headers carry an injected bug beside the
  original as \<^verbatim>\<open>*.h.orig\<close>, and benchmark suites of small pthread programs, of which
  \<^verbatim>\<open>sctbench/concurrent-software-benchmarks\<close> is treated here. Paths below are relative to
  \<^verbatim>\<open>src/libvsync/include/vsync\<close> for the library.

  \<^bold>\<open>How the programs are modelled.\<close> A call of a library function is a step function on a program
  counter (a datatype with one constructor per point between two shared accesses) and the shared
  structure: one step performs one atomic operation, returns either the next program counter or the
  result of the call, and is \<open>None\<close> while an await loop has to wait. Threads that call the functions in
  any order are a step relation in the sense of \<open>Transition\<close> (\<open>reach\<close>, \<open>exec\<close>, the locales of
  invariants and simulations), with one element of the schedule per step, so every interleaving is
  covered. The memory is sequentially consistent: barriers are not modelled. Counters are machine words
  of their C width; a theorem that needs them not to wrap around says so as a bound on the number of
  steps (below \<open>2 ^ 32\<close>), and there are theorems that show what happens beyond it. A pthread program is
  a list of commands per thread (\<open>Pthreads\<close>), compiled to jumps so that one step is one shared access;
  assertions, accesses out of bounds and undefined uses of the library are failures of the model.

  \<^bold>\<open>The theories.\<close>
  \<^item> \<open>Bench_Prelude\<close>: shared lemmas on lists, options and words. \<open>Transition\<close>: reachability, execution of
    schedules, the locales \<open>inv_system\<close> and \<open>simulation\<close>. \<open>Held\<close>: counting the holders of a resource.
  \<^item> \<open>Vatomic\<close> (\<^verbatim>\<open>atomic/internal/builtins.h\<close>, \<^verbatim>\<open>fallback.h\<close>): the atomic operations on 32-bit words and
    the retry loops built from them, which act as one atomic step. \<open>Vatomicptr\<close>: the same on pointers.
  \<^item> \<open>Lock_Spec\<close>: the specifications of a lock and of a first-in first-out lock, as locales that the
    locks interpret. \<open>Caslock\<close>, \<open>Ttaslock\<close>, \<open>Ticketlock\<close>, \<open>Twalock\<close> (\<^verbatim>\<open>spinlock/\<close>): mutual exclusion, order
    of entry, the effect of the injected bugs and of wrap-around.
  \<^item> \<open>Lock_Client\<close>: a thread that calls the operations of a lock of queue nodes, and lemmas on adjacent
    elements of a queue. \<open>Mcslock\<close>, \<open>Clhlock\<close>, \<open>Hemlock\<close>, \<open>Arraylock\<close> (\<^verbatim>\<open>spinlock/\<close>): each refines the
    first-in first-out lock; progress of the MCS lock; the injected bugs; an array that is too long.
  \<^item> \<open>Semaphore\<close>, \<open>Rwlock\<close> (\<^verbatim>\<open>spinlock/semaphore.h\<close>, \<^verbatim>\<open>rwlock.h\<close>): conservation of resources; a writer is
    alone. \<open>Seqlock\<close>, \<open>Seqcount\<close>: readers that are accepted saw one consistent value.
  \<^item> \<open>Vfutex\<close>, \<open>Vmutex\<close>, \<open>Vonce\<close>, \<open>Vcond\<close> (\<^verbatim>\<open>thread/\<close>): the user-space futex; the slim, tristate and musl mutexes, the
    one-time call and the condition variable on it. The locale \<open>futex_waiting\<close> states when no wake-up is lost, the
    locale \<open>futex_mutex\<close> what makes a mutex on a futex; exclusion, progress, one call of the callback.
  \<^item> \<open>Vmath\<close>, \<open>Bitmap\<close> (\<^verbatim>\<open>utils/math.h\<close>, \<^verbatim>\<open>bitmap/bitmap.h\<close>): agreement of the variants of the helpers with
    the mathematical functions; ranges and iteration over a bitmap.
  \<^item> \<open>Bounded_Queue\<close> (the list queue as specification), \<open>Bounded_Spsc\<close>, \<open>Bounded_Mpmc\<close>, \<open>Bounded_Locked\<close>
    (\<^verbatim>\<open>queue/bounded_*.h\<close>): order and completeness of the values, full and empty, wrap-around.
  \<^item> \<open>Simpleht\<close> (\<^verbatim>\<open>map/simpleht.h\<close>): the hash table with open addressing as whole calls of one thread. Sequences
    of calls refine a map (locale \<open>roomy_table\<close>), including the resettling of entries by the cleanup;
    which searches end; what goes wrong when the table is full.
  \<^item> \<open>Treeset_Heap\<close> (nodes, allocation and locks of \<^verbatim>\<open>map/internal/treeset\<close>), \<open>Treeset_Spec\<close> (the locale \<open>treeset_impl\<close>: what
    a tree set promises to a sequential client), \<open>Treeset_Bst\<close> (\<^verbatim>\<open>map/treeset_bst_fine.h\<close>, \<^verbatim>\<open>treeset_bst_coarse.h\<close>): the calls
    refine a map, no lock assertion fails, traversals are complete, destroying frees every node. Calls of one
    thread at a time.
  \<^item> \<open>Recursive_Lock\<close> (\<^verbatim>\<open>utils/recursive_lock.h\<close>): the wrapper over any lock that meets \<open>Lock_Spec\<close>, and its instances.
  \<^item> \<open>Linked_List\<close> (lists in memory), \<open>Treiber\<close> (\<^verbatim>\<open>stack/quack.h\<close>, \<^verbatim>\<open>stack_core.h\<close>, \<^verbatim>\<open>xbo_stack.h\<close>), \<open>Exchanger\<close> and
    \<open>Elimination_Stack\<close>: linearizable stacks; the elimination stack refines the Treiber stack. \<open>Tagged_Ptr\<close>: pointers with
    a stamp or a mark. \<open>Backoff\<close> (\<^verbatim>\<open>utils/backoff.h\<close>, \<^verbatim>\<open>xbo.h\<close>).
  \<^item> \<open>Ub_Queue\<close> (memory, traversals and the sequential queue), \<open>Ub_Lf\<close> (\<^verbatim>\<open>queue/unbounded_queue_lf.h\<close>: linearizable
    under safe memory reclamation, calls that run alone return), \<open>Ub_Total\<close> (\<^verbatim>\<open>queue/unbounded_queue_total.h\<close> on the TTAS locks:
    linearizable, no deadlock), \<open>Chaselev\<close> (\<^verbatim>\<open>queue/chaselev.h\<close>: the work-stealing deque is linearizable).
  \<^item> \<open>Buf_Ring\<close> (\<^verbatim>\<open>buf_ring/buf_ring.h\<close>): the FreeBSD ring in its three configurations; with both fixes it refines the MPMC queue.
    \<open>Buf_Ring_Test\<close> (\<^verbatim>\<open>buf_ring/test.c\<close>): the test program passes with both fixes and fails without one of them.
  \<^item> \<open>Pthreads\<close> (the language of the benchmark programs), \<open>Monitor\<close> (programs whose shared data is
    guarded by one mutex), \<open>Sct_Micro\<close>, \<open>Sct_Account\<close>, \<open>Sct_Stack\<close>, \<open>Sct_Races\<close>, \<open>Sct_Deadlocks\<close>: the
    benchmark programs. The correct ones are safe in every interleaving; for the wrong ones there is a
    schedule that ends in the failure, a deadlock or a run that cannot end.

  \<^bold>\<open>Bounds and fuel.\<close> \<open>run_call\<close> runs a call alone for a given number of steps; the sequential theorems
  state that the number they use is enough. The iteration over a bitmap runs for at most one step more
  than the bitmap has bits, which is proved to be enough. Await loops are never given fuel: they are
  steps that are not enabled.

  \<^bold>\<open>Not modelled.\<close> The assembly variants of the atomic operations (\<^verbatim>\<open>arm*.h\<close>) and the variants generated
  for other widths and memory orders, since they differ from the modelled ones in width and in barriers
  only; the C++ programs of \<^verbatim>\<open>convul\<close> and \<^verbatim>\<open>sctbench/chess\<close>; \<^verbatim>\<open>concurrency-bugs\<close>, which holds patches and
  reductions of third-party servers; \<^verbatim>\<open>sctbench/inspect_examples\<close> and \<^verbatim>\<open>inspect_benchmarks\<close>, which are
  merged sources of third-party programs; build files, test drivers and boilerplate. The remaining
  structures of the library are planned after the ones above.
\<close>

end
